(* ===== verification/Prelude.thy ===== *)
theory Prelude
  imports Main "HOL-Library.Monad_Syntax" "HOL-Library.Sublist"
begin

text \<open>
  Vocabulary shared by every component.

  A C array is a list, an array access is \<open>rd\<close> or \<open>wr\<close>: both are
  \<open>None\<close> outside the array, where the C program has undefined behaviour, so a
  function that returns \<open>Some\<close> has stayed inside its arrays. A loop that may not
  end is a \<^theory_text>\<open>partial_function (option)\<close>, for which \<open>None\<close> is also the
  outcome of a run that never returns.

  \<open>c_defs\<close> collects the unfolding equations of the small C vocabulary.
\<close>

named_theorems c_defs

definition rd :: "'a list \<Rightarrow> nat \<Rightarrow> 'a option" where
  "rd a i = (if i < length a then Some (a ! i) else None)"

definition wr :: "'a list \<Rightarrow> nat \<Rightarrow> 'a \<Rightarrow> 'a list option" where
  "wr a i v = (if i < length a then Some (a[i := v]) else None)"

lemma rd_in [simp]: "i < length a \<Longrightarrow> rd a i = Some (a ! i)"
  by (simp add: rd_def)

lemma rd_out [simp]: "length a \<le> i \<Longrightarrow> rd a i = None"
  by (simp add: rd_def)

lemma wr_in [simp]: "i < length a \<Longrightarrow> wr a i v = Some (a[i := v])"
  by (simp add: wr_def)

lemma wr_out [simp]: "length a \<le> i \<Longrightarrow> wr a i v = None"
  by (simp add: wr_def)

lemma rd_eq_Some: "rd a i = Some v \<longleftrightarrow> i < length a \<and> a ! i = v"
  by (auto simp: rd_def)

lemma wr_eq_Some: "wr a i v = Some b \<longleftrightarrow> i < length a \<and> b = a[i := v]"
  by (auto simp: wr_def)

text \<open>The storage of a C string: its characters and the terminating NUL.\<close>

abbreviation NUL :: char where
  "NUL \<equiv> CHR 0x00"

definition cstr :: "string \<Rightarrow> string" where
  "cstr s = s @ [NUL]"

lemma length_cstr [simp]: "length (cstr s) = Suc (length s)"
  by (simp add: cstr_def)

lemma cstr_nth [simp]: "i < length s \<Longrightarrow> cstr s ! i = s ! i"
  by (simp add: cstr_def nth_append)

lemma cstr_end [simp]: "cstr s ! length s = NUL"
  by (simp add: cstr_def)

text \<open>Suffixes of a string that grows by one character.\<close>

lemma suffix_snoc_snoc: "suffix (xs @ [x]) (ys @ [y]) \<longleftrightarrow> x = y \<and> suffix xs ys"
  by (auto simp: suffix_def)

lemma take_Suc_snoc: "i < length xs \<Longrightarrow> take (Suc i) xs = take i xs @ [xs ! i]"
  by (rule take_Suc_conv_app_nth)

lemma suffix_take_Suc:
  assumes "m < length p" and "i < length s"
  shows "suffix (take (Suc m) p) (take (Suc i) s) \<longleftrightarrow> p ! m = s ! i \<and> suffix (take m p) (take i s)"
  using assms by (simp add: take_Suc_snoc suffix_snoc_snoc)

text \<open>
  \<^verbatim>\<open>memcpy\<close>, \<^verbatim>\<open>memmove\<close> (from a snapshot of the source) and \<^verbatim>\<open>memset\<close> of \<open>n\<close> elements
  into an array from index \<open>i\<close> on; \<open>None\<close> when they leave the source or the target.
\<close>

definition blit :: "'a list \<Rightarrow> nat \<Rightarrow> 'a list \<Rightarrow> nat \<Rightarrow> 'a list option" where
  "blit a i src n =
     (if i + n \<le> length a \<and> n \<le> length src
      then Some (take i a @ take n src @ drop (i + n) a) else None)"

definition fill :: "'a list \<Rightarrow> nat \<Rightarrow> 'a \<Rightarrow> nat \<Rightarrow> 'a list option" where
  "fill a i c n =
     (if i + n \<le> length a then Some (take i a @ replicate n c @ drop (i + n) a) else None)"

lemma blit_in [simp]:
  "i + n \<le> length a \<Longrightarrow> n \<le> length src \<Longrightarrow> blit a i src n = Some (take i a @ take n src @ drop (i + n) a)"
  by (simp add: blit_def)

lemma fill_in [simp]:
  "i + n \<le> length a \<Longrightarrow> fill a i c n = Some (take i a @ replicate n c @ drop (i + n) a)"
  by (simp add: fill_def)

text \<open>
  Conversions: \<open>size_t\<close> to an unsigned 64-bit value, \<open>u32\<close> and \<open>int32\<close> to an unsigned
  and a signed 32-bit value. A byte is a \<^typ>\<open>char\<close>; \<open>code\<close> is its unsigned value.
\<close>

definition size_t :: "int \<Rightarrow> nat" where
  "size_t x = nat (x mod 2 ^ 64)"

definition u32 :: "int \<Rightarrow> nat" where
  "u32 x = nat (x mod 2 ^ 32)"

definition int32 :: "int \<Rightarrow> int" where
  "int32 x = (x + 2 ^ 31) mod 2 ^ 32 - 2 ^ 31"

lemma size_t_id [simp]: "0 \<le> x \<Longrightarrow> x < 2 ^ 64 \<Longrightarrow> size_t x = nat x"
  by (simp add: size_t_def)

lemma size_t_int [simp]: "n < 2 ^ 64 \<Longrightarrow> size_t (int n) = n"
  by (simp add: size_t_def)

lemma size_t_pred: "0 < n \<Longrightarrow> n < 2 ^ 64 \<Longrightarrow> size_t (int n - 1) = n - 1"
  using size_t_int[of "n - 1"] by (simp add: of_nat_diff)

lemma size_t_succ: "n + 1 < 2 ^ 64 \<Longrightarrow> size_t (int n + 1) = n + 1"
  by (metis of_nat_1 of_nat_add size_t_int)

lemma u32_id [simp]: "0 \<le> x \<Longrightarrow> x < 2 ^ 32 \<Longrightarrow> u32 x = nat x"
  by (simp add: u32_def)

lemma int32_id [simp]: "- (2 ^ 31) \<le> x \<Longrightarrow> x < 2 ^ 31 \<Longrightarrow> int32 x = x"
  by (simp add: int32_def)

lemma int32_range: "- (2 ^ 31) \<le> int32 x \<and> int32 x < 2 ^ 31"
  by (simp add: int32_def)

definition code :: "char \<Rightarrow> nat" where
  "code c = of_char c"

lemma code_less [simp]: "code c < 256"
  by (simp add: code_def)

text \<open>The character classes of \<^verbatim>\<open>ctype.h\<close> in the C locale.\<close>

definition isspace :: "char \<Rightarrow> bool" where
  "isspace c \<longleftrightarrow> code c = 32 \<or> 9 \<le> code c \<and> code c \<le> 13"

definition isprint :: "char \<Rightarrow> bool" where
  "isprint c \<longleftrightarrow> 32 \<le> code c \<and> code c \<le> 126"

definition tolower :: "char \<Rightarrow> char" where
  "tolower c = (if 65 \<le> code c \<and> code c \<le> 90 then char_of (code c + 32) else c)"

definition toupper :: "char \<Rightarrow> char" where
  "toupper c = (if 97 \<le> code c \<and> code c \<le> 122 then char_of (code c - 32) else c)"

text \<open>\<^verbatim>\<open>strlen\<close> of a memory: the bytes before the first NUL; \<open>None\<close> when there is none.\<close>

fun strlen :: "string \<Rightarrow> nat option" where
  "strlen [] = None"
| "strlen (c # s) = (if c = NUL then Some 0 else map_option Suc (strlen s))"

lemma strlen_cstr [simp]: "NUL \<notin> set s \<Longrightarrow> strlen (cstr s) = Some (length s)"
  by (induction s) (auto simp: cstr_def)

text \<open>The decimal digits of a number, as \<^verbatim>\<open>printf\<close> writes them.\<close>

fun dec :: "nat \<Rightarrow> string" where
  "dec n = (if n < 10 then [char_of (48 + n)] else dec (n div 10) @ [char_of (48 + n mod 10)])"

declare dec.simps [simp del]

lemma dec_nonempty [simp]: "dec n \<noteq> []"
  by (subst dec.simps) simp

lemma length_dec: "n < 10 ^ k \<Longrightarrow> 0 < k \<Longrightarrow> length (dec n) \<le> k"
proof (induction k arbitrary: n)
  case (Suc k)
  show ?case
  proof (cases "n < 10")
    case True
    then show ?thesis by (subst dec.simps) simp
  next
    case False
    with Suc.prems have "n div 10 < 10 ^ k" "0 < k" by (auto simp: less_mult_imp_div_less intro: gr0I)
    with False Suc.IH [of "n div 10"] show ?thesis by (subst dec.simps) simp
  qed
qed simp

text \<open>An allocator says what bytes a fresh block of a size holds, or \<^term>\<open>None\<close> when there is no memory.\<close>

type_synonym allocator = "nat \<Rightarrow> (nat \<Rightarrow> char) option"

definition s_malloc :: "allocator \<Rightarrow> nat \<Rightarrow> string option" where
  "s_malloc mal n = map_option (\<lambda>f. map f [0..<n]) (mal n)"

end
