(* ===== verification/Btree.thy ===== *)
theory Btree
  imports Prelude
begin

text \<open>
  \<^verbatim>\<open>2_btree/btree.h\<close> and \<^verbatim>\<open>2_btree/btree.c\<close>: the B-tree. A pointer to a node is a number, 0 the null pointer, and
  \<open>node_mem\<close> is the memory of the nodes: a node that has been freed is not in it. \<open>None\<close> is a
  failed \<open>assert\<close>, an access outside of an array or through a pointer to no node, or a recursion that does
  not end.
  A C index \<open>i\<close> that runs down to -1 is represented by \<open>i + 1\<close>.
\<close>

record btree_node =
  keys :: "int list"
  children :: "nat list"
  keyNum :: nat
  isLeaf :: bool

record btree =
  root :: nat
  kMaxNum :: nat
  kMinNum :: nat
  kMidIdx :: nat
  order :: nat
  node_mem :: "nat \<Rightarrow> btree_node option"

text \<open>Where \<^verbatim>\<open>malloc\<close> puts the next node.\<close>

type_synonym node_alloc = "(nat \<Rightarrow> btree_node option) \<Rightarrow> nat option"

definition put_node :: "btree \<Rightarrow> nat \<Rightarrow> btree_node \<Rightarrow> btree" where
  "put_node t p nd = t\<lparr>node_mem := (node_mem t)(p := Some nd)\<rparr>"

definition create_node :: "node_alloc \<Rightarrow> btree \<Rightarrow> bool \<Rightarrow> (nat \<times> btree) option" where
  "create_node new t leaf =
     new (node_mem t) \<bind> (\<lambda>p.
       Some (p, put_node t p \<lparr>keys = replicate (kMaxNum t) 0, children = replicate (order t) 0, keyNum = 0, isLeaf = leaf\<rparr>))"

subsection \<open>Splitting\<close>

function split_shift :: "nat \<Rightarrow> nat \<Rightarrow> btree_node \<Rightarrow> (nat \<times> btree_node) option" where
  "split_shift n j nd =
     (if n < j
      then rd (keys nd) (j - 1) \<bind> (\<lambda>k. wr (keys nd) j k \<bind> (\<lambda>ks.
        rd (children nd) j \<bind> (\<lambda>c. wr (children nd) (j + 1) c \<bind> (\<lambda>cs.
          split_shift n (j - 1) (nd\<lparr>keys := ks, children := cs\<rparr>)))))
      else Some (j, nd))"
  by pat_completeness auto
termination by (relation "measure (\<lambda>(n, j, nd). j)") auto

declare split_shift.simps [simp del]

function split_copy :: "nat \<Rightarrow> btree_node \<Rightarrow> nat \<Rightarrow> nat \<Rightarrow> btree_node \<Rightarrow> btree_node option" where
  "split_copy m src i j nd =
     (if i < m
      then rd (keys src) i \<bind> (\<lambda>k. wr (keys nd) j k \<bind> (\<lambda>ks.
        rd (children src) i \<bind> (\<lambda>c. wr (children nd) j c \<bind> (\<lambda>cs.
          split_copy m src (i + 1) (j + 1) (nd\<lparr>keys := ks, children := cs\<rparr>)))))
      else rd (children src) i \<bind> (\<lambda>c. wr (children nd) j c \<bind> (\<lambda>cs. Some (nd\<lparr>children := cs\<rparr>))))"
  by pat_completeness auto
termination by (relation "measure (\<lambda>(m, src, i, j, nd). m - i)") auto

declare split_copy.simps [simp del]

definition split_child :: "node_alloc \<Rightarrow> btree \<Rightarrow> nat \<Rightarrow> nat \<Rightarrow> btree option" where
  "split_child new t par n =
     (if kMaxNum t < n then None
      else node_mem t par \<bind> (\<lambda>p. rd (children p) n \<bind> (\<lambda>splitChild. node_mem t splitChild \<bind> (\<lambda>c.
        create_node new t (isLeaf c) \<bind> (\<lambda>(newSibling, t).
          split_shift n (keyNum p) p \<bind> (\<lambda>(i, p).
            rd (keys c) (kMidIdx t) \<bind> (\<lambda>k. wr (keys p) i k \<bind> (\<lambda>ks. wr (children p) (i + 1) newSibling \<bind> (\<lambda>cs.
              node_mem t newSibling \<bind> (\<lambda>s. split_copy (kMaxNum t) c (kMidIdx t + 1) 0 s \<bind> (\<lambda>s.
                Some (put_node (put_node (put_node t splitChild (c\<lparr>keyNum := kMinNum t\<rparr>)) newSibling (s\<lparr>keyNum := kMinNum t\<rparr>))
                  par (p\<lparr>keys := ks, children := cs, keyNum := keyNum p + 1\<rparr>)))))))))))))"

subsection \<open>Insertion\<close>

fun leaf_shift :: "int \<Rightarrow> nat \<Rightarrow> int list \<Rightarrow> (nat \<times> int list) option" where
  "leaf_shift key 0 ks = Some (0, ks)"
| "leaf_shift key (Suc i) ks =
     rd ks i \<bind> (\<lambda>k. if key < k then wr ks (i + 1) k \<bind> (\<lambda>ks. leaf_shift key i ks) else Some (i + 1, ks))"

fun find_child :: "int \<Rightarrow> nat \<Rightarrow> int list \<Rightarrow> nat option" where
  "find_child key 0 ks = Some 0"
| "find_child key (Suc i) ks = rd ks i \<bind> (\<lambda>k. if key < k then find_child key i ks else Some (i + 1))"

text \<open>The key at a C index \<open>i\<close> that may be -1, given as \<open>i + 1\<close>: \<^verbatim>\<open>keys[-1]\<close> is outside of the array.\<close>

definition key_at :: "btree_node \<Rightarrow> nat \<Rightarrow> int option" where
  "key_at nd i = (if i = 0 then None else rd (keys nd) (i - 1))"

partial_function (option) insert_notfull :: "node_alloc \<Rightarrow> btree \<Rightarrow> nat \<Rightarrow> int \<Rightarrow> btree option" where
  "insert_notfull new t node key =
     node_mem t node \<bind> (\<lambda>nd.
       if isLeaf nd
       then leaf_shift key (keyNum nd) (keys nd) \<bind> (\<lambda>(i, ks). wr ks i key \<bind> (\<lambda>ks.
         Some (put_node t node (nd\<lparr>keys := ks, keyNum := keyNum nd + 1\<rparr>))))
       else find_child key (keyNum nd) (keys nd) \<bind> (\<lambda>i. rd (children nd) i \<bind> (\<lambda>c. node_mem t c \<bind> (\<lambda>cn.
         (if keyNum cn = kMaxNum t then split_child new t node i \<bind> (\<lambda>t. Some (i + 1, t)) else Some (i, t)) \<bind> (\<lambda>(i, t).
           node_mem t node \<bind> (\<lambda>nd. key_at nd i \<bind> (\<lambda>k.
             if k < key then rd (children nd) i \<bind> (\<lambda>c. insert_notfull new t c key)
             else rd (children nd) (i - 1) \<bind> (\<lambda>c. insert_notfull new t c key))))))))"

declare insert_notfull.simps [code]

definition btree_insert :: "node_alloc \<Rightarrow> btree \<Rightarrow> int \<Rightarrow> btree option" where
  "btree_insert new t key =
     node_mem t (root t) \<bind> (\<lambda>nd.
       if keyNum nd = kMaxNum t
       then create_node new t False \<bind> (\<lambda>(r, t).
         node_mem t r \<bind> (\<lambda>rn. wr (children rn) 0 (root t) \<bind> (\<lambda>cs.
           split_child new ((put_node t r (rn\<lparr>children := cs\<rparr>))\<lparr>root := r\<rparr>) r 0 \<bind> (\<lambda>t.
             node_mem t r \<bind> (\<lambda>rn. rd (keys rn) 0 \<bind> (\<lambda>k.
               rd (children rn) (if key < k then 0 else 1) \<bind> (\<lambda>c. insert_notfull new t c key)))))))
       else insert_notfull new t (root t) key)"

definition btree_init_tree :: "node_alloc \<Rightarrow> int \<Rightarrow> (int \<times> btree option) option" where
  "btree_init_tree new ord =
     (if ord < 2 then Some (- 1, None)
      else if 2 ^ 31 \<le> ord + ord mod 2 then None
      else (let even = nat (ord + ord mod 2); mid = even div 2 - 1
            in create_node new \<lparr>root = 0, kMaxNum = nat ord - 1, kMinNum = mid, kMidIdx = mid, order = even, node_mem = Map.empty\<rparr> True
               \<bind> (\<lambda>(p, t). Some (0, Some (t\<lparr>root := p\<rparr>)))))"

subsection \<open>Deletion\<close>

definition destroy_node :: "btree \<Rightarrow> nat \<Rightarrow> btree" where
  "destroy_node t p = t\<lparr>node_mem := (node_mem t)(p := None)\<rparr>"

function merge_copy :: "btree_node \<Rightarrow> nat \<Rightarrow> nat \<Rightarrow> btree_node \<Rightarrow> btree_node option" where
  "merge_copy r i j l =
     (if j < keyNum r
      then rd (keys r) j \<bind> (\<lambda>k. wr (keys l) i k \<bind> (\<lambda>ks.
        rd (children r) j \<bind> (\<lambda>c. wr (children l) i c \<bind> (\<lambda>cs.
          merge_copy r (i + 1) (j + 1) (l\<lparr>keys := ks, children := cs\<rparr>)))))
      else rd (children r) j \<bind> (\<lambda>c. wr (children l) i c \<bind> (\<lambda>cs. Some (l\<lparr>children := cs\<rparr>))))"
  by pat_completeness auto
termination by (relation "measure (\<lambda>(r, i, j, l). keyNum r - j)") auto

declare merge_copy.simps [simp del]

function merge_shift :: "nat \<Rightarrow> btree_node \<Rightarrow> btree_node option" where
  "merge_shift i p =
     (if i < keyNum p - 1
      then rd (keys p) (i + 1) \<bind> (\<lambda>k. wr (keys p) i k \<bind> (\<lambda>ks.
        rd (children p) (i + 2) \<bind> (\<lambda>c. wr (children p) (i + 1) c \<bind> (\<lambda>cs.
          merge_shift (i + 1) (p\<lparr>keys := ks, children := cs\<rparr>)))))
      else wr (children p) (i + 1) 0 \<bind> (\<lambda>cs. Some (p\<lparr>children := cs\<rparr>)))"
  by pat_completeness auto
termination by (relation "measure (\<lambda>(i, p). keyNum p - i)") auto

declare merge_shift.simps [simp del]

definition merge_children :: "btree \<Rightarrow> nat \<Rightarrow> nat \<Rightarrow> btree option" where
  "merge_children t par n =
     node_mem t par \<bind> (\<lambda>p. rd (children p) n \<bind> (\<lambda>leftChild. rd (children p) (n + 1) \<bind> (\<lambda>rightChild.
       node_mem t leftChild \<bind> (\<lambda>l. node_mem t rightChild \<bind> (\<lambda>r.
         rd (keys p) n \<bind> (\<lambda>k. wr (keys l) (keyNum l) k \<bind> (\<lambda>ks.
           merge_copy r (keyNum l + 1) 0 (l\<lparr>keys := ks\<rparr>) \<bind> (\<lambda>l'.
             merge_shift n p \<bind> (\<lambda>p.
               (let t = destroy_node (put_node t leftChild (l'\<lparr>keyNum := keyNum l + (1 + keyNum r)\<rparr>)) rightChild;
                    p = p\<lparr>keyNum := keyNum p - 1\<rparr>
                in Some (if keyNum p = 0 then destroy_node (t\<lparr>root := leftChild\<rparr>) par else put_node t par p)))))))))))"

fun find_key :: "int \<Rightarrow> nat \<Rightarrow> nat \<Rightarrow> int list \<Rightarrow> nat option" where
  "find_key key 0 i ks = Some i"
| "find_key key (Suc m) i ks = rd ks i \<bind> (\<lambda>k. if k < key then find_key key m (i + 1) ks else Some i)"

fun leaf_close :: "nat \<Rightarrow> nat \<Rightarrow> int list \<Rightarrow> int list option" where
  "leaf_close 0 i ks = Some ks"
| "leaf_close (Suc m) i ks = rd ks (i + 1) \<bind> (\<lambda>k. wr ks i k \<bind> (\<lambda>ks. leaf_close m (i + 1) ks))"

fun right_close :: "nat \<Rightarrow> nat \<Rightarrow> btree_node \<Rightarrow> btree_node option" where
  "right_close 0 i r =
     rd (children r) (i + 1) \<bind> (\<lambda>c. wr (children r) i c \<bind> (\<lambda>cs. wr cs (i + 1) 0 \<bind> (\<lambda>cs. Some (r\<lparr>children := cs\<rparr>))))"
| "right_close (Suc m) i r =
     rd (keys r) (i + 1) \<bind> (\<lambda>k. wr (keys r) i k \<bind> (\<lambda>ks. rd (children r) (i + 1) \<bind> (\<lambda>c. wr (children r) i c \<bind> (\<lambda>cs.
       right_close m (i + 1) (r\<lparr>keys := ks, children := cs\<rparr>)))))"

fun left_open :: "nat \<Rightarrow> btree_node \<Rightarrow> btree_node option" where
  "left_open 0 c = rd (children c) 0 \<bind> (\<lambda>x. wr (children c) 1 x \<bind> (\<lambda>cs. Some (c\<lparr>children := cs\<rparr>)))"
| "left_open (Suc i) c =
     rd (keys c) i \<bind> (\<lambda>k. wr (keys c) (i + 1) k \<bind> (\<lambda>ks. rd (children c) (i + 1) \<bind> (\<lambda>x. wr (children c) (i + 2) x \<bind> (\<lambda>cs.
       left_open i (c\<lparr>keys := ks, children := cs\<rparr>)))))"

definition borrow_right :: "btree \<Rightarrow> nat \<Rightarrow> nat \<Rightarrow> nat \<Rightarrow> nat \<Rightarrow> btree option" where
  "borrow_right t node i child rightSibling =
     node_mem t node \<bind> (\<lambda>p. node_mem t child \<bind> (\<lambda>c. node_mem t rightSibling \<bind> (\<lambda>r.
       rd (keys p) i \<bind> (\<lambda>k. wr (keys c) (keyNum c) k \<bind> (\<lambda>cks.
         rd (children r) 0 \<bind> (\<lambda>x. wr (children c) (keyNum c + 1) x \<bind> (\<lambda>ccs.
           rd (keys r) 0 \<bind> (\<lambda>k. wr (keys p) i k \<bind> (\<lambda>pks.
             right_close (keyNum r - 1) 0 r \<bind> (\<lambda>r.
               Some (put_node (put_node (put_node t node (p\<lparr>keys := pks\<rparr>)) child (c\<lparr>keys := cks, children := ccs, keyNum := keyNum c + 1\<rparr>))
                 rightSibling (r\<lparr>keyNum := keyNum r - 1\<rparr>))))))))))))"

definition borrow_left :: "btree \<Rightarrow> nat \<Rightarrow> nat \<Rightarrow> nat \<Rightarrow> nat \<Rightarrow> btree option" where
  "borrow_left t node i child leftSibling =
     node_mem t node \<bind> (\<lambda>p. node_mem t child \<bind> (\<lambda>c. node_mem t leftSibling \<bind> (\<lambda>l.
       left_open (keyNum c) c \<bind> (\<lambda>c.
         rd (keys p) (i - 1) \<bind> (\<lambda>k. wr (keys c) 0 k \<bind> (\<lambda>cks.
           rd (children l) (keyNum l) \<bind> (\<lambda>x. wr (children c) 0 x \<bind> (\<lambda>ccs. wr (children l) (keyNum l) 0 \<bind> (\<lambda>lcs.
             rd (keys l) (keyNum l - 1) \<bind> (\<lambda>k. wr (keys p) (i - 1) k \<bind> (\<lambda>pks.
               Some (put_node (put_node (put_node t node (p\<lparr>keys := pks\<rparr>)) child (c\<lparr>keys := cks, children := ccs, keyNum := keyNum c + 1\<rparr>))
                 leftSibling (l\<lparr>children := lcs, keyNum := keyNum l - 1\<rparr>)))))))))))))"

text \<open>Branch 2.1: the child gets another key before it is entered; the result is the child to enter.\<close>

definition sibling :: "btree \<Rightarrow> nat \<Rightarrow> (btree_node option) option" where
  "sibling t p = (if p = 0 then Some None else node_mem t p \<bind> (\<lambda>nd. Some (Some nd)))"

definition fill_child :: "btree \<Rightarrow> nat \<Rightarrow> nat \<Rightarrow> (nat \<times> btree) option" where
  "fill_child t node i =
     node_mem t node \<bind> (\<lambda>nd. rd (children nd) i \<bind> (\<lambda>child. node_mem t child \<bind> (\<lambda>c.
       if kMinNum t < keyNum c then Some (child, t)
       else (if 0 < i then rd (children nd) (i - 1) else Some 0) \<bind> (\<lambda>leftSibling.
         (if i + 1 \<le> keyNum nd then rd (children nd) (i + 1) else Some 0) \<bind> (\<lambda>rightSibling.
           sibling t rightSibling \<bind> (\<lambda>r.
             if (case r of None \<Rightarrow> False | Some r \<Rightarrow> kMinNum t < keyNum r)
             then borrow_right t node i child rightSibling \<bind> (\<lambda>t. Some (child, t))
             else sibling t leftSibling \<bind> (\<lambda>l.
               if (case l of None \<Rightarrow> False | Some l \<Rightarrow> kMinNum t < keyNum l)
               then borrow_left t node i child leftSibling \<bind> (\<lambda>t. Some (child, t))
               else if r \<noteq> None then merge_children t node i \<bind> (\<lambda>t. Some (child, t))
               else if l \<noteq> None then merge_children t node (i - 1) \<bind> (\<lambda>t. Some (leftSibling, t))
               else None)))))))"

text \<open>The result says whether "there is no such key in tree!" was printed.\<close>

partial_function (option) delete_key :: "btree \<Rightarrow> nat \<Rightarrow> int \<Rightarrow> (bool \<times> btree) option" where
  "delete_key t node key =
     (if node = 0 then Some (False, t)
      else node_mem t node \<bind> (\<lambda>nd.
        if keyNum nd = 0 then Some (False, t)
        else find_key key (keyNum nd) 0 (keys nd) \<bind> (\<lambda>i.
          (if i < keyNum nd then rd (keys nd) i \<bind> (\<lambda>k. Some (k = key)) else Some False) \<bind> (\<lambda>found.
            if found
            then if isLeaf nd
              then leaf_close (keyNum nd - 1 - i) i (keys nd) \<bind> (\<lambda>ks.
                Some (False, put_node t node (nd\<lparr>keys := ks, keyNum := keyNum nd - 1\<rparr>)))
              else rd (children nd) (i + 1) \<bind> (\<lambda>r. node_mem t r \<bind> (\<lambda>rn.
                if kMinNum t \<le> keyNum rn
                then rd (keys rn) 0 \<bind> (\<lambda>k. wr (keys nd) i k \<bind> (\<lambda>ks.
                  delete_key (put_node t node (nd\<lparr>keys := ks\<rparr>)) r k))
                else rd (children nd) i \<bind> (\<lambda>l. node_mem t l \<bind> (\<lambda>ln.
                  if kMinNum t \<le> keyNum ln
                  then rd (keys ln) 0 \<bind> (\<lambda>k. wr (keys nd) i k \<bind> (\<lambda>ks.
                    rd (keys ln) (keyNum nd - 1) \<bind> (\<lambda>k.
                      delete_key (put_node t node (nd\<lparr>keys := ks\<rparr>)) l k)))
                  else merge_children t node i \<bind> (\<lambda>t.
                    node_mem t node \<bind> (\<lambda>nd. rd (children nd) i \<bind> (\<lambda>c. delete_key t c key)))))))
            else rd (children nd) i \<bind> (\<lambda>child.
              if child = 0 then Some (True, t)
              else fill_child t node i \<bind> (\<lambda>(child, t). delete_key t child key))))))"

declare delete_key.simps [code]

definition btree_delete :: "btree \<Rightarrow> int \<Rightarrow> (bool \<times> btree) option" where
  "btree_delete t key = delete_key t (root t) key"

subsection \<open>Printing\<close>

text \<open>A layer, the number of keys, whether the node is a leaf, and its keys; the stack holds the calls to come.\<close>

type_synonym bt_line = "nat \<times> nat \<times> bool \<times> int list"

partial_function (option) traversal_calls :: "btree \<Rightarrow> (nat \<times> nat) list \<Rightarrow> bt_line list \<Rightarrow> bt_line list option" where
  "traversal_calls t st out =
     (case st of
        [] \<Rightarrow> Some out
      | (p, lvl) # st \<Rightarrow>
          if p = 0 then traversal_calls t st out
          else node_mem t p \<bind> (\<lambda>nd.
            if keyNum nd \<le> length (keys nd) \<and> keyNum nd < length (children nd)
            then traversal_calls t (map (\<lambda>c. (c, lvl + 1)) (take (keyNum nd + 1) (children nd)) @ st)
              (out @ [(lvl + 1, keyNum nd, isLeaf nd, take (keyNum nd) (keys nd))])
            else None))"

declare traversal_calls.simps [code]

definition btree_traversal :: "btree \<Rightarrow> bt_line list option" where
  "btree_traversal t = traversal_calls t [(root t, 0)] []"

end
