(* ===== verification/Btree_Arrays.thy ===== *)
theory Btree_Arrays
  imports Btree
begin

text \<open>What the loops of \<^verbatim>\<open>btree.c\<close> do to the arrays of a node.\<close>

text \<open>The elements from \<open>n\<close> to \<open>j - 1\<close> move up by one; the elements from \<open>n + 1\<close> to \<open>m\<close> move down by one.\<close>

definition shift_up :: "nat \<Rightarrow> nat \<Rightarrow> 'a list \<Rightarrow> 'a list" where
  "shift_up n j xs = map (\<lambda>x. if n < x \<and> x \<le> j then xs ! (x - 1) else xs ! x) [0..<length xs]"

definition shift_down :: "nat \<Rightarrow> nat \<Rightarrow> 'a list \<Rightarrow> 'a list" where
  "shift_down n m xs = map (\<lambda>x. if n \<le> x \<and> x < m then xs ! (x + 1) else xs ! x) [0..<length xs]"

lemma length_shift [simp]: "length (shift_up n j xs) = length xs" "length (shift_down n m xs) = length xs"
  by (simp_all add: shift_up_def shift_down_def)

lemma nth_shift [simp]:
  "x < length xs \<Longrightarrow> shift_up n j xs ! x = (if n < x \<and> x \<le> j then xs ! (x - 1) else xs ! x)"
  "x < length xs \<Longrightarrow> shift_down n m xs ! x = (if n \<le> x \<and> x < m then xs ! (x + 1) else xs ! x)"
  by (simp_all add: shift_up_def shift_down_def)

lemma shift_up_id: "j \<le> n \<Longrightarrow> shift_up n j xs = xs"
  by (rule nth_equalityI) auto

lemma shift_down_id: "m \<le> n \<Longrightarrow> shift_down n m xs = xs"
  by (rule nth_equalityI) auto

lemma shift_up_step: "n < j \<Longrightarrow> j < length xs \<Longrightarrow> shift_up n (j - 1) (xs[j := xs ! (j - 1)]) = shift_up n j xs"
  by (rule nth_equalityI) (auto simp: nth_list_update)

lemma shift_down_step: "n < m \<Longrightarrow> m < length xs \<Longrightarrow> shift_down (n + 1) m (xs[n := xs ! (n + 1)]) = shift_down n m xs"
  by (rule nth_equalityI) (auto simp: nth_list_update)

lemma take_shift_up:
  assumes "n \<le> j" "j < length xs"
  shows "take (j + 1) ((shift_up n j xs)[n := v]) = take n xs @ v # drop n (take j xs)"
  using assms by (intro nth_equalityI) (auto simp: nth_append nth_Cons nth_list_update split: nat.split intro!: arg_cong[where f="(!) xs"])

lemma take_shift_down:
  assumes "n \<le> m" "m < length xs"
  shows "take m (shift_down n m xs) = take n xs @ drop (n + 1) (take (m + 1) xs)"
  using assms by (intro nth_equalityI) (auto simp: nth_append)

subsection \<open>The loops\<close>

lemma split_shift_eq:
  assumes "n \<le> j" "j < length (keys nd)" "j + 1 < length (children nd)"
  shows "split_shift n j nd = Some (n, nd\<lparr>keys := shift_up n j (keys nd), children := shift_up (n + 1) (j + 1) (children nd)\<rparr>)"
  using assms
proof (induction n j nd rule: split_shift.induct)
  case (1 n j nd)
  show ?case
  proof (cases "n < j")
    case True
    note s = shift_up_step[of n j "keys nd"] shift_up_step[of "n + 1" "j + 1" "children nd"]
    show ?thesis using True 1 s by (subst split_shift.simps) simp
  next
    case False
    then show ?thesis using 1(2) by (subst split_shift.simps) (simp add: shift_up_id)
  qed
qed

text \<open>Where a key belongs in a part of an array that is searched from the end or from the start.\<close>

definition upper :: "int \<Rightarrow> nat \<Rightarrow> nat \<Rightarrow> int list \<Rightarrow> bool" where
  "upper key i j ks \<longleftrightarrow> i \<le> j \<and> (0 < i \<longrightarrow> ks ! (i - 1) \<le> key) \<and> (\<forall>x. i \<le> x \<longrightarrow> x < j \<longrightarrow> key < ks ! x)"

definition lower :: "int \<Rightarrow> nat \<Rightarrow> nat \<Rightarrow> int list \<Rightarrow> bool" where
  "lower key i j ks \<longleftrightarrow> i \<le> j \<and> (\<forall>x<i. ks ! x < key) \<and> (i < j \<longrightarrow> key \<le> ks ! i)"

lemma upper_step: "key < ks ! j \<Longrightarrow> upper key i j ks \<Longrightarrow> upper key i (Suc j) ks"
  by (auto simp: upper_def less_Suc_eq)

lemma leaf_shift_eq:
  "j < length ks \<Longrightarrow> \<exists>i. leaf_shift key j ks = Some (i, shift_up i j ks) \<and> upper key i j ks"
proof (induction key j ks rule: leaf_shift.induct)
  case (1 key ks)
  then show ?case by (simp add: shift_up_id upper_def)
next
  case (2 key j ks)
  show ?case
  proof (cases "key < ks ! j")
    case True
    let ?ks = "ks[j + 1 := ks ! j]"
    have "\<exists>i. leaf_shift key j ?ks = Some (i, shift_up i j ?ks) \<and> upper key i j ?ks" using 2 True by auto
    then obtain i where i: "leaf_shift key j ?ks = Some (i, shift_up i j ?ks)" "upper key i j ?ks" by blast
    then have u: "upper key i j ks" using 2(2) by (auto simp: upper_def)
    have "shift_up i j ?ks = shift_up i (Suc j) ks" using shift_up_step[of i "Suc j" ks] u 2(2) by (simp add: upper_def)
    then show ?thesis using i(1) upper_step[OF True u] 2(2) True by simp
  next
    case False
    then show ?thesis using 2(2) by (intro exI[of _ "j + 1"]) (simp add: shift_up_id upper_def)
  qed
qed

lemma find_child_eq: "j \<le> length ks \<Longrightarrow> \<exists>i. find_child key j ks = Some i \<and> upper key i j ks"
proof (induction key j ks rule: find_child.induct)
  case (1 key ks)
  then show ?case by (simp add: upper_def)
next
  case (2 key j ks)
  show ?case
  proof (cases "key < ks ! j")
    case True
    with 2 obtain i where "find_child key j ks = Some i" "upper key i j ks" by auto
    then show ?thesis using 2(2) True upper_step[OF True] by auto
  next
    case False
    then show ?thesis using 2(2) by (auto simp: upper_def)
  qed
qed

lemma find_key_eq:
  "i + m \<le> length ks \<Longrightarrow> \<forall>x<i. ks ! x < key \<Longrightarrow> \<exists>r. find_key key m i ks = Some r \<and> lower key r (i + m) ks"
proof (induction key m i ks rule: find_key.induct)
  case (1 key i ks)
  then show ?case by (simp add: lower_def)
next
  case (2 key m i ks)
  show ?case
  proof (cases "ks ! i < key")
    case True
    have "\<forall>x<i + 1. ks ! x < key" using 2(3) True by (auto simp: less_Suc_eq)
    with 2 True show ?thesis by auto
  next
    case False
    then show ?thesis using 2(2,3) by (auto simp: lower_def)
  qed
qed

lemma split_copy_eq:
  assumes "i + d = m" "m \<le> length (keys src)" "m < length (children src)" "j + d \<le> length (keys nd)" "j + d < length (children nd)"
  shows "split_copy m src i j nd = Some (nd\<lparr>keys := take j (keys nd) @ drop i (take m (keys src)) @ drop (j + d) (keys nd),
    children := take j (children nd) @ drop i (take (m + 1) (children src)) @ drop (j + d + 1) (children nd)\<rparr>)"
  using assms
proof (induction d arbitrary: i j nd)
  case 0
  then show ?case by (subst split_copy.simps) (simp add: upd_conv_take_nth_drop take_Suc_conv_app_nth)
next
  case (Suc d)
  let ?nd = "nd\<lparr>keys := (keys nd)[j := keys src ! i], children := (children nd)[j := children src ! i]\<rparr>"
  have k: "take (j + 1) (keys ?nd) @ drop (i + 1) (take m (keys src)) @ drop (j + 1 + d) (keys ?nd)
      = take j (keys nd) @ drop i (take m (keys src)) @ drop (j + Suc d) (keys nd)"
    using Suc.prems by (simp add: take_Suc_conv_app_nth Cons_nth_drop_Suc[symmetric, of i])
  have c: "take (j + 1) (children ?nd) @ drop (i + 1) (take (m + 1) (children src)) @ drop (j + 1 + d + 1) (children ?nd)
      = take j (children nd) @ drop i (take (m + 1) (children src)) @ drop (j + Suc d + 1) (children nd)"
    using Suc.prems by (simp add: take_Suc_conv_app_nth Cons_nth_drop_Suc[symmetric, of i])
  have "split_copy m src i j nd = split_copy m src (i + 1) (j + 1) ?nd" using Suc.prems by (subst split_copy.simps) simp
  also have "\<dots> = Some (?nd\<lparr>keys := take (j + 1) (keys ?nd) @ drop (i + 1) (take m (keys src)) @ drop (j + 1 + d) (keys ?nd),
    children := take (j + 1) (children ?nd) @ drop (i + 1) (take (m + 1) (children src)) @ drop (j + 1 + d + 1) (children ?nd)\<rparr>)"
    by (rule Suc.IH) (use Suc.prems in simp_all)
  finally show ?case unfolding k c by simp
qed

lemma merge_copy_eq:
  assumes "j + d = keyNum r" "keyNum r \<le> length (keys r)" "keyNum r < length (children r)" "i + d \<le> length (keys l)" "i + d < length (children l)"
  shows "merge_copy r i j l = Some (l\<lparr>keys := take i (keys l) @ drop j (take (keyNum r) (keys r)) @ drop (i + d) (keys l),
    children := take i (children l) @ drop j (take (keyNum r + 1) (children r)) @ drop (i + d + 1) (children l)\<rparr>)"
  using assms
proof (induction d arbitrary: i j l)
  case 0
  then show ?case by (subst merge_copy.simps) (simp add: upd_conv_take_nth_drop take_Suc_conv_app_nth)
next
  case (Suc d)
  let ?l = "l\<lparr>keys := (keys l)[i := keys r ! j], children := (children l)[i := children r ! j]\<rparr>"
  have k: "take (i + 1) (keys ?l) @ drop (j + 1) (take (keyNum r) (keys r)) @ drop (i + 1 + d) (keys ?l)
      = take i (keys l) @ drop j (take (keyNum r) (keys r)) @ drop (i + Suc d) (keys l)"
    using Suc.prems by (simp add: take_Suc_conv_app_nth Cons_nth_drop_Suc[symmetric, of j])
  have c: "take (i + 1) (children ?l) @ drop (j + 1) (take (keyNum r + 1) (children r)) @ drop (i + 1 + d + 1) (children ?l)
      = take i (children l) @ drop j (take (keyNum r + 1) (children r)) @ drop (i + Suc d + 1) (children l)"
    using Suc.prems by (simp add: take_Suc_conv_app_nth Cons_nth_drop_Suc[symmetric, of j])
  have "merge_copy r i j l = merge_copy r (i + 1) (j + 1) ?l" using Suc.prems by (subst merge_copy.simps) simp
  also have "\<dots> = Some (?l\<lparr>keys := take (i + 1) (keys ?l) @ drop (j + 1) (take (keyNum r) (keys r)) @ drop (i + 1 + d) (keys ?l),
    children := take (i + 1) (children ?l) @ drop (j + 1) (take (keyNum r + 1) (children r)) @ drop (i + 1 + d + 1) (children ?l)\<rparr>)"
    by (rule Suc.IH) (use Suc.prems in simp_all)
  finally show ?case unfolding k c by simp
qed

lemma merge_shift_eq:
  assumes "n < keyNum p" "keyNum p \<le> length (keys p)" "keyNum p < length (children p)"
  shows "merge_shift n p = Some (p\<lparr>keys := shift_down n (keyNum p - 1) (keys p), children := (shift_down (n + 1) (keyNum p) (children p))[keyNum p := 0]\<rparr>)"
  using assms
proof (induction "keyNum p - n" arbitrary: n p)
  case (Suc d)
  show ?case
  proof (cases "n < keyNum p - 1")
    case True
    note s = shift_down_step[of n "keyNum p - 1" "keys p"] shift_down_step[of "n + 1" "keyNum p" "children p"]
    let ?p = "p\<lparr>keys := (keys p)[n := keys p ! (n + 1)], children := (children p)[n + 1 := children p ! (n + 2)]\<rparr>"
    have "merge_shift n p = merge_shift (n + 1) ?p" using True Suc.prems by (subst merge_shift.simps) simp
    also have "\<dots> = Some (?p\<lparr>keys := shift_down (n + 1) (keyNum ?p - 1) (keys ?p), children := (shift_down (n + 1 + 1) (keyNum ?p) (children ?p))[keyNum ?p := 0]\<rparr>)"
      by (rule Suc.hyps) (use Suc.hyps(2) Suc.prems True in simp_all)
    finally show ?thesis using s True Suc.prems by simp
  next
    case False
    then have "keyNum p = n + 1" using Suc.prems(1) by simp
    then show ?thesis using Suc.prems by (subst merge_shift.simps) (simp add: shift_down_id)
  qed
qed simp

lemma leaf_close_eq:
  "i + m < length ks \<Longrightarrow> leaf_close m i ks = Some (shift_down i (i + m) ks)"
proof (induction m i ks rule: leaf_close.induct)
  case (2 m i ks)
  then show ?case using shift_down_step[of i "i + Suc m" ks] by simp
qed (simp add: shift_down_id)

lemma right_close_eq:
  assumes "i + m < length (keys r)" "i + m + 1 < length (children r)"
  shows "right_close m i r = Some (r\<lparr>keys := shift_down i (i + m) (keys r), children := (shift_down i (i + m + 1) (children r))[i + m + 1 := 0]\<rparr>)"
  using assms
proof (induction m i r rule: right_close.induct)
  case (1 i r)
  then show ?case using shift_down_step[of i "i + 1" "children r"] by (simp add: shift_down_id)
next
  case (2 m i r)
  then show ?case using shift_down_step[of i "i + Suc m" "keys r"] shift_down_step[of i "i + Suc m + 1" "children r"] by simp
qed

lemma left_open_eq:
  assumes "j < length (keys c)" "j + 1 < length (children c)"
  shows "left_open j c = Some (c\<lparr>keys := shift_up 0 j (keys c), children := shift_up 0 (j + 1) (children c)\<rparr>)"
  using assms
proof (induction j c rule: left_open.induct)
  case (1 c)
  then have "0 < length (children c)" by linarith
  then have "rd (children c) 0 = Some (children c ! 0)" by (rule rd_in)
  then show ?case using 1 shift_up_step[of 0 1 "children c"] by (simp add: shift_up_id)
next
  case (2 i c)
  then show ?case using shift_up_step[of 0 "Suc i" "keys c"] shift_up_step[of 0 "i + 2" "children c"] by simp
qed

end
