(* ===== verification/Btree_Tree.thy ===== *)
theory Btree_Tree
  imports Btree_Arrays
begin

text \<open>
  Which tree a memory of \<^verbatim>\<open>btree.c\<close> holds. A tree carries the addresses of its nodes; a leaf has no subtrees.
\<close>

datatype bt = Nd (adr: nat) (nkeys: "int list") (subs: "bt list")

subsection \<open>The tree in the memory\<close>

definition node_ok :: "btree \<Rightarrow> btree_node \<Rightarrow> int list \<Rightarrow> nat list \<Rightarrow> bool" where
  "node_ok t nd ks cs \<longleftrightarrow> length (keys nd) = kMaxNum t \<and> length (children nd) = order t \<and> keyNum nd = length ks
     \<and> length ks \<le> kMaxNum t \<and> take (length ks) (keys nd) = ks \<and> isLeaf nd = (cs = [])
     \<and> (if cs = [] then children nd = replicate (order t) 0
        else length cs = length ks + 1 \<and> length ks < order t \<and> take (length ks + 1) (children nd) = cs)"

fun stores :: "btree \<Rightarrow> bt \<Rightarrow> bool" where
  "stores t (Nd a ks ts) \<longleftrightarrow> a \<noteq> 0 \<and> (\<exists>nd. node_mem t a = Some nd \<and> node_ok t nd ks (map adr ts)) \<and> (\<forall>s\<in>set ts. stores t s)"

fun node_addrs :: "bt \<Rightarrow> nat list" where
  "node_addrs (Nd a ks ts) = a # concat (map node_addrs ts)"

text \<open>The parameters of the tree, which no operation changes.\<close>

definition same_params :: "btree \<Rightarrow> btree \<Rightarrow> bool" where
  "same_params t t' \<longleftrightarrow> kMaxNum t' = kMaxNum t \<and> kMinNum t' = kMinNum t \<and> kMidIdx t' = kMidIdx t \<and> order t' = order t"

lemma same_params_refl [simp]: "same_params t t"
  by (simp add: same_params_def)

lemma same_params_trans: "same_params t u \<Longrightarrow> same_params u v \<Longrightarrow> same_params t v"
  by (simp add: same_params_def)

lemma node_ok_params: "same_params t t' \<Longrightarrow> node_ok t' nd ks cs = node_ok t nd ks cs"
  by (simp add: node_ok_def same_params_def)

lemma stores_cong:
  "same_params t t' \<Longrightarrow> \<forall>a\<in>set (node_addrs T). node_mem t' a = node_mem t a \<Longrightarrow> stores t T \<Longrightarrow> stores t' T"
  by (induction T) (auto simp: node_ok_params)

lemma stores_adr: "stores t T \<Longrightarrow> a \<in> set (node_addrs T) \<Longrightarrow> a \<noteq> 0 \<and> node_mem t a \<noteq> None"
  by (induction T) auto

lemma adr_in [simp]: "adr T \<in> set (node_addrs T)"
  by (cases T) simp

subsection \<open>Order\<close>

fun post :: "int list \<Rightarrow> int list list \<Rightarrow> int list" where
  "post (k # ks) (x # xs) = k # x @ post ks xs"
| "post _ _ = []"

fun pre :: "int list list \<Rightarrow> int list \<Rightarrow> int list" where
  "pre (x # xs) (k # ks) = x @ k # pre xs ks"
| "pre _ _ = []"

definition mix :: "int list \<Rightarrow> int list list \<Rightarrow> int list" where
  "mix ks xs = (case xs of [] \<Rightarrow> ks | x # xs \<Rightarrow> x @ post ks xs)"

fun inorder :: "bt \<Rightarrow> int list" where
  "inorder (Nd a ks ts) = mix ks (map inorder ts)"

lemma post_append: "length ks = length xs \<Longrightarrow> post (ks @ ls) (xs @ ys) = post ks xs @ post ls ys"
  by (induction ks xs rule: list_induct2) auto

lemma pre_append: "length ks = length xs \<Longrightarrow> pre (xs @ ys) (ks @ ls) = pre xs ks @ pre ys ls"
  by (induction ks xs rule: list_induct2) auto

lemma mix_Nil [simp]: "mix ks [] = ks"
  by (simp add: mix_def)

lemma mix_split:
  "length kl = length ls \<Longrightarrow> mix (kl @ kr) (ls @ x # rs) = pre ls kl @ x @ post kr rs"
proof (induction kl ls rule: list_induct2)
  case Nil
  then show ?case by (simp add: mix_def)
next
  case (Cons k kl l ls)
  then show ?case by (cases ls; cases kl) (simp_all add: mix_def)
qed

lemma set_post: "length ks = length xs \<Longrightarrow> set (post ks xs) = set ks \<union> \<Union> (set ` set xs)"
  by (induction ks xs rule: list_induct2) auto

lemma set_pre: "length ks = length xs \<Longrightarrow> set (pre xs ks) = set ks \<union> \<Union> (set ` set xs)"
  by (induction ks xs rule: list_induct2) auto

lemma last_pre: "length ks = length xs \<Longrightarrow> ks \<noteq> [] \<Longrightarrow> \<exists>ys. pre xs ks = ys @ [last ks]"
proof (induction ks xs rule: list_induct2)
  case (Cons k ks x xs)
  then show ?case by (cases ks; cases xs) auto
qed simp

lemma pre_less:
  assumes "sorted_wrt (<) (pre xs ks)" "length ks = length xs" "ks \<noteq> [] \<longrightarrow> last ks < key" "x \<in> set (pre xs ks)"
  shows "x < key"
proof -
  have ne: "ks \<noteq> []" using assms(2,4) by (cases ks; cases xs) auto
  obtain ys where "pre xs ks = ys @ [last ks]" using last_pre[OF assms(2) ne] by blast
  then show ?thesis using assms(1,3,4) ne by (auto simp: sorted_wrt_append)
qed

lemma post_greater:
  assumes "sorted_wrt (<) (post ks xs)" "length ks = length xs" "ks \<noteq> [] \<longrightarrow> key < hd ks" "x \<in> set (post ks xs)"
  shows "key < x"
proof -
  have "key < hd ks \<and> (x = hd ks \<or> hd ks < x)" using assms by (cases ks; cases xs) auto
  then show ?thesis by linarith
qed

subsection \<open>Shape\<close>

text \<open>Height \<open>h\<close>, between \<open>lo\<close> and \<open>2 * k + 1\<close> keys in the root and between \<open>k\<close> and \<open>2 * k + 1\<close> in every other node.\<close>

fun shape :: "nat \<Rightarrow> nat \<Rightarrow> nat \<Rightarrow> bt \<Rightarrow> bool" where
  "shape k lo 0 (Nd a ks ts) \<longleftrightarrow> ts = [] \<and> lo \<le> length ks \<and> length ks \<le> 2 * k + 1"
| "shape k lo (Suc h) (Nd a ks ts) \<longleftrightarrow> length ts = length ks + 1 \<and> lo \<le> length ks \<and> length ks \<le> 2 * k + 1 \<and> (\<forall>s\<in>set ts. shape k k h s)"

definition params :: "btree \<Rightarrow> nat \<Rightarrow> bool" where
  "params t k \<longleftrightarrow> 1 \<le> k \<and> kMaxNum t = 2 * k + 1 \<and> kMinNum t = k \<and> kMidIdx t = k \<and> order t = 2 * k + 2"

lemma params_same: "same_params t t' \<Longrightarrow> params t k \<Longrightarrow> params t' k"
  by (simp add: params_def same_params_def)

text \<open>An allocator that does not run out.\<close>

definition new_ok :: "node_alloc \<Rightarrow> bool" where
  "new_ok new \<longleftrightarrow> (\<forall>m. finite (dom m) \<longrightarrow> (\<exists>p. new m = Some p \<and> p \<noteq> 0 \<and> m p = None))"

lemma new_okD: "new_ok new \<Longrightarrow> finite (dom m) \<Longrightarrow> \<exists>p. new m = Some p \<and> p \<noteq> 0 \<and> m p = None"
  by (simp add: new_ok_def)

subsection \<open>Splitting a child\<close>

lemma node_okI:
  "length (keys nd) = kMaxNum t \<Longrightarrow> length (children nd) = order t \<Longrightarrow> keyNum nd = length ks \<Longrightarrow> length ks \<le> kMaxNum t \<Longrightarrow>
   take (length ks) (keys nd) = ks \<Longrightarrow> isLeaf nd = (cs = []) \<Longrightarrow> (cs = [] \<Longrightarrow> children nd = replicate (order t) 0) \<Longrightarrow>
   (cs \<noteq> [] \<Longrightarrow> length cs = length ks + 1 \<and> length ks < order t \<and> take (length ks + 1) (children nd) = cs) \<Longrightarrow> node_ok t nd ks cs"
  by (auto simp: node_ok_def)

lemma split_parent_ok:
  assumes p: "node_ok t p ks cs" and n: "i \<le> length ks" "length ks < kMaxNum t" "cs \<noteq> []" "order t = kMaxNum t + 1"
  shows "\<exists>p'. split_shift i (keyNum p) p = Some (i, p') \<and> i < length (keys p') \<and> i + 1 < length (children p')
    \<and> node_ok t (p'\<lparr>keys := (keys p')[i := k], children := (children p')[i + 1 := b], keyNum := keyNum p' + 1\<rparr>)
        (take i ks @ k # drop i ks) (take (i + 1) cs @ b # drop (i + 1) cs)"
proof -
  let ?n = "length ks"
  have P: "length (keys p) = kMaxNum t" "length (children p) = order t" "keyNum p = ?n" "take ?n (keys p) = ks" "\<not> isLeaf p"
    "length cs = ?n + 1" "take (?n + 1) (children p) = cs" using p n(3) by (auto simp: node_ok_def)
  let ?p = "p\<lparr>keys := shift_up i ?n (keys p), children := shift_up (i + 1) (?n + 1) (children p)\<rparr>"
  have s: "split_shift i (keyNum p) p = Some (i, ?p)" using split_shift_eq[of i ?n p] P n by simp
  have "take i (keys p) = take i ks" using P(4) n(1) by (metis min.absorb1 take_take)
  then have k: "take (?n + 1) ((shift_up i ?n (keys p))[i := k]) = take i ks @ k # drop i ks"
    using take_shift_up[of i ?n "keys p" k] P n by simp
  have "take (i + 1) (children p) = take (i + 1) cs" using P(7) n(1) by (metis add_le_mono1 min.absorb1 take_take)
  then have c: "take (?n + 1 + 1) ((shift_up (i + 1) (?n + 1) (children p))[i + 1 := b]) = take (i + 1) cs @ b # drop (i + 1) cs"
    using take_shift_up[of "i + 1" "?n + 1" "children p" b] P n by simp
  have "node_ok t (?p\<lparr>keys := (keys ?p)[i := k], children := (children ?p)[i + 1 := b], keyNum := keyNum ?p + 1\<rparr>)
        (take i ks @ k # drop i ks) (take (i + 1) cs @ b # drop (i + 1) cs)"
    by (rule node_okI) (use P n k c in simp_all)
  then show ?thesis using s P n by (intro exI[of _ ?p]) simp
qed

lemma split_new_ok:
  assumes c: "node_ok t c ck cs" and t: "params t k" and l: "length ck = 2 * k + 1"
  defines "s0 \<equiv> \<lparr>keys = replicate (kMaxNum t) 0, children = replicate (order t) 0, keyNum = 0, isLeaf = isLeaf c\<rparr>"
  shows "\<exists>s. split_copy (kMaxNum t) c (kMidIdx t + 1) 0 s0 = Some s \<and> node_ok t (s\<lparr>keyNum := k\<rparr>) (drop (k + 1) ck) (drop (k + 1) cs)"
    "node_ok t (c\<lparr>keyNum := k\<rparr>) (take k ck) (take (k + 1) cs)" "rd (keys c) k = Some (ck ! k)"
proof -
  have T: "kMaxNum t = 2 * k + 1" "order t = 2 * k + 2" "kMidIdx t = k" using t by (simp_all add: params_def)
  have C: "length (keys c) = 2 * k + 1" "length (children c) = 2 * k + 2" "keys c = ck" "isLeaf c = (cs = [])"
    "cs \<noteq> [] \<Longrightarrow> length cs = 2 * k + 2" "cs \<noteq> [] \<Longrightarrow> children c = cs" "cs = [] \<Longrightarrow> children c = replicate (2 * k + 2) 0"
    using c l T by (auto simp: node_ok_def split: if_splits)
  let ?s = "s0\<lparr>keys := drop (k + 1) ck @ replicate (k + 1) 0, children := drop (k + 1) (children c) @ replicate (k + 1) 0\<rparr>"
  have "split_copy (kMaxNum t) c (kMidIdx t + 1) 0 s0 = Some ?s"
    using split_copy_eq[of "k + 1" k "2 * k + 1" c 0 s0] C T l by (simp add: s0_def del: replicate_Suc)
  moreover have "node_ok t (?s\<lparr>keyNum := k\<rparr>) (drop (k + 1) ck) (drop (k + 1) cs)"
    by (rule node_okI) (use C T l in \<open>auto simp: s0_def simp del: replicate_Suc simp flip: replicate_add\<close>)
  ultimately show "\<exists>s. split_copy (kMaxNum t) c (kMidIdx t + 1) 0 s0 = Some s \<and> node_ok t (s\<lparr>keyNum := k\<rparr>) (drop (k + 1) ck) (drop (k + 1) cs)"
    by blast
  show "node_ok t (c\<lparr>keyNum := k\<rparr>) (take k ck) (take (k + 1) cs)"
    by (rule node_okI) (use C T l in auto)
  show "rd (keys c) k = Some (ck ! k)" using C l by simp
qed

text \<open>The tree after the split of child \<open>c\<close>, whose second half moves to the node \<open>b\<close>.\<close>

definition split_at :: "nat \<Rightarrow> nat \<Rightarrow> nat \<Rightarrow> int list \<Rightarrow> bt list \<Rightarrow> bt \<Rightarrow> bt list \<Rightarrow> bt" where
  "split_at k b a ks ls c rs =
     Nd a (take (length ls) ks @ nkeys c ! k # drop (length ls) ks)
       (ls @ Nd (adr c) (take k (nkeys c)) (take (k + 1) (subs c)) # Nd b (drop (k + 1) (nkeys c)) (drop (k + 1) (subs c)) # rs)"

lemma stores_Nd: "stores t T \<longleftrightarrow> adr T \<noteq> 0 \<and> (\<exists>nd. node_mem t (adr T) = Some nd \<and> node_ok t nd (nkeys T) (map adr (subs T))) \<and> (\<forall>s\<in>set (subs T). stores t s)"
  by (cases T) simp

lemma node_addrs_Nd: "node_addrs T = adr T # concat (map node_addrs (subs T))"
  by (cases T) simp

lemma split_child_ok:
  assumes H: "stores t (Nd a ks (ls @ c # rs))" and D: "distinct (node_addrs (Nd a ks (ls @ c # rs)))" and P: "params t k"
    and n: "length ks < 2 * k + 1" "length ls + length rs = length ks" "length (nkeys c) = 2 * k + 1" and b: "new (node_mem t) = Some b" "b \<noteq> 0" "node_mem t b = None"
  shows "\<exists>t'. split_child new t a (length ls) = Some t' \<and> stores t' (split_at k b a ks ls c rs) \<and> same_params t t' \<and> root t' = root t
    \<and> dom (node_mem t') = insert b (dom (node_mem t)) \<and> (\<forall>p. p \<noteq> a \<longrightarrow> p \<noteq> adr c \<longrightarrow> p \<noteq> b \<longrightarrow> node_mem t' p = node_mem t p)"
proof -
  have T: "kMaxNum t = 2 * k + 1" "order t = 2 * k + 2" "kMidIdx t = k" "kMinNum t = k" using P by (simp_all add: params_def)
  obtain p where p: "node_mem t a = Some p" "node_ok t p ks (map adr (ls @ c # rs))" "a \<noteq> 0" using H by auto
  have Hc: "stores t c" and Ho: "\<forall>s\<in>set (ls @ rs). stores t s" using H by auto
  then obtain cn where cn: "node_mem t (adr c) = Some cn" "node_ok t cn (nkeys c) (map adr (subs c))" "adr c \<noteq> 0" unfolding stores_Nd[of t c] by blast
  have i: "length ls \<le> length ks" "length ks < kMaxNum t" "map adr (ls @ c # rs) \<noteq> []" "order t = kMaxNum t + 1" using n T by simp_all
  obtain p' where p': "split_shift (length ls) (keyNum p) p = Some (length ls, p')" "length ls < length (keys p')" "length ls + 1 < length (children p')"
    "node_ok t (p'\<lparr>keys := (keys p')[length ls := nkeys c ! k], children := (children p')[length ls + 1 := b], keyNum := keyNum p' + 1\<rparr>)
      (take (length ls) ks @ nkeys c ! k # drop (length ls) ks) (take (length ls + 1) (map adr (ls @ c # rs)) @ b # drop (length ls + 1) (map adr (ls @ c # rs)))"
    using split_parent_ok[OF p(2) i, where k = "nkeys c ! k" and b = b] by blast
  let ?p = "p'\<lparr>keys := (keys p')[length ls := nkeys c ! k], children := (children p')[length ls + 1 := b], keyNum := keyNum p' + 1\<rparr>"
  let ?s0 = "\<lparr>keys = replicate (kMaxNum t) 0, children = replicate (order t) 0, keyNum = 0, isLeaf = isLeaf cn\<rparr>"
  obtain s where s: "split_copy (kMaxNum t) cn (kMidIdx t + 1) 0 ?s0 = Some s" "node_ok t (s\<lparr>keyNum := k\<rparr>) (drop (k + 1) (nkeys c)) (drop (k + 1) (map adr (subs c)))"
    using split_new_ok(1)[OF cn(2) P n(3)] by blast
  note C = split_new_ok(2,3)[OF cn(2) P n(3)]
  have rd: "rd (children p) (length ls) = Some (adr c)"
  proof -
    have "take (length ks + 1) (children p) = map adr (ls @ c # rs)" "length (children p) = 2 * k + 2" using p(2) T by (simp_all add: node_ok_def)
    then have "take (length ks + 1) (children p) ! length ls = adr c" by (simp add: nth_append)
    then show ?thesis using n(1,2) \<open>length (children p) = 2 * k + 2\<close> by (simp add: rd_def)
  qed
  define u where "u = put_node (put_node (put_node (put_node t b ?s0) (adr c) (cn\<lparr>keyNum := k\<rparr>)) b (s\<lparr>keyNum := k\<rparr>)) a ?p"
  have "split_child new t a (length ls) = Some u"
    using p(1) rd cn(1) p'(1-3) s(1) C(2) b n T by (simp add: split_child_def create_node_def put_node_def u_def)
  moreover have ne: "b \<noteq> a" "b \<noteq> adr c" "a \<noteq> adr c" using b(3) p(1) cn(1) D adr_in[of c] by auto
  have m: "node_mem u a = Some ?p" "node_mem u (adr c) = Some (cn\<lparr>keyNum := k\<rparr>)" "node_mem u b = Some (s\<lparr>keyNum := k\<rparr>)"
    "\<And>q. q \<noteq> a \<Longrightarrow> q \<noteq> adr c \<Longrightarrow> q \<noteq> b \<Longrightarrow> node_mem u q = node_mem t q" using ne by (simp_all add: put_node_def u_def)
  have sp: "same_params t u" "root u = root t" by (simp_all add: put_node_def same_params_def u_def)
  have fr: "stores u x" if x: "x \<in> set (ls @ rs @ subs c)" for x
  proof -
    have hx: "stores t x" using x Ho Hc unfolding stores_Nd[of t c] by auto
    have "a \<notin> set (node_addrs x)" "adr c \<notin> set (node_addrs x)"
      using D x unfolding node_addrs.simps map_append list.map concat_append concat.simps(2) node_addrs_Nd[of c] by auto
    moreover have "b \<notin> set (node_addrs x)" using stores_adr[OF hx] b(3) by blast
    ultimately have "\<forall>q\<in>set (node_addrs x). node_mem u q = node_mem t q" using m(4) by metis
    from stores_cong[OF sp(1) this hx] show ?thesis .
  qed
  have "stores u (split_at k b a ks ls c rs)"
  proof -
    have e: "map adr (ls @ Nd (adr c) (take k (nkeys c)) (take (k + 1) (subs c)) # Nd b (drop (k + 1) (nkeys c)) (drop (k + 1) (subs c)) # rs)
      = take (length ls + 1) (map adr (ls @ c # rs)) @ b # drop (length ls + 1) (map adr (ls @ c # rs))" by simp
    have 1: "stores u (Nd (adr c) (take k (nkeys c)) (take (k + 1) (subs c)))"
      using m(2) cn(3) C(1) fr by (auto simp: node_ok_params[OF sp(1)] take_map dest: in_set_takeD)
    have 2: "stores u (Nd b (drop (k + 1) (nkeys c)) (drop (k + 1) (subs c)))"
      using m(3) b(2) s(2) fr by (auto simp: node_ok_params[OF sp(1)] drop_map dest: in_set_dropD)
    show ?thesis unfolding split_at_def stores.simps e using m(1) p(3) p'(4) 1 2 fr by (auto simp: node_ok_params[OF sp(1)])
  qed
  moreover have "dom (node_mem u) = insert b (dom (node_mem t))" using p(1) cn(1) by (auto simp: put_node_def u_def)
  ultimately show ?thesis using sp m(4) by blast
qed

end
