(* ===== verification/Btree_Insert.thy ===== *)
theory Btree_Insert
  imports Btree_Tree
begin

text \<open>Insertion: a full node is split on the way down, the key goes to its place in a leaf.\<close>

subsection \<open>Splitting keeps the tree\<close>

lemma mix_cut:
  assumes "length xs = length ks + 1" "length ys = length ls + 1"
  shows "mix (ks @ k # ls) (xs @ ys) = mix ks xs @ k # mix ls ys"
proof -
  obtain x xs' where x: "xs = x # xs'" "length xs' = length ks" using assms(1) by (cases xs) auto
  obtain y ys' where y: "ys = y # ys'" using assms(2) by (cases ys) auto
  show ?thesis using x y by (simp add: mix_def post_append)
qed

lemma split_list_at: "i < length xs \<Longrightarrow> xs = take i xs @ xs ! i # drop (i + 1) xs"
  by (simp add: id_take_nth_drop)

lemma mix_half:
  assumes "length ks = 2 * k + 1" "xs = [] \<or> length xs = length ks + 1"
  shows "mix ks xs = mix (take k ks) (take (k + 1) xs) @ ks ! k # mix (drop (k + 1) ks) (drop (k + 1) xs)"
proof (cases "xs = []")
  case True
  then show ?thesis using split_list_at[of k ks] assms(1) by simp
next
  case False
  have "mix (take k ks @ ks ! k # drop (k + 1) ks) (take (k + 1) xs @ drop (k + 1) xs)
    = mix (take k ks) (take (k + 1) xs) @ ks ! k # mix (drop (k + 1) ks) (drop (k + 1) xs)"
    by (rule mix_cut) (use assms False in auto)
  then show ?thesis using split_list_at[of k ks] assms(1) by simp
qed

lemma inorder_adr: "inorder T = mix (nkeys T) (map inorder (subs T))"
  by (cases T) simp

lemma inorder_child:
  assumes "length ks = length ls + length rs"
  shows "inorder (Nd a ks (ls @ c # rs)) = pre (map inorder ls) (take (length ls) ks) @ inorder c @ post (drop (length ls) ks) (map inorder rs)"
  using mix_split[of "take (length ls) ks" "map inorder ls" "drop (length ls) ks" "inorder c" "map inorder rs"] assms by simp

lemma shape_subs: "shape k lo h T \<Longrightarrow> subs T = [] \<or> length (subs T) = length (nkeys T) + 1"
  by (cases T; cases h) auto

lemma shape_Suc: "shape k lo (Suc h) T \<longleftrightarrow> length (subs T) = length (nkeys T) + 1 \<and> lo \<le> length (nkeys T) \<and> length (nkeys T) \<le> 2 * k + 1 \<and> (\<forall>s\<in>set (subs T). shape k k h s)"
  by (cases T) simp

lemma shape_keys: "shape k lo h T \<Longrightarrow> lo \<le> length (nkeys T) \<and> length (nkeys T) \<le> 2 * k + 1"
  by (cases T; cases h) auto

lemma shape_lo: "shape k lo h T \<Longrightarrow> lo' \<le> length (nkeys T) \<Longrightarrow> shape k lo' h T"
  by (cases T; cases h) auto

lemma shape_half:
  assumes "shape k lo h c" "length (nkeys c) = 2 * k + 1"
  shows "shape k k h (Nd x (take k (nkeys c)) (take (k + 1) (subs c)))" "shape k k h (Nd y (drop (k + 1) (nkeys c)) (drop (k + 1) (subs c)))"
  using assms by (cases c; cases h; auto dest: in_set_takeD in_set_dropD)+

lemma split_at_facts:
  assumes S: "shape k lo (Suc h) (Nd a ks (ls @ c # rs))" and n: "length ks < 2 * k + 1" "length (nkeys c) = 2 * k + 1"
    and D: "distinct (node_addrs (Nd a ks (ls @ c # rs)))" and b: "b \<notin> set (node_addrs (Nd a ks (ls @ c # rs)))"
  shows "shape k lo (Suc h) (split_at k b a ks ls c rs)" "inorder (split_at k b a ks ls c rs) = inorder (Nd a ks (ls @ c # rs))"
    "distinct (node_addrs (split_at k b a ks ls c rs))" "set (node_addrs (split_at k b a ks ls c rs)) = insert b (set (node_addrs (Nd a ks (ls @ c # rs))))"
proof -
  have l: "length ks = length ls + length rs" and Sc: "shape k k h c" using S by simp_all
  let ?l = "Nd (adr c) (take k (nkeys c)) (take (k + 1) (subs c))" and ?r = "Nd b (drop (k + 1) (nkeys c)) (drop (k + 1) (subs c))"
  show "shape k lo (Suc h) (split_at k b a ks ls c rs)"
    using S n shape_half[OF Sc n(2)] by (auto simp: split_at_def)
  have half: "inorder c = inorder ?l @ nkeys c ! k # inorder ?r"
    using mix_half[OF n(2), of "map inorder (subs c)"] shape_subs[OF Sc] by (simp add: inorder_adr[of c] take_map drop_map)
  show "inorder (split_at k b a ks ls c rs) = inorder (Nd a ks (ls @ c # rs))"
    unfolding inorder_child[OF l] split_at_def
    using inorder_child[of "take (length ls) ks @ nkeys c ! k # drop (length ls) ks" ls "?r # rs" a ?l] l half by simp
  have ac: "node_addrs c = adr c # concat (map node_addrs (take (k + 1) (subs c))) @ concat (map node_addrs (drop (k + 1) (subs c)))"
    unfolding node_addrs_Nd[of c] by (simp flip: concat_append map_append)
  show "distinct (node_addrs (split_at k b a ks ls c rs))" using D b unfolding split_at_def by (auto simp: ac)
  show "set (node_addrs (split_at k b a ks ls c rs)) = insert b (set (node_addrs (Nd a ks (ls @ c # rs))))" unfolding split_at_def by (auto simp: ac)
qed

subsection \<open>Steps on a subtree\<close>

text \<open>A step from \<open>T\<close> to \<open>T'\<close> touches no other node than those of \<open>T\<close>, and takes new nodes from outside of the memory.\<close>

definition step_ok :: "btree \<Rightarrow> bt \<Rightarrow> btree \<Rightarrow> bt \<Rightarrow> bool" where
  "step_ok t T t' T' \<longleftrightarrow> stores t' T' \<and> distinct (node_addrs T') \<and> same_params t t' \<and> root t' = root t \<and> finite (dom (node_mem t'))
     \<and> (\<forall>p. p \<notin> set (node_addrs T) \<longrightarrow> node_mem t p \<noteq> None \<longrightarrow> node_mem t' p = node_mem t p)
     \<and> (\<forall>p\<in>set (node_addrs T'). node_mem t p \<noteq> None \<longrightarrow> p \<in> set (node_addrs T))"

lemma step_refl: "stores t T \<Longrightarrow> distinct (node_addrs T) \<Longrightarrow> finite (dom (node_mem t)) \<Longrightarrow> step_ok t T t T"
  by (simp add: step_ok_def)

lemma step_trans:
  assumes a: "step_ok t T u U" and b: "step_ok u U v V"
  shows "step_ok t T v V"
proof -
  have "node_mem v p = node_mem t p" if p: "p \<notin> set (node_addrs T)" "node_mem t p \<noteq> None" for p
  proof -
    have "node_mem u p = node_mem t p" "p \<notin> set (node_addrs U)" using a p unfolding step_ok_def by blast+
    then show ?thesis using b p(2) unfolding step_ok_def by metis
  qed
  moreover have "p \<in> set (node_addrs T)" if p: "p \<in> set (node_addrs V)" "node_mem t p \<noteq> None" for p
  proof (rule ccontr)
    assume n: "p \<notin> set (node_addrs T)"
    then have "node_mem u p = node_mem t p" using a p unfolding step_ok_def by blast
    then have "p \<in> set (node_addrs U)" using b p unfolding step_ok_def by metis
    then show False using a n p unfolding step_ok_def by blast
  qed
  ultimately show ?thesis using a b same_params_trans[of t u v] unfolding step_ok_def by simp
qed

lemma step_child:
  assumes H: "stores t (Nd a ks (ls @ c # rs))" and D: "distinct (node_addrs (Nd a ks (ls @ c # rs)))" and s: "step_ok t c t' c'" "adr c' = adr c"
  shows "step_ok t (Nd a ks (ls @ c # rs)) t' (Nd a ks (ls @ c' # rs))"
proof -
  have sp: "same_params t t'" using s(1) by (simp add: step_ok_def)
  obtain nd where nd: "node_mem t a = Some nd" "node_ok t nd ks (map adr (ls @ c # rs))" "a \<noteq> 0" using H by auto
  have Ho: "\<forall>x\<in>set (ls @ rs). stores t x" using H by simp
  have ca: "a \<notin> set (node_addrs c)" using D by auto
  then have ma: "node_mem t' a = Some nd" using s(1) nd(1) unfolding step_ok_def by simp
  have new: "p \<in> set (node_addrs c)" if "p \<in> set (node_addrs c')" "node_mem t p \<noteq> None" for p using s(1) that unfolding step_ok_def by blast
  have oth: "stores t' x" "set (node_addrs x) \<inter> set (node_addrs c') = {}" if x: "x \<in> set (ls @ rs)" for x
  proof -
    have hx: "stores t x" using Ho x by blast
    have d: "set (node_addrs x) \<inter> set (node_addrs c) = {}" using D x by auto
    then have "\<forall>q\<in>set (node_addrs x). node_mem t' q = node_mem t q" using s(1) stores_adr[OF hx] unfolding step_ok_def by blast
    from stores_cong[OF sp this hx] show "stores t' x" .
    show "set (node_addrs x) \<inter> set (node_addrs c') = {}" using d new stores_adr[OF hx] by blast
  qed
  have "stores t' (Nd a ks (ls @ c' # rs))"
    using nd(2,3) ma oth(1) s unfolding stores.simps by (auto simp: step_ok_def node_ok_params[OF sp])
  moreover have "distinct (node_addrs (Nd a ks (ls @ c' # rs)))"
  proof -
    have c': "distinct (node_addrs c')" "a \<notin> set (node_addrs c')" using s(1) new[of a] nd(1) ca by (auto simp: step_ok_def)
    let ?L = "concat (map node_addrs ls)" and ?R = "concat (map node_addrs rs)"
    have "set ?L \<inter> set (node_addrs c') = {}" "set ?R \<inter> set (node_addrs c') = {}" using oth(2) by auto
    moreover have "distinct (a # ?L @ node_addrs c @ ?R)" using D by simp
    ultimately have "distinct (a # ?L @ node_addrs c' @ ?R)" using c' unfolding distinct.simps distinct_append set_append by blast
    then show ?thesis by simp
  qed
  moreover have "\<forall>p\<in>set (node_addrs (Nd a ks (ls @ c' # rs))). node_mem t p \<noteq> None \<longrightarrow> p \<in> set (node_addrs (Nd a ks (ls @ c # rs)))" using new by auto
  ultimately show ?thesis using s(1) unfolding step_ok_def by simp
qed

lemma split_step:
  assumes H: "stores t (Nd a ks (ls @ c # rs))" and D: "distinct (node_addrs (Nd a ks (ls @ c # rs)))" and P: "params t k" and f: "finite (dom (node_mem t))"
    and S: "shape k lo (Suc h) (Nd a ks (ls @ c # rs))" and n: "length ks < 2 * k + 1" "length (nkeys c) = 2 * k + 1" and new: "new_ok new"
  shows "\<exists>b t'. split_child new t a (length ls) = Some t' \<and> step_ok t (Nd a ks (ls @ c # rs)) t' (split_at k b a ks ls c rs)
    \<and> shape k lo (Suc h) (split_at k b a ks ls c rs) \<and> inorder (split_at k b a ks ls c rs) = inorder (Nd a ks (ls @ c # rs))"
proof -
  obtain b where b: "new (node_mem t) = Some b" "b \<noteq> 0" "node_mem t b = None" using new_okD[OF new f] by blast
  have bn: "b \<notin> set (node_addrs (Nd a ks (ls @ c # rs)))" using stores_adr[OF H] b(3) by blast
  have l: "length ls + length rs = length ks" using S by simp
  obtain t' where t': "split_child new t a (length ls) = Some t'" "stores t' (split_at k b a ks ls c rs)" "same_params t t'" "root t' = root t"
    "dom (node_mem t') = insert b (dom (node_mem t))" "\<forall>p. p \<noteq> a \<longrightarrow> p \<noteq> adr c \<longrightarrow> p \<noteq> b \<longrightarrow> node_mem t' p = node_mem t p"
    using split_child_ok[OF H D P n(1) l n(2), of new b] b by blast
  note F = split_at_facts[OF S n D bn]
  have "\<forall>p. p \<notin> set (node_addrs (Nd a ks (ls @ c # rs))) \<longrightarrow> node_mem t p \<noteq> None \<longrightarrow> node_mem t' p = node_mem t p"
    using t'(6) b(3) adr_in[of c] by auto
  then have "step_ok t (Nd a ks (ls @ c # rs)) t' (split_at k b a ks ls c rs)"
    using t'(2-5) F(3,4) f b(3) unfolding step_ok_def by auto
  then show ?thesis using t'(1) F(1,2) by blast
qed

subsection \<open>Finding the place of a key\<close>

lemma upper_cong: "\<forall>x<j. ys ! x = xs ! x \<Longrightarrow> upper key i j ys = upper key i j xs"
  by (auto simp: upper_def)

lemma upper_take: "j \<le> length xs \<Longrightarrow> take j xs = ks \<Longrightarrow> upper key i j xs = upper key i j ks"
  by (rule upper_cong) auto

lemma insort_between:
  "\<forall>x\<in>set A. x < key \<Longrightarrow> \<forall>x\<in>set B. key < x \<Longrightarrow> insort key (A @ Y @ B) = A @ insort key (Y @ B)"
  by (induction A) (auto simp: not_le)

lemma insort_before:
  "\<forall>x\<in>set B. key < (x::int) \<Longrightarrow> insort key (Y @ B) = insort key Y @ B"
proof (induction Y)
  case Nil
  then show ?case by (cases B) auto
qed auto

lemma upper_pred:
  assumes "upper key i (length ks) ks" "key \<notin> set ks" "0 < i"
  shows "ks ! (i - 1) < key"
proof -
  have "ks ! (i - 1) \<le> key" "i \<le> length ks" using assms by (simp_all add: upper_def)
  then have "ks ! (i - 1) \<in> set ks" using assms(3) by (intro nth_mem) simp
  then have "ks ! (i - 1) \<noteq> key" using assms(2) by blast
  then show ?thesis using \<open>ks ! (i - 1) \<le> key\<close> by simp
qed

lemma upper_insort:
  assumes u: "upper key i (length ks) ks" and s: "sorted_wrt (<) ks" and n: "key \<notin> set ks"
  shows "insort key ks = take i ks @ key # drop i ks"
proof -
  have i: "i \<le> length ks" using u by (simp add: upper_def)
  have "\<forall>x\<in>set (take i ks). x < key"
  proof (cases "i = 0")
    case False
    then have b: "ks ! (i - 1) < key" using upper_pred[OF u n] by simp
    have "ks ! x \<le> ks ! (i - 1)" if "x < i" for x
    proof (cases "x = i - 1")
      case False
      then have "x < i - 1" "i - 1 < length ks" using that i \<open>i \<noteq> 0\<close> by linarith+
      then show ?thesis using sorted_wrt_nth_less[OF s] by (simp add: less_imp_le)
    qed simp
    then show ?thesis using b i by (auto simp: in_set_conv_nth) (metis dual_order.strict_trans2)
  qed simp
  moreover have "\<forall>x\<in>set (drop i ks). key < x" using u by (auto simp: upper_def in_set_conv_nth)
  ultimately have "insort key (take i ks @ [] @ drop i ks) = take i ks @ insort key ([] @ drop i ks)" by (rule insort_between)
  moreover have "insort key ([] @ drop i ks) = key # drop i ks"
    using insort_before[OF \<open>\<forall>x\<in>set (drop i ks). key < x\<close>, of "[]"] by simp
  ultimately show ?thesis by simp
qed

lemma keys_in_order:
  assumes "length ts = length ks + 1"
  shows "set ks \<subseteq> set (inorder (Nd a ks ts))"
proof -
  obtain x xs where "ts = x # xs" "length xs = length ks" using assms by (cases ts) auto
  then show ?thesis using set_post[of ks "map inorder xs"] by (auto simp: mix_def)
qed

text \<open>The keys on both sides of the child that the search picks.\<close>

lemma upper_sides:
  assumes u: "upper key i (length ks) ks" and n: "key \<notin> set ks"
  shows "take i ks \<noteq> [] \<longrightarrow> last (take i ks) < key" "drop i ks \<noteq> [] \<longrightarrow> key < hd (drop i ks)"
proof -
  have i: "i \<le> length ks" using u by (simp add: upper_def)
  have "ks ! (i - 1) < key" if "0 < i" using upper_pred[OF u n that] .
  then show "take i ks \<noteq> [] \<longrightarrow> last (take i ks) < key" using i by (auto simp: last_conv_nth)
  show "drop i ks \<noteq> [] \<longrightarrow> key < hd (drop i ks)" using u by (auto simp: upper_def hd_drop_conv_nth)
qed

subsection \<open>Insertion into a node that is not full\<close>

definition inserted :: "node_alloc \<Rightarrow> int \<Rightarrow> nat \<Rightarrow> nat \<Rightarrow> nat \<Rightarrow> btree \<Rightarrow> bt \<Rightarrow> btree option \<Rightarrow> bool" where
  "inserted new key k lo h t T r \<longleftrightarrow>
     (\<exists>t' T'. r = Some t' \<and> step_ok t T t' T' \<and> adr T' = adr T \<and> shape k lo h T' \<and> inorder T' = insort key (inorder T))"

lemma inserted_child:
  assumes c: "inserted new key k k h t c r"
    and H: "stores t (Nd a ks (ls @ c # rs))" and D: "distinct (node_addrs (Nd a ks (ls @ c # rs)))"
    and S: "shape k lo (Suc h) (Nd a ks (ls @ c # rs))" and s: "sorted_wrt (<) (inorder (Nd a ks (ls @ c # rs)))"
    and b: "take (length ls) ks \<noteq> [] \<longrightarrow> last (take (length ls) ks) < key" "drop (length ls) ks \<noteq> [] \<longrightarrow> key < hd (drop (length ls) ks)"
  shows "inserted new key k lo (Suc h) t (Nd a ks (ls @ c # rs)) r"
proof -
  obtain t' c' where c': "r = Some t'" "step_ok t c t' c'" "adr c' = adr c" "shape k k h c'" "inorder c' = insort key (inorder c)"
    using c unfolding inserted_def by blast
  have l: "length ks = length ls + length rs" using S by simp
  let ?A = "pre (map inorder ls) (take (length ls) ks)" and ?B = "post (drop (length ls) ks) (map inorder rs)"
  note I = inorder_child[OF l, of a]
  have sA: "sorted_wrt (<) ?A" "sorted_wrt (<) ?B" using s unfolding I by (simp_all add: sorted_wrt_append)
  have A: "\<forall>x\<in>set ?A. x < key" using pre_less[OF sA(1)] b(1) l by simp
  have B: "\<forall>x\<in>set ?B. key < x" using post_greater[OF sA(2)] b(2) l by simp
  have "inorder (Nd a ks (ls @ c' # rs)) = insort key (inorder (Nd a ks (ls @ c # rs)))"
    unfolding I c'(5) insort_between[OF A B] insort_before[OF B] ..
  moreover have "shape k lo (Suc h) (Nd a ks (ls @ c' # rs))" using S c'(4) by simp
  ultimately show ?thesis using c'(1) step_child[OF H D c'(2,3)] unfolding inserted_def by (intro exI[of _ t'] exI[of _ "Nd a ks (ls @ c' # rs)"]) simp
qed

lemma inserted_leaf:
  assumes H: "stores t (Nd a ks [])" and P: "params t k" and n: "length ks < 2 * k + 1" "lo \<le> length ks" and s: "sorted_wrt (<) ks" "key \<notin> set ks"
    and f: "finite (dom (node_mem t))"
  shows "inserted new key k lo 0 t (Nd a ks []) (insert_notfull new t a key)"
proof -
  obtain nd where nd: "node_mem t a = Some nd" "node_ok t nd ks []" "a \<noteq> 0" using H by auto
  have K: "length (keys nd) = 2 * k + 1" "keyNum nd = length ks" "take (length ks) (keys nd) = ks" "isLeaf nd" using nd(2) P by (simp_all add: node_ok_def params_def)
  obtain i where i: "leaf_shift key (length ks) (keys nd) = Some (i, shift_up i (length ks) (keys nd))" "upper key i (length ks) (keys nd)"
    using leaf_shift_eq[of "length ks" "keys nd" key] K n by auto
  have u: "upper key i (length ks) ks" using upper_take[of "length ks" "keys nd" ks key i] i(2) K n by simp
  then have il: "i \<le> length ks" by (simp add: upper_def)
  let ?ks = "(shift_up i (length ks) (keys nd))[i := key]"
  let ?nd = "nd\<lparr>keys := ?ks, keyNum := keyNum nd + 1\<rparr>"
  have "take i (keys nd) = take i ks" using K(3) il by (metis min.absorb1 take_take)
  then have tk: "take (length ks + 1) ?ks = insort key ks"
    using take_shift_up[OF il, of "keys nd" key] K n upper_insort[OF u s] by simp
  have ok: "node_ok t ?nd (insort key ks) []"
    by (rule node_okI) (use nd(2) K P n tk in \<open>auto simp: node_ok_def params_def\<close>)
  let ?t = "put_node t a ?nd"
  have "insert_notfull new t a key = Some ?t" using nd(1) K i(1) n il by (subst insert_notfull.simps) simp
  moreover have "step_ok t (Nd a ks []) ?t (Nd a (insort key ks) [])"
  proof -
    have "same_params t ?t" by (simp add: same_params_def put_node_def)
    then show ?thesis using ok nd f by (auto simp: step_ok_def put_node_def node_ok_params)
  qed
  ultimately show ?thesis using n unfolding inserted_def by (intro exI[of _ ?t] exI[of _ "Nd a (insort key ks) []"]) simp
qed

lemma stores_children:
  assumes "stores t (Nd a ks ts)" "ts \<noteq> []"
  shows "\<exists>nd. node_mem t a = Some nd \<and> \<not> isLeaf nd \<and> keyNum nd = length ks \<and> length ks \<le> length (keys nd) \<and> take (length ks) (keys nd) = ks
    \<and> (\<forall>i<length ks. rd (keys nd) i = Some (ks ! i)) \<and> (\<forall>i<length ts. rd (children nd) i = Some (adr (ts ! i)))"
proof -
  obtain nd where nd: "node_mem t a = Some nd" "node_ok t nd ks (map adr ts)" using assms(1) by auto
  then have N: "length (keys nd) = kMaxNum t" "length (children nd) = order t" "keyNum nd = length ks" "length ks \<le> kMaxNum t"
    "take (length ks) (keys nd) = ks" "\<not> isLeaf nd" "length ts = length ks + 1" "length ks < order t" "take (length ks + 1) (children nd) = map adr ts"
    using assms(2) by (auto simp: node_ok_def)
  have "rd (keys nd) i = Some (ks ! i)" if "i < length ks" for i
    using N(1,4,5) that by (metis less_le_trans nth_take rd_in)
  moreover have "rd (children nd) i = Some (adr (ts ! i))" if "i < length ts" for i
  proof -
    have "children nd ! i = map adr ts ! i" using N(7,9) that by (metis nth_take)
    then show ?thesis using N(2,7,8) that by simp
  qed
  ultimately show ?thesis using nd(1) N(1,3-6) by auto
qed

subsection \<open>Keys in front of the arrays\<close>

text \<open>The part of a full node that the descent enters after the split.\<close>

definition half :: "nat \<Rightarrow> int \<Rightarrow> bt \<Rightarrow> bt" where
  "half k key c = (if nkeys c ! k < key then Nd (adr c) (drop (k + 1) (nkeys c)) (drop (k + 1) (subs c))
     else Nd (adr c) (take k (nkeys c)) (take (k + 1) (subs c)))"

text \<open>Whether the descent below an inner node of height \<open>h\<close> that is not full comes to a first child that is not full.\<close>

fun reads_front :: "nat \<Rightarrow> int \<Rightarrow> nat \<Rightarrow> bt \<Rightarrow> bool" where
  "reads_front k key 0 T \<longleftrightarrow> False"
| "reads_front k key (Suc h) T \<longleftrightarrow>
     (let i = length (filter (\<lambda>x. x < key) (nkeys T)); c = subs T ! i
      in if length (nkeys c) = 2 * k + 1 then reads_front k key h (half k key c) else i = 0 \<or> reads_front k key h c)"

lemma reads_front_adr: "reads_front k key h (Nd a ks ts) = reads_front k key h (Nd b ks ts)"
  by (cases h) (simp_all add: Let_def)

lemma sorted_post: "length ks = length xs \<Longrightarrow> sorted_wrt (<) (post ks xs) \<Longrightarrow> sorted_wrt (<) ks"
proof (induction ks xs rule: list_induct2)
  case (Cons k ks x xs)
  then show ?case using set_post[of ks xs] by (auto simp: sorted_wrt_append)
qed simp

lemma sorted_keys:
  assumes "length ts = length ks + 1" "sorted_wrt (<) (inorder (Nd a ks ts))"
  shows "sorted_wrt (<) ks"
proof -
  obtain x xs where "ts = x # xs" "length xs = length ks" using assms(1) by (cases ts) auto
  then show ?thesis using assms(2) sorted_post[of ks "map inorder xs"] by (simp add: mix_def sorted_wrt_append)
qed

lemma upper_count:
  assumes u: "upper key i (length ks) ks" and s: "sorted_wrt (<) ks" and n: "key \<notin> set ks"
  shows "i = length (filter (\<lambda>x. x < key) ks)"
proof -
  have i: "i \<le> length ks" using u by (simp add: upper_def)
  have "x < key" if x: "x \<in> set (take i ks)" for x
  proof -
    have "i \<noteq> 0" using x by (cases i) auto
    then have b: "ks ! (i - 1) < key" using upper_pred[OF u n] by simp
    obtain j where j: "j < i" "x = ks ! j" using x i by (auto simp: in_set_conv_nth)
    then have "j = i - 1 \<or> j < i - 1" by linarith
    moreover have "i - 1 < length ks" using i \<open>i \<noteq> 0\<close> by linarith
    ultimately show ?thesis using b j sorted_wrt_nth_less[OF s, of j "i - 1"] by (auto intro: less_trans)
  qed
  then have "filter (\<lambda>x. x < key) (take i ks) = take i ks" by simp
  moreover have "\<not> x < key" if x: "x \<in> set (drop i ks)" for x
  proof -
    obtain j where "j < length ks - i" "x = ks ! (i + j)" using x i by (auto simp: in_set_conv_nth)
    then have "key < x" using u by (auto simp: upper_def)
    then show ?thesis by simp
  qed
  then have "filter (\<lambda>x. x < key) (drop i ks) = []" by (simp add: filter_empty_conv)
  ultimately have "filter (\<lambda>x. x < key) (take i ks @ drop i ks) = take i ks" by (simp only: filter_append append_Nil2)
  then show ?thesis using i by simp
qed

text \<open>An inner node and the child that the search picks.\<close>

lemma enter_node:
  assumes H: "stores t (Nd a ks ts)" and l: "length ts = length ks + 1" and s: "sorted_wrt (<) (inorder (Nd a ks ts))" and n: "key \<notin> set (inorder (Nd a ks ts))"
  obtains ls c rs nd cn where "ts = ls @ c # rs" "length ls = length (filter (\<lambda>x. x < key) ks)" "length ks = length ls + length rs" "key \<notin> set ks"
    "take (length ls) ks \<noteq> [] \<longrightarrow> last (take (length ls) ks) < key" "drop (length ls) ks \<noteq> [] \<longrightarrow> key < hd (drop (length ls) ks)"
    "node_mem t a = Some nd" "\<not> isLeaf nd" "keyNum nd = length ks" "find_child key (length ks) (keys nd) = Some (length ls)"
    "rd (children nd) (length ls) = Some (adr c)" "0 < length ls \<longrightarrow> rd (keys nd) (length ls - 1) = Some (ks ! (length ls - 1)) \<and> ks ! (length ls - 1) < key"
    "node_mem t (adr c) = Some cn" "keyNum cn = length (nkeys c)"
proof -
  have tne: "ts \<noteq> []" using l by auto
  obtain nd where nd: "node_mem t a = Some nd" "\<not> isLeaf nd" "keyNum nd = length ks" "length ks \<le> length (keys nd)" "take (length ks) (keys nd) = ks"
    "\<forall>i<length ks. rd (keys nd) i = Some (ks ! i)" "\<forall>i<length ts. rd (children nd) i = Some (adr (ts ! i))"
    using stores_children[OF H tne] by blast
  obtain i where i: "find_child key (length ks) (keys nd) = Some i" "upper key i (length ks) ks"
    using find_child_eq[OF nd(4), of key] upper_take[OF nd(4,5)] by blast
  have il: "i \<le> length ks" using i(2) by (simp add: upper_def)
  have kn: "key \<notin> set ks" using keys_in_order[OF l, of a] n by auto
  have cnt: "i = length (filter (\<lambda>x. x < key) ks)" by (rule upper_count[OF i(2) sorted_keys[OF l s] kn])
  define ls c rs where "ls = take i ts" and "c = ts ! i" and "rs = drop (i + 1) ts"
  have ts: "ts = ls @ c # rs" unfolding ls_def c_def rs_def using split_list_at[of i ts] il l by simp
  have ll: "length ls = i" "length ks = length ls + length rs" using il l by (auto simp: ls_def rs_def)
  obtain cn where cn: "node_mem t (adr c) = Some cn" "keyNum cn = length (nkeys c)" using H[unfolded ts] stores_Nd[of t c] by (auto simp: node_ok_def)
  have rc: "rd (children nd) (length ls) = Some (adr c)" using nd(7) il l ll(1) by (simp add: c_def)
  have kp: "0 < length ls \<longrightarrow> rd (keys nd) (length ls - 1) = Some (ks ! (length ls - 1)) \<and> ks ! (length ls - 1) < key"
    using nd(6) il upper_pred[OF i(2) kn] ll(1) by auto
  note sides = upper_sides[OF i(2) kn, folded ll(1)]
  show thesis by (rule that[OF ts _ ll(2) kn sides nd(1-3) _ rc kp cn]) (use cnt ll(1) i(1) in simp_all)
qed

lemma front_node:
  assumes "length (filter (\<lambda>x. x < key) ks) = length ls"
  shows "reads_front k key (Suc h) (Nd a ks (ls @ c # rs)) \<longleftrightarrow>
    (if length (nkeys c) = 2 * k + 1 then reads_front k key h (half k key c) else ls = [] \<or> reads_front k key h c)"
  using assms by (simp add: Let_def)

text \<open>After the split of a full child: the two halves, and the one that is entered.\<close>

lemma enter_split:
  assumes H: "stores t (Nd a ks (ls @ c # rs))" and D: "distinct (node_addrs (Nd a ks (ls @ c # rs)))" and P: "params t k" and f: "finite (dom (node_mem t))"
    and S: "shape k lo (Suc h) (Nd a ks (ls @ c # rs))" and n: "length ks < 2 * k + 1" "length (nkeys c) = 2 * k + 1" and new: "new_ok new"
    and s: "sorted_wrt (<) (inorder (Nd a ks (ls @ c # rs)))" and key: "key \<notin> set (inorder (Nd a ks (ls @ c # rs)))"
    and sd: "take (length ls) ks \<noteq> [] \<longrightarrow> last (take (length ls) ks) < key" "drop (length ls) ks \<noteq> [] \<longrightarrow> key < hd (drop (length ls) ks)"
    and nd: "node_mem t a = Some nd" "\<not> isLeaf nd" "keyNum nd = length ks" "find_child key (length ks) (keys nd) = Some (length ls)"
      "rd (children nd) (length ls) = Some (adr c)" "node_mem t (adr c) = Some cn" "keyNum cn = length (nkeys c)"
  obtains t1 qs ls' c' rs' where "insert_notfull new t a key = insert_notfull new t1 (adr c') key"
    "step_ok t (Nd a ks (ls @ c # rs)) t1 (Nd a qs (ls' @ c' # rs'))" "shape k lo (Suc h) (Nd a qs (ls' @ c' # rs'))"
    "inorder (Nd a qs (ls' @ c' # rs')) = inorder (Nd a ks (ls @ c # rs))" "length (nkeys c') < 2 * k + 1" "params t1 k"
    "reads_front k key h c' = reads_front k key h (half k key c)"
    "take (length ls') qs \<noteq> [] \<longrightarrow> last (take (length ls') qs) < key" "drop (length ls') qs \<noteq> [] \<longrightarrow> key < hd (drop (length ls') qs)"
proof -
  obtain b t1 where t1: "split_child new t a (length ls) = Some t1" "step_ok t (Nd a ks (ls @ c # rs)) t1 (split_at k b a ks ls c rs)"
    "shape k lo (Suc h) (split_at k b a ks ls c rs)" "inorder (split_at k b a ks ls c rs) = inorder (Nd a ks (ls @ c # rs))"
    using split_step[OF H D P f S n new] by blast
  let ?ks = "take (length ls) ks @ nkeys c ! k # drop (length ls) ks"
  let ?l = "Nd (adr c) (take k (nkeys c)) (take (k + 1) (subs c))" and ?r = "Nd b (drop (k + 1) (nkeys c)) (drop (k + 1) (subs c))"
  have sp: "split_at k b a ks ls c rs = Nd a ?ks (ls @ ?l # ?r # rs)" by (simp add: split_at_def)
  have spr: "split_at k b a ks ls c rs = Nd a ?ks ((ls @ [?l]) @ ?r # rs)" unfolding sp by simp
  have st1: "stores t1 (Nd a ?ks (ls @ ?l # ?r # rs))" using t1(2) unfolding sp by (simp add: step_ok_def)
  have P1: "params t1 k" using params_same[OF _ P] t1(2) by (simp add: step_ok_def)
  have ll: "length ks = length ls + length rs" using S by simp
  have mk: "nkeys c ! k \<noteq> key" using keys_in_order[of "ls @ ?l # ?r # rs" ?ks a] key t1(4) ll unfolding sp by auto
  obtain nd1 where nd1: "node_mem t1 a = Some nd1" "\<forall>j<length ?ks. rd (keys nd1) j = Some (?ks ! j)"
    "\<forall>j<length (ls @ ?l # ?r # rs). rd (children nd1) j = Some (adr ((ls @ ?l # ?r # rs) ! j))"
    using stores_children[OF st1] by auto
  have k1: "key_at nd1 (length ls + 1) = Some (nkeys c ! k)" using nd1(2) ll by (simp add: key_at_def nth_append)
  have rl: "rd (children nd1) (length ls) = Some (adr c)" "rd (children nd1) (length ls + 1) = Some b" using nd1(3) by (simp_all add: nth_append)
  have kM: "kMaxNum t = 2 * k + 1" using P by (simp add: params_def)
  have e: "insert_notfull new t a key = insert_notfull new t1 (if nkeys c ! k < key then b else adr c) key"
    using nd kM n(2) t1(1) nd1(1) k1 rl by (subst insert_notfull.simps) auto
  show thesis
  proof (cases "nkeys c ! k < key")
    case True
    have f: "reads_front k key h ?r = reads_front k key h (half k key c)" using True reads_front_adr[of k key h b] by (simp add: half_def)
    show thesis by (rule that[of t1 ?r ?ks "ls @ [?l]" rs, OF _ t1(2)[unfolded spr] t1(3)[unfolded spr] t1(4)[unfolded spr] _ P1 f])
      (use True e sd(2) n(2) ll in simp_all)
  next
    case False
    have f: "reads_front k key h ?l = reads_front k key h (half k key c)" using False by (simp add: half_def)
    show thesis by (rule that[of t1 ?l ?ks ls "?r # rs", OF _ t1(2)[unfolded sp] t1(3)[unfolded sp] t1(4)[unfolded sp] _ P1 f])
      (use False mk e sd(1) ll in simp_all)
  qed
qed

definition insert_result :: "node_alloc \<Rightarrow> int \<Rightarrow> nat \<Rightarrow> nat \<Rightarrow> nat \<Rightarrow> btree \<Rightarrow> bt \<Rightarrow> btree option \<Rightarrow> bool" where
  "insert_result new key k lo h t T r \<longleftrightarrow> (if reads_front k key h T then r = None else inserted new key k lo h t T r)"

lemma insert_notfull_ok:
  assumes "stores t T" "distinct (node_addrs T)" "params t k" "finite (dom (node_mem t))" "new_ok new" "shape k lo h T" "length (nkeys T) < 2 * k + 1"
    "sorted_wrt (<) (inorder T)" "key \<notin> set (inorder T)"
  shows "insert_result new key k lo h t T (insert_notfull new t (adr T) key)"
  using assms
proof (induction h arbitrary: t T lo)
  case 0
  obtain a ks where T: "T = Nd a ks []" using 0(6) by (cases T) auto
  show ?case using inserted_leaf[of t a ks k lo key new] 0 unfolding T insert_result_def by simp
next
  case (Suc h)
  obtain a ks ts where T0: "T = Nd a ks ts" by (cases T)
  have lt: "length ts = length ks + 1" using Suc.prems(6) T0 by simp
  obtain ls c rs nd cn where ts: "ts = ls @ c # rs" and cnt: "length ls = length (filter (\<lambda>x. x < key) ks)" and ll: "length ks = length ls + length rs"
    and kn: "key \<notin> set ks" and sd: "take (length ls) ks \<noteq> [] \<longrightarrow> last (take (length ls) ks) < key" "drop (length ls) ks \<noteq> [] \<longrightarrow> key < hd (drop (length ls) ks)"
    and nd: "node_mem t a = Some nd" "\<not> isLeaf nd" "keyNum nd = length ks" "find_child key (length ks) (keys nd) = Some (length ls)"
      "rd (children nd) (length ls) = Some (adr c)"
    and kp: "0 < length ls \<longrightarrow> rd (keys nd) (length ls - 1) = Some (ks ! (length ls - 1)) \<and> ks ! (length ls - 1) < key"
    and cn: "node_mem t (adr c) = Some cn" "keyNum cn = length (nkeys c)"
    by (rule enter_node[OF Suc.prems(1)[unfolded T0] lt Suc.prems(8,9)[unfolded T0]])
  note T = T0[unfolded ts]
  note H = Suc.prems(1)[unfolded T] and D = Suc.prems(2)[unfolded T] and S = Suc.prems(6)[unfolded T] and so = Suc.prems(8)[unfolded T] and kin = Suc.prems(9)[unfolded T]
  note fr = front_node[OF cnt[symmetric], of k h a c rs, folded T]
  have Sc: "shape k k h c" using S by simp
  have kM: "kMaxNum t = 2 * k + 1" using Suc.prems(3) by (simp add: params_def)
  show ?case
  proof (cases "length (nkeys c) = 2 * k + 1")
    case False
    then have small: "length (nkeys c) < 2 * k + 1" using shape_keys[OF Sc] by simp
    have IH: "insert_result new key k k h t c (insert_notfull new t (adr c) key)"
    proof (rule Suc.IH)
      show "sorted_wrt (<) (inorder c)" "key \<notin> set (inorder c)" using so kin inorder_child[OF ll, of a c] by (auto simp: sorted_wrt_append)
      show "stores t c" "distinct (node_addrs c)" using H D by auto
    qed (use Suc.prems Sc small in simp_all)
    have e: "insert_notfull new t a key = (if ls = [] then None else insert_notfull new t (adr c) key)"
      using nd cn kM False kp by (subst insert_notfull.simps) (cases "ls = []", auto simp: key_at_def)
    have "reads_front k key (Suc h) T \<longleftrightarrow> ls = [] \<or> reads_front k key h c" using fr False by simp
    then show ?thesis using e IH inserted_child[OF _ H D S so sd] unfolding insert_result_def T by auto
  next
    case True
    have n: "length ks < 2 * k + 1" using Suc.prems(7) T by simp
    obtain t1 qs ls' c' rs' where q: "insert_notfull new t a key = insert_notfull new t1 (adr c') key"
      "step_ok t (Nd a ks (ls @ c # rs)) t1 (Nd a qs (ls' @ c' # rs'))" "shape k lo (Suc h) (Nd a qs (ls' @ c' # rs'))"
      "inorder (Nd a qs (ls' @ c' # rs')) = inorder (Nd a ks (ls @ c # rs))" "length (nkeys c') < 2 * k + 1" "params t1 k"
      "reads_front k key h c' = reads_front k key h (half k key c)"
      "take (length ls') qs \<noteq> [] \<longrightarrow> last (take (length ls') qs) < key" "drop (length ls') qs \<noteq> [] \<longrightarrow> key < hd (drop (length ls') qs)"
      by (rule enter_split[OF H D Suc.prems(3,4) S n True Suc.prems(5) so kin sd nd cn])
    have t1: "stores t1 (Nd a qs (ls' @ c' # rs'))" "distinct (node_addrs (Nd a qs (ls' @ c' # rs')))" "finite (dom (node_mem t1))" using q(2) by (simp_all add: step_ok_def)
    have so1: "sorted_wrt (<) (inorder (Nd a qs (ls' @ c' # rs')))" "key \<notin> set (inorder (Nd a qs (ls' @ c' # rs')))" using so kin q(4) by simp_all
    have l1: "length qs = length ls' + length rs'" using q(3) by simp
    have IH: "insert_result new key k k h t1 c' (insert_notfull new t1 (adr c') key)"
    proof (rule Suc.IH)
      show "sorted_wrt (<) (inorder c')" "key \<notin> set (inorder c')" using so1 inorder_child[OF l1, of a c'] by (auto simp: sorted_wrt_append)
      show "stores t1 c'" "distinct (node_addrs c')" "shape k k h c'" using t1 q(3) by auto
    qed (use q(5,6) t1(3) Suc.prems(5) in simp_all)
    have r: "reads_front k key (Suc h) T = reads_front k key h c'" using fr True q(7) by simp
    have "inserted new key k lo (Suc h) t T r" if "inserted new key k lo (Suc h) t1 (Nd a qs (ls' @ c' # rs')) r" for r
      using that step_trans[OF q(2)] q(4) unfolding inserted_def T by (metis bt.sel(1))
    then show ?thesis using IH q(1) inserted_child[OF _ t1(1,2) q(3) so1(1) q(8,9)] r unfolding insert_result_def by (auto simp: T)
  qed
qed

subsection \<open>Insertion into a tree\<close>

text \<open>A well-formed B-tree with the keys \<open>xs\<close> in order.\<close>

definition tree_ok :: "btree \<Rightarrow> nat \<Rightarrow> nat \<Rightarrow> bt \<Rightarrow> bool" where
  "tree_ok t k h T \<longleftrightarrow> stores t T \<and> adr T = root t \<and> distinct (node_addrs T) \<and> params t k \<and> finite (dom (node_mem t))
     \<and> shape k (if h = 0 then 0 else 1) h T \<and> sorted_wrt (<) (inorder T)"

definition btree_ok :: "btree \<Rightarrow> nat \<Rightarrow> int list \<Rightarrow> bool" where
  "btree_ok t k xs \<longleftrightarrow> (\<exists>h T. tree_ok t k h T \<and> inorder T = xs)"

lemma tree_okD:
  assumes "tree_ok t k h T"
  shows "stores t T" "adr T = root t" "distinct (node_addrs T)" "params t k" "finite (dom (node_mem t))" "shape k (if h = 0 then 0 else 1) h T"
    "sorted_wrt (<) (inorder T)"
  using assms by (simp_all add: tree_ok_def)

lemma insort_sorted: "sorted_wrt (<) xs \<Longrightarrow> key \<notin> set xs \<Longrightarrow> sorted_wrt (<) (insort key (xs :: int list))"
  by (induction xs) (auto simp: set_insort_key)

lemma root_step_ok:
  assumes "step_ok t T t' T'" "adr T' = adr T" "adr T = root t" "params t k" "shape k (if h = 0 then 0 else 1) h T'" "sorted_wrt (<) (inorder T')"
  shows "tree_ok t' k h T'"
  using assms params_same[of t t' k] by (simp add: tree_ok_def step_ok_def)

lemma inserted_root:
  assumes "inserted new key k (if h = 0 then 0 else 1) h t T r" "adr T = root t" "params t k" "sorted_wrt (<) (inorder T)" "key \<notin> set (inorder T)"
  shows "\<exists>t'. r = Some t' \<and> btree_ok t' k (insort key (inorder T))"
proof -
  obtain t' T' where i: "r = Some t'" "step_ok t T t' T'" "adr T' = adr T" "shape k (if h = 0 then 0 else 1) h T'" "inorder T' = insort key (inorder T)"
    using assms(1) unfolding inserted_def by blast
  have "tree_ok t' k h T'" using root_step_ok[OF i(2,3) assms(2,3) i(4)] i(5) insort_sorted[OF assms(4,5)] by simp
  then show ?thesis using i(1,5) unfolding btree_ok_def by auto
qed

text \<open>A new root above a full one.\<close>

lemma new_root_ok:
  assumes T: "tree_ok t k h T" and r: "r \<noteq> 0" "node_mem t r = None" and n: "length (nkeys T) = 2 * k + 1"
  defines "u \<equiv> (put_node t r \<lparr>keys = replicate (kMaxNum t) 0, children = (replicate (order t) 0)[0 := root t], keyNum = 0, isLeaf = False\<rparr>)\<lparr>root := r\<rparr>"
  shows "stores u (Nd r [] [T])" "distinct (node_addrs (Nd r [] [T]))" "params u k" "finite (dom (node_mem u))" "shape k 0 (Suc h) (Nd r [] [T])"
proof -
  note D = tree_okD[OF T]
  have sp: "same_params t u" by (simp add: same_params_def u_def put_node_def)
  have m: "node_mem u = (node_mem t)(r \<mapsto> \<lparr>keys = replicate (kMaxNum t) 0, children = (replicate (order t) 0)[0 := root t], keyNum = 0, isLeaf = False\<rparr>)"
    by (simp add: u_def put_node_def)
  have nr: "r \<notin> set (node_addrs T)" using stores_adr[OF D(1)] r(2) by blast
  then have "stores u T" using stores_cong[OF sp _ D(1)] m by auto
  moreover have "node_ok t \<lparr>keys = replicate (kMaxNum t) 0, children = (replicate (order t) 0)[0 := root t], keyNum = 0, isLeaf = False\<rparr> [] [root t]"
    using D(4) by (simp add: node_ok_def params_def take_Suc_conv_app_nth)
  ultimately show "stores u (Nd r [] [T])" using r(1) m D(2) by (simp add: node_ok_params[OF sp])
  show "distinct (node_addrs (Nd r [] [T]))" using D(3) nr by simp
  show "params u k" using params_same[OF sp D(4)] .
  show "finite (dom (node_mem u))" using D(5) m by simp
  show "shape k 0 (Suc h) (Nd r [] [T])" using shape_lo[OF D(6)] n by simp
qed

lemma insert_full:
  assumes T: "tree_ok t k h T" and new: "new_ok new" and k: "key \<notin> set (inorder T)" and n: "length (nkeys T) = 2 * k + 1"
  shows "if reads_front k key h (half k key T) then btree_insert new t key = None
    else \<exists>t'. btree_insert new t key = Some t' \<and> btree_ok t' k (insort key (inorder T))"
proof -
  note D = tree_okD[OF T]
  have kM: "kMaxNum t = 2 * k + 1" "order t = 2 * k + 2" using D(4) by (simp_all add: params_def)
  obtain nd where nd: "node_mem t (root t) = Some nd" "keyNum nd = 2 * k + 1" using D(1,2) n stores_Nd[of t T] by (auto simp: node_ok_def)
  obtain r where r: "new (node_mem t) = Some r" "r \<noteq> 0" "node_mem t r = None" using new_okD[OF new D(5)] by blast
  define u where "u = (put_node t r \<lparr>keys = replicate (kMaxNum t) 0, children = (replicate (order t) 0)[0 := root t], keyNum = 0, isLeaf = False\<rparr>)\<lparr>root := r\<rparr>"
  note U = new_root_ok[OF T r(2,3) n, folded u_def]
  have ks: "length ([] :: int list) < 2 * k + 1" by simp
  obtain b t1 where t1: "split_child new u r 0 = Some t1" "step_ok u (Nd r [] [T]) t1 (split_at k b r [] [] T [])"
    "shape k 0 (Suc h) (split_at k b r [] [] T [])" "inorder (split_at k b r [] [] T []) = inorder T"
    using split_step[of u r "[]" "[]" T "[]" k 0 h new] U(1-5) n new ks by (auto simp: mix_def)
  let ?m = "nkeys T ! k"
  let ?l = "Nd (adr T) (take k (nkeys T)) (take (k + 1) (subs T))" and ?r = "Nd b (drop (k + 1) (nkeys T)) (drop (k + 1) (subs T))"
  have sp: "split_at k b r [] [] T [] = Nd r [?m] ([] @ ?l # [?r])" "split_at k b r [] [] T [] = Nd r [?m] ([?l] @ ?r # [])" by (simp_all add: split_at_def)
  have H1: "stores t1 (split_at k b r [] [] T [])" "distinct (node_addrs (split_at k b r [] [] T []))" "finite (dom (node_mem t1))" "same_params u t1" "root t1 = r"
    using t1(2) by (simp_all add: step_ok_def u_def put_node_def)
  have P1: "params t1 k" using params_same[OF H1(4) U(3)] .
  have S1: "shape k (if Suc h = 0 then 0 else 1) (Suc h) (split_at k b r [] [] T [])" using t1(3) unfolding sp(1) by simp
  have o1: "sorted_wrt (<) (inorder (split_at k b r [] [] T []))" "key \<notin> set (inorder (split_at k b r [] [] T []))" using D(7) k(1) t1(4) by simp_all
  obtain nd1 where nd1: "node_mem t1 r = Some nd1" "rd (keys nd1) 0 = Some ?m" "rd (children nd1) 0 = Some (adr T)" "rd (children nd1) 1 = Some b"
    using stores_children[OF H1(1)[unfolded sp(1)]] by fastforce
  have mk: "?m \<noteq> key" using keys_in_order[of "[?l, ?r]" "[?m]" r] o1(2) unfolding sp(1) by auto
  have q: "btree_insert new t key = insert_notfull new t1 (if key < ?m then adr T else b) key"
    using nd r kM t1(1) nd1 unfolding u_def by (simp add: btree_insert_def create_node_def put_node_def)
  have ins: ?thesis
    if e: "split_at k b r [] [] T [] = Nd r [?m] (ls @ c # rs)" and c: "length (nkeys c) < 2 * k + 1"
      and sd: "take (length ls) [?m] \<noteq> [] \<longrightarrow> last (take (length ls) [?m]) < key" "drop (length ls) [?m] \<noteq> [] \<longrightarrow> key < hd (drop (length ls) [?m])"
      and qc: "btree_insert new t key = insert_notfull new t1 (adr c) key" and f: "reads_front k key h c = reads_front k key h (half k key T)" for ls c rs
  proof -
    note H2 = H1(1)[unfolded e] and D2 = H1(2)[unfolded e] and S2 = S1[unfolded e] and o2 = o1(1)[unfolded e]
    have l: "length [?m] = length ls + length rs" using S2 by simp
    have "insert_result new key k k h t1 c (insert_notfull new t1 (adr c) key)"
    proof (rule insert_notfull_ok)
      show "sorted_wrt (<) (inorder c)" "key \<notin> set (inorder c)" using o2 o1(2) inorder_child[OF l, of r c] unfolding e by (auto simp: sorted_wrt_append)
      show "stores t1 c" "distinct (node_addrs c)" "shape k k h c" using H2 D2 S2 by auto
    qed (use P1 H1(3) c new in simp_all)
    moreover have "\<exists>t'. x = Some t' \<and> btree_ok t' k (insort key (inorder T))" if "inserted new key k k h t1 c x" for x
      using inserted_root[OF inserted_child[OF that H2 D2 S2 o2 sd, folded e] _ P1 o1] H1(5) t1(4) unfolding sp(1) by simp
    ultimately show ?thesis unfolding qc insert_result_def f by (auto split: if_splits)
  qed
  show ?thesis
  proof (cases "key < ?m")
    case True
    show ?thesis by (rule ins[OF sp(1)]) (use True q in \<open>simp_all add: half_def\<close>)
  next
    case False
    have "reads_front k key h ?r = reads_front k key h (half k key T)" using False mk reads_front_adr[of k key h b] by (simp add: half_def)
    then show ?thesis by (intro ins[OF sp(2)]) (use False mk q n in simp_all)
  qed
qed

lemma insert_ok:
  assumes "tree_ok t k h T" "new_ok new" "key \<notin> set (inorder T)"
  shows "if reads_front k key h (if length (nkeys T) = 2 * k + 1 then half k key T else T) then btree_insert new t key = None
    else \<exists>t'. btree_insert new t key = Some t' \<and> btree_ok t' k (insort key (inorder T))"
proof (cases "length (nkeys T) = 2 * k + 1")
  case True
  from insert_full[OF assms(1-3) True] True show ?thesis by simp
next
  case False
  note D = tree_okD[OF assms(1)]
  have n: "length (nkeys T) < 2 * k + 1" using False shape_keys[OF D(6)] by simp
  obtain nd where nd: "node_mem t (root t) = Some nd" "keyNum nd = length (nkeys T)" using D(1,2) stores_Nd[of t T] by (auto simp: node_ok_def)
  have e: "btree_insert new t key = insert_notfull new t (adr T) key" using nd False D(2,4) by (simp add: btree_insert_def params_def)
  from insert_notfull_ok[OF D(1,3,4,5) assms(2) D(6) n D(7) assms(3)] show ?thesis
    using inserted_root[OF _ D(2,4,7) assms(3)] False unfolding e insert_result_def by (auto split: if_splits)
qed

lemma btree_init_ok:
  assumes new: "new_ok new" and o: "4 \<le> ord" "ord mod 2 = 0" "ord < 2 ^ 31"
  shows "\<exists>t. btree_init_tree new ord = Some (0, Some t) \<and> btree_ok t (nat ord div 2 - 1) []"
proof -
  let ?k = "nat ord div 2 - 1"
  obtain p where p: "new Map.empty = Some p" "p \<noteq> 0" using new_okD[OF new, of Map.empty] by auto
  have e: "nat ord = 2 * ?k + 2" "1 \<le> ?k"
  proof -
    obtain d where d: "ord = 2 * d" using o(2) by (auto elim: evenE)
    then have "nat ord = 2 * nat d" "2 \<le> nat d" using o(1) by (simp_all add: nat_mult_distrib)
    then show "nat ord = 2 * ?k + 2" "1 \<le> ?k" by simp_all
  qed
  let ?n = "\<lparr>keys = replicate (nat ord - 1) 0, children = replicate (nat ord) 0, keyNum = 0, isLeaf = True\<rparr>"
  let ?t = "\<lparr>root = p, kMaxNum = nat ord - 1, kMinNum = ?k, kMidIdx = ?k, order = nat ord, node_mem = [p \<mapsto> ?n]\<rparr>"
  have "btree_init_tree new ord = Some (0, Some ?t)" using o p by (simp add: btree_init_tree_def create_node_def put_node_def Let_def)
  moreover have "nat ord - 1 = 2 * ?k + 1" using e by linarith
  then have "tree_ok ?t ?k 0 (Nd p [] [])" using p(2) e by (simp add: tree_ok_def node_ok_def params_def)
  then have "btree_ok ?t ?k []" unfolding btree_ok_def by fastforce
  ultimately show ?thesis by auto
qed

end
