(* ===== verification/Btree_Repair.thy ===== *)
theory Btree_Repair
  imports Btree_Insert
begin

text \<open>Branch 2.1 of \<^verbatim>\<open>_delete_key\<close>: a child gets a key from a sibling, or is merged with one.\<close>

subsection \<open>One node\<close>

lemma shift_replicate [simp]:
  "shift_up n j (replicate m x) = replicate m x" "j < m \<Longrightarrow> shift_down n j (replicate m x) = replicate m x"
  by (rule nth_equalityI; auto)+

lemma node_okD:
  assumes "node_ok t nd ks cs"
  shows "length (keys nd) = kMaxNum t" "length (children nd) = order t" "keyNum nd = length ks" "length ks \<le> kMaxNum t"
    "take (length ks) (keys nd) = ks" "isLeaf nd = (cs = [])" "cs = [] \<Longrightarrow> children nd = replicate (order t) 0"
    "cs \<noteq> [] \<Longrightarrow> length cs = length ks + 1 \<and> length ks < order t \<and> take (length ks + 1) (children nd) = cs"
  using assms by (auto simp: node_ok_def)

lemma node_ok_nth:
  assumes "node_ok t nd ks cs"
  shows "i < length ks \<Longrightarrow> rd (keys nd) i = Some (ks ! i)" "i < length cs \<Longrightarrow> rd (children nd) i = Some (cs ! i)"
    "cs = [] \<Longrightarrow> i < order t \<Longrightarrow> rd (children nd) i = Some 0"
proof -
  note D = node_okD[OF assms]
  show "rd (keys nd) i = Some (ks ! i)" if "i < length ks" using D(1,4,5) that by (metis less_le_trans nth_take rd_in)
  show "rd (children nd) i = Some (cs ! i)" if i: "i < length cs"
  proof -
    have c: "length cs = length ks + 1" "length ks < order t" "take (length ks + 1) (children nd) = cs" using D(8) i by (cases cs; auto)+
    then have "children nd ! i = cs ! i" using i by (metis nth_take)
    then show ?thesis using D(2) c(1,2) i by simp
  qed
  show "rd (children nd) i = Some 0" if "cs = []" "i < order t" using D(7) that by simp
qed

text \<open>A key and a child more at the end, a key and a child less at the front.\<close>

lemma grow_right_ok:
  assumes c: "node_ok t c ck cs" and n: "length ck < kMaxNum t" "order t = kMaxNum t + 1" and x: "cs = [] \<Longrightarrow> x = 0"
  shows "length ck + 1 < length (children c)"
    "node_ok t (c\<lparr>keys := (keys c)[length ck := m], children := (children c)[length ck + 1 := x], keyNum := keyNum c + 1\<rparr>)
      (ck @ [m]) (cs @ (if cs = [] then [] else [x]))"
proof -
  note D = node_okD[OF c]
  show l: "length ck + 1 < length (children c)" using D n by simp
  have k: "take (length ck + 1) ((keys c)[length ck := m]) = ck @ [m]" using D n by (simp add: take_Suc_conv_app_nth)
  have "take (length ck + 2) ((children c)[length ck + 1 := x]) = take (length ck + 1) (children c) @ [x]"
    using l by (simp add: take_Suc_conv_app_nth)
  then show "node_ok t (c\<lparr>keys := (keys c)[length ck := m], children := (children c)[length ck + 1 := x], keyNum := keyNum c + 1\<rparr>)
      (ck @ [m]) (cs @ (if cs = [] then [] else [x]))"
    by (intro node_okI) (use D n k x l in \<open>auto simp: list_update_same_conv simp del: replicate_Suc\<close>)
qed

lemma shrink_left_ok:
  assumes r: "node_ok t r (rk # rks) cs" and n: "order t = kMaxNum t + 1"
  shows "\<exists>r'. right_close (keyNum r - 1) 0 r = Some r' \<and> node_ok t (r'\<lparr>keyNum := keyNum r' - 1\<rparr>) rks (drop 1 cs) \<and> keyNum r' = keyNum r"
proof -
  note D = node_okD[OF r]
  let ?m = "length rks"
  let ?r = "r\<lparr>keys := shift_down 0 ?m (keys r), children := (shift_down 0 (?m + 1) (children r))[?m + 1 := 0]\<rparr>"
  have l: "?m < length (keys r)" "?m + 1 < length (children r)" using D n by auto
  have "right_close (keyNum r - 1) 0 r = Some ?r" using right_close_eq[of 0 ?m r] D(3) l by simp
  moreover have "take ?m (shift_down 0 ?m (keys r)) = rks" using take_shift_down[of 0 ?m "keys r"] l D(5) by simp
  moreover have "take (?m + 1) ((shift_down 0 (?m + 1) (children r))[?m + 1 := 0]) = drop 1 cs" if "cs \<noteq> []"
    using take_shift_down[of 0 "?m + 1" "children r"] l D(8)[OF that] by simp
  moreover have "drop 1 cs \<noteq> [] \<or> cs = []" using D(8) by (cases cs; cases "drop 1 cs") auto
  ultimately have "right_close (keyNum r - 1) 0 r = Some ?r" "node_ok t (?r\<lparr>keyNum := keyNum ?r - 1\<rparr>) rks (drop 1 cs)"
    by (simp, intro node_okI) (use D n l in \<open>auto simp: list_update_same_conv simp del: replicate_Suc\<close>)
  then show ?thesis by (intro exI[of _ ?r]) simp
qed

text \<open>A key and a child more at the front, a key and a child less at the end.\<close>

lemma grow_left_ok:
  assumes c: "node_ok t c ck cs" and n: "length ck < kMaxNum t" "order t = kMaxNum t + 1" and x: "cs = [] \<Longrightarrow> x = 0"
  shows "\<exists>c'. left_open (keyNum c) c = Some c' \<and> 0 < length (keys c') \<and> 0 < length (children c') \<and> keyNum c' = keyNum c
    \<and> node_ok t (c'\<lparr>keys := (keys c')[0 := m], children := (children c')[0 := x], keyNum := keyNum c' + 1\<rparr>) (m # ck) ((if cs = [] then [] else [x]) @ cs)"
proof -
  note D = node_okD[OF c]
  let ?n = "length ck"
  have l: "?n < length (keys c)" "?n + 1 < length (children c)" using D n by auto
  let ?c = "c\<lparr>keys := shift_up 0 ?n (keys c), children := shift_up 0 (?n + 1) (children c)\<rparr>"
  have o: "left_open (keyNum c) c = Some ?c" using left_open_eq[of ?n c] l D(3) by simp
  have k: "take (?n + 1) ((shift_up 0 ?n (keys c))[0 := m]) = m # ck" using take_shift_up[of 0 ?n "keys c" m] l D(5) by simp
  have "take (?n + 1 + 1) ((shift_up 0 (?n + 1) (children c))[0 := x]) = x # take (?n + 1) (children c)"
    using take_shift_up[of 0 "?n + 1" "children c" x] l by simp
  then have "node_ok t (?c\<lparr>keys := (keys ?c)[0 := m], children := (children ?c)[0 := x], keyNum := keyNum ?c + 1\<rparr>) (m # ck) ((if cs = [] then [] else [x]) @ cs)"
    by (intro node_okI) (use D n k x l in \<open>auto simp: list_update_same_conv simp del: replicate_Suc\<close>)
  then show ?thesis using o l by (intro exI[of _ ?c]) auto
qed

lemma shrink_right_ok:
  assumes l: "node_ok t l (lks @ [lk]) cs" and n: "order t = kMaxNum t + 1"
  shows "length lks + 1 < length (children l)"
    "node_ok t (l\<lparr>children := (children l)[length lks + 1 := 0], keyNum := keyNum l - 1\<rparr>) lks (take (length lks + 1) cs)"
proof -
  note D = node_okD[OF l]
  show le: "length lks + 1 < length (children l)" using D n by simp
  have "take (length lks) (keys l) = lks" using D(5) by (metis append_eq_conv_conj length_append_singleton take_take min.absorb1 le_add1 Suc_eq_plus1)
  moreover have "take (length lks + 1) (children l) = take (length lks + 1) cs" if "cs \<noteq> []" using D(8)[OF that] by (metis add_le_mono1 length_append_singleton min.absorb1 take_take le_add1 Suc_eq_plus1)
  ultimately show "node_ok t (l\<lparr>children := (children l)[length lks + 1 := 0], keyNum := keyNum l - 1\<rparr>) lks (take (length lks + 1) cs)"
    by (intro node_okI) (use D n le in \<open>auto simp: list_update_same_conv simp del: replicate_Suc\<close>)
qed

lemma set_key_ok:
  assumes "node_ok t p ks cs" "i < length ks"
  shows "i < length (keys p)" "node_ok t (p\<lparr>keys := (keys p)[i := k]\<rparr>) (ks[i := k]) cs"
proof -
  note D = node_okD[OF assms(1)]
  show "i < length (keys p)" using D assms(2) by simp
  show "node_ok t (p\<lparr>keys := (keys p)[i := k]\<rparr>) (ks[i := k]) cs"
    by (rule node_okI) (use D in \<open>auto simp: take_update_swap\<close>)
qed

text \<open>The merge of two nodes, and the parent of the merged node.\<close>

lemma merge_left_ok:
  assumes l: "node_ok t l lk ls" and r: "node_ok t r rk rs" and n: "length lk + length rk + 1 \<le> kMaxNum t" "order t = kMaxNum t + 1" and lf: "ls = [] \<longleftrightarrow> rs = []"
  shows "length lk < length (keys l)"
    "\<exists>l'. merge_copy r (keyNum l + 1) 0 (l\<lparr>keys := (keys l)[length lk := m]\<rparr>) = Some l' \<and> node_ok t (l'\<lparr>keyNum := keyNum l + (1 + keyNum r)\<rparr>) (lk @ m # rk) (ls @ rs)"
proof -
  note L = node_okD[OF l] and R = node_okD[OF r]
  show len: "length lk < length (keys l)" using L n by simp
  let ?l = "l\<lparr>keys := (keys l)[length lk := m]\<rparr>"
  let ?i = "length lk + 1" and ?d = "length rk"
  let ?l' = "l\<lparr>keys := take ?i ((keys l)[length lk := m]) @ take ?d (keys r) @ drop (?i + ?d) ((keys l)[length lk := m]),
    children := take ?i (children l) @ take (?d + 1) (children r) @ drop (?i + ?d + 1) (children l)\<rparr>"
  have "merge_copy r (keyNum l + 1) 0 ?l = Some ?l'"
    using merge_copy_eq[of 0 ?d r ?i ?l] L R n by simp
  moreover have k: "take ?i ((keys l)[length lk := m]) = lk @ [m]" using L len by (simp add: take_Suc_conv_app_nth)
  have "node_ok t (?l'\<lparr>keyNum := keyNum l + (1 + keyNum r)\<rparr>) (lk @ m # rk) (ls @ rs)"
  proof (rule node_okI)
    show "take (length (lk @ m # rk)) (keys (?l'\<lparr>keyNum := keyNum l + (1 + keyNum r)\<rparr>)) = lk @ m # rk" using k R by simp
    show "children (?l'\<lparr>keyNum := keyNum l + (1 + keyNum r)\<rparr>) = replicate (order t) 0" if "ls @ rs = []"
      using L(7) R(7) that n by (simp del: replicate_Suc flip: replicate_add)
    show "length (ls @ rs) = length (lk @ m # rk) + 1 \<and> length (lk @ m # rk) < order t
      \<and> take (length (lk @ m # rk) + 1) (children (?l'\<lparr>keyNum := keyNum l + (1 + keyNum r)\<rparr>)) = ls @ rs" if "ls @ rs \<noteq> []"
      using L(8) R(8) that lf n by auto
  qed (use L R n lf in auto)
  ultimately show "\<exists>l'. merge_copy r (keyNum l + 1) 0 ?l = Some l' \<and> node_ok t (l'\<lparr>keyNum := keyNum l + (1 + keyNum r)\<rparr>) (lk @ m # rk) (ls @ rs)" by blast
qed

lemma merge_parent_ok:
  assumes p: "node_ok t p ks cs" and i: "i < length ks" and c: "cs \<noteq> []"
  shows "\<exists>p'. merge_shift i p = Some p' \<and> keyNum p' = keyNum p \<and> (2 \<le> length ks \<longrightarrow> node_ok t (p'\<lparr>keyNum := keyNum p' - 1\<rparr>) (take i ks @ drop (i + 1) ks) (take (i + 1) cs @ drop (i + 2) cs))"
proof -
  note D = node_okD[OF p]
  let ?n = "length ks"
  have C: "length cs = ?n + 1" "?n < length (children p)" "take (?n + 1) (children p) = cs" using D(2) D(8)[OF c] by auto
  let ?p = "p\<lparr>keys := shift_down i (?n - 1) (keys p), children := (shift_down (i + 1) ?n (children p))[?n := 0]\<rparr>"
  have s: "merge_shift i p = Some ?p" using merge_shift_eq[of i p] D i C(2) by simp
  have n1: "?n - 1 + 1 = ?n" "i \<le> ?n - 1" "?n - 1 < length (keys p)" using i D by auto
  have "take i (keys p) = take i ks" using D(5) i by (metis less_imp_le min.absorb1 take_take)
  then have k: "take (?n - 1) (shift_down i (?n - 1) (keys p)) = take i ks @ drop (i + 1) ks"
    using take_shift_down[OF n1(2,3)] n1(1) D(5) by simp
  have "take (i + 1) (children p) = take (i + 1) cs" using C(3) i by (metis add_le_mono1 less_imp_le min.absorb1 take_take)
  then have ch: "take ?n ((shift_down (i + 1) ?n (children p))[?n := 0]) = take (i + 1) cs @ drop (i + 2) cs"
    using take_shift_down[of "i + 1" ?n "children p"] i C by simp
  have "node_ok t (?p\<lparr>keyNum := keyNum ?p - 1\<rparr>) (take i ks @ drop (i + 1) ks) (take (i + 1) cs @ drop (i + 2) cs)" if "2 \<le> ?n"
    by (rule node_okI) (use D i C k ch n1 c in auto)
  then show ?thesis using s by (intro exI[of _ ?p]) simp
qed

subsection \<open>Borrowing from a sibling\<close>

lemma frame_holds:
  assumes "stores t x" "same_params t u" "\<forall>q. q \<notin> A \<longrightarrow> node_mem u q = node_mem t q" "A \<inter> set (node_addrs x) = {}"
  shows "stores u x"
  using stores_cong[OF assms(2) _ assms(1)] assms(3,4) by blast

lemma stores_node: "stores t x \<Longrightarrow> \<exists>nd. node_mem t (adr x) = Some nd \<and> node_ok t nd (nkeys x) (map adr (subs x)) \<and> adr x \<noteq> 0"
  using stores_Nd[of t x] by blast

lemma step_okI:
  "stores u T' \<Longrightarrow> distinct (node_addrs T') \<Longrightarrow> same_params t u \<Longrightarrow> root u = root t \<Longrightarrow> finite (dom (node_mem u)) \<Longrightarrow>
   set (node_addrs T') \<subseteq> set (node_addrs T) \<Longrightarrow> (\<And>p. p \<notin> set (node_addrs T) \<Longrightarrow> node_mem u p = node_mem t p) \<Longrightarrow> step_ok t T u T'"
  unfolding step_ok_def by blast

lemma params_order: "params t k \<Longrightarrow> kMaxNum t = 2 * k + 1 \<and> order t = kMaxNum t + 1 \<and> kMinNum t = k"
  by (simp add: params_def)

lemma put3:
  assumes "a \<noteq> b" "a \<noteq> c" "b \<noteq> c" "u = put_node (put_node (put_node t a x) b y) c z"
  shows "node_mem u a = Some x" "node_mem u b = Some y" "node_mem u c = Some z" "\<forall>q. q \<notin> {a, b, c} \<longrightarrow> node_mem u q = node_mem t q"
    "same_params t u" "root u = root t" "dom (node_mem u) = insert a (insert b (insert c (dom (node_mem t))))"
  using assms by (auto simp: put_node_def same_params_def)

lemma node_addrs_take_drop: "concat (map node_addrs (subs x)) = concat (map node_addrs (take n (subs x))) @ concat (map node_addrs (drop n (subs x)))"
  by (simp flip: concat_append map_append)

lemma adr_disjoint: "set (node_addrs x) \<inter> set (node_addrs y) = {} \<Longrightarrow> adr x \<noteq> adr y"
  using adr_in[of x] adr_in[of y] by (metis IntI empty_iff)

lemma three_nodes:
  assumes "distinct (node_addrs (Nd a ks (ls @ c # r # rs)))"
  shows "a \<noteq> adr c" "a \<noteq> adr r" "adr c \<noteq> adr r"
proof -
  have "set (node_addrs c) \<inter> set (node_addrs r) = {}" "a \<notin> set (node_addrs c)" "a \<notin> set (node_addrs r)" using assms by auto
  then show "a \<noteq> adr c" "a \<noteq> adr r" "adr c \<noteq> adr r" using adr_disjoint adr_in by metis+
qed

lemma borrow_right_ok:
  assumes H: "stores t (Nd a (kl @ m # kr) (ls @ c # r # rs))" and D: "distinct (node_addrs (Nd a (kl @ m # kr) (ls @ c # r # rs)))"
    and P: "params t k" and f: "finite (dom (node_mem t))" and l: "length ls = length kl" and n: "length (nkeys c) < 2 * k + 1" "nkeys r = rk # rks"
    and lf: "subs c = [] \<longleftrightarrow> subs r = []"
  defines "T' \<equiv> Nd a (kl @ rk # kr) (ls @ Nd (adr c) (nkeys c @ [m]) (subs c @ take 1 (subs r)) # Nd (adr r) rks (drop 1 (subs r)) # rs)"
  shows "\<exists>t'. borrow_right t a (length kl) (adr c) (adr r) = Some t' \<and> step_ok t (Nd a (kl @ m # kr) (ls @ c # r # rs)) t' T'"
proof -
  note O = params_order[OF P]
  obtain p where p: "node_mem t a = Some p" "node_ok t p (kl @ m # kr) (map adr (ls @ c # r # rs))" "a \<noteq> 0" using H by auto
  obtain cn where c: "node_mem t (adr c) = Some cn" "node_ok t cn (nkeys c) (map adr (subs c))" "adr c \<noteq> 0" using H stores_node[of t c] by auto
  obtain rn where r: "node_mem t (adr r) = Some rn" "node_ok t rn (rk # rks) (map adr (subs r))" "adr r \<noteq> 0" using H n(2) stores_node[of t r] by auto
  note ne = three_nodes[OF D]
  define x where "x = (if subs r = [] then 0 else adr (hd (subs r)))"
  have x: "rd (children rn) 0 = Some x"
    using node_ok_nth(2,3)[OF r(2), of 0] O by (cases "subs r") (simp_all add: x_def)
  have rk: "rd (keys rn) 0 = Some rk" using node_ok_nth(1)[OF r(2), of 0] by simp
  have pm: "rd (keys p) (length kl) = Some m" using node_ok_nth(1)[OF p(2), of "length kl"] by simp
  have wk: "length (nkeys c) < length (keys cn)" "keyNum cn = length (nkeys c)" using node_okD[OF c(2)] n(1) O by simp_all
  have i: "length kl < length (kl @ m # kr)" by simp
  note p' = set_key_ok(1)[OF p(2) i] set_key_ok(2)[OF p(2) i, where k = rk]
  obtain rn' where r': "right_close (keyNum rn - 1) 0 rn = Some rn'" "node_ok t (rn'\<lparr>keyNum := keyNum rn' - 1\<rparr>) rks (drop 1 (map adr (subs r)))" "keyNum rn' = keyNum rn"
    using shrink_left_ok[OF r(2)] O by blast
  have n': "length (nkeys c) < kMaxNum t" "order t = kMaxNum t + 1" "map adr (subs c) = [] \<Longrightarrow> x = 0" using n(1) O lf by (simp_all add: x_def)
  note c' = grow_right_ok(1)[OF c(2) n'] grow_right_ok(2)[OF c(2) n', where m = m]
  let ?p = "p\<lparr>keys := (keys p)[length kl := rk]\<rparr>" and ?r = "rn'\<lparr>keyNum := keyNum rn' - 1\<rparr>"
    and ?c = "cn\<lparr>keys := (keys cn)[length (nkeys c) := m], children := (children cn)[length (nkeys c) + 1 := x], keyNum := keyNum cn + 1\<rparr>"
  define u where "u = put_node (put_node (put_node t a ?p) (adr c) ?c) (adr r) ?r"
  note U = put3[OF ne u_def]
  have "borrow_right t a (length kl) (adr c) (adr r) = Some u"
    using p(1) c(1) r(1) pm rk x p'(1) c'(1) r'(1) wk unfolding u_def by (simp add: borrow_right_def)
  moreover have "step_ok t (Nd a (kl @ m # kr) (ls @ c # r # rs)) u T'"
  proof (rule step_okI)
    have fr: "stores u y" if y: "y \<in> set (ls @ rs @ subs c @ subs r)" for y
    proof (rule frame_holds[OF _ U(5,4)])
      show "stores t y" using y H stores_Nd[of t c] stores_Nd[of t r] by auto
      show "{a, adr c, adr r} \<inter> set (node_addrs y) = {}" using D y ne node_addrs_Nd[of c] node_addrs_Nd[of r] by auto
    qed
    have "map adr (subs c @ take 1 (subs r)) = map adr (subs c) @ (if map adr (subs c) = [] then [] else [x])"
      using lf by (cases "subs r") (simp_all add: x_def)
    then have 1: "stores u (Nd (adr c) (nkeys c @ [m]) (subs c @ take 1 (subs r)))"
      using U(2) c(3) c'(2) fr by (auto simp: node_ok_params[OF U(5)] dest: in_set_takeD)
    have 2: "stores u (Nd (adr r) rks (drop 1 (subs r)))"
      using U(3) r(3) r'(2) fr by (auto simp: node_ok_params[OF U(5)] drop_map dest: in_set_dropD)
    show "stores u T'" using U(1) p(3) p'(2) 1 2 fr unfolding T'_def by (auto simp: node_ok_params[OF U(5)])
    show "distinct (node_addrs T')" "set (node_addrs T') \<subseteq> set (node_addrs (Nd a (kl @ m # kr) (ls @ c # r # rs)))"
      using D unfolding T'_def by (auto simp: node_addrs_Nd[of c] node_addrs_Nd[of r] node_addrs_take_drop[of r 1])
    show "finite (dom (node_mem u))" using U(7) f by simp
    show "node_mem u q = node_mem t q" if q: "q \<notin> set (node_addrs (Nd a (kl @ m # kr) (ls @ c # r # rs)))" for q
      using U(4) q adr_in[of c] adr_in[of r] by auto
  qed (rule U(5), rule U(6))
  ultimately show ?thesis by blast
qed

end
