(* ===== verification/Btree_Merge.thy ===== *)
theory Btree_Merge
  imports Btree_Repair
begin

text \<open>A key from the left sibling, and the merge of two siblings, in the tree.\<close>

lemma borrow_left_ok:
  assumes H: "stores t (Nd a (kl @ m # kr) (ls @ l # c # rs))" and D: "distinct (node_addrs (Nd a (kl @ m # kr) (ls @ l # c # rs)))"
    and P: "params t k" and f: "finite (dom (node_mem t))" and n: "length (nkeys c) < 2 * k + 1" "nkeys l = lks @ [lk]"
    and lf: "subs c = [] \<longleftrightarrow> subs l = []"
  defines "T' \<equiv> Nd a (kl @ lk # kr) (ls @ Nd (adr l) lks (take (length lks + 1) (subs l)) # Nd (adr c) (m # nkeys c) (drop (length lks + 1) (subs l) @ subs c) # rs)"
  shows "\<exists>t'. borrow_left t a (length kl + 1) (adr c) (adr l) = Some t' \<and> step_ok t (Nd a (kl @ m # kr) (ls @ l # c # rs)) t' T'"
proof -
  note O = params_order[OF P]
  obtain p where p: "node_mem t a = Some p" "node_ok t p (kl @ m # kr) (map adr (ls @ l # c # rs))" "a \<noteq> 0" using H by auto
  obtain cn where c: "node_mem t (adr c) = Some cn" "node_ok t cn (nkeys c) (map adr (subs c))" "adr c \<noteq> 0" using H stores_node[of t c] by auto
  obtain ln where l: "node_mem t (adr l) = Some ln" "node_ok t ln (lks @ [lk]) (map adr (subs l))" "adr l \<noteq> 0" using H n(2) stores_node[of t l] by auto
  note ne = three_nodes[OF D]
  have sl: "subs l \<noteq> [] \<Longrightarrow> length (subs l) = length lks + 2" using node_okD(8)[OF l(2)] by simp
  have dl: "subs l \<noteq> [] \<Longrightarrow> drop (length lks + 1) (subs l) = [subs l ! (length lks + 1)]" using sl by (simp add: Cons_nth_drop_Suc[symmetric])
  define x where "x = (if subs l = [] then 0 else adr (subs l ! (length lks + 1)))"
  have kl': "keyNum ln = length lks + 1" "length lks + 1 < order t" using node_okD(3,4)[OF l(2)] O by simp_all
  have x: "rd (children ln) (keyNum ln) = Some x"
    using node_ok_nth(2,3)[OF l(2), of "length lks + 1"] kl' sl by (cases "subs l = []") (simp_all add: x_def)
  have lk: "rd (keys ln) (keyNum ln - 1) = Some lk" using node_ok_nth(1)[OF l(2), of "length lks"] kl' by simp
  have pm: "rd (keys p) (length kl) = Some m" using node_ok_nth(1)[OF p(2), of "length kl"] by simp
  have i: "length kl < length (kl @ m # kr)" by simp
  note p' = set_key_ok(1)[OF p(2) i] set_key_ok(2)[OF p(2) i, where k = lk]
  have n': "length (nkeys c) < kMaxNum t" "order t = kMaxNum t + 1" "map adr (subs c) = [] \<Longrightarrow> x = 0" using n(1) O lf by (simp_all add: x_def)
  obtain cn' where c': "left_open (keyNum cn) cn = Some cn'" "0 < length (keys cn')" "0 < length (children cn')" "keyNum cn' = keyNum cn"
    "node_ok t (cn'\<lparr>keys := (keys cn')[0 := m], children := (children cn')[0 := x], keyNum := keyNum cn' + 1\<rparr>) (m # nkeys c) ((if map adr (subs c) = [] then [] else [x]) @ map adr (subs c))"
    using grow_left_ok[OF c(2) n', of m] by blast
  note l' = shrink_right_ok[OF l(2) n'(2)]
  let ?p = "p\<lparr>keys := (keys p)[length kl := lk]\<rparr>"
    and ?c = "cn'\<lparr>keys := (keys cn')[0 := m], children := (children cn')[0 := x], keyNum := keyNum cn' + 1\<rparr>"
    and ?l = "ln\<lparr>children := (children ln)[length lks + 1 := 0], keyNum := keyNum ln - 1\<rparr>"
  define u where "u = put_node (put_node (put_node t a ?p) (adr c) ?c) (adr l) ?l"
  note U = put3[OF ne(2,1) ne(3)[symmetric] u_def]
  have w: "rd (keys p) (length kl + 1 - 1) = Some m" "wr (keys cn') 0 m = Some ((keys cn')[0 := m])" "wr (children cn') 0 x = Some ((children cn')[0 := x])"
    "wr (children ln) (keyNum ln) 0 = Some ((children ln)[length lks + 1 := 0])" "wr (keys p) (length kl + 1 - 1) lk = Some ((keys p)[length kl := lk])"
    using pm c'(2,3) l'(1) kl' p'(1) by (simp_all add: wr_def)
  have "borrow_left t a (length kl + 1) (adr c) (adr l) = Some u"
    using p(1) c(1) l(1) c'(1) w lk x unfolding u_def by (simp add: borrow_left_def)
  moreover have "step_ok t (Nd a (kl @ m # kr) (ls @ l # c # rs)) u T'"
  proof (rule step_okI)
    have fr: "stores u y" if y: "y \<in> set (ls @ rs @ subs c @ subs l)" for y
    proof (rule frame_holds[OF _ U(5,4)])
      show "stores t y" using y H stores_Nd[of t c] stores_Nd[of t l] by auto
      show "{a, adr c, adr l} \<inter> set (node_addrs y) = {}" using D y ne node_addrs_Nd[of c] node_addrs_Nd[of l] by auto
    qed
    have "map adr (drop (length lks + 1) (subs l) @ subs c) = (if map adr (subs c) = [] then [] else [x]) @ map adr (subs c)"
      using lf dl by (cases "subs l = []") (simp_all add: x_def)
    then have 1: "stores u (Nd (adr c) (m # nkeys c) (drop (length lks + 1) (subs l) @ subs c))"
      using U(2) c(3) c'(5) fr by (auto simp: node_ok_params[OF U(5)] dest: in_set_dropD)
    have 2: "stores u (Nd (adr l) lks (take (length lks + 1) (subs l)))"
      using U(3) l(3) l'(2) fr by (auto simp: node_ok_params[OF U(5)] take_map dest: in_set_takeD)
    show "stores u T'" using U(1) p(3) p'(2) 1 2 fr unfolding T'_def by (auto simp: node_ok_params[OF U(5)])
    show "distinct (node_addrs T')" "set (node_addrs T') \<subseteq> set (node_addrs (Nd a (kl @ m # kr) (ls @ l # c # rs)))"
      using D unfolding T'_def by (auto simp: node_addrs_Nd[of c] node_addrs_Nd[of l] node_addrs_take_drop[of l "length lks + 1"])
    show "finite (dom (node_mem u))" using U(7) f by simp
    show "node_mem u q = node_mem t q" if q: "q \<notin> set (node_addrs (Nd a (kl @ m # kr) (ls @ l # c # rs)))" for q
      using U(4) q adr_in[of c] adr_in[of l] by auto
  qed (rule U(5), rule U(6))
  ultimately show ?thesis by blast
qed

subsection \<open>Merging\<close>

text \<open>The common part: what \<^verbatim>\<open>_merge_children\<close> returns, and the merged node in it.\<close>

lemma merge_common:
  assumes H: "stores t (Nd a (kl @ m # kr) (ls @ l # r # rs))" and D: "distinct (node_addrs (Nd a (kl @ m # kr) (ls @ l # r # rs)))"
    and P: "params t k" and i: "length ls = length kl" and n: "length (nkeys l) + length (nkeys r) + 1 \<le> 2 * k + 1" and lf: "subs l = [] \<longleftrightarrow> subs r = []"
  defines "c \<equiv> Nd (adr l) (nkeys l @ m # nkeys r) (subs l @ subs r)"
  shows "\<exists>l' p'. merge_children t a (length kl) =
      (let u = destroy_node (put_node t (adr l) l') (adr r); p = p'\<lparr>keyNum := keyNum p' - 1\<rparr>
       in Some (if keyNum p = 0 then destroy_node (u\<lparr>root := adr l\<rparr>) a else put_node u a p))
    \<and> node_ok t l' (nkeys c) (map adr (subs c)) \<and> keyNum p' = length (kl @ m # kr)
    \<and> (2 \<le> length (kl @ m # kr) \<longrightarrow> node_ok t (p'\<lparr>keyNum := keyNum p' - 1\<rparr>) (kl @ kr) (map adr (ls @ c # rs)))"
proof -
  note O = params_order[OF P]
  let ?ks = "kl @ m # kr" and ?cs = "map adr (ls @ l # r # rs)"
  obtain p where p: "node_mem t a = Some p" "node_ok t p ?ks ?cs" "a \<noteq> 0" using H by auto
  obtain ln where l: "node_mem t (adr l) = Some ln" "node_ok t ln (nkeys l) (map adr (subs l))" "adr l \<noteq> 0" using H stores_node[of t l] by auto
  obtain rn where r: "node_mem t (adr r) = Some rn" "node_ok t rn (nkeys r) (map adr (subs r))" "adr r \<noteq> 0" using H stores_node[of t r] by auto
  have c: "rd (children p) (length kl) = Some (adr l)" "rd (children p) (length kl + 1) = Some (adr r)" "rd (keys p) (length kl) = Some m"
    using node_ok_nth(2)[OF p(2), of "length kl"] node_ok_nth(2)[OF p(2), of "length kl + 1"] node_ok_nth(1)[OF p(2), of "length kl"] i
    by (simp_all add: nth_append)
  have n': "length (nkeys l) + length (nkeys r) + 1 \<le> kMaxNum t" "order t = kMaxNum t + 1" "map adr (subs l) = [] \<longleftrightarrow> map adr (subs r) = []" using n O lf by auto
  obtain l' where l': "merge_copy rn (keyNum ln + 1) 0 (ln\<lparr>keys := (keys ln)[length (nkeys l) := m]\<rparr>) = Some l'"
    "node_ok t (l'\<lparr>keyNum := keyNum ln + (1 + keyNum rn)\<rparr>) (nkeys l @ m # nkeys r) (map adr (subs l) @ map adr (subs r))"
    using merge_left_ok(2)[OF l(2) r(2) n', of m] by blast
  have wk: "wr (keys ln) (keyNum ln) m = Some ((keys ln)[length (nkeys l) := m])"
    using merge_left_ok(1)[OF l(2) r(2) n'] node_okD(3)[OF l(2)] by (simp add: wr_def)
  have "length kl < length ?ks" "?cs \<noteq> []" by simp_all
  from merge_parent_ok[OF p(2) this] obtain p' where p': "merge_shift (length kl) p = Some p'" "keyNum p' = keyNum p"
    "2 \<le> length ?ks \<longrightarrow> node_ok t (p'\<lparr>keyNum := keyNum p' - 1\<rparr>) (take (length kl) ?ks @ drop (length kl + 1) ?ks) (take (length kl + 1) ?cs @ drop (length kl + 2) ?cs)"
    by blast
  have "take (length kl + 1) ?cs @ drop (length kl + 2) ?cs = map adr (ls @ c # rs)" using i by (simp add: c_def)
  then have "2 \<le> length ?ks \<longrightarrow> node_ok t (p'\<lparr>keyNum := keyNum p' - 1\<rparr>) (kl @ kr) (map adr (ls @ c # rs))" using p'(3) by simp
  moreover have "keyNum p' = length ?ks" using p'(2) node_okD(3)[OF p(2)] by simp
  moreover have "merge_children t a (length kl) =
      (let u = destroy_node (put_node t (adr l) (l'\<lparr>keyNum := keyNum ln + (1 + keyNum rn)\<rparr>)) (adr r); p = p'\<lparr>keyNum := keyNum p' - 1\<rparr>
       in Some (if keyNum p = 0 then destroy_node (u\<lparr>root := adr l\<rparr>) a else put_node u a p))"
    using p(1) l(1) r(1) c wk l'(1) p'(1) by (simp add: merge_children_def)
  ultimately show ?thesis using l'(2) unfolding c_def by (intro exI[of _ "l'\<lparr>keyNum := keyNum ln + (1 + keyNum rn)\<rparr>"] exI[of _ p']) simp
qed

lemma merge_ok:
  assumes H: "stores t (Nd a (kl @ m # kr) (ls @ l # r # rs))" and D: "distinct (node_addrs (Nd a (kl @ m # kr) (ls @ l # r # rs)))"
    and P: "params t k" and f: "finite (dom (node_mem t))" and i: "length ls = length kl" and n: "length (nkeys l) + length (nkeys r) + 1 \<le> 2 * k + 1"
    and lf: "subs l = [] \<longleftrightarrow> subs r = []" and ne: "kl @ kr \<noteq> []"
  defines "T' \<equiv> Nd a (kl @ kr) (ls @ Nd (adr l) (nkeys l @ m # nkeys r) (subs l @ subs r) # rs)"
  shows "\<exists>t'. merge_children t a (length kl) = Some t' \<and> step_ok t (Nd a (kl @ m # kr) (ls @ l # r # rs)) t' T'"
proof -
  let ?c = "Nd (adr l) (nkeys l @ m # nkeys r) (subs l @ subs r)"
  obtain l' p' where M: "merge_children t a (length kl) =
      (let u = destroy_node (put_node t (adr l) l') (adr r); p = p'\<lparr>keyNum := keyNum p' - 1\<rparr>
       in Some (if keyNum p = 0 then destroy_node (u\<lparr>root := adr l\<rparr>) a else put_node u a p))"
    "node_ok t l' (nkeys ?c) (map adr (subs ?c))" "keyNum p' = length (kl @ m # kr)"
    "2 \<le> length (kl @ m # kr) \<longrightarrow> node_ok t (p'\<lparr>keyNum := keyNum p' - 1\<rparr>) (kl @ kr) (map adr (ls @ ?c # rs))"
    using merge_common[OF H D P i n lf] by blast
  have two: "2 \<le> length (kl @ m # kr)" using ne by (cases kl; cases kr) auto
  note na = three_nodes[OF D]
  let ?p = "p'\<lparr>keyNum := keyNum p' - 1\<rparr>"
  define u where "u = put_node (destroy_node (put_node t (adr l) l') (adr r)) a ?p"
  have a0: "a \<noteq> 0" "adr l \<noteq> 0" and al: "node_mem t a \<noteq> None" using H stores_node[of t l] by auto
  have m: "node_mem u a = Some ?p" "node_mem u (adr l) = Some l'" "\<forall>q. q \<notin> {a, adr l, adr r} \<longrightarrow> node_mem u q = node_mem t q"
    and sp: "same_params t u" and rt: "root u = root t" and fd: "finite (dom (node_mem u))"
    using na f by (auto simp: u_def put_node_def destroy_node_def same_params_def)
  have "merge_children t a (length kl) = Some u" using M(1,3) two by (auto simp: u_def Let_def)
  moreover have "step_ok t (Nd a (kl @ m # kr) (ls @ l # r # rs)) u T'"
  proof (rule step_okI)
    have fr: "stores u y" if y: "y \<in> set (ls @ rs @ subs l @ subs r)" for y
    proof (rule frame_holds[OF _ sp m(3)])
      show "stores t y" using y H stores_Nd[of t l] stores_Nd[of t r] by auto
      show "{a, adr l, adr r} \<inter> set (node_addrs y) = {}" using D y na node_addrs_Nd[of l] node_addrs_Nd[of r] by auto
    qed
    have "stores u ?c" using m(2) a0(2) M(2) fr by (auto simp: node_ok_params[OF sp])
    then show "stores u T'" using m(1) a0(1) M(4) two fr unfolding T'_def by (auto simp: node_ok_params[OF sp])
    show "distinct (node_addrs T')" "set (node_addrs T') \<subseteq> set (node_addrs (Nd a (kl @ m # kr) (ls @ l # r # rs)))"
      using D unfolding T'_def by (auto simp: node_addrs_Nd[of l] node_addrs_Nd[of r])
    show "node_mem u q = node_mem t q" if q: "q \<notin> set (node_addrs (Nd a (kl @ m # kr) (ls @ l # r # rs)))" for q
      using m(3) q adr_in[of l] adr_in[of r] by auto
  qed (rule sp, rule rt, rule fd)
  ultimately show ?thesis by blast
qed

text \<open>The merge of the children of a root with one key makes the merged node the root.\<close>

lemma merge_root_ok:
  assumes H: "stores t (Nd a [m] [l, r])" and D: "distinct (node_addrs (Nd a [m] [l, r]))"
    and P: "params t k" and f: "finite (dom (node_mem t))" and n: "length (nkeys l) + length (nkeys r) + 1 \<le> 2 * k + 1" and lf: "subs l = [] \<longleftrightarrow> subs r = []"
  defines "c \<equiv> Nd (adr l) (nkeys l @ m # nkeys r) (subs l @ subs r)"
  shows "\<exists>t'. merge_children t a 0 = Some t' \<and> stores t' c \<and> distinct (node_addrs c) \<and> same_params t t' \<and> root t' = adr c \<and> finite (dom (node_mem t'))"
proof -
  have H': "stores t (Nd a ([] @ m # []) ([] @ l # r # []))" and D': "distinct (node_addrs (Nd a ([] @ m # []) ([] @ l # r # [])))" using H D by simp_all
  have z: "length ([] :: bt list) = length ([] :: int list)" by simp
  obtain l' p' where M: "merge_children t a 0 =
      (let u = destroy_node (put_node t (adr l) l') (adr r); p = p'\<lparr>keyNum := keyNum p' - 1\<rparr>
       in Some (if keyNum p = 0 then destroy_node (u\<lparr>root := adr l\<rparr>) a else put_node u a p))"
    "node_ok t l' (nkeys c) (map adr (subs c))" "keyNum p' = 1"
    using merge_common[OF H' D' P z n lf] unfolding c_def by auto
  note na = three_nodes[OF D']
  define u where "u = destroy_node ((destroy_node (put_node t (adr l) l') (adr r))\<lparr>root := adr l\<rparr>) a"
  have l0: "adr l \<noteq> 0" using H stores_node[of t l] by auto
  have m: "node_mem u (adr l) = Some l'" "\<forall>q. q \<notin> {a, adr l, adr r} \<longrightarrow> node_mem u q = node_mem t q"
    and sp: "same_params t u" and rt: "root u = adr c" and fd: "finite (dom (node_mem u))"
    using na f by (auto simp: u_def put_node_def destroy_node_def same_params_def c_def)
  have "merge_children t a 0 = Some u" using M(1,3) by (simp add: u_def Let_def)
  moreover have fr: "stores u y" if y: "y \<in> set (subs l @ subs r)" for y
  proof (rule frame_holds[OF _ sp m(2)])
    show "stores t y" using y H stores_Nd[of t l] stores_Nd[of t r] by auto
    show "{a, adr l, adr r} \<inter> set (node_addrs y) = {}" using D y na node_addrs_Nd[of l] node_addrs_Nd[of r] by auto
  qed
  then have "stores u c" using m(1) l0 M(2) unfolding c_def by (auto simp: node_ok_params[OF sp])
  moreover have "distinct (node_addrs c)" using D unfolding c_def by (auto simp: node_addrs_Nd[of l] node_addrs_Nd[of r])
  ultimately show ?thesis using sp rt fd by blast
qed

end
