(* ===== verification/Btree_Fill.thy ===== *)
theory Btree_Fill
  imports Btree_Merge
begin

text \<open>A child that is entered has more than \<^verbatim>\<open>kMinNum\<close> keys, and the keys and their order are the same.\<close>

subsection \<open>Two neighbours\<close>

lemma mix_join:
  "xs = [] \<and> ys = [] \<or> length xs = length ks + 1 \<and> length ys = length ls + 1 \<Longrightarrow> mix (ks @ k # ls) (xs @ ys) = mix ks xs @ k # mix ls ys"
  using mix_cut[of xs ks ys ls k] by auto

definition family :: "bt \<Rightarrow> bt \<Rightarrow> bool" where
  "family x y \<longleftrightarrow> subs x = [] \<and> subs y = [] \<or> length (subs x) = length (nkeys x) + 1 \<and> length (subs y) = length (nkeys y) + 1"

lemma shape_family: "shape k lo h x \<Longrightarrow> shape k lo' h y \<Longrightarrow> family x y"
  unfolding family_def by (cases x; cases y; cases h) auto

lemma family_leaf: "family x y \<Longrightarrow> subs x = [] \<longleftrightarrow> subs y = []"
  unfolding family_def by auto

lemma inorder_pair:
  assumes "length ls = length kl" "length rs = length kr"
  shows "inorder (Nd a (kl @ m # kr) (ls @ x # y # rs)) = pre (map inorder ls) kl @ inorder x @ m # inorder y @ post kr (map inorder rs)"
  using mix_split[of kl "map inorder ls" "m # kr" "inorder x" "map inorder (y # rs)"] assms by simp

lemma inorder_merged: "family l r \<Longrightarrow> inorder (Nd x (nkeys l @ m # nkeys r) (subs l @ subs r)) = inorder l @ m # inorder r"
  using mix_join[of "map inorder (subs l)" "map inorder (subs r)" "nkeys l" "nkeys r" m] by (auto simp: family_def inorder_adr[of l] inorder_adr[of r])

lemma inorder_from_right:
  assumes "family c r" "nkeys r = rk # rks"
  shows "inorder (Nd x (nkeys c @ [m]) (subs c @ take 1 (subs r))) @ rk # inorder (Nd y rks (drop 1 (subs r))) = inorder c @ m # inorder r"
proof -
  have "mix ((nkeys c @ [m]) @ rk # rks) ((map inorder (subs c) @ map inorder (take 1 (subs r))) @ map inorder (drop 1 (subs r)))
    = inorder (Nd x (nkeys c @ [m]) (subs c @ take 1 (subs r))) @ rk # inorder (Nd y rks (drop 1 (subs r)))"
    using mix_join[of "map inorder (subs c) @ map inorder (take 1 (subs r))" "map inorder (drop 1 (subs r))" "nkeys c @ [m]" rks rk] assms
    by (auto simp: family_def)
  moreover have "map inorder (take 1 (subs r)) @ map inorder (drop 1 (subs r)) = map inorder (subs r)" by (simp flip: map_append)
  ultimately show ?thesis using inorder_merged[OF assms(1), of 0 m] assms(2) by simp
qed

lemma inorder_from_left:
  assumes "family l c" "nkeys l = lks @ [lk]"
  shows "inorder (Nd x lks (take (length lks + 1) (subs l))) @ lk # inorder (Nd y (m # nkeys c) (drop (length lks + 1) (subs l) @ subs c)) = inorder l @ m # inorder c"
proof -
  let ?n = "length lks + 1"
  have M: "mix (lks @ lk # (m # nkeys c)) (map inorder (take ?n (subs l)) @ (map inorder (drop ?n (subs l)) @ map inorder (subs c)))
    = inorder (Nd x lks (take ?n (subs l))) @ lk # inorder (Nd y (m # nkeys c) (drop ?n (subs l) @ subs c))"
    using mix_join[of "map inorder (take ?n (subs l))" "map inorder (drop ?n (subs l)) @ map inorder (subs c)" lks "m # nkeys c" lk] assms
    by (auto simp: family_def)
  have e: "map inorder (take ?n (subs l)) @ (map inorder (drop ?n (subs l)) @ map inorder (subs c)) = map inorder (subs l) @ map inorder (subs c)"
    by (simp only: append_assoc[symmetric] map_append[symmetric] append_take_drop_id)
  show ?thesis using M[unfolded e] inorder_merged[OF assms(1), of 0 m] assms(2) by simp
qed

lemma shape_merged:
  "shape k k h l \<Longrightarrow> shape k k h r \<Longrightarrow> length (nkeys l) + length (nkeys r) = 2 * k \<Longrightarrow> shape k k h (Nd x (nkeys l @ m # nkeys r) (subs l @ subs r))"
  by (cases l; cases r; cases h) auto

lemma shape_from_right:
  assumes "shape k k h c" "shape k k h r" "length (nkeys c) \<le> k" "nkeys r = rk # rks" "k < length (nkeys r)"
  shows "shape k k h (Nd x (nkeys c @ [m]) (subs c @ take 1 (subs r)))" "shape k k h (Nd y rks (drop 1 (subs r)))"
  using assms by (cases c; cases r; cases h; auto dest: in_set_takeD in_set_dropD)+

lemma shape_from_left:
  assumes "shape k k h l" "shape k k h c" "length (nkeys c) \<le> k" "nkeys l = lks @ [lk]" "k < length (nkeys l)"
  shows "shape k k h (Nd x lks (take (length lks + 1) (subs l)))" "shape k k h (Nd y (m # nkeys c) (drop (length lks + 1) (subs l) @ subs c))"
  using assms by (cases c; cases l; cases h; auto dest: in_set_takeD in_set_dropD)+

text \<open>The keys of the nodes that are not leaves.\<close>

fun inner_keys :: "bt \<Rightarrow> int set" where
  "inner_keys (Nd a ks ts) = (if ts = [] then {} else set ks) \<union> \<Union> (inner_keys ` set ts)"

lemma inner_keys_Nd: "inner_keys T = (if subs T = [] then {} else set (nkeys T)) \<union> \<Union> (inner_keys ` set (subs T))"
  by (cases T) simp

subsection \<open>The child that is entered\<close>

definition filled :: "nat \<Rightarrow> nat \<Rightarrow> nat \<Rightarrow> int \<Rightarrow> btree \<Rightarrow> bt \<Rightarrow> nat \<Rightarrow> btree \<Rightarrow> bool" where
  "filled k lo h key t T p u \<longleftrightarrow> (\<exists>ks ls c rs. p = adr c \<and> step_ok t T u (Nd (adr T) ks (ls @ c # rs)) \<and> shape k lo (Suc h) (Nd (adr T) ks (ls @ c # rs))
     \<and> inorder (Nd (adr T) ks (ls @ c # rs)) = inorder T \<and> k < length (nkeys c) \<and> key \<notin> set (pre (map inorder ls) (take (length ls) ks))
     \<and> key \<notin> set (post (drop (length ls) ks) (map inorder rs)) \<and> inner_keys c \<subseteq> inner_keys T)"

lemma filledI:
  assumes "p = adr c" "step_ok t T u (Nd (adr T) (kl @ kr) (ls @ c # rs))" "shape k lo (Suc h) (Nd (adr T) (kl @ kr) (ls @ c # rs))"
    "inorder (Nd (adr T) (kl @ kr) (ls @ c # rs)) = inorder T" "k < length (nkeys c)" "length ls = length kl"
    "key \<notin> set (pre (map inorder ls) kl)" "key \<notin> set (post kr (map inorder rs))" "inner_keys c \<subseteq> inner_keys T"
  shows "filled k lo h key t T p u"
  unfolding filled_def by (rule exI[of _ "kl @ kr"], rule exI[of _ ls], rule exI[of _ c], rule exI[of _ rs]) (use assms in simp)

text \<open>A pair of neighbours in a well-formed tree.\<close>

definition pair_ok :: "nat \<Rightarrow> nat \<Rightarrow> nat \<Rightarrow> btree \<Rightarrow> bt \<Rightarrow> int list \<Rightarrow> int \<Rightarrow> int list \<Rightarrow> bt list \<Rightarrow> bt \<Rightarrow> bt \<Rightarrow> bt list \<Rightarrow> bool" where
  "pair_ok k lo h t T kl m kr ls x y rs \<longleftrightarrow> T = Nd (adr T) (kl @ m # kr) (ls @ x # y # rs) \<and> stores t T \<and> distinct (node_addrs T) \<and> params t k
     \<and> finite (dom (node_mem t)) \<and> shape k lo (Suc h) T \<and> length ls = length kl \<and> length rs = length kr"

lemma pair_okD:
  assumes "pair_ok k lo h t T kl m kr ls x y rs"
  shows "T = Nd (adr T) (kl @ m # kr) (ls @ x # y # rs)" "stores t (Nd (adr T) (kl @ m # kr) (ls @ x # y # rs))"
    "distinct (node_addrs (Nd (adr T) (kl @ m # kr) (ls @ x # y # rs)))" "params t k" "finite (dom (node_mem t))"
    "shape k k h x" "shape k k h y" "length ls = length kl" "length rs = length kr" "\<forall>s\<in>set (ls @ rs). shape k k h s" "lo \<le> length kl + length kr + 1"
    "length kl + length kr + 1 \<le> 2 * k + 1"
    "inorder T = pre (map inorder ls) kl @ inorder x @ m # inorder y @ post kr (map inorder rs)"
    "inner_keys T = set (kl @ m # kr) \<union> \<Union> (inner_keys ` set (ls @ x # y # rs))"
proof -
  note A = assms[unfolded pair_ok_def]
  from A show T: "T = Nd (adr T) (kl @ m # kr) (ls @ x # y # rs)" by blast
  from A T show "stores t (Nd (adr T) (kl @ m # kr) (ls @ x # y # rs))" "distinct (node_addrs (Nd (adr T) (kl @ m # kr) (ls @ x # y # rs)))" by metis+
  have S: "shape k lo (Suc h) (Nd (adr T) (kl @ m # kr) (ls @ x # y # rs))" using A T by metis
  show l: "params t k" "finite (dom (node_mem t))" "length ls = length kl" "length rs = length kr" using A by blast+
  from S show "shape k k h x" "shape k k h y" "\<forall>s\<in>set (ls @ rs). shape k k h s" "lo \<le> length kl + length kr + 1" "length kl + length kr + 1 \<le> 2 * k + 1" by auto
  show "inorder T = pre (map inorder ls) kl @ inorder x @ m # inorder y @ post kr (map inorder rs)" by (subst T, rule inorder_pair[OF l(3,4)])
  show "inner_keys T = set (kl @ m # kr) \<union> \<Union> (inner_keys ` set (ls @ x # y # rs))" by (subst T) simp
qed

lemma fill_right:
  assumes A: "pair_ok k lo h t T kl m kr ls c r rs" and n: "length (nkeys c) \<le> k" "k < length (nkeys r)" and c: "k \<le> length (nkeys c)"
    and key: "key \<notin> set (pre (map inorder ls) kl)" "key \<notin> set (m # inorder r @ post kr (map inorder rs))"
  shows "\<exists>u. borrow_right t (adr T) (length kl) (adr c) (adr r) = Some u \<and> filled k lo h key t T (adr c) u"
proof -
  note D = pair_okD[OF A]
  have fam: "family c r" by (rule shape_family[OF D(6,7)])
  obtain rk rks where rk: "nkeys r = rk # rks" using n(2) by (cases "nkeys r") auto
  have l: "length (nkeys c) < 2 * k + 1" using n(1) by simp
  let ?c = "Nd (adr c) (nkeys c @ [m]) (subs c @ take 1 (subs r))" and ?r = "Nd (adr r) rks (drop 1 (subs r))"
  obtain u where u: "borrow_right t (adr T) (length kl) (adr c) (adr r) = Some u" "step_ok t T u (Nd (adr T) (kl @ rk # kr) (ls @ ?c # ?r # rs))"
    using borrow_right_ok[OF D(2-5,8) l rk family_leaf[OF fam]] D(1) by metis
  note io = inorder_from_right[OF fam rk, of "adr c" m "adr r"]
  have "filled k lo h key t T (adr c) u"
  proof (rule filledI)
    show "step_ok t T u (Nd (adr T) (kl @ rk # kr) (ls @ ?c # ?r # rs))" by (rule u(2))
    show "shape k lo (Suc h) (Nd (adr T) (kl @ rk # kr) (ls @ ?c # ?r # rs))"
      using shape_from_right[OF D(6,7) n(1) rk n(2)] D(8-12) by auto
    show "inorder (Nd (adr T) (kl @ rk # kr) (ls @ ?c # ?r # rs)) = inorder T"
      unfolding D(13) inorder_pair[OF D(8,9)] using arg_cong[OF io, of "\<lambda>z. z @ post kr (map inorder rs)"] by simp
    have "set (rk # inorder ?r) \<subseteq> set (inorder r)"
    proof -
      have "mix ([] @ rk # rks) (map inorder (take 1 (subs r)) @ map inorder (drop 1 (subs r))) = mix [] (map inorder (take 1 (subs r))) @ rk # mix rks (map inorder (drop 1 (subs r)))"
        by (rule mix_join) (use fam rk in \<open>auto simp: family_def\<close>)
      moreover have "map inorder (take 1 (subs r)) @ map inorder (drop 1 (subs r)) = map inorder (subs r)" by (simp flip: map_append)
      ultimately have "inorder r = mix [] (map inorder (take 1 (subs r))) @ rk # inorder ?r" using rk by (simp add: inorder_adr[of r])
      then show ?thesis by auto
    qed
    then show "key \<notin> set (post (rk # kr) (map inorder (?r # rs)))" using key(2) by auto
    show "inner_keys ?c \<subseteq> inner_keys T"
      using family_leaf[OF fam] inner_keys_Nd[of c] inner_keys_Nd[of r] unfolding D(14) by (auto dest: in_set_takeD)
  qed (use c D(8) key(1) in simp_all)
  then show ?thesis using u(1) by blast
qed

lemma fill_left:
  assumes A: "pair_ok k lo h t T kl m kr ls l c rs" and n: "length (nkeys c) \<le> k" "k < length (nkeys l)" and c: "k \<le> length (nkeys c)"
    and key: "key \<notin> set (pre (map inorder ls) kl @ inorder l @ [m])" "key \<notin> set (post kr (map inorder rs))"
  shows "\<exists>u. borrow_left t (adr T) (length kl + 1) (adr c) (adr l) = Some u \<and> filled k lo h key t T (adr c) u"
proof -
  note D = pair_okD[OF A]
  have fam: "family l c" by (rule shape_family[OF D(6,7)])
  obtain lks lk where lk: "nkeys l = lks @ [lk]" using n(2) by (cases "nkeys l" rule: rev_cases) auto
  have le: "length (nkeys c) < 2 * k + 1" using n(1) by simp
  let ?n = "length lks + 1"
  let ?l = "Nd (adr l) lks (take ?n (subs l))" and ?c = "Nd (adr c) (m # nkeys c) (drop ?n (subs l) @ subs c)"
  obtain u where u: "borrow_left t (adr T) (length kl + 1) (adr c) (adr l) = Some u" "step_ok t T u (Nd (adr T) (kl @ lk # kr) (ls @ ?l # ?c # rs))"
    using borrow_left_ok[OF D(2-5) le lk family_leaf[OF fam, symmetric]] D(1) by metis
  note io = inorder_from_left[OF fam lk, of "adr l" "adr c" m]
  have "filled k lo h key t T (adr c) u"
  proof (rule filledI[where kl = "kl @ [lk]" and ls = "ls @ [?l]" and c = ?c])
    show "step_ok t T u (Nd (adr T) ((kl @ [lk]) @ kr) ((ls @ [?l]) @ ?c # rs))" using u(2) by simp
    show "shape k lo (Suc h) (Nd (adr T) ((kl @ [lk]) @ kr) ((ls @ [?l]) @ ?c # rs))"
      using shape_from_left[OF D(6,7) n(1) lk n(2)] D(8-12) by auto
    show "inorder (Nd (adr T) ((kl @ [lk]) @ kr) ((ls @ [?l]) @ ?c # rs)) = inorder T"
      unfolding D(13) using inorder_pair[OF D(8,9), of "adr T" lk ?l ?c] arg_cong[OF io, of "\<lambda>z. z @ post kr (map inorder rs)"] by simp
    have "set (inorder ?l @ [lk]) \<subseteq> set (inorder l)"
    proof -
      have "mix (lks @ lk # []) (map inorder (take ?n (subs l)) @ map inorder (drop ?n (subs l))) = mix lks (map inorder (take ?n (subs l))) @ lk # mix [] (map inorder (drop ?n (subs l)))"
        by (rule mix_join) (use fam lk in \<open>auto simp: family_def\<close>)
      moreover have "map inorder (take ?n (subs l)) @ map inorder (drop ?n (subs l)) = map inorder (subs l)" by (simp flip: map_append)
      ultimately have "inorder l = inorder ?l @ lk # mix [] (map inorder (drop ?n (subs l)))" using lk by (simp add: inorder_adr[of l])
      then show ?thesis by auto
    qed
    moreover have "pre (map inorder (ls @ [?l])) (kl @ [lk]) = pre (map inorder ls) kl @ inorder ?l @ [lk]" using pre_append[of kl "map inorder ls"] D(8) by simp
    ultimately show "key \<notin> set (pre (map inorder (ls @ [?l])) (kl @ [lk]))" using key(1) by auto
    show "inner_keys ?c \<subseteq> inner_keys T"
      using family_leaf[OF fam] inner_keys_Nd[of c] inner_keys_Nd[of l] unfolding D(14) by (auto dest: in_set_dropD)
  qed (use c D(8) key(2) in simp_all)
  then show ?thesis using u(1) by blast
qed

lemma fill_merge:
  assumes A: "pair_ok k lo h t T kl m kr ls l r rs" and n: "length (nkeys l) = k" "length (nkeys r) = k" "lo < length kl + length kr + 1" "kl @ kr \<noteq> []"
    and key: "key \<notin> set (pre (map inorder ls) kl)" "key \<notin> set (post kr (map inorder rs))"
  shows "\<exists>u. merge_children t (adr T) (length kl) = Some u \<and> filled k lo h key t T (adr l) u"
proof -
  note D = pair_okD[OF A]
  have fam: "family l r" by (rule shape_family[OF D(6,7)])
  have le: "length (nkeys l) + length (nkeys r) + 1 \<le> 2 * k + 1" using n by simp
  let ?c = "Nd (adr l) (nkeys l @ m # nkeys r) (subs l @ subs r)"
  obtain u where u: "merge_children t (adr T) (length kl) = Some u" "step_ok t T u (Nd (adr T) (kl @ kr) (ls @ ?c # rs))"
    using merge_ok[OF D(2-5,8) le family_leaf[OF fam] n(4)] D(1) by metis
  have "filled k lo h key t T (adr l) u"
  proof (rule filledI)
    show "step_ok t T u (Nd (adr T) (kl @ kr) (ls @ ?c # rs))" by (rule u(2))
    show "shape k lo (Suc h) (Nd (adr T) (kl @ kr) (ls @ ?c # rs))" using shape_merged[OF D(6,7)] n D(8-12) by auto
    have "inorder (Nd (adr T) (kl @ kr) (ls @ ?c # rs)) = pre (map inorder ls) kl @ inorder ?c @ post kr (map inorder rs)"
      using mix_split[of kl "map inorder ls" kr "inorder ?c" "map inorder rs"] D(8) by simp
    then show "inorder (Nd (adr T) (kl @ kr) (ls @ ?c # rs)) = inorder T" unfolding D(13) inorder_merged[OF fam] by simp
    show "inner_keys ?c \<subseteq> inner_keys T"
      using family_leaf[OF fam] inner_keys_Nd[of l] inner_keys_Nd[of r] unfolding D(14) by auto
  qed (use n D(8) key in simp_all)
  then show ?thesis using u(1) by blast
qed

subsection \<open>Filling\<close>

lemma sibling_node: "stores t x \<Longrightarrow> \<exists>nd. sibling t (adr x) = Some (Some nd) \<and> keyNum nd = length (nkeys x)"
  using stores_node[of t x] by (auto simp: sibling_def node_ok_def)

text \<open>The node at which \<open>fill_child\<close> is called, with the child to enter between its neighbours.\<close>

definition entering :: "nat \<Rightarrow> nat \<Rightarrow> nat \<Rightarrow> int \<Rightarrow> btree \<Rightarrow> bt \<Rightarrow> int list \<Rightarrow> bt list \<Rightarrow> bt \<Rightarrow> bt list \<Rightarrow> bool" where
  "entering k lo h key t T ks ls c rs \<longleftrightarrow> stores t T \<and> distinct (node_addrs T) \<and> params t k \<and> finite (dom (node_mem t)) \<and> shape k lo (Suc h) T
     \<and> T = Nd (adr T) ks (ls @ c # rs) \<and> key \<notin> set (pre (map inorder ls) (take (length ls) ks)) \<and> key \<notin> set (post (drop (length ls) ks) (map inorder rs))"

lemma enteringD:
  assumes "entering k lo h key t T ks ls c rs"
  shows "stores t T" "distinct (node_addrs T)" "params t k" "finite (dom (node_mem t))" "shape k lo (Suc h) T" "T = Nd (adr T) ks (ls @ c # rs)"
    "key \<notin> set (pre (map inorder ls) (take (length ls) ks))" "key \<notin> set (post (drop (length ls) ks) (map inorder rs))"
    "length ks = length ls + length rs" "\<forall>x\<in>set (ls @ c # rs). stores t x \<and> shape k k h x \<and> k \<le> length (nkeys x)"
proof -
  show H: "stores t T" "distinct (node_addrs T)" "params t k" "finite (dom (node_mem t))" "shape k lo (Suc h) T" and T: "T = Nd (adr T) ks (ls @ c # rs)"
    and "key \<notin> set (pre (map inorder ls) (take (length ls) ks))" "key \<notin> set (post (drop (length ls) ks) (map inorder rs))"
    using assms unfolding entering_def by - (elim conjE, assumption)+
  have "\<forall>x\<in>set (subs T). stores t x \<and> shape k k h x" "length (subs T) = length (nkeys T) + 1" using H(1,5) by (cases T; auto)+
  moreover have "subs T = ls @ c # rs" "nkeys T = ks" by (subst T, simp)+
  ultimately have a: "\<forall>x\<in>set (ls @ c # rs). stores t x \<and> shape k k h x" "length ks = length ls + length rs" by simp_all
  show "length ks = length ls + length rs" by (rule a(2))
  show "\<forall>x\<in>set (ls @ c # rs). stores t x \<and> shape k k h x \<and> k \<le> length (nkeys x)" using a(1) shape_keys[of k k h] by blast
qed

lemma entering_pair:
  assumes E: "entering k lo h key t T ks ls c rs" and "ls @ c # rs = ls' @ x # y # rs'"
  shows "pair_ok k lo h t T (take (length ls') ks) (ks ! length ls') (drop (length ls' + 1) ks) ls' x y rs'"
proof -
  note D = enteringD[OF E]
  have l: "length ls' < length ks" using D(9) arg_cong[OF assms(2), of length] by simp
  have "T = Nd (adr T) (take (length ls') ks @ ks ! length ls' # drop (length ls' + 1) ks) (ls' @ x # y # rs')"
    using D(6) assms(2) split_list_at[OF l] by simp
  then show ?thesis using D(1-5) l D(9) arg_cong[OF assms(2), of length] unfolding pair_ok_def by simp
qed

lemma entering_left:
  assumes E: "entering k lo h key t T ks (ls @ [x]) c rs"
  shows "key \<notin> set (pre (map inorder ls) (take (length ls) ks) @ inorder x @ [ks ! length ls])" "key \<notin> set (post (drop (length ls + 1) ks) (map inorder rs))"
proof -
  note D = enteringD[OF E]
  have "pre (map inorder (ls @ [x])) (take (length (ls @ [x])) ks) = pre (map inorder ls) (take (length ls) ks) @ inorder x @ [ks ! length ls]"
    using pre_append[of "take (length ls) ks" "map inorder ls" "map inorder [x]" "[ks ! length ls]"] D(9) by (simp add: take_Suc_conv_app_nth)
  then show "key \<notin> set (pre (map inorder ls) (take (length ls) ks) @ inorder x @ [ks ! length ls])" using D(7) by simp
  show "key \<notin> set (post (drop (length ls + 1) ks) (map inorder rs))" using D(8) by simp
qed

lemma entering_right:
  assumes E: "entering k lo h key t T ks ls c (r # rs)"
  shows "key \<notin> set (ks ! length ls # inorder r @ post (drop (length ls + 1) ks) (map inorder rs))"
proof -
  note D = enteringD[OF E]
  have "drop (length ls) ks = ks ! length ls # drop (length ls + 1) ks" using D(9) by (simp add: Cons_nth_drop_Suc)
  then show ?thesis using D(8) by simp
qed

text \<open>What the code decides on.\<close>

definition can_give :: "nat \<Rightarrow> bt list \<Rightarrow> (bt list \<Rightarrow> bt) \<Rightarrow> bool" where
  "can_give k xs f \<longleftrightarrow> xs \<noteq> [] \<and> k < length (nkeys (f xs))"

lemma fill_child_code:
  assumes E: "entering k lo h key t T ks ls c rs" and ck: "length (nkeys c) = k"
  shows "fill_child t (adr T) (length ls) =
     (if can_give k rs hd then borrow_right t (adr T) (length ls) (adr c) (adr (hd rs)) \<bind> (\<lambda>u. Some (adr c, u))
      else if can_give k ls last then borrow_left t (adr T) (length ls) (adr c) (adr (last ls)) \<bind> (\<lambda>u. Some (adr c, u))
      else if rs \<noteq> [] then merge_children t (adr T) (length ls) \<bind> (\<lambda>u. Some (adr c, u))
      else if ls \<noteq> [] then merge_children t (adr T) (length ls - 1) \<bind> (\<lambda>u. Some (adr (last ls), u))
      else None)"
proof -
  note D = enteringD[OF E]
  have kM: "kMinNum t = k" using D(3) by (simp add: params_def)
  have "stores t (Nd (adr T) ks (ls @ c # rs))" using D(1,6) by simp
  then obtain nd where nd: "node_mem t (adr T) = Some nd" "keyNum nd = length ks" "\<forall>i<length (ls @ c # rs). rd (children nd) i = Some (adr ((ls @ c # rs) ! i))"
    using stores_children[of t "adr T" ks "ls @ c # rs"] by blast
  have rc: "rd (children nd) (length ls) = Some (adr c)" using nd(3) by (simp add: nth_append)
  obtain cn where cn: "node_mem t (adr c) = Some cn" "keyNum cn = k" using D(10) stores_node[of t c] ck by (auto simp: node_ok_def)
  define L where "L = (if 0 < length ls then rd (children nd) (length ls - 1) else Some 0)"
  define R where "R = (if length ls + 1 \<le> keyNum nd then rd (children nd) (length ls + 1) else Some 0)"
  have R: "R = Some (if rs = [] then 0 else adr (hd rs))"
    using nd(2,3) D(9) by (cases rs) (auto simp: R_def nth_append)
  have L: "L = Some (if ls = [] then 0 else adr (last ls))"
    using nd(3) by (cases ls rule: rev_cases) (auto simp: L_def nth_append)
  define Lp where "Lp = (if ls = [] then 0 else adr (last ls))"
  define Rp where "Rp = (if rs = [] then 0 else adr (hd rs))"
  have step: "fill_child t (adr T) (length ls) = sibling t Rp \<bind> (\<lambda>r.
      if (case r of None \<Rightarrow> False | Some r \<Rightarrow> k < keyNum r) then borrow_right t (adr T) (length ls) (adr c) Rp \<bind> (\<lambda>u. Some (adr c, u))
      else sibling t Lp \<bind> (\<lambda>l.
        if (case l of None \<Rightarrow> False | Some l \<Rightarrow> k < keyNum l) then borrow_left t (adr T) (length ls) (adr c) Lp \<bind> (\<lambda>u. Some (adr c, u))
        else if r \<noteq> None then merge_children t (adr T) (length ls) \<bind> (\<lambda>u. Some (adr c, u))
        else if l \<noteq> None then merge_children t (adr T) (length ls - 1) \<bind> (\<lambda>u. Some (Lp, u))
        else None))"
    unfolding fill_child_def nd(1) Option.bind.simps rc cn L_def[symmetric] R_def[symmetric] R L kM Lp_def[symmetric] Rp_def[symmetric] by simp
  have right: "\<exists>r1. sibling t (adr (hd rs)) = Some (Some r1) \<and> keyNum r1 = length (nkeys (hd rs))" if "rs \<noteq> []" using sibling_node[of t "hd rs"] D(10) that by simp
  have left: "\<exists>l1. sibling t (adr (last ls)) = Some (Some l1) \<and> keyNum l1 = length (nkeys (last ls))" if "ls \<noteq> []" using sibling_node[of t "last ls"] D(10) that by simp
  show ?thesis
  proof (cases "rs = []"; cases "ls = []")
    assume "rs = []" "ls = []"
    then show ?thesis using step by (simp add: Lp_def Rp_def sibling_def can_give_def)
  next
    assume e: "rs = []" "ls \<noteq> []"
    with left obtain l1 where "sibling t (adr (last ls)) = Some (Some l1)" "keyNum l1 = length (nkeys (last ls))" by blast
    then show ?thesis using e step by (simp add: Lp_def Rp_def sibling_def[of t 0] can_give_def)
  next
    assume e: "rs \<noteq> []" "ls = []"
    with right obtain r1 where "sibling t (adr (hd rs)) = Some (Some r1)" "keyNum r1 = length (nkeys (hd rs))" by blast
    then show ?thesis using e step by (simp add: Lp_def Rp_def sibling_def[of t 0] can_give_def)
  next
    assume e: "rs \<noteq> []" "ls \<noteq> []"
    with right obtain r1 where "sibling t (adr (hd rs)) = Some (Some r1)" "keyNum r1 = length (nkeys (hd rs))" by blast
    moreover obtain l1 where "sibling t (adr (last ls)) = Some (Some l1)" "keyNum l1 = length (nkeys (last ls))" using left e by blast
    ultimately show ?thesis using e step by (simp add: Lp_def Rp_def can_give_def)
  qed
qed

lemma fill_nothing:
  assumes E: "entering k lo h key t T ks ls c rs" and n: "k < length (nkeys c)"
  shows "fill_child t (adr T) (length ls) = Some (adr c, t) \<and> filled k lo h key t T (adr c) t"
proof
  note D = enteringD[OF E]
  have "stores t (Nd (adr T) ks (ls @ c # rs))" using D(1,6) by simp
  then obtain nd where nd: "node_mem t (adr T) = Some nd" "\<forall>i<length (ls @ c # rs). rd (children nd) i = Some (adr ((ls @ c # rs) ! i))"
    using stores_children[of t "adr T" ks "ls @ c # rs"] by blast
  have rc: "rd (children nd) (length ls) = Some (adr c)" using nd(2) by (simp add: nth_append)
  obtain cn where cn: "node_mem t (adr c) = Some cn" "keyNum cn = length (nkeys c)" using D(10) stores_node[of t c] by (auto simp: node_ok_def)
  show "fill_child t (adr T) (length ls) = Some (adr c, t)" using nd(1) rc cn n D(3) by (simp add: fill_child_def params_def)
  show "filled k lo h key t T (adr c) t"
  proof (rule filledI)
    show "step_ok t T t (Nd (adr T) (take (length ls) ks @ drop (length ls) ks) (ls @ c # rs))" using step_refl[OF D(1,2,4)] D(6) by simp
    show "inner_keys c \<subseteq> inner_keys T" by (subst D(6)) auto
    show "shape k lo (Suc h) (Nd (adr T) (take (length ls) ks @ drop (length ls) ks) (ls @ c # rs))" using D(5,6) by simp
    show "inorder (Nd (adr T) (take (length ls) ks @ drop (length ls) ks) (ls @ c # rs)) = inorder T" using D(6) by simp
  qed (use n D in simp_all)
qed

lemma fill_child_ok:
  assumes E: "entering k lo h key t T ks ls c rs"
    and two: "2 \<le> length ks \<and> lo < length ks \<or> k < length (nkeys c) \<or> can_give k ls last \<or> can_give k rs hd"
  shows "\<exists>p u. fill_child t (adr T) (length ls) = Some (p, u) \<and> filled k lo h key t T p u"
proof (cases "k < length (nkeys c)")
  case True
  then show ?thesis using fill_nothing[OF E] by blast
next
  case False
  note D = enteringD[OF E]
  have ck: "length (nkeys c) = k" using False D(10) by (simp add: le_antisym)
  note code = fill_child_code[OF E ck]
  consider (right) r rs' where "rs = r # rs'" "can_give k rs hd"
    | (left) ls' x where "ls = ls' @ [x]" "\<not> can_give k rs hd" "can_give k ls last"
    | (merge_right) r rs' where "rs = r # rs'" "\<not> can_give k rs hd" "\<not> can_give k ls last"
    | (merge_left) ls' x where "ls = ls' @ [x]" "rs = []" "\<not> can_give k rs hd" "\<not> can_give k ls last"
    | "ls = []" "rs = []" by (cases rs; cases ls rule: rev_cases) (auto simp: can_give_def)
  then show ?thesis
  proof cases
    case right
    have A: "pair_ok k lo h t T (take (length ls) ks) (ks ! length ls) (drop (length ls + 1) ks) ls c r rs'"
      by (rule entering_pair[OF E]) (simp add: right(1))
    obtain u where "borrow_right t (adr T) (length (take (length ls) ks)) (adr c) (adr r) = Some u" "filled k lo h key t T (adr c) u"
      using fill_right[OF A _ _ _ D(7) entering_right[OF E[unfolded right(1)]]] ck right by (auto simp: can_give_def)
    then show ?thesis using code right D(9) by simp
  next
    case left
    have A: "pair_ok k lo h t T (take (length ls') ks) (ks ! length ls') (drop (length ls' + 1) ks) ls' x c rs"
      by (rule entering_pair[OF E]) (simp add: left(1))
    obtain u where "borrow_left t (adr T) (length (take (length ls') ks) + 1) (adr c) (adr x) = Some u" "filled k lo h key t T (adr c) u"
      using fill_left[OF A _ _ _ entering_left[OF E[unfolded left(1)]]] ck left by (auto simp: can_give_def)
    then show ?thesis using code left D(9) by simp
  next
    case merge_right
    have A: "pair_ok k lo h t T (take (length ls) ks) (ks ! length ls) (drop (length ls + 1) ks) ls c r rs'"
      by (rule entering_pair[OF E]) (simp add: merge_right(1))
    have n: "length (nkeys r) = k" "2 \<le> length ks \<and> lo < length ks" using merge_right D(10) two False by (auto simp: can_give_def)
    have "take (length ls) ks @ drop (length ls + 1) ks \<noteq> []" "lo < length (take (length ls) ks) + length (drop (length ls + 1) ks) + 1"
      using n(2) D(9) merge_right(1) by auto
    then obtain u where "merge_children t (adr T) (length (take (length ls) ks)) = Some u" "filled k lo h key t T (adr c) u"
      using fill_merge[OF A ck n(1) _ _ D(7)] entering_right[OF E[unfolded merge_right(1)]] by auto
    then show ?thesis using code merge_right D(9) by simp
  next
    case merge_left
    have A: "pair_ok k lo h t T (take (length ls') ks) (ks ! length ls') (drop (length ls' + 1) ks) ls' x c rs"
      by (rule entering_pair[OF E]) (simp add: merge_left(1))
    have n: "length (nkeys x) = k" "2 \<le> length ks \<and> lo < length ks" using merge_left D(10) two False by (auto simp: can_give_def)
    have "take (length ls') ks @ drop (length ls' + 1) ks \<noteq> []" "lo < length (take (length ls') ks) + length (drop (length ls' + 1) ks) + 1"
      using n(2) D(9) merge_left(1) by auto
    then obtain u where "merge_children t (adr T) (length (take (length ls') ks)) = Some u" "filled k lo h key t T (adr x) u"
      using fill_merge[OF A n(1) ck _ _ _ entering_left(2)[OF E[unfolded merge_left(1)]]] entering_left(1)[OF E[unfolded merge_left(1)]] by auto
    then show ?thesis using code merge_left D(9) by simp
  next
    case 5
    then show ?thesis using two False D(9) by (simp add: can_give_def)
  qed
qed

end
