(* ===== verification/Btree_Delete.thy ===== *)
theory Btree_Delete
  imports Btree_Fill
begin

text \<open>
  Deletion of a key that no inner node holds: the tree stays well formed, and loses exactly that key.
\<close>

subsection \<open>The place of the key\<close>

lemma lower_cong: "\<forall>x<j. ys ! x = xs ! x \<Longrightarrow> lower key i j ys = lower key i j xs"
  by (auto simp: lower_def)

lemma lower_sides:
  assumes u: "lower key i (length ks) ks" and n: "key \<notin> set ks"
  shows "take i ks \<noteq> [] \<longrightarrow> last (take i ks) < key" "drop i ks \<noteq> [] \<longrightarrow> key < hd (drop i ks)"
proof -
  have i: "i \<le> length ks" using u by (simp add: lower_def)
  have "ks ! (i - 1) < key" if "0 < i" using u that by (simp add: lower_def)
  then show "take i ks \<noteq> [] \<longrightarrow> last (take i ks) < key" using i by (auto simp: last_conv_nth)
  have "key < ks ! i" if "i < length ks"
  proof -
    have "ks ! i \<in> set ks" "key \<le> ks ! i" using u that by (simp_all add: lower_def)
    moreover have "ks ! i \<noteq> key" using n calculation(1) by blast
    ultimately show ?thesis by simp
  qed
  then show "drop i ks \<noteq> [] \<longrightarrow> key < hd (drop i ks)" by (auto simp: hd_drop_conv_nth)
qed

lemma lower_found:
  assumes u: "lower key i (length ks) ks" and s: "sorted_wrt (<) ks"
  shows "key \<in> set ks \<longleftrightarrow> i < length ks \<and> ks ! i = key"
proof
  assume "key \<in> set ks"
  then obtain j where j: "j < length ks" "ks ! j = key" by (auto simp: in_set_conv_nth)
  have "\<not> j < i" using u j by (auto simp: lower_def)
  then have i: "i < length ks" using j(1) by simp
  have "\<not> i < j" using sorted_wrt_nth_less[OF s, of i j] j u i by (auto simp: lower_def)
  then show "i < length ks \<and> ks ! i = key" using \<open>\<not> j < i\<close> j i by (cases "i = j") auto
qed auto

lemma remove1_nth:
  assumes "distinct ks" "i < length ks"
  shows "remove1 (ks ! i) ks = take i ks @ drop (i + 1) ks"
proof -
  have e: "ks = take i ks @ ks ! i # drop (i + 1) ks" by (rule split_list_at[OF assms(2)])
  have "ks ! i \<notin> set (take i ks)" using assms by (auto simp: in_set_conv_nth nth_eq_iff_index_eq)
  then have "remove1 (ks ! i) (take i ks @ ks ! i # drop (i + 1) ks) = take i ks @ drop (i + 1) ks" by (simp add: remove1_append)
  then show ?thesis using e by simp
qed

subsection \<open>A leaf\<close>

definition erases :: "int \<Rightarrow> nat \<Rightarrow> nat \<Rightarrow> nat \<Rightarrow> btree \<Rightarrow> bt \<Rightarrow> (bool \<times> btree) option \<Rightarrow> bool" where
  "erases key k lo h t T r \<longleftrightarrow> (\<exists>t' T'. r = Some (key \<notin> set (inorder T), t') \<and> step_ok t T t' T' \<and> adr T' = adr T \<and> shape k lo h T'
     \<and> inorder T' = remove1 key (inorder T))"

lemma erases_leaf:
  assumes H: "stores t (Nd a ks [])" and P: "params t k" and f: "finite (dom (node_mem t))" and n: "length ks \<le> 2 * k + 1" "lo < length ks" and s: "sorted_wrt (<) ks"
  shows "erases key k lo 0 t (Nd a ks []) (delete_key t a key)"
proof -
  obtain nd where nd: "node_mem t a = Some nd" "node_ok t nd ks []" "a \<noteq> 0" using H by auto
  note N = node_okD[OF nd(2)]
  have O: "order t = kMaxNum t + 1" using P by (simp add: params_def)
  have tk: "\<forall>x<length ks. keys nd ! x = ks ! x" using N(5) by (metis nth_take)
  have "length ks \<le> length (keys nd)" using N by simp
  then obtain i where i: "find_key key (length ks) 0 (keys nd) = Some i" "lower key i (length ks) ks"
    using find_key_eq[of 0 "length ks" "keys nd" key] lower_cong[OF tk] by auto
  have il: "i \<le> length ks" using i(2) by (simp add: lower_def)
  have fd: "(if i < keyNum nd then rd (keys nd) i \<bind> (\<lambda>k. Some (k = key)) else Some False) = Some (key \<in> set ks)"
    using lower_found[OF i(2) s] tk N(1,3,4) by auto
  have unf: "delete_key t a key = (if key \<in> set ks then leaf_close (keyNum nd - 1 - i) i (keys nd) \<bind> (\<lambda>ks.
      Some (False, put_node t a (nd\<lparr>keys := ks, keyNum := keyNum nd - 1\<rparr>))) else Some (True, t))"
    using nd(1,3) n(2) i(1) fd N(3,6) node_ok_nth(3)[OF nd(2) refl, of i] il N(4) O by (subst delete_key.simps) (auto simp del: rd_eq_Some)
  show ?thesis
  proof (cases "key \<in> set ks")
    case False
    have "step_ok t (Nd a ks []) t (Nd a ks [])" using step_refl[OF H _ f] by simp
    then show ?thesis using unf False n remove1_idem[OF False] unfolding erases_def by (intro exI[of _ t] exI[of _ "Nd a ks []"]) simp
  next
    case True
    then have k: "i < length ks" "ks ! i = key" using lower_found[OF i(2) s] by auto
    let ?m = "length ks - 1"
    let ?ks = "shift_down i ?m (keys nd)"
    let ?t = "put_node t a (nd\<lparr>keys := ?ks, keyNum := keyNum nd - 1\<rparr>)"
    have l: "i + (keyNum nd - 1 - i) = ?m" "?m < length (keys nd)" "i \<le> ?m" "?m + 1 = length ks" using k(1) N by auto
    have "leaf_close (keyNum nd - 1 - i) i (keys nd) = Some ?ks" using leaf_close_eq[of i "keyNum nd - 1 - i" "keys nd"] l by simp
    then have del: "delete_key t a key = Some (False, ?t)" using unf True by simp
    have "take i (keys nd) = take i ks" using N(5) il by (metis min.absorb1 take_take)
    moreover have "distinct ks" using s by (simp add: strict_sorted_iff)
    ultimately have rm: "take ?m ?ks = remove1 key ks"
      using take_shift_down[OF l(3,2)] l(4) N(5) remove1_nth[OF _ k(1)] k(2) by simp
    have "length (remove1 key ks) = ?m" using True by (simp add: length_remove1)
    then have ok: "node_ok t (nd\<lparr>keys := ?ks, keyNum := keyNum nd - 1\<rparr>) (remove1 key ks) []"
      by (intro node_okI) (use N rm in simp_all)
    have sp: "same_params t ?t" by (simp add: same_params_def put_node_def)
    have "stores ?t (Nd a (remove1 key ks) [])" using ok nd(3) unfolding stores.simps node_ok_params[OF sp] by (simp add: put_node_def)
    then have "step_ok t (Nd a ks []) ?t (Nd a (remove1 key ks) [])" using sp f by (simp add: step_ok_def put_node_def)
    moreover have "length (remove1 key ks) \<le> 2 * k + 1" "lo \<le> length (remove1 key ks)" using n True by (simp_all add: length_remove1)
    ultimately show ?thesis using del True unfolding erases_def by (intro exI[of _ ?t] exI[of _ "Nd a (remove1 key ks) []"]) simp
  qed
qed

subsection \<open>An inner node\<close>

lemma erases_child:
  assumes f: "filled k lo h key t T (adr c0) u" and c: "\<And>c. adr c = adr c0 \<Longrightarrow> stores u c \<Longrightarrow> distinct (node_addrs c) \<Longrightarrow> shape k k h c \<Longrightarrow> k < length (nkeys c)
      \<Longrightarrow> sorted_wrt (<) (inorder c) \<Longrightarrow> inner_keys c \<subseteq> inner_keys T \<Longrightarrow> erases key k k h u c r"
    and s: "sorted_wrt (<) (inorder T)"
  shows "erases key k lo (Suc h) t T r"
proof -
  obtain ks ls c rs where F: "adr c0 = adr c" "step_ok t T u (Nd (adr T) ks (ls @ c # rs))" "shape k lo (Suc h) (Nd (adr T) ks (ls @ c # rs))"
    "inorder (Nd (adr T) ks (ls @ c # rs)) = inorder T" "k < length (nkeys c)" "key \<notin> set (pre (map inorder ls) (take (length ls) ks))"
    "key \<notin> set (post (drop (length ls) ks) (map inorder rs))" "inner_keys c \<subseteq> inner_keys T"
    using f unfolding filled_def by blast
  have l: "length ks = length ls + length rs" using F(3) by simp
  note I = inorder_child[OF l, of "adr T" c, unfolded F(4)]
  have U: "stores u (Nd (adr T) ks (ls @ c # rs))" "distinct (node_addrs (Nd (adr T) ks (ls @ c # rs)))" using F(2) by (simp_all add: step_ok_def)
  have "erases key k k h u c r"
    using c[of c] F U s[unfolded I] by (auto simp: sorted_wrt_append)
  then obtain t' c' where d: "r = Some (key \<notin> set (inorder c), t')" "step_ok u c t' c'" "adr c' = adr c" "shape k k h c'" "inorder c' = remove1 key (inorder c)"
    unfolding erases_def by blast
  let ?T = "Nd (adr T) ks (ls @ c' # rs)"
  have "step_ok t T t' ?T" by (rule step_trans[OF F(2) step_child[OF U d(2,3)]])
  moreover have "shape k lo (Suc h) ?T" using F(3) d(4) by simp
  moreover have "inorder ?T = remove1 key (inorder T)"
    unfolding inorder_child[OF l] I d(5) using F(6,7) by (simp add: remove1_append remove1_idem)
  moreover have "key \<notin> set (inorder T) \<longleftrightarrow> key \<notin> set (inorder c)" unfolding I using F(6,7) by simp
  ultimately show ?thesis using d(1) unfolding erases_def by (intro exI[of _ t'] exI[of _ ?T]) simp
qed

lemma enter_child:
  assumes H: "stores t T" and T: "T = Nd a ks ts" and S: "shape k lo (Suc h) T" and n: "ks \<noteq> []" and s: "sorted_wrt (<) (inorder T)" and key: "key \<notin> inner_keys T"
  shows "\<exists>ls c rs. T = Nd a ks (ls @ c # rs) \<and> length ks = length ls + length rs \<and> key \<notin> set (pre (map inorder ls) (take (length ls) ks))
    \<and> key \<notin> set (post (drop (length ls) ks) (map inorder rs)) \<and> delete_key t a key = fill_child t a (length ls) \<bind> (\<lambda>(child, t). delete_key t child key)"
proof -
  have lt: "length ts = length ks + 1" using S T by simp
  then have tne: "ts \<noteq> []" by auto
  have a0: "a \<noteq> 0" using H T by simp
  obtain nd where nd: "node_mem t a = Some nd" "\<not> isLeaf nd" "keyNum nd = length ks" "length ks \<le> length (keys nd)" "take (length ks) (keys nd) = ks"
    "\<forall>i<length ks. rd (keys nd) i = Some (ks ! i)" "\<forall>i<length ts. rd (children nd) i = Some (adr (ts ! i))"
    using stores_children[OF H[unfolded T] tne] by blast
  have tk: "\<forall>x<length ks. keys nd ! x = ks ! x" using nd(5) by (metis nth_take)
  obtain i where i: "find_key key (length ks) 0 (keys nd) = Some i" "lower key i (length ks) ks"
    using find_key_eq[of 0 "length ks" "keys nd" key] nd(4) lower_cong[OF tk] by auto
  have il: "i \<le> length ks" using i(2) by (simp add: lower_def)
  have kn: "key \<notin> set ks" using key T tne by auto
  define ls c rs where "ls = take i ts" and "c = ts ! i" and "rs = drop (i + 1) ts"
  have ts: "ts = ls @ c # rs" unfolding ls_def c_def rs_def using split_list_at[of i ts] il lt by simp
  have ll: "length ls = i" "length ks = length ls + length rs" using il lt by (auto simp: ls_def rs_def)
  have so: "sorted_wrt (<) (pre (map inorder ls) (take (length ls) ks))" "sorted_wrt (<) (post (drop (length ls) ks) (map inorder rs))"
    using s inorder_child[OF ll(2), of a c] unfolding T ts by (auto simp: sorted_wrt_append)
  have "key \<notin> set (pre (map inorder ls) (take (length ls) ks))"
    using pre_less[OF so(1)] lower_sides(1)[OF i(2) kn] ll by force
  moreover have "key \<notin> set (post (drop (length ls) ks) (map inorder rs))"
    using post_greater[OF so(2)] lower_sides(2)[OF i(2) kn] ll by force
  moreover have fd: "(if i < keyNum nd then rd (keys nd) i \<bind> (\<lambda>k. Some (k = key)) else Some False) = Some False"
    using nd(3,6) kn by (auto simp: in_set_conv_nth)
  have rc: "rd (children nd) i = Some (adr c)" using nd(7) il lt by (simp add: c_def)
  have c0: "adr c \<noteq> 0" using H T ts stores_node[of t c] by auto
  have "delete_key t a key = fill_child t a (length ls) \<bind> (\<lambda>(child, t). delete_key t child key)"
    using a0 nd(1,3) n i(1) fd rc c0 ll(1) by (subst delete_key.simps) simp
  ultimately show ?thesis using T ts ll(2) by blast
qed

lemma delete_key_ok:
  assumes "stores t T" "distinct (node_addrs T)" "params t k" "finite (dom (node_mem t))" "shape k lo h T" "lo < length (nkeys T)" "0 < h \<longrightarrow> 0 < lo"
    "sorted_wrt (<) (inorder T)" "key \<notin> inner_keys T"
  shows "erases key k lo h t T (delete_key t (adr T) key)"
  using assms
proof (induction h arbitrary: t T lo)
  case 0
  then show ?case using erases_leaf[of t "adr T" "nkeys T" k lo key] by (cases T) auto
next
  case (Suc h)
  obtain a ks ts where T: "T = Nd a ks ts" by (cases T)
  have ne: "ks \<noteq> []" "2 \<le> length ks" using Suc.prems(6,7) T by auto
  obtain ls c rs where C: "T = Nd a ks (ls @ c # rs)" "key \<notin> set (pre (map inorder ls) (take (length ls) ks))"
    "key \<notin> set (post (drop (length ls) ks) (map inorder rs))" "delete_key t a key = fill_child t a (length ls) \<bind> (\<lambda>(child, t). delete_key t child key)"
    using enter_child[OF Suc.prems(1) T Suc.prems(5) ne(1) Suc.prems(8,9)] by blast
  obtain p u where F: "fill_child t a (length ls) = Some (p, u)" "filled k lo h key t T p u"
    using fill_child_ok[of k lo h key t T ks ls c rs] Suc.prems(1-6) C(1-3) ne(2) T by (auto simp: entering_def)
  have u: "finite (dom (node_mem u))" "params u k" using F(2) params_same[OF _ Suc.prems(3)] unfolding filled_def step_ok_def by blast+
  obtain c0 where c0: "p = adr c0" using F(2) unfolding filled_def by blast
  have k1: "0 < k" using Suc.prems(3) by (simp add: params_def)
  have "erases key k lo (Suc h) t T (delete_key u p key)"
  proof (rule erases_child[OF F(2)[unfolded c0] _ Suc.prems(8)])
    fix c assume c: "adr c = adr c0" "stores u c" "distinct (node_addrs c)" "shape k k h c" "k < length (nkeys c)" "sorted_wrt (<) (inorder c)" "inner_keys c \<subseteq> inner_keys T"
    have "key \<notin> inner_keys c" using c(7) Suc.prems(9) by blast
    from Suc.IH[OF c(2,3) u(2,1) c(4,5) _ c(6) this] show "erases key k k h u c (delete_key u p key)" using k1 c(1) c0 by simp
  qed
  then show ?case using C(4) F(1) T by simp
qed

subsection \<open>The root\<close>

lemma erases_root:
  assumes "erases key k (if h = 0 then 0 else 1) h t T r" "adr T = root t" "params t k" "sorted_wrt (<) (inorder T)"
  shows "\<exists>t'. r = Some (key \<notin> set (inorder T), t') \<and> btree_ok t' k (remove1 key (inorder T))"
proof -
  obtain t' T' where d: "r = Some (key \<notin> set (inorder T), t')" "step_ok t T t' T'" "adr T' = adr T" "shape k (if h = 0 then 0 else 1) h T'" "inorder T' = remove1 key (inorder T)"
    using assms(1) unfolding erases_def by blast
  have "sorted_wrt (<) (inorder T')" using assms(4) unfolding d(5) by (simp add: strict_sorted_iff sorted_remove1 distinct_remove1)
  then have "tree_ok t' k h T'" by (rule root_step_ok[OF d(2,3) assms(2,3) d(4)])
  then show ?thesis using d(1,5) unfolding btree_ok_def by auto
qed

text \<open>A root with one key and two children that cannot give one.\<close>

lemma fill_root_merge:
  assumes H: "stores t (Nd a [m] (ls @ c # rs))" and P: "params t k" and e: "ls @ c # rs = [l, r]" and n: "length (nkeys l) = k" "length (nkeys r) = k"
  shows "fill_child t a (length ls) = merge_children t a 0 \<bind> (\<lambda>u. Some (adr l, u))"
proof -
  have kM: "kMinNum t = k" using P by (simp add: params_def)
  have H': "stores t l" "stores t r" using H unfolding e by simp_all
  obtain nd where nd: "node_mem t a = Some nd" "keyNum nd = 1" "\<forall>i<2. rd (children nd) i = Some (adr ([l, r] ! i))"
    using stores_children[OF H[unfolded e]] by auto
  have rc: "rd (children nd) 0 = Some (adr l)" "rd (children nd) 1 = Some (adr r)" using nd(3) by auto
  obtain l0 r0 where lr: "node_mem t (adr l) = Some l0" "keyNum l0 = k" "adr l \<noteq> 0" "node_mem t (adr r) = Some r0" "keyNum r0 = k" "adr r \<noteq> 0"
    using stores_node[OF H'(1)] stores_node[OF H'(2)] n by (auto simp: node_ok_def)
  consider "ls = []" "rs = [r]" | "ls = [l]" "rs = []" using e by (cases ls; cases "tl ls") auto
  then show ?thesis
  proof cases
    case 1
    then show ?thesis using nd(1,2) rc lr kM by (simp add: fill_child_def sibling_def)
  next
    case 2
    then show ?thesis using nd(1,2) rc lr kM by (simp add: fill_child_def sibling_def)
  qed
qed

lemma delete_shrinking:
  assumes K: "tree_ok t k (Suc h) T" and T: "T = Nd a [m] [l, r]" and n: "length (nkeys l) = k" "length (nkeys r) = k" and key: "key \<notin> inner_keys T"
  shows "\<exists>t'. btree_delete t key = Some (key \<notin> set (inorder T), t') \<and> btree_ok t' k (remove1 key (inorder T))"
proof -
  note D = tree_okD[OF K]
  have S: "shape k 1 (Suc h) T" using D(6) by simp
  have Slr: "shape k k h l" "shape k k h r" using S T by simp_all
  obtain ls c rs where C: "T = Nd a [m] (ls @ c # rs)" "delete_key t a key = fill_child t a (length ls) \<bind> (\<lambda>(child, t). delete_key t child key)"
    using enter_child[OF D(1) T S _ D(7) key] by auto
  have e: "ls @ c # rs = [l, r]" using C(1) T by simp
  have fam: "family l r" by (rule shape_family[OF Slr])
  let ?c = "Nd (adr l) (nkeys l @ m # nkeys r) (subs l @ subs r)"
  have le: "length (nkeys l) + length (nkeys r) + 1 \<le> 2 * k + 1" using n by simp
  obtain u where u: "merge_children t a 0 = Some u" "stores u ?c" "distinct (node_addrs ?c)" "same_params t u" "root u = adr ?c" "finite (dom (node_mem u))"
    using merge_root_ok[OF D(1)[unfolded T] D(3)[unfolded T] D(4,5) le family_leaf[OF fam]] by blast
  have io: "inorder ?c = inorder T" unfolding inorder_merged[OF fam] T by (simp add: mix_def)
  have Sc: "shape k (if h = 0 then 0 else 1) h ?c" using shape_lo[OF shape_merged[OF Slr]] n by simp
  have k1: "1 \<le> k" using D(4) by (simp add: params_def)
  have "inner_keys ?c \<subseteq> inner_keys T" unfolding T using family_leaf[OF fam] inner_keys_Nd[of l] inner_keys_Nd[of r] by auto
  then have kc: "key \<notin> inner_keys ?c" using key by blast
  have nl: "nkeys l \<noteq> []" using n(1) k1 by auto
  have Pu: "params u k" by (rule params_same[OF u(4) D(4)])
  have "erases key k (if h = 0 then 0 else 1) h u ?c (delete_key u (adr ?c) key)"
    by (rule delete_key_ok[OF u(2,3) Pu u(6) Sc _ _ _ kc]) (use nl io D(7) in \<open>simp_all del: inorder.simps\<close>)
  from erases_root[OF this u(5)[symmetric] Pu] io D(7)
  have "\<exists>t'. delete_key u (adr ?c) key = Some (key \<notin> set (inorder T), t') \<and> btree_ok t' k (remove1 key (inorder T))" by simp
  moreover have "btree_delete t key = delete_key u (adr ?c) key"
    using C(2) fill_root_merge[OF D(1)[unfolded C(1)] D(4) e n] u(1) D(2) T by (simp add: btree_delete_def)
  ultimately show ?thesis by simp
qed

lemma delete_ok:
  assumes K: "tree_ok t k h T" and key: "key \<notin> inner_keys T"
  shows "\<exists>t'. btree_delete t key = Some (inorder T \<noteq> [] \<and> key \<notin> set (inorder T), t') \<and> btree_ok t' k (remove1 key (inorder T))"
proof (cases "nkeys T = []")
  case True
  note D = tree_okD[OF K]
  have "h = 0" using shape_keys[OF D(6)] True by (cases h) auto
  then have e: "inorder T = []" "adr T \<noteq> 0" using D(1,6) True by (cases T; simp)+
  obtain nd where "node_mem t (root t) = Some nd" "keyNum nd = 0" using D(1,2) True stores_Nd[of t T] by (auto simp: node_ok_def)
  then have "btree_delete t key = Some (False, t)" using e(2) D(2) unfolding btree_delete_def by (subst delete_key.simps) simp
  then show ?thesis using K e(1) unfolding btree_ok_def by auto
next
  case False
  note D = tree_okD[OF K]
  have ne: "inorder T \<noteq> []"
  proof (cases h)
    case 0
    then show ?thesis using False D(6) by (cases T) simp
  next
    case (Suc h')
    obtain y ys where "nkeys T = y # ys" using False by (cases "nkeys T") auto
    moreover obtain z w ws where "subs T = z # w # ws" using D(6) Suc calculation by (cases T; cases "subs T"; cases "tl (subs T)") auto
    ultimately show ?thesis by (cases T) (simp add: mix_def)
  qed
  have root: "\<exists>t'. btree_delete t key = Some (key \<notin> set (inorder T), t') \<and> btree_ok t' k (remove1 key (inorder T))"
    if "erases key k (if h = 0 then 0 else 1) h t T (btree_delete t key)"
    using erases_root[OF that D(2,4,7)] .
  have "\<exists>t'. btree_delete t key = Some (key \<notin> set (inorder T), t') \<and> btree_ok t' k (remove1 key (inorder T))"
  proof (cases "h = 0 \<or> 1 < length (nkeys T)")
    case True
    then have "erases key k (if h = 0 then 0 else 1) h t T (delete_key t (adr T) key)"
      by (intro delete_key_ok[OF D(1,3,4,5,6) _ _ D(7) key]) (use False in auto)
    then show ?thesis using root D(2) by (simp add: btree_delete_def)
  next
    case one: False
    then obtain h' where h: "h = Suc h'" by (cases h) auto
    have S: "shape k 1 (Suc h') T" using D(6) h by simp
    obtain m where "nkeys T = [m]" using one False by (cases "nkeys T" rule: list.exhaust; cases "tl (nkeys T)") auto
    moreover have "length (subs T) = 2" using S calculation by (cases T) simp
    then obtain l r where "subs T = [l, r]" by (cases "subs T"; cases "tl (subs T)") auto
    ultimately have T: "T = Nd (adr T) [m] [l, r]" by (cases T) simp
    have kl: "k \<le> length (nkeys l)" "k \<le> length (nkeys r)" using S shape_keys[of k k h' l] shape_keys[of k k h' r] by (subst (asm) T, simp)+
    show ?thesis
    proof (cases "length (nkeys l) = k \<and> length (nkeys r) = k")
      case True
      then show ?thesis using delete_shrinking[OF K[unfolded h] T _ _ key] by blast
    next
      case False
      obtain ls c rs where C: "T = Nd (adr T) [m] (ls @ c # rs)" "key \<notin> set (pre (map inorder ls) (take (length ls) [m]))"
        "key \<notin> set (post (drop (length ls) [m]) (map inorder rs))" "delete_key t (adr T) key = fill_child t (adr T) (length ls) \<bind> (\<lambda>(child, t). delete_key t child key)"
        using enter_child[OF D(1) T S _ D(7) key] by auto
      have e: "ls @ c # rs = [l, r]" using C(1) T by (metis bt.inject)
      then consider "ls = []" "c = l" "rs = [r]" | "ls = [l]" "c = r" "rs = []" by (cases ls; cases "tl ls") auto
      then have "k < length (nkeys c) \<or> can_give k ls last \<or> can_give k rs hd"
        using False kl by cases (auto simp: can_give_def)
      moreover have E: "entering k 1 h' key t T [m] ls c rs" unfolding entering_def using D(1,3,4,5) S C(1-3) by (intro conjI)
      ultimately obtain p u where F: "fill_child t (adr T) (length ls) = Some (p, u)" "filled k 1 h' key t T p u"
        using fill_child_ok[OF E] by blast
      obtain c0 where c0: "p = adr c0" using F(2) unfolding filled_def by blast
      have u: "finite (dom (node_mem u))" "params u k" using F(2) params_same[OF _ D(4)] unfolding filled_def step_ok_def by blast+
      have k1: "0 < k" using D(4) by (simp add: params_def)
      have "erases key k 1 (Suc h') t T (delete_key u p key)"
      proof (rule erases_child[OF F(2)[unfolded c0] _ D(7)])
        fix x assume x: "adr x = adr c0" "stores u x" "distinct (node_addrs x)" "shape k k h' x" "k < length (nkeys x)" "sorted_wrt (<) (inorder x)" "inner_keys x \<subseteq> inner_keys T"
        have "key \<notin> inner_keys x" using x(7) key by blast
        from delete_key_ok[OF x(2,3) u(2,1) x(4,5) _ x(6) this] show "erases key k k h' u x (delete_key u p key)" using k1 x(1) c0 by simp
      qed
      then show ?thesis using root C(4) F(1) h D(2) by (simp add: btree_delete_def)
    qed
  qed
  then show ?thesis using ne by simp
qed

end
