(* ===== verification/Btree_Props.thy ===== *)
theory Btree_Props
  imports Btree_Delete "HOL-Library.Multiset"
begin

text \<open>
  What the B-tree of \<^verbatim>\<open>btree.c\<close> promises, and where it does not keep it: insertion, deletion and printing
  on a tree that a memory holds, an allocator to run the model with, and the runs that break a tree.
\<close>

subsection \<open>An allocator\<close>

partial_function (option) first_free :: "(nat \<Rightarrow> btree_node option) \<Rightarrow> nat \<Rightarrow> nat option" where
  "first_free m p = (case m p of None \<Rightarrow> Some p | Some _ \<Rightarrow> first_free m (p + 1))"

declare first_free.simps [code]

definition first_fit :: node_alloc where
  "first_fit m = first_free m 1"

lemma first_free_below:
  "\<forall>p\<ge>b. m p = None \<Longrightarrow> \<exists>p\<ge>q. first_free m q = Some p \<and> m p = None"
proof (induction "b - q" arbitrary: q)
  case 0
  then show ?case by (subst first_free.simps) auto
next
  case (Suc n)
  show ?case
  proof (cases "m q")
    case None
    then show ?thesis by (subst first_free.simps) auto
  next
    case (Some nd)
    have "n = b - (q + 1)" using Suc.hyps(2) by simp
    from Suc.hyps(1)[OF this Suc.prems] obtain p where "q + 1 \<le> p" "first_free m (q + 1) = Some p" "m p = None" by blast
    then show ?thesis using Some by (subst first_free.simps) (auto intro!: exI[of _ p])
  qed
qed

lemma first_free_ok:
  assumes "finite (dom m)"
  shows "\<exists>p\<ge>q. first_free m q = Some p \<and> m p = None"
proof -
  obtain b where "dom m \<subseteq> {..<b}" using assms finite_nat_set_iff_bounded[of "dom m"] by auto
  then have "\<forall>p\<ge>b. m p = None" by (auto simp: dom_def)
  then show ?thesis by (rule first_free_below)
qed

lemma first_fit_ok: "new_ok first_fit"
  unfolding new_ok_def first_fit_def using first_free_ok by (metis not_one_le_zero)

subsection \<open>Insertion and deletion\<close>

text \<open>C4. On a tree that the memory holds, with every node but the root between kMinNum and kMaxNum keys and the keys in order, \<open>btree_insert\<close>
  of any new key, exactly: when the descent, which splits a full child before it enters it, comes to the first child of a node and need not
  split it, the code reads \<^verbatim>\<open>keys[-1]\<close> in front of the array (\<open>reads_front\<close>); otherwise it returns, and the tree it leaves is again such
  a tree and holds the old keys with the new one in its place.\<close>

lemma btree_insert_correct:
  assumes "tree_ok t k h T" "new_ok new" "key \<notin> set (inorder T)"
  shows "if reads_front k key h (if length (nkeys T) = 2 * k + 1 then half k key T else T) then btree_insert new t key = None
    else \<exists>t'. btree_insert new t key = Some t' \<and> btree_ok t' k (insort key (inorder T))"
  by (rule insert_ok[OF assms])

text \<open>A tree of order 4 with a root and two leaves.\<close>

definition leaf4 :: "int list \<Rightarrow> nat \<Rightarrow> btree_node" where
  "leaf4 ks n = \<lparr>keys = ks, children = [0, 0, 0, 0], keyNum = n, isLeaf = True\<rparr>"

definition small_tree :: btree where
  "small_tree = \<lparr>root = 3, kMaxNum = 3, kMinNum = 1, kMidIdx = 1, order = 4,
     node_mem = [1 \<mapsto> leaf4 [1, 2, 3] 1, 2 \<mapsto> leaf4 [3, 4, 5] 3, 3 \<mapsto> \<lparr>keys = [2, 0, 0], children = [1, 2, 0, 0], keyNum = 1, isLeaf = False\<rparr>]\<rparr>"

lemma small_tree_ok: "tree_ok small_tree 1 1 (Nd 3 [2] [Nd 1 [1] [], Nd 2 [3, 4, 5] []])"
  by (simp add: tree_ok_def small_tree_def leaf4_def params_def node_ok_def mix_def numeral_eq_Suc)

lemma small_btree_ok: "btree_ok small_tree 1 [1, 2, 3, 4, 5]"
  unfolding btree_ok_def using small_tree_ok by (intro exI[of _ 1] exI[of _ "Nd 3 [2] [Nd 1 [1] [], Nd 2 [3, 4, 5] []]"]) (simp add: mix_def)

text \<open>Two leaves of which the first one is full: there a new smallest key splits it, and no key is read in front of the array.\<close>

definition full_left :: btree where
  "full_left = \<lparr>root = 3, kMaxNum = 3, kMinNum = 1, kMidIdx = 1, order = 4,
     node_mem = [1 \<mapsto> leaf4 [1, 2, 3] 3, 2 \<mapsto> leaf4 [5, 0, 0] 1, 3 \<mapsto> \<lparr>keys = [4, 0, 0], children = [1, 2, 0, 0], keyNum = 1, isLeaf = False\<rparr>]\<rparr>"

lemma full_left_ok: "tree_ok full_left 1 1 (Nd 3 [4] [Nd 1 [1, 2, 3] [], Nd 2 [5] []])"
  by (simp add: tree_ok_def full_left_def leaf4_def params_def node_ok_def mix_def numeral_eq_Suc)

lemma btree_insert_correct_witness:
  "new_ok first_fit \<and> (\<exists>t'. btree_insert first_fit small_tree 6 = Some t' \<and> btree_ok t' 1 [1, 2, 3, 4, 5, 6])
    \<and> btree_insert first_fit small_tree 0 = None
    \<and> (\<exists>t'. btree_insert first_fit full_left 0 = Some t' \<and> btree_ok t' 1 [0, 1, 2, 3, 4, 5])"
  using btree_insert_correct[OF small_tree_ok first_fit_ok, of 6] btree_insert_correct[OF small_tree_ok first_fit_ok, of 0]
    btree_insert_correct[OF full_left_ok first_fit_ok, of 0] first_fit_ok
  by (simp add: half_def mix_def)

text \<open>C5. \<open>btree_delete\<close> of a key that is in no inner node returns, says that there is no such key exactly when a non-empty
  tree has none, and leaves a well-formed tree with exactly this key removed, however many nodes it had to fill or merge.\<close>

lemma btree_delete_correct:
  assumes "tree_ok t k h T" "key \<notin> inner_keys T"
  shows "\<exists>t'. btree_delete t key = Some (inorder T \<noteq> [] \<and> key \<notin> set (inorder T), t') \<and> btree_ok t' k (remove1 key (inorder T))"
  by (rule delete_ok[OF assms])

lemma btree_delete_correct_witness:
  "\<exists>t'. btree_delete small_tree 1 = Some (False, t') \<and> btree_ok t' 1 [2, 3, 4, 5]"
  using btree_delete_correct[OF small_tree_ok, of 1] by (simp add: mix_def)

subsection \<open>Printing\<close>

fun lines :: "nat \<Rightarrow> bt \<Rightarrow> bt_line list" where
  "lines l (Nd a ks ts) = (l, length ks, ts = [], ks) # concat (map (lines (l + 1)) ts)"

lemma traversal_nulls: "traversal_calls t (replicate n (0, l) @ st) out = traversal_calls t st out"
  by (induction n) (simp_all add: traversal_calls.simps[of t "_ # _"])

lemma traversal_trees:
  "(\<And>T out st. T \<in> set Ts \<Longrightarrow> traversal_calls t ((adr T, l) # st) out = traversal_calls t st (out @ lines (l + 1) T)) \<Longrightarrow>
   traversal_calls t (map (\<lambda>c. (c, l)) (map adr Ts) @ st) out = traversal_calls t st (out @ concat (map (lines (l + 1)) Ts))"
  by (induction Ts arbitrary: out) simp_all

lemma traversal_tree:
  assumes "stores t T" "kMaxNum t < order t"
  shows "traversal_calls t ((adr T, l) # st) out = traversal_calls t st (out @ lines (l + 1) T)"
  using assms(1)
proof (induction T arbitrary: l st out)
  case (Nd a ks ts)
  obtain nd where nd: "node_mem t a = Some nd" "node_ok t nd ks (map adr ts)" "a \<noteq> 0" using Nd.prems by auto
  have n: "keyNum nd = length ks" "length ks \<le> length (keys nd)" "take (length ks) (keys nd) = ks" "isLeaf nd = (ts = [])"
    "length ks < length (children nd)"
    using nd(2) assms(2) by (auto simp: node_ok_def)
  have step: "traversal_calls t ((a, l) # st) out =
      traversal_calls t (map (\<lambda>c. (c, l + 1)) (take (length ks + 1) (children nd)) @ st) (out @ [(l + 1, length ks, ts = [], ks)])"
    using nd(1,3) n by (subst traversal_calls.simps) simp
  show ?case
  proof (cases "ts = []")
    case True
    then have "take (length ks + 1) (children nd) = replicate (min (order t) (length ks + 1)) 0" using nd(2) by (simp add: node_ok_def)
    then show ?thesis using step True by (simp add: traversal_nulls)
  next
    case False
    then have "take (length ks + 1) (children nd) = map adr ts" using nd(2) by (simp add: node_ok_def)
    moreover have "traversal_calls t (map (\<lambda>c. (c, l + 1)) (map adr ts) @ st) (out @ [(l + 1, length ks, False, ks)]) =
        traversal_calls t st ((out @ [(l + 1, length ks, False, ks)]) @ concat (map (lines (l + 1 + 1)) ts))"
      using Nd.prems by (intro traversal_trees Nd.IH) auto
    ultimately show ?thesis using step False by simp
  qed
qed

lemma mset_post: "length ks = length xs \<Longrightarrow> mset (post ks xs) = mset ks + sum_list (map mset xs)"
  by (induction ks xs rule: list_induct2) auto

lemma mset_mix: "length xs = length ks + 1 \<Longrightarrow> mset (mix ks xs) = mset ks + sum_list (map mset xs)"
  by (cases xs) (auto simp: mix_def mset_post)

lemma lines_keys: "shape k lo h T \<Longrightarrow> mset (concat (map (\<lambda>(_, _, _, ks). ks) (lines l T))) = mset (inorder T)"
proof (induction T arbitrary: lo h l)
  case (Nd a ks ts)
  show ?case
  proof (cases h)
    case 0
    then show ?thesis using Nd.prems by simp
  next
    case (Suc h')
    have "mset (concat (map (\<lambda>(_, _, _, ks). ks) (concat (map (lines (l + 1)) us)))) = sum_list (map mset (map inorder us))"
      if "set us \<subseteq> set ts" for us
      using that Nd.prems Suc by (induction us) (auto simp: Nd.IH)
    from this[of ts] show ?thesis using Nd.prems Suc by (simp add: mset_mix)
  qed
qed

text \<open>\<open>btree_traversal\<close> of such a tree returns and prints one line per node, each node before its children and these from left
  to right, with its layer, its number of keys and whether it is a leaf; the printed keys are exactly the keys of the tree.\<close>

lemma btree_traversal_correct:
  assumes "tree_ok t k h T"
  shows "btree_traversal t = Some (lines 1 T) \<and> mset (concat (map (\<lambda>(_, _, _, ks). ks) (lines 1 T))) = mset (inorder T)"
proof
  note D = tree_okD[OF assms]
  have "kMaxNum t < order t" using D(4) by (simp add: params_def)
  from traversal_tree[OF D(1) this, of 0 "[]" "[]"] D(2) show "btree_traversal t = Some (lines 1 T)"
    by (simp add: btree_traversal_def traversal_calls.simps[of t "[]"])
  show "mset (concat (map (\<lambda>(_, _, _, ks). ks) (lines 1 T))) = mset (inorder T)" by (rule lines_keys[OF D(6)])
qed

lemma btree_traversal_correct_witness:
  "btree_traversal small_tree = Some [(1, 1, False, [2]), (2, 1, True, [1]), (2, 3, True, [3, 4, 5])]"
  using btree_traversal_correct[OF small_tree_ok] by (simp add: numeral_eq_Suc)

subsection \<open>Runs that break a tree\<close>

text \<open>Initialise a tree, insert keys, and go on with it.\<close>

fun insert_all :: "node_alloc \<Rightarrow> int list \<Rightarrow> btree \<Rightarrow> btree option" where
  "insert_all new [] t = Some t"
| "insert_all new (key # ks) t = btree_insert new t key \<bind> insert_all new ks"

definition filled_tree :: "int \<Rightarrow> int list \<Rightarrow> btree option" where
  "filled_tree ord ks = btree_init_tree first_fit ord \<bind> (\<lambda>(r, t). t \<bind> insert_all first_fit ks)"

text \<open>Deleting a key of an inner node whose children are inner nodes breaks the order: after the keys 1 to 10 in a tree of order 4,
  \<open>btree_delete\<close> of 4 puts 6, the first key of the right child and not the successor 5, in its place, so 5 is right of
  6, and it empties a leaf; \<open>btree_delete\<close> of 5 then says that there is no such key.\<close>

lemma btree_delete_inner_loses_key:
  "(do { t \<leftarrow> filled_tree 4 [1, 2, 3, 4, 5, 6, 7, 8, 9, 10]; (none, t) \<leftarrow> btree_delete t 4; out \<leftarrow> btree_traversal t;
         (none', t') \<leftarrow> btree_delete t 5; Some (none, out, none') })
   = Some (False,
       [(1, 1, False, [6]), (2, 1, False, [2]), (3, 1, True, [1]), (3, 1, True, [3]),
        (2, 2, False, [7, 8]), (3, 1, True, [5]), (3, 0, True, []), (3, 2, True, [9, 10])], True)"
  by code_simp

text \<open>\<open>btree_init_tree\<close> rounds an odd order up for the split but not for kMaxNum: in a tree of order 5, five insertions
  leave a leaf that claims two keys after the split but got one, and the key 0, which was never inserted, is in the tree.\<close>

lemma btree_odd_order_stray_key:
  "(filled_tree 5 [1, 2, 3, 4, 5] \<bind> btree_traversal) = Some [(1, 1, False, [3]), (2, 2, True, [1, 2]), (2, 3, True, [4, 0, 5])]"
  by code_simp

end
