(* ===== verification/MemPool.thy ===== *)
theory MemPool
  imports Prelude
begin

text \<open>
  \<^verbatim>\<open>8_mem_pool/MemPool.c\<close>: a pool that cuts small pieces from blocks and keeps descriptors (buckets) of
  large pieces in small ones. Addresses are numbers, 0 is the null pointer. The chain of the blocks
  is a list, a pointer to a block an index into it; so is the chain of the buckets. The header of a
  piece, its pointer to the block, is \<^term>\<open>owner\<close> at the address of the data. \<^term>\<open>live\<close> are the regions that
  \<^verbatim>\<open>posix_memalign\<close> has given and nobody has freed. \<open>None\<close> is a null or wild pointer that is
  followed, or a free of something that is not allocated.
\<close>

definition MP_PAGE_SIZE :: nat where "MP_PAGE_SIZE = 4 * 1024"
definition MP_MIN_BLK_SIZE :: nat where "MP_MIN_BLK_SIZE = 128"
definition MP_MAX_BLOCK_FAIL_TIME :: int where "MP_MAX_BLOCK_FAIL_TIME = 4"

text \<open>\<^verbatim>\<open>sizeof\<close> of the structs on a 64-bit machine.\<close>

definition BLOCK :: nat where "BLOCK = 32"
definition PIECE :: nat where "PIECE = 8"
definition BUCKET :: nat where "BUCKET = 24"
definition POOL :: nat where "POOL = 32"

record mp_block =
  base :: nat
  start_of_rest :: nat
  end_of_block :: nat
  failed_time :: int
  ref_counter :: int

record mp_bucket =
  baddr :: nat
  still_in_use :: bool
  start_of_bucket :: nat

text \<open>\<open>wild\<close>: the pointer that ends the chain of the buckets is not null.\<close>

record mp_pool =
  pool_addr :: nat
  block_size :: nat
  current_block :: "nat option"
  auto_clear :: bool
  blocks :: "mp_block list"
  buckets :: "mp_bucket list"
  wild :: bool
  owner :: "nat \<Rightarrow> nat option"
  live :: "(nat \<times> nat) list"

text \<open>\<^verbatim>\<open>posix_memalign\<close>, given what is allocated: an address or failure.\<close>

type_synonym memalign = "(nat \<times> nat) list \<Rightarrow> nat \<Rightarrow> nat option"

definition mfree :: "mp_pool \<Rightarrow> nat \<Rightarrow> mp_pool option" where
  "mfree p a =
     (case map_of (live p) a of
        None \<Rightarrow> None
      | Some n \<Rightarrow> Some (p\<lparr>live := remove1 (a, n) (live p)\<rparr>))"

subsection \<open>Blocks and pieces\<close>

definition init_a_new_block :: "nat \<Rightarrow> nat \<Rightarrow> mp_block" where
  "init_a_new_block bs a =
     \<lparr>base = a, start_of_rest = a + BLOCK, end_of_block = a + BLOCK + bs, failed_time = 0, ref_counter = 0\<rparr>"

definition rest_block_space :: "mp_block \<Rightarrow> nat" where
  "rest_block_space b = size_t (int (end_of_block b) - int (start_of_rest b))"

definition malloc_a_block :: "memalign \<Rightarrow> mp_pool \<Rightarrow> (nat option \<times> mp_pool) option" where
  "malloc_a_block mal p =
     (case mal (live p) (block_size p + BLOCK) of
        None \<Rightarrow> Some (None, p)
      | Some a \<Rightarrow>
          (let p = p\<lparr>live := (a, block_size p + BLOCK) # live p\<rparr>
           in case current_block p of
                None \<Rightarrow> None
              | Some _ \<Rightarrow> Some (Some (length (blocks p)), p\<lparr>blocks := blocks p @ [init_a_new_block (block_size p) a]\<rparr>)))"

text \<open>Cutting a piece from a block.\<close>

definition cut_piece :: "mp_pool \<Rightarrow> nat \<Rightarrow> nat \<Rightarrow> (nat \<times> mp_pool) option" where
  "cut_piece p i n =
     rd (blocks p) i \<bind> (\<lambda>b.
       (let a = start_of_rest b + PIECE;
            b = b\<lparr>start_of_rest := start_of_rest b + n, ref_counter := ref_counter b + 1\<rparr>
        in Some (a, p\<lparr>blocks := (blocks p)[i := b], owner := (owner p)(a := Some i)\<rparr>)))"

function piece_while :: "mp_pool \<Rightarrow> nat \<Rightarrow> nat \<Rightarrow> (nat option \<times> mp_pool) option" where
  "piece_while p i n =
     (if \<not> i < length (blocks p) then Some (None, p)
      else if rest_block_space (blocks p ! i) \<ge> n then map_option (\<lambda>(a, p). (Some a, p)) (cut_piece p i n)
      else (let b = blocks p ! i;
                b = b\<lparr>failed_time := failed_time b + 1\<rparr>;
                p = p\<lparr>blocks := (blocks p)[i := b]\<rparr>;
                p = (if failed_time b \<ge> MP_MAX_BLOCK_FAIL_TIME
                     then p\<lparr>current_block := (if i + 1 < length (blocks p) then Some (i + 1) else None)\<rparr> else p)
            in piece_while p (i + 1) n))"
  by pat_completeness auto
termination by (relation "measure (\<lambda>(p, i, n). length (blocks p) - i)") (auto simp: Let_def)

declare piece_while.simps [simp del]

definition malloc_a_piece :: "memalign \<Rightarrow> mp_pool \<Rightarrow> nat \<Rightarrow> (nat \<times> mp_pool) option" where
  "malloc_a_piece mal p sz =
     (let n = sz + PIECE
      in (case current_block p of None \<Rightarrow> Some (None, p) | Some i \<Rightarrow> piece_while p i n) \<bind> (\<lambda>(r, p). case r of
           Some a \<Rightarrow> Some (a, p)
         | None \<Rightarrow> malloc_a_block mal p \<bind> (\<lambda>(b, p). case b of
             None \<Rightarrow> Some (0, p)
           | Some i \<Rightarrow> cut_piece p i n)))"

subsection \<open>Buckets\<close>

text \<open>The index of the first bucket with a property; a search that comes to the end follows the end pointer.\<close>

fun bucket_while :: "(mp_bucket \<Rightarrow> bool) \<Rightarrow> bool \<Rightarrow> mp_bucket list \<Rightarrow> nat \<Rightarrow> nat option option" where
  "bucket_while P w [] i = (if w then None else Some None)"
| "bucket_while P w (b # bs) i = (if P b then Some (Some i) else bucket_while P w bs (i + 1))"

definition add_ref :: "mp_pool \<Rightarrow> nat \<Rightarrow> int \<Rightarrow> (nat \<times> mp_pool) option" where
  "add_ref p a d =
     owner p a \<bind> (\<lambda>i. rd (blocks p) i \<bind> (\<lambda>b.
       Some (i, p\<lparr>blocks := (blocks p)[i := b\<lparr>ref_counter := ref_counter b + d\<rparr>]\<rparr>)))"

text \<open>
  A descriptor for a large piece: its index. \<open>junk\<close> is what the memory of a new one holds: whether its
  \<^verbatim>\<open>next\<close> is not null, and its \<^verbatim>\<open>start_of_bucket\<close>; the code sets neither.
\<close>

definition get_bucket :: "memalign \<Rightarrow> bool \<times> nat \<Rightarrow> mp_pool \<Rightarrow> (nat option \<times> mp_pool) option" where
  "get_bucket mal junk p =
     bucket_while (\<lambda>b. start_of_bucket b = 0) (wild p) (buckets p) 0 \<bind> (\<lambda>r. case r of
       None \<Rightarrow>
         malloc_a_piece mal p BUCKET \<bind> (\<lambda>(a, p).
           if a = 0 then Some (None, p)
           else Some (Some (length (buckets p)),
                  p\<lparr>buckets := buckets p @ [\<lparr>baddr = a, still_in_use = False, start_of_bucket = snd junk\<rparr>], wild := fst junk\<rparr>))
     | Some k \<Rightarrow> add_ref p (baddr (buckets p ! k)) 1 \<bind> (\<lambda>(_, p). Some (Some k, p)))"

definition malloc_a_bucket :: "memalign \<Rightarrow> bool \<times> nat \<Rightarrow> mp_pool \<Rightarrow> nat \<Rightarrow> (nat \<times> mp_pool) option" where
  "malloc_a_bucket mal junk p sz =
     get_bucket mal junk p \<bind> (\<lambda>(r, p). case r of
       None \<Rightarrow> Some (0, p)
     | Some k \<Rightarrow>
         (case mal (live p) sz of
            None \<Rightarrow> add_ref p (baddr (buckets p ! k)) (- 1) \<bind> (\<lambda>(_, p). Some (0, p))
          | Some a \<Rightarrow>
              Some (a, p\<lparr>live := (a, sz) # live p,
                         buckets := (buckets p)[k := (buckets p ! k)\<lparr>start_of_bucket := a, still_in_use := True\<rparr>]\<rparr>)))"

definition find_bucket_with_addr :: "mp_pool \<Rightarrow> nat \<Rightarrow> nat option option" where
  "find_bucket_with_addr p a = bucket_while (\<lambda>b. start_of_bucket b = a) (wild p) (buckets p) 0"

definition find_block_with_addr :: "mp_pool \<Rightarrow> nat \<Rightarrow> mp_block option" where
  "find_block_with_addr p a = find (\<lambda>b. base b + BLOCK \<le> a \<and> a < start_of_rest b) (blocks p)"

text \<open>The loop of \<^verbatim>\<open>clear_block\<close>: the buckets that stay.\<close>

fun mp_clear_while :: "mp_pool \<Rightarrow> nat \<Rightarrow> mp_bucket list \<Rightarrow> (mp_bucket list \<times> mp_pool) option" where
  "mp_clear_while p i [] = (if wild p then None else Some ([], p))"
| "mp_clear_while p i (b # bs) =
     owner p (baddr b) \<bind> (\<lambda>k.
       if k = i
       then (if start_of_bucket b \<noteq> 0 then mfree p (start_of_bucket b) else Some p) \<bind> (\<lambda>p. mp_clear_while p i bs)
       else mp_clear_while p i bs \<bind> (\<lambda>(bs, p). Some (b # bs, p)))"

definition reset_block :: "mp_block \<Rightarrow> mp_block" where
  "reset_block b = b\<lparr>ref_counter := 0, failed_time := 0, start_of_rest := base b + BLOCK\<rparr>"

definition clear_block :: "mp_pool \<Rightarrow> nat \<Rightarrow> mp_pool option" where
  "clear_block p i =
     rd (blocks p) i \<bind> (\<lambda>b.
       if ref_counter b > 0 then Some p
       else mp_clear_while p i (buckets p) \<bind> (\<lambda>(bs, p).
         Some (p\<lparr>buckets := bs, blocks := (blocks p)[i := reset_block b], current_block := Some 0\<rparr>)))"

subsection \<open>The interface\<close>

definition mp_create_pool :: "memalign \<Rightarrow> (nat \<times> nat) list \<Rightarrow> nat \<Rightarrow> bool \<Rightarrow> mp_pool option" where
  "mp_create_pool mal used sz clear =
     (if sz < MP_MIN_BLK_SIZE then None
      else (let bs = (if sz < MP_PAGE_SIZE then sz else MP_PAGE_SIZE); n = POOL + BLOCK + bs
            in case mal used n of
                 None \<Rightarrow> None
               | Some a \<Rightarrow>
                   Some \<lparr>pool_addr = a, block_size = bs, current_block = Some 0, auto_clear = clear,
                     blocks = [init_a_new_block bs (a + POOL)], buckets = [], wild = False, owner = (\<lambda>_. None),
                     live = (a, n) # used\<rparr>))"

definition mp_malloc :: "memalign \<Rightarrow> bool \<times> nat \<Rightarrow> mp_pool \<Rightarrow> nat \<Rightarrow> (nat \<times> mp_pool) option" where
  "mp_malloc mal junk p sz =
     (if sz = 0 then Some (0, p)
      else if sz \<le> block_size p then malloc_a_piece mal p sz
      else malloc_a_bucket mal junk p sz)"

definition mp_free :: "mp_pool \<Rightarrow> nat \<Rightarrow> mp_pool option" where
  "mp_free p a =
     (if a = 0 then Some p
      else find_bucket_with_addr p a \<bind> (\<lambda>r. case r of
        Some k \<Rightarrow>
          mfree p (start_of_bucket (buckets p ! k)) \<bind> (\<lambda>p.
            Some (baddr (buckets p ! k),
              p\<lparr>buckets := (buckets p)[k := (buckets p ! k)\<lparr>start_of_bucket := 0, still_in_use := False\<rparr>]\<rparr>))
      | None \<Rightarrow> Some (a, p)) \<bind> (\<lambda>(d, p). add_ref p d (- 1) \<bind> (\<lambda>(i, p).
          if auto_clear p then clear_block p i else Some p)))"

fun reset_while :: "mp_pool \<Rightarrow> mp_bucket list \<Rightarrow> mp_pool option" where
  "reset_while p [] = (if wild p then None else Some p)"
| "reset_while p (b # bs) =
     (if start_of_bucket b \<noteq> 0 then mfree p (start_of_bucket b) else Some p) \<bind> (\<lambda>p. reset_while p bs)"

definition mp_reset_pool :: "mp_pool \<Rightarrow> mp_pool option" where
  "mp_reset_pool p =
     reset_while p (buckets p) \<bind> (\<lambda>p.
       Some (p\<lparr>buckets := [], wild := False, blocks := map reset_block (blocks p), current_block := Some 0\<rparr>))"

fun destroy_while :: "mp_pool \<Rightarrow> mp_block list \<Rightarrow> mp_pool option" where
  "destroy_while p [] = Some p"
| "destroy_while p (b # bs) = mfree p (base b) \<bind> (\<lambda>p. destroy_while p bs)"

text \<open>What is allocated after the pool has been destroyed.\<close>

definition mp_destroy_pool :: "mp_pool \<Rightarrow> (nat \<times> nat) list option" where
  "mp_destroy_pool p =
     mp_reset_pool p \<bind> (\<lambda>p. destroy_while p (tl (blocks p)) \<bind> (\<lambda>p. mfree p (pool_addr p) \<bind> (\<lambda>p. Some (live p))))"

end
