(* ===== verification/MemPool_Laws.thy ===== *)
theory MemPool_Laws
  imports MemPool
begin

text \<open>
  The pool keeps what it hands out apart. \<open>C\<close> are the pieces that are cut from the blocks, \<open>R\<close> the addresses of
  those that count as a reference to their block, \<open>L\<close> the large regions, \<open>U\<close> what others have allocated.
\<close>

subsection \<open>The invariant\<close>

definition apart :: "nat \<times> nat \<Rightarrow> nat \<times> nat \<Rightarrow> bool" where
  "apart r s \<longleftrightarrow> fst r + snd r \<le> fst s \<or> fst s + snd s \<le> fst r"

text \<open>Pieces with their headers do not overlap.\<close>

definition spaced :: "nat \<times> nat \<Rightarrow> nat \<times> nat \<Rightarrow> bool" where
  "spaced x y \<longleftrightarrow> fst x + snd x + PIECE \<le> fst y \<or> fst y + snd y + PIECE \<le> fst x"

definition in_block :: "mp_pool \<Rightarrow> nat \<Rightarrow> nat \<times> nat \<Rightarrow> bool" where
  "in_block p i x \<longleftrightarrow> i < length (blocks p) \<and> owner p (fst x) = Some i
     \<and> base (blocks p ! i) + BLOCK + PIECE \<le> fst x \<and> fst x + snd x \<le> start_of_rest (blocks p ! i)"

definition block_ok :: "nat \<Rightarrow> mp_block \<Rightarrow> bool" where
  "block_ok bs b \<longleftrightarrow> end_of_block b = base b + BLOCK + bs \<and> base b + BLOCK \<le> start_of_rest b \<and> start_of_rest b \<le> end_of_block b"

definition block_regions :: "mp_pool \<Rightarrow> (nat \<times> nat) set" where
  "block_regions p = insert (pool_addr p, POOL + BLOCK + block_size p) ((\<lambda>b. (base b, block_size p + BLOCK)) ` set (tl (blocks p)))"

definition blocks_inv :: "mp_pool \<Rightarrow> bool" where
  "blocks_inv p \<longleftrightarrow> MP_MIN_BLK_SIZE \<le> block_size p \<and> block_size p \<le> MP_PAGE_SIZE \<and> blocks p \<noteq> []
     \<and> base (hd (blocks p)) = pool_addr p + POOL \<and> distinct (map base (tl (blocks p)))
     \<and> (\<forall>b\<in>set (blocks p). block_ok (block_size p) b) \<and> (\<exists>c<length (blocks p). current_block p = Some c)"

definition cells_inv :: "mp_pool \<Rightarrow> (nat \<times> nat) set \<Rightarrow> nat set \<Rightarrow> bool" where
  "cells_inv p C R \<longleftrightarrow> finite C \<and> (\<forall>x\<in>C. 0 < snd x \<and> (\<exists>i. in_block p i x)) \<and> (\<forall>x\<in>C. \<forall>y\<in>C. x \<noteq> y \<longrightarrow> spaced x y)
     \<and> R \<subseteq> fst ` C \<and> (\<forall>i<length (blocks p). ref_counter (blocks p ! i) = int (card {a\<in>R. owner p a = Some i}))"

definition live_inv :: "mp_pool \<Rightarrow> (nat \<times> nat) set \<Rightarrow> (nat \<times> nat) set \<Rightarrow> bool" where
  "live_inv p U L \<longleftrightarrow> distinct (live p) \<and> set (live p) = U \<union> block_regions p \<union> L
     \<and> U \<inter> block_regions p = {} \<and> U \<inter> L = {} \<and> block_regions p \<inter> L = {}
     \<and> (\<forall>r\<in>set (live p). \<forall>s\<in>set (live p). r \<noteq> s \<longrightarrow> apart r s) \<and> (\<forall>r\<in>set (live p). 0 < fst r \<and> 0 < snd r)"

definition pool_inv :: "mp_pool \<Rightarrow> (nat \<times> nat) set \<Rightarrow> (nat \<times> nat) set \<Rightarrow> nat set \<Rightarrow> (nat \<times> nat) set \<Rightarrow> bool" where
  "pool_inv p U C R L \<longleftrightarrow> blocks_inv p \<and> cells_inv p C R \<and> live_inv p U L"

text \<open>The last block has never refused a piece.\<close>

definition fresh_last :: "mp_pool \<Rightarrow> bool" where
  "fresh_last p \<longleftrightarrow> failed_time (last (blocks p)) = 0"

lemmas mp_sizes = BLOCK_def PIECE_def BUCKET_def POOL_def MP_PAGE_SIZE_def MP_MIN_BLK_SIZE_def

lemma pool_invD:
  assumes "pool_inv p U C R L"
  shows "128 \<le> block_size p" "block_size p \<le> 4096" "blocks p \<noteq> []" "base (hd (blocks p)) = pool_addr p + POOL"
    "distinct (map base (tl (blocks p)))" "i < length (blocks p) \<Longrightarrow> block_ok (block_size p) (blocks p ! i)"
    "\<exists>c<length (blocks p). current_block p = Some c"
    "finite C" "x \<in> C \<Longrightarrow> 0 < snd x" "x \<in> C \<Longrightarrow> \<exists>i. in_block p i x" "x \<in> C \<Longrightarrow> y \<in> C \<Longrightarrow> x \<noteq> y \<Longrightarrow> spaced x y"
    "R \<subseteq> fst ` C" "i < length (blocks p) \<Longrightarrow> ref_counter (blocks p ! i) = int (card {a\<in>R. owner p a = Some i})"
    "distinct (live p)" "set (live p) = U \<union> block_regions p \<union> L"
    "r \<in> set (live p) \<Longrightarrow> s \<in> set (live p) \<Longrightarrow> r \<noteq> s \<Longrightarrow> apart r s" "r \<in> set (live p) \<Longrightarrow> 0 < fst r \<and> 0 < snd r"
  using assms unfolding pool_inv_def blocks_inv_def cells_inv_def live_inv_def mp_sizes by (auto simp: nth_mem)

lemma pool_inv_buckets [simp]:
  "pool_inv (p\<lparr>buckets := bs\<rparr>) U C R L = pool_inv p U C R L"
  "pool_inv (p\<lparr>wild := w\<rparr>) U C R L = pool_inv p U C R L"
  by (simp_all add: pool_inv_def blocks_inv_def cells_inv_def live_inv_def in_block_def block_regions_def)

lemma fresh_last_buckets [simp]:
  "fresh_last (p\<lparr>buckets := bs\<rparr>) = fresh_last p" "fresh_last (p\<lparr>wild := w\<rparr>) = fresh_last p"
  by (simp_all add: fresh_last_def)

text \<open>Changing a block without moving it.\<close>

definition set_block :: "mp_pool \<Rightarrow> nat \<Rightarrow> mp_block \<Rightarrow> mp_pool" where
  "set_block p i b = p\<lparr>blocks := (blocks p)[i := b]\<rparr>"

lemma set_block_simps [simp]:
  "blocks (set_block p i b) = (blocks p)[i := b]" "live (set_block p i b) = live p" "owner (set_block p i b) = owner p"
  "block_size (set_block p i b) = block_size p" "pool_addr (set_block p i b) = pool_addr p"
  "current_block (set_block p i b) = current_block p" "buckets (set_block p i b) = buckets p" "wild (set_block p i b) = wild p"
  "auto_clear (set_block p i b) = auto_clear p"
  by (simp_all add: set_block_def)

lemma tl_update: "tl (xs[i := x]) = (if i = 0 then tl xs else (tl xs)[i - 1 := x])"
  by (cases xs; cases i) simp_all

lemma map_tl_update: "i < length xs \<Longrightarrow> f x = f (xs ! i) \<Longrightarrow> map f (tl (xs[i := x])) = map f (tl xs)"
  by (cases xs; cases i) (auto simp: list_update_same_conv map_update nth_map)

lemma regions_set_block:
  assumes "i < length (blocks p)" "base b = base (blocks p ! i)"
  shows "block_regions (set_block p i b) = block_regions p"
proof -
  have "map base (tl ((blocks p)[i := b])) = map base (tl (blocks p))" using map_tl_update[OF assms(1), of base b] assms(2) by simp
  then have "base ` set (tl ((blocks p)[i := b])) = base ` set (tl (blocks p))" by (metis set_map)
  then have "(\<lambda>a. (a, block_size p + BLOCK)) ` base ` set (tl ((blocks p)[i := b])) = (\<lambda>a. (a, block_size p + BLOCK)) ` base ` set (tl (blocks p))"
    by simp
  then show ?thesis by (simp add: block_regions_def image_image)
qed

lemma blocks_set_block:
  assumes "blocks_inv p" "i < length (blocks p)" "base b = base (blocks p ! i)" "block_ok (block_size p) b"
  shows "blocks_inv (set_block p i b)"
proof -
  have "map base (tl ((blocks p)[i := b])) = map base (tl (blocks p))" using map_tl_update[OF assms(2), of base b] assms(3) by simp
  moreover have "base (hd ((blocks p)[i := b])) = base (hd (blocks p))" using assms(2,3) by (cases "blocks p"; cases i) simp_all
  moreover have "\<forall>c\<in>set ((blocks p)[i := b]). block_ok (block_size p) c"
    using assms(1,4) set_update_subset_insert[of "blocks p" i b] by (auto simp: blocks_inv_def)
  ultimately show ?thesis using assms(1) by (simp add: blocks_inv_def)
qed

lemma live_set_block:
  assumes "i < length (blocks p)" "base b = base (blocks p ! i)"
  shows "live_inv (set_block p i b) U L = live_inv p U L"
  by (simp add: live_inv_def regions_set_block[OF assms])


subsection \<open>Blocks and pieces do not overlap\<close>

definition region :: "mp_pool \<Rightarrow> nat \<Rightarrow> nat \<times> nat" where
  "region p i = (if i = 0 then (pool_addr p, POOL + BLOCK + block_size p) else (base (blocks p ! i), block_size p + BLOCK))"

lemma region_live: "pool_inv p U C R L \<Longrightarrow> i < length (blocks p) \<Longrightarrow> region p i \<in> set (live p)"
  using pool_invD(15)[of p U C R L] by (cases "blocks p"; cases i) (auto simp: region_def block_regions_def)

lemma region_neq:
  assumes "pool_inv p U C R L" "i < length (blocks p)" "j < length (blocks p)" "i \<noteq> j"
  shows "region p i \<noteq> region p j"
proof -
  obtain b bs where b: "blocks p = b # bs" using assms(2) by (cases "blocks p") auto
  have "distinct (map base bs)" using pool_invD(5)[OF assms(1)] b by simp
  then show ?thesis using assms(2-4) b
    by (cases i; cases j) (auto simp: region_def POOL_def distinct_conv_nth)
qed

lemma region_body:
  assumes "pool_inv p U C R L" "i < length (blocks p)"
  shows "fst (region p i) \<le> base (blocks p ! i) + BLOCK"
    "fst (region p i) + snd (region p i) = base (blocks p ! i) + BLOCK + block_size p"
  using pool_invD(3,4)[OF assms(1)] assms(2) by (cases "blocks p"; cases i; simp add: region_def mp_sizes)+

lemma bodies_apart:
  assumes "pool_inv p U C R L" "i < length (blocks p)" "j < length (blocks p)" "i \<noteq> j"
  shows "base (blocks p ! i) + block_size p \<le> base (blocks p ! j) \<or> base (blocks p ! j) + block_size p \<le> base (blocks p ! i)"
  using pool_invD(16)[OF assms(1) region_live[OF assms(1,2)] region_live[OF assms(1,3)] region_neq[OF assms]]
    region_body[OF assms(1,2)] region_body[OF assms(1,3)] unfolding apart_def mp_sizes by linarith

lemma cell_bounds:
  assumes "pool_inv p U C R L" "in_block p i x"
  shows "base (blocks p ! i) + 40 \<le> fst x" "fst x + snd x \<le> base (blocks p ! i) + 32 + block_size p"
    "fst x + snd x \<le> start_of_rest (blocks p ! i)" "i < length (blocks p)" "owner p (fst x) = Some i"
  using assms(2) pool_invD(6)[OF assms(1), of i] by (auto simp: in_block_def block_ok_def mp_sizes)

lemma new_spaced:
  assumes "pool_inv p U C R L" "i < length (blocks p)" "start_of_rest (blocks p ! i) + 8 + n \<le> end_of_block (blocks p ! i)" "x \<in> C"
  shows "spaced (start_of_rest (blocks p ! i) + 8, n) x" "fst x \<noteq> start_of_rest (blocks p ! i) + 8"
proof -
  obtain j where j: "in_block p j x" using pool_invD(10)[OF assms(1,4)] by blast
  note B = cell_bounds[OF assms(1) j]
  have e: "end_of_block (blocks p ! i) = base (blocks p ! i) + 32 + block_size p" "base (blocks p ! i) + 32 \<le> start_of_rest (blocks p ! i)"
    using pool_invD(6)[OF assms(1,2)] by (simp_all add: block_ok_def BLOCK_def)
  show sp: "spaced (start_of_rest (blocks p ! i) + 8, n) x"
  proof (cases "i = j")
    case True
    then show ?thesis using B(3) by (simp add: spaced_def PIECE_def)
  next
    case False
    show ?thesis using bodies_apart[OF assms(1,2) B(4) False] B(1,2) e assms(3) unfolding spaced_def PIECE_def fst_conv snd_conv by linarith
  qed
  have "0 < snd x" using pool_invD(9)[OF assms(1,4)] .
  then show "fst x \<noteq> start_of_rest (blocks p ! i) + 8" using sp by (auto simp: spaced_def PIECE_def)
qed

lemma finite_refs: "pool_inv p U C R L \<Longrightarrow> finite R"
  by (rule finite_subset[OF pool_invD(12) finite_imageI[OF pool_invD(8)]])

definition cut :: "mp_pool \<Rightarrow> nat \<Rightarrow> nat \<Rightarrow> mp_pool" where
  "cut p i n =
     (set_block p i ((blocks p ! i)\<lparr>start_of_rest := start_of_rest (blocks p ! i) + n, ref_counter := ref_counter (blocks p ! i) + 1\<rparr>))
       \<lparr>owner := (owner p)(start_of_rest (blocks p ! i) + PIECE := Some i)\<rparr>"

lemma cut_piece_eq: "i < length (blocks p) \<Longrightarrow> cut_piece p i n = Some (start_of_rest (blocks p ! i) + PIECE, cut p i n)"
  by (simp add: cut_piece_def cut_def set_block_def Let_def)

lemma owner_update_inv:
  "blocks_inv (p\<lparr>owner := f\<rparr>) = blocks_inv p" "live_inv (p\<lparr>owner := f\<rparr>) U L = live_inv p U L"
  by (simp_all add: blocks_inv_def live_inv_def block_regions_def)

lemma cut_inv:
  assumes I: "pool_inv p U C R L" and i: "i < length (blocks p)" and n: "0 < n"
    and room: "start_of_rest (blocks p ! i) + 8 + n \<le> end_of_block (blocks p ! i)"
  defines "a \<equiv> start_of_rest (blocks p ! i) + 8"
  shows "pool_inv (cut p i (n + PIECE)) U (insert (a, n) C) (insert a R) L" "a \<notin> fst ` C" "0 < a"
proof -
  let ?b = "blocks p ! i"
  let ?c = "?b\<lparr>start_of_rest := start_of_rest ?b + (n + PIECE), ref_counter := ref_counter ?b + 1\<rparr>"
  let ?p = "cut p i (n + PIECE)"
  note N = new_spaced[OF I i room]
  show new: "a \<notin> fst ` C" using N(2) unfolding a_def by force
  show "0 < a" by (simp add: a_def)
  have inv: "blocks_inv p" "live_inv p U L" using I by (simp_all add: pool_inv_def)
  have "block_ok (block_size p) ?c" using pool_invD(6)[OF I i] room by (simp add: block_ok_def PIECE_def)
  then have "blocks_inv ?p" "live_inv ?p U L"
    using blocks_set_block[OF inv(1) i, of ?c] live_set_block[OF i, of ?c U L] inv(2) by (simp_all add: cut_def owner_update_inv)
  moreover have "cells_inv ?p (insert (a, n) C) (insert a R)"
  proof -
    have own: "owner ?p = (owner p)(a := Some i)" by (simp add: cut_def a_def PIECE_def)
    have bl: "blocks ?p = (blocks p)[i := ?c]" by (simp add: cut_def)
    have old: "in_block p j x \<Longrightarrow> x \<in> C \<Longrightarrow> in_block ?p j x" for j x
      using new by (cases "j = i") (auto simp: in_block_def own bl)
    have "in_block ?p i (a, n)" using i pool_invD(6)[OF I i] unfolding in_block_def own bl a_def
      by (simp add: mp_sizes block_ok_def)
    then have cells: "\<forall>x\<in>insert (a, n) C. 0 < snd x \<and> (\<exists>j. in_block ?p j x)" using old pool_invD(9,10)[OF I] n by fastforce
    have sp: "\<forall>x\<in>insert (a, n) C. \<forall>y\<in>insert (a, n) C. x \<noteq> y \<longrightarrow> spaced x y"
      using N(1) pool_invD(11)[OF I] by (auto simp: a_def spaced_def)
    have notR: "a \<notin> R" using new pool_invD(12)[OF I] by blast
    have "ref_counter (blocks ?p ! k) = int (card {x\<in>insert a R. owner ?p x = Some k})" if "k < length (blocks ?p)" for k
    proof (cases "k = i")
      case True
      have "{x\<in>insert a R. owner ?p x = Some k} = insert a {x\<in>R. owner p x = Some i}" using True own notR by auto
      then have "card {x\<in>insert a R. owner ?p x = Some k} = Suc (card {x\<in>R. owner p x = Some i})"
        using notR finite_refs[OF I] by simp
      then show ?thesis using True pool_invD(13)[OF I i] i by (simp add: bl)
    next
      case False
      have "{x\<in>insert a R. owner ?p x = Some k} = {x\<in>R. owner p x = Some k}" using False own notR by auto
      then show ?thesis using False pool_invD(13)[OF I, of k] that by (simp add: bl)
    qed
    then show ?thesis using cells sp pool_invD(8,12)[OF I] by (auto simp: cells_inv_def)
  qed
  ultimately show "pool_inv ?p U (insert (a, n) C) (insert a R) L" by (simp add: pool_inv_def)
qed


subsection \<open>Cutting a small piece\<close>

definition same_pool :: "mp_pool \<Rightarrow> mp_pool \<Rightarrow> bool" where
  "same_pool p q \<longleftrightarrow> buckets q = buckets p \<and> wild q = wild p \<and> block_size q = block_size p \<and> auto_clear q = auto_clear p
     \<and> pool_addr q = pool_addr p"

lemma same_pool_refl [simp]: "same_pool p p"
  by (simp add: same_pool_def)

lemma same_pool_trans: "same_pool p q \<Longrightarrow> same_pool q r \<Longrightarrow> same_pool p r"
  by (simp add: same_pool_def)

lemma fail_inv:
  assumes "pool_inv p U C R L" "i < length (blocks p)"
  shows "pool_inv (set_block p i ((blocks p ! i)\<lparr>failed_time := t\<rparr>)) U C R L"
proof -
  let ?b = "(blocks p ! i)\<lparr>failed_time := t\<rparr>"
  let ?p = "set_block p i ?b"
  have inv: "blocks_inv p" "live_inv p U L" "cells_inv p C R" using assms(1) by (simp_all add: pool_inv_def)
  have "block_ok (block_size p) ?b" using pool_invD(6)[OF assms] by (simp add: block_ok_def)
  moreover have "in_block ?p k x = in_block p k x" for k x by (cases "k = i") (auto simp: in_block_def)
  moreover have "ref_counter (blocks ?p ! k) = ref_counter (blocks p ! k)" for k
    using assms(2) by (cases "k = i") simp_all
  ultimately show ?thesis using blocks_set_block[OF inv(1) assms(2), of ?b] live_set_block[OF assms(2), of ?b U L] inv(2,3)
    by (simp add: pool_inv_def cells_inv_def)
qed

lemma current_inv:
  assumes "pool_inv p U C R L" "c < length (blocks p)"
  shows "pool_inv (p\<lparr>current_block := Some c\<rparr>) U C R L"
  using assms by (auto simp: pool_inv_def blocks_inv_def cells_inv_def live_inv_def in_block_def block_regions_def)

lemma rest_space:
  assumes "pool_inv p U C R L" "i < length (blocks p)"
  shows "rest_block_space (blocks p ! i) = end_of_block (blocks p ! i) - start_of_rest (blocks p ! i)"
    "start_of_rest (blocks p ! i) \<le> end_of_block (blocks p ! i)"
proof -
  have b: "block_ok (block_size p) (blocks p ! i)" using pool_invD(6)[OF assms] .
  then have "int (end_of_block (blocks p ! i)) - int (start_of_rest (blocks p ! i)) = int (end_of_block (blocks p ! i) - start_of_rest (blocks p ! i))"
    by (simp add: block_ok_def of_nat_diff)
  moreover have "end_of_block (blocks p ! i) - start_of_rest (blocks p ! i) \<le> 4096"
    using b pool_invD(2)[OF assms(1)] unfolding block_ok_def BLOCK_def by arith
  then have "end_of_block (blocks p ! i) - start_of_rest (blocks p ! i) < 2 ^ 64" by simp
  note size_t_int[OF this]
  ultimately show "rest_block_space (blocks p ! i) = end_of_block (blocks p ! i) - start_of_rest (blocks p ! i)"
    unfolding rest_block_space_def by (simp only:)
  show "start_of_rest (blocks p ! i) \<le> end_of_block (blocks p ! i)" using b by (simp add: block_ok_def)
qed

lemma last_update: "xs \<noteq> [] \<Longrightarrow> last (xs[i := x]) = (if i = length xs - 1 then x else last xs)"
  by (simp add: last_list_update)

lemma cut_same: "same_pool p (cut p i n)" "blocks (cut p i n) \<noteq> [] \<longleftrightarrow> blocks p \<noteq> []"
  by (simp_all add: cut_def same_pool_def)

lemma cut_fresh:
  assumes "i < length (blocks p)" "fresh_last p"
  shows "fresh_last (cut p i n)"
proof -
  have "blocks p \<noteq> []" using assms(1) by auto
  then show ?thesis using assms last_conv_nth[of "blocks p"] by (auto simp: fresh_last_def cut_def last_update)
qed

lemma cut_piece_spec:
  assumes I: "pool_inv p U C R L" and i: "i < length (blocks p)" and n: "0 < n"
    and room: "start_of_rest (blocks p ! i) + 8 + n \<le> end_of_block (blocks p ! i)" and f: "fresh_last p"
  shows "\<exists>a p'. cut_piece p i (n + PIECE) = Some (a, p') \<and> pool_inv p' U (insert (a, n) C) (insert a R) L
    \<and> a \<notin> fst ` C \<and> 0 < a \<and> same_pool p p' \<and> fresh_last p'"
  using cut_inv[OF I i n room] cut_piece_eq[OF i, of "n + PIECE"] cut_same(1)[of p i "n + PIECE"] cut_fresh[OF i f, of "n + PIECE"]
  by (simp add: PIECE_def)

lemma piece_while_spec:
  assumes "pool_inv p U C R L" "fresh_last p" "i < length (blocks p)" "0 < n"
  shows "(\<exists>a p'. piece_while p i (n + PIECE) = Some (Some a, p') \<and> pool_inv p' U (insert (a, n) C) (insert a R) L
      \<and> a \<notin> fst ` C \<and> 0 < a \<and> same_pool p p' \<and> fresh_last p')
    \<or> (\<exists>p'. piece_while p i (n + PIECE) = Some (None, p') \<and> pool_inv p' U C R L \<and> same_pool p p')"
  using assms
proof (induction "length (blocks p) - i" arbitrary: p i)
  case (Suc k)
  note I = Suc.prems(1) and f = Suc.prems(2) and i = Suc.prems(3)
  let ?b = "blocks p ! i"
  show ?case
  proof (cases "n + PIECE \<le> rest_block_space ?b")
    case True
    then have "start_of_rest ?b + 8 + n \<le> end_of_block ?b" using rest_space[OF I i] by (simp add: PIECE_def)
    from cut_piece_spec[OF I i Suc.prems(4) this f] obtain a p' where
      c: "cut_piece p i (n + PIECE) = Some (a, p')" "pool_inv p' U (insert (a, n) C) (insert a R) L" "a \<notin> fst ` C" "0 < a"
        "same_pool p p'" "fresh_last p'" by blast
    have "piece_while p i (n + PIECE) = Some (Some a, p')" using True i c(1) by (subst piece_while.simps) simp
    then show ?thesis using c by blast
  next
    case False
    define q where "q = set_block p i (?b\<lparr>failed_time := failed_time ?b + 1\<rparr>)"
    define r where "r = (if failed_time ?b + 1 \<ge> MP_MAX_BLOCK_FAIL_TIME
        then q\<lparr>current_block := (if i + 1 < length (blocks p) then Some (i + 1) else None)\<rparr> else q)"
    have w: "piece_while p i (n + PIECE) = piece_while r (i + 1) (n + PIECE)"
      using False i by (subst piece_while.simps) (simp add: r_def q_def set_block_def Let_def del: piece_while.simps)
    have q: "pool_inv q U C R L" unfolding q_def by (rule fail_inv[OF I i])
    have lb: "length (blocks r) = length (blocks p)" by (simp add: r_def q_def)
    have s: "same_pool p r" by (simp add: same_pool_def r_def q_def)
    have last: "failed_time ?b = 0" if "i + 1 = length (blocks p)"
    proof -
      have "blocks p \<noteq> []" "i = length (blocks p) - 1" using i that by auto
      then have "last (blocks p) = ?b" using last_conv_nth[of "blocks p"] by simp
      then show ?thesis using f by (simp add: fresh_last_def)
    qed
    have rI: "pool_inv r U C R L"
      using q current_inv[OF q, of "i + 1"] last i
      by (cases "i + 1 < length (blocks p)") (auto simp: r_def q_def MP_MAX_BLOCK_FAIL_TIME_def)
    show ?thesis
    proof (cases "i + 1 < length (blocks p)")
      case True
      have "blocks p \<noteq> []" using i by auto
      then have "last (blocks r) = last (blocks p)" using True by (simp add: r_def q_def last_update)
      then have "fresh_last r" using f by (simp add: fresh_last_def)
      moreover have "k = length (blocks r) - (i + 1)" using Suc(2) lb by simp
      ultimately show ?thesis
        using Suc(1)[of r "i + 1"] rI True lb Suc.prems(4) w same_pool_trans[OF s] by fastforce
    next
      case 2: False
      then have "piece_while r (i + 1) (n + PIECE) = Some (None, r)" using lb by (subst piece_while.simps) simp
      then show ?thesis using w rI s by auto
    qed
  qed
qed simp


text \<open>An allocator that does not run out: a region apart from all that are allocated.\<close>

definition mem_ok :: "memalign \<Rightarrow> bool" where
  "mem_ok mal \<longleftrightarrow> (\<forall>l n. 0 < n \<longrightarrow> (\<exists>a. mal l n = Some a \<and> 0 < a \<and> (\<forall>r\<in>set l. apart (a, n) r)))"

lemma mem_okD: "mem_ok mal \<Longrightarrow> 0 < n \<Longrightarrow> \<exists>a. mal l n = Some a \<and> 0 < a \<and> (\<forall>r\<in>set l. apart (a, n) r)"
  unfolding mem_ok_def by blast

lemma apart_sym: "apart r s \<Longrightarrow> apart s r"
  by (auto simp: apart_def)

lemma apart_not_in:
  assumes "\<forall>r\<in>set l. apart (a, n) r" "0 < n" "\<forall>r\<in>set l. 0 < snd r"
  shows "(a, m) \<notin> set l"
  using assms unfolding apart_def by force

lemma new_block_inv:
  assumes I: "pool_inv p U C R L" and a: "\<forall>r\<in>set (live p). apart (a, block_size p + BLOCK) r" "0 < a"
  defines "q \<equiv> p\<lparr>live := (a, block_size p + BLOCK) # live p, blocks := blocks p @ [init_a_new_block (block_size p) a]\<rparr>"
  shows "pool_inv q U C R L" "fresh_last q"
proof -
  let ?r = "(a, block_size p + BLOCK)"
  let ?b = "init_a_new_block (block_size p) a"
  have pos: "\<forall>r\<in>set (live p). 0 < snd r" using pool_invD(17)[OF I] by blast
  have nin: "(a, m) \<notin> set (live p)" for m by (rule apart_not_in[OF a(1) _ pos]) (simp add: BLOCK_def)
  have ne: "blocks p \<noteq> []" by (rule pool_invD(3)[OF I])
  have inv: "blocks_inv p" "live_inv p U L" "cells_inv p C R" using I by (simp_all add: pool_inv_def)
  have tl: "tl (blocks q) = tl (blocks p) @ [?b]" using ne by (simp add: q_def)
  have reg: "block_regions q = insert ?r (block_regions p)" by (auto simp: block_regions_def tl) (auto simp: q_def init_a_new_block_def)
  have set: "set (live p) = U \<union> block_regions p \<union> L" by (rule pool_invD(15)[OF I])
  have nb: "a \<notin> base ` set (tl (blocks p))"
  proof
    assume "a \<in> base ` set (tl (blocks p))"
    then have "?r \<in> block_regions p" by (auto simp: block_regions_def)
    then show False using nin set by blast
  qed
  have ok: "block_ok (block_size p) ?b" by (simp add: block_ok_def init_a_new_block_def)
  have "distinct (map base (tl (blocks q)))" using pool_invD(5)[OF I] nb by (simp add: tl) (simp add: init_a_new_block_def)
  moreover have "\<exists>c<length (blocks q). current_block q = Some c" using pool_invD(7)[OF I] by (auto simp: q_def intro: less_SucI)
  ultimately have "blocks_inv q" using inv(1) ne ok by (auto simp: blocks_inv_def q_def)
  moreover have "live_inv q U L"
  proof -
    have "?r \<notin> U \<union> block_regions p \<union> L" using nin set by blast
    moreover have lq: "live q = ?r # live p" by (simp add: q_def)
    moreover have "set (live q) = U \<union> insert ?r (block_regions p) \<union> L" unfolding lq list.set set by blast
    moreover have "distinct (live q)" using nin pool_invD(14)[OF I] by (simp add: q_def)
    moreover have "\<forall>r\<in>set (live q). \<forall>s\<in>set (live q). r \<noteq> s \<longrightarrow> apart r s"
    proof (intro ballI impI)
      fix r s assume "r \<in> set (live q)" "s \<in> set (live q)" and rs: "r \<noteq> s"
      then consider "r = ?r" "s \<in> set (live p)" | "s = ?r" "r \<in> set (live p)" | "r \<in> set (live p)" "s \<in> set (live p)"
        unfolding lq by auto
      then show "apart r s"
      proof cases
        case 1 then show ?thesis using a(1) by blast
      next
        case 2 then show ?thesis using a(1) apart_sym by blast
      next
        case 3 then show ?thesis using pool_invD(16)[OF I _ _ rs] by blast
      qed
    qed
    moreover have "\<forall>r\<in>set (live q). 0 < fst r \<and> 0 < snd r" using a(2) pool_invD(17)[OF I] by (auto simp: q_def BLOCK_def)
    ultimately show ?thesis using inv(2) unfolding live_inv_def reg by blast
  qed
  moreover have "cells_inv q C R"
  proof -
    have ib: "in_block p i x \<Longrightarrow> in_block q i x" for i x by (auto simp: in_block_def q_def nth_append)
    have rf: "ref_counter (blocks q ! i) = int (card {x\<in>R. owner q x = Some i})" if "i < length (blocks q)" for i
    proof (cases "i < length (blocks p)")
      case True
      then show ?thesis using pool_invD(13)[OF I True] by (simp add: q_def nth_append)
    next
      case False
      then have i: "i = length (blocks p)" using that by (simp add: q_def)
      have "owner p x \<noteq> Some i" if "x \<in> R" for x
        using pool_invD(10,12)[OF I] that i unfolding in_block_def by fastforce
      then have e: "{x\<in>R. owner q x = Some i} = {}" by (auto simp: q_def)
      show ?thesis unfolding e using i by (simp add: q_def init_a_new_block_def)
    qed
    show ?thesis using inv(3) ib rf unfolding cells_inv_def by blast
  qed
  ultimately show "pool_inv q U C R L" by (simp add: pool_inv_def)
  show "fresh_last q" by (simp add: fresh_last_def q_def init_a_new_block_def)
qed

lemma malloc_a_piece_spec:
  assumes I: "pool_inv p U C R L" and f: "fresh_last p" and m: "mem_ok mal" and n: "0 < n" "n + 8 \<le> block_size p"
  shows "\<exists>a p'. malloc_a_piece mal p n = Some (a, p') \<and> pool_inv p' U (insert (a, n) C) (insert a R) L
    \<and> a \<notin> fst ` C \<and> 0 < a \<and> same_pool p p' \<and> fresh_last p'"
proof -
  obtain c where c: "c < length (blocks p)" "current_block p = Some c" using pool_invD(7)[OF I] by blast
  from piece_while_spec[OF I f c(1) n(1)] show ?thesis
  proof
    assume "\<exists>a p'. piece_while p c (n + PIECE) = Some (Some a, p') \<and> pool_inv p' U (insert (a, n) C) (insert a R) L
      \<and> a \<notin> fst ` C \<and> 0 < a \<and> same_pool p p' \<and> fresh_last p'"
    then show ?thesis using c(2) by (auto simp: malloc_a_piece_def Let_def)
  next
    assume "\<exists>p'. piece_while p c (n + PIECE) = Some (None, p') \<and> pool_inv p' U C R L \<and> same_pool p p'"
    then obtain q where q: "piece_while p c (n + PIECE) = Some (None, q)" "pool_inv q U C R L" "same_pool p q" by blast
    obtain a where a: "mal (live q) (block_size q + BLOCK) = Some a" "0 < a" "\<forall>r\<in>set (live q). apart (a, block_size q + BLOCK) r"
      using mem_okD[OF m, of "block_size q + BLOCK" "live q"] by (auto simp: BLOCK_def)
    let ?q = "q\<lparr>live := (a, block_size q + BLOCK) # live q, blocks := blocks q @ [init_a_new_block (block_size q) a]\<rparr>"
    note J = new_block_inv[OF q(2) a(3,2)]
    obtain d where "current_block q = Some d" using pool_invD(7)[OF q(2)] by blast
    then have mb: "malloc_a_block mal q = Some (Some (length (blocks q)), ?q)" using a(1) by (simp add: malloc_a_block_def Let_def)
    have last: "length (blocks q) < length (blocks ?q)" "blocks ?q ! length (blocks q) = init_a_new_block (block_size q) a" by simp_all
    have "start_of_rest (blocks ?q ! length (blocks q)) + 8 + n \<le> end_of_block (blocks ?q ! length (blocks q))"
      unfolding last(2) using n(2) q(3) by (simp add: init_a_new_block_def same_pool_def)
    from cut_piece_spec[OF J(1) last(1) n(1) this J(2)] obtain a' r where
      r: "cut_piece ?q (length (blocks q)) (n + PIECE) = Some (a', r)" "pool_inv r U (insert (a', n) C) (insert a' R) L"
        "a' \<notin> fst ` C" "0 < a'" "same_pool ?q r" "fresh_last r" by blast
    have "same_pool p r" using q(3) r(5) by (simp add: same_pool_def)
    moreover have "malloc_a_piece mal p n = Some (a', r)" using c(2) q(1) mb r(1) by (simp add: malloc_a_piece_def Let_def)
    ultimately show ?thesis using r by blast
  qed
qed

end
