(* ===== verification/MemPool_Pool.thy ===== *)
theory MemPool_Pool
  imports MemPool_Laws
begin

text \<open>The operations of the pool on what its client holds: small pieces, large pieces, and descriptors of its own.\<close>

subsection \<open>The pool and its client\<close>

definition descr :: "mp_pool \<Rightarrow> (nat \<times> nat) set" where
  "descr p = (\<lambda>b. (baddr b, BUCKET)) ` set (buckets p)"

definition used_descr :: "mp_pool \<Rightarrow> nat set" where
  "used_descr p = baddr ` {b\<in>set (buckets p). start_of_bucket b \<noteq> 0}"

definition bucket_inv :: "mp_pool \<Rightarrow> (nat \<times> nat) set \<Rightarrow> bool" where
  "bucket_inv p L \<longleftrightarrow> \<not> wild p \<and> distinct (map baddr (buckets p))
     \<and> (\<forall>b\<in>set (buckets p). start_of_bucket b \<noteq> 0 \<longrightarrow> (\<exists>n. (start_of_bucket b, n) \<in> L))
     \<and> (\<forall>r\<in>L. \<exists>b\<in>set (buckets p). start_of_bucket b = fst r)
     \<and> (\<forall>b\<in>set (buckets p). \<forall>c\<in>set (buckets p). start_of_bucket b \<noteq> 0 \<longrightarrow> start_of_bucket b = start_of_bucket c \<longrightarrow> b = c)"

text \<open>\<open>S\<close> are the small pieces that the client holds, \<open>L\<close> the large ones.\<close>

definition pool_ok :: "mp_pool \<Rightarrow> (nat \<times> nat) set \<Rightarrow> (nat \<times> nat) set \<Rightarrow> (nat \<times> nat) set \<Rightarrow> bool" where
  "pool_ok p U S L \<longleftrightarrow> S \<inter> descr p = {} \<and> pool_inv p U (S \<union> descr p) (fst ` S \<union> used_descr p) L \<and> fresh_last p \<and> bucket_inv p L"

lemma pool_okD:
  assumes "pool_ok p U S L"
  shows "S \<inter> descr p = {}" "pool_inv p U (S \<union> descr p) (fst ` S \<union> used_descr p) L" "fresh_last p" "bucket_inv p L"
  using assms by (simp_all add: pool_ok_def)

lemma cells_inj:
  assumes "pool_inv p U C R L" "x \<in> C" "y \<in> C" "fst x = fst y"
  shows "x = y"
proof (rule ccontr)
  assume "x \<noteq> y"
  then have "spaced x y" using pool_invD(11)[OF assms(1-3)] by blast
  then show False using assms(4) by (simp add: spaced_def PIECE_def)
qed

lemma bucket_while_spec:
  "(\<exists>k<length bs. P (bs ! k) \<and> bucket_while P False bs i = Some (Some (i + k)))
   \<or> (\<forall>b\<in>set bs. \<not> P b) \<and> bucket_while P False bs i = Some None"
proof (induction bs arbitrary: i)
  case (Cons b bs)
  show ?case
  proof (cases "P b")
    case True
    then show ?thesis by (intro disjI1 exI[of _ 0]) simp
  next
    case False
    from Cons[of "i + 1"] show ?thesis
    proof
      assume "\<exists>k<length bs. P (bs ! k) \<and> bucket_while P False bs (i + 1) = Some (Some (i + 1 + k))"
      then obtain k where "k < length bs" "P (bs ! k)" "bucket_while P False bs (i + 1) = Some (Some (i + 1 + k))" by blast
      then show ?thesis using False by (intro disjI1 exI[of _ "Suc k"]) simp
    qed (use False in simp)
  qed
qed simp

text \<open>References.\<close>

lemma add_ref_inv:
  assumes I: "pool_inv p U C R L" and i: "in_block p i x" and R': "R' \<subseteq> fst ` C"
    and cnt: "\<And>k. int (card {a\<in>R'. owner p a = Some k}) = int (card {a\<in>R. owner p a = Some k}) + (if k = i then d else 0)"
  shows "\<exists>p'. add_ref p (fst x) d = Some (i, p') \<and> pool_inv p' U C R' L \<and> same_pool p p' \<and> owner p' = owner p
    \<and> blocks p' = (blocks p)[i := (blocks p ! i)\<lparr>ref_counter := ref_counter (blocks p ! i) + d\<rparr>] \<and> live p' = live p
    \<and> (fresh_last p \<longrightarrow> fresh_last p')"
proof -
  note B = cell_bounds[OF I i]
  let ?b = "(blocks p ! i)\<lparr>ref_counter := ref_counter (blocks p ! i) + d\<rparr>"
  let ?p = "set_block p i ?b"
  have inv: "blocks_inv p" "live_inv p U L" "cells_inv p C R" using I by (simp_all add: pool_inv_def)
  have "block_ok (block_size p) ?b" using pool_invD(6)[OF I B(4)] by (simp add: block_ok_def)
  then have "blocks_inv ?p" "live_inv ?p U L"
    using blocks_set_block[OF inv(1) B(4), of ?b] live_set_block[OF B(4), of ?b U L] inv(2) by simp_all
  moreover have "in_block ?p k y = in_block p k y" for k y by (cases "k = i") (auto simp: in_block_def)
  moreover have "ref_counter (blocks ?p ! k) = int (card {a\<in>R'. owner ?p a = Some k})" if "k < length (blocks ?p)" for k
    using pool_invD(13)[OF I, of k] cnt[of k] that B(4) by (cases "k = i") simp_all
  ultimately have "pool_inv ?p U C R' L" using inv(3) R' by (simp add: pool_inv_def cells_inv_def)
  moreover have "add_ref p (fst x) d = Some (i, ?p)" using B(4,5) by (simp add: add_ref_def set_block_def)
  moreover have "fresh_last p \<longrightarrow> fresh_last ?p" using pool_invD(3)[OF I] last_conv_nth[of "blocks p"] by (auto simp: fresh_last_def last_update)
  ultimately show ?thesis by (intro exI[of _ ?p]) (simp add: same_pool_def)
qed

lemma card_filter_insert:
  assumes "finite R" "a \<notin> R" "f a = Some i"
  shows "int (card {x\<in>insert a R. f x = Some k}) = int (card {x\<in>R. f x = Some k}) + (if k = i then 1 else 0)"
proof (cases "k = i")
  case True
  then have "{x\<in>insert a R. f x = Some k} = insert a {x\<in>R. f x = Some k}" using assms(3) by auto
  then show ?thesis using assms(1,2) True by simp
next
  case False
  then have "{x\<in>insert a R. f x = Some k} = {x\<in>R. f x = Some k}" using assms(3) by auto
  then show ?thesis using False by simp
qed

lemma add_ref_up:
  assumes I: "pool_inv p U C R L" and x: "x \<in> C" "fst x \<notin> R"
  shows "\<exists>i p'. add_ref p (fst x) 1 = Some (i, p') \<and> pool_inv p' U C (insert (fst x) R) L \<and> same_pool p p' \<and> live p' = live p
    \<and> (fresh_last p \<longrightarrow> fresh_last p')"
proof -
  obtain i where i: "in_block p i x" using pool_invD(10)[OF I x(1)] by blast
  have sub: "insert (fst x) R \<subseteq> fst ` C" using x(1) pool_invD(12)[OF I] by blast
  note cnt = card_filter_insert[of R "fst x" "owner p" i, OF finite_refs[OF I] x(2) cell_bounds(5)[OF I i]]
  from add_ref_inv[OF I i sub cnt] show ?thesis by blast
qed

lemma add_ref_down:
  assumes I: "pool_inv p U C R L" and x: "x \<in> C" "fst x \<in> R"
  shows "\<exists>i p'. add_ref p (fst x) (- 1) = Some (i, p') \<and> pool_inv p' U C (R - {fst x}) L \<and> same_pool p p' \<and> live p' = live p
    \<and> (fresh_last p \<longrightarrow> fresh_last p') \<and> i < length (blocks p')"
proof -
  obtain i where i: "in_block p i x" using pool_invD(10)[OF I x(1)] by blast
  have s: "R - {fst x} \<subseteq> fst ` C" using pool_invD(12)[OF I] by blast
  have e: "insert (fst x) (R - {fst x}) = R" using x(2) by blast
  have "int (card {a\<in>R - {fst x}. owner p a = Some k}) = int (card {a\<in>R. owner p a = Some k}) + (if k = i then - 1 else 0)" for k
    using card_filter_insert[of "R - {fst x}" "fst x" "owner p" i k] finite_refs[OF I] cell_bounds(5)[OF I i] unfolding e by simp
  from add_ref_inv[OF I i s this] cell_bounds(4)[OF I i] show ?thesis by fastforce
qed

text \<open>Large regions.\<close>

lemma live_add_inv:
  assumes I: "pool_inv p U C R L" and r: "\<forall>s\<in>set (live p). apart r s" "0 < fst r" "0 < snd r"
  shows "pool_inv (p\<lparr>live := r # live p\<rparr>) U C R (insert r L)" "(fst r, m) \<notin> set (live p)"
proof -
  have pos: "\<forall>s\<in>set (live p). 0 < snd s" using pool_invD(17)[OF I] by blast
  show nin: "(fst r, m) \<notin> set (live p)" for m using apart_not_in[of "live p" "fst r" "snd r" m] r pos by simp
  then have rn: "r \<notin> set (live p)" by (metis prod.collapse)
  have inv: "blocks_inv p" "live_inv p U L" "cells_inv p C R" using I by (simp_all add: pool_inv_def)
  let ?p = "p\<lparr>live := r # live p\<rparr>"
  have ap: "\<forall>x\<in>set (live ?p). \<forall>y\<in>set (live ?p). x \<noteq> y \<longrightarrow> apart x y"
    using r(1) apart_sym pool_invD(16)[OF I] by (auto simp del: split_paired_All)
  have "live_inv ?p U (insert r L)"
    using inv(2) rn r(2,3) ap unfolding live_inv_def block_regions_def by (auto simp del: split_paired_All)
  moreover have "blocks_inv ?p" "cells_inv ?p C R" using inv(1,3) by (simp_all add: blocks_inv_def cells_inv_def in_block_def)
  ultimately show "pool_inv ?p U C R (insert r L)" by (simp add: pool_inv_def)
qed

lemma map_of_live:
  assumes I: "pool_inv p U C R L" and r: "r \<in> set (live p)"
  shows "map_of (live p) (fst r) = Some (snd r)"
proof -
  have "inj_on fst (set (live p))"
  proof (rule inj_onI, rule ccontr)
    fix x y assume xy: "x \<in> set (live p)" "y \<in> set (live p)" "fst x = fst y" "x \<noteq> y"
    then have "apart x y" "0 < snd x" "0 < snd y" using pool_invD(16,17)[OF I] by blast+
    then show False using xy(3) by (simp add: apart_def)
  qed
  then have "distinct (map fst (live p))" using pool_invD(14)[OF I] by (simp add: distinct_map)
  then show ?thesis using r by simp
qed

lemma mfree_inv:
  assumes I: "pool_inv p U C R L" and r: "r \<in> L"
  shows "mfree p (fst r) = Some (p\<lparr>live := remove1 r (live p)\<rparr>)" "pool_inv (p\<lparr>live := remove1 r (live p)\<rparr>) U C R (L - {r})"
proof -
  have rl: "r \<in> set (live p)" using r pool_invD(15)[OF I] by blast
  show "mfree p (fst r) = Some (p\<lparr>live := remove1 r (live p)\<rparr>)" using map_of_live[OF I rl] by (simp add: mfree_def)
  have inv: "blocks_inv p" "live_inv p U L" "cells_inv p C R" using I by (simp_all add: pool_inv_def)
  let ?p = "p\<lparr>live := remove1 r (live p)\<rparr>"
  have s: "set (live ?p) = set (live p) - {r}" using pool_invD(14)[OF I] by simp
  have b: "block_regions ?p = block_regions p" by (simp add: block_regions_def)
  have "live_inv ?p U (L - {r})"
    using inv(2) r unfolding live_inv_def s b by (auto simp del: split_paired_All)
  moreover have "blocks_inv ?p" "cells_inv ?p C R" using inv(1,3) by (simp_all add: blocks_inv_def cells_inv_def in_block_def)
  ultimately show "pool_inv ?p U C R (L - {r})" by (simp add: pool_inv_def)
qed

lemma drop_cells:
  assumes "pool_inv p U C R L" "C' \<subseteq> C" "R \<subseteq> fst ` C'"
  shows "pool_inv p U C' R L"
  using assms finite_subset unfolding pool_inv_def cells_inv_def by blast


subsection \<open>Allocation\<close>

lemma descr_same: "same_pool p q \<Longrightarrow> descr q = descr p" "same_pool p q \<Longrightarrow> used_descr q = used_descr p" "same_pool p q \<Longrightarrow> bucket_inv q L = bucket_inv p L"
  by (simp_all add: same_pool_def descr_def used_descr_def bucket_inv_def)

lemma malloc_small:
  assumes K: "pool_ok p U S L" and m: "mem_ok mal" and n: "0 < n" "n + 8 \<le> block_size p"
  shows "\<exists>a p'. mp_malloc mal junk p n = Some (a, p') \<and> pool_ok p' U (insert (a, n) S) L \<and> (a, n) \<notin> S \<and> 0 < a \<and> block_size p' = block_size p"
proof -
  note D = pool_okD[OF K]
  obtain a q where q: "malloc_a_piece mal p n = Some (a, q)"
    "pool_inv q U (insert (a, n) (S \<union> descr p)) (insert a (fst ` S \<union> used_descr p)) L" "a \<notin> fst ` (S \<union> descr p)" "0 < a"
    "same_pool p q" "fresh_last q" using malloc_a_piece_spec[OF D(2,3) m n] by blast
  have "(a, n) \<notin> descr p" using q(3) by force
  then have "pool_ok q U (insert (a, n) S) L"
    using q(2,6) D(1,4) unfolding pool_ok_def descr_same[OF q(5)] by simp
  moreover have "(a, n) \<notin> S" using q(3) by force
  ultimately show ?thesis using q(1,4,5) n by (intro exI[of _ a] exI[of _ q]) (simp add: mp_malloc_def same_pool_def)
qed

lemma bucket_cell: "b \<in> set (buckets p) \<Longrightarrow> (baddr b, BUCKET) \<in> descr p"
  by (simp add: descr_def)

lemma baddr_inj: "bucket_inv p L \<Longrightarrow> b \<in> set (buckets p) \<Longrightarrow> c \<in> set (buckets p) \<Longrightarrow> baddr b = baddr c \<Longrightarrow> b = c"
  unfolding bucket_inv_def distinct_map inj_on_def by blast

lemma baddr_not_small:
  assumes "pool_ok p U S L" "b \<in> set (buckets p)"
  shows "baddr b \<notin> fst ` S"
proof
  assume "baddr b \<in> fst ` S"
  then obtain x where x: "x \<in> S" "fst x = baddr b" by force
  note D = pool_okD[OF assms(1)]
  have "x = (baddr b, BUCKET)"
    using cells_inj[OF D(2), of x "(baddr b, BUCKET)"] x bucket_cell[OF assms(2)] by simp
  then show False using D(1) x(1) bucket_cell[OF assms(2)] by blast
qed

text \<open>Descriptor \<open>k\<close> is reserved: it counts as a reference, but no large piece of the client is behind it.\<close>

definition reserved :: "mp_pool \<Rightarrow> (nat \<times> nat) set \<Rightarrow> (nat \<times> nat) set \<Rightarrow> (nat \<times> nat) set \<Rightarrow> nat \<Rightarrow> bool" where
  "reserved p U S L k \<longleftrightarrow> k < length (buckets p) \<and> S \<inter> descr p = {} \<and> fresh_last p
    \<and> pool_inv p U (S \<union> descr p) (fst ` S \<union> insert (baddr (buckets p ! k)) (baddr ` {b\<in>set (buckets p). b \<noteq> buckets p ! k \<and> start_of_bucket b \<noteq> 0})) L
    \<and> \<not> wild p \<and> distinct (map baddr (buckets p))
    \<and> (\<forall>b\<in>set (buckets p). b \<noteq> buckets p ! k \<longrightarrow> start_of_bucket b \<noteq> 0 \<longrightarrow> (\<exists>n. (start_of_bucket b, n) \<in> L))
    \<and> (\<forall>r\<in>L. \<exists>b\<in>set (buckets p). b \<noteq> buckets p ! k \<and> start_of_bucket b = fst r)
    \<and> (\<forall>b\<in>set (buckets p). \<forall>c\<in>set (buckets p). b \<noteq> buckets p ! k \<longrightarrow> c \<noteq> buckets p ! k \<longrightarrow> start_of_bucket b \<noteq> 0 \<longrightarrow> start_of_bucket b = start_of_bucket c \<longrightarrow> b = c)"

lemma get_bucket_spec:
  assumes K: "pool_ok p U S L" and m: "mem_ok mal" and j: "\<not> fst junk"
  shows "\<exists>k p'. get_bucket mal junk p = Some (Some k, p') \<and> reserved p' U S L k \<and> block_size p' = block_size p"
proof -
  note D = pool_okD[OF K]
  have w: "\<not> wild p" and dist: "distinct (map baddr (buckets p))" using D(4) by (simp_all add: bucket_inv_def)
  have L0: "\<forall>r\<in>L. 0 < fst r" using pool_invD(15,17)[OF D(2)] by blast
  from bucket_while_spec[of "buckets p" "\<lambda>b. start_of_bucket b = 0" 0] show ?thesis
  proof
    assume "\<exists>k<length (buckets p). start_of_bucket (buckets p ! k) = 0 \<and> bucket_while (\<lambda>b. start_of_bucket b = 0) False (buckets p) 0 = Some (Some (0 + k))"
    then obtain k where k: "k < length (buckets p)" "start_of_bucket (buckets p ! k) = 0"
      "bucket_while (\<lambda>b. start_of_bucket b = 0) False (buckets p) 0 = Some (Some k)" by auto
    let ?b = "buckets p ! k"
    have b: "?b \<in> set (buckets p)" using k(1) by simp
    have c: "(baddr ?b, BUCKET) \<in> S \<union> descr p" using bucket_cell[OF b] by blast
    have "baddr ?b \<notin> used_descr p" using baddr_inj[OF D(4) b] k(2) by (auto simp: used_descr_def)
    then have nr: "baddr ?b \<notin> fst ` S \<union> used_descr p" using baddr_not_small[OF K b] by blast
    obtain i q where q: "add_ref p (baddr ?b) 1 = Some (i, q)" "pool_inv q U (S \<union> descr p) (insert (baddr ?b) (fst ` S \<union> used_descr p)) L"
      "same_pool p q" "fresh_last p \<longrightarrow> fresh_last q" using add_ref_up[OF D(2) c] nr by auto
    have bq: "buckets q = buckets p" "wild q = wild p" using q(3) by (simp_all add: same_pool_def)
    have u: "{c\<in>set (buckets p). c \<noteq> ?b \<and> start_of_bucket c \<noteq> 0} = {c\<in>set (buckets p). start_of_bucket c \<noteq> 0}" using k(2) by auto
    have dq: "descr q = descr p" by (rule descr_same(1)[OF q(3)])
    have 1: "get_bucket mal junk p = Some (Some k, q)" using k(3) q(1) w by (simp add: get_bucket_def)
    have 2: "k < length (buckets q)" "S \<inter> descr q = {}" "fresh_last q" "\<not> wild q" "distinct (map baddr (buckets q))"
      using k(1) D(1,3) q(4) w dist unfolding bq dq by blast+
    have 3: "pool_inv q U (S \<union> descr q) (fst ` S \<union> insert (baddr (buckets q ! k)) (baddr ` {c\<in>set (buckets q). c \<noteq> buckets q ! k \<and> start_of_bucket c \<noteq> 0})) L"
      using q(2) unfolding dq bq u used_descr_def by simp
    have 4: "\<forall>c\<in>set (buckets q). c \<noteq> buckets q ! k \<longrightarrow> start_of_bucket c \<noteq> 0 \<longrightarrow> (\<exists>n. (start_of_bucket c, n) \<in> L)"
      using D(4) unfolding bq bucket_inv_def by blast
    have 5: "\<forall>r\<in>L. \<exists>c\<in>set (buckets q). c \<noteq> buckets q ! k \<and> start_of_bucket c = fst r"
    proof
      fix r assume r: "r \<in> L"
      then obtain c where c: "c \<in> set (buckets p)" "start_of_bucket c = fst r" using D(4) unfolding bucket_inv_def by blast
      have "0 < fst r" using L0 r by blast
      then have "c \<noteq> ?b" using c(2) k(2) by force
      then show "\<exists>c\<in>set (buckets q). c \<noteq> buckets q ! k \<and> start_of_bucket c = fst r" using c unfolding bq by blast
    qed
    have 6: "\<forall>b\<in>set (buckets q). \<forall>c\<in>set (buckets q). b \<noteq> buckets q ! k \<longrightarrow> c \<noteq> buckets q ! k \<longrightarrow> start_of_bucket b \<noteq> 0 \<longrightarrow> start_of_bucket b = start_of_bucket c \<longrightarrow> b = c"
      using D(4) unfolding bq bucket_inv_def by blast
    have 7: "block_size q = block_size p" using q(3) by (simp add: same_pool_def)
    show ?thesis unfolding reserved_def by (intro exI[of _ k] exI[of _ q] conjI 1 2 3 4 5 6 7)
  next
    assume n: "(\<forall>b\<in>set (buckets p). \<not> start_of_bucket b = 0) \<and> bucket_while (\<lambda>b. start_of_bucket b = 0) False (buckets p) 0 = Some None"
    have bs: "0 < BUCKET" "BUCKET + 8 \<le> block_size p" using pool_invD(1)[OF D(2)] by (simp_all add: BUCKET_def)
    obtain a q where q: "malloc_a_piece mal p BUCKET = Some (a, q)"
      "pool_inv q U (insert (a, BUCKET) (S \<union> descr p)) (insert a (fst ` S \<union> used_descr p)) L" "a \<notin> fst ` (S \<union> descr p)" "0 < a"
      "same_pool p q" "fresh_last q" using malloc_a_piece_spec[OF D(2,3) m bs] by blast
    have bq: "buckets q = buckets p" using q(5) by (simp add: same_pool_def)
    let ?n = "\<lparr>baddr = a, still_in_use = False, start_of_bucket = snd junk\<rparr>"
    let ?q = "q\<lparr>buckets := buckets q @ [?n], wild := fst junk\<rparr>"
    have new: "\<forall>b\<in>set (buckets p). baddr b \<noteq> a" using q(3) bucket_cell by (force simp: image_iff)
    have d: "descr ?q = insert (a, BUCKET) (descr p)" by (auto simp: descr_def bq)
    have u: "{b\<in>set (buckets ?q). b \<noteq> ?n \<and> start_of_bucket b \<noteq> 0} = {b\<in>set (buckets p). start_of_bucket b \<noteq> 0}"
      using new by (auto simp: bq)
    have nth: "buckets ?q ! length (buckets p) = ?n" by (simp add: bq nth_append)
    have 1: "get_bucket mal junk p = Some (Some (length (buckets p)), ?q)" using n q(1,4) w by (simp add: get_bucket_def bq)
    have 2: "pool_inv ?q U (S \<union> descr ?q) (fst ` S \<union> insert a (baddr ` {b\<in>set (buckets ?q). b \<noteq> ?n \<and> start_of_bucket b \<noteq> 0})) L"
      using q(2) unfolding d u used_descr_def by simp
    have 3: "S \<inter> descr ?q = {}" using q(3) D(1) unfolding d by force
    have 4: "fresh_last ?q" "\<not> wild ?q" using q(6) j by simp_all
    have 5: "distinct (map baddr (buckets ?q))" using dist new by (auto simp: bq)
    have 6: "\<forall>b\<in>set (buckets ?q). b \<noteq> ?n \<longrightarrow> start_of_bucket b \<noteq> 0 \<longrightarrow> (\<exists>n. (start_of_bucket b, n) \<in> L)"
      using D(4) by (auto simp: bucket_inv_def bq)
    have 7: "\<forall>r\<in>L. \<exists>b\<in>set (buckets ?q). b \<noteq> ?n \<and> start_of_bucket b = fst r"
    proof
      fix r assume "r \<in> L"
      then obtain b where "b \<in> set (buckets p)" "start_of_bucket b = fst r" using D(4) by (auto simp: bucket_inv_def)
      then show "\<exists>b\<in>set (buckets ?q). b \<noteq> ?n \<and> start_of_bucket b = fst r" using new by (intro bexI[of _ b]) (auto simp: bq)
    qed
    have 8: "\<forall>b\<in>set (buckets ?q). \<forall>c\<in>set (buckets ?q). b \<noteq> ?n \<longrightarrow> c \<noteq> ?n \<longrightarrow> start_of_bucket b \<noteq> 0 \<longrightarrow> start_of_bucket b = start_of_bucket c \<longrightarrow> b = c"
      using D(4) by (auto simp: bucket_inv_def bq)
    have 9: "length (buckets p) < length (buckets ?q)" by (simp add: bq)
    have 10: "block_size ?q = block_size p" using q(5) by (simp add: same_pool_def)
    have baddr_new: "baddr ?n = a" by simp
    show ?thesis
      by (rule exI[of _ "length (buckets p)"], rule exI[of _ ?q], unfold reserved_def nth baddr_new) (intro conjI 1 2 3 4(1) 4(2) 5 6 7 8 9 10)
  qed
qed

text \<open>The reserved descriptor gets its region.\<close>

lemma reserved_use:
  assumes K: "reserved p U S L k" and r: "\<forall>s\<in>set (live p). apart (a, n) s" "0 < a" "0 < n"
  shows "pool_ok (p\<lparr>live := (a, n) # live p, buckets := (buckets p)[k := (buckets p ! k)\<lparr>start_of_bucket := a, still_in_use := True\<rparr>]\<rparr>) U S (insert (a, n) L)"
    (is "pool_ok ?q U S ?L")
proof -
  let ?k = "buckets p ! k"
  let ?b = "?k\<lparr>start_of_bucket := a, still_in_use := True\<rparr>"
  have k: "k < length (buckets p)" and d: "distinct (map baddr (buckets p))" and w: "\<not> wild p" "fresh_last p" "S \<inter> descr p = {}"
    and I: "pool_inv p U (S \<union> descr p) (fst ` S \<union> insert (baddr ?k) (baddr ` {b\<in>set (buckets p). b \<noteq> ?k \<and> start_of_bucket b \<noteq> 0})) L"
    and B: "\<forall>b\<in>set (buckets p). b \<noteq> ?k \<longrightarrow> start_of_bucket b \<noteq> 0 \<longrightarrow> (\<exists>n. (start_of_bucket b, n) \<in> L)"
      "\<forall>r\<in>L. \<exists>b\<in>set (buckets p). b \<noteq> ?k \<and> start_of_bucket b = fst r"
      "\<forall>b\<in>set (buckets p). \<forall>c\<in>set (buckets p). b \<noteq> ?k \<longrightarrow> c \<noteq> ?k \<longrightarrow> start_of_bucket b \<noteq> 0 \<longrightarrow> start_of_bucket b = start_of_bucket c \<longrightarrow> b = c"
    using K unfolding reserved_def by blast+
  have r': "0 < fst (a, n)" "0 < snd (a, n)" using r(2,3) by simp_all
  note A = live_add_inv[OF I r(1) r']
  have aL: "(a, m) \<notin> L" for m using A(2) pool_invD(15)[OF I] by auto
  have st: "set (buckets ?q) = insert ?b (set (buckets p) - {?k})"
    using set_update_distinct[of "buckets p" k ?b] d k by (simp add: distinct_map)
  have bm: "map baddr (buckets ?q) = map baddr (buckets p)" using k by (simp add: map_update list_update_same_conv)
  have de: "descr ?q = descr p"
  proof -
    have e: "descr x = (\<lambda>a. (a, BUCKET)) ` set (map baddr (buckets x))" for x by (simp add: descr_def image_image)
    show ?thesis unfolding e[of ?q] e[of p] bm ..
  qed
  have u: "used_descr ?q = insert (baddr ?k) (baddr ` {b\<in>set (buckets p). b \<noteq> ?k \<and> start_of_bucket b \<noteq> 0})"
  proof -
    have "{b\<in>set (buckets ?q). start_of_bucket b \<noteq> 0} = insert ?b {b\<in>set (buckets p). b \<noteq> ?k \<and> start_of_bucket b \<noteq> 0}"
      using r(2) unfolding st by auto
    then show ?thesis unfolding used_descr_def by simp
  qed
  have "bucket_inv ?q ?L"
  proof -
    have s: "start_of_bucket ?b = a" by simp
    have o: "start_of_bucket c \<noteq> a" if "c \<in> set (buckets p)" "c \<noteq> ?k" for c
      using B(1) aL that r(2) by force
    have "\<forall>b\<in>set (buckets ?q). start_of_bucket b \<noteq> 0 \<longrightarrow> (\<exists>n. (start_of_bucket b, n) \<in> ?L)" unfolding st using B(1) by auto
    moreover have "\<forall>r\<in>?L. \<exists>b\<in>set (buckets ?q). start_of_bucket b = fst r" unfolding st using B(2) by fastforce
    moreover have "\<forall>b\<in>set (buckets ?q). \<forall>c\<in>set (buckets ?q). start_of_bucket b \<noteq> 0 \<longrightarrow> start_of_bucket b = start_of_bucket c \<longrightarrow> b = c"
      unfolding st using B(3) o s by (metis Diff_iff insert_iff singletonI)
    ultimately show ?thesis using w(1) d bm by (simp add: bucket_inv_def)
  qed
  moreover have "pool_inv ?q U (S \<union> descr ?q) (fst ` S \<union> used_descr ?q) ?L" using A(1) unfolding de u by simp
  moreover have "fresh_last ?q" using w(2) by (simp add: fresh_last_def)
  ultimately show ?thesis using w(3) unfolding pool_ok_def de by blast
qed

lemma malloc_large:
  assumes K: "pool_ok p U S L" and m: "mem_ok mal" and j: "\<not> fst junk" and n: "block_size p < n"
  shows "\<exists>a p'. mp_malloc mal junk p n = Some (a, p') \<and> pool_ok p' U S (insert (a, n) L) \<and> (a, n) \<notin> L \<and> 0 < a \<and> block_size p' = block_size p"
proof -
  obtain k q where q: "get_bucket mal junk p = Some (Some k, q)" "reserved q U S L k" "block_size q = block_size p" using get_bucket_spec[OF K m j] by blast
  have n0: "0 < n" using n by simp
  obtain a where a: "mal (live q) n = Some a" "0 < a" "\<forall>r\<in>set (live q). apart (a, n) r" using mem_okD[OF m n0] by blast
  obtain C R where I: "pool_inv q U C R L" using q(2) unfolding reserved_def by blast
  have "\<forall>r\<in>set (live q). 0 < snd r" using pool_invD(17)[OF I] by blast
  from apart_not_in[OF a(3) n0 this, of n] have "(a, n) \<notin> L" using pool_invD(15)[OF I] by blast
  then show ?thesis using reserved_use[OF q(2) a(3,2) n0] q(1,3) a(1,2) n by (simp add: mp_malloc_def malloc_a_bucket_def)
qed

end
