(* ===== verification/MemPool_Free.thy ===== *)
theory MemPool_Free
  imports MemPool_Pool
begin

text \<open>Giving pieces back, the clearing of a block that nothing refers to, and the end of a pool.\<close>

subsection \<open>Clearing a block\<close>

lemma cell_not_large:
  assumes I: "pool_inv p U C R L" and x: "x \<in> C"
  shows "(fst x, m) \<notin> L"
proof
  assume m: "(fst x, m) \<in> L"
  obtain i where i: "in_block p i x" using pool_invD(10)[OF I x] by blast
  note B = cell_bounds[OF I i]
  have r: "region p i \<in> block_regions p"
    using B(4) by (cases "blocks p"; cases i) (auto simp: region_def block_regions_def)
  have "block_regions p \<inter> L = {}" using I by (simp add: pool_inv_def live_inv_def)
  then have "(fst x, m) \<notin> block_regions p" using m by blast
  then have "region p i \<noteq> (fst x, m)" using r by (cases "region p i = (fst x, m)") simp_all
  moreover have l: "(fst x, m) \<in> set (live p)" using m pool_invD(15)[OF I] by blast
  ultimately have "apart (region p i) (fst x, m)" using pool_invD(16)[OF I region_live[OF I B(4)] l] by blast
  then show False using region_body[OF I B(4)] B(1,2) pool_invD(9)[OF I x] pool_invD(17)[OF I l]
    unfolding apart_def BLOCK_def fst_conv snd_conv by linarith
qed

lemma mp_clear_while_idle:
  assumes "\<not> wild p" "\<forall>b\<in>set bs. owner p (baddr b) \<noteq> None" "\<forall>b\<in>set bs. owner p (baddr b) = Some i \<longrightarrow> start_of_bucket b = 0"
  shows "mp_clear_while p i bs = Some (filter (\<lambda>b. owner p (baddr b) \<noteq> Some i) bs, p)"
  using assms(2,3) by (induction bs) (auto simp: assms(1))

lemma reset_block_simps [simp]:
  "base (reset_block b) = base b" "end_of_block (reset_block b) = end_of_block b" "start_of_rest (reset_block b) = base b + BLOCK"
  "failed_time (reset_block b) = 0" "ref_counter (reset_block b) = 0"
  by (simp_all add: reset_block_def)

lemma reset_block_ok: "block_ok bs b \<Longrightarrow> block_ok bs (reset_block b)"
  by (simp add: block_ok_def)

lemma reset_inv:
  assumes I: "pool_inv p U C R L" and i: "i < length (blocks p)" and o: "\<forall>x\<in>C. owner p (fst x) \<noteq> Some i"
  shows "pool_inv (p\<lparr>blocks := (blocks p)[i := reset_block (blocks p ! i)], current_block := Some 0\<rparr>) U C R L"
proof -
  let ?b = "reset_block (blocks p ! i)"
  let ?p = "set_block p i ?b"
  have inv: "blocks_inv p" "live_inv p U L" "cells_inv p C R" using I by (simp_all add: pool_inv_def)
  have "block_ok (block_size p) ?b" using reset_block_ok[OF pool_invD(6)[OF I i]] .
  then have 1: "blocks_inv ?p" "live_inv ?p U L"
    using blocks_set_block[OF inv(1) i, of ?b] live_set_block[OF i, of ?b U L] inv(2) by simp_all
  have ib: "\<exists>k. in_block ?p k x" if x: "x \<in> C" for x
  proof -
    obtain k where k: "in_block p k x" using pool_invD(10)[OF I x] by blast
    then have "k \<noteq> i" using o x by (auto simp: in_block_def)
    then show ?thesis using k by (intro exI[of _ k]) (simp add: in_block_def)
  qed
  have "ref_counter (blocks ?p ! k) = int (card {a\<in>R. owner ?p a = Some k})" if k: "k < length (blocks ?p)" for k
  proof (cases "k = i")
    case True
    have "{a\<in>R. owner p a = Some i} = {}" using o pool_invD(12)[OF I] by blast
    then have "card {a\<in>R. owner p a = Some i} = 0" by (simp only: card.empty)
    then show ?thesis using True i by simp
  next
    case False
    then show ?thesis using pool_invD(13)[OF I, of k] k by simp
  qed
  then have "cells_inv ?p C R" using inv(3) ib unfolding cells_inv_def by blast
  then have "pool_inv ?p U C R L" using 1 by (simp add: pool_inv_def)
  from current_inv[OF this, of 0] show ?thesis using i by (simp add: set_block_def) (use i in fastforce)
qed

lemma clear_block_spec:
  assumes K: "pool_ok p U S L" and i: "i < length (blocks p)"
  shows "\<exists>p'. clear_block p i = Some p' \<and> pool_ok p' U S L \<and> block_size p' = block_size p"
proof (cases "ref_counter (blocks p ! i) > 0")
  case True
  then show ?thesis using K i by (simp add: clear_block_def)
next
  case False
  note D = pool_okD[OF K]
  note I = D(2)
  let ?R = "fst ` S \<union> used_descr p"
  let ?bs = "filter (\<lambda>b. owner p (baddr b) \<noteq> Some i) (buckets p)"
  have "card {a\<in>?R. owner p a = Some i} = 0" using pool_invD(13)[OF I i] False by simp
  then have none: "\<forall>a\<in>?R. owner p a \<noteq> Some i" using finite_refs[OF I] by auto
  then have idle: "\<forall>b\<in>set (buckets p). owner p (baddr b) = Some i \<longrightarrow> start_of_bucket b = 0" by (auto simp: used_descr_def)
  have own: "\<forall>b\<in>set (buckets p). owner p (baddr b) \<noteq> None"
  proof
    fix b assume "b \<in> set (buckets p)"
    then have "(baddr b, BUCKET) \<in> S \<union> descr p" using bucket_cell by blast
    then show "owner p (baddr b) \<noteq> None" using pool_invD(10)[OF I] by (fastforce simp: in_block_def)
  qed
  have w: "\<not> wild p" using D(4) by (simp add: bucket_inv_def)
  let ?p = "p\<lparr>buckets := ?bs\<rparr>"
  let ?q = "p\<lparr>buckets := ?bs, blocks := (blocks p)[i := reset_block (blocks p ! i)], current_block := Some 0\<rparr>"
  have "clear_block p i = Some ?q" using False i mp_clear_while_idle[OF w own idle] by (simp add: clear_block_def)
  moreover have "pool_ok ?q U S L"
  proof -
    have de: "descr ?q = {x\<in>descr p. owner p (fst x) \<noteq> Some i}" "descr ?q = descr ?p" by (auto simp: descr_def)
    have u: "used_descr ?q = used_descr p" using idle by (auto simp: used_descr_def)
    have sub: "S \<union> descr ?p \<subseteq> S \<union> descr p" unfolding de(2)[symmetric] de(1) by blast
    have "used_descr ?q \<subseteq> fst ` descr ?q" by (force simp: used_descr_def descr_def)
    then have R: "?R \<subseteq> fst ` (S \<union> descr ?p)" unfolding u de(2) by blast
    have J: "pool_inv ?p U (S \<union> descr ?p) ?R L" using drop_cells[OF I sub R] by simp
    have "\<forall>x\<in>S \<union> descr ?p. owner ?p (fst x) \<noteq> Some i" using none unfolding de(2)[symmetric] de(1) by auto
    from reset_inv[OF J _ this] have "pool_inv ?q U (S \<union> descr ?q) (fst ` S \<union> used_descr ?q) L"
      unfolding u de(2) using i by simp
    moreover have "fresh_last ?q" using D(3) pool_invD(3)[OF I] by (auto simp: fresh_last_def last_update)
    moreover have "bucket_inv ?q L"
    proof -
      have "distinct (map baddr (buckets p))" using D(4) by (simp add: bucket_inv_def)
      then have "distinct (map baddr ?bs)" by (rule distinct_map_filter)
      moreover have "\<forall>r\<in>L. \<exists>b\<in>set ?bs. start_of_bucket b = fst r"
      proof
        fix r assume r: "r \<in> L"
        then obtain b where b: "b \<in> set (buckets p)" "start_of_bucket b = fst r" using D(4) unfolding bucket_inv_def by blast
        have "0 < fst r" using r pool_invD(15,17)[OF I] by blast
        then have "owner p (baddr b) \<noteq> Some i" using idle b by force
        then show "\<exists>b\<in>set ?bs. start_of_bucket b = fst r" using b by force
      qed
      ultimately show ?thesis using D(4) unfolding bucket_inv_def by simp
    qed
    ultimately show ?thesis using D(1) unfolding pool_ok_def de(1) by blast
  qed
  moreover have "block_size ?q = block_size p" by simp
  ultimately show ?thesis by blast
qed

subsection \<open>Freeing a piece\<close>

lemma find_bucket_none:
  assumes "bucket_inv p L" "a \<noteq> 0" "\<And>n. (a, n) \<notin> L"
  shows "find_bucket_with_addr p a = Some None"
proof -
  have "\<forall>b\<in>set (buckets p). start_of_bucket b \<noteq> a" using assms unfolding bucket_inv_def by blast
  then show ?thesis
    using bucket_while_spec[of "buckets p" "\<lambda>b. start_of_bucket b = a" 0] assms(1)
    unfolding find_bucket_with_addr_def bucket_inv_def by (auto dest: nth_mem)
qed

lemma find_bucket_some:
  assumes "bucket_inv p L" "(a, n) \<in> L"
  shows "\<exists>k<length (buckets p). start_of_bucket (buckets p ! k) = a \<and> find_bucket_with_addr p a = Some (Some k)"
proof -
  have "\<exists>b\<in>set (buckets p). start_of_bucket b = a" using assms unfolding bucket_inv_def by fastforce
  then show ?thesis
    using bucket_while_spec[of "buckets p" "\<lambda>b. start_of_bucket b = a" 0] assms(1)
    unfolding find_bucket_with_addr_def bucket_inv_def by auto
qed

lemma finish_free:
  assumes "pool_ok p U S L" "i < length (blocks p)"
  shows "\<exists>p'. (if auto_clear p then clear_block p i else Some p) = Some p' \<and> pool_ok p' U S L \<and> block_size p' = block_size p"
  using clear_block_spec[OF assms] assms(1) by simp

lemma small_refs:
  assumes K: "pool_ok p U S L" and x: "x \<in> S"
  shows "fst ` S \<union> used_descr p - {fst x} = fst ` (S - {x}) \<union> used_descr p"
proof -
  note D = pool_okD[OF K]
  have "fst x \<notin> used_descr p"
  proof
    assume "fst x \<in> used_descr p"
    then obtain b where "b \<in> set (buckets p)" "fst x = baddr b" unfolding used_descr_def by blast
    then show False using baddr_not_small[OF K, of b] imageI[OF x, of fst] by metis
  qed
  moreover have "fst y \<noteq> fst x" if "y \<in> S" "y \<noteq> x" for y using cells_inj[OF D(2), of y x] that x by blast
  then have "fst ` S - {fst x} = fst ` (S - {x})" by auto
  ultimately show ?thesis by (simp add: Un_Diff)
qed

lemma free_small:
  assumes K: "pool_ok p U S L" and x: "(a, n) \<in> S"
  shows "\<exists>p'. mp_free p a = Some p' \<and> pool_ok p' U (S - {(a, n)}) L \<and> block_size p' = block_size p"
proof -
  note D = pool_okD[OF K]
  note I = D(2)
  have x': "(a, n) \<in> S \<union> descr p" "fst (a, n) \<in> fst ` S \<union> used_descr p" using x by (simp, force)
  obtain j where "in_block p j (a, n)" using pool_invD(10)[OF I x'(1)] by blast
  then have a: "a \<noteq> 0" by (auto simp: in_block_def PIECE_def)
  have fb: "find_bucket_with_addr p a = Some None" by (rule find_bucket_none[OF D(4) a]) (use cell_not_large[OF I x'(1)] in simp)
  obtain i q where q: "add_ref p a (- 1) = Some (i, q)" "pool_inv q U (S \<union> descr p) (fst ` S \<union> used_descr p - {a}) L" "same_pool p q"
    "fresh_last p \<longrightarrow> fresh_last q" "i < length (blocks q)"
    using add_ref_down[OF I x'] by auto
  have R: "fst ` S \<union> used_descr p - {a} = fst ` (S - {(a, n)}) \<union> used_descr p" using small_refs[OF K x] by simp
  have sub: "S - {(a, n)} \<union> descr p \<subseteq> S \<union> descr p" by blast
  have "used_descr p \<subseteq> fst ` descr p" by (force simp: used_descr_def descr_def)
  then have rs: "fst ` (S - {(a, n)}) \<union> used_descr p \<subseteq> fst ` (S - {(a, n)} \<union> descr p)" by blast
  have "pool_inv q U (S - {(a, n)} \<union> descr q) (fst ` (S - {(a, n)}) \<union> used_descr q) L"
    using drop_cells[OF q(2)[unfolded R] sub rs] unfolding descr_same[OF q(3)] .
  moreover have "(S - {(a, n)}) \<inter> descr q = {}" "bucket_inv q L" using D(1,4) unfolding descr_same[OF q(3)] by blast+
  ultimately have "pool_ok q U (S - {(a, n)}) L" using q(4) D(3) by (simp add: pool_ok_def)
  from finish_free[OF this q(5)] show ?thesis using a fb q(1,3) by (simp add: mp_free_def same_pool_def)
qed

lemma free_large:
  assumes K: "pool_ok p U S L" and x: "(a, n) \<in> L"
  shows "\<exists>p'. mp_free p a = Some p' \<and> pool_ok p' U S (L - {(a, n)}) \<and> block_size p' = block_size p"
proof -
  note D = pool_okD[OF K]
  note I = D(2)
  have "(a, n) \<in> set (live p)" using x pool_invD(15)[OF I] by blast
  then have a: "a \<noteq> 0" using pool_invD(17)[OF I] by force
  obtain k where k: "k < length (buckets p)" "start_of_bucket (buckets p ! k) = a" "find_bucket_with_addr p a = Some (Some k)"
    using find_bucket_some[OF D(4) x] by blast
  let ?k = "buckets p ! k"
  let ?b = "?k\<lparr>start_of_bucket := 0, still_in_use := False\<rparr>"
  have kin: "?k \<in> set (buckets p)" using k(1) by simp
  let ?p = "p\<lparr>live := remove1 (a, n) (live p)\<rparr>"
  have mf: "mfree p a = Some ?p" and J: "pool_inv ?p U (S \<union> descr p) (fst ` S \<union> used_descr p) (L - {(a, n)})"
    using mfree_inv[OF I x] by simp_all
  let ?q = "?p\<lparr>buckets := (buckets p)[k := ?b]\<rparr>"
  have J': "pool_inv ?q U (S \<union> descr p) (fst ` S \<union> used_descr p) (L - {(a, n)})" using J by simp
  have y: "(baddr ?k, BUCKET) \<in> S \<union> descr p" "fst (baddr ?k, BUCKET) \<in> fst ` S \<union> used_descr p"
    using bucket_cell[OF kin] kin k(2) a by (simp_all add: used_descr_def)
  obtain i r where r: "add_ref ?q (baddr ?k) (- 1) = Some (i, r)" "pool_inv r U (S \<union> descr p) (fst ` S \<union> used_descr p - {baddr ?k}) (L - {(a, n)})"
    "same_pool ?q r" "fresh_last ?q \<longrightarrow> fresh_last r" "i < length (blocks r)"
    using add_ref_down[OF J' y] by auto
  have d: "distinct (map baddr (buckets p))" using D(4) by (simp add: bucket_inv_def)
  have st: "set (buckets ?q) = insert ?b (set (buckets p) - {?k})"
    using set_update_distinct[of "buckets p" k ?b] d k by (simp add: distinct_map)
  have bm: "map baddr (buckets ?q) = map baddr (buckets p)" using k by (simp add: map_update list_update_same_conv)
  have de: "descr r = descr p"
  proof -
    have e: "descr x = (\<lambda>a. (a, BUCKET)) ` set (map baddr (buckets x))" for x by (simp add: descr_def image_image)
    show ?thesis unfolding descr_same(1)[OF r(3)] e[of ?q] e[of p] bm ..
  qed
  have only: "start_of_bucket b \<noteq> a" if "b \<in> set (buckets p) - {?k}" for b
    using D(4) kin k(2) a that unfolding bucket_inv_def by (metis Diff_iff singletonI)
  have u: "used_descr r = used_descr p - {baddr ?k}"
  proof -
    have "{b\<in>set (buckets ?q). start_of_bucket b \<noteq> 0} = {b\<in>set (buckets p). start_of_bucket b \<noteq> 0} - {?k}"
      unfolding st using k(2) a by (auto dest: arg_cong[where f=start_of_bucket])
    then have "used_descr ?q = baddr ` ({b\<in>set (buckets p). start_of_bucket b \<noteq> 0} - {?k})" by (simp only: used_descr_def)
    also have "\<dots> = used_descr p - {baddr ?k}"
      unfolding used_descr_def using baddr_inj[OF D(4)] kin by blast
    finally show ?thesis unfolding descr_same(2)[OF r(3)] .
  qed
  have R: "fst ` S \<union> used_descr p - {baddr ?k} = fst ` S \<union> used_descr r" unfolding u using baddr_not_small[OF K kin] by blast
  have "bucket_inv ?q (L - {(a, n)})"
  proof -
    have "\<forall>b\<in>set (buckets ?q). start_of_bucket b \<noteq> 0 \<longrightarrow> (\<exists>m. (start_of_bucket b, m) \<in> L - {(a, n)})"
      unfolding st using only D(4) unfolding bucket_inv_def by auto
    moreover have "\<forall>s\<in>L - {(a, n)}. \<exists>b\<in>set (buckets ?q). start_of_bucket b = fst s"
    proof
      fix s assume s: "s \<in> L - {(a, n)}"
      then obtain b where b: "b \<in> set (buckets p)" "start_of_bucket b = fst s" using D(4) unfolding bucket_inv_def by blast
      have "fst s \<noteq> a"
      proof
        assume e: "fst s = a"
        have "s \<in> set (live p)" using s pool_invD(15)[OF I] by blast
        from map_of_live[OF I this] map_of_live[OF I \<open>(a, n) \<in> set (live p)\<close>] e have "s = (a, n)" by (cases s) simp
        then show False using s by blast
      qed
      then have "b \<noteq> ?k" using b k(2) by force
      then show "\<exists>b\<in>set (buckets ?q). start_of_bucket b = fst s" unfolding st using b by blast
    qed
    moreover have "\<forall>b\<in>set (buckets ?q). \<forall>c\<in>set (buckets ?q). start_of_bucket b \<noteq> 0 \<longrightarrow> start_of_bucket b = start_of_bucket c \<longrightarrow> b = c"
      unfolding st using D(4) unfolding bucket_inv_def by auto
    moreover have "\<not> wild ?q" using D(4) by (simp add: bucket_inv_def)
    ultimately show ?thesis using d bm by (simp only: bucket_inv_def simp_thms)
  qed
  moreover have "fresh_last ?q" using D(3) by (simp add: fresh_last_def)
  ultimately have "pool_ok r U S (L - {(a, n)})" using r(2,4) D(1) unfolding pool_ok_def de R descr_same(3)[OF r(3)] by blast
  from finish_free[OF this r(5)] show ?thesis using a k(2,3) mf r(1,3) by (simp add: mp_free_def same_pool_def)
qed

end
