(* ===== verification/MemPool_Life.thy ===== *)
theory MemPool_Life
  imports MemPool_Free
begin

text \<open>A pool from its creation to its end, and what a client sees of it.\<close>

subsection \<open>Creation\<close>

text \<open>What is allocated before the pool: regions that do not overlap.\<close>

definition heap_ok :: "(nat \<times> nat) list \<Rightarrow> bool" where
  "heap_ok l \<longleftrightarrow> distinct l \<and> (\<forall>r\<in>set l. \<forall>s\<in>set l. r \<noteq> s \<longrightarrow> apart r s) \<and> (\<forall>r\<in>set l. 0 < fst r \<and> 0 < snd r)"

lemma mp_create_ok:
  assumes h: "heap_ok used" and m: "mem_ok mal" and sz: "MP_MIN_BLK_SIZE \<le> sz"
  shows "\<exists>p. mp_create_pool mal used sz cl = Some p \<and> pool_ok p (set used) {} {} \<and> block_size p = min sz MP_PAGE_SIZE"
proof -
  let ?bs = "if sz < MP_PAGE_SIZE then sz else MP_PAGE_SIZE"
  let ?n = "POOL + BLOCK + ?bs"
  have n: "0 < ?n" by (simp add: POOL_def)
  obtain a where a: "mal used ?n = Some a" "0 < a" "\<forall>r\<in>set used. apart (a, ?n) r" using mem_okD[OF m n] by blast
  let ?p = "\<lparr>pool_addr = a, block_size = ?bs, current_block = Some 0, auto_clear = cl,
    blocks = [init_a_new_block ?bs (a + POOL)], buckets = [], wild = False, owner = (\<lambda>_. None), live = (a, ?n) # used\<rparr>"
  have c: "mp_create_pool mal used sz cl = Some ?p" using sz a(1) unfolding mp_create_pool_def Let_def by simp
  have pos: "\<forall>r\<in>set used. 0 < snd r" using h by (simp add: heap_ok_def)
  have nin: "(a, ?n) \<notin> set used" by (rule apart_not_in[OF a(3) n pos])
  have bs: "MP_MIN_BLK_SIZE \<le> ?bs" "?bs \<le> MP_PAGE_SIZE" using sz by (simp_all add: MP_PAGE_SIZE_def MP_MIN_BLK_SIZE_def)
  have 1: "blocks_inv ?p" using bs by (simp add: blocks_inv_def init_a_new_block_def block_ok_def)
  have 2: "cells_inv ?p {} {}" by (simp add: cells_inv_def init_a_new_block_def)
  have br: "block_regions ?p = {(a, ?n)}" by (simp add: block_regions_def)
  have ap: "\<forall>r\<in>set (live ?p). \<forall>s\<in>set (live ?p). r \<noteq> s \<longrightarrow> apart r s"
    using h a(3) apart_sym unfolding heap_ok_def by (auto simp del: split_paired_All)
  have "\<forall>r\<in>set (live ?p). 0 < fst r \<and> 0 < snd r" using h a(2) n unfolding heap_ok_def by (auto simp del: split_paired_All)
  then have 3: "live_inv ?p (set used) {}" using h nin ap unfolding live_inv_def br by (simp add: heap_ok_def)
  have "pool_ok ?p (set used) {} {}"
    using 1 2 3 by (simp add: pool_ok_def pool_inv_def descr_def used_descr_def bucket_inv_def fresh_last_def init_a_new_block_def)
  then show ?thesis using c by (intro exI[of _ ?p]) (simp add: MP_PAGE_SIZE_def min_def)
qed

subsection \<open>Reset\<close>

lemma reset_while_spec:
  assumes "pool_inv p U C R L" "\<not> wild p" "distinct (filter (\<lambda>a. a \<noteq> 0) (map start_of_bucket bs))"
    "\<forall>b\<in>set bs. start_of_bucket b \<noteq> 0 \<longrightarrow> (\<exists>n. (start_of_bucket b, n) \<in> L)" "fst ` L \<subseteq> start_of_bucket ` set bs"
  shows "\<exists>p'. reset_while p bs = Some p' \<and> pool_inv p' U C R {} \<and> blocks p' = blocks p \<and> block_size p' = block_size p"
  using assms
proof (induction bs arbitrary: p L)
  case Nil
  then show ?case by simp
next
  case (Cons b bs)
  have L0: "\<forall>r\<in>L. 0 < fst r" using pool_invD(15,17)[OF Cons.prems(1)] by blast
  show ?case
  proof (cases "start_of_bucket b = 0")
    case True
    have "fst ` L \<subseteq> start_of_bucket ` set bs" using Cons.prems(5) L0 True by force
    then show ?thesis using Cons.IH[OF Cons.prems(1,2)] Cons.prems(3,4) True by simp
  next
    case False
    then obtain n where n: "(start_of_bucket b, n) \<in> L" using Cons.prems(4) by auto
    let ?r = "(start_of_bucket b, n)"
    let ?p = "p\<lparr>live := remove1 ?r (live p)\<rparr>"
    have mf: "mfree p (start_of_bucket b) = Some ?p" and I: "pool_inv ?p U C R (L - {?r})"
      using mfree_inv[OF Cons.prems(1) n] by simp_all
    have d: "distinct (filter (\<lambda>a. a \<noteq> 0) (map start_of_bucket bs))" "start_of_bucket b \<notin> start_of_bucket ` set bs"
      using Cons.prems(3) False by auto
    have s: "fst r \<noteq> start_of_bucket b" if r: "r \<in> L - {?r}" for r
    proof
      assume e: "fst r = start_of_bucket b"
      have "r \<in> set (live p)" "?r \<in> set (live p)" using r n pool_invD(15)[OF Cons.prems(1)] by blast+
      from this[THEN map_of_live[OF Cons.prems(1)]] e have "r = ?r" by (cases r) simp
      then show False using r by blast
    qed
    have st: "\<forall>c\<in>set bs. start_of_bucket c \<noteq> 0 \<longrightarrow> (\<exists>m. (start_of_bucket c, m) \<in> L - {?r})"
      using Cons.prems(4) d(2) by force
    have "fst ` (L - {?r}) \<subseteq> start_of_bucket ` set bs" using Cons.prems(5) s by force
    from Cons.IH[OF I _ d(1) st this] Cons.prems(2) show ?thesis using False mf by simp
  qed
qed

lemma reset_starts:
  assumes "bucket_inv p L"
  shows "distinct (filter (\<lambda>a. a \<noteq> 0) (map start_of_bucket (buckets p)))"
proof -
  let ?bs = "filter (\<lambda>b. start_of_bucket b \<noteq> 0) (buckets p)"
  have "distinct ?bs" using assms by (simp add: bucket_inv_def distinct_map)
  moreover have "inj_on start_of_bucket (set ?bs)" using assms unfolding bucket_inv_def inj_on_def by simp
  ultimately show ?thesis by (simp add: filter_map distinct_map o_def)
qed

lemma reset_all_inv:
  assumes I: "pool_inv p U C R L"
  shows "pool_inv (p\<lparr>buckets := [], wild := w, blocks := map reset_block (blocks p), current_block := Some 0\<rparr>) U {} {} L"
    (is "pool_inv ?q U {} {} L")
proof -
  have inv: "blocks_inv p" "live_inv p U L" using I by (simp_all add: pool_inv_def)
  have tl: "tl (blocks ?q) = map reset_block (tl (blocks p))" by (simp add: map_tl)
  have b: "map base (tl (blocks ?q)) = map base (tl (blocks p))" unfolding tl by simp
  have hb: "base (hd (blocks ?q)) = base (hd (blocks p))" using pool_invD(3)[OF I] by (simp add: hd_map)
  have "block_regions ?q = block_regions p" unfolding block_regions_def tl by (simp add: image_image)
  then have "live_inv ?q U L" using inv(2) by (simp add: live_inv_def)
  moreover have "blocks_inv ?q" using inv(1) unfolding blocks_inv_def b hb by (auto intro: reset_block_ok)
  moreover have "cells_inv ?q {} {}" by (simp add: cells_inv_def)
  ultimately show ?thesis by (simp add: pool_inv_def)
qed

lemma reset_ok:
  assumes K: "pool_ok p U S L"
  shows "\<exists>p'. mp_reset_pool p = Some p' \<and> pool_ok p' U {} {} \<and> block_size p' = block_size p"
proof -
  note D = pool_okD[OF K]
  have w: "\<not> wild p" and st: "\<forall>b\<in>set (buckets p). start_of_bucket b \<noteq> 0 \<longrightarrow> (\<exists>n. (start_of_bucket b, n) \<in> L)"
    and sub: "fst ` L \<subseteq> start_of_bucket ` set (buckets p)" using D(4) unfolding bucket_inv_def by force+
  obtain q where q: "reset_while p (buckets p) = Some q" "pool_inv q U (S \<union> descr p) (fst ` S \<union> used_descr p) {}" "blocks q = blocks p" "block_size q = block_size p"
    using reset_while_spec[OF D(2) w reset_starts[OF D(4)] st sub] by blast
  let ?q = "q\<lparr>buckets := [], wild := False, blocks := map reset_block (blocks q), current_block := Some 0\<rparr>"
  have "fresh_last ?q" using pool_invD(3)[OF q(2)] by (simp add: fresh_last_def last_map)
  then have "pool_ok ?q U {} {}" using reset_all_inv[OF q(2), of False] by (simp add: pool_ok_def descr_def used_descr_def bucket_inv_def)
  then show ?thesis using q(1,4) by (simp add: mp_reset_pool_def)
qed

subsection \<open>Destruction\<close>

lemma destroy_while_spec:
  assumes "distinct (map fst (live p))" "distinct (map base bs)" "\<forall>b\<in>set bs. (base b, n) \<in> set (live p)"
  shows "\<exists>p'. destroy_while p bs = Some p' \<and> set (live p') = set (live p) - (\<lambda>b. (base b, n)) ` set bs
    \<and> distinct (map fst (live p')) \<and> pool_addr p' = pool_addr p"
  using assms
proof (induction bs arbitrary: p)
  case (Cons b bs)
  let ?p = "p\<lparr>live := remove1 (base b, n) (live p)\<rparr>"
  have mf: "mfree p (base b) = Some ?p" using map_of_is_SomeI[OF Cons.prems(1), of "base b" n] Cons.prems(3) by (simp add: mfree_def)
  have dl: "distinct (live p)" using Cons.prems(1) by (simp add: distinct_map)
  then have s: "set (live ?p) = set (live p) - {(base b, n)}" by simp
  have "inj_on fst (set (live p))" using Cons.prems(1) by (simp add: distinct_map)
  then have d: "distinct (map fst (live ?p))" using dl by (simp add: distinct_map inj_on_diff)
  have "\<forall>c\<in>set bs. (base c, n) \<in> set (live ?p)" using Cons.prems(2,3) unfolding s by (auto simp: rev_image_eqI)
  from Cons.IH[OF d _ this] Cons.prems(2) obtain p' where "destroy_while ?p bs = Some p'"
    "set (live p') = set (live ?p) - (\<lambda>b. (base b, n)) ` set bs" "distinct (map fst (live p'))" "pool_addr p' = pool_addr p" by auto
  then show ?case unfolding s using mf by (intro exI[of _ p']) auto
qed simp

lemma destroy_ok:
  assumes K: "pool_ok p U S L"
  shows "\<exists>l. mp_destroy_pool p = Some l \<and> set l = U \<and> distinct l"
proof -
  obtain q where q: "mp_reset_pool p = Some q" "pool_ok q U {} {}" using reset_ok[OF K] by blast
  note I = pool_okD(2)[OF q(2)]
  let ?n = "block_size q + BLOCK"
  have dl: "distinct (map fst (live q))"
  proof -
    have "inj_on fst (set (live q))"
    proof (rule inj_onI)
      fix x y assume "x \<in> set (live q)" "y \<in> set (live q)" "fst x = fst y"
      then have "fst x = fst y" "Some (snd x) = Some (snd y)" using map_of_live[OF I] by metis+
      then show "x = y" by (simp add: prod_eq_iff)
    qed
    then show ?thesis using pool_invD(14)[OF I] by (simp add: distinct_map)
  qed
  have L: "set (live q) = U \<union> block_regions q" using pool_invD(15)[OF I] by simp
  have dj: "U \<inter> block_regions q = {}" using I by (simp add: pool_inv_def live_inv_def)
  have "\<forall>b\<in>set (tl (blocks q)). (base b, ?n) \<in> set (live q)" unfolding L block_regions_def by blast
  from destroy_while_spec[OF dl pool_invD(5)[OF I] this] obtain r where
    r: "destroy_while q (tl (blocks q)) = Some r" "set (live r) = set (live q) - (\<lambda>b. (base b, ?n)) ` set (tl (blocks q))"
      "distinct (map fst (live r))" "pool_addr r = pool_addr q" by blast
  let ?r = "(pool_addr q, POOL + BLOCK + block_size q)"
  have ne: "?r \<notin> (\<lambda>b. (base b, ?n)) ` set (tl (blocks q))" by (auto simp: POOL_def)
  have "?r \<in> set (live r)" unfolding r(2) L using ne by (simp add: block_regions_def)
  then have mf: "mfree r (pool_addr r) = Some (r\<lparr>live := remove1 ?r (live r)\<rparr>)" using r(3,4) by (simp add: mfree_def)
  have dr: "distinct (live r)" using r(3) by (simp add: distinct_map)
  have "set (remove1 ?r (live r)) = U" using dr dj unfolding set_remove1_eq[OF dr] r(2) L block_regions_def by blast
  then show ?thesis using q(1) r(1) mf dr by (simp add: mp_destroy_pool_def)
qed

end
