(* ===== verification/MemPool_Client.thy ===== *)
theory MemPool_Client
  imports MemPool_Life
begin

text \<open>The pool as a store of pieces: the interface that a client sees, and the pool as an instance of it.\<close>
text \<open>An allocator for the examples: every region lies behind all that are allocated.\<close>

definition bump :: memalign where
  "bump l n = Some (1 + sum_list (map (\<lambda>r. fst r + snd r) l))"

lemma bump_ok: "mem_ok bump"
proof -
  have "fst r + snd r \<le> sum_list (map (\<lambda>r. fst r + snd r) l)" if "r \<in> set l" for r :: "nat \<times> nat" and l
    using member_le_sum_list[of "fst r + snd r" "map (\<lambda>r. fst r + snd r) l"] that by force
  then show ?thesis unfolding mem_ok_def bump_def apart_def by fastforce
qed

lemma descr_not_held: "pool_ok p U S L \<Longrightarrow> (a, n) \<in> S \<Longrightarrow> (a, m) \<notin> L"
  using cell_not_large[OF pool_okD(2), of p U S L "(a, n)" m] by simp

text \<open>
  The sizes that the pool serves: those that leave room for the header in a block, and those of large
  pieces where what a new descriptor holds, \<open>junk\<close>, begins with a null pointer.
\<close>

definition pool_fits :: "nat \<Rightarrow> bool \<times> nat \<Rightarrow> nat \<Rightarrow> bool" where
  "pool_fits bs junk n \<longleftrightarrow> 0 < n \<and> (n + PIECE \<le> bs \<or> bs < n \<and> \<not> fst junk)"

lemma malloc_ok:
  assumes "pool_ok p U S L" "mem_ok mal" "pool_fits (block_size p) junk n"
  shows "\<exists>a p'. mp_malloc mal junk p n = Some (a, p') \<and> 0 < a \<and> (a, n) \<notin> S \<union> L
    \<and> block_size p' = block_size p
    \<and> (if n \<le> block_size p then pool_ok p' U (insert (a, n) S) L else pool_ok p' U S (insert (a, n) L))"
proof (cases "n \<le> block_size p")
  case True
  then have "n + 8 \<le> block_size p" "0 < n" using assms(3) by (simp_all add: PIECE_def pool_fits_def)
  then obtain a p' where r: "mp_malloc mal junk p n = Some (a, p')" "pool_ok p' U (insert (a, n) S) L" "(a, n) \<notin> S" "0 < a"
    "block_size p' = block_size p" using malloc_small[OF assms(1,2), of n junk] by blast
  then show ?thesis using True descr_not_held[OF r(2), of a n n] by auto
next
  case False
  then have "block_size p < n" "\<not> fst junk" using assms(3) by (auto simp: pool_fits_def)
  then obtain a p' where r: "mp_malloc mal junk p n = Some (a, p')" "pool_ok p' U S (insert (a, n) L)" "(a, n) \<notin> L" "0 < a"
    "block_size p' = block_size p" using malloc_large[OF assms(1,2)] by blast
  then show ?thesis using False descr_not_held[OF r(2), of a n n] by auto
qed

lemma malloc_new:
  assumes "pool_ok p U S L" "mem_ok mal" "pool_fits (block_size p) junk n"
  shows "\<exists>a p' S' L'. mp_malloc mal junk p n = Some (a, p') \<and> 0 < a \<and> (a, n) \<notin> S \<union> L \<and> block_size p' = block_size p
    \<and> pool_ok p' U S' L' \<and> S' \<union> L' = insert (a, n) (S \<union> L)"
proof -
  obtain a p' where m: "mp_malloc mal junk p n = Some (a, p')" "0 < a" "(a, n) \<notin> S \<union> L" "block_size p' = block_size p"
    "if n \<le> block_size p then pool_ok p' U (insert (a, n) S) L else pool_ok p' U S (insert (a, n) L)"
    using malloc_ok[OF assms] by blast
  show ?thesis
  proof (cases "n \<le> block_size p")
    case True
    with m show ?thesis by (intro exI[of _ a] exI[of _ p'] exI[of _ "insert (a, n) S"] exI[of _ L]) simp
  next
    case False
    with m show ?thesis by (intro exI[of _ a] exI[of _ p'] exI[of _ S] exI[of _ "insert (a, n) L"]) simp
  qed
qed

lemma free_ok:
  assumes "pool_ok p U S L" "(a, n) \<in> S \<union> L"
  shows "\<exists>p'. mp_free p a = Some p' \<and> pool_ok p' U (S - {(a, n)}) (L - {(a, n)}) \<and> block_size p' = block_size p"
proof (cases "(a, n) \<in> S")
  case True
  then have "L - {(a, n)} = L" using descr_not_held[OF assms(1)] by blast
  then show ?thesis using free_small[OF assms(1) True] by simp
next
  case False
  then have "(a, n) \<in> L" "S - {(a, n)} = S" using assms(2) by blast+
  then show ?thesis using free_large[OF assms(1)] by simp
qed

text \<open>What the client holds does not overlap, and keeps clear of what is not the pool's.\<close>

lemma small_in_region:
  assumes "pool_ok p U S L" "x \<in> S"
  shows "\<exists>r\<in>block_regions p. fst r \<le> fst x \<and> fst x + snd x \<le> fst r + snd r"
proof -
  note I = pool_okD(2)[OF assms(1)]
  obtain i where i: "in_block p i x" using pool_invD(10)[OF I] assms(2) by blast
  note B = cell_bounds[OF I i]
  have "region p i \<in> block_regions p" using B(4) by (cases "blocks p"; cases i) (auto simp: region_def block_regions_def)
  then show ?thesis using region_body[OF I B(4)] B(1,2) unfolding BLOCK_def by (intro bexI[of _ "region p i"]) simp_all
qed

lemma apart_sub: "apart r s \<Longrightarrow> fst r \<le> fst x \<Longrightarrow> fst x + snd x \<le> fst r + snd r \<Longrightarrow> apart x s"
  by (auto simp: apart_def)

lemma spaced_apart: "spaced x y \<Longrightarrow> apart x y"
  by (auto simp: spaced_def apart_def)

lemma pieces_apart:
  assumes "pool_ok p U S L" "x \<in> S \<union> L" "y \<in> S \<union> L \<union> U" "x \<noteq> y"
  shows "apart x y"
proof -
  note I = pool_okD(2)[OF assms(1)]
  have live: "L \<subseteq> set (live p)" "U \<subseteq> set (live p)" "block_regions p \<subseteq> set (live p)" using pool_invD(15)[OF I] by blast+
  have dj: "block_regions p \<inter> L = {}" "U \<inter> block_regions p = {}" using I by (simp_all add: pool_inv_def live_inv_def)
  have SL: "apart u v" if u: "u \<in> S" and v: "v \<in> L \<union> U" for u v
  proof -
    obtain r where r: "r \<in> block_regions p" "fst r \<le> fst u" "fst u + snd u \<le> fst r + snd r" using small_in_region[OF assms(1) u] by blast
    have "r \<noteq> v" using r(1) v dj by blast
    then have "apart r v" using pool_invD(16)[OF I] r(1) v live by blast
    then show ?thesis using r(2,3) by (rule apart_sub)
  qed
  have LU: "apart u v" if "u \<in> L" "v \<in> L \<union> U" "u \<noteq> v" for u v using pool_invD(16)[OF I] that live by blast
  have SS: "apart u v" if "u \<in> S" "v \<in> S" "u \<noteq> v" for u v using pool_invD(11)[OF I, of u v] that by (blast intro: spaced_apart)
  consider "x \<in> S" "y \<in> S" | "x \<in> S" "y \<in> L \<union> U" | "x \<in> L" "y \<in> S" | "x \<in> L" "y \<in> L \<union> U" using assms(2,3) by blast
  then show ?thesis
  proof cases
    case 1 then show ?thesis by (rule SS[OF _ _ assms(4)])
  next
    case 2 then show ?thesis by (rule SL)
  next
    case 3 then have "apart y x" using SL[of y x] by blast
    then show ?thesis by (rule apart_sym)
  next
    case 4 then show ?thesis by (rule LU[OF _ _ assms(4)])
  qed
qed

lemma pieces_not_used:
  assumes "pool_ok p U S L" "x \<in> S \<union> L"
  shows "x \<notin> U"
proof
  assume U: "x \<in> U"
  note I = pool_okD(2)[OF assms(1)]
  have dj: "U \<inter> L = {}" "U \<inter> block_regions p = {}" using I by (simp_all add: pool_inv_def live_inv_def)
  then have S: "x \<in> S" using assms(2) U by blast
  obtain r where r: "r \<in> block_regions p" "fst r \<le> fst x" "fst x + snd x \<le> fst r + snd r" using small_in_region[OF assms(1) S] by blast
  have "r \<noteq> x" "x \<in> set (live p)" "r \<in> set (live p)" using r(1) U dj pool_invD(15)[OF I] by blast+
  then have "apart r x" using pool_invD(16)[OF I] by blast
  then have "apart x x" using r(2,3) by (rule apart_sub)
  moreover have "0 < snd x" using pool_invD(9)[OF I] S by blast
  ultimately show False by (simp add: apart_def)
qed

subsection \<open>A client\<close>

text \<open>
  A client allocates, gives one of the pieces back that it holds, or gives up all of them. It runs over any
  store of pieces; the store of this file is the pool.
\<close>

datatype client_op = Malloc nat | Free nat | Reset

fun client :: "('s \<Rightarrow> nat \<Rightarrow> (nat \<times> 's) option) \<Rightarrow> ('s \<Rightarrow> nat \<Rightarrow> 's option) \<Rightarrow> ('s \<Rightarrow> 's option)
    \<Rightarrow> client_op list \<Rightarrow> 's \<Rightarrow> (nat \<times> nat) list \<Rightarrow> ('s \<times> (nat \<times> nat) list) option" where
  "client al fr re [] s H = Some (s, H)"
| "client al fr re (Malloc n # ops) s H = al s n \<bind> (\<lambda>(a, s). client al fr re ops s ((a, n) # H))"
| "client al fr re (Free k # ops) s H =
     (if k < length H then fr s (fst (H ! k)) \<bind> (\<lambda>s. client al fr re ops s (take k H @ drop (k + 1) H))
      else client al fr re ops s H)"
| "client al fr re (Reset # ops) s H = re s \<bind> (\<lambda>s. client al fr re ops s [])"

definition op_ok :: "(nat \<Rightarrow> bool) \<Rightarrow> client_op \<Rightarrow> bool" where
  "op_ok P x = (case x of Malloc n \<Rightarrow> P n | _ \<Rightarrow> True)"

lemma op_ok_Malloc [simp]: "op_ok P (Malloc n) \<longleftrightarrow> P n"
  by (simp add: op_ok_def)

locale piece_store =
  fixes al :: "'s \<Rightarrow> nat \<Rightarrow> (nat \<times> 's) option" and fr :: "'s \<Rightarrow> nat \<Rightarrow> 's option" and re :: "'s \<Rightarrow> 's option"
    and good :: "'s \<Rightarrow> (nat \<times> nat) set \<Rightarrow> bool" and fits :: "nat \<Rightarrow> bool"
  assumes al_ok: "good s X \<Longrightarrow> fits n \<Longrightarrow> \<exists>a s'. al s n = Some (a, s') \<and> (a, n) \<notin> X \<and> good s' (insert (a, n) X)"
    and fr_ok: "good s X \<Longrightarrow> (a, n) \<in> X \<Longrightarrow> \<exists>s'. fr s a = Some s' \<and> good s' (X - {(a, n)})"
    and re_ok: "good s X \<Longrightarrow> \<exists>s'. re s = Some s' \<and> good s' {}"
begin

lemma free_nth:
  assumes "good s (set H)" "distinct H" "k < length H"
  shows "\<exists>s'. fr s (fst (H ! k)) = Some s' \<and> good s' (set (take k H @ drop (k + 1) H)) \<and> distinct (take k H @ drop (k + 1) H)"
proof -
  obtain a n where an: "H ! k = (a, n)" by (cases "H ! k")
  let ?H = "take k H @ drop (k + 1) H"
  have H: "H = take k H @ (a, n) # drop (k + 1) H" using id_take_nth_drop[OF assms(3)] an by simp
  then have "distinct (take k H @ (a, n) # drop (k + 1) H)" using assms(2) by simp
  then have d: "distinct ?H" "(a, n) \<notin> set ?H" by auto
  have "insert (a, n) (set ?H) = set H" by (subst (3) H) auto
  then have "set H - {(a, n)} = set ?H" using d(2) by blast
  then show ?thesis using fr_ok[OF assms(1), of a n] nth_mem[OF assms(3)] an d(1) by auto
qed

lemma client_ok:
  assumes "good s (set H)" "distinct H" "\<forall>x\<in>set ops. op_ok fits x"
  shows "\<exists>s' H'. client al fr re ops s H = Some (s', H') \<and> good s' (set H') \<and> distinct H'"
  using assms
proof (induction ops arbitrary: s H)
  case Nil
  then show ?case by simp
next
  case (Cons x ops)
  show ?case
  proof (cases x)
    case (Malloc n)
    then obtain a s' where m: "al s n = Some (a, s')" "(a, n) \<notin> set H" "good s' (set ((a, n) # H))"
      using al_ok[OF Cons.prems(1), of n] Cons.prems(3) by auto
    from Cons.IH[OF m(3)] show ?thesis using Malloc m(1,2) Cons.prems(2,3) by simp
  next
    case (Free k)
    then show ?thesis using free_nth[OF Cons.prems(1,2), of k] Cons.IH Cons.prems by (cases "k < length H") auto
  next
    case Reset
    obtain s' where r: "re s = Some s'" "good s' (set [])" using re_ok[OF Cons.prems(1)] by auto
    from Cons.IH[OF r(2)] show ?thesis using Reset r(1) Cons.prems(3) by simp
  qed
qed

end

definition pool_good :: "memalign \<Rightarrow> nat \<Rightarrow> (nat \<times> nat) set \<Rightarrow> mp_pool \<Rightarrow> (nat \<times> nat) set \<Rightarrow> bool" where
  "pool_good mal bs U p X \<longleftrightarrow> mem_ok mal \<and> block_size p = bs \<and> (\<exists>S L. X = S \<union> L \<and> pool_ok p U S L)"

interpretation mp: piece_store "\<lambda>p n. mp_malloc mal junk p n" mp_free mp_reset_pool "pool_good mal bs U" "pool_fits bs junk" for mal junk bs U
proof
  fix p X n
  assume "pool_good mal bs U p X" "pool_fits bs junk n"
  then obtain S L where K: "mem_ok mal" "block_size p = bs" "X = S \<union> L" "pool_ok p U S L" "pool_fits (block_size p) junk n"
    unfolding pool_good_def by blast
  obtain a p' S' L' where m: "mp_malloc mal junk p n = Some (a, p')" "(a, n) \<notin> S \<union> L" "block_size p' = block_size p"
    "pool_ok p' U S' L'" "S' \<union> L' = insert (a, n) (S \<union> L)" using malloc_new[OF K(4,1,5)] by blast
  then have "pool_good mal bs U p' (insert (a, n) X)" using K(1-3) unfolding pool_good_def by metis
  then show "\<exists>a p'. mp_malloc mal junk p n = Some (a, p') \<and> (a, n) \<notin> X \<and> pool_good mal bs U p' (insert (a, n) X)"
    using m(1,2) K(3) by blast
next
  fix p X a n
  assume "pool_good mal bs U p X" and x: "(a, n) \<in> X"
  then obtain S L where K: "mem_ok mal" "block_size p = bs" "X = S \<union> L" "pool_ok p U S L" unfolding pool_good_def by blast
  then obtain p' where "mp_free p a = Some p'" "pool_ok p' U (S - {(a, n)}) (L - {(a, n)})" "block_size p' = block_size p"
    using free_ok[OF K(4)] x by blast
  moreover have "X - {(a, n)} = (S - {(a, n)}) \<union> (L - {(a, n)})" using K(3) by blast
  ultimately show "\<exists>p'. mp_free p a = Some p' \<and> pool_good mal bs U p' (X - {(a, n)})" using K(1,2) unfolding pool_good_def by auto
next
  fix p X
  assume "pool_good mal bs U p X"
  then show "\<exists>p'. mp_reset_pool p = Some p' \<and> pool_good mal bs U p' {}"
    using reset_ok unfolding pool_good_def by (metis Un_empty)
qed

end
