(* ===== verification/MemPool_Props.thy ===== *)
theory MemPool_Props
  imports MemPool_Client
begin

text \<open>What the pool promises, and what it does outside of the promise.\<close>

subsection \<open>Inside of the promise\<close>

text \<open>
  C29. A session: a client takes pieces, of sizes that leave eight bytes of a block for the header, whatever
  memory holds, or of sizes above the block size, if the memory of a new descriptor begins with zeros
  (the code never sets its \<^verbatim>\<open>next\<close>; see \<open>first_bucket_wild\<close>); it gives pieces back, and all of them at
  once, in any order. Then no operation fails, what it holds never overlaps, and destroying the pool
  leaves exactly what was allocated before it. The sizes between the two are those of \<open>mp_malloc_overrun\<close>.
\<close>

theorem pool_session:
  assumes "heap_ok used" "mem_ok mal" "MP_MIN_BLK_SIZE \<le> sz" "\<forall>x\<in>set ops. op_ok (pool_fits (min sz MP_PAGE_SIZE) junk) x"
  shows "\<exists>p q H l. mp_create_pool mal used sz cl = Some p
    \<and> client (mp_malloc mal junk) mp_free mp_reset_pool ops p [] = Some (q, H)
    \<and> distinct H \<and> (\<forall>x\<in>set H. \<forall>y\<in>set H \<union> set used. x \<noteq> y \<longrightarrow> apart x y)
    \<and> mp_destroy_pool q = Some l \<and> distinct l \<and> set l = set used"
proof -
  obtain p where p: "mp_create_pool mal used sz cl = Some p" "pool_ok p (set used) {} {}" "block_size p = min sz MP_PAGE_SIZE"
    using mp_create_ok[OF assms(1-3)] by blast
  then have "pool_good mal (min sz MP_PAGE_SIZE) (set used) p (set [])" using assms(2) by (auto simp: pool_good_def)
  from mp.client_ok[OF this _ assms(4)] obtain q H where
    q: "client (mp_malloc mal junk) mp_free mp_reset_pool ops p [] = Some (q, H)" "distinct H"
      "pool_good mal (min sz MP_PAGE_SIZE) (set used) q (set H)" by auto
  then obtain S L where K: "pool_ok q (set used) S L" "set H = S \<union> L" unfolding pool_good_def by blast
  obtain l where l: "mp_destroy_pool q = Some l" "set l = set used" "distinct l" using destroy_ok[OF K(1)] by blast
  have "\<forall>x\<in>set H. \<forall>y\<in>set H \<union> set used. x \<noteq> y \<longrightarrow> apart x y" unfolding K(2) using pieces_apart[OF K(1)] by blast
  then show ?thesis using p(1) q(1,2) l by blast
qed

lemma pool_session_witness:
  "(\<exists>p q H l. mp_create_pool bump [(1, 8)] 128 True = Some p
    \<and> client (mp_malloc bump (False, 0)) mp_free mp_reset_pool
        [Malloc 100, Malloc 500, Malloc 24, Free 1, Malloc 400, Reset, Malloc 7] p [] = Some (q, H)
    \<and> distinct H \<and> (\<forall>x\<in>set H. \<forall>y\<in>set H \<union> set [(1, 8)]. x \<noteq> y \<longrightarrow> apart x y)
    \<and> mp_destroy_pool q = Some l \<and> distinct l \<and> set l = set [(1, 8)])
   \<and> (\<exists>p q H l. mp_create_pool bump [(1, 8)] 128 True = Some p
    \<and> client (mp_malloc bump (True, 77)) mp_free mp_reset_pool [Malloc 100, Malloc 120, Free 1, Malloc 60] p [] = Some (q, H)
    \<and> distinct H \<and> (\<forall>x\<in>set H. \<forall>y\<in>set H \<union> set [(1, 8)]. x \<noteq> y \<longrightarrow> apart x y)
    \<and> mp_destroy_pool q = Some l \<and> distinct l \<and> set l = set [(1, 8)])"
  by (rule conjI; rule pool_session[OF _ bump_ok])
    (simp_all add: heap_ok_def MP_MIN_BLK_SIZE_def MP_PAGE_SIZE_def PIECE_def op_ok_def pool_fits_def)

text \<open>
  C30. A piece that \<^verbatim>\<open>mp_malloc\<close> hands out is new, and does not overlap what the client holds or others have
  allocated; the pool stays well formed. The size leaves eight bytes of a block for the header, or it
  is above the block size and the memory of a new descriptor begins with a null pointer.
\<close>

theorem mp_malloc_new_piece:
  assumes "pool_ok p U S L" "mem_ok mal" "pool_fits (block_size p) junk n"
  shows "\<exists>a p' S' L'. mp_malloc mal junk p n = Some (a, p') \<and> 0 < a \<and> pool_ok p' U S' L'
    \<and> S' \<union> L' = insert (a, n) (S \<union> L) \<and> (\<forall>x\<in>S \<union> L \<union> U. apart (a, n) x)"
proof -
  obtain a p' S' L' where m: "mp_malloc mal junk p n = Some (a, p')" "0 < a" "(a, n) \<notin> S \<union> L"
    and K: "pool_ok p' U S' L'" "S' \<union> L' = insert (a, n) (S \<union> L)" using malloc_new[OF assms] by blast
  have "(a, n) \<notin> U" using pieces_not_used[OF K(1)] K(2) by blast
  then have "apart (a, n) x" if "x \<in> S \<union> L \<union> U" for x
    using pieces_apart[OF K(1), of "(a, n)" x] K(2) that m(3) by blast
  then show ?thesis using m(1,2) K by blast
qed

lemma demo_pool: "\<exists>p. mp_create_pool bump [] 128 True = Some p \<and> pool_ok p {} {} {} \<and> block_size p = 128"
  using mp_create_ok[of "[]" bump 128 True] bump_ok by (simp add: heap_ok_def MP_MIN_BLK_SIZE_def MP_PAGE_SIZE_def)

lemma mp_malloc_new_piece_witness:
  "\<exists>p a p' S' L'. mp_create_pool bump [] 128 True = Some p \<and> mp_malloc bump (True, 0) p 100 = Some (a, p') \<and> 0 < a
    \<and> pool_ok p' {} S' L' \<and> S' \<union> L' = {(a, 100)}"
proof -
  obtain p where p: "mp_create_pool bump [] 128 True = Some p" "pool_ok p {} {} {}" "block_size p = 128" using demo_pool by blast
  have "pool_fits (block_size p) (True, 0) 100" using p(3) by (simp add: pool_fits_def PIECE_def)
  from mp_malloc_new_piece[OF p(2) bump_ok this] show ?thesis using p(1) by auto
qed

text \<open>A piece that is given back leaves what the client holds, and nothing else changes for the client.\<close>

theorem mp_free_piece:
  assumes "pool_ok p U S L" "(a, n) \<in> S \<union> L"
  shows "\<exists>p'. mp_free p a = Some p' \<and> pool_ok p' U (S - {(a, n)}) (L - {(a, n)})"
  using free_ok[OF assms] by blast

lemma mp_free_piece_witness:
  "\<exists>p a p' q. mp_create_pool bump [] 128 True = Some p \<and> mp_malloc bump (False, 0) p 100 = Some (a, p')
    \<and> mp_free p' a = Some q \<and> pool_ok q {} {} {}"
proof -
  obtain p where p: "mp_create_pool bump [] 128 True = Some p" "pool_ok p {} {} {}" "block_size p = 128" using demo_pool by blast
  then obtain a p' where m: "mp_malloc bump (False, 0) p 100 = Some (a, p')" "pool_ok p' {} {(a, 100)} {}"
    using malloc_small[OF p(2) bump_ok, of 100 "(False, 0)"] by auto
  from mp_free_piece[OF m(2), of a 100] p(1) m(1) show ?thesis by auto
qed

subsection \<open>Outside of the promise\<close>

text \<open>
  C31. A size within a header of the block size passes the test of \<^verbatim>\<open>mp_malloc\<close> and is cut from a fresh block that
  is too small for it: the piece ends behind the block, and the block then claims to have almost all
  the address space left.
\<close>

theorem mp_malloc_overrun:
  assumes "mp_create_pool mal used sz cl = Some p" "mem_ok mal" "n \<le> block_size p" "block_size p < n + PIECE"
  shows "\<exists>a p'. mp_malloc mal junk p n = Some (a, p') \<and> end_of_block (last (blocks p')) < a + n
    \<and> 2 ^ 64 - int PIECE \<le> int (rest_block_space (last (blocks p')))"
proof -
  obtain a0 where p: "p = \<lparr>pool_addr = a0, block_size = block_size p, current_block = Some 0, auto_clear = cl,
      blocks = [init_a_new_block (block_size p) (a0 + POOL)], buckets = [], wild = False, owner = (\<lambda>_. None), live = live p\<rparr>"
    and sz: "128 \<le> block_size p" "block_size p \<le> 4096"
    using assms(1) unfolding mp_create_pool_def by (auto simp: Let_def MP_MIN_BLK_SIZE_def MP_PAGE_SIZE_def split: if_splits option.splits)
  obtain a where a: "mal (live p) (block_size p + BLOCK) = Some a" using mem_okD[OF assms(2), of "block_size p + BLOCK" "live p"] by (auto simp: BLOCK_def)
  let ?c = "init_a_new_block (block_size p) (a0 + POOL)"
  let ?b = "init_a_new_block (block_size p) a"
  have n: "n \<noteq> 0" "n \<le> block_size p" "block_size p < n + 8" using assms(3,4) sz by (auto simp: PIECE_def)
  have cur: "current_block p = Some 0" "blocks p = [?c]" by (subst p, simp)+
  have sp: "rest_block_space ?c = block_size p" using sz by (simp add: rest_block_space_def init_a_new_block_def size_t_int)
  let ?p = "p\<lparr>blocks := [?c\<lparr>failed_time := 1\<rparr>]\<rparr>"
  have f: "failed_time ?c = 0" by (simp add: init_a_new_block_def)
  have w: "piece_while p 0 (n + PIECE) = Some (None, ?p)"
    using n(3) by (subst piece_while.simps, subst piece_while.simps) (simp add: cur sp f PIECE_def Let_def MP_MAX_BLOCK_FAIL_TIME_def)
  let ?q = "?p\<lparr>live := (a, block_size p + BLOCK) # live p, blocks := [?c\<lparr>failed_time := 1\<rparr>, ?b]\<rparr>"
  have mb: "malloc_a_block mal ?p = Some (Some 1, ?q)" using a cur by (simp add: malloc_a_block_def Let_def)
  let ?d = "?b\<lparr>start_of_rest := a + BLOCK + (n + PIECE), ref_counter := 1\<rparr>"
  have cp: "\<exists>p'. cut_piece ?q 1 (n + PIECE) = Some (a + BLOCK + PIECE, p') \<and> last (blocks p') = ?d"
    by (simp add: cut_piece_def Let_def init_a_new_block_def)
  have "end_of_block ?d = a + BLOCK + block_size p" "start_of_rest ?d = a + BLOCK + (n + PIECE)" by (simp_all add: init_a_new_block_def)
  then have "int (rest_block_space ?d) = (int (block_size p) - int n - 8) mod 2 ^ 64"
    by (simp add: rest_block_space_def size_t_def PIECE_def algebra_simps)
  moreover have "int (block_size p) - int n - 8 + 2 ^ 64 = (int (block_size p) - int n - 8) mod 2 ^ 64"
  proof -
    have "(int (block_size p) - int n - 8 + 2 ^ 64) mod 2 ^ 64 = int (block_size p) - int n - 8 + 2 ^ 64"
      using n(2,3) by (intro mod_pos_pos_trivial) simp_all
    then show ?thesis using mod_add_self2[of "int (block_size p) - int n - 8" "2 ^ 64"] by (simp only:)
  qed
  ultimately have "2 ^ 64 - int PIECE \<le> int (rest_block_space ?d)" using n(2) unfolding PIECE_def by linarith
  moreover have "end_of_block ?d < a + BLOCK + PIECE + n" using n(3) by (simp add: init_a_new_block_def PIECE_def)
  ultimately show ?thesis using cp w mb cur(1) n(1,2) by (fastforce simp: mp_malloc_def malloc_a_piece_def Let_def)
qed

lemma mp_malloc_overrun_witness:
  "\<exists>p a p'. mp_create_pool bump [] 128 True = Some p \<and> mp_malloc bump (False, 0) p 124 = Some (a, p')
    \<and> end_of_block (last (blocks p')) < a + 124 \<and> 2 ^ 64 - int PIECE \<le> int (rest_block_space (last (blocks p')))"
proof -
  obtain p where p: "mp_create_pool bump [] 128 True = Some p" "block_size p = 128" using demo_pool by blast
  then have "124 \<le> block_size p" "block_size p < 124 + PIECE" by (simp_all add: PIECE_def)
  from mp_malloc_overrun[OF p(1) bump_ok this] p(1) show ?thesis by blast
qed

text \<open>
  When the last block has refused for the fourth time and no memory is left for another, no block is the
  current one: the next small allocation follows a null pointer as soon as there is memory again.
\<close>

theorem mp_malloc_no_current:
  assumes "current_block p = Some (length (blocks p) - 1)" "blocks p \<noteq> []" "MP_MAX_BLOCK_FAIL_TIME - 1 \<le> failed_time (last (blocks p))"
    "rest_block_space (last (blocks p)) < n + PIECE" "0 < n" "n \<le> block_size p"
    "none (live p) (block_size p + BLOCK) = None" "mal (live p) (block_size p + BLOCK) = Some a"
  shows "\<exists>p'. mp_malloc none junk p n = Some (0, p') \<and> current_block p' = None \<and> mp_malloc mal junk p' n = None"
proof -
  let ?i = "length (blocks p) - 1"
  have l: "blocks p ! ?i = last (blocks p)" "\<not> length (blocks p) \<le> ?i" "Suc ?i = length (blocks p)"
    using assms(2) by (simp_all add: last_conv_nth Suc_le_eq flip: length_greater_0_conv)
  let ?b = "last (blocks p)"
  let ?q = "p\<lparr>blocks := (blocks p)[?i := ?b\<lparr>failed_time := failed_time ?b + 1\<rparr>], current_block := None\<rparr>"
  have "piece_while p ?i (n + PIECE) = piece_while ?q (?i + 1) (n + PIECE)"
    using assms(3,4) l by (subst piece_while.simps) (simp add: Let_def MP_MAX_BLOCK_FAIL_TIME_def)
  also have "\<dots> = Some (None, ?q)" using l(3) by (subst piece_while.simps) simp
  finally obtain q where q: "piece_while p ?i (n + PIECE) = Some (None, q)" "current_block q = None" "live q = live p" "block_size q = block_size p"
    by simp
  have "mp_malloc none junk p n = Some (0, q)"
    using q assms(1,5-7) by (simp add: mp_malloc_def malloc_a_piece_def Let_def malloc_a_block_def)
  moreover have "mp_malloc mal junk q n = None"
    using q assms(5,6,8) by (simp add: mp_malloc_def malloc_a_piece_def Let_def malloc_a_block_def)
  ultimately show ?thesis using q(2) by blast
qed

definition full_pool :: mp_pool where
  "full_pool = \<lparr>pool_addr = 1, block_size = 128, current_block = Some 0, auto_clear = False,
     blocks = [\<lparr>base = 33, start_of_rest = 161, end_of_block = 193, failed_time = 3, ref_counter = 1\<rparr>],
     buckets = [], wild = False, owner = [73 \<mapsto> 0], live = [(1, 192)]\<rparr>"

lemma mp_malloc_no_current_witness:
  "\<exists>p'. mp_malloc (\<lambda>_ _. None) (False, 0) full_pool 32 = Some (0, p') \<and> current_block p' = None
    \<and> mp_malloc bump (False, 0) p' 32 = None"
  using mp_malloc_no_current[of full_pool 32 "\<lambda>_ _. None" bump "1 + sum_list (map (\<lambda>r. fst r + snd r) (live full_pool))" "(False, 0)"]
  by (simp add: full_pool_def bump_def MP_MAX_BLOCK_FAIL_TIME_def PIECE_def rest_block_space_def size_t_def)

lemma piece_while_same: "piece_while p i n = Some (r, q) \<Longrightarrow> buckets q = buckets p \<and> block_size q = block_size p"
proof (induction p i n rule: piece_while.induct)
  case (1 p i n)
  show ?case
  proof (cases "i < length (blocks p) \<and> rest_block_space (blocks p ! i) < n")
    case True
    let ?p = "p\<lparr>blocks := (blocks p)[i := (blocks p ! i)\<lparr>failed_time := failed_time (blocks p ! i) + 1\<rparr>]\<rparr>"
    let ?q = "if failed_time (blocks p ! i) + 1 \<ge> MP_MAX_BLOCK_FAIL_TIME
      then ?p\<lparr>current_block := (if i + 1 < length (blocks ?p) then Some (i + 1) else None)\<rparr> else ?p"
    have "piece_while p i n = piece_while ?q (i + 1) n" using True by (subst piece_while.simps) (simp add: Let_def)
    then have "piece_while ?q (i + 1) n = Some (r, q)" using 1(2) by simp
    moreover have "buckets ?q = buckets p" "block_size ?q = block_size p" by simp_all
    ultimately show ?thesis using 1(1)[OF _ _ refl refl refl refl] True by (auto simp: Let_def)
  next
    case False
    then show ?thesis using 1(2) by (subst (asm) piece_while.simps) (auto simp: cut_piece_def Let_def bind_eq_Some_conv split: if_splits)
  qed
qed

lemma malloc_a_piece_same: "malloc_a_piece mal p n = Some (a, q) \<Longrightarrow> buckets q = buckets p \<and> block_size q = block_size p"
  by (auto simp: malloc_a_piece_def malloc_a_block_def cut_piece_def Let_def bind_eq_Some_conv dest!: piece_while_same split: option.splits)

text \<open>
  The first large piece of a pool gets a descriptor whose \<^verbatim>\<open>next\<close> is what the block held: unless that is null, the
  next large allocation, the freeing of a small piece and the end of the pool follow it.
\<close>

theorem first_bucket_wild:
  assumes "buckets p = []" "\<not> wild p" "fst junk" "block_size p < n" "mp_malloc mal junk p n = Some (a, p')" "a \<noteq> 0"
  shows "(\<forall>m. block_size p < m \<longrightarrow> mp_malloc mal' junk' p' m = None) \<and> (\<forall>x. x \<noteq> 0 \<longrightarrow> x \<noteq> a \<longrightarrow> mp_free p' x = None)
    \<and> mp_destroy_pool p' = None"
proof -
  obtain d q where q: "malloc_a_piece mal p BUCKET = Some (d, q)"
    "p' = q\<lparr>wild := True, live := (a, n) # live q, buckets := [\<lparr>baddr = d, still_in_use = True, start_of_bucket = a\<rparr>]\<rparr>"
    using assms malloc_a_piece_same
    by (auto simp: mp_malloc_def malloc_a_bucket_def get_bucket_def bind_eq_Some_conv add_ref_def split: if_splits option.splits)
  then have p': "wild p'" "buckets p' = [\<lparr>baddr = d, still_in_use = True, start_of_bucket = a\<rparr>]" "block_size p' = block_size p"
    using malloc_a_piece_same[OF q(1)] by simp_all
  have "mp_malloc mal' junk' p' m = None" if "block_size p < m" for m
    using p' assms(6) that by (simp add: mp_malloc_def malloc_a_bucket_def get_bucket_def)
  moreover have "mp_free p' x = None" if "x \<noteq> 0" "x \<noteq> a" for x
    using p' that by (simp add: mp_free_def find_bucket_with_addr_def)
  moreover have "mp_destroy_pool p' = None"
    using p' assms(6) by (cases "mfree p' a") (auto simp: mp_destroy_pool_def mp_reset_pool_def mfree_def split: option.splits)
  ultimately show ?thesis by blast
qed

lemma first_bucket_wild_witness:
  "\<exists>a p'. mp_malloc bump (True, 0) full_pool 200 = Some (a, p') \<and> mp_malloc bump (False, 0) p' 300 = None
    \<and> mp_free p' 73 = None \<and> mp_destroy_pool p' = None"
proof -
  have "\<exists>a p'. mp_malloc bump (True, 0) full_pool 200 = Some (a, p') \<and> a \<noteq> 0 \<and> a \<noteq> 73"
    by (simp add: mp_malloc_def malloc_a_bucket_def get_bucket_def malloc_a_piece_def malloc_a_block_def full_pool_def piece_while.simps
      cut_piece_def init_a_new_block_def bump_def Let_def mp_sizes rest_block_space_def size_t_def MP_MAX_BLOCK_FAIL_TIME_def)
  then obtain a p' where m: "mp_malloc bump (True, 0) full_pool 200 = Some (a, p')" "a \<noteq> 0" "a \<noteq> 73" by blast
  have f: "buckets full_pool = []" "\<not> wild full_pool" "block_size full_pool < 200" "block_size full_pool < 300" by (simp_all add: full_pool_def)
  have "fst (True, 0::nat)" by simp
  from first_bucket_wild[OF f(1,2) this f(3) m(1,2), of bump "(False, 0)"] m(1,3) f(4) show ?thesis by simp
qed

end
