(* ===== verification/Deadlock.thy ===== *)
theory Deadlock
  imports Prelude
begin

text \<open>
  \<^verbatim>\<open>11_deadlock_detector/deadlock_detector.c\<close>: the graph of threads and mutexes that the hooks of
  \<^verbatim>\<open>pthread_mutex_lock\<close> and \<^verbatim>\<open>pthread_mutex_unlock\<close> keep, and the detector that looks for a cycle.
  A vertex or a lock record is an index into the memory of its type, a freed record is
  \<^term>\<open>None\<close>. The chain of the \<^verbatim>\<open>next\<close> pointers after the head node is a list of such indices.
  Every function runs between locking and unlocking \<^verbatim>\<open>graph.mutex\<close>, so it is atomic. \<open>None\<close> is a
  failed assertion, an access to freed memory or a loop that never ends.
\<close>

subsection \<open>The graph\<close>

record vertex =
  tid :: nat
  waitting :: "nat option"
  visited :: int

record resource_lock =
  holder :: "nat option"
  lock :: nat
  used :: int

record task_graph =
  vertex_list :: "nat list"
  lock_list :: "nat list"
  vmem :: "vertex list"
  lmem :: "resource_lock option list"

definition empty_graph :: task_graph where
  "empty_graph = \<lparr>vertex_list = [], lock_list = [], vmem = [], lmem = []\<rparr>"

definition lderef :: "task_graph \<Rightarrow> nat \<Rightarrow> resource_lock option" where
  "lderef g l = rd (lmem g) l \<bind> (\<lambda>r. r)"

text \<open>\<open>mem n\<close> says whether \<^verbatim>\<open>malloc(n)\<close> succeeds.\<close>

definition add_vertex :: "(nat \<Rightarrow> bool) \<Rightarrow> task_graph \<Rightarrow> nat \<Rightarrow> nat option \<times> task_graph" where
  "add_vertex mem g t =
     (if mem 32 then (Some (length (vmem g)), g\<lparr>vmem := vmem g @ [\<lparr>tid = t, waitting = None, visited = 0\<rparr>]\<rparr>)
      else (None, g))"

definition add_lock :: "(nat \<Rightarrow> bool) \<Rightarrow> task_graph \<Rightarrow> nat \<Rightarrow> nat option \<times> task_graph" where
  "add_lock mem g m =
     (if mem 32 then (Some (length (lmem g)), g\<lparr>lmem := lmem g @ [Some \<lparr>holder = None, lock = m, used = 0\<rparr>]\<rparr>)
      else (None, g))"

definition add_relation_before_lock :: "task_graph \<Rightarrow> nat \<Rightarrow> nat \<Rightarrow> task_graph option" where
  "add_relation_before_lock g p l =
     rd (vmem g) p \<bind> (\<lambda>v. lderef g l \<bind> (\<lambda>r.
       Some (g\<lparr>vmem := (vmem g)[p := v\<lparr>waitting := Some l\<rparr>], lmem := (lmem g)[l := Some (r\<lparr>used := used r + 1\<rparr>)]\<rparr>)))"

definition become_holder_after_lock :: "task_graph \<Rightarrow> nat \<Rightarrow> nat \<Rightarrow> task_graph option" where
  "become_holder_after_lock g p l =
     rd (vmem g) p \<bind> (\<lambda>v. lderef g l \<bind> (\<lambda>r.
       Some (g\<lparr>lmem := (lmem g)[l := Some (r\<lparr>holder := Some p\<rparr>)], vmem := (vmem g)[p := v\<lparr>waitting := None\<rparr>]\<rparr>)))"

definition dereference_after_unlock :: "task_graph \<Rightarrow> nat \<Rightarrow> task_graph option" where
  "dereference_after_unlock g l =
     lderef g l \<bind> (\<lambda>r. Some (g\<lparr>lmem := (lmem g)[l := Some (r\<lparr>used := used r - 1, holder := None\<rparr>)]\<rparr>))"

definition get_wait_vertex :: "task_graph \<Rightarrow> nat \<Rightarrow> nat option option" where
  "get_wait_vertex g p =
     rd (vmem g) p \<bind> (\<lambda>v. case waitting v of
       None \<Rightarrow> Some None
     | Some l \<Rightarrow> lderef g l \<bind> (\<lambda>r. Some (holder r)))"

text \<open>The loops over the chains.\<close>

fun vertex_while :: "task_graph \<Rightarrow> nat \<Rightarrow> nat list \<Rightarrow> nat option option" where
  "vertex_while g t [] = Some None"
| "vertex_while g t (p # ps) = rd (vmem g) p \<bind> (\<lambda>v. if t = tid v then Some (Some p) else vertex_while g t ps)"

definition search_vertex :: "task_graph \<Rightarrow> nat \<Rightarrow> nat option option" where
  "search_vertex g t = vertex_while g t (vertex_list g)"

fun lock_while :: "task_graph \<Rightarrow> nat \<Rightarrow> nat list \<Rightarrow> nat option option" where
  "lock_while g m [] = Some None"
| "lock_while g m (l # ls) = lderef g l \<bind> (\<lambda>r. if m = lock r then Some (Some l) else lock_while g m ls)"

definition search_lock :: "task_graph \<Rightarrow> nat \<Rightarrow> nat option option" where
  "search_lock g m = lock_while g m (lock_list g)"

fun append_while :: "nat list \<Rightarrow> nat \<Rightarrow> nat list" where
  "append_while [] p = [p]"
| "append_while (q # qs) p = (if q = p then q # qs else q # append_while qs p)"

definition add_vertex_to_graph :: "task_graph \<Rightarrow> nat \<Rightarrow> task_graph" where
  "add_vertex_to_graph g p = g\<lparr>vertex_list := append_while (vertex_list g) p\<rparr>"

definition add_lock_to_graph :: "task_graph \<Rightarrow> nat \<Rightarrow> task_graph" where
  "add_lock_to_graph g l = g\<lparr>lock_list := append_while (lock_list g) l\<rparr>"

subsection \<open>The hooks\<close>

definition vertex_for :: "(nat \<Rightarrow> bool) \<Rightarrow> task_graph \<Rightarrow> nat \<Rightarrow> (nat \<times> task_graph) option" where
  "vertex_for mem g t =
     search_vertex g t \<bind> (\<lambda>v. case v of
       Some p \<Rightarrow> Some (p, g)
     | None \<Rightarrow> (case add_vertex mem g t of (None, g) \<Rightarrow> None | (Some p, g) \<Rightarrow> Some (p, add_vertex_to_graph g p)))"

definition lock_for :: "(nat \<Rightarrow> bool) \<Rightarrow> task_graph \<Rightarrow> nat \<Rightarrow> (nat \<times> task_graph) option" where
  "lock_for mem g m =
     search_lock g m \<bind> (\<lambda>v. case v of
       Some l \<Rightarrow> Some (l, g)
     | None \<Rightarrow> (case add_lock mem g m of (None, g) \<Rightarrow> None | (Some l, g) \<Rightarrow> Some (l, add_lock_to_graph g l)))"

definition before_lock :: "(nat \<Rightarrow> bool) \<Rightarrow> task_graph \<Rightarrow> nat \<Rightarrow> nat \<Rightarrow> task_graph option" where
  "before_lock mem g t m =
     vertex_for mem g t \<bind> (\<lambda>(p, g). lock_for mem g m \<bind> (\<lambda>(l, g). add_relation_before_lock g p l))"

definition after_lock :: "task_graph \<Rightarrow> nat \<Rightarrow> nat \<Rightarrow> task_graph option" where
  "after_lock g t m =
     search_vertex g t \<bind> (\<lambda>v. search_lock g m \<bind> (\<lambda>l. case (v, l) of
       (Some p, Some l) \<Rightarrow> become_holder_after_lock g p l
     | _ \<Rightarrow> None))"

text \<open>\<^verbatim>\<open>prev->next = node->next; free(lock)\<close>, when the record is in the chain.\<close>

fun unchain_while :: "nat list \<Rightarrow> nat \<Rightarrow> nat list option" where
  "unchain_while [] l = None"
| "unchain_while (k # ks) l = (if k = l then Some ks else map_option ((#) k) (unchain_while ks l))"

definition after_unlock :: "task_graph \<Rightarrow> nat \<Rightarrow> task_graph option" where
  "after_unlock g m =
     search_lock g m \<bind> (\<lambda>v. case v of
       None \<Rightarrow> None
     | Some l \<Rightarrow>
         dereference_after_unlock g l \<bind> (\<lambda>g. lderef g l \<bind> (\<lambda>r.
           if used r = 0
           then (case unchain_while (lock_list g) l of
                   None \<Rightarrow> Some g
                 | Some ls \<Rightarrow> Some (g\<lparr>lock_list := ls, lmem := (lmem g)[l := None]\<rparr>))
           else Some g)))"

subsection \<open>The detector\<close>

fun all_vertex_unvisited :: "task_graph \<Rightarrow> nat list \<Rightarrow> task_graph option" where
  "all_vertex_unvisited g [] = Some g"
| "all_vertex_unvisited g (p # ps) =
     rd (vmem g) p \<bind> (\<lambda>v. all_vertex_unvisited (g\<lparr>vmem := (vmem g)[p := v\<lparr>visited := 0\<rparr>]\<rparr>) ps)"

partial_function (option) search_cross :: "task_graph \<Rightarrow> nat \<Rightarrow> (nat option \<times> task_graph) option" where
  "search_cross g p =
     rd (vmem g) p \<bind> (\<lambda>v.
       if visited v = 1 then Some (Some p, g)
       else (let g = g\<lparr>vmem := (vmem g)[p := v\<lparr>visited := 1\<rparr>]\<rparr>
             in get_wait_vertex g p \<bind> (\<lambda>q. case q of None \<Rightarrow> Some (None, g) | Some q \<Rightarrow> search_cross g q)))"

text \<open>The threads that \<^verbatim>\<open>print_cycle\<close> prints.\<close>

partial_function (option) print_while :: "task_graph \<Rightarrow> nat \<Rightarrow> nat \<Rightarrow> nat list \<Rightarrow> nat list option" where
  "print_while g cross p out =
     rd (vmem g) p \<bind> (\<lambda>v. get_wait_vertex g p \<bind> (\<lambda>q. case q of
       None \<Rightarrow> None
     | Some q \<Rightarrow> if q \<noteq> cross then print_while g cross q (out @ [tid v])
                 else rd (vmem g) q \<bind> (\<lambda>w. Some (out @ [tid v, tid w]))))"

definition print_cycle :: "task_graph \<Rightarrow> nat \<Rightarrow> nat list option" where
  "print_cycle g cross = print_while g cross cross []"

fun skip_visited :: "task_graph \<Rightarrow> nat list \<Rightarrow> nat list option" where
  "skip_visited g [] = Some []"
| "skip_visited g (p # ps) = rd (vmem g) p \<bind> (\<lambda>v. if visited v \<noteq> 0 then skip_visited g ps else Some (p # ps))"

text \<open>One round of the detector: the cycle it prints, if any.\<close>

partial_function (option) detector_while :: "task_graph \<Rightarrow> nat list \<Rightarrow> (nat list option \<times> task_graph) option" where
  "detector_while g ps =
     (case ps of
        [] \<Rightarrow> Some (None, g)
      | p # _ \<Rightarrow>
          all_vertex_unvisited g (vertex_list g) \<bind> (\<lambda>g. search_cross g p \<bind> (\<lambda>(cross, g). case cross of
            Some c \<Rightarrow> print_cycle g c \<bind> (\<lambda>out. Some (Some out, g))
          | None \<Rightarrow> skip_visited g ps \<bind> (\<lambda>ps. detector_while g ps))))"

definition detector_round :: "task_graph \<Rightarrow> (nat list option \<times> task_graph) option" where
  "detector_round g = detector_while g (vertex_list g)"

subsection \<open>The program under observation\<close>

text \<open>
  Where a thread is: in the hook of \<^verbatim>\<open>pthread_mutex_lock\<close> between \<^verbatim>\<open>before_lock\<close> and the real lock
  (\<open>Waiting\<close>), between the real lock and \<^verbatim>\<open>after_lock\<close> (\<open>Acquired\<close>), in the hook of \<^verbatim>\<open>pthread_mutex_unlock\<close>
  between the real unlock and \<^verbatim>\<open>after_unlock\<close> (\<open>Unlocking\<close>), or elsewhere.
\<close>

datatype phase = Running | Waiting nat | Acquired nat | Unlocking nat

record sys =
  graph :: task_graph
  owner :: "nat \<Rightarrow> nat option"
  phase :: "nat \<Rightarrow> phase"

definition init_sys :: sys where
  "init_sys = \<lparr>graph = empty_graph, owner = (\<lambda>_. None), phase = (\<lambda>_. Running)\<rparr>"

inductive sys_step :: "sys \<Rightarrow> sys \<Rightarrow> bool" where
  before: "phase s t = Running \<Longrightarrow> before_lock mem (graph s) t m = Some g \<Longrightarrow>
    sys_step s (s\<lparr>graph := g, phase := (phase s)(t := Waiting m)\<rparr>)"
| acquire: "phase s t = Waiting m \<Longrightarrow> owner s m = None \<Longrightarrow>
    sys_step s (s\<lparr>owner := (owner s)(m := Some t), phase := (phase s)(t := Acquired m)\<rparr>)"
| after: "phase s t = Acquired m \<Longrightarrow> after_lock (graph s) t m = Some g \<Longrightarrow>
    sys_step s (s\<lparr>graph := g, phase := (phase s)(t := Running)\<rparr>)"
| release: "phase s t = Running \<Longrightarrow> owner s m = Some t \<Longrightarrow>
    sys_step s (s\<lparr>owner := (owner s)(m := None), phase := (phase s)(t := Unlocking m)\<rparr>)"
| after_un: "phase s t = Unlocking m \<Longrightarrow> after_unlock (graph s) m = Some g \<Longrightarrow>
    sys_step s (s\<lparr>graph := g, phase := (phase s)(t := Running)\<rparr>)"
| detect: "detector_round (graph s) = Some (out, g) \<Longrightarrow> sys_step s (s\<lparr>graph := g\<rparr>)"

inductive_cases sys_stepE: "sys_step s s'"

definition reachable :: "sys \<Rightarrow> bool" where
  "reachable s = sys_step\<^sup>*\<^sup>* init_sys s"

text \<open>A thread waits for another when the mutex that it waits for is owned by it.\<close>

definition waits_for :: "sys \<Rightarrow> nat \<Rightarrow> nat \<Rightarrow> bool" where
  "waits_for s t u \<longleftrightarrow> (\<exists>m. phase s t = Waiting m \<and> owner s m = Some u)"

lemmas deadlock_loops [code] = search_cross.simps print_while.simps detector_while.simps

end
