(* ===== verification/Deadlock_Graph.thy ===== *)
theory Deadlock_Graph
  imports Deadlock
begin

text \<open>
  The hooks of the detector on the graph, seen as two maps: what every thread waits for and, for
  every mutex in use, its holder and its number of users.
\<close>

subsection \<open>Well-formed graphs\<close>

definition known :: "task_graph \<Rightarrow> nat \<Rightarrow> nat \<Rightarrow> bool" where
  "known g t p \<longleftrightarrow> p < length (vmem g) \<and> tid (vmem g ! p) = t"

definition lock_at :: "task_graph \<Rightarrow> nat \<Rightarrow> nat \<Rightarrow> resource_lock \<Rightarrow> bool" where
  "lock_at g m l r \<longleftrightarrow> l \<in> set (lock_list g) \<and> lderef g l = Some r \<and> lock r = m"

definition graph_ok :: "task_graph \<Rightarrow> bool" where
  "graph_ok g \<longleftrightarrow> vertex_list g = [0..<length (vmem g)]
     \<and> (\<forall>t p q. known g t p \<longrightarrow> known g t q \<longrightarrow> p = q)
     \<and> distinct (lock_list g) \<and> (\<forall>l\<in>set (lock_list g). \<exists>r. lderef g l = Some r)
     \<and> (\<forall>m l l' r r'. lock_at g m l r \<longrightarrow> lock_at g m l' r' \<longrightarrow> l = l')
     \<and> (\<forall>p<length (vmem g). \<forall>l. waitting (vmem g ! p) = Some l \<longrightarrow> l \<in> set (lock_list g))
     \<and> (\<forall>m l r p. lock_at g m l r \<longrightarrow> holder r = Some p \<longrightarrow> p < length (vmem g))"

type_synonym waits = "nat \<Rightarrow> nat option option"
type_synonym locks = "nat \<Rightarrow> (nat option \<times> int) option"

definition represents :: "task_graph \<Rightarrow> waits \<Rightarrow> locks \<Rightarrow> bool" where
  "represents g W R \<longleftrightarrow>
     (\<forall>t. W t = None \<longleftrightarrow> (\<forall>p. \<not> known g t p))
     \<and> (\<forall>p<length (vmem g). case waitting (vmem g ! p) of
          None \<Rightarrow> W (tid (vmem g ! p)) = Some None
        | Some l \<Rightarrow> \<exists>m r. lock_at g m l r \<and> W (tid (vmem g ! p)) = Some (Some m))
     \<and> (\<forall>m. R m = None \<longleftrightarrow> (\<forall>l r. \<not> lock_at g m l r))
     \<and> (\<forall>m l r. lock_at g m l r \<longrightarrow> R m = Some (map_option (\<lambda>p. tid (vmem g ! p)) (holder r), used r))"

lemma lderef_bound: "lderef g l = Some r \<longleftrightarrow> l < length (lmem g) \<and> lmem g ! l = Some r"
  by (auto simp: lderef_def rd_def)

lemma lock_at_unique: "lock_at g m l r \<Longrightarrow> lock_at g m' l r' \<Longrightarrow> m = m' \<and> r = r'"
  by (auto simp: lock_at_def)

lemma represents_known: "represents g W R \<Longrightarrow> W t = None \<longleftrightarrow> (\<forall>p. \<not> known g t p)"
  unfolding represents_def by blast

lemma represents_idle: "represents g W R \<Longrightarrow> p < length (vmem g) \<Longrightarrow> waitting (vmem g ! p) = None \<Longrightarrow> W (tid (vmem g ! p)) = Some None"
  unfolding represents_def by (auto split: option.splits)

lemma represents_waiting:
  "represents g W R \<Longrightarrow> p < length (vmem g) \<Longrightarrow> waitting (vmem g ! p) = Some l \<Longrightarrow>
   \<exists>m r. lock_at g m l r \<and> W (tid (vmem g ! p)) = Some (Some m)"
  unfolding represents_def by (auto split: option.splits)

lemma represents_unused: "represents g W R \<Longrightarrow> R m = None \<longleftrightarrow> (\<forall>l r. \<not> lock_at g m l r)"
  unfolding represents_def by blast

lemma represents_lock: "represents g W R \<Longrightarrow> lock_at g m l r \<Longrightarrow> R m = Some (map_option (\<lambda>p. tid (vmem g ! p)) (holder r), used r)"
  unfolding represents_def by blast

lemma representsI:
  assumes "\<And>t. W t = None \<longleftrightarrow> (\<forall>p. \<not> known g t p)"
    and "\<And>p. p < length (vmem g) \<Longrightarrow> waitting (vmem g ! p) = None \<Longrightarrow> W (tid (vmem g ! p)) = Some None"
    and "\<And>p l. p < length (vmem g) \<Longrightarrow> waitting (vmem g ! p) = Some l \<Longrightarrow> \<exists>m r. lock_at g m l r \<and> W (tid (vmem g ! p)) = Some (Some m)"
    and "\<And>m. R m = None \<longleftrightarrow> (\<forall>l r. \<not> lock_at g m l r)"
    and "\<And>m l r. lock_at g m l r \<Longrightarrow> R m = Some (map_option (\<lambda>p. tid (vmem g ! p)) (holder r), used r)"
  shows "represents g W R"
  using assms unfolding represents_def by (auto split: option.split)

lemma ok_known: "graph_ok g \<Longrightarrow> known g t p \<Longrightarrow> known g t q \<Longrightarrow> p = q"
  unfolding graph_ok_def by blast

lemma ok_lock: "graph_ok g \<Longrightarrow> lock_at g m l r \<Longrightarrow> lock_at g m l' r' \<Longrightarrow> l = l'"
  unfolding graph_ok_def by blast

lemma ok_holder: "graph_ok g \<Longrightarrow> lock_at g m l r \<Longrightarrow> holder r = Some p \<Longrightarrow> p < length (vmem g)"
  unfolding graph_ok_def by blast

lemma ok_waitting: "graph_ok g \<Longrightarrow> p < length (vmem g) \<Longrightarrow> waitting (vmem g ! p) = Some l \<Longrightarrow> l \<in> set (lock_list g)"
  unfolding graph_ok_def by blast

lemma ok_lists: "graph_ok g \<Longrightarrow> vertex_list g = [0..<length (vmem g)]" "graph_ok g \<Longrightarrow> distinct (lock_list g)"
    "graph_ok g \<Longrightarrow> l \<in> set (lock_list g) \<Longrightarrow> \<exists>r. lderef g l = Some r"
  unfolding graph_ok_def by blast+

lemma graph_okI:
  assumes "vertex_list g = [0..<length (vmem g)]" and "\<And>t p q. known g t p \<Longrightarrow> known g t q \<Longrightarrow> p = q"
    and "distinct (lock_list g)" and "\<And>l. l \<in> set (lock_list g) \<Longrightarrow> \<exists>r. lderef g l = Some r"
    and "\<And>m l l' r r'. lock_at g m l r \<Longrightarrow> lock_at g m l' r' \<Longrightarrow> l = l'"
    and "\<And>p l. p < length (vmem g) \<Longrightarrow> waitting (vmem g ! p) = Some l \<Longrightarrow> l \<in> set (lock_list g)"
    and "\<And>m l r p. lock_at g m l r \<Longrightarrow> holder r = Some p \<Longrightarrow> p < length (vmem g)"
  shows "graph_ok g"
  using assms unfolding graph_ok_def by blast

lemma lock_other: "lock_at g m l r \<Longrightarrow> m' \<noteq> m \<Longrightarrow> lock_at g m' k r' \<Longrightarrow> k \<noteq> l"
  by (auto simp: lock_at_def)

subsection \<open>Searching\<close>

lemma vertex_while_spec:
  "\<forall>p\<in>set ps. p < length (vmem g) \<Longrightarrow>
   (\<exists>p\<in>set ps. vertex_while g t ps = Some (Some p) \<and> known g t p)
   \<or> vertex_while g t ps = Some None \<and> (\<forall>p\<in>set ps. \<not> known g t p)"
  by (induction ps) (auto simp: known_def)

lemma search_vertex_spec:
  assumes "graph_ok g"
  shows "(\<exists>p. search_vertex g t = Some (Some p) \<and> known g t p) \<or> search_vertex g t = Some None \<and> (\<forall>p. \<not> known g t p)"
  using vertex_while_spec[of "vertex_list g" g t] assms
  unfolding search_vertex_def graph_ok_def by (auto simp: known_def)

lemma lock_while_spec:
  "\<forall>l\<in>set ls. \<exists>r. lderef g l = Some r \<Longrightarrow>
   (\<exists>l\<in>set ls. \<exists>r. lock_while g m ls = Some (Some l) \<and> lderef g l = Some r \<and> lock r = m)
   \<or> lock_while g m ls = Some None \<and> (\<forall>l\<in>set ls. \<forall>r. lderef g l = Some r \<longrightarrow> lock r \<noteq> m)"
proof (induction ls)
  case (Cons k ls)
  then obtain r where r: "lderef g k = Some r" by auto
  show ?case
  proof (cases "m = lock r")
    case True
    then show ?thesis using r by auto
  next
    case False
    then show ?thesis using r Cons by auto
  qed
qed auto

lemma search_lock_spec:
  assumes "graph_ok g"
  shows "(\<exists>l r. search_lock g m = Some (Some l) \<and> lock_at g m l r)
    \<or> search_lock g m = Some None \<and> (\<forall>l r. \<not> lock_at g m l r)"
  using lock_while_spec[of "lock_list g" g m] assms
  unfolding search_lock_def graph_ok_def lock_at_def by blast

lemma append_while_new: "p \<notin> set ps \<Longrightarrow> append_while ps p = ps @ [p]"
  by (induction ps) auto

subsection \<open>Adding records\<close>

lemma vertex_for_spec:
  assumes ok: "graph_ok g" and rep: "represents g W R" and v: "vertex_for mem g t = Some (p, g')"
  shows "graph_ok g' \<and> represents g' (if W t = None then W(t \<mapsto> None) else W) R \<and> known g' t p"
  using search_vertex_spec[OF ok, of t]
proof (elim disjE exE conjE)
  fix q assume q: "search_vertex g t = Some (Some q)" "known g t q"
  then have "p = q" "g' = g" using v by (auto simp: vertex_for_def)
  moreover have "W t \<noteq> None" using represents_known[OF rep] q(2) by blast
  ultimately show ?thesis using q ok rep by (simp only: if_False)
next
  assume n: "search_vertex g t = Some None" "\<forall>p. \<not> known g t p"
  let ?v = "\<lparr>tid = t, waitting = None, visited = 0\<rparr>"
  have "length (vmem g) \<notin> set (vertex_list g)" using ok by (simp add: graph_ok_def)
  then have g': "g' = g\<lparr>vmem := vmem g @ [?v], vertex_list := vertex_list g @ [length (vmem g)]\<rparr>" and p: "p = length (vmem g)"
    using v n(1) append_while_new[of "length (vmem g)" "vertex_list g"]
    by (auto simp: vertex_for_def add_vertex_def add_vertex_to_graph_def split: if_splits)
  have la: "lock_at g' = lock_at g" "lderef g' = lderef g" by (auto simp: fun_eq_iff lock_at_def lderef_def g')
  have kn: "known g' u q \<longleftrightarrow> known g u q \<or> u = t \<and> q = p" for u q
    by (auto simp: known_def g' p nth_append less_Suc_eq)
  have vm: "q < length (vmem g) \<Longrightarrow> vmem g' ! q = vmem g ! q" "vmem g' ! p = ?v" "length (vmem g') = Suc p" for q
    by (auto simp: g' p nth_append)
  have W: "W t = None" using represents_known[OF rep] n(2) by blast
  have "graph_ok g'"
  proof (rule graph_okI; (unfold la kn)?)
    show "vertex_list g' = [0..<length (vmem g')]" using ok_lists(1)[OF ok] by (simp add: g')
    show "known g u q \<or> u = t \<and> q = p \<Longrightarrow> known g u q' \<or> u = t \<and> q' = p \<Longrightarrow> q = q'" for u q q'
      using ok_known[OF ok] n(2) by blast
    show "q < length (vmem g') \<Longrightarrow> waitting (vmem g' ! q) = Some l \<Longrightarrow> l \<in> set (lock_list g')" for q l
      using ok_waitting[OF ok, of q l] vm by (cases "q = p") (auto simp: g' p less_Suc_eq nth_append)
    show "lock_at g m l r \<Longrightarrow> holder r = Some q \<Longrightarrow> q < length (vmem g')" for m l r q
      using ok_holder[OF ok, of m l r q] by (simp add: g')
    show "distinct (lock_list g')" using ok_lists(2)[OF ok] by (simp add: g')
    show "l \<in> set (lock_list g') \<Longrightarrow> \<exists>r. lderef g l = Some r" for l using ok_lists(3)[OF ok] by (simp add: g')
    show "lock_at g m l r \<Longrightarrow> lock_at g m l' r' \<Longrightarrow> l = l'" for m l r l' r' using ok_lock[OF ok] by blast
  qed
  moreover have "represents g' (W(t \<mapsto> None)) R"
  proof (rule representsI; (unfold la kn)?)
    show "((W(t \<mapsto> None)) u = None) = (\<forall>q. \<not> (known g u q \<or> u = t \<and> q = p))" for u
      using represents_known[OF rep, of u] by auto
    have nt: "q < length (vmem g) \<Longrightarrow> tid (vmem g ! q) \<noteq> t" for q using n(2) by (auto simp: known_def)
    show "q < length (vmem g') \<Longrightarrow> waitting (vmem g' ! q) = None \<Longrightarrow> (W(t \<mapsto> None)) (tid (vmem g' ! q)) = Some None" for q
      using represents_idle[OF rep, of q] vm nt by (cases "q = p") (auto simp: p less_Suc_eq)
    show "q < length (vmem g') \<Longrightarrow> waitting (vmem g' ! q) = Some l \<Longrightarrow>
        \<exists>m r. lock_at g m l r \<and> (W(t \<mapsto> None)) (tid (vmem g' ! q)) = Some (Some m)" for q l
      using represents_waiting[OF rep, of q l] vm nt by (cases "q = p") (auto simp: p less_Suc_eq)
    show "(R m = None) = (\<forall>l r. \<not> lock_at g m l r)" for m using represents_unused[OF rep] .
    show "lock_at g m l r \<Longrightarrow> R m = Some (map_option (\<lambda>p. tid (vmem g' ! p)) (holder r), used r)" for m l r
      using represents_lock[OF rep, of m l r] ok_holder[OF ok, of m l r] vm(1) by (cases "holder r") auto
  qed
  ultimately show ?thesis using kn W by simp
qed

lemma lock_for_spec:
  assumes ok: "graph_ok g" and rep: "represents g W R" and v: "lock_for mem g m = Some (l, g')"
  shows "graph_ok g' \<and> represents g' W (if R m = None then R(m \<mapsto> (None, 0)) else R) \<and> (\<exists>r. lock_at g' m l r)
    \<and> known g' = known g"
  using search_lock_spec[OF ok, of m]
proof (elim disjE exE conjE)
  fix k r assume k: "search_lock g m = Some (Some k)" "lock_at g m k r"
  then have "l = k" "g' = g" using v by (auto simp: lock_for_def)
  moreover have "R m \<noteq> None" using represents_unused[OF rep] k(2) by blast
  ultimately show ?thesis using k ok rep by auto
next
  assume n: "search_lock g m = Some None" "\<forall>l r. \<not> lock_at g m l r"
  let ?r = "\<lparr>holder = None, lock = m, used = 0\<rparr>"
  have fresh: "length (lmem g) \<notin> set (lock_list g)" using ok by (auto simp: graph_ok_def lderef_bound)
  then have g': "g' = g\<lparr>lmem := lmem g @ [Some ?r], lock_list := lock_list g @ [length (lmem g)]\<rparr>" and l: "l = length (lmem g)"
    using v n(1) append_while_new[of "length (lmem g)" "lock_list g"]
    by (auto simp: lock_for_def add_lock_def add_lock_to_graph_def split: if_splits)
  have ld: "lderef g' k = (if k = l then Some ?r else lderef g k)" for k
    by (auto simp: lderef_def rd_def g' l nth_append)
  have la: "lock_at g' m' k r \<longleftrightarrow> lock_at g m' k r \<or> m' = m \<and> k = l \<and> r = ?r" for m' k r
    using fresh unfolding lock_at_def ld by (auto simp: g' l)
  have kn: "known g' = known g" by (auto simp: fun_eq_iff known_def g')
  have "graph_ok g'"
  proof (rule graph_okI; (unfold kn)?)
    show "l \<in> set (lock_list g') \<Longrightarrow> \<exists>r. lderef g' l = Some r" for l
      using ok_lists(3)[OF ok] unfolding ld by (auto simp: g' l)
    show "lock_at g' m l r \<Longrightarrow> lock_at g' m l' r' \<Longrightarrow> l = l'" for m l l' r r'
      using ok_lock[OF ok] n(2) unfolding la by blast
    show "lock_at g' m l r \<Longrightarrow> holder r = Some p \<Longrightarrow> p < length (vmem g')" for m l r p
      using ok_holder[OF ok] unfolding la by (auto simp: g')
    show "p < length (vmem g') \<Longrightarrow> waitting (vmem g' ! p) = Some l \<Longrightarrow> l \<in> set (lock_list g')" for p l
      using ok_waitting[OF ok] by (simp add: g')
    show "known g t p \<Longrightarrow> known g t q \<Longrightarrow> p = q" for t p q using ok_known[OF ok] .
  qed (use ok_lists[OF ok] fresh in \<open>auto simp: g'\<close>)
  moreover have "represents g' W (R(m \<mapsto> (None, 0)))"
  proof (rule representsI; (unfold kn)?)
    show "p < length (vmem g') \<Longrightarrow> waitting (vmem g' ! p) = Some l \<Longrightarrow>
        \<exists>m r. lock_at g' m l r \<and> W (tid (vmem g' ! p)) = Some (Some m)" for p l
      using represents_waiting[OF rep, of p l] unfolding la by (auto simp: g')
    show "lock_at g' m' k r \<Longrightarrow> (R(m \<mapsto> (None, 0))) m' = Some (map_option (\<lambda>p. tid (vmem g' ! p)) (holder r), used r)" for m' k r
      using represents_lock[OF rep, of m' k r] n(2) unfolding la by (auto simp: g')
    show "((R(m \<mapsto> (None, 0))) m' = None) = (\<forall>k r. \<not> lock_at g' m' k r)" for m'
      using represents_unused[OF rep, of m'] unfolding la by auto
    show "(W t = None) = (\<forall>p. \<not> known g t p)" for t using represents_known[OF rep] .
  qed (use represents_idle[OF rep] in \<open>simp add: g'\<close>)
  moreover have "R m = None" using represents_unused[OF rep] n(2) by blast
  ultimately show ?thesis using la kn by auto
qed

subsection \<open>Changing records\<close>

lemma wait_frame:
  assumes p: "known g t p" and g': "g' = g\<lparr>vmem := (vmem g)[p := (vmem g ! p)\<lparr>waitting := w\<rparr>]\<rparr>"
  shows "tid (vmem g' ! q) = tid (vmem g ! q)" "length (vmem g') = length (vmem g)"
    "waitting (vmem g' ! q) = (if q = p then w else waitting (vmem g ! q))"
    "lock_list g' = lock_list g" "vertex_list g' = vertex_list g" "lderef g' = lderef g"
    "known g' = known g" "lock_at g' = lock_at g"
proof -
  have pl: "p < length (vmem g)" using p by (simp add: known_def)
  show ti: "tid (vmem g' ! q) = tid (vmem g ! q)" "length (vmem g') = length (vmem g)" for q
    using pl by (auto simp: g' nth_list_update)
  show "waitting (vmem g' ! q) = (if q = p then w else waitting (vmem g ! q))"
    using pl by (auto simp: g' nth_list_update)
  show ll: "lock_list g' = lock_list g" "vertex_list g' = vertex_list g" "lderef g' = lderef g"
    by (simp_all add: g' lderef_def fun_eq_iff)
  show "lock_at g' = lock_at g" by (simp add: fun_eq_iff lock_at_def ll)
  show "known g' = known g" by (simp add: fun_eq_iff known_def ti)
qed

lemma wait_ok:
  assumes ok: "graph_ok g" and p: "known g t p"
    and w: "w = None \<or> (\<exists>l r. w = Some l \<and> lock_at g m l r)"
    and g': "g' = g\<lparr>vmem := (vmem g)[p := (vmem g ! p)\<lparr>waitting := w\<rparr>]\<rparr>"
  shows "graph_ok g'"
proof (rule graph_okI; (unfold wait_frame[OF p g'])?)
  show "q < length (vmem g) \<Longrightarrow> (if q = p then w else waitting (vmem g ! q)) = Some l \<Longrightarrow> l \<in> set (lock_list g)" for q l
    using ok_waitting[OF ok, of q l] w by (cases "q = p") (auto simp: lock_at_def)
  show "vertex_list g = [0..<length (vmem g)]" "distinct (lock_list g)" using ok_lists[OF ok] by simp_all
  show "l \<in> set (lock_list g) \<Longrightarrow> \<exists>r. lderef g l = Some r" for l using ok_lists(3)[OF ok] .
  show "known g t p \<Longrightarrow> known g t q \<Longrightarrow> p = q" for t p q using ok_known[OF ok] .
  show "lock_at g m l r \<Longrightarrow> lock_at g m l' r' \<Longrightarrow> l = l'" for m l r l' r' using ok_lock[OF ok] .
  show "lock_at g m l r \<Longrightarrow> holder r = Some p \<Longrightarrow> p < length (vmem g)" for m l r p using ok_holder[OF ok] .
qed

lemma wait_represents:
  assumes ok: "graph_ok g" and rep: "represents g W R" and p: "known g t p"
    and w: "w = None \<or> (\<exists>l r. w = Some l \<and> lock_at g m l r)"
    and g': "g' = g\<lparr>vmem := (vmem g)[p := (vmem g ! p)\<lparr>waitting := w\<rparr>]\<rparr>"
  shows "represents g' (W(t \<mapsto> map_option (\<lambda>_. m) w)) R"
proof (rule representsI; (unfold wait_frame[OF p g'])?)
  have t: "tid (vmem g ! p) = t" using p by (simp add: known_def)
  have nt: "tid (vmem g ! q) \<noteq> t" if "q < length (vmem g)" "q \<noteq> p" for q
    using ok_known[OF ok p, of q] that by (auto simp: known_def)
  show "(W(t \<mapsto> map_option (\<lambda>_. m) w)) (tid (vmem g ! q)) = Some None"
    if q: "q < length (vmem g)" and n: "(if q = p then w else waitting (vmem g ! q)) = None" for q
  proof (cases "q = p")
    case True
    then show ?thesis using t n by simp
  next
    case False
    then show ?thesis using represents_idle[OF rep q] nt[OF q False] n by simp
  qed
  show "\<exists>m' r. lock_at g m' l r \<and> (W(t \<mapsto> map_option (\<lambda>_. m) w)) (tid (vmem g ! q)) = Some (Some m')"
    if q: "q < length (vmem g)" and n: "(if q = p then w else waitting (vmem g ! q)) = Some l" for q l
  proof (cases "q = p")
    case True
    then obtain r where "lock_at g m l r" "w = Some l" using w n by auto
    then show ?thesis using t True by (intro exI[of _ m] exI[of _ r]) simp
  next
    case False
    then show ?thesis using represents_waiting[OF rep q, of l] nt[OF q False] n by simp
  qed
  show "((W(t \<mapsto> map_option (\<lambda>_. m) w)) u = None) = (\<forall>q. \<not> known g u q)" for u
    using represents_known[OF rep, of u] p by auto
  show "(R m = None) = (\<forall>l r. \<not> lock_at g m l r)" for m using represents_unused[OF rep] .
  show "lock_at g m l r \<Longrightarrow> R m = Some (map_option (\<lambda>p. tid (vmem g ! p)) (holder r), used r)" for m l r
    using represents_lock[OF rep] .
qed

lemma lock_spec:
  assumes ok: "graph_ok g" and rep: "represents g W R" and l: "lock_at g m l r"
    and h: "h = None \<or> (\<exists>q. h = Some q \<and> q < length (vmem g))"
    and g': "g' = g\<lparr>lmem := (lmem g)[l := Some (r\<lparr>used := u, holder := h\<rparr>)]\<rparr>"
  shows "graph_ok g'" and "represents g' W (R(m \<mapsto> (map_option (\<lambda>p. tid (vmem g ! p)) h, u)))"
    and "known g' = known g" and "lock_at g' m l (r\<lparr>used := u, holder := h\<rparr>)"
proof -
  let ?r = "r\<lparr>used := u, holder := h\<rparr>"
  have pl: "l < length (lmem g)" "lmem g ! l = Some r" "l \<in> set (lock_list g)" "lock r = m"
    using l by (auto simp: lock_at_def lderef_bound)
  have ld: "lderef g' k = (if k = l then Some ?r else lderef g k)" for k
    using pl(1) by (auto simp: lderef_def rd_def g' nth_list_update)
  have ll: "lock_list g' = lock_list g" "vertex_list g' = vertex_list g" "vmem g' = vmem g" by (simp_all add: g')
  have la: "lock_at g' m' k r' \<longleftrightarrow> (if k = l then m' = m \<and> r' = ?r else lock_at g m' k r')" for m' k r'
    using pl(3,4) unfolding lock_at_def ld ll by auto
  show kn: "known g' = known g" by (auto simp: fun_eq_iff known_def ll)
  show "lock_at g' m l ?r" using la by simp
  have other: "lock_at g m' k r' \<Longrightarrow> k \<noteq> l \<Longrightarrow> m' \<noteq> m" for m' k r' using ok_lock[OF ok l] by blast
  show "graph_ok g'"
  proof (rule graph_okI; (unfold kn ll)?)
    show "l' \<in> set (lock_list g) \<Longrightarrow> \<exists>r. lderef g' l' = Some r" for l' using ok_lists(3)[OF ok] unfolding ld by auto
    show "lock_at g' m' k r' \<Longrightarrow> lock_at g' m' k' r'' \<Longrightarrow> k = k'" for m' k k' r' r''
      using ok_lock[OF ok, of m' k r' k' r''] other[of m' k r'] other[of m' k' r''] unfolding la by (cases "k = l"; cases "k' = l") auto
    show "lock_at g' m' k r' \<Longrightarrow> holder r' = Some p \<Longrightarrow> p < length (vmem g)" for m' k r' p
      using ok_holder[OF ok] h unfolding la by (auto split: if_splits)
  qed (use ok_lists[OF ok] ok_known[OF ok] ok_waitting[OF ok] in blast)+
  show "represents g' W (R(m \<mapsto> (map_option (\<lambda>p. tid (vmem g ! p)) h, u)))"
  proof (rule representsI; (unfold kn ll)?)
    show "p < length (vmem g) \<Longrightarrow> waitting (vmem g ! p) = Some k \<Longrightarrow>
        \<exists>m' r'. lock_at g' m' k r' \<and> W (tid (vmem g ! p)) = Some (Some m')" for p k
      using represents_waiting[OF rep, of p k] l lock_at_unique unfolding la by (cases "k = l") auto
    show "lock_at g' m' k r' \<Longrightarrow> (R(m \<mapsto> (map_option (\<lambda>p. tid (vmem g ! p)) h, u))) m'
        = Some (map_option (\<lambda>p. tid (vmem g ! p)) (holder r'), used r')" for m' k r'
      using represents_lock[OF rep, of m' k r'] other[of m' k r'] unfolding la by (auto split: if_splits)
    show "((R(m \<mapsto> (map_option (\<lambda>p. tid (vmem g ! p)) h, u))) m' = None) = (\<forall>k r'. \<not> lock_at g' m' k r')" for m'
    proof (cases "m' = m")
      case True
      then show ?thesis using la by auto
    next
      case False
      then have "(\<forall>k r'. \<not> lock_at g' m' k r') \<longleftrightarrow> (\<forall>k r'. \<not> lock_at g m' k r')"
        using lock_other[OF l, of m'] unfolding la by (auto split: if_splits)
      then show ?thesis using False represents_unused[OF rep, of m'] by simp
    qed
  qed (use represents_known[OF rep] represents_idle[OF rep] in blast)+
qed

subsection \<open>The hooks\<close>

definition one_more :: "(nat option \<times> int) option \<Rightarrow> nat option \<times> int" where
  "one_more x = (case x of None \<Rightarrow> (None, 1) | Some (h, u) \<Rightarrow> (h, u + 1))"

lemma before_lock_spec:
  assumes ok: "graph_ok g" and rep: "represents g W R" and b: "before_lock mem g t m = Some g'"
  shows "graph_ok g' \<and> represents g' (W(t \<mapsto> Some m)) (R(m \<mapsto> one_more (R m)))"
proof -
  obtain p g1 l g2 where v: "vertex_for mem g t = Some (p, g1)" and lf: "lock_for mem g1 m = Some (l, g2)"
    and a: "add_relation_before_lock g2 p l = Some g'"
    using b by (auto simp: before_lock_def split: bind_splits)
  let ?W = "if W t = None then W(t \<mapsto> None) else W" and ?R = "if R m = None then R(m \<mapsto> (None, 0)) else R"
  have 1: "graph_ok g1" "represents g1 ?W R" "known g1 t p" using vertex_for_spec[OF ok rep v] by auto
  obtain r where 2: "graph_ok g2" "represents g2 ?W ?R" "known g2 t p" "lock_at g2 m l r"
    using lock_for_spec[OF 1(1,2) lf] 1(3) by auto
  have rp: "lderef g2 l = Some r" "rd (vmem g2) p = Some (vmem g2 ! p)" using 2(3,4) by (auto simp: lock_at_def known_def)
  define g3 where "g3 = g2\<lparr>vmem := (vmem g2)[p := (vmem g2 ! p)\<lparr>waitting := Some l\<rparr>]\<rparr>"
  have "\<exists>k r. Some l = Some k \<and> lock_at g2 m k r" using 2(4) by blast
  then have 3: "graph_ok g3" "represents g3 (?W(t \<mapsto> Some m)) ?R" "lock_at g3 m l r"
    using wait_ok[OF 2(1,3) _ g3_def, of m] wait_represents[OF 2(1,2,3) _ g3_def, of m] wait_frame(8)[OF 2(3) g3_def] 2(4) by auto
  have g': "g' = g3\<lparr>lmem := (lmem g3)[l := Some (r\<lparr>used := used r + 1, holder := holder r\<rparr>)]\<rparr>"
    using a rp by (auto simp: add_relation_before_lock_def g3_def)
  have "?R m = Some (map_option (\<lambda>p. tid (vmem g3 ! p)) (holder r), used r)" using represents_lock[OF 3(2,3)] .
  then have "one_more (R m) = (map_option (\<lambda>p. tid (vmem g3 ! p)) (holder r), used r + 1)"
    by (cases "R m") (auto simp: one_more_def)
  moreover have "holder r = None \<or> (\<exists>q. holder r = Some q \<and> q < length (vmem g3))"
    using ok_holder[OF 3(1,3)] by (cases "holder r") auto
  note lock_spec(1,2)[OF 3 this g']
  ultimately show ?thesis by (auto split: if_splits)
qed

lemma search_both:
  assumes ok: "graph_ok g" and rep: "represents g W R"
  shows "W t \<noteq> None \<Longrightarrow> \<exists>p. search_vertex g t = Some (Some p) \<and> known g t p"
    and "R m \<noteq> None \<Longrightarrow> \<exists>l r. search_lock g m = Some (Some l) \<and> lock_at g m l r"
proof -
  show "\<exists>p. search_vertex g t = Some (Some p) \<and> known g t p" if "W t \<noteq> None"
    using search_vertex_spec[OF ok, of t] represents_known[OF rep, of t] that by blast
  show "\<exists>l r. search_lock g m = Some (Some l) \<and> lock_at g m l r" if "R m \<noteq> None"
    using search_lock_spec[OF ok, of m] represents_unused[OF rep, of m] that by blast
qed

text \<open>With memory for the records that are missing, the hook before the lock always ends well.\<close>

lemma vertex_for_total:
  assumes "graph_ok g"
  shows "vertex_for mem g t \<noteq> None \<longleftrightarrow> mem 32 \<or> (\<exists>p. search_vertex g t = Some (Some p))"
  using search_vertex_spec[OF assms, of t] by (auto simp: vertex_for_def add_vertex_def)

lemma lock_for_total:
  assumes "graph_ok g"
  shows "lock_for mem g m \<noteq> None \<longleftrightarrow> mem 32 \<or> (\<exists>l. search_lock g m = Some (Some l))"
  using search_lock_spec[OF assms, of m] by (auto simp: lock_for_def add_lock_def)

lemma before_lock_total:
  assumes ok: "graph_ok g" and rep: "represents g W R"
  shows "before_lock mem g t m \<noteq> None \<longleftrightarrow> mem 32
    \<or> (\<exists>p. search_vertex g t = Some (Some p)) \<and> (\<exists>l. search_lock g m = Some (Some l))"
proof (cases "vertex_for mem g t")
  case None
  then show ?thesis using vertex_for_total[OF ok, of mem t] by (auto simp: before_lock_def)
next
  case (Some pg)
  obtain p g1 where v: "vertex_for mem g t = Some (p, g1)" using Some by (cases pg) simp
  have 1: "graph_ok g1" "represents g1 (if W t = None then W(t \<mapsto> None) else W) R" "known g1 t p"
    using vertex_for_spec[OF ok rep v] by auto
  have R: "(\<exists>l. search_lock h m = Some (Some l)) = (R m \<noteq> None)" if "graph_ok h" "represents h V R" for h V
    using search_lock_spec[OF that(1), of m] represents_unused[OF that(2), of m] by auto
  have "before_lock mem g t m \<noteq> None \<longleftrightarrow> lock_for mem g1 m \<noteq> None"
  proof (cases "lock_for mem g1 m")
    case (Some lg)
    obtain l g2 where l: "lock_for mem g1 m = Some (l, g2)" using Some by (cases lg) simp
    obtain r where "known g2 t p" "lock_at g2 m l r" using lock_for_spec[OF 1(1,2) l] 1(3) by auto
    then show ?thesis using v l by (auto simp: before_lock_def add_relation_before_lock_def lock_at_def known_def rd_in)
  qed (simp add: before_lock_def v)
  also have "\<dots> \<longleftrightarrow> mem 32 \<or> (\<exists>l. search_lock g m = Some (Some l))"
    unfolding lock_for_total[OF 1(1)] R[OF 1(1,2)] R[OF ok rep] ..
  finally show ?thesis using vertex_for_total[OF ok, of mem t] v by auto
qed

lemma after_lock_spec:
  assumes ok: "graph_ok g" and rep: "represents g W R" and W: "W t \<noteq> None" and R: "R m = Some (h, u)"
  shows "\<exists>g'. after_lock g t m = Some g' \<and> graph_ok g' \<and> represents g' (W(t \<mapsto> None)) (R(m \<mapsto> (Some t, u)))"
proof -
  obtain p where p: "search_vertex g t = Some (Some p)" "known g t p"
    using search_both(1)[OF ok rep W] by blast
  obtain l r where l: "search_lock g m = Some (Some l)" "lock_at g m l r"
    using search_both(2)[OF ok rep] R by blast
  have u: "used r = u" using represents_lock[OF rep l(2)] R by simp
  have pt: "p < length (vmem g)" "tid (vmem g ! p) = t" using p(2) by (auto simp: known_def)
  define g1 where "g1 = g\<lparr>lmem := (lmem g)[l := Some (r\<lparr>used := u, holder := Some p\<rparr>)]\<rparr>"
  have 1: "graph_ok g1" "represents g1 W (R(m \<mapsto> (Some t, u)))" "known g1 t p"
    using lock_spec[OF ok rep l(2) _ g1_def] pt p(2) by auto
  define g2 where "g2 = g1\<lparr>vmem := (vmem g1)[p := (vmem g1 ! p)\<lparr>waitting := None\<rparr>]\<rparr>"
  have "lderef g l = Some r" "rd (vmem g) p = Some (vmem g ! p)" using p(2) l(2) by (auto simp: lock_at_def known_def)
  then have "after_lock g t m = Some g2"
    using p(1) l(1) u by (auto simp: after_lock_def become_holder_after_lock_def g2_def g1_def)
  then show ?thesis
    using wait_ok[OF 1(1,3) _ g2_def, of m] wait_represents[OF 1 _ g2_def, of m] by auto
qed

lemma unchain_while_spec: "l \<in> set ls \<Longrightarrow> distinct ls \<Longrightarrow>
    \<exists>ks. unchain_while ls l = Some ks \<and> set ks = set ls - {l} \<and> distinct ks"
  by (induction ls) auto

lemma after_unlock_spec:
  assumes ok: "graph_ok g" and rep: "represents g W R" and R: "R m = Some (h, u)" and W: "u = 1 \<Longrightarrow> \<forall>t. W t \<noteq> Some (Some m)"
  shows "\<exists>g'. after_unlock g m = Some g' \<and> graph_ok g' \<and> represents g' W (if u = 1 then R(m := None) else R(m \<mapsto> (None, u - 1)))"
proof -
  obtain l r where l: "search_lock g m = Some (Some l)" "lock_at g m l r"
    using search_both(2)[OF ok rep] R by blast
  have u: "used r = u" using represents_lock[OF rep l(2)] R by simp
  have lr: "lderef g l = Some r" "l \<in> set (lock_list g)" using l(2) by (auto simp: lock_at_def)
  let ?r = "r\<lparr>used := u - 1, holder := None\<rparr>"
  define g1 where "g1 = g\<lparr>lmem := (lmem g)[l := Some ?r]\<rparr>"
  have 1: "graph_ok g1" "represents g1 W (R(m \<mapsto> (None, u - 1)))" "lock_at g1 m l ?r"
    using lock_spec[OF ok rep l(2) _ g1_def] by auto
  have d: "dereference_after_unlock g l = Some g1" "lderef g1 l = Some ?r"
    using lr u 1(3) by (auto simp: dereference_after_unlock_def g1_def lock_at_def)
  show ?thesis
  proof (cases "u = 1")
    case False
    then have "after_unlock g m = Some g1" using l(1) d u by (simp add: after_unlock_def)
    then show ?thesis using 1 False by auto
  next
    case True
    obtain ks where ks: "unchain_while (lock_list g1) l = Some ks" "set ks = set (lock_list g1) - {l}" "distinct ks"
      using unchain_while_spec[of l "lock_list g1"] lr(2) ok_lists(2)[OF 1(1)] by (auto simp: g1_def)
    define g2 where "g2 = g1\<lparr>lock_list := ks, lmem := (lmem g1)[l := None]\<rparr>"
    have "after_unlock g m = Some g2" using l(1) d ks(1) True by (simp add: after_unlock_def g2_def)
    moreover have ld: "k \<noteq> l \<Longrightarrow> lderef g2 k = lderef g1 k" for k
      by (auto simp: lderef_def rd_def g2_def)
    have la: "lock_at g2 m' k r' \<longleftrightarrow> k \<noteq> l \<and> lock_at g1 m' k r'" for m' k r'
      using ld ks(2) by (cases "k = l") (auto simp: lock_at_def g2_def)
    have sm: "vmem g2 = vmem g1" "vertex_list g2 = vertex_list g1" "lock_list g2 = ks" by (simp_all add: g2_def)
    have kn: "known g2 = known g1" by (auto simp: fun_eq_iff known_def sm)
    have nw: "waitting (vmem g1 ! p) \<noteq> Some l" if "p < length (vmem g1)" for p
      using represents_waiting[OF 1(2) that, of l] W True 1(3) lock_at_unique by metis
    have "graph_ok g2"
    proof (rule graph_okI; (unfold sm kn)?)
      show "k \<in> set ks \<Longrightarrow> \<exists>r. lderef g2 k = Some r" for k using ok_lists(3)[OF 1(1)] ks(2) ld by simp
      show "lock_at g2 m' k r' \<Longrightarrow> lock_at g2 m' k' r'' \<Longrightarrow> k = k'" for m' k k' r' r'' using ok_lock[OF 1(1)] unfolding la by blast
      show "p < length (vmem g1) \<Longrightarrow> waitting (vmem g1 ! p) = Some k \<Longrightarrow> k \<in> set ks" for p k
        using ok_waitting[OF 1(1), of p k] nw ks(2) by auto
      show "lock_at g2 m' k r' \<Longrightarrow> holder r' = Some p \<Longrightarrow> p < length (vmem g1)" for m' k r' p
        using ok_holder[OF 1(1)] unfolding la by blast
    qed (use ok_lists[OF 1(1)] ok_known[OF 1(1)] ks in blast)+
    moreover have "represents g2 W (R(m := None))"
    proof (rule representsI; (unfold sm kn la)?)
      show "p < length (vmem g1) \<Longrightarrow> waitting (vmem g1 ! p) = Some k \<Longrightarrow>
          \<exists>m' r'. (k \<noteq> l \<and> lock_at g1 m' k r') \<and> W (tid (vmem g1 ! p)) = Some (Some m')" for p k
        using represents_waiting[OF 1(2), of p k] nw[of p] by auto
      show "k \<noteq> l \<and> lock_at g1 m' k r' \<Longrightarrow> (R(m := None)) m' = Some (map_option (\<lambda>p. tid (vmem g1 ! p)) (holder r'), used r')" for m' k r'
        using represents_lock[OF 1(2), of m' k r'] ok_lock[OF 1(1,3), of k r'] by (cases "m' = m") auto
      show "((R(m := None)) m' = None) = (\<forall>k r'. \<not> (k \<noteq> l \<and> lock_at g1 m' k r'))" for m'
      proof (cases "m' = m")
        case True
        then show ?thesis using ok_lock[OF 1(1,3)] by auto
      next
        case False
        then have "(\<forall>k r'. \<not> (k \<noteq> l \<and> lock_at g1 m' k r')) \<longleftrightarrow> (\<forall>k r'. \<not> lock_at g1 m' k r')"
          using lock_other[OF 1(3), of m'] by blast
        then show ?thesis using False represents_unused[OF 1(2), of m'] by simp
      qed
    qed (use represents_known[OF 1(2)] represents_idle[OF 1(2)] in blast)+
    ultimately show ?thesis using True by auto
  qed
qed

end
