(* ===== verification/Deadlock_Cycle.thy ===== *)
theory Deadlock_Cycle
  imports Deadlock_Graph
begin

text \<open>
  One round of the detector: it ends, and it reports a cycle of the wait-for graph exactly when there
  is one.
\<close>

definition edges :: "task_graph \<Rightarrow> (nat \<times> nat) set" where
  "edges g = {(p, q). get_wait_vertex g p = Some (Some q)}"

text \<open>Graphs in which every pointer that the search follows is valid.\<close>

definition closed :: "task_graph \<Rightarrow> bool" where
  "closed g \<longleftrightarrow> vertex_list g = [0..<length (vmem g)]
     \<and> (\<forall>p<length (vmem g). \<exists>q. get_wait_vertex g p = Some q \<and> (\<forall>r. q = Some r \<longrightarrow> r < length (vmem g)))"

text \<open>The marks do not matter to the graph.\<close>

definition unmarked :: "task_graph \<Rightarrow> task_graph" where
  "unmarked g = g\<lparr>vmem := map (\<lambda>v. v\<lparr>visited := 0\<rparr>) (vmem g)\<rparr>"

definition mark :: "task_graph \<Rightarrow> nat \<Rightarrow> int \<Rightarrow> task_graph" where
  "mark g p x = g\<lparr>vmem := (vmem g)[p := (vmem g ! p)\<lparr>visited := x\<rparr>]\<rparr>"

definition marked :: "task_graph \<Rightarrow> nat set" where
  "marked g = {p. p < length (vmem g) \<and> visited (vmem g ! p) = 1}"

definition flags_ok :: "task_graph \<Rightarrow> bool" where
  "flags_ok g \<longleftrightarrow> (\<forall>p<length (vmem g). visited (vmem g ! p) \<in> {0, 1})"

lemma length_mark [simp]: "length (vmem (mark g p x)) = length (vmem g)"
  by (simp add: mark_def)

lemma map_same_update: "f y = f (xs ! p) \<Longrightarrow> map f (xs[p := y]) = map f xs"
  by (cases "p < length xs") (auto simp: list_eq_iff_nth_eq nth_list_update)

lemma unmarked_mark [simp]: "unmarked (mark g p x) = unmarked g"
  by (simp add: unmarked_def mark_def map_same_update del: map_update)

lemma same_unmarked:
  assumes "unmarked g = unmarked g'"
  shows "length (vmem g) = length (vmem g')" "vertex_list g = vertex_list g'" "lock_list g = lock_list g'" "lmem g = lmem g'"
    "p < length (vmem g) \<Longrightarrow> tid (vmem g ! p) = tid (vmem g' ! p) \<and> waitting (vmem g ! p) = waitting (vmem g' ! p)"
proof -
  have m: "map (\<lambda>v. v\<lparr>visited := 0\<rparr>) (vmem g) = map (\<lambda>v. v\<lparr>visited := 0\<rparr>) (vmem g')"
    and rest: "vertex_list g = vertex_list g'" "lock_list g = lock_list g'" "lmem g = lmem g'"
    using assms by (cases g; cases g'; simp add: unmarked_def)+
  then show "vertex_list g = vertex_list g'" "lock_list g = lock_list g'" "lmem g = lmem g'" by blast+
  show l: "length (vmem g) = length (vmem g')" using m by (metis length_map)
  assume p: "p < length (vmem g)"
  then have "(vmem g ! p)\<lparr>visited := 0\<rparr> = (vmem g' ! p)\<lparr>visited := 0\<rparr>" using arg_cong[OF m, of "\<lambda>xs. xs ! p"] l by simp
  then show "tid (vmem g ! p) = tid (vmem g' ! p) \<and> waitting (vmem g ! p) = waitting (vmem g' ! p)"
    by (metis vertex.select_convs(1,2) vertex.surjective vertex.update_convs(3))
qed

lemma same_wait: "unmarked g = unmarked g' \<Longrightarrow> get_wait_vertex g = get_wait_vertex g'"
  using same_unmarked[of g g']
  by (auto simp: fun_eq_iff get_wait_vertex_def lderef_def rd_def split: option.splits intro!: bind_option_cong)

lemma same_closed: "unmarked g = unmarked g' \<Longrightarrow> closed g \<Longrightarrow> closed g'"
  using same_wait[of g g'] same_unmarked(1,2)[of g g'] by (simp add: closed_def)

lemma same_edges: "unmarked g = unmarked g' \<Longrightarrow> edges g = edges g'"
  using same_wait[of g g'] by (simp add: edges_def)

lemma marked_mark: "p < length (vmem g) \<Longrightarrow> marked (mark g p 1) = insert p (marked g)"
  by (auto simp: marked_def mark_def nth_list_update)

lemma unvisited_spec:
  "\<forall>p\<in>set ps. p < length (vmem g) \<Longrightarrow> \<exists>g'. all_vertex_unvisited g ps = Some g' \<and> unmarked g' = unmarked g
     \<and> (\<forall>p<length (vmem g). visited (vmem g' ! p) = (if p \<in> set ps then 0 else visited (vmem g ! p)))"
proof (induction ps arbitrary: g)
  case (Cons p ps)
  have p: "p < length (vmem g)" using Cons.prems by simp
  have "\<exists>g'. all_vertex_unvisited (mark g p 0) ps = Some g' \<and> unmarked g' = unmarked (mark g p 0)
      \<and> (\<forall>q<length (vmem (mark g p 0)). visited (vmem g' ! q) = (if q \<in> set ps then 0 else visited (vmem (mark g p 0) ! q)))"
    using Cons.prems by (intro Cons.IH) (simp add: mark_def)
  then obtain g' where g': "all_vertex_unvisited (mark g p 0) ps = Some g'" "unmarked g' = unmarked g"
    "\<forall>q<length (vmem g). visited (vmem g' ! q) = (if q \<in> set ps then 0 else visited (vmem (mark g p 0) ! q))"
    by auto
  have "all_vertex_unvisited g (p # ps) = Some g'" using g'(1) p by (simp add: mark_def)
  moreover have "\<forall>q<length (vmem g). visited (vmem g' ! q) = (if q \<in> set (p # ps) then 0 else visited (vmem g ! q))"
    using g'(3) p by (auto simp: mark_def nth_list_update)
  ultimately show ?case using g'(2) by blast
qed simp

subsection \<open>Cycles of a function\<close>

lemma on_cycle_step:
  assumes "single_valued E" and "(w, w) \<in> E\<^sup>+" and "(w, x) \<in> E"
  shows "(x, x) \<in> E\<^sup>+"
proof -
  obtain y where y: "(w, y) \<in> E" "(y, w) \<in> E\<^sup>*" using assms(2) by (meson tranclD)
  have "y = x" using assms(1,3) y(1) by (meson single_valuedD)
  then show ?thesis using y(2) assms(3) by (meson rtrancl_into_trancl1)
qed

lemma on_cycle_reach:
  assumes "single_valued E" and "(w, w) \<in> E\<^sup>+" and "(w, x) \<in> E\<^sup>*"
  shows "(x, x) \<in> E\<^sup>+"
  using assms(3) assms(2) by (induction rule: rtrancl_induct) (auto dest: on_cycle_step[OF assms(1)])

lemma single_valued_edges: "single_valued (edges g)"
  by (auto simp: single_valued_def edges_def)

text \<open>A vertex from which the chain of waiting comes to an end is on no cycle.\<close>

lemma chain_ends:
  assumes "get_wait_vertex g p = Some None" and "(v, p) \<in> (edges g)\<^sup>*"
  shows "(v, v) \<notin> (edges g)\<^sup>+"
proof
  assume "(v, v) \<in> (edges g)\<^sup>+"
  then have "(p, p) \<in> (edges g)\<^sup>+" using on_cycle_reach[OF single_valued_edges] assms(2) by blast
  then obtain q where "(p, q) \<in> edges g" by (meson tranclD)
  then show False using assms(1) by (simp add: edges_def)
qed

subsection \<open>The search from one vertex\<close>

lemma search_cross_spec:
  "closed g \<Longrightarrow> flags_ok g \<Longrightarrow> p < length (vmem g) \<Longrightarrow> \<forall>v\<in>marked g. (v, p) \<in> (edges g)\<^sup>+ \<Longrightarrow>
   (\<exists>c g'. search_cross g p = Some (Some c, g') \<and> unmarked g' = unmarked g \<and> flags_ok g' \<and> c < length (vmem g)
      \<and> (c, c) \<in> (edges g)\<^sup>+)
   \<or> (\<exists>g'. search_cross g p = Some (None, g') \<and> unmarked g' = unmarked g \<and> flags_ok g' \<and> insert p (marked g) \<subseteq> marked g'
      \<and> (\<forall>v\<in>marked g'. (v, v) \<notin> (edges g)\<^sup>+))"
proof (induction "card ({..<length (vmem g)} - marked g)" arbitrary: g p rule: less_induct)
  case less
  let ?v = "vmem g ! p"
  note p = less.prems(3)
  show ?case
  proof (cases "visited ?v = 1")
    case True
    then have "p \<in> marked g" using p by (simp add: marked_def)
    then have "(p, p) \<in> (edges g)\<^sup>+" using less.prems(4) by blast
    moreover have "search_cross g p = Some (Some p, g)" using True p by (subst search_cross.simps) simp
    ultimately show ?thesis using less.prems(2) p by blast
  next
    case False
    let ?g = "mark g p 1"
    have um: "unmarked ?g = unmarked g" by simp
    have pm: "p \<notin> marked g" using False by (simp add: marked_def)
    have unf: "search_cross g p = get_wait_vertex ?g p \<bind> (\<lambda>q. case q of None \<Rightarrow> Some (None, ?g) | Some q \<Rightarrow> search_cross ?g q)"
      using False p by (subst search_cross.simps) (simp add: mark_def Let_def)
    have fl: "flags_ok ?g" using less.prems(2) p by (auto simp: flags_ok_def mark_def nth_list_update)
    have reach: "\<forall>v\<in>marked ?g. (v, p) \<in> (edges g)\<^sup>*"
      using less.prems(4) marked_mark[OF p] by (auto intro: trancl_into_rtrancl)
    obtain q where q: "get_wait_vertex g p = Some q" "\<forall>r. q = Some r \<longrightarrow> r < length (vmem g)"
      using less.prems(1) p unfolding closed_def by blast
    have wq: "get_wait_vertex ?g p = Some q" using q(1) same_wait[OF um] by simp
    show ?thesis
    proof (cases q)
      case None
      then have "search_cross g p = Some (None, ?g)" using unf wq by simp
      moreover have "\<forall>v\<in>marked ?g. (v, v) \<notin> (edges g)\<^sup>+" using reach chain_ends q(1) None by blast
      ultimately show ?thesis using um fl marked_mark[OF p] by blast
    next
      case (Some r)
      have "{..<length (vmem g)} - marked ?g \<subset> {..<length (vmem g)} - marked g"
        using pm p marked_mark[OF p] by auto
      then have "card ({..<length (vmem ?g)} - marked ?g) < card ({..<length (vmem g)} - marked g)"
        by (simp add: psubset_card_mono mark_def)
      moreover have "(p, r) \<in> edges g" using q(1) Some by (simp add: edges_def)
      then have "\<forall>v\<in>marked ?g. (v, r) \<in> (edges ?g)\<^sup>+"
        using reach same_edges[OF um] by (metis rtrancl_into_trancl1)
      moreover have "r < length (vmem ?g)" using q(2) Some by (simp add: mark_def)
      ultimately have "(\<exists>c g'. search_cross ?g r = Some (Some c, g') \<and> unmarked g' = unmarked ?g \<and> flags_ok g' \<and> c < length (vmem ?g)
          \<and> (c, c) \<in> (edges ?g)\<^sup>+)
        \<or> (\<exists>g'. search_cross ?g r = Some (None, g') \<and> unmarked g' = unmarked ?g \<and> flags_ok g' \<and> insert r (marked ?g) \<subseteq> marked g'
          \<and> (\<forall>v\<in>marked g'. (v, v) \<notin> (edges ?g)\<^sup>+))"
        using less.hyps[of ?g r] same_closed[OF um[symmetric] less.prems(1)] fl by blast
      moreover have "search_cross g p = search_cross ?g r" using unf wq Some by simp
      moreover have "length (vmem ?g) = length (vmem g)" by (simp add: mark_def)
      ultimately show ?thesis using same_edges[OF um] marked_mark[OF p] by auto
    qed
  qed
qed

subsection \<open>Printing\<close>

fun walk :: "task_graph \<Rightarrow> nat list \<Rightarrow> bool" where
  "walk g [] = True"
| "walk g [p] = True"
| "walk g (p # q # ps) = ((p, q) \<in> edges g \<and> walk g (q # ps))"

abbreviation tids :: "task_graph \<Rightarrow> nat list \<Rightarrow> nat list" where
  "tids g ps \<equiv> map (\<lambda>p. tid (vmem g ! p)) ps"

lemma edge_bound: "(p, q) \<in> edges g \<Longrightarrow> p < length (vmem g)"
  by (auto simp: edges_def get_wait_vertex_def rd_def split: if_splits)

lemma print_while_spec:
  assumes "(p, c) \<in> (edges g)\<^sup>+" and c: "c < length (vmem g)"
  shows "\<exists>ps. ps \<noteq> [] \<and> last ps = c \<and> walk g (p # ps) \<and> print_while g c p out = Some (out @ tids g (p # ps))"
  using assms(1)
proof (induction arbitrary: out rule: converse_trancl_induct)
  case (base p)
  then have "get_wait_vertex g p = Some (Some c)" "rd (vmem g) p = Some (vmem g ! p)"
    using edge_bound by (auto simp: edges_def)
  then have "print_while g c p out = Some (out @ tids g [p, c])"
    using c by (subst print_while.simps) simp
  then show ?case using base by (intro exI[of _ "[c]"]) simp
next
  case (step p q)
  have e: "get_wait_vertex g p = Some (Some q)" "rd (vmem g) p = Some (vmem g ! p)"
    using edge_bound step(1) by (auto simp: edges_def)
  show ?case
  proof (cases "q = c")
    case True
    then have "print_while g c p out = Some (out @ tids g [p, c])"
      using c e by (subst print_while.simps) simp
    then show ?thesis using step(1) True by (intro exI[of _ "[c]"]) simp
  next
    case False
    obtain ps where ps: "ps \<noteq> []" "last ps = c" "walk g (q # ps)"
      "print_while g c q (out @ [tid (vmem g ! p)]) = Some ((out @ [tid (vmem g ! p)]) @ tids g (q # ps))"
      using step(3)[of "out @ [tid (vmem g ! p)]"] by blast
    have "print_while g c p out = print_while g c q (out @ [tid (vmem g ! p)])"
      using e False by (subst print_while.simps) simp
    then show ?thesis using ps step(1) by (intro exI[of _ "q # ps"]) simp
  qed
qed

subsection \<open>The round\<close>

lemma skip_visited_spec:
  "\<forall>p\<in>set ps. p < length (vmem g) \<Longrightarrow> flags_ok g \<Longrightarrow>
   \<exists>qs rs. skip_visited g ps = Some rs \<and> ps = qs @ rs \<and> set qs \<subseteq> marked g \<and> (rs \<noteq> [] \<longrightarrow> hd rs \<notin> marked g)"
proof (induction ps)
  case (Cons p ps)
  have p: "p < length (vmem g)" "visited (vmem g ! p) \<in> {0, 1}" using Cons.prems by (auto simp: flags_ok_def)
  show ?case
  proof (cases "visited (vmem g ! p) = 1")
    case True
    then obtain qs rs where "skip_visited g ps = Some rs" "ps = qs @ rs" "set qs \<subseteq> marked g" "rs \<noteq> [] \<longrightarrow> hd rs \<notin> marked g"
      using Cons by auto
    then show ?thesis using True p by (intro exI[of _ "p # qs"] exI[of _ rs]) (simp add: marked_def)
  next
    case False
    then show ?thesis using p by (intro exI[of _ "[]"] exI[of _ "p # ps"]) (auto simp: marked_def)
  qed
qed simp

definition reports :: "task_graph \<Rightarrow> nat list option \<Rightarrow> bool" where
  "reports g out \<longleftrightarrow> (case out of
       None \<Rightarrow> \<forall>p. (p, p) \<notin> (edges g)\<^sup>+
     | Some ts \<Rightarrow> \<exists>c ps. ps \<noteq> [] \<and> last ps = c \<and> walk g (c # ps) \<and> ts = tids g (c # ps))"

lemma same_walk: "unmarked g = unmarked g' \<Longrightarrow> walk g ps = walk g' ps"
  using same_edges[of g g'] by (induction ps rule: induct_list012) auto

lemma walk_bound: "walk g ps \<Longrightarrow> ps \<noteq> [] \<Longrightarrow> last ps < length (vmem g) \<Longrightarrow> \<forall>p\<in>set ps. p < length (vmem g)"
proof (induction ps rule: induct_list012)
  case 1 then show ?case by simp
next
  case (2 x) then show ?case by simp
next
  case (3 p q ps)
  have "(p, q) \<in> edges g" using 3(3) unfolding walk.simps by (rule conjunct1)
  then have l: "p < length (vmem g)" by (rule edge_bound)
  have "walk g (q # ps)" using 3(3) unfolding walk.simps by (rule conjunct2)
  moreover have "last (q # ps) < length (vmem g)" using 3(5) by simp
  ultimately have "\<forall>p\<in>set (q # ps). p < length (vmem g)" using 3(2) by blast
  then show ?case using l by simp
qed

lemma same_reports:
  assumes "unmarked g = unmarked g'" and "reports g out"
  shows "reports g' out"
proof (cases out)
  case None
  then show ?thesis using assms same_edges[OF assms(1)] by (simp add: reports_def)
next
  case (Some ts)
  then have "\<exists>c ps. ps \<noteq> [] \<and> last ps = c \<and> walk g (c # ps) \<and> ts = tids g (c # ps)"
    using assms(2) by (simp only: reports_def option.case)
  then obtain c ps where w: "ps \<noteq> []" "last ps = c" "walk g (c # ps)" "ts = tids g (c # ps)"
    by blast
  obtain q qs where q: "ps = q # qs" using w(1) by (cases ps) auto
  then have "(c, q) \<in> edges g" using w(3) by simp
  then have "c < length (vmem g)" by (rule edge_bound)
  then have "\<forall>p\<in>set (c # ps). p < length (vmem g)" using walk_bound[OF w(3)] w(1,2) by simp
  then have t: "tids g (c # ps) = tids g' (c # ps)" using same_unmarked(5)[OF assms(1)] by (intro map_cong) auto
  have "walk g' (c # ps)" using w(3) same_walk[OF assms(1)] by blast
  then show ?thesis unfolding reports_def Some option.case w(4) t using w(1,2) by blast
qed

lemma detector_while_spec:
  "closed g \<Longrightarrow> set ps \<subseteq> set (vertex_list g) \<Longrightarrow> \<forall>p<length (vmem g). p \<notin> set ps \<longrightarrow> (p, p) \<notin> (edges g)\<^sup>+ \<Longrightarrow>
   \<exists>out g'. detector_while g ps = Some (out, g') \<and> unmarked g' = unmarked g \<and> reports g out"
proof (induction "length ps" arbitrary: ps g rule: less_induct)
  case less
  show ?case
  proof (cases ps)
    case Nil
    have "(p, p) \<notin> (edges g)\<^sup>+" for p
      using less.prems(3) Nil edge_bound by (metis empty_iff list.set(1) tranclD)
    moreover have "detector_while g ps = Some (None, g)" using Nil by (subst detector_while.simps) simp
    ultimately show ?thesis by (intro exI[of _ None] exI[of _ g]) (simp add: reports_def)
  next
    case (Cons p qs)
    have vl: "vertex_list g = [0..<length (vmem g)]" using less.prems(1) by (simp add: closed_def)
    then have b: "\<forall>q\<in>set (vertex_list g). q < length (vmem g)" by simp
    have p: "p < length (vmem g)" using less.prems(2) Cons vl by auto
    obtain g1 where g1: "all_vertex_unvisited g (vertex_list g) = Some g1" "unmarked g1 = unmarked g"
      "\<forall>q<length (vmem g). visited (vmem g1 ! q) = 0"
      using unvisited_spec[OF b] vl by auto
    have l1: "length (vmem g1) = length (vmem g)" using same_unmarked(1)[OF g1(2)] .
    have m1: "marked g1 = {}" "flags_ok g1" using g1(3) l1 by (auto simp: marked_def flags_ok_def)
    have c1: "closed g1" using same_closed[OF g1(2)[symmetric] less.prems(1)] .
    have e1: "edges g1 = edges g" using same_edges[OF g1(2)] .
    consider (cross) c g2 where "search_cross g1 p = Some (Some c, g2)" "unmarked g2 = unmarked g1" "c < length (vmem g1)" "(c, c) \<in> (edges g1)\<^sup>+"
      | (none) g2 where "search_cross g1 p = Some (None, g2)" "unmarked g2 = unmarked g1" "flags_ok g2" "p \<in> marked g2"
        "\<forall>v\<in>marked g2. (v, v) \<notin> (edges g1)\<^sup>+"
      using search_cross_spec[OF c1 m1(2), of p] p l1 m1(1) by auto
    then show ?thesis
    proof cases
      case cross
      have u2: "unmarked g2 = unmarked g" using cross(2) g1(2) by simp
      have e2: "edges g2 = edges g" using same_edges[OF u2] .
      have c2: "c < length (vmem g2)" using cross(2,3) same_unmarked(1) by metis
      obtain xs where xs: "xs \<noteq> []" "last xs = c" "walk g2 (c # xs)" "print_cycle g2 c = Some (tids g2 (c # xs))"
        using print_while_spec[of c c g2 "[]"] cross(4) e1 e2 c2 by (auto simp: print_cycle_def)
      have "reports g (Some (tids g2 (c # xs)))"
        using same_reports[OF u2, of "Some (tids g2 (c # xs))"] xs(1-3) by (auto simp: reports_def)
      moreover have "detector_while g ps = Some (Some (tids g2 (c # xs)), g2)"
        using Cons g1(1) cross(1) xs(4) by (subst detector_while.simps) simp
      ultimately show ?thesis using u2 by blast
    next
      case none
      have u2: "unmarked g2 = unmarked g" using none(2) g1(2) by simp
      have e2: "edges g2 = edges g" using same_edges[OF u2] .
      have l2: "length (vmem g2) = length (vmem g)" "vertex_list g2 = vertex_list g" using same_unmarked(1,2)[OF u2] by simp_all
      have "\<forall>q\<in>set ps. q < length (vmem g2)" using less.prems(2) vl l2 by auto
      then obtain us rs where rs: "skip_visited g2 ps = Some rs" "ps = us @ rs" "set us \<subseteq> marked g2" "rs \<noteq> [] \<longrightarrow> hd rs \<notin> marked g2"
        using skip_visited_spec[OF _ none(3), of ps] by blast
      have "us \<noteq> []" using rs(2,4) Cons none(4) by (cases us) auto
      then have "length rs < length ps" using rs(2) by simp
      moreover have "closed g2" using same_closed[OF u2[symmetric] less.prems(1)] .
      moreover have "set rs \<subseteq> set (vertex_list g2)" using rs(2) less.prems(2) l2 by auto
      moreover have "\<forall>q<length (vmem g2). q \<notin> set rs \<longrightarrow> (q, q) \<notin> (edges g2)\<^sup>+"
        using less.prems(3) rs(2,3) none(5) e1 e2 l2 by auto
      ultimately obtain out g' where "detector_while g2 rs = Some (out, g')" "unmarked g' = unmarked g2" "reports g2 out"
        using less.hyps by blast
      moreover have "detector_while g ps = detector_while g2 rs"
        using Cons g1(1) none(1) rs(1) by (subst detector_while.simps) (simp del: skip_visited.simps)
      ultimately show ?thesis using u2 same_reports[OF u2] by auto
    qed
  qed
qed


lemma graph_ok_closed:
  assumes "graph_ok g" and "represents g W R"
  shows "closed g"
proof -
  have "\<exists>q. get_wait_vertex g p = Some q \<and> (\<forall>r. q = Some r \<longrightarrow> r < length (vmem g))" if p: "p < length (vmem g)" for p
  proof (cases "waitting (vmem g ! p)")
    case None
    then show ?thesis using p by (simp add: get_wait_vertex_def)
  next
    case (Some l)
    then obtain m r where "lock_at g m l r" using represents_waiting[OF assms(2) p] by blast
    then show ?thesis using Some p ok_holder[OF assms(1)] by (auto simp: get_wait_vertex_def lock_at_def)
  qed
  then show ?thesis using ok_lists(1)[OF assms(1)] by (simp add: closed_def)
qed

lemma detector_round_spec:
  assumes "closed g"
  shows "\<exists>out g'. detector_round g = Some (out, g') \<and> unmarked g' = unmarked g \<and> reports g out"
  unfolding detector_round_def
  by (rule detector_while_spec) (use assms in \<open>auto simp: closed_def\<close>)

text \<open>
  C28. On a graph without dangling pointers a round of the detector ends. It prints threads of which each
  waits for a lock that the next one holds, from one thread back to itself, or nothing when no thread
  is on a cycle.
\<close>

theorem detector_round_correct:
  assumes "closed g"
  shows "\<exists>out g'. detector_round g = Some (out, g') \<and>
    (case out of
       None \<Rightarrow> \<forall>p. (p, p) \<notin> (edges g)\<^sup>+
     | Some ts \<Rightarrow> \<exists>c ps. ps \<noteq> [] \<and> last ps = c \<and> walk g (c # ps) \<and> ts = tids g (c # ps))"
  using detector_round_spec[OF assms] unfolding reports_def by blast

theorem detector_round_correct_witness:
  "\<exists>g'. detector_round \<lparr>vertex_list = [0, 1], lock_list = [0, 1],
       vmem = [\<lparr>tid = 7, waitting = Some 1, visited = 0\<rparr>, \<lparr>tid = 8, waitting = Some 0, visited = 0\<rparr>],
       lmem = [Some \<lparr>holder = Some 0, lock = 40, used = 2\<rparr>, Some \<lparr>holder = Some 1, lock = 41, used = 2\<rparr>]\<rparr>
     = Some (Some [7, 8, 7], g')"
proof -
  let ?v = "[\<lparr>tid = 7, waitting = Some 1, visited = 0\<rparr>, \<lparr>tid = 8, waitting = Some 0, visited = 0\<rparr>]"
  let ?l = "[Some \<lparr>holder = Some 0, lock = 40, used = 2\<rparr>, Some \<lparr>holder = Some 1, lock = 41, used = 2\<rparr>]"
  let ?g = "\<lparr>vertex_list = [0, 1], lock_list = [0, 1], vmem = ?v, lmem = ?l\<rparr>"
  have e: "rd ?l 0 = Some (?l ! 0)" "rd ?l 1 = Some (?l ! 1)" by simp_all
  have "closed ?g"
    by (auto simp: closed_def less_Suc_eq get_wait_vertex_def lderef_def rd_def numeral_nat)
  then obtain out g' where "detector_round ?g = Some (out, g')" using detector_round_correct[of ?g] by blast
  moreover have "map_option fst (detector_round ?g) = Some (Some [7, 8, 7])"
    by (simp add: detector_round_def detector_while.simps search_cross.simps print_cycle_def print_while.simps
      get_wait_vertex_def lderef_def rd_def)
  ultimately show ?thesis by simp
qed

end
