(* ===== verification/Deadlock_Run.thy ===== *)
theory Deadlock_Run
  imports Deadlock_Cycle
begin

text \<open>
  Runs of a program under the detector, in any interleaving of the hooks: the counters of the locks are
  right, the assertions of the hooks hold, and what the detector reports is a deadlock.
\<close>

subsection \<open>Runs\<close>

text \<open>Runs as lists of events.\<close>

datatype event = Before nat nat | Acquire nat nat | After nat nat | Release nat nat | After_un nat nat

fun play :: "event list \<Rightarrow> sys \<Rightarrow> sys option" where
  "play [] s = Some s"
| "play (Before t m # es) s =
     (if phase s t = Running
      then before_lock (\<lambda>_. True) (graph s) t m \<bind> (\<lambda>g. play es (s\<lparr>graph := g, phase := (phase s)(t := Waiting m)\<rparr>))
      else None)"
| "play (Acquire t m # es) s =
     (if phase s t = Waiting m \<and> owner s m = None
      then play es (s\<lparr>owner := (owner s)(m := Some t), phase := (phase s)(t := Acquired m)\<rparr>) else None)"
| "play (After t m # es) s =
     (if phase s t = Acquired m
      then after_lock (graph s) t m \<bind> (\<lambda>g. play es (s\<lparr>graph := g, phase := (phase s)(t := Running)\<rparr>)) else None)"
| "play (Release t m # es) s =
     (if phase s t = Running \<and> owner s m = Some t
      then play es (s\<lparr>owner := (owner s)(m := None), phase := (phase s)(t := Unlocking m)\<rparr>) else None)"
| "play (After_un t m # es) s =
     (if phase s t = Unlocking m
      then after_unlock (graph s) m \<bind> (\<lambda>g. play es (s\<lparr>graph := g, phase := (phase s)(t := Running)\<rparr>)) else None)"

lemma play_steps: "play es s = Some s' \<Longrightarrow> sys_step\<^sup>*\<^sup>* s s'"
  by (induction es s rule: play.induct)
    (auto split: if_splits bind_splits intro: converse_rtranclp_into_rtranclp sys_step.intros)

lemmas run_simps = init_sys_def empty_graph_def before_lock_def vertex_for_def lock_for_def search_vertex_def
  search_lock_def add_vertex_def add_lock_def add_vertex_to_graph_def add_lock_to_graph_def
  add_relation_before_lock_def after_lock_def become_holder_after_lock_def after_unlock_def
  dereference_after_unlock_def lderef_def rd_def get_wait_vertex_def

subsection \<open>The invariant\<close>

fun wants :: "phase \<Rightarrow> nat option" where
  "wants (Waiting m) = Some m"
| "wants (Acquired m) = Some m"
| "wants _ = None"

fun busy :: "nat \<Rightarrow> phase \<Rightarrow> bool" where
  "busy m Running = False"
| "busy m (Waiting k) = (k = m)"
| "busy m (Acquired k) = (k = m)"
| "busy m (Unlocking k) = (k = m)"

definition held :: "sys \<Rightarrow> nat \<Rightarrow> bool" where
  "held s m \<longleftrightarrow> (\<exists>t. owner s m = Some t \<and> phase s t \<noteq> Acquired m)"

text \<open>The threads inside a hook for a mutex, and its owner: these are its users.\<close>

definition engaged :: "sys \<Rightarrow> nat \<Rightarrow> nat" where
  "engaged s m = card {t. busy m (phase s t)} + (if held s m then 1 else 0)"

definition tied :: "sys \<Rightarrow> waits \<Rightarrow> locks \<Rightarrow> bool" where
  "tied s W R \<longleftrightarrow>
     finite {t. phase s t \<noteq> Running}
     \<and> (\<forall>t. W t = None \<longrightarrow> phase s t = Running \<and> (\<forall>m. owner s m \<noteq> Some t))
     \<and> (\<forall>t w. W t = Some w \<longrightarrow> w = wants (phase s t))
     \<and> (\<forall>t m. phase s t = Acquired m \<longrightarrow> owner s m = Some t)
     \<and> (\<forall>t m. phase s t = Unlocking m \<longrightarrow> owner s m \<noteq> Some t)
     \<and> (\<forall>m. (case R m of None \<Rightarrow> 0 | Some (h, u) \<Rightarrow> u) = int (engaged s m))
     \<and> (\<forall>m t u. R m = Some (Some t, u) \<longrightarrow> owner s m = Some t \<and> phase s t \<noteq> Acquired m \<or> phase s t = Unlocking m)"

definition inv :: "sys \<Rightarrow> bool" where
  "inv s \<longleftrightarrow> (\<exists>W R. graph_ok (graph s) \<and> represents (graph s) W R \<and> tied s W R)"

lemma tiedD:
  assumes "tied s W R"
  shows "finite {t. phase s t \<noteq> Running}"
    and "W t = None \<Longrightarrow> phase s t = Running \<and> owner s m \<noteq> Some t"
    and "W t = Some w \<Longrightarrow> w = wants (phase s t)"
    and "phase s t = Acquired m \<Longrightarrow> owner s m = Some t"
    and "phase s t = Unlocking m \<Longrightarrow> owner s m \<noteq> Some t"
    and "(case R m of None \<Rightarrow> 0 | Some (h, u) \<Rightarrow> u) = int (engaged s m)"
    and "R m = Some (Some t, u) \<Longrightarrow> owner s m = Some t \<and> phase s t \<noteq> Acquired m \<or> phase s t = Unlocking m"
  using assms unfolding tied_def by blast+

lemma tiedI:
  assumes "finite {t. phase s t \<noteq> Running}"
    and "\<And>t m. W t = None \<Longrightarrow> phase s t = Running \<and> owner s m \<noteq> Some t"
    and "\<And>t w. W t = Some w \<Longrightarrow> w = wants (phase s t)"
    and "\<And>t m. phase s t = Acquired m \<Longrightarrow> owner s m = Some t"
    and "\<And>t m. phase s t = Unlocking m \<Longrightarrow> owner s m \<noteq> Some t"
    and "\<And>m. (case R m of None \<Rightarrow> 0 | Some (h, u) \<Rightarrow> u) = int (engaged s m)"
    and "\<And>m t u. R m = Some (Some t, u) \<Longrightarrow> owner s m = Some t \<and> phase s t \<noteq> Acquired m \<or> phase s t = Unlocking m"
  shows "tied s W R"
  using assms unfolding tied_def by blast

lemma finite_busy: "finite {t. phase s t \<noteq> Running} \<Longrightarrow> finite {t. busy m (phase s t)}"
  by (rule finite_subset[of _ "{t. phase s t \<noteq> Running}"]) auto

lemma card_busy:
  assumes "finite {t. phase s t \<noteq> Running}"
  shows "int (card {u. busy m (((phase s)(t := ph)) u)})
    = int (card {u. busy m (phase s u)}) - of_bool (busy m (phase s t)) + of_bool (busy m ph)"
proof -
  let ?A = "{u. busy m (phase s u)}"
  have f: "finite ?A" using finite_busy[OF assms] .
  have e: "{u. busy m (((phase s)(t := ph)) u)} = (if busy m ph then insert t ?A else ?A - {t})" by auto
  show ?thesis
  proof (cases "busy m (phase s t)")
    case True
    then have "t \<in> ?A" by simp
    then have "insert t ?A = ?A" "card ?A = Suc (card (?A - {t}))"
      using f card_Suc_Diff1[of ?A t] by auto
    then show ?thesis using True e by (simp split: if_splits)
  next
    case False
    then have "?A - {t} = ?A" "card (insert t ?A) = Suc (card ?A)" using f by auto
    then show ?thesis using False e by (simp split: if_splits)
  qed
qed

lemma finite_phase: "finite {t. phase s t \<noteq> Running} \<Longrightarrow> finite {u. ((phase s)(t := ph)) u \<noteq> Running}"
  by (rule finite_subset[of _ "insert t {t. phase s t \<noteq> Running}"]) auto

lemma inv_init: "inv init_sys"
proof -
  have "graph_ok empty_graph" by (rule graph_okI) (auto simp: empty_graph_def known_def lock_at_def)
  moreover have "represents empty_graph (\<lambda>_. None) (\<lambda>_. None)"
    by (rule representsI) (auto simp: empty_graph_def known_def lock_at_def)
  moreover have "tied init_sys (\<lambda>_. None) (\<lambda>_. None)"
    by (auto simp: tied_def init_sys_def engaged_def held_def)
  ultimately show ?thesis unfolding inv_def init_sys_def sys.simps by blast
qed

lemma tied_before:
  assumes T: "tied s W R" and t: "phase s t = Running"
  shows "tied (s\<lparr>graph := g, phase := (phase s)(t := Waiting m)\<rparr>) (W(t \<mapsto> Some m)) (R(m \<mapsto> one_more (R m)))"
proof -
  let ?s = "s\<lparr>graph := g, phase := (phase s)(t := Waiting m)\<rparr>"
  note D = tiedD[OF T]
  have h: "held ?s k = held s k" for k using t by (auto simp: held_def)
  have "int (engaged ?s k) = int (engaged s k) + of_bool (k = m)" for k
    using card_busy[OF D(1), of k t "Waiting m"] t unfolding engaged_def h by auto
  then have e: "(case (R(m \<mapsto> one_more (R m))) k of None \<Rightarrow> 0 | Some (h, u) \<Rightarrow> u) = int (engaged ?s k)" for k
    using D(6)[of k] D(6)[of m] by (auto simp: one_more_def split: option.splits prod.splits)
  show ?thesis
  proof (rule tiedI)
    show "finite {u. phase ?s u \<noteq> Running}" using finite_phase[OF D(1)] by simp
    show "(case (R(m \<mapsto> one_more (R m))) k of None \<Rightarrow> 0 | Some (h, u) \<Rightarrow> u) = int (engaged ?s k)" for k by (rule e)
    show "owner ?s k = Some v \<and> phase ?s v \<noteq> Acquired k \<or> phase ?s v = Unlocking k"
      if "(R(m \<mapsto> one_more (R m))) k = Some (Some v, u)" for k v u
    proof -
      have "\<exists>u'. R k = Some (Some v, u')" using that by (cases "R k"; cases "k = m") (auto simp: one_more_def)
      then obtain u' where "R k = Some (Some v, u')" ..
      then show ?thesis using D(7)[of k v u'] t by auto
    qed
    show "(W(t \<mapsto> Some m)) u = None \<Longrightarrow> phase ?s u = Running \<and> owner ?s k \<noteq> Some u" for u k
      using D(2)[of u k] by (auto split: if_splits)
    show "(W(t \<mapsto> Some m)) u = Some w \<Longrightarrow> w = wants (phase ?s u)" for u w using D(3)[of u w] by (auto split: if_splits)
    show "phase ?s u = Acquired k \<Longrightarrow> owner ?s k = Some u" for u k using D(4)[of u k] by (auto split: if_splits)
    show "phase ?s u = Unlocking k \<Longrightarrow> owner ?s k \<noteq> Some u" for u k using D(5)[of u k] by (auto split: if_splits)
  qed
qed

lemma tied_acquire:
  assumes T: "tied s W R" and t: "phase s t = Waiting m" "owner s m = None"
  shows "tied (s\<lparr>owner := (owner s)(m := Some t), phase := (phase s)(t := Acquired m)\<rparr>) W R"
proof -
  let ?s = "s\<lparr>owner := (owner s)(m := Some t), phase := (phase s)(t := Acquired m)\<rparr>"
  note D = tiedD[OF T]
  have h: "held ?s k = held s k" for k using t by (auto simp: held_def)
  have e: "engaged ?s k = engaged s k" for k
    using card_busy[OF D(1), of k t "Acquired m"] t unfolding engaged_def h by simp
  show ?thesis
  proof (rule tiedI)
    show "finite {u. phase ?s u \<noteq> Running}" using finite_phase[OF D(1)] by simp
    show "(case R k of None \<Rightarrow> 0 | Some (h, u) \<Rightarrow> u) = int (engaged ?s k)" for k unfolding e by (rule D(6))
    show "owner ?s k = Some v \<and> phase ?s v \<noteq> Acquired k \<or> phase ?s v = Unlocking k" if "R k = Some (Some v, u)" for k v u
      using D(7)[OF that] t by auto
    show "W u = None \<Longrightarrow> phase ?s u = Running \<and> owner ?s k \<noteq> Some u" for u k
      using D(2)[of u k] t by auto
    show "W u = Some w \<Longrightarrow> w = wants (phase ?s u)" for u w using D(3)[of u w] t by auto
    show "phase ?s u = Acquired k \<Longrightarrow> owner ?s k = Some u" for u k
      using D(4)[of u k] t by (auto split: if_splits)
    show "phase ?s u = Unlocking k \<Longrightarrow> owner ?s k \<noteq> Some u" for u k using D(5)[of u k] by (auto split: if_splits)
  qed
qed

lemma tied_after:
  assumes T: "tied s W R" and t: "phase s t = Acquired m" and R: "R m = Some (h, u)"
  shows "tied (s\<lparr>graph := g, phase := (phase s)(t := Running)\<rparr>) (W(t \<mapsto> None)) (R(m \<mapsto> (Some t, u)))"
proof -
  let ?s = "s\<lparr>graph := g, phase := (phase s)(t := Running)\<rparr>"
  note D = tiedD[OF T]
  have o: "owner s m = Some t" using D(4)[OF t] .
  have h: "held ?s k = (k = m \<or> held s k)" "\<not> held s m" for k using t o by (auto simp: held_def)
  have e: "engaged ?s k = engaged s k" for k
    using card_busy[OF D(1), of k t Running] t h(2) unfolding engaged_def h(1) by (cases "k = m") auto
  show ?thesis
  proof (rule tiedI)
    show "finite {u. phase ?s u \<noteq> Running}" using finite_phase[OF D(1)] by simp
    show "(case (R(m \<mapsto> (Some t, u))) k of None \<Rightarrow> 0 | Some (h, u) \<Rightarrow> u) = int (engaged ?s k)" for k
      using D(6)[of k] R unfolding e by auto
    show "owner ?s k = Some v \<and> phase ?s v \<noteq> Acquired k \<or> phase ?s v = Unlocking k"
      if "(R(m \<mapsto> (Some t, u))) k = Some (Some v, w)" for k v w
      using that D(7)[of k v w] t o by (auto split: if_splits)
    show "(W(t \<mapsto> None)) v = None \<Longrightarrow> phase ?s v = Running \<and> owner ?s k \<noteq> Some v" for v k
      using D(2)[of v k] by (auto split: if_splits)
    show "(W(t \<mapsto> None)) v = Some w \<Longrightarrow> w = wants (phase ?s v)" for v w using D(3)[of v w] by (auto split: if_splits)
    show "phase ?s v = Acquired k \<Longrightarrow> owner ?s k = Some v" for v k using D(4)[of v k] by (auto split: if_splits)
    show "phase ?s v = Unlocking k \<Longrightarrow> owner ?s k \<noteq> Some v" for v k using D(5)[of v k] by (auto split: if_splits)
  qed
qed

lemma tied_release:
  assumes T: "tied s W R" and t: "phase s t = Running" "owner s m = Some t"
  shows "tied (s\<lparr>owner := (owner s)(m := None), phase := (phase s)(t := Unlocking m)\<rparr>) W R"
proof -
  let ?s = "s\<lparr>owner := (owner s)(m := None), phase := (phase s)(t := Unlocking m)\<rparr>"
  note D = tiedD[OF T]
  have h: "held ?s k = (k \<noteq> m \<and> held s k)" "held s m" for k using t by (auto simp: held_def)
  have e: "engaged ?s k = engaged s k" for k
    using card_busy[OF D(1), of k t "Unlocking m"] t h(2) unfolding engaged_def h(1) by (cases "k = m") auto
  show ?thesis
  proof (rule tiedI)
    show "finite {u. phase ?s u \<noteq> Running}" using finite_phase[OF D(1)] by simp
    show "(case R k of None \<Rightarrow> 0 | Some (h, u) \<Rightarrow> u) = int (engaged ?s k)" for k unfolding e by (rule D(6))
    show "owner ?s k = Some v \<and> phase ?s v \<noteq> Acquired k \<or> phase ?s v = Unlocking k" if "R k = Some (Some v, u)" for k v u
      using D(7)[OF that] t by auto
    show "W u = None \<Longrightarrow> phase ?s u = Running \<and> owner ?s k \<noteq> Some u" for u k
      using D(2)[of u k] D(2)[of u m] t by auto
    show "W u = Some w \<Longrightarrow> w = wants (phase ?s u)" for u w using D(3)[of u w] t by auto
    show "phase ?s u = Acquired k \<Longrightarrow> owner ?s k = Some u" for u k
      using D(4)[of u k] t by (auto split: if_splits)
    show "phase ?s u = Unlocking k \<Longrightarrow> owner ?s k \<noteq> Some u" for u k
      using D(5)[of u k] t by (auto split: if_splits)
  qed
qed

lemma tied_after_un:
  assumes T: "tied s W R" and t: "phase s t = Unlocking m" and R: "R m = Some (h, u)"
  shows "tied (s\<lparr>graph := g, phase := (phase s)(t := Running)\<rparr>) W (if u = 1 then R(m := None) else R(m \<mapsto> (None, u - 1)))"
proof -
  let ?s = "s\<lparr>graph := g, phase := (phase s)(t := Running)\<rparr>"
  let ?R = "if u = 1 then R(m := None) else R(m \<mapsto> (None, u - 1))"
  note D = tiedD[OF T]
  have h: "held ?s k = held s k" for k using t by (auto simp: held_def)
  have e: "int (engaged ?s k) = int (engaged s k) - of_bool (k = m)" for k
    using card_busy[OF D(1), of k t Running] t unfolding engaged_def h by (cases "k = m") auto
  show ?thesis
  proof (rule tiedI)
    show "finite {u. phase ?s u \<noteq> Running}" using finite_phase[OF D(1)] by simp
    show "(case ?R k of None \<Rightarrow> 0 | Some (h, u) \<Rightarrow> u) = int (engaged ?s k)" for k
      using D(6)[of k] R unfolding e by auto
    show "owner ?s k = Some v \<and> phase ?s v \<noteq> Acquired k \<or> phase ?s v = Unlocking k" if "?R k = Some (Some v, w)" for k v w
    proof -
      have "k \<noteq> m" "R k = Some (Some v, w)" using that by (auto split: if_splits)
      then show ?thesis using D(7)[of k v w] t by auto
    qed
    show "W v = None \<Longrightarrow> phase ?s v = Running \<and> owner ?s k \<noteq> Some v" for v k using D(2)[of v k] by auto
    show "W v = Some w \<Longrightarrow> w = wants (phase ?s v)" for v w using D(3)[of v w] t by auto
    show "phase ?s v = Acquired k \<Longrightarrow> owner ?s k = Some v" for v k using D(4)[of v k] by (auto split: if_splits)
    show "phase ?s v = Unlocking k \<Longrightarrow> owner ?s k \<noteq> Some v" for v k using D(5)[of v k] by (auto split: if_splits)
  qed
qed

text \<open>The last user of a mutex is not waiting for it.\<close>

lemma last_user:
  assumes T: "tied s W R" and t: "phase s t = Unlocking m" and R: "R m = Some (h, 1)"
  shows "W v \<noteq> Some (Some m)"
proof
  assume W: "W v = Some (Some m)"
  note D = tiedD[OF T]
  have "busy m (phase s v)" "v \<noteq> t" using D(3)[OF W] t by (cases "phase s v"; auto)+
  then have "{t, v} \<subseteq> {u. busy m (phase s u)}" "card {t, v} = 2" using t by auto
  then have "2 \<le> card {u. busy m (phase s u)}" using card_mono[OF finite_busy[OF D(1)]] by metis
  moreover have "int (engaged s m) = 1" using D(6)[of m] R by simp
  ultimately show False by (simp add: engaged_def split: if_splits)
qed

subsection \<open>Every step keeps the invariant\<close>

lemma same_represents:
  assumes u: "unmarked g' = unmarked g" and ok: "graph_ok g" and rep: "represents g W R"
  shows "graph_ok g'" "represents g' W R"
proof -
  note S = same_unmarked[OF u]
  have tw: "p < length (vmem g) \<Longrightarrow> tid (vmem g' ! p) = tid (vmem g ! p) \<and> waitting (vmem g' ! p) = waitting (vmem g ! p)" for p
    using S(5)[of p] S(1) by simp
  have ld: "lderef g' = lderef g" by (simp add: fun_eq_iff lderef_def S(4))
  have la: "lock_at g' = lock_at g" by (simp add: fun_eq_iff lock_at_def ld S(3))
  have kn: "known g' = known g" using tw S(1) by (auto simp: fun_eq_iff known_def)
  show "graph_ok g'"
  proof (rule graph_okI; (unfold S(1-4) ld la kn)?)
    show "p < length (vmem g) \<Longrightarrow> waitting (vmem g' ! p) = Some l \<Longrightarrow> l \<in> set (lock_list g)" for p l
      using ok_waitting[OF ok, of p l] tw by simp
    show "vertex_list g = [0..<length (vmem g)]" "distinct (lock_list g)" using ok_lists[OF ok] by simp_all
    show "l \<in> set (lock_list g) \<Longrightarrow> \<exists>r. lderef g l = Some r" for l using ok_lists(3)[OF ok] .
    show "known g t p \<Longrightarrow> known g t q \<Longrightarrow> p = q" for t p q using ok_known[OF ok] .
    show "lock_at g m l r \<Longrightarrow> lock_at g m l' r' \<Longrightarrow> l = l'" for m l r l' r' using ok_lock[OF ok] .
    show "lock_at g m l r \<Longrightarrow> holder r = Some p \<Longrightarrow> p < length (vmem g)" for m l r p using ok_holder[OF ok] .
  qed
  show "represents g' W R"
  proof (rule representsI; (unfold S(1-4) ld la kn)?)
    show "(W t = None) = (\<forall>p. \<not> known g t p)" for t using represents_known[OF rep] .
    show "p < length (vmem g) \<Longrightarrow> waitting (vmem g' ! p) = None \<Longrightarrow> W (tid (vmem g' ! p)) = Some None" for p
      using represents_idle[OF rep, of p] tw by simp
    show "p < length (vmem g) \<Longrightarrow> waitting (vmem g' ! p) = Some l \<Longrightarrow>
        \<exists>m r. lock_at g m l r \<and> W (tid (vmem g' ! p)) = Some (Some m)" for p l
      using represents_waiting[OF rep, of p l] tw by simp
    show "(R m = None) = (\<forall>l r. \<not> lock_at g m l r)" for m using represents_unused[OF rep] .
    show "R m = Some (map_option (\<lambda>p. tid (vmem g' ! p)) (holder r), used r)" if l: "lock_at g m l r" for m l r
    proof -
      have "map_option (\<lambda>p. tid (vmem g' ! p)) (holder r) = map_option (\<lambda>p. tid (vmem g ! p)) (holder r)"
        using ok_holder[OF ok l] tw by (cases "holder r") auto
      then show ?thesis using represents_lock[OF rep l] by simp
    qed
  qed
qed

lemma tied_graph: "tied s W R \<Longrightarrow> tied (s\<lparr>graph := g\<rparr>) W R"
  by (simp add: tied_def engaged_def held_def)

text \<open>What the hooks find: a thread in a hook is known, and its mutex has a record.\<close>

lemma hook_records:
  assumes T: "tied s W R" and b: "busy m (phase s t)"
  shows "W t \<noteq> None" "\<exists>h u. R m = Some (h, u)"
proof -
  show "W t \<noteq> None" using tiedD(2)[OF T, of t m] b by (cases "W t") auto
  have "{t} \<subseteq> {u. busy m (phase s u)}" using b by simp
  then have "card {t} \<le> card {u. busy m (phase s u)}"
    using finite_busy[OF tiedD(1)[OF T]] card_mono by blast
  then have "0 < engaged s m" by (simp add: engaged_def)
  then show "\<exists>h u. R m = Some (h, u)" using tiedD(6)[OF T, of m] by (cases "R m") auto
qed

lemma inv_hooks:
  assumes "inv s"
  shows "phase s t = Acquired m \<Longrightarrow> \<exists>g. after_lock (graph s) t m = Some g \<and> inv (s\<lparr>graph := g, phase := (phase s)(t := Running)\<rparr>)"
    and "phase s t = Unlocking m \<Longrightarrow> \<exists>g. after_unlock (graph s) m = Some g \<and> inv (s\<lparr>graph := g, phase := (phase s)(t := Running)\<rparr>)"
    and "\<exists>out g. detector_round (graph s) = Some (out, g) \<and> inv (s\<lparr>graph := g\<rparr>)"
proof -
  obtain W R where I: "graph_ok (graph s)" "represents (graph s) W R" "tied s W R" using assms unfolding inv_def by blast
  show "\<exists>g. after_lock (graph s) t m = Some g \<and> inv (s\<lparr>graph := g, phase := (phase s)(t := Running)\<rparr>)" if p: "phase s t = Acquired m"
  proof -
    obtain h u where R: "W t \<noteq> None" "R m = Some (h, u)" using hook_records[OF I(3), of m t] p by auto
    then obtain g where "after_lock (graph s) t m = Some g" "graph_ok g" "represents g (W(t \<mapsto> None)) (R(m \<mapsto> (Some t, u)))"
      using after_lock_spec[OF I(1,2)] by blast
    then show ?thesis using tied_after[OF I(3) p R(2), of g] unfolding inv_def by auto
  qed
  show "\<exists>g. after_unlock (graph s) m = Some g \<and> inv (s\<lparr>graph := g, phase := (phase s)(t := Running)\<rparr>)" if p: "phase s t = Unlocking m"
  proof -
    obtain h u where R: "R m = Some (h, u)" using hook_records[OF I(3), of m t] p by auto
    have "u = 1 \<Longrightarrow> \<forall>v. W v \<noteq> Some (Some m)" using last_user[OF I(3) p] R by blast
    then obtain g where "after_unlock (graph s) m = Some g" "graph_ok g"
      "represents g W (if u = 1 then R(m := None) else R(m \<mapsto> (None, u - 1)))"
      using after_unlock_spec[OF I(1,2) R] by blast
    then show ?thesis using tied_after_un[OF I(3) p R, of g] unfolding inv_def by auto
  qed
  obtain out g where "detector_round (graph s) = Some (out, g)" "unmarked g = unmarked (graph s)"
    using detector_round_spec[OF graph_ok_closed[OF I(1,2)]] by blast
  then show "\<exists>out g. detector_round (graph s) = Some (out, g) \<and> inv (s\<lparr>graph := g\<rparr>)"
    using same_represents[OF _ I(1,2)] tied_graph[OF I(3), of g] unfolding inv_def by auto
qed

lemma inv_step:
  assumes "inv s" and "sys_step s s'"
  shows "inv s'"
  using assms(2)
proof cases
  case (before t mem m g)
  obtain W R where I: "graph_ok (graph s)" "represents (graph s) W R" "tied s W R" using assms(1) unfolding inv_def by blast
  then show ?thesis using before before_lock_spec[OF I(1,2) before(3)] tied_before[OF I(3) before(2), where g = g and m = m]
    unfolding inv_def by auto
next
  case (acquire t m)
  obtain W R where "graph_ok (graph s)" "represents (graph s) W R" "tied s W R" using assms(1) unfolding inv_def by blast
  then show ?thesis using acquire tied_acquire[of s W R t m] unfolding inv_def by auto
next
  case (after t m g)
  then show ?thesis using inv_hooks(1)[OF assms(1) after(2)] by auto
next
  case (release t m)
  obtain W R where "graph_ok (graph s)" "represents (graph s) W R" "tied s W R" using assms(1) unfolding inv_def by blast
  then show ?thesis using release tied_release[of s W R t m] unfolding inv_def by auto
next
  case (after_un t m g)
  then show ?thesis using inv_hooks(2)[OF assms(1) after_un(2)] by auto
next
  case (detect out g)
  then show ?thesis using inv_hooks(3)[OF assms(1)] by auto
qed

lemma reachable_inv: "reachable s \<Longrightarrow> inv s"
  unfolding reachable_def by (induction rule: rtranclp_induct) (auto intro: inv_init inv_step)

text \<open>
  C27. In every interleaving no hook goes wrong: \<^verbatim>\<open>before_lock\<close>, called by any thread for any mutex, fails
  only when it has to make a new record and \<^verbatim>\<open>malloc\<close> gives none; \<^verbatim>\<open>after_lock\<close> and \<^verbatim>\<open>after_unlock\<close> find their
  vertex and their lock record, so their assertions never fail; no hook and no round of the detector uses
  a freed lock record, and the round ends.
\<close>

theorem hooks_never_fail:
  assumes "reachable s"
  shows "(\<forall>mem t m. before_lock mem (graph s) t m \<noteq> None \<longleftrightarrow> mem 32
      \<or> (\<exists>p. search_vertex (graph s) t = Some (Some p)) \<and> (\<exists>l. search_lock (graph s) m = Some (Some l)))
    \<and> (\<forall>t m. phase s t = Acquired m \<longrightarrow> after_lock (graph s) t m \<noteq> None)
    \<and> (\<forall>t m. phase s t = Unlocking m \<longrightarrow> after_unlock (graph s) m \<noteq> None)
    \<and> detector_round (graph s) \<noteq> None"
proof (intro conjI allI impI)
  note I = reachable_inv[OF assms]
  note H = inv_hooks[OF I]
  obtain W R where "graph_ok (graph s)" "represents (graph s) W R" using I unfolding inv_def by blast
  then show "before_lock mem (graph s) t m \<noteq> None \<longleftrightarrow> mem 32
      \<or> (\<exists>p. search_vertex (graph s) t = Some (Some p)) \<and> (\<exists>l. search_lock (graph s) m = Some (Some l))" for mem t m
    by (rule before_lock_total)
  show "after_lock (graph s) t m \<noteq> None" if "phase s t = Acquired m" for t m using H(1)[OF that] by (elim exE conjE) simp
  show "after_unlock (graph s) m \<noteq> None" if "phase s t = Unlocking m" for t m using H(2)[OF that] by (elim exE conjE) simp
  show "detector_round (graph s) \<noteq> None" using H(3) by (elim exE conjE) simp
qed

definition whole_round :: "event list" where
  "whole_round = [Before 1 1, Acquire 1 1, After 1 1, Before 2 1, Release 1 1, After_un 1 1, Acquire 2 1, After 2 1, Release 2 1]"

text \<open>The last user of a mutex is about to free its record, and another thread comes for it.\<close>

theorem hooks_never_fail_witness:
  "\<exists>s g g'. play whole_round init_sys = Some s \<and> after_unlock (graph s) 1 = Some g \<and> lmem g = [None]
     \<and> before_lock (\<lambda>_. True) g 3 1 = Some g'"
proof -
  obtain s where s: "play whole_round init_sys = Some s" "phase s 2 = Unlocking 1"
    by (simp add: whole_round_def run_simps)
  have r: "reachable s" unfolding reachable_def using play_steps[OF s(1)] .
  then obtain g where g: "after_unlock (graph s) 1 = Some g" using hooks_never_fail[OF r] s(2) by blast
  define s' where "s' = s\<lparr>graph := g, phase := (phase s)(2 := Running)\<rparr>"
  have "reachable s'" using r sys_step.after_un[OF s(2) g] unfolding reachable_def s'_def by (rule rtranclp.rtrancl_into_rtrancl)
  then have "before_lock (\<lambda>_. True) (graph s') 3 1 \<noteq> None" using hooks_never_fail[of s'] by blast
  then obtain g' where "before_lock (\<lambda>_. True) g 3 1 = Some g'" by (auto simp: s'_def)
  moreover have "lmem g = [None]" using s(1) g by (auto simp: whole_round_def run_simps)
  ultimately show ?thesis using s(1) g by blast
qed

subsection \<open>Reports are deadlocks\<close>

lemma edge_records:
  assumes I: "graph_ok g" "represents g W R" and ab: "(a, b) \<in> edges g"
  shows "\<exists>m x. W (tid (vmem g ! a)) = Some (Some m) \<and> R m = Some (Some (tid (vmem g ! b)), x)"
proof -
  have a: "a < length (vmem g)" using edge_bound[OF ab] .
  have "get_wait_vertex g a = (case waitting (vmem g ! a) of None \<Rightarrow> Some None
      | Some l \<Rightarrow> lderef g l \<bind> (\<lambda>r. Some (holder r)))"
    by (simp add: get_wait_vertex_def rd_in[OF a])
  moreover have "get_wait_vertex g a = Some (Some b)" using ab by (simp add: edges_def)
  ultimately obtain l y where l: "waitting (vmem g ! a) = Some l" "lderef g l = Some y" "holder y = Some b"
    by (cases "waitting (vmem g ! a)") (auto split: bind_splits)
  obtain m r where m: "lock_at g m l r" "W (tid (vmem g ! a)) = Some (Some m)"
    using represents_waiting[OF I(2) a l(1)] by blast
  have "r = y" using m(1) l(2) by (simp add: lock_at_def)
  then have "R m = Some (Some (tid (vmem g ! b)), used r)" using represents_lock[OF I(2) m(1)] l(3) by simp
  then show ?thesis using m(2) by blast
qed

lemma edge_waits:
  assumes I: "graph_ok (graph s)" "represents (graph s) W R" "tied s W R"
    and e: "(p, q) \<in> edges (graph s)" "(q, r) \<in> edges (graph s)"
  shows "waits_for s (tid (vmem (graph s) ! p)) (tid (vmem (graph s) ! q))"
proof -
  let ?g = "graph s"
  let ?t = "tid (vmem ?g ! p)" and ?u = "tid (vmem ?g ! q)"
  note D = tiedD[OF I(3)]
  note edge = edge_records[OF I(1,2)]
  obtain m x where m: "W ?t = Some (Some m)" "R m = Some (Some ?u, x)" using edge[OF e(1)] by blast
  obtain k where k: "W ?u = Some (Some k)" using edge[OF e(2)] by blast
  have "wants (phase s ?u) = Some k" using D(3)[OF k] by simp
  then have o: "owner s m = Some ?u" "phase s ?u \<noteq> Acquired m" using D(7)[OF m(2)] by auto
  have "wants (phase s ?t) = Some m" using D(3)[OF m(1)] by simp
  then have "phase s ?t = Waiting m \<or> phase s ?t = Acquired m" by (cases "phase s ?t") auto
  then have "phase s ?t = Waiting m" using D(4)[of ?t m] o by auto
  then show ?thesis using o unfolding waits_for_def by blast
qed

lemma walk_edge: "walk g ps \<Longrightarrow> Suc i < length ps \<Longrightarrow> (ps ! i, ps ! Suc i) \<in> edges g"
proof (induction ps arbitrary: i rule: induct_list012)
  case (3 p q ps)
  then show ?case by (cases i) simp_all
qed simp_all

text \<open>
  C26. The detector raises no false alarm: in every reachable state, whatever hooks other threads are in,
  the threads that it prints are deadlocked. Each waits in \<^verbatim>\<open>pthread_mutex_lock\<close> for a mutex that the
  next one owns, and the last is the first.
\<close>

theorem no_false_alarm:
  assumes "reachable s" and "detector_round (graph s) = Some (Some ts, g)"
  shows "1 < length ts \<and> hd ts = last ts \<and> (\<forall>i. Suc i < length ts \<longrightarrow> waits_for s (ts ! i) (ts ! Suc i))"
proof -
  obtain W R where I: "graph_ok (graph s)" "represents (graph s) W R" "tied s W R"
    using reachable_inv[OF assms(1)] unfolding inv_def by blast
  let ?g = "graph s"
  have "\<exists>c ps. ps \<noteq> [] \<and> last ps = c \<and> walk ?g (c # ps) \<and> ts = tids ?g (c # ps)"
    using detector_round_spec[OF graph_ok_closed[OF I(1,2)]] assms(2) unfolding reports_def by fastforce
  then obtain c ps where w: "ps \<noteq> []" "last ps = c" "walk ?g (c # ps)" "ts = tids ?g (c # ps)" by blast
  define cs where "cs = c # ps"
  have cs: "1 < length cs" "hd cs = c" "last cs = c" "walk ?g cs" "ts = tids ?g cs"
    using w by (simp_all add: cs_def)
  have next': "\<exists>r. (cs ! Suc i, r) \<in> edges ?g" if i: "Suc i < length cs" for i
  proof (cases "Suc (Suc i) < length cs")
    case True
    then show ?thesis using walk_edge[OF cs(4)] by blast
  next
    case False
    then have "Suc i = length cs - 1" using i by simp
    then have "cs ! Suc i = cs ! 0" using cs(1-3) by (metis hd_conv_nth last_conv_nth length_0_conv not_one_less_zero)
    then show ?thesis using walk_edge[OF cs(4), of 0] cs(1) by auto
  qed
  have "waits_for s (ts ! i) (ts ! Suc i)" if i: "Suc i < length ts" for i
  proof -
    have j: "Suc i < length cs" using i cs(5) by simp
    obtain r where "(cs ! Suc i, r) \<in> edges ?g" using next'[OF j] by blast
    then have "waits_for s (tid (vmem ?g ! (cs ! i))) (tid (vmem ?g ! (cs ! Suc i)))"
      using edge_waits[OF I walk_edge[OF cs(4) j]] by blast
    then show ?thesis using j cs(5) by simp
  qed
  moreover have "cs \<noteq> []" using cs(1) by auto
  ultimately show ?thesis using cs by (simp add: hd_map last_map)
qed

definition embrace :: "event list" where
  "embrace = [Before 1 1, Acquire 1 1, After 1 1, Before 2 2, Acquire 2 2, After 2 2, Before 1 2, Before 2 1]"

theorem no_false_alarm_witness:
  "\<exists>s g. play embrace init_sys = Some s \<and> detector_round (graph s) = Some (Some [1, 2, 1], g)
     \<and> waits_for s 1 2 \<and> waits_for s 2 1"
proof -
  obtain s g where s: "play embrace init_sys = Some s" "detector_round (graph s) = Some (Some [1, 2, 1], g)"
    by (simp add: embrace_def run_simps numeral_nat fun_upd_twist detector_round_def detector_while.simps
      search_cross.simps print_cycle_def print_while.simps)
  then have "reachable s" unfolding reachable_def using play_steps by blast
  then have "\<forall>i. Suc i < 3 \<longrightarrow> waits_for s ([1, 2, 1] ! i) ([1, 2, 1] ! Suc i)"
    using no_false_alarm[OF _ s(2)] by simp
  then have "waits_for s 1 2" "waits_for s 2 1" by (auto dest: spec[of _ 0] spec[of _ 1])
  then show ?thesis using s by blast
qed

subsection \<open>A deadlock that is not seen\<close>

text \<open>
  \<^verbatim>\<open>after_unlock\<close> clears the holder of the record whoever it is: when another thread has got the mutex since the
  real unlock, its ownership is forgotten, and no arrow of the graph leads to it through this mutex.
\<close>

lemma after_unlock_forgets_owner:
  assumes "reachable s" and "phase s t = Unlocking m" and "owner s m = Some u" and "after_unlock (graph s) m = Some g"
  shows "\<exists>l r. search_lock g m = Some (Some l) \<and> lderef g l = Some r \<and> holder r = None"
proof -
  obtain W R where I: "graph_ok (graph s)" "represents (graph s) W R" "tied s W R"
    using reachable_inv[OF assms(1)] unfolding inv_def by blast
  note D = tiedD[OF I(3)]
  have f: "finite {v. busy m (phase s v)}" using finite_busy[OF D(1)] .
  have "2 \<le> engaged s m"
  proof (cases "phase s u = Acquired m")
    case True
    have "u \<noteq> t" using True assms(2) by auto
    then have "card {u, t} = 2" by simp
    moreover have "{u, t} \<subseteq> {v. busy m (phase s v)}" using True assms(2) by simp
    ultimately show ?thesis using card_mono[OF f, of "{u, t}"] by (simp add: engaged_def)
  next
    case False
    have "{t} \<subseteq> {v. busy m (phase s v)}" using assms(2) by simp
    then show ?thesis using card_mono[OF f, of "{t}"] False assms(3) by (auto simp: engaged_def held_def)
  qed
  moreover obtain h k where R: "R m = Some (h, k)" using hook_records[OF I(3), of m t] assms(2) by auto
  ultimately have k: "k \<noteq> 1" using D(6)[of m] by auto
  then obtain g' where "after_unlock (graph s) m = Some g'" "graph_ok g'" "represents g' W (R(m \<mapsto> (None, k - 1)))"
    using after_unlock_spec[OF I(1,2) R] by auto
  then have g: "graph_ok g" "represents g W (R(m \<mapsto> (None, k - 1)))" using assms(4) by simp_all
  obtain l r where l: "search_lock g m = Some (Some l)" "lock_at g m l r" using search_both(2)[OF g, of m] by auto
  have "holder r = None" using represents_lock[OF g(2) l(2)] by simp
  then show ?thesis using l by (auto simp: lock_at_def)
qed

definition missed :: "event list" where
  "missed = [Before 1 1, Acquire 1 1, After 1 1, Before 2 1, Release 1 1, Acquire 2 1, After 2 1, After_un 1 1,
     Before 3 2, Acquire 3 2, After 3 2, Before 2 2, Before 3 1]"

definition missed_state :: sys where
  "missed_state = \<lparr>
     graph = \<lparr>vertex_list = [0, 1, 2], lock_list = [0, 1],
       vmem = [\<lparr>tid = 1, waitting = None, visited = 0\<rparr>, \<lparr>tid = 2, waitting = Some 1, visited = 0\<rparr>,
               \<lparr>tid = 3, waitting = Some 0, visited = 0\<rparr>],
       lmem = [Some \<lparr>holder = None, lock = 1, used = 2\<rparr>, Some \<lparr>holder = Some 2, lock = 2, used = 2\<rparr>]\<rparr>,
     owner = (\<lambda>_. None)(1 := Some 2, 2 := Some 3),
     phase = (\<lambda>_. Running)(2 := Waiting 2, 3 := Waiting 1)\<rparr>"

lemma play_missed: "play missed init_sys = Some missed_state"
  by (simp add: missed_def missed_state_def run_simps numeral_nat fun_upd_twist fun_upd_idem)

lemma missed_round: "\<exists>g. detector_round (graph missed_state) = Some (None, g)"
  by (simp add: missed_state_def detector_round_def detector_while.simps search_cross.simps run_simps numeral_nat)

text \<open>
  Not every deadlock is reported. Thread 1 unlocks a mutex for which thread 2 waits; thread 2 gets it
  and records itself as the holder before thread 1 comes to \<^verbatim>\<open>after_unlock\<close>, which clears the holder.
  Threads 2 and 3 can then deadlock, with no thread between the real operation and its hook, and the
  detector finds nothing.
\<close>

lemma detector_misses_deadlock:
  "\<exists>s g. reachable s \<and> waits_for s 2 3 \<and> waits_for s 3 2 \<and> (\<forall>t. phase s t = Running \<or> (\<exists>m. phase s t = Waiting m))
     \<and> detector_round (graph s) = Some (None, g)"
proof -
  have "reachable missed_state" using play_steps[OF play_missed] by (simp add: reachable_def)
  moreover have "waits_for missed_state 2 3" "waits_for missed_state 3 2"
    "\<forall>t. phase missed_state t = Running \<or> (\<exists>m. phase missed_state t = Waiting m)"
    by (auto simp: missed_state_def waits_for_def)
  ultimately show ?thesis using missed_round by blast
qed

end
