(* ===== verification/Net_Stack.thy ===== *)
theory Net_Stack
  imports Prelude "HOL-Library.Word"
begin

text \<open>
  \<^verbatim>\<open>5_userspace_stack/udp_icmp_arp_stack.c\<close>: a user-space stack over netmap that prints UDP payloads and
  answers pings and ARP requests. A packet is its list of bytes; a packed struct is the list of its
  fields with their sizes, so that a cast of the packet to the struct gives every field its place. The
  host is little-endian. An IP address, which the code only copies and compares, is its four bytes.
  \<open>None\<close> is an access outside the packet.
\<close>

type_synonym byte = "8 word"
type_synonym u16 = "16 word"

definition le16 :: "byte \<Rightarrow> byte \<Rightarrow> u16" where
  "le16 a b = of_nat (unat a + 256 * unat b)"

definition bytes16 :: "u16 \<Rightarrow> byte list" where
  "bytes16 w = [of_nat (unat w mod 256), of_nat (unat w div 256)]"

definition ntohs :: "u16 \<Rightarrow> u16" where
  "ntohs w = of_nat (256 * (unat w mod 256) + unat w div 256)"

abbreviation htons :: "u16 \<Rightarrow> u16" where
  "htons \<equiv> ntohs"

subsection \<open>The packed structs\<close>

definition ETH_LEN :: nat where "ETH_LEN = 6"
definition IP_LEN :: nat where "IP_LEN = 4"
definition PROTO_IP :: u16 where "PROTO_IP = 0x0800"
definition PROTO_ARP :: u16 where "PROTO_ARP = 0x0806"
definition arp_op_request :: u16 where "arp_op_request = 1"
definition arp_op_reply :: u16 where "arp_op_reply = 2"
definition SELF_IP :: string where "SELF_IP = ''192.168.131.129''"
definition SELF_MAC :: string where "SELF_MAC = ''00:0c:29:ef:e2:3b''"

datatype fld =
    Eth_dst_mac | Eth_src_mac | Eth_proto
  | Arp_hw_type | Arp_proto_type | Arp_hw_addr_len | Arp_proto_addr_len | Arp_op
  | Arp_src_mac | Arp_src_ip | Arp_dst_mac | Arp_dst_ip
  | Ip_version_header_len | Ip_tos | Ip_total_len | Ip_id | Ip_flag_off | Ip_ttl | Ip_proto | Ip_header_check
  | Ip_src_ip | Ip_dst_ip
  | Udp_src_port | Udp_dst_port | Udp_length | Udp_check
  | Icmp_type | Icmp_code | Icmp_checkSum | Icmp_identifier | Icmp_seq

type_synonym layout = "(fld \<times> nat) list"

definition eth_header :: layout where
  "eth_header = [(Eth_dst_mac, ETH_LEN), (Eth_src_mac, ETH_LEN), (Eth_proto, 2)]"

definition arp_header :: layout where
  "arp_header = [(Arp_hw_type, 2), (Arp_proto_type, 2), (Arp_hw_addr_len, 1), (Arp_proto_addr_len, 1), (Arp_op, 2),
     (Arp_src_mac, ETH_LEN), (Arp_src_ip, 4), (Arp_dst_mac, ETH_LEN), (Arp_dst_ip, 4)]"

definition arp_packet :: layout where
  "arp_packet = eth_header @ arp_header"

definition ip_header :: layout where
  "ip_header = [(Ip_version_header_len, 1), (Ip_tos, 1), (Ip_total_len, 2), (Ip_id, 2), (Ip_flag_off, 2), (Ip_ttl, 1),
     (Ip_proto, 1), (Ip_header_check, 2), (Ip_src_ip, 4), (Ip_dst_ip, 4)]"

definition ip_packet :: layout where
  "ip_packet = eth_header @ ip_header"

definition udp_header :: layout where
  "udp_header = [(Udp_src_port, 2), (Udp_dst_port, 2), (Udp_length, 2), (Udp_check, 2)]"

definition udp_packet :: layout where
  "udp_packet = eth_header @ ip_header @ udp_header"

definition icmp_header :: layout where
  "icmp_header = [(Icmp_type, 1), (Icmp_code, 1), (Icmp_checkSum, 2)]"

definition icmp_packet :: layout where
  "icmp_packet = eth_header @ ip_header @ icmp_header"

definition icmp_ping_header :: layout where
  "icmp_ping_header = icmp_header @ [(Icmp_identifier, 2), (Icmp_seq, 2)]"

definition icmp_ping_packet :: layout where
  "icmp_ping_packet = eth_header @ ip_header @ icmp_ping_header"

definition sizeof :: "layout \<Rightarrow> nat" where
  "sizeof lay = sum_list (map snd lay)"

text \<open>Where a field starts and how long it is.\<close>

fun place :: "layout \<Rightarrow> fld \<Rightarrow> nat \<Rightarrow> nat \<times> nat" where
  "place [] f p = (p, 0)"
| "place ((k, n) # lay) f p = (if k = f then (p, n) else place lay f (p + n))"

definition get :: "layout \<Rightarrow> fld \<Rightarrow> byte list \<Rightarrow> byte list option" where
  "get lay f s = (case place lay f 0 of (p, n) \<Rightarrow> if p + n \<le> length s then Some (take n (drop p s)) else None)"

definition get8 :: "layout \<Rightarrow> fld \<Rightarrow> byte list \<Rightarrow> byte option" where
  "get8 lay f s = rd s (fst (place lay f 0))"

definition get16 :: "layout \<Rightarrow> fld \<Rightarrow> byte list \<Rightarrow> u16 option" where
  "get16 lay f s = (case place lay f 0 of (p, n) \<Rightarrow> rd s p \<bind> (\<lambda>a. rd s (p + 1) \<bind> (\<lambda>b. Some (le16 a b))))"

definition put :: "layout \<Rightarrow> fld \<Rightarrow> byte list \<Rightarrow> byte list \<Rightarrow> byte list option" where
  "put lay f v s = (case place lay f 0 of (p, n) \<Rightarrow> blit s p v n)"

subsection \<open>What the program sends and prints\<close>

record net =
  sent :: "byte list list"
  stdout :: string

definition printf :: "string \<Rightarrow> net \<Rightarrow> net" where
  "printf t n = n\<lparr>stdout := stdout n @ t\<rparr>"

definition nm_inject :: "byte list \<Rightarrow> net \<Rightarrow> net" where
  "nm_inject p n = n\<lparr>sent := sent n @ [p]\<rparr>"

subsection \<open>The checksum\<close>

text \<open>\<^verbatim>\<open>sum\<close> is an \<^verbatim>\<open>int\<close>: its overflow is undefined.\<close>

definition add_int :: "int \<Rightarrow> int \<Rightarrow> int option" where
  "add_int a b = (if a + b < 2 ^ 31 then Some (a + b) else None)"

function cksum_while :: "byte list \<Rightarrow> nat \<Rightarrow> int \<Rightarrow> int \<Rightarrow> (nat \<times> int \<times> int) option" where
  "cksum_while s w nleft acc =
     (if nleft > 1
      then rd s w \<bind> (\<lambda>a. rd s (w + 1) \<bind> (\<lambda>b. add_int acc (uint (le16 a b)) \<bind> (\<lambda>acc.
             cksum_while s (w + 2) (nleft - 2) acc)))
      else Some (w, nleft, acc))"
  by pat_completeness auto
termination by (relation "measure (\<lambda>(s, w, nleft, acc). nat nleft)") auto

declare cksum_while.simps [simp del]

definition in_cksum :: "byte list \<Rightarrow> nat \<Rightarrow> int \<Rightarrow> u16 option" where
  "in_cksum s addr n =
     cksum_while s addr n 0 \<bind> (\<lambda>(w, nleft, acc).
     (if nleft = 1 then rd s w \<bind> (\<lambda>a. add_int acc (uint a)) else Some acc) \<bind> (\<lambda>acc.
       (let acc = acc div 65536 + acc mod 65536;
            acc = acc + acc div 65536
        in Some (word_of_int (- acc - 1)))))"

subsection \<open>Addresses as text\<close>

definition hex02 :: "byte \<Rightarrow> string" where
  "hex02 b = [''0123456789abcdef'' ! (unat b div 16), ''0123456789abcdef'' ! (unat b mod 16)]"

fun mac_for :: "byte list \<Rightarrow> nat list \<Rightarrow> net \<Rightarrow> net option" where
  "mac_for mac [] n = Some n"
| "mac_for mac (i # is) n = rd mac i \<bind> (\<lambda>b. mac_for mac is (printf (hex02 b @ '':'') n))"

definition print_mac :: "byte list \<Rightarrow> net \<Rightarrow> net option" where
  "print_mac mac n =
     mac_for mac [0..<ETH_LEN - 1] n \<bind> (\<lambda>n. rd mac (ETH_LEN - 1) \<bind> (\<lambda>b. Some (printf (hex02 b) n)))"

fun ip_for :: "byte list \<Rightarrow> nat list \<Rightarrow> net \<Rightarrow> net option" where
  "ip_for ip [] n = Some n"
| "ip_for ip (i # is) n = rd ip i \<bind> (\<lambda>b. ip_for ip is (printf (dec (unat b) @ ''.'') n))"

definition print_ip :: "byte list \<Rightarrow> net \<Rightarrow> net option" where
  "print_ip ip n =
     ip_for ip [0..<IP_LEN - 1] n \<bind> (\<lambda>n. rd ip (IP_LEN - 1) \<bind> (\<lambda>b. Some (printf (dec (unat b)) n)))"

definition hex_val :: "char \<Rightarrow> byte option" where
  "hex_val c =
     (if 97 \<le> code c \<and> code c \<le> 102 then Some (of_nat (code c - 97 + 10))
      else if 65 \<le> code c \<and> code c \<le> 70 then Some (of_nat (code c - 65 + 10))
      else if 48 \<le> code c \<and> code c \<le> 57 then Some (of_nat (code c - 48))
      else None)"

text \<open>\<open>Inl\<close> is the return of \<open>-1\<close> for an illegal character, with the array as it is then.\<close>

fun str2mac_while :: "byte list \<Rightarrow> string \<Rightarrow> nat \<Rightarrow> byte \<Rightarrow> (byte list + byte list \<times> nat \<times> byte) option" where
  "str2mac_while mac [] idx val = None"
| "str2mac_while mac (c # p) idx val =
     (if c \<noteq> NUL \<and> idx < ETH_LEN
      then if c \<noteq> CHR '':''
           then (case hex_val c of
                   None \<Rightarrow> Some (Inl mac)
                 | Some d \<Rightarrow> str2mac_while mac p idx (push_bit 4 val + d))
           else wr mac idx val \<bind> (\<lambda>mac. str2mac_while mac p (idx + 1) 0)
      else Some (Inr (mac, idx, val)))"

definition str2mac :: "byte list option \<Rightarrow> string option \<Rightarrow> (int \<times> byte list option) option" where
  "str2mac mac macstr =
     (case (mac, macstr) of
        (Some m, Some s) \<Rightarrow>
          str2mac_while m s 0 0 \<bind> (\<lambda>r. case r of
            Inl m \<Rightarrow> Some (- 1, Some m)
          | Inr (m, idx, val) \<Rightarrow>
              if idx < ETH_LEN then wr m idx val \<bind> (\<lambda>m. Some (0, Some m)) else Some (- 1, Some m))
      | _ \<Rightarrow> Some (- 1, mac))"

text \<open>\<^verbatim>\<open>inet_addr\<close> of four decimal numbers below 256.\<close>

fun inet_addr :: "string \<Rightarrow> nat \<Rightarrow> byte list" where
  "inet_addr [] n = [of_nat n]"
| "inet_addr (c # s) n = (if c = CHR ''.'' then of_nat n # inet_addr s 0 else inet_addr s (10 * n + (code c - 48)))"

subsection \<open>The protocols\<close>

text \<open>The packet buffer is changed by the NUL that ends the payload.\<close>

definition udp_process :: "byte list \<Rightarrow> net \<Rightarrow> (int \<times> byte list \<times> net) option" where
  "udp_process stream n =
     get16 udp_packet Udp_length stream \<bind> (\<lambda>l.
     wr stream (sizeof udp_packet + size_t (int (unat (ntohs l)) - int (sizeof udp_header))) 0 \<bind> (\<lambda>stream.
     (let payload = map (\<lambda>b. char_of (unat b)) (drop (sizeof udp_packet) stream)
      in strlen payload \<bind> (\<lambda>k.
        Some (0, stream, printf (''udp recv payload: '' @ take k payload @ [CHR 0x0a]) n)))))"

definition icmp_print :: "byte list \<Rightarrow> u16 \<Rightarrow> u16 \<Rightarrow> net \<Rightarrow> net option" where
  "icmp_print stream icmp_len icmp_datalen n =
     (let n = printf (''recv ping(icmp_len='' @ dec (unat icmp_len) @ '',datalen='' @ dec (unat icmp_datalen) @ '') from '') n
      in get icmp_packet Eth_src_mac stream \<bind> (\<lambda>mac. print_mac mac n \<bind> (\<lambda>n.
         get icmp_packet Ip_src_ip stream \<bind> (\<lambda>ip. print_ip ip (printf ''('' n) \<bind> (\<lambda>n.
           Some (printf ('')'' @ [CHR 0x0a]) n))))))"

definition icmp_reply :: "byte list \<Rightarrow> nat \<Rightarrow> byte list option" where
  "icmp_reply stream datalen =
     (let size = sizeof icmp_ping_packet + datalen; P = icmp_ping_packet
      in (if size \<le> length stream then Some (take size stream) else None) \<bind> (\<lambda>ack.
         put P Icmp_code [0] ack \<bind> (\<lambda>ack. put P Icmp_type [0] ack \<bind> (\<lambda>ack. put P Icmp_checkSum [0, 0] ack \<bind> (\<lambda>ack.
         get P Ip_src_ip stream \<bind> (\<lambda>ip. put P Ip_dst_ip ip ack \<bind> (\<lambda>ack.
         get P Ip_dst_ip stream \<bind> (\<lambda>ip. put P Ip_src_ip ip ack \<bind> (\<lambda>ack.
         get P Eth_src_mac stream \<bind> (\<lambda>mac. put P Eth_dst_mac mac ack \<bind> (\<lambda>ack.
         get P Eth_dst_mac stream \<bind> (\<lambda>mac. put P Eth_src_mac mac ack \<bind> (\<lambda>ack.
         in_cksum ack (fst (place P Icmp_type 0)) (int (sizeof icmp_ping_header + datalen)) \<bind> (\<lambda>c.
           put P Icmp_checkSum (bytes16 c) ack))))))))))))))"

definition icmp_process :: "(nat \<Rightarrow> bool) \<Rightarrow> byte list \<Rightarrow> net \<Rightarrow> (int \<times> net) option" where
  "icmp_process mem stream n =
     get16 icmp_packet Ip_total_len stream \<bind> (\<lambda>total_len. get8 icmp_packet Ip_version_header_len stream \<bind> (\<lambda>vh.
     (let icmp_len = ntohs total_len - of_nat (unat vh mod 16 * 4);
          icmp_datalen = icmp_len - of_nat (sizeof icmp_ping_header)
      in get8 icmp_packet Icmp_type stream \<bind> (\<lambda>type.
         if type = 8
         then icmp_print stream icmp_len icmp_datalen n \<bind> (\<lambda>n.
              if \<not> mem (sizeof icmp_ping_packet + unat icmp_datalen) then Some (- 1, n)
              else icmp_reply stream (unat icmp_datalen) \<bind> (\<lambda>ack. Some (0, nm_inject ack n)))
         else Some (0, n)))))"

definition ip_process :: "(nat \<Rightarrow> bool) \<Rightarrow> byte list \<Rightarrow> net \<Rightarrow> (int \<times> byte list \<times> net) option" where
  "ip_process mem stream n =
     get8 ip_packet Ip_proto stream \<bind> (\<lambda>p.
       if p = 17 then udp_process stream n \<bind> (\<lambda>(_, stream, n). Some (0, stream, n))
       else if p = 1 then icmp_process mem stream n \<bind> (\<lambda>(_, n). Some (0, stream, n))
       else Some (0, stream, n))"

definition arp_print :: "byte list \<Rightarrow> u16 \<Rightarrow> net \<Rightarrow> net option" where
  "arp_print stream op n =
     get arp_packet Arp_src_mac stream \<bind> (\<lambda>mac. get arp_packet Arp_src_ip stream \<bind> (\<lambda>src.
     get arp_packet Arp_dst_ip stream \<bind> (\<lambda>dst.
     print_mac mac (printf (''recv arp(op:'' @ dec (unat op) @ '') from '') n) \<bind> (\<lambda>n.
     print_ip src (printf '' ('' n) \<bind> (\<lambda>n. print_ip dst (printf '') to ('' n) \<bind> (\<lambda>n.
       Some (printf ('')'' @ [CHR 0x0a]) n)))))))"

definition arp_reply :: "byte list \<Rightarrow> byte list \<Rightarrow> byte list \<Rightarrow> byte list option" where
  "arp_reply stream localip localmac =
     (let P = arp_packet
      in blit (replicate (sizeof P) 0) 0 stream (sizeof P) \<bind> (\<lambda>ack.
         get P Arp_src_mac stream \<bind> (\<lambda>mac. put P Arp_dst_mac mac ack \<bind> (\<lambda>ack.
         get P Arp_src_ip stream \<bind> (\<lambda>ip. put P Arp_dst_ip ip ack \<bind> (\<lambda>ack.
         get P Arp_src_mac stream \<bind> (\<lambda>mac. put P Eth_dst_mac mac ack \<bind> (\<lambda>ack.
         put P Arp_src_mac localmac ack \<bind> (\<lambda>ack. put P Arp_src_ip localip ack \<bind> (\<lambda>ack.
         put P Eth_src_mac localmac ack \<bind> (\<lambda>ack. put P Arp_op (bytes16 (htons arp_op_reply)) ack)))))))))))"

text \<open>\<open>junk\<close> is what the array \<^verbatim>\<open>localmac\<close> holds before it is filled.\<close>

definition arp_process :: "byte list \<Rightarrow> byte list \<Rightarrow> net \<Rightarrow> (int \<times> net) option" where
  "arp_process junk stream n =
     get16 arp_packet Arp_op stream \<bind> (\<lambda>op.
     (let op = ntohs op; localip = inet_addr SELF_IP 0
      in arp_print stream op n \<bind> (\<lambda>n. get arp_packet Arp_dst_ip stream \<bind> (\<lambda>dst.
         if dst \<noteq> localip then Some (- 1, n)
         else str2mac (Some junk) (Some (cstr SELF_MAC)) \<bind> (\<lambda>(_, mac). mac \<bind> (\<lambda>localmac.
              print_mac localmac (printf ''confirmed arp to me: '' n) \<bind> (\<lambda>n.
              print_ip localip (printf '' ('' n) \<bind> (\<lambda>n.
              (let n = printf ('')'' @ [CHR 0x0a]) n
               in if op = arp_op_request
                  then arp_reply stream localip localmac \<bind> (\<lambda>ack. Some (0, nm_inject ack n))
                  else Some (- 1, printf (''op not implemented.'' @ [CHR 0x0a]) n))))))))))"

text \<open>
  One round of the loop in \<^verbatim>\<open>main\<close>: \<open>ret\<close> and \<open>pollin\<close> are what \<^verbatim>\<open>poll\<close> gives, \<open>stream\<close> what
  \<^verbatim>\<open>nm_nextpkt\<close> returns.
\<close>

definition main_round ::
  "(nat \<Rightarrow> bool) \<Rightarrow> byte list \<Rightarrow> int \<Rightarrow> bool \<Rightarrow> byte list option \<Rightarrow> net \<Rightarrow> net option" where
  "main_round mem junk ret pollin stream n =
     (if ret < 0 then Some n
      else if pollin
      then stream \<bind> (\<lambda>stream. get16 eth_header Eth_proto stream \<bind> (\<lambda>p.
           (let proto = ntohs p
            in if proto = PROTO_IP then ip_process mem stream n \<bind> (\<lambda>(_, _, n). Some n)
               else if proto = PROTO_ARP then arp_process junk stream n \<bind> (\<lambda>(_, n). Some n)
               else Some (printf (''error: unknown protocal.'' @ [CHR 0x0a]) n))))
      else Some n)"

end
