(* ===== verification/Net_Laws.thy ===== *)
theory Net_Laws
  imports Net_Stack
begin

text \<open>The checksum against its reference, the replies of the stack, and the text form of a MAC address.\<close>

subsection \<open>One's complement sums\<close>

text \<open>The sum with end-around carry of RFC 1071, word by word, and the checksum it gives.\<close>

fun u16s :: "byte list \<Rightarrow> u16 list" where
  "u16s [] = []"
| "u16s [a] = [le16 a 0]"
| "u16s (a # b # bs) = le16 a b # u16s bs"

definition ones_add :: "u16 \<Rightarrow> u16 \<Rightarrow> u16" where
  "ones_add a b = (if a + b < a then a + b + 1 else a + b)"

definition rfc1071 :: "byte list \<Rightarrow> u16" where
  "rfc1071 bs = - 1 - foldl ones_add 0 (u16s bs)"

text \<open>The representative of a sum modulo 65535: zero only for zero.\<close>

definition norm1 :: "int \<Rightarrow> int" where
  "norm1 n = (if n = 0 then 0 else (n - 1) mod 65535 + 1)"

lemma norm1_small: "0 \<le> n \<Longrightarrow> n \<le> 65535 \<Longrightarrow> norm1 n = n"
  by (simp add: norm1_def)

lemma norm1_step: "0 < n \<Longrightarrow> norm1 (n + 65535) = norm1 n"
proof -
  have "(n + 65535 - 1) mod 65535 = (n - 1 + 65535) mod 65535" by (simp add: algebra_simps)
  also have "\<dots> = (n - 1) mod 65535" by (rule mod_add_self2)
  finally show "0 < n \<Longrightarrow> ?thesis" by (simp add: norm1_def)
qed

lemma norm1_range: "0 \<le> n \<Longrightarrow> 0 \<le> norm1 n \<and> norm1 n \<le> 65535"
  using pos_mod_bound[of 65535 "n - 1"] by (auto simp: norm1_def)

lemma norm1_add: "0 \<le> m \<Longrightarrow> 0 \<le> n \<Longrightarrow> norm1 (norm1 m + n) = norm1 (m + n)"
  by (auto simp: norm1_def mod_simps algebra_simps)

lemma norm1_fold:
  assumes "0 \<le> s" "s < 2 ^ 31"
  shows "(let s1 = s div 65536 + s mod 65536 in (s1 + s1 div 65536) mod 65536) = norm1 s"
proof -
  define q where "q = s div 65536"
  define s1 where "s1 = q + s mod 65536"
  have q: "0 \<le> q" "q < 32768" using assms by (auto simp: q_def)
  have s: "s = q * 65535 + s1" using div_mult_mod_eq[of s 65536] unfolding s1_def q_def by linarith
  have r: "0 \<le> s mod 65536" "s mod 65536 < 65536" by simp_all
  have s1: "0 \<le> s1" "s1 < 98304" using q r unfolding s1_def by linarith+
  have n: "norm1 s = norm1 s1"
  proof (cases "s1 = 0")
    case True
    then have "q = 0" using q r unfolding s1_def by linarith
    then show ?thesis using s by simp
  next
    case False
    then have "s \<noteq> 0" using s q s1 by linarith
    moreover have "(s - 1) mod 65535 = (s1 - 1 + q * 65535) mod 65535" unfolding s by (simp add: algebra_simps)
    moreover have "(s1 - 1 + q * 65535) mod 65535 = (s1 - 1) mod 65535" by (rule mod_mult_self1)
    ultimately show ?thesis using False by (simp add: norm1_def)
  qed
  have "(s1 + s1 div 65536) mod 65536 = norm1 s1"
  proof (cases "s1 < 65536")
    case True
    then have "s1 div 65536 = 0" using s1 by simp
    then show ?thesis using True s1 by (simp add: norm1_small)
  next
    case False
    define d where "d = s1 - 65535"
    have d: "0 < d" "d \<le> 65535" "s1 = d + 65535" using False s1 by (simp_all add: d_def)
    have "s1 div 65536 = 1" using d by simp
    then have "(s1 + s1 div 65536) mod 65536 = d mod 65536" using d(3) by simp
    then show ?thesis using d norm1_step[of d] norm1_small[of d] by simp
  qed
  then show ?thesis using n by (simp add: s1_def q_def Let_def)
qed

lemma unat_le16: "unat (le16 a b) = unat a + 256 * unat b"
proof -
  have "unat a < 256" "unat b < 256" using unsigned_less[of a] unsigned_less[of b] by simp_all
  then have "(unat a + 256 * unat b) mod 65536 = unat a + 256 * unat b" by simp
  then show ?thesis unfolding le16_def by (simp only: unsigned_of_nat take_bit_eq_mod) simp
qed

lemma uint_le16: "uint (le16 a b) = uint a + 256 * uint b"
  using arg_cong[OF unat_le16, of int a b] by simp

lemma uint_ones_add: "uint (ones_add a b) = norm1 (uint a + uint b)"
proof -
  have r: "uint a < 65536" "uint b < 65536" "0 \<le> uint a" "0 \<le> uint b"
    using uint_lt2p[of a] uint_lt2p[of b] by simp_all
  have ab: "uint (a + b) = (uint a + uint b) mod 65536" by (simp add: uint_word_ariths)
  show ?thesis
  proof (cases "uint a + uint b < 65536")
    case True
    then have "uint (a + b) = uint a + uint b" using ab r by simp
    moreover from this have "\<not> a + b < a" using r by (simp add: word_less_def)
    ultimately show ?thesis using True r by (simp add: ones_add_def norm1_small)
  next
    case False
    define d where "d = uint a + uint b - 65535"
    have d: "0 < d" "d < 65536" "uint a + uint b = d + 65535" using False r by (simp_all add: d_def)
    have u: "uint (a + b) = d - 1" using ab d(1,2) mod_add_self2[of "d - 1" 65536] unfolding d(3) by (simp add: add.commute)
    then have "a + b < a" using d r by (simp add: word_less_def)
    moreover have "uint (a + b + 1) = d" using u d by (simp add: uint_word_ariths(1)[of "a + b"])
    ultimately show ?thesis using d norm1_step[of d] norm1_small[of d] by (simp add: ones_add_def)
  qed
qed

lemma uint_sum_nonneg: "0 \<le> sum_list (map uint (ws :: u16 list))"
  by (induction ws) auto

lemma uint_foldl_ones: "uint (foldl ones_add a ws) = norm1 (uint a + sum_list (map uint ws))"
proof (induction ws arbitrary: a)
  case Nil
  show ?case using uint_lt2p[of a] by (simp add: norm1_small)
next
  case (Cons w ws)
  have "uint (foldl ones_add a (w # ws)) = norm1 (norm1 (uint a + uint w) + sum_list (map uint ws))"
    using Cons[of "ones_add a w"] by (simp add: uint_ones_add)
  also have "\<dots> = norm1 (uint a + uint w + sum_list (map uint ws))"
    by (rule norm1_add) (simp_all add: uint_sum_nonneg)
  finally show ?case by (simp add: add.assoc)
qed

text \<open>The sum of the words, as the loop computes it.\<close>

definition wsum :: "byte list \<Rightarrow> int" where
  "wsum bs = sum_list (map uint (u16s bs))"

lemma wsum_simps [simp]:
  "wsum [] = 0" "wsum [a] = uint a" "wsum (a # b # bs) = uint a + 256 * uint b + wsum bs"
  by (simp_all add: wsum_def uint_le16)

lemma wsum_range: "0 \<le> wsum bs \<and> 2 * wsum bs \<le> 65535 * (int (length bs) + 1)"
proof (induction bs rule: u16s.induct)
  case (2 a)
  show ?case using uint_lt2p[of a] by simp
next
  case (3 a b bs)
  show ?case using 3 uint_lt2p[of a] uint_lt2p[of b] by simp
qed simp

lemma cksum_while_spec:
  "w + length bs \<le> length s \<Longrightarrow> take (length bs) (drop w s) = bs \<Longrightarrow> 0 \<le> acc \<Longrightarrow>
   acc + wsum bs < 2 ^ 31 \<Longrightarrow>
   \<exists>w' nleft acc'. cksum_while s w (int (length bs)) acc = Some (w', nleft, acc') \<and>
     (nleft = 0 \<and> acc' = acc + wsum bs \<or>
      nleft = 1 \<and> w' < length s \<and> acc' + uint (s ! w') = acc + wsum bs)"
proof (induction bs arbitrary: w acc rule: u16s.induct)
  case 1
  show ?case by (subst cksum_while.simps) simp
next
  case (2 a)
  then have "w < length s" "s ! w = a" by (auto simp: take_Suc_conv_app_nth)
  then show ?case by (subst cksum_while.simps) simp
next
  case (3 a b bs)
  have l: "w + 1 < length s" using 3(2) by simp
  then have d: "drop w s = s ! w # s ! (w + 1) # drop (w + 2) s"
    by (simp add: Cons_nth_drop_Suc)
  then have ab: "s ! w = a" "s ! (w + 1) = b" "take (length bs) (drop (w + 2) s) = bs" using 3(3) by auto
  have n: "0 \<le> wsum bs" using wsum_range by blast
  have u: "uint (le16 a b) = uint a + 256 * uint b" by (rule uint_le16)
  have "add_int acc (uint (le16 a b)) = Some (acc + (uint a + 256 * uint b))"
    using 3(5) n by (simp add: add_int_def u)
  then have "cksum_while s w (int (length (a # b # bs))) acc
      = cksum_while s (w + 2) (int (length bs)) (acc + (uint a + 256 * uint b))"
    using l ab by (subst cksum_while.simps) simp
  then show ?case using 3(1)[of "w + 2" "acc + (uint a + 256 * uint b)"] 3(2,4,5) ab(3) by (simp add: add.assoc)
qed

lemma word_of_minus: "word_of_int (- x - 1) = (- 1 - word_of_int (x mod 65536) :: u16)"
proof -
  have "word_of_int (x mod 65536) = (word_of_int x :: u16)"
    using word_of_int_uint[of "word_of_int x :: u16"] by (simp add: uint_word_of_int)
  then show ?thesis by simp
qed

lemma in_cksum_wsum:
  assumes "w + length bs \<le> length s" "take (length bs) (drop w s) = bs" "length bs \<le> 65535"
  shows "in_cksum s w (int (length bs)) = Some (- 1 - word_of_int (norm1 (wsum bs)))"
proof -
  have r: "0 \<le> wsum bs" "wsum bs < 2 ^ 31" using wsum_range[of bs] assms(3) by simp_all
  obtain w' nleft acc' where c: "cksum_while s w (int (length bs)) 0 = Some (w', nleft, acc')"
    "nleft = 0 \<and> acc' = wsum bs \<or> nleft = 1 \<and> w' < length s \<and> acc' + uint (s ! w') = wsum bs"
    using cksum_while_spec[OF assms(1,2), of 0] r by auto
  have "(if nleft = 1 then rd s w' \<bind> (\<lambda>a. add_int acc' (uint a)) else Some acc') = Some (wsum bs)"
    using c(2) r(2) by (auto simp: add_int_def)
  then have "in_cksum s w (int (length bs)) = (let acc = wsum bs div 65536 + wsum bs mod 65536;
      acc = acc + acc div 65536 in Some (word_of_int (- acc - 1)))"
    by (simp add: in_cksum_def c(1))
  also have "\<dots> = Some (- 1 - word_of_int (norm1 (wsum bs)))"
    using norm1_fold[OF r] unfolding Let_def word_of_minus by (simp only:)
  finally show ?thesis .
qed

lemma in_cksum_rfc1071_at:
  assumes "length bs \<le> 65535"
  shows "in_cksum (pre @ bs @ post) (length pre) (int (length bs)) = Some (rfc1071 bs)"
proof -
  have "uint (foldl ones_add 0 (u16s bs)) = norm1 (wsum bs)" by (simp add: uint_foldl_ones wsum_def)
  then have "word_of_int (norm1 (wsum bs)) = foldl ones_add 0 (u16s bs)" by (metis word_of_int_uint)
  then show ?thesis using in_cksum_wsum[of "length pre" bs "pre @ bs @ post"] assms by (simp add: rfc1071_def)
qed

text \<open>
  C33. \<^verbatim>\<open>in_cksum\<close> is the checksum of RFC 1071: the complement of the one's complement sum of the
  16-bit words, a last odd byte padded with zero. The \<^verbatim>\<open>int\<close> that adds them up does not overflow for
  any length that a packet can have.
\<close>

theorem in_cksum_rfc1071:
  assumes "length bs \<le> 65535"
  shows "in_cksum (pre @ bs @ post) (length pre) (int (length bs)) = Some (rfc1071 bs)"
  using in_cksum_rfc1071_at[OF assms] .

theorem in_cksum_rfc1071_witness:
  "in_cksum [0, 0xff, 0xff, 0x10, 0x00, 0x07, 0] 1 5 = Some (rfc1071 [0xff, 0xff, 0x10, 0x00, 0x07])"
  using in_cksum_rfc1071[of "[0xff, 0xff, 0x10, 0x00, 0x07]" "[0]" "[0]"] by simp

text \<open>A message with its checksum in place of a zero word sums to zero.\<close>

lemma unat_bytes16: "bytes16 c = [a, b] \<Longrightarrow> unat a = unat c mod 256 \<and> unat b = unat c div 256"
proof -
  assume "bytes16 c = [a, b]"
  then have ab: "a = of_nat (unat c mod 256)" "b = of_nat (unat c div 256)" by (simp_all add: bytes16_def)
  have "unat c < 65536" using unsigned_less[of c] by simp
  then show ?thesis unfolding ab
    by (simp only: unsigned_of_nat take_bit_eq_mod) (simp add: div_less_iff_less_mult)
qed

lemma le16_bytes16: "bytes16 c = [a, b] \<Longrightarrow> le16 a b = c"
  by (simp add: word_unat_eq_iff unat_le16 unat_bytes16)

lemma unat_ntohs: "unat (ntohs w) = 256 * (unat w mod 256) + unat w div 256"
proof -
  have "unat w < 65536" using unsigned_less[of w] by simp
  then have "unat w div 256 < 256" by (simp add: div_less_iff_less_mult)
  moreover have "unat w mod 256 < 256" by simp
  ultimately have "256 * (unat w mod 256) + unat w div 256 < 65536" by linarith
  then show ?thesis unfolding ntohs_def by (simp only: unsigned_of_nat take_bit_eq_mod) simp
qed

lemma le16_net: "bytes16 c = [a, b] \<Longrightarrow> le16 b a = ntohs c"
  by (simp add: word_unat_eq_iff unat_le16 unat_bytes16 unat_ntohs)

lemma ntohs_ntohs [simp]: "ntohs (ntohs w) = w"
proof -
  have "unat w < 65536" using unsigned_less[of w] by simp
  then have "unat w div 256 < 256" by (simp add: div_less_iff_less_mult)
  then show ?thesis by (simp add: word_unat_eq_iff unat_ntohs)
qed

lemma in_cksum_verifies:
  assumes "c = - 1 - word_of_int (norm1 (wsum (xs @ [0, 0] @ ys)))" "even (length xs)"
  shows "norm1 (wsum (xs @ bytes16 c @ ys)) = 65535"
proof -
  obtain a b where ab: "bytes16 c = [a, b]" by (simp add: bytes16_def)
  define n where "n = norm1 (wsum (xs @ [0, 0] @ ys))"
  have n: "0 \<le> n" "n \<le> 65535" unfolding n_def using norm1_range[of "wsum (xs @ [0, 0] @ ys)"] wsum_range by blast+
  have "uint c = 65535 - n" unfolding assms(1) n_def[symmetric] using n
    by (simp add: uint_word_ariths uint_word_of_int mod_simps)
  moreover have "wsum (xs @ [a, b] @ ys) = wsum (xs @ [0, 0] @ ys) + uint c"
    using assms(2) le16_bytes16[OF ab]
  proof (induction xs rule: u16s.induct)
    case 1
    then show ?case using uint_le16[of a b] by simp
  qed auto
  ultimately have "norm1 (wsum (xs @ [a, b] @ ys)) = norm1 (n + (65535 - n))"
    using norm1_add[of "wsum (xs @ [0, 0] @ ys)" "65535 - n"] wsum_range[of "xs @ [0, 0] @ ys"] n by (simp add: n_def)
  then show ?thesis by (simp add: ab norm1_small)
qed

end
