(* ===== verification/Net_Reply.thy ===== *)
theory Net_Reply
  imports Net_Laws
begin

text \<open>The frames that the stack sends in answer to pings and ARP requests.\<close>

subsection \<open>Packets as lists of fields\<close>

lemmas layouts = eth_header_def arp_header_def arp_packet_def ip_header_def ip_packet_def udp_header_def udp_packet_def
  icmp_header_def icmp_packet_def icmp_ping_header_def icmp_ping_packet_def ETH_LEN_def

lemma sizes [simp]:
  "sizeof icmp_ping_packet = 42" "sizeof icmp_ping_header = 8" "sizeof udp_packet = 42" "sizeof udp_header = 8"
  "sizeof arp_packet = 42"
  by (simp_all add: layouts sizeof_def)

lemma ping_places [simp]:
  "place icmp_ping_packet Eth_dst_mac 0 = (0, 6)" "place icmp_ping_packet Eth_src_mac 0 = (6, 6)"
  "place icmp_ping_packet Ip_src_ip 0 = (26, 4)" "place icmp_ping_packet Ip_dst_ip 0 = (30, 4)"
  "place icmp_ping_packet Icmp_type 0 = (34, 1)" "place icmp_ping_packet Icmp_code 0 = (35, 1)"
  "place icmp_ping_packet Icmp_checkSum 0 = (36, 2)"
  by (simp_all add: layouts)

lemma icmp_places [simp]:
  "place icmp_packet Eth_src_mac 0 = (6, 6)" "place icmp_packet Ip_src_ip 0 = (26, 4)"
  "place icmp_packet Ip_total_len 0 = (16, 2)" "place icmp_packet Ip_version_header_len 0 = (14, 1)"
  "place icmp_packet Icmp_type 0 = (34, 1)"
  by (simp_all add: layouts)

lemma ip_places [simp]: "place ip_packet Ip_proto 0 = (23, 1)" "place eth_header Eth_proto 0 = (12, 2)"
  "place udp_packet Udp_length 0 = (38, 2)"
  by (simp_all add: layouts)

lemma arp_places [simp]:
  "place arp_packet Eth_dst_mac 0 = (0, 6)" "place arp_packet Eth_src_mac 0 = (6, 6)" "place arp_packet Arp_op 0 = (20, 2)"
  "place arp_packet Arp_src_mac 0 = (22, 6)" "place arp_packet Arp_src_ip 0 = (28, 4)"
  "place arp_packet Arp_dst_mac 0 = (32, 6)" "place arp_packet Arp_dst_ip 0 = (38, 4)"
  by (simp_all add: layouts)

text \<open>Reading and writing a field of a packet given as a concatenation.\<close>

lemma get_at: "place P f 0 = (length a, length v) \<Longrightarrow> get P f (a @ v @ b) = Some v"
  by (simp add: get_def)

lemma get16_at: "place P f 0 = (length a, n) \<Longrightarrow> get16 P f (a @ x # y # b) = Some (le16 x y)"
  by (simp add: get16_def rd_def nth_append)

lemma put_at: "place P f 0 = (length a, length v) \<Longrightarrow> length v = length w \<Longrightarrow> put P f w (a @ v @ b) = Some (a @ w @ b)"
  by (simp add: put_def)

text \<open>What a ping carries: the two MAC addresses, type and IP header up to the addresses, the addresses.\<close>

definition ping :: "byte list \<Rightarrow> byte list \<Rightarrow> byte list \<Rightarrow> byte list \<Rightarrow> byte list \<Rightarrow> byte list \<Rightarrow> byte list" where
  "ping dm sm mid si di msg = dm @ sm @ mid @ si @ di @ msg"

definition framed :: "byte list \<Rightarrow> byte list \<Rightarrow> byte list \<Rightarrow> byte list \<Rightarrow> byte list \<Rightarrow> bool" where
  "framed dm sm mid si di \<longleftrightarrow> length dm = 6 \<and> length sm = 6 \<and> length mid = 14 \<and> length si = 4 \<and> length di = 4"

lemma ping_fields:
  assumes "framed dm sm mid si di"
  shows "get icmp_ping_packet Eth_dst_mac (ping dm sm mid si di msg) = Some dm"
    and "get icmp_ping_packet Eth_src_mac (ping dm sm mid si di msg) = Some sm"
    and "get icmp_ping_packet Ip_src_ip (ping dm sm mid si di msg) = Some si"
    and "get icmp_ping_packet Ip_dst_ip (ping dm sm mid si di msg) = Some di"
    and "get icmp_packet Eth_src_mac (ping dm sm mid si di msg) = Some sm"
    and "get icmp_packet Ip_src_ip (ping dm sm mid si di msg) = Some si"
  using assms by (simp_all add: ping_def framed_def get_def)

lemma ping_puts:
  assumes "framed dm sm mid si di"
  shows "length m = 6 \<Longrightarrow> put icmp_ping_packet Eth_dst_mac m (ping dm sm mid si di msg) = Some (ping m sm mid si di msg)"
    and "length m = 6 \<Longrightarrow> put icmp_ping_packet Eth_src_mac m (ping dm sm mid si di msg) = Some (ping dm m mid si di msg)"
    and "length i = 4 \<Longrightarrow> put icmp_ping_packet Ip_src_ip i (ping dm sm mid si di msg) = Some (ping dm sm mid i di msg)"
    and "length i = 4 \<Longrightarrow> put icmp_ping_packet Ip_dst_ip i (ping dm sm mid si di msg) = Some (ping dm sm mid si i msg)"
    and "put icmp_ping_packet Icmp_type [x] (ping dm sm mid si di (t # msg)) = Some (ping dm sm mid si di (x # msg))"
    and "put icmp_ping_packet Icmp_code [x] (ping dm sm mid si di (t # c # msg)) = Some (ping dm sm mid si di (t # x # msg))"
    and "put icmp_ping_packet Icmp_checkSum [x, y] (ping dm sm mid si di (t # c # k # k' # msg))
      = Some (ping dm sm mid si di (t # c # x # y # msg))"
  using assms by (simp_all add: ping_def framed_def put_def numeral_nat)

lemma framed_swap: "framed dm sm mid si di \<Longrightarrow> framed sm dm mid di si"
  by (simp add: framed_def)

lemma framed_update:
  assumes "framed dm sm mid si di"
  shows "length m = 6 \<Longrightarrow> framed m sm mid si di" "length m = 6 \<Longrightarrow> framed dm m mid si di"
    "length i = 4 \<Longrightarrow> framed dm sm mid i di" "length i = 4 \<Longrightarrow> framed dm sm mid si i"
  using assms by (simp_all add: framed_def)

lemma framed_length: "framed dm sm mid si di \<Longrightarrow> length (ping dm sm mid si di msg) = 34 + length msg"
  by (simp add: framed_def ping_def)

definition echo_sum :: "byte list \<Rightarrow> u16" where
  "echo_sum body = rfc1071 (0 # 0 # 0 # 0 # body)"

lemma take_exact: "take (length xs) (xs @ ys) = xs"
  by simp

lemma icmp_reply_spec:
  assumes f: "framed dm sm mid si di" and b: "length body = 4 + n" "n < 65000"
  shows "icmp_reply (ping dm sm mid si di (t # c # k # k' # body @ slack)) n
    = Some (ping sm dm mid di si (0 # 0 # bytes16 (echo_sum body) @ body))"
proof -
  let ?s = "ping dm sm mid si di (t # c # k # k' # body @ slack)"
  have l: "length dm = 6" "length sm = 6" "length si = 4" "length di = 4" using f by (simp_all add: framed_def)
  have tlen: "42 + n \<le> length ?s" using b by (simp add: framed_length[OF f])
  have tk: "take (42 + n) ?s = ping dm sm mid si di (t # c # k # k' # body)"
  proof -
    have "take (42 + n) ?s = dm @ sm @ mid @ si @ di @ take (8 + n) ((t # c # k # k' # body) @ slack)"
      using f by (simp add: ping_def framed_def)
    moreover have "8 + n = length (t # c # k # k' # body)" using b by simp
    moreover have "take (length (t # c # k # k' # body)) ((t # c # k # k' # body) @ slack) = t # c # k # k' # body"
      by (rule take_exact)
    ultimately show ?thesis unfolding ping_def by (simp only:)
  qed
  have F: "framed dm sm mid si si" "framed dm sm mid di si" "framed sm sm mid di si" "framed sm dm mid di si"
    using f by (simp_all add: framed_def)
  have pre: "length (sm @ dm @ mid @ di @ si) = 34" using f by (simp add: framed_def)
  have c: "in_cksum (ping sm dm mid di si (0 # 0 # 0 # 0 # body)) 34 (int (8 + n)) = Some (echo_sum body)"
    using in_cksum_rfc1071_at[of "0 # 0 # 0 # 0 # body" "sm @ dm @ mid @ di @ si" "[]"] b pre
    by (simp add: ping_def echo_sum_def)
  obtain x y where xy: "bytes16 (echo_sum body) = [x, y]" by (simp add: bytes16_def)
  show ?thesis
    using tlen c by (simp add: icmp_reply_def Let_def tk ping_fields[OF f] ping_puts[OF f] ping_puts[OF F(1)] ping_puts[OF F(2)]
      ping_puts[OF F(3)] ping_puts[OF F(4)] l xy)
qed

text \<open>The dotted text of an address and the text of a MAC address.\<close>

definition mac_text :: "byte list \<Rightarrow> string" where
  "mac_text mac = concat (map (\<lambda>i. hex02 (mac ! i) @ '':'') [0..<5]) @ hex02 (mac ! 5)"

definition ip_text :: "byte list \<Rightarrow> string" where
  "ip_text ip = concat (map (\<lambda>i. dec (unat (ip ! i)) @ ''.'') [0..<3]) @ dec (unat (ip ! 3))"

lemma mac_for_spec:
  "\<forall>i\<in>set is. i < length mac \<Longrightarrow>
   mac_for mac is n = Some (printf (concat (map (\<lambda>i. hex02 (mac ! i) @ '':'') is)) n)"
  by (induction "is" arbitrary: n) (simp_all add: printf_def)

lemma ip_for_spec:
  "\<forall>i\<in>set is. i < length ip \<Longrightarrow>
   ip_for ip is n = Some (printf (concat (map (\<lambda>i. dec (unat (ip ! i)) @ ''.'') is)) n)"
  by (induction "is" arbitrary: n) (simp_all add: printf_def)

lemma print_mac_spec: "length mac = 6 \<Longrightarrow> print_mac mac n = Some (printf (mac_text mac) n)"
  by (simp add: print_mac_def ETH_LEN_def mac_for_spec mac_text_def printf_def del: upt_Suc)

lemma print_ip_spec: "length ip = 4 \<Longrightarrow> print_ip ip n = Some (printf (ip_text ip) n)"
  by (simp add: print_ip_def IP_LEN_def ip_for_spec ip_text_def printf_def del: upt_Suc)

lemma printf_printf [simp]: "printf t (printf u n) = printf (u @ t) n"
  by (simp add: printf_def)

lemma nm_inject_printf: "nm_inject p (printf t n) = printf t (nm_inject p n)"
  by (simp add: nm_inject_def printf_def)

lemma icmp_print_spec:
  assumes "framed dm sm mid si di"
  shows "\<exists>t. icmp_print (ping dm sm mid si di msg) a b n = Some (printf t n)"
proof -
  have "length sm = 6" "length si = 4" using assms by (simp_all add: framed_def)
  then show ?thesis using assms
    by (auto simp: icmp_print_def ping_fields print_mac_spec print_ip_spec Let_def)
qed

text \<open>The words of an IP header do not change their sum when the two addresses are exchanged.\<close>

lemma wsum_append: "even (length xs) \<Longrightarrow> wsum (xs @ ys) = wsum xs + wsum ys"
  by (induction xs rule: u16s.induct) auto

lemma rfc1071_norm1: "rfc1071 bs = - 1 - word_of_int (norm1 (wsum bs))"
proof -
  have "uint (foldl ones_add 0 (u16s bs)) = norm1 (wsum bs)" by (simp add: uint_foldl_ones wsum_def)
  then show ?thesis unfolding rfc1071_def by (metis word_of_int_uint)
qed

lemma rfc1071_swap:
  assumes "even (length h)" "even (length si)" "even (length di)"
  shows "rfc1071 (h @ di @ si) = rfc1071 (h @ si @ di)"
  using assms by (simp add: rfc1071_norm1 wsum_append add.commute)

lemma echo_verifies: "rfc1071 (0 # 0 # bytes16 (echo_sum body) @ body) = 0"
proof -
  have "norm1 (wsum ([0, 0] @ bytes16 (echo_sum body) @ body)) = 65535"
    by (rule in_cksum_verifies) (simp_all add: echo_sum_def rfc1071_norm1)
  then show ?thesis by (simp add: rfc1071_norm1)
qed

definition ip_mid :: "byte \<Rightarrow> byte \<Rightarrow> u16 \<Rightarrow> byte list \<Rightarrow> byte \<Rightarrow> byte list \<Rightarrow> byte list" where
  "ip_mid vh tos tlen ids proto check = [0x08, 0x00, vh, tos] @ rev (bytes16 tlen) @ ids @ [proto] @ check"

lemma mid_fields:
  assumes f: "framed dm sm mid si di" and mid: "mid = ip_mid vh tos tlen ids p check" "length ids = 5"
  shows "get16 icmp_packet Ip_total_len (ping dm sm mid si di msg) = Some (ntohs tlen)"
    and "get8 icmp_packet Ip_version_header_len (ping dm sm mid si di msg) = Some vh"
    and "get8 ip_packet Ip_proto (ping dm sm mid si di msg) = Some p"
    and "get16 eth_header Eth_proto (ping dm sm mid si di msg) = Some (ntohs PROTO_IP)"
    and "get8 icmp_packet Icmp_type (ping dm sm mid si di (t # msg)) = Some t"
proof -
  obtain i0 i1 i2 i3 i4 where i: "ids = [i0, i1, i2, i3, i4]" using mid(2) by (auto simp: length_Suc_conv eval_nat_numeral)
  have l: "length dm = 6" "length sm = 6" "length mid = 14" "length si = 4" "length di = 4" using f by (simp_all add: framed_def)
  obtain a b where ab: "bytes16 tlen = [a, b]" by (simp add: bytes16_def)
  show "get16 icmp_packet Ip_total_len (ping dm sm mid si di msg) = Some (ntohs tlen)"
    using l le16_net[OF ab] by (simp add: get16_def ping_def mid ip_mid_def i ab rd_def nth_append)
  show "get8 icmp_packet Ip_version_header_len (ping dm sm mid si di msg) = Some vh"
    using l by (simp add: get8_def ping_def mid ip_mid_def i ab rd_def nth_append)
  show "get8 ip_packet Ip_proto (ping dm sm mid si di msg) = Some p"
    using l by (simp add: get8_def ping_def mid ip_mid_def i ab rd_def nth_append)
  show "get16 eth_header Eth_proto (ping dm sm mid si di msg) = Some (ntohs PROTO_IP)"
    using l by (simp add: get16_def ping_def mid ip_mid_def i ab rd_def nth_append le16_def ntohs_def PROTO_IP_def)
  show "get8 icmp_packet Icmp_type (ping dm sm mid si di (t # msg)) = Some t"
    using l by (simp add: get8_def ping_def rd_def nth_append)
qed

text \<open>
  C32. The stack answers a ping that fits in its buffer: of an IPv4 packet without options whose payload
  is an echo request, one frame is sent. It is the request with the MAC addresses and the IP
  addresses exchanged, type and code 0 and the same identifier, sequence number and data. Its ICMP
  checksum verifies, and the checksum of the IP header, which is not recomputed, is still right.
\<close>

theorem ping_answered:
  assumes "framed dm sm mid si di" and "mid = ip_mid vh tos tlen ids 1 check" and "length ids = 5"
    and "unat vh mod 16 = 5" and "unat tlen = 28 + n" and "length body = 4 + n" and "n < 65000" and "mem (42 + n)"
    and "0 \<le> ret"
  shows "\<exists>t msg. main_round mem junk ret True (Some (ping dm sm mid si di (8 # c # k # k' # body @ slack))) net
      = Some (printf t (nm_inject (ping sm dm mid di si msg) net))
    \<and> (\<exists>x y. msg = 0 # 0 # x # y # body) \<and> rfc1071 msg = 0
    \<and> rfc1071 (drop 2 mid @ di @ si) = rfc1071 (drop 2 mid @ si @ di)"
proof -
  let ?s = "ping dm sm mid si di (8 # c # k # k' # body @ slack)"
  let ?m = "0 # 0 # bytes16 (echo_sum body) @ body"
  note F = mid_fields[OF assms(1-3)]
  have w: "(28 + of_nat n :: u16) = tlen" using arg_cong[OF assms(5), of "of_nat :: nat \<Rightarrow> u16"] by simp
  have dl: "tlen - 20 - 8 = (of_nat n :: u16)" unfolding w[symmetric] by simp
  have un: "unat (of_nat n :: u16) = n" using assms(7) by (simp add: unat_of_nat)
  obtain t where t: "icmp_print ?s (tlen - 20) (tlen - 20 - 8) net = Some (printf t net)"
    using icmp_print_spec[OF assms(1)] by blast
  have "icmp_process mem ?s net = Some (0, nm_inject (ping sm dm mid di si ?m) (printf t net))"
    using F t assms(4,8) icmp_reply_spec[OF assms(1,6,7)] dl un by (simp add: icmp_process_def Let_def)
  then have "main_round mem junk ret True (Some ?s) net = Some (printf t (nm_inject (ping sm dm mid di si ?m) net))"
    using F assms(9) by (simp add: main_round_def ip_process_def printf_def nm_inject_def)
  moreover have "\<exists>x y. ?m = 0 # 0 # x # y # body" by (simp add: bytes16_def)
  moreover have "even (length (drop 2 mid))" "even (length si)" "even (length di)"
    using assms(1) by (simp_all add: framed_def)
  ultimately show ?thesis using echo_verifies rfc1071_swap by blast
qed

theorem ping_answered_witness:
  "\<exists>t msg. main_round (\<lambda>_. True) [] 1 True
       (Some (ping [1, 1, 1, 1, 1, 1] [2, 2, 2, 2, 2, 2] (ip_mid 0x45 0 30 [0, 0, 0, 0, 64] 1 [7, 8]) [10, 0, 0, 1] [10, 0, 0, 2]
          (8 # 0 # 0 # 0 # [0, 1, 0, 2, 65, 66] @ [0, 0]))) \<lparr>sent = [], stdout = []\<rparr>
      = Some (printf t (nm_inject (ping [2, 2, 2, 2, 2, 2] [1, 1, 1, 1, 1, 1] (ip_mid 0x45 0 30 [0, 0, 0, 0, 64] 1 [7, 8])
          [10, 0, 0, 2] [10, 0, 0, 1] msg) \<lparr>sent = [], stdout = []\<rparr>))
    \<and> rfc1071 msg = 0"
proof -
  have "framed [1, 1, 1, 1, 1, 1] [2, 2, 2, 2, 2, 2] (ip_mid 0x45 0 30 [0, 0, 0, 0, 64] 1 [7, 8]) [10, 0, 0, 1] [10, 0, 0, 2]"
    by (simp add: framed_def ip_mid_def bytes16_def)
  from ping_answered[OF this refl, where n = 2 and body = "[0, 1, 0, 2, 65, 66]" and mem = "\<lambda>_. True" and ret = 1 and c = 0
      and k = 0 and k' = 0 and slack = "[0, 0]" and junk = "[]" and net = "\<lparr>sent = [], stdout = []\<rparr>"]
  show ?thesis by auto
qed

text \<open>
  The length fields of a packet are trusted: a ping whose total length is below the 28 bytes of its
  headers gets a data length near 65536 from the 16-bit subtraction, and the copy reads far beyond the
  packet buffer.
\<close>

theorem short_ping_overreads:
  assumes "framed dm sm mid si di" and "mid = ip_mid vh tos tlen ids 1 check" and "length ids = 5"
    and "unat vh mod 16 = 5" and "20 \<le> unat tlen" and "unat tlen < 28" and "length msg < 65000" and "\<forall>k. mem k"
    and "0 \<le> ret"
  shows "main_round mem junk ret True (Some (ping dm sm mid si di (8 # msg))) net = None"
proof -
  let ?s = "ping dm sm mid si di (8 # msg)"
  note F = mid_fields[OF assms(1-3)]
  define d where "d = tlen - 20 - 8"
  have u: "uint tlen = int (unat tlen)" by simp
  have "uint d = (uint tlen - 28) mod 65536" by (simp add: d_def uint_word_ariths mod_simps)
  also have "\<dots> = (uint tlen - 28 + 65536) mod 65536" by (rule mod_add_self2[symmetric])
  also have "\<dots> = uint tlen + 65508" using assms(5,6) u by (subst mod_pos_pos_trivial) linarith+
  finally have "int (unat d) = int (unat tlen) + 65508" by simp
  then have "65528 \<le> unat d" using assms(5) by linarith
  then have "icmp_reply ?s (unat d) = None" using assms(7) by (simp add: icmp_reply_def framed_length[OF assms(1)])
  moreover obtain t where "icmp_print ?s (tlen - 20) d net = Some (printf t net)"
    using icmp_print_spec[OF assms(1)] by blast
  ultimately have "icmp_process mem ?s net = None"
    using F assms(4,8) by (simp add: icmp_process_def Let_def d_def)
  then show ?thesis using F assms(9) by (simp add: main_round_def ip_process_def)
qed

theorem short_ping_overreads_witness:
  "main_round (\<lambda>_. True) [] 1 True
     (Some (ping [1, 1, 1, 1, 1, 1] [2, 2, 2, 2, 2, 2] (ip_mid 0x45 0 24 [0, 0, 0, 0, 64] 1 [7, 8]) [10, 0, 0, 1] [10, 0, 0, 2]
        [8, 0, 0, 0])) \<lparr>sent = [], stdout = []\<rparr> = None"
proof -
  have "framed [1, 1, 1, 1, 1, 1] [2, 2, 2, 2, 2, 2] (ip_mid 0x45 0 24 [0, 0, 0, 0, 64] 1 [7, 8]) [10, 0, 0, 1] [10, 0, 0, 2]"
    by (simp add: framed_def ip_mid_def bytes16_def)
  from short_ping_overreads[OF this refl, where mem = "\<lambda>_. True" and ret = 1 and msg = "[0, 0, 0]" and junk = "[]"
      and net = "\<lparr>sent = [], stdout = []\<rparr>"]
  show ?thesis by simp
qed

subsection \<open>MAC addresses\<close>

lemma hex02_val: "hex_val (hex02 b ! 0) = Some (of_nat (unat b div 16))" "hex_val (hex02 b ! 1) = Some (of_nat (unat b mod 16))"
proof -
  have "\<forall>n\<in>set [0..<16]. hex_val (''0123456789abcdef'' ! n) = Some (of_nat n)" by code_simp
  then have d: "n < 16 \<Longrightarrow> hex_val (''0123456789abcdef'' ! n) = Some (of_nat n)" for n by simp
  have "unat b < 256" using unsigned_less[of b] by simp
  then have "unat b div 16 < 16" by (simp add: div_less_iff_less_mult)
  then show "hex_val (hex02 b ! 0) = Some (of_nat (unat b div 16))" "hex_val (hex02 b ! 1) = Some (of_nat (unat b mod 16))"
    using d[of "unat b div 16"] d[of "unat b mod 16"] by (simp_all add: hex02_def)
qed

lemma hex_digit_char: "hex_val c = Some d \<Longrightarrow> c \<noteq> NUL \<and> c \<noteq> CHR '':''"
  by (auto simp: hex_val_def code_def split: if_splits)

lemma hex_pair: "push_bit 4 (of_nat (unat b div 16)) + of_nat (unat b mod 16) = (b :: byte)"
proof -
  have "push_bit 4 (of_nat (unat b div 16)) + of_nat (unat b mod 16) = (of_nat (unat b div 16 * 16 + unat b mod 16) :: byte)"
    by (simp only: push_bit_eq_mult of_nat_add of_nat_mult) simp
  also have "\<dots> = b" unfolding div_mult_mod_eq by simp
  finally show ?thesis .
qed

lemma str2mac_byte:
  assumes "idx < 6"
  shows "str2mac_while mac (hex02 b @ s) idx 0 = str2mac_while mac s idx b"
proof -
  obtain x y where xy: "hex02 b = [x, y]" by (simp add: hex02_def)
  have v: "hex_val x = Some (of_nat (unat b div 16))" "hex_val y = Some (of_nat (unat b mod 16))"
    using hex02_val[of b] xy by simp_all
  then show ?thesis using hex_digit_char[OF v(1)] hex_digit_char[OF v(2)] hex_pair[of b] assms
    by (simp add: xy ETH_LEN_def)
qed

lemma str2mac_colon: "idx < 6 \<Longrightarrow> idx < length mac \<Longrightarrow> str2mac_while mac (CHR '':'' # s) idx v = str2mac_while (mac[idx := v]) s (idx + 1) 0"
  by (simp add: ETH_LEN_def)

lemma str2mac_text:
  assumes "length mac = 6" and "length junk = 6"
  shows "str2mac (Some junk) (Some (cstr (mac_text mac))) = Some (0, Some mac)"
proof -
  obtain a b c d e f where m: "mac = [a, b, c, d, e, f]" using assms(1) by (auto simp: length_Suc_conv eval_nat_numeral)
  obtain u v w x y z where j: "junk = [u, v, w, x, y, z]" using assms(2) by (auto simp: length_Suc_conv eval_nat_numeral)
  have "mac_text mac = hex02 a @ CHR '':'' # hex02 b @ CHR '':'' # hex02 c @ CHR '':'' # hex02 d @ CHR '':'' # hex02 e
      @ CHR '':'' # hex02 f"
    by (simp add: mac_text_def m upt_rec numeral_nat)
  then have "str2mac_while junk (cstr (mac_text mac)) 0 0 = Some (Inr ([a, b, c, d, e, z], 5, f))"
    by (simp add: cstr_def str2mac_byte str2mac_colon j numeral_nat del: str2mac_while.simps) (simp add: ETH_LEN_def)
  then show ?thesis by (simp add: str2mac_def ETH_LEN_def m numeral_nat)
qed

text \<open>Reading the text that \<^verbatim>\<open>print_mac\<close> prints gives the address back, whatever the array held.\<close>

theorem str2mac_print_mac:
  assumes "length mac = 6" and "length junk = 6"
  shows "\<exists>t. print_mac mac n = Some (printf t n) \<and> str2mac (Some junk) (Some (cstr t)) = Some (0, Some mac)"
  using str2mac_text[OF assms] print_mac_spec[OF assms(1)] by blast

theorem str2mac_print_mac_witness:
  "\<exists>t. print_mac [0, 12, 41, 239, 226, 59] \<lparr>sent = [], stdout = []\<rparr> = Some (printf t \<lparr>sent = [], stdout = []\<rparr>)
    \<and> str2mac (Some [9, 9, 9, 9, 9, 9]) (Some (cstr t)) = Some (0, Some [0, 12, 41, 239, 226, 59])"
  using str2mac_print_mac[of "[0, 12, 41, 239, 226, 59]" "[9, 9, 9, 9, 9, 9]"] by simp

subsection \<open>ARP\<close>

definition arp_frame ::
  "byte list \<Rightarrow> byte list \<Rightarrow> byte list \<Rightarrow> byte list \<Rightarrow> byte list \<Rightarrow> byte list \<Rightarrow> byte list \<Rightarrow> byte list \<Rightarrow> byte list" where
  "arp_frame dm sm hdr op smac sip tmac tip = dm @ sm @ [0x08, 0x06] @ hdr @ op @ smac @ sip @ tmac @ tip"

definition arp_shape :: "byte list \<Rightarrow> byte list \<Rightarrow> byte list \<Rightarrow> byte list \<Rightarrow> byte list \<Rightarrow> byte list \<Rightarrow> byte list \<Rightarrow> bool" where
  "arp_shape dm sm hdr smac sip tmac tip \<longleftrightarrow> length dm = 6 \<and> length sm = 6 \<and> length hdr = 6 \<and> length smac = 6
     \<and> length sip = 4 \<and> length tmac = 6 \<and> length tip = 4"

definition my_ip :: "byte list" where
  "my_ip = [192, 168, 131, 129]"

definition my_mac :: "byte list" where
  "my_mac = [0x00, 0x0c, 0x29, 0xef, 0xe2, 0x3b]"

lemma self_ip: "inet_addr SELF_IP 0 = my_ip"
  by (simp add: SELF_IP_def my_ip_def code_def)

lemma self_mac: "length junk = 6 \<Longrightarrow> str2mac (Some junk) (Some (cstr SELF_MAC)) = Some (0, Some my_mac)"
proof -
  have m: "mac_text my_mac = SELF_MAC" by code_simp
  have "length my_mac = 6" by (simp add: my_mac_def)
  then show "length junk = 6 \<Longrightarrow> ?thesis" using str2mac_text[of my_mac junk] unfolding m by simp
qed

lemma arp_fields:
  fixes o1 o2 :: byte and slack :: "byte list"
  assumes "arp_shape dm sm hdr smac sip tmac tip"
  defines "s \<equiv> arp_frame dm sm hdr [o1, o2] smac sip tmac tip @ slack"
  shows "get arp_packet Arp_src_mac s = Some smac" "get arp_packet Arp_src_ip s = Some sip"
    "get arp_packet Arp_dst_ip s = Some tip" "get16 arp_packet Arp_op s = Some (le16 o1 o2)"
    "get16 eth_header Eth_proto s = Some (ntohs PROTO_ARP)"
proof -
  have l: "length dm = 6" "length sm = 6" "length hdr = 6" "length smac = 6" "length sip = 4" "length tmac = 6" "length tip = 4"
    using assms(1) by (simp_all add: arp_shape_def)
  note S = s_def arp_frame_def append_assoc append_Cons append_Nil
  show "get arp_packet Arp_src_mac s = Some smac"
    using get_at[of arp_packet Arp_src_mac "dm @ sm @ [8, 6] @ hdr @ [o1, o2]" smac "sip @ tmac @ tip @ slack"] l unfolding S by simp
  show "get arp_packet Arp_src_ip s = Some sip"
    using get_at[of arp_packet Arp_src_ip "dm @ sm @ [8, 6] @ hdr @ [o1, o2] @ smac" sip "tmac @ tip @ slack"] l unfolding S by simp
  show "get arp_packet Arp_dst_ip s = Some tip"
    using get_at[of arp_packet Arp_dst_ip "dm @ sm @ [8, 6] @ hdr @ [o1, o2] @ smac @ sip @ tmac" tip slack] l unfolding S by simp
  show "get16 arp_packet Arp_op s = Some (le16 o1 o2)"
    using get16_at[of arp_packet Arp_op "dm @ sm @ [8, 6] @ hdr" 2 o1 o2 "smac @ sip @ tmac @ tip @ slack"] l unfolding S by simp
  have "le16 8 6 = ntohs PROTO_ARP" by (simp add: le16_def ntohs_def PROTO_ARP_def)
  then show "get16 eth_header Eth_proto s = Some (ntohs PROTO_ARP)"
    using get16_at[of eth_header Eth_proto "dm @ sm" 2 8 6 "hdr @ [o1, o2] @ smac @ sip @ tmac @ tip @ slack"] l unfolding S by simp
qed

lemma arp_reply_spec:
  assumes f: "arp_shape dm sm hdr smac sip tmac tip" and l: "length ip = 4" "length mac = 6" and lop: "length op = 2"
  shows "arp_reply (arp_frame dm sm hdr op smac sip tmac tip @ slack) ip mac
    = Some (arp_frame smac mac hdr [0, 2] mac ip smac sip)"
proof -
  let ?s = "arp_frame dm sm hdr op smac sip tmac tip @ slack"
  obtain o1 o2 where op: "op = [o1, o2]" using lop by (auto simp: length_Suc_conv numeral_2_eq_2)
  have len: "length (arp_frame dm sm hdr op smac sip tmac tip) = 42" using f lop by (simp add: arp_shape_def arp_frame_def)
  have b: "blit (replicate 42 0) 0 ?s 42 = Some (arp_frame dm sm hdr op smac sip tmac tip)"
    using len take_exact[of "arp_frame dm sm hdr op smac sip tmac tip" slack] by (simp add: blit_def)
  have reply: "bytes16 (htons arp_op_reply) = [0, 2]"
    by (simp add: bytes16_def ntohs_def arp_op_reply_def)
  note g = arp_fields[OF f, of o1 o2 slack]
  show ?thesis using f l b g reply unfolding op
    by (simp add: arp_reply_def Let_def) (simp add: arp_shape_def arp_frame_def put_def numeral_nat)
qed

lemma arp_print_spec:
  assumes "arp_shape dm sm hdr smac sip tmac tip"
  shows "\<exists>t. arp_print (arp_frame dm sm hdr [o1, o2] smac sip tmac tip @ slack) op n = Some (printf t n)"
proof -
  have "length smac = 6" "length sip = 4" "length tip = 4" using assms by (simp_all add: arp_shape_def)
  then show ?thesis using arp_fields[OF assms, of o1 o2 slack]
    by (auto simp: arp_print_def print_mac_spec print_ip_spec)
qed

lemma request_iff: "ntohs (le16 o1 o2) = arp_op_request \<longleftrightarrow> [o1, o2] = [0, 1]"
proof -
  have "unat o1 < 256" "unat o2 < 256" using unsigned_less[of o1] unsigned_less[of o2] by simp_all
  then have "unat (ntohs (le16 o1 o2)) = 256 * unat o1 + unat o2" by (simp add: unat_ntohs unat_le16)
  then have "ntohs (le16 o1 o2) = arp_op_request \<longleftrightarrow> 256 * unat o1 + unat o2 = 1"
    by (simp add: word_unat_eq_iff arp_op_request_def)
  also have "\<dots> \<longleftrightarrow> unat o1 = 0 \<and> unat o2 = 1" by presburger
  finally show ?thesis by (simp add: word_unat_eq_iff)
qed

text \<open>
  C34. The stack answers an ARP frame exactly when it is a request for its own IP address. The one frame it
  sends names its MAC address as the sender and goes back to the one that asked.
\<close>

theorem arp_answered:
  assumes "arp_shape dm sm hdr smac sip tmac tip" and "length junk = 6" and "0 \<le> ret"
  shows "\<exists>t. main_round mem junk ret True (Some (arp_frame dm sm hdr [o1, o2] smac sip tmac tip @ slack)) net
    = Some (printf t (if tip = my_ip \<and> [o1, o2] = [0, 1]
                      then nm_inject (arp_frame smac my_mac hdr [0, 2] my_mac my_ip smac sip) net else net))"
proof -
  let ?s = "arp_frame dm sm hdr [o1, o2] smac sip tmac tip @ slack"
  note g = arp_fields[OF assms(1), of o1 o2 slack]
  have l: "length my_ip = 4" "length my_mac = 6" by (simp_all add: my_ip_def my_mac_def)
  obtain t where t: "arp_print ?s (ntohs (le16 o1 o2)) net = Some (printf t net)" using arp_print_spec[OF assms(1)] by blast
  have r: "arp_reply ?s my_ip my_mac = Some (arp_frame smac my_mac hdr [0, 2] my_mac my_ip smac sip)"
    by (rule arp_reply_spec[OF assms(1) l]) simp
  have "\<exists>k t. arp_process junk ?s net = Some (k, printf t (if tip = my_ip \<and> [o1, o2] = [0, 1]
      then nm_inject (arp_frame smac my_mac hdr [0, 2] my_mac my_ip smac sip) net else net))"
  proof (cases "tip = my_ip \<and> [o1, o2] = [0, 1]")
    case True
    then have "ntohs (le16 o1 o2) = arp_op_request" "tip = my_ip" using request_iff[of o1 o2] by blast+
    then show ?thesis
      using True g t r self_mac[OF assms(2)] print_mac_spec[OF l(2)] print_ip_spec[OF l(1)]
      by (auto simp: arp_process_def self_ip Let_def nm_inject_printf)
  next
    case False
    then have n: "tip = my_ip \<Longrightarrow> ntohs (le16 o1 o2) \<noteq> arp_op_request" using request_iff[of o1 o2] by blast
    show ?thesis
    proof (cases "tip = my_ip")
      case True
      then show ?thesis
        using n[OF True] False g t self_mac[OF assms(2)] print_mac_spec[OF l(2)] print_ip_spec[OF l(1)]
        unfolding if_not_P[OF False] by (auto simp: arp_process_def self_ip Let_def)
    next
      case 2: False
      then show ?thesis using g t unfolding if_not_P[OF False] by (auto simp: arp_process_def self_ip Let_def)
    qed
  qed
  then show ?thesis using g(5) assms(3) by (auto simp: main_round_def PROTO_ARP_def PROTO_IP_def)
qed

theorem arp_answered_witness:
  "\<exists>t. main_round (\<lambda>_. True) [9, 9, 9, 9, 9, 9] 1 True
     (Some (arp_frame [255, 255, 255, 255, 255, 255] [2, 2, 2, 2, 2, 2] [0, 1, 8, 0, 6, 4] [0, 1] [2, 2, 2, 2, 2, 2]
        [192, 168, 131, 1] [0, 0, 0, 0, 0, 0] my_ip @ [])) \<lparr>sent = [], stdout = []\<rparr>
    = Some (printf t (nm_inject (arp_frame [2, 2, 2, 2, 2, 2] my_mac [0, 1, 8, 0, 6, 4] [0, 2] my_mac my_ip [2, 2, 2, 2, 2, 2]
        [192, 168, 131, 1]) \<lparr>sent = [], stdout = []\<rparr>))"
  using arp_answered[of "[255, 255, 255, 255, 255, 255]" "[2, 2, 2, 2, 2, 2]" "[0, 1, 8, 0, 6, 4]" "[2, 2, 2, 2, 2, 2]"
      "[192, 168, 131, 1]" "[0, 0, 0, 0, 0, 0]" my_ip "[9, 9, 9, 9, 9, 9]" 1 "\<lambda>_. True" 0 1 "[]" "\<lparr>sent = [], stdout = []\<rparr>"]
  by (simp add: arp_shape_def my_ip_def)

subsection \<open>UDP\<close>

lemma strlen_at: "strlen (s @ NUL # t) = Some (length (takeWhile (\<lambda>c. c \<noteq> NUL) s))"
  by (induction s) auto

text \<open>
  The payload is printed up to its first NUL when the datagram ends inside the buffer; the byte behind it is
  overwritten. A length field that is too small or too large makes the store go astray.
\<close>

lemma udp_process_prints:
  assumes "length h = 38" and "length ck = 2" and "length pl = n" and "n < 65528"
    and "bytes16 (of_nat (8 + n)) = [lo, hi]"
  shows "udp_process (h @ [hi, lo] @ ck @ pl @ x # slack) net
    = Some (0, h @ [hi, lo] @ ck @ pl @ 0 # slack,
        printf (''udp recv payload: '' @ takeWhile (\<lambda>c. c \<noteq> NUL) (map (\<lambda>b. char_of (unat b)) pl) @ [CHR 0x0a]) net)"
proof -
  let ?c = "map (\<lambda>b. char_of (unat b)) pl :: string"
  have l: "get16 udp_packet Udp_length (h @ [hi, lo] @ ck @ pl @ x # slack) = Some (ntohs (of_nat (8 + n)))"
    using assms(1) le16_net[OF assms(5)] by (simp add: get16_def rd_def nth_append)
  have u: "unat (of_nat (8 + n) :: u16) = 8 + n" using assms(4) by (simp only: unsigned_of_nat take_bit_eq_mod) simp
  from arg_cong[OF u, of int] have v: "uint (8 + of_nat n :: u16) = int (8 + n)" by simp
  have w: "wr (h @ [hi, lo] @ ck @ pl @ x # slack) (42 + n) 0 = Some (h @ [hi, lo] @ ck @ pl @ 0 # slack)"
    using assms(1-3) by (simp add: wr_def list_update_append)
  have nul: "(char_of (0 :: nat) :: char) = NUL" by code_simp
  have "strlen (?c @ char_of (unat (0 :: byte)) # map (\<lambda>b. char_of (unat b)) slack) = Some (length (takeWhile (\<lambda>c. c \<noteq> NUL) ?c))"
    using strlen_at[of ?c] by (simp add: nul)
  moreover have "take (length (takeWhile (\<lambda>c. c \<noteq> NUL) ?c)) ?c = takeWhile (\<lambda>c. c \<noteq> NUL) ?c"
    by (rule takeWhile_eq_take[symmetric])
  moreover have "length (takeWhile (\<lambda>c. c \<noteq> NUL) ?c) - n = 0"
    using length_takeWhile_le[of "\<lambda>c. c \<noteq> NUL" ?c] assms(3) by simp
  ultimately show ?thesis using l u v w assms(1-4) by (simp add: udp_process_def Let_def)
qed

lemma udp_length_trusted:
  assumes "get16 udp_packet Udp_length s = Some l" and "unat (ntohs l) < 8 \<or> length s \<le> 34 + unat (ntohs l)"
    and "length s < 2 ^ 32"
  shows "udp_process s net = None"
proof (cases "unat (ntohs l) < 8")
  case True
  define z where "z = int (unat (ntohs l))"
  have z: "0 \<le> z" "z < 8" unfolding z_def using True by linarith+
  have "(z - 8) mod 2 ^ 64 = (z - 8 + 2 ^ 64) mod 2 ^ 64" by (rule mod_add_self2[symmetric])
  also have "\<dots> = z - 8 + 2 ^ 64" using z by (subst mod_pos_pos_trivial) simp_all
  finally have "size_t (int (unat (ntohs l)) - 8) = nat (z - 8 + 2 ^ 64)" by (simp only: size_t_def z_def)
  then have "length s \<le> 42 + size_t (int (unat (ntohs l)) - 8)" using assms(3) z(1) by simp
  then show ?thesis using assms(1) by (simp add: udp_process_def)
next
  case False
  then have "int (unat (ntohs l)) - 8 = int (unat (ntohs l) - 8)" by simp
  moreover have "unat (ntohs l) < 65536" using unsigned_less[of "ntohs l"] by simp
  ultimately have "size_t (int (unat (ntohs l)) - 8) = unat (ntohs l) - 8" by simp
  then show ?thesis using assms(1,2) False by (simp add: udp_process_def)
qed

end
