(* ===== verification/Dns.thy ===== *)
theory Dns
  imports Prelude
begin

text \<open>
  \<^verbatim>\<open>10_async_request_pool_by_epoll/sync_dns_client.c\<close>: building a DNS query and parsing the response
  (\<^verbatim>\<open>async_dns_client.c\<close> has the same functions). A buffer is the list of its bytes; the host is
  little-endian, a 16-bit field is the number that its two bytes have on the host. \<open>None\<close> is an access
  outside a buffer, a use of a null pointer or a recursion that never ends.
\<close>

definition DNS_HOST :: nat where "DNS_HOST = 1"
definition DNS_CNAME :: nat where "DNS_CNAME = 5"

record dns_header =
  hid :: nat
  hflags :: nat
  qdcount :: nat
  ancount :: nat
  nscount :: nat
  arcount :: nat

record dns_question =
  qlength :: nat
  qtype :: nat
  qclass :: nat
  qname :: string

record dns_item =
  domain :: string
  ip :: string

definition ntoh16 :: "nat \<Rightarrow> nat" where
  "ntoh16 n = 256 * (n mod 256) + n div 256 mod 256"

text \<open>The bytes of a 16-bit field in memory, and the field at a place of a buffer in host order after \<^verbatim>\<open>ntohs\<close>.\<close>

definition mem16 :: "nat \<Rightarrow> string" where
  "mem16 n = [char_of (n mod 256), char_of (n div 256)]"

definition net16 :: "string \<Rightarrow> nat \<Rightarrow> nat option" where
  "net16 s p = rd s p \<bind> (\<lambda>a. rd s (p + 1) \<bind> (\<lambda>b. Some (ntoh16 (code a + 256 * code b))))"

subsection \<open>The query\<close>

text \<open>\<open>rnd\<close> is what \<^verbatim>\<open>random\<close> returns.\<close>

definition dns_create_header :: "nat \<Rightarrow> dns_header option \<Rightarrow> int \<times> dns_header option" where
  "dns_create_header rnd header =
     (case header of
        None \<Rightarrow> (- 1, None)
      | Some _ \<Rightarrow> (0, Some \<lparr>hid = rnd mod 65536, hflags = ntoh16 0x0100, qdcount = ntoh16 1, ancount = 0, nscount = 0, arcount = 0\<rparr>))"

text \<open>\<^verbatim>\<open>strtok\<close> for the delimiter \<^verbatim>\<open>"."\<close>: the next token and the text behind it.\<close>

definition strtok :: "string \<Rightarrow> (string \<times> string) option" where
  "strtok s =
     (let p = dropWhile (\<lambda>c. c = CHR ''.'') s
      in if p = [] then None
         else Some (takeWhile (\<lambda>c. c \<noteq> CHR ''.'') p, drop 1 (dropWhile (\<lambda>c. c \<noteq> CHR ''.'') p)))"

lemma strtok_shorter: "strtok s = Some (t, r) \<Longrightarrow> length r < length s"
proof -
  assume a: "strtok s = Some (t, r)"
  let ?p = "dropWhile (\<lambda>c. c = CHR ''.'') s"
  have p: "?p \<noteq> []" "r = drop 1 (dropWhile (\<lambda>c. c \<noteq> CHR ''.'') ?p)" using a by (auto simp: strtok_def Let_def split: if_splits)
  have "length (dropWhile (\<lambda>c. c \<noteq> CHR ''.'') ?p) \<le> length ?p" "length ?p \<le> length s" by (rule length_dropWhile_le)+
  moreover have "0 < length ?p" using p(1) by blast
  moreover have "length r = length (dropWhile (\<lambda>c. c \<noteq> CHR ''.'') ?p) - 1" using p(2) by (simp only: length_drop)
  ultimately show ?thesis by linarith
qed

function strtok_while :: "string \<Rightarrow> nat \<Rightarrow> string \<Rightarrow> string option" where
  "strtok_while q p rest =
     (case strtok rest of
        None \<Rightarrow> Some q
      | Some (token, rest) \<Rightarrow>
          wr q p (char_of (length token mod 256)) \<bind> (\<lambda>q.
          blit q (p + 1) (cstr token) (length token + 1) \<bind> (\<lambda>q. strtok_while q (p + 1 + length token) rest)))"
  by pat_completeness auto
termination by (relation "measure (\<lambda>(q, p, rest). length rest)") (auto simp: strtok_shorter)

declare strtok_while.simps [simp del]

definition dns_create_question :: "allocator \<Rightarrow> dns_question option \<Rightarrow> string \<Rightarrow> (int \<times> dns_question option) option" where
  "dns_create_question mal question hostname =
     (case question of
        None \<Rightarrow> Some (- 1, None)
      | Some _ \<Rightarrow>
          (case s_malloc mal (length hostname + 2) of
             None \<Rightarrow> Some (- 2, Some \<lparr>qlength = 0, qtype = 0, qclass = 0, qname = []\<rparr>)
           | Some q \<Rightarrow>
               s_malloc mal (length hostname + 1) \<bind> (\<lambda>_. strtok_while q 0 hostname \<bind> (\<lambda>q.
                 Some (0, Some \<lparr>qlength = length hostname + 2, qtype = ntoh16 1, qclass = ntoh16 1, qname = q\<rparr>)))))"

definition header_bytes :: "dns_header \<Rightarrow> string" where
  "header_bytes h = mem16 (hid h) @ mem16 (hflags h) @ mem16 (qdcount h) @ mem16 (ancount h) @ mem16 (nscount h) @ mem16 (arcount h)"

definition dns_build_request :: "dns_header \<Rightarrow> dns_question \<Rightarrow> string \<Rightarrow> (nat \<times> string) option" where
  "dns_build_request header question request =
     blit request 0 (header_bytes header) 12 \<bind> (\<lambda>request.
     blit request 12 (qname question) (qlength question) \<bind> (\<lambda>request.
     blit request (12 + qlength question) (mem16 (qtype question)) 2 \<bind> (\<lambda>request.
     blit request (14 + qlength question) (mem16 (qclass question)) 2 \<bind> (\<lambda>request.
       Some (qlength question + 4 + 12, request)))))"

subsection \<open>The response\<close>

definition is_pointer :: "nat \<Rightarrow> bool" where
  "is_pointer n \<longleftrightarrow> 192 \<le> n mod 256"

text \<open>
  \<^verbatim>\<open>dns_parse_name\<close>: the array \<^verbatim>\<open>out\<close> and the length after it. A pointer is followed by a recursive call,
  whose \<^verbatim>\<open>pos\<close> is \<^verbatim>\<open>out + *len\<close>, and which is the last thing that the loop does.
\<close>

partial_function (option) parse_while :: "string \<Rightarrow> nat \<Rightarrow> nat \<Rightarrow> string \<Rightarrow> nat \<Rightarrow> (string \<times> nat) option" where
  "parse_while chunk ptr pos out n =
     rd chunk ptr \<bind> (\<lambda>c.
       if code c = 0 then Some (out, n)
       else if is_pointer (code c)
       then rd chunk (ptr + 1) \<bind> (\<lambda>d. parse_while chunk (code d) n out n)
       else blit out pos (drop (ptr + 1) chunk) (code c) \<bind> (\<lambda>out.
            rd chunk (ptr + 1 + code c) \<bind> (\<lambda>d.
              if code d \<noteq> 0
              then wr out (pos + code c) (CHR ''.'') \<bind> (\<lambda>out.
                   parse_while chunk (ptr + 1 + code c) (pos + code c + 1) out (n + code c + 1))
              else parse_while chunk (ptr + 1 + code c) (pos + code c) out (n + code c))))"

definition dns_parse_name :: "string \<Rightarrow> nat \<Rightarrow> string \<Rightarrow> nat \<Rightarrow> (string \<times> nat) option" where
  "dns_parse_name chunk ptr out n = parse_while chunk ptr n out n"

partial_function (option) skip_name :: "string \<Rightarrow> nat \<Rightarrow> nat option" where
  "skip_name s ptr =
     rd s ptr \<bind> (\<lambda>c. if code c = 0 then Some (ptr + 1) else skip_name s (ptr + (code c + 1)))"

fun query_for :: "string \<Rightarrow> nat \<Rightarrow> nat \<Rightarrow> nat option" where
  "query_for s 0 ptr = Some ptr"
| "query_for s (Suc k) ptr = skip_name s ptr \<bind> (\<lambda>ptr. query_for s k (ptr + 4))"

text \<open>\<^verbatim>\<open>inet_ntop\<close> of the four bytes of an address.\<close>

definition dotted :: "string \<Rightarrow> string" where
  "dotted a = dec (code (a ! 0)) @ ''.'' @ dec (code (a ! 1)) @ ''.'' @ dec (code (a ! 2)) @ ''.'' @ dec (code (a ! 3))"

text \<open>A C string in a fresh block, copied there: \<^verbatim>\<open>calloc\<close> and \<^verbatim>\<open>memcpy\<close>.\<close>

definition dup_string :: "allocator \<Rightarrow> string \<Rightarrow> string option" where
  "dup_string mal s =
     strlen s \<bind> (\<lambda>n. s_malloc mal (n + 1) \<bind> (\<lambda>b. blit (replicate (n + 1) NUL) 0 s n))"

definition address_text :: "string \<Rightarrow> string \<Rightarrow> nat \<Rightarrow> string" where
  "address_text name addr ttl =
     name @ '' has address '' @ addr @ [CHR 0x0a, CHR 0x09] @ ''Time to live: '' @ dec (ttl div 60) @ '' minutes , ''
       @ dec (ttl mod 60) @ '' seconds'' @ [CHR 0x0a]"

definition host_answer ::
  "allocator \<Rightarrow> string \<Rightarrow> nat \<Rightarrow> string \<Rightarrow> nat \<Rightarrow> dns_item option list \<Rightarrow> nat \<Rightarrow> string
    \<Rightarrow> (dns_item option list \<times> nat \<times> string) option" where
  "host_answer mal buffer ptr aname ttl list cnt out =
     blit (replicate 4 NUL) 0 (drop ptr buffer) 4 \<bind> (\<lambda>netip.
     strlen aname \<bind> (\<lambda>k.
     (let addr = dotted netip; out = out @ address_text (take k aname) addr ttl
      in dup_string mal aname \<bind> (\<lambda>d. dup_string mal (cstr addr) \<bind> (\<lambda>i.
         wr list cnt (Some \<lparr>domain = d, ip = i\<rparr>) \<bind> (\<lambda>list. Some (list, cnt + 1, out)))))))"

fun answer_for ::
  "allocator \<Rightarrow> string \<Rightarrow> nat \<Rightarrow> nat \<Rightarrow> dns_item option list \<Rightarrow> nat \<Rightarrow> string
    \<Rightarrow> (dns_item option list \<times> nat \<times> string) option" where
  "answer_for mal buffer 0 ptr list cnt out = Some (list, cnt, out)"
| "answer_for mal buffer (Suc k) ptr list cnt out =
     dns_parse_name buffer ptr (replicate 128 NUL) 0 \<bind> (\<lambda>(aname, _).
     net16 buffer (ptr + 2) \<bind> (\<lambda>type. net16 buffer (ptr + 6) \<bind> (\<lambda>ttl. net16 buffer (ptr + 10) \<bind> (\<lambda>datalen.
     (let ptr = ptr + 12
      in if type = DNS_CNAME
         then dns_parse_name buffer ptr (replicate 128 NUL) 0 \<bind> (\<lambda>_.
              answer_for mal buffer k (ptr + datalen) list cnt out)
         else if type = DNS_HOST
         then (if datalen = 4 then host_answer mal buffer ptr aname ttl list cnt out else Some (list, cnt, out)) \<bind> (\<lambda>(list, cnt, out).
              answer_for mal buffer k (ptr + datalen) list cnt out)
         else answer_for mal buffer k ptr list cnt out)))))"

text \<open>The returned count, the list (\<open>None\<close> for a null pointer) and the printed text.\<close>

definition dns_parse_response :: "allocator \<Rightarrow> string \<Rightarrow> (int \<times> dns_item option list option \<times> string) option" where
  "dns_parse_response mal buffer =
     net16 buffer 4 \<bind> (\<lambda>querys. net16 buffer 6 \<bind> (\<lambda>answers. query_for buffer querys 12 \<bind> (\<lambda>ptr.
       case s_malloc mal (16 * answers) of
         None \<Rightarrow> Some (- 1, None, [])
       | Some _ \<Rightarrow> answer_for mal buffer answers ptr (replicate answers None) 0 [] \<bind> (\<lambda>(list, cnt, out).
           Some (int cnt, Some list, out)))))"

end
