(* ===== verification/Dns_Laws.thy ===== *)
theory Dns_Laws
  imports Dns
begin

text \<open>Names on the wire, the query that is sent and the addresses that are read from a response.\<close>

subsection \<open>Names\<close>

fun dots :: "string list \<Rightarrow> string" where
  "dots [] = []"
| "dots [l] = l"
| "dots (l # m # ls) = l @ CHR ''.'' # dots (m # ls)"

definition wire :: "string list \<Rightarrow> string" where
  "wire ls = concat (map (\<lambda>l. char_of (length l) # l) ls) @ [NUL]"

definition label_ok :: "string \<Rightarrow> bool" where
  "label_ok l \<longleftrightarrow> l \<noteq> [] \<and> length l < 192 \<and> NUL \<notin> set l \<and> CHR ''.'' \<notin> set l"

text \<open>
  The name at a place of a message, with compression as RFC 1035 has it, for pointers to the first 256
  bytes. A pointer does not lead to the root.
\<close>

inductive names :: "string \<Rightarrow> nat \<Rightarrow> string list \<Rightarrow> bool" for s where
  root: "p < length s \<Longrightarrow> s ! p = NUL \<Longrightarrow> names s p []"
| label: "p + length l < length s \<Longrightarrow> code (s ! p) = length l \<Longrightarrow> take (length l) (drop (p + 1) s) = l \<Longrightarrow> label_ok l
    \<Longrightarrow> names s (p + 1 + length l) ls \<Longrightarrow> names s p (l # ls)"
| pointer: "p + 1 < length s \<Longrightarrow> code (s ! p) = 192 \<Longrightarrow> names s (code (s ! (p + 1))) ls \<Longrightarrow> ls \<noteq> [] \<Longrightarrow> names s p ls"

lemma code_char_of: "n < 256 \<Longrightarrow> code (char_of n) = n"
  by (simp add: code_def)

lemma code_char_mod: "code (char_of n) = n mod 256"
  by (simp add: code_def)

lemma code_zero: "code c = 0 \<longleftrightarrow> c = NUL"
proof -
  have "c = char_of (code c)" by (simp add: code_def)
  moreover have "(char_of (0 :: nat) :: char) = NUL" by code_simp
  moreover have "code NUL = 0" by (simp add: code_def)
  ultimately show ?thesis by metis
qed

lemma length_dots: "ls \<noteq> [] \<Longrightarrow> length (wire ls) = length (dots ls) + 2"
  by (induction ls rule: dots.induct) (auto simp: wire_def)

lemma wire_Cons: "wire (l # ls) = char_of (length l) # l @ wire ls"
  by (simp add: wire_def)

lemma names_wire:
  "\<forall>l\<in>set ls. label_ok l \<Longrightarrow> names (pre @ wire ls @ post) (length pre) ls"
proof (induction ls arbitrary: pre)
  case Nil
  show ?case by (rule names.root) (simp_all add: wire_def)
next
  case (Cons l ls)
  have l: "label_ok l" "length l < 192" using Cons.prems by (simp_all add: label_ok_def)
  have "names ((pre @ char_of (length l) # l) @ wire ls @ post) (length (pre @ char_of (length l) # l)) ls"
    using Cons.prems by (intro Cons.IH) simp
  then show ?case using l
    by (intro names.label) (simp_all add: wire_Cons nth_append code_char_of)
qed

text \<open>What \<^verbatim>\<open>dns_parse_name\<close> makes of a name.\<close>

lemma names_first:
  assumes "names s p ls" and "ls \<noteq> []"
  shows "p < length s \<and> code (s ! p) \<noteq> 0"
  using assms by cases (auto simp: label_ok_def)

lemma names_end: "names s p [] \<Longrightarrow> p < length s \<and> s ! p = NUL"
  by (erule names.cases) auto

lemma blit_label:
  assumes "n + length l \<le> length out" "take (length l) (drop p s) = l" "p + length l \<le> length s"
  shows "blit out n (drop p s) (length l) = Some (take n out @ l @ drop (n + length l) out)"
  using assms by (simp add: blit_def)

lemma parse_while_names:
  assumes "names s p ls" and "n + length (dots ls) \<le> length out"
  shows "parse_while s p n out n = Some (take n out @ dots ls @ drop (n + length (dots ls)) out, n + length (dots ls))"
  using assms
proof (induction arbitrary: n out)
  case (root p)
  then show ?case by (subst parse_while.simps) (simp add: code_def)
next
  case (label p l ls)
  have l: "l \<noteq> []" "length l < 192" using label.hyps(4) by (auto simp: label_ok_def)
  have c: "rd s p = Some (s ! p)" "code (s ! p) = length l" using label.hyps(1,2) by auto
  have q: "p + 1 + length l < length s"
    using label.hyps(5) names_first names_end by (cases "ls = []") blast+
  have q': "Suc (p + length l) < length s" using q by simp
  have f: "\<not> is_pointer (length l)" using l by (simp add: is_pointer_def)
  show ?case
  proof (cases "ls = []")
    case True
    have n: "n + length l \<le> length out" using label.prems True by simp
    have z: "code (s ! (p + 1 + length l)) = 0" using names_end label.hyps(5) True by (simp add: code_def)
    have b: "blit out n (drop (p + 1) s) (length l) = Some (take n out @ l @ drop (n + length l) out)"
      by (rule blit_label) (use n label.hyps(1,3) in auto)
    have "parse_while s p n out n = parse_while s (p + 1 + length l) (n + length l) (take n out @ l @ drop (n + length l) out) (n + length l)"
      using c l(1) f q z b by (subst parse_while.simps) (simp add: rd_in[OF q])
    also have "\<dots> = Some (take n out @ l @ drop (n + length l) out, n + length l)"
      using z q' by (subst parse_while.simps) simp
    finally show ?thesis using True by simp
  next
    case False
    obtain m ms where ls: "ls = m # ms" using False by (cases ls) auto
    have n: "n + length l + 1 + length (dots ls) \<le> length out" using label.prems ls by simp
    have z: "code (s ! (p + 1 + length l)) \<noteq> 0" using names_first[OF label.hyps(5) False] by simp
    define out' where "out' = take n out @ l @ CHR ''.'' # drop (n + length l + 1) out"
    have b: "blit out n (drop (p + 1) s) (length l) = Some (take n out @ l @ drop (n + length l) out)"
      by (rule blit_label) (use n label.hyps(1,3) in auto)
    have w: "wr (take n out @ l @ drop (n + length l) out) (n + length l) (CHR ''.'') = Some out'"
      using n by (simp add: wr_def out'_def list_update_append Cons_nth_drop_Suc[symmetric])
    have "parse_while s p n out n = parse_while s (p + 1 + length l) (n + length l + 1) out' (n + length l + 1)"
      using c l(1) f q z b w by (subst parse_while.simps) (simp add: rd_in[OF q])
    also have "\<dots> = Some (take (n + length l + 1) out' @ dots ls @ drop (n + length l + 1 + length (dots ls)) out',
        n + length l + 1 + length (dots ls))"
      by (rule label.IH) (use n in \<open>simp add: out'_def\<close>)
    finally show ?thesis using n ls by (simp add: out'_def ac_simps)
  qed
next
  case (pointer p ls)
  have "parse_while s p n out n = parse_while s (code (s ! (p + 1))) n out n"
    using pointer.hyps(1,2) by (subst parse_while.simps) (simp add: is_pointer_def)
  then show ?case using pointer.IH[OF pointer.prems] by simp
qed


subsection \<open>The query\<close>

lemma dropWhile_no: "c \<notin> set l \<Longrightarrow> dropWhile (\<lambda>x. x \<noteq> c) (l @ c # r) = c # r"
  by (induction l) auto

lemma takeWhile_no: "c \<notin> set l \<Longrightarrow> takeWhile (\<lambda>x. x \<noteq> c) (l @ c # r) = l"
  by (induction l) auto

lemma strtok_label:
  assumes "label_ok l"
  shows "strtok l = Some (l, [])" and "strtok (l @ CHR ''.'' # r) = Some (l, r)"
proof -
  obtain x xs where l: "l = x # xs" "x \<noteq> CHR ''.''" using assms by (cases l) (auto simp: label_ok_def)
  have d: "CHR ''.'' \<notin> set l" using assms by (simp add: label_ok_def)
  have skip: "dropWhile (\<lambda>c. c = CHR ''.'') (l @ r') = l @ r'" for r' using l by simp
  have "takeWhile (\<lambda>c. c \<noteq> CHR ''.'') l = l" "dropWhile (\<lambda>c. c \<noteq> CHR ''.'') l = []"
    using d by (auto simp: takeWhile_eq_all_conv dropWhile_eq_Nil_conv)
  then have "strtok (l @ []) = Some (l, [])" unfolding strtok_def skip Let_def using l(1) by (simp only: append_Nil2) simp
  then show "strtok l = Some (l, [])" by simp
  show "strtok (l @ CHR ''.'' # r) = Some (l, r)"
    unfolding strtok_def skip Let_def takeWhile_no[OF d] dropWhile_no[OF d] by simp
qed

lemma strtok_Nil [simp]: "strtok [] = None"
  by (simp add: strtok_def)

lemma strtok_step:
  assumes "strtok r = Some (l, r')" "label_ok l" "p + length l + 1 < length q"
  shows "strtok_while q p r = strtok_while (take p q @ char_of (length l) # l @ NUL # drop (p + length l + 2) q) (p + 1 + length l) r'"
proof -
  have "length l < 256" using assms(2) by (simp add: label_ok_def)
  moreover have "blit (q[p := char_of (length l)]) (p + 1) (cstr l) (length l + 1)
      = Some (take p q @ char_of (length l) # l @ NUL # drop (p + length l + 2) q)"
  proof -
    have "p + length l + 2 \<le> length q" using assms(3) by simp
    then show ?thesis by (simp add: blit_def cstr_def upd_conv_take_nth_drop min_def ac_simps)
  qed
  ultimately show ?thesis using assms(1,3) by (subst strtok_while.simps) (simp del: blit_in)
qed

lemma strtok_while_spec:
  "ls \<noteq> [] \<Longrightarrow> \<forall>l\<in>set ls. label_ok l \<Longrightarrow> p + length (wire ls) \<le> length q \<Longrightarrow>
   strtok_while q p (dots ls) = Some (take p q @ wire ls @ drop (p + length (wire ls)) q)"
proof (induction ls arbitrary: p q rule: dots.induct)
  case (2 l)
  have "strtok_while q p l = strtok_while (take p q @ char_of (length l) # l @ NUL # drop (p + length l + 2) q) (p + 1 + length l) []"
    using 2 by (intro strtok_step strtok_label) (auto simp: wire_def)
  then show ?case by (simp add: strtok_while.simps[of _ _ "[]"] wire_def)
next
  case (3 l m ls)
  let ?q = "take p q @ char_of (length l) # l @ NUL # drop (p + length l + 2) q"
  have w: "length (wire (l # m # ls)) = length l + 1 + length (wire (m # ls))" "2 \<le> length (wire (m # ls))"
    by (simp_all add: wire_def)
  have "strtok_while q p (dots (l # m # ls)) = strtok_while ?q (p + 1 + length l) (dots (m # ls))"
    using 3(3,4) w by (simp only: dots.simps, intro strtok_step strtok_label) auto
  also have "\<dots> = Some (take (p + 1 + length l) ?q @ wire (m # ls) @ drop (p + 1 + length l + length (wire (m # ls))) ?q)"
    by (rule 3(1)) (use 3(3,4) w in auto)
  finally have t: "strtok_while q p (dots (l # m # ls)) = \<dots>" .
  obtain k where k: "length (wire (m # ls)) = Suc k" using w(2) by (cases "length (wire (m # ls))") auto
  show ?case using 3(4) w(1) unfolding t wire_Cons[of l] by (simp add: k ac_simps)
qed simp

definition all_alloc :: "allocator \<Rightarrow> bool" where
  "all_alloc mal \<longleftrightarrow> (\<forall>n. mal n \<noteq> None)"

lemma s_malloc_gives: "all_alloc mal \<Longrightarrow> \<exists>b. s_malloc mal n = Some b \<and> length b = n"
proof -
  assume "all_alloc mal"
  then obtain f where "mal n = Some f" by (auto simp: all_alloc_def)
  then show ?thesis by (simp add: s_malloc_def)
qed

text \<open>
  C36. The query for a host name is a message with one question: the header with the chosen id and the
  recursion flag, the labels of the name with their lengths, type and class 1. The name in it is
  read back by \<^verbatim>\<open>dns_parse_name\<close>.
\<close>

theorem dns_query_correct:
  assumes "ls \<noteq> []" and "\<forall>l\<in>set ls. label_ok l" and "length (dots ls) + 18 \<le> 1024" and "all_alloc mal"
  shows "\<exists>h q req. dns_create_header rnd (Some h0) = (0, Some h) \<and>
    dns_create_question mal (Some q0) (dots ls) = Some (0, Some q) \<and>
    dns_build_request h q (replicate 1024 NUL) = Some (length (dots ls) + 18, req) \<and>
    req = mem16 (rnd mod 65536) @ map char_of [1, 0, 0, 1, 0, 0, 0, 0, 0, 0 :: nat] @ wire ls
      @ map char_of [0, 1, 0, 1 :: nat] @ replicate (1024 - (length (dots ls) + 18)) NUL \<and>
    (length (dots ls) \<le> 128 \<longrightarrow>
      dns_parse_name req 12 (replicate 128 NUL) 0 = Some (dots ls @ replicate (128 - length (dots ls)) NUL, length (dots ls)))"
proof -
  define h where "h = \<lparr>hid = rnd mod 65536, hflags = ntoh16 0x0100, qdcount = ntoh16 1, ancount = 0, nscount = 0, arcount = 0\<rparr>"
  define n where "n = length (dots ls)"
  define head where "head = mem16 (rnd mod 65536) @ map char_of [1, 0, 0, 1, 0, 0, 0, 0, 0, 0 :: nat]"
  have hb: "header_bytes h = head" "length head = 12"
    by (simp_all add: header_bytes_def h_def head_def mem16_def ntoh16_def)
  have w: "length (wire ls) = n + 2" using length_dots[OF assms(1)] by (simp add: n_def)
  obtain b where b: "s_malloc mal (n + 2) = Some b" "length b = n + 2" using s_malloc_gives[OF assms(4)] by blast
  obtain b' where b': "s_malloc mal (n + 1) = Some b'" using s_malloc_gives[OF assms(4)] by blast
  have "strtok_while b 0 (dots ls) = Some (wire ls)"
    using strtok_while_spec[OF assms(1,2), of 0 b] b(2) w by simp
  then have q: "dns_create_question mal (Some q0) (dots ls)
      = Some (0, Some \<lparr>qlength = n + 2, qtype = ntoh16 1, qclass = ntoh16 1, qname = wire ls\<rparr>)"
    using b b' by (simp add: dns_create_question_def n_def)
  define req where "req = head @ wire ls @ map char_of [0, 1, 0, 1 :: nat] @ replicate (1024 - (n + 18)) NUL"
  have n: "n + 18 \<le> 1024" using assms(3) by (simp add: n_def)
  have "dns_build_request h \<lparr>qlength = n + 2, qtype = ntoh16 1, qclass = ntoh16 1, qname = wire ls\<rparr> (replicate 1024 NUL)
      = Some (n + 18, req)"
    using n w hb by (simp add: dns_build_request_def blit_def req_def mem16_def ntoh16_def min_def)
  moreover have "n \<le> 128 \<Longrightarrow> dns_parse_name req 12 (replicate 128 NUL) 0 = Some (dots ls @ replicate (128 - n) NUL, n)"
    unfolding dns_parse_name_def req_def
    using parse_while_names[OF names_wire[OF assms(2), of head], of 0 "replicate 128 NUL"] hb(2) by (simp add: n_def)
  ultimately show ?thesis using q
    by (intro exI[of _ h] exI[of _ "\<lparr>qlength = n + 2, qtype = ntoh16 1, qclass = ntoh16 1, qname = wire ls\<rparr>"] exI[of _ req])
      (simp add: dns_create_header_def h_def req_def head_def n_def)
qed


theorem dns_query_correct_witness:
  "\<exists>h q req. dns_create_header 70000 (Some undefined) = (0, Some h) \<and>
    dns_create_question (\<lambda>_. Some (\<lambda>_. CHR ''x'')) (Some undefined) ''www.qq.com'' = Some (0, Some q) \<and>
    dns_build_request h q (replicate 1024 NUL) = Some (28, req) \<and>
    dns_parse_name req 12 (replicate 128 NUL) 0 = Some (''www.qq.com'' @ replicate 118 NUL, 10)"
proof -
  have d: "dots [''www'', ''qq'', ''com''] = ''www.qq.com''" by simp
  have "\<forall>l\<in>set [''www'', ''qq'', ''com'']. label_ok l" by (simp add: label_ok_def)
  from dns_query_correct[OF _ this, of "\<lambda>_. Some (\<lambda>_. CHR ''x'')" 70000 undefined undefined]
  show ?thesis unfolding d by (fastforce simp: all_alloc_def)
qed

subsection \<open>The response\<close>

definition be16 :: "nat \<Rightarrow> string" where
  "be16 n = [char_of (n div 256), char_of (n mod 256)]"

text \<open>Resource records whose owner is a pointer: addresses and aliases.\<close>

datatype rr = A (owner: nat) (ttl: nat) (addr: string) | CNAME (owner: nat) (ttl: nat) (rdata: string)

fun encode_rr :: "rr \<Rightarrow> string" where
  "encode_rr (A ow t a) = [char_of (192 :: nat), char_of ow] @ be16 1 @ be16 1 @ be16 (t div 65536) @ be16 (t mod 65536) @ be16 4 @ a"
| "encode_rr (CNAME ow t d) =
     [char_of (192 :: nat), char_of ow] @ be16 5 @ be16 1 @ be16 (t div 65536) @ be16 (t mod 65536) @ be16 (length d) @ d"

text \<open>\<open>rr_at s p r\<close>: the record at \<open>p\<close> is \<open>r\<close>, its names resolve and fit into the arrays of the parser.\<close>

definition short_name :: "string \<Rightarrow> nat \<Rightarrow> string list \<Rightarrow> bool" where
  "short_name s p ls \<longleftrightarrow> names s p ls \<and> ls \<noteq> [] \<and> length (dots ls) < 128"

fun rr_ok :: "string \<Rightarrow> nat \<Rightarrow> rr \<Rightarrow> string list \<Rightarrow> bool" where
  "rr_ok s p (A ow t a) ls \<longleftrightarrow> ow < 256 \<and> t < 2 ^ 32 \<and> length a = 4 \<and> short_name s ow ls"
| "rr_ok s p (CNAME ow t d) ls \<longleftrightarrow> ow < 256 \<and> t < 2 ^ 32 \<and> length d < 65536 \<and> short_name s ow ls
     \<and> (\<exists>ts. short_name s (p + 12) ts)"

fun rrs_ok :: "string \<Rightarrow> nat \<Rightarrow> (rr \<times> string list) list \<Rightarrow> bool" where
  "rrs_ok s p [] = True"
| "rrs_ok s p ((r, ls) # rs) \<longleftrightarrow> rr_ok s p r ls \<and> rrs_ok s (p + length (encode_rr r)) rs"

fun items :: "(rr \<times> string list) list \<Rightarrow> dns_item list" where
  "items [] = []"
| "items ((A ow t a, ls) # rs) = \<lparr>domain = cstr (dots ls), ip = cstr (dotted a)\<rparr> # items rs"
| "items ((CNAME ow t d, ls) # rs) = items rs"

text \<open>The printed text: of the time to live only the upper 16 bits are read.\<close>

fun printed :: "(rr \<times> string list) list \<Rightarrow> string" where
  "printed [] = []"
| "printed ((A ow t a, ls) # rs) = address_text (dots ls) (dotted a) (t div 65536) @ printed rs"
| "printed ((CNAME ow t d, ls) # rs) = printed rs"

lemma net16_be16: "n < 65536 \<Longrightarrow> net16 (pre @ be16 n @ post) (length pre) = Some n"
proof -
  assume n: "n < 65536"
  then have h: "n div 256 < 256" by (simp add: div_less_iff_less_mult)
  have c: "code (char_of (n div 256)) = n div 256" "code (char_of (n mod 256)) = n mod 256"
    using h by (simp_all only: code_char_mod) simp_all
  then have "ntoh16 (code (char_of (n div 256)) + 256 * code (char_of (n mod 256))) = n"
    unfolding c ntoh16_def using h by simp
  then show ?thesis by (simp add: net16_def be16_def rd_def nth_append)
qed

lemma net16_at: "n < 65536 \<Longrightarrow> take 2 (drop p s) = be16 n \<Longrightarrow> net16 s p = Some n"
proof -
  assume n: "n < 65536" "take 2 (drop p s) = be16 n"
  then have "p \<le> length s" by (cases "p \<le> length s") (simp_all add: be16_def)
  then have "s = take p s @ be16 n @ drop 2 (drop p s)" "length (take p s) = p"
    using append_take_drop_id[of p s] append_take_drop_id[of 2 "drop p s"] n(2) by simp_all
  then show ?thesis using net16_be16[OF n(1), of "take p s" "drop 2 (drop p s)"] by simp
qed

lemma strlen_padded: "NUL \<notin> set s \<Longrightarrow> 0 < k \<Longrightarrow> strlen (s @ replicate k NUL) = Some (length s)"
  by (induction s) (auto simp: gr0_conv_Suc)

lemma dec_no_nul: "NUL \<notin> set (dec n)"
proof (induction n rule: dec.induct)
  case (1 n)
  have "code (char_of (48 + n mod 10)) \<noteq> 0" by (simp add: code_char_mod)
  then have c: "(char_of (48 + n mod 10) :: char) \<noteq> NUL" unfolding code_zero .
  show ?case
  proof (cases "n < 10")
    case True
    then have d: "dec n = [char_of (48 + n)]" by (subst dec.simps) (simp only: if_True)
    have "n mod 10 = n" using True by simp
    then show ?thesis using c unfolding d by (simp only: list.set singleton_iff) metis
  next
    case False
    then have d: "dec n = dec (n div 10) @ [char_of (48 + n mod 10)]" by (subst dec.simps) (simp only: if_False)
    show ?thesis using c "1.IH"[OF False] unfolding d by (simp only: set_append list.set Un_iff singleton_iff) metis
  qed
qed

lemma dotted_no_nul: "NUL \<notin> set (dotted a)"
  by (simp add: dotted_def dec_no_nul)

lemma dots_no_nul: "\<forall>l\<in>set ls. NUL \<notin> set l \<Longrightarrow> NUL \<notin> set (dots ls)"
  by (induction ls rule: dots.induct) auto

lemma names_no_nul: "names s p ls \<Longrightarrow> NUL \<notin> set (dots ls)"
proof -
  assume "names s p ls"
  then have "\<forall>l\<in>set ls. label_ok l" by (induction) auto
  then show ?thesis by (intro dots_no_nul) (simp add: label_ok_def)
qed

lemma dup_string_spec:
  assumes "all_alloc mal" "strlen m = Some n"
  shows "dup_string mal m = Some (cstr (take n m))"
proof -
  have "n \<le> length m" using assms(2) by (induction m arbitrary: n) (auto split: if_splits)
  moreover have "drop n (replicate (n + 1) NUL) = [NUL]" by (simp only: drop_replicate) simp
  moreover obtain b where "s_malloc mal (n + 1) = Some b" using s_malloc_gives[OF assms(1), of "n + 1"] by blast
  ultimately show ?thesis using assms
    by (simp add: dup_string_def blit_def cstr_def del: replicate_Suc)
qed

lemma parse_pointer:
  assumes "short_name s ow ls" "take 2 (drop p s) = [char_of (192 :: nat), char_of ow]" "ow < 256"
  shows "dns_parse_name s p (replicate 128 NUL) 0 = Some (dots ls @ replicate (128 - length (dots ls)) NUL, length (dots ls))"
proof -
  have "length (take 2 (drop p s)) = 2" unfolding assms(2) by simp
  then have l: "p + 1 < length s" by simp
  then have "take 2 (drop p s) = [s ! p, s ! (p + 1)]" by (simp add: Cons_nth_drop_Suc[symmetric] numeral_2_eq_2)
  then have e: "s ! p = char_of (192 :: nat)" "s ! (p + 1) = char_of ow" using assms(2) by simp_all
  have c: "code (s ! p) = 192" "code (s ! (p + 1)) = ow" unfolding e using assms(3) by (simp_all add: code_char_mod)
  have "names s p ls" by (rule names.pointer) (use l c assms(1) in \<open>auto simp: short_name_def\<close>)
  then show ?thesis using parse_while_names[of s p ls 0 "replicate 128 NUL"] assms(1)
    by (simp add: dns_parse_name_def short_name_def)
qed

end
