(* ===== verification/Dns_Response.thy ===== *)
theory Dns_Response
  imports Dns_Laws
begin

text \<open>A response with compressed owner names gives the addresses that its records carry.\<close>

lemma net16_in: "n < 65536 \<Longrightarrow> s = pre @ be16 n @ post \<Longrightarrow> p = length pre \<Longrightarrow> net16 s p = Some n"
  using net16_be16 by simp

lemma A_fields:
  assumes "s = pre @ encode_rr (A ow t a) @ post" "t < 2 ^ 32" "length a = 4" "p = length pre"
  shows "net16 s (p + 2) = Some 1" "net16 s (p + 6) = Some (t div 65536)" "net16 s (p + 10) = Some 4"
    "take 2 (drop p s) = [char_of (192 :: nat), char_of ow]" "take 4 (drop (p + 12) s) = a" "p + 16 \<le> length s"
proof -
  let ?o = "[char_of (192 :: nat), char_of ow]"
  have s: "s = (pre @ ?o) @ be16 1 @ (be16 1 @ be16 (t div 65536) @ be16 (t mod 65536) @ be16 4 @ a @ post)"
    "s = (pre @ ?o @ be16 1 @ be16 1) @ be16 (t div 65536) @ (be16 (t mod 65536) @ be16 4 @ a @ post)"
    "s = (pre @ ?o @ be16 1 @ be16 1 @ be16 (t div 65536) @ be16 (t mod 65536)) @ be16 4 @ (a @ post)"
    "s = (pre @ ?o @ be16 1 @ be16 1 @ be16 (t div 65536) @ be16 (t mod 65536) @ be16 4) @ a @ post"
    using assms(1) by simp_all
  have l: "length (be16 n) = 2" for n by (simp add: be16_def)
  have t: "t div 65536 < 65536" using assms(2) by (simp add: div_less_iff_less_mult)
  show "net16 s (p + 2) = Some 1" by (rule net16_in[OF _ s(1)]) (simp_all add: assms(4))
  show "net16 s (p + 6) = Some (t div 65536)" by (rule net16_in[OF t s(2)]) (simp add: assms(4) l)
  show "net16 s (p + 10) = Some 4" by (rule net16_in[OF _ s(3)]) (simp_all add: assms(4) l)
  show "take 2 (drop p s) = ?o" unfolding s(1) by (simp add: assms(4))
  have p: "length (pre @ ?o @ be16 1 @ be16 1 @ be16 (t div 65536) @ be16 (t mod 65536) @ be16 4) = p + 12"
    by (simp add: assms(4) l)
  define q where "q = pre @ ?o @ be16 1 @ be16 1 @ be16 (t div 65536) @ be16 (t mod 65536) @ be16 4"
  have q: "s = q @ a @ post" "length q = p + 12" using s(4) p by (simp_all add: q_def)
  show "take 4 (drop (p + 12) s) = a" "p + 16 \<le> length s" unfolding q(1) using assms(3) q(2) by simp_all
qed

lemma CNAME_fields:
  assumes "s = pre @ encode_rr (CNAME ow t d) @ post" "t < 2 ^ 32" "length d < 65536" "p = length pre"
  shows "net16 s (p + 2) = Some 5" "net16 s (p + 6) = Some (t div 65536)" "net16 s (p + 10) = Some (length d)"
    "take 2 (drop p s) = [char_of (192 :: nat), char_of ow]"
proof -
  let ?o = "[char_of (192 :: nat), char_of ow]"
  have s: "s = (pre @ ?o) @ be16 5 @ (be16 1 @ be16 (t div 65536) @ be16 (t mod 65536) @ be16 (length d) @ d @ post)"
    "s = (pre @ ?o @ be16 5 @ be16 1) @ be16 (t div 65536) @ (be16 (t mod 65536) @ be16 (length d) @ d @ post)"
    "s = (pre @ ?o @ be16 5 @ be16 1 @ be16 (t div 65536) @ be16 (t mod 65536)) @ be16 (length d) @ (d @ post)"
    using assms(1) by simp_all
  have l: "length (be16 n) = 2" for n by (simp add: be16_def)
  have t: "t div 65536 < 65536" using assms(2) by (simp add: div_less_iff_less_mult)
  show "net16 s (p + 2) = Some 5" by (rule net16_in[OF _ s(1)]) (simp_all add: assms(4))
  show "net16 s (p + 6) = Some (t div 65536)" by (rule net16_in[OF t s(2)]) (simp add: assms(4) l)
  show "net16 s (p + 10) = Some (length d)" by (rule net16_in[OF assms(3) s(3)]) (simp add: assms(4) l)
  show "take 2 (drop p s) = ?o" unfolding s(1) by (simp add: assms(4))
qed

lemma host_answer_spec:
  assumes "all_alloc mal" "short_name s ow ls" "take 4 (drop p s) = a" "length a = 4" "cnt < length list"
  shows "host_answer mal s p (dots ls @ replicate (128 - length (dots ls)) NUL) t list cnt out
    = Some (list[cnt := Some \<lparr>domain = cstr (dots ls), ip = cstr (dotted a)\<rparr>], cnt + 1, out @ address_text (dots ls) (dotted a) t)"
proof -
  have n: "NUL \<notin> set (dots ls)" "length (dots ls) < 128" using assms(2) names_no_nul by (auto simp: short_name_def)
  have sl: "strlen (dots ls @ replicate (128 - length (dots ls)) NUL) = Some (length (dots ls))"
    using strlen_padded[OF n(1)] n(2) by simp
  have "length (take 4 (drop p s)) = 4" using assms(3,4) by simp
  then have "4 \<le> length (drop p s)" by simp
  then have b: "blit (replicate 4 NUL) 0 (drop p s) 4 = Some a" using assms(3) by (simp add: blit_def del: length_drop)
  have d: "dup_string mal (dots ls @ replicate (128 - length (dots ls)) NUL) = Some (cstr (dots ls))"
    using dup_string_spec[OF assms(1) sl] by simp
  have i: "dup_string mal (cstr (dotted a)) = Some (cstr (dotted a))"
    using dup_string_spec[OF assms(1) strlen_cstr[OF dotted_no_nul]] by (simp add: cstr_def)
  show ?thesis using b sl d i assms(5) by (simp add: host_answer_def Let_def)
qed

lemma answer_for_spec:
  assumes "all_alloc mal"
  shows "rrs_ok s p rs \<Longrightarrow> s = pre @ concat (map (encode_rr \<circ> fst) rs) @ post \<Longrightarrow> p = length pre \<Longrightarrow>
    cnt + length (items rs) \<le> length list \<Longrightarrow>
    answer_for mal s (length rs) p list cnt out
      = Some (take cnt list @ map Some (items rs) @ drop (cnt + length (items rs)) list, cnt + length (items rs), out @ printed rs)"
proof (induction rs arbitrary: p pre list cnt out)
  case (Cons x rs)
  obtain r ls where x: "x = (r, ls)" by (cases x)
  have ok: "rr_ok s p r ls" "rrs_ok s (p + length (encode_rr r)) rs" using Cons.prems(1) x by simp_all
  have s: "s = pre @ encode_rr r @ concat (map (encode_rr \<circ> fst) rs) @ post" using Cons.prems(2) x by (simp add: comp_def)
  have s': "s = (pre @ encode_rr r) @ concat (map (encode_rr \<circ> fst) rs) @ post" using s by (simp add: comp_def)
  show ?case
  proof (cases r)
    case (A ow t a)
    have w: "ow < 256" "t < 2 ^ 32" "length a = 4" "short_name s ow ls" using ok(1) A by simp_all
    note F = A_fields[OF s[unfolded A] w(2,3) Cons.prems(3)]
    have c: "cnt < length list" "cnt + 1 + length (items rs) \<le> length list" using Cons.prems(4) x A by simp_all
    have l: "p + 16 = length (pre @ encode_rr r)" using Cons.prems(3) A w(3) by (simp add: be16_def)
    let ?l = "list[cnt := Some \<lparr>domain = cstr (dots ls), ip = cstr (dotted a)\<rparr>]"
    have "answer_for mal s (length (x # rs)) p list cnt out
        = answer_for mal s (length rs) (p + 16) ?l (cnt + 1) (out @ address_text (dots ls) (dotted a) (t div 65536))"
      using parse_pointer[OF w(4) F(4) w(1)] F(1-3) host_answer_spec[OF assms w(4) F(5) w(3) c(1)]
      by (simp add: DNS_HOST_def DNS_CNAME_def Let_def add.commute[of 16])
    also have "\<dots> = Some (take (cnt + 1) ?l @ map Some (items rs) @ drop (cnt + 1 + length (items rs)) ?l,
        cnt + 1 + length (items rs), (out @ address_text (dots ls) (dotted a) (t div 65536)) @ printed rs)"
      by (rule Cons.IH[OF _ s' l]) (use ok(2) A w(3) c(2) in \<open>simp_all add: be16_def\<close>)
    finally show ?thesis using c x A by (simp add: take_Suc_conv_app_nth)
  next
    case (CNAME ow t d)
    obtain ts where w: "ow < 256" "t < 2 ^ 32" "length d < 65536" "short_name s ow ls" "short_name s (p + 12) ts"
      using ok(1) CNAME by auto
    note F = CNAME_fields[OF s[unfolded CNAME] w(2,3) Cons.prems(3)]
    have l: "p + 12 + length d = length (pre @ encode_rr r)" using Cons.prems(3) CNAME by (simp add: be16_def)
    have "\<exists>y. dns_parse_name s (p + 12) (replicate 128 NUL) 0 = Some y"
      using parse_while_names[of s "p + 12" ts 0 "replicate 128 NUL"] w(5) by (simp add: short_name_def dns_parse_name_def)
    then have "answer_for mal s (length (x # rs)) p list cnt out = answer_for mal s (length rs) (p + 12 + length d) list cnt out"
      using parse_pointer[OF w(4) F(4) w(1)] F(1-3) by (auto simp: DNS_CNAME_def Let_def)
    also have "\<dots> = Some (take cnt list @ map Some (items rs) @ drop (cnt + length (items rs)) list,
        cnt + length (items rs), out @ printed rs)"
      by (rule Cons.IH[OF _ s' l]) (use ok(2) l Cons.prems(3,4) x CNAME in \<open>simp_all only: length_append items.simps\<close>)
    finally show ?thesis using x CNAME by simp
  qed
qed simp

lemma skip_name_names:
  assumes "\<forall>l\<in>set ls. label_ok l"
  shows "skip_name (pre @ wire ls @ post) (length pre) = Some (length pre + length (wire ls))"
  using assms
proof (induction ls arbitrary: pre)
  case Nil
  show ?case by (subst skip_name.simps) (simp add: wire_def code_def rd_def)
next
  case (Cons l ls)
  have l: "0 < length l" "length l < 256" using Cons.prems by (simp_all add: label_ok_def)
  have e: "pre @ wire (l # ls) @ post = (pre @ char_of (length l) # l) @ wire ls @ post" by (simp add: wire_Cons)
  have r: "rd (pre @ wire (l # ls) @ post) (length pre) = Some (char_of (length l))" by (simp add: rd_def wire_Cons nth_append)
  have "skip_name (pre @ wire (l # ls) @ post) (length pre) = skip_name (pre @ wire (l # ls) @ post) (length pre + (length l + 1))"
    using r l by (subst skip_name.simps) (simp add: code_char_of)
  also have "\<dots> = skip_name ((pre @ char_of (length l) # l) @ wire ls @ post) (length (pre @ char_of (length l) # l))"
    unfolding e by simp
  also have "\<dots> = Some (length (pre @ char_of (length l) # l) + length (wire ls))"
    by (rule Cons.IH) (use Cons.prems in simp)
  finally show ?case by (simp add: wire_Cons)
qed

lemma items_le: "length (items rs) \<le> length rs"
  by (induction rs rule: items.induct) auto

text \<open>The questions of a response: names without compression, type and class.\<close>

definition questions :: "(string list \<times> string) list \<Rightarrow> string" where
  "questions qs = concat (map (\<lambda>(ls, t). wire ls @ t) qs)"

definition question_ok :: "string list \<times> string \<Rightarrow> bool" where
  "question_ok q \<longleftrightarrow> (\<forall>l\<in>set (fst q). label_ok l) \<and> length (snd q) = 4"

lemma query_for_spec:
  "\<forall>q\<in>set qs. question_ok q \<Longrightarrow>
   query_for (pre @ questions qs @ post) (length qs) (length pre) = Some (length pre + length (questions qs))"
proof (induction qs arbitrary: pre)
  case (Cons q qs)
  obtain ls t where q: "q = (ls, t)" "\<forall>l\<in>set ls. label_ok l" "length t = 4" using Cons.prems by (cases q) (simp add: question_ok_def)
  have e: "pre @ questions (q # qs) @ post = pre @ wire ls @ (t @ questions qs @ post)" by (simp add: questions_def q(1))
  define u where "u = pre @ wire ls @ t"
  have u: "pre @ questions (q # qs) @ post = u @ questions qs @ post" "length u = length pre + length (wire ls) + 4"
    using q(3) by (simp_all add: u_def questions_def q(1))
  have "query_for (u @ questions qs @ post) (length qs) (length u) = Some (length u + length (questions qs))"
    by (rule Cons.IH) (use Cons.prems in simp)
  moreover have "skip_name (u @ questions qs @ post) (length pre) = Some (length pre + length (wire ls))"
    using skip_name_names[OF q(2), of pre "t @ questions qs @ post"] unfolding u(1)[symmetric] e .
  ultimately have "query_for (u @ questions qs @ post) (Suc (length qs)) (length pre) = Some (length u + length (questions qs))"
    using u(2) by simp
  then show ?case unfolding u(1) using u(2) q(3) by (simp add: questions_def q(1))
qed (simp add: questions_def)

lemma response_spec:
  assumes "all_alloc mal" and "length hdr = 4" and "length auth = 4"
    and "\<forall>q\<in>set qs. question_ok q" and "length qs < 65536" and "length rs < 65536"
    and "s = hdr @ be16 (length qs) @ be16 (length rs) @ auth @ questions qs @ concat (map (encode_rr \<circ> fst) rs) @ post"
    and "rrs_ok s (12 + length (questions qs)) rs"
  shows "dns_parse_response mal s = Some (int (length (items rs)),
      Some (map Some (items rs) @ replicate (length rs - length (items rs)) None), printed rs)"
proof -
  let ?h = "hdr @ be16 (length qs) @ be16 (length rs) @ auth"
  let ?r = "concat (map (encode_rr \<circ> fst) rs) @ post"
  have l: "length (be16 n) = 2" for n by (simp add: be16_def)
  have h: "length ?h = 12" using assms(2,3) l by simp
  have q: "net16 s 4 = Some (length qs)" by (rule net16_in[OF assms(5,7)]) (simp_all add: assms(2))
  have s2: "s = (hdr @ be16 (length qs)) @ be16 (length rs) @ auth @ questions qs @ ?r" using assms(7) by simp
  have a: "net16 s 6 = Some (length rs)" by (rule net16_in[OF assms(6) s2]) (simp add: assms(2) l)
  have s3: "s = ?h @ questions qs @ ?r" using assms(7) by simp
  have "query_for s (length qs) 12 = Some (12 + length (questions qs))"
    using query_for_spec[OF assms(4), of ?h ?r] s3 h by simp
  moreover have s4: "s = (?h @ questions qs) @ concat (map (encode_rr \<circ> fst) rs) @ post" using s3 by simp
  have p: "12 + length (questions qs) = length (?h @ questions qs)" using h by simp
  have "answer_for mal s (length rs) (12 + length (questions qs)) (replicate (length rs) None) 0 []
      = Some (map Some (items rs) @ replicate (length rs - length (items rs)) None, length (items rs), printed rs)"
    using answer_for_spec[OF assms(1,8) s4 p, of 0 "replicate (length rs) None" "[]"] items_le[of rs] by simp
  moreover obtain b where "s_malloc mal (16 * length rs) = Some b" using s_malloc_gives[OF assms(1)] by blast
  ultimately show ?thesis using q a by (simp add: dns_parse_response_def)
qed

text \<open>A datagram of this format, with what follows it in the buffer.\<close>

definition response :: "string \<Rightarrow> (rr \<times> string list) list \<Rightarrow> bool" where
  "response s rs \<longleftrightarrow> (\<exists>hdr auth qs post. length hdr = 4 \<and> length auth = 4 \<and> (\<forall>q\<in>set qs. question_ok q)
     \<and> length qs < 65536 \<and> length rs < 65536
     \<and> s = hdr @ be16 (length qs) @ be16 (length rs) @ auth @ questions qs @ concat (map (encode_rr \<circ> fst) rs) @ post
     \<and> rrs_ok s (12 + length (questions qs)) rs)"

lemma names_append: "names s p ls \<Longrightarrow> names (s @ x) p ls"
proof (induction rule: names.induct)
  case (root p)
  then show ?case by (intro names.root) (simp_all add: nth_append)
next
  case (label p l ls)
  have "p + 1 + length l \<le> length s" "(s @ x) ! p = s ! p" using label.hyps(1) by (simp_all add: nth_append)
  moreover from this have "take (length l) (drop (p + 1) (s @ x)) = take (length l) (drop (p + 1) s)" by simp
  ultimately show ?case using label.hyps(1-4) by - (rule names.label[OF _ _ _ _ label.IH]; simp only: length_append trans_less_add1)
next
  case (pointer p ls)
  then have "(s @ x) ! p = s ! p" "(s @ x) ! (p + 1) = s ! (p + 1)" by (simp_all add: nth_append)
  then show ?case using pointer by - (rule names.pointer; simp only: length_append trans_less_add1 not_False_eq_True)
qed

lemma short_name_append: "short_name s p ls \<Longrightarrow> short_name (s @ x) p ls"
  using names_append by (auto simp: short_name_def)

lemma rr_ok_append: "rr_ok s p r ls \<Longrightarrow> rr_ok (s @ x) p r ls"
  using short_name_append[of s _ _ x] by (cases r) auto

lemma rrs_ok_append: "rrs_ok s p rs \<Longrightarrow> rrs_ok (s @ x) p rs"
proof (induction rs arbitrary: p)
  case (Cons y rs)
  then show ?case using rr_ok_append[of s p _ _ x] by (cases y) simp
qed simp

lemma response_append: "response s rs \<Longrightarrow> response (s @ x) rs"
proof -
  assume "response s rs"
  then obtain hdr auth qs post where r: "length hdr = 4" "length auth = 4" "\<forall>q\<in>set qs. question_ok q"
     "length qs < 65536" "length rs < 65536"
     "s = hdr @ be16 (length qs) @ be16 (length rs) @ auth @ questions qs @ concat (map (encode_rr \<circ> fst) rs) @ post"
     "rrs_ok s (12 + length (questions qs)) rs" unfolding response_def by blast
  have "s @ x = hdr @ be16 (length qs) @ be16 (length rs) @ auth @ questions qs @ concat (map (encode_rr \<circ> fst) rs) @ post @ x"
    by (subst r(6)) simp
  then show ?thesis unfolding response_def using r(1-5) rrs_ok_append[OF r(7), of x] by blast
qed

text \<open>
  C35. A response that names its questions without compression, and whose answers are addresses and aliases,
  the owner of each given by a pointer \<^verbatim>\<open>C0xx\<close> to a name in the first 256 bytes (\<open>rrs_ok\<close>: the name
  resolves and has fewer than 128 bytes), gives one item per address record, in order, with the owner's
  name and the dotted address. The printed time to live is that of the upper half of the field: it is
  zero for times below 18 hours.
\<close>

theorem dns_parse_response_correct:
  assumes "all_alloc mal" and "length hdr = 4" and "length auth = 4"
    and "\<forall>q\<in>set qs. question_ok q" and "length qs < 65536" and "length rs < 65536"
    and "s = hdr @ be16 (length qs) @ be16 (length rs) @ auth @ questions qs @ concat (map (encode_rr \<circ> fst) rs) @ post"
    and "rrs_ok s (12 + length (questions qs)) rs"
  shows "dns_parse_response mal s = Some (int (length (items rs)),
      Some (map Some (items rs) @ replicate (length rs - length (items rs)) None), printed rs)"
  using assms by (rule response_spec)

text \<open>A response for \<^verbatim>\<open>v.qq.com\<close>: an alias of itself and two addresses.\<close>

definition sample_rrs :: "(rr \<times> string list) list" where
  "sample_rrs = [(CNAME 12 300 (wire [''v'']), [''v'', ''qq'', ''com'']), (A 12 70000 (map char_of [1, 2, 3, 4 :: nat]), [''v'', ''qq'', ''com'']),
     (A 14 60 (map char_of [10, 0, 0, 255 :: nat]), [''qq'', ''com''])]"

definition sample_response :: string where
  "sample_response = ''idFF'' @ be16 1 @ be16 3 @ ''abcd'' @ questions [([''v'', ''qq'', ''com''], ''tttt'')]
     @ concat (map (encode_rr \<circ> fst) sample_rrs)"

lemma names_at: "s = pre @ wire ls @ post \<Longrightarrow> length pre = p \<Longrightarrow> \<forall>l\<in>set ls. label_ok l \<Longrightarrow> names s p ls"
  using names_wire by blast

lemma sample_names:
  "names sample_response 12 [''v'', ''qq'', ''com'']" "names sample_response 14 [''qq'', ''com'']"
  "names sample_response 38 [''v'']"
proof -
  have ok: "\<forall>l\<in>set [''v'', ''qq'', ''com'']. label_ok l" "\<forall>l\<in>set [''qq'', ''com'']. label_ok l" "\<forall>l\<in>set [''v'']. label_ok l"
    by (simp_all add: label_ok_def)
  let ?h = "''idFF'' @ be16 1 @ be16 3 @ ''abcd''"
  let ?t = "''tttt'' @ concat (map (encode_rr \<circ> fst) sample_rrs)"
  let ?p = "?h @ wire [''v'', ''qq'', ''com''] @ ''tttt''
      @ [char_of (192 :: nat), char_of (12 :: nat)] @ be16 5 @ be16 1 @ be16 0 @ be16 300 @ be16 3"
  have l: "length ?h = 12" "length (?h @ [char_of (1 :: nat), CHR ''v'']) = 14" "length ?p = 38"
    by (simp_all add: be16_def wire_def)
  have w: "wire [''v'', ''qq'', ''com''] = [char_of (1 :: nat), CHR ''v''] @ wire [''qq'', ''com'']" by (simp add: wire_Cons)
  have w3: "length (wire [''v'']) = 3" by (simp add: wire_def)
  have s: "sample_response = ?h @ wire [''v'', ''qq'', ''com''] @ ?t"
    by (simp add: sample_response_def questions_def)
  have s2: "sample_response = (?h @ [char_of (1 :: nat), CHR ''v'']) @ wire [''qq'', ''com''] @ ?t"
    unfolding sample_response_def questions_def by (simp add: w)
  have s3: "sample_response = ?p @ wire [''v''] @ concat (map (encode_rr \<circ> fst) (tl sample_rrs))"
    by (simp add: sample_response_def sample_rrs_def w3 questions_def)
  show "names sample_response 12 [''v'', ''qq'', ''com'']" by (rule names_at[OF s l(1) ok(1)])
  show "names sample_response 14 [''qq'', ''com'']" by (rule names_at[OF s2 l(2) ok(2)])
  show "names sample_response 38 [''v'']" by (rule names_at[OF s3 l(3) ok(3)])
qed

lemma sample_items: "items sample_rrs = [\<lparr>domain = cstr ''v.qq.com'', ip = cstr (dotted (map char_of [1, 2, 3, 4 :: nat]))\<rparr>,
    \<lparr>domain = cstr ''qq.com'', ip = cstr (dotted (map char_of [10, 0, 0, 255 :: nat]))\<rparr>]" "length sample_rrs = 3"
  by (simp_all add: sample_rrs_def)

lemma sample_ok: "\<forall>q\<in>set [([''v'', ''qq'', ''com''], ''tttt'')]. question_ok q"
    "rrs_ok sample_response (12 + length (questions [([''v'', ''qq'', ''com''], ''tttt'')])) sample_rrs"
proof -
  show "\<forall>q\<in>set [([''v'', ''qq'', ''com''], ''tttt'')]. question_ok q" by (simp add: question_ok_def label_ok_def)
  show "rrs_ok sample_response (12 + length (questions [([''v'', ''qq'', ''com''], ''tttt'')])) sample_rrs"
    using sample_names by (simp add: sample_rrs_def short_name_def wire_def be16_def questions_def) (rule exI[of _ "[''v'']"], simp add: short_name_def)
qed

lemma sample_is_response: "response sample_response sample_rrs"
  unfolding response_def
  by (intro exI[of _ "''idFF''"] exI[of _ "''abcd''"] exI[of _ "[([''v'', ''qq'', ''com''], ''tttt'')]"] exI[of _ "[]"])
    (use sample_ok sample_items(2) in \<open>simp add: sample_response_def\<close>)

theorem dns_parse_response_correct_witness:
  "dns_parse_response (\<lambda>_. Some (\<lambda>_. NUL)) sample_response = Some (2,
     Some [Some \<lparr>domain = cstr ''v.qq.com'', ip = cstr (dotted (map char_of [1, 2, 3, 4 :: nat]))\<rparr>, Some \<lparr>domain = cstr ''qq.com'', ip = cstr (dotted (map char_of [10, 0, 0, 255 :: nat]))\<rparr>, None],
     printed sample_rrs)"
proof -
  from dns_parse_response_correct[of "\<lambda>_. Some (\<lambda>_. NUL)" "''idFF''" "''abcd''", OF _ _ _ sample_ok(1) _ _ _ sample_ok(2), of "[]"]
  show ?thesis by (simp add: all_alloc_def sample_items sample_response_def)
qed

subsection \<open>Messages that the parser does not survive\<close>

text \<open>
  A compression pointer to itself makes \<^verbatim>\<open>dns_parse_name\<close> call itself without end: nothing is returned for
  such a message, whoever sends it.
\<close>

theorem pointer_loop_never_returns:
  assumes "p + 1 < length s" and "is_pointer (code (s ! p))" and "code (s ! (p + 1)) = p"
  shows "dns_parse_name s p out n = None"
proof -
  have z: "code (s ! p) \<noteq> 0" using assms(2) by (auto simp: is_pointer_def)
  have "\<not> (c = s \<and> q = p)" if "parse_while c q pos o1 k = Some y" for c q pos o1 k y
  proof (rule parse_while.raw_induct[OF _ that, where P = "\<lambda>c q pos o1 k y. \<not> (c = s \<and> q = p)"])
    fix f :: "string \<Rightarrow> nat \<Rightarrow> nat \<Rightarrow> string \<Rightarrow> nat \<Rightarrow> (string \<times> nat) option" and c q pos o1 k y
    assume IH: "\<And>c q pos o1 k y. f c q pos o1 k = Some y \<Longrightarrow> \<not> (c = s \<and> q = p)"
    assume eq: "rd c q \<bind> (\<lambda>x. if code x = 0 then Some (o1, k)
        else if is_pointer (code x) then rd c (q + 1) \<bind> (\<lambda>d. f c (code d) k o1 k)
        else blit o1 pos (drop (q + 1) c) (code x) \<bind> (\<lambda>o1. rd c (q + 1 + code x) \<bind> (\<lambda>d.
          if code d \<noteq> 0 then wr o1 (pos + code x) (CHR ''.'') \<bind> (\<lambda>o1. f c (q + 1 + code x) (pos + code x + 1) o1 (k + code x + 1))
          else f c (q + 1 + code x) (pos + code x) o1 (k + code x)))) = Some y"
    show "\<not> (c = s \<and> q = p)"
    proof
      assume a: "c = s \<and> q = p"
      have "rd s p = Some (s ! p)" "rd s (p + 1) = Some (s ! (p + 1))" using assms(1) by simp_all
      then have "f s p k o1 k = Some y" using eq a z assms(2,3) by simp
      then show False using IH by blast
    qed
  qed
  then show ?thesis unfolding dns_parse_name_def by (cases "parse_while s p n out n") blast+
qed

theorem pointer_loop_never_returns_witness:
  "dns_parse_name (map char_of [0, 192, 1 :: nat]) 1 (replicate 128 NUL) 0 = None"
  by (rule pointer_loop_never_returns) (simp_all add: is_pointer_def code_def)

text \<open>Only the low byte of a pointer is used: an offset of 256 or more leads to another name.\<close>

lemma far_pointer_wrong:
  assumes "p + 1 < length s" "code (s ! p) = 193"
  shows "dns_parse_name s p out n = parse_while s (code (s ! (p + 1))) n out n"
  using assms unfolding dns_parse_name_def by (subst parse_while.simps) (simp add: is_pointer_def)

text \<open>
  A record of any other type than an address or an alias, such as an IPv6 address, is not skipped: the
  next record is read from its data.
\<close>

theorem other_types_not_skipped:
  assumes "dns_parse_name s p (replicate 128 NUL) 0 = Some r" and "net16 s (p + 2) = Some type"
    and "type \<noteq> DNS_HOST" and "type \<noteq> DNS_CNAME" and "net16 s (p + 6) = Some t" and "net16 s (p + 10) = Some dl"
  shows "answer_for mal s (Suc k) p list cnt out = answer_for mal s k (p + 12) list cnt out"
  using assms by (cases r) (simp add: Let_def)

end
