(* ===== verification/Dns_Client.thy ===== *)
theory Dns_Client
  imports Dns_Response
begin

text \<open>
  The clients: \<^verbatim>\<open>dns_client_commit\<close> of \<^verbatim>\<open>sync_dns_client.c\<close>, and the asynchronous client of
  \<^verbatim>\<open>async_dns_client.c\<close>, whose thread waits with epoll for the replies of all the queries. The sockets
  are numbers; what \<^verbatim>\<open>recvfrom\<close> gives is \<open>None\<close> for an error. A callback is a value of its type \<open>'c\<close>,
  its calls are recorded.
\<close>

subsection \<open>One query after the other\<close>

text \<open>The receive buffer: 1024 bytes of zero, the datagram at the front.\<close>

definition recv_buffer :: "string option \<Rightarrow> string" where
  "recv_buffer d = (case d of None \<Rightarrow> replicate 1024 NUL | Some t \<Rightarrow> take 1024 t @ replicate (1024 - length t) NUL)"

definition recv_count :: "string option \<Rightarrow> int" where
  "recv_count d = (case d of None \<Rightarrow> - 1 | Some t \<Rightarrow> int (min 1024 (length t)))"

definition decimal_text :: "int \<Rightarrow> string" where
  "decimal_text x = (if x < 0 then CHR ''-'' # dec (nat (- x)) else dec (nat x))"

definition null_question :: dns_question where
  "null_question = \<lparr>qlength = 0, qtype = 0, qclass = 0, qname = []\<rparr>"

text \<open>The request: header, question and message, with the results of the first two not looked at.\<close>

definition dns_request :: "allocator \<Rightarrow> nat \<Rightarrow> string \<Rightarrow> string option" where
  "dns_request mal rnd host =
     (case dns_create_header rnd (Some \<lparr>hid = 0, hflags = 0, qdcount = 0, ancount = 0, nscount = 0, arcount = 0\<rparr>) of
        (_, None) \<Rightarrow> None
      | (_, Some h) \<Rightarrow>
          dns_create_question mal (Some null_question) host \<bind> (\<lambda>(_, q). q \<bind> (\<lambda>q.
          dns_build_request h q (replicate 1024 NUL) \<bind> (\<lambda>(n, req). Some (take n req)))))"

text \<open>The datagram that is sent, the result and the printed text; \<open>conn\<close> is what \<^verbatim>\<open>connect\<close> returns.\<close>

definition dns_client_commit :: "allocator \<Rightarrow> nat \<Rightarrow> int \<Rightarrow> string \<Rightarrow> string option \<Rightarrow> (string \<times> int \<times> string) option" where
  "dns_client_commit mal rnd conn host reply =
     dns_request mal rnd host \<bind> (\<lambda>req. dns_parse_response mal (recv_buffer reply) \<bind> (\<lambda>(_, _, out).
       Some (req, 0, ''url:'' @ host @ [CHR 0x0a] @ ''connect :'' @ decimal_text conn @ [CHR 0x0a]
         @ ''recvfrom n : '' @ decimal_text (recv_count reply) @ [CHR 0x0a] @ out)))"

subsection \<open>The asynchronous client\<close>

record 'c ep_arg =
  sockfd :: nat
  cb :: 'c

record 'c async_context =
  epoll :: "nat \<Rightarrow> 'c ep_arg option"
  socks :: "nat list"
  requests :: "(nat \<times> string) list"
  calls :: "('c \<times> dns_item option list option \<times> int) list"
  printed_text :: string

definition dns_async_client_init :: "'c async_context" where
  "dns_async_client_init = \<lparr>epoll = (\<lambda>_. None), socks = [], requests = [], calls = [], printed_text = []\<rparr>"

text \<open>\<open>fd\<close> is the new socket, \<open>arg\<close> whether there is memory for the argument of the event.\<close>

definition dns_async_client_commit ::
  "allocator \<Rightarrow> bool \<Rightarrow> nat \<Rightarrow> nat \<Rightarrow> 'c async_context \<Rightarrow> string \<Rightarrow> 'c \<Rightarrow> (int \<times> 'c async_context) option" where
  "dns_async_client_commit mal arg rnd fd ctx host f =
     dns_request mal rnd host \<bind> (\<lambda>req.
       (let ctx = ctx\<lparr>socks := fd # socks ctx, requests := requests ctx @ [(fd, req)]\<rparr>
        in if \<not> arg then Some (- 1, ctx)
           else if epoll ctx fd \<noteq> None then Some (- 1, ctx)
           else Some (0, ctx\<lparr>epoll := (epoll ctx)(fd := Some \<lparr>sockfd = fd, cb = f\<rparr>)\<rparr>)))"

text \<open>One event of the thread: receive, parse, call back, unregister and close.\<close>

definition proc_event :: "allocator \<Rightarrow> nat \<Rightarrow> string option \<Rightarrow> 'c async_context \<Rightarrow> 'c async_context option" where
  "proc_event mal fd reply ctx =
     epoll ctx fd \<bind> (\<lambda>data.
     dns_parse_response mal (recv_buffer reply) \<bind> (\<lambda>(count, list, out).
       Some (ctx\<lparr>calls := calls ctx @ [(cb data, list, count)],
                 epoll := (epoll ctx)(sockfd data := None),
                 socks := remove1 (sockfd data) (socks ctx),
                 printed_text := printed_text ctx @ out\<rparr>)))"

fun event_for :: "allocator \<Rightarrow> (nat \<times> string option) list \<Rightarrow> 'c async_context \<Rightarrow> 'c async_context option" where
  "event_for mal [] ctx = Some ctx"
| "event_for mal ((fd, reply) # es) ctx = proc_event mal fd reply ctx \<bind> event_for mal es"

text \<open>One return of \<^verbatim>\<open>epoll_wait\<close>: \<open>None\<close> for -1, with \<open>retry\<close> for \<^verbatim>\<open>EINTR\<close> and \<^verbatim>\<open>EAGAIN\<close>. The flag says whether the thread goes on.\<close>

definition proc_round ::
  "allocator \<Rightarrow> (nat \<times> string option) list option \<Rightarrow> bool \<Rightarrow> 'c async_context \<Rightarrow> (bool \<times> 'c async_context) option" where
  "proc_round mal ready retry ctx =
     (case ready of
        None \<Rightarrow> Some (retry, ctx)
      | Some [] \<Rightarrow> Some (True, ctx)
      | Some es \<Rightarrow>
          event_for mal es (ctx\<lparr>printed_text := printed_text ctx @ ''nready:'' @ dec (length es) @ [CHR 0x0a]\<rparr>) \<bind> (\<lambda>ctx.
            Some (True, ctx)))"

subsection \<open>Every query is answered once\<close>

text \<open>The client waits for exactly its open sockets, each under its own number.\<close>

definition ctx_ok :: "'c async_context \<Rightarrow> bool" where
  "ctx_ok ctx \<longleftrightarrow> distinct (socks ctx) \<and> (\<forall>fd. epoll ctx fd \<noteq> None \<longleftrightarrow> fd \<in> set (socks ctx))
     \<and> (\<forall>fd d. epoll ctx fd = Some d \<longrightarrow> sockfd d = fd)"

lemma init_ok: "ctx_ok dns_async_client_init"
  by (simp add: ctx_ok_def dns_async_client_init_def)

lemma ctx_okD:
  assumes "ctx_ok ctx"
  shows "distinct (socks ctx)" "epoll ctx fd \<noteq> None \<longleftrightarrow> fd \<in> set (socks ctx)" "epoll ctx fd = Some d \<Longrightarrow> sockfd d = fd"
  using assms unfolding ctx_ok_def by blast+

definition answered :: "nat \<Rightarrow> 'c async_context \<Rightarrow> 'c \<times> dns_item option list option \<times> int \<Rightarrow> string \<Rightarrow> 'c async_context" where
  "answered fd ctx call out = ctx\<lparr>calls := calls ctx @ [call], epoll := (epoll ctx)(fd := None),
     socks := remove1 fd (socks ctx), printed_text := printed_text ctx @ out\<rparr>"

lemma answered_simps [simp]:
  "calls (answered fd ctx call out) = calls ctx @ [call]"
  "epoll (answered fd ctx call out) = (epoll ctx)(fd := None)"
  "socks (answered fd ctx call out) = remove1 fd (socks ctx)"
  "requests (answered fd ctx call out) = requests ctx"
  by (simp_all add: answered_def)

lemma answered_ok:
  assumes "ctx_ok ctx"
  shows "ctx_ok (answered fd ctx call out)"
proof -
  note D = ctx_okD[OF assms]
  have "epoll (answered fd ctx call out) k \<noteq> None \<longleftrightarrow> k \<in> set (socks (answered fd ctx call out))" for k
    using D(1) D(2)[of k] by (cases "k = fd") simp_all
  moreover have "epoll (answered fd ctx call out) k = Some d \<Longrightarrow> sockfd d = k" for k d
    using D(3)[of k d] by (cases "k = fd") simp_all
  moreover have "distinct (socks (answered fd ctx call out))" using D(1) by simp
  ultimately show ?thesis unfolding ctx_ok_def by blast
qed

lemma proc_event_spec:
  assumes "ctx_ok ctx" "epoll ctx fd = Some d" "dns_parse_response mal (recv_buffer reply) = Some (count, list, out)"
  shows "proc_event mal fd reply ctx = Some (answered fd ctx (cb d, list, count) out)"
  using assms(2,3) ctx_okD(3)[OF assms(1,2)] by (simp add: proc_event_def answered_def)

lemma event_for_spec:
  "ctx_ok ctx \<Longrightarrow> distinct (map fst es) \<Longrightarrow>
   \<forall>(fd, reply)\<in>set es. epoll ctx fd = Some (ds fd) \<and>
     dns_parse_response mal (recv_buffer reply) = Some (counts fd, found fd, outs fd) \<Longrightarrow>
   \<exists>ctx'. event_for mal es ctx = Some ctx' \<and> ctx_ok ctx' \<and>
     calls ctx' = calls ctx @ map (\<lambda>(fd, reply). (cb (ds fd), found fd, counts fd)) es \<and>
     epoll ctx' = (\<lambda>fd. if fd \<in> set (map fst es) then None else epoll ctx fd)"
proof (induction es arbitrary: ctx)
  case (Cons e es)
  obtain fd reply where e: "e = (fd, reply)" by (cases e)
  have h: "epoll ctx fd = Some (ds fd)" "dns_parse_response mal (recv_buffer reply) = Some (counts fd, found fd, outs fd)"
    using Cons.prems(3) e by simp_all
  define c where "c = answered fd ctx (cb (ds fd), found fd, counts fd) (outs fd)"
  have c: "proc_event mal fd reply ctx = Some c" "ctx_ok c"
    unfolding c_def by (rule proc_event_spec[OF Cons.prems(1) h]) (rule answered_ok[OF Cons.prems(1)])
  have cs: "calls c = calls ctx @ [(cb (ds fd), found fd, counts fd)]" "epoll c = (epoll ctx)(fd := None)"
    by (simp_all add: c_def)
  have d: "distinct (map fst es)" "fd \<notin> fst ` set es" using Cons.prems(2) e by simp_all
  have r: "\<forall>(fd', reply)\<in>set es. epoll c fd' = Some (ds fd') \<and>
     dns_parse_response mal (recv_buffer reply) = Some (counts fd', found fd', outs fd')"
  proof clarify
    fix f r assume m: "(f, r) \<in> set es"
    then have "f \<noteq> fd" using d(2) by force
    moreover have "(f, r) \<in> set (e # es)" using m by simp
    ultimately show "epoll c f = Some (ds f) \<and> dns_parse_response mal (recv_buffer r) = Some (counts f, found f, outs f)"
      using Cons.prems(3) cs(2) by fastforce
  qed
  from Cons.IH[OF c(2) d(1) r] obtain c' where c': "event_for mal es c = Some c'" "ctx_ok c'"
    "calls c' = calls c @ map (\<lambda>(fd, reply). (cb (ds fd), found fd, counts fd)) es"
    "epoll c' = (\<lambda>fd. if fd \<in> set (map fst es) then None else epoll c fd)" by blast
  have "event_for mal (e # es) ctx = Some c'" using c(1) c'(1) e by simp
  moreover have "epoll c' = (\<lambda>fd. if fd \<in> set (map fst (e # es)) then None else epoll ctx fd)"
    by (simp add: c'(4) cs(2) e fun_eq_iff)
  ultimately show ?case using c'(2,3) cs(1) e by simp
qed simp

lemma proc_round_spec:
  assumes "ctx_ok ctx" and "es \<noteq> []" and "distinct (map fst es)"
    and "\<forall>(fd, reply)\<in>set es. epoll ctx fd = Some (ds fd) \<and>
       dns_parse_response mal (recv_buffer reply) = Some (counts fd, found fd, outs fd)"
  shows "\<exists>ctx'. proc_round mal (Some es) retry ctx = Some (True, ctx') \<and> ctx_ok ctx' \<and>
     calls ctx' = calls ctx @ map (\<lambda>(fd, reply). (cb (ds fd), found fd, counts fd)) es \<and>
     epoll ctx' = (\<lambda>fd. if fd \<in> set (map fst es) then None else epoll ctx fd)"
proof -
  let ?c = "ctx\<lparr>printed_text := printed_text ctx @ ''nready:'' @ dec (length es) @ [CHR 0x0a]\<rparr>"
  have ok: "ctx_ok ?c" using assms(1) by (simp add: ctx_ok_def)
  have e: "epoll ?c = epoll ctx" "calls ?c = calls ctx" by simp_all
  have "\<forall>(fd, reply)\<in>set es. epoll ?c fd = Some (ds fd) \<and>
       dns_parse_response mal (recv_buffer reply) = Some (counts fd, found fd, outs fd)"
    unfolding e by (rule assms(4))
  from event_for_spec[OF ok assms(3) this] obtain c' where c': "event_for mal es ?c = Some c'" "ctx_ok c'"
    "calls c' = calls ctx @ map (\<lambda>(fd, reply). (cb (ds fd), found fd, counts fd)) es"
    "epoll c' = (\<lambda>fd. if fd \<in> set (map fst es) then None else epoll ctx fd)"
    unfolding e by blast
  have "proc_round mal (Some es) retry ctx = Some (True, c')" using assms(2) c'(1) by (cases es) (simp_all add: proc_round_def)
  then show ?thesis using c'(2-4) by blast
qed

text \<open>
  A reply with what it says: an error of \<^verbatim>\<open>recvfrom\<close> leaves zeros and says nothing, a datagram of at most 1024
  bytes is a response with its records.
\<close>

definition reply_of :: "string option \<Rightarrow> (rr \<times> string list) list \<Rightarrow> bool" where
  "reply_of d rs \<longleftrightarrow> (case d of None \<Rightarrow> rs = [] | Some t \<Rightarrow> length t \<le> 1024 \<and> response t rs)"

definition found_items :: "(rr \<times> string list) list \<Rightarrow> dns_item option list option" where
  "found_items rs = Some (map Some (items rs) @ replicate (length rs - length (items rs)) None)"

lemma reply_of_parse:
  assumes "all_alloc mal" "reply_of d rs"
  shows "dns_parse_response mal (recv_buffer d) = Some (int (length (items rs)), found_items rs, printed rs)"
proof (cases d)
  case None
  moreover obtain b where "s_malloc mal 0 = Some b" using s_malloc_gives[OF assms(1)] by blast
  ultimately show ?thesis using assms(2)
    by (simp add: reply_of_def found_items_def dns_parse_response_def recv_buffer_def net16_def rd_def ntoh16_def code_def)
next
  case (Some t)
  then have "response (recv_buffer d) rs" using assms(2) response_append by (simp add: reply_of_def recv_buffer_def)
  then show ?thesis using response_spec[OF assms(1)] unfolding response_def found_items_def by blast
qed

text \<open>
  C37. When \<^verbatim>\<open>epoll\<close> reports pending queries, whose replies are datagrams of the format of \<open>response\<close>, or which
  cannot be received, every one of them gets one call of its own callback with the addresses of its reply
  (none for an error), in the order of the events; its socket is closed and no longer waited for, so it
  is never called again, and the other queries stay pending.
\<close>

theorem replies_called_back:
  assumes "ctx_ok ctx" and "es \<noteq> []" and "distinct (map fst es)" and "all_alloc mal"
    and "\<forall>(fd, reply)\<in>set es. epoll ctx fd = Some (ds fd) \<and> reply_of reply (recs fd)"
  shows "\<exists>ctx'. proc_round mal (Some es) retry ctx = Some (True, ctx') \<and> ctx_ok ctx' \<and>
     calls ctx' = calls ctx @ map (\<lambda>(fd, reply). (cb (ds fd), found_items (recs fd), int (length (items (recs fd))))) es \<and>
     epoll ctx' = (\<lambda>fd. if fd \<in> set (map fst es) then None else epoll ctx fd)"
proof -
  have "\<forall>(fd, reply)\<in>set es. epoll ctx fd = Some (ds fd) \<and>
     dns_parse_response mal (recv_buffer reply) = Some (int (length (items (recs fd))), found_items (recs fd), printed (recs fd))"
    using assms(5) reply_of_parse[OF assms(4)] by fast
  from proc_round_spec[OF assms(1-3) this] show ?thesis .
qed

lemma commit_ok:
  assumes "ctx_ok ctx" "fd \<notin> set (socks ctx)" "dns_async_client_commit mal True rnd fd ctx host f = Some (k, ctx')"
  shows "k = 0 \<and> ctx_ok ctx' \<and> epoll ctx' fd = Some \<lparr>sockfd = fd, cb = f\<rparr>"
  using assms by (auto simp: dns_async_client_commit_def ctx_ok_def Let_def split: if_splits bind_splits)

text \<open>
  A reply is parsed as it comes: a datagram whose first answer has a name that points to itself takes the
  thread, and with it all pending queries, down.
\<close>

theorem reply_kills_client:
  assumes "epoll ctx fd = Some d" and "net16 (recv_buffer (Some r)) 4 = Some 0" and "net16 (recv_buffer (Some r)) 6 = Some (Suc n)"
    and "code (r ! 12) = 192" and "code (r ! 13) = 12" and "14 \<le> length r" and "mal (16 * Suc n) \<noteq> None"
  shows "proc_round mal (Some ((fd, Some r) # es)) retry ctx = None"
proof -
  let ?b = "recv_buffer (Some r)"
  have b: "13 < length ?b" "?b ! 12 = r ! 12" "?b ! 13 = r ! 13" using assms(6) by (simp_all add: recv_buffer_def nth_append)
  have "dns_parse_name ?b 12 (replicate 128 NUL) 0 = None"
    by (rule pointer_loop_never_returns) (use b assms(4,5) in \<open>simp_all add: is_pointer_def\<close>)
  moreover obtain m where "s_malloc mal (16 * Suc n) = Some m" using assms(7) by (auto simp: s_malloc_def)
  ultimately have "dns_parse_response mal ?b = None"
    using assms(2,3) by (simp add: dns_parse_response_def del: mult_Suc_right)
  then show ?thesis using assms(1) by (simp add: proc_round_def proc_event_def)
qed


text \<open>The context after the two queries of the witness: both pending, on the sockets 5 and 6.\<close>

definition two_pending :: "nat async_context" where
  "two_pending = \<lparr>epoll = (\<lambda>_. None)(5 := Some \<lparr>sockfd = 5, cb = 100\<rparr>, 6 := Some \<lparr>sockfd = 6, cb = 200\<rparr>),
     socks = [6, 5], requests = [], calls = [], printed_text = []\<rparr>"

lemma two_pending_ok: "ctx_ok two_pending"
  by (auto simp: ctx_ok_def two_pending_def split: if_splits)

theorem replies_called_back_witness:
  "\<exists>ctx'. proc_round (\<lambda>_. Some (\<lambda>_. NUL)) (Some [(6, Some sample_response), (5, None)]) True two_pending = Some (True, ctx') \<and>
     calls ctx' = [(200, Some [Some \<lparr>domain = cstr ''v.qq.com'', ip = cstr (dotted (map char_of [1, 2, 3, 4 :: nat]))\<rparr>,
         Some \<lparr>domain = cstr ''qq.com'', ip = cstr (dotted (map char_of [10, 0, 0, 255 :: nat]))\<rparr>, None], 2), (100, Some [], 0)]
     \<and> epoll ctx' 6 = None \<and> epoll ctx' 5 = None"
proof -
  let ?es = "[(6, Some sample_response), (5, None)]"
  define recs where "recs = (\<lambda>fd. if fd = (6 :: nat) then sample_rrs else [])"
  define ds where "ds = (\<lambda>fd. if fd = (6 :: nat) then \<lparr>sockfd = 6, cb = 200 :: nat\<rparr> else \<lparr>sockfd = 5, cb = 100\<rparr>)"
  have "length sample_response \<le> 1024" by (simp add: sample_response_def sample_rrs_def questions_def wire_def be16_def)
  then have "\<forall>(fd, reply)\<in>set ?es. epoll two_pending fd = Some (ds fd) \<and> reply_of reply (recs fd)"
    using sample_is_response by (simp add: two_pending_def ds_def recs_def reply_of_def)
  from replies_called_back[OF two_pending_ok _ _ _ this, of "\<lambda>_. Some (\<lambda>_. NUL)" True] show ?thesis
    by (auto simp: two_pending_def all_alloc_def recs_def ds_def found_items_def sample_items)
qed

theorem reply_kills_client_witness:
  "proc_round (\<lambda>_. Some (\<lambda>_. NUL)) (Some [(6, Some (map char_of [1, 0, 0, 0, 0, 0, 0, 1, 0, 0, 0, 0, 192, 12 :: nat]))]) True two_pending = None"
  by (rule reply_kills_client[where d = "\<lparr>sockfd = 6, cb = 200\<rparr>" and n = 0])
    (simp_all add: two_pending_def net16_def recv_buffer_def rd_def ntoh16_def code_def nth_append)

end
