(* ===== verification/Kmp.thy ===== *)
theory Kmp
  imports Prelude
begin

text \<open>
  \<^verbatim>\<open>0_kmp_and_linkedlist/kmp.c\<close>: the failure table of a pattern and the search for its
  first occurrence in a text. Strings are modelled without their NUL; the code's accesses
  go to \<^term>\<open>cstr\<close> of them, so an access past the NUL is \<open>None\<close>. The indices are unbounded: the code's
  are \<^verbatim>\<open>int\<close>, so the model is that of texts and patterns below 2 GiB.
\<close>

subsection \<open>The code\<close>

text \<open>
  The inner \<^verbatim>\<open>while\<close> of \<^verbatim>\<open>make_next\<close>: \<open>q\<close> is \<^verbatim>\<open>subfixTail\<close>, \<open>k\<close> is
  \<^verbatim>\<open>prefixTail\<close>.
\<close>

partial_function (option) next_while :: "string \<Rightarrow> nat list \<Rightarrow> nat \<Rightarrow> nat \<Rightarrow> nat option" where
  "next_while pat nxt q k =
     (if 0 < k
      then rd pat q \<bind> (\<lambda>a. rd pat k \<bind> (\<lambda>b.
             if a \<noteq> b then rd nxt (k - 1) \<bind> (\<lambda>k'. next_while pat nxt q k') else Some k))
      else Some k)"

text \<open>The outer \<^verbatim>\<open>for\<close>, from \<^verbatim>\<open>subfixTail\<close> \<open>q\<close> on.\<close>

partial_function (option) next_for ::
  "string \<Rightarrow> nat \<Rightarrow> nat list \<Rightarrow> nat \<Rightarrow> nat \<Rightarrow> nat list option" where
  "next_for pat patLen nxt q k =
     (if q < patLen
      then next_while pat nxt q k \<bind> (\<lambda>k1.
             rd pat q \<bind> (\<lambda>a. rd pat k1 \<bind> (\<lambda>b.
             (let k2 = (if a = b then k1 + 1 else k1)
              in wr nxt q k2 \<bind> (\<lambda>nxt'. next_for pat patLen nxt' (q + 1) k2)))))
      else Some nxt)"

definition make_next :: "string \<Rightarrow> nat list \<Rightarrow> nat list option" where
  "make_next pattern nxt =
     wr nxt 0 0 \<bind> (\<lambda>nxt0. next_for (cstr pattern) (length pattern) nxt0 1 0)"

text \<open>The \<^verbatim>\<open>while(text[t])\<close> of \<^verbatim>\<open>kmp\<close>; the result is the function's return value.\<close>

partial_function (option) kmp_while ::
  "string \<Rightarrow> string \<Rightarrow> nat list \<Rightarrow> nat \<Rightarrow> nat \<Rightarrow> nat \<Rightarrow> int option" where
  "kmp_while txt pat nxt patLen t p =
     rd txt t \<bind> (\<lambda>c.
       if c = NUL then Some (-1)
       else rd pat p \<bind> (\<lambda>d.
         if c \<noteq> d
         then (if p = 0 then kmp_while txt pat nxt patLen (t + 1) p
               else rd nxt (p - 1) \<bind> (\<lambda>p'. kmp_while txt pat nxt patLen t p'))
         else (if p + 1 = patLen then Some (int (t + 1) - int patLen)
               else kmp_while txt pat nxt patLen (t + 1) (p + 1))))"

definition kmp :: "string \<Rightarrow> string \<Rightarrow> int option" where
  "kmp text pattern =
     make_next pattern (replicate 20 0) \<bind> (\<lambda>nxt.
       kmp_while (cstr text) (cstr pattern) nxt (length pattern) 0 0)"

subsection \<open>Borders\<close>

text \<open>
  \<open>border pat i k\<close>: the first \<open>k\<close> characters of the pattern are also the last \<open>k\<close> of
  its first \<open>i\<close>. The table entry for a prefix is its longest proper border.
\<close>

definition border :: "string \<Rightarrow> nat \<Rightarrow> nat \<Rightarrow> bool" where
  "border pat i k \<longleftrightarrow> k < i \<and> suffix (take k pat) (take i pat)"

definition longest_border :: "string \<Rightarrow> nat \<Rightarrow> nat \<Rightarrow> bool" where
  "longest_border pat i k \<longleftrightarrow> border pat i k \<and> (\<forall>m. border pat i m \<longrightarrow> m \<le> k)"

definition table_ok :: "string \<Rightarrow> nat list \<Rightarrow> nat \<Rightarrow> bool" where
  "table_ok pat nxt b \<longleftrightarrow>
     b \<le> length nxt \<and> (\<forall>i. 0 < i \<and> i \<le> b \<longrightarrow> longest_border pat i (nxt ! (i - 1)))"

lemma table_okD: "table_ok pat nxt b \<Longrightarrow> 0 < i \<Longrightarrow> i \<le> b \<Longrightarrow>
    i \<le> length nxt \<and> nxt ! (i - 1) < i \<and> longest_border pat i (nxt ! (i - 1))"
  by (auto simp: table_ok_def longest_border_def border_def)

lemma longest_border_1: "longest_border pat 1 0"
  by (auto simp: longest_border_def border_def)

lemma table_ok_Suc:
  assumes "table_ok pat nxt b" and "b < length nxt" and "longest_border pat (Suc b) k"
  shows "table_ok pat (nxt[b := k]) (Suc b)"
proof -
  have "longest_border pat i (nxt[b := k] ! (i - 1))" if "0 < i" "i \<le> Suc b" for i
    using that assms by (cases "i = Suc b") (auto simp: table_ok_def)
  with assms show ?thesis by (auto simp: table_ok_def)
qed

text \<open>
  Falling back from a partial match of length \<open>k\<close> to its longest border keeps a match
  and skips none.
\<close>

lemma fall_back:
  assumes "longest_border pat k n" and "suffix (take k pat) xs"
  shows "suffix (take n pat) xs"
    and "n < m \<Longrightarrow> m < k \<Longrightarrow> \<not> suffix (take m pat) xs"
proof -
  show "suffix (take n pat) xs"
    using assms by (auto simp: longest_border_def border_def intro: suffix_order.order_trans [of _ "take k pat"])
  show "\<not> suffix (take m pat) xs" if "n < m" "m < k"
  proof
    assume "suffix (take m pat) xs"
    then have "suffix (take m pat) (take k pat)"
      using suffix_length_suffix [OF _ assms(2)] \<open>m < k\<close> by auto
    with assms(1) that show False
      by (auto simp: longest_border_def border_def)
  qed
qed

subsection \<open>The table\<close>

lemma next_while_ok:
  assumes "q < length pat" and "k \<le> q" and "table_ok pat nxt k"
    and "suffix (take k pat) (take q pat)"
  shows "\<exists>k1. next_while (cstr pat) nxt q k = Some k1 \<and> k1 \<le> k
     \<and> suffix (take k1 pat) (take q pat) \<and> (k1 = 0 \<or> pat ! q = pat ! k1)
     \<and> (\<forall>m. k1 < m \<and> m \<le> k \<and> suffix (take m pat) (take q pat) \<longrightarrow> pat ! m \<noteq> pat ! q)"
  using assms
proof (induction k rule: less_induct)
  case (less k)
  show ?case
  proof (cases "0 < k \<and> pat ! q \<noteq> pat ! k")
    case False
    with less.prems show ?thesis
      by (auto simp: next_while.simps [of _ _ q k])
  next
    case True
    define n where "n = nxt ! (k - 1)"
    from True less.prems have n: "n < k" "longest_border pat k n" "k \<le> length nxt"
      using table_okD [of pat nxt k k] by (auto simp: n_def)
    note fb = fall_back [OF n(2) less.prems(4)]
    have "table_ok pat nxt n"
      using less.prems(3) n(1) by (auto simp: table_ok_def)
    with less.IH [OF n(1) less.prems(1)] less.prems(2) n(1) fb(1)
    obtain k1 where k1: "next_while (cstr pat) nxt q n = Some k1" "k1 \<le> n"
        "suffix (take k1 pat) (take q pat)" "k1 = 0 \<or> pat ! q = pat ! k1"
        "\<forall>m. k1 < m \<and> m \<le> n \<and> suffix (take m pat) (take q pat) \<longrightarrow> pat ! m \<noteq> pat ! q"
      by auto
    have "pat ! m \<noteq> pat ! q"
      if "k1 < m" "m \<le> k" "suffix (take m pat) (take q pat)" for m
    proof -
      from fb(2) that have "m \<le> n \<or> m = k" by (meson le_neq_implies_less not_le)
      then show ?thesis using k1(5) that True by auto
    qed
    with k1 True n less.prems show ?thesis
      by (intro exI [of _ k1]) (auto simp: next_while.simps [of _ _ q k] n_def)
  qed
qed

lemma longest_border_Suc:
  assumes "q < length pat" and k: "longest_border pat q k" and "k1 \<le> k"
    and "suffix (take k1 pat) (take q pat)" and "k1 = 0 \<or> pat ! q = pat ! k1"
    and mis: "\<forall>m. k1 < m \<and> m \<le> k \<and> suffix (take m pat) (take q pat) \<longrightarrow> pat ! m \<noteq> pat ! q"
  shows "longest_border pat (Suc q) (if pat ! q = pat ! k1 then k1 + 1 else k1)"
proof -
  from k have "k < q" by (simp add: longest_border_def border_def)
  have up: "border pat (Suc q) (Suc m) \<longleftrightarrow> border pat q m \<and> pat ! m = pat ! q" for m
    using assms(1) suffix_take_Suc [of m pat q pat] by (auto simp: border_def)
  have "m \<le> k1" if "border pat (Suc q) (Suc m)" for m
  proof -
    from that up have "border pat q m" "pat ! m = pat ! q" by auto
    with k have "m \<le> k" "suffix (take m pat) (take q pat)"
      by (auto simp: longest_border_def border_def)
    with mis \<open>pat ! m = pat ! q\<close> show ?thesis by (meson not_le)
  qed
  moreover have "border pat (Suc q) 0" by (simp add: border_def)
  moreover have "border pat q k1"
    using assms(3,4) \<open>k < q\<close> by (simp add: border_def)
  moreover have "m \<noteq> k1" if "border pat (Suc q) (Suc m)" "pat ! q \<noteq> pat ! k1" for m
    using that up by auto
  ultimately show ?thesis
    using assms(5) up
    by (auto simp: longest_border_def) (metis gr0_implies_Suc le_zero_eq not_gr_zero not_less_eq_eq)+
qed

lemma next_for_ok:
  assumes "0 < q" and "q \<le> length pat" and "length pat \<le> length nxt"
    and "table_ok pat nxt q" and "longest_border pat q k"
  shows "\<exists>nxt'. next_for (cstr pat) (length pat) nxt q k = Some nxt'
     \<and> length nxt' = length nxt \<and> table_ok pat nxt' (length pat)"
  using assms
proof (induction "length pat - q" arbitrary: q k nxt)
  case 0
  then show ?case by (auto simp: next_for.simps [of _ _ _ q])
next
  case (Suc d)
  from Suc.hyps(2) have q: "q < length pat" by simp
  from Suc.prems(5) have k: "k < q" "suffix (take k pat) (take q pat)"
    by (auto simp: longest_border_def border_def)
  then have "table_ok pat nxt k" using Suc.prems(4) by (auto simp: table_ok_def)
  with next_while_ok [OF q] k obtain k1 where k1:
      "next_while (cstr pat) nxt q k = Some k1" "k1 \<le> k"
      "suffix (take k1 pat) (take q pat)" "k1 = 0 \<or> pat ! q = pat ! k1"
      "\<forall>m. k1 < m \<and> m \<le> k \<and> suffix (take m pat) (take q pat) \<longrightarrow> pat ! m \<noteq> pat ! q"
    by (metis less_imp_le)
  let ?k2 = "if pat ! q = pat ! k1 then k1 + 1 else k1"
  have b: "longest_border pat (Suc q) ?k2"
    by (rule longest_border_Suc [OF q Suc.prems(5) k1(2-5)])
  have t: "table_ok pat (nxt[q := ?k2]) (Suc q)"
    using Suc.prems(3,4) q by (intro table_ok_Suc b) auto
  have "\<exists>nxt'. next_for (cstr pat) (length pat) (nxt[q := ?k2]) (Suc q) ?k2 = Some nxt'
     \<and> length nxt' = length (nxt[q := ?k2]) \<and> table_ok pat nxt' (length pat)"
    using Suc.hyps(2) Suc.prems(3) q by (intro Suc.hyps(1) b t) auto
  then show ?case
    using k1(1,2) k(1) q Suc.prems(3) by (auto simp: next_for.simps [of _ _ nxt q] Let_def)
qed

lemma make_next_ok:
  assumes "0 < length pat" and "length pat \<le> length nxt"
  shows "\<exists>nxt'. make_next pat nxt = Some nxt'
     \<and> length nxt' = length nxt \<and> table_ok pat nxt' (length pat)"
proof -
  have "table_ok pat (nxt[0 := 0]) 1"
    using assms longest_border_1 [of pat]
    by (cases nxt) (auto simp: table_ok_def Suc_le_eq le_Suc_eq)
  with next_for_ok [of 1 pat "nxt[0 := 0]" 0] assms longest_border_1 [of pat]
  show ?thesis by (auto simp: make_next_def Suc_le_eq wr_def)
qed

lemma next_for_overflow:
  assumes "length nxt < patLen" and "q \<le> length nxt"
  shows "next_for pat patLen nxt q k = None"
  using assms
proof (induction "length nxt - q" arbitrary: nxt q k)
  case 0
  then show ?case
    by (auto simp: next_for.simps [of _ _ _ q] Let_def split: option.split bind_splits)
next
  case (Suc d)
  then have "next_for pat patLen (nxt[q := v]) (Suc q) v = None" for v
    by (intro Suc.hyps(1)) auto
  with Suc show ?case
    by (auto simp: next_for.simps [of _ _ _ q] Let_def split: bind_splits)
qed

text \<open>
  Given an array with room for it, \<^verbatim>\<open>make_next\<close> returns without leaving its arrays
  and entry \<open>i\<close> is the length of the longest proper border of the first \<open>i + 1\<close>
  characters of the pattern.
\<close>

theorem make_next_longest_borders:
  assumes "0 < length pat" and "length pat \<le> length nxt"
  shows "\<exists>nxt'. make_next pat nxt = Some nxt' \<and> length nxt' = length nxt
     \<and> (\<forall>i<length pat. longest_border pat (Suc i) (nxt' ! i))"
proof -
  obtain nxt' where "make_next pat nxt = Some nxt'" "length nxt' = length nxt"
      "table_ok pat nxt' (length pat)"
    using make_next_ok [OF assms] by blast
  then show ?thesis using table_okD [of pat nxt' "length pat" "Suc _"] by auto
qed

theorem make_next_longest_borders_witness:
  "\<exists>nxt'. make_next ''abcabd'' [7, 7, 7, 7, 7, 7] = Some nxt' \<and> length nxt' = 6
     \<and> (\<forall>i<6. longest_border ''abcabd'' (Suc i) (nxt' ! i))"
  using make_next_longest_borders [of "''abcabd''" "[7, 7, 7, 7, 7, 7]"]
  by (simp add: eval_nat_numeral)

subsection \<open>The search\<close>

text \<open>
  The search has read \<open>t\<close> characters, the last \<open>p\<close> of which match; no longer partial
  match can be extended by the next character, and the pattern has not yet occurred.
\<close>

definition search_inv :: "string \<Rightarrow> string \<Rightarrow> nat \<Rightarrow> nat \<Rightarrow> bool" where
  "search_inv str pat t p \<longleftrightarrow>
     t \<le> length str \<and> p < length pat \<and> suffix (take p pat) (take t str)
     \<and> (\<forall>m. p < m \<and> m < length pat \<and> suffix (take m pat) (take t str)
            \<longrightarrow> t < length str \<and> pat ! m \<noteq> str ! t)
     \<and> (\<forall>j\<le>t. \<not> suffix pat (take j str))"

lemma search_inv_fall_back:
  assumes "search_inv str pat t p" and "table_ok pat nxt (length pat)" and "0 < p"
    and "t < length str" and "str ! t \<noteq> pat ! p"
  shows "search_inv str pat t (nxt ! (p - 1))"
proof -
  define n where "n = nxt ! (p - 1)"
  from assms have n: "n < p" "longest_border pat p n"
    using table_okD [of pat nxt "length pat" p] by (auto simp: n_def search_inv_def)
  from assms(1) have "suffix (take p pat) (take t str)" by (simp add: search_inv_def)
  note fb = fall_back [OF n(2) this]
  have "pat ! m \<noteq> str ! t"
    if "n < m" "m < length pat" "suffix (take m pat) (take t str)" for m
    using that fb(2) [of m] assms by (cases m p rule: linorder_cases) (auto simp: search_inv_def)
  with assms n fb(1) show ?thesis by (auto simp: search_inv_def n_def)
qed

text \<open>After a character is read, a partial match of it is one of the characters before it.\<close>

lemma search_inv_read:
  assumes "search_inv str pat t p" and "t < length str" and "m < length pat"
    and "suffix (take (Suc m) pat) (take (Suc t) str)"
  shows "m \<le> p \<and> pat ! m = str ! t"
  using assms suffix_take_Suc [of m pat t str] by (auto simp: search_inv_def not_le [symmetric])

lemma search_inv_step:
  assumes inv: "search_inv str pat t p" and t: "t < length str"
    and p': "p' = (if str ! t = pat ! p then Suc p else 0)"
    and "str ! t = pat ! p \<or> p = 0" and "p' < length pat"
  shows "search_inv str pat (Suc t) p'"
proof -
  have suf: "suffix (take p' pat) (take (Suc t) str)"
    using assms suffix_take_Suc [of p pat t str] by (auto simp: search_inv_def)
  have le: "m \<le> p'" if "m \<le> length pat" "suffix (take m pat) (take (Suc t) str)" for m
    using that search_inv_read [OF inv t, of "m - 1"] assms(3,4) by (cases m) auto
  have "\<not> suffix pat (take (Suc t) str)"
    using le [of "length pat"] assms(5) by auto
  then have "\<forall>j\<le>Suc t. \<not> suffix pat (take j str)"
    using inv by (auto simp: search_inv_def le_Suc_eq)
  moreover have "\<not> (p' < m \<and> m < length pat \<and> suffix (take m pat) (take (Suc t) str))" for m
    using le [of m] by auto
  ultimately show ?thesis
    using suf t assms(5) by (auto simp: search_inv_def Suc_le_eq)
qed

lemma suffix_take_iff_prefix_drop:
  assumes "length pat \<le> j" and "j \<le> length str"
  shows "suffix pat (take j str) \<longleftrightarrow> prefix pat (drop (j - length pat) str)"
proof -
  define d where "d = j - length pat"
  have j: "take j str = take d str @ take (length pat) (drop d str)"
    using assms(1) by (simp add: d_def flip: take_add)
  have len: "length (take (length pat) (drop d str)) = length pat"
    using assms by (simp add: d_def)
  have "suffix pat (take j str) \<longleftrightarrow> take (length pat) (drop d str) = pat"
    unfolding j using len by (metis suffix_order.eq_iff suffix_length_suffix suffixI le_refl)
  also have "\<dots> \<longleftrightarrow> prefix pat (drop d str)"
    using len by (metis prefix_def append_eq_conv_conj append_take_drop_id)
  finally show ?thesis by (simp add: d_def)
qed

definition occurs_at :: "string \<Rightarrow> string \<Rightarrow> nat \<Rightarrow> bool" where
  "occurs_at str pat j \<longleftrightarrow> prefix pat (drop j str)"

lemma occurs_at_suffix:
  assumes "pat \<noteq> []" and "occurs_at str pat j"
  shows "j + length pat \<le> length str \<and> suffix pat (take (j + length pat) str)"
proof -
  have "j + length pat \<le> length str"
    using assms prefix_length_le [of pat "drop j str"] by (cases pat) (auto simp: occurs_at_def)
  with assms show ?thesis
    using suffix_take_iff_prefix_drop [of pat "j + length pat" str] by (simp add: occurs_at_def)
qed

definition first_occurrence :: "string \<Rightarrow> string \<Rightarrow> int \<Rightarrow> bool" where
  "first_occurrence str pat r \<longleftrightarrow>
     (\<exists>j. r = int j \<and> occurs_at str pat j \<and> (\<forall>i<j. \<not> occurs_at str pat i))
     \<or> (r = -1 \<and> (\<forall>i. \<not> occurs_at str pat i))"

lemma kmp_while_ok:
  assumes "search_inv str pat t p" and "table_ok pat nxt (length pat)" and "NUL \<notin> set str"
  shows "\<exists>r. kmp_while (cstr str) (cstr pat) nxt (length pat) t p = Some r
     \<and> first_occurrence str pat r"
  using assms(1)
proof (induction "2 * (length str - t) + p" arbitrary: t p rule: less_induct)
  case less
  note inv = less.prems
  from inv have tp: "t \<le> length str" "p < length pat" "pat \<noteq> []"
    by (auto simp: search_inv_def)
  show ?case
  proof (cases "t = length str")
    case True
    have "\<not> occurs_at str pat i" for i
      using occurs_at_suffix [OF tp(3), of str i] inv True by (auto simp: search_inv_def)
    with True show ?thesis
      by (simp add: kmp_while.simps [of "cstr str" _ _ _ "length str"] first_occurrence_def)
  next
    case False
    with tp have t: "t < length str" by simp
    then have c: "str ! t \<noteq> NUL" using assms(3) nth_mem [of t str] by metis
    note unfold = kmp_while.simps [of "cstr str" "cstr pat" nxt "length pat" t p]
    consider (zero) "str ! t \<noteq> pat ! p" "p = 0" | (fallback) "str ! t \<noteq> pat ! p" "0 < p"
      | (found) "str ! t = pat ! p" "Suc p = length pat"
      | (match) "str ! t = pat ! p" "Suc p < length pat"
      using Suc_leI [OF tp(2)] by (meson le_neq_implies_less gr_zeroI)
    then show ?thesis
    proof cases
      case zero
      with inv t tp have "search_inv str pat (Suc t) 0"
        by (intro search_inv_step [where p = p]) auto
      with less.hyps [of "Suc t" 0] zero t c tp show ?thesis
        by (simp add: kmp_while.simps [of _ _ _ _ t 0])
    next
      case fallback
      from fallback tp table_okD [OF assms(2), of p]
      have "nxt ! (p - 1) < p" "p \<le> length nxt" by auto
      moreover have "search_inv str pat t (nxt ! (p - 1))"
        using fallback t by (intro search_inv_fall_back [OF inv assms(2)]) auto
      ultimately show ?thesis
        using less.hyps [of t "nxt ! (p - 1)"] fallback t c tp by (simp add: unfold)
    next
      case found
      have "suffix pat (take (Suc t) str)"
        using found inv t tp suffix_take_Suc [of p pat t str] by (simp add: search_inv_def)
      moreover from this have "length pat \<le> Suc t"
        using suffix_length_le t by fastforce
      ultimately have "occurs_at str pat (Suc t - length pat)"
        using t suffix_take_iff_prefix_drop [of pat "Suc t" str] by (simp add: occurs_at_def)
      moreover have "\<not> occurs_at str pat i" if "i < Suc t - length pat" for i
        using that occurs_at_suffix [OF tp(3), of str i] inv by (auto simp: search_inv_def)
      ultimately have "first_occurrence str pat (int (Suc t - length pat))"
        by (auto simp: first_occurrence_def)
      with found t c tp \<open>length pat \<le> Suc t\<close> show ?thesis
        by (simp add: unfold of_nat_diff)
    next
      case match
      with inv t tp have "search_inv str pat (Suc t) (Suc p)"
        by (intro search_inv_step [where p = p]) auto
      with less.hyps [of "Suc t" "Suc p"] match t c tp show ?thesis by (simp add: unfold)
    qed
  qed
qed

text \<open>
  C16. For a non-empty pattern of at most 20 characters and any text, \<^verbatim>\<open>kmp\<close> returns (its
  loops end and every array access is in bounds) the index of the pattern's first
  occurrence in the text, or -1 when there is none.
\<close>

theorem kmp_correct:
  assumes "0 < length pattern" and "length pattern \<le> 20" and "NUL \<notin> set str"
  shows "\<exists>r. kmp str pattern = Some r \<and> first_occurrence str pattern r"
proof -
  obtain nxt where nxt: "make_next pattern (replicate 20 0) = Some nxt"
      "table_ok pattern nxt (length pattern)"
    using make_next_ok [of pattern "replicate 20 0"] assms by auto
  have "search_inv str pattern 0 0"
    using assms(1) by (auto simp: search_inv_def)
  from kmp_while_ok [OF this nxt(2) assms(3)] nxt(1) show ?thesis
    by (simp add: kmp_def)
qed

theorem kmp_correct_witness:
  "\<exists>r. kmp ''eabcabcabcabcabcdabc'' ''abcabcd'' = Some r
     \<and> first_occurrence ''eabcabcabcabcabcdabc'' ''abcabcd'' r"
  by (rule kmp_correct) simp_all

lemma kmp_demo: "kmp ''eabcabcabcabcabcdabc'' ''abcabcd'' = Some 10"
  by (simp add: kmp_def make_next_def cstr_def next_for.simps next_while.simps kmp_while.simps)

text \<open>
  The 20-element table is too small for a longer pattern: \<^verbatim>\<open>make_next\<close> then writes
  past its end, whatever the text.
\<close>

theorem kmp_overflow:
  assumes "20 < length pattern"
  shows "kmp str pattern = None"
  using assms next_for_overflow [of "(replicate 20 0)[0 := 0]" "length pattern" 1 "cstr pattern" 0]
  by (simp add: kmp_def make_next_def)

theorem kmp_overflow_witness: "kmp ''abc'' (replicate 21 CHR ''a'') = None"
  by (rule kmp_overflow) simp

end
