(* ===== verification/Rbtree.thy ===== *)
theory Rbtree
  imports Prelude "HOL-Library.Tree"
begin

text \<open>
  \<^verbatim>\<open>1_rbtree/rbtree.h\<close> and \<^verbatim>\<open>1_rbtree/rbtree.c\<close>: the red-black tree with parent pointers and a
  sentinel \<open>nil\<close>, at the level of its pointers.

  The fields of \<^verbatim>\<open>RBT_NODE\<close> are functions from addresses (one per field, so that an
  assignment \<^verbatim>\<open>x->left = y\<close> is the update \<open>left := (left t)(x := y)\<close>), kept in one record
  with the fields of \<^verbatim>\<open>RBT_TREE\<close>. \<open>data\<close> is the caller's part of a node, which the tree
  only touches through the function pointer \<open>swapData\<close>. Loops are
  \<^theory_text>\<open>partial_function (option)\<close>: \<open>None\<close> is a run that never ends.
\<close>

subsection \<open>The data model\<close>

datatype RBT_COLOR = RBT_RED | RBT_BLACK

type_synonym addr = nat
type_synonym KEY_TYPE = int

record 'd rbt_tree =
  root :: addr
  nil :: addr
  parent :: "addr \<Rightarrow> addr"
  left :: "addr \<Rightarrow> addr"
  right :: "addr \<Rightarrow> addr"
  color :: "addr \<Rightarrow> RBT_COLOR"
  key :: "addr \<Rightarrow> KEY_TYPE"
  data :: "addr \<Rightarrow> 'd"
  swapData :: "addr \<Rightarrow> addr \<Rightarrow> (addr \<Rightarrow> 'd) \<Rightarrow> addr \<Rightarrow> 'd"

abbreviation set_parent :: "addr \<Rightarrow> addr \<Rightarrow> 'd rbt_tree \<Rightarrow> 'd rbt_tree" where
  "set_parent x v t \<equiv> t\<lparr>parent := (parent t)(x := v)\<rparr>"

abbreviation set_left :: "addr \<Rightarrow> addr \<Rightarrow> 'd rbt_tree \<Rightarrow> 'd rbt_tree" where
  "set_left x v t \<equiv> t\<lparr>left := (left t)(x := v)\<rparr>"

abbreviation set_right :: "addr \<Rightarrow> addr \<Rightarrow> 'd rbt_tree \<Rightarrow> 'd rbt_tree" where
  "set_right x v t \<equiv> t\<lparr>right := (right t)(x := v)\<rparr>"

abbreviation set_color :: "addr \<Rightarrow> RBT_COLOR \<Rightarrow> 'd rbt_tree \<Rightarrow> 'd rbt_tree" where
  "set_color x v t \<equiv> t\<lparr>color := (color t)(x := v)\<rparr>"

subsection \<open>Rotations\<close>

definition leftRotate :: "'d rbt_tree \<Rightarrow> addr \<Rightarrow> 'd rbt_tree" where
  "leftRotate t x =
     (if nil t = right t x then t
      else let p = parent t x; y = right t x; z = left t y;
               t = (if p = nil t then t\<lparr>root := y\<rparr>
                    else if left t p = x then set_left p y t
                    else set_right p y t);
               t = set_parent y p t;
               t = set_left y x t;
               t = set_parent x y t;
               t = set_right x z t
           in if z \<noteq> nil t then set_parent z x t else t)"

definition rightRotate :: "'d rbt_tree \<Rightarrow> addr \<Rightarrow> 'd rbt_tree" where
  "rightRotate t y =
     (if nil t = left t y then t
      else let p = parent t y; x = left t y; z = right t x;
               t = (if p = nil t then t\<lparr>root := x\<rparr> else t);
               t = (if right t p = y then set_right p x t else set_left p x t);
               t = set_parent x p t;
               t = set_right x y t;
               t = set_parent y x t;
               t = set_left y z t
           in if z \<noteq> nil t then set_parent z y t else t)"

subsection \<open>Insertion\<close>

partial_function (option) adjust_insert_while :: "'d rbt_tree \<Rightarrow> addr \<Rightarrow> 'd rbt_tree option" where
  "adjust_insert_while t node =
     (if color t (parent t node) = RBT_RED
      then (if parent t node = left t (parent t (parent t node))
            then (let uncle = right t (parent t (parent t node))
                  in if color t uncle = RBT_RED
                     then (let t = set_color (parent t node) RBT_BLACK t;
                               t = set_color uncle RBT_BLACK t;
                               t = set_color (parent t (parent t node)) RBT_RED t
                           in adjust_insert_while t (parent t (parent t node)))
                     else (let (t, node) = (if node = right t (parent t node)
                                            then (leftRotate t (parent t node), parent t node)
                                            else (t, node));
                               t = set_color (parent t node) RBT_BLACK t;
                               t = set_color (parent t (parent t node)) RBT_RED t;
                               t = rightRotate t (parent t (parent t node))
                           in adjust_insert_while t node))
            else (let uncle = left t (parent t (parent t node))
                  in if color t uncle = RBT_RED
                     then (let t = set_color (parent t node) RBT_BLACK t;
                               t = set_color uncle RBT_BLACK t;
                               t = set_color (parent t (parent t node)) RBT_RED t
                           in adjust_insert_while t (parent t (parent t node)))
                     else (let (t, node) = (if node = left t (parent t node)
                                            then (rightRotate t (parent t node), parent t node)
                                            else (t, node));
                               t = set_color (parent t node) RBT_BLACK t;
                               t = set_color (parent t (parent t node)) RBT_RED t;
                               t = leftRotate t (parent t (parent t node))
                           in adjust_insert_while t node)))
      else Some t)"

definition adjustAfterInsert :: "'d rbt_tree \<Rightarrow> addr \<Rightarrow> 'd rbt_tree option" where
  "adjustAfterInsert t node =
     adjust_insert_while t node \<bind> (\<lambda>t. Some (set_color (root t) RBT_BLACK t))"

datatype found = Existing addr | Insert_at addr

partial_function (option) insert_descend ::
  "'d rbt_tree \<Rightarrow> addr \<Rightarrow> addr \<Rightarrow> addr \<Rightarrow> found option" where
  "insert_descend t target prev node =
     (if node \<noteq> nil t
      then (if key t target < key t node then insert_descend t target node (left t node)
            else if key t target > key t node then insert_descend t target node (right t node)
            else Some (Existing node))
      else Some (Insert_at prev))"

definition RBT_insertNode :: "'d rbt_tree \<Rightarrow> addr \<Rightarrow> (addr \<times> 'd rbt_tree) option" where
  "RBT_insertNode t target =
     insert_descend t target (root t) (root t) \<bind> (\<lambda>r.
       case r of
         Existing node \<Rightarrow> Some (node, t)
       | Insert_at prev \<Rightarrow>
           (let t = set_parent target prev t;
                t = (if prev = nil t then t\<lparr>root := target\<rparr> else t);
                t = (if key t target < key t prev then set_left prev target t
                     else set_right prev target t);
                t = set_left target (nil t) t;
                t = set_right target (nil t) t;
                t = set_color target RBT_RED t
            in adjustAfterInsert t target \<bind> (\<lambda>t. Some (target, t))))"

subsection \<open>Search and deletion\<close>

partial_function (option) search_while :: "'d rbt_tree \<Rightarrow> KEY_TYPE \<Rightarrow> addr \<Rightarrow> addr option" where
  "search_while t k node =
     (if node \<noteq> nil t
      then (if k < key t node then search_while t k (left t node)
            else if k > key t node then search_while t k (right t node)
            else Some node)
      else Some (nil t))"

definition RBT_search :: "'d rbt_tree \<Rightarrow> KEY_TYPE \<Rightarrow> addr option" where
  "RBT_search t k = search_while t k (root t)"

partial_function (option) adjustAfterDelete :: "'d rbt_tree \<Rightarrow> addr \<Rightarrow> 'd rbt_tree option" where
  "adjustAfterDelete t succesor =
     (if color t succesor = RBT_BLACK \<and> root t \<noteq> succesor
      then (let par = parent t succesor
            in if succesor = right t par
               then (let bro = left t par
                     in if color t bro = RBT_RED
                        then (let t = set_color bro RBT_BLACK t;
                                  t = set_color (right t bro) RBT_RED t
                              in Some (rightRotate t par))
                        else if color t (left t bro) = RBT_BLACK \<and> color t (right t bro) = RBT_BLACK
                        then (let t = set_color bro RBT_RED t
                              in if color t par = RBT_RED
                                 then Some (set_color par RBT_BLACK t)
                                 else adjustAfterDelete t par)
                        else if color t (left t bro) = RBT_BLACK
                        then (let t = set_color bro (color t par) t;
                                  t = set_color (right t bro) RBT_BLACK t;
                                  t = leftRotate t bro
                              in Some (rightRotate t par))
                        else (let t = set_color bro (color t par) t;
                                  t = set_color par RBT_BLACK t;
                                  t = set_color (left t bro) RBT_BLACK t
                              in Some (rightRotate t par)))
               else (let bro = right t par
                     in if color t bro = RBT_RED
                        then (let t = set_color bro RBT_BLACK t;
                                  t = set_color (left t bro) RBT_RED t
                              in Some (leftRotate t par))
                        else if color t (right t bro) = RBT_BLACK \<and> color t (left t bro) = RBT_BLACK
                        then (let t = set_color bro RBT_RED t
                              in if color t par = RBT_RED
                                 then Some (set_color par RBT_BLACK t)
                                 else adjustAfterDelete t par)
                        else if color t (right t bro) = RBT_BLACK
                        then (let t = set_color bro (color t par) t;
                                  t = set_color (left t bro) RBT_BLACK t;
                                  t = rightRotate t bro
                              in Some (leftRotate t par))
                        else (let t = set_color bro (color t par) t;
                                  t = set_color par RBT_BLACK t;
                                  t = set_color (right t bro) RBT_BLACK t
                              in Some (leftRotate t par))))
      else Some t)"

partial_function (option) leftmost_while :: "'d rbt_tree \<Rightarrow> addr \<Rightarrow> addr option" where
  "leftmost_while t succ =
     (if left t succ \<noteq> nil t then leftmost_while t (left t succ) else Some succ)"

definition getSuccessor :: "'d rbt_tree \<Rightarrow> addr \<Rightarrow> addr option" where
  "getSuccessor t node =
     (if right t node \<noteq> nil t then leftmost_while t (right t node) else Some node)"

definition swapNode :: "'d rbt_tree \<Rightarrow> addr \<Rightarrow> addr \<Rightarrow> 'd rbt_tree" where
  "swapNode t node1 node2 =
     (let keyTemp = key t node1;
          t = t\<lparr>key := (key t)(node1 := key t node2)\<rparr>;
          t = t\<lparr>key := (key t)(node2 := keyTemp)\<rparr>
      in t\<lparr>data := swapData t node1 node2 (data t)\<rparr>)"

definition unlink_node :: "'d rbt_tree \<Rightarrow> addr \<Rightarrow> (addr \<times> 'd rbt_tree) option" where
  "unlink_node t target =
     (let succesor = (if left t target \<noteq> nil t then left t target
                      else if right t target \<noteq> nil t then right t target
                      else nil t);
          par = parent t target;
          t = set_parent succesor par t;
          t = (if par = nil t then t\<lparr>root := succesor\<rparr>
               else if left t par = target then set_left par succesor t
               else set_right par succesor t);
          t = set_color succesor RBT_BLACK t
      in (if succesor = nil t \<and> color t target = RBT_BLACK
          then adjustAfterDelete t succesor else Some t) \<bind> (\<lambda>t. Some (target, t)))"

definition RBT_deleteNode :: "'d rbt_tree \<Rightarrow> addr \<Rightarrow> (addr \<times> 'd rbt_tree) option" where
  "RBT_deleteNode t target =
     (if target = nil t then Some (nil t, t)
      else if left t target \<noteq> nil t \<or> right t target \<noteq> nil t
      then getSuccessor t target \<bind> (\<lambda>succesor.
             unlink_node (swapNode t target succesor) succesor)
      else unlink_node t target)"

definition RBT_deleteNodeByKey :: "'d rbt_tree \<Rightarrow> KEY_TYPE \<Rightarrow> (addr \<times> 'd rbt_tree) option" where
  "RBT_deleteNodeByKey t k = RBT_search t k \<bind> (\<lambda>target. RBT_deleteNode t target)"

text \<open>
  \<^verbatim>\<open>RBT_initTree\<close> on the memory \<open>t\<close> with \<open>n\<close> the node that \<^verbatim>\<open>malloc\<close> returned;
  the sentinel's key stays whatever the memory held. Without memory \<^verbatim>\<open>t->nil\<close> is the null pointer, 0.
\<close>

definition RBT_initTree :: "'d rbt_tree \<Rightarrow> addr option \<Rightarrow> (int \<times> 'd rbt_tree)" where
  "RBT_initTree t m =
     (case m of
        None \<Rightarrow> (-1, t\<lparr>nil := 0\<rparr>)
      | Some n \<Rightarrow>
          (let t = t\<lparr>nil := n\<rparr>;
               t = set_color (nil t) RBT_BLACK t;
               t = t\<lparr>root := nil t\<rparr>;
               t = set_parent (root t) (nil t) t;
               t = set_right (root t) (nil t) t;
               t = set_left (root t) (nil t) t
           in (0, t)))"

text \<open>What \<^verbatim>\<open>RBT_traversal\<close> prints, line by line.\<close>

datatype line = Nil_line nat | Key_line nat KEY_TYPE RBT_COLOR

partial_function (option) traversal :: "'d rbt_tree \<Rightarrow> addr \<Rightarrow> nat \<Rightarrow> line list option" where
  "traversal t node lvl =
     (if node = nil t then Some [Nil_line lvl]
      else traversal t (left t node) (lvl + 1) \<bind> (\<lambda>a.
           traversal t (right t node) (lvl + 1) \<bind> (\<lambda>b.
             Some (a @ Key_line lvl (key t node) (color t node) # b))))"

definition RBT_traversal :: "'d rbt_tree \<Rightarrow> line list option" where
  "RBT_traversal t = traversal t (root t) 0"

lemmas loops [code] = adjust_insert_while.simps insert_descend.simps search_while.simps
  adjustAfterDelete.simps leftmost_while.simps traversal.simps

end
