(* ===== verification/Rbtree_Shape.thy ===== *)
theory Rbtree_Shape
  imports Rbtree
begin

text \<open>
  Which tree a memory of \<^verbatim>\<open>1_rbtree/rbtree.c\<close> holds: representation predicates for
  subtrees and for the path above them, frame lemmas for the updates of single fields,
  the effect of the two rotations and the red-black invariant.
\<close>

subsection \<open>Shapes: what tree a memory holds\<close>

text \<open>
  \<open>repr t p a T\<close>: from pointer \<open>a\<close>, whose parent should be \<open>p\<close>, the memory holds the
  tree of addresses \<open>T\<close>. A context is the path from a position up to the root, each step
  with the side the path is on, the node and its other subtree; \<open>focus t C a T\<close>: the whole
  tree is \<open>T\<close>, pointed to by \<open>a\<close>, in the context \<open>C\<close>, and no address occurs twice.
\<close>

fun repr :: "'d rbt_tree \<Rightarrow> addr \<Rightarrow> addr \<Rightarrow> addr tree \<Rightarrow> bool" where
  "repr t p a Leaf \<longleftrightarrow> a = nil t"
| "repr t p a (Node l x r) \<longleftrightarrow> a = x \<and> x \<noteq> nil t \<and> parent t x = p
     \<and> repr t x (left t x) l \<and> repr t x (right t x) r"

datatype side = On_left | On_right

type_synonym ctx = "(side \<times> addr \<times> addr tree) list"

fun above :: "'d rbt_tree \<Rightarrow> ctx \<Rightarrow> addr" where
  "above t [] = nil t"
| "above t ((_, p, _) # _) = p"

fun crepr :: "'d rbt_tree \<Rightarrow> ctx \<Rightarrow> addr \<Rightarrow> bool" where
  "crepr t [] a \<longleftrightarrow> root t = a"
| "crepr t ((On_left, p, s) # C) a \<longleftrightarrow> p \<noteq> nil t \<and> left t p = a
     \<and> repr t p (right t p) s \<and> parent t p = above t C \<and> crepr t C p"
| "crepr t ((On_right, p, s) # C) a \<longleftrightarrow> p \<noteq> nil t \<and> right t p = a
     \<and> repr t p (left t p) s \<and> parent t p = above t C \<and> crepr t C p"

fun plug :: "ctx \<Rightarrow> addr tree \<Rightarrow> addr tree" where
  "plug [] T = T"
| "plug ((On_left, p, s) # C) T = plug C (Node T p s)"
| "plug ((On_right, p, s) # C) T = plug C (Node s p T)"

fun before :: "ctx \<Rightarrow> addr list" where
  "before [] = []"
| "before ((On_left, p, s) # C) = before C"
| "before ((On_right, p, s) # C) = before C @ inorder s @ [p]"

fun after :: "ctx \<Rightarrow> addr list" where
  "after [] = []"
| "after ((On_left, p, s) # C) = p # inorder s @ after C"
| "after ((On_right, p, s) # C) = after C"

definition focus :: "'d rbt_tree \<Rightarrow> ctx \<Rightarrow> addr \<Rightarrow> addr tree \<Rightarrow> bool" where
  "focus t C a T \<longleftrightarrow> crepr t C a \<and> repr t (above t C) a T
     \<and> distinct (before C @ inorder T @ after C)"

lemma inorder_plug: "inorder (plug C T) = before C @ inorder T @ after C"
  by (induction C T rule: plug.induct) auto

lemma focus_root: "focus t [] a T \<longleftrightarrow> root t = a \<and> repr t (nil t) a T \<and> distinct (inorder T)"
  by (simp add: focus_def)

lemma focus_left:
  "focus t ((On_left, p, s) # C) a T \<longleftrightarrow> focus t C p (Node T p s) \<and> left t p = a"
  by (cases C) (auto simp: focus_def)

lemma focus_right:
  "focus t ((On_right, p, s) # C) a T \<longleftrightarrow> focus t C p (Node s p T) \<and> right t p = a"
  by (cases C) (auto simp: focus_def)

lemma focus_up: "focus t C a T \<Longrightarrow> focus t [] (root t) (plug C T)"
  by (induction C T arbitrary: a rule: plug.induct) (auto simp: focus_left focus_right focus_root)

lemma repr_nil_iff: "repr t p a T \<Longrightarrow> a = nil t \<longleftrightarrow> T = Leaf"
  by (cases T) auto

lemma repr_nil_notin: "repr t p a T \<Longrightarrow> nil t \<notin> set_tree T"
  by (induction T arbitrary: p a) auto

lemma crepr_nil_notin: "crepr t C a \<Longrightarrow> nil t \<notin> set (before C) \<union> set (after C)"
  by (induction C a rule: crepr.induct) (auto dest: repr_nil_notin)

text \<open>Frames: an update of a field at an address outside a tree or context leaves it.\<close>

lemma repr_cong:
  assumes "\<And>x. x \<in> set_tree T \<Longrightarrow> parent t' x = parent t x"
    and "\<And>x. x \<in> set_tree T \<Longrightarrow> left t' x = left t x"
    and "\<And>x. x \<in> set_tree T \<Longrightarrow> right t' x = right t x" and "nil t' = nil t"
  shows "repr t' p a T = repr t p a T"
  using assms by (induction T arbitrary: p a) auto

lemma above_cong: "nil t' = nil t \<Longrightarrow> above t' C = above t C"
  by (cases C) auto

lemma crepr_cong:
  assumes "\<And>x. x \<in> set (before C) \<union> set (after C) \<Longrightarrow> parent t' x = parent t x"
    and "\<And>x. x \<in> set (before C) \<union> set (after C) \<Longrightarrow> left t' x = left t x"
    and "\<And>x. x \<in> set (before C) \<union> set (after C) \<Longrightarrow> right t' x = right t x"
    and "nil t' = nil t" and "root t' = root t"
  shows "crepr t' C a = crepr t C a"
  using assms
proof (induction t C a rule: crepr.induct)
  case (2 t p s C a)
  have "repr t' p (right t p) s = repr t p (right t p) s"
    by (rule repr_cong) (use "2.prems" in auto)
  moreover have "crepr t' C p = crepr t C p" by (rule "2.IH") (use "2.prems" in auto)
  moreover have "above t' C = above t C" by (rule above_cong) (use "2.prems" in simp)
  ultimately show ?case using "2.prems" by simp
next
  case (3 t p s C a)
  have "repr t' p (left t p) s = repr t p (left t p) s"
    by (rule repr_cong) (use "3.prems" in auto)
  moreover have "crepr t' C p = crepr t C p" by (rule "3.IH") (use "3.prems" in auto)
  moreover have "above t' C = above t C" by (rule above_cong) (use "3.prems" in simp)
  ultimately show ?case using "3.prems" by simp
qed auto

lemma repr_upd [simp]:
  "x \<notin> set_tree T \<Longrightarrow> repr (set_parent x v t) p a T = repr t p a T"
  "x \<notin> set_tree T \<Longrightarrow> repr (set_left x v t) p a T = repr t p a T"
  "x \<notin> set_tree T \<Longrightarrow> repr (set_right x v t) p a T = repr t p a T"
  "repr (t\<lparr>root := b\<rparr>) p a T = repr t p a T"
  "repr (t\<lparr>color := c\<rparr>) p a T = repr t p a T"
  "repr (t\<lparr>key := k\<rparr>) p a T = repr t p a T"
  "repr (t\<lparr>data := d\<rparr>) p a T = repr t p a T"
  by (rule repr_cong; auto)+

lemma crepr_upd [simp]:
  "x \<notin> set (before C) \<union> set (after C) \<Longrightarrow> crepr (set_parent x v t) C a = crepr t C a"
  "x \<notin> set (before C) \<union> set (after C) \<Longrightarrow> crepr (set_left x v t) C a = crepr t C a"
  "x \<notin> set (before C) \<union> set (after C) \<Longrightarrow> crepr (set_right x v t) C a = crepr t C a"
  "crepr (t\<lparr>color := c\<rparr>) C a = crepr t C a"
  "crepr (t\<lparr>key := k\<rparr>) C a = crepr t C a"
  "crepr (t\<lparr>data := d\<rparr>) C a = crepr t C a"
  by (rule crepr_cong; auto)+

lemma above_upd [simp]:
  "above (t\<lparr>root := b\<rparr>) C = above t C"
  "above (t\<lparr>parent := pa\<rparr>) C = above t C"
  "above (t\<lparr>left := lf\<rparr>) C = above t C"
  "above (t\<lparr>right := rt\<rparr>) C = above t C"
  "above (t\<lparr>color := c\<rparr>) C = above t C"
  "above (t\<lparr>key := k\<rparr>) C = above t C"
  "above (t\<lparr>data := d\<rparr>) C = above t C"
  by (rule above_cong; simp)+

lemma focus_upd [simp]:
  "focus (t\<lparr>color := c\<rparr>) C a T = focus t C a T"
  "focus (t\<lparr>key := k\<rparr>) C a T = focus t C a T"
  "focus (t\<lparr>data := d\<rparr>) C a T = focus t C a T"
  by (auto simp: focus_def)

lemma repr_reparent:
  assumes "repr t p a T" and "distinct (inorder T)"
  shows "T \<noteq> Leaf \<Longrightarrow> repr (set_parent a q t) q a T"
  using assms by (cases T) (auto simp: set_inorder [symmetric] simp del: set_inorder)

subsection \<open>The rotations\<close>

lemma leftRotate_fields [simp]:
  "color (leftRotate t x) = color t" "key (leftRotate t x) = key t"
  "data (leftRotate t x) = data t" "nil (leftRotate t x) = nil t"
  "swapData (leftRotate t x) = swapData t" "above (leftRotate t x) C = above t C"
  by (auto simp: leftRotate_def Let_def intro: above_cong)

lemma rightRotate_fields [simp]:
  "color (rightRotate t x) = color t" "key (rightRotate t x) = key t"
  "data (rightRotate t x) = data t" "nil (rightRotate t x) = nil t"
  "swapData (rightRotate t x) = swapData t" "above (rightRotate t x) C = above t C"
  by (auto simp: rightRotate_def Let_def intro: above_cong)

lemma nil_distinct:
  assumes "focus t C a T"
  shows "nil t \<notin> set (before C)" "nil t \<notin> set (after C)" "nil t \<notin> set_tree T"
    "distinct (before C @ inorder T @ after C)"
  using assms crepr_nil_notin repr_nil_notin by (fastforce simp: focus_def)+

lemma above_notin:
  assumes "focus t C a T"
  shows "above t C \<notin> set_tree T"
  using nil_distinct [OF assms] by (cases C rule: before.cases) auto

text \<open>The pointer fields after a rotation.\<close>

lemma leftRotate_mem:
  assumes "right t x \<noteq> nil t"
  shows "parent (leftRotate t x) = (let y = right t x; pa = (parent t)(y := parent t x, x := y)
           in if left t y = nil t then pa else pa(left t y := x))"
    and "left (leftRotate t x) = (let y = right t x; p = parent t x
           in if p \<noteq> nil t \<and> left t p = x then (left t)(p := y, y := x) else (left t)(y := x))"
    and "right (leftRotate t x) = (let y = right t x; p = parent t x
           in if p \<noteq> nil t \<and> left t p \<noteq> x then (right t)(p := y, x := left t y)
              else (right t)(x := left t y))"
    and "root (leftRotate t x) = (if parent t x = nil t then right t x else root t)"
  using assms
  by (cases "parent t x = nil t"; cases "left t (parent t x) = x";
      cases "left t (right t x) = nil t"; simp add: leftRotate_def Let_def)+

lemma rightRotate_mem:
  assumes "left t y \<noteq> nil t"
  shows "parent (rightRotate t y) = (let x = left t y; pa = (parent t)(x := parent t y, y := x)
           in if right t x = nil t then pa else pa(right t x := y))"
    and "right (rightRotate t y) = (let x = left t y; p = parent t y
           in if right t p = y then (right t)(p := x, x := y) else (right t)(x := y))"
    and "left (rightRotate t y) = (let x = left t y; p = parent t y
           in if right t p \<noteq> y then (left t)(p := x, y := right t x)
              else (left t)(y := right t x))"
    and "root (rightRotate t y) = (if parent t y = nil t then left t y else root t)"
  using assms
  by (cases "parent t y = nil t"; cases "right t (parent t y) = y";
      cases "right t (left t y) = nil t"; simp add: rightRotate_def Let_def)+

lemma leftRotate_focus:
  assumes f: "focus t C x (Node A x (Node B y D))"
  shows "focus (leftRotate t x) C y (Node (Node A x B) y D)"
proof -
  define p where "p = above t C"
  define t' where "t' = leftRotate t x"
  have m: "parent t x = p" "right t x = y" "repr t x (left t x) A" "repr t y (left t y) B"
      "repr t y (right t y) D" "x \<noteq> nil t" "y \<noteq> nil t" "parent t y = x" "crepr t C x"
    using f by (auto simp: focus_def p_def)
  have "right t x \<noteq> nil t" using m by simp
  note mem = leftRotate_mem [OF this, folded t'_def, unfolded m(1,2) Let_def]
  have nl: "nil t' = nil t" "above t' C = p" by (simp_all add: t'_def p_def)
  have ab: "above t' E = above t E" for E by (simp add: t'_def)
  have dist: "distinct (before C @ inorder A @ x # inorder B @ y # inorder D @ after C)"
    using nil_distinct(4) [OF f] by simp
  have p: "p \<notin> set_tree A" "p \<notin> set_tree B" "p \<notin> set_tree D" "p \<noteq> x" "p \<noteq> y"
    using above_notin [OF f] by (auto simp: p_def)
  have d: "x \<notin> set_tree A" "x \<notin> set_tree B" "x \<notin> set_tree D" "x \<noteq> y"
      "y \<notin> set_tree A" "y \<notin> set_tree B" "y \<notin> set_tree D" "set_tree A \<inter> set_tree B = {}"
      "set_tree D \<inter> set_tree B = {}" "distinct (inorder B)"
    using dist by auto
  have fr: "repr t' q a S = repr t q a S"
    if "x \<notin> set_tree S" "y \<notin> set_tree S" "p \<notin> set_tree S"
      "left t y = nil t \<or> left t y \<notin> set_tree S" for q a S
    by (rule repr_cong) (use that in \<open>auto simp: mem nl\<close>)
  have frc: "crepr t' E q = crepr t E q"
    if "p \<noteq> nil t" "x \<notin> set (before E) \<union> set (after E)" "y \<notin> set (before E) \<union> set (after E)"
      "p \<notin> set (before E) \<union> set (after E)"
      "left t y = nil t \<or> left t y \<notin> set (before E) \<union> set (after E)" for q E
    by (rule crepr_cong) (use that in \<open>auto simp: mem nl\<close>)
  have B: "repr t' x (left t y) B \<and> (left t y = nil t \<or> left t y \<in> set_tree B)"
  proof (cases B)
    case Leaf
    with m nl show ?thesis by simp
  next
    case (Node B1 z B2)
    with m(4) have z: "left t y = z" "z \<noteq> nil t" "repr t z (left t z) B1" "repr t z (right t z) B2"
      by auto
    with Node p d have "z \<noteq> x" "z \<noteq> y" "z \<noteq> p" by auto
    moreover have "repr t' z (left t z) B1" "repr t' z (right t z) B2"
      using Node z p d by (subst fr; simp)+
    ultimately show ?thesis using Node z nl by (simp add: mem)
  qed
  then have zp: "p \<noteq> nil t \<Longrightarrow> left t y \<noteq> p" using p(2) by auto
  from B have z: "left t y \<notin> set_tree A" "left t y \<notin> set_tree D \<or> left t y = nil t"
      "left t y \<noteq> x" "left t y \<noteq> y" "left t y = nil t \<or> left t y \<notin> set (before C) \<union> set (after C)"
    using d m(3,6,7) repr_nil_notin [OF m(3)] dist by auto
  have A: "repr t' x (left t x) A" and D: "repr t' y (right t y) D"
    using m p d z by (subst fr; auto)+
  have "repr t' p y (Node (Node A x B) y D)"
  proof -
    have "parent t' y = p \<and> parent t' x = y \<and> left t' y = x \<and> right t' y = right t y
        \<and> left t' x = left t x \<and> right t' x = left t y"
      using p(4,5) d(4) z(3,4) by (auto simp: mem)
    with A B D m(6,7) nl show ?thesis by simp
  qed
  moreover have "crepr t' C y"
  proof (cases C rule: before.cases)
    case 1
    with p_def show ?thesis by (simp add: mem)
  next
    case (2 q s C')
    with p_def have q: "q = p" by simp
    have "repr t' p (right t p) s = repr t p (right t p) s"
      using dist z 2 q by (intro fr) auto
    moreover have "crepr t' C' p = crepr t C' p"
      using m(9) dist z(5) 2 q by (intro frc) auto
    moreover have "left t' p = y \<and> right t' p = right t p \<and> parent t' p = parent t p"
      using m(9) p(4,5) zp 2 q by (auto simp: mem)
    ultimately show ?thesis using m(9) 2 q nl(1) ab by simp
  next
    case (3 q s C')
    with p_def have q: "q = p" by simp
    have "repr t' p (left t p) s = repr t p (left t p) s"
      using dist z 3 q by (intro fr) auto
    moreover have "crepr t' C' p = crepr t C' p"
      using m(9) dist z(5) 3 q by (intro frc) auto
    moreover have "left t p \<noteq> x"
      using m(6,9) dist 3 q by (cases s) auto
    moreover have "right t' p = y \<and> left t' p = left t p \<and> parent t' p = parent t p"
      using m(9) p(4,5) zp 3 q \<open>left t p \<noteq> x\<close> by (auto simp: mem)
    ultimately show ?thesis using m(9) 3 q nl(1) ab by simp
  qed
  ultimately show ?thesis
    using dist nl by (simp add: focus_def t'_def p_def)
qed

lemma rightRotate_focus:
  assumes f: "focus t C x (Node (Node D y B) x A)"
  shows "focus (rightRotate t x) C y (Node D y (Node B x A))"
proof -
  define p where "p = above t C"
  define t' where "t' = rightRotate t x"
  have m: "parent t x = p" "left t x = y" "repr t x (right t x) A" "repr t y (right t y) B"
      "repr t y (left t y) D" "x \<noteq> nil t" "y \<noteq> nil t" "parent t y = x" "crepr t C x"
    using f by (auto simp: focus_def p_def)
  have "left t x \<noteq> nil t" using m by simp
  note mem = rightRotate_mem [OF this, folded t'_def, unfolded m(1,2) Let_def]
  have nl: "nil t' = nil t" "above t' C = p" by (simp_all add: t'_def p_def)
  have ab: "above t' E = above t E" for E by (simp add: t'_def)
  have dist: "distinct (before C @ inorder D @ y # inorder B @ x # inorder A @ after C)"
    using nil_distinct(4) [OF f] by simp
  have p: "p \<notin> set_tree A" "p \<notin> set_tree B" "p \<notin> set_tree D" "p \<noteq> x" "p \<noteq> y"
    using above_notin [OF f] by (auto simp: p_def)
  have d: "x \<notin> set_tree A" "x \<notin> set_tree B" "x \<notin> set_tree D" "x \<noteq> y"
      "y \<notin> set_tree A" "y \<notin> set_tree B" "y \<notin> set_tree D" "set_tree A \<inter> set_tree B = {}"
      "set_tree D \<inter> set_tree B = {}" "distinct (inorder B)"
    using dist by auto
  have fr: "repr t' q a S = repr t q a S"
    if "x \<notin> set_tree S" "y \<notin> set_tree S" "p \<notin> set_tree S"
      "right t y = nil t \<or> right t y \<notin> set_tree S" for q a S
    by (rule repr_cong) (use that in \<open>auto simp: mem nl\<close>)
  have frc: "crepr t' E q = crepr t E q"
    if "p \<noteq> nil t" "x \<notin> set (before E) \<union> set (after E)" "y \<notin> set (before E) \<union> set (after E)"
      "p \<notin> set (before E) \<union> set (after E)"
      "right t y = nil t \<or> right t y \<notin> set (before E) \<union> set (after E)" for q E
    by (rule crepr_cong) (use that in \<open>auto simp: mem nl\<close>)
  have B: "repr t' x (right t y) B \<and> (right t y = nil t \<or> right t y \<in> set_tree B)"
  proof (cases B)
    case Leaf
    with m nl show ?thesis by simp
  next
    case (Node B2 z B1)
    with m(4) have z: "right t y = z" "z \<noteq> nil t" "repr t z (right t z) B1" "repr t z (left t z) B2"
      by auto
    with Node p d have "z \<noteq> x" "z \<noteq> y" "z \<noteq> p" by auto
    moreover have "repr t' z (right t z) B1" "repr t' z (left t z) B2"
      using Node z p d by (subst fr; simp)+
    ultimately show ?thesis using Node z nl by (simp add: mem)
  qed
  then have zp: "p \<noteq> nil t \<Longrightarrow> right t y \<noteq> p" using p(2) by auto
  from B have z: "right t y \<notin> set_tree A" "right t y \<notin> set_tree D \<or> right t y = nil t"
      "right t y \<noteq> x" "right t y \<noteq> y" "right t y = nil t \<or> right t y \<notin> set (before C) \<union> set (after C)"
    using d m(3,6,7) repr_nil_notin [OF m(3)] dist by auto
  have A: "repr t' x (right t x) A" and D: "repr t' y (left t y) D"
    using m p d z by (subst fr; auto)+
  have "repr t' p y (Node D y (Node B x A))"
  proof -
    have "parent t' y = p \<and> parent t' x = y \<and> right t' y = x \<and> left t' y = left t y
        \<and> right t' x = right t x \<and> left t' x = right t y"
      using p(4,5) d(4) z(3,4) by (auto simp: mem)
    with A B D m(6,7) nl show ?thesis by simp
  qed
  moreover have "crepr t' C y"
  proof (cases C rule: before.cases)
    case 1
    with p_def show ?thesis by (simp add: mem)
  next
    case (2 q s C')
    with p_def have q: "q = p" by simp
    have "repr t' p (right t p) s = repr t p (right t p) s"
      using dist z 2 q by (intro fr) auto
    moreover have "crepr t' C' p = crepr t C' p"
      using m(9) dist z(5) 2 q by (intro frc) auto
    moreover have "right t p \<noteq> x"
      using m(6,9) dist 2 q by (cases s) auto
    moreover have "left t' p = y \<and> right t' p = right t p \<and> parent t' p = parent t p"
      using m(9) p(4,5) zp 2 q \<open>right t p \<noteq> x\<close> by (auto simp: mem)
    ultimately show ?thesis using m(9) 2 q nl(1) ab by simp
  next
    case (3 q s C')
    with p_def have q: "q = p" by simp
    have "repr t' p (left t p) s = repr t p (left t p) s"
      using dist z 3 q by (intro fr) auto
    moreover have "crepr t' C' p = crepr t C' p"
      using m(9) dist z(5) 3 q by (intro frc) auto
    moreover have "right t' p = y \<and> left t' p = left t p \<and> parent t' p = parent t p"
      using m(9) p(4,5) zp 3 q by (auto simp: mem)
    ultimately show ?thesis using m(9) 3 q nl(1) ab by simp
  qed
  ultimately show ?thesis
    using dist nl by (simp add: focus_def t'_def p_def)
qed

subsection \<open>The red-black invariant\<close>

text \<open>
  The invariant is stated on trees of addresses, with the colours read from memory: \<open>invc\<close>
  (no red node has a red child) and \<open>invh\<close> (every path has the same number of black
  nodes), and likewise for contexts.
\<close>

fun black :: "(addr \<Rightarrow> RBT_COLOR) \<Rightarrow> addr tree \<Rightarrow> bool" where
  "black c Leaf \<longleftrightarrow> True"
| "black c (Node l x r) \<longleftrightarrow> c x = RBT_BLACK"

fun bh :: "(addr \<Rightarrow> RBT_COLOR) \<Rightarrow> addr tree \<Rightarrow> nat" where
  "bh c Leaf = 0"
| "bh c (Node l x r) = (if c x = RBT_BLACK then Suc (bh c l) else bh c l)"

fun invc :: "(addr \<Rightarrow> RBT_COLOR) \<Rightarrow> addr tree \<Rightarrow> bool" where
  "invc c Leaf \<longleftrightarrow> True"
| "invc c (Node l x r) \<longleftrightarrow> (c x = RBT_RED \<longrightarrow> black c l \<and> black c r) \<and> invc c l \<and> invc c r"

fun invh :: "(addr \<Rightarrow> RBT_COLOR) \<Rightarrow> addr tree \<Rightarrow> bool" where
  "invh c Leaf \<longleftrightarrow> True"
| "invh c (Node l x r) \<longleftrightarrow> bh c l = bh c r \<and> invh c l \<and> invh c r"

fun top_black :: "(addr \<Rightarrow> RBT_COLOR) \<Rightarrow> ctx \<Rightarrow> bool" where
  "top_black c [] \<longleftrightarrow> False"
| "top_black c ((_, p, _) # _) \<longleftrightarrow> c p = RBT_BLACK"

fun cinvc :: "(addr \<Rightarrow> RBT_COLOR) \<Rightarrow> ctx \<Rightarrow> bool" where
  "cinvc c [] \<longleftrightarrow> True"
| "cinvc c ((_, p, s) # C) \<longleftrightarrow>
     invc c s \<and> (c p = RBT_RED \<longrightarrow> black c s \<and> top_black c C) \<and> cinvc c C"

fun cinvh :: "(addr \<Rightarrow> RBT_COLOR) \<Rightarrow> ctx \<Rightarrow> nat \<Rightarrow> bool" where
  "cinvh c [] n \<longleftrightarrow> True"
| "cinvh c ((_, p, s) # C) n \<longleftrightarrow>
     invh c s \<and> bh c s = n \<and> cinvh c C (if c p = RBT_BLACK then Suc n else n)"

lemma not_black [simp]: "c x \<noteq> RBT_BLACK \<longleftrightarrow> c x = RBT_RED"
  by (cases "c x") auto

lemma not_red [simp]: "c x \<noteq> RBT_RED \<longleftrightarrow> c x = RBT_BLACK"
  by (cases "c x") auto

lemma invh_plug: "invh c (plug C T) \<longleftrightarrow> invh c T \<and> cinvh c C (bh c T)"
  by (induction C T rule: plug.induct) auto

lemma invc_plug: "invc c T \<Longrightarrow> cinvc c C \<Longrightarrow> black c T \<or> top_black c C \<Longrightarrow> invc c (plug C T)"
  by (induction C T rule: plug.induct) auto

lemma invc_plugD: "black c (plug C T) \<Longrightarrow> invc c (plug C T) \<Longrightarrow>
    invc c T \<and> cinvc c C \<and> (black c T \<or> top_black c C)"
  by (induction C T rule: plug.induct) auto

lemma black_plug: "black c (plug C T) \<Longrightarrow> C = [] \<Longrightarrow> black c T"
  by simp

lemma color_upd [simp]:
  assumes "x \<notin> set_tree T"
  shows "black (c(x := v)) T = black c T" "bh (c(x := v)) T = bh c T"
    "invc (c(x := v)) T = invc c T" "invh (c(x := v)) T = invh c T"
proof -
  show *: "black (c(x := v)) T = black c T" "bh (c(x := v)) T = bh c T"
    using assms by (induction T) auto
  show "invc (c(x := v)) T = invc c T" 
    using assms
  proof (induction T)
    case (Node l a r)
    then show ?case by (cases l; cases r) auto
  qed simp
  have "bh (c(x := v)) S = bh c S" if "x \<notin> set_tree S" for S
    using that by (induction S) auto
  with assms show "invh (c(x := v)) T = invh c T" by (induction T) auto
qed

lemma ctx_color_upd [simp]:
  assumes "x \<notin> set (before C)" "x \<notin> set (after C)"
  shows "top_black (c(x := v)) C = top_black c C" "cinvc (c(x := v)) C = cinvc c C"
    "cinvh (c(x := v)) C n = cinvh c C n"
proof -
  show "top_black (c(x := v)) C = top_black c C"
    using assms by (cases C rule: before.cases) auto
  have "top_black (c(x := v)) C = top_black c C" 
    if "x \<notin> set (before C)" "x \<notin> set (after C)" for C
    using that by (cases C rule: before.cases) auto
  with assms show "cinvc (c(x := v)) C = cinvc c C"
    by (induction C rule: before.induct) auto
  show "cinvh (c(x := v)) C n = cinvh c C n"
    using assms by (induction C arbitrary: n rule: before.induct) auto
qed

lemma color_ptr:
  "repr t p a T \<Longrightarrow> color t (nil t) = RBT_BLACK \<Longrightarrow> color t a = RBT_BLACK \<longleftrightarrow> black (color t) T"
  by (cases T) auto

lemma ptr_neq: "repr t p a T \<Longrightarrow> x \<notin> set_tree T \<Longrightarrow> x \<noteq> nil t \<Longrightarrow> a \<noteq> x"
  by (cases T) auto

end
