(* ===== verification/Rbtree_Insert.thy ===== *)
theory Rbtree_Insert
  imports Rbtree_Shape
begin

text \<open>
  Insertion and search: \<^verbatim>\<open>_adjustAfterInsert\<close> restores the red-black invariant, the
  descent of \<^verbatim>\<open>RBT_insertNode\<close> finds the place of the key, \<^verbatim>\<open>RBT_search\<close> its node.
\<close>

subsection \<open>Rebalancing\<close>

text \<open>What every rebalancing keeps of the memory besides the shape and the colours.\<close>

definition same_data :: "'d rbt_tree \<Rightarrow> 'd rbt_tree \<Rightarrow> bool" where
  "same_data t t' \<longleftrightarrow> key t' = key t \<and> data t' = data t \<and> nil t' = nil t
     \<and> swapData t' = swapData t \<and> color t' (nil t) = color t (nil t)"

definition red_focus :: "'d rbt_tree \<Rightarrow> ctx \<Rightarrow> addr \<Rightarrow> addr tree \<Rightarrow> bool" where
  "red_focus t C z T \<longleftrightarrow> focus t C z T \<and> T \<noteq> Leaf \<and> color t z = RBT_RED
     \<and> color t (nil t) = RBT_BLACK \<and> invc (color t) T \<and> invh (color t) T
     \<and> cinvc (color t) C \<and> cinvh (color t) C (bh (color t) T)"

lemma parent_focus: "focus t C z T \<Longrightarrow> T \<noteq> Leaf \<Longrightarrow> parent t z = above t C"
  by (cases T) (auto simp: focus_def)

lemma adjust_insert_done:
  assumes "red_focus t C z T" and "C = [] \<or> top_black (color t) C"
  shows "adjust_insert_while t z = Some t"
proof -
  have "color t (parent t z) = RBT_BLACK"
    using assms parent_focus [of t C z T] by (cases C) (auto simp: red_focus_def)
  then show ?thesis by (simp add: adjust_insert_while.simps [of t z])
qed

lemma adjust_insert_recolor_left:
  assumes "red_focus t (d # (On_left, g, u) # C) z T" and "d = (e, p, s)"
    and "color t p = RBT_RED" and "\<not> black (color t) u"
  defines "t' \<equiv> set_color g RBT_RED (set_color (right t g) RBT_BLACK (set_color p RBT_BLACK t))"
  shows "adjust_insert_while t z = adjust_insert_while t' g
     \<and> red_focus t' C g (plug [d, (On_left, g, u)] T) \<and> same_data t t'"
proof -
  note rf = assms(1) [unfolded assms(2) red_focus_def]
  have f: "focus t ((e, p, s) # (On_left, g, u) # C) z T" "T \<noteq> Leaf" using rf by auto
  have fg: "focus t C g (plug [d, (On_left, g, u)] T)"
    using f(1) unfolding assms(2) by (cases e) (auto simp: focus_left focus_right)
  obtain u1 uu u2 where u: "u = Node u1 uu u2" "color t uu = RBT_RED"
    using assms(4) by (cases u) auto
  have ptr: "parent t z = p" "parent t p = g" "left t g = p" "right t g = uu" "p \<noteq> nil t"
      "g \<noteq> nil t" "uu \<noteq> nil t"
    using f parent_focus [OF f] u by (cases e; auto simp: focus_def)+
  have "distinct (before C @ inorder (plug [d, (On_left, g, u)] T) @ after C)"
    by (rule nil_distinct(4) [OF fg])
  then have dis: "distinct (inorder (plug [d, (On_left, g, u)] T))" "g \<notin> set (before C)"
      "g \<notin> set (after C)" "p \<notin> set (before C)" "p \<notin> set (after C)" 
      "uu \<notin> set (before C)" "uu \<notin> set (after C)"
    unfolding assms(2) by (cases e; auto simp: u)+
  have nz: "color t' (nil t) = RBT_BLACK" 
    using rf ptr by (simp add: t'_def)
  have "adjust_insert_while t z = adjust_insert_while t' g"
    using assms(3) ptr u(2)
    by (subst adjust_insert_while.simps) (simp add: Let_def t'_def)
  moreover have "red_focus t' C g (plug [d, (On_left, g, u)] T)"
    using rf fg nz dis ptr assms(3) u unfolding assms(2)
    by (cases e) (auto simp: red_focus_def t'_def)
  moreover have "same_data t t'"
    using nz rf by (simp add: same_data_def t'_def)
  ultimately show ?thesis by blast
qed

lemma adjust_insert_recolor_right:
  assumes "red_focus t (d # (On_right, g, u) # C) z T" and "d = (e, p, s)"
    and "color t p = RBT_RED" and "\<not> black (color t) u"
  defines "t' \<equiv> set_color g RBT_RED (set_color (left t g) RBT_BLACK (set_color p RBT_BLACK t))"
  shows "adjust_insert_while t z = adjust_insert_while t' g
     \<and> red_focus t' C g (plug [d, (On_right, g, u)] T) \<and> same_data t t'"
proof -
  note rf = assms(1) [unfolded assms(2) red_focus_def]
  have f: "focus t ((e, p, s) # (On_right, g, u) # C) z T" "T \<noteq> Leaf" using rf by auto
  have fg: "focus t C g (plug [d, (On_right, g, u)] T)"
    using f(1) unfolding assms(2) by (cases e) (auto simp: focus_left focus_right)
  obtain u1 uu u2 where u: "u = Node u1 uu u2" "color t uu = RBT_RED"
    using assms(4) by (cases u) auto
  have ptr: "parent t z = p" "parent t p = g" "right t g = p" "left t g = uu" "p \<noteq> nil t"
      "g \<noteq> nil t" "uu \<noteq> nil t"
    using f parent_focus [OF f] u by (cases e; auto simp: focus_def)+
  have "distinct (before C @ inorder (plug [d, (On_right, g, u)] T) @ after C)"
    by (rule nil_distinct(4) [OF fg])
  then have dis: "distinct (inorder (plug [d, (On_right, g, u)] T))" "g \<notin> set (before C)"
      "g \<notin> set (after C)" "p \<notin> set (before C)" "p \<notin> set (after C)" 
      "uu \<notin> set (before C)" "uu \<notin> set (after C)"
    unfolding assms(2) by (cases e; auto simp: u)+
  have nz: "color t' (nil t) = RBT_BLACK" 
    using rf ptr by (simp add: t'_def)
  have "p \<noteq> uu" "uu \<noteq> p" using dis(1) unfolding assms(2) u by (cases e; auto)+
  then have "adjust_insert_while t z = adjust_insert_while t' g"
    using assms(3) ptr u(2)
    by (subst adjust_insert_while.simps) (simp add: Let_def t'_def)
  moreover have "red_focus t' C g (plug [d, (On_right, g, u)] T)"
    using rf fg nz dis ptr assms(3) u unfolding assms(2)
    by (cases e) (auto simp: red_focus_def t'_def)
  moreover have "same_data t t'"
    using nz rf by (simp add: same_data_def t'_def)
  ultimately show ?thesis by blast
qed


text \<open>Red node, red parent, black uncle: the last rotation, and the loop then ends.\<close>

definition balanced :: "'d rbt_tree \<Rightarrow> addr list \<Rightarrow> bool" where
  "balanced t as \<longleftrightarrow> (\<exists>T. focus t [] (root t) T \<and> inorder T = as
     \<and> invc (color t) T \<and> invh (color t) T)"

lemma balanced_plug:
  assumes "focus t C a T" and "invc (color t) T" and "invh (color t) T" and "cinvc (color t) C"
    and "cinvh (color t) C (bh (color t) T)" and "black (color t) T \<or> top_black (color t) C \<or> C = []"
    and "as = before C @ inorder T @ after C"
  shows "balanced t as"
  using assms focus_up [OF assms(1)]
  by (auto simp: balanced_def inorder_plug invh_plug intro!: exI [of _ "plug C T"] intro: invc_plug)

lemma rotate_out_left:
  assumes f: "focus t ((On_left, p, s) # (On_left, g, u) # C) z T" and "T \<noteq> Leaf"
    and c: "color t z = RBT_RED" "color t p = RBT_RED" "color t g = RBT_BLACK"
      "color t (nil t) = RBT_BLACK" "black (color t) s" "black (color t) u"
    and i: "invc (color t) T" "invc (color t) s" "invc (color t) u" "cinvc (color t) C"
      "invh (color t) T" "invh (color t) s" "invh (color t) u"
      "bh (color t) s = bh (color t) T" "bh (color t) u = bh (color t) T"
      "cinvh (color t) C (Suc (bh (color t) T))"
  defines "t1 \<equiv> set_color g RBT_RED (set_color p RBT_BLACK t)"
  shows "adjust_insert_while (rightRotate t1 g) z = Some (rightRotate t1 g)
     \<and> balanced (rightRotate t1 g) (before C @ inorder T @ p # inorder s @ g # inorder u @ after C)
     \<and> same_data t (rightRotate t1 g)"
proof -
  have f1: "focus t1 C g (Node (Node T p s) g u)" and pz: "parent t z = p"
    using f parent_focus [OF f \<open>T \<noteq> Leaf\<close>] by (simp_all add: focus_left t1_def)
  have fr: "focus (rightRotate t1 g) C p (Node T p (Node s g u))"
    by (rule rightRotate_focus [OF f1])
  then have "focus (rightRotate t1 g) ((On_left, p, Node s g u) # C) (left (rightRotate t1 g) p) T"
    by (simp add: focus_left)
  from parent_focus [OF this \<open>T \<noteq> Leaf\<close>] this
  have pz': "parent (rightRotate t1 g) z = p"
    using f \<open>T \<noteq> Leaf\<close> by (cases T) (auto simp: focus_def)
  have "distinct (before C @ inorder (Node (Node T p s) g u) @ after C)"
    by (rule nil_distinct(4) [OF f1])
  then have dis: "distinct (inorder (Node (Node T p s) g u))" "g \<notin> set (before C)"
      "g \<notin> set (after C)" "p \<notin> set (before C)" "p \<notin> set (after C)" by auto
  have cp: "color (rightRotate t1 g) p = RBT_BLACK" 
    using dis(1) by (simp add: t1_def)
  have nz: "p \<noteq> nil t" "g \<noteq> nil t" using f by (auto simp: focus_def)
  have "balanced (rightRotate t1 g) (before C @ inorder T @ p # inorder s @ g # inorder u @ after C)"
    using c i dis cp by (intro balanced_plug [OF fr]) (auto simp: t1_def)
  moreover have "same_data t (rightRotate t1 g)"
    using nz by (simp add: same_data_def t1_def)
  moreover have "adjust_insert_while (rightRotate t1 g) z = Some (rightRotate t1 g)"
    using cp pz' by (subst adjust_insert_while.simps) simp
  ultimately show ?thesis by blast
qed

lemma rotate_out_right:
  assumes f: "focus t ((On_right, p, s) # (On_right, g, u) # C) z T" and "T \<noteq> Leaf"
    and c: "color t z = RBT_RED" "color t p = RBT_RED" "color t g = RBT_BLACK"
      "color t (nil t) = RBT_BLACK" "black (color t) s" "black (color t) u"
    and i: "invc (color t) T" "invc (color t) s" "invc (color t) u" "cinvc (color t) C"
      "invh (color t) T" "invh (color t) s" "invh (color t) u"
      "bh (color t) s = bh (color t) T" "bh (color t) u = bh (color t) T"
      "cinvh (color t) C (Suc (bh (color t) T))"
  defines "t1 \<equiv> set_color g RBT_RED (set_color p RBT_BLACK t)"
  shows "adjust_insert_while (leftRotate t1 g) z = Some (leftRotate t1 g)
     \<and> balanced (leftRotate t1 g) (before C @ inorder u @ g # inorder s @ p # inorder T @ after C)
     \<and> same_data t (leftRotate t1 g)"
proof -
  have f1: "focus t1 C g (Node u g (Node s p T))" and pz: "parent t z = p"
    using f parent_focus [OF f \<open>T \<noteq> Leaf\<close>] by (simp_all add: focus_right t1_def)
  have fr: "focus (leftRotate t1 g) C p (Node (Node u g s) p T)"
    by (rule leftRotate_focus [OF f1])
  then have "focus (leftRotate t1 g) ((On_right, p, Node u g s) # C) (right (leftRotate t1 g) p) T"
    by (simp add: focus_right)
  from parent_focus [OF this \<open>T \<noteq> Leaf\<close>] this
  have pz': "parent (leftRotate t1 g) z = p"
    using f \<open>T \<noteq> Leaf\<close> by (cases T) (auto simp: focus_def)
  have "distinct (before C @ inorder (Node u g (Node s p T)) @ after C)"
    by (rule nil_distinct(4) [OF f1])
  then have dis: "distinct (inorder (Node u g (Node s p T)))" "g \<notin> set (before C)"
      "g \<notin> set (after C)" "p \<notin> set (before C)" "p \<notin> set (after C)" by auto
  have cp: "color (leftRotate t1 g) p = RBT_BLACK" 
    using dis(1) by (simp add: t1_def)
  have nz: "p \<noteq> nil t" "g \<noteq> nil t" using f by (auto simp: focus_def)
  have "balanced (leftRotate t1 g) (before C @ inorder u @ g # inorder s @ p # inorder T @ after C)"
    using c i dis cp by (intro balanced_plug [OF fr]) (auto simp: t1_def)
  moreover have "same_data t (leftRotate t1 g)"
    using nz by (simp add: same_data_def t1_def)
  moreover have "adjust_insert_while (leftRotate t1 g) z = Some (leftRotate t1 g)"
    using cp pz' by (subst adjust_insert_while.simps) simp
  ultimately show ?thesis by blast
qed

lemma step_out_left:
  assumes f: "focus t ((On_left, p, s) # (On_left, g, u) # C) z T" and "T \<noteq> Leaf"
    and c: "color t p = RBT_RED" "color t (nil t) = RBT_BLACK" "black (color t) u"
  shows "adjust_insert_while t z
     = adjust_insert_while (rightRotate (set_color g RBT_RED (set_color p RBT_BLACK t)) g) z"
proof -
  have ptr: "parent t z = p" "parent t p = g" "left t g = p" "repr t g (right t g) u"
      "left t p = z"
    using f parent_focus [OF f \<open>T \<noteq> Leaf\<close>] by (auto simp: focus_def)
  have "z \<noteq> right t p"
    using f \<open>T \<noteq> Leaf\<close> by (cases T; cases s) (auto simp: focus_def)
  moreover have "color t (right t g) \<noteq> RBT_RED"
    using color_ptr [OF ptr(4)] c by simp
  ultimately show ?thesis
    using c(1) ptr by (subst adjust_insert_while.simps) (simp add: Let_def)
qed

lemma step_in_left:
  assumes f: "focus t ((On_right, p, s) # (On_left, g, u) # C) z (Node A z B)"
    and c: "color t p = RBT_RED" "color t (nil t) = RBT_BLACK" "black (color t) u"
  shows "focus (leftRotate t p) ((On_left, z, B) # (On_left, g, u) # C) p (Node s p A)
     \<and> adjust_insert_while t z
     = adjust_insert_while (rightRotate (set_color g RBT_RED (set_color z RBT_BLACK (leftRotate t p))) g) p"
proof
  have ptr: "parent t z = p" "parent t p = g" "left t g = p" "repr t g (right t g) u"
      "right t p = z"
    using f by (auto simp: focus_def)
  have u: "color t (right t g) \<noteq> RBT_RED"
    using color_ptr [OF ptr(4)] c by simp
  have f': "focus (leftRotate t p) ((On_left, g, u) # C) z (Node (Node s p A) z B)"
    using f by (intro leftRotate_focus) (simp add: focus_right)
  moreover have "left (leftRotate t p) z = p" "parent (leftRotate t p) p = z"
      "parent (leftRotate t p) z = g"
    using f' by (auto simp: focus_def)
  ultimately show "focus (leftRotate t p) ((On_left, z, B) # (On_left, g, u) # C) p (Node s p A)"
    by (simp add: focus_left [of _ z B])
  show "adjust_insert_while t z
     = adjust_insert_while (rightRotate (set_color g RBT_RED (set_color z RBT_BLACK (leftRotate t p))) g) p"
    using c(1) ptr u \<open>parent (leftRotate t p) p = z\<close> \<open>parent (leftRotate t p) z = g\<close>
    by (subst adjust_insert_while.simps) (simp add: Let_def)
qed

lemma step_out_right:
  assumes f: "focus t ((On_right, p, s) # (On_right, g, u) # C) z T" and "T \<noteq> Leaf"
    and c: "color t p = RBT_RED" "color t (nil t) = RBT_BLACK" "black (color t) u"
  shows "adjust_insert_while t z
     = adjust_insert_while (leftRotate (set_color g RBT_RED (set_color p RBT_BLACK t)) g) z"
proof -
  have ptr: "parent t z = p" "parent t p = g" "right t g = p" "repr t g (left t g) u"
      "right t p = z"
    using f parent_focus [OF f \<open>T \<noteq> Leaf\<close>] by (auto simp: focus_def)
  have "z \<noteq> left t p"
    using f \<open>T \<noteq> Leaf\<close> by (cases T; cases s) (auto simp: focus_def)
  moreover have "color t (left t g) \<noteq> RBT_RED"
    using color_ptr [OF ptr(4)] c by simp
  moreover have "p \<noteq> left t g" using c \<open>color t (left t g) \<noteq> RBT_RED\<close> by auto
  ultimately show ?thesis
    using c(1) ptr by (subst adjust_insert_while.simps) (simp add: Let_def)
qed

lemma step_in_right:
  assumes f: "focus t ((On_left, p, s) # (On_right, g, u) # C) z (Node A z B)"
    and c: "color t p = RBT_RED" "color t (nil t) = RBT_BLACK" "black (color t) u"
  shows "focus (rightRotate t p) ((On_right, z, A) # (On_right, g, u) # C) p (Node B p s)
     \<and> adjust_insert_while t z
     = adjust_insert_while (leftRotate (set_color g RBT_RED (set_color z RBT_BLACK (rightRotate t p))) g) p"
proof
  have ptr: "parent t z = p" "parent t p = g" "right t g = p" "repr t g (left t g) u"
      "left t p = z"
    using f by (auto simp: focus_def)
  have u: "color t (left t g) \<noteq> RBT_RED"
    using color_ptr [OF ptr(4)] c by simp
  then have "p \<noteq> left t g" using c by auto
  have f': "focus (rightRotate t p) ((On_right, g, u) # C) z (Node A z (Node B p s))"
    using f by (intro rightRotate_focus) (simp add: focus_left)
  moreover have "right (rightRotate t p) z = p" "parent (rightRotate t p) p = z"
      "parent (rightRotate t p) z = g"
    using f' by (auto simp: focus_def)
  ultimately show "focus (rightRotate t p) ((On_right, z, A) # (On_right, g, u) # C) p (Node B p s)"
    by (simp add: focus_right [of _ z A])
  show "adjust_insert_while t z
     = adjust_insert_while (leftRotate (set_color g RBT_RED (set_color z RBT_BLACK (rightRotate t p))) g) p"
    using c(1) ptr u \<open>p \<noteq> left t g\<close> \<open>parent (rightRotate t p) p = z\<close> \<open>parent (rightRotate t p) z = g\<close>
    by (subst adjust_insert_while.simps) (simp add: Let_def)
qed

lemma same_data_trans: "same_data t t1 \<Longrightarrow> same_data t1 t2 \<Longrightarrow> same_data t t2"
  by (auto simp: same_data_def)

definition fixed_up :: "'d rbt_tree \<Rightarrow> addr \<Rightarrow> addr list \<Rightarrow> bool" where
  "fixed_up t z as \<longleftrightarrow>
     (\<exists>t'. adjust_insert_while t z = Some t' \<and> balanced t' as \<and> same_data t t')"

lemma adjust_insert_rotate:
  assumes rf: "red_focus t ((e, p, s) # (e', g, u) # C) z T"
    and c: "color t p = RBT_RED" "black (color t) u"
  shows "fixed_up t z (before ((e, p, s) # (e', g, u) # C) @ inorder T @ after ((e, p, s) # (e', g, u) # C))"
proof -
  obtain A B where T: "T = Node A z B"
    using rf by (cases T) (auto simp: red_focus_def focus_def)
  have f: "focus t ((e, p, s) # (e', g, u) # C) z (Node A z B)"
    and n: "color t (nil t) = RBT_BLACK"
    and i: "color t z = RBT_RED" "black (color t) A" "black (color t) B" "invc (color t) A"
      "invc (color t) B" "invh (color t) A" "invh (color t) B" "bh (color t) B = bh (color t) A"
      "invc (color t) s" "black (color t) s" "invh (color t) s" "bh (color t) s = bh (color t) A"
      "color t g = RBT_BLACK" "invc (color t) u" "invh (color t) u" "bh (color t) u = bh (color t) A"
      "cinvc (color t) C" "cinvh (color t) C (Suc (bh (color t) A))"
    using rf c by (auto simp: red_focus_def T)
  show ?thesis
  proof (cases e; cases e')
    assume "e = On_left" "e' = On_left"
    with f n i c show ?thesis unfolding T fixed_up_def
      using step_out_left [of t p s g u C z "Node A z B"] rotate_out_left [of t p s g u C z "Node A z B"]
      by simp
  next
    assume "e = On_right" "e' = On_right"
    with f n i c show ?thesis unfolding T fixed_up_def
      using step_out_right [of t p s g u C z "Node A z B"] rotate_out_right [of t p s g u C z "Node A z B"]
      by simp
  next
    assume e: "e = On_right" "e' = On_left"
    note st = step_in_left [OF f [unfolded e] c(1) n c(2)]
    show ?thesis unfolding T fixed_up_def e
      using rotate_out_left [of "leftRotate t p" z B g u C p "Node s p A"] st n i c
      by (auto simp: same_data_def)
  next
    assume e: "e = On_left" "e' = On_right"
    note st = step_in_right [OF f [unfolded e] c(1) n c(2)]
    show ?thesis unfolding T fixed_up_def e
      using rotate_out_right [of "rightRotate t p" z A g u C p "Node B p s"] st n i c
      by (auto simp: same_data_def)
  qed
qed

lemma adjust_insert_balanced:
  "red_focus t C z T \<Longrightarrow> fixed_up t z (before C @ inorder T @ after C)"
proof (induction "length C" arbitrary: t C z T rule: less_induct)
  case less
  show ?case
  proof (cases "C = [] \<or> top_black (color t) C")
    case True
    have "balanced t (before C @ inorder T @ after C)"
      using less.prems True by (intro balanced_plug [of t C z T]) (auto simp: red_focus_def)
    then show ?thesis
      using adjust_insert_done [OF less.prems True] by (auto simp: fixed_up_def same_data_def)
  next
    case False
    then obtain e p s C1 where C1: "C = (e, p, s) # C1" "color t p = RBT_RED"
      by (cases C) auto
    then have "top_black (color t) C1" using less.prems by (simp add: red_focus_def)
    then obtain e' g u C2 where C2: "C1 = (e', g, u) # C2" by (cases C1) auto
    show ?thesis
    proof (cases "black (color t) u")
      case True
      with C1 C2 less.prems adjust_insert_rotate show ?thesis by blast
    next
      case u: False
      obtain t' where t': "adjust_insert_while t z = adjust_insert_while t' g"
          "red_focus t' C2 g (plug [(e, p, s), (e', g, u)] T)" "same_data t t'"
      proof (cases e')
        case On_left
        with adjust_insert_recolor_left [of t "(e, p, s)" g u C2 z T] less.prems C1 C2 u that
        show ?thesis by blast
      next
        case On_right
        with adjust_insert_recolor_right [of t "(e, p, s)" g u C2 z T] less.prems C1 C2 u that
        show ?thesis by blast
      qed
      have "fixed_up t' g (before C2 @ inorder (plug [(e, p, s), (e', g, u)] T) @ after C2)"
        using C1 C2 by (intro less.hyps [OF _ t'(2)]) simp
      moreover have "before C2 @ inorder (plug [(e, p, s), (e', g, u)] T) @ after C2
          = before C @ inorder T @ after C"
        unfolding C1 C2 by (cases e; cases e') auto
      ultimately show ?thesis 
        using t' same_data_trans unfolding fixed_up_def by metis
    qed
  qed
qed

subsection \<open>Search trees\<close>

text \<open>
  \<open>search_tree t T\<close>: the memory holds the tree \<open>T\<close> from its root, with keys in
  ascending order; \<open>red_black\<close> adds the colour invariant.
\<close>

definition search_tree :: "'d rbt_tree \<Rightarrow> addr tree \<Rightarrow> bool" where
  "search_tree t T \<longleftrightarrow> focus t [] (root t) T \<and> color t (nil t) = RBT_BLACK
     \<and> sorted_wrt (<) (map (key t) (inorder T))"

definition red_black :: "'d rbt_tree \<Rightarrow> addr tree \<Rightarrow> bool" where
  "red_black t T \<longleftrightarrow> search_tree t T \<and> black (color t) T \<and> invc (color t) T \<and> invh (color t) T"

definition bounds :: "'d rbt_tree \<Rightarrow> ctx \<Rightarrow> KEY_TYPE \<Rightarrow> bool" where
  "bounds t C k \<longleftrightarrow> (\<forall>x\<in>set (before C). key t x < k) \<and> (\<forall>x\<in>set (after C). k < key t x)"

lemma sorted_mid:
  assumes "sorted_wrt (<) (map f (xs @ x # ys))"
  shows "\<forall>y\<in>set xs. f y < f x" "\<forall>y\<in>set ys. f x < f y"
  using assms by (auto simp: sorted_wrt_append)

lemma insert_descend_spec:
  assumes "focus t C a T" and "sorted_wrt (<) (map (key t) (inorder T))" and "bounds t C (key t k)"
    and "prev = (if C = [] then a else above t C)"
  shows "(\<exists>x\<in>set_tree T. key t x = key t k \<and> insert_descend t k prev a = Some (Existing x))
    \<or> key t k \<notin> key t ` set_tree T \<and> (\<exists>C'. insert_descend t k prev a = Some (Insert_at (above t C'))
         \<and> focus t C' (nil t) Leaf \<and> plug C' Leaf = plug C T \<and> bounds t C' (key t k))"
  using assms
proof (induction T arbitrary: C a prev)
  case Leaf
  then have "a = nil t" and "insert_descend t k prev a = Some (Insert_at (above t C))"
    by (auto simp: focus_def) (subst insert_descend.simps, simp)+
  with Leaf show ?case by auto
next
  case (Node l x r)
  then have x: "a = x" "x \<noteq> nil t" by (auto simp: focus_def)
  have so: "\<forall>y\<in>set (inorder l). key t y < key t x" "\<forall>y\<in>set (inorder r). key t x < key t y"
    using sorted_mid [of "key t" "inorder l" x "inorder r"] Node.prems(2) by auto
  have sub: "sorted_wrt (<) (map (key t) (inorder l))" "sorted_wrt (<) (map (key t) (inorder r))"
    using Node.prems(2) by (auto simp: sorted_wrt_append)
  consider (lt) "key t k < key t x" | (gt) "key t x < key t k" | (eq) "key t k = key t x" by linarith
  then show ?case
  proof cases
    case lt
    have "focus t ((On_left, x, r) # C) (left t x) l"
      using Node.prems(1) x by (simp add: focus_left)
    moreover have "bounds t ((On_left, x, r) # C) (key t k)"
      using Node.prems(3) lt so by (auto simp: bounds_def)
    moreover have "insert_descend t k prev a = insert_descend t k x (left t x)"
      using x lt by (simp add: insert_descend.simps [of t k prev])
    moreover have "key t k \<notin> key t ` set_tree r" "key t k \<noteq> key t x" using lt so by auto
    ultimately show ?thesis
      using Node.IH(1) [of "(On_left, x, r) # C" "left t x" x] sub by auto
  next
    case gt
    have "focus t ((On_right, x, l) # C) (right t x) r"
      using Node.prems(1) x by (simp add: focus_right)
    moreover have "bounds t ((On_right, x, l) # C) (key t k)"
      using Node.prems(3) gt so by (auto simp: bounds_def)
    moreover have "insert_descend t k prev a = insert_descend t k x (right t x)"
      using x gt by (simp add: insert_descend.simps [of t k prev])
    moreover have "key t k \<notin> key t ` set_tree l" "key t k \<noteq> key t x" using gt so by auto
    ultimately show ?thesis
      using Node.IH(2) [of "(On_right, x, l) # C" "right t x" x] sub by auto
  next
    case eq
    then show ?thesis using x by (simp add: insert_descend.simps [of t k prev])
  qed
qed

text \<open>The new leaf: the stores of \<^verbatim>\<open>RBT_insertNode\<close> before the rebalancing.\<close>

definition attach :: "'d rbt_tree \<Rightarrow> addr \<Rightarrow> addr \<Rightarrow> 'd rbt_tree" where
  "attach t target prev =
     (let t = set_parent target prev t;
          t = (if prev = nil t then t\<lparr>root := target\<rparr> else t);
          t = (if key t target < key t prev then set_left prev target t
               else set_right prev target t);
          t = set_left target (nil t) t;
          t = set_right target (nil t) t
      in set_color target RBT_RED t)"

lemma attach_fields [simp]:
  "key (attach t x p) = key t" "data (attach t x p) = data t" "nil (attach t x p) = nil t"
  "swapData (attach t x p) = swapData t" "color (attach t x p) = (color t)(x := RBT_RED)"
  by (simp_all add: attach_def Let_def)

lemma attach_focus:
  assumes f: "focus t C (nil t) Leaf" and x: "x \<notin> set (before C)" "x \<notin> set (after C)" "x \<noteq> nil t"
    and b: "bounds t C (key t x)"
  shows "focus (attach t x (above t C)) C x (Node Leaf x Leaf)"
proof (cases C rule: before.cases)
  case 1
  with x show ?thesis by (simp add: focus_def attach_def Let_def)
next
  case (2 p s C')
  then have p: "p \<noteq> nil t" "p \<noteq> x" "key t x < key t p" "p \<notin> set_tree s" "x \<notin> set_tree s"
      "p \<notin> set (before C') \<union> set (after C')" "x \<notin> set (before C') \<union> set (after C')"
    using f x b by (auto simp: focus_def bounds_def)
  have "attach t x p = set_color x RBT_RED (set_right x (nil t) (set_left x (nil t)
          (set_left p x (set_parent x p t))))" (is "_ = ?t")
    using p by (simp add: attach_def Let_def)
  moreover have "repr ?t p (right t p) s = repr t p (right t p) s"
    by (rule repr_cong) (use p in auto)
  moreover have "crepr ?t C' p = crepr t C' p"
    by (rule crepr_cong) (use p in auto)
  moreover have "distinct (before C @ x # after C)" using f x by (auto simp: focus_def)
  ultimately show ?thesis
    using f x p unfolding 2 by (simp add: focus_def)
next
  case (3 p s C')
  then have p: "p \<noteq> nil t" "p \<noteq> x" "\<not> key t x < key t p" "p \<notin> set_tree s" "x \<notin> set_tree s"
      "p \<notin> set (before C') \<union> set (after C')" "x \<notin> set (before C') \<union> set (after C')"
    using f x b by (auto simp: focus_def bounds_def)
  have "attach t x p = set_color x RBT_RED (set_right x (nil t) (set_left x (nil t)
          (set_right p x (set_parent x p t))))" (is "_ = ?t")
    using p by (simp add: attach_def Let_def)
  moreover have "repr ?t p (left t p) s = repr t p (left t p) s"
    by (rule repr_cong) (use p in auto)
  moreover have "crepr ?t C' p = crepr t C' p"
    by (rule crepr_cong) (use p in auto)
  moreover have "distinct (before C @ x # after C)" using f x by (auto simp: focus_def)
  ultimately show ?thesis
    using f x p unfolding 3 by (simp add: focus_def)
qed

lemma insertNode_attach:
  "RBT_insertNode t target =
     insert_descend t target (root t) (root t) \<bind> (\<lambda>r.
       case r of
         Existing node \<Rightarrow> Some (node, t)
       | Insert_at prev \<Rightarrow> adjustAfterInsert (attach t target prev) target \<bind> (\<lambda>t. Some (target, t)))"
  unfolding RBT_insertNode_def attach_def Let_def
  by (cases "insert_descend t target (root t) (root t)") (simp_all split: found.split)

lemma insort_key_mid:
  assumes "\<forall>y\<in>set xs. f y < f x" and "\<forall>y\<in>set ys. f x < f y"
  shows "insort_key f x (xs @ ys) = xs @ x # ys"
  using assms by (induction xs) (cases ys; auto)+

lemma blacken_root:
  assumes "balanced t as" and "sorted_wrt (<) (map (key t) as)" and "color t (nil t) = RBT_BLACK"
  shows "\<exists>T. red_black (set_color (root t) RBT_BLACK t) T \<and> inorder T = as"
proof -
  obtain T where T: "focus t [] (root t) T" "inorder T = as" "invc (color t) T" "invh (color t) T"
    using assms(1) by (auto simp: balanced_def)
  have "red_black (set_color (root t) RBT_BLACK t) T"
  proof (cases T)
    case Leaf
    with T assms show ?thesis by (auto simp: red_black_def search_tree_def)
  next
    case (Node l x r)
    then have "x = root t" "root t \<noteq> nil t" "x \<notin> set_tree l" "x \<notin> set_tree r"
      using T(1) by (auto simp: focus_def)
    with Node T assms show ?thesis by (auto simp: red_black_def search_tree_def focus_def)
  qed
  with T show ?thesis by blast
qed

lemma insert_new:
  assumes rb: "red_black t T" and x: "x \<notin> set_tree T" "x \<noteq> nil t" and new: "key t x \<notin> key t ` set_tree T"
  shows "\<exists>t' T'. RBT_insertNode t x = Some (x, t') \<and> red_black t' T'
     \<and> inorder T' = insort_key (key t) x (inorder T) \<and> same_data t t'"
proof -
  note st = rb [unfolded red_black_def search_tree_def]
  have "bounds t [] (key t x)" by (simp add: bounds_def)
  with insert_descend_spec [of t "[]" "root t" T x "root t"] st new
  obtain C where C: "insert_descend t x (root t) (root t) = Some (Insert_at (above t C))"
      "focus t C (nil t) Leaf" "plug C Leaf = T" "bounds t C (key t x)"
    by (auto simp: image_iff)
  have T: "inorder T = before C @ after C" using C(3) inorder_plug [of C Leaf] by simp
  then have xC: "x \<notin> set (before C)" "x \<notin> set (after C)"
    using x set_inorder [of T] by auto
  define t1 where "t1 = attach t x (above t C)"
  have "cinvc (color t) C" "cinvh (color t) C 0"
    using invc_plugD [of "color t" C Leaf] invh_plug [of "color t" C Leaf] st C(3) by simp_all
  then have "red_focus t1 C x (Node Leaf x Leaf)"
    using attach_focus [OF C(2) xC x(2) C(4)] xC x(2) st by (simp add: red_focus_def t1_def)
  from adjust_insert_balanced [OF this]
  obtain t2 where t2: "adjust_insert_while t1 x = Some t2" "balanced t2 (before C @ x # after C)"
      "same_data t1 t2"
    by (auto simp: fixed_up_def)
  have ins: "insort_key (key t) x (inorder T) = before C @ x # after C"
    using C(4) unfolding T bounds_def by (intro insort_key_mid) auto
  have sd: "same_data t t2" "color t2 (nil t2) = RBT_BLACK" "key t2 = key t"
    using t2(3) st x(2) by (auto simp: same_data_def t1_def)
  have "sorted_wrt (<) (map (key t) (before C @ x # after C))"
    using st C(4) by (auto simp: T sorted_wrt_append bounds_def)
  with blacken_root [OF t2(2)] sd
  obtain T' where "red_black (set_color (root t2) RBT_BLACK t2) T'" 
      "inorder T' = before C @ x # after C" by auto
  moreover have "same_data t (set_color (root t2) RBT_BLACK t2)"
    using sd st by (auto simp: same_data_def)
  moreover have "RBT_insertNode t x = Some (x, set_color (root t2) RBT_BLACK t2)"
    using C(1) t2(1) by (simp add: insertNode_attach adjustAfterInsert_def t1_def)
  ultimately show ?thesis using ins by metis
qed

lemma insert_present:
  assumes "search_tree t T" and "key t x \<in> key t ` set_tree T"
  shows "\<exists>y\<in>set_tree T. key t y = key t x \<and> RBT_insertNode t x = Some (y, t)"
  using insert_descend_spec [of t "[]" "root t" T x "root t"] assms
  by (auto simp: search_tree_def bounds_def insertNode_attach)

lemma search_while_spec:
  assumes "repr t p a T" and "sorted_wrt (<) (map (key t) (inorder T))"
  shows "(\<exists>x\<in>set_tree T. key t x = k \<and> search_while t k a = Some x)
    \<or> k \<notin> key t ` set_tree T \<and> search_while t k a = Some (nil t)"
  using assms
proof (induction T arbitrary: p a)
  case Leaf
  then show ?case by simp (subst search_while.simps, simp)
next
  case (Node l x r)
  have so: "\<forall>y\<in>set (inorder l). key t y < key t x" "\<forall>y\<in>set (inorder r). key t x < key t y"
    using sorted_mid [of "key t" "inorder l" x "inorder r"] Node.prems(2) by auto
  consider (lt) "k < key t x" | (gt) "key t x < k" | (eq) "k = key t x" by linarith
  then show ?case
  proof cases
    case lt
    then have "search_while t k a = search_while t k (left t x)"
      using Node.prems by (subst search_while.simps) simp
    then show ?thesis using Node.IH(1) [of x "left t x"] Node.prems lt so
      by (auto simp: sorted_wrt_append)
  next
    case gt
    then have "search_while t k a = search_while t k (right t x)"
      using Node.prems by (subst search_while.simps) simp
    then show ?thesis using Node.IH(2) [of x "right t x"] Node.prems gt so
      by (auto simp: sorted_wrt_append)
  next
    case eq
    then show ?thesis using Node.prems by (subst search_while.simps) simp
  qed
qed

lemma search_spec:
  assumes "search_tree t T"
  shows "(\<exists>x\<in>set_tree T. key t x = k \<and> RBT_search t k = Some x)
    \<or> k \<notin> key t ` set_tree T \<and> RBT_search t k = Some (nil t)"
  using assms search_while_spec [of t "nil t" "root t" T k]
  by (simp add: search_tree_def focus_def RBT_search_def)

end
