(* ===== verification/Rbtree_Delete.thy ===== *)
theory Rbtree_Delete
  imports Rbtree_Insert
begin

text \<open>
  Deletion: \<^verbatim>\<open>_adjustAfterDelete\<close> on every branch, the unlinking of a node with at most
  one child, and \<^verbatim>\<open>RBT_deleteNode\<close> with its exchange of contents with the successor.
\<close>

subsection \<open>Deletion\<close>

text \<open>
  \<open>deficit t C a T\<close>: the subtree \<open>T\<close> at \<open>a\<close> lacks one black node against what its
  context \<open>C\<close> expects; \<open>patched\<close>: from the context \<open>C\<close> on, all black heights agree
  again; \<open>calm\<close>: no red brother on the path has an inner child with a red child.
\<close>

definition deficit :: "'d rbt_tree \<Rightarrow> ctx \<Rightarrow> addr \<Rightarrow> addr tree \<Rightarrow> bool" where
  "deficit t C a T \<longleftrightarrow> focus t C a T \<and> parent t a = above t C \<and> black (color t) T
     \<and> color t (nil t) = RBT_BLACK \<and> invc (color t) T \<and> invh (color t) T
     \<and> cinvc (color t) C \<and> cinvh (color t) C (Suc (bh (color t) T))"

fun calm_inner :: "(addr \<Rightarrow> RBT_COLOR) \<Rightarrow> addr tree \<Rightarrow> bool" where
  "calm_inner c Leaf \<longleftrightarrow> True"
| "calm_inner c (Node l x r) \<longleftrightarrow> black c l \<and> black c r"

fun calm :: "(addr \<Rightarrow> RBT_COLOR) \<Rightarrow> ctx \<Rightarrow> bool" where
  "calm c [] \<longleftrightarrow> True"
| "calm c ((e, p, Leaf) # C) \<longleftrightarrow> calm c C"
| "calm c ((On_left, p, Node l b r) # C) \<longleftrightarrow> (c b = RBT_RED \<longrightarrow> calm_inner c l) \<and> calm c C"
| "calm c ((On_right, p, Node l b r) # C) \<longleftrightarrow> (c b = RBT_RED \<longrightarrow> calm_inner c r) \<and> calm c C"

definition patched :: "'d rbt_tree \<Rightarrow> 'd rbt_tree \<Rightarrow> ctx \<Rightarrow> addr list \<Rightarrow> bool \<Rightarrow> bool" where
  "patched t t' C as q \<longleftrightarrow> (\<exists>a T. focus t' C a T \<and> inorder T = as
     \<and> cinvc (color t') C \<and> invh (color t') T \<and> cinvh (color t') C (bh (color t') T)
     \<and> (q \<longrightarrow> invc (color t') T) \<and> (black (color t') T \<or> top_black (color t') C)
     \<and> same_data t t')"

definition rebuilt :: "'d rbt_tree \<Rightarrow> 'd rbt_tree \<Rightarrow> addr list \<Rightarrow> bool \<Rightarrow> bool" where
  "rebuilt t t' as q \<longleftrightarrow> (\<exists>T. focus t' [] (root t') T \<and> inorder T = as \<and> black (color t') T
     \<and> invh (color t') T \<and> (q \<longrightarrow> invc (color t') T) \<and> same_data t t')"

lemma black_plugI: "cinvc c C \<Longrightarrow> black c T \<or> top_black c C \<Longrightarrow> black c (plug C T)"
proof (induction C T rule: plug.induct)
  case (2 p s C T)
  then show ?case by (cases "c p") auto
next
  case (3 p s C T)
  then show ?case by (cases "c p") auto
qed simp

lemma patched_rebuilt: "patched t t' C as q \<Longrightarrow> rebuilt t t' (before C @ as @ after C) q"
proof -
  assume "patched t t' C as q"
  then obtain a T where T: "focus t' C a T" "inorder T = as" "cinvc (color t') C"
      "invh (color t') T" "cinvh (color t') C (bh (color t') T)" "q \<longrightarrow> invc (color t') T"
      "black (color t') T \<or> top_black (color t') C" "same_data t t'"
    by (auto simp: patched_def)
  then have "invh (color t') (plug C T)" "black (color t') (plug C T)"
      "q \<longrightarrow> invc (color t') (plug C T)"
    by (auto simp: invh_plug intro: black_plugI invc_plug)
  with T focus_up [OF T(1)] show ?thesis
    by (auto simp: rebuilt_def inorder_plug intro!: exI [of _ "plug C T"])
qed

lemma root_in_context: "crepr t C a \<Longrightarrow> C \<noteq> [] \<Longrightarrow> root t \<in> set (before C) \<union> set (after C)"
proof (induction t C a rule: crepr.induct)
  case (2 t p s C a)
  then show ?case by (cases "C = []") auto
next
  case (3 t p s C a)
  then show ?case by (cases "C = []") auto
qed simp

lemma focus_ptr: "focus t C a T \<Longrightarrow> a = nil t \<or> a \<in> set_tree T"
  by (cases T) (auto simp: focus_def)

lemma root_not_focus:
  assumes "focus t (d # C) a T"
  shows "root t \<noteq> a"
  using root_in_context [of t "d # C" a] focus_ptr [OF assms] nil_distinct [OF assms] assms
  by (fastforce simp: focus_def simp flip: set_inorder)


lemma calm_inner_upd: "x \<notin> set_tree T \<Longrightarrow> calm_inner (c(x := v)) T = calm_inner c T"
  by (cases T) auto

lemma calm_upd:
  "x \<notin> set (before C) \<Longrightarrow> x \<notin> set (after C) \<Longrightarrow> calm (c(x := v)) C = calm c C"
proof (induction c C rule: calm.induct)
  case (2 c e p C)
  then show ?case by (cases e) auto
qed (auto simp: calm_inner_upd)

lemma sibling_right:
  assumes d: "deficit t ((On_right, p, s) # C) a T"
  obtains sl b sr where "s = Node sl b sr" "left t p = b" "right t p = a" "parent t a = p"
    "p \<noteq> nil t" "b \<noteq> nil t" "repr t b (left t b) sl" "repr t b (right t b) sr"
    "focus t C p (Node (Node sl b sr) p T)" "root t \<noteq> a" "color t a = RBT_BLACK" "b \<noteq> a"
proof -
  have f: "focus t ((On_right, p, s) # C) a T" "bh (color t) s = Suc (bh (color t) T)"
    and bl: "black (color t) T" "color t (nil t) = RBT_BLACK" and pa: "parent t a = p"
    using d by (auto simp: deficit_def)
  obtain sl b sr where s: "s = Node sl b sr" using f(2) by (cases s) auto
  have fp: "focus t C p (Node (Node sl b sr) p T)" "right t p = a"
    using f(1) by (simp_all add: focus_right s)
  moreover have "color t a = RBT_BLACK"
    using color_ptr [of t p a T] f(1) bl by (simp add: focus_def)
  moreover have "left t p = b" "p \<noteq> nil t" "b \<noteq> nil t" "repr t b (left t b) sl"
      "repr t b (right t b) sr"
    using fp by (auto simp: focus_def)
  moreover have "b \<noteq> a"
    using nil_distinct(4) [OF fp(1)] focus_ptr [OF f(1)] \<open>b \<noteq> nil t\<close> by auto
  ultimately show thesis using that s pa root_not_focus [OF f(1)] by blast
qed

lemma delete_red_brother_right:
  assumes d: "deficit t ((On_right, p, s) # C) a T" and s: "s = Node sl b sr"
    and red: "color t b = RBT_RED"
  shows "\<exists>t'. adjustAfterDelete t a = Some t'
     \<and> patched t t' C (inorder s @ p # inorder T) (calm_inner (color t) sr)"
proof -
  obtain l where l: "left t p = b" "right t p = a" "parent t a = p" "p \<noteq> nil t" "b \<noteq> nil t"
    "repr t b (right t b) sr" "focus t C p (Node (Node sl b sr) p T)" "root t \<noteq> a"
    "color t a = RBT_BLACK" "b \<noteq> a"
    by (rule sibling_right [OF d]) (use s in auto)
  obtain i: "invc (color t) T" "invh (color t) T" "color t p = RBT_BLACK" "black (color t) T"
    "invc (color t) sl" "invc (color t) sr" "invh (color t) sl" "invh (color t) sr"
    "bh (color t) sl = Suc (bh (color t) T)" "bh (color t) sr = Suc (bh (color t) T)"
    "black (color t) sl" "black (color t) sr" "cinvc (color t) C"
    "cinvh (color t) C (Suc (Suc (bh (color t) T)))" "color t (nil t) = RBT_BLACK"
    using d red by (cases "color t p") (auto simp: deficit_def s)
  from i(10) obtain rl r rr where sr: "sr = Node rl r rr" by (cases sr) auto
  with l(6) have r: "right t b = r" "r \<noteq> nil t" by auto
  define t1 where "t1 = set_color r RBT_RED (set_color b RBT_BLACK t)"
  have "adjustAfterDelete t a = Some (rightRotate t1 p)"
    using l red r by (subst adjustAfterDelete.simps) (simp add: Let_def t1_def)
  moreover have "focus (rightRotate t1 p) C b (Node sl b (Node sr p T))"
    using l(7) by (intro rightRotate_focus) (simp add: t1_def)
  moreover have dis: "distinct (before C @ inorder (Node (Node sl b sr) p T) @ after C)"
    by (rule nil_distinct(4) [OF l(7)])
  have "b \<notin> set_tree T" "r \<notin> set_tree T" "r \<notin> set_tree sl" "b \<notin> set_tree sl" "b \<notin> set_tree rl"
    "b \<notin> set_tree rr" "r \<notin> set_tree rl" "r \<notin> set_tree rr" "b \<noteq> r" "b \<noteq> p" "r \<noteq> p"
    "b \<notin> set (before C)" "b \<notin> set (after C)" "r \<notin> set (before C)" "r \<notin> set (after C)"
    using dis by (auto simp: sr)
  moreover have "same_data t (rightRotate t1 p)"
    using l r by (simp add: same_data_def t1_def)
  ultimately show ?thesis
    using i unfolding patched_def s sr
    by (intro exI [of _ "rightRotate t1 p"] conjI exI [of _ b]
        exI [of _ "Node sl b (Node (Node rl r rr) p T)"]) (auto simp: t1_def)
qed

lemma delete_recolor_right:
  assumes d: "deficit t ((On_right, p, s) # C) a T" and s: "s = Node sl b sr"
    and c: "color t b = RBT_BLACK" "black (color t) sl" "black (color t) sr"
  shows "if color t p = RBT_RED
    then \<exists>t'. adjustAfterDelete t a = Some t' \<and> patched t t' C (inorder s @ p # inorder T) True
    else \<exists>t'. adjustAfterDelete t a = adjustAfterDelete t' p \<and> same_data t t'
      \<and> deficit t' C p (Node s p T) \<and> calm (color t') C = calm (color t) C"
proof -
  obtain l where l: "left t p = b" "right t p = a" "parent t a = p" "p \<noteq> nil t" "b \<noteq> nil t"
    "repr t b (left t b) sl" "repr t b (right t b) sr"
    "focus t C p (Node (Node sl b sr) p T)" "root t \<noteq> a" "color t a = RBT_BLACK" "b \<noteq> a"
    by (rule sibling_right [OF d]) (use s in auto)
  obtain i: "invc (color t) T" "invh (color t) T" "black (color t) T"
    "invc (color t) sl" "invc (color t) sr" "invh (color t) sl" "invh (color t) sr"
    "bh (color t) sl = bh (color t) T" "bh (color t) sr = bh (color t) T"
    "cinvc (color t) C" "color t p = RBT_BLACK \<or> top_black (color t) C"
    "cinvh (color t) C (if color t p = RBT_BLACK then Suc (Suc (bh (color t) T)) else Suc (bh (color t) T))" 
    "color t (nil t) = RBT_BLACK"
    using d c by (auto simp: deficit_def s)
  have ch: "color t (left t b) = RBT_BLACK" "color t (right t b) = RBT_BLACK"
    using color_ptr [OF l(6)] color_ptr [OF l(7)] i(13) c by auto
  have dis: "distinct (before C @ inorder (Node (Node sl b sr) p T) @ after C)"
    by (rule nil_distinct(4) [OF l(8)])
  have n: "b \<notin> set_tree T" "b \<notin> set_tree sl" "b \<notin> set_tree sr" "b \<noteq> p" "p \<notin> set_tree T"
    "p \<notin> set_tree sl" "p \<notin> set_tree sr"
    "b \<notin> set (before C)" "b \<notin> set (after C)" "p \<notin> set (before C)" "p \<notin> set (after C)"
    using dis by auto
  define t1 where "t1 = set_color b RBT_RED t"
  show ?thesis
  proof (cases "color t p = RBT_RED")
    case True
    have "adjustAfterDelete t a = Some (set_color p RBT_BLACK t1)"
      using l c ch True n by (subst adjustAfterDelete.simps) (simp add: Let_def t1_def)
    moreover have "same_data t (set_color p RBT_BLACK t1)"
      using l i by (simp add: same_data_def t1_def)
    ultimately show ?thesis
      using i c n True l(8) unfolding patched_def s
      by (intro if_P [THEN iffD2] exI [of _ "set_color p RBT_BLACK t1"] conjI exI [of _ p]
        exI [of _ "Node (Node sl b sr) p T"]) (auto simp: t1_def)
  next
    case False
    have "adjustAfterDelete t a = adjustAfterDelete t1 p"
      using l c ch False n by (subst adjustAfterDelete.simps) (simp add: Let_def t1_def)
    moreover have "same_data t t1"
      using l i by (simp add: same_data_def t1_def)
    moreover have "deficit t1 C p (Node (Node sl b sr) p T)"
      using i c n False l(5) [symmetric] l(8) parent_focus [OF l(8)] by (simp add: deficit_def t1_def)
    moreover have "calm (color t1) C = calm (color t) C"
      using n by (simp add: t1_def calm_upd)
    ultimately show ?thesis using False s by auto
  qed
qed

lemma delete_rotate_right:
  assumes d: "deficit t ((On_right, p, s) # C) a T" and s: "s = Node sl b sr"
    and c: "color t b = RBT_BLACK" "\<not> (black (color t) sl \<and> black (color t) sr)"
  shows "\<exists>t'. adjustAfterDelete t a = Some t' \<and> patched t t' C (inorder s @ p # inorder T) True"
proof -
  obtain l where l: "left t p = b" "right t p = a" "parent t a = p" "p \<noteq> nil t" "b \<noteq> nil t"
    "repr t b (left t b) sl" "repr t b (right t b) sr"
    "focus t C p (Node (Node sl b sr) p T)" "root t \<noteq> a" "color t a = RBT_BLACK" "b \<noteq> a"
    by (rule sibling_right [OF d]) (use s in auto)
  obtain i: "invc (color t) T" "invh (color t) T" "black (color t) T"
    "invc (color t) sl" "invc (color t) sr" "invh (color t) sl" "invh (color t) sr"
    "bh (color t) sl = bh (color t) T" "bh (color t) sr = bh (color t) T"
    "cinvc (color t) C" "color t p = RBT_BLACK \<or> top_black (color t) C"
    "cinvh (color t) C (if color t p = RBT_BLACK then Suc (Suc (bh (color t) T)) else Suc (bh (color t) T))" 
    "color t (nil t) = RBT_BLACK"
    using d c by (auto simp: deficit_def s)
  have ch: "color t (left t b) = RBT_BLACK \<longleftrightarrow> black (color t) sl"
      "color t (right t b) = RBT_BLACK \<longleftrightarrow> black (color t) sr"
    using color_ptr [OF l(6)] color_ptr [OF l(7)] i(13) by auto
  have dis: "distinct (before C @ inorder (Node (Node sl b sr) p T) @ after C)"
    by (rule nil_distinct(4) [OF l(8)])
  have n: "b \<notin> set_tree T" "b \<notin> set_tree sl" "b \<notin> set_tree sr" "b \<noteq> p" "p \<notin> set_tree T"
    "p \<notin> set_tree sl" "p \<notin> set_tree sr"
    "b \<notin> set (before C)" "b \<notin> set (after C)" "p \<notin> set (before C)" "p \<notin> set (after C)"
    using dis by auto
  show ?thesis
  proof (cases "black (color t) sl")
    case True
    then obtain rl r rr where sr: "sr = Node rl r rr" "color t r = RBT_RED" "color t b = RBT_BLACK"
      using c by (cases sr) auto
    with l(7) have r: "right t b = r" "r \<noteq> nil t" by auto
    have n': "r \<notin> set_tree T" "r \<notin> set_tree sl" "r \<notin> set_tree rl" "r \<notin> set_tree rr" "r \<noteq> b"
        "r \<noteq> p" "b \<notin> set_tree rl" "b \<notin> set_tree rr" "p \<notin> set_tree rl" "p \<notin> set_tree rr"
        "r \<notin> set (before C)" "r \<notin> set (after C)"
      using dis unfolding sr(1) by auto
    define t1 where "t1 = set_color r RBT_BLACK (set_color b (color t p) t)"
    define t2 where "t2 = rightRotate (leftRotate t1 b) p"
    have "adjustAfterDelete t a = Some t2"
      using l c ch True r n' sr by (subst adjustAfterDelete.simps) (simp add: Let_def t1_def t2_def)
    moreover have "same_data t t2"
      using l r i by (simp add: same_data_def t1_def t2_def)
    moreover have "focus t1 ((On_left, p, T) # C) b (Node sl b (Node rl r rr))"
      using l(8) l(1) sr by (simp add: focus_left t1_def)
    then have "focus (leftRotate t1 b) ((On_left, p, T) # C) r (Node (Node sl b rl) r rr)"
      by (rule leftRotate_focus)
    then have "focus t2 C r (Node (Node sl b rl) r (Node rr p T))"
      unfolding t2_def by (intro rightRotate_focus) (simp add: focus_left)
    moreover have "color t2 = (color t)(b := color t p, r := RBT_BLACK)"
      by (simp add: t1_def t2_def)
    ultimately show ?thesis
      using i n n' True sr unfolding patched_def s
      by (intro exI [of _ t2] conjI exI [of _ r] exI [of _ "Node (Node sl b rl) r (Node rr p T)"]) auto
  next
    case False
    then obtain ll l' lr where sl: "sl = Node ll l' lr" "color t l' = RBT_RED" "color t b = RBT_BLACK"
      using c by (cases sl) auto
    with l(6) have r: "left t b = l'" "l' \<noteq> nil t" by auto
    have n': "l' \<notin> set_tree T" "l' \<notin> set_tree sr" "l' \<notin> set_tree ll" "l' \<notin> set_tree lr" "l' \<noteq> b"
        "l' \<noteq> p" "b \<notin> set_tree ll" "b \<notin> set_tree lr" "p \<notin> set_tree ll" "p \<notin> set_tree lr"
        "l' \<notin> set (before C)" "l' \<notin> set (after C)"
      using dis unfolding sl(1) by auto
    define t1 where "t1 = set_color l' RBT_BLACK (set_color p RBT_BLACK (set_color b (color t p) t))"
    define t2 where "t2 = rightRotate t1 p"
    have "adjustAfterDelete t a = Some t2"
      using l c ch False r n n' sl by (subst adjustAfterDelete.simps) (simp add: Let_def t1_def t2_def)
    moreover have "same_data t t2"
      using l r i by (simp add: same_data_def t1_def t2_def)
    moreover have "focus t2 C b (Node sl b (Node sr p T))"
      using l(8) unfolding t2_def by (intro rightRotate_focus) (simp add: t1_def)
    moreover have "color t2 = (color t)(b := color t p, p := RBT_BLACK, l' := RBT_BLACK)"
      by (simp add: t1_def t2_def)
    ultimately show ?thesis
      using i n n' False sl unfolding patched_def s
      by (intro exI [of _ t2] conjI exI [of _ b] exI [of _ "Node sl b (Node sr p T)"]) auto
  qed
qed

lemma sibling_left:
  assumes d: "deficit t ((On_left, p, s) # C) a T"
  obtains sr b sl where "s = Node sl b sr" "right t p = b" "left t p = a" "parent t a = p"
    "p \<noteq> nil t" "b \<noteq> nil t" "repr t b (right t b) sr" "repr t b (left t b) sl"
    "focus t C p (Node T p (Node sl b sr))" "root t \<noteq> a" "color t a = RBT_BLACK" "b \<noteq> a"
proof -
  have f: "focus t ((On_left, p, s) # C) a T" "bh (color t) s = Suc (bh (color t) T)"
    and bl: "black (color t) T" "color t (nil t) = RBT_BLACK" and pa: "parent t a = p"
    using d by (auto simp: deficit_def)
  obtain sr b sl where s: "s = Node sl b sr" using f(2) by (cases s) auto
  have fp: "focus t C p (Node T p (Node sl b sr))" "left t p = a"
    using f(1) by (simp_all add: focus_left s)
  moreover have "color t a = RBT_BLACK"
    using color_ptr [of t p a T] f(1) bl by (simp add: focus_def)
  moreover have "right t p = b" "p \<noteq> nil t" "b \<noteq> nil t" "repr t b (right t b) sr"
      "repr t b (left t b) sl"
    using fp by (auto simp: focus_def)
  moreover have "b \<noteq> a"
    using nil_distinct(4) [OF fp(1)] focus_ptr [OF f(1)] \<open>b \<noteq> nil t\<close> by auto
  ultimately show thesis using that s pa root_not_focus [OF f(1)] by blast
qed

lemma delete_red_brother_left:
  assumes d: "deficit t ((On_left, p, s) # C) a T" and s: "s = Node sl b sr"
    and red: "color t b = RBT_RED"
  shows "\<exists>t'. adjustAfterDelete t a = Some t'
     \<and> patched t t' C (inorder T @ p # inorder s) (calm_inner (color t) sl)"
proof -
  obtain l where l: "right t p = b" "left t p = a" "parent t a = p" "p \<noteq> nil t" "b \<noteq> nil t"
    "repr t b (left t b) sl" "focus t C p (Node T p (Node sl b sr))" "root t \<noteq> a"
    "color t a = RBT_BLACK" "b \<noteq> a"
    by (rule sibling_left [OF d]) (use s in auto)
  obtain i: "invc (color t) T" "invh (color t) T" "color t p = RBT_BLACK" "black (color t) T"
    "invc (color t) sr" "invc (color t) sl" "invh (color t) sr" "invh (color t) sl"
    "bh (color t) sr = Suc (bh (color t) T)" "bh (color t) sl = Suc (bh (color t) T)"
    "black (color t) sr" "black (color t) sl" "cinvc (color t) C"
    "cinvh (color t) C (Suc (Suc (bh (color t) T)))" "color t (nil t) = RBT_BLACK"
    using d red by (cases "color t p") (auto simp: deficit_def s)
  from i(10) obtain rl r rr where sl: "sl = Node rr r rl" by (cases sl) auto
  with l(6) have r: "left t b = r" "r \<noteq> nil t" by auto
  define t1 where "t1 = set_color r RBT_RED (set_color b RBT_BLACK t)"
  have "adjustAfterDelete t a = Some (leftRotate t1 p)"
    using l red r by (subst adjustAfterDelete.simps) (simp add: Let_def t1_def)
  moreover have "focus (leftRotate t1 p) C b (Node (Node T p sl) b sr)"
    using l(7) by (intro leftRotate_focus) (simp add: t1_def)
  moreover have dis: "distinct (before C @ inorder (Node T p (Node sl b sr)) @ after C)"
    by (rule nil_distinct(4) [OF l(7)])
  have "b \<notin> set_tree T" "r \<notin> set_tree T" "r \<notin> set_tree sr" "b \<notin> set_tree sr" "b \<notin> set_tree rl"
    "b \<notin> set_tree rr" "r \<notin> set_tree rl" "r \<notin> set_tree rr" "b \<noteq> r" "b \<noteq> p" "r \<noteq> p"
    "b \<notin> set (before C)" "b \<notin> set (after C)" "r \<notin> set (before C)" "r \<notin> set (after C)"
    using dis by (auto simp: sl)
  moreover have "same_data t (leftRotate t1 p)"
    using l r by (simp add: same_data_def t1_def)
  ultimately show ?thesis
    using i unfolding patched_def s sl
    by (intro exI [of _ "leftRotate t1 p"] conjI exI [of _ b]
        exI [of _ "Node (Node T p (Node rr r rl)) b sr"]) (auto simp: t1_def)
qed

lemma delete_recolor_left:
  assumes d: "deficit t ((On_left, p, s) # C) a T" and s: "s = Node sl b sr"
    and c: "color t b = RBT_BLACK" "black (color t) sr" "black (color t) sl"
  shows "if color t p = RBT_RED
    then \<exists>t'. adjustAfterDelete t a = Some t' \<and> patched t t' C (inorder T @ p # inorder s) True
    else \<exists>t'. adjustAfterDelete t a = adjustAfterDelete t' p \<and> same_data t t'
      \<and> deficit t' C p (Node T p s) \<and> calm (color t') C = calm (color t) C"
proof -
  obtain l where l: "right t p = b" "left t p = a" "parent t a = p" "p \<noteq> nil t" "b \<noteq> nil t"
    "repr t b (right t b) sr" "repr t b (left t b) sl"
    "focus t C p (Node T p (Node sl b sr))" "root t \<noteq> a" "color t a = RBT_BLACK" "b \<noteq> a"
    by (rule sibling_left [OF d]) (use s in auto)
  obtain i: "invc (color t) T" "invh (color t) T" "black (color t) T"
    "invc (color t) sr" "invc (color t) sl" "invh (color t) sr" "invh (color t) sl"
    "bh (color t) sr = bh (color t) T" "bh (color t) sl = bh (color t) T"
    "cinvc (color t) C" "color t p = RBT_BLACK \<or> top_black (color t) C"
    "cinvh (color t) C (if color t p = RBT_BLACK then Suc (Suc (bh (color t) T)) else Suc (bh (color t) T))" 
    "color t (nil t) = RBT_BLACK"
    using d c by (auto simp: deficit_def s)
  have ch: "color t (right t b) = RBT_BLACK" "color t (left t b) = RBT_BLACK"
    using color_ptr [OF l(6)] color_ptr [OF l(7)] i(13) c by auto
  have dis: "distinct (before C @ inorder (Node T p (Node sl b sr)) @ after C)"
    by (rule nil_distinct(4) [OF l(8)])
  have n: "b \<notin> set_tree T" "b \<notin> set_tree sr" "b \<notin> set_tree sl" "b \<noteq> p" "p \<notin> set_tree T"
    "p \<notin> set_tree sr" "p \<notin> set_tree sl"
    "b \<notin> set (before C)" "b \<notin> set (after C)" "p \<notin> set (before C)" "p \<notin> set (after C)"
    using dis by auto
  define t1 where "t1 = set_color b RBT_RED t"
  show ?thesis
  proof (cases "color t p = RBT_RED")
    case True
    have "adjustAfterDelete t a = Some (set_color p RBT_BLACK t1)"
      using l c ch True n by (subst adjustAfterDelete.simps) (simp add: Let_def t1_def)
    moreover have "same_data t (set_color p RBT_BLACK t1)"
      using l i by (simp add: same_data_def t1_def)
    ultimately show ?thesis
      using i c n True l(8) unfolding patched_def s
      by (intro if_P [THEN iffD2] exI [of _ "set_color p RBT_BLACK t1"] conjI exI [of _ p]
        exI [of _ "Node T p (Node sl b sr)"]) (auto simp: t1_def)
  next
    case False
    have "adjustAfterDelete t a = adjustAfterDelete t1 p"
      using l c ch False n by (subst adjustAfterDelete.simps) (simp add: Let_def t1_def)
    moreover have "same_data t t1"
      using l i by (simp add: same_data_def t1_def)
    moreover have "deficit t1 C p (Node T p (Node sl b sr))"
      using i c n False l(5) [symmetric] l(8) parent_focus [OF l(8)] by (simp add: deficit_def t1_def)
    moreover have "calm (color t1) C = calm (color t) C"
      using n by (simp add: t1_def calm_upd)
    ultimately show ?thesis using False s by auto
  qed
qed

lemma delete_rotate_left:
  assumes d: "deficit t ((On_left, p, s) # C) a T" and s: "s = Node sl b sr"
    and c: "color t b = RBT_BLACK" "\<not> (black (color t) sr \<and> black (color t) sl)"
  shows "\<exists>t'. adjustAfterDelete t a = Some t' \<and> patched t t' C (inorder T @ p # inorder s) True"
proof -
  obtain l where l: "right t p = b" "left t p = a" "parent t a = p" "p \<noteq> nil t" "b \<noteq> nil t"
    "repr t b (right t b) sr" "repr t b (left t b) sl"
    "focus t C p (Node T p (Node sl b sr))" "root t \<noteq> a" "color t a = RBT_BLACK" "b \<noteq> a"
    by (rule sibling_left [OF d]) (use s in auto)
  obtain i: "invc (color t) T" "invh (color t) T" "black (color t) T"
    "invc (color t) sr" "invc (color t) sl" "invh (color t) sr" "invh (color t) sl"
    "bh (color t) sr = bh (color t) T" "bh (color t) sl = bh (color t) T"
    "cinvc (color t) C" "color t p = RBT_BLACK \<or> top_black (color t) C"
    "cinvh (color t) C (if color t p = RBT_BLACK then Suc (Suc (bh (color t) T)) else Suc (bh (color t) T))" 
    "color t (nil t) = RBT_BLACK"
    using d c by (auto simp: deficit_def s)
  have ch: "color t (right t b) = RBT_BLACK \<longleftrightarrow> black (color t) sr"
      "color t (left t b) = RBT_BLACK \<longleftrightarrow> black (color t) sl"
    using color_ptr [OF l(6)] color_ptr [OF l(7)] i(13) by auto
  have dis: "distinct (before C @ inorder (Node T p (Node sl b sr)) @ after C)"
    by (rule nil_distinct(4) [OF l(8)])
  have n: "b \<notin> set_tree T" "b \<notin> set_tree sr" "b \<notin> set_tree sl" "b \<noteq> p" "p \<notin> set_tree T"
    "p \<notin> set_tree sr" "p \<notin> set_tree sl"
    "b \<notin> set (before C)" "b \<notin> set (after C)" "p \<notin> set (before C)" "p \<notin> set (after C)"
    using dis by auto
  show ?thesis
  proof (cases "black (color t) sr")
    case True
    then obtain rl r rr where sl: "sl = Node rr r rl" "color t r = RBT_RED" "color t b = RBT_BLACK"
      using c by (cases sl) auto
    with l(7) have r: "left t b = r" "r \<noteq> nil t" by auto
    have n': "r \<notin> set_tree T" "r \<notin> set_tree sr" "r \<notin> set_tree rl" "r \<notin> set_tree rr" "r \<noteq> b"
        "r \<noteq> p" "b \<notin> set_tree rl" "b \<notin> set_tree rr" "p \<notin> set_tree rl" "p \<notin> set_tree rr"
        "r \<notin> set (before C)" "r \<notin> set (after C)"
      using dis unfolding sl(1) by auto
    define t1 where "t1 = set_color r RBT_BLACK (set_color b (color t p) t)"
    define t2 where "t2 = leftRotate (rightRotate t1 b) p"
    have "adjustAfterDelete t a = Some t2"
      using l c ch True r n' sl by (subst adjustAfterDelete.simps) (simp add: Let_def t1_def t2_def)
    moreover have "same_data t t2"
      using l r i by (simp add: same_data_def t1_def t2_def)
    moreover have "focus t1 ((On_right, p, T) # C) b (Node (Node rr r rl) b sr)"
      using l(8) l(1) sl by (simp add: focus_right t1_def)
    then have "focus (rightRotate t1 b) ((On_right, p, T) # C) r (Node rr r (Node rl b sr))"
      by (rule rightRotate_focus)
    then have "focus t2 C r (Node (Node T p rr) r (Node rl b sr))"
      unfolding t2_def by (intro leftRotate_focus) (simp add: focus_right)
    moreover have "color t2 = (color t)(b := color t p, r := RBT_BLACK)"
      by (simp add: t1_def t2_def)
    ultimately show ?thesis
      using i n n' True sl unfolding patched_def s
      by (intro exI [of _ t2] conjI exI [of _ r] exI [of _ "Node (Node T p rr) r (Node rl b sr)"]) auto
  next
    case False
    then obtain ll l' lr where sr: "sr = Node lr l' ll" "color t l' = RBT_RED" "color t b = RBT_BLACK"
      using c by (cases sr) auto
    with l(6) have r: "right t b = l'" "l' \<noteq> nil t" by auto
    have n': "l' \<notin> set_tree T" "l' \<notin> set_tree sl" "l' \<notin> set_tree ll" "l' \<notin> set_tree lr" "l' \<noteq> b"
        "l' \<noteq> p" "b \<notin> set_tree ll" "b \<notin> set_tree lr" "p \<notin> set_tree ll" "p \<notin> set_tree lr"
        "l' \<notin> set (before C)" "l' \<notin> set (after C)"
      using dis unfolding sr(1) by auto
    define t1 where "t1 = set_color l' RBT_BLACK (set_color p RBT_BLACK (set_color b (color t p) t))"
    define t2 where "t2 = leftRotate t1 p"
    have "adjustAfterDelete t a = Some t2"
      using l c ch False r n n' sr by (subst adjustAfterDelete.simps) (simp add: Let_def t1_def t2_def)
    moreover have "same_data t t2"
      using l r i by (simp add: same_data_def t1_def t2_def)
    moreover have "focus t2 C b (Node (Node T p sl) b sr)"
      using l(8) unfolding t2_def by (intro leftRotate_focus) (simp add: t1_def)
    moreover have "color t2 = (color t)(b := color t p, p := RBT_BLACK, l' := RBT_BLACK)"
      by (simp add: t1_def t2_def)
    ultimately show ?thesis
      using i n n' False sr unfolding patched_def s
      by (intro exI [of _ t2] conjI exI [of _ b] exI [of _ "Node (Node T p sl) b sr"]) auto
  qed
qed

lemma patched_weaken: "patched t t' C as q \<Longrightarrow> (q' \<longrightarrow> q) \<Longrightarrow> patched t t' C as q'"
  by (auto simp: patched_def)

lemma rebuilt_trans: "same_data t t1 \<Longrightarrow> rebuilt t1 t2 as q \<Longrightarrow> rebuilt t t2 as q"
  by (auto simp: rebuilt_def dest: same_data_trans)

lemma adjust_delete_step:
  assumes d: "deficit t (d # C) a T"
  shows "(\<exists>t'. adjustAfterDelete t a = Some t'
         \<and> rebuilt t t' (before (d # C) @ inorder T @ after (d # C)) (calm (color t) (d # C)))
    \<or> (\<exists>t' p T'. adjustAfterDelete t a = adjustAfterDelete t' p \<and> same_data t t' \<and> deficit t' C p T'
         \<and> (calm (color t) (d # C) \<longrightarrow> calm (color t') C)
         \<and> before C @ inorder T' @ after C = before (d # C) @ inorder T @ after (d # C))"
    (is "?done \<or> ?up")
proof -
  obtain e p s where dd: "d = (e, p, s)" by (cases d) auto
  obtain sl b sr where s: "s = Node sl b sr"
    using d dd by (cases s) (auto simp: deficit_def)
  show ?thesis
  proof (cases e)
    case On_right
    note d' = d [unfolded dd On_right] and as = before.simps(3) after.simps(3) dd On_right
    consider "color t b = RBT_RED" | "color t b = RBT_BLACK" "black (color t) sl" "black (color t) sr"
      | "color t b = RBT_BLACK" "\<not> (black (color t) sl \<and> black (color t) sr)"
      by (cases "color t b") auto
    then show ?thesis
    proof cases
      case 1
      then have "calm (color t) (d # C) \<longrightarrow> calm_inner (color t) sr" by (simp add: dd On_right s)
      with delete_red_brother_right [OF d' s 1] patched_weaken
      obtain t' where "adjustAfterDelete t a = Some t'"
        "patched t t' C (inorder s @ p # inorder T) (calm (color t) (d # C))" by blast
      with patched_rebuilt have ?done unfolding as by force
      then show ?thesis ..
    next
      case 2
      show ?thesis
      proof (cases "color t p = RBT_RED")
        case True
        with delete_recolor_right [OF d' s 2]
        obtain t' where "adjustAfterDelete t a = Some t'" "patched t t' C (inorder s @ p # inorder T) True" by auto
        then have "adjustAfterDelete t a = Some t'"
          "patched t t' C (inorder s @ p # inorder T) (calm (color t) (d # C))" by (auto intro: patched_weaken)
        with patched_rebuilt have ?done unfolding as by force
        then show ?thesis ..
      next
        case False
        with delete_recolor_right [OF d' s 2]
        obtain t' where "adjustAfterDelete t a = adjustAfterDelete t' p" "same_data t t'"
          "deficit t' C p (Node s p T)" "calm (color t') C = calm (color t) C"
          by (auto split: if_splits)
        then have ?up unfolding as s by (intro exI [of _ t'] exI [of _ p] exI [of _ "Node s p T"]) (auto simp: s)
        then show ?thesis ..
      qed
    next
      case 3
      with delete_rotate_right [OF d' s 3] patched_weaken
      obtain t' where "adjustAfterDelete t a = Some t'"
        "patched t t' C (inorder s @ p # inorder T) (calm (color t) (d # C))" by blast
      with patched_rebuilt have ?done unfolding as by force
      then show ?thesis ..
    qed
  next
    case On_left
    note d' = d [unfolded dd On_left] and as = before.simps(2) after.simps(2) dd On_left
    consider "color t b = RBT_RED" | "color t b = RBT_BLACK" "black (color t) sr" "black (color t) sl"
      | "color t b = RBT_BLACK" "\<not> (black (color t) sr \<and> black (color t) sl)"
      by (cases "color t b") auto
    then show ?thesis
    proof cases
      case 1
      then have "calm (color t) (d # C) \<longrightarrow> calm_inner (color t) sl" by (simp add: dd On_left s)
      with delete_red_brother_left [OF d' s 1] patched_weaken
      obtain t' where "adjustAfterDelete t a = Some t'"
        "patched t t' C (inorder T @ p # inorder s) (calm (color t) (d # C))" by blast
      with patched_rebuilt have ?done unfolding as by force
      then show ?thesis ..
    next
      case 2
      show ?thesis
      proof (cases "color t p = RBT_RED")
        case True
        with delete_recolor_left [OF d' s 2]
        obtain t' where "adjustAfterDelete t a = Some t'" "patched t t' C (inorder T @ p # inorder s) True" by auto
        then have "adjustAfterDelete t a = Some t'"
          "patched t t' C (inorder T @ p # inorder s) (calm (color t) (d # C))" by (auto intro: patched_weaken)
        with patched_rebuilt have ?done unfolding as by force
        then show ?thesis ..
      next
        case False
        with delete_recolor_left [OF d' s 2]
        obtain t' where "adjustAfterDelete t a = adjustAfterDelete t' p" "same_data t t'"
          "deficit t' C p (Node T p s)" "calm (color t') C = calm (color t) C"
          by (auto split: if_splits)
        then have ?up unfolding as s by (intro exI [of _ t'] exI [of _ p] exI [of _ "Node T p s"]) (auto simp: s)
        then show ?thesis ..
      qed
    next
      case 3
      with delete_rotate_left [OF d' s 3] patched_weaken
      obtain t' where "adjustAfterDelete t a = Some t'"
        "patched t t' C (inorder T @ p # inorder s) (calm (color t) (d # C))" by blast
      with patched_rebuilt have ?done unfolding as by force
      then show ?thesis ..
    qed
  qed
qed

lemma adjust_delete:
  "deficit t C a T \<Longrightarrow> \<exists>t'. adjustAfterDelete t a = Some t'
     \<and> rebuilt t t' (before C @ inorder T @ after C) (calm (color t) C)"
proof (induction C arbitrary: t a T)
  case Nil
  then have "root t = a" "focus t [] a T" by (auto simp: deficit_def focus_def)
  then show ?case using Nil
    by (subst adjustAfterDelete.simps) (auto simp: deficit_def rebuilt_def same_data_def)
next
  case (Cons d C)
  from adjust_delete_step [OF Cons.prems] show ?case
  proof (elim disjE exE conjE)
    fix t' p T'
    assume *: "adjustAfterDelete t a = adjustAfterDelete t' p" "same_data t t'" "deficit t' C p T'"
      "calm (color t) (d # C) \<longrightarrow> calm (color t') C"
      "before C @ inorder T' @ after C = before (d # C) @ inorder T @ after (d # C)"
    from Cons.IH [OF *(3)] obtain t2 where t2: "adjustAfterDelete t' p = Some t2"
      "rebuilt t' t2 (before C @ inorder T' @ after C) (calm (color t') C)" by blast
    with *(4) have "rebuilt t' t2 (before C @ inorder T' @ after C) (calm (color t) (d # C))"
      by (auto simp: rebuilt_def)
    with *(1,2,5) t2(1) rebuilt_trans show ?thesis by metis
  qed blast
qed

text \<open>Unlinking a node with at most one child: the stores before the rebalancing.\<close>

definition detach :: "'d rbt_tree \<Rightarrow> addr \<Rightarrow> addr \<Rightarrow> 'd rbt_tree" where
  "detach t target succesor =
     (let par = parent t target;
          t = set_parent succesor par t;
          t = (if par = nil t then t\<lparr>root := succesor\<rparr>
               else if left t par = target then set_left par succesor t
               else set_right par succesor t)
      in set_color succesor RBT_BLACK t)"

lemma detach_fields [simp]:
  "key (detach t x a) = key t" "data (detach t x a) = data t" "nil (detach t x a) = nil t"
  "swapData (detach t x a) = swapData t" "color (detach t x a) = (color t)(a := RBT_BLACK)"
  "parent (detach t x a) = (parent t)(a := parent t x)" "above (detach t x a) C = above t C"
  by (auto simp: detach_def Let_def)

lemma detach_mem:
  "root (detach t x a) = (if parent t x = nil t then a else root t)"
  "left (detach t x a) = (if parent t x \<noteq> nil t \<and> left t (parent t x) = x
     then (left t)(parent t x := a) else left t)"
  "right (detach t x a) = (if parent t x \<noteq> nil t \<and> left t (parent t x) \<noteq> x
     then (right t)(parent t x := a) else right t)"
  by (auto simp: detach_def Let_def)

lemma unlink_detach:
  "unlink_node t x = (let a = (if left t x \<noteq> nil t then left t x
                           else if right t x \<noteq> nil t then right t x else nil t);
                          t' = detach t x a
     in (if a = nil t' \<and> color t' x = RBT_BLACK then adjustAfterDelete t' a else Some t')
          \<bind> (\<lambda>t. Some (x, t)))"
  by (simp add: unlink_node_def detach_def Let_def)

lemma detach_focus:
  assumes f: "focus t C x (Node L x R)"
    and S: "L = Leaf \<and> S = R \<and> a = right t x \<or> R = Leaf \<and> S = L \<and> a = left t x"
  shows "focus (detach t x a) C a S"
proof -
  have m: "parent t x = above t C" "repr t x a S" "crepr t C x" "x \<noteq> nil t"
    using f S by (auto simp: focus_def)
  have dis: "distinct (before C @ inorder L @ x # inorder R @ after C)"
    using nil_distinct(4) [OF f] by simp
  have nC: "nil t \<notin> set (before C)" "nil t \<notin> set (after C)" by (rule nil_distinct [OF f])+
  have S2: "set_tree S = set_tree L \<union> set_tree R" "inorder S = inorder L @ inorder R" using S by auto
  have a: "a = nil t \<or> a \<in> set_tree S" using m(2) by (cases S) auto
  have p: "above t C \<notin> set_tree S" using above_notin [OF f] S2 by auto
  have aC: "a \<notin> set (before C)" "a \<notin> set (after C)" using a nC dis S2 by auto
  have rS: "repr (detach t x a) (above t C) a S"
  proof (cases S)
    case Leaf
    with m show ?thesis by simp
  next
    case (Node S1 y S2)
    have "y = a" using Node m(2) by simp
    have "distinct (inorder S)" using dis S2 by auto
    then have y: "y \<notin> set_tree S1" "y \<notin> set_tree S2" "above t C \<notin> set_tree S1"
        "above t C \<notin> set_tree S2" using Node p by auto
    have "repr (detach t x a) y b S1 = repr t y b S1" "repr (detach t x a) y b S2 = repr t y b S2" for b
      by (rule repr_cong; use y \<open>y = a\<close> m(1) in \<open>auto simp: detach_mem\<close>)+
    with Node m(1,2) p show ?thesis by (auto simp: detach_mem)
  qed
  moreover have "crepr (detach t x a) C a"
  proof (cases C rule: before.cases)
    case 1
    with m show ?thesis by (simp add: detach_mem)
  next
    case (2 p s C')
    then have "repr (detach t x a) p (right t p) s = repr t p (right t p) s"
      using aC dis m(1) by (intro repr_cong) (auto simp: detach_mem)
    moreover have "crepr (detach t x a) C' p = crepr t C' p"
      using 2 aC dis m(1,3) by (intro crepr_cong) (auto simp: detach_mem)
    ultimately show ?thesis using 2 m aC by (auto simp: detach_mem)
  next
    case (3 p s C')
    then have "repr (detach t x a) p (left t p) s = repr t p (left t p) s"
      using aC dis m(1) by (intro repr_cong) (auto simp: detach_mem)
    moreover have "crepr (detach t x a) C' p = crepr t C' p"
      using 3 aC dis m(1,3) by (intro crepr_cong) (auto simp: detach_mem)
    moreover have "left t p \<noteq> x" using m(3,4) dis 3 by (cases s) auto
    ultimately show ?thesis using 3 m aC by (auto simp: detach_mem)
  qed
  ultimately show ?thesis using dis S2 by (simp add: focus_def)
qed

lemma unlink_leaf_black:
  assumes d: "deficit (detach t x (nil t)) C (nil t) Leaf" and x: "left t x = nil t" "right t x = nil t"
    and c: "color t x = RBT_BLACK" "x \<noteq> nil t" "color t (nil t) = RBT_BLACK" 
    and n: "nil t \<notin> set (before C)" "nil t \<notin> set (after C)"
  shows "\<exists>t'. unlink_node t x = Some (x, t') \<and> rebuilt t t' (before C @ after C) (calm (color t) C)"
proof -
  from adjust_delete [OF d] n obtain t' where t': "adjustAfterDelete (detach t x (nil t)) (nil t) = Some t'"
    "rebuilt (detach t x (nil t)) t' (before C @ after C) (calm (color t) C)"
    by (auto simp: calm_upd)
  have "same_data t (detach t x (nil t))" using c by (simp add: same_data_def)
  with t' rebuilt_trans have "rebuilt t t' (before C @ after C) (calm (color t) C)" by blast
  with t'(1) x c show ?thesis by (simp add: unlink_detach Let_def)
qed

lemma unlink_spec:
  assumes f: "focus t C x (Node L x R)" and one: "L = Leaf \<or> R = Leaf"
    and b: "color t (nil t) = RBT_BLACK" "invc (color t) (Node L x R)" "invh (color t) (Node L x R)"
      "cinvc (color t) C" "cinvh (color t) C (bh (color t) (Node L x R))"
      "color t x = RBT_BLACK \<or> top_black (color t) C"
  shows "\<exists>t'. unlink_node t x = Some (x, t')
     \<and> rebuilt t t' (before C @ inorder L @ inorder R @ after C) (calm (color t) C)"
proof -
  define S where "S = (if L = Leaf then R else L)"
  define a where "a = (if left t x \<noteq> nil t then left t x else if right t x \<noteq> nil t then right t x else nil t)"
  have m: "repr t x (left t x) L" "repr t x (right t x) R" "x \<noteq> nil t" "parent t x = above t C"
    using f by (auto simp: focus_def)
  have lr: "left t x = nil t \<longleftrightarrow> L = Leaf" "right t x = nil t \<longleftrightarrow> R = Leaf"
    using repr_nil_iff m by blast+
  have "L = Leaf \<and> S = R \<and> a = right t x \<or> R = Leaf \<and> S = L \<and> a = left t x"
    using one lr by (auto simp: S_def a_def)
  then have fd: "focus (detach t x a) C a S" by (rule detach_focus [OF f])
  have dis: "distinct (before C @ inorder L @ x # inorder R @ after C)"
    using nil_distinct(4) [OF f] by simp
  have nC: "nil t \<notin> set (before C)" "nil t \<notin> set (after C)" by (rule nil_distinct [OF f])+
  show ?thesis
  proof (cases S)
    case Leaf
    then have LR: "L = Leaf" "R = Leaf" "a = nil t" "left t x = nil t" "right t x = nil t"
      using one lr by (auto simp: S_def a_def split: if_splits)
    show ?thesis
    proof (cases "color t x = RBT_BLACK")
      case True
      have "deficit (detach t x (nil t)) C (nil t) Leaf"
        using fd b nC True LR m(4) Leaf by (simp add: deficit_def)
      from unlink_leaf_black [OF this LR(4,5) True m(3) b(1) nC] LR show ?thesis by simp
    next
      case False
      have "unlink_node t x = Some (x, detach t x (nil t))"
        using LR False m(3) by (simp add: unlink_detach Let_def)
      moreover have "patched t (detach t x (nil t)) C [] (calm (color t) C)"
        unfolding patched_def using fd LR Leaf b nC False
        by (intro exI [of _ "nil t"] exI [of _ Leaf]) (auto simp: same_data_def)
      ultimately show ?thesis using patched_rebuilt LR by fastforce
    qed
  next
    case (Node S1 y S2)
    then have y: "y = a" "a \<noteq> nil t" using fd by (auto simp: focus_def)
    have S: "inorder S = inorder L @ inorder R" "set_tree S = set_tree L \<union> set_tree R" using one by (auto simp: S_def)
    then have dS: "distinct (inorder S)" "x \<notin> set_tree S" "set_tree S \<inter> set (before C @ after C) = {}" using dis by auto
    then have n: "a \<notin> set_tree S1" "a \<notin> set_tree S2" "a \<noteq> x" "a \<notin> set (before C)" "a \<notin> set (after C)"
      using Node y by auto
    have hS: "bh (color t) S = 0" "invc (color t) S" "invh (color t) S"
      "color t x = RBT_RED \<Longrightarrow> black (color t) S"
      using b(2,3) one by (auto simp: S_def)
    then have cx: "color t x = RBT_BLACK" and ca: "color t a = RBT_RED"
      using Node y by (cases "color t x"; cases "color t a"; auto)+
    have h: "bh (color t) S1 = 0" "invc (color t) S1" "invc (color t) S2" "invh (color t) S1" 
      "invh (color t) S2" "bh (color t) S2 = 0" using hS ca Node y by auto
    have "bh (color t) (Node L x R) = Suc 0"
      using cx hS one b(3) by (auto simp: S_def split: if_splits)
    with b have cC: "cinvh (color t) C (Suc 0)" by simp
    have "unlink_node t x = Some (x, detach t x a)"
      using y(2) by (simp add: unlink_detach Let_def flip: a_def)
    moreover have "patched t (detach t x a) C (inorder S) (calm (color t) C)"
      unfolding patched_def using fd Node b h n cC y
      by (intro exI [of _ a] exI [of _ S]) (auto simp: same_data_def)
    ultimately show ?thesis using patched_rebuilt S by fastforce
  qed
qed

lemma focus_at:
  assumes "focus t C a T" and "x \<in> set_tree T"
  shows "\<exists>C' L R. focus t C' x (Node L x R) \<and> plug C' (Node L x R) = plug C T"
  using assms
proof (induction T arbitrary: C a)
  case (Node l y r)
  then have y: "a = y" by (auto simp: focus_def)
  from Node.prems(2) consider "x = y" | "x \<in> set_tree l" | "x \<in> set_tree r" by auto
  then show ?case
  proof cases
    case 1
    with Node.prems y show ?thesis by blast
  next
    case 2
    have "focus t ((On_left, y, r) # C) (left t y) l" using Node.prems y by (simp add: focus_left)
    from Node.IH(1) [OF this 2] show ?thesis by simp
  next
    case 3
    have "focus t ((On_right, y, l) # C) (right t y) r" using Node.prems y by (simp add: focus_right)
    from Node.IH(2) [OF this 3] show ?thesis by simp
  qed
qed simp


lemma leftmost_spec:
  assumes "focus t C a T" and "T \<noteq> Leaf"
  shows "\<exists>C' y R. leftmost_while t a = Some y \<and> focus t C' y (Node Leaf y R)
     \<and> plug C' (Node Leaf y R) = plug C T \<and> before C' = before C"
  using assms
proof (induction T arbitrary: C a)
  case (Node l x r)
  then have x: "a = x" "left t x = nil t \<longleftrightarrow> l = Leaf" "focus t C x (Node l x r)"
    using repr_nil_iff [of t x "left t x" l] by (auto simp: focus_def)
  show ?case
  proof (cases l)
    case Leaf
    with x have "leftmost_while t a = Some x" by (subst leftmost_while.simps) simp
    with x Leaf show ?thesis by blast
  next
    case (Node l1 y l2)
    have "focus t ((On_left, x, r) # C) (left t x) l" using x by (simp add: focus_left)
    moreover have "leftmost_while t a = leftmost_while t (left t x)"
      using x Node by (subst leftmost_while.simps) simp
    ultimately show ?thesis using Node.IH(1) [of "(On_left, x, r) # C" "left t x"] Node by auto
  qed
qed simp

lemma red_black_focus:
  assumes "red_black t T" and "focus t C x S" and "plug C S = T"
  shows "color t (nil t) = RBT_BLACK" "invc (color t) S" "invh (color t) S" "cinvc (color t) C"
    "cinvh (color t) C (bh (color t) S)" "black (color t) S \<or> top_black (color t) C"
  using assms invc_plugD [of "color t" C S] invh_plug [of "color t" C S]
  by (auto simp: red_black_def search_tree_def)

text \<open>No red node has an inner child with a red child, anywhere in the tree.\<close>

fun outer :: "(addr \<Rightarrow> RBT_COLOR) \<Rightarrow> side \<Rightarrow> addr tree \<Rightarrow> bool" where
  "outer c e Leaf \<longleftrightarrow> True"
| "outer c On_left (Node l x r) \<longleftrightarrow> c x = RBT_RED \<longrightarrow> calm_inner c l"
| "outer c On_right (Node l x r) \<longleftrightarrow> c x = RBT_RED \<longrightarrow> calm_inner c r"

fun calm_tree :: "(addr \<Rightarrow> RBT_COLOR) \<Rightarrow> addr tree \<Rightarrow> bool" where
  "calm_tree c Leaf \<longleftrightarrow> True"
| "calm_tree c (Node l x r) \<longleftrightarrow>
     outer c On_right l \<and> outer c On_left r \<and> calm_tree c l \<and> calm_tree c r"

lemma calm_plugD: "calm_tree c (plug C T) \<Longrightarrow> calm_tree c T \<and> calm c C"
proof (induction C T rule: plug.induct)
  case (2 p s C T)
  then show ?case by (cases s) auto
next
  case (3 p s C T)
  then show ?case by (cases s) auto
qed simp

definition swaps :: "'d rbt_tree \<Rightarrow> bool" where
  "swaps t \<longleftrightarrow> (\<forall>x y d. swapData t x y d = d(x := d y, y := d x))"

abbreviation entry :: "'d rbt_tree \<Rightarrow> addr \<Rightarrow> KEY_TYPE \<times> 'd" where
  "entry t x \<equiv> (key t x, data t x)"

definition deleted :: "'d rbt_tree \<Rightarrow> addr tree \<Rightarrow> addr \<Rightarrow> addr \<Rightarrow> 'd rbt_tree \<Rightarrow> addr tree \<Rightarrow> bool" where
  "deleted t T x y t' T' \<longleftrightarrow> y \<in> set_tree T \<and> set_tree T' = set_tree T - {y}
     \<and> entry t' y = entry t x
     \<and> map (entry t') (inorder T') = map (entry t) (remove1 x (inorder T))
     \<and> search_tree t' T' \<and> black (color t') T' \<and> invh (color t') T'
     \<and> nil t' = nil t \<and> swapData t' = swapData t
     \<and> (calm_tree (color t) T \<longrightarrow> red_black t' T')"

lemma swapNode_fields [simp]:
  "color (swapNode t x y) = color t" "nil (swapNode t x y) = nil t" "root (swapNode t x y) = root t"
  "left (swapNode t x y) = left t" "right (swapNode t x y) = right t" 
  "parent (swapNode t x y) = parent t" "swapData (swapNode t x y) = swapData t"
  "above (swapNode t x y) C = above t C" "focus (swapNode t x y) C a T = focus t C a T"
  by (simp_all add: swapNode_def Let_def)

lemma swapNode_entry:
  "swaps t \<Longrightarrow> entry (swapNode t x y) z = entry t (if z = x then y else if z = y then x else z)"
  by (auto simp: swapNode_def Let_def swaps_def)

lemma sorted_remove1:
  "sorted_wrt R (map f xs) \<Longrightarrow> sorted_wrt R (map f (remove1 x xs))"
proof (induction xs)
  case (Cons a xs)
  moreover have "set (remove1 x xs) \<subseteq> set xs" by (rule set_remove1_subset)
  ultimately show ?case by auto
qed simp

lemma deletedI:
  assumes rb: "red_black t T" and xy: "x \<in> set_tree T" "y \<in> set_tree T" and sw: "swaps t"
    and f: "focus (swapNode t x y) C y (Node L y R)" "L = Leaf \<or> R = Leaf" "plug C (Node L y R) = T"
    and e: "map (entry (swapNode t x y)) (before C @ inorder L @ inorder R @ after C)
       = map (entry t) (remove1 x (inorder T))"
  shows "\<exists>t' T'. unlink_node (swapNode t x y) y = Some (y, t') \<and> deleted t T x y t' T'"
proof -
  define t0 where "t0 = swapNode t x y"
  define as where "as = before C @ inorder L @ inorder R @ after C"
  have "focus t C y (Node L y R)" using f(1) by simp
  note b = red_black_focus [OF rb this f(3)]
  have "\<exists>t'. unlink_node t0 y = Some (y, t') \<and> rebuilt t0 t' as (calm (color t0) C)"
    using f(1,2) b unfolding t0_def as_def by (intro unlink_spec) (auto simp: not_black)
  then obtain t' T' where t': "unlink_node t0 y = Some (y, t')" "focus t' [] (root t') T'"
      "inorder T' = as" "black (color t') T'" "invh (color t') T'"
      "calm (color t) C \<longrightarrow> invc (color t') T'" "same_data t0 t'"
    by (auto simp: rebuilt_def t0_def)
  have ent: "entry t' z = entry t0 z" for z using t'(7) by (simp add: same_data_def)
  have m: "map (entry t') (inorder T') = map (entry t) (remove1 x (inorder T))"
    using e unfolding t'(3) as_def [symmetric] ent by (simp add: ent flip: t0_def)
  have so: "sorted_wrt (<) (map (key t) (inorder T))"
    using rb by (simp add: red_black_def search_tree_def)
  have "map (key t') (inorder T') = map (key t) (remove1 x (inorder T))"
    using arg_cong [OF m, of "map fst"] by (simp add: comp_def)
  then have st: "search_tree t' T'"
    using t'(2,7) b(1) sorted_remove1 [OF so] by (simp add: search_tree_def same_data_def t0_def)
  have T: "inorder T = before C @ inorder L @ y # inorder R @ after C"
    using inorder_plug [of C "Node L y R"] f(3) by simp
  have "distinct (inorder T)" using rb by (simp add: red_black_def search_tree_def focus_def)
  then have "set as = set (inorder T) - {y}" unfolding T as_def by auto
  then have "set_tree T' = set_tree T - {y}" using t'(3) by (metis set_inorder)
  moreover have "entry t' y = entry t x"
    using swapNode_entry [OF sw, of x y y] ent [of y] by (auto simp: t0_def split: if_splits)
  moreover have "calm_tree (color t) T \<longrightarrow> red_black t' T'"
    using calm_plugD [of "color t" C "Node L y R"] f(3) st t' by (auto simp: red_black_def)
  ultimately have "deleted t T x y t' T'"
    using m st t' xy by (simp add: deleted_def same_data_def t0_def)
  with t'(1) show ?thesis unfolding t0_def by blast
qed

lemma swapNode_self: "swaps t \<Longrightarrow> swapNode t x x = t"
  by (simp add: swapNode_def Let_def swaps_def)

lemma delete_spec:
  assumes rb: "red_black t T" and x: "x \<in> set_tree T" and sw: "swaps t"
  shows "\<exists>y t' T'. RBT_deleteNode t x = Some (y, t') \<and> deleted t T x y t' T'"
proof -
  have fr: "focus t [] (root t) T" using rb by (simp add: red_black_def search_tree_def)
  from focus_at [OF this x] obtain C L R where f: "focus t C x (Node L x R)" "plug C (Node L x R) = T"
    by auto
  have T: "inorder T = before C @ inorder L @ x # inorder R @ after C"
    using inorder_plug [of C "Node L x R"] f(2) by simp
  have dis: "distinct (inorder T)" using fr by (simp add: focus_def)
  have lr: "left t x = nil t \<longleftrightarrow> L = Leaf" "right t x = nil t \<longleftrightarrow> R = Leaf" "x \<noteq> nil t"
    using f(1) repr_nil_iff [of t x "left t x" L] repr_nil_iff [of t x "right t x" R]
    by (auto simp: focus_def)
  show ?thesis
  proof (cases "R = Leaf")
    case True
    have r1: "remove1 x (inorder T) = before C @ inorder L @ inorder R @ after C"
      using dis unfolding T by (simp add: remove1_append)
    have "\<exists>t' T'. unlink_node (swapNode t x x) x = Some (x, t') \<and> deleted t T x x t' T'"
      using f True x by (intro deletedI [OF rb x x sw, of C L R]) (simp_all add: swapNode_self sw r1)
    moreover have "RBT_deleteNode t x = unlink_node (swapNode t x x) x"
      using lr True by (simp add: RBT_deleteNode_def getSuccessor_def swapNode_self sw)
    ultimately show ?thesis by auto
  next
    case False
    have "focus t ((On_right, x, L) # C) (right t x) R" using f(1) by (simp add: focus_right)
    from leftmost_spec [OF this False] obtain C' y R' where y: "leftmost_while t (right t x) = Some y"
      "focus t C' y (Node Leaf y R')" "plug C' (Node Leaf y R') = T"
      "before C' = before C @ inorder L @ [x]" using f(2) by auto
    have T': "inorder T = before C @ inorder L @ x # y # inorder R' @ after C'"
      using inorder_plug [of C' "Node Leaf y R'"] y(3,4) by simp
    have d: "distinct (before C @ inorder L @ x # y # inorder R' @ after C')"
      using dis unfolding T' .
    have r1: "remove1 x (inorder T) = before C @ inorder L @ y # inorder R' @ after C'"
      using d unfolding T' by (simp add: remove1_append)
    have yT: "y \<in> set_tree T" using T' set_inorder [of T] by auto
    have en: "entry (swapNode t x y) x = entry t y" 
      "map (entry (swapNode t x y)) zs = map (entry t) zs" if "x \<notin> set zs" "y \<notin> set zs" for zs
      using that by (auto simp: swapNode_entry [OF sw] simp del: Product_Type.prod.inject)
    have "\<exists>t' T'. unlink_node (swapNode t x y) y = Some (y, t') \<and> deleted t T x y t' T'"
      using y d
      by (intro deletedI [OF rb x yT sw, of C' Leaf R']) 
        (simp_all add: r1 en(1) [of "[]"] en(2) [of "before C"] en(2) [of "inorder L"] en(2) [of "inorder R'"] en(2) [of "after C'"]
           del: Product_Type.prod.inject)
    moreover have "RBT_deleteNode t x = unlink_node (swapNode t x y) y"
      using lr False y(1) by (simp add: RBT_deleteNode_def getSuccessor_def)
    ultimately show ?thesis by auto
  qed
qed

end
