(* ===== verification/Rbtree_App.thy ===== *)
theory Rbtree_App
  imports Rbtree_Delete
begin

text \<open>
  \<^verbatim>\<open>1_rbtree/rbt_appDemo.c\<close>, the program that keeps its nodes in the tree, and the
  properties of the tree as a whole. The interface the program relies on is the locale
  \<open>lookup_index\<close> (finding a node by key) and its extension \<open>node_index\<close> (adding
  one), interpreted on the operations of \<^verbatim>\<open>rbtree.c\<close>.
\<close>

subsection \<open>The demo program\<close>

text \<open>\<open>m\<close> is what \<^verbatim>\<open>malloc\<close> returns for the node.\<close>

definition APP_createNewNode ::
  "addr option \<Rightarrow> KEY_TYPE \<Rightarrow> 'd rbt_tree \<Rightarrow> addr option \<times> 'd rbt_tree" where
  "APP_createNewNode m k t =
     (case m of None \<Rightarrow> (None, t) | Some node \<Rightarrow> (Some node, t\<lparr>key := (key t)(node := k)\<rparr>))"

definition APP_insertNode ::
  "addr option \<Rightarrow> 'd rbt_tree \<Rightarrow> KEY_TYPE \<Rightarrow> (addr option \<times> 'd rbt_tree) option" where
  "APP_insertNode m t k =
     (case APP_createNewNode m k t of
        (None, t) \<Rightarrow> Some (None, t)
      | (Some newNode, t) \<Rightarrow> RBT_insertNode t newNode \<bind> (\<lambda>(_, t). Some (Some newNode, t)))"

text \<open>The \<^verbatim>\<open>for\<close> loop of \<^verbatim>\<open>APP_initTree\<close>, over the operation that inserts one key.\<close>

fun insert_for :: "(addr option \<Rightarrow> 't \<Rightarrow> KEY_TYPE \<Rightarrow> (addr option \<times> 't) option)
    \<Rightarrow> addr option list \<Rightarrow> 't \<Rightarrow> KEY_TYPE list \<Rightarrow> 't option" where
  "insert_for ins (m # ms) t (k # ks) = ins m t k \<bind> (\<lambda>(_, t). insert_for ins ms t ks)"
| "insert_for ins ms t ks = Some t"

text \<open>The nodes that the loop gets from \<^verbatim>\<open>malloc\<close>, with their keys.\<close>

fun nodes_of :: "addr option list \<Rightarrow> KEY_TYPE list \<Rightarrow> (KEY_TYPE \<times> addr) list" where
  "nodes_of (Some a # ms) (k # ks) = (k, a) # nodes_of ms ks"
| "nodes_of (None # ms) (k # ks) = nodes_of ms ks"
| "nodes_of _ _ = []"

text \<open>The demo's \<^verbatim>\<open>_swapData\<close>, whose body is empty.\<close>

definition no_swap :: "addr \<Rightarrow> addr \<Rightarrow> (addr \<Rightarrow> 'd) \<Rightarrow> addr \<Rightarrow> 'd" where
  "no_swap n1 n2 d = d"

definition APP_initTree ::
  "addr option \<Rightarrow> addr option list \<Rightarrow> 'd rbt_tree \<Rightarrow> KEY_TYPE list \<Rightarrow> 'd rbt_tree option" where
  "APP_initTree m ms t ks =
     insert_for APP_insertNode ms ((snd (RBT_initTree t m))\<lparr>swapData := no_swap\<rparr>) ks"

definition APP_getData :: "'d rbt_tree \<Rightarrow> KEY_TYPE \<Rightarrow> 'd option option" where
  "APP_getData t k =
     RBT_search t k \<bind> (\<lambda>node. Some (if node = nil t then None else Some (data t node)))"

text \<open>The node given to \<^verbatim>\<open>free\<close>, if any, and the tree.\<close>

definition APP_delete :: "'d rbt_tree \<Rightarrow> KEY_TYPE \<Rightarrow> (addr option \<times> 'd rbt_tree) option" where
  "APP_delete t k =
     RBT_deleteNodeByKey t k \<bind> (\<lambda>(node, t). Some (if node \<noteq> nil t then Some node else None, t))"

subsection \<open>The interface: an index from keys to nodes\<close>

locale lookup_index =
  fixes rep :: "'t \<Rightarrow> (KEY_TYPE \<rightharpoonup> addr) \<Rightarrow> bool"
    and null :: "'t \<Rightarrow> addr"
    and find :: "'t \<Rightarrow> KEY_TYPE \<Rightarrow> addr option"
  assumes find_law: "rep t m \<Longrightarrow> find t k = Some (case m k of None \<Rightarrow> null t | Some a \<Rightarrow> a)"
    and null_law: "rep t m \<Longrightarrow> null t \<notin> ran m"
begin

lemma find_null_iff: "rep t m \<Longrightarrow> find t k = Some (null t) \<longleftrightarrow> k \<notin> dom m"
  using find_law [of t m k] null_law [of t m] by (auto simp: ran_def split: option.splits)

lemma get_value:
  "rep t m \<Longrightarrow> find t k \<bind> (\<lambda>n. Some (if n = null t then None else Some (val t n)))
     = Some (map_option (val t) (m k))"
  using find_law [of t m k] null_law [of t m] by (auto simp: ran_def split: option.splits)

end

locale node_index = lookup_index rep null find
  for rep :: "'t \<Rightarrow> (KEY_TYPE \<rightharpoonup> addr) \<Rightarrow> bool" and null find +
  fixes put :: "addr option \<Rightarrow> 't \<Rightarrow> KEY_TYPE \<Rightarrow> (addr option \<times> 't) option"
  assumes put_fail: "put None t k = Some (None, t)"
    and put_law: "rep t m \<Longrightarrow> a \<notin> ran m \<Longrightarrow> a \<noteq> null t \<Longrightarrow> \<exists>t'. put (Some a) t k = Some (Some a, t')
      \<and> null t' = null t \<and> rep t' (if k \<in> dom m then m else m(k \<mapsto> a))"
begin

text \<open>Inserting many keys: the first node given to a key stays its node.\<close>

lemma insert_for_spec:
  assumes "rep t m" and "distinct (map snd (nodes_of ms ks))"
    and "\<And>k a. (k, a) \<in> set (nodes_of ms ks) \<Longrightarrow> a \<notin> ran m \<and> a \<noteq> null t"
  shows "\<exists>t'. insert_for put ms t ks = Some t' \<and> null t' = null t
     \<and> rep t' (map_of (nodes_of ms ks) ++ m)"
  using assms
proof (induction ms ks arbitrary: t m rule: nodes_of.induct)
  case (1 a ms k ks)
  define m' where "m' = (if k \<in> dom m then m else m(k \<mapsto> a))"
  have "a \<notin> ran m" "a \<noteq> null t" using "1.prems"(3) [of k a] by simp_all
  from put_law [OF "1.prems"(1) this, of k] obtain t' where t': "put (Some a) t k = Some (Some a, t')"
    "null t' = null t" "rep t' m'" unfolding m'_def by blast
  have "ran m' \<subseteq> insert a (ran m)" by (auto simp: m'_def ran_def)
  moreover have "(k', a) \<notin> set (nodes_of ms ks)" for k' using "1.prems"(2) by force
  ultimately have "b \<notin> ran m' \<and> b \<noteq> null t'" if "(k', b) \<in> set (nodes_of ms ks)" for k' b
    using that "1.prems"(3) [of k' b] t'(2) by auto
  with "1.IH" [OF t'(3)] "1.prems"(2)
  obtain t2 where t2: "insert_for put ms t' ks = Some t2" "null t2 = null t'"
    "rep t2 (map_of (nodes_of ms ks) ++ m')" by auto
  have "map_of (nodes_of ms ks) ++ m' = map_of (nodes_of (Some a # ms) (k # ks)) ++ m"
    by (rule ext) (auto simp: m'_def map_add_def split: option.splits)
  with t2(3) have "rep t2 (map_of (nodes_of (Some a # ms) (k # ks)) ++ m)" by simp
  with t' t2(1,2) show ?case by (simp del: nodes_of.simps(1))
qed (simp_all add: put_fail)

end

subsection \<open>The tree as an index\<close>

definition index_of :: "'d rbt_tree \<Rightarrow> addr tree \<Rightarrow> KEY_TYPE \<rightharpoonup> addr" where
  "index_of t T = map_of (map (\<lambda>a. (key t a, a)) (inorder T))"

lemma index_of_Some:
  assumes "search_tree t T"
  shows "index_of t T k = Some a \<longleftrightarrow> a \<in> set_tree T \<and> key t a = k"
proof -
  have "distinct (map (key t) (inorder T))"
    using assms strict_sorted_iff [of "map (key t) (inorder T)"]
    by (simp add: search_tree_def strict_sorted_iff)
  then have "distinct (map fst (map (\<lambda>a. (key t a, a)) (inorder T)))" by (simp add: comp_def)
  from map_of_eq_Some_iff [OF this, of k a] show ?thesis
    by (auto simp: index_of_def)
qed

lemma index_of_dom: "search_tree t T \<Longrightarrow> dom (index_of t T) = key t ` set_tree T"
  by (auto simp: dom_def index_of_Some)

lemma index_of_ran: "search_tree t T \<Longrightarrow> ran (index_of t T) = set_tree T"
  by (auto simp: ran_def index_of_Some)

definition search_index :: "'d rbt_tree \<Rightarrow> (KEY_TYPE \<rightharpoonup> addr) \<Rightarrow> bool" where
  "search_index t m \<longleftrightarrow> (\<exists>T. search_tree t T \<and> m = index_of t T)"

definition rb_index :: "'d rbt_tree \<Rightarrow> (KEY_TYPE \<rightharpoonup> addr) \<Rightarrow> bool" where
  "rb_index t m \<longleftrightarrow> (\<exists>T. red_black t T \<and> m = index_of t T)"

lemma red_black_search: "red_black t T \<Longrightarrow> search_tree t T"
  by (simp add: red_black_def)

lemma rb_search_index: "rb_index t m \<Longrightarrow> search_index t m"
  unfolding rb_index_def search_index_def using red_black_search by blast

lemma search_tree_nil: "search_tree t T \<Longrightarrow> nil t \<notin> set_tree T"
  using nil_distinct(3) by (auto simp: search_tree_def)

lemma search_index_find:
  assumes "search_tree t T"
  shows "RBT_search t k = Some (case index_of t T k of None \<Rightarrow> nil t | Some a \<Rightarrow> a)"
proof (cases "k \<in> key t ` set_tree T")
  case True
  then obtain x where "x \<in> set_tree T" "key t x = k" "RBT_search t k = Some x"
    using search_spec [OF assms, of k] by auto
  moreover from this have "index_of t T k = Some x" using index_of_Some [OF assms] by simp
  ultimately show ?thesis by simp
next
  case False
  then have "RBT_search t k = Some (nil t)" using search_spec [OF assms, of k] by auto
  moreover have "index_of t T k = None"
    using False index_of_dom [OF assms] by (metis domIff)
  ultimately show ?thesis by simp
qed

interpretation st: lookup_index search_index nil RBT_search
  by unfold_locales
    (auto simp: search_index_def search_index_find index_of_ran search_tree_nil)

lemma stamp_red_black:
  assumes "red_black t T" and "a \<notin> set_tree T"
  shows "red_black (t\<lparr>key := (key t)(a := k)\<rparr>) T"
proof -
  have "map ((key t)(a := k)) (inorder T) = map (key t) (inorder T)"
    using assms(2) by (auto simp: map_eq_conv)
  then have "sorted_wrt (<) (map ((key t)(a := k)) (inorder T)) = sorted_wrt (<) (map (key t) (inorder T))"
    by (rule arg_cong)
  with assms(1) show ?thesis by (simp add: red_black_def search_tree_def)
qed

lemma map_ext_Some: "(\<And>k x. f k = Some x \<longleftrightarrow> g k = Some x) \<Longrightarrow> f = g"
  by (rule ext) (metis not_Some_eq)

lemma app_insert_spec:
  assumes rb: "red_black t T" and a: "a \<notin> set_tree T" "a \<noteq> nil t"
  shows "\<exists>t' T'. APP_insertNode (Some a) t k = Some (Some a, t') \<and> nil t' = nil t \<and> red_black t' T'
    \<and> index_of t' T' = (if k \<in> key t ` set_tree T then index_of t T else (index_of t T)(k \<mapsto> a))"
proof -
  define t0 where "t0 = t\<lparr>key := (key t)(a := k)\<rparr>"
  have t0: "red_black t0 T" "nil t0 = nil t" "key t0 a = k"
    "\<And>x. x \<in> set_tree T \<Longrightarrow> key t0 x = key t x"
    using stamp_red_black [OF rb a(1)] a(1) by (auto simp: t0_def)
  then have dk: "key t0 ` set_tree T = key t ` set_tree T" by auto
  have i0: "index_of t0 T = index_of t T"
    using t0(4) by (auto simp: index_of_def intro!: arg_cong [of _ _ map_of])
  have app: "APP_insertNode (Some a) t k = RBT_insertNode t0 a \<bind> (\<lambda>(_, t). Some (Some a, t))"
    by (simp add: APP_insertNode_def APP_createNewNode_def t0_def)
  show ?thesis
  proof (cases "k \<in> key t ` set_tree T")
    case True
    with insert_present [OF red_black_search [OF t0(1)], of a] t0 dk
    obtain y where "RBT_insertNode t0 a = Some (y, t0)" by auto
    with True t0 i0 app show ?thesis by auto
  next
    case False
    with insert_new [OF t0(1), of a] a t0 dk obtain t' T' where t': "RBT_insertNode t0 a = Some (a, t')"
      "red_black t' T'" "inorder T' = insort_key (key t0) a (inorder T)" "same_data t0 t'" by auto
    have "set_tree T' = insert a (set_tree T)"
      using t'(3) by (metis set_inorder set_insort_key)
    moreover have "key t' = key t0" "nil t' = nil t0" using t'(4) by (auto simp: same_data_def)
    ultimately have "index_of t' T' k' = Some x \<longleftrightarrow> ((index_of t T)(k \<mapsto> a)) k' = Some x" for k' x
      unfolding index_of_Some [OF red_black_search [OF t'(2)]] i0 [symmetric]
      using index_of_Some [OF red_black_search [OF t0(1)]] False a(1) t0(3) dk image_eqI [of k "key t0" x "set_tree T"] by auto
    then have "index_of t' T' = (index_of t T)(k \<mapsto> a)" by (rule map_ext_Some)
    with False t' t0 app \<open>nil t' = nil t0\<close> show ?thesis by auto
  qed
qed


interpretation rb: node_index rb_index nil RBT_search APP_insertNode
proof
  fix t m a and k :: KEY_TYPE
  assume "rb_index t m" and a: "a \<notin> ran m" "a \<noteq> nil t"
  then obtain T where T: "red_black t T" "m = index_of t T" by (auto simp: rb_index_def)
  then have d: "ran m = set_tree T" "dom m = key t ` set_tree T"
    using index_of_ran [OF red_black_search [OF T(1)]] index_of_dom [OF red_black_search [OF T(1)]]
    by simp_all
  with app_insert_spec [OF T(1), of a k] a
  show "\<exists>t'. APP_insertNode (Some a) t k = Some (Some a, t') \<and> nil t' = nil t
      \<and> rb_index t' (if k \<in> dom m then m else m(k \<mapsto> a))"
    unfolding rb_index_def d(2) T(2) by metis
next
  fix t m and k :: KEY_TYPE
  assume "rb_index t m"
  then have "search_index t m" by (rule rb_search_index)
  then show "RBT_search t k = Some (case m k of None \<Rightarrow> nil t | Some a \<Rightarrow> a)" "nil t \<notin> ran m"
    by (rule st.find_law, rule st.null_law)
qed (simp add: APP_insertNode_def APP_createNewNode_def)

lemma init_red_black: "red_black ((snd (RBT_initTree t (Some n)))\<lparr>swapData := sw\<rparr>) Leaf"
  by (simp add: RBT_initTree_def red_black_def search_tree_def focus_def Let_def)

subsection \<open>Traversal\<close>

fun lines_of :: "'d rbt_tree \<Rightarrow> nat \<Rightarrow> addr tree \<Rightarrow> line list" where
  "lines_of t lvl Leaf = [Nil_line lvl]"
| "lines_of t lvl (Node l x r) =
     lines_of t (lvl + 1) l @ Key_line lvl (key t x) (color t x) # lines_of t (lvl + 1) r"

lemma traversal_lines: "repr t p a T \<Longrightarrow> traversal t a lvl = Some (lines_of t lvl T)"
proof (induction T arbitrary: p a lvl)
  case Leaf
  then show ?case by simp (subst traversal.simps, simp)
next
  case (Node l x r)
  then show ?case by (subst traversal.simps) auto
qed

fun printed_key :: "line \<Rightarrow> KEY_TYPE list" where
  "printed_key (Nil_line _) = []"
| "printed_key (Key_line _ k _) = [k]"

lemma lines_of_keys: "concat (map printed_key (lines_of t lvl T)) = map (key t) (inorder T)"
  by (induction T arbitrary: lvl) auto

lemma lines_of_length: "length (lines_of t lvl T) = 2 * size T + 1"
  by (induction T arbitrary: lvl) auto

subsection \<open>Reading the tree out of a concrete memory\<close>

fun read_tree :: "nat \<Rightarrow> 'd rbt_tree \<Rightarrow> addr \<Rightarrow> addr \<Rightarrow> addr tree option" where
  "read_tree 0 t p a = None"
| "read_tree (Suc n) t p a =
     (if a = nil t then Some Leaf
      else if parent t a = p
      then read_tree n t a (left t a) \<bind> (\<lambda>l. read_tree n t a (right t a) \<bind> (\<lambda>r.
             Some (Node l a r)))
      else None)"

lemma read_tree_repr: "read_tree n t p a = Some T \<Longrightarrow> repr t p a T"
  by (induction n t p a arbitrary: T rule: read_tree.induct)
    (auto split: if_splits simp: bind_eq_Some_conv)

lemma repr_unique: "repr t p a T \<Longrightarrow> repr t p a T' \<Longrightarrow> T' = T"
proof (induction T arbitrary: p a T')
  case Leaf
  then show ?case by (cases T') auto
next
  case (Node l x r)
  then show ?case by (cases T') auto
qed

lemma red_black_read:
  assumes "read_tree n t (nil t) (root t) = Some T" and "distinct (inorder T)"
    and "color t (nil t) = RBT_BLACK" and "sorted_wrt (<) (map (key t) (inorder T))"
  shows "red_black t T' \<longleftrightarrow> T' = T \<and> black (color t) T \<and> invc (color t) T \<and> invh (color t) T"
  using read_tree_repr [OF assms(1)] repr_unique [of t "nil t" "root t" T T'] assms(2-)
  by (auto simp: red_black_def search_tree_def focus_def)


subsection \<open>The properties of the tree\<close>

text \<open>
  C2. Inserting a node whose key is new into a red-black tree: the node is linked into a
  red-black tree whose in-order list of nodes is the old one with the node put at its place,
  no key and no data of any node changes, and the node is returned.
\<close>

theorem RBT_insertNode_new:
  assumes "red_black t T" and "x \<notin> set_tree T" and "x \<noteq> nil t" and "key t x \<notin> key t ` set_tree T"
  shows "\<exists>t' T'. RBT_insertNode t x = Some (x, t') \<and> red_black t' T'
     \<and> inorder T' = insort_key (key t) x (inorder T)
     \<and> key t' = key t \<and> data t' = data t \<and> nil t' = nil t"
  using insert_new [OF assms] by (auto simp: same_data_def)

text \<open>
  Inserting a key that is there already leaves the memory as it is and returns the node
  that has the key.
\<close>

theorem RBT_insertNode_duplicate:
  assumes "search_tree t T" and "key t x \<in> key t ` set_tree T"
  shows "\<exists>y\<in>set_tree T. key t y = key t x \<and> RBT_insertNode t x = Some (y, t)"
  by (rule insert_present [OF assms])

text \<open>
  On every search tree, balanced or not, \<^verbatim>\<open>RBT_search\<close> ends and returns the node with
  the key, or \<^verbatim>\<open>nil\<close> exactly when no node has it.
\<close>

theorem RBT_search_correct:
  assumes "search_tree t T"
  shows "(\<exists>x\<in>set_tree T. key t x = k \<and> RBT_search t k = Some x)
    \<or> (\<forall>x\<in>set_tree T. key t x \<noteq> k) \<and> RBT_search t k = Some (nil t)"
  using search_spec [OF assms, of k] by auto

text \<open>
  C3. Deleting a key of a red-black tree, when \<^verbatim>\<open>swapData\<close> exchanges the data of two nodes:
  one node \<open>y\<close> leaves the tree and is returned with the deleted key and its data; the others
  keep, in order, the remaining keys with their data; the search order and the equal black
  heights hold again. The result is a red-black tree when no red node of the old tree has an
  inner child with a red child.
\<close>

theorem RBT_deleteNodeByKey_correct:
  assumes "red_black t T" and "swaps t" and "x \<in> set_tree T"
  shows "\<exists>y t' T'. RBT_deleteNodeByKey t (key t x) = Some (y, t')
     \<and> y \<in> set_tree T \<and> set_tree T' = set_tree T - {y}
     \<and> (key t' y, data t' y) = (key t x, data t x)
     \<and> map (\<lambda>a. (key t' a, data t' a)) (inorder T')
       = map (\<lambda>a. (key t a, data t a)) (remove1 x (inorder T))
     \<and> search_tree t' T' \<and> black (color t') T' \<and> invh (color t') T'
     \<and> (calm_tree (color t) T \<longrightarrow> red_black t' T')"
proof -
  have st: "search_tree t T" using assms(1) by (rule red_black_search)
  then have "index_of t T (key t x) = Some x" using index_of_Some assms(3) by blast
  then have "RBT_search t (key t x) = Some x" using search_index_find [OF st] by simp
  with delete_spec [OF assms(1,3,2)] show ?thesis
    by (auto simp: RBT_deleteNodeByKey_def deleted_def)
qed

text \<open>
  \<^verbatim>\<open>RBT_traversal\<close> of a search tree ends and prints every key once, in ascending order,
  between the lines for the \<^verbatim>\<open>nil\<close> leaves.
\<close>

theorem RBT_traversal_ascending:
  assumes "search_tree t T"
  shows "\<exists>ls. RBT_traversal t = Some ls \<and> length ls = 2 * size T + 1
     \<and> concat (map printed_key ls) = map (key t) (inorder T)
     \<and> sorted_wrt (<) (concat (map printed_key ls))"
  using assms traversal_lines [of t "nil t" "root t" T 0]
  by (simp add: RBT_traversal_def search_tree_def focus_def lines_of_keys lines_of_length)

text \<open>
  \<^verbatim>\<open>APP_initTree\<close>, given distinct nodes by \<^verbatim>\<open>malloc\<close> (some calls may fail), builds a
  red-black tree; looking up a key afterwards gives the first node that was allocated for it,
  and \<^verbatim>\<open>nil\<close> for the keys that got none.
\<close>

theorem APP_initTree_lookup:
  assumes "distinct (n # map snd (nodes_of ms ks))"
  shows "\<exists>t' T'. APP_initTree (Some n) ms t ks = Some t' \<and> red_black t' T'
     \<and> RBT_search t' k = Some (case map_of (nodes_of ms ks) k of None \<Rightarrow> n | Some a \<Rightarrow> a)
     \<and> APP_getData t' k = Some (map_option (data t') (map_of (nodes_of ms ks) k))"
proof -
  define t0 where "t0 = (snd (RBT_initTree t (Some n)))\<lparr>swapData := no_swap\<rparr>"
  have "red_black t0 Leaf" unfolding t0_def by (rule init_red_black)
  then have "rb_index t0 Map.empty"
    unfolding rb_index_def by (intro exI [of _ Leaf]) (simp add: index_of_def)
  moreover have "nil t0 = n" by (simp add: t0_def RBT_initTree_def Let_def)
  ultimately obtain t' where t': "insert_for APP_insertNode ms t0 ks = Some t'" "nil t' = n"
    "rb_index t' (map_of (nodes_of ms ks))"
    using rb.insert_for_spec [of t0 Map.empty ms ks] assms by (force simp: image_iff)
  obtain T' where "red_black t' T'" using t'(3) by (auto simp: rb_index_def)
  with t' rb.find_law [OF t'(3), of k] rb.get_value [OF t'(3), of k data] show ?thesis
    unfolding APP_initTree_def APP_getData_def t0_def [symmetric] by auto
qed

text \<open>The demo's tree of seven keys and what a deletion makes of it.\<close>

definition memory0 :: "(addr \<Rightarrow> 'd) \<Rightarrow> 'd rbt_tree" where
  "memory0 d = \<lparr>root = 0, nil = 0, parent = (\<lambda>_. 0), left = (\<lambda>_. 0), right = (\<lambda>_. 0),
     color = (\<lambda>_. RBT_RED), key = (\<lambda>_. 0), data = d, swapData = no_swap\<rparr>"

definition swap :: "addr \<Rightarrow> addr \<Rightarrow> (addr \<Rightarrow> 'd) \<Rightarrow> addr \<Rightarrow> 'd" where
  "swap x y d = d(x := d y, y := d x)"

definition sample :: "KEY_TYPE list \<Rightarrow> addr rbt_tree" where
  "sample ks = (the (APP_initTree (Some 1) (map Some [2..<2 + length ks]) (memory0 id) ks))\<lparr>swapData := swap\<rparr>"

lemma sample_swaps: "swaps (sample ks)"
  by (simp add: swaps_def sample_def swap_def)

abbreviation seven :: "KEY_TYPE list" where
  "seven \<equiv> [50, 20, 60, 10, 30, 5, 25]"

abbreviation seven_tree :: "addr tree" where
  "seven_tree \<equiv> Node (Node (Node (Node Leaf 7 Leaf) 5 Leaf) 3 (Node (Node Leaf 8 Leaf) 6 Leaf)) 2 (Node Leaf 4 Leaf)"

definition snapshot :: "'d rbt_tree \<Rightarrow> addr tree option \<times> RBT_COLOR list \<times> KEY_TYPE list \<times> addr" where
  "snapshot t = (read_tree 9 t (nil t) (root t), map (color t) [1..<9], map (key t) [2..<9], nil t)"

lemma snapshotD:
  assumes "snapshot t = (Some T, [c1, c2, c3, c4, c5, c6, c7, c8], [k2, k3, k4, k5, k6, k7, k8], n)"
  shows "read_tree 9 t (nil t) (root t) = Some T" "nil t = n" "color t 1 = c1"
    "color t 2 = c2" "color t 3 = c3" "color t 4 = c4" "color t 5 = c5" "color t 6 = c6"
    "color t 7 = c7" "color t 8 = c8" "key t 2 = k2" "key t 3 = k3" "key t 4 = k4" "key t 5 = k5"
    "key t 6 = k6" "key t 7 = k7" "key t 8 = k8"
proof -
  have "[1..<9] = [1, 2, 3, 4, 5, 6, 7, 8 :: nat]" "[2..<9] = [2, 3, 4, 5, 6, 7, 8 :: nat]"
    by code_simp+
  note assms [unfolded snapshot_def this]
  then show "read_tree 9 t (nil t) (root t) = Some T" "nil t = n" "color t 1 = c1"
    "color t 2 = c2" "color t 3 = c3" "color t 4 = c4" "color t 5 = c5" "color t 6 = c6"
    "color t 7 = c7" "color t 8 = c8" "key t 2 = k2" "key t 3 = k3" "key t 4 = k4" "key t 5 = k5"
    "key t 6 = k6" "key t 7 = k7" "key t 8 = k8" by auto
qed

lemma seven_snapshot:
  "snapshot (sample seven) = (Some seven_tree, [RBT_BLACK, RBT_BLACK, RBT_RED, RBT_BLACK, RBT_BLACK,
     RBT_BLACK, RBT_RED, RBT_RED], seven, 1)"
  by code_simp

lemma seven_delete:
  "map_option (\<lambda>(y, t). (y, snapshot t)) (RBT_deleteNodeByKey (sample seven) 60) = Some (4,
     Some (Node (Node (Node Leaf 7 Leaf) 5 Leaf) 3 (Node (Node (Node Leaf 8 Leaf) 6 Leaf) 2 Leaf)),
     [RBT_BLACK, RBT_BLACK, RBT_BLACK, RBT_BLACK, RBT_BLACK, RBT_RED, RBT_RED, RBT_RED],
     seven, 1)"
  by code_simp

lemma seven_red_black: "red_black (sample seven) seven_tree"
  using snapshotD [OF seven_snapshot] red_black_read [of 9 "sample seven" seven_tree seven_tree]
  by simp

text \<open>
  A deletion can leave a red node with a red child: the branch of
  \<^verbatim>\<open>_adjustAfterDelete\<close> for a red brother colours the brother's inner child red without
  looking at that child's children.
\<close>

theorem RBT_delete_red_red:
  "\<exists>(t :: addr rbt_tree) T x y t' T'. red_black t T \<and> swaps t \<and> x \<in> set_tree T
     \<and> RBT_deleteNodeByKey t (key t x) = Some (y, t') \<and> search_tree t' T'
     \<and> \<not> invc (color t') T' \<and> (\<forall>T''. \<not> red_black t' T'')"
proof -
  define t where "t = sample seven"
  define T' where "T' = Node (Node (Node Leaf 7 Leaf) 5 Leaf) (3::nat) (Node (Node (Node Leaf 8 Leaf) 6 Leaf) 2 Leaf)"
  obtain t' where r: "RBT_deleteNodeByKey t 60 = Some (4, t')"
    and sn: "snapshot t' = (Some T', [RBT_BLACK, RBT_BLACK, RBT_BLACK, RBT_BLACK, RBT_BLACK,
      RBT_RED, RBT_RED, RBT_RED], seven, 1)"
    using seven_delete unfolding t_def [symmetric] T'_def by auto
  note rd = snapshotD [OF sn]
  have k: "key t 4 = 60" using snapshotD [OF seven_snapshot] unfolding t_def by simp
  have "repr t' (nil t') (root t') T'" by (rule read_tree_repr [OF rd(1)])
  moreover have "sorted_wrt (<) (map (key t') (inorder T')) \<and> \<not> invc (color t') T' \<and> distinct (inorder T')"
    using rd unfolding T'_def by simp
  ultimately have st: "focus t' [] (root t') T' \<and> color t' (nil t') = RBT_BLACK
      \<and> sorted_wrt (<) (map (key t') (inorder T')) \<and> \<not> invc (color t') T'"
    using rd(2,3) by (simp add: focus_def)
  then have "\<not> red_black t' T''" for T''
    using red_black_read [OF rd(1), of T''] by (auto simp: focus_def)
  moreover have "red_black t seven_tree" "swaps t"
    unfolding t_def by (rule seven_red_black, rule sample_swaps)
  moreover have "4 \<in> set_tree seven_tree" by simp
  moreover have "search_tree t' T'" using st by (simp add: search_tree_def)
  ultimately show ?thesis using r st unfolding k [symmetric] by blast
qed

text \<open>
  With the demo's own \<^verbatim>\<open>_swapData\<close>, which exchanges nothing, \<^verbatim>\<open>APP_delete\<close> of an inner
  key leaves another key with the wrong data.
\<close>

theorem APP_delete_wrong_data:
  "\<exists>(t :: addr rbt_tree) t' a. APP_initTree (Some 1) (map Some [2, 3, 4]) (memory0 id) [50, 20, 60] = Some t
     \<and> APP_getData t 60 = Some (Some 4)
     \<and> APP_delete t 50 = Some (a, t') \<and> APP_getData t' 60 = Some (Some 2)"
proof -
  define t where "t = APP_initTree (Some 1) (map Some [2, 3, 4]) (memory0 id) [50, 20, 60]"
  have "t \<bind> (\<lambda>t. APP_delete t 50 \<bind> (\<lambda>(a, t'). Some (APP_getData t 60, APP_getData t' 60)))
      = Some (Some (Some 4), Some (Some 2))"
    unfolding t_def by code_simp
  then show ?thesis unfolding t_def by (auto simp: bind_eq_Some_conv)
qed

subsection \<open>Instances\<close>

lemma seven_index: "key (sample seven) ` set_tree seven_tree = set seven"
  using snapshotD [OF seven_snapshot] by auto

lemma RBT_insertNode_new_witness:
  "\<exists>t' T'. RBT_insertNode ((sample seven)\<lparr>key := (key (sample seven))(9 := 40)\<rparr>) 9 = Some (9, t')
     \<and> red_black t' T'"
proof -
  define t where "t = (sample seven)\<lparr>key := (key (sample seven))(9 := 40)\<rparr>"
  have "red_black t seven_tree"
    unfolding t_def by (rule stamp_red_black [OF seven_red_black]) simp
  moreover have "key t 9 \<notin> key t ` set_tree seven_tree" "(9 :: nat) \<noteq> nil t"
    using snapshotD [OF seven_snapshot] by (auto simp: t_def)
  ultimately show ?thesis
    using RBT_insertNode_new [of t seven_tree 9] unfolding t_def [symmetric] by auto
qed

lemma RBT_insertNode_duplicate_witness:
  "\<exists>y. RBT_insertNode (sample seven) 5 = Some (y, sample seven)"
  using RBT_insertNode_duplicate [OF red_black_search [OF seven_red_black], of 5] by auto

lemma RBT_search_correct_witness:
  "\<exists>x\<in>{2..8}. key (sample seven) x = 25 \<and> RBT_search (sample seven) 25 = Some x"
  using RBT_search_correct [OF red_black_search [OF seven_red_black], of 25] 
    snapshotD [OF seven_snapshot] by auto

lemma RBT_deleteNodeByKey_correct_witness:
  "\<exists>y t' T'. RBT_deleteNodeByKey (sample seven) 20 = Some (y, t') \<and> search_tree t' T'"
proof -
  have "key (sample seven) 3 = 20" by (rule snapshotD [OF seven_snapshot])
  then show ?thesis
    using RBT_deleteNodeByKey_correct [OF seven_red_black sample_swaps, of 3] by auto
qed

lemma RBT_traversal_ascending_witness:
  "\<exists>ls. RBT_traversal (sample seven) = Some ls \<and> length ls = 15
     \<and> concat (map printed_key ls) = [5, 10, 20, 25, 30, 50, 60]"
  using RBT_traversal_ascending [OF red_black_search [OF seven_red_black]]
    snapshotD [OF seven_snapshot] by auto

lemma APP_initTree_lookup_witness:
  "\<exists>t'. APP_initTree (Some 1) [Some 2, None, Some 3] (memory0 id) [7, 8, 7] = Some t'
     \<and> RBT_search t' 7 = Some 2"
  using APP_initTree_lookup [of 1 "[Some 2, None, Some 3]" "[7, 8, 7]" "memory0 id" 7] by auto

end
