(* ===== verification/Sds.thy ===== *)
theory Sds
  imports Prelude
begin

text \<open>
  \<^verbatim>\<open>9_using_hiredis_api/hiredis/sds.h\<close> and the core of \<^verbatim>\<open>sds.c\<close>: dynamic strings behind a
  header of one of five sizes.

  An \<^verbatim>\<open>sds\<close> is the record of its header and of the bytes of its block after the header.
  \<open>mal\<close> is the allocator: what bytes a block of a given size holds, or \<open>None\<close> when
  there is no memory. A result \<open>Some None\<close> is the null pointer the code returns;
  \<open>None\<close> is undefined behaviour or a failed \<^verbatim>\<open>assert\<close>.
\<close>

subsection \<open>The header\<close>

datatype sds_type = SDS_TYPE_5 | SDS_TYPE_8 | SDS_TYPE_16 | SDS_TYPE_32 | SDS_TYPE_64

record sdshdr =
  flags :: sds_type
  len :: nat
  alloc :: nat
  buf :: string

fun width :: "sds_type \<Rightarrow> nat" where
  "width SDS_TYPE_5 = 5"
| "width SDS_TYPE_8 = 8"
| "width SDS_TYPE_16 = 16"
| "width SDS_TYPE_32 = 32"
| "width SDS_TYPE_64 = 64"

fun sdsHdrSize :: "sds_type \<Rightarrow> nat" where
  "sdsHdrSize SDS_TYPE_5 = 1"
| "sdsHdrSize SDS_TYPE_8 = 3"
| "sdsHdrSize SDS_TYPE_16 = 5"
| "sdsHdrSize SDS_TYPE_32 = 9"
| "sdsHdrSize SDS_TYPE_64 = 17"

definition sdsReqType :: "nat \<Rightarrow> sds_type" where
  "sdsReqType n =
     (if n < 32 then SDS_TYPE_5
      else if n < 0xff then SDS_TYPE_8
      else if n < 0xffff then SDS_TYPE_16
      else if n < 0xffffffff then SDS_TYPE_32
      else SDS_TYPE_64)"

definition sdslen :: "sdshdr \<Rightarrow> nat" where
  "sdslen s = len s"

text \<open>The 8 and 16-bit fields are subtracted as \<^verbatim>\<open>int\<close>, the 32-bit ones as \<^verbatim>\<open>uint32_t\<close>.\<close>

definition sdsavail :: "sdshdr \<Rightarrow> nat" where
  "sdsavail s =
     (case flags s of
        SDS_TYPE_5 \<Rightarrow> 0
      | SDS_TYPE_32 \<Rightarrow> u32 (int (alloc s) - int (len s))
      | _ \<Rightarrow> size_t (int (alloc s) - int (len s)))"

definition sdssetlen :: "sdshdr \<Rightarrow> nat \<Rightarrow> sdshdr" where
  "sdssetlen s newlen = s\<lparr>len := newlen mod 2 ^ width (flags s)\<rparr>"

definition sdsinclen :: "sdshdr \<Rightarrow> nat \<Rightarrow> sdshdr" where
  "sdsinclen s inc = s\<lparr>len := (len s + inc) mod 2 ^ width (flags s)\<rparr>"

definition sdsalloc :: "sdshdr \<Rightarrow> nat" where
  "sdsalloc s = (if flags s = SDS_TYPE_5 then len s else alloc s)"

definition sdssetalloc :: "sdshdr \<Rightarrow> nat \<Rightarrow> sdshdr" where
  "sdssetalloc s newlen =
     (if flags s = SDS_TYPE_5 then s else s\<lparr>alloc := newlen mod 2 ^ width (flags s)\<rparr>)"

subsection \<open>The allocator\<close>

text \<open>
  \<^verbatim>\<open>s_realloc\<close> of the block with a header of \<open>hdr\<close> bytes, seen from after the header: the
  old bytes stay as far as the new block goes.
\<close>

definition s_realloc :: "allocator \<Rightarrow> nat \<Rightarrow> string \<Rightarrow> nat \<Rightarrow> string option" where
  "s_realloc mal hdr old n =
     map_option (\<lambda>b. take (n - hdr) old @ drop (hdr + length old) b) (s_malloc mal n)"

subsection \<open>Creating\<close>

text \<open>\<open>init\<close> is \<open>None\<close> for a null pointer.\<close>

definition sdsnewlen :: "allocator \<Rightarrow> string option \<Rightarrow> nat \<Rightarrow> sdshdr option option" where
  "sdsnewlen mal init initlen =
     (let ty = sdsReqType initlen;
          ty = (if ty = SDS_TYPE_5 \<and> initlen = 0 then SDS_TYPE_8 else ty);
          hdrlen = sdsHdrSize ty
      in case s_malloc mal (size_t (int hdrlen + int initlen + 1)) of
           None \<Rightarrow> Some None
         | Some b \<Rightarrow>
             (if init = None then fill b 0 NUL (hdrlen + initlen + 1) else Some b) \<bind> (\<lambda>b.
             (let s = \<lparr>flags = ty, len = initlen mod 2 ^ width ty, alloc = initlen mod 2 ^ width ty,
                       buf = drop hdrlen b\<rparr>
              in (case init of
                    Some i \<Rightarrow> (if initlen \<noteq> 0 then blit (buf s) 0 i initlen else Some (buf s))
                  | None \<Rightarrow> Some (buf s)) \<bind> (\<lambda>bf.
                 wr bf initlen NUL \<bind> (\<lambda>bf. Some (Some (s\<lparr>buf := bf\<rparr>)))))))"

definition sdsempty :: "allocator \<Rightarrow> sdshdr option option" where
  "sdsempty mal = sdsnewlen mal (Some (cstr [])) 0"

definition sdsnew :: "allocator \<Rightarrow> string option \<Rightarrow> sdshdr option option" where
  "sdsnew mal init =
     (case init of None \<Rightarrow> sdsnewlen mal None 0
      | Some i \<Rightarrow> strlen i \<bind> (\<lambda>initlen. sdsnewlen mal (Some i) initlen))"

definition sdsdup :: "allocator \<Rightarrow> sdshdr \<Rightarrow> sdshdr option option" where
  "sdsdup mal s = sdsnewlen mal (Some (buf s)) (sdslen s)"

definition sdsupdatelen :: "sdshdr \<Rightarrow> sdshdr option" where
  "sdsupdatelen s = strlen (buf s) \<bind> (\<lambda>reallen. Some (sdssetlen s reallen))"

definition sdsclear :: "sdshdr \<Rightarrow> sdshdr option" where
  "sdsclear s =
     (let s = sdssetlen s 0 in wr (buf s) 0 NUL \<bind> (\<lambda>b. Some (s\<lparr>buf := b\<rparr>)))"

subsection \<open>Growing and shrinking the block\<close>

definition SDS_MAX_PREALLOC :: nat where
  "SDS_MAX_PREALLOC = 1024 * 1024"

definition sdsMakeRoomFor :: "allocator \<Rightarrow> sdshdr \<Rightarrow> nat \<Rightarrow> sdshdr option option" where
  "sdsMakeRoomFor mal s addlen =
     (if sdsavail s \<ge> addlen then Some (Some s)
      else
        (let ln = sdslen s;
             newlen = size_t (int ln + int addlen);
             newlen = (if newlen < SDS_MAX_PREALLOC then size_t (2 * int newlen)
                       else size_t (int newlen + int SDS_MAX_PREALLOC));
             ty = sdsReqType newlen;
             ty = (if ty = SDS_TYPE_5 then SDS_TYPE_8 else ty);
             hdrlen = sdsHdrSize ty
         in if flags s = ty
            then (case s_realloc mal hdrlen (buf s) (size_t (int hdrlen + int newlen + 1)) of
                    None \<Rightarrow> Some None
                  | Some b \<Rightarrow> Some (Some (sdssetalloc (s\<lparr>buf := b\<rparr>) newlen)))
            else (case s_malloc mal (size_t (int hdrlen + int newlen + 1)) of
                    None \<Rightarrow> Some None
                  | Some b \<Rightarrow>
                      blit (drop hdrlen b) 0 (buf s) (ln + 1) \<bind> (\<lambda>b.
                        (let s = sdssetlen (s\<lparr>flags := ty, buf := b\<rparr>) ln
                         in Some (Some (sdssetalloc s newlen)))))))"

definition sdsRemoveFreeSpace :: "allocator \<Rightarrow> sdshdr \<Rightarrow> sdshdr option option" where
  "sdsRemoveFreeSpace mal s =
     (let ln = sdslen s;
          ty = sdsReqType ln;
          hdrlen = sdsHdrSize ty
      in if flags s = ty
         then (case s_realloc mal hdrlen (buf s) (size_t (int hdrlen + int ln + 1)) of
                 None \<Rightarrow> Some None
               | Some b \<Rightarrow> Some (Some (sdssetalloc (s\<lparr>buf := b\<rparr>) ln)))
         else (case s_malloc mal (size_t (int hdrlen + int ln + 1)) of
                 None \<Rightarrow> Some None
               | Some b \<Rightarrow>
                   blit (drop hdrlen b) 0 (buf s) (ln + 1) \<bind> (\<lambda>b.
                     (let s = sdssetlen (s\<lparr>flags := ty, buf := b\<rparr>) ln
                      in Some (Some (sdssetalloc s ln))))))"

definition sdsAllocSize :: "sdshdr \<Rightarrow> nat" where
  "sdsAllocSize s = sdsHdrSize (flags s) + sdsalloc s + 1"

definition sdsIncrLen :: "sdshdr \<Rightarrow> int \<Rightarrow> sdshdr option" where
  "sdsIncrLen s incr =
     (let room = (case flags s of
                    SDS_TYPE_5 \<Rightarrow> incr > 0 \<and> int (len s) + incr < 32
                  | SDS_TYPE_8 \<Rightarrow> incr \<ge> 0 \<and> int (alloc s) - int (len s) \<ge> incr
                  | SDS_TYPE_16 \<Rightarrow> incr \<ge> 0 \<and> int (alloc s) - int (len s) \<ge> incr
                  | _ \<Rightarrow> incr \<ge> 0 \<and> int (sdsavail s) \<ge> incr)
      in if room \<or> incr < 0 \<and> int (len s) \<ge> - incr
         then (let s = s\<lparr>len := nat ((int (len s) + incr) mod 2 ^ width (flags s))\<rparr>
               in wr (buf s) (len s) NUL \<bind> (\<lambda>b. Some (s\<lparr>buf := b\<rparr>)))
         else None)"

definition sdsgrowzero :: "allocator \<Rightarrow> sdshdr \<Rightarrow> nat \<Rightarrow> sdshdr option option" where
  "sdsgrowzero mal s n =
     (let curlen = sdslen s
      in if n \<le> curlen then Some (Some s)
         else sdsMakeRoomFor mal s (n - curlen) \<bind> (\<lambda>r. case r of
                None \<Rightarrow> Some None
              | Some s \<Rightarrow> fill (buf s) curlen NUL (n - curlen + 1) \<bind> (\<lambda>b.
                  Some (Some (sdssetlen (s\<lparr>buf := b\<rparr>) n)))))"

subsection \<open>Concatenating and copying\<close>

definition sdscatlen :: "allocator \<Rightarrow> sdshdr \<Rightarrow> string \<Rightarrow> nat \<Rightarrow> sdshdr option option" where
  "sdscatlen mal s t n =
     (let curlen = sdslen s
      in sdsMakeRoomFor mal s n \<bind> (\<lambda>r. case r of
           None \<Rightarrow> Some None
         | Some s \<Rightarrow> blit (buf s) curlen t n \<bind> (\<lambda>b.
             (let s = sdssetlen (s\<lparr>buf := b\<rparr>) (size_t (int curlen + int n))
              in wr (buf s) (curlen + n) NUL \<bind> (\<lambda>b. Some (Some (s\<lparr>buf := b\<rparr>)))))))"

definition sdscat :: "allocator \<Rightarrow> sdshdr \<Rightarrow> string \<Rightarrow> sdshdr option option" where
  "sdscat mal s t = strlen t \<bind> (\<lambda>n. sdscatlen mal s t n)"

definition sdscatsds :: "allocator \<Rightarrow> sdshdr \<Rightarrow> sdshdr \<Rightarrow> sdshdr option option" where
  "sdscatsds mal s t = sdscatlen mal s (buf t) (sdslen t)"

definition sdscpylen :: "allocator \<Rightarrow> sdshdr \<Rightarrow> string \<Rightarrow> nat \<Rightarrow> sdshdr option option" where
  "sdscpylen mal s t n =
     (if sdsalloc s < n then sdsMakeRoomFor mal s (size_t (int n - int (sdslen s)))
      else Some (Some s)) \<bind> (\<lambda>r. case r of
        None \<Rightarrow> Some None
      | Some s \<Rightarrow> blit (buf s) 0 t n \<bind> (\<lambda>b. wr b n NUL \<bind> (\<lambda>b.
          Some (Some (sdssetlen (s\<lparr>buf := b\<rparr>) n)))))"

definition sdscpy :: "allocator \<Rightarrow> sdshdr \<Rightarrow> string \<Rightarrow> sdshdr option option" where
  "sdscpy mal s t = strlen t \<bind> (\<lambda>n. sdscpylen mal s t n)"

subsection \<open>Well-formed strings and what they hold\<close>

text \<open>\<open>sds_open\<close> is \<open>sds_ok\<close> without the terminating NUL.\<close>

definition sds_open :: "sdshdr \<Rightarrow> bool" where
  "sds_open s \<longleftrightarrow> len s \<le> sdsalloc s \<and> sdsalloc s < 2 ^ width (flags s)
     \<and> sdsalloc s < length (buf s)"

definition sds_ok :: "sdshdr \<Rightarrow> bool" where
  "sds_ok s \<longleftrightarrow> len s \<le> sdsalloc s \<and> sdsalloc s < 2 ^ width (flags s)
     \<and> sdsalloc s < length (buf s) \<and> buf s ! len s = NUL"

lemma sds_ok_open: "sds_ok s \<longleftrightarrow> sds_open s \<and> buf s ! len s = NUL"
  by (auto simp: sds_ok_def sds_open_def)

definition str :: "sdshdr \<Rightarrow> string" where
  "str s = take (len s) (buf s)"

text \<open>
  \<open>gives mal r x\<close>: the call returned a well-formed string that holds \<open>x\<close>, or the null
  pointer because an allocation can fail.
\<close>

definition gives :: "allocator \<Rightarrow> sdshdr option option \<Rightarrow> string \<Rightarrow> bool" where
  "gives mal r x \<longleftrightarrow> (\<exists>s. r = Some (Some s) \<and> sds_ok s \<and> str s = x)
     \<or> r = Some None \<and> (\<exists>n. mal n = None)"

text \<open>Strings below this size never wrap a \<^verbatim>\<open>size_t\<close> in the functions that grow them.\<close>

definition small :: "nat \<Rightarrow> bool" where
  "small n \<longleftrightarrow> n < 2 ^ 62"

lemma length_str_open [simp]: "sds_open s \<Longrightarrow> length (str s) = len s"
  by (simp add: sds_open_def str_def)

lemma length_str [simp]: "sds_ok s \<Longrightarrow> length (str s) = len s"
  by (simp add: sds_ok_open)

lemma width_le: "width ty \<le> 64"
  by (cases ty) auto

lemma width_bound: "n < 2 ^ width ty \<Longrightarrow> n < (2 :: nat) ^ 64"
  using power_increasing [OF width_le, of "2 :: nat" ty] by simp

lemma sds_open_bound: "sds_open s \<Longrightarrow> len s < 2 ^ 64 \<and> sdsalloc s < 2 ^ 64"
  using width_bound [of "sdsalloc s" "flags s"] by (auto simp: sds_open_def)

lemma sdsavail_open: "sds_open s \<Longrightarrow> sdsavail s = sdsalloc s - len s"
  using sds_open_bound [of s]
  by (cases "flags s") (auto simp: sdsavail_def sds_open_def sdsalloc_def of_nat_diff)

lemma sdsavail_ok: "sds_ok s \<Longrightarrow> sdsavail s = sdsalloc s - len s"
  by (simp add: sdsavail_open sds_ok_open)

lemma sdsReqType_width: "n < 2 ^ 64 \<Longrightarrow> n < 2 ^ width (sdsReqType n)"
  by (simp add: sdsReqType_def)

lemma HdrSize_le: "sdsHdrSize ty \<le> 17"
  by (cases ty) auto

lemma s_malloc_length: "s_malloc mal n = Some b \<Longrightarrow> length b = n"
  by (auto simp: s_malloc_def)

lemma s_malloc_None: "s_malloc mal n = None \<longleftrightarrow> mal n = None"
  by (auto simp: s_malloc_def)

lemma s_realloc_length: "s_realloc mal h old n = Some b \<Longrightarrow> h \<le> n \<Longrightarrow> length b = n - h"
  by (auto simp: s_realloc_def dest: s_malloc_length)

lemma s_realloc_None: "s_realloc mal h old n = None \<longleftrightarrow> mal n = None"
  by (auto simp: s_realloc_def s_malloc_None)

lemma s_realloc_take:
  "s_realloc mal h old n = Some b \<Longrightarrow> m \<le> length old \<Longrightarrow> m \<le> n - h \<Longrightarrow> take m b = take m old"
  by (auto simp: s_realloc_def)

lemma terminated: "take (Suc n) b = take (Suc n) b' \<Longrightarrow> n < length b \<Longrightarrow> n < length b' \<Longrightarrow>
    b ! n = b' ! n \<and> take n b = take n b'"
  by (metis less_Suc_eq_le nth_take order_refl take_take min.absorb1 lessI less_imp_le_nat)

text \<open>The first size that is asked for is the type's capacity.\<close>

definition grown_len :: "nat \<Rightarrow> nat" where
  "grown_len n = (if n < SDS_MAX_PREALLOC then 2 * n else n + SDS_MAX_PREALLOC)"

lemma MakeRoom_unfold:
  assumes "sds_open s" and "small (len s + addlen)" and "\<not> addlen \<le> sdsavail s"
  defines "n \<equiv> grown_len (len s + addlen)"
  defines "ty \<equiv> (if sdsReqType n = SDS_TYPE_5 then SDS_TYPE_8 else sdsReqType n)"
  shows "sdsMakeRoomFor mal s addlen =
     (if flags s = ty
      then Some (map_option (\<lambda>b. sdssetalloc (s\<lparr>buf := b\<rparr>) n)
             (s_realloc mal (sdsHdrSize ty) (buf s) (sdsHdrSize ty + n + 1)))
      else (case s_malloc mal (sdsHdrSize ty + n + 1) of None \<Rightarrow> Some None
        | Some b \<Rightarrow> blit (drop (sdsHdrSize ty) b) 0 (buf s) (len s + 1) \<bind> (\<lambda>b.
            Some (Some (sdssetalloc (sdssetlen (s\<lparr>flags := ty, buf := b\<rparr>) (len s)) n)))))"
proof -
  have n: "n < 2 ^ 63 + 2 ^ 20" "n + 20 < 2 ^ 64"
    using assms(2) unfolding n_def small_def by (auto simp: grown_len_def SDS_MAX_PREALLOC_def)
  have w: "size_t (int (sdslen s) + int addlen) = len s + addlen"
    using assms(2) unfolding small_def by (simp add: sdslen_def nat_add_distrib)
  have w2: "(if len s + addlen < SDS_MAX_PREALLOC then size_t (2 * int (len s + addlen))
       else size_t (int (len s + addlen) + int SDS_MAX_PREALLOC)) = n"
    using assms(2) unfolding n_def small_def grown_len_def
    by (simp add: SDS_MAX_PREALLOC_def nat_add_distrib nat_mult_distrib)
  have w3: "size_t (int (sdsHdrSize t) + int n + 1) = sdsHdrSize t + n + 1" for t
  proof -
    have "int (sdsHdrSize t) + int n + 1 = int (sdsHdrSize t + n + 1)" by simp
    moreover have "sdsHdrSize t + n + 1 < 2 ^ 64" using n(2) HdrSize_le [of t] by linarith
    then have "int (sdsHdrSize t + n + 1) < 2 ^ 64" by simp
    ultimately show ?thesis by (metis nat_int of_nat_0_le_iff size_t_id)
  qed
  show ?thesis
    using assms(3) unfolding sdsMakeRoomFor_def Let_def w w2 w3 ty_def [symmetric]
    by (auto simp: sdslen_def split: option.split)
qed

lemma grown_type:
  fixes n :: nat
  assumes "n < 2 ^ 64"
  defines "ty \<equiv> (if sdsReqType n = SDS_TYPE_5 then SDS_TYPE_8 else sdsReqType n)"
  shows "n < 2 ^ width ty" "ty \<noteq> SDS_TYPE_5"
  using sdsReqType_width [OF assms(1)] unfolding ty_def by auto

lemma MakeRoom_open:
  assumes ok: "sds_open s" and sm: "small (len s + addlen)"
  shows "(\<exists>s'. sdsMakeRoomFor mal s addlen = Some (Some s') \<and> sds_open s' \<and> len s' = len s \<and> buf s' ! len s = buf s ! len s
      \<and> str s' = str s \<and> addlen \<le> sdsavail s')
    \<or> sdsMakeRoomFor mal s addlen = Some None \<and> (\<exists>n. mal n = None)"
proof (cases "addlen \<le> sdsavail s")
  case True
  with ok show ?thesis by (simp add: sdsMakeRoomFor_def)
next
  case False
  define n where "n = grown_len (len s + addlen)"
  define ty where "ty = (if sdsReqType n = SDS_TYPE_5 then SDS_TYPE_8 else sdsReqType n)"
  note unf = MakeRoom_unfold [OF ok sm False, of mal, folded n_def, folded ty_def]
  have n: "len s + addlen \<le> n" "n < 2 ^ 64"
    using sm unfolding n_def small_def by (auto simp: grown_len_def SDS_MAX_PREALLOC_def)
  note t = grown_type [OF n(2), folded ty_def]
  have bl: "len s < length (buf s)" using ok by (auto simp: sds_open_def)
  show ?thesis
  proof (cases "flags s = ty")
    case True
    show ?thesis
    proof (cases "s_realloc mal (sdsHdrSize ty) (buf s) (sdsHdrSize ty + n + 1)")
      case None
      then show ?thesis using unf True s_realloc_None by auto
    next
      case (Some b)
      define s' where "s' = sdssetalloc (s\<lparr>buf := b\<rparr>) n"
      have b: "length b = n + 1" using s_realloc_length [OF Some] by simp
      have "take (Suc (len s)) b = take (Suc (len s)) (buf s)"
        using s_realloc_take [OF Some, of "Suc (len s)"] bl n by simp
      from terminated [OF this] b bl n have "b ! len s = buf s ! len s" "take (len s) b = take (len s) (buf s)"
        by auto
      moreover have "alloc s' = n" "flags s' = ty" "len s' = len s" "buf s' = b"
        using True t by (simp_all add: s'_def sdssetalloc_def)
      ultimately have "sds_open s'" "str s' = str s" "buf s' ! len s = buf s ! len s" "sdsalloc s' = n"
        using t n b by (auto simp: sds_open_def sdsalloc_def str_def)
      moreover have "sdsMakeRoomFor mal s addlen = Some (Some s')"
        using unf True Some by (simp add: s'_def)
      ultimately show ?thesis using n \<open>len s' = len s\<close> by (auto simp: sdsavail_open)
    qed
  next
    case False
    show ?thesis
    proof (cases "s_malloc mal (sdsHdrSize ty + n + 1)")
      case None
      then have "mal (sdsHdrSize ty + n + 1) = None" by (simp only: s_malloc_None)
      with None unf False show ?thesis by (auto simp del: Suc_eq_plus1)
    next
      case (Some b)
      have b: "length b = sdsHdrSize ty + n + 1" by (rule s_malloc_length [OF Some])
      define b' where "b' = take (len s + 1) (buf s) @ drop (len s + 1) (drop (sdsHdrSize ty) b)"
      define s' where "s' = sdssetalloc (sdssetlen (s\<lparr>flags := ty, buf := b'\<rparr>) (len s)) n"
      have lb: "length b' = n + 1" using bl b n by (simp add: b'_def)
      have "take (Suc (len s)) b' = take (Suc (len s)) (buf s)" using bl by (simp add: b'_def)
      from terminated [OF this] lb bl n have "b' ! len s = buf s ! len s" "take (len s) b' = take (len s) (buf s)"
        by auto
      moreover have "alloc s' = n" "flags s' = ty" "len s' = len s" "buf s' = b'"
        using n t by (auto simp: s'_def sdssetalloc_def sdssetlen_def)
      ultimately have "sds_open s'" "str s' = str s" "buf s' ! len s = buf s ! len s" "sdsalloc s' = n"
        using t n lb by (auto simp: sds_open_def sdsalloc_def str_def)
      moreover have "sdsMakeRoomFor mal s addlen = Some (Some s')"
        using unf False Some bl b n by (simp add: s'_def b'_def)
      ultimately show ?thesis using n \<open>len s' = len s\<close> by (auto simp: sdsavail_open)
    qed
  qed
qed

lemma MakeRoom_spec:
  assumes ok: "sds_ok s" and sm: "small (len s + addlen)"
  shows "(\<exists>s'. sdsMakeRoomFor mal s addlen = Some (Some s') \<and> sds_ok s' \<and> len s' = len s
      \<and> str s' = str s \<and> addlen \<le> sdsavail s')
    \<or> sdsMakeRoomFor mal s addlen = Some None \<and> (\<exists>n. mal n = None)"
  using MakeRoom_open [OF _ sm, of mal] ok by (auto simp: sds_ok_open)

lemma written_ok:
  assumes ok: "sds_ok s" and n: "n \<le> sdsalloc s" and b: "length b = length (buf s)" "b ! n = NUL"
    and t: "flags s = SDS_TYPE_5 \<Longrightarrow> n \<le> len s"
  shows "sds_ok (sdssetlen (s\<lparr>buf := b\<rparr>) n)" "str (sdssetlen (s\<lparr>buf := b\<rparr>) n) = take n b"
    "len (sdssetlen (s\<lparr>buf := b\<rparr>) n) = n"
proof -
  have "n < 2 ^ width (flags s)" using ok n by (auto simp: sds_ok_def)
  then show "len (sdssetlen (s\<lparr>buf := b\<rparr>) n) = n" by (simp add: sdssetlen_def)
  then show "sds_ok (sdssetlen (s\<lparr>buf := b\<rparr>) n)" "str (sdssetlen (s\<lparr>buf := b\<rparr>) n) = take n b"
    using ok n b by (auto simp: sds_ok_def str_def sdsalloc_def sdssetlen_def)
qed

lemma sdscatlen_gives:
  assumes ok: "sds_ok s" and sm: "small (len s + n)" and t: "n \<le> length t"
  shows "gives mal (sdscatlen mal s t n) (str s @ take n t)"
  using MakeRoom_spec [OF ok sm, of mal]
proof (elim disjE exE conjE)
  fix s'
  assume s': "sdsMakeRoomFor mal s n = Some (Some s')" "sds_ok s'" "len s' = len s"
    "str s' = str s" "n \<le> sdsavail s'"
  then have room: "len s + n \<le> sdsalloc s'" "sdsalloc s' < length (buf s')"
    by (auto simp: sdsavail_ok sds_ok_def)
  define b where "b = take (len s) (buf s') @ take n t @ drop (len s + n) (buf s')"
  define b' where "b' = b[len s + n := NUL]"
  have lb: "length b = length (buf s')" using room t by (simp add: b_def)
  have bl: "blit (buf s') (len s) t n = Some b" using room t by (simp add: b_def)
  have z: "size_t (int (len s) + int n) = len s + n"
    using sm by (simp add: small_def nat_add_distrib)
  have "sdscatlen mal s t n = Some (Some (sdssetlen (s'\<lparr>buf := b'\<rparr>) (len s + n)))"
    using s'(1) bl room lb
    by (simp add: sdscatlen_def Let_def sdslen_def z b'_def sdssetlen_def)
  moreover have "take (len s + n) b' = str s @ take n t"
    using t room s'(3,4) ok unfolding b'_def b_def by (auto simp: str_def sds_ok_def)
  moreover have "sds_ok (sdssetlen (s'\<lparr>buf := b'\<rparr>) (len s + n)) \<and>
      str (sdssetlen (s'\<lparr>buf := b'\<rparr>) (len s + n)) = take (len s + n) b'"
  proof -
    have "flags s' = SDS_TYPE_5 \<Longrightarrow> len s + n \<le> len s'" using room(1) by (simp add: sdsalloc_def)
    moreover have "length b' = length (buf s')" "b' ! (len s + n) = NUL"
      using lb room by (simp_all add: b'_def)
    ultimately show ?thesis using written_ok [OF s'(2) room(1)] by blast
  qed
  ultimately show ?thesis by (auto simp: gives_def)
next
  fix k
  assume "sdsMakeRoomFor mal s n = Some None" "mal k = None"
  then show ?thesis by (auto simp: gives_def sdscatlen_def Let_def)
qed


lemma gives_Null: "mal n = None \<Longrightarrow> gives mal (Some None) x"
  by (auto simp: gives_def)

lemma gives_Some: "gives mal (Some (Some s)) x \<longleftrightarrow> sds_ok s \<and> str s = x"
  by (auto simp: gives_def)

lemma sdsnewlen_gives:
  assumes n: "small n" and i: "init = None \<or> (\<exists>t. init = Some t \<and> n \<le> length t)"
  shows "gives mal (sdsnewlen mal init n)
     (case init of None \<Rightarrow> replicate n NUL | Some t \<Rightarrow> take n t)"
proof -
  define ty where "ty = (if sdsReqType n = SDS_TYPE_5 \<and> n = 0 then SDS_TYPE_8 else sdsReqType n)"
  have w: "n < 2 ^ width ty"
    using n sdsReqType_width [of n] by (auto simp: ty_def small_def)
  have "n + 20 < 2 ^ 64" using n by (simp add: small_def)
  then have "sdsHdrSize ty + n + 1 < 2 ^ 64" using HdrSize_le [of ty] by linarith
  then have sz: "size_t (int (sdsHdrSize ty) + int n + 1) = sdsHdrSize ty + n + 1"
    by (simp add: nat_add_distrib)
  show ?thesis
  proof (cases "s_malloc mal (sdsHdrSize ty + n + 1)")
    case None
    then have "mal (sdsHdrSize ty + n + 1) = None" by (simp only: s_malloc_None)
    moreover have "sdsnewlen mal init n = Some None"
      using None unfolding sdsnewlen_def ty_def [symmetric] Let_def sz by simp
    ultimately show ?thesis using gives_Null by metis
  next
    case (Some b)
    have b: "length b = sdsHdrSize ty + n + 1" by (rule s_malloc_length [OF Some])
    define c where "c = (case init of None \<Rightarrow> replicate n NUL | Some t \<Rightarrow> take n t)"
    have lc: "length c = n" using i by (auto simp: c_def)
    have "\<exists>b'. sdsnewlen mal init n = Some (Some \<lparr>flags = ty, len = n mod 2 ^ width ty,
        alloc = n mod 2 ^ width ty, buf = b'\<rparr>) \<and> b' = c @ [NUL]"
    proof (cases init)
      case None
      have "(replicate (Suc n) NUL)[n := NUL] = replicate (Suc n) NUL"
        by (metis list_update_id nth_replicate lessI)
      with None Some b show ?thesis unfolding sdsnewlen_def ty_def [symmetric] Let_def sz
        by (simp add: c_def replicate_append_same flip: replicate_Suc)
    next
      case (Some t)
      obtain a where "drop (sdsHdrSize ty + n) b = [a]"
        using b length_Suc_conv [of "drop (sdsHdrSize ty + n) b" 0] by auto
      moreover from this have "drop (n + sdsHdrSize ty) b = [a]" by (simp add: add.commute)
      ultimately show ?thesis using Some \<open>s_malloc mal _ = Some b\<close> b i
        unfolding sdsnewlen_def ty_def [symmetric] Let_def sz
        by (auto simp: c_def list_update_append)
    qed
    define s where "s = \<lparr>flags = ty, len = n, alloc = n, buf = c @ [NUL]\<rparr>"
    have s: "sdsnewlen mal init n = Some (Some s)" "flags s = ty" "len s = n" "alloc s = n"
      "buf s = c @ [NUL]"
      using \<open>\<exists>b'. _ \<and> b' = c @ [NUL]\<close> w by (auto simp: s_def)
    then have "sds_ok s" "str s = c" using lc w
      by (auto simp: sds_ok_def sdsalloc_def str_def nth_append)
    with s(1) show ?thesis by (simp add: gives_Some c_def)
  qed
qed

lemma sdsgrowzero_gives:
  assumes ok: "sds_ok s" and sm: "small n" and l: "len s \<le> n"
  shows "gives mal (sdsgrowzero mal s n) (str s @ replicate (n - len s) NUL)"
proof (cases "n = len s")
  case True
  with ok show ?thesis by (simp add: sdsgrowzero_def sdslen_def gives_Some)
next
  case False
  have "small (len s + (n - len s))" using l sm by simp
  from MakeRoom_spec [OF ok this, of mal] show ?thesis
  proof (elim disjE exE conjE)
    fix s'
    assume s': "sdsMakeRoomFor mal s (n - len s) = Some (Some s')" "sds_ok s'" "len s' = len s"
      "str s' = str s" "n - len s \<le> sdsavail s'"
    then have room: "n \<le> sdsalloc s'" "sdsalloc s' < length (buf s')"
      using l by (auto simp: sdsavail_ok sds_ok_def)
    define b where "b = take (len s) (buf s') @ replicate (n - len s + 1) NUL @ drop (n + 1) (buf s')"
    have b: "length b = length (buf s')" "b ! n = NUL" using room l 
      by (simp_all add: b_def nth_append del: replicate_Suc)
    have "flags s' = SDS_TYPE_5 \<Longrightarrow> n \<le> len s'" using room(1) by (simp add: sdsalloc_def)
    note w = written_ok [OF s'(2) room(1) b this]
    have "sdsgrowzero mal s n = Some (Some (sdssetlen (s'\<lparr>buf := b\<rparr>) n))"
      using False l s'(1) room by (simp add: sdsgrowzero_def Let_def sdslen_def b_def)
    moreover have "take n b = str s @ replicate (n - len s) NUL"
      using s'(3) l room unfolding b_def s'(4) [symmetric]
      by (simp add: str_def del: replicate_Suc)
    ultimately show ?thesis using w by (simp add: gives_Some)
  next
    fix k
    assume "sdsMakeRoomFor mal s (n - len s) = Some None" "mal k = None"
    with False l show ?thesis by (auto simp: gives_def sdsgrowzero_def sdslen_def)
  qed
qed

lemma sdscpylen_gives:
  assumes ok: "sds_ok s" and sm: "small n" and t: "n \<le> length t"
  shows "gives mal (sdscpylen mal s t n) (take n t)"
proof -
  have "(\<exists>s'. (if sdsalloc s < n then sdsMakeRoomFor mal s (size_t (int n - int (sdslen s)))
      else Some (Some s)) = Some (Some s') \<and> sds_ok s' \<and> n \<le> sdsalloc s' \<and> (flags s' = SDS_TYPE_5 \<longrightarrow> n \<le> len s'))
    \<or> (if sdsalloc s < n then sdsMakeRoomFor mal s (size_t (int n - int (sdslen s)))
      else Some (Some s)) = Some None \<and> (\<exists>n. mal n = None)"
  proof (cases "sdsalloc s < n")
    case True
    then have ln: "len s < n" using ok by (auto simp: sds_ok_def)
    then have "size_t (int n - int (sdslen s)) = n - len s"
      using sm by (simp add: small_def sdslen_def nat_diff_distrib)
    moreover have "small (len s + (n - len s))" using ln sm by simp
    ultimately show ?thesis
      using MakeRoom_spec [OF ok, of "n - len s" mal] True ln
      by (auto simp: sdsavail_ok sdsalloc_def)
  next
    case False
    with ok show ?thesis by (auto simp: sdsalloc_def)
  qed
  then show ?thesis
  proof (elim disjE exE conjE)
    fix s'
    assume s': "(if sdsalloc s < n then sdsMakeRoomFor mal s (size_t (int n - int (sdslen s)))
      else Some (Some s)) = Some (Some s')" "sds_ok s'" "n \<le> sdsalloc s'"
      "flags s' = SDS_TYPE_5 \<longrightarrow> n \<le> len s'"
    then have room: "n < length (buf s')" by (auto simp: sds_ok_def)
    define b where "b = (take n t @ drop n (buf s'))[n := NUL]"
    have b: "length b = length (buf s')" "b ! n = NUL" "take n b = take n t"
      using room t by (auto simp: b_def)
    have "flags s' = SDS_TYPE_5 \<Longrightarrow> n \<le> len s'" using s'(4) by simp
    note w = written_ok [OF s'(2,3) b(1,2) this]
    have "sdscpylen mal s t n = Some (Some (sdssetlen (s'\<lparr>buf := b\<rparr>) n))"
      using s'(1) room t by (simp add: sdscpylen_def b_def)
    with w b(3) show ?thesis by (simp add: gives_Some)
  next
    fix k
    assume "(if sdsalloc s < n then sdsMakeRoomFor mal s (size_t (int n - int (sdslen s)))
      else Some (Some s)) = Some None" "mal k = None"
    then show ?thesis by (auto simp: gives_def sdscpylen_def)
  qed
qed

lemma sdsclear_spec:
  assumes "sds_ok s"
  shows "\<exists>s'. sdsclear s = Some s' \<and> sds_ok s' \<and> str s' = [] \<and> flags s' = flags s"
proof -
  have "0 < length (buf s)" using assms by (auto simp: sds_ok_def)
  then show ?thesis using assms
    by (auto simp: sdsclear_def Let_def sdssetlen_def sds_ok_def sdsalloc_def str_def)
qed


subsection \<open>Properties\<close>

text \<open>
  C14. \<^verbatim>\<open>sdsMakeRoomFor\<close> returns a well-formed string with the same text and at least the
  room asked for, or the null pointer when an allocation can fail.
\<close>

theorem sdsMakeRoomFor_correct:
  assumes "sds_ok s" and "len s + addlen < 2 ^ 62"
  shows "(\<exists>s'. sdsMakeRoomFor mal s addlen = Some (Some s') \<and> sds_ok s' \<and> str s' = str s
      \<and> len s + addlen \<le> sdsalloc s')
    \<or> sdsMakeRoomFor mal s addlen = Some None \<and> (\<exists>n. mal n = None)"
proof -
  have "len s' + addlen \<le> sdsalloc s'" if "sds_ok s'" "addlen \<le> sdsavail s'" for s'
    using that sdsavail_ok [OF that(1)] by (auto simp: sds_ok_def)
  moreover have "small (len s + addlen)" using assms(2) by (simp add: small_def)
  ultimately show ?thesis using MakeRoom_spec [OF assms(1), of addlen mal] by metis
qed

text \<open>
  \<^verbatim>\<open>sdscatlen\<close> appends the bytes it is given, whatever they are, and leaves a well-formed
  terminated string, or returns the null pointer when an allocation can fail.
\<close>

theorem sdscatlen_correct:
  assumes "sds_ok s" and "n \<le> length t" and "len s + n < 2 ^ 62"
  shows "(\<exists>s'. sdscatlen mal s t n = Some (Some s') \<and> sds_ok s' \<and> str s' = str s @ take n t)
    \<or> sdscatlen mal s t n = Some None \<and> (\<exists>n. mal n = None)"
  using sdscatlen_gives [of s n t mal] assms by (auto simp: small_def gives_def)

text \<open>
  \<^verbatim>\<open>sdsMakeRoomFor\<close> does not check the sum of the lengths: a request that wraps around
  \<^verbatim>\<open>size_t\<close> shrinks the block below the text it holds.
\<close>

theorem sdsMakeRoomFor_wraps:
  assumes "sds_ok s" and "flags s = SDS_TYPE_8" and "0 < len s" and "mal 4 \<noteq> None"
  shows "\<exists>s'. sdsMakeRoomFor mal s (2 ^ 64 - len s) = Some (Some s') \<and> len s' = len s
     \<and> length (buf s') = 1 \<and> \<not> sds_ok s'"
proof -
  have b: "len s < 2 ^ 8" "sdsavail s < 2 ^ 8" 
    using assms(1,2) sdsavail_ok [OF assms(1)] by (auto simp: sds_ok_def)
  then have a: "\<not> 2 ^ 64 - len s \<le> sdsavail s" by simp
  have z: "size_t (int (len s) + int (2 ^ 64 - len s)) = 0"
    using b by (simp add: size_t_def of_nat_diff)
  obtain bb where bb: "s_realloc mal 3 (buf s) 4 = Some bb"
    using assms(4) s_realloc_None [of mal 3 "buf s" 4] by auto
  have "sdsMakeRoomFor mal s (2 ^ 64 - len s) = Some (Some (s\<lparr>buf := bb, alloc := 0\<rparr>))"
    using a bb assms(2) unfolding sdsMakeRoomFor_def Let_def sdslen_def z
    by (simp add: sdsReqType_def SDS_MAX_PREALLOC_def sdssetalloc_def)
  moreover have "length bb = 1" using s_realloc_length [OF bb] by simp
  ultimately show ?thesis using assms(2,3) by (auto simp: sds_ok_def sdsalloc_def)
qed

definition hello :: sdshdr where
  "hello = \<lparr>flags = SDS_TYPE_8, len = 5, alloc = 8, buf = ''hello'' @ replicate 4 NUL\<rparr>"

lemma hello_ok: "sds_ok hello" "str hello = ''hello''"
  by (auto simp: hello_def sds_ok_def sdsalloc_def str_def nth_append eval_nat_numeral)

definition zero_mal :: allocator where
  "zero_mal n = Some (\<lambda>_. NUL)"

lemma sdsMakeRoomFor_correct_witness:
  "\<exists>s'. sdsMakeRoomFor zero_mal hello 100 = Some (Some s') \<and> str s' = ''hello'' \<and> 105 \<le> sdsalloc s'"
  using sdsMakeRoomFor_correct [OF hello_ok(1), of 100 zero_mal] hello_ok(2)
  by (auto simp: hello_def zero_mal_def)

lemma sdscatlen_correct_witness:
  "\<exists>s'. sdscatlen zero_mal hello ''world'' 5 = Some (Some s') \<and> str s' = ''helloworld''"
  using sdscatlen_correct [OF hello_ok(1), of 5 "''world''" zero_mal] hello_ok(2)
  by (auto simp: hello_def zero_mal_def)

lemma sdsMakeRoomFor_wraps_witness:
  "\<exists>s'. sdsMakeRoomFor zero_mal hello (2 ^ 64 - 5) = Some (Some s') \<and> \<not> sds_ok s'"
  using sdsMakeRoomFor_wraps [OF hello_ok(1), of zero_mal] by (auto simp: hello_def zero_mal_def)

end
