(* ===== verification/Sds_Text.thy ===== *)
theory Sds_Text
  imports Sds
begin

text \<open>
  The functions of \<^verbatim>\<open>9_using_hiredis_api/hiredis/sds.c\<close> that work on the text: numbers,
  formatted output, trimming, ranges, comparison, splitting and joining. The interface to
  the core is the locale \<open>byte_buffer\<close>: a string to which bytes can be appended.
\<close>

subsection \<open>Appending, as an interface\<close>

locale byte_buffer =
  fixes ok :: "'s \<Rightarrow> bool" and content :: "'s \<Rightarrow> string"
    and cat :: "'s \<Rightarrow> string \<Rightarrow> 's option option" and reliable :: bool
  assumes cat_law: "ok s \<Longrightarrow> small (length (content s) + length t) \<Longrightarrow>
      cat s t = Some None \<or> (\<exists>s'. cat s t = Some (Some s') \<and> ok s' \<and> content s' = content s @ t)"
    and cat_reliable: "reliable \<Longrightarrow> ok s \<Longrightarrow> small (length (content s) + length t) \<Longrightarrow>
      cat s t \<noteq> Some None"

text \<open>
  A run of appends that looks at no result: a null pointer is dereferenced by the next one
  and returned by the last one.
\<close>

fun cat_all :: "('s \<Rightarrow> string \<Rightarrow> 's option option) \<Rightarrow> 's option \<Rightarrow> string list \<Rightarrow> 's option option" where
  "cat_all c r [] = Some r"
| "cat_all c r (t # ts) = r \<bind> (\<lambda>s. c s t) \<bind> (\<lambda>r. cat_all c r ts)"

lemma cat_all_append: "cat_all c r (ts @ us) = cat_all c r ts \<bind> (\<lambda>r. cat_all c r us)"
  by (induction ts arbitrary: r) (auto split: Option.bind_split)

lemma cat_all_null: "ts \<noteq> [] \<Longrightarrow> cat_all c None ts = None"
  by (cases ts) auto

context byte_buffer begin

lemma cat_all_spec:
  "ok s \<Longrightarrow> small (length (content s) + length (concat ts)) \<Longrightarrow>
     (\<exists>s'. cat_all cat (Some s) ts = Some (Some s') \<and> ok s' \<and> content s' = content s @ concat ts)
     \<or> (cat_all cat (Some s) ts = None \<or> cat_all cat (Some s) ts = Some None) \<and> \<not> reliable"
proof (induction ts arbitrary: s)
  case (Cons t ts)
  then have sm: "small (length (content s) + length t)" by (simp add: small_def)
  from cat_law [OF Cons.prems(1) sm] show ?case
  proof (elim disjE exE conjE)
    assume "cat s t = Some None"
    with cat_reliable [OF _ Cons.prems(1) sm] cat_all_null [of ts cat] show ?thesis
      by (cases "ts = []") auto
  next
    fix s' assume s': "cat s t = Some (Some s')" "ok s'" "content s' = content s @ t"
    with Cons.IH [OF s'(2)] Cons.prems(2) show ?thesis by (simp add: add.assoc)
  qed
qed simp

end

definition never_null :: "allocator \<Rightarrow> bool" where
  "never_null mal \<longleftrightarrow> (\<forall>n. mal n \<noteq> None)"

lemma never_null_zero [simp]: "never_null zero_mal"
  by (simp add: never_null_def zero_mal_def)

definition cat_bytes :: "allocator \<Rightarrow> sdshdr \<Rightarrow> string \<Rightarrow> sdshdr option option" where
  "cat_bytes mal s t = sdscatlen mal s t (length t)"

interpretation sds: byte_buffer sds_ok str "cat_bytes mal" "never_null mal" for mal
proof
  fix s and t :: string
  assume "sds_ok s" "small (length (str s) + length t)"
  then have *: "gives mal (cat_bytes mal s t) (str s @ t)"
    using sdscatlen_gives [of s "length t" t mal] by (simp add: cat_bytes_def)
  then show "cat_bytes mal s t = Some None
      \<or> (\<exists>s'. cat_bytes mal s t = Some (Some s') \<and> sds_ok s' \<and> str s' = str s @ t)"
    by (auto simp: gives_def)
  show "never_null mal \<Longrightarrow> cat_bytes mal s t \<noteq> Some None"
    using * unfolding gives_def never_null_def by (metis option.distinct(1) option.inject)
qed

subsection \<open>Numbers\<close>

text \<open>The \<^verbatim>\<open>do\<close> loop writes the digits backwards from index \<open>p\<close>; then they are reversed.\<close>

function digits_while :: "string \<Rightarrow> nat \<Rightarrow> nat \<Rightarrow> (string \<times> nat) option" where
  "digits_while b p v =
     wr b p (char_of (48 + v mod 10)) \<bind> (\<lambda>b.
       if v div 10 = 0 then Some (b, p + 1) else digits_while b (p + 1) (v div 10))"
  by auto
termination by (relation "measure (\<lambda>(b, p, v). v)") auto

function reverse_while :: "string \<Rightarrow> nat \<Rightarrow> nat \<Rightarrow> string option" where
  "reverse_while b s p =
     (if s < p
      then rd b s \<bind> (\<lambda>aux. rd b p \<bind> (\<lambda>c. wr b s c \<bind> (\<lambda>b. wr b p aux \<bind> (\<lambda>b.
             reverse_while b (s + 1) (p - 1)))))
      else Some b)"
  by auto
termination by (relation "measure (\<lambda>(b, s, p). p - s)") auto

definition SDS_LLSTR_SIZE :: nat where
  "SDS_LLSTR_SIZE = 21"

text \<open>The results are the buffer and the returned length. \<open>- value\<close> wraps at \<^verbatim>\<open>LLONG_MIN\<close>.\<close>

definition sdsll2str :: "string \<Rightarrow> int \<Rightarrow> (string \<times> nat) option" where
  "sdsll2str s value =
     (let v = size_t (if value < 0 then - value else value)
      in digits_while s 0 v \<bind> (\<lambda>(s, p).
         (if value < 0 then wr s p (CHR ''-'') \<bind> (\<lambda>s. Some (s, p + 1)) else Some (s, p)) \<bind> (\<lambda>(s, p).
         wr s p NUL \<bind> (\<lambda>s. reverse_while s 0 (p - 1) \<bind> (\<lambda>s. Some (s, p))))))"

definition sdsull2str :: "string \<Rightarrow> nat \<Rightarrow> (string \<times> nat) option" where
  "sdsull2str s v =
     digits_while s 0 v \<bind> (\<lambda>(s, p).
       wr s p NUL \<bind> (\<lambda>s. reverse_while s 0 (p - 1) \<bind> (\<lambda>s. Some (s, p))))"

definition sdsfromlonglong :: "allocator \<Rightarrow> int \<Rightarrow> sdshdr option option" where
  "sdsfromlonglong mal value =
     sdsll2str (replicate SDS_LLSTR_SIZE NUL) value \<bind> (\<lambda>(b, n). sdsnewlen mal (Some b) n)"

subsection \<open>Formatted output\<close>

text \<open>
  \<^verbatim>\<open>sdscatvprintf\<close>: \<open>out\<close> is the text that \<^verbatim>\<open>vsnprintf\<close> makes of the format and its
  arguments, of which it stores at most \<open>n - 1\<close> bytes and a NUL; \<open>fmtlen\<close> is the length
  of the format. The \<^verbatim>\<open>while(1)\<close> loop doubles the buffer.
\<close>

definition vsnprintf :: "string \<Rightarrow> nat \<Rightarrow> string \<Rightarrow> string option" where
  "vsnprintf b n out = blit b 0 (take (n - 1) out @ [NUL]) (min (n - 1) (length out) + 1)"

partial_function (option) printf_while ::
  "allocator \<Rightarrow> string \<Rightarrow> nat \<Rightarrow> string \<Rightarrow> string option option" where
  "printf_while mal b n out =
     wr b (n - 2) NUL \<bind> (\<lambda>b. vsnprintf b n out \<bind> (\<lambda>b. rd b (n - 2) \<bind> (\<lambda>c.
       if c \<noteq> NUL
       then (case s_malloc mal (size_t (2 * int n)) of
               None \<Rightarrow> Some None
             | Some b \<Rightarrow> printf_while mal b (size_t (2 * int n)) out)
       else Some (Some b))))"

definition sdscatvprintf :: "allocator \<Rightarrow> sdshdr \<Rightarrow> nat \<Rightarrow> string \<Rightarrow> sdshdr option option" where
  "sdscatvprintf mal s fmtlen out =
     (let buflen = size_t (2 * int fmtlen)
      in (if buflen > 1024
          then (case s_malloc mal buflen of None \<Rightarrow> Some None | Some b \<Rightarrow> printf_while mal b buflen out)
          else printf_while mal (replicate 1024 NUL) 1024 out) \<bind> (\<lambda>r. case r of
            None \<Rightarrow> Some None
          | Some b \<Rightarrow> sdscat mal s b))"

text \<open>The variadic arguments of \<^verbatim>\<open>sdscatfmt\<close>; reading one at another type is undefined.\<close>

datatype fmt_arg = A_str string | A_sds sdshdr | A_int int | A_llong int | A_uint nat | A_ullong nat

definition room_or_crash :: "allocator \<Rightarrow> sdshdr \<Rightarrow> nat \<Rightarrow> sdshdr option" where
  "room_or_crash mal s l =
     (if sdsavail s < l then sdsMakeRoomFor mal s l \<bind> (\<lambda>r. r) else Some s)"

text \<open>The index \<open>i\<close> of the next byte to write is a C \<^verbatim>\<open>int\<close>: \<^verbatim>\<open>i += l\<close> adds a \<^verbatim>\<open>size_t\<close> and truncates.\<close>

definition copy_in :: "allocator \<Rightarrow> sdshdr \<Rightarrow> int \<Rightarrow> string \<Rightarrow> nat \<Rightarrow> (sdshdr \<times> int) option" where
  "copy_in mal s i src l =
     room_or_crash mal s l \<bind> (\<lambda>s.
       if i < 0 then None
       else blit (buf s) (nat i) src l \<bind> (\<lambda>b. Some (sdsinclen (s\<lparr>buf := b\<rparr>) l, int32 (i + int l))))"

definition put_char :: "sdshdr \<Rightarrow> int \<Rightarrow> char \<Rightarrow> (sdshdr \<times> int) option" where
  "put_char s i c =
     (if i < 0 \<or> i = 2 ^ 31 - 1 then None
      else wr (buf s) (nat i) c \<bind> (\<lambda>b. Some (sdsinclen (s\<lparr>buf := b\<rparr>) 1, i + 1)))"

fun fmt_directive ::
  "allocator \<Rightarrow> char \<Rightarrow> fmt_arg list \<Rightarrow> sdshdr \<Rightarrow> int \<Rightarrow> ((sdshdr \<times> int) \<times> fmt_arg list) option" where
  "fmt_directive mal d args s i =
     (if d = CHR ''s'' then
        (case args of A_str m # args \<Rightarrow> strlen m \<bind> (\<lambda>l. copy_in mal s i m l \<bind> (\<lambda>r. Some (r, args)))
         | _ \<Rightarrow> None)
      else if d = CHR ''S'' then
        (case args of A_sds x # args \<Rightarrow> copy_in mal s i (buf x) (sdslen x) \<bind> (\<lambda>r. Some (r, args))
         | _ \<Rightarrow> None)
      else if d = CHR ''i'' \<or> d = CHR ''I'' then
        (case (d, args) of
           (CHR ''i'', A_int num # args) \<Rightarrow>
             sdsll2str (replicate SDS_LLSTR_SIZE NUL) num \<bind> (\<lambda>(b, l).
               copy_in mal s i b l \<bind> (\<lambda>r. Some (r, args)))
         | (CHR ''I'', A_llong num # args) \<Rightarrow>
             sdsll2str (replicate SDS_LLSTR_SIZE NUL) num \<bind> (\<lambda>(b, l).
               copy_in mal s i b l \<bind> (\<lambda>r. Some (r, args)))
         | _ \<Rightarrow> None)
      else if d = CHR ''u'' \<or> d = CHR ''U'' then
        (case (d, args) of
           (CHR ''u'', A_uint num # args) \<Rightarrow>
             sdsull2str (replicate SDS_LLSTR_SIZE NUL) num \<bind> (\<lambda>(b, l).
               copy_in mal s i b l \<bind> (\<lambda>r. Some (r, args)))
         | (CHR ''U'', A_ullong num # args) \<Rightarrow>
             sdsull2str (replicate SDS_LLSTR_SIZE NUL) num \<bind> (\<lambda>(b, l).
               copy_in mal s i b l \<bind> (\<lambda>r. Some (r, args)))
         | _ \<Rightarrow> None)
      else put_char s i d \<bind> (\<lambda>r. Some (r, args)))"

text \<open>The \<^verbatim>\<open>while(*f)\<close> loop, on the memory \<open>fm\<close> of the format.\<close>

function fmt_while ::
  "allocator \<Rightarrow> string \<Rightarrow> nat \<Rightarrow> fmt_arg list \<Rightarrow> sdshdr \<Rightarrow> int \<Rightarrow> (sdshdr \<times> int) option" where
  "fmt_while mal fm f args s i =
     (if f < length fm
      then (if fm ! f = NUL then Some (s, i)
            else (if sdsavail s = 0 then sdsMakeRoomFor mal s 1 \<bind> (\<lambda>r. r) else Some s) \<bind> (\<lambda>s.
              if fm ! f = CHR ''%''
              then rd fm (f + 1) \<bind> (\<lambda>d. fmt_directive mal d args s i \<bind> (\<lambda>((s, i), args).
                     fmt_while mal fm (f + 2) args s i))
              else put_char s i (fm ! f) \<bind> (\<lambda>(s, i). fmt_while mal fm (f + 1) args s i)))
      else None)"
  by pat_completeness auto
termination by (relation "measure (\<lambda>(mal, fm, f, args, s, i). length fm - f)") auto

definition sdscatfmt :: "allocator \<Rightarrow> sdshdr \<Rightarrow> string \<Rightarrow> fmt_arg list \<Rightarrow> sdshdr option" where
  "sdscatfmt mal s fm args =
     fmt_while mal fm 0 args s (int32 (int (sdslen s))) \<bind> (\<lambda>(s, i).
       if i < 0 then None else wr (buf s) (nat i) NUL \<bind> (\<lambda>b. Some (s\<lparr>buf := b\<rparr>)))"

subsection \<open>Trimming, ranges, case, comparison\<close>

text \<open>\<^verbatim>\<open>strchr(cset, c)\<close>: the terminating NUL counts as part of the set.\<close>

definition strchr :: "string \<Rightarrow> char \<Rightarrow> bool" where
  "strchr cset c \<longleftrightarrow> c \<in> set cset \<or> c = NUL"

function trim_left :: "string \<Rightarrow> string \<Rightarrow> nat \<Rightarrow> nat \<Rightarrow> nat option" where
  "trim_left b cset sp n =
     (if sp < n
      then rd b sp \<bind> (\<lambda>c. if strchr cset c then trim_left b cset (sp + 1) n else Some sp)
      else Some sp)"
  by auto
termination by (relation "measure (\<lambda>(b, cset, sp, n). n - sp)") auto

text \<open>\<open>ep\<close> is the distance of the pointer from the start of the string, -1 when it is empty.\<close>

function trim_right :: "string \<Rightarrow> string \<Rightarrow> nat \<Rightarrow> int \<Rightarrow> int option" where
  "trim_right b cset sp ep =
     (if ep > int sp
      then rd b (nat ep) \<bind> (\<lambda>c. if strchr cset c then trim_right b cset sp (ep - 1) else Some ep)
      else Some ep)"
  by auto
termination by (relation "measure (\<lambda>(b, cset, sp, ep). nat (ep - int sp))") auto

definition sdstrim :: "sdshdr \<Rightarrow> string \<Rightarrow> sdshdr option" where
  "sdstrim s cset =
     trim_left (buf s) cset 0 (sdslen s) \<bind> (\<lambda>sp.
     trim_right (buf s) cset sp (int (sdslen s) - 1) \<bind> (\<lambda>ep.
       (let ln = (if int sp > ep then 0 else nat (ep - int sp) + 1)
        in (if sp \<noteq> 0 then blit (buf s) 0 (drop sp (buf s)) ln else Some (buf s)) \<bind> (\<lambda>b.
           wr b ln NUL \<bind> (\<lambda>b. Some (sdssetlen (s\<lparr>buf := b\<rparr>) ln))))))"

text \<open>\<open>start\<close> and \<open>end\<close> are \<^verbatim>\<open>int\<close>, the length is converted to it.\<close>

definition sdsrange :: "sdshdr \<Rightarrow> int \<Rightarrow> int \<Rightarrow> sdshdr option" where
  "sdsrange s start0 end0 =
     (let ln = int (sdslen s)
      in if ln = 0 then Some s
         else
           (let start = (if start0 < 0 then max 0 (int32 (ln + start0)) else start0);
                en = (if end0 < 0 then max 0 (int32 (ln + end0)) else end0);
                newlen = (if start > en then 0 else size_t (int32 (en - start + 1)));
                (start, newlen) =
                  (if newlen \<noteq> 0
                   then (if start \<ge> int32 ln then (start, 0)
                         else if en \<ge> int32 ln
                         then (let en = int32 (ln - 1)
                               in (start, if start > en then 0 else size_t (int32 (en - start + 1))))
                         else (start, newlen))
                   else (0, newlen))
            in (if start \<noteq> 0 \<and> newlen \<noteq> 0 then blit (buf s) 0 (drop (nat start) (buf s)) newlen
                else Some (buf s)) \<bind> (\<lambda>b.
               wr b newlen NUL \<bind> (\<lambda>b. Some (sdssetlen (s\<lparr>buf := b\<rparr>) newlen)))))"

text \<open>The loops over \<open>s[0..len)\<close> that change one character at a time.\<close>

fun each :: "(char \<Rightarrow> char) \<Rightarrow> string \<Rightarrow> nat \<Rightarrow> string option" where
  "each f b 0 = Some b"
| "each f [] (Suc n) = None"
| "each f (c # b) (Suc n) = map_option (\<lambda>b. f c # b) (each f b n)"

definition sdstolower :: "sdshdr \<Rightarrow> sdshdr option" where
  "sdstolower s = each tolower (buf s) (sdslen s) \<bind> (\<lambda>b. Some (s\<lparr>buf := b\<rparr>))"

definition sdstoupper :: "sdshdr \<Rightarrow> sdshdr option" where
  "sdstoupper s = each toupper (buf s) (sdslen s) \<bind> (\<lambda>b. Some (s\<lparr>buf := b\<rparr>))"

fun map_char :: "string \<Rightarrow> string \<Rightarrow> nat \<Rightarrow> char \<Rightarrow> char" where
  "map_char (f # frm) (t # to) (Suc n) c = (if c = f then t else map_char frm to n c)"
| "map_char _ _ _ c = c"

definition sdsmapchars :: "sdshdr \<Rightarrow> string \<Rightarrow> string \<Rightarrow> nat \<Rightarrow> sdshdr option" where
  "sdsmapchars s frm to setlen =
     each (map_char frm to setlen) (buf s) (sdslen s) \<bind> (\<lambda>b. Some (s\<lparr>buf := b\<rparr>))"

text \<open>\<^verbatim>\<open>memcmp\<close>, of which only the sign is specified; here it returns -1, 0 or 1.\<close>

fun memcmp :: "string \<Rightarrow> string \<Rightarrow> nat \<Rightarrow> int option" where
  "memcmp a b 0 = Some 0"
| "memcmp (x # a) (y # b) (Suc n) =
     (if code x < code y then Some (- 1) else if code x > code y then Some 1 else memcmp a b n)"
| "memcmp _ _ (Suc n) = None"

definition sdscmp :: "sdshdr \<Rightarrow> sdshdr \<Rightarrow> int option" where
  "sdscmp s1 s2 =
     (let l1 = sdslen s1; l2 = sdslen s2; minlen = (if l1 < l2 then l1 else l2)
      in memcmp (buf s1) (buf s2) minlen \<bind> (\<lambda>cmp.
         Some (if cmp = 0 then int32 (int l1 - int l2) else cmp)))"

subsection \<open>Splitting and joining\<close>

text \<open>
  The loop of \<^verbatim>\<open>sdssplitlen\<close> from \<open>j\<close> on: \<open>slots\<close> is the size of the array of tokens,
  \<open>Some None\<close> the \<^verbatim>\<open>cleanup\<close> label.
\<close>

definition add_token :: "allocator \<Rightarrow> sdshdr list \<Rightarrow> nat \<Rightarrow> string \<Rightarrow> nat \<Rightarrow> sdshdr list option option" where
  "add_token mal tokens slots t n =
     (if length tokens < slots
      then sdsnewlen mal (Some t) n \<bind> (\<lambda>r. Some (map_option (\<lambda>x. tokens @ [x]) r))
      else None)"

function split_for :: "allocator \<Rightarrow> string \<Rightarrow> string \<Rightarrow> sdshdr list \<Rightarrow> nat \<Rightarrow> nat \<Rightarrow> nat
    \<Rightarrow> (sdshdr list \<times> nat \<times> nat) option option" where
  "split_for mal s sep tokens slots start j =
     (if int j < int (length s) - (int (length sep) - 1)
      then (case (if slots < length tokens + 2
                  then map_option (\<lambda>_. slots * 2) (s_malloc mal (8 * (slots * 2)))
                  else Some slots) of
              None \<Rightarrow> Some None
            | Some slots \<Rightarrow>
                if take (length sep) (drop j s) = sep
                then add_token mal tokens slots (drop start s) (j - start) \<bind> (\<lambda>r. case r of
                       None \<Rightarrow> Some None
                     | Some tokens \<Rightarrow>
                         split_for mal s sep tokens slots (j + length sep) (j + (length sep - 1) + 1))
                else split_for mal s sep tokens slots start (j + 1))
      else Some (Some (tokens, slots, start)))"
  by pat_completeness auto
termination by (relation "measure (\<lambda>(mal, s, sep, tokens, slots, start, j). Suc (length s) - j)") auto

text \<open>The text \<open>s\<close> and the separator \<open>sep\<close>, of the lengths that are passed.\<close>

definition sdssplitlen :: "allocator \<Rightarrow> string \<Rightarrow> string \<Rightarrow> sdshdr list option option" where
  "sdssplitlen mal s sep =
     (if length sep < 1 then Some None
      else case s_malloc mal (8 * 5) of
        None \<Rightarrow> Some None
      | Some _ \<Rightarrow>
          if length s = 0 then Some (Some [])
          else split_for mal s sep [] 5 0 0 \<bind> (\<lambda>r. case r of
            None \<Rightarrow> Some None
          | Some (tokens, slots, start) \<Rightarrow>
              add_token mal tokens slots (drop start s) (length s - start)))"

text \<open>The loops of \<^verbatim>\<open>sdsjoin\<close> and \<^verbatim>\<open>sdsjoinsds\<close>; \<open>join\<close> may be null.\<close>

fun join_for :: "allocator \<Rightarrow> sdshdr option \<Rightarrow> string list \<Rightarrow> string \<Rightarrow> sdshdr option option" where
  "join_for mal join [] sep = Some join"
| "join_for mal join (a # argv) sep =
     join \<bind> (\<lambda>s. sdscat mal s a) \<bind> (\<lambda>join.
       (if argv \<noteq> [] then join \<bind> (\<lambda>s. sdscat mal s sep) else Some join) \<bind> (\<lambda>join.
         join_for mal join argv sep))"

definition sdsjoin :: "allocator \<Rightarrow> string list \<Rightarrow> string \<Rightarrow> sdshdr option option" where
  "sdsjoin mal argv sep = sdsempty mal \<bind> (\<lambda>join. join_for mal join argv sep)"

fun joinsds_for :: "allocator \<Rightarrow> sdshdr option \<Rightarrow> sdshdr list \<Rightarrow> string \<Rightarrow> nat \<Rightarrow> sdshdr option option" where
  "joinsds_for mal join [] sep seplen = Some join"
| "joinsds_for mal join (a # argv) sep seplen =
     join \<bind> (\<lambda>s. sdscatsds mal s a) \<bind> (\<lambda>join.
       (if argv \<noteq> [] then join \<bind> (\<lambda>s. sdscatlen mal s sep seplen) else Some join) \<bind> (\<lambda>join.
         joinsds_for mal join argv sep seplen))"

definition sdsjoinsds :: "allocator \<Rightarrow> sdshdr list \<Rightarrow> string \<Rightarrow> nat \<Rightarrow> sdshdr option option" where
  "sdsjoinsds mal argv sep seplen =
     sdsempty mal \<bind> (\<lambda>join. joinsds_for mal join argv sep seplen)"

subsection \<open>Lemmas: numbers\<close>

declare digits_while.simps [simp del] reverse_while.simps [simp del]

lemma digits_while_spec:
  "p + length (dec v) \<le> length b \<Longrightarrow>
   digits_while b p v = Some (take p b @ rev (dec v) @ drop (p + length (dec v)) b, p + length (dec v))"
proof (induction b p v rule: digits_while.induct)
  case (1 b p v)
  have p: "p < length b" using "1.prems" by (subst (asm) dec.simps) (auto split: if_splits)
  define c where "c = (char_of (48 + v mod 10) :: char)"
  have up: "b[p := c] = take p b @ c # drop (Suc p) b" using p by (rule upd_conv_take_nth_drop)
  show ?case
  proof (cases "v < 10")
    case True
    then have "dec v = [c]" by (subst dec.simps) (simp add: c_def)
    then show ?thesis using True p up
      by (subst digits_while.simps) (simp add: c_def)
  next
    case False
    then have d: "dec v = dec (v div 10) @ [c]" by (subst dec.simps) (simp add: c_def)
    have "digits_while b p v = digits_while (b[p := c]) (p + 1) (v div 10)"
      using False p by (subst digits_while.simps) (simp add: c_def div_eq_0_iff)
    also have "\<dots> = Some (take (p + 1) (b[p := c]) @ rev (dec (v div 10))
        @ drop (p + 1 + length (dec (v div 10))) (b[p := c]), p + 1 + length (dec (v div 10)))"
      using False p "1.prems" d by (intro "1.IH" [of "b[p := c]"]) (auto simp: c_def)
    finally show ?thesis using p d by (simp add: up add.commute)
  qed
qed

lemma reverse_while_spec:
  "reverse_while (xs @ m @ ys) (length xs) (length xs + length m - 1) = Some (xs @ rev m @ ys)"
proof (induction "length m" arbitrary: xs m ys rule: less_induct)
  case less
  show ?case
  proof (cases "length m \<le> 1")
    case True
    then have "rev m = m" by (cases m) auto
    with True show ?thesis by (subst reverse_while.simps) auto
  next
    case False
    then obtain x m' y where m: "m = x # m' @ [y]"
      by (cases m; cases "tl m" rule: rev_cases) auto
    have "reverse_while (xs @ m @ ys) (length xs) (length xs + length m - 1)
        = reverse_while ((xs @ [y]) @ m' @ ([x] @ ys)) (length (xs @ [y])) (length (xs @ [y]) + length m' - 1)"
      by (subst reverse_while.simps) (simp add: m nth_append list_update_append)
    also have "\<dots> = Some ((xs @ [y]) @ rev m' @ ([x] @ ys))" by (rule less) (simp add: m)
    finally show ?thesis by (simp add: m)
  qed
qed

definition decimal :: "int \<Rightarrow> string" where
  "decimal x = (if x < 0 then CHR ''-'' # dec (nat (- x)) else dec (nat x))"

lemma sdsull2str_spec:
  assumes "length (dec v) < length b"
  shows "sdsull2str b v = Some (dec v @ NUL # drop (length (dec v) + 1) b, length (dec v))"
proof -
  obtain x r where d: "drop (length (dec v)) b = x # r" "drop (length (dec v) + 1) b = r"
    using assms by (metis Suc_eq_plus1 Cons_nth_drop_Suc)
  have "digits_while b 0 v = Some (rev (dec v) @ x # r, length (dec v))"
    using digits_while_spec [of 0 v b] assms d by simp
  moreover have "reverse_while (rev (dec v) @ NUL # r) 0 (length (dec v) - 1) = Some (dec v @ NUL # r)"
    using reverse_while_spec [of "[]" "rev (dec v)" "NUL # r"] by simp
  ultimately show ?thesis using d(2) by (simp add: sdsull2str_def list_update_append)
qed

lemma sdsll2str_spec:
  assumes "length (decimal x) < length b" and "- (2 ^ 63) \<le> x" and "x < 2 ^ 63"
  shows "sdsll2str b x = Some (decimal x @ NUL # drop (length (decimal x) + 1) b, length (decimal x))"
proof (cases "x < 0")
  case False
  then have "sdsll2str b x = sdsull2str b (nat x)"
    using assms(3) by (simp add: sdsll2str_def sdsull2str_def)
  with False assms(1) sdsull2str_spec [of "nat x" b] show ?thesis by (simp add: decimal_def)
next
  case True
  define v where "v = nat (- x)"
  have v: "size_t (- x) = v" using True assms(2) by (simp add: v_def)
  have l: "length (dec v) + 1 < length b" using True assms(1) by (simp add: decimal_def v_def)
  obtain y r where d: "drop (length (dec v)) b = y # r"
    using l by (metis Cons_nth_drop_Suc add_lessD1)
  then have "drop (length (dec v) + 1) b = r" by (metis drop_Suc drop_tl list.sel(3) Suc_eq_plus1)
  then obtain z r' where d2: "r = z # r'" "drop (length (dec v) + 2) b = r'"
    using l by (metis Cons_nth_drop_Suc Suc_eq_plus1 add_2_eq_Suc')
  have "digits_while b 0 v = Some (rev (dec v) @ y # z # r', length (dec v))"
    using digits_while_spec [of 0 v b] l d d2 by simp
  moreover have "reverse_while (rev (dec v) @ CHR ''-'' # NUL # r') 0 (length (dec v))
      = Some (CHR ''-'' # dec v @ NUL # r')"
    using reverse_while_spec [of "[]" "rev (dec v) @ [CHR ''-'']" "NUL # r'"] by simp
  ultimately show ?thesis
    using True d2(2) by (simp add: sdsll2str_def v decimal_def list_update_append flip: v_def)
qed

lemma decimal_length:
  assumes "- (2 ^ 63) \<le> x" and "x < 2 ^ 63"
  shows "length (decimal x) < SDS_LLSTR_SIZE"
proof -
  have "nat \<bar>x\<bar> < 10 ^ 19" using assms by simp
  then have "length (dec (nat \<bar>x\<bar>)) \<le> 19" by (rule length_dec) simp
  then show ?thesis by (auto simp: decimal_def SDS_LLSTR_SIZE_def)
qed

lemma dec_length_ull: "v < 2 ^ 64 \<Longrightarrow> length (dec v) < SDS_LLSTR_SIZE"
  using length_dec [of v 20] by (auto simp: SDS_LLSTR_SIZE_def)

fun value_of :: "string \<Rightarrow> nat" where
  "value_of s = foldl (\<lambda>n c. 10 * n + (code c - 48)) 0 s"

lemma value_of_dec: "value_of (dec n) = n"
proof (induction n rule: dec.induct)
  case (1 n)
  show ?case
  proof (cases "n < 10")
    case True
    then show ?thesis by (subst dec.simps) (simp add: code_def)
  next
    case False
    then have "value_of (dec n) = 10 * value_of (dec (n div 10)) + n mod 10"
      by (subst dec.simps) (simp add: code_def)
    with False 1 show ?thesis by simp
  qed
qed

end
