(* ===== verification/Sds_Format.thy ===== *)
theory Sds_Format
  imports Sds_Text
begin

text \<open>
  The formatted output of \<^verbatim>\<open>sds.c\<close>: the buffer of \<^verbatim>\<open>sdscatvprintf\<close> and the directives of \<^verbatim>\<open>sdscatfmt\<close>.
\<close>

declare fmt_while.simps [simp del] fmt_directive.simps [simp del] trim_left.simps [simp del]
  trim_right.simps [simp del] split_for.simps [simp del]

subsection \<open>Formatted output\<close>

lemma strlen_nul: "strlen (x @ NUL # r) = Some (length (takeWhile (\<lambda>c. c \<noteq> NUL) x))"
  by (induction x) auto

lemma take_takeWhile: "take (length (takeWhile P x)) (x @ r) = takeWhile P x"
  by (induction x) auto

lemma takeWhile_cut:
  assumes "k < length x" and "\<not> P (x ! k)"
  shows "takeWhile P (take k x) = takeWhile P x"
proof -
  have "x = take k x @ x ! k # drop (Suc k) x" using assms(1) by (rule id_take_nth_drop)
  then show ?thesis using assms(2) by (metis takeWhile_tail)
qed

lemma vsnprintf_shape:
  assumes "2 \<le> n" and "length b = n" and "b ! (n - 2) = NUL"
  shows "\<exists>b'. vsnprintf b n out = Some b' \<and> length b' = n \<and>
    (if b' ! (n - 2) = NUL
     then \<exists>x r. b' = x @ NUL # r \<and> takeWhile (\<lambda>c. c \<noteq> NUL) x = takeWhile (\<lambda>c. c \<noteq> NUL) out
     else n - 1 \<le> length out)"
proof -
  define m where "m = min (n - 1) (length out)"
  define b' where "b' = take (n - 1) out @ NUL # drop (m + 1) b"
  have v: "vsnprintf b n out = Some b'" "length b' = n"
    using assms by (cases "n - 1 \<le> length out"; auto simp: vsnprintf_def b'_def m_def)+
  show ?thesis
  proof (cases "n - 1 \<le> length out")
    case False
    then have m: "m = length out" "length out \<le> n - 2" "take (n - 1) out = out" by (auto simp: m_def)
    have "b' ! (n - 2) = NUL"
    proof (cases "length out = n - 2")
      case True
      with m show ?thesis by (simp add: b'_def nth_append)
    next
      case neq: False
      then have "n - 2 - length out = Suc (n - 2 - m - 1)" using m by simp
      then have "b' ! (n - 2) = drop (m + 1) b ! (n - 2 - m - 1)"
        using m by (simp add: b'_def nth_append)
      also have "\<dots> = b ! (m + 1 + (n - 2 - m - 1))" using assms m by (intro nth_drop) simp
      also have "m + 1 + (n - 2 - m - 1) = n - 2" using m neq by simp
      also have "b ! (n - 2) = NUL" by (rule assms(3))
      finally show ?thesis .
    qed
    with v m show ?thesis unfolding b'_def by auto
  next
    case True
    then have "m = n - 1" by (simp add: m_def)
    have n2: "b' ! (n - 2) = out ! (n - 2)" using True assms(1) by (auto simp: b'_def nth_append)
    show ?thesis
    proof (cases "out ! (n - 2) = NUL")
      case False
      with v n2 True show ?thesis by auto
    next
      case nul: True
      have "takeWhile (\<lambda>c. c \<noteq> NUL) (take (n - 2) out) = takeWhile (\<lambda>c. c \<noteq> NUL) out"
        using True assms(1) nul by (intro takeWhile_cut) auto
      moreover have "take (Suc (n - 2)) out = take (n - 2) out @ [NUL]"
        using take_Suc_conv_app_nth [of "n - 2" out] True assms(1) nul by simp
      moreover have "Suc (n - 2) = n - 1" using assms(1) by simp
      ultimately show ?thesis using v n2 nul unfolding b'_def by auto
    qed
  qed
qed

lemma printf_while_spec:
  assumes "2 \<le> n" and "length b = n" and "n < 2 ^ 61" and "length out < 2 ^ 59"
  shows "(\<exists>b' k. printf_while mal b n out = Some (Some b') \<and> strlen b' = Some k \<and> k \<le> length b'
      \<and> take k b' = takeWhile (\<lambda>c. c \<noteq> NUL) out)
    \<or> printf_while mal b n out = Some None \<and> (\<exists>k. mal k = None)"
  using assms
proof (induction "length out + 2 - n" arbitrary: b n rule: less_induct)
  case less
  define b0 where "b0 = b[n - 2 := NUL]"
  from vsnprintf_shape [of n b0 out] less.prems obtain b1 where b1: "vsnprintf b0 n out = Some b1"
    "length b1 = n" "if b1 ! (n - 2) = NUL
     then \<exists>x r. b1 = x @ NUL # r \<and> takeWhile (\<lambda>c. c \<noteq> NUL) x = takeWhile (\<lambda>c. c \<noteq> NUL) out
     else n - 1 \<le> length out" by (auto simp: b0_def)
  have unf0: "printf_while mal b n out = (if b1 ! (n - 2) \<noteq> NUL
       then (case s_malloc mal (size_t (2 * int n)) of
               None \<Rightarrow> Some None
             | Some b \<Rightarrow> printf_while mal b (size_t (2 * int n)) out)
       else Some (Some b1))"
    using less.prems b1 by (subst printf_while.simps) (simp add: b0_def)
  show ?case
  proof (cases "b1 ! (n - 2) = NUL")
    case True
    with b1(3) obtain x r where x: "b1 = x @ NUL # r"
      "takeWhile (\<lambda>c. c \<noteq> NUL) x = takeWhile (\<lambda>c. c \<noteq> NUL) out" by auto
    have "length (takeWhile (\<lambda>c. c \<noteq> NUL) x) \<le> length x" by (rule length_takeWhile_le)
    then show ?thesis
      using True unf0 x strlen_nul [of x r] take_takeWhile [of "\<lambda>c. c \<noteq> NUL" x "NUL # r"] by auto
  next
    case False
    with b1(3) have lo: "n - 1 \<le> length out" by simp
    with less.prems have sz: "size_t (2 * int n) = 2 * n" "2 * n < 2 ^ 61" by (auto simp: nat_mult_distrib)
    note unf = unf0 [unfolded sz(1)]
    show ?thesis
    proof (cases "s_malloc mal (2 * n)")
      case None
      then have "mal (2 * n) = None" by (simp only: s_malloc_None)
      moreover have "printf_while mal b n out = Some None" using unf False None by simp
      ultimately show ?thesis by blast
    next
      case (Some b2)
      have "length b2 = 2 * n" by (rule s_malloc_length [OF Some])
      with less.hyps [of "2 * n" b2] less.prems lo sz(2)
      show ?thesis using unf False Some by auto
    qed
  qed
qed

lemma sdscatvprintf_gives:
  assumes ok: "sds_ok s" and sm: "small (len s + length out)" and l: "length out < 2 ^ 59" "fmtlen < 2 ^ 59"
  shows "gives mal (sdscatvprintf mal s fmtlen out) (str s @ takeWhile (\<lambda>c. c \<noteq> NUL) out)"
proof -
  have go: "gives mal (printf_while mal b n out \<bind> (\<lambda>r. case r of None \<Rightarrow> Some None
      | Some b \<Rightarrow> sdscat mal s b)) (str s @ takeWhile (\<lambda>c. c \<noteq> NUL) out)"
    if "2 \<le> n" "length b = n" "n < 2 ^ 61" for b n
    using printf_while_spec [OF that l(1), of mal]
  proof (elim disjE exE conjE)
    fix b' k
    assume b': "printf_while mal b n out = Some (Some b')" "strlen b' = Some k" "k \<le> length b'"
      "take k b' = takeWhile (\<lambda>c. c \<noteq> NUL) out"
    then have "k \<le> length out" by (metis length_take length_takeWhile_le min.absorb2)
    with sm have "small (len s + k)" by (simp add: small_def)
    from sdscatlen_gives [OF ok this b'(3), of mal] b' show ?thesis by (simp add: sdscat_def)
  qed (auto simp: gives_def)
  have sz: "size_t (2 * int fmtlen) = 2 * fmtlen" "2 * fmtlen < 2 ^ 60" using l by (auto simp: nat_mult_distrib)
  show ?thesis
  proof (cases "2 * fmtlen > 1024")
    case True
    show ?thesis
    proof (cases "s_malloc mal (2 * fmtlen)")
      case None
      then have "mal (2 * fmtlen) = None" by (simp only: s_malloc_None)
      with None True sz show ?thesis by (auto simp: sdscatvprintf_def gives_def)
    next
      case (Some b)
      with True sz go [of "2 * fmtlen" b] s_malloc_length [OF Some] show ?thesis
        by (simp add: sdscatvprintf_def Let_def)
    qed
  next
    case False
    with sz go [of 1024 "replicate 1024 NUL"] show ?thesis
      by (simp add: sdscatvprintf_def Let_def)
  qed
qed

lemma sdsinclen_open:
  assumes "sds_open s" and "l \<le> sdsavail s" and "length b = length (buf s)"
    and "take (len s) b = take (len s) (buf s)"
  shows "sds_open (sdsinclen (s\<lparr>buf := b\<rparr>) l)" "len (sdsinclen (s\<lparr>buf := b\<rparr>) l) = len s + l"
    "str (sdsinclen (s\<lparr>buf := b\<rparr>) l) = str s @ take l (drop (len s) b)"
    "sdsavail (sdsinclen (s\<lparr>buf := b\<rparr>) l) = sdsavail s - l"
proof -
  have av: "len s + l \<le> sdsalloc s" "flags s = SDS_TYPE_5 \<longrightarrow> l = 0"
    using assms(1,2) sdsavail_open [OF assms(1)] by (auto simp: sds_open_def sdsalloc_def)
  then have "len s + l < 2 ^ width (flags s)" using assms(1) by (simp add: sds_open_def)
  then show l: "len (sdsinclen (s\<lparr>buf := b\<rparr>) l) = len s + l" by (simp add: sdsinclen_def)
  then show o: "sds_open (sdsinclen (s\<lparr>buf := b\<rparr>) l)"
    using assms av by (auto simp: sds_open_def sdsinclen_def sdsalloc_def)
  show "str (sdsinclen (s\<lparr>buf := b\<rparr>) l) = str s @ take l (drop (len s) b)"
    using l assms(4) by (simp add: str_def take_add) (simp add: sdsinclen_def)
  show "sdsavail (sdsinclen (s\<lparr>buf := b\<rparr>) l) = sdsavail s - l"
    using sdsavail_open [OF o] sdsavail_open [OF assms(1)] l av
    by (simp add: sdsalloc_def) (auto simp: sdsinclen_def)
qed

lemma room_spec:
  assumes "sds_open s" and "never_null mal" and "small (len s + l)"
  shows "\<exists>s'. room_or_crash mal s l = Some s' \<and> sds_open s' \<and> len s' = len s \<and> str s' = str s
     \<and> l \<le> sdsavail s'"
  using MakeRoom_open [OF assms(1,3), of mal] assms(1,2) unfolding room_or_crash_def never_null_def
  by (cases "sdsavail s < l") auto

lemma copy_in_spec:
  assumes "sds_open s" and "never_null mal" and "len s + l < 2 ^ 31" and "l \<le> length src"
  shows "\<exists>s'. copy_in mal s (int (len s)) src l = Some (s', int (len s')) \<and> sds_open s' \<and> str s' = str s @ take l src"
proof -
  obtain s1 where s1: "room_or_crash mal s l = Some s1" "sds_open s1" "len s1 = len s" "str s1 = str s"
    "l \<le> sdsavail s1" using room_spec [OF assms(1,2), of l] assms(3) by (auto simp: small_def)
  then have room: "len s + l \<le> sdsalloc s1" "sdsalloc s1 < length (buf s1)"
    by (auto simp: sdsavail_open sds_open_def)
  define b where "b = take (len s) (buf s1) @ take l src @ drop (len s + l) (buf s1)"
  have b: "length b = length (buf s1)" "take (len s1) b = take (len s1) (buf s1)"
    "take l (drop (len s) b) = take l src"
    using room assms(4) s1(3) by (auto simp: b_def)
  note si = sdsinclen_open [OF s1(2,5) b(1,2)]
  have "copy_in mal s (int (len s)) src l = Some (sdsinclen (s1\<lparr>buf := b\<rparr>) l, int (len s + l))"
    using s1(1) room assms(3,4) by (simp add: copy_in_def b_def)
  with si s1(3,4) b(3) show ?thesis by auto
qed

lemma put_char_spec:
  assumes "sds_open s" and "0 < sdsavail s" and "len s + 1 < 2 ^ 31"
  shows "\<exists>s'. put_char s (int (len s)) c = Some (s', int (len s')) \<and> sds_open s' \<and> str s' = str s @ [c]"
proof -
  have room: "len s < length (buf s)" using assms(1,2) by (auto simp: sds_open_def)
  define b where "b = (buf s)[len s := c]"
  have "Suc 0 \<le> sdsavail s" using assms(2) by simp
  moreover have "length b = length (buf s)" "take (len s) b = take (len s) (buf s)"
    "take 1 (drop (len s) b) = [c]"
    using room by (auto simp: b_def take_Suc_conv_app_nth drop_update_swap)
  ultimately show ?thesis
    using sdsinclen_open [OF assms(1), of 1 b] room assms(3) by (auto simp: put_char_def b_def)
qed


text \<open>What a format stands for: the text of one directive, of the whole format.\<close>

fun directive_text :: "char \<Rightarrow> fmt_arg list \<Rightarrow> (string \<times> fmt_arg list) option" where
  "directive_text d args =
     (if d = CHR ''s'' then
        (case args of A_str m # args \<Rightarrow> map_option (\<lambda>l. (take l m, args)) (strlen m) | _ \<Rightarrow> None)
      else if d = CHR ''S'' then
        (case args of A_sds x # args \<Rightarrow> if sds_ok x then Some (str x, args) else None | _ \<Rightarrow> None)
      else if d = CHR ''i'' then
        (case args of A_int x # args \<Rightarrow> if - (2 ^ 31) \<le> x \<and> x < 2 ^ 31 then Some (decimal x, args) else None
         | _ \<Rightarrow> None)
      else if d = CHR ''I'' then
        (case args of A_llong x # args \<Rightarrow> if - (2 ^ 63) \<le> x \<and> x < 2 ^ 63 then Some (decimal x, args) else None
         | _ \<Rightarrow> None)
      else if d = CHR ''u'' then
        (case args of A_uint x # args \<Rightarrow> if x < 2 ^ 32 then Some (dec x, args) else None | _ \<Rightarrow> None)
      else if d = CHR ''U'' then
        (case args of A_ullong x # args \<Rightarrow> if x < 2 ^ 64 then Some (dec x, args) else None | _ \<Rightarrow> None)
      else Some ([d], args))"

fun fmt_text :: "string \<Rightarrow> fmt_arg list \<Rightarrow> string option" where
  "fmt_text [] args = Some []"
| "fmt_text [c] args = (if c = CHR ''%'' then None else Some [c])"
| "fmt_text (c # d # fmt) args =
     (if c = CHR ''%''
      then directive_text d args \<bind> (\<lambda>(t, args). map_option ((@) t) (fmt_text fmt args))
      else map_option ((#) c) (fmt_text (d # fmt) args))"

lemma strlen_le: "strlen m = Some l \<Longrightarrow> l \<le> length m"
  by (induction m arbitrary: l) (auto split: if_splits)

lemma take_sll: "x @ NUL # r = b \<Longrightarrow> take (length x) b = x"
  by auto

lemma fmt_directive_spec:
  assumes "sds_open s" and "0 < sdsavail s" and "never_null mal" and "directive_text d args = Some (t, args')"
    and "len s + length t < 2 ^ 31"
  shows "\<exists>s'. fmt_directive mal d args s (int (len s)) = Some ((s', int (len s')), args')
     \<and> sds_open s' \<and> str s' = str s @ t"
proof -
  define zs where "zs = replicate SDS_LLSTR_SIZE NUL"
  have z: "length zs = SDS_LLSTR_SIZE" by (simp add: zs_def)
  have ll: "\<exists>b s'. sdsll2str zs x = Some (b, length (decimal x)) \<and>
      copy_in mal s (int (len s)) b (length (decimal x)) = Some (s', int (len s')) \<and> sds_open s'
      \<and> str s' = str s @ decimal x"
    if "- (2 ^ 63) \<le> x" "x < 2 ^ 63" "t = decimal x" for x
    using sdsll2str_spec [of x zs] decimal_length [OF that(1,2)] z that assms(5)
      copy_in_spec [OF assms(1,3), of "length (decimal x)" "decimal x @ NUL # drop (length (decimal x) + 1) zs"]
    by auto
  have ull: "\<exists>b s'. sdsull2str zs v = Some (b, length (dec v)) \<and>
      copy_in mal s (int (len s)) b (length (dec v)) = Some (s', int (len s')) \<and> sds_open s' \<and> str s' = str s @ dec v"
    if "v < 2 ^ 64" "t = dec v" for v
    using sdsull2str_spec [of v zs] dec_length_ull [OF that(1)] z that assms(5)
      copy_in_spec [OF assms(1,3), of "length (dec v)" "dec v @ NUL # drop (length (dec v) + 1) zs"]
    by auto
  show ?thesis
  proof (cases args)
    case Nil
    with assms(4,5) put_char_spec [OF assms(1,2), of d] show ?thesis
      by (auto simp: fmt_directive.simps split: if_splits)
  next
    case (Cons a as)
    consider "d = CHR ''s''" | "d = CHR ''S''" | "d = CHR ''i''" | "d = CHR ''I''" | "d = CHR ''u''"
      | "d = CHR ''U''" | "d \<notin> {CHR ''s'', CHR ''S'', CHR ''i'', CHR ''I'', CHR ''u'', CHR ''U''}"
      by auto
    then show ?thesis
    proof cases
      case 1
      with assms(4) Cons obtain m l where m: "a = A_str m" "strlen m = Some l" "t = take l m" "args' = as"
        by (auto split: fmt_arg.splits)
      with strlen_le [OF m(2)] copy_in_spec [OF assms(1,3), of l m] assms(5) 1 Cons
      show ?thesis by (auto simp: fmt_directive.simps)
    next
      case 2
      with assms(4) Cons obtain x where x: "a = A_sds x" "sds_ok x" "t = str x" "args' = as"
        by (auto split: fmt_arg.splits if_splits)
      then have "sdslen x \<le> length (buf x)" "take (sdslen x) (buf x) = t" "length t = sdslen x"
        by (auto simp: sds_ok_def sdslen_def str_def)
      with copy_in_spec [OF assms(1,3), of "sdslen x" "buf x"] assms(5) 2 Cons x
      show ?thesis by (auto simp: fmt_directive.simps)
    next
      case 3
      with assms(4) Cons obtain x where "a = A_int x" "- (2 ^ 31) \<le> x" "x < 2 ^ 31" "t = decimal x" "args' = as"
        by (auto split: fmt_arg.splits if_splits)
      with ll [of x] 3 Cons show ?thesis by (auto simp: fmt_directive.simps simp flip: zs_def)
    next
      case 4
      with assms(4) Cons obtain x where "a = A_llong x" "- (2 ^ 63) \<le> x" "x < 2 ^ 63" "t = decimal x" "args' = as"
        by (auto split: fmt_arg.splits if_splits)
      with ll [of x] 4 Cons show ?thesis by (auto simp: fmt_directive.simps simp flip: zs_def)
    next
      case 5
      with assms(4) Cons obtain x where "a = A_uint x" "x < 2 ^ 32" "t = dec x" "args' = as"
        by (auto split: fmt_arg.splits if_splits)
      with ull [of x] 5 Cons show ?thesis by (auto simp: fmt_directive.simps simp flip: zs_def)
    next
      case 6
      with assms(4) Cons obtain x where "a = A_ullong x" "x < 2 ^ 64" "t = dec x" "args' = as"
        by (auto split: fmt_arg.splits if_splits)
      with ull [of x] 6 Cons show ?thesis by (auto simp: fmt_directive.simps simp flip: zs_def)
    next
      case 7
      with assms(4,5) put_char_spec [OF assms(1,2), of d] show ?thesis
        by (auto simp: fmt_directive.simps)
    qed
  qed
qed


lemma cstr_Cons: "cstr (c # s) = c # cstr s"
  by (simp add: cstr_def)

lemma room_one:
  assumes "sds_open s" and "never_null mal" and "small (len s + 1)"
  shows "\<exists>s'. (if sdsavail s = 0 then sdsMakeRoomFor mal s 1 \<bind> (\<lambda>r. r) else Some s) = Some s'
     \<and> sds_open s' \<and> len s' = len s \<and> str s' = str s \<and> 0 < sdsavail s'"
  using room_spec [OF assms] unfolding room_or_crash_def less_one by fastforce

lemma fmt_while_spec:
  assumes "sds_open s" and "never_null mal" and "NUL \<notin> set fmt" and "fmt_text fmt args = Some out"
    and "len s + length out < 2 ^ 31"
  shows "\<exists>s'. fmt_while mal (pre @ cstr fmt) (length pre) args s (int (len s)) = Some (s', int (len s'))
     \<and> sds_open s' \<and> str s' = str s @ out"
  using assms
proof (induction fmt args arbitrary: pre s out rule: fmt_text.induct)
  case (1 args)
  then show ?case by (subst fmt_while.simps) (simp add: cstr_def)
next
  case (2 c args)
  then have c: "c \<noteq> CHR ''%''" "c \<noteq> NUL" "out = [c]" by (auto split: if_splits)
  obtain s1 where s1: "(if sdsavail s = 0 then sdsMakeRoomFor mal s 1 \<bind> (\<lambda>r. r) else Some s) = Some s1"
    "sds_open s1" "len s1 = len s" "str s1 = str s" "0 < sdsavail s1"
    using room_one [OF "2.prems"(1,2)] "2.prems"(5) c(3) by (auto simp: small_def)
  have l1: "len s1 + 1 < 2 ^ 31" using "2.prems"(5) c(3) s1(3) by simp
  from put_char_spec [OF s1(2,5) l1, of c] obtain s2 where s2: "put_char s1 (int (len s1)) c = Some (s2, int (len s2))"
    "sds_open s2" "str s2 = str s1 @ [c]" by blast
  have "fmt_while mal (pre @ cstr [c]) (length pre) args s (int (len s))
      = fmt_while mal (pre @ cstr [c]) (length pre + 1) args s2 (int (len s2))"
    using c s1 s2 by (subst fmt_while.simps) (simp add: cstr_def)
  also have "\<dots> = Some (s2, int (len s2))"
    by (subst fmt_while.simps) (simp add: cstr_def nth_append)
  finally show ?case using s1 s2 c by auto
next
  case (3 c d fmt args)
  obtain s1 where s1: "(if sdsavail s = 0 then sdsMakeRoomFor mal s 1 \<bind> (\<lambda>r. r) else Some s) = Some s1"
    "sds_open s1" "len s1 = len s" "str s1 = str s" "0 < sdsavail s1"
    using room_one [OF "3.prems"(1,2)] "3.prems"(5) by (auto simp: small_def)
  have cn: "c \<noteq> NUL" "d \<noteq> NUL" using "3.prems"(3) by auto
  show ?case
  proof (cases "c = CHR ''%''")
    case True
    with "3.prems"(4) obtain t args' u where t: "directive_text d args = Some (t, args')"
      "fmt_text fmt args' = Some u" "out = t @ u" by (auto simp: bind_eq_Some_conv)
    have "len s1 + length t < 2 ^ 31" using "3.prems"(5) t s1(3) by simp
    from fmt_directive_spec [OF s1(2,5) "3.prems"(2) t(1) this] obtain s2 where
      s2: "fmt_directive mal d args s1 (int (len s1)) = Some ((s2, int (len s2)), args')" "sds_open s2"
      "str s2 = str s1 @ t" by blast
    then have l2: "len s2 = len s + length t"
      using s1(2,3) length_str_open [OF s1(2)] length_str_open [OF s2(2)] s2(3) by simp
    have "fmt_while mal (pre @ cstr (c # d # fmt)) (length pre) args s (int (len s))
        = fmt_while mal (pre @ cstr (c # d # fmt)) (length pre + 2) args' s2 (int (len s2))"
      using True s1 s2 cn
      by (subst fmt_while.simps) (simp add: cstr_def nth_append)
    also have "pre @ cstr (c # d # fmt) = (pre @ [c, d]) @ cstr fmt" by (simp add: cstr_def)
    finally show ?thesis
      using "3.IH"(1) [OF True t(1) refl s2(2) "3.prems"(2) _ t(2), of "pre @ [c, d]"] "3.prems"(3,5)
        t(3) l2 s1(4) s2(3) by (auto simp: add.assoc cstr_Cons)
  next
    case False
    with "3.prems"(4) obtain u where u: "fmt_text (d # fmt) args = Some u" "out = c # u" by auto
    have l1: "len s1 + 1 < 2 ^ 31" using "3.prems"(5) u(2) s1(3) by simp
    from put_char_spec [OF s1(2,5) l1, of c] obtain s2 where s2: "put_char s1 (int (len s1)) c = Some (s2, int (len s2))"
      "sds_open s2" "str s2 = str s1 @ [c]" by blast
    then have l2: "len s2 = len s + 1"
      using s1(2,3) length_str_open [OF s1(2)] length_str_open [OF s2(2)] s2(3) by simp
    have "fmt_while mal (pre @ cstr (c # d # fmt)) (length pre) args s (int (len s))
        = fmt_while mal (pre @ cstr (c # d # fmt)) (length pre + 1) args s2 (int (len s2))"
      using False s1 s2 cn by (subst fmt_while.simps) (simp add: cstr_def nth_append)
    also have "pre @ cstr (c # d # fmt) = (pre @ [c]) @ cstr (d # fmt)" by (simp add: cstr_def)
    finally show ?thesis
      using "3.IH"(2) [OF False s2(2) "3.prems"(2) _ u(1), of "pre @ [c]"] "3.prems"(3,5)
        u(2) l2 s1(4) s2(3) by (auto simp: add.assoc cstr_Cons)
  qed
qed

lemma sdscatfmt_spec:
  assumes "sds_ok s" and "never_null mal" and "NUL \<notin> set fmt" and "fmt_text fmt args = Some out"
    and "len s + length out < 2 ^ 31"
  shows "\<exists>s'. sdscatfmt mal s (cstr fmt) args = Some s' \<and> sds_ok s' \<and> str s' = str s @ out"
proof -
  from fmt_while_spec [of s mal fmt args out "[]"] assms obtain s1 where
    s1: "fmt_while mal (cstr fmt) 0 args s (int (len s)) = Some (s1, int (len s1))" "sds_open s1" "str s1 = str s @ out"
    by (auto simp: sds_ok_open small_def)
  then have "len s1 < length (buf s1)" by (auto simp: sds_open_def)
  with s1 have "sdscatfmt mal s (cstr fmt) args = Some (s1\<lparr>buf := (buf s1)[len s1 := NUL]\<rparr>)"
    using assms(5) by (simp add: sdscatfmt_def sdslen_def)
  moreover have "sds_ok (s1\<lparr>buf := (buf s1)[len s1 := NUL]\<rparr>)"
    using s1(2) \<open>len s1 < _\<close> by (auto simp: sds_ok_def sds_open_def sdsalloc_def)
  moreover have "str (s1\<lparr>buf := (buf s1)[len s1 := NUL]\<rparr>) = str s1" by (simp add: str_def)
  ultimately show ?thesis using s1(3) by auto
qed

text \<open>
  C40. For a format of the supported directives, with arguments of the types it names,
  \<^verbatim>\<open>sdscatfmt\<close> appends exactly the text the format stands for and leaves a well-formed,
  terminated string, when memory does not run out and the result is shorter than 2 GiB: its write
  index is an \<^verbatim>\<open>int\<close>.
\<close>

theorem sdscatfmt_correct:
  assumes "sds_ok s" and "never_null mal" and "NUL \<notin> set fmt" and "fmt_text fmt args = Some out"
    and "len s + length out < 2 ^ 31"
  shows "\<exists>s'. sdscatfmt mal s (cstr fmt) args = Some s' \<and> sds_ok s' \<and> str s' = str s @ out"
  using assms by (rule sdscatfmt_spec)

text \<open>
  A format that ends in a lone \<^verbatim>\<open>%\<close> makes \<^verbatim>\<open>sdscatfmt\<close> step over the terminating NUL
  and read beyond the format.
\<close>

theorem sdscatfmt_lone_percent:
  assumes "CHR ''%'' \<notin> set fmt" and "NUL \<notin> set fmt"
  shows "sdscatfmt mal s (cstr (fmt @ ''%'')) args = None"
proof -
  have "fmt_while mal (pre @ cstr (fmt @ ''%'')) (length pre) args s i = None" for pre i
    using assms
  proof (induction fmt arbitrary: pre s i)
    case Nil
    have "fmt_while mal (pre @ cstr ''%'') (length pre + 2) args' s' i' = None" for args' s' i'
      by (subst fmt_while.simps) simp
    then show ?case by (subst fmt_while.simps) (auto simp: nth_append cstr_def split: Option.bind_split)
  next
    case (Cons c fmt)
    have "fmt_while mal (pre @ cstr ((c # fmt) @ ''%'')) (length pre + 1) args s' i' = None" for s' i'
      using Cons.IH [of "pre @ [c]" s' i'] Cons.prems by (simp add: cstr_def)
    with Cons.prems show ?case
      by (subst fmt_while.simps) (auto simp: nth_append cstr_def split: Option.bind_split)
  qed
  from this [of "[]"] show ?thesis by (simp add: sdscatfmt_def)
qed


text \<open>
  Behind 2 GiB of text the write index is negative: whatever the format, \<^verbatim>\<open>sdscatfmt\<close> writes in front of
  the string.
\<close>

theorem sdscatfmt_long:
  assumes "2 ^ 31 \<le> len s" and "len s < 2 ^ 32"
  shows "sdscatfmt mal s fm args = None"
proof -
  have "(int (len s) + 2 ^ 31) mod 2 ^ 32 = (int (len s) + 2 ^ 31 - 2 ^ 32) mod 2 ^ 32" by (simp only: minus_mod_self2)
  also have "\<dots> = int (len s) - 2 ^ 31" using assms by (subst mod_pos_pos_trivial) simp_all
  finally have i: "int32 (int (sdslen s)) < 0" using assms(2) unfolding sdslen_def int32_def by simp
  have d: "fmt_directive mal d args' s' i = None" if "i < 0" for d args' s' i
    using that by (auto simp: fmt_directive.simps copy_in_def put_char_def split: list.splits fmt_arg.splits char.splits bool.splits Option.bind_split)
  have "fmt_while mal fm 0 args s i = None \<or> fmt_while mal fm 0 args s i = Some (s, i)" if "i < 0" for i
    using that d[OF that] by (subst (1 2) fmt_while.simps) (auto simp: put_char_def split: Option.bind_split)
  from this[OF i] show ?thesis using i by (auto simp: sdscatfmt_def)
qed

lemma sdscatfmt_long_witness: "sdscatfmt zero_mal (hello\<lparr>len := 2 ^ 31\<rparr>) (cstr ''!'') [] = None"
  by (rule sdscatfmt_long) simp_all

lemma sdscatfmt_correct_witness:
  "\<exists>s'. sdscatfmt zero_mal hello (cstr ''=%i%%'') [A_int (- 42)] = Some s' \<and> str s' = ''hello=-42%''"
proof -
  have "fmt_text ''=%i%%'' [A_int (- 42)] = Some ''=-42%''" by code_simp
  from sdscatfmt_correct [OF hello_ok(1) never_null_zero _ this] show ?thesis
    using hello_ok(2) by (auto simp: hello_def)
qed

lemma sdscatfmt_lone_percent_witness: "sdscatfmt zero_mal hello (cstr ''100%'') [] = None"
  using sdscatfmt_lone_percent [of "''100''" zero_mal hello "[]"] by simp

end
