(* ===== verification/Sds_Edit.thy ===== *)
theory Sds_Edit
  imports Sds_Text
begin

text \<open>
  Trimming, ranges, comparison, splitting and joining of \<^verbatim>\<open>sds.c\<close>: each against what it
  means for the text.
\<close>

declare trim_left.simps [simp del] trim_right.simps [simp del] split_for.simps [simp del]

subsection \<open>Trimming\<close>

definition trim :: "('a \<Rightarrow> bool) \<Rightarrow> 'a list \<Rightarrow> 'a list" where
  "trim P xs = rev (dropWhile P (rev (dropWhile P xs)))"

lemma trim_left_spec:
  "n \<le> length b \<Longrightarrow> sp \<le> n \<Longrightarrow>
   trim_left b cset sp n = Some (sp + length (takeWhile (strchr cset) (drop sp (take n b))))"
proof (induction b cset sp n rule: trim_left.induct)
  case (1 b cset sp n)
  show ?case
  proof (cases "sp < n")
    case False
    with "1.prems" show ?thesis by (subst trim_left.simps) simp
  next
    case True
    then have d: "drop sp (take n b) = b ! sp # drop (sp + 1) (take n b)"
      using "1.prems"(1) Cons_nth_drop_Suc [of sp "take n b"] by simp
    show ?thesis
      using True "1.prems"(1) "1.IH" [OF True, of "b ! sp"] unfolding d
      by (subst trim_left.simps) simp
  qed
qed

lemma trim_right_spec:
  "0 \<le> ep \<Longrightarrow> nat ep < length b \<Longrightarrow> int sp \<le> ep \<Longrightarrow> \<not> strchr cset (b ! sp) \<Longrightarrow>
   \<exists>e. trim_right b cset sp ep = Some e \<and> int sp \<le> e \<and> e \<le> ep
     \<and> take (nat (e - int sp) + 1) (drop sp b)
       = rev (dropWhile (strchr cset) (rev (take (nat (ep - int sp) + 1) (drop sp b))))"
proof (induction "nat (ep - int sp)" arbitrary: ep)
  case 0
  then have "ep = int sp" by simp
  with 0 show ?case
    by (subst trim_right.simps) (simp add: hd_drop_conv_nth take_Suc)
next
  case (Suc k)
  then have gt: "int sp < ep" by linarith
  have n: "nat (ep - int sp) + 1 = Suc (nat (ep - 1 - int sp) + 1)"
    and i: "sp + (nat (ep - 1 - int sp) + 1) = nat ep" using gt by auto
  have l: "nat (ep - 1 - int sp) + 1 < length (drop sp b)" using Suc.prems(2) gt by auto
  have sn: "take (nat (ep - int sp) + 1) (drop sp b)
      = take (nat (ep - 1 - int sp) + 1) (drop sp b) @ [b ! nat ep]"
    unfolding n using take_Suc_conv_app_nth [OF l] l i by simp
  show ?case
  proof (cases "strchr cset (b ! nat ep)")
    case True
    have "trim_right b cset sp ep = trim_right b cset sp (ep - 1)"
      using gt Suc.prems True by (subst trim_right.simps) simp
    moreover have "k = nat (ep - 1 - int sp)" using Suc.hyps(2) by simp
    ultimately show ?thesis
      using Suc.hyps(1) [of "ep - 1"] Suc.prems gt True unfolding sn by force
  next
    case False
    then have "trim_right b cset sp ep = Some ep"
      using gt Suc.prems by (subst trim_right.simps) simp
    moreover have "rev (dropWhile (strchr cset) (rev (take (nat (ep - int sp) + 1) (drop sp b))))
        = take (nat (ep - int sp) + 1) (drop sp b)"
      using False unfolding sn by simp
    ultimately show ?thesis using gt by auto
  qed
qed

lemma shorten_ok:
  assumes "sds_ok s" and "n \<le> len s" and "length b = length (buf s)"
  shows "\<exists>s'. wr b n NUL \<bind> (\<lambda>b. Some (sdssetlen (s\<lparr>buf := b\<rparr>) n)) = Some s' \<and> sds_ok s'
    \<and> str s' = take n b \<and> flags s' = flags s \<and> alloc s' = alloc s"
proof -
  have n: "n < length b" "n < 2 ^ width (flags s)" using assms by (auto simp: sds_ok_def)
  then have "sds_ok (sdssetlen (s\<lparr>buf := b[n := NUL]\<rparr>) n)"
    using assms by (auto simp: sds_ok_def sdssetlen_def sdsalloc_def)
  with n show ?thesis by (auto simp: sdssetlen_def str_def)
qed

lemma sdstrim_spec:
  assumes ok: "sds_ok s"
  shows "\<exists>s'. sdstrim s cset = Some s' \<and> sds_ok s' \<and> str s' = trim (strchr cset) (str s)"
proof -
  have ln: "len s < length (buf s)" using ok by (auto simp: sds_ok_def)
  define P where "P = strchr cset"
  define sp where "sp = length (takeWhile P (str s))"
  have tl: "trim_left (buf s) cset 0 (sdslen s) = Some sp"
    using trim_left_spec [of "len s" "buf s" 0 cset] ln
    by (simp add: sdslen_def sp_def P_def str_def)
  have dw: "dropWhile P (str s) = drop sp (str s)" by (simp add: sp_def dropWhile_eq_drop)
  have spl: "sp \<le> len s"
    using length_takeWhile_le [of P "str s"] ok by (simp add: sp_def)
  show ?thesis
  proof (cases "sp = len s")
    case True
    then have "trim_right (buf s) cset sp (int (sdslen s) - 1) = Some (int (sdslen s) - 1)"
      by (subst trim_right.simps) (simp add: sdslen_def)
    moreover have "dropWhile P (str s) = []" unfolding dw using True length_str [OF ok] by simp
    then have "trim P (str s) = []" by (simp add: trim_def del: dropWhile_eq_Nil_conv)
    ultimately show ?thesis
      using tl True shorten_ok [OF ok, of 0 "buf s"] by (auto simp: sdstrim_def sdslen_def P_def)
  next
    case False
    then have sl: "sp < len s" using spl by simp
    have nP: "\<not> P (buf s ! sp)"
    proof -
      have "sp < length (str s)" using sl ok by simp
      then have "\<not> P (str s ! sp)" unfolding sp_def by (rule nth_length_takeWhile)
      then show ?thesis using sl by (simp add: str_def)
    qed
    define ep where "ep = int (len s) - 1"
    have "nat ep < length (buf s)" "0 \<le> ep" "int sp \<le> ep" using sl ln by (auto simp: ep_def)
    from trim_right_spec [OF this(2,1,3), of cset] nP obtain e where e:
      "trim_right (buf s) cset sp ep = Some e" "int sp \<le> e" "e \<le> ep"
      "take (nat (e - int sp) + 1) (drop sp (buf s))
       = rev (dropWhile P (rev (take (nat (ep - int sp) + 1) (drop sp (buf s)))))"
      by (auto simp: P_def)
    define n where "n = nat (e - int sp) + 1"
    have "take (nat (ep - int sp) + 1) (drop sp (buf s)) = drop sp (str s)"
    proof -
      have "nat (ep - int sp) + 1 = len s - sp" using sl by (simp add: ep_def)
      then show ?thesis by (simp add: str_def drop_take)
    qed
    then have tr: "take n (drop sp (buf s)) = trim P (str s)"
      using e(4) dw by (simp add: trim_def n_def)
    have nl: "n \<le> len s" "sp + n \<le> len s" using e(2,3) sl by (auto simp: n_def ep_def)
    define b where "b = (if sp \<noteq> 0 then take n (drop sp (buf s)) @ drop n (buf s) else buf s)"
    have b: "length b = length (buf s)" "take n b = take n (drop sp (buf s))"
      using nl ln by (auto simp: b_def)
    have "sdstrim s cset = wr b n NUL \<bind> (\<lambda>b. Some (sdssetlen (s\<lparr>buf := b\<rparr>) n))"
    proof -
      have "Suc (nat (e - int sp)) = n" by (simp add: n_def)
      then show ?thesis
        using tl e(1,2) nl ln by (auto simp: sdstrim_def sdslen_def b_def ep_def [symmetric])
    qed
    with shorten_ok [OF ok nl(1) b(1)] b(2) tr show ?thesis by (auto simp: P_def)
  qed
qed


subsection \<open>Ranges\<close>

text \<open>
  The slice an interval with inclusive ends stands for; negative ends count from the end of
  the text and stop at its start.
\<close>

definition slice :: "'a list \<Rightarrow> int \<Rightarrow> int \<Rightarrow> 'a list" where
  "slice xs a b =
     (let n = int (length xs);
          lo = (if a < 0 then max 0 (n + a) else a);
          hi = (if b < 0 then max 0 (n + b) else b)
      in take (nat (min hi (n - 1) - lo + 1)) (drop (nat lo) xs))"

lemma sdsrange_ends:
  assumes "0 < n" and "n < 2 ^ 31" and "0 \<le> start" and "start < 2 ^ 31" and "0 \<le> en" and "en < 2 ^ 31"
  defines "newlen \<equiv> (if start > en then 0 else size_t (int32 (en - start + 1)))"
  shows "(if newlen \<noteq> 0
         then (if start \<ge> int32 n then (start, 0)
               else if en \<ge> int32 n
               then (let en = int32 (n - 1)
                     in (start, if start > en then 0 else size_t (int32 (en - start + 1))))
               else (start, newlen))
         else (0, newlen))
    = (let m = nat (min en (n - 1) - start + 1) in (if start > en then 0 else start, m))"
proof (cases "start > en")
  case True
  then show ?thesis by (simp add: newlen_def)
next
  case False
  have pos: "newlen \<noteq> 0"
  proof (cases "en - start + 1 < 2 ^ 31")
    case True
    with False show ?thesis by (simp add: newlen_def)
  next
    case t: False
    then have "en - start + 1 = 2 ^ 31" using assms(3,6) False by linarith
    with False show ?thesis by (simp add: newlen_def int32_def size_t_def)
  qed
  show ?thesis
  proof (cases "start \<ge> n")
    case True
    with pos False assms show ?thesis by (simp add: Let_def)
  next
    case s: False
    show ?thesis
    proof (cases "en \<ge> n")
      case True
      with pos False s assms show ?thesis by (simp add: Let_def)
    next
      case e: False
      then have "newlen = nat (en - start + 1)" using False assms by (simp add: newlen_def)
      with pos False s e assms show ?thesis by (simp add: Let_def)
    qed
  qed
qed

lemma sdsrange_spec:
  assumes ok: "sds_ok s" and l: "len s < 2 ^ 31" and a: "- (2 ^ 31) \<le> a" "a < 2 ^ 31"
    and b: "- (2 ^ 31) \<le> b" "b < 2 ^ 31"
  shows "\<exists>s'. sdsrange s a b = Some s' \<and> sds_ok s' \<and> str s' = slice (str s) a b"
proof (cases "len s = 0")
  case True
  with ok have "str s = []" by (simp add: str_def)
  with True ok show ?thesis by (auto simp: sdsrange_def sdslen_def slice_def)
next
  case False
  define n where "n = int (len s)"
  have n: "0 < n" "n < 2 ^ 31" using False l by (auto simp: n_def)
  define lo where "lo = (if a < 0 then max 0 (n + a) else a)"
  define hi where "hi = (if b < 0 then max 0 (n + b) else b)"
  have lo: "(if a < 0 then max 0 (int32 (n + a)) else a) = lo" "0 \<le> lo" "lo < 2 ^ 31"
    using n a by (auto simp: lo_def)
  have hi: "(if b < 0 then max 0 (int32 (n + b)) else b) = hi" "0 \<le> hi" "hi < 2 ^ 31"
    using n b by (auto simp: hi_def)
  define m where "m = nat (min hi (n - 1) - lo + 1)"
  define st where "st = (if lo > hi then 0 else lo)"
  have ln: "len s < length (buf s)" using ok by (auto simp: sds_ok_def)
  have unf: "sdsrange s a b = (if st \<noteq> 0 \<and> m \<noteq> 0 then blit (buf s) 0 (drop (nat st) (buf s)) m
       else Some (buf s)) \<bind> (\<lambda>b. wr b m NUL \<bind> (\<lambda>b. Some (sdssetlen (s\<lparr>buf := b\<rparr>) m)))"
    using n(1) unfolding sdsrange_def sdslen_def n_def [symmetric] Let_def lo(1) hi(1)
      sdsrange_ends [OF n lo(2,3) hi(2,3), unfolded Let_def]
    by (simp add: m_def st_def)
  have fit: "m = 0 \<or> nat st + m \<le> len s" and ml: "m \<le> len s"
    using n lo hi by (auto simp: m_def st_def n_def)
  define bf where "bf = (if st \<noteq> 0 \<and> m \<noteq> 0 then take m (drop (nat st) (buf s)) @ drop m (buf s) else buf s)"
  have bf: "length bf = length (buf s)" "take m bf = take m (drop (nat st) (buf s))"
    "(if st \<noteq> 0 \<and> m \<noteq> 0 then blit (buf s) 0 (drop (nat st) (buf s)) m else Some (buf s)) = Some bf"
    using fit ln by (auto simp: bf_def)
  have sl: "slice (str s) a b = take m (drop (nat st) (buf s))"
  proof -
    have "slice (str s) a b = take m (drop (nat lo) (str s))"
      using ok by (simp add: slice_def Let_def m_def lo_def hi_def n_def)
    also have "\<dots> = take m (drop (nat st) (str s))"
      by (cases "lo > hi") (auto simp: st_def m_def)
    also have "\<dots> = take m (drop (nat st) (buf s))"
      using fit by (auto simp: str_def drop_take min_def)
    finally show ?thesis .
  qed
  show ?thesis
    using shorten_ok [OF ok ml bf(1)] unf bf(2,3) sl by auto
qed

subsection \<open>Comparison, case and mapping\<close>

lemma memcmp_spec:
  "n \<le> length a \<Longrightarrow> n \<le> length b \<Longrightarrow> \<exists>c. memcmp a b n = Some c
     \<and> (c = 0 \<longleftrightarrow> take n a = take n b)
     \<and> (c < 0 \<longleftrightarrow> (\<exists>k<n. take k a = take k b \<and> code (a ! k) < code (b ! k)))"
proof (induction a b n rule: memcmp.induct)
  case (2 x a y b n)
  have ex: "(\<exists>k<Suc n. P k) \<longleftrightarrow> P 0 \<or> (\<exists>k<n. P (Suc k))" for P
    using less_Suc_eq_0_disj by auto
  have inj: "code x = code y \<Longrightarrow> x = y" unfolding code_def by (metis of_char_eq_iff)
  consider "code x < code y" | "code y < code x" | "x = y" using inj by (meson linorder_neqE_nat)
  then show ?case
  proof cases
    case 3
    with 2 show ?thesis by (auto simp: ex)
  qed (auto simp: ex)
qed auto

lemma each_spec: "n \<le> length b \<Longrightarrow> each f b n = Some (map f (take n b) @ drop n b)"
  by (induction f b n rule: each.induct) auto

lemma each_ok:
  assumes "sds_ok s"
  shows "\<exists>s'. each f (buf s) (sdslen s) \<bind> (\<lambda>b. Some (s\<lparr>buf := b\<rparr>)) = Some s' \<and> sds_ok s'
    \<and> str s' = map f (str s)"
proof -
  have "len s \<le> length (buf s)" using assms by (auto simp: sds_ok_def)
  with assms show ?thesis
    by (auto simp: each_spec sdslen_def sds_ok_def sdsalloc_def str_def nth_append)
qed

lemma map_char_spec:
  "n \<le> length frm \<Longrightarrow> n \<le> length to \<Longrightarrow>
   map_char frm to n c = (case map_of (zip (take n frm) to) c of None \<Rightarrow> c | Some d \<Rightarrow> d)"
  by (induction frm to n c rule: map_char.induct) auto


subsection \<open>Splitting\<close>

fun joined :: "'a list \<Rightarrow> 'a list list \<Rightarrow> 'a list" where
  "joined sep [] = []"
| "joined sep [x] = x"
| "joined sep (x # y # xs) = x @ sep @ joined sep (y # xs)"

lemma joined_snoc: "joined sep (xs @ [x]) = concat (map (\<lambda>t. t @ sep) xs) @ x"
  by (induction sep xs rule: joined.induct) auto

lemma add_token_spec:
  assumes "length tokens < slots" and "n \<le> length t" and "small n"
  shows "(\<exists>x. add_token mal tokens slots t n = Some (Some (tokens @ [x])) \<and> sds_ok x \<and> str x = take n t)
    \<or> add_token mal tokens slots t n = Some None \<and> (\<exists>n. mal n = None)"
  using sdsnewlen_gives [OF assms(3), of "Some t" mal] assms(1,2)
  by (auto simp: add_token_def gives_def)

definition sep_at :: "'a list \<Rightarrow> 'a list \<Rightarrow> nat \<Rightarrow> bool" where
  "sep_at sep s i \<longleftrightarrow> take (length sep) (drop i s) = sep"

lemma not_sublist_token:
  assumes "\<And>i. start \<le> i \<Longrightarrow> i < start + n \<Longrightarrow> i + length sep \<le> length s \<Longrightarrow> \<not> sep_at sep s i" 
    and "sep \<noteq> []"
  shows "\<not> sublist sep (take n (drop start s))"
proof
  assume "sublist sep (take n (drop start s))"
  then obtain ps ss where t: "take n (drop start s) = ps @ sep @ ss" by (auto simp: sublist_def)
  define u where "u = drop n (drop start s)"
  have ds: "drop start s = ps @ sep @ ss @ u"
    using append_take_drop_id [of n "drop start s"] unfolding t u_def by simp
  have l: "length ps < n" using arg_cong [OF t, of length] assms(2) by (cases sep) auto
  have "drop (start + length ps) s = sep @ ss @ u"
    using ds by (metis add.commute append_eq_conv_conj drop_drop)
  then have "sep_at sep s (start + length ps)" by (simp add: sep_at_def)
  moreover have "start + length ps + length sep \<le> length s"
    using arg_cong [OF ds, of length] assms(2) by (cases "start \<le> length s") auto
  ultimately show False using assms(1) [of "start + length ps"] l by simp
qed

definition split_inv :: "string \<Rightarrow> string \<Rightarrow> sdshdr list \<Rightarrow> nat \<Rightarrow> nat \<Rightarrow> bool" where
  "split_inv s sep tokens start j \<longleftrightarrow> start \<le> j \<and> start \<le> length s
     \<and> (\<forall>t\<in>set tokens. sds_ok t \<and> \<not> sublist sep (str t))
     \<and> concat (map (\<lambda>t. str t @ sep) tokens) = take start s
     \<and> (\<forall>i. start \<le> i \<longrightarrow> i < j \<longrightarrow> \<not> sep_at sep s i)"

lemma split_for_spec:
  assumes "split_inv s sep tokens start j" and "length tokens < slots" and "sep \<noteq> []" and "small (length s)"
  shows "(\<exists>tokens' slots' start' j'. split_for mal s sep tokens slots start j = Some (Some (tokens', slots', start'))
      \<and> split_inv s sep tokens' start' j' \<and> length tokens' < slots' \<and> length s < j' + length sep)
    \<or> split_for mal s sep tokens slots start j = Some None \<and> (\<exists>n. mal n = None)"
  using assms
proof (induction "Suc (length s) - j" arbitrary: tokens slots start j rule: less_induct)
  case less
  show ?case
  proof (cases "int j < int (length s) - (int (length sep) - 1)")
    case False
    then show ?thesis using less.prems
      by (subst split_for.simps, subst (2) split_for.simps) auto
  next
    case True
    have lsep: "0 < length sep" using less.prems(3) by simp
    then have jl: "j + length sep \<le> length s" "j < length s" using True by linarith+
    define room where "room = (if slots < length tokens + 2
                  then map_option (\<lambda>_. slots * 2) (s_malloc mal (8 * (slots * 2))) else Some slots)"
    have unf: "split_for mal s sep tokens slots start j = (case room of None \<Rightarrow> Some None
            | Some slots \<Rightarrow>
                if take (length sep) (drop j s) = sep
                then add_token mal tokens slots (drop start s) (j - start) \<bind> (\<lambda>r. case r of
                       None \<Rightarrow> Some None
                     | Some tokens \<Rightarrow>
                         split_for mal s sep tokens slots (j + length sep) (j + (length sep - 1) + 1))
                else split_for mal s sep tokens slots start (j + 1))"
      using True unfolding room_def by (subst split_for.simps) simp
    show ?thesis
    proof (cases room)
      case None
      then have "\<exists>n. mal n = None" by (auto simp: room_def s_malloc_None split: if_splits)
      with None unf show ?thesis by simp
    next
      case (Some sl)
      have sl: "length tokens + 2 \<le> sl"
        using Some less.prems(2) by (auto simp: room_def split: if_splits)
      show ?thesis
      proof (cases "sep_at sep s j")
        case False
        then have "split_for mal s sep tokens slots start j = split_for mal s sep tokens sl start (j + 1)"
          using unf Some by (simp add: sep_at_def)
        moreover have "split_inv s sep tokens start (j + 1)"
          using less.prems(1) False by (auto simp: split_inv_def less_Suc_eq)
        ultimately show ?thesis
          using less.hyps [of "j + 1" tokens start sl] less.prems(3,4) sl jl by simp
      next
        case occ: True
        have st: "start \<le> j" "small (j - start)" "j - start \<le> length (drop start s)"
          using less.prems(1,4) jl by (auto simp: split_inv_def small_def)
        from add_token_spec [of tokens sl "j - start" "drop start s" mal] st sl
        consider (tok) x where "add_token mal tokens sl (drop start s) (j - start) = Some (Some (tokens @ [x]))"
            "sds_ok x" "str x = take (j - start) (drop start s)"
          | (null) n where "add_token mal tokens sl (drop start s) (j - start) = Some None" "mal n = None"
          by auto
        then show ?thesis
        proof cases
          case null
          then show ?thesis using unf Some occ by (auto simp: sep_at_def)
        next
          case tok
          have "split_for mal s sep tokens slots start j
              = split_for mal s sep (tokens @ [x]) sl (j + length sep) (j + length sep)"
          proof -
            have "j + (length sep - 1) + 1 = j + length sep" using lsep by simp
            then show ?thesis using unf Some occ tok(1) by (simp only: sep_at_def) simp
          qed
          moreover have "\<not> sublist sep (str x)"
            unfolding tok(3) using less.prems(1,3) st(1)
            by (intro not_sublist_token) (auto simp: split_inv_def)
          moreover have "take (j + length sep) s = take start s @ str x @ sep"
          proof -
            have "take (j + length sep) s = take j s @ sep"
              using occ by (simp add: take_add sep_at_def)
            also have "take j s = take start s @ take (j - start) (drop start s)"
              using st(1) by (metis le_add_diff_inverse take_add)
            finally show ?thesis by (simp add: tok(3))
          qed
          ultimately have "split_for mal s sep tokens slots start j
              = split_for mal s sep (tokens @ [x]) sl (j + length sep) (j + length sep)
            \<and> split_inv s sep (tokens @ [x]) (j + length sep) (j + length sep)"
            using less.prems(1) tok(2) jl by (auto simp: split_inv_def)
          moreover have "Suc (length s) - (j + length sep) < Suc (length s) - j"
            using jl lsep by linarith
          moreover have "length (tokens @ [x]) < sl" using sl by simp
          ultimately show ?thesis
            using less.hyps [of "j + length sep" "tokens @ [x]" "j + length sep" sl] less.prems(3,4)
            by metis
        qed
      qed
    qed
  qed
qed

definition split_result :: "string \<Rightarrow> string \<Rightarrow> sdshdr list \<Rightarrow> bool" where
  "split_result s sep tokens \<longleftrightarrow> joined sep (map str tokens) = s
     \<and> (\<forall>t\<in>set tokens. sds_ok t \<and> \<not> sublist sep (str t))"

lemma sdssplitlen_spec:
  assumes "s \<noteq> []" and "sep \<noteq> []" and "small (length s)"
  shows "(\<exists>tokens. sdssplitlen mal s sep = Some (Some tokens) \<and> split_result s sep tokens \<and> tokens \<noteq> [])
    \<or> sdssplitlen mal s sep = Some None \<and> (\<exists>n. mal n = None)"
proof (cases "s_malloc mal (8 * 5)")
  case None
  then have "mal (8 * 5) = None" by (simp only: s_malloc_None)
  moreover have "sdssplitlen mal s sep = Some None" using None by (simp add: sdssplitlen_def)
  ultimately show ?thesis by blast
next
  case (Some b)
  have unf: "sdssplitlen mal s sep = split_for mal s sep [] 5 0 0 \<bind> (\<lambda>r. case r of
            None \<Rightarrow> Some None
          | Some (tokens, slots, start) \<Rightarrow>
              add_token mal tokens slots (drop start s) (length s - start))"
    using assms Some by (cases sep) (auto simp: sdssplitlen_def)
  have "split_inv s sep [] 0 0" "length ([] :: sdshdr list) < 5" by (simp_all add: split_inv_def)
  from split_for_spec [OF this assms(2,3), of mal] show ?thesis
  proof (elim disjE exE conjE)
    fix tokens slots start j
    assume sp: "split_for mal s sep [] 5 0 0 = Some (Some (tokens, slots, start))"
      "split_inv s sep tokens start j" "length tokens < slots" "length s < j + length sep"
    have st: "start \<le> length s" "small (length s - start)"
      using sp(2) assms(3) by (auto simp: split_inv_def small_def)
    from add_token_spec [OF sp(3), of "length s - start" "drop start s" mal] st
    consider (tok) x where "add_token mal tokens slots (drop start s) (length s - start) = Some (Some (tokens @ [x]))"
        "sds_ok x" "str x = drop start s"
      | (null) n where "add_token mal tokens slots (drop start s) (length s - start) = Some None" "mal n = None"
      by auto
    then show ?thesis
    proof cases
      case null
      then show ?thesis using unf sp(1) by auto
    next
      case tok
      have "\<not> sublist sep (take (length s - start) (drop start s))"
        using sp(2,4) assms(2) by (intro not_sublist_token) (auto simp: split_inv_def)
      then have "split_result s sep (tokens @ [x])"
        using sp(2) tok(2,3) unfolding split_result_def
        by (simp add: joined_snoc split_inv_def comp_def)
      then show ?thesis using unf sp(1) tok(1) by auto
    qed
  qed (use unf in auto)
qed


subsection \<open>Joining\<close>

fun pieces :: "string \<Rightarrow> string list \<Rightarrow> string list" where
  "pieces sep [] = []"
| "pieces sep [x] = [x]"
| "pieces sep (x # y # xs) = x # sep # pieces sep (y # xs)"

lemma concat_pieces: "concat (pieces sep xs) = joined sep xs"
  by (induction sep xs rule: pieces.induct) auto

lemma sdscatlen_take: "n \<le> length t \<Longrightarrow> sdscatlen mal s t n = cat_bytes mal s (take n t)"
  by (cases "sdsMakeRoomFor mal s n")
    (auto simp: sdscatlen_def cat_bytes_def blit_def Let_def split: option.split)

lemma sdscat_bytes:
  assumes "NUL \<notin> set t"
  shows "sdscat mal s (cstr t) = cat_bytes mal s t"
proof -
  have "take (length t) (cstr t) = t" by (simp add: cstr_def)
  with assms show ?thesis
    using sdscatlen_take [of "length t" "cstr t" mal s] by (simp add: sdscat_def)
qed

lemma sdscatsds_bytes: "sds_ok t \<Longrightarrow> sdscatsds mal s t = cat_bytes mal s (str t)"
  using sdscatlen_take [of "len t" "buf t" mal s]
  by (auto simp: sdscatsds_def sdslen_def str_def sds_ok_def)

lemma join_for_pieces:
  assumes "\<forall>x\<in>set xs. NUL \<notin> set x" and "NUL \<notin> set sep"
  shows "join_for mal r (map cstr xs) (cstr sep) = cat_all (cat_bytes mal) r (pieces sep xs)"
  using assms by (induction sep xs arbitrary: r rule: pieces.induct) (auto simp: sdscat_bytes bind_assoc)

lemma joinsds_for_pieces:
  assumes "\<forall>t\<in>set ts. sds_ok t"
  shows "joinsds_for mal r ts sep (length sep) = cat_all (cat_bytes mal) r (pieces sep (map str ts))"
  using assms
proof (induction ts arbitrary: r)
  case (Cons t ts)
  then show ?case by (cases ts) (auto simp: sdscatsds_bytes bind_assoc cat_bytes_def)
qed simp

lemma sdsempty_gives: "gives mal (sdsempty mal) []"
  using sdsnewlen_gives [of 0 "Some (cstr [])" mal] by (simp add: sdsempty_def small_def)

lemma joined_gives:
  assumes "never_null mal" and "small (length (joined sep xs))"
  shows "\<exists>s. sdsempty mal \<bind> (\<lambda>r. cat_all (cat_bytes mal) r (pieces sep xs)) = Some (Some s)
    \<and> sds_ok s \<and> str s = joined sep xs"
proof -
  obtain e where e: "sdsempty mal = Some (Some e)" "sds_ok e" "str e = []"
    using sdsempty_gives [of mal] assms(1) unfolding gives_def never_null_def by blast
  with sds.cat_all_spec [OF e(2), of "pieces sep xs" mal] assms show ?thesis
    by (auto simp: concat_pieces)
qed

subsection \<open>Properties\<close>

text \<open>
  \<^verbatim>\<open>sdstrim\<close> leaves the text without the longest prefix and the longest suffix of
  characters of the set, where NUL bytes always count as part of the set.
\<close>

theorem sdstrim_correct:
  assumes "sds_ok s"
  shows "\<exists>s'. sdstrim s cset = Some s' \<and> sds_ok s' \<and> str s' = trim (\<lambda>c. c \<in> set cset \<or> c = NUL) (str s)"
  using sdstrim_spec [OF assms, of cset] by (simp add: strchr_def [abs_def])

text \<open>
  \<^verbatim>\<open>sdsrange\<close>, for every pair of \<^verbatim>\<open>int\<close> ends of a string shorter than 2 GB, leaves the
  slice the ends stand for, including ends that are negative or out of range and
  \<open>INT_MAX\<close>, where \<^verbatim>\<open>end - start + 1\<close> overflows.
\<close>

theorem sdsrange_correct:
  assumes "sds_ok s" and "len s < 2 ^ 31" and "- (2 ^ 31) \<le> a \<and> a < 2 ^ 31" and "- (2 ^ 31) \<le> b \<and> b < 2 ^ 31"
  shows "\<exists>s'. sdsrange s a b = Some s' \<and> sds_ok s' \<and> str s' = slice (str s) a b"
  using sdsrange_spec [of s a b] assms by blast

text \<open>
  \<^verbatim>\<open>sdssplitlen\<close> of a non-empty text returns tokens in which the separator does not occur
  and which, joined with the separator by \<^verbatim>\<open>sdsjoinsds\<close>, give the text back.
\<close>

theorem sdssplitlen_join:
  assumes "never_null mal" and "s \<noteq> []" and "sep \<noteq> []" and "length s < 2 ^ 62"
  shows "\<exists>tokens j. sdssplitlen mal s sep = Some (Some tokens)
     \<and> (\<forall>t\<in>set tokens. sds_ok t \<and> \<not> sublist sep (str t))
     \<and> sdsjoinsds mal tokens sep (length sep) = Some (Some j) \<and> sds_ok j \<and> str j = s"
proof -
  have sm: "small (length s)" using assms(4) by (simp add: small_def)
  obtain tokens where t: "sdssplitlen mal s sep = Some (Some tokens)" "split_result s sep tokens"
    using sdssplitlen_spec [OF assms(2,3) sm, of mal] assms(1) unfolding never_null_def by blast
  then have "joined sep (map str tokens) = s" "\<forall>t\<in>set tokens. sds_ok t"
    by (auto simp: split_result_def)
  with joined_gives [OF assms(1), of sep "map str tokens"] sm t show ?thesis
    by (auto simp: sdsjoinsds_def joinsds_for_pieces split_result_def)
qed

text \<open>
  For a text of length 0 \<^verbatim>\<open>sdssplitlen\<close> returns an empty array of tokens, not the null
  pointer its comment announces.
\<close>

theorem sdssplitlen_empty:
  assumes "never_null mal" and "sep \<noteq> []"
  shows "sdssplitlen mal [] sep = Some (Some [])"
proof -
  obtain f where "mal 40 = Some f" using assms(1) unfolding never_null_def by fastforce
  with assms(2) show ?thesis by (cases sep) (auto simp: sdssplitlen_def s_malloc_def)
qed

text \<open>\<^verbatim>\<open>sdsjoin\<close> returns the C strings of the array with the separator between them.\<close>

theorem sdsjoin_correct:
  assumes "never_null mal" and "\<forall>x\<in>set xs. NUL \<notin> set x" and "NUL \<notin> set sep"
    and "length (joined sep xs) < 2 ^ 62"
  shows "\<exists>j. sdsjoin mal (map cstr xs) (cstr sep) = Some (Some j) \<and> sds_ok j \<and> str j = joined sep xs"
  using joined_gives [OF assms(1), of sep xs] assms(2-4)
  by (simp add: sdsjoin_def join_for_pieces small_def)

text \<open>
  \<^verbatim>\<open>sdscmp\<close> of strings shorter than 2 GB is 0 exactly for equal texts and negative
  exactly when the first comes before the second in the order of their bytes, a proper
  prefix first.
\<close>

theorem sdscmp_correct:
  assumes "sds_ok s1" and "sds_ok s2" and "len s1 < 2 ^ 31" and "len s2 < 2 ^ 31"
  shows "\<exists>c. sdscmp s1 s2 = Some c \<and> (c = 0 \<longleftrightarrow> str s1 = str s2)
     \<and> (c < 0 \<longleftrightarrow> (str s1, str s2) \<in> lexord {(x, y). code x < code y})"
proof -
  define n where "n = min (len s1) (len s2)"
  have bl: "len s1 < length (buf s1)" "len s2 < length (buf s2)" using assms by (auto simp: sds_ok_def)
  have ls: "length (str s1) = len s1" "length (str s2) = len s2" using assms by simp_all
  have "n \<le> length (buf s1)" "n \<le> length (buf s2)" using bl by (auto simp: n_def)
  from memcmp_spec [OF this] obtain c where c: "memcmp (buf s1) (buf s2) n = Some c"
    "c = 0 \<longleftrightarrow> take n (buf s1) = take n (buf s2)"
    "c < 0 \<longleftrightarrow> (\<exists>k<n. take k (buf s1) = take k (buf s2) \<and> code (buf s1 ! k) < code (buf s2 ! k))"
    by blast
  have tk: "take k (buf s1) = take k (str s1)" "take k (buf s2) = take k (str s2)" if "k \<le> n" for k
  proof -
    have "k \<le> len s1" "k \<le> len s2" using that by (simp_all add: n_def)
    then show "take k (buf s1) = take k (str s1)" "take k (buf s2) = take k (str s2)"
      by (simp_all add: str_def min_def)
  qed
  have nt: "buf s1 ! k = str s1 ! k" "buf s2 ! k = str s2 ! k" if "k < n" for k
    using that by (auto simp: str_def n_def)
  have c0: "c = 0 \<longleftrightarrow> take n (str s1) = take n (str s2)" using c(2) tk by simp
  have cn: "c < 0 \<longleftrightarrow> (\<exists>k<n. take k (str s1) = take k (str s2) \<and> code (str s1 ! k) < code (str s2 ! k))"
    using c(3) tk nt by auto
  have lex: "(str s1, str s2) \<in> lexord {(x, y). code x < code y} \<longleftrightarrow>
      len s1 < len s2 \<and> take (len s1) (str s2) = str s1
      \<or> (\<exists>k<n. take k (str s1) = take k (str s2) \<and> code (str s1 ! k) < code (str s2 ! k))"
    unfolding lexord_take_index_conv ls n_def by auto
  have r: "sdscmp s1 s2 = Some (if c = 0 then int (len s1) - int (len s2) else c)"
  proof -
    have "(if sdslen s1 < sdslen s2 then sdslen s1 else sdslen s2) = n"
      by (simp add: n_def sdslen_def)
    then have "sdscmp s1 s2 = Some (if c = 0 then int32 (int (sdslen s1) - int (sdslen s2)) else c)"
      using c(1) unfolding sdscmp_def Let_def by simp
    then show ?thesis using assms(3,4) by (simp add: sdslen_def)
  qed
  show ?thesis
  proof (cases "c = 0")
    case False
    then have "take n (str s1) \<noteq> take n (str s2)" using c0 by simp
    then have "str s1 \<noteq> str s2" "\<not> (len s1 < len s2 \<and> take (len s1) (str s2) = str s1)"
      using ls by (auto simp: n_def min_def)
    with False r cn lex show ?thesis by auto
  next
    case True
    then have t: "take n (str s1) = take n (str s2)" using c0 by simp
    have "str s1 = str s2 \<longleftrightarrow> len s1 = len s2"
      using t ls by (metis min.idem n_def order_refl take_all)
    moreover have "len s1 < len s2 \<Longrightarrow> take (len s1) (str s2) = str s1"
      using t ls by (simp add: n_def min_def)
    ultimately show ?thesis using True r cn lex by auto
  qed
qed


subsection \<open>Instances\<close>

lemma sdstrim_correct_witness: "\<exists>s'. sdstrim hello ''ho'' = Some s' \<and> str s' = ''ell''"
proof -
  have "trim (\<lambda>c. c \<in> set ''ho'' \<or> c = NUL) ''hello'' = ''ell''" by (simp add: trim_def)
  with sdstrim_correct [OF hello_ok(1), of "''ho''"] hello_ok(2) show ?thesis by auto
qed

lemma sdsrange_correct_witness: "\<exists>s'. sdsrange hello (- 3) 2147483647 = Some s' \<and> str s' = ''llo''"
proof -
  have "slice ''hello'' (- 3) 2147483647 = ''llo''" by code_simp
  with sdsrange_correct [OF hello_ok(1), of "- 3" 2147483647] hello_ok(2) show ?thesis
    by (auto simp: hello_def)
qed

lemma sdssplitlen_join_witness:
  "\<exists>tokens. sdssplitlen zero_mal ''foo_-_bar'' ''_-_'' = Some (Some tokens)
     \<and> (\<forall>t\<in>set tokens. \<not> sublist ''_-_'' (str t))"
  using sdssplitlen_join [OF never_null_zero, of "''foo_-_bar''" "''_-_''"] by auto

lemma sdssplitlen_empty_witness: "sdssplitlen zero_mal [] '','' = Some (Some [])"
  using sdssplitlen_empty [OF never_null_zero, of "'',''"] by simp

lemma sdsjoin_correct_witness:
  "\<exists>j. sdsjoin zero_mal (map cstr [''a'', ''b'', ''c'']) (cstr '', '') = Some (Some j) \<and> str j = ''a, b, c''"
  using sdsjoin_correct [OF never_null_zero, of "[''a'', ''b'', ''c'']" "'', ''"] by auto

lemma sdscmp_correct_witness: "sdscmp hello hello = Some 0"
  using sdscmp_correct [OF hello_ok(1) hello_ok(1)] by (auto simp: hello_def)

end
