(* ===== verification/Sds_Args.thy ===== *)
theory Sds_Args
  imports Sds_Format Sds_Edit
begin

text \<open>
  Quoting and unquoting: \<^verbatim>\<open>sdscatrepr\<close> and \<^verbatim>\<open>sdssplitargs\<close> of \<^verbatim>\<open>sds.c\<close>, and that the
  second reads back what the first writes.
\<close>

subsection \<open>The code\<close>

abbreviation ch :: "nat \<Rightarrow> char" where
  "ch \<equiv> char_of"

definition hex :: "nat \<Rightarrow> char" where
  "hex n = (if n < 10 then ch (48 + n) else ch (87 + n))"

text \<open>The \<^verbatim>\<open>switch\<close> for one byte: \<^verbatim>\<open>sdscatprintf\<close> gets the format's length and its text.\<close>

definition repr_case :: "allocator \<Rightarrow> sdshdr \<Rightarrow> char \<Rightarrow> sdshdr option option" where
  "repr_case mal s c =
     (if code c = 92 \<or> code c = 34 then sdscatvprintf mal s 3 [ch 92, c]
      else if code c = 10 then sdscatlen mal s (cstr [ch 92, CHR ''n'']) 2
      else if code c = 13 then sdscatlen mal s (cstr [ch 92, CHR ''r'']) 2
      else if code c = 9 then sdscatlen mal s (cstr [ch 92, CHR ''t'']) 2
      else if code c = 7 then sdscatlen mal s (cstr [ch 92, CHR ''a'']) 2
      else if code c = 8 then sdscatlen mal s (cstr [ch 92, CHR ''b'']) 2
      else if isprint c then sdscatvprintf mal s 2 [c]
      else sdscatvprintf mal s 6 [ch 92, CHR ''x'', hex (code c div 16), hex (code c mod 16)])"

fun repr_while :: "allocator \<Rightarrow> sdshdr option \<Rightarrow> string \<Rightarrow> sdshdr option option" where
  "repr_while mal r [] = Some r"
| "repr_while mal r (c # p) = r \<bind> (\<lambda>s. repr_case mal s c) \<bind> (\<lambda>r. repr_while mal r p)"

definition sdscatrepr :: "allocator \<Rightarrow> sdshdr \<Rightarrow> string \<Rightarrow> sdshdr option option" where
  "sdscatrepr mal s p =
     sdscatlen mal s (cstr [ch 34]) 1 \<bind> (\<lambda>r. repr_while mal r p \<bind> (\<lambda>r.
       r \<bind> (\<lambda>s. sdscatlen mal s (cstr [ch 34]) 1)))"

definition is_hex_digit :: "char \<Rightarrow> bool" where
  "is_hex_digit c \<longleftrightarrow> 48 \<le> code c \<and> code c \<le> 57 \<or> 97 \<le> code c \<and> code c \<le> 102
     \<or> 65 \<le> code c \<and> code c \<le> 70"

definition hex_digit_to_int :: "char \<Rightarrow> nat" where
  "hex_digit_to_int c =
     (if 48 \<le> code c \<and> code c \<le> 57 then code c - 48
      else if 97 \<le> code c \<and> code c \<le> 102 then code c - 87
      else if 65 \<le> code c \<and> code c \<le> 70 then code c - 55
      else 0)"

text \<open>The condition that \<open>p\<close> is at \<^verbatim>\<open>\x\<close> and two hex digits, read from left to right.\<close>

definition at_hex_escape :: "string \<Rightarrow> nat \<Rightarrow> bool option" where
  "at_hex_escape line p =
     rd line p \<bind> (\<lambda>c. if code c \<noteq> 92 then Some False else
     rd line (p + 1) \<bind> (\<lambda>c. if c \<noteq> CHR ''x'' then Some False else
     rd line (p + 2) \<bind> (\<lambda>c. if \<not> is_hex_digit c then Some False else
     rd line (p + 3) \<bind> (\<lambda>c. Some (is_hex_digit c)))))"

definition cat1 :: "allocator \<Rightarrow> sdshdr option \<Rightarrow> char \<Rightarrow> sdshdr option option" where
  "cat1 mal current c = current \<bind> (\<lambda>s. sdscatlen mal s [c] 1)"

definition unescape :: "char \<Rightarrow> char" where
  "unescape c =
     (if c = CHR ''n'' then ch 10
      else if c = CHR ''r'' then ch 13
      else if c = CHR ''t'' then ch 9
      else if c = CHR ''b'' then ch 8
      else if c = CHR ''a'' then ch 7
      else c)"

text \<open>
  One round of \<^verbatim>\<open>while(!done)\<close>, before its \<^verbatim>\<open>if (*p) p++\<close>: an error, the end of the token,
  or the new \<^verbatim>\<open>p\<close>, \<^verbatim>\<open>inq\<close>, \<^verbatim>\<open>insq\<close> and \<^verbatim>\<open>current\<close>.
\<close>

datatype 'a round = Err | Done nat 'a | Go nat bool bool 'a

definition token_round ::
  "allocator \<Rightarrow> string \<Rightarrow> nat \<Rightarrow> bool \<Rightarrow> bool \<Rightarrow> sdshdr option \<Rightarrow> sdshdr option round option" where
  "token_round mal line p inq insq current =
     rd line p \<bind> (\<lambda>c.
       if inq then
         at_hex_escape line p \<bind> (\<lambda>h.
           if h then
             rd line (p + 2) \<bind> (\<lambda>h1. rd line (p + 3) \<bind> (\<lambda>h2.
               cat1 mal current (ch (hex_digit_to_int h1 * 16 + hex_digit_to_int h2)) \<bind>
                 (\<lambda>cur. Some (Go (p + 3) inq insq cur))))
           else if code c = 92 then
             rd line (p + 1) \<bind> (\<lambda>d.
               if d \<noteq> NUL
               then cat1 mal current (unescape d) \<bind> (\<lambda>cur. Some (Go (p + 1) inq insq cur))
               else cat1 mal current c \<bind> (\<lambda>cur. Some (Go p inq insq cur)))
           else if code c = 34 then
             rd line (p + 1) \<bind> (\<lambda>d. Some (if d \<noteq> NUL \<and> \<not> isspace d then Err else Done p current))
           else if c = NUL then Some Err
           else cat1 mal current c \<bind> (\<lambda>cur. Some (Go p inq insq cur)))
       else if insq then
         (if code c = 92 then rd line (p + 1) \<bind> (\<lambda>d. Some (code d = 39)) else Some False) \<bind> (\<lambda>q.
           if q then cat1 mal current (ch 39) \<bind> (\<lambda>cur. Some (Go (p + 1) inq insq cur))
           else if code c = 39 then
             rd line (p + 1) \<bind> (\<lambda>d. Some (if d \<noteq> NUL \<and> \<not> isspace d then Err else Done p current))
           else if c = NUL then Some Err
           else cat1 mal current c \<bind> (\<lambda>cur. Some (Go p inq insq cur)))
       else if code c = 32 \<or> code c = 10 \<or> code c = 13 \<or> code c = 9 \<or> c = NUL then Some (Done p current)
       else if code c = 34 then Some (Go p True insq current)
       else if code c = 39 then Some (Go p inq True current)
       else cat1 mal current c \<bind> (\<lambda>cur. Some (Go p inq insq cur)))"

definition advance :: "string \<Rightarrow> nat \<Rightarrow> nat option" where
  "advance line p = rd line p \<bind> (\<lambda>c. Some (if c \<noteq> NUL then p + 1 else p))"

partial_function (option) token_while ::
  "allocator \<Rightarrow> string \<Rightarrow> nat \<Rightarrow> bool \<Rightarrow> bool \<Rightarrow> sdshdr option \<Rightarrow> (sdshdr option \<times> nat) option option" where
  "token_while mal line p inq insq current =
     token_round mal line p inq insq current \<bind> (\<lambda>r. case r of
       Err \<Rightarrow> Some None
     | Done p cur \<Rightarrow> advance line p \<bind> (\<lambda>p. Some (Some (cur, p)))
     | Go p inq insq cur \<Rightarrow> advance line p \<bind> (\<lambda>p. token_while mal line p inq insq cur))"

partial_function (option) skip_blanks :: "string \<Rightarrow> nat \<Rightarrow> nat option" where
  "skip_blanks line p =
     rd line p \<bind> (\<lambda>c. if c \<noteq> NUL \<and> isspace c then skip_blanks line (p + 1) else Some p)"

partial_function (option) args_while ::
  "allocator \<Rightarrow> string \<Rightarrow> nat \<Rightarrow> sdshdr option list \<Rightarrow> sdshdr option list option option" where
  "args_while mal line p vector =
     skip_blanks line p \<bind> (\<lambda>p. rd line p \<bind> (\<lambda>c.
       if c \<noteq> NUL
       then sdsempty mal \<bind> (\<lambda>current. token_while mal line p False False current \<bind> (\<lambda>r. case r of
              None \<Rightarrow> Some None
            | Some (tok, p) \<Rightarrow>
                (case s_malloc mal ((length vector + 1) * 8) of
                   None \<Rightarrow> None
                 | Some _ \<Rightarrow> args_while mal line p (vector @ [tok]))))
       else if vector = [] then Some (map_option (\<lambda>_. vector) (s_malloc mal 8))
       else Some (Some vector)))"

text \<open>
  \<^verbatim>\<open>vector\<close> grows by \<^verbatim>\<open>s_realloc\<close>, whose result is not checked. The arguments, or \<open>Some None\<close> for the null pointer after an error.\<close>

definition sdssplitargs :: "allocator \<Rightarrow> string \<Rightarrow> sdshdr option list option option" where
  "sdssplitargs mal line = args_while mal line 0 []"

lemmas args_code [code] = printf_while.simps token_while.simps skip_blanks.simps args_while.simps

subsection \<open>What is written\<close>

definition repr_text :: "char \<Rightarrow> string" where
  "repr_text c =
     (if code c = 92 \<or> code c = 34 then [ch 92, c]
      else if code c = 10 then [ch 92, CHR ''n'']
      else if code c = 13 then [ch 92, CHR ''r'']
      else if code c = 9 then [ch 92, CHR ''t'']
      else if code c = 7 then [ch 92, CHR ''a'']
      else if code c = 8 then [ch 92, CHR ''b'']
      else if isprint c then [c]
      else [ch 92, CHR ''x'', hex (code c div 16), hex (code c mod 16)])"

definition quoted :: "string \<Rightarrow> string" where
  "quoted p = [ch 34] @ concat (map repr_text p) @ [ch 34]"

lemma code_ch [simp]: "n < 256 \<Longrightarrow> code (ch n) = n"
  by (simp add: code_def)

lemma ch_code [simp]: "ch (code c) = c"
  by (simp add: code_def)

lemma code_eq_0: "code c = 0 \<longleftrightarrow> c = NUL"
proof
  assume "code c = 0"
  then have "ch (code c) = ch 0" by simp
  moreover have "ch 0 = NUL" by code_simp
  ultimately show "c = NUL" by simp
qed (simp add: code_def)

lemma code_hex: "n < 16 \<Longrightarrow> code (hex n) = (if n < 10 then 48 + n else 87 + n)"
  by (simp add: hex_def)

lemma hex_digit [simp]: "n < 16 \<Longrightarrow> is_hex_digit (hex n)" "n < 16 \<Longrightarrow> hex_digit_to_int (hex n) = n"
  by (auto simp: is_hex_digit_def hex_digit_to_int_def code_hex)

lemma hex_nonzero [simp]: "n < 16 \<Longrightarrow> hex n \<noteq> NUL"
  using code_hex [of n] code_eq_0 [of "hex n"] by (auto split: if_splits)

lemma code_nibbles: "code c div 16 < 16" "code c mod 16 < 16"
  using code_less [of c] by (auto simp: less_mult_imp_div_less)

lemma repr_text_code: "x \<in> set (repr_text c) \<Longrightarrow> 0 < code x"
  using code_nibbles [of c]
  by (auto simp: repr_text_def isprint_def code_hex split: if_splits) (simp_all add: code_def)

lemma repr_text_no_nul: "NUL \<notin> set (repr_text c)"
  using repr_text_code [of NUL c] code_eq_0 [of NUL] by auto

lemma quoted_no_nul: "NUL \<notin> set (quoted p)"
proof
  assume "NUL \<in> set (quoted p)"
  then have "NUL = ch 34" using repr_text_no_nul by (auto simp: quoted_def)
  then have "code NUL = 34" by simp
  then show False using code_eq_0 [of NUL] by simp
qed

lemma sdscatvprintf_short:
  assumes "length out \<le> 1022" and "fmtlen \<le> 512" and "NUL \<notin> set out"
  shows "sdscatvprintf mal s fmtlen out = cat_bytes mal s out"
proof -
  define b0 where "b0 = (replicate 1024 NUL)[1022 := NUL]"
  have "length b0 = 1024" "b0 ! (1024 - 2) = NUL" by (simp_all add: b0_def)
  from vsnprintf_shape [OF _ this, of out] assms(1) obtain b x r where b: "vsnprintf b0 1024 out = Some b"
    "length b = 1024" "b ! 1022 = NUL" "b = x @ NUL # r"
    "takeWhile (\<lambda>c. c \<noteq> NUL) x = takeWhile (\<lambda>c. c \<noteq> NUL) out" by (auto split: if_splits)
  have out: "takeWhile (\<lambda>c. c \<noteq> NUL) out = out" using assms(3) by (auto simp: takeWhile_eq_all_conv)
  have "printf_while mal (replicate 1024 NUL) 1024 out = Some (Some b)"
    using b(1-3) by (subst printf_while.simps) (simp add: b0_def)
  then have "sdscatvprintf mal s fmtlen out = sdscat mal s b"
    using assms(2) by (simp add: sdscatvprintf_def Let_def nat_mult_distrib)
  also have "\<dots> = sdscatlen mal s b (length out)"
    using strlen_nul [of x r] b(4,5) out by (simp add: sdscat_def)
  also have "\<dots> = cat_bytes mal s (take (length out) b)"
    using b(4,5) out length_takeWhile_le [of "\<lambda>c. c \<noteq> NUL" x] by (intro sdscatlen_take) simp
  also have "take (length out) b = out"
    using take_takeWhile [of "\<lambda>c. c \<noteq> NUL" x "NUL # r"] b(4,5) out by simp
  finally show ?thesis .
qed

lemma sdscatlen_lit: "n = length t \<Longrightarrow> sdscatlen mal s (cstr t) n = cat_bytes mal s t"
  using sdscatlen_take [of n "cstr t" mal s] by (simp add: cstr_def)

lemma repr_case_text: "repr_case mal s c = cat_bytes mal s (repr_text c)"
proof -
  have n: "NUL \<notin> set (repr_text c)" by (rule repr_text_no_nul)
  then show ?thesis
    unfolding repr_case_def repr_text_def
    by (auto simp: sdscatvprintf_short sdscatlen_lit split: if_splits)
qed

lemma repr_while_text: "repr_while mal r p = cat_all (cat_bytes mal) r (map repr_text p)"
  by (induction p arbitrary: r) (simp_all add: repr_case_text)

lemma sdscatrepr_all:
  "sdscatrepr mal s p = cat_all (cat_bytes mal) (Some s) ([ch 34] # map repr_text p @ [[ch 34]])"
  by (simp add: sdscatrepr_def repr_while_text cat_all_append sdscatlen_lit)

lemma sdscatrepr_spec:
  assumes "sds_ok s" and "never_null mal" and "small (len s + length (quoted p))"
  shows "\<exists>s'. sdscatrepr mal s p = Some (Some s') \<and> sds_ok s' \<and> str s' = str s @ quoted p"
  using sds.cat_all_spec [of s "[ch 34] # map repr_text p @ [[ch 34]]" mal] assms
  by (auto simp: sdscatrepr_all quoted_def)

subsection \<open>What is read\<close>

lemma rd_append [simp]: "rd (xs @ ys) (length xs + n) = rd ys n"
  by (simp add: rd_def)

lemma rd_append0 [simp]: "rd (xs @ ys) (length xs) = rd ys 0"
  by (simp add: rd_def nth_append)

lemma rd_append_Suc [simp]: "rd (xs @ ys) (Suc (length xs)) = rd ys 1"
  "rd (xs @ ys) (Suc (Suc (length xs))) = rd ys 2"
  by (simp_all add: rd_def nth_append numeral_2_eq_2)

lemma rd_Cons [simp]: "rd (x # xs) 0 = Some x" "rd (x # xs) (Suc n) = rd xs n"
  "rd (x # xs) 1 = rd xs 0" "rd (x # xs) 2 = rd xs 1" "rd (x # xs) 3 = rd xs 2"
  by (simp_all add: rd_def nth_Cons')

lemma cat1_bytes: "cat1 mal r c = r \<bind> (\<lambda>s. cat_bytes mal s [c])"
  by (simp add: cat1_def cat_bytes_def)

lemma repr_text_last: "\<exists>u x. repr_text c = u @ [x] \<and> x \<noteq> NUL \<and> length u = length (repr_text c) - 1"
proof -
  have "repr_text c \<noteq> []" by (simp add: repr_text_def)
  then obtain u x where u: "repr_text c = u @ [x]" by (metis rev_exhaust)
  moreover have "x \<noteq> NUL" using repr_text_no_nul [of c] u by auto
  ultimately show ?thesis by simp
qed

lemma advance_repr:
  "advance (pre @ repr_text c @ post) (length pre + (length (repr_text c) - 1))
     = Some (length pre + length (repr_text c))"
proof -
  obtain u x where u: "repr_text c = u @ [x]" "x \<noteq> NUL" "length u = length (repr_text c) - 1"
    using repr_text_last [of c] by blast
  have "rd (pre @ (u @ [x]) @ post) (length pre + length u) = Some x"
    by (simp add: rd_def nth_append)
  with u show ?thesis by (simp add: advance_def)
qed

lemma lit_code: "code (CHR ''n'') = 110" "code (CHR ''r'') = 114" "code (CHR ''t'') = 116"
  "code (CHR ''a'') = 97" "code (CHR ''b'') = 98" "code (CHR ''x'') = 120"
  by (simp_all add: code_def)

lemma code_inj: "x = y \<longleftrightarrow> code x = code y"
  by (metis ch_code)

lemma unescape_esc:
  "unescape (CHR ''n'') = ch 10" "unescape (CHR ''r'') = ch 13" "unescape (CHR ''t'') = ch 9"
  "unescape (CHR ''a'') = ch 7" "unescape (CHR ''b'') = ch 8"
  "code c = 92 \<or> code c = 34 \<Longrightarrow> unescape c = c"
  by (auto simp: unescape_def code_inj [of c] lit_code)

lemma round_escape:
  assumes "d \<noteq> CHR ''x''" and "d \<noteq> NUL"
  shows "token_round mal (pre @ [ch 92, d] @ post) (length pre) True False r
     = cat1 mal r (unescape d) \<bind> (\<lambda>r. Some (Go (length pre + 1) True False r))"
  using assms by (simp add: token_round_def at_hex_escape_def del: rd_in)

lemma round_plain:
  assumes "code c \<noteq> 92" and "code c \<noteq> 34" and "c \<noteq> NUL"
  shows "token_round mal (pre @ [c] @ post) (length pre) True False r
     = cat1 mal r c \<bind> (\<lambda>r. Some (Go (length pre) True False r))"
  using assms by (simp add: token_round_def at_hex_escape_def)

lemma round_hex:
  "token_round mal (pre @ [ch 92, CHR ''x'', hex (code c div 16), hex (code c mod 16)] @ post)
       (length pre) True False r
     = cat1 mal r c \<bind> (\<lambda>r. Some (Go (length pre + 3) True False r))"
proof -
  have "code c div 16 * 16 + code c mod 16 = code c" by simp
  then have "ch (code c div 16 * 16 + code c mod 16) = c" by simp
  then show ?thesis
    using code_nibbles [of c] by (simp add: token_round_def at_hex_escape_def del: rd_in)
qed

lemma token_round_repr:
  "token_round mal (pre @ repr_text c @ post) (length pre) True False r
     = cat1 mal r c \<bind> (\<lambda>r. Some (Go (length pre + (length (repr_text c) - 1)) True False r))"
proof -
  consider (esc) d where "repr_text c = [ch 92, d]" "d \<noteq> CHR ''x''" "d \<noteq> NUL" "unescape d = c"
    | (plain) "repr_text c = [c]" "code c \<noteq> 92" "code c \<noteq> 34" "c \<noteq> NUL"
    | (hex) "repr_text c = [ch 92, CHR ''x'', hex (code c div 16), hex (code c mod 16)]"
  proof -
    have lit: "CHR ''n'' \<noteq> NUL" "CHR ''r'' \<noteq> NUL" "CHR ''t'' \<noteq> NUL" "CHR ''a'' \<noteq> NUL"
      "CHR ''b'' \<noteq> NUL" by simp_all
    consider "code c = 92 \<or> code c = 34" | "code c \<in> {10, 13, 9, 7, 8}"
      | "code c \<notin> {92, 34, 10, 13, 9, 7, 8}" "isprint c"
      | "code c \<notin> {92, 34, 10, 13, 9, 7, 8}" "\<not> isprint c"
      by blast
    then show thesis
    proof cases
      case 1
      then have "repr_text c = [ch 92, c]" "c \<noteq> CHR ''x''" "c \<noteq> NUL"
        by (auto simp: repr_text_def code_def)
      with unescape_esc(6) [OF 1] show thesis by (intro that(1))
    next
      case 2
      then consider "c = ch 10" | "c = ch 13" | "c = ch 9" | "c = ch 7" | "c = ch 8"
        by (metis ch_code empty_iff insert_iff)
      then show thesis
      proof cases
        case 1
        then show thesis
          by (intro that(1) [of "CHR ''n''"]) (simp_all add: repr_text_def unescape_esc)
        next
        case 2
        then show thesis
          by (intro that(1) [of "CHR ''r''"]) (simp_all add: repr_text_def unescape_esc)
        next
        case 3
        then show thesis
          by (intro that(1) [of "CHR ''t''"]) (simp_all add: repr_text_def unescape_esc)
        next
        case 4
        then show thesis
          by (intro that(1) [of "CHR ''a''"]) (simp_all add: repr_text_def unescape_esc)
        next
        case 5
        then show thesis
          by (intro that(1) [of "CHR ''b''"]) (simp_all add: repr_text_def unescape_esc)
      qed
    next
      case 3
      then have "repr_text c = [c]" "c \<noteq> NUL" by (auto simp: repr_text_def isprint_def code_def)
      with 3 show thesis by (intro that(2)) auto
    next
      case 4
      then show thesis by (intro that(3)) (simp add: repr_text_def)
    qed
  qed
  then show ?thesis
  proof cases
    case esc
    with round_escape [of d mal pre post r] show ?thesis by simp
  next
    case plain
    with round_plain [of c mal pre post r] show ?thesis by simp
  next
    case hex
    with round_hex [of mal pre c post r] show ?thesis by (simp add: numeral_3_eq_3)
  qed
qed

lemma token_while_quoted:
  "token_while mal (pre @ concat (map repr_text p) @ [ch 34, NUL]) (length pre) True False r
     = cat_all (cat_bytes mal) r (map (\<lambda>c. [c]) p) \<bind> (\<lambda>r.
         Some (Some (r, length pre + length (concat (map repr_text p)) + 1)))"
proof (induction p arbitrary: pre r)
  case Nil
  have "token_round mal (pre @ [ch 34, NUL]) (length pre) True False r = Some (Done (length pre) r)"
    by (simp add: token_round_def at_hex_escape_def del: rd_in)
  moreover have "ch 34 \<noteq> NUL" using quoted_no_nul [of "[]"] by (auto simp: quoted_def)
  then have "advance (pre @ [ch 34, NUL]) (length pre) = Some (length pre + 1)"
    by (simp add: advance_def)
  ultimately show ?case by (subst token_while.simps) simp
next
  case (Cons c p)
  define post where "post = concat (map repr_text p) @ [ch 34, NUL]"
  have "token_while mal (pre @ repr_text c @ post) (length pre) True False r
      = cat1 mal r c \<bind> (\<lambda>r. token_while mal ((pre @ repr_text c) @ post) (length (pre @ repr_text c)) True False r)"
    by (subst token_while.simps) (simp add: token_round_repr advance_repr [simplified] bind_assoc)
  also have "\<dots> = cat1 mal r c \<bind> (\<lambda>r. cat_all (cat_bytes mal) r (map (\<lambda>c. [c]) p) \<bind> (\<lambda>r.
         Some (Some (r, length (pre @ repr_text c) + length (concat (map repr_text p)) + 1))))"
    unfolding post_def Cons.IH ..
  finally show ?case by (simp add: post_def cat1_bytes bind_assoc add.assoc)
qed

lemma isspace_quote: "\<not> isspace (ch 34)"
  by (simp add: isspace_def)

lemma splitargs_quoted:
  assumes "never_null mal"
  shows "sdssplitargs mal (cstr (quoted p)) = sdsempty mal \<bind> (\<lambda>r.
     cat_all (cat_bytes mal) r (map (\<lambda>c. [c]) p) \<bind> (\<lambda>r. Some (Some [r])))"
proof -
  define line where "line = cstr (quoted p)"
  have line: "line = [ch 34] @ concat (map repr_text p) @ [ch 34, NUL]"
    by (simp add: line_def cstr_def quoted_def)
  have nn: "ch 34 \<noteq> NUL" using quoted_no_nul [of "[]"] by (auto simp: quoted_def)
  define e where "e = length line - 1"
  have r0: "rd line 0 = Some (ch 34)" and re: "rd line e = Some NUL"
    by (simp_all add: line e_def rd_def nth_append)
  have sk: "skip_blanks line 0 = Some 0" "skip_blanks line e = Some e"
    using r0 re isspace_quote by (subst skip_blanks.simps; simp)+
  have tw: "token_while mal line 0 False False r
      = cat_all (cat_bytes mal) r (map (\<lambda>c. [c]) p) \<bind> (\<lambda>r. Some (Some (r, e)))" for r
  proof -
    have "token_while mal line 0 False False r = token_while mal line 1 True False r"
      using r0 nn by (subst token_while.simps) (simp add: token_round_def advance_def)
    also have "\<dots> = cat_all (cat_bytes mal) r (map (\<lambda>c. [c]) p) \<bind> (\<lambda>r. Some (Some (r, e)))"
      using token_while_quoted [of mal "[ch 34]" p r] by (simp add: line e_def)
    finally show ?thesis .
  qed
  have last: "args_while mal line e [r] = Some (Some [r])" for r
    using sk(2) re by (subst args_while.simps) simp
  obtain f where "mal 8 = Some f" using assms unfolding never_null_def by fastforce
  then obtain b where b: "s_malloc mal 8 = Some b" by (simp add: s_malloc_def)
  have "args_while mal line 0 [] = sdsempty mal \<bind> (\<lambda>r. token_while mal line 0 False False r \<bind> (\<lambda>r. case r of
              None \<Rightarrow> Some None
            | Some (tok, p) \<Rightarrow> args_while mal line p [tok]))"
    using sk(1) r0 nn b by (subst args_while.simps) (simp cong: option.case_cong)
  then show ?thesis
    unfolding sdssplitargs_def line_def [symmetric] by (simp add: tw last bind_assoc)
qed

text \<open>
  C15. \<^verbatim>\<open>sdssplitargs\<close> reads the quoted form that \<^verbatim>\<open>sdscatrepr\<close> writes back as the one
  argument it came from, for every string of bytes, NUL bytes and quotes included.
\<close>

theorem sdssplitargs_sdscatrepr:
  assumes "never_null mal" and "sds_ok s" and "str s = []" and "length p < 2 ^ 59"
  shows "\<exists>q t. sdscatrepr mal s p = Some (Some q) \<and> sds_ok q
     \<and> sdssplitargs mal (cstr (str q)) = Some (Some [Some t]) \<and> sds_ok t \<and> str t = p"
proof -
  have "length (repr_text c) \<le> 4" for c by (simp add: repr_text_def)
  then have "length (concat (map repr_text p)) \<le> 4 * length p"
    by (induction p) (auto intro: add_mono)
  then have sm: "small (len s + length (quoted p))" "small (length p)"
    using assms(3,4) length_str [OF assms(2)] by (auto simp: quoted_def small_def)
  from sdscatrepr_spec [OF assms(2,1) sm(1)] obtain q where q: "sdscatrepr mal s p = Some (Some q)"
    "sds_ok q" "str q = quoted p" using assms(3) by auto
  obtain e where e: "sdsempty mal = Some (Some e)" "sds_ok e" "str e = []"
    using sdsempty_gives [of mal] assms(1) unfolding gives_def never_null_def by blast
  have c: "concat (map (\<lambda>c. [c]) p) = p" by (induction p) auto
  with sds.cat_all_spec [OF e(2), of "map (\<lambda>c. [c]) p" mal] sm(2) assms(1) e(3)
  obtain t where t: "cat_all (cat_bytes mal) (Some e) (map (\<lambda>c. [c]) p) = Some (Some t)" "sds_ok t" "str t = p"
    by auto
  have "sdssplitargs mal (cstr (str q)) = Some (Some [Some t])"
    unfolding q(3) splitargs_quoted [OF assms(1)] using e(1) t(1) by simp
  with q t show ?thesis by blast
qed

definition empty_sds :: sdshdr where
  "empty_sds = \<lparr>flags = SDS_TYPE_8, len = 0, alloc = 0, buf = [NUL]\<rparr>"

lemma sdssplitargs_sdscatrepr_witness:
  "\<exists>q t. sdscatrepr zero_mal empty_sds [NUL, ch 34, ch 255] = Some (Some q)
     \<and> sdssplitargs zero_mal (cstr (str q)) = Some (Some [Some t]) \<and> str t = [NUL, ch 34, ch 255]"
  using sdssplitargs_sdscatrepr [OF never_null_zero, of empty_sds "[NUL, ch 34, ch 255]"]
  by (auto simp: empty_sds_def sds_ok_def sdsalloc_def str_def)

end
