(* ===== verification/Read.thy ===== *)
theory Read
  imports Sds_Edit
begin

text \<open>
  \<^verbatim>\<open>9_using_hiredis_api/hiredis/read.h\<close> and \<^verbatim>\<open>read.c\<close>: the incremental parser of the redis
  protocol. A pointer into the buffer is an offset, the buffer is the bytes of an \<^verbatim>\<open>sds\<close>.
  Reply objects belong to the functions behind \<open>fn\<close>: the reader knows an object as an address
  (0 is the null pointer) in a memory \<open>objs\<close> of any type. A function pointer that may be null
  is an \<^typ>\<open>'a option\<close>. \<open>None\<close> is undefined behaviour, a failed \<^verbatim>\<open>assert\<close> or a loop that never
  ends.
\<close>

subsection \<open>Types\<close>

datatype result = REDIS_OK | REDIS_ERR

abbreviation (input) "REDIS_ERR_PROTOCOL \<equiv> 4 :: int"
abbreviation (input) "REDIS_ERR_OOM \<equiv> 5 :: int"
abbreviation (input) "REDIS_REPLY_STRING \<equiv> 1 :: int"
abbreviation (input) "REDIS_REPLY_ARRAY \<equiv> 2 :: int"
abbreviation (input) "REDIS_REPLY_INTEGER \<equiv> 3 :: int"
abbreviation (input) "REDIS_REPLY_NIL \<equiv> 4 :: int"
abbreviation (input) "REDIS_REPLY_STATUS \<equiv> 5 :: int"
abbreviation (input) "REDIS_REPLY_ERROR \<equiv> 6 :: int"

definition REDIS_READER_MAX_BUF :: nat where
  "REDIS_READER_MAX_BUF = 1024 * 16"

record redisReadTask =
  ttype :: int
  elements :: int
  idx :: int
  obj :: nat
  parent :: "nat option"

text \<open>A task is handed to a function as the stack and the index of the task.\<close>

record 'h redisReplyObjectFunctions =
  createString :: "(redisReadTask list \<Rightarrow> nat \<Rightarrow> string \<Rightarrow> nat \<Rightarrow> 'h \<Rightarrow> (nat \<times> 'h) option) option"
  createArray :: "(redisReadTask list \<Rightarrow> nat \<Rightarrow> int \<Rightarrow> 'h \<Rightarrow> (nat \<times> 'h) option) option"
  createInteger :: "(redisReadTask list \<Rightarrow> nat \<Rightarrow> int \<Rightarrow> 'h \<Rightarrow> (nat \<times> 'h) option) option"
  createNil :: "(redisReadTask list \<Rightarrow> nat \<Rightarrow> 'h \<Rightarrow> (nat \<times> 'h) option) option"
  freeObject :: "(nat \<Rightarrow> 'h \<Rightarrow> 'h option) option"

record 'h redisReader =
  rerr :: int
  errstr :: string
  rbuf :: "sdshdr option"
  rpos :: nat
  rlen :: nat
  maxbuf :: nat
  rstack :: "redisReadTask list"
  ridx :: int
  reply :: nat
  fn :: "'h redisReplyObjectFunctions"
  objs :: 'h

definition ULLONG_MAX :: nat where
  "ULLONG_MAX = 2 ^ 64 - 1"

definition int64 :: "int \<Rightarrow> int" where
  "int64 x = (x + 2 ^ 63) mod 2 ^ 64 - 2 ^ 63"

text \<open>The \<open>n\<close> bytes from \<open>p\<close> on.\<close>

definition bytes_at :: "string \<Rightarrow> nat \<Rightarrow> nat \<Rightarrow> string option" where
  "bytes_at m p n = (if p + n \<le> length m then Some (take n (drop p m)) else None)"

definition rmem :: "'h redisReader \<Rightarrow> string" where
  "rmem r = (case rbuf r of None \<Rightarrow> [] | Some s \<Rightarrow> buf s)"

subsection \<open>Errors\<close>

definition redisReaderSetError :: "'h redisReader \<Rightarrow> int \<Rightarrow> string \<Rightarrow> 'h redisReader option" where
  "redisReaderSetError r type msg =
     (if reply r \<noteq> 0
      then (case freeObject (fn r) of
              None \<Rightarrow> Some r
            | Some f \<Rightarrow> f (reply r) (objs r) \<bind> (\<lambda>h. Some (r\<lparr>objs := h, reply := 0\<rparr>)))
      else Some r) \<bind> (\<lambda>r.
        Some (r\<lparr>rbuf := None, rpos := 0, rlen := 0, ridx := - 1, rerr := type,
                errstr := take (min (length msg) 127) msg\<rparr>))"

text \<open>The text that \<^verbatim>\<open>snprintf\<close> leaves in a buffer of \<open>size\<close> bytes.\<close>

definition hex2 :: "char \<Rightarrow> string" where
  "hex2 c = map (\<lambda>d. ''0123456789abcdef'' ! d) [code c div 16, code c mod 16]"

definition chrtos :: "nat \<Rightarrow> char \<Rightarrow> string" where
  "chrtos n byte = take (n - 1)
     (if byte = CHR 0x5c \<or> byte = CHR 0x22 then [CHR 0x22, CHR 0x5c, byte, CHR 0x22]
      else if byte = CHR 0x0a then [CHR 0x22, CHR 0x5c, CHR ''n'', CHR 0x22]
      else if byte = CHR 0x0d then [CHR 0x22, CHR 0x5c, CHR ''r'', CHR 0x22]
      else if byte = CHR 0x09 then [CHR 0x22, CHR 0x5c, CHR ''t'', CHR 0x22]
      else if byte = CHR 0x07 then [CHR 0x22, CHR 0x5c, CHR ''a'', CHR 0x22]
      else if byte = CHR 0x08 then [CHR 0x22, CHR 0x5c, CHR ''b'', CHR 0x22]
      else if isprint byte then [CHR 0x22, byte, CHR 0x22]
      else [CHR 0x22, CHR 0x5c, CHR ''x''] @ hex2 byte @ [CHR 0x22])"

definition redisReaderSetErrorProtocolByte :: "'h redisReader \<Rightarrow> char \<Rightarrow> 'h redisReader option" where
  "redisReaderSetErrorProtocolByte r byte =
     redisReaderSetError r REDIS_ERR_PROTOCOL
       (take 127 (''Protocol error, got '' @ chrtos 8 byte @ '' as reply type byte''))"

definition redisReaderSetErrorOOM :: "'h redisReader \<Rightarrow> 'h redisReader option" where
  "redisReaderSetErrorOOM r = redisReaderSetError r REDIS_ERR_OOM ''Out of memory''"

subsection \<open>Reading the buffer\<close>

definition readBytes :: "'h redisReader \<Rightarrow> nat \<Rightarrow> (nat option \<times> 'h redisReader)" where
  "readBytes r n =
     (if size_t (int (rlen r) - int (rpos r)) \<ge> n
      then (Some (rpos r), r\<lparr>rpos := size_t (int (rpos r) + int n)\<rparr>)
      else (None, r))"

text \<open>The inner loop of \<^verbatim>\<open>seekNewline\<close>, on the bytes from \<open>s\<close> on.\<close>

function seek_cr :: "string \<Rightarrow> nat \<Rightarrow> int \<Rightarrow> nat option" where
  "seek_cr s pos ln =
     (if int pos < ln then rd s pos \<bind> (\<lambda>c. if c \<noteq> CHR 0x0d then seek_cr s (pos + 1) ln else Some pos)
      else Some pos)"
  by pat_completeness auto
termination by (relation "measure (\<lambda>(s, pos, ln). nat (ln - int pos))") auto

declare seek_cr.simps [simp del]

lemma seek_cr_ge: "seek_cr s pos ln = Some p \<Longrightarrow> pos \<le> p"
proof (induction s pos ln arbitrary: p rule: seek_cr.induct)
  case (1 s pos ln)
  then show ?case
    by (subst (asm) (2) seek_cr.simps) (fastforce split: if_splits bind_splits)
qed

function seek_while :: "string \<Rightarrow> nat \<Rightarrow> int \<Rightarrow> nat option option" where
  "seek_while s pos ln =
     (if int pos < ln
      then (case seek_cr s pos ln of
              None \<Rightarrow> None
            | Some p \<Rightarrow>
                if int p = ln then Some None
                else rd s (p + 1) \<bind> (\<lambda>c. if c = CHR 0x0a then Some (Some p) else seek_while s (p + 1) ln))
      else Some None)"
  by pat_completeness auto
termination
  by (relation "measure (\<lambda>(s, pos, ln). nat (ln - int pos))") (auto dest!: seek_cr_ge)

declare seek_while.simps [simp del]

definition seekNewline :: "string \<Rightarrow> nat \<Rightarrow> nat option option" where
  "seekNewline s n = seek_while s 0 (int32 (int n - 1))"

text \<open>\<^verbatim>\<open>string2ll\<close> of the \<^verbatim>\<open>slen\<close> bytes \<open>s\<close>; \<open>None\<close> is \<^verbatim>\<open>REDIS_ERR\<close>.\<close>

fun more_digits :: "nat \<Rightarrow> string \<Rightarrow> (nat \<times> string) option" where
  "more_digits v [] = Some (v, [])"
| "more_digits v (c # p) =
     (if 48 \<le> code c \<and> code c \<le> 57
      then (if v > ULLONG_MAX div 10 then None
            else (let v = v * 10
                  in if v > ULLONG_MAX - (code c - 48) then None
                     else more_digits (v + (code c - 48)) p))
      else Some (v, c # p))"

definition string2ll :: "string \<Rightarrow> int option" where
  "string2ll s =
     (if s = [] then None
      else if s = ''0'' then Some 0
      else
        (let negative = (hd s = CHR ''-''); p = (if negative then tl s else s)
         in if p = [] then None
            else if 49 \<le> code (hd p) \<and> code (hd p) \<le> 57
            then (case more_digits (code (hd p) - 48) (tl p) of
                    None \<Rightarrow> None
                  | Some (v, p) \<Rightarrow>
                      if p \<noteq> [] then None
                      else if negative then (if v > 2 ^ 63 then None else Some (int64 (- int v)))
                      else (if v > 2 ^ 63 - 1 then None else Some (int v)))
            else if hd p = CHR ''0'' \<and> length s = 1 then Some 0
            else None))"

text \<open>The line at the cursor: where it starts and how long it is.\<close>

definition readLine :: "'h redisReader \<Rightarrow> ((nat \<times> int) option \<times> 'h redisReader) option" where
  "readLine r =
     seekNewline (drop (rpos r) (rmem r)) (size_t (int (rlen r) - int (rpos r))) \<bind> (\<lambda>s. case s of
       None \<Rightarrow> Some (None, r)
     | Some n \<Rightarrow>
         (let ln = int32 (int n)
          in Some (Some (rpos r, ln), r\<lparr>rpos := size_t (int (rpos r) + int32 (ln + 2))\<rparr>)))"

subsection \<open>The task stack\<close>

function moveToNextTask :: "'h redisReader \<Rightarrow> 'h redisReader option" where
  "moveToNextTask r =
     (if ridx r \<ge> 0
      then if ridx r = 0 then Some (r\<lparr>ridx := - 1\<rparr>)
           else rd (rstack r) (nat (ridx r)) \<bind> (\<lambda>cur. rd (rstack r) (nat (ridx r) - 1) \<bind> (\<lambda>prv.
             if ttype prv \<noteq> REDIS_REPLY_ARRAY then None
             else if idx cur = elements prv - 1 then moveToNextTask (r\<lparr>ridx := ridx r - 1\<rparr>)
             else if \<not> idx cur < elements prv then None
             else Some (r\<lparr>rstack := (rstack r)[nat (ridx r) :=
                            cur\<lparr>ttype := - 1, elements := - 1, idx := idx cur + 1\<rparr>]\<rparr>)))
      else Some r)"
  by pat_completeness auto
termination by (relation "measure (\<lambda>r. nat (ridx r + 1))") auto

declare moveToNextTask.simps [simp del]

subsection \<open>Processing one item\<close>

definition cur_task :: "'h redisReader \<Rightarrow> redisReadTask option" where
  "cur_task r = (if ridx r < 0 then None else rd (rstack r) (nat (ridx r)))"

definition set_cur :: "'h redisReader \<Rightarrow> redisReadTask \<Rightarrow> 'h redisReader" where
  "set_cur r t = r\<lparr>rstack := (rstack r)[nat (ridx r) := t]\<rparr>"

text \<open>Calls through \<open>fn\<close>, with the value the code uses when the function is missing.\<close>

definition call_string :: "'h redisReader \<Rightarrow> string \<Rightarrow> nat \<Rightarrow> int \<Rightarrow> (nat \<times> 'h redisReader) option" where
  "call_string r p n type =
     (case createString (fn r) of
        None \<Rightarrow> Some (nat type, r)
      | Some f \<Rightarrow> f (rstack r) (nat (ridx r)) p n (objs r) \<bind> (\<lambda>(ob, h). Some (ob, r\<lparr>objs := h\<rparr>)))"

definition call_array :: "'h redisReader \<Rightarrow> int \<Rightarrow> (nat \<times> 'h redisReader) option" where
  "call_array r n =
     (case createArray (fn r) of
        None \<Rightarrow> Some (nat REDIS_REPLY_ARRAY, r)
      | Some f \<Rightarrow> f (rstack r) (nat (ridx r)) n (objs r) \<bind> (\<lambda>(ob, h). Some (ob, r\<lparr>objs := h\<rparr>)))"

definition call_integer :: "'h redisReader \<Rightarrow> int \<Rightarrow> (nat \<times> 'h redisReader) option" where
  "call_integer r v =
     (case createInteger (fn r) of
        None \<Rightarrow> Some (nat REDIS_REPLY_INTEGER, r)
      | Some f \<Rightarrow> f (rstack r) (nat (ridx r)) v (objs r) \<bind> (\<lambda>(ob, h). Some (ob, r\<lparr>objs := h\<rparr>)))"

definition call_nil :: "'h redisReader \<Rightarrow> (nat \<times> 'h redisReader) option" where
  "call_nil r =
     (case createNil (fn r) of
        None \<Rightarrow> Some (nat REDIS_REPLY_NIL, r)
      | Some f \<Rightarrow> f (rstack r) (nat (ridx r)) (objs r) \<bind> (\<lambda>(ob, h). Some (ob, r\<lparr>objs := h\<rparr>)))"

definition fail :: "'h redisReader option \<Rightarrow> (result \<times> 'h redisReader) option" where
  "fail r = map_option (Pair REDIS_ERR) r"

text \<open>The end of a leaf item: the object becomes the reply when it is the root.\<close>

definition leaf_done :: "'h redisReader \<Rightarrow> nat \<Rightarrow> (result \<times> 'h redisReader) option" where
  "leaf_done r ob =
     (if ob = 0 then fail (redisReaderSetErrorOOM r)
      else map_option (Pair REDIS_OK) (moveToNextTask (if ridx r = 0 then r\<lparr>reply := ob\<rparr> else r)))"

definition processLineItem :: "'h redisReader \<Rightarrow> (result \<times> 'h redisReader) option" where
  "processLineItem r =
     cur_task r \<bind> (\<lambda>cur. readLine r \<bind> (\<lambda>(line, r). case line of
       None \<Rightarrow> Some (REDIS_ERR, r)
     | Some (p, ln) \<Rightarrow>
         (if ln < 0 then None else bytes_at (rmem r) p (nat ln)) \<bind> (\<lambda>s.
           if ttype cur = REDIS_REPLY_INTEGER
           then (if createInteger (fn r) \<noteq> None
                 then (case string2ll s of
                         None \<Rightarrow> fail (redisReaderSetError r REDIS_ERR_PROTOCOL ''Bad integer value'')
                       | Some v \<Rightarrow> call_integer r v \<bind> (\<lambda>(ob, r). leaf_done r ob))
                 else leaf_done r (nat REDIS_REPLY_INTEGER))
           else call_string r (drop p (rmem r)) (nat ln) (ttype cur) \<bind> (\<lambda>(ob, r). leaf_done r ob))))"

definition processBulkItem :: "'h redisReader \<Rightarrow> (result \<times> 'h redisReader) option" where
  "processBulkItem r =
     cur_task r \<bind> (\<lambda>cur.
     seekNewline (drop (rpos r) (rmem r)) (size_t (int (rlen r) - int (rpos r))) \<bind> (\<lambda>s. case s of
       None \<Rightarrow> Some (REDIS_ERR, r)
     | Some n \<Rightarrow>
         (let bytelen = n + 2
          in bytes_at (rmem r) (rpos r) n \<bind> (\<lambda>line. case string2ll line of
               None \<Rightarrow> fail (redisReaderSetError r REDIS_ERR_PROTOCOL ''Bad bulk string length'')
             | Some ln \<Rightarrow>
                 if ln < - 1
                 then fail (redisReaderSetError r REDIS_ERR_PROTOCOL ''Bulk string length out of range'')
                 else if ln = - 1
                 then call_nil r \<bind> (\<lambda>(ob, r). leaf_done (r\<lparr>rpos := size_t (int (rpos r) + int bytelen)\<rparr>) ob)
                 else
                   (let bytelen = size_t (int bytelen + ln + 2)
                    in if size_t (int (rpos r) + int bytelen) \<le> rlen r
                       then call_string r (drop (rpos r + n + 2) (rmem r)) (nat ln) REDIS_REPLY_STRING
                              \<bind> (\<lambda>(ob, r). leaf_done (r\<lparr>rpos := size_t (int (rpos r) + int bytelen)\<rparr>) ob)
                       else Some (REDIS_ERR, r))))))"

text \<open>\<^verbatim>\<open>r->ridx++\<close> and the task of the first element.\<close>

definition push_task :: "'h redisReader \<Rightarrow> int \<Rightarrow> nat \<Rightarrow> 'h redisReader option" where
  "push_task r n ob =
     cur_task r \<bind> (\<lambda>cur.
     (let r = set_cur r (cur\<lparr>elements := n, obj := ob\<rparr>); i = ridx r + 1
      in wr (rstack r) (nat i) \<lparr>ttype = - 1, elements = - 1, idx = 0, obj = 0, parent = Some (nat (ridx r))\<rparr>
           \<bind> (\<lambda>st. Some (r\<lparr>rstack := st, ridx := i\<rparr>))))"

definition processMultiBulkItem :: "'h redisReader \<Rightarrow> (result \<times> 'h redisReader) option" where
  "processMultiBulkItem r =
     (if ridx r = 8
      then fail (redisReaderSetError r REDIS_ERR_PROTOCOL
             ''No support for nested multi bulk replies with depth > 7'')
      else readLine r \<bind> (\<lambda>(line, r). case line of
        None \<Rightarrow> Some (REDIS_ERR, r)
      | Some (p, ln) \<Rightarrow>
          (if ln < 0 then None else bytes_at (rmem r) p (nat ln)) \<bind> (\<lambda>s. case string2ll s of
            None \<Rightarrow> fail (redisReaderSetError r REDIS_ERR_PROTOCOL ''Bad multi-bulk length'')
          | Some n \<Rightarrow>
              (let root = (ridx r = 0)
               in if n < - 1 \<or> n > 2 ^ 31 - 1
                  then fail (redisReaderSetError r REDIS_ERR_PROTOCOL ''Multi-bulk length out of range'')
                  else (if n = - 1 then call_nil r else call_array r n) \<bind> (\<lambda>(ob, r).
                    if ob = 0 then fail (redisReaderSetErrorOOM r)
                    else (if n > 0 then push_task r n ob else moveToNextTask r) \<bind> (\<lambda>r.
                      Some (REDIS_OK, if root then r\<lparr>reply := ob\<rparr> else r)))))))"

fun reply_type :: "char \<Rightarrow> int option" where
  "reply_type c =
     (if c = CHR ''-'' then Some REDIS_REPLY_ERROR
      else if c = CHR ''+'' then Some REDIS_REPLY_STATUS
      else if c = CHR '':'' then Some REDIS_REPLY_INTEGER
      else if c = CHR ''$'' then Some REDIS_REPLY_STRING
      else if c = CHR ''*'' then Some REDIS_REPLY_ARRAY
      else None)"

definition processTyped :: "'h redisReader \<Rightarrow> (result \<times> 'h redisReader) option" where
  "processTyped r =
     cur_task r \<bind> (\<lambda>cur.
       if ttype cur = REDIS_REPLY_ERROR \<or> ttype cur = REDIS_REPLY_STATUS \<or> ttype cur = REDIS_REPLY_INTEGER
       then processLineItem r
       else if ttype cur = REDIS_REPLY_STRING then processBulkItem r
       else if ttype cur = REDIS_REPLY_ARRAY then processMultiBulkItem r
       else None)"

definition processItem :: "'h redisReader \<Rightarrow> (result \<times> 'h redisReader) option" where
  "processItem r =
     cur_task r \<bind> (\<lambda>cur.
       if ttype cur < 0
       then (case readBytes r 1 of
               (None, r) \<Rightarrow> Some (REDIS_ERR, r)
             | (Some p, r) \<Rightarrow> rd (rmem r) p \<bind> (\<lambda>c. case reply_type c of
                 None \<Rightarrow> fail (redisReaderSetErrorProtocolByte r c)
               | Some ty \<Rightarrow> processTyped (set_cur r (cur\<lparr>ttype := ty\<rparr>))))
       else processTyped r)"

subsection \<open>The public functions\<close>

text \<open>\<^verbatim>\<open>redisReaderCreateWithFunctions\<close>: \<open>calloc\<close> says whether the reader can be allocated.\<close>

definition redisReaderCreateWithFunctions ::
  "allocator \<Rightarrow> bool \<Rightarrow> 'h redisReplyObjectFunctions \<Rightarrow> 'h \<Rightarrow> 'h redisReader option option" where
  "redisReaderCreateWithFunctions mal calloc f h =
     (if \<not> calloc then Some None
      else sdsempty mal \<bind> (\<lambda>b. case b of
        None \<Rightarrow> Some None
      | Some b \<Rightarrow> Some (Some
          \<lparr>rerr = 0, errstr = [], rbuf = Some b, rpos = 0, rlen = 0, maxbuf = REDIS_READER_MAX_BUF,
           rstack = replicate 9 \<lparr>ttype = 0, elements = 0, idx = 0, obj = 0, parent = None\<rparr>,
           ridx = - 1, reply = 0, fn = f, objs = h\<rparr>)))"

text \<open>What \<^verbatim>\<open>redisReaderFree\<close> leaves of the objects.\<close>

definition redisReaderFree :: "'h redisReader \<Rightarrow> 'h option" where
  "redisReaderFree r =
     (case freeObject (fn r) of
        Some f \<Rightarrow> if reply r \<noteq> 0 then f (reply r) (objs r) else Some (objs r)
      | None \<Rightarrow> Some (objs r))"

definition redisReaderFeed ::
  "allocator \<Rightarrow> 'h redisReader \<Rightarrow> string option \<Rightarrow> nat \<Rightarrow> (result \<times> 'h redisReader) option" where
  "redisReaderFeed mal r bf n =
     (if rerr r \<noteq> 0 then Some (REDIS_ERR, r)
      else (case bf of
        None \<Rightarrow> Some (REDIS_OK, r)
      | Some t \<Rightarrow>
          if n < 1 then Some (REDIS_OK, r)
          else rbuf r \<bind> (\<lambda>s.
            (if rlen r = 0 \<and> maxbuf r \<noteq> 0 \<and> sdsavail s > maxbuf r
             then sdsempty mal \<bind> (\<lambda>b. b \<bind> (\<lambda>b. Some (r\<lparr>rbuf := Some b, rpos := 0\<rparr>)))
             else Some r) \<bind> (\<lambda>r. rbuf r \<bind> (\<lambda>s. sdscatlen mal s t n \<bind> (\<lambda>new. case new of
               None \<Rightarrow> fail (redisReaderSetErrorOOM r)
             | Some new \<Rightarrow> Some (REDIS_OK, r\<lparr>rbuf := Some new, rlen := sdslen new\<rparr>)))))))"

partial_function (option) reply_while :: "'h redisReader \<Rightarrow> 'h redisReader option" where
  "reply_while r =
     (if ridx r \<ge> 0
      then processItem r \<bind> (\<lambda>(st, r). if st \<noteq> REDIS_OK then Some r else reply_while r)
      else Some r)"

definition root_task :: redisReadTask where
  "root_task = \<lparr>ttype = - 1, elements = - 1, idx = - 1, obj = 0, parent = None\<rparr>"

definition discard :: "'h redisReader \<Rightarrow> 'h redisReader option" where
  "discard r =
     (if rpos r \<ge> 1024
      then rbuf r \<bind> (\<lambda>s. sdsrange s (int32 (int (rpos r))) (- 1) \<bind> (\<lambda>s.
             Some (r\<lparr>rbuf := Some s, rpos := 0, rlen := sdslen s\<rparr>)))
      else Some r)"

definition redisReaderGetReply :: "'h redisReader \<Rightarrow> (result \<times> nat \<times> 'h redisReader) option" where
  "redisReaderGetReply r =
     (if rerr r \<noteq> 0 then Some (REDIS_ERR, 0, r)
      else if rlen r = 0 then Some (REDIS_OK, 0, r)
      else
        (if ridx r = - 1
         then wr (rstack r) 0 root_task \<bind> (\<lambda>st. Some (r\<lparr>rstack := st, ridx := 0\<rparr>))
         else Some r) \<bind> (\<lambda>r. reply_while r \<bind> (\<lambda>r.
           if rerr r \<noteq> 0 then Some (REDIS_ERR, 0, r)
           else discard r \<bind> (\<lambda>r.
             if ridx r = - 1 then Some (REDIS_OK, reply r, r\<lparr>reply := 0\<rparr>)
             else Some (REDIS_OK, 0, r)))))"

lemmas reader_loops [code] = reply_while.simps

end
