(* ===== verification/Read_Text.thy ===== *)
theory Read_Text
  imports Read
begin

text \<open>
  Lines and numbers of the redis protocol: \<open>nl\<close> is the end of the first line of an input,
  which \<^verbatim>\<open>seekNewline\<close> finds, and \<^verbatim>\<open>string2ll\<close> accepts exactly the decimal texts of the
  signed 64-bit numbers.
\<close>

subsection \<open>Lines\<close>

fun nl :: "string \<Rightarrow> nat option" where
  "nl (c # d # x) = (if c = CHR 0x0d \<and> d = CHR 0x0a then Some 0 else map_option Suc (nl (d # x)))"
| "nl _ = None"

lemma nl_less: "nl x = Some n \<Longrightarrow> Suc n < length x"
  by (induction x arbitrary: n rule: nl.induct) (auto split: if_splits)

lemma nl_append: "nl x = Some n \<Longrightarrow> nl (x @ e) = Some n"
  by (induction x arbitrary: n rule: nl.induct) (auto split: if_splits)

lemma nl_line: "CHR 0x0d \<notin> set s \<Longrightarrow> nl (s @ CHR 0x0d # CHR 0x0a # x) = Some (length s)"
proof (induction s)
  case (Cons c s)
  then show ?case by (cases s) auto
qed simp

lemma nl_Cons_not: "c \<noteq> CHR 0x0d \<Longrightarrow> nl (c # x) = map_option Suc (nl x)"
  by (cases x) auto

lemma seek_cr_spec:
  assumes "x = take n m" and "length x = n" and "pos < n"
  shows "\<exists>p. seek_cr m pos (int n - 1) = Some p \<and> pos \<le> p \<and> p < n \<and>
    (p < n - 1 \<longrightarrow> x ! p = CHR 0x0d) \<and> nl (drop pos x) = map_option (\<lambda>k. k + (p - pos)) (nl (drop p x))"
  using assms
proof (induction "n - pos" arbitrary: pos)
  case (Suc d)
  show ?case
  proof (cases "Suc pos < n")
    case False
    then show ?thesis using Suc by (intro exI[of _ pos]) (auto simp: seek_cr.simps[of m pos] option.map_ident)
  next
    case True
    have m: "pos < length m" "m ! pos = x ! pos" using Suc(3-5) by auto
    show ?thesis
    proof (cases "x ! pos = CHR 0x0d")
      case cr: True
      then show ?thesis using True m
        by (intro exI[of _ pos]) (auto simp: seek_cr.simps[of m pos] option.map_ident)
    next
      case no: False
      obtain p where p: "seek_cr m (Suc pos) (int n - 1) = Some p" "Suc pos \<le> p" "p < n"
        "p < n - 1 \<longrightarrow> x ! p = CHR 0x0d" "nl (drop (Suc pos) x) = map_option (\<lambda>k. k + (p - Suc pos)) (nl (drop p x))"
        by (atomize_elim, rule Suc(1)) (use Suc(2-5) True in auto)
      have "seek_cr m pos (int n - 1) = seek_cr m (Suc pos) (int n - 1)"
        using True m no by (subst seek_cr.simps) auto
      moreover have "drop pos x = x ! pos # drop (Suc pos) x" using Suc(4,5) by (simp add: Cons_nth_drop_Suc)
      then have "nl (drop pos x) = map_option Suc (nl (drop (Suc pos) x))" using no by (simp add: nl_Cons_not)
      ultimately show ?thesis using p by (intro exI[of _ p]) (auto simp: option.map_comp o_def intro!: option.map_cong)
    qed
  qed
qed simp

lemma seek_while_spec:
  assumes "x = take n m" and "length x = n" and "pos \<le> n"
  shows "seek_while m pos (int n - 1) = Some (map_option (\<lambda>k. k + pos) (nl (drop pos x)))"
  using assms
proof (induction "n - pos" arbitrary: pos rule: less_induct)
  case less
  show ?case
  proof (cases "Suc pos < n")
    case False
    then have "length (drop pos x) \<le> 1" using less(3) by auto
    then have "nl (drop pos x) = None" by (cases "drop pos x" rule: nl.cases) auto
    then show ?thesis using False by (simp add: seek_while.simps)
  next
    case True
    obtain p where p: "seek_cr m pos (int n - 1) = Some p" "pos \<le> p" "p < n"
      "p < n - 1 \<longrightarrow> x ! p = CHR 0x0d" "nl (drop pos x) = map_option (\<lambda>k. k + (p - pos)) (nl (drop p x))"
      using seek_cr_spec[OF less(2,3), of pos] True by auto
    show ?thesis
    proof (cases "Suc p = n")
      case True
      then have "length (drop p x) \<le> 1" using less(3) by auto
      then have "nl (drop p x) = None" by (cases "drop p x" rule: nl.cases) auto
      then show ?thesis using p True \<open>Suc pos < n\<close> by (subst seek_while.simps) auto
    next
      case False
      then have lt: "Suc p < n" using p by simp
      have m: "Suc p < length m" "m ! Suc p = x ! Suc p" using less(2,3) lt by auto
      have d: "drop p x = x ! p # x ! Suc p # drop (Suc (Suc p)) x"
        using lt less(3) by (metis Cons_nth_drop_Suc Suc_lessD)
      show ?thesis
      proof (cases "x ! Suc p = CHR 0x0a")
        case True
        then have "nl (drop p x) = Some 0" using d p lt by simp
        then show ?thesis using p m True lt \<open>Suc pos < n\<close> by (subst seek_while.simps) auto
      next
        case no: False
        have "seek_while m (p + 1) (int n - 1) = Some (map_option (\<lambda>k. k + (p + 1)) (nl (drop (p + 1) x)))"
          using p lt by (intro less(1)) (use less(2-4) in auto)
        moreover have "nl (drop p x) = map_option Suc (nl (drop (p + 1) x))"
          using d no by (simp add: Cons_nth_drop_Suc) (metis Cons_nth_drop_Suc Suc_eq_plus1 less(3) lt)
        ultimately show ?thesis using p m no lt \<open>Suc pos < n\<close>
          by (subst seek_while.simps) (auto simp: option.map_comp o_def intro!: option.map_cong)
      qed
    qed
  qed
qed

lemma seekNewline_spec:
  assumes "x = take (length x) m" and "length x < 2 ^ 31"
  shows "seekNewline m (length x) = Some (nl x)"
proof -
  have "int32 (int (length x) - 1) = int (length x) - 1" using assms(2) by simp
  then show ?thesis
    using seek_while_spec[OF assms(1) refl, of 0] by (simp add: seekNewline_def option.map_ident)
qed

subsection \<open>Numbers\<close>

lemma more_digits_spec:
  assumes "v < 2 ^ 64"
  shows "more_digits v s = Some (w, []) \<longleftrightarrow>
    (\<forall>c\<in>set s. 48 \<le> code c \<and> code c \<le> 57) \<and> w = foldl (\<lambda>v c. 10 * v + (code c - 48)) v s \<and> w < 2 ^ 64"
  using assms
proof (induction s arbitrary: v)
  case Nil
  then show ?case by auto
next
  case (Cons c s)
  let ?v = "10 * v + (code c - 48)"
  have mono: "v' \<le> foldl (\<lambda>v c. 10 * v + (code c - 48)) v' s" for v'
  proof (induction s arbitrary: v')
    case (Cons c s)
    have "v' \<le> 10 * v' + (code c - 48)" by simp
    then show ?case using Cons[of "10 * v' + (code c - 48)"] unfolding foldl_Cons by (rule le_trans)
  qed simp
  show ?case
  proof (cases "48 \<le> code c \<and> code c \<le> 57")
    case d: True
    then have le: "code c - 48 \<le> 9" by auto
    show ?thesis
    proof (cases "?v < 2 ^ 64")
      case True
      then have "\<not> v > ULLONG_MAX div 10" "\<not> v * 10 > ULLONG_MAX - (code c - 48)"
        using le by (auto simp: ULLONG_MAX_def)
      then show ?thesis using d Cons.IH[OF True] by (simp add: ac_simps)
    next
      case False
      then have "v > ULLONG_MAX div 10 \<or> v * 10 > ULLONG_MAX - (code c - 48)"
        using le by (auto simp: ULLONG_MAX_def)
      moreover have "\<not> foldl (\<lambda>v c. 10 * v + (code c - 48)) v (c # s) < 2 ^ 64" using mono[of ?v] False by simp
      ultimately show ?thesis using d by (auto simp: Let_def)
    qed
  qed (auto simp: Let_def)
qed


abbreviation digit :: "char \<Rightarrow> bool" where
  "digit c \<equiv> 48 \<le> code c \<and> code c \<le> 57"

lemma char_of_code [simp]: "char_of (code c) = c"
  by (simp add: code_def)

lemma dec_step: "0 < v \<Longrightarrow> digit c \<Longrightarrow> dec (10 * v + code c - 48) = dec v @ [c]"
proof -
  assume v: "0 < v" and "digit c"
  then have "code c = 48 + (code c - 48)" "code c - 48 < 10" by auto
  then obtain d where d: "code c = 48 + d" "d < 10" by metis
  then have c: "c = char_of (48 + d)" by (metis char_of_code)
  show ?thesis using v d by (subst dec.simps) (simp add: c[symmetric])
qed

lemma dec_foldl:
  "0 < v \<Longrightarrow> \<forall>c\<in>set s. digit c \<Longrightarrow> dec (foldl (\<lambda>v c. 10 * v + (code c - 48)) v s) = dec v @ s"
  by (induction s arbitrary: v) (auto simp: dec_step)

lemma dec_digits: "c \<in> set (dec n) \<Longrightarrow> digit c"
proof (induction n rule: dec.induct)
  case (1 n)
  have "n mod 10 < 10" by simp
  with 1 show ?case by (subst (asm) (2) dec.simps) (auto simp: code_def split: if_splits)
qed

lemma hd_dec: "0 < n \<Longrightarrow> 49 \<le> code (hd (dec n)) \<and> code (hd (dec n)) \<le> 57"
proof (induction n rule: dec.induct)
  case (1 n)
  show ?case
  proof (cases "n < 10")
    case True
    then show ?thesis using 1 by (subst (1 2) dec.simps) (simp add: code_def)
  next
    case False
    then have "hd (dec n) = hd (dec (n div 10))" by (subst dec.simps) simp
    then show ?thesis using 1 False by simp
  qed
qed

lemma dec_0: "dec 0 = ''0''"
proof -
  have "char_of (48 :: nat) = CHR ''0''" by code_simp
  then show ?thesis by (subst dec.simps) simp
qed

lemma dec_not_Nil [simp]: "[] \<noteq> dec n"
  using dec_nonempty[of n] by metis

text \<open>The digits from a first digit that is not 0 are the decimal text of their number.\<close>

lemma digits_dec:
  assumes "49 \<le> code c" and "code c \<le> 57"
  shows "more_digits (code c - 48) s = Some (w, []) \<longleftrightarrow> c # s = dec w \<and> w < 2 ^ 64"
proof
  let ?v = "code c - 48"
  have v: "0 < ?v" "?v < 10" using assms by auto
  have dv: "dec ?v = [c]" using v assms by (subst dec.simps) simp
  {
    assume "more_digits ?v s = Some (w, [])"
    then show "c # s = dec w \<and> w < 2 ^ 64"
      using more_digits_spec[of ?v s w] v dec_foldl[of ?v s] dv by auto
  next
    assume a: "c # s = dec w \<and> w < 2 ^ 64"
    then have dg: "\<forall>d\<in>set s. digit d" using dec_digits[of _ w] by (metis list.set_intros(2))
    have "foldl (\<lambda>v c. 10 * v + (code c - 48)) ?v s = w"
      using value_of_dec[of w] a[THEN conjunct1, symmetric] by simp
    then show "more_digits ?v s = Some (w, [])" using more_digits_spec[of ?v s w] v a dg by auto
  }
qed

lemma int64_neg: "v \<le> 2 ^ 63 \<Longrightarrow> int64 (- int v) = - int v"
proof -
  assume "v \<le> 2 ^ 63"
  then have "int v \<le> 2 ^ 63" by (metis of_nat_le_iff of_nat_numeral of_nat_power)
  then have "(- int v + 2 ^ 63) mod 2 ^ 64 = - int v + 2 ^ 63" by (intro mod_pos_pos_trivial) auto
  then show ?thesis by (simp add: int64_def)
qed

lemma string2ll_iff: "string2ll s = Some x \<longleftrightarrow> s = decimal x \<and> - (2 ^ 63) \<le> x \<and> x < 2 ^ 63"
proof (cases "s = [] \<or> s = ''0''")
  case True
  have "decimal x = ''0'' \<longleftrightarrow> x = 0"
  proof
    assume "decimal x = ''0''"
    then show "x = 0" using hd_dec[of "nat x"] by (cases "x \<le> 0") (auto simp: decimal_def code_def split: if_splits)
  qed (simp add: decimal_def dec_0)
  moreover have "decimal x \<noteq> []" by (simp add: decimal_def)
  ultimately show ?thesis using True by (auto simp: string2ll_def)
next
  case False
  obtain c t where s: "s = c # t" using False by (cases s) auto
  show ?thesis
  proof (cases "c = CHR ''-''")
    case neg: True
    have d: "s = decimal x \<longleftrightarrow> x < 0 \<and> t = dec (nat (- x))"
      using hd_dec[of "nat x"] dec_digits[of c "nat x"] s neg
      by (auto simp: decimal_def code_def) (metis list.set_intros(1))
    show ?thesis
    proof (cases t)
      case Nil
      then show ?thesis using s neg d by (auto simp: string2ll_def)
    next
      case (Cons e u)
      show ?thesis
      proof (cases "49 \<le> code e \<and> code e \<le> 57")
        case True
        have "string2ll s = (case more_digits (code e - 48) u of None \<Rightarrow> None | Some (v, p) \<Rightarrow>
            if p \<noteq> [] then None else if v > 2 ^ 63 then None else Some (- int v))"
          using s neg Cons True by (auto simp: string2ll_def int64_neg split: option.splits)
        then have "string2ll s = Some x \<longleftrightarrow> (\<exists>v. more_digits (code e - 48) u = Some (v, []) \<and> v \<le> 2 ^ 63 \<and> x = - int v)"
          by (auto split: option.splits)
        also have "\<dots> \<longleftrightarrow> (\<exists>v. t = dec v \<and> v \<le> 2 ^ 63 \<and> x = - int v)"
          using digits_dec[of e u] True Cons by auto
        also have "\<dots> \<longleftrightarrow> s = decimal x \<and> - (2 ^ 63) \<le> x \<and> x < 2 ^ 63"
        proof -
          have "v \<noteq> 0" if "t = dec v" for v
          proof
            assume "v = 0"
            then have "e = CHR ''0''" using that Cons dec_0 by simp
            then show False using True by (simp add: code_def)
          qed
          then show ?thesis using d by (auto intro!: exI[of _ "nat (- x)"])
        qed
        finally show ?thesis .
      next
        case no: False
        then have "string2ll s = None" using s neg Cons by (auto simp: string2ll_def)
        moreover have "\<not> (x < 0 \<and> t = dec (nat (- x)))"
        proof
          assume a: "x < 0 \<and> t = dec (nat (- x))"
          then have "hd (dec (nat (- x))) = e" using Cons by (metis list.sel(1))
          then show False using hd_dec[of "nat (- x)"] a no by auto
        qed
        ultimately show ?thesis using d by auto
      qed
    qed
  next
    case pos: False
    have d: "s = decimal x \<longleftrightarrow> 0 \<le> x \<and> s = dec (nat x)" using s pos by (auto simp: decimal_def)
    show ?thesis
    proof (cases "49 \<le> code c \<and> code c \<le> 57")
      case True
      have "string2ll s = Some x \<longleftrightarrow> (\<exists>v. more_digits (code c - 48) t = Some (v, []) \<and> v < 2 ^ 63 \<and> x = int v)"
        using s pos True False by (auto simp: string2ll_def split: option.splits if_splits)
      also have "\<dots> \<longleftrightarrow> (\<exists>v. s = dec v \<and> v < 2 ^ 63 \<and> x = int v)"
        using digits_dec[of c t] True s by auto
      also have "\<dots> \<longleftrightarrow> s = decimal x \<and> - (2 ^ 63) \<le> x \<and> x < 2 ^ 63"
        using d by (auto intro!: exI[of _ "nat x"])
      finally show ?thesis .
    next
      case no: False
      then have "string2ll s = None" using s pos False by (auto simp: string2ll_def code_def)
      moreover have "\<not> (0 \<le> x \<and> s = dec (nat x))"
      proof
        assume a: "0 \<le> x \<and> s = dec (nat x)"
        then have "hd (dec (nat x)) = c" using s by (metis list.sel(1))
        then show False using hd_dec[of "nat x"] a no False dec_0 by (cases "nat x = 0") auto
      qed
      ultimately show ?thesis using d by auto
    qed
  qed
qed


text \<open>
  C23. \<^verbatim>\<open>string2ll\<close> is strict: it accepts a string exactly when it is the decimal text of a
  signed 64-bit number, without leading zeros, spaces or a plus sign, and then returns this number;
  nothing overflows.
\<close>

theorem string2ll_strict: "string2ll s = Some x \<longleftrightarrow> s = decimal x \<and> - (2 ^ 63) \<le> x \<and> x < 2 ^ 63"
  by (rule string2ll_iff)

end
