(* ===== verification/Read_Spec.thy ===== *)
theory Read_Spec
  imports Read_Text
begin

text \<open>
  The parser of \<^verbatim>\<open>read.c\<close> refines an abstract one that works on the input that is left:
  \<open>aitem\<close> processes one item and \<open>arun\<close> is the loop of \<^verbatim>\<open>redisReaderGetReply\<close>. This holds for
  all object functions that satisfy the locale \<open>object_functions\<close>; inside it the abstract
  parser is shown to be indifferent to how the input is cut into chunks.
\<close>

subsection \<open>The abstract parser\<close>

text \<open>
  The state is the input that is left and a reader whose buffer fields are not looked at.
\<close>

type_synonym 'h astate = "string \<times> 'h redisReader"

definition aleaf :: "string \<Rightarrow> (nat \<times> 'h redisReader) option \<Rightarrow> (result \<times> 'h astate) option" where
  "aleaf x p = p \<bind> (\<lambda>(ob, c). map_option (\<lambda>(st, c). (st, if st = REDIS_OK then x else [], c)) (leaf_done c ob))"

definition aerror :: "'h redisReader option \<Rightarrow> (result \<times> 'h astate) option" where
  "aerror c = map_option (\<lambda>c. (REDIS_ERR, [], c)) c"

definition aline :: "string \<Rightarrow> 'h redisReader \<Rightarrow> (result \<times> 'h astate) option" where
  "aline x c =
     cur_task c \<bind> (\<lambda>cur. case nl x of
       None \<Rightarrow> Some (REDIS_ERR, x, c)
     | Some n \<Rightarrow>
         if ttype cur = REDIS_REPLY_INTEGER
         then (case string2ll (take n x) of
                 None \<Rightarrow> aerror (redisReaderSetError c REDIS_ERR_PROTOCOL ''Bad integer value'')
               | Some v \<Rightarrow> aleaf (drop (n + 2) x) (call_integer c v))
         else aleaf (drop (n + 2) x) (call_string c (take n x) n (ttype cur)))"

definition abulk :: "string \<Rightarrow> 'h redisReader \<Rightarrow> (result \<times> 'h astate) option" where
  "abulk x c =
     (case nl x of
        None \<Rightarrow> Some (REDIS_ERR, x, c)
      | Some n \<Rightarrow> (case string2ll (take n x) of
          None \<Rightarrow> aerror (redisReaderSetError c REDIS_ERR_PROTOCOL ''Bad bulk string length'')
        | Some k \<Rightarrow>
            if k < - 1
            then aerror (redisReaderSetError c REDIS_ERR_PROTOCOL ''Bulk string length out of range'')
            else if k = - 1 then aleaf (drop (n + 2) x) (call_nil c)
            else if n + nat k + 4 \<le> length x
            then aleaf (drop (n + nat k + 4) x) (call_string c (take (nat k) (drop (n + 2) x)) (nat k) REDIS_REPLY_STRING)
            else Some (REDIS_ERR, x, c)))"

definition amulti :: "string \<Rightarrow> 'h redisReader \<Rightarrow> (result \<times> 'h astate) option" where
  "amulti x c =
     (if ridx c = 8
      then aerror (redisReaderSetError c REDIS_ERR_PROTOCOL
             ''No support for nested multi bulk replies with depth > 7'')
      else (case nl x of
        None \<Rightarrow> Some (REDIS_ERR, x, c)
      | Some n \<Rightarrow> (case string2ll (take n x) of
          None \<Rightarrow> aerror (redisReaderSetError c REDIS_ERR_PROTOCOL ''Bad multi-bulk length'')
        | Some k \<Rightarrow>
            if k < - 1 \<or> k > 2 ^ 31 - 1
            then aerror (redisReaderSetError c REDIS_ERR_PROTOCOL ''Multi-bulk length out of range'')
            else (if k = - 1 then call_nil c else call_array c k) \<bind> (\<lambda>(ob, c').
              if ob = 0 then aerror (redisReaderSetErrorOOM c')
              else (if k > 0 then push_task c' k ob else moveToNextTask c') \<bind> (\<lambda>c'.
                Some (REDIS_OK, drop (n + 2) x, if ridx c = 0 then c'\<lparr>reply := ob\<rparr> else c'))))))"

definition atyped :: "string \<Rightarrow> 'h redisReader \<Rightarrow> (result \<times> 'h astate) option" where
  "atyped x c =
     cur_task c \<bind> (\<lambda>cur.
       if ttype cur \<in> {REDIS_REPLY_ERROR, REDIS_REPLY_STATUS, REDIS_REPLY_INTEGER} then aline x c
       else if ttype cur = REDIS_REPLY_STRING then abulk x c
       else if ttype cur = REDIS_REPLY_ARRAY then amulti x c
       else None)"

definition aitem :: "string \<Rightarrow> 'h redisReader \<Rightarrow> (result \<times> 'h astate) option" where
  "aitem x c =
     cur_task c \<bind> (\<lambda>cur.
       if ttype cur < 0
       then (case x of
               [] \<Rightarrow> Some (REDIS_ERR, [], c)
             | ch # x \<Rightarrow> (case reply_type ch of
                 None \<Rightarrow> aerror (redisReaderSetErrorProtocolByte c ch)
               | Some ty \<Rightarrow> atyped x (set_cur c (cur\<lparr>ttype := ty\<rparr>))))
       else atyped x c)"

function arun :: "string \<Rightarrow> 'h redisReader \<Rightarrow> 'h astate option" where
  "arun x c =
     (if ridx c < 0 then Some (x, c)
      else (case aitem x c of
              None \<Rightarrow> None
            | Some (st, y, d) \<Rightarrow>
                if st \<noteq> REDIS_OK then Some (y, d)
                else if length y < length x then arun y d else None))"
  by pat_completeness auto
termination by (relation "measure (\<lambda>(x, c). length x)") auto

declare arun.simps [simp del]

subsection \<open>The interface of the object functions\<close>

locale object_functions =
  fixes F :: "'h redisReplyObjectFunctions"
  assumes all_there: "createString F \<noteq> None" "createArray F \<noteq> None" "createInteger F \<noteq> None"
      "createNil F \<noteq> None"
    and string_law: "createString F = Some f \<Longrightarrow> n \<le> length p \<Longrightarrow> f st i (take n p) n h = f st i p n h"

subsection \<open>Functions that do not look at the buffer\<close>

definition with_buf :: "sdshdr option \<Rightarrow> nat \<Rightarrow> nat \<Rightarrow> 'h redisReader \<Rightarrow> 'h redisReader" where
  "with_buf b p l c = (if rerr c \<noteq> 0 then c else c\<lparr>rbuf := b, rpos := p, rlen := l\<rparr>)"

lemma with_buf_fields [simp]:
  "rstack (with_buf b p l c) = rstack c" "ridx (with_buf b p l c) = ridx c" "reply (with_buf b p l c) = reply c"
  "fn (with_buf b p l c) = fn c" "objs (with_buf b p l c) = objs c" "rerr (with_buf b p l c) = rerr c"
  by (simp_all add: with_buf_def)

lemma with_buf_err [simp]: "rerr c \<noteq> 0 \<Longrightarrow> with_buf b p l c = c"
  by (simp add: with_buf_def)

lemma with_buf_update [simp]:
  "(with_buf b p l c)\<lparr>rstack := st\<rparr> = with_buf b p l (c\<lparr>rstack := st\<rparr>)"
  "(with_buf b p l c)\<lparr>ridx := i\<rparr> = with_buf b p l (c\<lparr>ridx := i\<rparr>)"
  "(with_buf b p l c)\<lparr>reply := ob\<rparr> = with_buf b p l (c\<lparr>reply := ob\<rparr>)"
  "(with_buf b p l c)\<lparr>objs := h\<rparr> = with_buf b p l (c\<lparr>objs := h\<rparr>)"
  by (simp_all add: with_buf_def)

lemma cur_task_with_buf [simp]: "cur_task (with_buf b p l c) = cur_task c"
  by (simp add: cur_task_def)

lemma set_cur_with_buf [simp]: "rerr c = 0 \<Longrightarrow> set_cur (with_buf b p l c) t = with_buf b p l (set_cur c t)"
  by (simp add: set_cur_def with_buf_def)

lemma set_cur_fields [simp]: "rerr (set_cur c t) = rerr c" "ridx (set_cur c t) = ridx c" "fn (set_cur c t) = fn c"
    "reply (set_cur c t) = reply c" "objs (set_cur c t) = objs c" "length (rstack (set_cur c t)) = length (rstack c)"
  by (simp_all add: set_cur_def)

lemma SetError_with_buf:
  "rerr c = 0 \<Longrightarrow> redisReaderSetError (with_buf b p l c) ty msg = redisReaderSetError c ty msg"
  by (cases "freeObject (fn c)")
    (auto simp: redisReaderSetError_def with_buf_def intro!: bind_option_cong)

lemma SetError_err: "redisReaderSetError c ty msg = Some d \<Longrightarrow> rerr d = ty \<and> fn d = fn c \<and> length (rstack d) = length (rstack c)"
  by (auto simp: redisReaderSetError_def split: if_splits option.splits bind_splits)

lemma SetError_lift:
  "rerr c = 0 \<Longrightarrow> ty \<noteq> 0 \<Longrightarrow>
   redisReaderSetError (with_buf b p l c) ty msg = map_option (with_buf b p l) (redisReaderSetError c ty msg)"
  using SetError_err[of c ty msg]
  by (cases "redisReaderSetError c ty msg") (auto simp: SetError_with_buf)

lemma move_lift:
  "rerr c = 0 \<Longrightarrow> moveToNextTask (with_buf b p l c) = map_option (with_buf b p l) (moveToNextTask c)
    \<and> (\<forall>d. moveToNextTask c = Some d \<longrightarrow> rerr d = 0 \<and> fn d = fn c \<and> length (rstack d) = length (rstack c))"
proof (induction c rule: moveToNextTask.induct)
  case (1 c)
  show ?case
  proof (cases "ridx c > 0")
    case False
    then show ?thesis using 1(2) by (auto simp: moveToNextTask.simps[of c] moveToNextTask.simps[of "with_buf b p l c"])
  next
    case True
    show ?thesis
    proof (cases "rd (rstack c) (nat (ridx c))")
      case None
      then show ?thesis using True by (simp add: moveToNextTask.simps[of c] moveToNextTask.simps[of "with_buf b p l c"])
    next
      case cur: (Some cur)
      show ?thesis
      proof (cases "rd (rstack c) (nat (ridx c) - 1)")
        case None
        then show ?thesis using True cur by (simp add: moveToNextTask.simps[of c] moveToNextTask.simps[of "with_buf b p l c"])
      next
        case (Some prv)
        have "ridx c \<ge> 0" "ridx c \<noteq> 0" using True by auto
        note IH = 1(1)[OF this cur Some]
        show ?thesis
          using True Some cur IH 1(2)
          by (simp add: moveToNextTask.simps[of c] moveToNextTask.simps[of "with_buf b p l c"])
      qed
    qed
  qed
qed

lemma move_keeps: "rerr c = 0 \<Longrightarrow> moveToNextTask c = Some d \<Longrightarrow> rerr d = 0 \<and> fn d = fn c \<and> length (rstack d) = length (rstack c)"
  using move_lift[of c None 0 0] by blast

lemma call_lift:
  assumes "rerr c = 0"
  shows "call_string (with_buf b p l c) s n ty = map_option (map_prod id (with_buf b p l)) (call_string c s n ty)"
    and "call_array (with_buf b p l c) k = map_option (map_prod id (with_buf b p l)) (call_array c k)"
    and "call_integer (with_buf b p l c) k = map_option (map_prod id (with_buf b p l)) (call_integer c k)"
    and "call_nil (with_buf b p l c) = map_option (map_prod id (with_buf b p l)) (call_nil c)"
  using assms
  by (auto simp: call_string_def call_array_def call_integer_def call_nil_def with_buf_def
      map_option_bind split: option.splits intro!: bind_option_cong)

lemma call_keeps:
  "call_string c s n ty = Some (ob, d) \<Longrightarrow> rerr d = rerr c \<and> fn d = fn c \<and> ridx d = ridx c \<and> rstack d = rstack c \<and> reply d = reply c"
  "call_array c k = Some (ob, d) \<Longrightarrow> rerr d = rerr c \<and> fn d = fn c \<and> ridx d = ridx c \<and> rstack d = rstack c \<and> reply d = reply c"
  "call_integer c k = Some (ob, d) \<Longrightarrow> rerr d = rerr c \<and> fn d = fn c \<and> ridx d = ridx c \<and> rstack d = rstack c \<and> reply d = reply c"
  "call_nil c = Some (ob, d) \<Longrightarrow> rerr d = rerr c \<and> fn d = fn c \<and> ridx d = ridx c \<and> rstack d = rstack c \<and> reply d = reply c"
  by (auto simp: call_string_def call_array_def call_integer_def call_nil_def split: option.splits bind_splits)

lemma push_lift:
  "rerr c = 0 \<Longrightarrow> push_task (with_buf b p l c) k ob = map_option (with_buf b p l) (push_task c k ob)"
  by (cases "cur_task c")
    (auto simp: push_task_def Let_def with_buf_def set_cur_def cur_task_def wr_def split: if_splits)

lemma push_keeps: "push_task c k ob = Some d \<Longrightarrow> rerr d = rerr c \<and> fn d = fn c \<and> length (rstack d) = length (rstack c)"
  by (auto simp: push_task_def Let_def set_cur_def wr_def split: if_splits bind_splits)

lemma leaf_lift:
  assumes "rerr c = 0"
  shows "leaf_done (with_buf b p l c) ob = map_option (map_prod id (with_buf b p l)) (leaf_done c ob)"
proof (cases "ob = 0")
  case True
  then show ?thesis using assms
    by (simp add: leaf_done_def fail_def redisReaderSetErrorOOM_def SetError_lift option.map_comp o_def)
next
  case False
  let ?c = "if ridx c = 0 then c\<lparr>reply := ob\<rparr> else c"
  have "moveToNextTask (with_buf b p l ?c) = map_option (with_buf b p l) (moveToNextTask ?c)"
    using assms by (intro move_lift[THEN conjunct1]) simp
  moreover have "(if ridx c = 0 then (with_buf b p l c)\<lparr>reply := ob\<rparr> else with_buf b p l c) = with_buf b p l ?c"
    by simp
  ultimately show ?thesis
    using False by (cases "ridx c = 0") (simp_all add: leaf_done_def option.map_comp comp_def)
qed


lemma leaf_keeps:
  assumes "rerr c = 0" and l: "leaf_done c ob = Some (st, d)"
  shows "fn d = fn c \<and> length (rstack d) = length (rstack c) \<and> (st = REDIS_OK \<longleftrightarrow> rerr d = 0)"
proof (cases "ob = 0")
  case True
  then have "st = REDIS_ERR" "redisReaderSetError c REDIS_ERR_OOM ''Out of memory'' = Some d"
    using l by (auto simp: leaf_done_def fail_def redisReaderSetErrorOOM_def)
  then show ?thesis using SetError_err by fastforce
next
  case False
  then have st: "st = REDIS_OK" and m: "moveToNextTask (if ridx c = 0 then c\<lparr>reply := ob\<rparr> else c) = Some d"
    using l by (auto simp: leaf_done_def)
  have "rerr (if ridx c = 0 then c\<lparr>reply := ob\<rparr> else c) = 0" "fn (if ridx c = 0 then c\<lparr>reply := ob\<rparr> else c) = fn c"
    using assms(1) by simp_all
  then show ?thesis using move_keeps[OF _ m] st by simp
qed

text \<open>A call followed by the end of a leaf item, with the buffer put aside.\<close>

lemma leaf_refines:
  assumes G: "G (with_buf b p l c) = map_option (map_prod id (with_buf b p l)) (G c)"
    and keep: "\<And>ob d. G c = Some (ob, d) \<Longrightarrow> rerr d = 0"
    and q: "q = l - length x"
  shows "G (with_buf b p l c) \<bind> (\<lambda>(ob, r). leaf_done (r\<lparr>rpos := q\<rparr>) ob)
    = map_option (\<lambda>(st, x, d). (st, with_buf b (l - length x) l d)) (aleaf x (G c))"
proof (cases "G c")
  case (Some od)
  obtain ob d where od: "od = (ob, d)" by (cases od)
  have d: "rerr d = 0" using keep Some od by simp
  have "(with_buf b p l d)\<lparr>rpos := q\<rparr> = with_buf b q l d" using d by (simp add: with_buf_def)
  moreover have "map_option (map_prod id (with_buf b q l)) (leaf_done d ob)
      = map_option ((\<lambda>(st, x, d). (st, with_buf b (l - length x) l d)) \<circ> (\<lambda>(st, c). (st, if st = REDIS_OK then x else [], c))) (leaf_done d ob)"
    using leaf_keeps[OF d, of ob] q by (cases "leaf_done d ob") auto
  ultimately show ?thesis using leaf_lift[OF d, of b q l ob] Some od by (simp add: G aleaf_def option.map_comp)
qed (use G in \<open>simp add: aleaf_def\<close>)

subsection \<open>The refinement\<close>

text \<open>The buffer holds \<open>x\<close> from the cursor on, and is short enough for the \<^verbatim>\<open>int\<close> positions.\<close>

definition holds :: "sdshdr \<Rightarrow> nat \<Rightarrow> string \<Rightarrow> bool" where
  "holds s p x \<longleftrightarrow> sds_ok s \<and> p \<le> sdslen s \<and> x = drop p (str s) \<and> sdslen s < 2 ^ 31 - 2"

abbreviation conc :: "sdshdr \<Rightarrow> (result \<times> 'h astate) \<Rightarrow> (result \<times> 'h redisReader)" where
  "conc s \<equiv> (\<lambda>(st, x, d). (st, with_buf (Some s) (sdslen s - length x) (sdslen s) d))"

lemma holds_facts:
  assumes "holds s p x"
  shows "length x = sdslen s - p" and "x = take (length x) (drop p (buf s))" and "length x < 2 ^ 31 - 2"
    and "p + length x < length (buf s)"
  using assms by (auto simp: holds_def str_def sdslen_def sds_ok_def take_drop)

context object_functions
begin

text \<open>What the operations on the buffer compute.\<close>

lemma rest_size:
  assumes "holds s p x" and "rerr c = 0"
  shows "rmem (with_buf (Some s) p (sdslen s) c) = buf s" and "rpos (with_buf (Some s) p (sdslen s) c) = p"
    and "rlen (with_buf (Some s) p (sdslen s) c) = sdslen s"
    and "size_t (int (sdslen s) - int p) = length x"
    and "seekNewline (drop p (buf s)) (length x) = Some (nl x)"
proof -
  note H = holds_facts[OF assms(1)]
  have p: "p \<le> sdslen s" "sdslen s < 2 ^ 31" using assms(1) by (auto simp: holds_def)
  then show "size_t (int (sdslen s) - int p) = length x"
    using H(1) size_t_int[of "sdslen s - p"] by (simp add: of_nat_diff)
  show "seekNewline (drop p (buf s)) (length x) = Some (nl x)"
    by (rule seekNewline_spec[OF H(2)]) (use H(3) in simp)
qed (use assms in \<open>simp_all add: with_buf_def rmem_def\<close>)

lemma readLine_refines:
  assumes h: "holds s p x" and c: "rerr c = 0"
  shows "readLine (with_buf (Some s) p (sdslen s) c) = Some (case nl x of
      None \<Rightarrow> (None, with_buf (Some s) p (sdslen s) c)
    | Some n \<Rightarrow> (Some (p, int n), with_buf (Some s) (sdslen s - length (drop (n + 2) x)) (sdslen s) c))"
proof (cases "nl x")
  case None
  then show ?thesis using rest_size[OF h c] by (simp add: readLine_def)
next
  case (Some n)
  note H = holds_facts[OF h]
  have n: "n + 1 < length x" using nl_less[OF Some] by simp
  then have i: "int32 (int n) = int n" "int32 (int n + 2) = int n + 2" using H(3) by auto
  have "p + n + 2 \<le> sdslen s" using n H(1) by simp
  then have "size_t (int p + (int n + 2)) = sdslen s - length (drop (n + 2) x)"
    using n H(1) h by (subst size_t_id) (auto simp: holds_def)
  then show ?thesis using Some rest_size[OF h c] i c by (simp add: readLine_def Let_def) (simp add: with_buf_def)
qed

lemma bytes_refines:
  assumes h: "holds s p x" and "n \<le> length x"
  shows "bytes_at (buf s) p n = Some (take n x)"
  using holds_facts[OF h] assms(2) by (auto simp: bytes_at_def)

lemma call_string_refines:
  assumes h: "holds s p x" and k: "k + n \<le> length x" and F: "fn c = F"
  shows "call_string c (drop (p + k) (buf s)) n ty = call_string c (take n (drop k x)) n ty"
proof -
  obtain f where f: "createString F = Some f" using all_there(1) by auto
  note H = holds_facts[OF h]
  have "take n (drop k x) = take n (drop k (take (length x) (drop p (buf s))))" using H(2) by simp
  also have "\<dots> = take n (drop (p + k) (buf s))" using k by (simp add: drop_take ac_simps min_def)
  finally have "take n (drop (p + k) (buf s)) = take n (drop k x)" by simp
  moreover have "n \<le> length (drop (p + k) (buf s))" "n \<le> length (drop k x)" using H(4) k by auto
  ultimately show ?thesis
    using f F string_law[OF f, of n "drop (p + k) (buf s)"] string_law[OF f, of n "take n (drop k x)"]
    by (simp add: call_string_def)
qed


lemma aerror_refines:
  "rerr c = 0 \<Longrightarrow> ty \<noteq> 0 \<Longrightarrow>
   fail (redisReaderSetError (with_buf b p l c) ty msg) = map_option (conc s) (aerror (redisReaderSetError c ty msg))"
  using SetError_err[of c ty msg]
  by (cases "redisReaderSetError c ty msg") (auto simp: SetError_with_buf fail_def aerror_def)

lemma with_buf_again: "rerr c = 0 \<Longrightarrow> (with_buf b p l c)\<lparr>rpos := q\<rparr> = with_buf b q l c"
  by (simp add: with_buf_def)

lemma leaf_refines':
  assumes G: "G (with_buf b p l c) = map_option (map_prod id (with_buf b p l)) (G c)"
    and keep: "\<And>ob d. G c = Some (ob, d) \<Longrightarrow> rerr d = 0" and p: "p = l - length x"
  shows "G (with_buf b p l c) \<bind> (\<lambda>(ob, r). leaf_done r ob)
    = map_option (\<lambda>(st, x, d). (st, with_buf b (l - length x) l d)) (aleaf x (G c))"
proof (cases "G c")
  case (Some od)
  obtain ob d where od: "od = (ob, d)" by (cases od)
  have d: "rerr d = 0" using keep Some od by simp
  have "G (with_buf b p l c) = Some (ob, with_buf b p l d)" using G Some od by simp
  moreover have "map_option (map_prod id (with_buf b p l)) (leaf_done d ob)
      = map_option ((\<lambda>(st, x, d). (st, with_buf b (l - length x) l d)) \<circ> (\<lambda>(st, c). (st, if st = REDIS_OK then x else [], c))) (leaf_done d ob)"
    using leaf_keeps[OF d, of ob] p by (cases "leaf_done d ob") auto
  ultimately show ?thesis using leaf_lift[OF d, of b p l ob] Some od by (simp add: aleaf_def option.map_comp)
qed (use G in \<open>simp add: aleaf_def\<close>)

lemma line_refines:
  assumes h: "holds s p x" and c: "rerr c = 0" "fn c = F"
  shows "processLineItem (with_buf (Some s) p (sdslen s) c) = map_option (conc s) (aline x c)"
proof (cases "cur_task c")
  case (Some cur)
  note R = readLine_refines[OF h c(1)]
  show ?thesis
  proof (cases "nl x")
    case None
    then show ?thesis using Some R holds_facts(1)[OF h] h
      by (simp add: processLineItem_def aline_def holds_def)
  next
    case n: (Some n)
    have nx: "n \<le> length x" using nl_less[OF n] by simp
    define q where "q = sdslen s - length (drop (n + 2) x)"
    have qs: "sdslen s - (length x - Suc (Suc n)) = q" by (simp add: q_def)
    note R' = R[unfolded n option.case, folded q_def]
    have m: "rmem (with_buf (Some s) q (sdslen s) c) = buf s" using c by (simp add: with_buf_def rmem_def)
    have ci: "createInteger (fn c) \<noteq> None" using all_there c by simp
    have st: "call_string (with_buf (Some s) q (sdslen s) c) (drop p (buf s)) n ty \<bind> (\<lambda>(ob, r). leaf_done r ob)
        = map_option (conc s) (aleaf (drop (n + 2) x) (call_string c (take n x) n ty))" for ty
    proof -
      have "call_string (with_buf (Some s) q (sdslen s) c) (drop p (buf s)) n ty
          = call_string (with_buf (Some s) q (sdslen s) c) (take n x) n ty"
        using call_string_refines[OF h, of 0 n "with_buf (Some s) q (sdslen s) c" ty] nx c by simp
      then show ?thesis
        using leaf_refines'[of "\<lambda>c. call_string c (take n x) n ty" "Some s" q "sdslen s" c "drop (n + 2) x",
            OF call_lift(1)[OF c(1)] _ q_def] call_keeps(1)[of c "take n x" n ty] c
        by simp
    qed
    have int: "call_integer (with_buf (Some s) q (sdslen s) c) v \<bind> (\<lambda>(ob, r). leaf_done r ob)
        = map_option (conc s) (aleaf (drop (n + 2) x) (call_integer c v))" for v
      using leaf_refines'[of "\<lambda>c. call_integer c v" "Some s" q "sdslen s" c "drop (n + 2) x",
          OF call_lift(3)[OF c(1)] _ q_def] call_keeps(3)[of c v] c
      by simp
    have "processLineItem (with_buf (Some s) p (sdslen s) c) =
        (if ttype cur = REDIS_REPLY_INTEGER
         then (case string2ll (take n x) of
             None \<Rightarrow> fail (redisReaderSetError (with_buf (Some s) q (sdslen s) c) REDIS_ERR_PROTOCOL ''Bad integer value'')
           | Some v \<Rightarrow> call_integer (with_buf (Some s) q (sdslen s) c) v \<bind> (\<lambda>(ob, r). leaf_done r ob))
         else call_string (with_buf (Some s) q (sdslen s) c) (drop p (buf s)) n (ttype cur) \<bind> (\<lambda>(ob, r). leaf_done r ob))"
      using R' n Some ci m bytes_refines[OF h nx] by (simp add: processLineItem_def)
    also have "\<dots> = map_option (conc s) (aline x c)"
      unfolding st int using n Some aerror_refines[OF c(1)] by (auto simp: aline_def split: option.split)
    finally show ?thesis .
  qed
qed (simp add: processLineItem_def aline_def)


lemma bulk_refines:
  assumes h: "holds s p x" and c: "rerr c = 0" "fn c = F"
  shows "cur_task c = Some cur \<Longrightarrow>
    processBulkItem (with_buf (Some s) p (sdslen s) c) = map_option (conc s) (abulk x c)"
proof -
  assume cur: "cur_task c = Some cur"
  let ?r = "with_buf (Some s) p (sdslen s) c"
  note R = rest_size[OF h c(1)] and H = holds_facts[OF h]
  have ps: "p = sdslen s - length x" using h H(1) by (auto simp: holds_def)
  show ?thesis
  proof (cases "nl x")
    case None
    then show ?thesis using R cur ps by (simp add: processBulkItem_def abulk_def)
  next
    case n: (Some n)
    have nx: "n + 2 \<le> length x" using nl_less[OF n] by simp
    note b = bytes_refines[OF h, of n] 
    have pos: "size_t (int p + int m) = sdslen s - length (drop m x)" if "m \<le> length x" for m
    proof -
      have "size_t (int (p + m)) = p + m" using that H(1,3) h by (intro size_t_int) (auto simp: holds_def)
      then show ?thesis using that H(1) h by (auto simp: holds_def)
    qed
    have nil: "call_nil ?r \<bind> (\<lambda>(ob, r). leaf_done (r\<lparr>rpos := size_t (int (rpos r) + int (n + 2))\<rparr>) ob)
        = map_option (conc s) (aleaf (drop (n + 2) x) (call_nil c))"
    proof -
      have "call_nil ?r \<bind> (\<lambda>(ob, r). leaf_done (r\<lparr>rpos := size_t (int (rpos r) + int (n + 2))\<rparr>) ob)
          = call_nil ?r \<bind> (\<lambda>(ob, r). leaf_done (r\<lparr>rpos := sdslen s - length (drop (n + 2) x)\<rparr>) ob)"
        using call_lift(4)[OF c(1), of "Some s" p "sdslen s"] call_keeps(4)[of c] pos[OF nx] c
        by (cases "call_nil c") (auto simp: with_buf_def)
      then show ?thesis
        using leaf_refines[of call_nil "Some s" p "sdslen s" c, OF call_lift(4)[OF c(1)] _ refl, of "drop (n + 2) x"]
          call_keeps(4)[of c] c by simp
    qed
    have str: "call_string ?r (drop (p + (n + 2)) (buf s)) k REDIS_REPLY_STRING
          \<bind> (\<lambda>(ob, r). leaf_done (r\<lparr>rpos := size_t (int (rpos r) + int (n + k + 4))\<rparr>) ob)
        = map_option (conc s) (aleaf (drop (n + k + 4) x) (call_string c (take k (drop (n + 2) x)) k REDIS_REPLY_STRING))"
      if k: "n + k + 4 \<le> length x" for k
    proof -
      let ?G = "\<lambda>c. call_string c (take k (drop (n + 2) x)) k REDIS_REPLY_STRING"
      have "call_string ?r (drop (p + (n + 2)) (buf s)) k REDIS_REPLY_STRING = ?G ?r"
        using call_string_refines[OF h, of "n + 2" k ?r REDIS_REPLY_STRING] k c by simp
      moreover have "?G ?r \<bind> (\<lambda>(ob, r). leaf_done (r\<lparr>rpos := size_t (int (rpos r) + int (n + k + 4))\<rparr>) ob)
          = ?G ?r \<bind> (\<lambda>(ob, r). leaf_done (r\<lparr>rpos := sdslen s - length (drop (n + k + 4) x)\<rparr>) ob)"
        using call_lift(1)[OF c(1), of "Some s" p "sdslen s"] call_keeps(1)[of c] pos[OF k] c
        by (cases "?G c") (auto simp: with_buf_def)
      ultimately show ?thesis
        using leaf_refines[of ?G "Some s" p "sdslen s" c, OF call_lift(1)[OF c(1)] _ refl, of "drop (n + k + 4) x"]
          call_keeps(1)[of c] c by simp
    qed
    show ?thesis
    proof (cases "string2ll (take n x)")
      case None
      then show ?thesis using R cur n b nx aerror_refines[OF c(1)]
        by (simp add: processBulkItem_def abulk_def)
    next
      case (Some k)
      consider "k < - 1" | "k = - 1" | "0 \<le> k" by linarith
      then show ?thesis
      proof cases
        case 1
        then show ?thesis using R cur n b nx Some aerror_refines[OF c(1)]
          by (simp add: processBulkItem_def abulk_def)
      next
        case 2
        then show ?thesis using R cur n b nx Some nil
          by (simp add: processBulkItem_def abulk_def)
      next
        case 3
        have kb: "k < 2 ^ 63" using Some string2ll_iff by blast
        have n31: "n < 2 ^ 31" "p < 2 ^ 31" using nx H(3) h by (auto simp: holds_def)
        have bl: "size_t (int (n + 2) + k + 2) = n + nat k + 4" using 3 kb n31
          by (subst size_t_id) auto
        have "size_t (int p + int (n + nat k + 4)) = p + (n + nat k + 4)" using 3 kb n31
          by (subst size_t_id) auto
        then have le: "size_t (int p + int (n + nat k + 4)) \<le> sdslen s \<longleftrightarrow> n + nat k + 4 \<le> length x"
          using H(1) h by (auto simp: holds_def)
        have "processBulkItem ?r = (if n + nat k + 4 \<le> length x
            then call_string ?r (drop (p + (n + 2)) (buf s)) (nat k) REDIS_REPLY_STRING
              \<bind> (\<lambda>(ob, r). leaf_done (r\<lparr>rpos := size_t (int (rpos r) + int (n + nat k + 4))\<rparr>) ob)
            else Some (REDIS_ERR, ?r))"
          using R cur n b nx Some 3 bl le by (simp add: processBulkItem_def)
        then show ?thesis using str[of "nat k"] n Some 3 ps by (simp add: abulk_def)
      qed
    qed
  qed
qed

lemma multi_refines:
  assumes h: "holds s p x" and c: "rerr c = 0" "fn c = F"
  shows "processMultiBulkItem (with_buf (Some s) p (sdslen s) c) = map_option (conc s) (amulti x c)"
proof -
  note R = readLine_refines[OF h c(1)]
  have ps: "p = sdslen s - length x" using h holds_facts(1)[OF h] by (auto simp: holds_def)
  show ?thesis
  proof (cases "ridx c = 8 \<or> nl x = None")
    case True
    then show ?thesis using R ps aerror_refines[OF c(1)]
      by (auto simp: processMultiBulkItem_def amulti_def)
  next
    case False
    then obtain n where n: "nl x = Some n" by auto
    have nx: "n \<le> length x" using nl_less[OF n] by simp
    define q where "q = sdslen s - length (drop (n + 2) x)"
    have qs: "sdslen s - (length x - Suc (Suc n)) = q" by (simp add: q_def)
    let ?r = "with_buf (Some s) q (sdslen s) c"
    have m: "rmem ?r = buf s" using c by (simp add: with_buf_def rmem_def)
    have R': "readLine (with_buf (Some s) p (sdslen s) c) = Some (Some (p, int n), ?r)" using R n by (simp add: q_def)
    show ?thesis
    proof (cases "string2ll (take n x)")
      case None
      then show ?thesis using R' False n m bytes_refines[OF h nx] aerror_refines[OF c(1)]
        by (simp add: processMultiBulkItem_def amulti_def)
    next
      case (Some k)
      show ?thesis
      proof (cases "k < - 1 \<or> k > 2 ^ 31 - 1")
        case True
        then show ?thesis using R' False n m Some bytes_refines[OF h nx] aerror_refines[OF c(1)]
          by (simp add: processMultiBulkItem_def amulti_def)
      next
        case k: False
        let ?K = "\<lambda>c. if k = - 1 then call_nil c else call_array c k"
        have K: "?K ?r = map_option (map_prod id (with_buf (Some s) q (sdslen s))) (?K c)"
          using call_lift[OF c(1)] by simp
        have keep: "rerr d = 0" if "?K c = Some (ob, d)" for ob d
          using that call_keeps(2,4)[of c] c by (auto split: if_splits)
        have step: "(if ob = 0 then fail (redisReaderSetErrorOOM (with_buf (Some s) q (sdslen s) d))
            else (if k > 0 then push_task (with_buf (Some s) q (sdslen s) d) k ob
                  else moveToNextTask (with_buf (Some s) q (sdslen s) d)) \<bind> (\<lambda>r.
              Some (REDIS_OK, if ridx c = 0 then r\<lparr>reply := ob\<rparr> else r)))
          = map_option (conc s) (if ob = 0 then aerror (redisReaderSetErrorOOM d)
              else (if k > 0 then push_task d k ob else moveToNextTask d) \<bind> (\<lambda>c'.
                Some (REDIS_OK, drop (n + 2) x, if ridx c = 0 then c'\<lparr>reply := ob\<rparr> else c')))"
          if d: "rerr d = 0" for d ob
          using aerror_refines[OF d, of _ "Some s" q "sdslen s"] push_lift[OF d] move_lift[OF d]
          by (cases "if k > 0 then push_task d k ob else moveToNextTask d")
            (auto simp: redisReaderSetErrorOOM_def qs split: if_splits)
        have "processMultiBulkItem (with_buf (Some s) p (sdslen s) c) = ?K ?r \<bind> (\<lambda>(ob, r).
            if ob = 0 then fail (redisReaderSetErrorOOM r)
            else (if k > 0 then push_task r k ob else moveToNextTask r) \<bind> (\<lambda>r.
              Some (REDIS_OK, if ridx c = 0 then r\<lparr>reply := ob\<rparr> else r)))"
          using R' False n m Some k bytes_refines[OF h nx] by (simp add: processMultiBulkItem_def)
        also have "\<dots> = map_option (conc s) (amulti x c)"
          unfolding K using False n Some k step[OF keep]
          by (cases "?K c") (auto simp: amulti_def)
        finally show ?thesis .
      qed
    qed
  qed
qed


lemma typed_refines:
  assumes h: "holds s p x" and c: "rerr c = 0" "fn c = F"
  shows "processTyped (with_buf (Some s) p (sdslen s) c) = map_option (conc s) (atyped x c)"
  using line_refines[OF h c] bulk_refines[OF h c] multi_refines[OF h c]
  by (cases "cur_task c") (auto simp: processTyped_def atyped_def)

lemma holds_drop:
  assumes "holds s p (ch # x)"
  shows "holds s (p + 1) x"
proof -
  have d: "drop p (str s) = ch # x" using assms by (simp add: holds_def)
  then have "drop (p + 1) (str s) = x" using drop_drop[of 1 p "str s"] by simp
  moreover have "p < length (str s)" using d by (metis drop_all leI list.distinct(1))
  ultimately show ?thesis using assms by (auto simp: holds_def sdslen_def)
qed

lemma item_refines:
  assumes h: "holds s p x" and c: "rerr c = 0" "fn c = F"
  shows "processItem (with_buf (Some s) p (sdslen s) c) = map_option (conc s) (aitem x c)"
proof (cases "cur_task c")
  case None
  then show ?thesis by (simp add: processItem_def aitem_def)
next
  case cur: (Some cur)
  let ?r = "with_buf (Some s) p (sdslen s) c"
  note R = rest_size[OF h c(1)] and H = holds_facts[OF h]
  show ?thesis
  proof (cases "ttype cur < 0")
    case False
    then show ?thesis using typed_refines[OF h c] cur by (simp add: processItem_def aitem_def)
  next
    case True
    show ?thesis
    proof (cases x)
      case Nil
      then have "readBytes ?r 1 = (None, ?r)" using R by (simp add: readBytes_def)
      moreover have "p = sdslen s" using H(1) Nil h by (simp add: holds_def)
      ultimately show ?thesis using cur True Nil by (simp add: processItem_def aitem_def)
    next
      case (Cons ch y)
      have sz: "size_t (int p + 1) = p + 1" using H(1,3) h by (intro size_t_succ) (auto simp: holds_def)
      have rb: "readBytes ?r 1 = (Some p, with_buf (Some s) (p + 1) (sdslen s) c)"
        using R Cons sz c by (simp add: readBytes_def with_buf_again)
      have "x ! 0 = buf s ! p" by (subst H(2)) (use Cons H(4) in simp)
      then have "p < length (buf s)" "buf s ! p = ch" using H(4) Cons by simp_all
      then have ch: "rd (rmem (with_buf (Some s) (p + 1) (sdslen s) c)) p = Some ch" using c by (simp add: with_buf_def rmem_def)
      show ?thesis
        using typed_refines[OF holds_drop[OF h[unfolded Cons]], of "set_cur c (cur\<lparr>ttype := the (reply_type ch)\<rparr>)"]
          aerror_refines[OF c(1)] cur True Cons rb ch c
        by (auto simp: processItem_def aitem_def redisReaderSetErrorProtocolByte_def split: option.split)
    qed
  qed
qed

end

subsection \<open>What an item keeps, and what more input changes\<close>

text \<open>
  \<open>advances\<close>: an item keeps the functions, and uses up input when it succeeds. \<open>monotone\<close>:
  more input changes nothing but what is left, unless the item waits, which it does without
  touching the reader.
\<close>

definition advances :: "string \<Rightarrow> 'h redisReader \<Rightarrow> (result \<times> 'h astate) option \<Rightarrow> bool" where
  "advances x c out \<longleftrightarrow> (\<forall>st y d. out = Some (st, y, d) \<longrightarrow> fn d = fn c \<and> length (rstack d) = length (rstack c) \<and> suffix y x \<and>
     (st = REDIS_OK \<longrightarrow> rerr d = 0 \<and> length y < length x))"

definition monotone :: "(string \<Rightarrow> (result \<times> 'h astate) option) \<Rightarrow> string \<Rightarrow> 'h redisReader \<Rightarrow> bool" where
  "monotone f x c \<longleftrightarrow> (\<forall>e. case f x of
       None \<Rightarrow> f (x @ e) = None
     | Some (st, y, d) \<Rightarrow>
         if st = REDIS_OK then f (x @ e) = Some (REDIS_OK, y @ e, d)
         else if rerr d \<noteq> 0 then f (x @ e) = Some (REDIS_ERR, y, d)
         else y = x \<and> d = c)"

lemma advances_simple [simp]: "advances x c None" "advances x c (Some (REDIS_ERR, x, c))"
  by (simp_all add: advances_def)

lemma advances_error [simp]: "advances x c (aerror (redisReaderSetError c ty msg))"
proof (cases "redisReaderSetError c ty msg")
  case (Some d)
  then show ?thesis using SetError_err[OF Some] by (simp add: advances_def aerror_def)
qed (simp add: aerror_def)

lemma aerror_cases:
  "ty \<noteq> 0 \<Longrightarrow> aerror (redisReaderSetError c ty msg) = Some (st, y, d) \<Longrightarrow> st = REDIS_ERR \<and> rerr d \<noteq> 0 \<and> y = []"
proof -
  assume ty: "ty \<noteq> 0" and "aerror (redisReaderSetError c ty msg) = Some (st, y, d)"
  then have s: "redisReaderSetError c ty msg = Some d" and "st = REDIS_ERR" "y = []" by (auto simp: aerror_def)
  then show ?thesis using SetError_err[OF s] ty by simp
qed

lemma aleaf_cases:
  assumes "aleaf x p = Some (st, y, d)" and "\<And>ob e. p = Some (ob, e) \<Longrightarrow> rerr e = 0 \<and> fn e = fn c \<and> length (rstack e) = length (rstack c)"
  shows "y = (if st = REDIS_OK then x else []) \<and> fn d = fn c \<and> length (rstack d) = length (rstack c) \<and> (st = REDIS_OK \<longleftrightarrow> rerr d = 0)"
proof -
  obtain ob e where e: "p = Some (ob, e)" "leaf_done e ob = Some (st, d)" "y = (if st = REDIS_OK then x else [])"
    using assms(1) by (auto simp: aleaf_def split: bind_splits)
  then show ?thesis using leaf_keeps[OF _ e(2)] assms(2)[OF e(1)] by simp
qed

lemma advances_leaf:
  assumes "\<And>ob e. p = Some (ob, e) \<Longrightarrow> rerr e = 0 \<and> fn e = fn c \<and> length (rstack e) = length (rstack c)" and "0 < n" and "n \<le> length x"
  shows "advances x c (aleaf (drop n x) p)"
  unfolding advances_def using aleaf_cases[of "drop n x" p _ _ _ c] assms by (fastforce simp: suffix_drop)

lemma monotone_error:
  assumes "\<And>e. f (x @ e) = aerror (redisReaderSetError d ty msg)" and "ty \<noteq> 0"
  shows "monotone f x c"
  using assms(1)[of "[]"] assms aerror_cases[OF assms(2), of d msg]
  by (auto simp: monotone_def split: option.split)

lemma monotone_leaf:
  assumes f: "\<And>e. f (x @ e) = aleaf (z @ e) p" and p: "\<And>ob e. p = Some (ob, e) \<Longrightarrow> rerr e = 0 \<and> fn e = fn c \<and> length (rstack e) = length (rstack c)"
  shows "monotone f x c"
proof (cases "aleaf z p")
  case None
  then show ?thesis using f f[of "[]"] by (auto simp: monotone_def aleaf_def split: bind_splits)
next
  case (Some s)
  obtain st y d where s: "s = (st, y, d)" by (cases s)
  have "aleaf (z @ e) p = Some (st, if st = REDIS_OK then z @ e else [], d)" for e
    using Some s by (auto simp: aleaf_def split: bind_splits)
  moreover note aleaf_cases[OF Some[unfolded s], of c] p
  ultimately show ?thesis using f f[of "[]"] Some s by (cases st) (auto simp: monotone_def)
qed

lemma monotone_wait:
  assumes "f x = Some (REDIS_ERR, x, c)" and "rerr c = 0"
  shows "monotone f x c"
  using assms by (simp add: monotone_def)

lemma call_fine:
  assumes "rerr c = 0"
  shows "call_string c s n ty = Some (ob, e) \<Longrightarrow> rerr e = 0 \<and> fn e = fn c \<and> length (rstack e) = length (rstack c)"
    "call_integer c v = Some (ob, e) \<Longrightarrow> rerr e = 0 \<and> fn e = fn c \<and> length (rstack e) = length (rstack c)"
    "call_nil c = Some (ob, e) \<Longrightarrow> rerr e = 0 \<and> fn e = fn c \<and> length (rstack e) = length (rstack c)"
    "call_array c k = Some (ob, e) \<Longrightarrow> rerr e = 0 \<and> fn e = fn c \<and> length (rstack e) = length (rstack c)"
  using call_keeps[of c] assms by auto

lemma line_advances: "rerr c = 0 \<Longrightarrow> advances x c (aline x c)"
  using nl_less[of x]
  by (cases "cur_task c")
    (auto simp: aline_def simp del: advances_error split: option.split
      intro!: advances_leaf advances_error dest: call_fine)

lemma bulk_advances: "rerr c = 0 \<Longrightarrow> advances x c (abulk x c)"
  using nl_less[of x]
  by (auto simp: abulk_def simp del: advances_error split: option.split
      intro!: advances_leaf advances_error dest: call_fine)

lemma multi_advances:
  assumes c: "rerr c = 0"
  shows "advances x c (amulti x c)"
proof (cases "nl x")
  case (Some n)
  have nx: "n + 2 \<le> length x" using nl_less[OF Some] by simp
  have "advances x c ((if k = - 1 then call_nil c else call_array c k) \<bind> (\<lambda>(ob, c').
      if ob = 0 then aerror (redisReaderSetErrorOOM c')
      else (if k > 0 then push_task c' k ob else moveToNextTask c') \<bind> (\<lambda>c'.
        Some (REDIS_OK, drop (n + 2) x, if ridx c = 0 then c'\<lparr>reply := ob\<rparr> else c'))))" for k
  proof (cases "if k = - 1 then call_nil c else call_array c k")
    case (Some od)
    obtain ob d where od: "od = (ob, d)" by (cases od)
    have d: "rerr d = 0" "fn d = fn c \<and> length (rstack d) = length (rstack c)" using Some od call_fine(3,4)[OF c] by (auto split: if_splits)
    have "advances x c (aerror (redisReaderSetErrorOOM d))"
      using advances_error[of x d REDIS_ERR_OOM "''Out of memory''"] d
      by (simp add: advances_def redisReaderSetErrorOOM_def)
    moreover have "rerr e = 0 \<and> fn e = fn c \<and> length (rstack e) = length (rstack c)" if "(if k > 0 then push_task d k ob else moveToNextTask d) = Some e" for e
      using that push_keeps[of d k ob e] move_keeps[of d e] d by (auto split: if_splits)
    ultimately show ?thesis using Some od nx
      by (cases "if k > 0 then push_task d k ob else moveToNextTask d") (auto simp: advances_def suffix_drop)
  qed (simp add: advances_def)
  then show ?thesis using Some by (simp add: amulti_def split: option.split)
qed (simp add: amulti_def)

lemma typed_advances: "rerr c = 0 \<Longrightarrow> advances x c (atyped x c)"
  using line_advances bulk_advances multi_advances by (cases "cur_task c") (auto simp: atyped_def)

lemma item_advances: "rerr c = 0 \<Longrightarrow> advances x c (aitem x c)"
proof (cases "cur_task c")
  case (Some cur)
  assume c: "rerr c = 0"
  show ?thesis
  proof (cases x)
    case (Cons ch y)
    have "advances x c (atyped y (set_cur c t))" for t
      using typed_advances[of "set_cur c t" y] c Cons by (fastforce simp: advances_def suffix_ConsI)
    then show ?thesis using Some Cons typed_advances[OF c, of x]
      by (auto simp: aitem_def redisReaderSetErrorProtocolByte_def split: option.split)
  qed (use Some typed_advances[OF c, of x] in \<open>auto simp: aitem_def\<close>)
qed (simp add: aitem_def)

text \<open>More input.\<close>

lemma monotone_line:
  assumes c: "rerr c = 0"
  shows "monotone (\<lambda>z. aline z c) x c"
proof (cases "nl x")
  case None
  then show ?thesis using c by (cases "cur_task c") (auto simp: monotone_def aline_def)
next
  case (Some n)
  have nx: "n + 2 \<le> length x" using nl_less[OF Some] by simp
  have nle: "nl (x @ e) = Some n" "take n (x @ e) = take n x" "drop (n + 2) (x @ e) = drop (n + 2) x @ e"
      "drop (Suc (Suc n)) (x @ e) = drop (Suc (Suc n)) x @ e" for e
    using nx nl_append[OF Some] by simp_all
  consider (none) "cur_task c = None"
    | (int) cur where "cur_task c = Some cur" "ttype cur = REDIS_REPLY_INTEGER"
    | (str) cur where "cur_task c = Some cur" "ttype cur \<noteq> REDIS_REPLY_INTEGER" by (cases "cur_task c") auto
  then show ?thesis
  proof cases
    case none
    then show ?thesis by (simp add: monotone_def aline_def)
  next
    case str
    then show ?thesis
      by (intro monotone_leaf[of _ _ "drop (n + 2) x" "call_string c (take n x) n (ttype cur)"])
        (simp_all only: aline_def nle bind.bind_lunit option.case if_False call_fine(1)[OF c])
  next
    case int
    show ?thesis
    proof (cases "string2ll (take n x)")
      case None
      then show ?thesis using int
        by (intro monotone_error[of _ _ c REDIS_ERR_PROTOCOL]) (simp_all add: aline_def nle del: take_append drop_append)
    next
      case (Some v)
      then show ?thesis using int
        by (intro monotone_leaf[of _ _ "drop (n + 2) x" "call_integer c v"])
          (simp_all only: aline_def nle bind.bind_lunit option.case simp_thms if_True call_fine(2)[OF c])
    qed
  qed
qed

lemma monotone_bulk:
  assumes c: "rerr c = 0"
  shows "monotone (\<lambda>z. abulk z c) x c"
proof (cases "nl x")
  case None
  then show ?thesis using c by (auto simp: monotone_def abulk_def)
next
  case (Some n)
  have nx: "n + 2 \<le> length x" using nl_less[OF Some] by simp
  have nle: "nl (x @ e) = Some n" "take n (x @ e) = take n x" "drop (n + 2) (x @ e) = drop (n + 2) x @ e"
      "drop (Suc (Suc n)) (x @ e) = drop (Suc (Suc n)) x @ e" for e
    using nx nl_append[OF Some] by simp_all
  have kd: "drop (n + k + 4) (x @ e) = drop (n + k + 4) x @ e" "take k (drop (n + 2) x @ e) = take k (drop (n + 2) x)"
      "take k (drop (Suc (Suc n)) x @ e) = take k (drop (Suc (Suc n)) x)"
    if "n + k + 4 \<le> length x" for k e using that by simp_all
  show ?thesis
  proof (cases "string2ll (take n x)")
    case None
    then show ?thesis
      by (intro monotone_error[of _ _ c REDIS_ERR_PROTOCOL]) (simp_all add: abulk_def nle del: take_append drop_append)
  next
    case k: (Some k)
    consider "k < - 1" | "k = - 1" | "0 \<le> k" "n + nat k + 4 \<le> length x" | "0 \<le> k" "\<not> n + nat k + 4 \<le> length x" by linarith
    then show ?thesis
    proof cases
      case 1
      then show ?thesis using k
        by (intro monotone_error[of _ _ c REDIS_ERR_PROTOCOL]) (simp_all add: abulk_def nle del: take_append drop_append)
    next
      case 2
      then show ?thesis using k
        by (intro monotone_leaf[of _ _ "drop (n + 2) x" "call_nil c"])
          (simp_all add: abulk_def nle call_fine(3)[OF c] del: take_append drop_append)
    next
      case 3
      then show ?thesis using k
        by (intro monotone_leaf[of _ _ "drop (n + nat k + 4) x"
              "call_string c (take (nat k) (drop (n + 2) x)) (nat k) REDIS_REPLY_STRING"])
          (simp_all add: abulk_def nle kd call_fine(1)[OF c] del: take_append drop_append)
    next
      case 4
      then show ?thesis using k Some c by (intro monotone_wait) (simp_all add: abulk_def)
    qed
  qed
qed

lemma monotone_multi:
  assumes c: "rerr c = 0"
  shows "monotone (\<lambda>z. amulti z c) x c"
proof (cases "ridx c = 8 \<or> nl x = None")
  case True
  then show ?thesis using c aerror_cases[of REDIS_ERR_PROTOCOL c]
    by (auto simp: monotone_def amulti_def split: option.split)
next
  case False
  then obtain n where n: "nl x = Some n" by auto
  have nx: "n + 2 \<le> length x" using nl_less[OF n] by simp
  have nle: "nl (x @ e) = Some n" "take n (x @ e) = take n x" "drop (n + 2) (x @ e) = drop (n + 2) x @ e" for e
    using nx nl_append[OF n] by simp_all
  show ?thesis
  proof (cases "string2ll (take n x)")
    case None
    then show ?thesis using False
      by (intro monotone_error[of _ _ c REDIS_ERR_PROTOCOL]) (simp_all add: amulti_def nle del: take_append drop_append)
  next
    case (Some k)
    show ?thesis
    proof (cases "k < - 1 \<or> k > 2 ^ 31 - 1")
      case True
      then show ?thesis using False Some
        by (intro monotone_error[of _ _ c REDIS_ERR_PROTOCOL]) (simp_all add: amulti_def nle del: take_append drop_append)
    next
      case k: False
      let ?K = "if k = - 1 then call_nil c else call_array c k"
      have A: "amulti (x @ e) c = ?K \<bind> (\<lambda>(ob, c').
          if ob = 0 then aerror (redisReaderSetErrorOOM c')
          else (if k > 0 then push_task c' k ob else moveToNextTask c') \<bind> (\<lambda>c'.
            Some (REDIS_OK, drop (n + 2) x @ e, if ridx c = 0 then c'\<lparr>reply := ob\<rparr> else c')))" for e
        unfolding amulti_def nle option.case using False Some k by simp
      show ?thesis
      proof (cases ?K)
        case None
        then show ?thesis using A[of "[]"] A by (simp add: monotone_def)
      next
        case (Some od)
        obtain ob d where od: "od = (ob, d)" by (cases od)
        show ?thesis
          using A[of "[]"] A Some od aerror_cases[of REDIS_ERR_OOM d "''Out of memory''"]
          by (cases "if k > 0 then push_task d k ob else moveToNextTask d")
            (auto simp: monotone_def redisReaderSetErrorOOM_def split: option.split)
      qed
    qed
  qed
qed

lemma monotone_typed: "rerr c = 0 \<Longrightarrow> monotone (\<lambda>z. atyped z c) x c"
proof (cases "cur_task c")
  case None
  then show ?thesis by (simp add: monotone_def atyped_def)
next
  case (Some cur)
  assume c: "rerr c = 0"
  have "(\<lambda>z. atyped z c) \<in> {\<lambda>z. aline z c, \<lambda>z. abulk z c, \<lambda>z. amulti z c, \<lambda>z. None}"
    using Some by (auto simp: atyped_def fun_eq_iff)
  then show ?thesis
    using monotone_line[OF c, of x] monotone_bulk[OF c, of x] monotone_multi[OF c, of x]
    by (auto simp del: fun_eq_iff) (simp add: monotone_def)
qed

lemma cur_set_cur: "cur_task c = Some cur \<Longrightarrow> cur_task (set_cur c t) = Some t"
  by (auto simp: cur_task_def set_cur_def rd_def split: if_splits)

lemma reply_type_pos: "reply_type ch = Some ty \<Longrightarrow> \<not> ty < 0"
  by (auto split: if_splits)

text \<open>An item that waits has at most read its type.\<close>

lemma item_more:
  assumes c: "rerr c = 0"
  shows "case aitem x c of
      None \<Rightarrow> aitem (x @ e) c = None
    | Some (st, y, d) \<Rightarrow>
        if st = REDIS_OK then aitem (x @ e) c = Some (REDIS_OK, y @ e, d)
        else if rerr d \<noteq> 0 then aitem (x @ e) c = Some (REDIS_ERR, y, d)
        else aitem (x @ e) c = aitem (y @ e) d \<and> ridx d = ridx c"
proof (cases "cur_task c")
  case None
  then show ?thesis by (simp add: aitem_def)
next
  case (Some cur)
  show ?thesis
  proof (cases "ttype cur < 0")
    case False
    then have "aitem z c = atyped z c" for z using Some by (simp add: aitem_def)
    then show ?thesis using monotone_typed[OF c, of x, unfolded monotone_def, rule_format, of e]
      by (cases "atyped x c") (auto split: if_splits)
  next
    case True
    show ?thesis
    proof (cases x)
      case Nil
      then show ?thesis using Some True c by (simp add: aitem_def)
    next
      case (Cons ch y)
      show ?thesis
      proof (cases "reply_type ch")
        case None
        then show ?thesis
          using Some True Cons aerror_cases[of REDIS_ERR_PROTOCOL c]
          by (auto simp: aitem_def redisReaderSetErrorProtocolByte_def split: option.split)
      next
        case ty: (Some ty)
        let ?d = "set_cur c (cur\<lparr>ttype := ty\<rparr>)"
        have i: "aitem (ch # z) c = atyped z ?d" for z using Some True ty by (simp add: aitem_def)
        have d: "aitem z ?d = atyped z ?d" for z
          using cur_set_cur[OF Some] reply_type_pos[OF ty] by (simp add: aitem_def)
        have "rerr ?d = 0" using c by simp
        then show ?thesis using monotone_typed[of ?d y, unfolded monotone_def, rule_format, of e] Cons i d
          by (cases "atyped y ?d") (auto split: if_splits)
      qed
    qed
  qed
qed

subsection \<open>The loop\<close>

lemma arun_more:
  "rerr c = 0 \<Longrightarrow> case arun x c of
      None \<Rightarrow> arun (x @ e) c = None
    | Some (y, d) \<Rightarrow> fn d = fn c \<and> length (rstack d) = length (rstack c) \<and> suffix y x \<and>
        (if rerr d \<noteq> 0 then arun (x @ e) c = Some (y, d) else arun (x @ e) c = arun (y @ e) d)"
proof (induction x c rule: arun.induct)
  case (1 x c)
  show ?case
  proof (cases "ridx c < 0")
    case True
    then show ?thesis using 1(2) by (simp add: arun.simps)
  next
    case False
    note I = item_more[OF 1(2), of x e] and A = item_advances[OF 1(2), of x]
    show ?thesis
    proof (cases "aitem x c")
      case None
      then show ?thesis using I False by (simp add: arun.simps[of _ c])
    next
      case (Some s)
      obtain st y d where s: "s = (st, y, d)" by (cases s)
      show ?thesis
      proof (cases "st = REDIS_OK")
        case True
        have d: "rerr d = 0" "length y < length x" "fn d = fn c \<and> length (rstack d) = length (rstack c)" "suffix y x" using A Some s True by (auto simp: advances_def)
        have "arun x c = arun y d" "arun (x @ e) c = arun (y @ e) d"
          using I Some s True d False by (simp_all add: arun.simps[of _ c])
        moreover note 1(1)[OF False Some[unfolded s] refl refl _ d(2,1)] True
        ultimately show ?thesis using d suffix_order.trans[of _ y x] by (cases "arun y d") auto
      next
        case err: False
        then have "arun x c = Some (y, d)" using Some s False by (simp add: arun.simps[of _ c])
        moreover have "fn d = fn c \<and> length (rstack d) = length (rstack c)" "suffix y x" using A Some s by (auto simp: advances_def)
        moreover have "arun (x @ e) c = (if rerr d \<noteq> 0 then Some (y, d) else arun (y @ e) d)"
        proof (cases "rerr d = 0")
          case True
          then have ie: "aitem (x @ e) c = aitem (y @ e) d" and ri: "ridx d = ridx c" using I Some s err by auto
          note A1 = item_advances[OF 1(2), of "x @ e"] and A2 = item_advances[OF True, of "y @ e"]
          show ?thesis
            using False ie ri True arun.simps[of "x @ e" c] arun.simps[of "y @ e" d] A1 A2
            by (cases "aitem (y @ e) d") (auto simp: advances_def)
        next
          case rd: False
          then show ?thesis using I Some s err False arun.simps[of "x @ e" c] by simp
        qed
        ultimately show ?thesis by simp
      qed
    qed
  qed
qed

end
