(* ===== verification/Read_Session.thy ===== *)
theory Read_Session
  imports Read_Spec
begin

text \<open>
  Sessions with a reader: the client feeds the input in chunks and asks for a reply after each.
  \<open>at\<close> says what a reader has left to parse; \<open>session\<close> plays the client. In the locale
  \<open>object_functions\<close> a session gives the reply of the abstract parser on the whole input,
  however it was cut.
\<close>

definition start :: "'h redisReader \<Rightarrow> 'h redisReader" where
  "start c = (if ridx c = - 1 then c\<lparr>rstack := (rstack c)[0 := root_task], ridx := 0\<rparr> else c)"

lemma start_fields [simp]: "rerr (start c) = rerr c" "fn (start c) = fn c" "reply (start c) = reply c"
    "objs (start c) = objs c"
  by (simp_all add: start_def)

lemma start_idle: "ridx c \<noteq> - 1 \<Longrightarrow> start c = c"
  by (simp add: start_def)

definition at :: "'h redisReader \<Rightarrow> nat \<Rightarrow> string \<Rightarrow> 'h redisReader \<Rightarrow> bool" where
  "at r N x c \<longleftrightarrow> rerr c = 0 \<and> (\<exists>s p. r = with_buf (Some s) p (sdslen s) c \<and> holds s p x \<and> sdslen s \<le> N)"

fun session :: "allocator \<Rightarrow> 'h redisReader \<Rightarrow> string list \<Rightarrow> (nat list \<times> 'h redisReader) option" where
  "session mal r [] = Some ([], r)"
| "session mal r (t # ts) =
     redisReaderFeed mal r (Some t) (length t) \<bind> (\<lambda>(st, r). redisReaderGetReply r \<bind> (\<lambda>(st, o', r).
       map_option (\<lambda>(os, r). (o' # os, r)) (session mal r ts)))"

lemma with_buf_twice [simp]: "with_buf b p l (with_buf b' p' l' c) = with_buf b p l c"
  by (simp add: with_buf_def)

lemma holds_suffix:
  assumes h: "holds s p x" and y: "suffix y x"
  shows "holds s (sdslen s - length y) y"
proof -
  have "suffix x (str s)" using h by (auto simp: holds_def suffix_drop)
  then have sf: "suffix y (str s)" using y suffix_order.trans by blast
  then have "y = drop (length (str s) - length y) (str s)" by (auto simp: suffix_def)
  moreover have "length (str s) = sdslen s" using h by (simp add: holds_def sdslen_def)
  ultimately show ?thesis using h by (auto simp: holds_def)
qed

context object_functions
begin

lemma loop_refines:
  assumes "rerr c = 0" and "fn c = F" and "holds s p x"
  shows "reply_while (with_buf (Some s) p (sdslen s) c)
    = map_option (\<lambda>(y, d). with_buf (Some s) (sdslen s - length y) (sdslen s) d) (arun x c)"
  using assms
proof (induction x c arbitrary: p rule: arun.induct)
  case (1 x c)
  show ?case
  proof (cases "ridx c < 0")
    case True
    moreover have "p = sdslen s - length x" using holds_facts(1)[OF 1(4)] 1(4) by (auto simp: holds_def)
    ultimately show ?thesis by (simp add: reply_while.simps arun.simps[of x c])
  next
    case False
    note R = item_refines[OF 1(4,2,3)] and A = item_advances[OF 1(2), of x]
    show ?thesis
    proof (cases "aitem x c")
      case None
      then show ?thesis using R False by (simp add: reply_while.simps[of "with_buf _ _ _ c"] arun.simps[of x c])
    next
      case (Some o')
      obtain st y d where o': "o' = (st, y, d)" by (cases o')
      show ?thesis
      proof (cases "st = REDIS_OK")
        case True
        have d: "rerr d = 0" "fn d = F" "length y < length x" "suffix y x"
          using A Some o' True 1(3) by (auto simp: advances_def)
        have "reply_while (with_buf (Some s) (sdslen s - length y) (sdslen s) d)
            = map_option (\<lambda>(y, d). with_buf (Some s) (sdslen s - length y) (sdslen s) d) (arun y d)"
          by (rule 1(1)[OF False Some[unfolded o'] refl refl _ d(3,1,2) holds_suffix[OF 1(4) d(4)]]) (simp add: True)
        then show ?thesis
          using R Some o' True d False
          by (simp add: reply_while.simps[of "with_buf _ p _ c"] arun.simps[of x c])
      next
        case err: False
        then show ?thesis
          using R Some o' False by (simp add: reply_while.simps[of "with_buf _ p _ c"] arun.simps[of x c])
      qed
    qed
  qed
qed

end

lemma sdsrange_tail:
  assumes ok: "sds_ok s" and l: "sdslen s < 2 ^ 31" and p: "p \<le> sdslen s"
  shows "\<exists>s'. sdsrange s (int p) (- 1) = Some s' \<and> sds_ok s' \<and> str s' = drop p (str s)"
proof -
  obtain s' where s': "sdsrange s (int p) (- 1) = Some s'" "sds_ok s'" "str s' = slice (str s) (int p) (- 1)"
    using sdsrange_spec[of s "int p" "- 1"] ok l p by (auto simp: sdslen_def)
  have "slice (str s) (int p) (- 1) = drop p (str s)"
  proof (cases "str s = []")
    case False
    then have "0 < length (str s)" by simp
    then have "nat (min (max 0 (int (length (str s)) + - 1)) (int (length (str s)) - 1) - int p + 1) = length (str s) - p"
      by (simp add: max_def min_def nat_diff_distrib')
    then show ?thesis by (simp add: slice_def Let_def)
  qed (simp add: slice_def)
  then show ?thesis using s' by auto
qed

lemma discard_at:
  assumes "rerr c = 0" and h: "holds s p x" and N: "sdslen s \<le> N"
  shows "\<exists>r. discard (with_buf (Some s) p (sdslen s) c) = Some r \<and> at r N x c"
proof (cases "p \<ge> 1024")
  case False
  then show ?thesis using assms by (auto simp: discard_def at_def with_buf_def)
next
  case True
  have ok: "sds_ok s" "sdslen s < 2 ^ 31" "p \<le> sdslen s" "x = drop p (str s)" using h by (auto simp: holds_def)
  obtain s' where s': "sdsrange s (int p) (- 1) = Some s'" "sds_ok s'" "str s' = x"
    using sdsrange_tail[OF ok(1-3)] ok(4) by auto
  have "sdslen s' = length x" using s' by (metis length_str sdslen_def)
  moreover have "length x \<le> sdslen s" using ok by (simp add: sdslen_def)
  ultimately have "holds s' 0 x" "sdslen s' \<le> N" using s' h N by (auto simp: holds_def)
  moreover have "int32 (int p) = int p" using ok by simp
  ultimately show ?thesis using True s'(1) assms(1)
    by (auto simp: discard_def at_def with_buf_def intro!: exI[of _ s'] exI[of _ 0])
qed

lemma Feed_at:
  assumes a: "at r N x c" and t: "t \<noteq> []" and N: "N + length t < 2 ^ 31 - 2" and mal: "never_null mal"
  shows "\<exists>r'. redisReaderFeed mal r (Some t) (length t) = Some (REDIS_OK, r') \<and> at r' (N + length t) (x @ t) c
    \<and> rlen r' \<noteq> 0"
proof -
  obtain s p where s: "r = with_buf (Some s) p (sdslen s) c" "holds s p x" "sdslen s \<le> N" and c: "rerr c = 0"
    using a by (auto simp: at_def)
  obtain e where e: "sdsempty mal = Some (Some e)" "sds_ok e" "str e = []"
    using sdsempty_gives[of mal] mal unfolding gives_def never_null_def by blast
  have r: "rerr r = 0" "rlen r = sdslen s" "rbuf r = Some s" using s c by (simp_all add: with_buf_def)
  obtain s1 p1 where s1: "(if rlen r = 0 \<and> maxbuf r \<noteq> 0 \<and> sdsavail s > maxbuf r
      then sdsempty mal \<bind> (\<lambda>b. b \<bind> (\<lambda>b. Some (r\<lparr>rbuf := Some b, rpos := 0\<rparr>))) else Some r)
      = Some (with_buf (Some s1) p1 (sdslen s1) c)" "holds s1 p1 x" "sdslen s1 \<le> N"
  proof (cases "rlen r = 0 \<and> maxbuf r \<noteq> 0 \<and> sdsavail s > maxbuf r")
    case True
    have "sdslen e = 0" using e by (metis length_str list.size(3) sdslen_def)
    moreover have "x = []" using holds_facts(1)[OF s(2)] True r by simp
    ultimately show thesis
      using that[of e 0] True e s c r by (auto simp: holds_def with_buf_def)
  next
    case False
    show thesis by (rule that[of s p]) (simp_all only: if_not_P[OF False] s(1)[symmetric] s(2,3))
  qed
  have ok: "sds_ok s1" using s1(2) by (simp add: holds_def)
  have "small (Sds.len s1 + length t)" using s1(3) N by (simp add: small_def sdslen_def)
  then have "gives mal (sdscatlen mal s1 t (length t)) (str s1 @ t)"
    using sdscatlen_gives[OF ok, of "length t" t mal] by simp
  then obtain s2 where s2: "sdscatlen mal s1 t (length t) = Some (Some s2)" "sds_ok s2" "str s2 = str s1 @ t"
    using mal unfolding gives_def never_null_def by blast
  have l2: "sdslen s2 = sdslen s1 + length t" using s2 ok by (metis length_append length_str sdslen_def)
  have "holds s2 p1 (x @ t)" using s1(2,3) s2 l2 N by (auto simp: holds_def sdslen_def)
  moreover have "redisReaderFeed mal r (Some t) (length t) = Some (REDIS_OK, with_buf (Some s2) p1 (sdslen s2) c)"
    using r t s1(1) s2(1) c unfolding redisReaderFeed_def by (simp add: with_buf_def)
  moreover have "rlen (with_buf (Some s2) p1 (sdslen s2) c) \<noteq> 0" using l2 c t by (simp add: with_buf_def)
  moreover have "sdslen s2 \<le> N + length t" using l2 s1(3) by simp
  ultimately show ?thesis using c unfolding at_def by blast
qed


context object_functions
begin

text \<open>Asking for a reply.\<close>

lemma GetReply_at:
  assumes a: "at r N x c" and F: "fn c = F" and r0: "rlen r \<noteq> 0" and st: "rstack c \<noteq> []"
    and run: "arun x (start c) = Some (y, d)" and d: "rerr d = 0"
  shows "\<exists>r'. redisReaderGetReply r = Some (REDIS_OK, if ridx d = - 1 then reply d else 0, r')
    \<and> at r' N y (if ridx d = - 1 then d\<lparr>reply := 0\<rparr> else d)"
proof -
  obtain s p where s: "r = with_buf (Some s) p (sdslen s) c" "holds s p x" "sdslen s \<le> N" and c: "rerr c = 0"
    using a by (auto simp: at_def)
  have begin': "(if ridx r = - 1 then wr (rstack r) 0 root_task \<bind> (\<lambda>st. Some (r\<lparr>rstack := st, ridx := 0\<rparr>)) else Some r)
      = Some (with_buf (Some s) p (sdslen s) (start c))"
    using s st by (simp add: start_def)
  have y: "suffix y x" using arun_more[of "start c" x "[]"] c run by (simp split: if_splits)
  obtain r2 where r2: "discard (with_buf (Some s) (sdslen s - length y) (sdslen s) d) = Some r2" "at r2 N y d"
    using discard_at[OF d holds_suffix[OF s(2) y] s(3)] by auto
  have loop: "reply_while (with_buf (Some s) p (sdslen s) (start c)) = Some (with_buf (Some s) (sdslen s - length y) (sdslen s) d)"
    using loop_refines[OF _ _ s(2), of "start c"] c F run by simp
  have rr: "rerr r = 0" using s c by simp
  have "ridx r2 = ridx d" "reply r2 = reply d" using r2(2) by (auto simp: at_def)
  then have g: "redisReaderGetReply r = (if ridx d = - 1 then Some (REDIS_OK, reply d, r2\<lparr>reply := 0\<rparr>) else Some (REDIS_OK, 0, r2))"
    unfolding redisReaderGetReply_def begin' using rr loop r2(1) r0 d by simp
  moreover have "at (r2\<lparr>reply := 0\<rparr>) N y (d\<lparr>reply := 0\<rparr>)"
  proof -
    obtain s' p' where "r2 = with_buf (Some s') p' (sdslen s') d" "holds s' p' y" "sdslen s' \<le> N"
      using r2(2) by (auto simp: at_def)
    then show ?thesis using d unfolding at_def
      by (intro conjI exI[of _ s'] exI[of _ p']) simp_all
  qed
  ultimately show ?thesis using r2(2) by (cases "ridx d = - 1") simp_all
qed

text \<open>
  The whole input \<open>x\<close> makes the abstract parser finish with the reader \<open>cf\<close>; then every way to cut it
  gives null pointers and, after the last chunk, the reply.
\<close>

lemma session_run:
  assumes "at r N x c" and "fn c = F" and "rstack c \<noteq> []" and "ts \<noteq> []" and "\<forall>t\<in>set ts. t \<noteq> []"
    and "N + length (concat ts) < 2 ^ 31 - 2" and mal: "never_null mal"
    and run: "arun (x @ concat ts) (start c) = Some ([], cf)" "ridx cf = - 1" "rerr cf = 0"
  shows "\<exists>r'. session mal r ts = Some (replicate (length ts - 1) 0 @ [reply cf], r')
    \<and> at r' (N + length (concat ts)) [] (cf\<lparr>reply := 0\<rparr>)"
  using assms(1-6) run(1)
proof (induction ts arbitrary: r N x c)
  case Nil
  then show ?case by simp
next
  case (Cons t ts)
  have t: "t \<noteq> []" "N + length t < 2 ^ 31 - 2" using Cons.prems by auto
  obtain r1 where r1: "redisReaderFeed mal r (Some t) (length t) = Some (REDIS_OK, r1)"
    "at r1 (N + length t) (x @ t) c" "rlen r1 \<noteq> 0"
    using Feed_at[OF Cons.prems(1) t mal] by auto
  have c0: "rerr (start c) = 0" using Cons.prems(1) by (simp add: at_def)
  note M = arun_more[OF c0, of "x @ t" "concat ts"]
  obtain y d where yd: "arun (x @ t) (start c) = Some (y, d)"
    using M Cons.prems(7) by (cases "arun (x @ t) (start c)") auto
  have d: "rerr d = 0" "fn d = F" "arun (y @ concat ts) d = Some ([], cf)"
    using M yd Cons.prems(2,7) run(3) by (auto split: if_splits)
  obtain r2 where r2: "redisReaderGetReply r1 = Some (REDIS_OK, if ridx d = - 1 then reply d else 0, r2)"
    "at r2 (N + length t) y (if ridx d = - 1 then d\<lparr>reply := 0\<rparr> else d)"
    using GetReply_at[OF r1(2) Cons.prems(2) r1(3) Cons.prems(3) yd d(1)] by auto
  show ?case
  proof (cases "ts = []")
    case True
    then have "y = []" "d = cf" using Cons.prems(7) yd by auto
    then show ?thesis using r1(1) r2 True run(2) by simp
  next
    case False
    have nd: "\<not> ridx d < 0"
    proof
      assume neg: "ridx d < 0"
      then have "arun (y @ concat ts) d = Some (y @ concat ts, d)" by (simp add: arun.simps[of _ d])
      then have "concat ts = []" using d(3) by simp
      then show False using False Cons.prems(5) by (cases ts) auto
    qed
    have "length (rstack d) = length (rstack c)" using M yd by (simp add: start_def split: if_splits)
    then have "rstack d \<noteq> []" using Cons.prems(3) by auto
    moreover have "start d = d" using nd by (simp add: start_def)
    ultimately obtain r' where "session mal r2 ts = Some (replicate (length ts - 1) 0 @ [reply cf], r')"
      "at r' (N + length t + length (concat ts)) [] (cf\<lparr>reply := 0\<rparr>)"
      using Cons.IH[of r2 "N + length t" y d] r2(2) nd d False Cons.prems(5,6) by auto
    moreover have "ridx d \<noteq> - 1" using nd by linarith
    ultimately show ?thesis using r1(1) r2(1) False
      by (cases ts) (auto simp: ac_simps)
  qed
qed

end

end
