(* ===== verification/Reply.thy ===== *)
theory Reply
  imports Read_Session
begin

text \<open>
  The reply objects of \<^verbatim>\<open>9_using_hiredis_api/hiredis/hiredis.c\<close>: the default functions of a reader
  and the freeing of a reply. An object is an address, the heap a list of cells: address
  \<open>i + 1\<close> is cell \<open>i\<close>, a freed cell is \<^term>\<open>None\<close>. \<open>mem n\<close> says whether an allocation of \<open>n\<close> bytes
  succeeds.
\<close>

record redisReply =
  rtype :: int
  integer :: int
  rlength :: nat
  rstr :: "string option"
  relements :: nat
  element :: "nat list option"

type_synonym heap = "redisReply option list"

definition deref :: "heap \<Rightarrow> nat \<Rightarrow> redisReply option" where
  "deref h p = (if p = 0 then None else rd h (p - 1) \<bind> (\<lambda>c. c))"

definition store :: "heap \<Rightarrow> nat \<Rightarrow> redisReply \<Rightarrow> heap option" where
  "store h p r = (case deref h p of None \<Rightarrow> None | Some _ \<Rightarrow> Some (h[p - 1 := Some r]))"

definition createReplyObject :: "(nat \<Rightarrow> bool) \<Rightarrow> int \<Rightarrow> heap \<Rightarrow> nat \<times> heap" where
  "createReplyObject mem ty h =
     (if \<not> mem 48 then (0, h)
      else (length h + 1, h @ [Some \<lparr>rtype = ty, integer = 0, rlength = 0, rstr = None, relements = 0, element = None\<rparr>]))"

text \<open>
  \<^verbatim>\<open>freeReplyObject\<close>: the calls and \<^verbatim>\<open>free\<close>s that are still to be made are a stack of \<open>work\<close>.
\<close>

datatype work = Call nat | Release nat

partial_function (option) free_while :: "work list \<Rightarrow> heap \<Rightarrow> heap option" where
  "free_while ws h =
     (case ws of
        [] \<Rightarrow> Some h
      | Call p # ws \<Rightarrow>
          if p = 0 then free_while ws h
          else (case deref h p of
                  None \<Rightarrow> None
                | Some r \<Rightarrow>
                    if rtype r = REDIS_REPLY_ARRAY
                    then (case element r of
                            None \<Rightarrow> free_while (Release p # ws) h
                          | Some es \<Rightarrow>
                              if length es < relements r then None
                              else free_while (map Call (take (relements r) es) @ Release p # ws) h)
                    else free_while (Release p # ws) h)
      | Release p # ws \<Rightarrow>
          (case deref h p of None \<Rightarrow> None | Some r \<Rightarrow> free_while ws (h[p - 1 := None])))"

definition freeReplyObject :: "nat \<Rightarrow> heap \<Rightarrow> heap option" where
  "freeReplyObject p h = free_while [Call p] h"

text \<open>\<^verbatim>\<open>parent->element[task->idx] = r\<close>, when the task has a parent.\<close>

definition link_parent :: "redisReadTask list \<Rightarrow> nat \<Rightarrow> nat \<Rightarrow> heap \<Rightarrow> heap option" where
  "link_parent st i p h =
     rd st i \<bind> (\<lambda>task. case parent task of
       None \<Rightarrow> Some h
     | Some j \<Rightarrow> rd st j \<bind> (\<lambda>ptask. deref h (obj ptask) \<bind> (\<lambda>par.
         if rtype par \<noteq> REDIS_REPLY_ARRAY \<or> idx task < 0 then None
         else element par \<bind> (\<lambda>es. wr es (nat (idx task)) p \<bind> (\<lambda>es.
           store h (obj ptask) (par\<lparr>element := Some es\<rparr>))))))"

definition createStringObject ::
  "(nat \<Rightarrow> bool) \<Rightarrow> redisReadTask list \<Rightarrow> nat \<Rightarrow> string \<Rightarrow> nat \<Rightarrow> heap \<Rightarrow> (nat \<times> heap) option" where
  "createStringObject mem st i s n h =
     rd st i \<bind> (\<lambda>task.
       (case createReplyObject mem (ttype task) h of (r, h) \<Rightarrow>
          if r = 0 then Some (0, h)
          else if \<not> mem (n + 1) then freeReplyObject r h \<bind> (\<lambda>h. Some (0, h))
          else if ttype task \<notin> {REDIS_REPLY_ERROR, REDIS_REPLY_STATUS, REDIS_REPLY_STRING} then None
          else blit (replicate (n + 1) NUL) 0 s n \<bind> (\<lambda>bf. deref h r \<bind> (\<lambda>c.
                 store h r (c\<lparr>rstr := Some bf, rlength := n\<rparr>) \<bind> (\<lambda>h.
                 link_parent st i r h \<bind> (\<lambda>h. Some (r, h)))))))"

definition createArrayObject ::
  "(nat \<Rightarrow> bool) \<Rightarrow> redisReadTask list \<Rightarrow> nat \<Rightarrow> int \<Rightarrow> heap \<Rightarrow> (nat \<times> heap) option" where
  "createArrayObject mem st i n h =
     (case createReplyObject mem REDIS_REPLY_ARRAY h of (r, h) \<Rightarrow>
        if r = 0 then Some (0, h)
        else if n > 0 \<and> \<not> mem (nat n * 8) then freeReplyObject r h \<bind> (\<lambda>h. Some (0, h))
        else deref h r \<bind> (\<lambda>c.
               store h r (c\<lparr>element := (if n > 0 then Some (replicate (nat n) 0) else element c),
                            relements := size_t n\<rparr>) \<bind> (\<lambda>h.
               link_parent st i r h \<bind> (\<lambda>h. Some (r, h)))))"

definition createIntegerObject ::
  "(nat \<Rightarrow> bool) \<Rightarrow> redisReadTask list \<Rightarrow> nat \<Rightarrow> int \<Rightarrow> heap \<Rightarrow> (nat \<times> heap) option" where
  "createIntegerObject mem st i v h =
     (case createReplyObject mem REDIS_REPLY_INTEGER h of (r, h) \<Rightarrow>
        if r = 0 then Some (0, h)
        else deref h r \<bind> (\<lambda>c. store h r (c\<lparr>integer := v\<rparr>) \<bind> (\<lambda>h.
               link_parent st i r h \<bind> (\<lambda>h. Some (r, h)))))"

definition createNilObject ::
  "(nat \<Rightarrow> bool) \<Rightarrow> redisReadTask list \<Rightarrow> nat \<Rightarrow> heap \<Rightarrow> (nat \<times> heap) option" where
  "createNilObject mem st i h =
     (case createReplyObject mem REDIS_REPLY_NIL h of (r, h) \<Rightarrow>
        if r = 0 then Some (0, h)
        else link_parent st i r h \<bind> (\<lambda>h. Some (r, h)))"

definition defaultFunctions :: "(nat \<Rightarrow> bool) \<Rightarrow> heap redisReplyObjectFunctions" where
  "defaultFunctions mem =
     \<lparr>createString = Some (createStringObject mem), createArray = Some (createArrayObject mem),
      createInteger = Some (createIntegerObject mem), createNil = Some (createNilObject mem),
      freeObject = Some freeReplyObject\<rparr>"

definition redisReaderCreate :: "(nat \<Rightarrow> bool) \<Rightarrow> allocator \<Rightarrow> heap \<Rightarrow> heap redisReader option option" where
  "redisReaderCreate mem mal h = redisReaderCreateWithFunctions mal (mem 560) (defaultFunctions mem) h"

lemmas reply_loops [code] = free_while.simps

text \<open>The line ends of the redis protocol.\<close>

definition CRLF :: string where
  "CRLF = [CHR 0x0d, CHR 0x0a]"

end
