(* ===== verification/Reply_Laws.thy ===== *)
theory Reply_Laws
  imports Reply
begin

text \<open>
  What a reader with the default functions makes of the replies of a server: \<open>encode\<close> writes a
  reply tree in the redis protocol, \<open>tree_at\<close> reads one back from the objects in the heap.
\<close>

subsection \<open>Reply trees\<close>

datatype reply_tree = Status string | Error string | Integer int | Null | Bulk string | Multi "reply_tree list"

fun encode :: "reply_tree \<Rightarrow> string" where
  "encode (Status s) = ''+'' @ s @ CRLF"
| "encode (Error s) = ''-'' @ s @ CRLF"
| "encode (Integer v) = '':'' @ decimal v @ CRLF"
| "encode Null = ''$-1'' @ CRLF"
| "encode (Bulk s) = ''$'' @ dec (length s) @ CRLF @ s @ CRLF"
| "encode (Multi rs) = ''*'' @ dec (length rs) @ CRLF @ concat (map encode rs)"

text \<open>Replies that the protocol can carry, at a nesting level that the reader supports.\<close>

fun fits :: "nat \<Rightarrow> reply_tree \<Rightarrow> bool" where
  "fits l (Status s) = (CHR 0x0d \<notin> set s)"
| "fits l (Error s) = (CHR 0x0d \<notin> set s)"
| "fits l (Integer v) = (- (2 ^ 63) \<le> v \<and> v < 2 ^ 63)"
| "fits l Null = True"
| "fits l (Bulk s) = (length s < 2 ^ 31)"
| "fits l (Multi rs) = (l \<le> 7 \<and> length rs < 2 ^ 31 \<and> (\<forall>r\<in>set rs. fits (Suc l) r))"

fun tree_at :: "nat \<Rightarrow> heap \<Rightarrow> nat \<Rightarrow> reply_tree option" where
  "tree_at 0 h p = None"
| "tree_at (Suc n) h p =
     deref h p \<bind> (\<lambda>c.
       if rtype c = REDIS_REPLY_ARRAY
       then (case element c of
               None \<Rightarrow> if relements c = 0 then Some (Multi []) else None
             | Some es \<Rightarrow> map_option Multi (those (map (tree_at n h) (take (relements c) es))))
       else if rtype c = REDIS_REPLY_INTEGER then Some (Integer (integer c))
       else if rtype c = REDIS_REPLY_NIL then Some Null
       else rstr c \<bind> (\<lambda>s.
         if s ! rlength c \<noteq> NUL then None
         else if rtype c = REDIS_REPLY_STRING then Some (Bulk (take (rlength c) s))
         else if rtype c = REDIS_REPLY_STATUS then Some (Status (take (rlength c) s))
         else Some (Error (take (rlength c) s))))"

subsection \<open>The layout of a reply in the heap\<close>

fun cells :: "reply_tree \<Rightarrow> nat" where
  "cells (Multi rs) = Suc (sum_list (map cells rs))"
| "cells _ = 1"

fun addrs :: "nat \<Rightarrow> reply_tree list \<Rightarrow> nat list" where
  "addrs a [] = []"
| "addrs a (r # rs) = a # addrs (a + cells r) rs"

definition text_cell :: "int \<Rightarrow> string \<Rightarrow> redisReply" where
  "text_cell ty s = \<lparr>rtype = ty, integer = 0, rlength = length s, rstr = Some (cstr s), relements = 0, element = None\<rparr>"

definition array_cell :: "nat \<Rightarrow> nat list \<Rightarrow> redisReply" where
  "array_cell n es = \<lparr>rtype = REDIS_REPLY_ARRAY, integer = 0, rlength = 0, rstr = None, relements = n,
     element = (if n = 0 then None else Some es)\<rparr>"

function (sequential) layout :: "nat \<Rightarrow> reply_tree \<Rightarrow> redisReply list"
  and layouts :: "nat \<Rightarrow> reply_tree list \<Rightarrow> redisReply list" where
  "layout a (Status s) = [text_cell REDIS_REPLY_STATUS s]"
| "layout a (Error s) = [text_cell REDIS_REPLY_ERROR s]"
| "layout a (Integer v) = [\<lparr>rtype = REDIS_REPLY_INTEGER, integer = v, rlength = 0, rstr = None, relements = 0, element = None\<rparr>]"
| "layout a Null = [\<lparr>rtype = REDIS_REPLY_NIL, integer = 0, rlength = 0, rstr = None, relements = 0, element = None\<rparr>]"
| "layout a (Bulk s) = [text_cell REDIS_REPLY_STRING s]"
| "layout a (Multi rs) = array_cell (length rs) (addrs (a + 1) rs) # layouts (a + 1) rs"
| "layouts a [] = []"
| "layouts a (r # rs) = layout a r @ layouts (a + cells r) rs"
  by pat_completeness auto
termination by (relation "measure (case_sum (\<lambda>(a, r). 2 * size r) (\<lambda>(a, rs). 2 * size_list size rs + 1))") auto

lemma length_layout: "length (layout a r) = cells r" "length (layouts a rs) = sum_list (map cells rs)"
  by (induction a r and a rs rule: layout_layouts.induct) auto

lemma cells_pos [simp]: "0 < cells r"
  by (cases r) auto

lemma length_addrs [simp]: "length (addrs a rs) = length rs"
  by (induction rs arbitrary: a) auto

lemma deref_app: "0 < p \<Longrightarrow> deref (h @ g) p = (if p \<le> length h then deref h p else deref g (p - length h))"
  by (auto simp: deref_def rd_def nth_append)

subsection \<open>Freeing\<close>

lemma free_leaf:
  assumes "rtype c \<noteq> REDIS_REPLY_ARRAY" and "p = length h + 1"
  shows "free_while (Call p # ws) (h @ Some c # g) = free_while ws (h @ None # g)"
  using assms
  by (subst free_while.simps, subst free_while.simps) (simp add: deref_def)

lemma free_layout:
  "a = length h + 1 \<Longrightarrow> free_while (Call a # ws) (h @ map Some (layout a r) @ g) = free_while ws (h @ replicate (cells r) None @ g)"
  "b = length k + 1 \<Longrightarrow> free_while (map Call (addrs b rs) @ ws) (k @ map Some (layouts b rs) @ g)
     = free_while ws (k @ replicate (sum_list (map cells rs)) None @ g)"
proof (induction a r and b rs arbitrary: h ws g and k ws g rule: layout_layouts.induct)
  case (6 a rs)
  let ?c = "array_cell (length rs) (addrs (a + 1) rs)"
  let ?h = "h @ [Some ?c]"
  have d: "deref (h @ Some ?c # z) a = Some ?c" for z using 6 by (simp add: deref_def)
  have rel: "free_while (Release a # ws) (h @ Some ?c # z) = free_while ws (h @ None # z)" for z
    using d[of z] 6 by (subst free_while.simps) simp
  show ?case
  proof (cases "rs = []")
    case True
    then have "element ?c = None" by (simp add: array_cell_def)
    then have "free_while (Call a # ws) (h @ Some ?c # g) = free_while (Release a # ws) (h @ Some ?c # g)"
      using d[of g] 6 by (subst free_while.simps) (simp add: array_cell_def)
    then show ?thesis using True rel[of g] by simp
  next
    case False
    have "free_while (Call a # ws) (h @ Some ?c # map Some (layouts (a + 1) rs) @ g)
        = free_while (map Call (addrs (a + 1) rs) @ Release a # ws) (h @ Some ?c # map Some (layouts (a + 1) rs) @ g)"
      using d False 6(2) by (subst free_while.simps) (simp add: array_cell_def)
    also have "\<dots> = free_while (Release a # ws) (?h @ replicate (sum_list (map cells rs)) None @ g)"
      using 6(1)[of ?h "Release a # ws" g] 6(2) by simp
    also have "\<dots> = free_while ws (h @ None # replicate (sum_list (map cells rs)) None @ g)"
      using rel by simp
    finally show ?thesis by simp
  qed
next
  case (8 b r rs)
  have "free_while (Call b # map Call (addrs (b + cells r) rs) @ ws) (k @ map Some (layout b r) @ map Some (layouts (b + cells r) rs) @ g)
      = free_while (map Call (addrs (b + cells r) rs) @ ws) (k @ replicate (cells r) None @ map Some (layouts (b + cells r) rs) @ g)"
    by (rule 8(1)) (rule 8(3))
  also have "\<dots> = free_while ws ((k @ replicate (cells r) None) @ replicate (sum_list (map cells rs)) None @ g)"
    using 8(2)[of "k @ replicate (cells r) None" ws g] 8(3) by simp
  finally show ?case by (simp add: replicate_add)
qed (simp_all add: free_leaf text_cell_def)

lemma freeReplyObject_layout:
  "freeReplyObject (length h + 1) (h @ map Some (layout (length h + 1) r)) = Some (h @ replicate (cells r) None)"
  using free_layout(1)[OF refl, of h "[]" r "[]"] by (simp add: freeReplyObject_def free_while.simps)

subsection \<open>Reading the layout back\<close>

fun depth :: "reply_tree \<Rightarrow> nat" where
  "depth (Multi rs) = Suc (foldr (\<lambda>r m. max (depth r) m) rs 0)"
| "depth _ = 1"

lemma depth_in: "r \<in> set rs \<Longrightarrow> depth r \<le> foldr (\<lambda>r m. max (depth r) m) rs 0"
  by (induction rs) auto

lemma those_map: "those (map f xs) = Some ys \<longleftrightarrow> map f xs = map Some ys"
proof (induction xs arbitrary: ys)
  case (Cons x xs)
  then show ?case by (cases "f x"; cases ys) (auto split: option.split)
qed auto

lemma tree_at_layout:
  "a = length h + 1 \<Longrightarrow> depth r \<le> n \<Longrightarrow> tree_at n (h @ map Some (layout a r) @ g) a = Some r"
  "b = length k + 1 \<Longrightarrow> \<forall>r\<in>set rs. depth r \<le> n \<Longrightarrow> map (tree_at n (k @ map Some (layouts b rs) @ g)) (addrs b rs) = map Some rs"
proof (induction a r and b rs arbitrary: h n g and k n g rule: layout_layouts.induct)
  case (6 a rs)
  obtain m where n: "n = Suc m" using 6(3) by (cases n) auto
  let ?c = "array_cell (length rs) (addrs (a + 1) rs)"
  have d: "deref (h @ Some ?c # z) a = Some ?c" for z using 6 by (simp add: deref_def)
  have "map (tree_at m ((h @ [Some ?c]) @ map Some (layouts (a + 1) rs) @ g)) (addrs (a + 1) rs) = map Some rs"
    using 6(2,3) n depth_in[of _ rs] by (intro 6(1)) (auto intro: le_trans)
  then have "those (map (tree_at m (h @ Some ?c # map Some (layouts (a + 1) rs) @ g)) (addrs (a + 1) rs)) = Some rs"
    unfolding those_map by simp
  then show ?case using d[of "map Some (layouts (a + 1) rs) @ g"] n by (auto simp: array_cell_def)
next
  case (8 b r rs)
  have "tree_at n (k @ map Some (layout b r) @ map Some (layouts (b + cells r) rs) @ g) b = Some r"
    using 8(3,4) by (intro 8(1)) auto
  moreover have "map (tree_at n ((k @ map Some (layout b r)) @ map Some (layouts (b + cells r) rs) @ g)) (addrs (b + cells r) rs) = map Some rs"
    using 8(3,4) by (intro 8(2)) (auto simp: length_layout)
  ultimately show ?case by simp
qed (auto simp: text_cell_def deref_def Suc_le_eq gr0_conv_Suc cstr_def)


subsection \<open>The default functions\<close>

interpretation df: object_functions "defaultFunctions mem" for mem
proof unfold_locales
  fix f :: "redisReadTask list \<Rightarrow> nat \<Rightarrow> string \<Rightarrow> nat \<Rightarrow> heap \<Rightarrow> (nat \<times> heap) option"
    and n :: nat and p :: string and st i h
  assume "createString (defaultFunctions mem) = Some f" and n: "n \<le> length p"
  then have f: "f = createStringObject mem" by (simp add: defaultFunctions_def)
  have eq: "blit b 0 (take n p) n = blit b 0 p n" for b :: string using n by (simp add: blit_def)
  show "f st i (take n p) n h = f st i p n h" unfolding f createStringObject_def eq ..
qed (simp_all add: defaultFunctions_def)

text \<open>
  \<open>linkable st l h g\<close>: an object created for the task at level \<open>l\<close>, with the next free address,
  can be put into its parent, which makes \<open>g\<close> of the heap \<open>h\<close>.
\<close>

definition linkable :: "redisReadTask list \<Rightarrow> nat \<Rightarrow> heap \<Rightarrow> heap \<Rightarrow> bool" where
  "linkable st l h g \<longleftrightarrow> l < length st \<and> (case parent (st ! l) of
       None \<Rightarrow> g = h
     | Some j \<Rightarrow> j < l \<and> (\<exists>par es. deref h (obj (st ! j)) = Some par \<and> rtype par = REDIS_REPLY_ARRAY
         \<and> element par = Some es \<and> 0 \<le> idx (st ! l) \<and> nat (idx (st ! l)) < length es
         \<and> g = h[obj (st ! j) - 1 := Some (par\<lparr>element := Some (es[nat (idx (st ! l)) := length h + 1])\<rparr>)]))"

lemma deref_bound: "deref h p = Some c \<Longrightarrow> 0 < p \<and> p \<le> length h"
  by (auto simp: deref_def rd_def split: if_splits)

lemma link_linkable:
  assumes "linkable st l h g"
  shows "link_parent st l (length h + 1) (h @ [Some c]) = Some (g @ [Some c]) \<and> length g = length h"
proof (cases "parent (st ! l)")
  case None
  then show ?thesis using assms by (simp add: linkable_def link_parent_def)
next
  case (Some j)
  then obtain par es where p: "j < l" "l < length st" "deref h (obj (st ! j)) = Some par" "rtype par = REDIS_REPLY_ARRAY"
    "element par = Some es" "0 \<le> idx (st ! l)" "nat (idx (st ! l)) < length es"
    "g = h[obj (st ! j) - 1 := Some (par\<lparr>element := Some (es[nat (idx (st ! l)) := length h + 1])\<rparr>)]"
    using assms by (auto simp: linkable_def)
  have b: "0 < obj (st ! j)" "obj (st ! j) \<le> length h" "obj (st ! j) - Suc 0 < length h"
    using deref_bound[OF p(3)] by auto
  have "deref (h @ [Some c]) (obj (st ! j)) = Some par" using p(3) b by (simp add: deref_app)
  then show ?thesis using Some p b by (simp add: link_parent_def store_def list_update_append)
qed

lemma create_ok:
  assumes l: "linkable st l h g" and mem: "\<forall>n. mem n"
  shows "n \<le> length p \<Longrightarrow> ttype (st ! l) \<in> {REDIS_REPLY_ERROR, REDIS_REPLY_STATUS, REDIS_REPLY_STRING} \<Longrightarrow>
      createStringObject mem st l p n h = Some (length h + 1, g @ [Some (text_cell (ttype (st ! l)) (take n p))])"
    and "createIntegerObject mem st l v h = Some (length h + 1, g @
      [Some \<lparr>rtype = REDIS_REPLY_INTEGER, integer = v, rlength = 0, rstr = None, relements = 0, element = None\<rparr>])"
    and "createNilObject mem st l h = Some (length h + 1, g @
      [Some \<lparr>rtype = REDIS_REPLY_NIL, integer = 0, rlength = 0, rstr = None, relements = 0, element = None\<rparr>])"
    and "k < 2 ^ 31 \<Longrightarrow> createArrayObject mem st l (int k) h
      = Some (length h + 1, g @ [Some (array_cell k (replicate k 0))])"
proof -
  note L = link_linkable[OF l]
  have d: "deref (h @ [Some c]) (length h + 1) = Some c" for c by (simp add: deref_def)
  have s: "store (h @ [Some c]) (length h + 1) c' = Some (h @ [Some c'])" for c c'
    using d[of c] by (simp add: store_def)
  have ll: "l < length st" using l by (simp add: linkable_def)
  show "createIntegerObject mem st l v h = Some (length h + 1, g @
      [Some \<lparr>rtype = REDIS_REPLY_INTEGER, integer = v, rlength = 0, rstr = None, relements = 0, element = None\<rparr>])"
    using L d s mem by (simp add: createIntegerObject_def createReplyObject_def)
  show "createNilObject mem st l h = Some (length h + 1, g @
      [Some \<lparr>rtype = REDIS_REPLY_NIL, integer = 0, rlength = 0, rstr = None, relements = 0, element = None\<rparr>])"
    using L d s mem by (simp add: createNilObject_def createReplyObject_def)
  show "createArrayObject mem st l (int k) h = Some (length h + 1, g @ [Some (array_cell k (replicate k 0))])" if "k < 2 ^ 31"
    using L d s mem that by (simp add: createArrayObject_def createReplyObject_def array_cell_def)
  show "createStringObject mem st l p n h = Some (length h + 1, g @ [Some (text_cell (ttype (st ! l)) (take n p))])"
    if "n \<le> length p" "ttype (st ! l) \<in> {REDIS_REPLY_ERROR, REDIS_REPLY_STATUS, REDIS_REPLY_STRING}"
    using L d s mem that ll
    by (simp add: createStringObject_def createReplyObject_def text_cell_def cstr_def replicate_append_same[symmetric])
qed

subsection \<open>Parsing the encoding of a reply\<close>

text \<open>
  \<open>made c l ob g d\<close>: the reader \<open>d\<close> is \<open>c\<close> after the task at level \<open>l\<close> made the object \<open>ob\<close>, before it
  moves to the next task; the task keeps its index and its parent.
\<close>

definition made :: "heap redisReader \<Rightarrow> nat \<Rightarrow> nat \<Rightarrow> heap \<Rightarrow> heap redisReader \<Rightarrow> bool" where
  "made c l ob g d \<longleftrightarrow> ridx d = int l \<and> objs d = g \<and> rerr d = 0 \<and> fn d = fn c
     \<and> reply d = (if l = 0 then ob else reply c) \<and> length (rstack d) = length (rstack c)
     \<and> take l (rstack d) = take l (rstack c)
     \<and> idx (rstack d ! l) = idx (rstack c ! l) \<and> parent (rstack d ! l) = parent (rstack c ! l)"

text \<open>A reader at the start of an item of level \<open>l\<close>.\<close>

definition ready :: "(nat \<Rightarrow> bool) \<Rightarrow> heap redisReader \<Rightarrow> nat \<Rightarrow> bool" where
  "ready mem c l \<longleftrightarrow> ridx c = int l \<and> l < length (rstack c) \<and> length (rstack c) = 9 \<and> ttype (rstack c ! l) = - 1
     \<and> rerr c = 0 \<and> fn c = defaultFunctions mem"

lemma ready_cur: "ready mem c l \<Longrightarrow> cur_task c = Some (rstack c ! l)"
  by (simp add: ready_def cur_task_def)

lemma linkable_ttype: "linkable st l h g \<Longrightarrow> linkable (st[l := (st ! l)\<lparr>ttype := ty\<rparr>]) l h g"
  by (auto simp: linkable_def split: option.splits)

lemma arun_item:
  assumes "ready mem c l" and "reply_type ch = Some ty"
    and "atyped x (set_cur c ((rstack c ! l)\<lparr>ttype := ty\<rparr>)) = map_option (\<lambda>d. (REDIS_OK, y, d)) (moveToNextTask d)"
    and "length y \<le> length x"
  shows "arun (ch # x) c = moveToNextTask d \<bind> arun y"
proof -
  have "ttype (rstack c ! l) < 0" "\<not> ridx c < 0" using assms(1) by (auto simp: ready_def)
  then show ?thesis using assms(2-4) ready_cur[OF assms(1)]
    by (subst arun.simps) (cases "moveToNextTask d", auto simp: aitem_def)
qed


definition leaf_of :: "heap redisReader \<Rightarrow> nat \<Rightarrow> int \<Rightarrow> nat \<Rightarrow> heap \<Rightarrow> heap redisReader" where
  "leaf_of c l ty ob g =
     (let d = (set_cur c ((rstack c ! l)\<lparr>ttype := ty\<rparr>))\<lparr>objs := g\<rparr> in if l = 0 then d\<lparr>reply := ob\<rparr> else d)"

lemma leaf_of_made: "ready mem c l \<Longrightarrow> made c l ob g (leaf_of c l ty ob g)"
  by (auto simp: made_def leaf_of_def Let_def ready_def set_cur_def)

lemma aleaf_leaf_of:
  "ready mem c l \<Longrightarrow> ob \<noteq> 0 \<Longrightarrow>
   aleaf y (Some (ob, (set_cur c ((rstack c ! l)\<lparr>ttype := ty\<rparr>))\<lparr>objs := g\<rparr>))
     = map_option (\<lambda>d. (REDIS_OK, y, d)) (moveToNextTask (leaf_of c l ty ob g))"
  by (cases "moveToNextTask (leaf_of c l ty ob g)")
    (auto simp: aleaf_def leaf_done_def leaf_of_def ready_def Let_def)

definition parses :: "(nat \<Rightarrow> bool) \<Rightarrow> nat \<Rightarrow> reply_tree \<Rightarrow> bool" where
  "parses mem l r \<longleftrightarrow> (\<forall>c g x. ready mem c l \<longrightarrow> linkable (rstack c) l (objs c) g \<longrightarrow>
     (\<exists>d. made c l (length (objs c) + 1) (g @ map Some (layout (length (objs c) + 1) r)) d
        \<and> arun (encode r @ x) c = moveToNextTask d \<bind> arun x))"

text \<open>The leaves.\<close>

lemma set_cur_cur: "ready mem c l \<Longrightarrow> cur_task (set_cur c t) = Some t"
  by (auto simp: ready_def set_cur_def cur_task_def)

lemma rstack_set_cur: "ready mem c l \<Longrightarrow> rstack (set_cur c t) = (rstack c)[l := t]"
  by (auto simp: ready_def set_cur_def)

lemma parses_leaf:
  assumes "reply_type ch = Some ty" and e: "\<And>x. encode r @ x = ch # t @ x"
    and p: "\<And>c g x. ready mem c l \<Longrightarrow> linkable (rstack c) l (objs c) g \<Longrightarrow>
      atyped (t @ x) (set_cur c ((rstack c ! l)\<lparr>ttype := ty\<rparr>))
        = aleaf x (Some (length (objs c) + 1, (set_cur c ((rstack c ! l)\<lparr>ttype := ty\<rparr>))
            \<lparr>objs := g @ map Some (layout (length (objs c) + 1) r)\<rparr>))"
  shows "parses mem l r"
  unfolding parses_def
proof (intro allI impI)
  fix c g x assume c: "ready mem c l" "linkable (rstack c) l (objs c) g"
  let ?d = "leaf_of c l ty (length (objs c) + 1) (g @ map Some (layout (length (objs c) + 1) r))"
  have "arun (encode r @ x) c = moveToNextTask ?d \<bind> arun x"
    unfolding e by (rule arun_item[OF c(1) assms(1)]) (simp_all add: p[OF c] aleaf_leaf_of[OF c(1)])
  then show "\<exists>d. made c l (length (objs c) + 1) (g @ map Some (layout (length (objs c) + 1) r)) d
      \<and> arun (encode r @ x) c = moveToNextTask d \<bind> arun x"
    using leaf_of_made[OF c(1)] by blast
qed

lemma ready_fn: "ready mem c l \<Longrightarrow> fn c = defaultFunctions mem" "ready mem c l \<Longrightarrow> nat (ridx c) = l"
  "ready mem c l \<Longrightarrow> l < length (rstack c)"
  by (simp_all add: ready_def)

lemma call_default:
  assumes c: "ready mem c l" and l: "linkable (rstack c) l (objs c) g" and mem: "\<forall>n. mem n"
  defines "t \<equiv> \<lambda>ty. set_cur c ((rstack c ! l)\<lparr>ttype := ty\<rparr>)"
  shows "ty \<in> {REDIS_REPLY_ERROR, REDIS_REPLY_STATUS, REDIS_REPLY_STRING} \<Longrightarrow>
      call_string (t ty) s (length s) ty' = Some (length (objs c) + 1, (t ty)\<lparr>objs := g @ [Some (text_cell ty s)]\<rparr>)"
    and "call_integer (t ty) v = Some (length (objs c) + 1, (t ty)\<lparr>objs := g @ map Some (layout (length (objs c) + 1) (Integer v))\<rparr>)"
    and "call_nil (t ty) = Some (length (objs c) + 1, (t ty)\<lparr>objs := g @ map Some (layout (length (objs c) + 1) Null)\<rparr>)"
    and "k < 2 ^ 31 \<Longrightarrow> call_array (t ty) (int k)
      = Some (length (objs c) + 1, (t ty)\<lparr>objs := g @ [Some (array_cell k (replicate k 0))]\<rparr>)"
proof -
  note L = linkable_ttype[OF l, of ty]
  have f: "fn (t ty) = defaultFunctions mem" "nat (ridx (t ty)) = l" "objs (t ty) = objs c"
    "rstack (t ty) = (rstack c)[l := (rstack c ! l)\<lparr>ttype := ty\<rparr>]"
    "l < length (rstack c)"
    using ready_fn[OF c] rstack_set_cur[OF c] by (simp_all add: t_def)
  show "call_string (t ty) s (length s) ty' = Some (length (objs c) + 1, (t ty)\<lparr>objs := g @ [Some (text_cell ty s)]\<rparr>)"
    if "ty \<in> {REDIS_REPLY_ERROR, REDIS_REPLY_STATUS, REDIS_REPLY_STRING}"
    using create_ok(1)[OF L mem, of "length s" s] that f(5)
    unfolding call_string_def f by (auto simp: defaultFunctions_def)
  show "call_integer (t ty) v = Some (length (objs c) + 1, (t ty)\<lparr>objs := g @ map Some (layout (length (objs c) + 1) (Integer v))\<rparr>)"
    using create_ok(2)[OF L mem, of v] unfolding call_integer_def f by (simp add: defaultFunctions_def)
  show "call_nil (t ty) = Some (length (objs c) + 1, (t ty)\<lparr>objs := g @ map Some (layout (length (objs c) + 1) Null)\<rparr>)"
    using create_ok(3)[OF L mem] unfolding call_nil_def f by (simp add: defaultFunctions_def)
  show "call_array (t ty) (int k) = Some (length (objs c) + 1, (t ty)\<lparr>objs := g @ [Some (array_cell k (replicate k 0))]\<rparr>)"
    if "k < 2 ^ 31"
    using create_ok(4)[OF L mem that] unfolding call_array_def f by (simp add: defaultFunctions_def)
qed

lemma CR_decimal: "CHR 0x0d \<notin> set (dec n)" "CHR 0x0d \<notin> set (decimal v)"
  using dec_digits[of "CHR 0x0d"] by (auto simp: decimal_def code_def)

lemma nl_text: "CHR 0x0d \<notin> set s \<Longrightarrow> nl (s @ CRLF @ x) = Some (length s)"
  by (simp add: CRLF_def nl_line)

lemma CRLF_facts [simp]: "length CRLF = 2" "drop 2 CRLF = []"
  by (simp_all add: CRLF_def)

lemma past_line: "drop (length s + 2) (s @ CRLF @ x) = x" "drop (length s + 2) ((s @ CRLF) @ x) = x"
    "nl ((s @ CRLF) @ x) = nl (s @ CRLF @ x)"
  by (simp_all add: CRLF_def)

lemma parses_status:
  assumes mem: "\<forall>n. mem n" and f: "fits l (Status s)"
  shows "parses mem l (Status s)"
proof (rule parses_leaf[of "CHR ''+''" REDIS_REPLY_STATUS _ "s @ CRLF"])
  fix c :: "heap redisReader" and g x assume c: "ready mem c l" "linkable (rstack c) l (objs c) g"
  show "atyped ((s @ CRLF) @ x) (set_cur c ((rstack c ! l)\<lparr>ttype := REDIS_REPLY_STATUS\<rparr>))
      = aleaf x (Some (length (objs c) + 1, (set_cur c ((rstack c ! l)\<lparr>ttype := REDIS_REPLY_STATUS\<rparr>))
          \<lparr>objs := g @ map Some (layout (length (objs c) + 1) (Status s))\<rparr>))"
    using f call_default(1)[OF c mem, of REDIS_REPLY_STATUS s REDIS_REPLY_STATUS] nl_text[of s x]
    by (simp add: atyped_def aline_def set_cur_cur[OF c(1)] past_line del: append_assoc)
qed simp_all

lemma parses_error:
  assumes mem: "\<forall>n. mem n" and f: "fits l (Error s)"
  shows "parses mem l (Error s)"
proof (rule parses_leaf[of "CHR ''-''" REDIS_REPLY_ERROR _ "s @ CRLF"])
  fix c :: "heap redisReader" and g x assume c: "ready mem c l" "linkable (rstack c) l (objs c) g"
  show "atyped ((s @ CRLF) @ x) (set_cur c ((rstack c ! l)\<lparr>ttype := REDIS_REPLY_ERROR\<rparr>))
      = aleaf x (Some (length (objs c) + 1, (set_cur c ((rstack c ! l)\<lparr>ttype := REDIS_REPLY_ERROR\<rparr>))
          \<lparr>objs := g @ map Some (layout (length (objs c) + 1) (Error s))\<rparr>))"
    using f call_default(1)[OF c mem, of REDIS_REPLY_ERROR s REDIS_REPLY_ERROR] nl_text[of s x]
    by (simp add: atyped_def aline_def set_cur_cur[OF c(1)] past_line del: append_assoc)
qed simp_all

lemma parses_integer:
  assumes mem: "\<forall>n. mem n" and f: "fits l (Integer v)"
  shows "parses mem l (Integer v)"
proof (rule parses_leaf[of "CHR '':''" REDIS_REPLY_INTEGER _ "decimal v @ CRLF"])
  fix c :: "heap redisReader" and g x assume c: "ready mem c l" "linkable (rstack c) l (objs c) g"
  have "string2ll (decimal v) = Some v" using f by (simp add: string2ll_iff)
  then show "atyped ((decimal v @ CRLF) @ x) (set_cur c ((rstack c ! l)\<lparr>ttype := REDIS_REPLY_INTEGER\<rparr>))
      = aleaf x (Some (length (objs c) + 1, (set_cur c ((rstack c ! l)\<lparr>ttype := REDIS_REPLY_INTEGER\<rparr>))
          \<lparr>objs := g @ map Some (layout (length (objs c) + 1) (Integer v))\<rparr>))"
    using call_default(2)[OF c mem, of REDIS_REPLY_INTEGER v] nl_text[OF CR_decimal(2), of v x]
    by (simp add: atyped_def aline_def set_cur_cur[OF c(1)] past_line del: append_assoc layout.simps)
qed simp_all

lemma parses_null:
  assumes mem: "\<forall>n. mem n"
  shows "parses mem l Null"
proof (rule parses_leaf[of "CHR ''$''" REDIS_REPLY_STRING _ "''-1'' @ CRLF"])
  fix c :: "heap redisReader" and g x assume c: "ready mem c l" "linkable (rstack c) l (objs c) g"
  define m :: string where "m = ''-1''"
  have "string2ll m = Some (- 1)" unfolding m_def by (simp add: string2ll_def int64_def Let_def code_def)
  moreover have "nl (m @ CRLF @ x) = Some (length m)" by (rule nl_text) (simp add: m_def)
  ultimately show "atyped ((''-1'' @ CRLF) @ x) (set_cur c ((rstack c ! l)\<lparr>ttype := REDIS_REPLY_STRING\<rparr>))
      = aleaf x (Some (length (objs c) + 1, (set_cur c ((rstack c ! l)\<lparr>ttype := REDIS_REPLY_STRING\<rparr>))
          \<lparr>objs := g @ map Some (layout (length (objs c) + 1) Null)\<rparr>))"
    unfolding m_def[symmetric]
    using call_default(3)[OF c mem, of REDIS_REPLY_STRING]
    by (simp add: atyped_def abulk_def set_cur_cur[OF c(1)] past_line del: append_assoc layout.simps)
qed simp_all

lemma parses_bulk:
  assumes mem: "\<forall>n. mem n" and f: "fits l (Bulk s)"
  shows "parses mem l (Bulk s)"
proof (rule parses_leaf[of "CHR ''$''" REDIS_REPLY_STRING _ "dec (length s) @ CRLF @ s @ CRLF"])
  fix c :: "heap redisReader" and g x assume c: "ready mem c l" "linkable (rstack c) l (objs c) g"
  let ?x = "(dec (length s) @ CRLF @ s @ CRLF) @ x"
  define k where "k = length (dec (length s))"
  have "string2ll (dec (length s)) = Some (int (length s))"
    using f string2ll_iff[of "dec (length s)" "int (length s)"] by (simp add: decimal_def)
  moreover have "nl ?x = Some k" using nl_text[OF CR_decimal(1), of "length s" "s @ CRLF @ x"] by (simp add: k_def)
  moreover have "drop (k + 2) ?x = s @ CRLF @ x" "take k ?x = dec (length s)" by (simp_all add: CRLF_def k_def)
  moreover have e: "k + length s + 4 = length (dec (length s) @ CRLF @ s @ CRLF)" by (simp add: k_def)
  have "drop (k + length s + 4) ?x = x" "k + length s + 4 \<le> length ?x" by (simp_all only: e append_eq_conv_conj[THEN iffD1, OF refl] length_append, simp_all)
  moreover have "take (length s) (s @ CRLF @ x) = s" by simp
  ultimately show "atyped ?x (set_cur c ((rstack c ! l)\<lparr>ttype := REDIS_REPLY_STRING\<rparr>))
      = aleaf x (Some (length (objs c) + 1, (set_cur c ((rstack c ! l)\<lparr>ttype := REDIS_REPLY_STRING\<rparr>))
          \<lparr>objs := g @ map Some (layout (length (objs c) + 1) (Bulk s))\<rparr>))"
    using call_default(1)[OF c mem, of REDIS_REPLY_STRING s REDIS_REPLY_STRING]
    by (simp add: atyped_def abulk_def set_cur_cur[OF c(1)] del: append_assoc drop_append take_append length_append)
qed simp_all

lemmas parses_leaves = parses_status parses_error parses_integer parses_null parses_bulk

text \<open>The elements of an array, from the \<open>j\<close>th on.\<close>

lemma linkable_element:
  assumes e: "ready mem e (Suc l)" "parent (rstack e ! Suc l) = Some l" "idx (rstack e ! Suc l) = int j"
    and p: "obj (rstack e ! l) = length g + 1" "objs e = g @ Some (array_cell (j + k) es) # h"
    and es: "length es = j + k" "0 < k"
  shows "linkable (rstack e) (Suc l) (objs e) (g @ Some (array_cell (j + k) (es[j := length (objs e) + 1])) # h)"
proof -
  have "deref (objs e) (length g + 1) = Some (array_cell (j + k) es)" using p by (simp add: deref_def)
  then show ?thesis using assms ready_fn(3)[OF e(1)]
    by (auto simp: linkable_def array_cell_def list_update_append)
qed

lemma move_element:
  assumes "ridx d = int (Suc l)" "Suc l < length (rstack d)" "ttype (rstack d ! l) = REDIS_REPLY_ARRAY"
    "idx (rstack d ! Suc l) = int j" "elements (rstack d ! l) = int n" "j < n"
  shows "moveToNextTask d = (if Suc j = n then moveToNextTask (d\<lparr>ridx := int l\<rparr>)
      else Some (d\<lparr>rstack := (rstack d)[Suc l := (rstack d ! Suc l)\<lparr>ttype := - 1, elements := - 1, idx := int (Suc j)\<rparr>]\<rparr>))"
proof -
  have "(int j = int n - 1) = (Suc j = n)" "int j < int n" using assms(6) by auto
  moreover have "nat (1 + int l) = Suc l" "1 + int l - 1 = int l" "\<not> 1 + int l = 0" "1 + int l > 0" by simp_all
  ultimately show ?thesis using assms by (subst moveToNextTask.simps) (simp add: ac_simps)
qed

lemma parses_elements:
  assumes "\<forall>r\<in>set rs. parses mem (Suc l) r" and "rs \<noteq> []"
    and "ready mem e (Suc l)" and "parent (rstack e ! Suc l) = Some l" and "idx (rstack e ! Suc l) = int j"
    and "ttype (rstack e ! l) = REDIS_REPLY_ARRAY" and "elements (rstack e ! l) = int (j + length rs)"
    and "obj (rstack e ! l) = length g + 1"
    and "objs e = g @ Some (array_cell (j + length rs) (as @ replicate (length rs) 0)) # h" and "length as = j"
    and "b = length (objs e) + 1"
  shows "\<exists>d. arun (concat (map encode rs) @ x) e = moveToNextTask d \<bind> arun x
    \<and> ridx d = int l \<and> rerr d = 0 \<and> fn d = fn e \<and> reply d = reply e \<and> length (rstack d) = length (rstack e)
    \<and> take (Suc l) (rstack d) = take (Suc l) (rstack e)
    \<and> objs d = g @ Some (array_cell (j + length rs) (as @ addrs b rs)) # h @ map Some (layouts b rs)"
  using assms
proof (induction rs arbitrary: e j as h b)
  case (Cons r rs)
  let ?n = "j + length (r # rs)" and ?y = "concat (map encode rs) @ x"
  let ?g = "g @ Some (array_cell ?n (as @ b # replicate (length rs) 0)) # h"
  have L: "linkable (rstack e) (Suc l) (objs e) ?g"
    using linkable_element[OF Cons.prems(3,4,5,8,9)] Cons.prems(10,11) by (simp add: list_update_append)
  have "parses mem (Suc l) r" using Cons.prems(1) by simp
  then obtain d where d: "made e (Suc l) b (?g @ map Some (layout b r)) d"
    "arun (encode r @ ?y) e = moveToNextTask d \<bind> arun ?y"
    unfolding Cons.prems(11) using Cons.prems(3) L[unfolded Cons.prems(11)] unfolding parses_def by blast
  have len: "Suc l < length (rstack e)" using ready_fn(3)[OF Cons.prems(3)] .
  have keep: "take (Suc l) (rstack d) = take (Suc l) (rstack e)" "length (rstack d) = length (rstack e)"
    "ridx d = int (Suc l)" "rerr d = 0" "fn d = fn e" "reply d = reply e" "objs d = ?g @ map Some (layout b r)"
    "idx (rstack d ! Suc l) = int j" "parent (rstack d ! Suc l) = Some l"
    using d(1) Cons.prems(4,5) by (simp_all add: made_def)
  have same: "rstack d ! l = rstack e ! l"
    using arg_cong[OF keep(1), of "\<lambda>t. t ! l"] by simp
  have move: "moveToNextTask d = (if Suc j = ?n then moveToNextTask (d\<lparr>ridx := int l\<rparr>)
      else Some (d\<lparr>rstack := (rstack d)[Suc l := (rstack d ! Suc l)\<lparr>ttype := - 1, elements := - 1, idx := int (Suc j)\<rparr>]\<rparr>))"
    by (rule move_element) (use keep same len Cons.prems(6,7) in auto)
  show ?case
  proof (cases "rs = []")
    case True
    then show ?thesis using d(2) move keep by (intro exI[of _ "d\<lparr>ridx := int l\<rparr>"]) simp
  next
    case False
    let ?e = "d\<lparr>rstack := (rstack d)[Suc l := (rstack d ! Suc l)\<lparr>ttype := - 1, elements := - 1, idx := int (Suc j)\<rparr>]\<rparr>"
    have me: "moveToNextTask d = Some ?e" using move False by simp
    have r: "ready mem ?e (Suc l)" using Cons.prems(3) keep by (simp add: ready_def)
    have "\<exists>d. arun (concat (map encode rs) @ x) ?e = moveToNextTask d \<bind> arun x
      \<and> ridx d = int l \<and> rerr d = 0 \<and> fn d = fn ?e \<and> reply d = reply ?e \<and> length (rstack d) = length (rstack ?e)
      \<and> take (Suc l) (rstack d) = take (Suc l) (rstack ?e)
      \<and> objs d = g @ Some (array_cell (Suc j + length rs) ((as @ [b]) @ addrs (b + cells r) rs)) #
          (h @ map Some (layout b r)) @ map Some (layouts (b + cells r) rs)"
      by (rule Cons.IH[OF _ False r])
        (use Cons.prems(1,6,7,8,10,11) keep same len in \<open>auto simp: length_layout Cons.prems(9)\<close>)
    then show ?thesis using d(2) me keep by auto
  qed
qed simp

lemma arun_ok: "\<not> ridx c < 0 \<Longrightarrow> aitem x c = Some (REDIS_OK, y, d) \<Longrightarrow> length y < length x \<Longrightarrow> arun x c = arun y d"
  by (simp add: arun.simps[of x c])

lemma parses_multi:
  assumes mem: "\<forall>n. mem n" and f: "fits l (Multi rs)" and rs: "\<forall>r\<in>set rs. parses mem (Suc l) r"
  shows "parses mem l (Multi rs)"
  unfolding parses_def
proof (intro allI impI)
  fix c :: "heap redisReader" and g x assume c: "ready mem c l" "linkable (rstack c) l (objs c) g"
  let ?a = "Suc (length (objs c))" and ?n = "length rs" and ?y = "concat (map encode rs) @ x"
  let ?c = "set_cur c ((rstack c ! l)\<lparr>ttype := REDIS_REPLY_ARRAY\<rparr>)"
  let ?c' = "?c\<lparr>objs := g @ [Some (array_cell ?n (replicate ?n 0))]\<rparr>"
  have lg: "length g = length (objs c)" using link_linkable[OF c(2)] by blast
  have n: "\<not> int ?n > 2 ^ 31 - 1" using f by simp
  have num: "string2ll (dec ?n) = Some (int ?n)"
    using f string2ll_iff[of "dec ?n" "int ?n"] by (simp add: decimal_def)
  have nl: "nl (dec ?n @ CRLF @ ?y) = Some (length (dec ?n))" using nl_text[OF CR_decimal(1)] .
  have call: "call_array ?c (int ?n) = Some (?a, ?c')" using call_default(4)[OF c mem] f by simp
  have ridx: "ridx c = int l" "l \<noteq> 8" "l < 8" "length (rstack c) = 9" "rerr c = 0" using c(1) f by (auto simp: ready_def)
  have item: "aitem (CHR ''*'' # dec ?n @ CRLF @ ?y) c
      = (if ?n > 0 then push_task ?c' (int ?n) ?a else moveToNextTask ?c') \<bind> (\<lambda>c'.
          Some (REDIS_OK, ?y, if l = 0 then c'\<lparr>reply := ?a\<rparr> else c'))"
    using ready_cur[OF c(1)] c(1) call nl num ridx n
    by (simp add: aitem_def atyped_def amulti_def set_cur_cur[OF c(1)] past_line ready_def)
  show "\<exists>d. made c l (length (objs c) + 1) (g @ map Some (layout (length (objs c) + 1) (Multi rs))) d
      \<and> arun (encode (Multi rs) @ x) c = moveToNextTask d \<bind> arun x"
  proof (cases "rs = []")
    case True
    let ?d = "leaf_of c l REDIS_REPLY_ARRAY ?a (g @ [Some (array_cell 0 [])])"
    have "moveToNextTask ?c' \<bind> (\<lambda>c'. Some (REDIS_OK, ?y, if l = 0 then c'\<lparr>reply := ?a\<rparr> else c'))
        = map_option (\<lambda>d. (REDIS_OK, ?y, d)) (moveToNextTask ?d)"
      using ridx(1) True by (cases "l = 0"; cases "moveToNextTask ?c'")
        (auto simp: leaf_of_def Let_def moveToNextTask.simps)
    then have "arun (CHR ''*'' # dec ?n @ CRLF @ ?y) c = moveToNextTask ?d \<bind> arun ?y"
      using item True ridx(1)
      by (cases "moveToNextTask ?d") (simp_all add: arun.simps[of _ c] CRLF_def)
    then show ?thesis using True leaf_of_made[OF c(1)] by auto
  next
    case False
    define e where "e = (let d = ?c'\<lparr>rstack := (rstack c)[l := (rstack c ! l)\<lparr>ttype := REDIS_REPLY_ARRAY, elements := int ?n, obj := ?a\<rparr>,
        Suc l := \<lparr>ttype = - 1, elements = - 1, idx = 0, obj = 0, parent = Some l\<rparr>], ridx := int (Suc l)\<rparr>
      in if l = 0 then d\<lparr>reply := ?a\<rparr> else d)"
    have "arun (CHR ''*'' # dec ?n @ CRLF @ ?y) c = arun ?y e"
    proof (rule arun_ok)
      have i: "nat (int l + 1) = Suc l" by simp
      show "aitem (CHR ''*'' # dec ?n @ CRLF @ ?y) c = Some (REDIS_OK, ?y, e)"
        using False ridx unfolding item
        by (simp add: push_task_def set_cur_def cur_task_def e_def Let_def i wr_def)
    qed (use ridx(1) in \<open>simp_all add: CRLF_def\<close>)
    moreover have "\<exists>d. arun ?y e = moveToNextTask d \<bind> arun x
      \<and> ridx d = int l \<and> rerr d = 0 \<and> fn d = fn e \<and> reply d = reply e \<and> length (rstack d) = length (rstack e)
      \<and> take (Suc l) (rstack d) = take (Suc l) (rstack e)
      \<and> objs d = g @ Some (array_cell (0 + ?n) ([] @ addrs (Suc ?a) rs)) # [] @ map Some (layouts (Suc ?a) rs)"
      by (rule parses_elements[OF rs False])
        (use ridx c(1) lg in \<open>auto simp: e_def Let_def ready_def set_cur_def\<close>)
    ultimately obtain d where d: "arun (CHR ''*'' # dec ?n @ CRLF @ ?y) c = moveToNextTask d \<bind> arun x"
      "ridx d = int l" "rerr d = 0" "fn d = fn e" "reply d = reply e" "length (rstack d) = length (rstack e)"
      "take (Suc l) (rstack d) = take (Suc l) (rstack e)"
      "objs d = g @ Some (array_cell ?n (addrs (Suc ?a) rs)) # map Some (layouts (Suc ?a) rs)" by auto
    have dl: "rstack d ! l = rstack e ! l" using arg_cong[OF d(7), of "\<lambda>t. t ! l"] by simp
    have "take l (rstack d) = take l (rstack e)" using arg_cong[OF d(7), of "take l"] by simp
    then have "made c l (length (objs c) + 1) (g @ map Some (layout (length (objs c) + 1) (Multi rs))) d"
      using d(2-6,8) dl ridx by (auto simp: made_def e_def Let_def set_cur_def)
    then show ?thesis using d(1) by auto
  qed
qed

theorem parses_fits: "\<forall>n. mem n \<Longrightarrow> fits l r \<Longrightarrow> parses mem l r"
proof (induction r arbitrary: l)
  case (Multi rs)
  then show ?case by (intro parses_multi) auto
qed (simp_all add: parses_leaves del: fits.simps)

subsection \<open>Sessions\<close>

lemma fits_depth: "fits l r \<Longrightarrow> l \<le> 8 \<Longrightarrow> depth r + l \<le> 9"
proof (induction r arbitrary: l)
  case (Multi rs)
  have "foldr (\<lambda>r m. max (depth r) m) qs 0 \<le> 8 - l" if "set qs \<subseteq> set rs" for qs
    using that
  proof (induction qs)
    case (Cons q qs)
    have "depth q + Suc l \<le> 9" using Multi(2,3) Cons.prems by (intro Multi(1)) auto
    then show ?case using Cons Multi.prems by auto
  qed simp
  from this[of rs] show ?case using Multi.prems by (simp add: le_diff_conv2)
qed simp_all

lemma encode_nonempty: "encode r \<noteq> []"
  by (cases r) auto

lemma Create_at:
  assumes "\<forall>n. mem n" and "never_null mal"
  obtains r where "redisReaderCreate mem mal h = Some (Some r)" "at r 0 [] r" "fn r = defaultFunctions mem"
    "length (rstack r) = 9" "ridx r = - 1" "objs r = h" "rerr r = 0"
proof -
  obtain e where e: "sdsempty mal = Some (Some e)" "sds_ok e" "str e = []"
    using sdsempty_gives[of mal] assms(2) unfolding gives_def never_null_def by blast
  have "sdslen e = 0" using e by (metis length_str list.size(3) sdslen_def)
  then have "holds e 0 []" using e by (simp add: holds_def)
  then show thesis using e(1) assms(1) \<open>sdslen e = 0\<close>
    by (intro that) (auto simp: redisReaderCreate_def redisReaderCreateWithFunctions_def at_def with_buf_def)
qed

lemma arun_encode:
  assumes mem: "\<forall>n. mem n" and f: "fits 0 rp"
    and c: "fn c = defaultFunctions mem" "length (rstack c) = 9" "ridx c = - 1" "rerr c = 0"
  obtains d where "arun (encode rp) (start c) = Some ([], d)" "ridx d = - 1" "rerr d = 0"
    "reply d = length (objs c) + 1" "objs d = objs c @ map Some (layout (length (objs c) + 1) rp)"
proof -
  have "ready mem (start c) 0" "linkable (rstack (start c)) 0 (objs (start c)) (objs c)"
    using c by (auto simp: ready_def start_def root_task_def linkable_def)
  then obtain d where d: "made (start c) 0 (length (objs c) + 1) (objs c @ map Some (layout (length (objs c) + 1) rp)) d"
    "arun (encode rp @ []) (start c) = moveToNextTask d \<bind> arun []"
    using parses_fits[OF mem f] start_fields(4)[of c] unfolding parses_def by metis
  have "moveToNextTask d = Some (d\<lparr>ridx := - 1\<rparr>)" using d(1) by (simp add: made_def moveToNextTask.simps)
  then have "arun (encode rp) (start c) = Some ([], d\<lparr>ridx := - 1\<rparr>)" using d(2) by (simp add: arun.simps)
  then show thesis using d(1) by (intro that) (auto simp: made_def)
qed

lemma session_encode:
  assumes mem: "\<forall>n. mem n" and mal: "never_null mal" and f: "fits 0 rp" and len: "length (encode rp) < 2 ^ 31 - 2"
    and ts: "concat ts = encode rp" "\<forall>t\<in>set ts. t \<noteq> []"
  obtains r r' where "redisReaderCreate mem mal h = Some (Some r)"
    "session mal r ts = Some (replicate (length ts - 1) 0 @ [length h + 1], r')"
    "objs r' = h @ map Some (layout (length h + 1) rp)" "rerr r' = 0"
proof -
  obtain r where r: "redisReaderCreate mem mal h = Some (Some r)" "at r 0 [] r" "fn r = defaultFunctions mem"
    "length (rstack r) = 9" "ridx r = - 1" "objs r = h" "rerr r = 0"
    using Create_at[OF mem mal] .
  obtain d where d: "arun (encode rp) (start r) = Some ([], d)" "ridx d = - 1" "rerr d = 0"
    "reply d = length (objs r) + 1" "objs d = objs r @ map Some (layout (length (objs r) + 1) rp)"
    using arun_encode[OF mem f r(3-5,7)] .
  have ne: "rstack r \<noteq> []" "ts \<noteq> []" using r(4) ts(1) encode_nonempty[of rp] by auto
  obtain r' where "session mal r ts = Some (replicate (length ts - 1) 0 @ [reply d], r')"
    "at r' (0 + length (concat ts)) [] (d\<lparr>reply := 0\<rparr>)"
    using df.session_run[OF r(2,3) ne ts(2) _ mal, of d] d ts(1) len by auto
  then show thesis using r(1,6) d by (intro that[of r r']) (auto simp: at_def)
qed

text \<open>
  C17. A reply within the limits of the reader, encoded in the redis protocol, cut into chunks in any
  way and fed to a new reader: no chunk but the last gives a reply, the last gives an object that is
  the reply, and freeing it releases exactly the cells that the reader made.
\<close>

theorem redisReader_roundtrip:
  assumes "\<forall>n. mem n" and "never_null mal" and "fits 0 rp" and "length (encode rp) < 2 ^ 31 - 2"
    and "concat ts = encode rp" and "\<forall>t\<in>set ts. t \<noteq> []"
  shows "\<exists>r r' ob. redisReaderCreate mem mal h = Some (Some r)
    \<and> session mal r ts = Some (replicate (length ts - 1) 0 @ [ob], r')
    \<and> tree_at 9 (objs r') ob = Some rp
    \<and> freeReplyObject ob (objs r') = Some (h @ replicate (cells rp) None)"
proof -
  obtain r r' where r: "redisReaderCreate mem mal h = Some (Some r)"
    "session mal r ts = Some (replicate (length ts - 1) 0 @ [length h + 1], r')"
    "objs r' = h @ map Some (layout (length h + 1) rp)"
    using session_encode[OF assms] by blast
  moreover have "tree_at 9 (objs r') (length h + 1) = Some rp"
    using tree_at_layout(1)[of "length h + 1" h rp 9 "[]"] fits_depth[OF assms(3)] r(3) by simp
  ultimately show ?thesis using freeReplyObject_layout[of h rp] by auto
qed

lemma redisReader_roundtrip_witness:
  "\<exists>r r' ob. redisReaderCreate (\<lambda>_. True) zero_mal [] = Some (Some r)
    \<and> session zero_mal r [[CHR ''*''], ''2'' @ CRLF @ '':'', ''7'' @ CRLF @ ''*0'' @ [CHR 0x0d], [CHR 0x0a]] = Some ([0, 0, 0, ob], r')
    \<and> tree_at 9 (objs r') ob = Some (Multi [Integer 7, Multi []])"
proof -
  let ?ts = "[[CHR ''*''], ''2'' @ CRLF @ '':'', ''7'' @ CRLF @ ''*0'' @ [CHR 0x0d], [CHR 0x0a]]"
  have e: "encode (Multi [Integer 7, Multi []]) = concat ?ts"
    by (simp add: CRLF_def decimal_def dec.simps char_of_def bit_0)
  have "length ?ts - 1 = 3" by simp
  then show ?thesis
    using redisReader_roundtrip[of "\<lambda>_. True" zero_mal "Multi [Integer 7, Multi []]" ?ts "[]", OF _ _ _ _ e[symmetric]] e
    by (auto simp: CRLF_def numeral_3_eq_3 simp del: session.simps tree_at.simps encode.simps)
qed

end
