(* ===== verification/Command.thy ===== *)
theory Command
  imports Reply_Laws Sds_Format
begin

text \<open>
  The commands of a client, from \<^verbatim>\<open>9_using_hiredis_api/hiredis/hiredis.c\<close>.
\<close>

subsection \<open>Formatting commands\<close>

text \<open>
  The commands of a client. \<open>argv\<close> holds the memory behind every argument, \<open>argvlen\<close> is
  \<open>None\<close> for a null pointer. \<^verbatim>\<open>redisFormatSdsCommandArgv\<close> gives a \<^verbatim>\<open>size_t\<close> to \<^verbatim>\<open>%u\<close>, which reads
  its low 32 bits on the platforms at hand.
\<close>

function count_for :: "nat \<Rightarrow> nat \<Rightarrow> nat" where
  "count_for v r =
     (if v < 10 then r
      else if v < 100 then r + 1
      else if v < 1000 then r + 2
      else if v < 10000 then r + 3
      else count_for (v div 10000) (r + 4))"
  by pat_completeness auto
termination by (relation "measure fst") auto

declare count_for.simps [simp del]

definition countDigits :: "nat \<Rightarrow> nat" where
  "countDigits v = count_for v 1"

definition bulklen :: "nat \<Rightarrow> nat" where
  "bulklen n = size_t (1 + int (countDigits n) + 2 + int n + 2)"

definition arg_len :: "string list \<Rightarrow> nat list option \<Rightarrow> nat \<Rightarrow> nat option" where
  "arg_len argv argvlen j =
     (case argvlen of Some ls \<Rightarrow> rd ls j | None \<Rightarrow> rd argv j \<bind> (\<lambda>a. strlen a))"

fun total_for :: "string list \<Rightarrow> nat list option \<Rightarrow> nat list \<Rightarrow> (nat \<Rightarrow> nat \<Rightarrow> nat) \<Rightarrow> nat \<Rightarrow> nat option" where
  "total_for argv argvlen [] add tot = Some tot"
| "total_for argv argvlen (j # js) add tot =
     arg_len argv argvlen j \<bind> (\<lambda>n. total_for argv argvlen js add (add tot (bulklen n)))"

text \<open>\<^verbatim>\<open>sprintf(cmd+pos, ...)\<close>: the text and its NUL.\<close>

definition sprintf_at :: "string \<Rightarrow> nat \<Rightarrow> string \<Rightarrow> (string \<times> nat) option" where
  "sprintf_at cmd pos t = blit cmd pos (cstr t) (length t + 1) \<bind> (\<lambda>cmd. Some (cmd, pos + length t))"

text \<open>One argument in \<^verbatim>\<open>redisFormatCommandArgv\<close>.\<close>

definition put_arg :: "string \<Rightarrow> nat \<Rightarrow> string \<Rightarrow> nat \<Rightarrow> (string \<times> nat) option" where
  "put_arg cmd pos a n =
     sprintf_at cmd pos (''$'' @ dec n @ CRLF) \<bind> (\<lambda>(cmd, pos).
     blit cmd pos a n \<bind> (\<lambda>cmd.
     wr cmd (pos + n) (CHR 0x0d) \<bind> (\<lambda>cmd. wr cmd (pos + n + 1) (CHR 0x0a) \<bind> (\<lambda>cmd.
       Some (cmd, pos + n + 2)))))"

fun put_for :: "string list \<Rightarrow> nat list option \<Rightarrow> nat list \<Rightarrow> string \<Rightarrow> nat \<Rightarrow> (string \<times> nat) option" where
  "put_for argv argvlen [] cmd pos = Some (cmd, pos)"
| "put_for argv argvlen (j # js) cmd pos =
     arg_len argv argvlen j \<bind> (\<lambda>n. rd argv j \<bind> (\<lambda>a. put_arg cmd pos a n \<bind> (\<lambda>(cmd, pos).
       put_for argv argvlen js cmd pos)))"

text \<open>
  The result is the length (\<open>- 1\<close> without memory) and the command. \<open>totlen\<close> and \<open>pos\<close> are \<^verbatim>\<open>int\<close>s.
\<close>

definition redisFormatCommandArgv ::
  "allocator \<Rightarrow> nat \<Rightarrow> string list \<Rightarrow> nat list option \<Rightarrow> (int \<times> string option) option" where
  "redisFormatCommandArgv mal argc argv argvlen =
     total_for argv argvlen [0..<argc] (\<lambda>t b. u32 (int t + int b)) (1 + countDigits argc + 2) \<bind> (\<lambda>totlen.
     (let totlen = int32 (int totlen)
      in (case s_malloc mal (size_t (int32 (totlen + 1))) of
                 None \<Rightarrow> Some (- 1, None)
               | Some cmd \<Rightarrow>
                   sprintf_at cmd 0 (''*'' @ dec argc @ CRLF) \<bind> (\<lambda>(cmd, pos).
                   put_for argv argvlen [0..<argc] cmd pos \<bind> (\<lambda>(cmd, pos).
                     if int pos \<noteq> totlen then None
                     else wr cmd pos NUL \<bind> (\<lambda>cmd. Some (totlen, Some cmd)))))))"

fun sds_for :: "allocator \<Rightarrow> string list \<Rightarrow> nat list option \<Rightarrow> nat list \<Rightarrow> sdshdr option \<Rightarrow> sdshdr option option" where
  "sds_for mal argv argvlen [] cmd = Some cmd"
| "sds_for mal argv argvlen (j # js) cmd =
     cmd \<bind> (\<lambda>cmd. arg_len argv argvlen j \<bind> (\<lambda>n. rd argv j \<bind> (\<lambda>a.
       sdscatfmt mal cmd (cstr (''$%u'' @ CRLF)) [A_uint (n mod 2 ^ 32)] \<bind> (\<lambda>cmd.
       sdscatlen mal cmd a n \<bind> (\<lambda>c. c \<bind> (\<lambda>cmd.
       sdscatlen mal cmd (cstr CRLF) 2 \<bind> (\<lambda>c. sds_for mal argv argvlen js c)))))))"

definition redisFormatSdsCommandArgv ::
  "allocator \<Rightarrow> nat \<Rightarrow> string list \<Rightarrow> nat list option \<Rightarrow> (int \<times> sdshdr option) option" where
  "redisFormatSdsCommandArgv mal argc argv argvlen =
     total_for argv argvlen [0..<argc] (\<lambda>t b. size_t (int t + int b)) (1 + countDigits argc + 2) \<bind> (\<lambda>totlen.
     sdsempty mal \<bind> (\<lambda>cmd. case cmd of
       None \<Rightarrow> Some (- 1, None)
     | Some cmd \<Rightarrow> sdsMakeRoomFor mal cmd totlen \<bind> (\<lambda>cmd. case cmd of
         None \<Rightarrow> Some (- 1, None)
       | Some cmd \<Rightarrow>
           sdscatfmt mal cmd (cstr (''*%i'' @ CRLF)) [A_int (int argc)] \<bind> (\<lambda>cmd.
           sds_for mal argv argvlen [0..<argc] (Some cmd) \<bind> (\<lambda>c. c \<bind> (\<lambda>cmd.
             if sdslen cmd \<noteq> totlen then None else Some (int32 (int totlen), Some cmd)))))))"

subsection \<open>Format strings\<close>

text \<open>
  \<^verbatim>\<open>redisvFormatCommand\<close>: \<open>m\<close> is the memory of the format. The variadic arguments are a list; reading
  one at another type is undefined. What \<^verbatim>\<open>vsnprintf\<close> makes of a format and the arguments is the
  parameter \<open>pf\<close>.
\<close>

datatype va = Va_str string | Va_size nat | Va_int int | Va_long int | Va_llong int | Va_double int

datatype fmt_error = memory_err | format_err

fun error_type :: "fmt_error \<Rightarrow> int" where
  "error_type memory_err = - 1"
| "error_type format_err = - 2"

record fmt_state =
  curarg :: sdshdr
  touched :: bool
  curargv :: "sdshdr list"
  totlen :: int
  at_c :: nat
  ap :: "va list"

definition strchr :: "string \<Rightarrow> char \<Rightarrow> bool" where
  "strchr s c \<longleftrightarrow> c \<in> set s \<or> c = NUL"

text \<open>The loops \<^verbatim>\<open>while (*_p != '\0' && ...) _p++\<close>.\<close>

function skip_while :: "(char \<Rightarrow> bool) \<Rightarrow> string \<Rightarrow> nat \<Rightarrow> nat option" where
  "skip_while P m p =
     (if p < length m then if m ! p \<noteq> NUL \<and> P (m ! p) then skip_while P m (p + 1) else Some p else None)"
  by pat_completeness auto
termination by (relation "measure (\<lambda>(P, m, p). length m - p)") auto

declare skip_while.simps [simp del]

definition isdigit :: "char \<Rightarrow> bool" where
  "isdigit c \<longleftrightarrow> 48 \<le> code c \<and> code c \<le> 57"

text \<open>Flags, field width and precision.\<close>

definition to_conversion :: "string \<Rightarrow> nat \<Rightarrow> nat option" where
  "to_conversion m p =
     skip_while (strchr ''#0-+ '') m p \<bind> (\<lambda>p. skip_while isdigit m p \<bind> (\<lambda>p. rd m p \<bind> (\<lambda>c.
       if c = CHR ''.'' then skip_while isdigit m (p + 1) else Some p)))"

datatype va_kind = K_int | K_double | K_long | K_llong

text \<open>The conversion at \<^verbatim>\<open>_p\<close>: what it consumes and its last character, or \<open>Some None\<close> for \<^verbatim>\<open>fmt_invalid\<close>.\<close>

definition conversion :: "string \<Rightarrow> nat \<Rightarrow> (va_kind \<times> nat) option option" where
  "conversion m p =
     (let intfmts = ''diouxX''; whole = (\<lambda>k p. rd m p \<bind> (\<lambda>c. Some (if c \<noteq> NUL \<and> strchr intfmts c then Some (k, p) else None)))
      in rd m p \<bind> (\<lambda>c.
           if strchr intfmts c then Some (Some (K_int, p))
           else if strchr ''eEfFgGaA'' c then Some (Some (K_double, p))
           else if c = CHR ''h''
           then rd m (p + 1) \<bind> (\<lambda>d. if d = CHR ''h'' then whole K_int (p + 2) else whole K_int (p + 1))
           else if c = CHR ''l''
           then rd m (p + 1) \<bind> (\<lambda>d. if d = CHR ''l'' then whole K_llong (p + 2) else whole K_long (p + 1))
           else Some None))"

fun va_arg :: "va_kind \<Rightarrow> va list \<Rightarrow> va list option" where
  "va_arg K_int (Va_int x # vs) = Some vs"
| "va_arg K_double (Va_double x # vs) = Some vs"
| "va_arg K_long (Va_long x # vs) = Some vs"
| "va_arg K_llong (Va_llong x # vs) = Some vs"
| "va_arg k vs = None"

text \<open>The default of the \<^verbatim>\<open>switch\<close>: the new argument (or a null pointer), the cursor and the arguments left.\<close>

definition printf_directive ::
  "allocator \<Rightarrow> (string \<Rightarrow> va list \<Rightarrow> string option) \<Rightarrow> string \<Rightarrow> fmt_state \<Rightarrow> (fmt_error + sdshdr option \<times> fmt_state) option" where
  "printf_directive mal pf m f =
     to_conversion m (at_c f + 1) \<bind> (\<lambda>p. conversion m p \<bind> (\<lambda>v. case v of
       None \<Rightarrow> Some (Inl format_err)
     | Some (k, p) \<Rightarrow> va_arg k (ap f) \<bind> (\<lambda>vs.
         (let l = p + 1 - at_c f
          in if l < 14
             then bytes_at m (at_c f) l \<bind> (\<lambda>t. strlen (cstr t) \<bind> (\<lambda>n. pf (take n t) (ap f) \<bind> (\<lambda>out.
                    sdscatvprintf mal (curarg f) n out \<bind> (\<lambda>new. Some (Inr (new, f\<lparr>at_c := p - 1, ap := vs\<rparr>))))))
             else Some (Inr (Some (curarg f), f\<lparr>ap := vs\<rparr>))))))"

definition directive ::
  "allocator \<Rightarrow> (string \<Rightarrow> va list \<Rightarrow> string option) \<Rightarrow> string \<Rightarrow> fmt_state \<Rightarrow> (fmt_error + sdshdr option \<times> fmt_state) option" where
  "directive mal pf m f =
     rd m (at_c f + 1) \<bind> (\<lambda>c.
       if c = CHR ''s''
       then (case ap f of
               Va_str a # vs \<Rightarrow> strlen a \<bind> (\<lambda>n.
                 (if n > 0 then sdscatlen mal (curarg f) a n else Some (Some (curarg f))) \<bind> (\<lambda>new.
                   Some (Inr (new, f\<lparr>ap := vs\<rparr>))))
             | _ \<Rightarrow> None)
       else if c = CHR ''b''
       then (case ap f of
               Va_str a # Va_size n # vs \<Rightarrow>
                 (if n > 0 then sdscatlen mal (curarg f) a n else Some (Some (curarg f))) \<bind> (\<lambda>new.
                   Some (Inr (new, f\<lparr>ap := vs\<rparr>)))
             | _ \<Rightarrow> None)
       else if c = CHR ''%'' then sdscat mal (curarg f) (cstr ''%'') \<bind> (\<lambda>new. Some (Inr (new, f)))
       else printf_directive mal pf m f)"

text \<open>\<^verbatim>\<open>curargv[argc++] = curarg\<close>, with the array grown before.\<close>

definition push_curarg :: "allocator \<Rightarrow> fmt_state \<Rightarrow> fmt_state option" where
  "push_curarg mal f =
     (case mal (8 * (length (curargv f) + 1)) of
        None \<Rightarrow> None
      | Some _ \<Rightarrow> Some (f\<lparr>curargv := curargv f @ [curarg f], totlen := int32 (totlen f + int (bulklen (sdslen (curarg f))))\<rparr>))"

definition format_round ::
  "allocator \<Rightarrow> (string \<Rightarrow> va list \<Rightarrow> string option) \<Rightarrow> string \<Rightarrow> fmt_state \<Rightarrow> (fmt_error + fmt_state) option" where
  "format_round mal pf m f =
     rd m (at_c f) \<bind> (\<lambda>c. (if c = CHR ''%'' then rd m (at_c f + 1) \<bind> (\<lambda>d. Some (d = NUL)) else Some True) \<bind> (\<lambda>plain.
       if plain
       then if c = CHR '' ''
            then if touched f
                 then (case push_curarg mal f of
                         None \<Rightarrow> Some (Inl memory_err)
                       | Some f \<Rightarrow> sdsempty mal \<bind> (\<lambda>e. case e of
                           None \<Rightarrow> Some (Inl memory_err)
                         | Some e \<Rightarrow> Some (Inr (f\<lparr>curarg := e, touched := False, at_c := at_c f + 1\<rparr>))))
                 else Some (Inr (f\<lparr>at_c := at_c f + 1\<rparr>))
            else sdscatlen mal (curarg f) (drop (at_c f) m) 1 \<bind> (\<lambda>new. case new of
                   None \<Rightarrow> Some (Inl memory_err)
                 | Some s \<Rightarrow> Some (Inr (f\<lparr>curarg := s, touched := True, at_c := at_c f + 1\<rparr>)))
       else directive mal pf m f \<bind> (\<lambda>r. case r of
              Inl e \<Rightarrow> Some (Inl e)
            | Inr (None, f) \<Rightarrow> Some (Inl memory_err)
            | Inr (Some s, f) \<Rightarrow> Some (Inr (f\<lparr>curarg := s, touched := True, at_c := at_c f + 2\<rparr>)))))"

partial_function (option) format_while ::
  "allocator \<Rightarrow> (string \<Rightarrow> va list \<Rightarrow> string option) \<Rightarrow> string \<Rightarrow> fmt_state \<Rightarrow> (fmt_error + fmt_state) option" where
  "format_while mal pf m f =
     rd m (at_c f) \<bind> (\<lambda>c.
       if c \<noteq> NUL
       then format_round mal pf m f \<bind> (\<lambda>r. case r of Inl e \<Rightarrow> Some (Inl e) | Inr f \<Rightarrow> format_while mal pf m f)
       else Some (Inr f))"

text \<open>The protocol text of the collected arguments.\<close>

definition build_command :: "allocator \<Rightarrow> fmt_state \<Rightarrow> (int \<times> string option) option" where
  "build_command mal f =
     (let argc = length (curargv f); totlen = int32 (totlen f + int (1 + countDigits argc + 2))
      in (case s_malloc mal (size_t (int32 (totlen + 1))) of
            None \<Rightarrow> Some (error_type memory_err, None)
          | Some cmd \<Rightarrow>
              sprintf_at cmd 0 (''*'' @ dec argc @ CRLF) \<bind> (\<lambda>(cmd, pos).
              put_for (map buf (curargv f)) (Some (map sdslen (curargv f))) [0..<argc] cmd pos \<bind> (\<lambda>(cmd, pos).
                if int pos \<noteq> totlen then None
                else wr cmd pos NUL \<bind> (\<lambda>cmd. Some (totlen, Some cmd))))))"

definition redisvFormatCommand ::
  "allocator \<Rightarrow> (string \<Rightarrow> va list \<Rightarrow> string option) \<Rightarrow> string \<Rightarrow> va list \<Rightarrow> (int \<times> string option) option" where
  "redisvFormatCommand mal pf m vs =
     sdsempty mal \<bind> (\<lambda>e. case e of
       None \<Rightarrow> Some (- 1, None)
     | Some e \<Rightarrow>
         format_while mal pf m \<lparr>curarg = e, touched = False, curargv = [], totlen = 0, at_c = 0, ap = vs\<rparr> \<bind> (\<lambda>r. case r of
           Inl e \<Rightarrow> Some (error_type e, None)
         | Inr f \<Rightarrow>
             if touched f
             then (case push_curarg mal f of
                     None \<Rightarrow> Some (error_type memory_err, None)
                   | Some f \<Rightarrow> build_command mal f)
             else build_command mal f))"

definition redisFormatCommand ::
  "allocator \<Rightarrow> (string \<Rightarrow> va list \<Rightarrow> string option) \<Rightarrow> string \<Rightarrow> va list \<Rightarrow> (int \<times> string option) option" where
  "redisFormatCommand mal pf m vs =
     redisvFormatCommand mal pf m vs \<bind> (\<lambda>(n, cmd). Some (if n < 0 then - 1 else n, cmd))"

lemmas command_loops [code] = format_while.simps

end
