(* ===== verification/Command_Laws.thy ===== *)
theory Command_Laws
  imports Command
begin

text \<open>
  The formatting functions of \<^verbatim>\<open>hiredis.c\<close> write the redis protocol: what they return is \<open>encode\<close> of the
  array of the arguments, so the sizes that they compute beforehand are right.
\<close>

subsection \<open>Sizes\<close>

lemma count_for_dec: "count_for v (r + 1) = r + length (dec v)"
proof (induction v "r + 1" arbitrary: r rule: count_for.induct)
  case (1 v)
  have d: "dec v = (if v < 10 then [char_of (48 + v)] else dec (v div 10) @ [char_of (48 + v mod 10)])" for v
    by (rule dec.simps)
  show ?case
  proof (cases "v < 10000")
    case True
    have "length (dec v) = (if v < 10 then 1 else if v < 100 then 2 else if v < 1000 then 3 else 4)"
      using True d[of v] d[of "v div 10"] d[of "v div 100"] d[of "v div 1000"]
      by (auto simp flip: div_mult2_eq)
    then show ?thesis using True by (subst count_for.simps) simp
  next
    case False
    have "\<not> v div 1000 < 10" "\<not> v div 100 < 10" "\<not> v div 10 < 10"
      using False div_le_mono[of 10000 v 1000] div_le_mono[of 10000 v 100] div_le_mono[of 10000 v 10] by simp_all
    then have "length (dec v) = 4 + length (dec (v div 10000))"
      using False d[of v] d[of "v div 10"] d[of "v div 100"] d[of "v div 1000"]
      by (simp flip: div_mult2_eq)
    then show ?thesis using 1[of "r + 4"] False by (subst count_for.simps) simp
  qed
qed

lemma countDigits_dec: "countDigits v = length (dec v)"
  using count_for_dec[of v 0] by (simp add: countDigits_def)

definition words :: "string list \<Rightarrow> string" where
  "words xs = concat (map (\<lambda>x. encode (Bulk x)) xs)"

lemma words_simps [simp]: "words [] = []" "words (x # xs) = encode (Bulk x) @ words xs"
  "words (xs @ ys) = words xs @ words ys"
  by (simp_all add: words_def)

lemma encode_words: "encode (Multi (map Bulk xs)) = ''*'' @ dec (length xs) @ CRLF @ words xs"
  by (simp add: words_def comp_def)

declare encode.simps(5) [simp del]

lemma bulklen_encode: "length (encode (Bulk x)) < 2 ^ 64 \<Longrightarrow> bulklen (length x) = length (encode (Bulk x))"
  by (simp add: bulklen_def countDigits_dec encode.simps nat_add_distrib)

text \<open>The memory of the arguments holds the strings \<open>xs\<close>.\<close>

definition argv_holds :: "string list \<Rightarrow> nat list option \<Rightarrow> string list \<Rightarrow> bool" where
  "argv_holds argv argvlen xs \<longleftrightarrow> length argv = length xs
     \<and> (\<forall>j<length xs. arg_len argv argvlen j = Some (length (xs ! j)) \<and> prefix (xs ! j) (argv ! j))"

lemma total_for_spec:
  assumes a: "argv_holds argv argvlen xs" and add: "\<And>t b. t + b < 2 ^ 32 \<Longrightarrow> add t b = t + b"
  shows "set js \<subseteq> {..<length xs} \<Longrightarrow> tot + length (words (map ((!) xs) js)) < 2 ^ 32 \<Longrightarrow>
    total_for argv argvlen js add tot = Some (tot + length (words (map ((!) xs) js)))"
proof (induction js arbitrary: tot)
  case (Cons j js)
  have j: "arg_len argv argvlen j = Some (length (xs ! j))" using a Cons.prems by (simp add: argv_holds_def)
  have b: "bulklen (length (xs ! j)) = length (encode (Bulk (xs ! j)))"
    using Cons.prems by (intro bulklen_encode) simp
  have "add tot (bulklen (length (xs ! j))) = tot + length (encode (Bulk (xs ! j)))"
    unfolding b using Cons.prems by (intro add) simp
  then show ?case using j Cons by (simp add: ac_simps)
qed simp

subsection \<open>Writing the text\<close>

lemma sprintf_at_spec:
  assumes "pos + length t < length cmd"
  shows "\<exists>cmd'. sprintf_at cmd pos t = Some (cmd', pos + length t) \<and> length cmd' = length cmd
    \<and> take (pos + length t) cmd' = take pos cmd @ t"
  using assms by (simp add: sprintf_at_def cstr_def min_def)

lemma put_arg_spec:
  assumes pre: "prefix x a" and len: "pos + length (encode (Bulk x)) < length cmd"
  shows "\<exists>cmd'. put_arg cmd pos a (length x) = Some (cmd', pos + length (encode (Bulk x))) \<and> length cmd' = length cmd
    \<and> take (pos + length (encode (Bulk x))) cmd' = take pos cmd @ encode (Bulk x)"
proof -
  let ?t = "''$'' @ dec (length x) @ CRLF"
  have e: "encode (Bulk x) = ?t @ x @ CRLF" by (simp add: encode.simps)
  obtain c1 where c1: "sprintf_at cmd pos ?t = Some (c1, pos + length ?t)" "length c1 = length cmd"
    "take (pos + length ?t) c1 = take pos cmd @ ?t"
    using sprintf_at_spec[of pos ?t cmd] len e by auto
  define q where "q = pos + length ?t"
  define c2 where "c2 = take q c1 @ x @ drop (q + length x) c1"
  have q: "q + length x + 2 < length c1" using len c1(2) by (simp add: e q_def)
  have "blit c1 q a (length x) = Some c2"
    using pre q by (auto simp: c2_def prefix_def)
  moreover have l2: "length c2 = length c1" using q by (simp add: c2_def)
  moreover have "take (q + length x) c2 = take q c1 @ x" using q by (simp add: c2_def)
  then have "take (q + length x) c2 = take pos cmd @ ?t @ x" unfolding c1(3)[folded q_def] by simp
  then have "take (q + length x + 2) (c2[q + length x := CHR 0x0d, q + length x + 1 := CHR 0x0a]) = take pos cmd @ ?t @ x @ CRLF"
    using q l2 by (simp add: take_Suc_conv_app_nth CRLF_def)
  ultimately show ?thesis
    using c1(1,2) q by (simp add: put_arg_def q_def[symmetric] e CRLF_def) (simp add: q_def CRLF_def add.assoc)
qed

lemma put_for_spec:
  assumes a: "argv_holds argv argvlen xs"
  shows "set js \<subseteq> {..<length xs} \<Longrightarrow> pos + length (words (map ((!) xs) js)) < length cmd \<Longrightarrow>
    \<exists>cmd'. put_for argv argvlen js cmd pos = Some (cmd', pos + length (words (map ((!) xs) js))) \<and> length cmd' = length cmd
      \<and> take (pos + length (words (map ((!) xs) js))) cmd' = take pos cmd @ words (map ((!) xs) js)"
proof (induction js arbitrary: cmd pos)
  case (Cons j js)
  let ?x = "xs ! j" and ?w = "words (map ((!) xs) js)"
  have j: "arg_len argv argvlen j = Some (length ?x)" "rd argv j = Some (argv ! j)" "prefix ?x (argv ! j)"
    using a Cons.prems by (simp_all add: argv_holds_def)
  have "pos + length (encode (Bulk ?x)) < length cmd" using Cons.prems by simp
  from put_arg_spec[OF j(3) this] obtain c1 where c1:
    "put_arg cmd pos (argv ! j) (length ?x) = Some (c1, pos + length (encode (Bulk ?x)))"
    "length c1 = length cmd" "take (pos + length (encode (Bulk ?x))) c1 = take pos cmd @ encode (Bulk ?x)" by blast
  have "pos + length (encode (Bulk ?x)) + length ?w < length c1" "set js \<subseteq> {..<length xs}"
    using Cons.prems c1(2) by simp_all
  from Cons.IH[OF this(2,1)] show ?case using j c1 by (auto simp: ac_simps)
qed simp

text \<open>The protocol text of all arguments, from an empty buffer of the right size.\<close>

lemma put_all:
  assumes a: "argv_holds argv argvlen xs" and n: "n = length (encode (Multi (map Bulk xs)))" and c: "length cmd = n + 1"
  shows "\<exists>c'. sprintf_at cmd 0 (''*'' @ dec (length xs) @ CRLF) \<bind> (\<lambda>(cmd, pos).
      put_for argv argvlen [0..<length xs] cmd pos) = Some (c', n) \<and> length c' = n + 1 \<and> c'[n := NUL] = cstr (encode (Multi (map Bulk xs)))"
proof -
  let ?t = "''*'' @ dec (length xs) @ CRLF"
  have m: "map ((!) xs) [0..<length xs] = xs" by (rule map_nth)
  have n': "n = length ?t + length (words xs)" using n by (simp only: encode_words length_append)
  have js: "set [0..<length xs] \<subseteq> {..<length xs}" by auto
  obtain c1 where c1: "sprintf_at cmd 0 ?t = Some (c1, length ?t)" "length c1 = n + 1" "take (length ?t) c1 = ?t"
    using sprintf_at_spec[of 0 ?t cmd] c n' by auto
  have "length ?t + length (words xs) < length c1" using c1(2) n' by simp
  then obtain c2 where c2: "put_for argv argvlen [0..<length xs] c1 (length ?t) = Some (c2, n)" "length c2 = n + 1"
    "take n c2 = ?t @ words xs"
    using put_for_spec[OF a js, of "length ?t" c1] c1 n' unfolding m by auto
  have "c2[n := NUL] = take n c2 @ [NUL]" using c2(2) by (simp add: list_eq_iff_nth_eq nth_append nth_list_update)
  then show ?thesis using c1(1) c2 by (simp add: encode_words cstr_def del: encode.simps)
qed

lemma malloc_of: "never_null mal \<Longrightarrow> n < 2 ^ 31 - 1 \<Longrightarrow> \<exists>c. s_malloc mal (size_t (int32 (int32 (int n) + 1))) = Some c \<and> length c = n + 1"
proof -
  assume a: "never_null mal" "n < 2 ^ 31 - 1"
  then have "size_t (int32 (int32 (int n) + 1)) = n + 1" by (simp add: nat_add_distrib)
  moreover obtain c where "s_malloc mal (n + 1) = Some c"
    using a(1) s_malloc_None[of mal "n + 1"] unfolding never_null_def by (metis option.exhaust)
  ultimately show ?thesis using s_malloc_length by metis
qed

text \<open>
  C24. \<^verbatim>\<open>redisFormatCommandArgv\<close> returns the length and the protocol text of the array of its arguments,
  whether their lengths are given or come from \<^verbatim>\<open>strlen\<close>: the size computed beforehand is exact and the
  assertion at the end never fails.
\<close>

theorem redisFormatCommandArgv_correct:
  assumes "argv_holds argv argvlen xs" and "never_null mal" and "length (encode (Multi (map Bulk xs))) < 2 ^ 31 - 1"
  shows "redisFormatCommandArgv mal (length xs) argv argvlen
    = Some (int (length (encode (Multi (map Bulk xs)))), Some (cstr (encode (Multi (map Bulk xs)))))"
proof -
  define n where "n = length (encode (Multi (map Bulk xs)))"
  have m: "map ((!) xs) [0..<length xs] = xs" by (rule map_nth)
  have js: "set [0..<length xs] \<subseteq> {..<length xs}" by auto
  have n': "1 + countDigits (length xs) + 2 + length (words xs) = n"
    unfolding n_def encode_words by (simp add: countDigits_dec)
  have "total_for argv argvlen [0..<length xs] (\<lambda>t b. u32 (int t + int b)) (1 + countDigits (length xs) + 2) = Some n"
    using total_for_spec[OF assms(1) _ js, of "\<lambda>t b. u32 (int t + int b)" "1 + countDigits (length xs) + 2"]
      n' assms(3)[folded n_def] unfolding m by (auto simp: nat_add_distrib)
  moreover obtain c where "s_malloc mal (size_t (int32 (int32 (int n) + 1))) = Some c" "length c = n + 1"
    using malloc_of[OF assms(2), of n] assms(3) n_def by auto
  moreover obtain c' where "sprintf_at c 0 (''*'' @ dec (length xs) @ CRLF) \<bind> (\<lambda>(cmd, pos).
      put_for argv argvlen [0..<length xs] cmd pos) = Some (c', n)" "length c' = n + 1" "c'[n := NUL] = cstr (encode (Multi (map Bulk xs)))"
    using put_all[OF assms(1) n_def \<open>length c = n + 1\<close>] by auto
  moreover have "int32 (int n) = int n" using assms(3) n_def by simp
  ultimately show ?thesis unfolding redisFormatCommandArgv_def n_def[symmetric]
    by (auto simp: split: bind_splits)
qed

subsection \<open>The sds variant\<close>

lemma never_null_gives: "never_null mal \<Longrightarrow> gives mal r x \<longleftrightarrow> (\<exists>s. r = Some (Some s) \<and> sds_ok s \<and> str s = x)"
  unfolding gives_def never_null_def by blast

lemma sds_for_spec:
  assumes a: "argv_holds argv argvlen xs" and mal: "never_null mal"
  shows "set js \<subseteq> {..<length xs} \<Longrightarrow> sds_ok s \<Longrightarrow> Sds.len s + length (words (map ((!) xs) js)) < 2 ^ 31 \<Longrightarrow>
    \<exists>s'. sds_for mal argv argvlen js (Some s) = Some (Some s') \<and> sds_ok s' \<and> str s' = str s @ words (map ((!) xs) js)"
proof (induction js arbitrary: s)
  case (Cons j js)
  let ?x = "xs ! j" and ?w = "words (map ((!) xs) js)"
  have j: "arg_len argv argvlen j = Some (length ?x)" "rd argv j = Some (argv ! j)" "prefix ?x (argv ! j)"
    using a Cons.prems by (simp_all add: argv_holds_def)
  have lw: "Sds.len s + length (encode (Bulk ?x)) + length ?w < 2 ^ 31" using Cons.prems(3) by simp
  then have lx: "Sds.len s + 1 + length (dec (length ?x)) + 2 + length ?x + 2 < 2 ^ 31" "length ?x < 2 ^ 32"
    by (auto simp: encode.simps)
  have nn: "NUL \<notin> set (''$%u'' @ CRLF)" by (simp add: CRLF_def)
  have ft: "fmt_text (''$%u'' @ CRLF) [A_uint (length ?x mod 2 ^ 32)] = Some (''$'' @ dec (length ?x) @ CRLF)"
    using lx(2) by (simp add: CRLF_def)
  then obtain s1 where s1: "sdscatfmt mal s (cstr (''$%u'' @ CRLF)) [A_uint (length ?x mod 2 ^ 32)] = Some s1"
    "sds_ok s1" "str s1 = str s @ ''$'' @ dec (length ?x) @ CRLF"
    using sdscatfmt_spec[OF Cons.prems(2) mal nn ft] lx by auto
  have l1: "Sds.len s1 = Sds.len s + 1 + length (dec (length ?x)) + 2"
    using s1(2,3) length_str[of s1] length_str[OF Cons.prems(2)] by simp
  have tx: "take (length ?x) (argv ! j) = ?x" "length ?x \<le> length (argv ! j)" using j(3) by (auto simp: prefix_def)
  have "small (Sds.len s1 + length ?x)" using l1 lx by (simp add: small_def)
  then obtain s2 where s2: "sdscatlen mal s1 (argv ! j) (length ?x) = Some (Some s2)" "sds_ok s2" "str s2 = str s1 @ ?x"
    using sdscatlen_gives[OF s1(2) _ tx(2), of mal] tx(1) never_null_gives[OF mal] by auto
  have l2: "Sds.len s2 = Sds.len s1 + length ?x"
    using s2(2,3) length_str[of s2] length_str[OF s1(2)] by simp
  have "small (Sds.len s2 + 2)" using l1 l2 lx by (simp add: small_def)
  then obtain s3 where s3: "sdscatlen mal s2 (cstr CRLF) 2 = Some (Some s3)" "sds_ok s3" "str s3 = str s2 @ CRLF"
    using sdscatlen_gives[OF s2(2), of 2 "cstr CRLF" mal] never_null_gives[OF mal] by (auto simp: CRLF_def cstr_def)
  have all: "str s3 = str s @ encode (Bulk ?x)" using s1(3) s2(3) s3(3) by (simp add: encode.simps)
  have "Sds.len s3 = Sds.len s + length (encode (Bulk ?x))"
    using all s3(2) length_str[of s3] length_str[OF Cons.prems(2)] by simp
  then obtain s' where "sds_for mal argv argvlen js (Some s3) = Some (Some s')" "sds_ok s'" "str s' = str s3 @ ?w"
    using Cons.IH[of s3] Cons.prems(1) s3(2) lw by auto
  then show ?case using j s1(1) s2(1) s3(1) all by auto
qed simp

lemma redisFormatSds_spec:
  assumes "argv_holds argv argvlen xs" and "never_null mal" and "length (encode (Multi (map Bulk xs))) < 2 ^ 31"
  shows "\<exists>s. redisFormatSdsCommandArgv mal (length xs) argv argvlen
      = Some (int (length (encode (Multi (map Bulk xs)))), Some s) \<and> sds_ok s \<and> str s = encode (Multi (map Bulk xs))"
proof -
  define n where "n = length (encode (Multi (map Bulk xs)))"
  have m: "map ((!) xs) [0..<length xs] = xs" by (rule map_nth)
  have js: "set [0..<length xs] \<subseteq> {..<length xs}" by auto
  have n': "1 + countDigits (length xs) + 2 + length (words xs) = n" "1 + length (dec (length xs)) + 2 + length (words xs) = n"
    unfolding n_def encode_words by (simp_all add: countDigits_dec)
  have n31: "n < 2 ^ 31" using assms(3) n_def by simp
  have tot: "total_for argv argvlen [0..<length xs] (\<lambda>t b. size_t (int t + int b)) (1 + countDigits (length xs) + 2) = Some n"
    using total_for_spec[OF assms(1) _ js, of "\<lambda>t b. size_t (int t + int b)" "1 + countDigits (length xs) + 2"]
      n'(1) n31 unfolding m by (auto simp: nat_add_distrib)
  obtain e where e: "sdsempty mal = Some (Some e)" "sds_ok e" "str e = []"
    using sdsempty_gives[of mal] never_null_gives[OF assms(2)] by auto
  have le: "Sds.len e = 0" using e length_str[of e] by simp
  have "small (Sds.len e + n)" using le n31 by (simp add: small_def)
  then obtain s0 where s0: "sdsMakeRoomFor mal e n = Some (Some s0)" "sds_ok s0" "str s0 = []"
    using MakeRoom_spec[OF e(2), of n mal] assms(2) e(3) unfolding never_null_def by auto
  have l0: "Sds.len s0 = 0" using s0 length_str[of s0] by simp
  have xs31: "length xs < 2 ^ 31"
  proof -
    have "length xs \<le> length (words xs)" by (induction xs) (auto simp: encode.simps)
    then show ?thesis using n'(1) n31 by simp
  qed
  have nn: "NUL \<notin> set (''*%i'' @ CRLF)" by (simp add: CRLF_def)
  have ft: "fmt_text (''*%i'' @ CRLF) [A_int (int (length xs))] = Some (''*'' @ dec (length xs) @ CRLF)"
    using xs31 by (simp add: CRLF_def decimal_def)
  then obtain s1 where s1: "sdscatfmt mal s0 (cstr (''*%i'' @ CRLF)) [A_int (int (length xs))] = Some s1"
    "sds_ok s1" "str s1 = ''*'' @ dec (length xs) @ CRLF"
    using sdscatfmt_spec[OF s0(2) assms(2) nn ft] l0 s0(3) n' n31 by auto
  have l1: "Sds.len s1 = 1 + length (dec (length xs)) + 2" using s1 length_str[of s1] by simp
  obtain s2 where s2: "sds_for mal argv argvlen [0..<length xs] (Some s1) = Some (Some s2)" "sds_ok s2"
    "str s2 = str s1 @ words xs"
    using sds_for_spec[OF assms(1,2) js s1(2)] l1 n'(2) n31 unfolding m by auto
  have all: "str s2 = encode (Multi (map Bulk xs))" unfolding encode_words using s1(3) s2(3) by simp
  then have "sdslen s2 = n" using length_str[OF s2(2)] n_def by (simp add: sdslen_def)
  moreover have "int32 (int n) = int n" using n31 by simp
  ultimately show ?thesis
    using tot e(1) s0(1) s1(1) s2(1,2) all
    unfolding redisFormatSdsCommandArgv_def n_def[symmetric] by auto
qed

text \<open>
  \<^verbatim>\<open>redisFormatSdsCommandArgv\<close> returns the same text as an \<^verbatim>\<open>sds\<close> string, for commands below 2 GiB.
\<close>

theorem redisFormatSdsCommandArgv_correct:
  assumes "argv_holds argv argvlen xs" and "never_null mal" and "length (encode (Multi (map Bulk xs))) < 2 ^ 31"
  shows "\<exists>s. redisFormatSdsCommandArgv mal (length xs) argv argvlen
      = Some (int (length (encode (Multi (map Bulk xs)))), Some s) \<and> sds_ok s \<and> str s = encode (Multi (map Bulk xs))"
  using assms by (rule redisFormatSds_spec)

subsection \<open>Witnesses\<close>

lemma get_k: "argv_holds [''GET'', ''key''] (Some [3, 1]) [''GET'', ''k'']"
  by (auto simp: argv_holds_def arg_len_def less_Suc_eq)

lemma get_k_length: "length (encode (Multi (map Bulk [''GET'', ''k'']))) = 20"
  unfolding encode_words by (simp add: encode.simps dec.simps)

lemma redisFormatCommandArgv_correct_witness:
  "redisFormatCommandArgv zero_mal 2 [''GET'', ''key''] (Some [3, 1])
    = Some (20, Some (cstr (encode (Multi (map Bulk [''GET'', ''k''])))))"
  using redisFormatCommandArgv_correct[OF get_k never_null_zero] get_k_length by (simp del: encode.simps flip: numeral_2_eq_2)

lemma redisFormatSdsCommandArgv_correct_witness:
  "\<exists>s. redisFormatSdsCommandArgv zero_mal 2 [''GET'', ''key''] (Some [3, 1]) = Some (20, Some s)
    \<and> str s = encode (Multi (map Bulk [''GET'', ''k'']))"
  using redisFormatSdsCommandArgv_correct[OF get_k never_null_zero] get_k_length by (auto simp del: encode.simps simp flip: numeral_2_eq_2)

end
