(* ===== verification/Command_Format.thy ===== *)
theory Command_Format
  imports Command_Laws
begin

text \<open>
  Format strings of commands: \<open>split_format\<close> gives the arguments that a format of literal text,
  \<^verbatim>\<open>%s\<close>, \<^verbatim>\<open>%b\<close> and \<^verbatim>\<open>%%\<close> stands for.
\<close>

definition field :: "char \<Rightarrow> va list \<Rightarrow> (string \<times> va list) option" where
  "field d vs =
     (if d = CHR ''s'' then (case vs of Va_str a # vs \<Rightarrow> strlen a \<bind> (\<lambda>n. Some (take n a, vs)) | _ \<Rightarrow> None)
      else if d = CHR ''b''
      then (case vs of Va_str a # Va_size n # vs \<Rightarrow> if n \<le> length a then Some (take n a, vs) else None | _ \<Rightarrow> None)
      else if d = CHR ''%'' then Some (''%'', vs)
      else None)"

fun split_format :: "string \<Rightarrow> va list \<Rightarrow> string list \<Rightarrow> string \<Rightarrow> bool \<Rightarrow> string list option" where
  "split_format [] vs xs cur t = Some (if t then xs @ [cur] else xs)"
| "split_format [c] vs xs cur t =
     (if c = CHR '' '' then Some (if t then xs @ [cur] else xs) else Some (xs @ [cur @ [c]]))"
| "split_format (c # d # fmt) vs xs cur t =
     (if c = CHR ''%'' then field d vs \<bind> (\<lambda>(x, vs). split_format fmt vs xs (cur @ x) True)
      else if c = CHR '' ''
      then if t then split_format (d # fmt) vs (xs @ [cur]) [] False else split_format (d # fmt) vs xs cur t
      else split_format (d # fmt) vs xs (cur @ [c]) True)"

lemma strlen_bound: "strlen a = Some n \<Longrightarrow> n \<le> length a"
  by (induction a arbitrary: n) (auto split: if_splits)

text \<open>The text so far never gets shorter.\<close>

lemma split_format_grows:
  "split_format fmt vs xs cur t = Some ys \<Longrightarrow> t \<or> cur = [] \<Longrightarrow> length (words xs) + length cur \<le> length (words ys)"
proof (induction fmt vs xs cur t rule: split_format.induct)
  case (3 c d fmt vs xs cur t)
  consider "c = CHR ''%''" | "c = CHR '' ''" t | "c = CHR '' ''" "\<not> t" | "c \<noteq> CHR ''%''" "c \<noteq> CHR '' ''" by blast
  then show ?case
  proof cases
    case 1
    then obtain x vs' where "field d vs = Some (x, vs')" "split_format fmt vs' xs (cur @ x) True = Some ys"
      using 3(5) by (auto split: bind_splits)
    then show ?thesis using 3(1)[OF 1, of "(x, vs')"] by simp
  next
    case 2
    then show ?thesis using 3(2)[OF _ 2] 3(5) by (simp add: encode.simps)
  next
    case 3
    then show ?thesis using "3.IH"(3) "3.prems" by simp
  next
    case 4
    then show ?thesis using "3.IH"(4) "3.prems" by simp
  qed
qed (auto simp: encode.simps split: if_splits)

text \<open>The state of the loop: \<open>xs\<close> are the arguments so far, \<open>cur\<close> the current one.\<close>

definition fmt_at :: "nat \<Rightarrow> va list \<Rightarrow> string list \<Rightarrow> string \<Rightarrow> bool \<Rightarrow> fmt_state \<Rightarrow> bool" where
  "fmt_at n vs xs cur t f \<longleftrightarrow> at_c f = n \<and> ap f = vs \<and> touched f = t
     \<and> sds_ok (curarg f) \<and> str (curarg f) = cur \<and> list_all2 (\<lambda>s x. sds_ok s \<and> str s = x) (curargv f) xs
     \<and> totlen f = int (length (words xs))"

lemma fmt_at_arg:
  assumes "fmt_at n vs xs cur t f" and "sds_ok s" and "str s = cur @ x"
  shows "fmt_at (n + k) vs' xs (cur @ x) True (f\<lparr>ap := vs', curarg := s, touched := True, at_c := n + k\<rparr>)"
  using assms by (simp add: fmt_at_def)

lemma round_literal:
  assumes mal: "never_null mal" and f: "fmt_at (length pre) vs xs cur t f" and c: "c \<noteq> CHR '' ''" "c \<noteq> NUL"
    and plain: "c = CHR ''%'' \<Longrightarrow> fmt = []" and sm: "length cur < 2 ^ 31"
  shows "\<exists>g. format_round mal pf (cstr (pre @ c # fmt)) f = Some (Inr g) \<and> fmt_at (Suc (length pre)) vs xs (cur @ [c]) True g"
proof -
  let ?m = "cstr (pre @ c # fmt)"
  have l: "Sds.len (curarg f) = length cur" using f length_str[of "curarg f"] by (simp add: fmt_at_def)
  have "small (Sds.len (curarg f) + 1)" using l sm by (simp add: small_def)
  then obtain s where s: "sdscatlen mal (curarg f) (drop (at_c f) ?m) 1 = Some (Some s)" "sds_ok s" "str s = cur @ [c]"
    using sdscatlen_gives[of "curarg f" 1 "drop (at_c f) ?m" mal] f never_null_gives[OF mal]
    by (auto simp: fmt_at_def cstr_def)
  have "rd ?m (at_c f) = Some c" using f by (simp add: fmt_at_def cstr_def nth_append)
  moreover have "c = CHR ''%'' \<Longrightarrow> rd ?m (at_c f + 1) = Some NUL"
    using f plain by (simp add: fmt_at_def cstr_def nth_append)
  ultimately show ?thesis using s c f by (auto simp: format_round_def fmt_at_def)
qed

lemma push_curarg_spec:
  assumes mal: "never_null mal" and f: "fmt_at n vs xs cur t f" and sm: "length (words (xs @ [cur])) < 2 ^ 31"
  shows "\<exists>g. push_curarg mal f = Some g \<and> curargv g = curargv f @ [curarg f] \<and> totlen g = int (length (words (xs @ [cur])))
    \<and> at_c g = at_c f \<and> ap g = ap f \<and> list_all2 (\<lambda>s x. sds_ok s \<and> str s = x) (curargv g) (xs @ [cur])"
proof -
  have l: "sdslen (curarg f) = length cur" using f length_str[of "curarg f"] by (simp add: fmt_at_def sdslen_def)
  have b: "bulklen (length cur) = length (encode (Bulk cur))" using sm by (intro bulklen_encode) simp
  obtain q where "mal (8 * (length (curargv f) + 1)) = Some q" using mal unfolding never_null_def by blast
  then show ?thesis using f sm l b by (auto simp: push_curarg_def fmt_at_def list_all2_appendI)
qed

lemma round_space:
  assumes mal: "never_null mal" and f: "fmt_at (length pre) vs xs cur t f"
    and sm: "length (words (xs @ [cur])) < 2 ^ 31"
  shows "\<exists>g. format_round mal pf (cstr (pre @ CHR '' '' # fmt)) f = Some (Inr g)
    \<and> fmt_at (Suc (length pre)) vs (if t then xs @ [cur] else xs) (if t then [] else cur) False g"
proof -
  let ?m = "cstr (pre @ CHR '' '' # fmt)"
  obtain g where g: "push_curarg mal f = Some g" "totlen g = int (length (words (xs @ [cur])))"
    "at_c g = at_c f" "ap g = ap f" "list_all2 (\<lambda>s x. sds_ok s \<and> str s = x) (curargv g) (xs @ [cur])"
    using push_curarg_spec[OF mal f sm] by blast
  obtain e where e: "sdsempty mal = Some (Some e)" "sds_ok e" "str e = []"
    using sdsempty_gives[of mal] never_null_gives[OF mal] by auto
  have "rd ?m (at_c f) = Some (CHR '' '')" using f by (simp add: fmt_at_def cstr_def nth_append)
  then show ?thesis using f g e by (cases t) (auto simp: format_round_def fmt_at_def)
qed

lemma round_field:
  assumes mal: "never_null mal" and f: "fmt_at (length pre) vs xs cur t f"
    and x: "field d vs = Some (x, vs')" and sm: "length (cur @ x) < 2 ^ 31"
  shows "\<exists>g. format_round mal pf (cstr (pre @ CHR ''%'' # d # fmt)) f = Some (Inr g)
    \<and> fmt_at (length pre + 2) vs' xs (cur @ x) True g"
proof -
  let ?m = "cstr (pre @ CHR ''%'' # d # fmt)"
  have l: "Sds.len (curarg f) = length cur" and ok: "sds_ok (curarg f)" "str (curarg f) = cur" "ap f = vs" "at_c f = length pre"
    using f length_str[of "curarg f"] by (simp_all add: fmt_at_def)
  have put: "\<exists>s. (if n > 0 then sdscatlen mal (curarg f) a n else Some (Some (curarg f))) = Some (Some s) \<and> sds_ok s \<and> str s = cur @ x"
    if "x = take n a" "n \<le> length a" for n a
  proof -
    have "small (Sds.len (curarg f) + n)" using l sm that by (simp add: small_def)
    then show ?thesis using sdscatlen_gives[OF ok(1) _ that(2), of mal] never_null_gives[OF mal] that ok by auto
  qed
  have pct: "\<exists>s. sdscat mal (curarg f) (cstr ''%'') = Some (Some s) \<and> sds_ok s \<and> str s = cur @ ''%''"
  proof -
    have "small (Sds.len (curarg f) + 1)" using l sm by (simp add: small_def)
    then show ?thesis using sdscatlen_gives[OF ok(1), of 1 "cstr ''%''" mal] never_null_gives[OF mal] ok
      by (auto simp: sdscat_def cstr_def)
  qed
  have c: "rd ?m (at_c f) = Some (CHR ''%'')" "rd ?m (at_c f + 1) = Some d"
    using ok by (simp_all add: cstr_def nth_append)
  consider (s) a n where "d = CHR ''s''" "vs = Va_str a # vs'" "strlen a = Some n" "x = take n a"
    | (b) a n where "d = CHR ''b''" "vs = Va_str a # Va_size n # vs'" "n \<le> length a" "x = take n a"
    | (p) "d = CHR ''%''" "x = ''%''" "vs' = vs"
    using x by (auto simp: field_def split: if_splits list.splits va.splits bind_splits)
  then have "\<exists>s. directive mal pf ?m f = Some (Inr (Some s, f\<lparr>ap := vs'\<rparr>)) \<and> sds_ok s \<and> str s = cur @ x"
  proof cases
    case s
    then show ?thesis using put[of n a] strlen_bound c ok by (auto simp: directive_def)
  next
    case b
    then show ?thesis using put[of n a] c ok by (auto simp: directive_def)
  next
    case p
    then show ?thesis using pct c ok by (auto simp: directive_def)
  qed
  moreover have "d \<noteq> NUL" using x by (auto simp: field_def split: if_splits)
  ultimately show ?thesis using c f by (auto simp: format_round_def fmt_at_def)
qed

lemma format_while_step:
  "format_round mal pf (cstr (pre @ c # fmt)) f = Some (Inr g) \<Longrightarrow> c \<noteq> NUL \<Longrightarrow> at_c f = length pre \<Longrightarrow>
   format_while mal pf (cstr (pre @ c # fmt)) f = format_while mal pf (cstr (pre @ c # fmt)) g"
  by (subst format_while.simps) (simp add: cstr_def nth_append)

lemma format_while_end:
  "fmt_at (length m) vs xs cur t f \<Longrightarrow> format_while mal pf (cstr m) f = Some (Inr f)"
  by (subst format_while.simps) (simp add: cstr_def fmt_at_def)

lemma format_while_spec:
  assumes mal: "never_null mal"
  shows "split_format fmt vs xs cur t = Some ys \<Longrightarrow> NUL \<notin> set fmt \<Longrightarrow> t \<or> cur = [] \<Longrightarrow> length (words ys) < 2 ^ 31 \<Longrightarrow>
    fmt_at (length pre) vs xs cur t f \<Longrightarrow>
    \<exists>g vs' zs cur' t'. format_while mal pf (cstr (pre @ fmt)) f = Some (Inr g)
      \<and> fmt_at (length (pre @ fmt)) vs' zs cur' t' g \<and> ys = (if t' then zs @ [cur'] else zs)"
proof (induction fmt vs xs cur t arbitrary: pre f rule: split_format.induct)
  case (1 vs xs cur t)
  then have "format_while mal pf (cstr (pre @ [])) f = Some (Inr f)" using format_while_end[of "pre @ []"] by simp
  moreover have "ys = (if t then xs @ [cur] else xs)" using 1(1) by simp
  ultimately show ?case using 1(5) by (metis append_Nil2)
next
  case (2 c vs xs cur t)
  have at: "at_c f = length pre" using 2(5) by (simp add: fmt_at_def)
  have lc: "length (words xs) + length cur < 2 ^ 31" using split_format_grows[OF 2(1,3)] 2(4) by simp
  have c0: "c \<noteq> NUL" using 2(2) by simp
  show ?case
  proof (cases "c = CHR '' ''")
    case True
    show ?thesis
    proof (cases t)
      case t: True
      then have "length (words (xs @ [cur])) < 2 ^ 31" using 2(1,4) True by simp
      from round_space[OF mal 2(5) this, of pf "[]"] t True obtain g where
        g: "format_round mal pf (cstr (pre @ [c])) f = Some (Inr g)" "fmt_at (Suc (length pre)) vs (xs @ [cur]) [] False g" by auto
      moreover have "ys = xs @ [cur]" using 2(1) True t by simp
      ultimately show ?thesis using format_while_step[OF g(1) c0 at] format_while_end[of "pre @ [c]" vs "xs @ [cur]" "[]" False g mal pf]
        by (metis (full_types) length_append_singleton)
    next
      case t: False
      have "format_round mal pf (cstr (pre @ [c])) f = Some (Inr (f\<lparr>at_c := at_c f + 1\<rparr>))"
        using True t 2(5) by (auto simp: format_round_def fmt_at_def cstr_def nth_append)
      moreover have "fmt_at (length (pre @ [c])) vs xs cur False (f\<lparr>at_c := at_c f + 1\<rparr>)" using 2(5) t by (simp add: fmt_at_def)
      moreover have "ys = xs" using 2(1) True t by simp
      ultimately show ?thesis using format_while_step[OF _ c0 at] format_while_end by (metis (full_types))
    qed
  next
    case False
    from round_literal[OF mal 2(5) False c0, of "[]" pf] lc obtain g where
      g: "format_round mal pf (cstr (pre @ [c])) f = Some (Inr g)" "fmt_at (length (pre @ [c])) vs xs (cur @ [c]) True g" by auto
    moreover have "ys = xs @ [cur @ [c]]" using 2(1) False by simp
    ultimately show ?thesis using format_while_step[OF g(1) c0 at] format_while_end[OF g(2)] by (metis (full_types))
  qed
next
  case (3 c d fmt vs xs cur t)
  have at: "at_c f = length pre" using 3(9) by (simp add: fmt_at_def)
  have lc: "length (words xs) + length cur < 2 ^ 31" using split_format_grows[OF 3(5,7)] 3(8) by simp
  have c0: "c \<noteq> NUL" "NUL \<notin> set (d # fmt)" "NUL \<notin> set fmt" using 3(6) by auto
  have shift: "cstr (pre @ c # d # fmt) = cstr ((pre @ [c]) @ d # fmt)" "cstr (pre @ c # d # fmt) = cstr ((pre @ [c, d]) @ fmt)" by simp_all
  consider "c = CHR ''%''" | "c = CHR '' ''" | "c \<noteq> CHR ''%''" "c \<noteq> CHR '' ''" by blast
  then show ?case
  proof cases
    case 1
    then obtain x vs' where x: "field d vs = Some (x, vs')" "split_format fmt vs' xs (cur @ x) True = Some ys"
      using 3(5) by (auto split: bind_splits)
    have "length (cur @ x) < 2 ^ 31" using split_format_grows[OF x(2)] 3(8) by simp
    from round_field[OF mal 3(9) x(1) this, of pf fmt] 1 obtain g where
      g: "format_round mal pf (cstr (pre @ c # d # fmt)) f = Some (Inr g)" "fmt_at (length (pre @ [c, d])) vs' xs (cur @ x) True g" by auto
    have step: "format_while mal pf (cstr (pre @ c # d # fmt)) f = format_while mal pf (cstr (pre @ c # d # fmt)) g"
      by (rule format_while_step[OF g(1) c0(1) at])
    have "\<exists>g' vs'' zs cur' t'. format_while mal pf (cstr ((pre @ [c, d]) @ fmt)) g = Some (Inr g')
      \<and> fmt_at (length ((pre @ [c, d]) @ fmt)) vs'' zs cur' t' g' \<and> ys = (if t' then zs @ [cur'] else zs)"
      using 3(1)[OF 1 x(1) refl x(2) c0(3) _ 3(8) g(2)] by simp
    then show ?thesis unfolding step by simp
  next
    case 2
    have "\<exists>g. format_round mal pf (cstr (pre @ CHR '' '' # d # fmt)) f = Some (Inr g)
      \<and> fmt_at (Suc (length pre)) vs (if t then xs @ [cur] else xs) (if t then [] else cur) False g"
    proof (cases t)
      case True
      have "length (words (xs @ [cur])) < 2 ^ 31"
        using split_format_grows[of "d # fmt" vs "xs @ [cur]" "[]" False ys] 3(5,8) True 2 by simp
      then show ?thesis using round_space[OF mal 3(9)] by simp
    next
      case False
      then show ?thesis using 3(9) by (auto simp: format_round_def fmt_at_def cstr_def nth_append)
    qed
    then obtain g where g: "format_round mal pf (cstr (pre @ c # d # fmt)) f = Some (Inr g)"
      "fmt_at (length (pre @ [c])) vs (if t then xs @ [cur] else xs) (if t then [] else cur) False g" using 2 by auto
    have step: "format_while mal pf (cstr (pre @ c # d # fmt)) f = format_while mal pf (cstr (pre @ c # d # fmt)) g"
      by (rule format_while_step[OF g(1) c0(1) at])
    have c': "c \<noteq> CHR ''%''" using 2 by simp
    have "\<exists>g' vs'' zs cur' t'. format_while mal pf (cstr ((pre @ [c]) @ d # fmt)) g = Some (Inr g')
      \<and> fmt_at (length ((pre @ [c]) @ d # fmt)) vs'' zs cur' t' g' \<and> ys = (if t' then zs @ [cur'] else zs)"
    proof (cases t)
      case True
      then show ?thesis using 3(2)[OF c' 2 True _ c0(2) _ 3(8), of "pre @ [c]" g] g(2) 3(5) 2 by simp
    next
      case False
      then show ?thesis using 3(3)[OF c' 2 False _ c0(2) 3(7,8), of "pre @ [c]" g] g(2) 3(5) 2 by simp
    qed
    then show ?thesis unfolding step by simp
  next
    case plain: 3
    from round_literal[OF mal 3(9) plain(2) c0(1), of "d # fmt" pf] lc plain(1) obtain g where
      g: "format_round mal pf (cstr (pre @ c # d # fmt)) f = Some (Inr g)" "fmt_at (length (pre @ [c])) vs xs (cur @ [c]) True g" by auto
    have step: "format_while mal pf (cstr (pre @ c # d # fmt)) f = format_while mal pf (cstr (pre @ c # d # fmt)) g"
      by (rule format_while_step[OF g(1) c0(1) at])
    have "\<exists>g' vs'' zs cur' t'. format_while mal pf (cstr ((pre @ [c]) @ d # fmt)) g = Some (Inr g')
      \<and> fmt_at (length ((pre @ [c]) @ d # fmt)) vs'' zs cur' t' g' \<and> ys = (if t' then zs @ [cur'] else zs)"
      using 3(4)[OF plain _ c0(2) _ 3(8) g(2)] 3(5) plain by simp
    then show ?thesis unfolding step by simp
  qed
qed

lemma build_command_spec:
  assumes mal: "never_null mal" and l: "list_all2 (\<lambda>s x. sds_ok s \<and> str s = x) (curargv f) xs"
    and tot: "totlen f = int (length (words xs))" and sm: "length (encode (Multi (map Bulk xs))) < 2 ^ 31 - 1"
  shows "build_command mal f = Some (int (length (encode (Multi (map Bulk xs)))), Some (cstr (encode (Multi (map Bulk xs)))))"
proof -
  define n where "n = length (encode (Multi (map Bulk xs)))"
  have ll: "length (curargv f) = length xs" using l by (rule list_all2_lengthD)
  have h: "argv_holds (map buf (curargv f)) (Some (map sdslen (curargv f))) xs"
    unfolding argv_holds_def
  proof (intro conjI allI impI)
    fix j assume "j < length xs"
    then have "sds_ok (curargv f ! j)" "str (curargv f ! j) = xs ! j" using l ll by (auto simp: list_all2_conv_all_nth)
    then show "arg_len (map buf (curargv f)) (Some (map sdslen (curargv f))) j = Some (length (xs ! j))"
      "prefix (xs ! j) (map buf (curargv f) ! j)"
      using \<open>j < length xs\<close> ll length_str[of "curargv f ! j"]
        take_is_prefix[of "Sds.len (curargv f ! j)" "buf (curargv f ! j)"] by (auto simp: arg_len_def sdslen_def str_def)
  qed (use ll in simp)
  have n': "length (words xs) + (1 + countDigits (length xs) + 2) = n"
    unfolding n_def encode_words by (simp add: countDigits_dec)
  then have t: "int32 (totlen f + int (1 + countDigits (length xs) + 2)) = int n"
    using tot sm[folded n_def] by (simp flip: of_nat_add)
  obtain c where c: "s_malloc mal (size_t (int32 (int32 (int n) + 1))) = Some c" "length c = n + 1"
    using malloc_of[OF mal, of n] sm n_def by auto
  obtain c' where "sprintf_at c 0 (''*'' @ dec (length xs) @ CRLF) \<bind> (\<lambda>(cmd, pos).
      put_for (map buf (curargv f)) (Some (map sdslen (curargv f))) [0..<length xs] cmd pos) = Some (c', n)"
    "length c' = n + 1" "c'[n := NUL] = cstr (encode (Multi (map Bulk xs)))"
    using put_all[OF h n_def c(2)] by auto
  moreover have "int32 (int n) = int n" using sm n_def by simp
  ultimately show ?thesis using t c unfolding build_command_def n_def[symmetric] ll
    by (auto simp: Let_def split: bind_splits)
qed

text \<open>
  C25. A format of literal text, blanks, \<^verbatim>\<open>%s\<close>, \<^verbatim>\<open>%b\<close> and \<^verbatim>\<open>%%\<close>: \<^verbatim>\<open>redisvFormatCommand\<close> returns
  the protocol text of the arguments that the format spells, separated by runs of blanks.
\<close>

theorem redisvFormatCommand_correct:
  assumes "split_format fmt vs [] [] False = Some xs" and "NUL \<notin> set fmt" and "never_null mal"
    and "length (encode (Multi (map Bulk xs))) < 2 ^ 31 - 1"
  shows "redisvFormatCommand mal pf (cstr fmt) vs
    = Some (int (length (encode (Multi (map Bulk xs)))), Some (cstr (encode (Multi (map Bulk xs)))))"
proof -
  obtain e where e: "sdsempty mal = Some (Some e)" "sds_ok e" "str e = []"
    using sdsempty_gives[of mal] never_null_gives[OF assms(3)] by auto
  have lw: "length (words xs) < 2 ^ 31 - 1" using assms(4) unfolding encode_words by simp
  let ?f = "\<lparr>curarg = e, touched = False, curargv = [], totlen = 0, at_c = 0, ap = vs\<rparr>"
  have "fmt_at (length []) vs [] [] False ?f" using e by (simp add: fmt_at_def)
  then obtain g vs' zs cur' t' where g: "format_while mal pf (cstr ([] @ fmt)) ?f = Some (Inr g)"
    "fmt_at (length ([] @ fmt)) vs' zs cur' t' g" "xs = (if t' then zs @ [cur'] else zs)"
    using format_while_spec[OF assms(3,1,2) _ _, of "[]" ?f pf] lw by auto
  show ?thesis
  proof (cases t')
    case False
    then show ?thesis using e(1) g build_command_spec[OF assms(3) _ _ assms(4), of g]
      by (simp add: redisvFormatCommand_def fmt_at_def)
  next
    case True
    then obtain h where "push_curarg mal g = Some h" "totlen h = int (length (words xs))"
      "list_all2 (\<lambda>s x. sds_ok s \<and> str s = x) (curargv h) xs"
      using push_curarg_spec[OF assms(3) g(2)] g(3) lw by auto
    then show ?thesis using True e(1) g build_command_spec[OF assms(3) _ _ assms(4), of h]
      by (simp add: redisvFormatCommand_def fmt_at_def)
  qed
qed

subsection \<open>A truncated conversion\<close>

lemma skip_while_to:
  "i \<le> length ds \<Longrightarrow> (\<And>j. i \<le> j \<Longrightarrow> j < length ds \<Longrightarrow> ds ! j \<noteq> NUL \<and> P (ds ! j)) \<Longrightarrow>
   skip_while P (pre @ cstr ds) (length pre + i) = Some (length pre + length ds)"
proof (induction "length ds - i" arbitrary: i)
  case 0
  then have "i = length ds" by simp
  then show ?case by (subst skip_while.simps) (simp add: nth_append)
next
  case (Suc k)
  then have "i < length ds" by simp
  moreover have "skip_while P (pre @ cstr ds) (length pre + Suc i) = Some (length pre + length ds)"
    using Suc(2) by (intro Suc(1)) (use Suc(4) in auto)
  ultimately show ?case using Suc(4)[of i] by (subst skip_while.simps) (simp add: nth_append)
qed

lemma skip_digits:
  assumes "\<forall>c\<in>set ds. isdigit c"
  shows "i \<le> length ds \<Longrightarrow> \<exists>j. skip_while (strchr ''#0-+ '') (pre @ cstr ds) (length pre + i) = Some (length pre + j) \<and> j \<le> length ds"
proof (induction "length ds - i" arbitrary: i)
  case 0
  then show ?case by (subst skip_while.simps) (auto simp: nth_append)
next
  case (Suc k)
  then have "ds ! i \<in> set ds" by simp
  then have nz: "ds ! i \<noteq> NUL" using assms by (fastforce simp: isdigit_def code_def)
  show ?case
  proof (cases "strchr ''#0-+ '' (ds ! i)")
    case True
    then have "skip_while (strchr ''#0-+ '') (pre @ cstr ds) (length pre + i)
        = skip_while (strchr ''#0-+ '') (pre @ cstr ds) (length pre + Suc i)"
      using Suc(2) nz by (subst skip_while.simps) (auto simp: nth_append)
    then show ?thesis using Suc(1)[of "Suc i"] Suc(2) by simp
  next
    case False
    then show ?thesis using Suc(2) by (subst skip_while.simps) (auto simp: nth_append intro!: exI[of _ i])
  qed
qed

lemma overread_step:
  assumes c: "to_conversion m 1 = Some (1 + k)" "conversion m (1 + k) = Some (Some (K_int, 1 + k))"
    and m: "bytes_at m 0 (k + 2) = Some m" "strlen (cstr m) = Some (1 + k)" "k < 12"
      "rd m 0 = Some (CHR ''%'')" "rd m 1 = Some d" "isdigit d" "length m = k + 2"
    and put: "\<And>t out. pf t (ap f) = Some out \<Longrightarrow> \<exists>s. sdscatvprintf mal (curarg f) (1 + k) out = Some (Some s)"
    and f: "at_c f = 0"
  shows "format_while mal pf m f = None"
proof -
  have "printf_directive mal pf m f = None
      \<or> (\<exists>s vs'. printf_directive mal pf m f = Some (Inr (Some s, f\<lparr>at_c := k, ap := vs'\<rparr>)))"
  proof (cases "va_arg K_int (ap f)")
    case None
    then show ?thesis using c f by (simp add: printf_directive_def)
  next
    case (Some vs')
    show ?thesis
    proof (cases "pf (take (1 + k) m) (ap f)")
      case None
      then show ?thesis using c f m(1-3) Some by (simp add: printf_directive_def)
    next
      case pf: (Some out)
      obtain s where "sdscatvprintf mal (curarg f) (1 + k) out = Some (Some s)" using put[OF pf] by blast
      then show ?thesis using c f m(1-3) Some pf by (auto simp: printf_directive_def)
    qed
  qed
  moreover have "directive mal pf m f = printf_directive mal pf m f"
    using m(5,6) f by (auto simp: directive_def isdigit_def code_def)
  moreover have "d \<noteq> NUL" using m(6) by (auto simp: isdigit_def code_def)
  ultimately have r: "format_round mal pf m f = None \<or> (\<exists>g. format_round mal pf m f = Some (Inr g) \<and> at_c g = length m)"
    using m(4,5,7) f by (auto simp: format_round_def)
  have "format_while mal pf m g = None" if "at_c g = length m" for g
    using that by (subst format_while.simps) simp
  then show ?thesis
    using r m(4) f by (subst format_while.simps) auto
qed

text \<open>
  A format that ends inside a conversion, such as \<^verbatim>\<open>%5\<close>: \<^verbatim>\<open>strchr\<close> finds the terminating NUL
  among the integer conversions, the cursor steps over it and the loop reads beyond the format.
\<close>

theorem redisvFormatCommand_overread:
  assumes "never_null mal" and "ds \<noteq> []" and "\<forall>c\<in>set ds. isdigit c" and "length ds < 12"
    and "\<forall>t vs out. pf t vs = Some out \<longrightarrow> length out < 2 ^ 59"
  shows "redisvFormatCommand mal pf (cstr (CHR ''%'' # ds)) vs = None"
proof -
  let ?m = "cstr (CHR ''%'' # ds)"
  obtain e where e: "sdsempty mal = Some (Some e)" "sds_ok e" "str e = []"
    using sdsempty_gives[of mal] never_null_gives[OF assms(1)] by auto
  have le: "Sds.len e = 0" using e length_str[of e] by simp
  let ?f = "\<lparr>curarg = e, touched = False, curargv = [], totlen = 0, at_c = 0, ap = vs\<rparr>"
  have m: "?m = ''%'' @ cstr ds" by (simp add: cstr_def)
  have nz: "ds ! j \<noteq> NUL \<and> isdigit (ds ! j)" if "j < length ds" for j
    using nth_mem[OF that] assms(3) by (fastforce simp: isdigit_def code_def)
  obtain j where j: "skip_while (strchr ''#0-+ '') ?m 1 = Some (1 + j)" "j \<le> length ds"
    using skip_digits[OF assms(3), of 0 "''%''"] unfolding m by auto
  have "skip_while isdigit ?m (1 + j) = Some (1 + length ds)"
    using skip_while_to[OF j(2), of isdigit "''%''"] nz unfolding m by simp
  moreover have fin: "rd ?m (1 + length ds) = Some NUL" by (simp add: cstr_def)
  ultimately have c1: "to_conversion ?m 1 = Some (1 + length ds)" using j(1) by (simp add: to_conversion_def)
  have c2: "conversion ?m (1 + length ds) = Some (Some (K_int, 1 + length ds))"
    using fin by (simp add: conversion_def strchr_def Let_def)
  note c = c1 c2
  have "\<not> isdigit NUL" by (simp add: isdigit_def code_def)
  then have "\<forall>c\<in>set ds. c \<noteq> NUL" using assms(3) by blast
  then have tw: "takeWhile (\<lambda>c. c \<noteq> NUL) ds = ds" unfolding takeWhile_eq_all_conv .
  have "strlen (ds @ NUL # [NUL]) = Some (length ds)" unfolding strlen_nul tw ..
  then have mm: "bytes_at ?m 0 (length ds + 2) = Some ?m" "strlen (cstr ?m) = Some (1 + length ds)"
    by (simp_all add: bytes_at_def cstr_def)
  have put: "\<exists>s. sdscatvprintf mal e (1 + length ds) out = Some (Some s)" if "pf t vs = Some out" for t out
  proof -
    have l: "length out < 2 ^ 59" using assms(5) that by simp
    have "small (Sds.len e + length out)" "1 + length ds < 2 ^ 59" using l le assms(4) by (simp_all add: small_def)
    from sdscatvprintf_gives[OF e(2) this(1) l this(2), of mal] show ?thesis
      unfolding never_null_gives[OF assms(1)] by blast
  qed
  have "rd ?m 0 = Some (CHR ''%'')" "rd ?m 1 = Some (ds ! 0)" "isdigit (ds ! 0)" "length ?m = length ds + 2"
    using assms(2) nz[of 0] by (simp_all add: cstr_def nth_append)
  then have "format_while mal pf ?m ?f = None"
    by (intro overread_step[OF c mm assms(4)]) (use put in simp_all)
  then show ?thesis using e(1) by (simp add: redisvFormatCommand_def)
qed

subsection \<open>Witnesses\<close>

lemma set_k_v: "split_format ''SET %s %b'' [Va_str (cstr ''k''), Va_str ''a b'', Va_size 3] [] [] False = Some [''SET'', ''k'', ''a b'']"
  by (simp add: field_def cstr_def)

lemma redisvFormatCommand_correct_witness:
  "redisvFormatCommand zero_mal (\<lambda>_ _. None) (cstr ''SET %s %b'') [Va_str (cstr ''k''), Va_str ''a b'', Va_size 3]
    = Some (29, Some (cstr (encode (Multi (map Bulk [''SET'', ''k'', ''a b''])))))"
proof -
  have "length (encode (Multi (map Bulk [''SET'', ''k'', ''a b'']))) = 29"
    unfolding encode_words by (simp add: encode.simps dec.simps)
  then show ?thesis
    using redisvFormatCommand_correct[OF set_k_v _ never_null_zero, of "\<lambda>_ _. None"] by simp
qed

lemma redisvFormatCommand_overread_witness:
  "redisvFormatCommand zero_mal (\<lambda>_ _. Some ''7'') (cstr ''%5'') [Va_int 7] = None"
  using redisvFormatCommand_overread[OF never_null_zero, of "''5''" "\<lambda>_ _. Some ''7''" "[Va_int 7]"]
  by (simp add: isdigit_def code_def)

end
