(* ===== verification/Context.thy ===== *)
theory Context
  imports Command_Format
begin

text \<open>
  The connection context of \<^verbatim>\<open>9_using_hiredis_api/hiredis/hiredis.c\<close>: output buffer, reader and error
  state. The operating system is a script: what every \<^verbatim>\<open>read\<close> and \<^verbatim>\<open>write\<close> on the descriptor will do;
  a script that has come to its end is a call that never returns, \<open>None\<close>. Establishing and configuring
  a connection (\<^verbatim>\<open>net.c\<close>) is not modelled, a context starts with a connected descriptor.
\<close>

subsection \<open>The descriptor\<close>

text \<open>
  \<open>R_bytes []\<close> is the end of the stream. An error is its \<^verbatim>\<open>errno\<close> with the text of \<^verbatim>\<open>strerror_r\<close>.
\<close>

datatype read_event = R_bytes string | R_error int string
datatype write_event = W_bytes nat | W_error int string

record socket =
  reads :: "read_event list"
  writes :: "write_event list"
  written :: string

abbreviation (input) "EINTR \<equiv> 4 :: int"
abbreviation (input) "EAGAIN \<equiv> 11 :: int"

text \<open>\<^verbatim>\<open>read(fd, buf, n)\<close> and \<^verbatim>\<open>write(fd, buf, n)\<close>: the bytes or the number of bytes, or the error.\<close>

fun sys_read :: "nat \<Rightarrow> socket \<Rightarrow> ((int \<times> string) + string) option \<times> socket" where
  "sys_read n io =
     (case reads io of
        [] \<Rightarrow> (None, io)
      | R_error e t # rs \<Rightarrow> (Some (Inl (e, t)), io\<lparr>reads := rs\<rparr>)
      | R_bytes b # rs \<Rightarrow>
          (Some (Inr (take n b)), io\<lparr>reads := if length b \<le> n then rs else R_bytes (drop n b) # rs\<rparr>))"

fun sys_write :: "string \<Rightarrow> nat \<Rightarrow> socket \<Rightarrow> ((int \<times> string) + nat) option \<times> socket" where
  "sys_write b n io =
     (case writes io of
        [] \<Rightarrow> (None, io)
      | W_error e t # ws \<Rightarrow> (Some (Inl (e, t)), io\<lparr>writes := ws\<rparr>)
      | W_bytes k # ws \<Rightarrow> (Some (Inr (min k n)), io\<lparr>writes := ws, written := written io @ take (min k n) b\<rparr>))"

subsection \<open>Contexts\<close>

abbreviation (input) "REDIS_ERR_IO \<equiv> 1 :: int"
abbreviation (input) "REDIS_ERR_OTHER \<equiv> 2 :: int"
abbreviation (input) "REDIS_ERR_EOF \<equiv> 3 :: int"

record redisContext =
  cerr :: int
  cerrstr :: string
  fd :: int
  flags :: nat
  obuf :: "sdshdr option"
  reader :: "heap redisReader"

text \<open>\<^verbatim>\<open>c->flags & REDIS_BLOCK\<close>; \<^verbatim>\<open>REDIS_BLOCK\<close> is the lowest bit.\<close>

definition blocking :: "redisContext \<Rightarrow> bool" where
  "blocking c = bit (flags c) 0"

definition redisSetError :: "redisContext \<Rightarrow> int \<Rightarrow> string \<Rightarrow> redisContext" where
  "redisSetError c ty t = c\<lparr>cerr := ty, cerrstr := take (if length t < 127 then length t else 127) t\<rparr>"

text \<open>
  \<open>None\<close> is the null pointer. What \<^verbatim>\<open>calloc\<close> zeroes and the code sets later is not in the record.
\<close>

definition redisContextInit :: "(nat \<Rightarrow> bool) \<Rightarrow> allocator \<Rightarrow> heap \<Rightarrow> redisContext option option" where
  "redisContextInit mem mal h =
     (if \<not> mem 216 then Some None
      else sdsempty mal \<bind> (\<lambda>ob. redisReaderCreate mem mal h \<bind> (\<lambda>r.
             Some (case (ob, r) of
                     (Some ob, Some r) \<Rightarrow> Some \<lparr>cerr = 0, cerrstr = [], fd = 0, flags = 0, obuf = Some ob, reader = r\<rparr>
                   | _ \<Rightarrow> None))))"

definition redisConnectFd :: "(nat \<Rightarrow> bool) \<Rightarrow> allocator \<Rightarrow> heap \<Rightarrow> int \<Rightarrow> redisContext option option" where
  "redisConnectFd mem mal h d =
     redisContextInit mem mal h \<bind> (\<lambda>c. Some (map_option (\<lambda>c. c\<lparr>fd := d, flags := or (flags c) (or 1 2)\<rparr>) c))"

text \<open>What \<^verbatim>\<open>redisFree\<close> leaves of the objects, and whether it closes the descriptor.\<close>

definition redisFree :: "redisContext \<Rightarrow> (bool \<times> heap) option" where
  "redisFree c = map_option (Pair (fd c > 0)) (redisReaderFree (reader c))"

definition redisFreeKeepFd :: "redisContext \<Rightarrow> (int \<times> bool \<times> heap) option" where
  "redisFreeKeepFd c = map_option (Pair (fd c)) (redisFree (c\<lparr>fd := - 1\<rparr>))"

subsection \<open>Reading and writing\<close>

definition try_later :: "redisContext \<Rightarrow> int \<Rightarrow> bool" where
  "try_later c e \<longleftrightarrow> e = EAGAIN \<and> \<not> blocking c \<or> e = EINTR"

definition redisBufferRead ::
  "allocator \<Rightarrow> redisContext \<Rightarrow> socket \<Rightarrow> (result \<times> redisContext \<times> socket) option" where
  "redisBufferRead mal c io =
     (if cerr c \<noteq> 0 then Some (REDIS_ERR, c, io)
      else (case sys_read (1024 * 16) io of
              (None, _) \<Rightarrow> None
            | (Some (Inl (e, t)), io) \<Rightarrow>
                if try_later c e then Some (REDIS_OK, c, io) else Some (REDIS_ERR, redisSetError c REDIS_ERR_IO t, io)
            | (Some (Inr []), io) \<Rightarrow> Some (REDIS_ERR, redisSetError c REDIS_ERR_EOF ''Server closed the connection'', io)
            | (Some (Inr b), io) \<Rightarrow>
                redisReaderFeed mal (reader c) (Some b) (length b) \<bind> (\<lambda>(st, r).
                  (let c = c\<lparr>reader := r\<rparr>
                   in Some (if st \<noteq> REDIS_OK then (REDIS_ERR, redisSetError c (rerr r) (errstr r), io)
                            else (REDIS_OK, c, io))))))"

text \<open>The result and \<^verbatim>\<open>done\<close>.\<close>

definition redisBufferWrite ::
  "allocator \<Rightarrow> redisContext \<Rightarrow> socket \<Rightarrow> (result \<times> bool \<times> redisContext \<times> socket) option" where
  "redisBufferWrite mal c io =
     (if cerr c \<noteq> 0 then Some (REDIS_ERR, False, c, io)
      else obuf c \<bind> (\<lambda>s.
        (if sdslen s > 0
         then (case sys_write (buf s) (sdslen s) io of
                 (None, _) \<Rightarrow> None
               | (Some (Inl (e, t)), io) \<Rightarrow>
                   if try_later c e then Some (REDIS_OK, c, io) else Some (REDIS_ERR, redisSetError c REDIS_ERR_IO t, io)
               | (Some (Inr n), io) \<Rightarrow>
                   if n > 0
                   then if int32 (int n) = int32 (int (sdslen s))
                        then sdsempty mal \<bind> (\<lambda>e. Some (REDIS_OK, c\<lparr>obuf := e\<rparr>, io))
                        else sdsrange s (int32 (int n)) (- 1) \<bind> (\<lambda>s. Some (REDIS_OK, c\<lparr>obuf := Some s\<rparr>, io))
                   else Some (REDIS_OK, c, io))
         else Some (REDIS_OK, c, io)) \<bind> (\<lambda>(st, c, io).
           if st \<noteq> REDIS_OK then Some (REDIS_ERR, False, c, io)
           else obuf c \<bind> (\<lambda>s. Some (REDIS_OK, sdslen s = 0, c, io)))))"

definition redisGetReplyFromReader :: "redisContext \<Rightarrow> (result \<times> nat \<times> redisContext) option" where
  "redisGetReplyFromReader c =
     redisReaderGetReply (reader c) \<bind> (\<lambda>(st, ob, r).
       (let c = c\<lparr>reader := r\<rparr>
        in Some (if st = REDIS_ERR then (REDIS_ERR, ob, redisSetError c (rerr r) (errstr r)) else (REDIS_OK, ob, c))))"

partial_function (option) write_while ::
  "allocator \<Rightarrow> redisContext \<Rightarrow> socket \<Rightarrow> (result \<times> redisContext \<times> socket) option" where
  "write_while mal c io =
     redisBufferWrite mal c io \<bind> (\<lambda>(st, wdone, c, io).
       if st = REDIS_ERR then Some (REDIS_ERR, c, io)
       else if \<not> wdone then write_while mal c io
       else Some (REDIS_OK, c, io))"

partial_function (option) read_while ::
  "allocator \<Rightarrow> redisContext \<Rightarrow> socket \<Rightarrow> (result \<times> nat \<times> redisContext \<times> socket) option" where
  "read_while mal c io =
     redisBufferRead mal c io \<bind> (\<lambda>(st, c, io).
       if st = REDIS_ERR then Some (REDIS_ERR, 0, c, io)
       else redisGetReplyFromReader c \<bind> (\<lambda>(st, aux, c).
         if st = REDIS_ERR then Some (REDIS_ERR, 0, c, io)
         else if aux = 0 then read_while mal c io
         else Some (REDIS_OK, aux, c, io)))"

definition redisGetReply ::
  "allocator \<Rightarrow> redisContext \<Rightarrow> socket \<Rightarrow> (result \<times> nat \<times> redisContext \<times> socket) option" where
  "redisGetReply mal c io =
     redisGetReplyFromReader c \<bind> (\<lambda>(st, aux, c).
       if st = REDIS_ERR then Some (REDIS_ERR, 0, c, io)
       else if aux = 0 \<and> blocking c
       then write_while mal c io \<bind> (\<lambda>(st, c, io).
              if st = REDIS_ERR then Some (REDIS_ERR, 0, c, io) else read_while mal c io)
       else Some (REDIS_OK, aux, c, io))"

subsection \<open>Commands\<close>

text \<open>\<^verbatim>\<open>__redisAppendCommand\<close>\<close>

definition appendCommand :: "allocator \<Rightarrow> redisContext \<Rightarrow> string \<Rightarrow> nat \<Rightarrow> (result \<times> redisContext) option" where
  "appendCommand mal c cmd n =
     obuf c \<bind> (\<lambda>s. sdscatlen mal s cmd n \<bind> (\<lambda>new. case new of
       None \<Rightarrow> Some (REDIS_ERR, redisSetError c REDIS_ERR_OOM ''Out of memory'')
     | Some s \<Rightarrow> Some (REDIS_OK, c\<lparr>obuf := Some s\<rparr>)))"

definition redisAppendFormattedCommand ::
  "allocator \<Rightarrow> redisContext \<Rightarrow> string \<Rightarrow> nat \<Rightarrow> (result \<times> redisContext) option" where
  "redisAppendFormattedCommand mal c cmd n =
     appendCommand mal c cmd n \<bind> (\<lambda>(st, c). Some (if st \<noteq> REDIS_OK then REDIS_ERR else REDIS_OK, c))"

definition redisvAppendCommand ::
  "allocator \<Rightarrow> (string \<Rightarrow> va list \<Rightarrow> string option) \<Rightarrow> redisContext \<Rightarrow> string \<Rightarrow> va list \<Rightarrow> (result \<times> redisContext) option" where
  "redisvAppendCommand mal pf c m vs =
     redisvFormatCommand mal pf m vs \<bind> (\<lambda>(n, cmd).
       if n = - 1 then Some (REDIS_ERR, redisSetError c REDIS_ERR_OOM ''Out of memory'')
       else if n = - 2 then Some (REDIS_ERR, redisSetError c REDIS_ERR_OTHER ''Invalid format string'')
       else cmd \<bind> (\<lambda>cmd. appendCommand mal c cmd (size_t n)))"

definition redisAppendCommandArgv ::
  "allocator \<Rightarrow> redisContext \<Rightarrow> nat \<Rightarrow> string list \<Rightarrow> nat list option \<Rightarrow> (result \<times> redisContext) option" where
  "redisAppendCommandArgv mal c argc argv argvlen =
     redisFormatSdsCommandArgv mal argc argv argvlen \<bind> (\<lambda>(n, cmd).
       if n = - 1 then Some (REDIS_ERR, redisSetError c REDIS_ERR_OOM ''Out of memory'')
       else cmd \<bind> (\<lambda>cmd. appendCommand mal c (buf cmd) (size_t n)))"

text \<open>\<^verbatim>\<open>__redisBlockForReply\<close>: the reply or the null pointer.\<close>

definition blockForReply :: "allocator \<Rightarrow> redisContext \<Rightarrow> socket \<Rightarrow> (nat \<times> redisContext \<times> socket) option" where
  "blockForReply mal c io =
     (if blocking c
      then redisGetReply mal c io \<bind> (\<lambda>(st, ob, c, io). Some (if st \<noteq> REDIS_OK then 0 else ob, c, io))
      else Some (0, c, io))"

definition redisvCommand ::
  "allocator \<Rightarrow> (string \<Rightarrow> va list \<Rightarrow> string option) \<Rightarrow> redisContext \<Rightarrow> string \<Rightarrow> va list \<Rightarrow> socket
     \<Rightarrow> (nat \<times> redisContext \<times> socket) option" where
  "redisvCommand mal pf c m vs io =
     redisvAppendCommand mal pf c m vs \<bind> (\<lambda>(st, c). if st \<noteq> REDIS_OK then Some (0, c, io) else blockForReply mal c io)"

definition redisCommandArgv ::
  "allocator \<Rightarrow> redisContext \<Rightarrow> nat \<Rightarrow> string list \<Rightarrow> nat list option \<Rightarrow> socket \<Rightarrow> (nat \<times> redisContext \<times> socket) option" where
  "redisCommandArgv mal c argc argv argvlen io =
     redisAppendCommandArgv mal c argc argv argvlen \<bind> (\<lambda>(st, c).
       if st \<noteq> REDIS_OK then Some (0, c, io) else blockForReply mal c io)"

declare sys_read.simps [simp del] sys_write.simps [simp del]

lemmas context_loops [code] = write_while.simps read_while.simps

subsection \<open>Writing\<close>

lemma write_while_done:
  assumes mal: "never_null mal"
  shows "obuf c = Some s \<Longrightarrow> sds_ok s \<Longrightarrow> sdslen s < 2 ^ 31 \<Longrightarrow> cerr c = 0 \<Longrightarrow> \<forall>k\<in>set ks. 0 < k \<Longrightarrow> sum_list ks = sdslen s \<Longrightarrow> str s \<noteq> [] \<Longrightarrow>
    writes io = map W_bytes ks @ ws \<Longrightarrow>
    \<exists>e. write_while mal c io = Some (REDIS_OK, c\<lparr>obuf := Some e\<rparr>, io\<lparr>writes := ws, written := written io @ str s\<rparr>)
      \<and> sds_ok e \<and> str e = []"
proof (induction ks arbitrary: c s io)
  case Nil
  then have "length (str s) = 0" using length_str[OF Nil(2)] unfolding sdslen_def by (metis sum_list.Nil)
  then show ?case using Nil(7) by simp
next
  case (Cons k ks)
  have l: "sdslen s = length (str s)" using Cons.prems(2) by (simp add: sdslen_def)
  have k: "0 < k" "k \<le> sdslen s" using Cons.prems(5,6) by auto
  have tk: "take k (buf s) = take k (str s)" using k(2) by (simp add: str_def sdslen_def min_def)
  define io' where "io' = io\<lparr>writes := map W_bytes ks @ ws, written := written io @ take k (str s)\<rparr>"
  have w: "sys_write (buf s) (sdslen s) io = (Some (Inr k), io')"
    using Cons.prems(8) k tk by (simp add: io'_def min_def sys_write.simps)
  have i32: "int32 (int k) = int k" "int32 (int (sdslen s)) = int (sdslen s)" using Cons.prems(3) k by simp_all
  show ?case
  proof (cases "k = sdslen s")
    case True
    then have "ks = []" using Cons.prems(5,6) by (cases ks) auto
    obtain e where e: "sdsempty mal = Some (Some e)" "sds_ok e" "str e = []"
      using sdsempty_gives[of mal] never_null_gives[OF mal] by auto
    have "sdslen e = 0" using e(2,3) length_str[of e] by (simp add: sdslen_def)
    then have "redisBufferWrite mal c io = Some (REDIS_OK, True, c\<lparr>obuf := Some e\<rparr>, io')"
      using w Cons.prems(1,4) k e(1) True i32 by (simp add: redisBufferWrite_def)
    then show ?thesis using e(2,3) True l \<open>ks = []\<close> by (subst write_while.simps) (auto simp: io'_def intro!: exI[of _ e])
  next
    case False
    obtain s' where s': "sdsrange s (int k) (- 1) = Some s'" "sds_ok s'" "str s' = drop k (str s)"
      using sdsrange_tail[OF Cons.prems(2,3) k(2)] by blast
    have l': "sdslen s' = sdslen s - k" using s'(2,3) l length_str[of s'] by (simp add: sdslen_def)
    have bw: "redisBufferWrite mal c io = Some (REDIS_OK, False, c\<lparr>obuf := Some s'\<rparr>, io')"
      using w Cons.prems(1,4) k s'(1) False i32 l' by (simp add: redisBufferWrite_def)
    have "\<exists>e. write_while mal (c\<lparr>obuf := Some s'\<rparr>) io' = Some (REDIS_OK, (c\<lparr>obuf := Some s'\<rparr>)\<lparr>obuf := Some e\<rparr>,
        io'\<lparr>writes := ws, written := written io' @ str s'\<rparr>) \<and> sds_ok e \<and> str e = []"
      using Cons.prems l l' s' k False by (intro Cons.IH) (auto simp: io'_def)
    moreover have "write_while mal c io = write_while mal (c\<lparr>obuf := Some s'\<rparr>) io'"
      by (subst write_while.simps) (simp add: bw)
    ultimately show ?thesis using s'(3) by (auto simp: io'_def)
  qed
qed

subsection \<open>Reading\<close>

lemma session_keeps_error: "rerr r \<noteq> 0 \<Longrightarrow> session mal r ts = Some (obs, r') \<Longrightarrow> rerr r' \<noteq> 0"
proof (induction ts arbitrary: obs)
  case (Cons t ts)
  then show ?case by (auto simp: redisReaderFeed_def redisReaderGetReply_def)
qed simp

lemma discard_err: "discard r = Some r' \<Longrightarrow> rerr r' = rerr r"
  by (auto simp: discard_def split: if_splits bind_splits)

lemma GetReply_status: "redisReaderGetReply r = Some (st, ob, r') \<Longrightarrow> st = REDIS_ERR \<longleftrightarrow> rerr r' \<noteq> 0"
  unfolding redisReaderGetReply_def
  by (auto split: if_splits bind_splits dest!: discard_err)

lemma Feed_status: "redisReaderFeed mal r t n = Some (st, r') \<Longrightarrow> rerr r' = 0 \<Longrightarrow> st = REDIS_OK"
  unfolding redisReaderFeed_def fail_def redisReaderSetErrorOOM_def
  by (auto split: if_splits bind_splits option.splits dest!: SetError_err)

lemma GetReply_fresh: "redisReaderGetReply r = Some (st, ob, r') \<Longrightarrow> rerr r \<noteq> 0 \<Longrightarrow> rerr r' \<noteq> 0"
  by (auto simp: redisReaderGetReply_def)

lemma read_while_session:
  "session mal (reader c) ts = Some (replicate (length ts - 1) 0 @ [ob], r') \<Longrightarrow> ts \<noteq> [] \<Longrightarrow> ob \<noteq> 0 \<Longrightarrow> rerr r' = 0 \<Longrightarrow>
   \<forall>t\<in>set ts. t \<noteq> [] \<and> length t \<le> 16384 \<Longrightarrow> cerr c = 0 \<Longrightarrow> reads io = map R_bytes ts @ rs \<Longrightarrow>
   read_while mal c io = Some (REDIS_OK, ob, c\<lparr>reader := r'\<rparr>, io\<lparr>reads := rs\<rparr>)"
proof (induction ts arbitrary: c io)
  case (Cons t ts)
  obtain st r1 st2 o2 r2 os where s: "redisReaderFeed mal (reader c) (Some t) (length t) = Some (st, r1)"
    "redisReaderGetReply r1 = Some (st2, o2, r2)" "session mal r2 ts = Some (os, r')"
    "o2 # os = replicate (length (t # ts) - 1) 0 @ [ob]"
    using Cons.prems(1) by (auto split: bind_splits)
  have r2: "rerr r2 = 0" using session_keeps_error[OF _ s(3)] Cons.prems(4) by blast
  then have r1: "rerr r1 = 0" using GetReply_fresh[OF s(2)] by blast
  have ok: "st = REDIS_OK" "st2 = REDIS_OK"
    using Feed_status[OF s(1) r1] GetReply_status[OF s(2)] r2 by (cases st2; simp)+
  define io' where "io' = io\<lparr>reads := map R_bytes ts @ rs\<rparr>"
  have "sys_read 16384 io = (Some (Inr t), io')"
    using Cons.prems(5,7) by (simp add: io'_def sys_read.simps)
  moreover obtain a u where "t = a # u" using Cons.prems(5) by (cases t) auto
  ultimately have "redisBufferRead mal c io = Some (REDIS_OK, c\<lparr>reader := r1\<rparr>, io')"
    using s(1) ok Cons.prems(6) by (simp add: redisBufferRead_def)
  moreover have "redisGetReplyFromReader (c\<lparr>reader := r1\<rparr>) = Some (REDIS_OK, o2, c\<lparr>reader := r2\<rparr>)"
    using s(2) ok by (simp add: redisGetReplyFromReader_def)
  ultimately have u: "read_while mal c io
      = (if o2 = 0 then read_while mal (c\<lparr>reader := r2\<rparr>) io' else Some (REDIS_OK, o2, c\<lparr>reader := r2\<rparr>, io'))"
    by (subst read_while.simps) simp
  show ?case
  proof (cases "ts = []")
    case True
    then show ?thesis using s(3,4) u Cons.prems(3) by (simp add: io'_def)
  next
    case False
    then have "o2 = 0" "os = replicate (length ts - 1) 0 @ [ob]" using s(4) by (cases ts; simp)+
    then show ?thesis using u Cons.IH[of "c\<lparr>reader := r2\<rparr>" io'] s(3) False Cons.prems(3-6) by (simp add: io'_def)
  qed
qed simp

subsection \<open>A command and its reply\<close>

lemma Create_fields: "redisReaderCreate mem mal h = Some (Some r) \<Longrightarrow> rlen r = 0 \<and> rerr r = 0"
  by (auto simp: redisReaderCreate_def redisReaderCreateWithFunctions_def split: if_splits bind_splits option.splits)

lemma redisGetReply_spec:
  assumes mal: "never_null mal" and c: "blocking c" "cerr c = 0" "obuf c = Some s" "sds_ok s" "sdslen s < 2 ^ 31" "str s \<noteq> []"
    and r: "rlen (reader c) = 0" "rerr (reader c) = 0"
    and ses: "session mal (reader c) ts = Some (replicate (length ts - 1) 0 @ [ob], r')" "ts \<noteq> []" "ob \<noteq> 0" "rerr r' = 0"
    and ts: "\<forall>t\<in>set ts. t \<noteq> [] \<and> length t \<le> 16384" and ks: "\<forall>k\<in>set ks. 0 < k" "sum_list ks = sdslen s"
  shows "\<exists>e. redisGetReply mal c \<lparr>reads = map R_bytes ts @ rs, writes = map W_bytes ks @ ws, written = w\<rparr>
    = Some (REDIS_OK, ob, c\<lparr>obuf := Some e, reader := r'\<rparr>, \<lparr>reads = rs, writes = ws, written = w @ str s\<rparr>)"
proof -
  let ?io = "\<lparr>reads = map R_bytes ts @ rs, writes = map W_bytes ks @ ws, written = w\<rparr>"
  have g: "redisGetReplyFromReader c = Some (REDIS_OK, 0, c)"
    using r by (simp add: redisGetReplyFromReader_def redisReaderGetReply_def)
  obtain e where e: "write_while mal c ?io = Some (REDIS_OK, c\<lparr>obuf := Some e\<rparr>, ?io\<lparr>writes := ws, written := written ?io @ str s\<rparr>)"
    using write_while_done[OF mal c(3-5,2) ks c(6), of ?io ws] by auto
  have "read_while mal (c\<lparr>obuf := Some e\<rparr>) \<lparr>reads = map R_bytes ts @ rs, writes = ws, written = w @ str s\<rparr>
      = Some (REDIS_OK, ob, (c\<lparr>obuf := Some e\<rparr>)\<lparr>reader := r'\<rparr>, \<lparr>reads = map R_bytes ts @ rs, writes = ws, written = w @ str s\<rparr>\<lparr>reads := rs\<rparr>)"
    by (rule read_while_session) (use ses ts c(2) in simp_all)
  then show ?thesis using g e c(1) by (auto simp: redisGetReply_def)
qed

lemma redisConnectFd_gives:
  assumes "redisReaderCreate mem mal h = Some (Some r)" and "\<forall>n. mem n" and "never_null mal"
  obtains c e where "redisConnectFd mem mal h d = Some (Some c)" "blocking c" "cerr c = 0" "reader c = r"
    "obuf c = Some e" "sds_ok e" "str e = []" "fd c = d"
proof -
  obtain e where "sdsempty mal = Some (Some e)" "sds_ok e" "str e = []"
    using sdsempty_gives[of mal] never_null_gives[OF assms(3)] by auto
  then show thesis using assms(1,2)
    by (intro that) (auto simp: redisConnectFd_def redisContextInit_def blocking_def bit_or_iff bit_1_iff)
qed

lemma appendCommand_gives:
  assumes "never_null mal" and "obuf c = Some e" and "sds_ok e" and "n < 2 ^ 61" and "sdslen e < 2 ^ 61" and "n \<le> length cmd"
  obtains s where "appendCommand mal c cmd n = Some (REDIS_OK, c\<lparr>obuf := Some s\<rparr>)" "sds_ok s" "str s = str e @ take n cmd"
proof -
  have "small (Sds.len e + n)" using assms(4,5) by (simp add: small_def sdslen_def)
  then obtain s where "sdscatlen mal e cmd n = Some (Some s)" "sds_ok s" "str s = str e @ take n cmd"
    using sdscatlen_gives[OF assms(3) _ assms(6), of mal] never_null_gives[OF assms(1)] by auto
  then show thesis using that assms(2) by (auto simp: appendCommand_def)
qed

end
