(* ===== verification/Dict.thy ===== *)
theory Dict
  imports Prelude "HOL-Library.Multiset"
begin

text \<open>
  \<^verbatim>\<open>9_using_hiredis_api/hiredis/dict.h\<close> and \<^verbatim>\<open>dict.c\<close>: the chained hash table. A chain of
  entries is a list, the pointer to an entry is the rest of its chain. \<open>mem n\<close> says whether
  an allocation of \<open>n\<close> bytes succeeds; the code does not look at the result, and a null
  table is one in which every access is out of bounds. What the destructors are called on is
  kept in order in \<open>freed\<close>.
\<close>

unbundle bit_operations_syntax

subsection \<open>The data model\<close>

datatype ('k, 'v) freed = Key 'k | Val 'v

record ('k, 'v) dictType =
  hashFunction :: "'k \<Rightarrow> nat"
  keyDup :: "('k \<Rightarrow> 'k) option"
  valDup :: "('v \<Rightarrow> 'v) option"
  keyCompare :: "('k \<Rightarrow> 'k \<Rightarrow> bool) option"
  keyDestructor :: bool
  valDestructor :: bool

type_synonym ('k, 'v) dictEntry = "'k \<times> 'v"

record ('k, 'v) dict =
  table :: "('k, 'v) dictEntry list list"
  dtype :: "('k, 'v) dictType"
  htsize :: nat
  sizemask :: nat
  used :: nat
  freed :: "('k, 'v) freed list"

datatype status = DICT_OK | DICT_ERR

definition DICT_HT_INITIAL_SIZE :: nat where
  "DICT_HT_INITIAL_SIZE = 4"

definition dictFreeEntryVal :: "('k, 'v) dict \<Rightarrow> 'v \<Rightarrow> ('k, 'v) dict" where
  "dictFreeEntryVal ht v = (if valDestructor (dtype ht) then ht\<lparr>freed := freed ht @ [Val v]\<rparr> else ht)"

definition dictFreeEntryKey :: "('k, 'v) dict \<Rightarrow> 'k \<Rightarrow> ('k, 'v) dict" where
  "dictFreeEntryKey ht k = (if keyDestructor (dtype ht) then ht\<lparr>freed := freed ht @ [Key k]\<rparr> else ht)"

text \<open>\<^verbatim>\<open>dictHashKey\<close>: the hash function returns an \<^verbatim>\<open>unsigned int\<close>.\<close>

definition dictHashKey :: "('k, 'v) dictType \<Rightarrow> 'k \<Rightarrow> nat" where
  "dictHashKey T k = u32 (int (hashFunction T k))"

definition dup_key :: "('k, 'v) dictType \<Rightarrow> 'k \<Rightarrow> 'k" where
  "dup_key T k = (case keyDup T of None \<Rightarrow> k | Some f \<Rightarrow> f k)"

definition dup_val :: "('k, 'v) dictType \<Rightarrow> 'v \<Rightarrow> 'v" where
  "dup_val T v = (case valDup T of None \<Rightarrow> v | Some f \<Rightarrow> f v)"

definition dictCompareHashKeys :: "('k, 'v) dictType \<Rightarrow> 'k \<Rightarrow> 'k \<Rightarrow> bool" where
  "dictCompareHashKeys T k1 k2 = (case keyCompare T of None \<Rightarrow> k1 = k2 | Some c \<Rightarrow> c k1 k2)"

subsection \<open>Hashing and creating\<close>

text \<open>The hash is an \<^verbatim>\<open>unsigned int\<close>; a key is the list of its bytes.\<close>

fun hash_while :: "nat \<Rightarrow> string \<Rightarrow> nat" where
  "hash_while hash [] = hash"
| "hash_while hash (c # buf) = hash_while (u32 (int hash * 2 ^ 5 + int hash + int (code c))) buf"

definition dictGenHashFunction :: "string \<Rightarrow> nat" where
  "dictGenHashFunction buf = hash_while 5381 buf"

definition dictReset :: "('k, 'v) dict \<Rightarrow> ('k, 'v) dict" where
  "dictReset ht = ht\<lparr>table := [], htsize := 0, sizemask := 0, used := 0\<rparr>"

definition dictInit :: "('k, 'v) dict \<Rightarrow> ('k, 'v) dictType \<Rightarrow> ('k, 'v) dict" where
  "dictInit ht T = (dictReset ht)\<lparr>dtype := T\<rparr>"

text \<open>\<^verbatim>\<open>dictCreate\<close> on the block \<open>ht\<close>.\<close>

definition dictCreate :: "('k, 'v) dict \<Rightarrow> ('k, 'v) dictType \<Rightarrow> ('k, 'v) dict" where
  "dictCreate ht T = dictInit ht T"

subsection \<open>Expanding\<close>

partial_function (option) next_power_while :: "nat \<Rightarrow> nat \<Rightarrow> nat option" where
  "next_power_while sz i = (if i \<ge> sz then Some i else next_power_while sz (size_t (2 * int i)))"

definition dictNextPower :: "nat \<Rightarrow> nat option" where
  "dictNextPower sz =
     (if sz \<ge> 2 ^ 63 - 1 then Some (2 ^ 63 - 1) else next_power_while sz DICT_HT_INITIAL_SIZE)"

text \<open>\<^verbatim>\<open>while(he)\<close>: the entries of a chain go to the front of their new chains.\<close>

fun move_while :: "('k, 'v) dictType \<Rightarrow> nat \<Rightarrow> ('k, 'v) dictEntry list \<Rightarrow> ('k, 'v) dictEntry list list
    \<Rightarrow> nat \<Rightarrow> (('k, 'v) dictEntry list list \<times> nat) option" where
  "move_while T msk [] tbl us = Some (tbl, us)"
| "move_while T msk (e # he) tbl us =
     (let h = dictHashKey T (fst e) AND msk
      in rd tbl h \<bind> (\<lambda>chain. wr tbl h (e # chain) \<bind> (\<lambda>tbl.
           move_while T msk he tbl (size_t (int us - 1)))))"

function expand_for :: "('k, 'v) dictType \<Rightarrow> nat \<Rightarrow> ('k, 'v) dict \<Rightarrow> nat \<Rightarrow> ('k, 'v) dictEntry list list
    \<Rightarrow> nat \<Rightarrow> (('k, 'v) dictEntry list list \<times> nat) option" where
  "expand_for T msk ht i tbl us =
     (if i < htsize ht \<and> us > 0
      then rd (table ht) i \<bind> (\<lambda>he. move_while T msk he tbl us \<bind> (\<lambda>(tbl, us).
             expand_for T msk ht (i + 1) tbl us))
      else Some (tbl, us))"
  by pat_completeness auto
termination by (relation "measure (\<lambda>(T, msk, ht, i, tbl, us). htsize ht - i)") auto

declare expand_for.simps [simp del]

definition dictExpand :: "(nat \<Rightarrow> bool) \<Rightarrow> ('k, 'v) dict \<Rightarrow> nat \<Rightarrow> (status \<times> ('k, 'v) dict) option" where
  "dictExpand mem ht sz =
     dictNextPower sz \<bind> (\<lambda>realsize.
       if used ht > sz then Some (DICT_ERR, ht)
       else
         (let n = (dictInit ht (dtype ht))\<lparr>htsize := realsize, sizemask := size_t (int realsize - 1),
                    table := (if mem (realsize * 8) then replicate realsize [] else []), used := used ht\<rparr>
          in expand_for (dtype ht) (sizemask n) ht 0 (table n) (used ht) \<bind> (\<lambda>(tbl, us).
               if us = 0 then Some (DICT_OK, n\<lparr>table := tbl\<rparr>) else None)))"

definition dictExpandIfNeeded :: "(nat \<Rightarrow> bool) \<Rightarrow> ('k, 'v) dict \<Rightarrow> (status \<times> ('k, 'v) dict) option" where
  "dictExpandIfNeeded mem ht =
     (if htsize ht = 0 then dictExpand mem ht DICT_HT_INITIAL_SIZE
      else if used ht = htsize ht then dictExpand mem ht (size_t (2 * int (htsize ht)))
      else Some (DICT_OK, ht))"

subsection \<open>Finding and adding\<close>

text \<open>The search loop: the chain from the first entry with an equal key on.\<close>

fun find_while :: "('k, 'v) dictType \<Rightarrow> 'k \<Rightarrow> ('k, 'v) dictEntry list \<Rightarrow> ('k, 'v) dictEntry option" where
  "find_while T k [] = None"
| "find_while T k (e # he) = (if dictCompareHashKeys T k (fst e) then Some e else find_while T k he)"

definition dictKeyIndex :: "(nat \<Rightarrow> bool) \<Rightarrow> ('k, 'v) dict \<Rightarrow> 'k \<Rightarrow> (int \<times> ('k, 'v) dict) option" where
  "dictKeyIndex mem ht k =
     dictExpandIfNeeded mem ht \<bind> (\<lambda>(r, ht).
       if r = DICT_ERR then Some (- 1, ht)
       else
         (let h = dictHashKey (dtype ht) k AND sizemask ht
          in rd (table ht) h \<bind> (\<lambda>he.
               Some (if find_while (dtype ht) k he \<noteq> None then - 1 else int32 (int h), ht))))"

definition dictAdd :: "(nat \<Rightarrow> bool) \<Rightarrow> ('k, 'v) dict \<Rightarrow> 'k \<Rightarrow> 'v \<Rightarrow> (status \<times> ('k, 'v) dict) option" where
  "dictAdd mem ht k v =
     dictKeyIndex mem ht k \<bind> (\<lambda>(index, ht).
       if index = - 1 then Some (DICT_ERR, ht)
       else if \<not> mem 24 \<or> index < 0 then None
       else rd (table ht) (nat index) \<bind> (\<lambda>chain.
         wr (table ht) (nat index) ((dup_key (dtype ht) k, dup_val (dtype ht) v) # chain) \<bind> (\<lambda>tbl.
           Some (DICT_OK, ht\<lparr>table := tbl, used := size_t (int (used ht) + 1)\<rparr>))))"

definition dictFind :: "('k, 'v) dict \<Rightarrow> 'k \<Rightarrow> ('k, 'v) dictEntry option option" where
  "dictFind ht k =
     (if htsize ht = 0 then Some None
      else rd (table ht) (dictHashKey (dtype ht) k AND sizemask ht) \<bind> (\<lambda>he.
        Some (find_while (dtype ht) k he)))"

text \<open>Storing a value in the entry that the search found.\<close>

fun set_val :: "('k, 'v) dictType \<Rightarrow> 'k \<Rightarrow> 'v \<Rightarrow> ('k, 'v) dictEntry list \<Rightarrow> ('k, 'v) dictEntry list" where
  "set_val T k v [] = []"
| "set_val T k v (e # he) = (if dictCompareHashKeys T k (fst e) then (fst e, v) # he else e # set_val T k v he)"

definition dictReplace :: "(nat \<Rightarrow> bool) \<Rightarrow> ('k, 'v) dict \<Rightarrow> 'k \<Rightarrow> 'v \<Rightarrow> (int \<times> ('k, 'v) dict) option" where
  "dictReplace mem ht k v =
     dictAdd mem ht k v \<bind> (\<lambda>(r, ht).
       if r = DICT_OK then Some (1, ht)
       else dictFind ht k \<bind> (\<lambda>f. f \<bind> (\<lambda>auxentry.
         (let h = dictHashKey (dtype ht) k AND sizemask ht
          in rd (table ht) h \<bind> (\<lambda>he. wr (table ht) h (set_val (dtype ht) k (dup_val (dtype ht) v) he) \<bind> (\<lambda>tbl.
               Some (0, dictFreeEntryVal (ht\<lparr>table := tbl\<rparr>) (snd auxentry))))))))"

subsection \<open>Deleting\<close>

text \<open>The entry that is unlinked and the chain without it.\<close>

fun delete_while :: "('k, 'v) dictType \<Rightarrow> 'k \<Rightarrow> ('k, 'v) dictEntry list
    \<Rightarrow> (('k, 'v) dictEntry \<times> ('k, 'v) dictEntry list) option" where
  "delete_while T k [] = None"
| "delete_while T k (de # rest) =
     (if dictCompareHashKeys T k (fst de) then Some (de, rest)
      else map_option (\<lambda>(d, r). (d, de # r)) (delete_while T k rest))"

definition dictDelete :: "('k, 'v) dict \<Rightarrow> 'k \<Rightarrow> (status \<times> ('k, 'v) dict) option" where
  "dictDelete ht k =
     (if htsize ht = 0 then Some (DICT_ERR, ht)
      else
        (let h = dictHashKey (dtype ht) k AND sizemask ht
         in rd (table ht) h \<bind> (\<lambda>he. case delete_while (dtype ht) k he of
              None \<Rightarrow> Some (DICT_ERR, ht)
            | Some (de, rest) \<Rightarrow> wr (table ht) h rest \<bind> (\<lambda>tbl.
                (let ht = dictFreeEntryVal (dictFreeEntryKey (ht\<lparr>table := tbl\<rparr>) (fst de)) (snd de)
                 in Some (DICT_OK, ht\<lparr>used := size_t (int (used ht) - 1)\<rparr>))))))"

fun clear_while :: "('k, 'v) dictEntry list \<Rightarrow> ('k, 'v) dict \<Rightarrow> ('k, 'v) dict" where
  "clear_while [] ht = ht"
| "clear_while (e # he) ht =
     (let ht = dictFreeEntryVal (dictFreeEntryKey ht (fst e)) (snd e)
      in clear_while he (ht\<lparr>used := size_t (int (used ht) - 1)\<rparr>))"

fun clear_for :: "('k, 'v) dictEntry list list \<Rightarrow> ('k, 'v) dict \<Rightarrow> ('k, 'v) dict" where
  "clear_for [] ht = ht"
| "clear_for (he # rest) ht = (if used ht > 0 then clear_for rest (clear_while he ht) else ht)"

definition dictClear :: "('k, 'v) dict \<Rightarrow> status \<times> ('k, 'v) dict" where
  "dictClear ht = (DICT_OK, dictReset (clear_for (take (htsize ht) (table ht)) ht))"

text \<open>What \<^verbatim>\<open>dictRelease\<close> leaves of a table: the destructor calls it made.\<close>

definition dictRelease :: "('k, 'v) dict \<Rightarrow> ('k, 'v) freed list" where
  "dictRelease ht = freed (snd (dictClear ht))"

subsection \<open>Iterating\<close>

record ('k, 'v) dictIterator =
  index :: int
  entry :: "('k, 'v) dictEntry list"
  nextEntry :: "('k, 'v) dictEntry list"

definition dictGetIterator :: "('k, 'v) dictIterator" where
  "dictGetIterator = \<lparr>index = - 1, entry = [], nextEntry = []\<rparr>"

partial_function (option) dictNext ::
  "('k, 'v) dict \<Rightarrow> ('k, 'v) dictIterator \<Rightarrow> (('k, 'v) dictEntry option \<times> ('k, 'v) dictIterator) option" where
  "dictNext ht iter =
     (if entry iter = []
      then (let iter = iter\<lparr>index := index iter + 1\<rparr>
            in if index iter \<ge> int32 (int (htsize ht)) then Some None
               else rd (table ht) (nat (index iter)) \<bind> (\<lambda>he. Some (Some (iter\<lparr>entry := he\<rparr>))))
             \<bind> (\<lambda>r. case r of
                  None \<Rightarrow> Some (None, iter\<lparr>index := index iter + 1\<rparr>)
                | Some iter \<Rightarrow>
                    (case entry iter of
                       [] \<Rightarrow> dictNext ht iter
                     | e # he \<Rightarrow> Some (Some e, iter\<lparr>nextEntry := he\<rparr>)))
      else (let iter = iter\<lparr>entry := nextEntry iter\<rparr>
            in case entry iter of
                 [] \<Rightarrow> dictNext ht iter
               | e # he \<Rightarrow> Some (Some e, iter\<lparr>nextEntry := he\<rparr>)))"

lemmas dict_loops [code] = next_power_while.simps dictNext.simps

subsection \<open>The key type of the callback tables\<close>

text \<open>
  \<^verbatim>\<open>async.c\<close>: keys are the bytes of an \<^verbatim>\<open>sds\<close>, values are copied.
\<close>

definition callbackHash :: "string \<Rightarrow> nat" where
  "callbackHash k = dictGenHashFunction k"

definition callbackKeyCompare :: "string \<Rightarrow> string \<Rightarrow> bool" where
  "callbackKeyCompare k1 k2 = (if length k1 \<noteq> length k2 then False else take (length k1) k1 = take (length k1) k2)"

definition callbackValDup :: "'v \<Rightarrow> 'v" where
  "callbackValDup v = v"

definition callbackDict :: "(string, 'v) dictType" where
  "callbackDict = \<lparr>hashFunction = callbackHash, keyDup = None, valDup = Some callbackValDup,
     keyCompare = Some callbackKeyCompare, keyDestructor = True, valDestructor = True\<rparr>"

end
