(* ===== verification/Dict_Laws.thy ===== *)
theory Dict_Laws
  imports Dict
begin

text \<open>
  What the hash table of \<^verbatim>\<open>dict.c\<close> promises. \<open>dict_ok\<close> is its invariant, \<open>entries\<close> the list
  of what it holds, and \<open>map_of (entries ht)\<close> the abstract map that every operation is
  stated over. The laws are proved for every \<^verbatim>\<open>dictType\<close> that compares keys by equality
  and keeps them (the locale \<open>key_type\<close>) and used for the callback tables of \<^verbatim>\<open>async.c\<close>.
\<close>

subsection \<open>Tables of buckets\<close>

definition entries :: "('k, 'v) dict \<Rightarrow> ('k, 'v) dictEntry list" where
  "entries ht = concat (table ht)"

definition placed :: "('k \<Rightarrow> nat) \<Rightarrow> ('k \<times> 'v) list list \<Rightarrow> bool" where
  "placed f t \<longleftrightarrow> (\<forall>i<length t. \<forall>e\<in>set (t ! i). f (fst e) = i)"

lemma placed_replicate [simp]: "placed f (replicate n [])"
  by (simp add: placed_def)

lemma placed_update:
  assumes "placed f t" and "\<And>e. e \<in> set c \<Longrightarrow> f (fst e) = h"
  shows "placed f (t[h := c])"
  using assms unfolding placed_def by (metis length_list_update nth_list_update_eq nth_list_update_neq)

lemma concat_split: "h < length t \<Longrightarrow> concat t = concat (take h t) @ t ! h @ concat (drop (Suc h) t)"
  by (metis append_assoc concat.simps(2) concat_append id_take_nth_drop)

lemma map_of_None: "(\<And>e. e \<in> set es \<Longrightarrow> fst e \<noteq> k) \<Longrightarrow> map_of es k = None"
  by (force simp: map_of_eq_None_iff)

lemma placed_map_of:
  assumes p: "placed f t" and h: "f k < length t"
  shows "map_of (concat t) k = map_of (t ! f k) k"
proof -
  have l: "map_of (concat (take (f k) t)) k = None"
  proof (rule map_of_None)
    fix e assume "e \<in> set (concat (take (f k) t))"
    then obtain c where "c \<in> set (take (f k) t)" "e \<in> set c" by auto
    then obtain i where "i < f k" "i < length t" "e \<in> set (t ! i)" by (force simp: in_set_conv_nth [of c])
    then show "fst e \<noteq> k" using p by (auto simp: placed_def)
  qed
  have r: "map_of (concat (drop (Suc (f k)) t)) k = None"
  proof (rule map_of_None)
    fix e assume "e \<in> set (concat (drop (Suc (f k)) t))"
    then obtain c where "c \<in> set (drop (Suc (f k)) t)" "e \<in> set c" by auto
    then obtain i where "Suc (f k) + i < length t" "e \<in> set (t ! (Suc (f k) + i))"
      by (force simp: in_set_conv_nth [of c])
    then show "fst e \<noteq> k" using p unfolding placed_def by fastforce
  qed
  show ?thesis
    unfolding concat_split[OF h] by (simp add: map_add_def l r split: option.split)
qed

lemma mset_concat_update:
  assumes "h < length t"
  shows "mset (concat (t[h := c])) + mset (t ! h) = mset (concat t) + mset c"
  using assms by (simp add: concat_split[OF assms] upd_conv_take_nth_drop)

lemma distinct_same: "mset as = mset bs \<Longrightarrow> distinct (map f as) = distinct (map f bs)"
  by (metis distinct_count_atmost_1 mset_map set_mset_mset)

lemma map_of_same: "mset as = mset bs \<Longrightarrow> distinct (map fst as) \<Longrightarrow> map_of as = map_of bs"
  using map_of_inject_set[of as bs] distinct_same[of as bs fst] by (metis set_mset_mset)

text \<open>A hash is cut down to a bucket number by the mask of a table of \<open>2 ^ k\<close> buckets.\<close>

lemma and_mask: "h AND (2 ^ k - 1) = h mod (2 ^ k :: nat)"
  using take_bit_eq_mask[of k h] by (simp add: take_bit_eq_mod mask_eq_exp_minus_1)

lemma and_mask_less [simp]: "h AND (2 ^ k - Suc 0) < (2 ^ k :: nat)"
  using and_mask[of h k] by simp

subsection \<open>The invariant\<close>

definition bucket :: "('k, 'v) dict \<Rightarrow> 'k \<Rightarrow> nat" where
  "bucket ht k = dictHashKey (dtype ht) k AND sizemask ht"

definition dict_ok :: "('k, 'v) dict \<Rightarrow> bool" where
  "dict_ok ht \<longleftrightarrow>
     (if htsize ht = 0 then table ht = []
      else (\<exists>k. 2 \<le> k \<and> k < 63 \<and> htsize ht = 2 ^ k) \<and> sizemask ht = htsize ht - 1
           \<and> length (table ht) = htsize ht) \<and>
     placed (bucket ht) (table ht) \<and> distinct (map fst (entries ht)) \<and>
     used ht = length (entries ht) \<and> used ht \<le> htsize ht"

lemma dict_okD:
  assumes "dict_ok ht"
  shows "length (table ht) = htsize ht" and "placed (bucket ht) (table ht)"
    and "distinct (map fst (entries ht))" and "used ht = length (entries ht)"
    and "used ht \<le> htsize ht" and "htsize ht < 2 ^ 63"
    and "htsize ht \<noteq> 0 \<Longrightarrow> bucket ht k < htsize ht"
proof -
  show "htsize ht < 2 ^ 63" using assms
    using power_strict_increasing[of _ 63 "2::nat"] by (cases "htsize ht = 0") (auto simp: dict_ok_def)
qed (use assms in \<open>auto simp: dict_ok_def bucket_def and_mask split: if_splits\<close>)

subsection \<open>Expanding\<close>

lemma next_power_while_ends:
  assumes "sz \<le> 2 ^ n" and "k \<le> n" and "n < 63"
  shows "\<exists>r. next_power_while sz (2 ^ k) = Some (2 ^ r) \<and> k \<le> r \<and> r \<le> n \<and> sz \<le> 2 ^ r
    \<and> (r = k \<or> 2 ^ r < 2 * sz)"
  using assms
proof (induction "n - k" arbitrary: k)
  case 0
  then show ?case by (intro exI[of _ k]) (auto simp: next_power_while.simps)
next
  case (Suc d)
  show ?case
  proof (cases "sz \<le> 2 ^ k")
    case True
    then show ?thesis using Suc by (intro exI[of _ k]) (auto simp: next_power_while.simps)
  next
    case False
    have lt: "(2::nat) ^ Suc k < 2 ^ 64" using Suc by (intro power_strict_increasing) auto
    then have "int (2 ^ Suc k) < 2 ^ 64" by (metis of_nat_less_iff of_nat_numeral of_nat_power)
    then have st: "size_t (2 * int (2 ^ k)) = 2 ^ Suc k" by (simp add: nat_mult_distrib nat_power_eq)
    obtain r where "next_power_while sz (2 ^ Suc k) = Some (2 ^ r)" "Suc k \<le> r" "r \<le> n" "sz \<le> 2 ^ r"
      "r = Suc k \<or> 2 ^ r < 2 * sz"
      using Suc False by (atomize_elim, intro Suc(1)) (auto simp: not_le le_less)
    moreover have "next_power_while sz (2 ^ k) = next_power_while sz (2 ^ Suc k)"
      using False st by (simp add: next_power_while.simps[of sz "2 ^ k"])
    ultimately show ?thesis using False by (intro exI[of _ r]) auto
  qed
qed

lemma dictNextPower_gives:
  assumes "sz \<le> 2 ^ n" and "2 \<le> n" and "n < 63"
  obtains r where "dictNextPower sz = Some (2 ^ r)" "2 \<le> r" "r \<le> n" "sz \<le> 2 ^ r" "r = 2 \<or> 2 ^ r < 2 * sz"
proof -
  have "sz < 2 ^ 63 - 1"
  proof -
    have "(2::nat) ^ n \<le> 2 ^ 62" using assms by (intro power_increasing) auto
    then show ?thesis using assms by simp
  qed
  then show thesis
    using that next_power_while_ends[OF assms(1,2,3)] by (auto simp: dictNextPower_def DICT_HT_INITIAL_SIZE_def)
qed

lemma move_while_gives:
  assumes "placed (\<lambda>k. dictHashKey T k AND msk) tbl" and "\<And>k. dictHashKey T k AND msk < length tbl"
    and "length he \<le> us" and "us < 2 ^ 64"
  shows "\<exists>tbl'. move_while T msk he tbl us = Some (tbl', us - length he) \<and> length tbl' = length tbl
    \<and> placed (\<lambda>k. dictHashKey T k AND msk) tbl' \<and> mset (concat tbl') = mset (concat tbl) + mset he"
  using assms
proof (induction he arbitrary: tbl us)
  case Nil
  then show ?case by simp
next
  case (Cons e he)
  let ?h = "dictHashKey T (fst e) AND msk"
  let ?t = "tbl[?h := e # tbl ! ?h]"
  have h: "?h < length tbl" by (rule Cons.prems)
  have p: "placed (\<lambda>k. dictHashKey T k AND msk) ?t"
    using Cons.prems(1) h by (intro placed_update) (auto simp: placed_def)
  have m: "mset (concat ?t) = add_mset e (mset (concat tbl))"
    using mset_concat_update[OF h, of "e # tbl ! ?h"] by simp
  have u: "size_t (int us - 1) = us - 1" using Cons.prems by (intro size_t_pred) auto
  from Cons.IH[of ?t "us - 1"] p Cons.prems m u h show ?case by (simp add: Let_def)
qed

lemma concat_drop: "i < length t \<Longrightarrow> concat (drop i t) = t ! i @ concat (drop (Suc i) t)"
  by (metis Cons_nth_drop_Suc concat.simps(2))

lemma expand_for_gives:
  assumes "placed (\<lambda>k. dictHashKey T k AND msk) tbl" and "\<And>k. dictHashKey T k AND msk < length tbl"
    and "length (table ht) = htsize ht" and "us = length (concat (drop i (table ht)))" and "us < 2 ^ 64"
  shows "\<exists>tbl'. expand_for T msk ht i tbl us = Some (tbl', 0) \<and> length tbl' = length tbl
    \<and> placed (\<lambda>k. dictHashKey T k AND msk) tbl'
    \<and> mset (concat tbl') = mset (concat tbl) + mset (concat (drop i (table ht)))"
  using assms
proof (induction "htsize ht - i" arbitrary: i tbl us)
  case 0
  then show ?case by (simp add: expand_for.simps)
next
  case (Suc d)
  show ?case
  proof (cases "us = 0")
    case True
    then show ?thesis using Suc.prems by (auto simp: expand_for.simps)
  next
    case False
    have i: "i < length (table ht)" using Suc by simp
    note c = concat_drop[OF i]
    obtain t where t: "move_while T msk (table ht ! i) tbl us = Some (t, us - length (table ht ! i))"
      "length t = length tbl" "placed (\<lambda>k. dictHashKey T k AND msk) t"
      "mset (concat t) = mset (concat tbl) + mset (table ht ! i)"
      using move_while_gives[OF Suc.prems(1,2), of "table ht ! i" us] Suc.prems(4,5) c by auto
    have "\<exists>tbl'. expand_for T msk ht (i + 1) t (us - length (table ht ! i)) = Some (tbl', 0) \<and> length tbl' = length t
      \<and> placed (\<lambda>k. dictHashKey T k AND msk) tbl'
      \<and> mset (concat tbl') = mset (concat t) + mset (concat (drop (i + 1) (table ht)))"
      using Suc t c by (intro Suc(1)) auto
    then show ?thesis using t i False Suc.prems(3) c
      by (subst expand_for.simps) (auto simp: ac_simps)
  qed
qed


text \<open>What an operation leaves alone when it only moves the entries.\<close>

definition same :: "('k, 'v) dict \<Rightarrow> ('k, 'v) dict \<Rightarrow> bool" where
  "same ht ht' \<longleftrightarrow> dict_ok ht' \<and> mset (entries ht') = mset (entries ht) \<and> dtype ht' = dtype ht
     \<and> freed ht' = freed ht"

lemma sameD:
  assumes "same ht ht'" and "dict_ok ht"
  shows "dict_ok ht'" and "map_of (entries ht') = map_of (entries ht)" and "dtype ht' = dtype ht"
    and "freed ht' = freed ht" and "used ht' = used ht" and "mset (entries ht') = mset (entries ht)"
  using assms map_of_same[of "entries ht'" "entries ht"] mset_eq_length[of "entries ht'" "entries ht"]
  by (auto simp: same_def dict_okD(3,4))

lemma dictExpand_gives:
  assumes ok: "dict_ok ht" and sz: "used ht \<le> sz" "0 < sz" "sz \<le> 2 ^ n" "2 \<le> n" "n < 63"
    and mem: "\<And>n. mem n"
  obtains ht' where "dictExpand mem ht sz = Some (DICT_OK, ht')" and "same ht ht'"
    and "sz \<le> htsize ht'" and "4 \<le> htsize ht'" and "htsize ht' \<le> 2 ^ n"
proof -
  obtain r where r: "dictNextPower sz = Some (2 ^ r)" "2 \<le> r" "r \<le> n" "sz \<le> 2 ^ r"
    by (rule dictNextPower_gives[OF sz(3-5)])
  let ?T = "dtype ht" and ?e = "replicate (2 ^ r) [] :: ('a \<times> 'b) list list"
  have lt: "(2::nat) ^ r < 2 ^ 64" and le: "(2::nat) ^ r \<le> 2 ^ n" and four: "(4::nat) \<le> 2 ^ r"
    using r sz power_increasing[of 2 r "2::nat"] power_increasing[of r n "2::nat"]
      power_strict_increasing[of r 64 "2::nat"] by auto
  have m: "size_t (int (2 ^ r) - 1) = 2 ^ r - 1" using lt four by (intro size_t_pred) auto
  obtain tbl where tbl: "expand_for ?T (2 ^ r - 1) ht 0 ?e (used ht) = Some (tbl, 0)"
    "length tbl = 2 ^ r" "placed (\<lambda>k. dictHashKey ?T k AND (2 ^ r - 1)) tbl"
    "mset (concat tbl) = mset (entries ht)"
    using expand_for_gives[of ?T "2 ^ r - 1" ?e ht "used ht" 0] dict_okD(1,4-6)[OF ok]
    by (auto simp: entries_def)
  let ?ht = "(dictInit ht ?T)\<lparr>htsize := 2 ^ r, sizemask := 2 ^ r - 1, used := used ht, table := tbl\<rparr>"
  have "dictExpand mem ht sz = Some (DICT_OK, ?ht)"
    using r(1) sz(1) m tbl(1) mem by (simp add: dictExpand_def Let_def dictInit_def dictReset_def)
  moreover have "same ht ?ht"
    unfolding same_def
  proof (intro conjI)
    have "distinct (map fst (concat tbl))" "length (concat tbl) = used ht"
      using tbl(4) dict_okD(3,4)[OF ok] distinct_same[of "concat tbl" "entries ht" fst] mset_eq_length[of "concat tbl" "entries ht"]
      by auto
    then show "dict_ok ?ht"
      using r sz tbl lt by (auto simp: dict_ok_def bucket_def[abs_def] entries_def dictInit_def dictReset_def)
  qed (use tbl in \<open>auto simp: entries_def dictInit_def dictReset_def\<close>)
  ultimately show thesis using that[of ?ht] r le four by simp
qed

lemma dictExpandIfNeeded_gives:
  assumes ok: "dict_ok ht" and b: "htsize ht \<le> 2 ^ 30" and mem: "\<And>n. mem n"
  obtains ht' where "dictExpandIfNeeded mem ht = Some (DICT_OK, ht')" and "same ht ht'"
    and "used ht' < htsize ht'" and "htsize ht' \<le> 2 ^ 31"
proof -
  note D = dict_okD[OF ok]
  consider (none) "htsize ht = 0" | (full) "htsize ht \<noteq> 0" "used ht = htsize ht"
    | (room) "htsize ht \<noteq> 0" "used ht \<noteq> htsize ht" by blast
  then show thesis
  proof cases
    case none
    obtain ht' where "dictExpand mem ht 4 = Some (DICT_OK, ht')" "same ht ht'" "4 \<le> htsize ht'" "htsize ht' \<le> 2 ^ 31"
      by (rule dictExpand_gives[of ht 4 31 mem]) (use ok D(5) none mem in auto)
    then show thesis
      using that none D(5) sameD(5)[OF _ ok] by (simp add: dictExpandIfNeeded_def DICT_HT_INITIAL_SIZE_def)
  next
    case full
    have "size_t (2 * int (htsize ht)) = 2 * htsize ht" using b by (simp add: nat_mult_distrib)
    moreover obtain ht' where "dictExpand mem ht (2 * htsize ht) = Some (DICT_OK, ht')" "same ht ht'"
      "2 * htsize ht \<le> htsize ht'" "htsize ht' \<le> 2 ^ 31"
      by (rule dictExpand_gives[of ht "2 * htsize ht" 31 mem]) (use ok full b mem in auto)
    ultimately show thesis
      using that full sameD(5)[OF _ ok] by (simp add: dictExpandIfNeeded_def)
  next
    case room
    then show thesis
      using that[of ht] ok b D(5) by (simp add: dictExpandIfNeeded_def same_def)
  qed
qed


subsection \<open>Putting a chain into its bucket\<close>

lemma put_chain:
  assumes ok: "dict_ok ht" and h: "h < length (table ht)"
    and c: "\<forall>e\<in>set c. bucket ht (fst e) = h"
    and m: "mset c + mset old = mset (table ht ! h) + mset new"
  shows "mset (concat ((table ht)[h := c])) + mset old = mset (entries ht) + mset new"
    and "placed (bucket ht) ((table ht)[h := c])"
proof -
  have "mset (concat ((table ht)[h := c])) + mset (table ht ! h) = mset (entries ht) + mset c"
    using mset_concat_update[OF h, of c] by (simp add: entries_def)
  then have "mset (concat ((table ht)[h := c])) + mset old + mset (table ht ! h)
      = mset (entries ht) + mset new + mset (table ht ! h)"
    using m by (metis add.assoc add.commute)
  then show "mset (concat ((table ht)[h := c])) + mset old = mset (entries ht) + mset new" by simp
qed (use placed_update[OF dict_okD(2)[OF ok]] c in blast)

lemma in_chain:
  assumes ok: "dict_ok ht" and h: "h < length (table ht)" and e: "e \<in> set (table ht ! h)"
  shows "bucket ht (fst e) = h"
  using dict_okD(2)[OF ok] h e by (auto simp: placed_def)

lemma dict_ok_put:
  assumes ok: "dict_ok ht" and nz: "htsize ht \<noteq> 0" and t: "length t = htsize ht" "placed (bucket ht) t"
    and m: "mset (concat t) = mset es" and d: "distinct (map fst es)" and le: "length es \<le> htsize ht"
  shows "dict_ok (ht\<lparr>table := t, used := length es, freed := fs\<rparr>)"
    and "map_of (entries (ht\<lparr>table := t, used := length es, freed := fs\<rparr>)) = map_of es"
  using assms distinct_same[of "concat t" es fst] map_of_same[of "concat t" es] mset_eq_length[of "concat t" es]
  by (auto simp: dict_ok_def entries_def bucket_def[abs_def])

subsection \<open>Tables whose keys are compared by equality\<close>

locale key_type =
  fixes T :: "('k, 'v) dictType"
  assumes compare: "dictCompareHashKeys T a b \<longleftrightarrow> a = b"
    and keep: "dup_key T a = a"
begin

lemma find_while_map_of: "find_while T k es = map_option (Pair k) (map_of es k)"
  by (induction es) (auto simp: compare)

lemma dictFind_gives:
  assumes ok: "dict_ok ht" and T: "dtype ht = T"
  shows "dictFind ht k = Some (map_option (Pair k) (map_of (entries ht) k))"
proof (cases "htsize ht = 0")
  case True
  then show ?thesis using ok by (simp add: dictFind_def dict_ok_def entries_def)
next
  case False
  have b: "bucket ht k < length (table ht)" using dict_okD(1,7)[OF ok] False by simp
  then have "map_of (entries ht) k = map_of (table ht ! bucket ht k) k"
    unfolding entries_def by (rule placed_map_of[OF dict_okD(2)[OF ok]])
  then show ?thesis
    using False b T by (simp add: dictFind_def bucket_def find_while_map_of)
qed

lemma dictKeyIndex_gives:
  assumes ok: "dict_ok ht" and T: "dtype ht = T" and b: "htsize ht \<le> 2 ^ 30" and mem: "\<And>n. mem n"
  obtains ht' where "same ht ht'" and "used ht' < htsize ht'"
    and "dictKeyIndex mem ht k =
      Some (if map_of (entries ht) k = None then int (bucket ht' k) else - 1, ht')"
proof -
  obtain ht' where e: "dictExpandIfNeeded mem ht = Some (DICT_OK, ht')" "same ht ht'"
    "used ht' < htsize ht'" "htsize ht' \<le> 2 ^ 31"
    by (rule dictExpandIfNeeded_gives[OF ok b, of mem]) (use mem in auto)
  note S = sameD[OF e(2) ok]
  have bk: "bucket ht' k < htsize ht'" using dict_okD(7)[OF S(1)] e(3) by simp
  then have l: "bucket ht' k < length (table ht')" using dict_okD(1)[OF S(1)] by simp
  have "int32 (int (bucket ht' k)) = int (bucket ht' k)" using bk e(4) by (intro int32_id) auto
  moreover have "map_of (entries ht) k = map_of (table ht' ! bucket ht' k) k"
    using placed_map_of[OF dict_okD(2)[OF S(1)] l] S(2) by (simp add: entries_def)
  ultimately have "dictKeyIndex mem ht k =
      Some (if map_of (entries ht) k = None then int (bucket ht' k) else - 1, ht')"
    using e(1) l S(3) T by (simp add: dictKeyIndex_def bucket_def Let_def find_while_map_of)
  then show thesis using that e by blast
qed

lemma dictAdd_gives:
  assumes ok: "dict_ok ht" and T: "dtype ht = T" and b: "htsize ht \<le> 2 ^ 30" and mem: "\<And>n. mem n"
  obtains ht' where "dictAdd mem ht k v = Some (if map_of (entries ht) k = None then DICT_OK else DICT_ERR, ht')"
    and "dict_ok ht'" and "dtype ht' = T" and "freed ht' = freed ht" and "0 < htsize ht'"
    and "map_of (entries ht') = (if map_of (entries ht) k = None then (map_of (entries ht))(k \<mapsto> dup_val T v)
          else map_of (entries ht))"
    and "used ht' = (if map_of (entries ht) k = None then used ht + 1 else used ht)"
proof -
  obtain h1 where h1: "same ht h1" "used h1 < htsize h1"
    "dictKeyIndex mem ht k = Some (if map_of (entries ht) k = None then int (bucket h1 k) else - 1, h1)"
    by (rule dictKeyIndex_gives[OF ok T b, of mem]) (use mem in auto)
  note S = sameD[OF h1(1) ok] and D = dict_okD[OF sameD(1)[OF h1(1) ok]]
  show thesis
  proof (cases "map_of (entries ht) k")
    case (Some x)
    then show ?thesis using that[of h1] h1 S T by (simp add: dictAdd_def)
  next
    case None
    let ?h = "bucket h1 k" and ?es = "(k, dup_val T v) # entries h1"
    let ?c = "(k, dup_val T v) # table h1 ! ?h"
    have l: "?h < length (table h1)" using D(1,7) h1(2) by simp
    let ?t = "(table h1)[?h := ?c]"
    have c: "\<forall>e\<in>set ?c. bucket h1 (fst e) = ?h" using in_chain[OF S(1) l] by auto
    have t: "mset (concat ?t) = mset ?es" "placed (bucket h1) ?t"
      using put_chain(1)[OF S(1) l c, of "[]" "[(k, dup_val T v)]"] put_chain(2)[OF S(1) l c, of "[]" "[(k, dup_val T v)]"]
      by simp_all
    have d: "distinct (map fst ?es)" using D(3) trans[OF fun_cong[OF S(2)] None] by (simp add: map_of_eq_None_iff)
    let ?ht = "h1\<lparr>table := ?t, used := length ?es, freed := freed h1\<rparr>"
    have z: "htsize h1 \<noteq> 0" "length ?t = htsize h1" "length ?es \<le> htsize h1" using D(1,4) h1(2) by auto
    note ok' = dict_ok_put[OF S(1) z(1,2) t(2,1) d z(3)]
    have u: "size_t (int (used h1) + 1) = length ?es"
      using h1(2) D(4,6) by (subst size_t_succ) auto
    have "dictAdd mem ht k v = Some (DICT_OK, ?ht)"
      using None h1(3) l mem keep T S(3) u by (simp add: dictAdd_def)
    then show ?thesis using that[of ?ht] None ok'[of "freed h1"] S(2-5) T D(4) h1(2) by simp
  qed
qed


lemma delete_while_none: "map_of es k = None \<Longrightarrow> delete_while T k es = None"
  by (induction es) (auto simp: compare split: if_splits)

lemma delete_while_some: "map_of es k = Some v \<Longrightarrow> \<exists>r. delete_while T k es = Some ((k, v), r)"
  by (induction es) (auto simp: compare split: if_splits)

lemma delete_while_mset:
  "delete_while T k es = Some (d, r) \<Longrightarrow> mset es = add_mset d (mset r)"
  by (induction es arbitrary: r) (auto split: if_splits)

lemma set_val_keys: "map_of es k = Some old \<Longrightarrow> mset (set_val T k v es) + {#(k, old)#} = mset es + {#(k, v)#}"
  by (induction es) (auto simp: compare split: if_splits)

lemma removed:
  assumes d: "distinct (map fst es)" and m: "mset es = add_mset (k, v) (mset r)"
  shows "distinct (map fst r)" and "k \<notin> dom (map_of r)" and "map_of r = (map_of es)(k := None)"
    and "map_of es k = Some v"
proof -
  have "distinct (map fst ((k, v) # r))" using d m distinct_same[of es "(k, v) # r" fst] by simp
  moreover have "map_of es = map_of ((k, v) # r)" by (rule map_of_same) (use d m in auto)
  ultimately show "distinct (map fst r)" "k \<notin> dom (map_of r)" "map_of r = (map_of es)(k := None)"
    "map_of es k = Some v" by (auto simp: map_of_eq_None_iff dom_map_of_conv_image_fst intro!: ext)
qed

lemma dictDelete_gives:
  assumes ok: "dict_ok ht" and T: "dtype ht = T"
  obtains ht' where "dictDelete ht k = Some (if map_of (entries ht) k = None then DICT_ERR else DICT_OK, ht')"
    and "dict_ok ht'" and "dtype ht' = T" and "map_of (entries ht') = (map_of (entries ht))(k := None)"
    and "freed ht' = freed ht @ (case map_of (entries ht) k of None \<Rightarrow> [] | Some v \<Rightarrow>
      (if keyDestructor T then [Key k] else []) @ (if valDestructor T then [Val v] else []))"
    and "htsize ht' = htsize ht" and "used ht' = length (entries ht')"
proof (cases "htsize ht = 0")
  case True
  then show ?thesis using that[of ht] ok T by (auto simp: dictDelete_def dict_ok_def entries_def)
next
  case False
  let ?h = "bucket ht k"
  note D = dict_okD[OF ok]
  have l: "?h < length (table ht)" using D(1,7) False by simp
  have mo: "map_of (table ht ! ?h) k = map_of (entries ht) k"
    using placed_map_of[OF D(2) l] by (simp add: entries_def)
  show thesis
  proof (cases "map_of (entries ht) k")
    case None
    then have "delete_while T k (table ht ! ?h) = None" using mo delete_while_none[of "table ht ! ?h" k] by simp
    then show ?thesis
      using that[of ht] None False l ok T D(4) by (simp add: dictDelete_def bucket_def Let_def fun_upd_idem)
  next
    case (Some v)
    then obtain r where r: "delete_while T k (table ht ! ?h) = Some ((k, v), r)"
      using mo delete_while_some[of "table ht ! ?h" k v] by auto
    note m = delete_while_mset[OF r]
    have c: "\<forall>e\<in>set r. bucket ht (fst e) = ?h"
      using in_chain[OF ok l] mset_eq_setD[of "table ht ! ?h" "(k, v) # r"] m by auto
    let ?t = "(table ht)[?h := r]"
    have t: "add_mset (k, v) (mset (concat ?t)) = mset (entries ht)" "placed (bucket ht) ?t"
      using put_chain(1)[OF ok l c, of "[(k, v)]" "[]"] put_chain(2)[OF ok l c, of "[(k, v)]" "[]"] m by simp_all
    note R = removed[OF D(3) t(1)[symmetric]]
    have len: "length (entries ht) = Suc (length (concat ?t))" using mset_eq_length[of "entries ht" "(k, v) # concat ?t"] t(1) by simp
    let ?fs = "freed ht @ (if keyDestructor T then [Key k] else []) @ (if valDestructor T then [Val v] else [])"
    let ?ht = "ht\<lparr>table := ?t, used := length (concat ?t), freed := ?fs\<rparr>"
    have z: "length ?t = htsize ht" "length (concat ?t) \<le> htsize ht" using D(1,4,5) len by auto
    note ok' = dict_ok_put[OF ok False z(1) t(2) refl R(1) z(2)]
    have u: "size_t (int (used ht) - 1) = length (concat ?t)"
      using D(4,5,6) len by (subst size_t_pred) auto
    have "dictDelete ht k = Some (DICT_OK, ?ht)"
      using False l T r u
      by (simp add: dictDelete_def bucket_def Let_def dictFreeEntryVal_def dictFreeEntryKey_def)
    moreover have "used ?ht = length (entries ?ht)" by (simp add: entries_def)
    ultimately show ?thesis using that[of ?ht] Some ok'[of ?fs] R(3) T by simp
  qed
qed

lemma dictReplace_gives:
  assumes ok: "dict_ok ht" and T: "dtype ht = T" and b: "htsize ht \<le> 2 ^ 30" and mem: "\<And>n. mem n"
  obtains ht' where "dictReplace mem ht k v = Some (if map_of (entries ht) k = None then 1 else 0, ht')"
    and "dict_ok ht'" and "dtype ht' = T" and "map_of (entries ht') = (map_of (entries ht))(k \<mapsto> dup_val T v)"
    and "freed ht' = freed ht @ (case map_of (entries ht) k of None \<Rightarrow> [] | Some old \<Rightarrow>
      if valDestructor T then [Val old] else [])"
proof -
  obtain h1 where h1: "dictAdd mem ht k v = Some (if map_of (entries ht) k = None then DICT_OK else DICT_ERR, h1)"
    "dict_ok h1" "dtype h1 = T" "freed h1 = freed ht" "0 < htsize h1"
    "map_of (entries h1) = (if map_of (entries ht) k = None then (map_of (entries ht))(k \<mapsto> dup_val T v)
          else map_of (entries ht))"
    by (rule dictAdd_gives[OF ok T b, of mem k v]) (use mem in auto)
  show thesis
  proof (cases "map_of (entries ht) k")
    case None
    then show ?thesis using that[of h1] h1 by (simp add: dictReplace_def)
  next
    case (Some old)
    let ?h = "bucket h1 k" and ?v = "dup_val T v"
    note D = dict_okD[OF h1(2)]
    have l: "?h < length (table h1)" using D(1,7) h1(5) by simp
    let ?c = "set_val T k ?v (table h1 ! ?h)"
    have es: "map_of (entries h1) k = Some old" using h1(6) Some by simp
    have mo: "map_of (table h1 ! ?h) k = Some old"
      using placed_map_of[OF D(2) l] es by (simp add: entries_def)
    note m = set_val_keys[OF mo, of ?v]
    have c: "\<forall>e\<in>set ?c. bucket h1 (fst e) = ?h"
    proof
      fix e assume "e \<in> set ?c"
      then have "e \<in> set (table h1 ! ?h) \<or> e = (k, ?v)" using arg_cong[OF m, of "\<lambda>M. e \<in># M"] by auto
      then show "bucket h1 (fst e) = ?h" using in_chain[OF h1(2) l, of e] by auto
    qed
    let ?t = "(table h1)[?h := ?c]"
    have t: "add_mset (k, old) (mset (concat ?t)) = add_mset (k, ?v) (mset (entries h1))" "placed (bucket h1) ?t"
      using put_chain(1)[OF h1(2) l c, of "[(k, old)]" "[(k, ?v)]"] put_chain(2)[OF h1(2) l c, of "[(k, old)]" "[(k, ?v)]"] m
      by simp_all
    obtain r where r: "mset (entries h1) = add_mset (k, old) (mset r)"
      using map_of_SomeD[OF es] by (metis ex_mset insert_DiffM set_mset_mset)
    note R = removed[OF D(3) r]
    have t': "mset (concat ?t) = mset ((k, ?v) # r)" using t(1) r by (simp add: add_mset_commute)
    have d: "distinct (map fst ((k, ?v) # r))" using R(1,2) by (auto simp: dom_map_of_conv_image_fst)
    have len: "length (entries h1) = length ((k, ?v) # r)" using r mset_eq_length[of "entries h1" "(k, old) # r"] by simp
    let ?fs = "freed ht @ (if valDestructor T then [Val old] else [])"
    let ?ht = "h1\<lparr>table := ?t, used := length ((k, ?v) # r), freed := ?fs\<rparr>"
    have z: "htsize h1 \<noteq> 0" "length ?t = htsize h1" "length ((k, ?v) # r) \<le> htsize h1" using h1(5) D(1,4,5) len by auto
    note ok' = dict_ok_put[OF h1(2) z(1,2) t(2) t' d z(3), of ?fs]
    have "dictReplace mem ht k v = Some (0, ?ht)"
      using h1(1,3,4) Some dictFind_gives[OF h1(2,3), of k] es l D(4) len
      by (simp add: dictReplace_def bucket_def Let_def dictFreeEntryVal_def)
    then show ?thesis using that[of ?ht] Some ok' R(3) h1(3,6) by simp
  qed
qed

end


subsection \<open>Clearing and iterating\<close>

definition frees :: "('k, 'v) dictType \<Rightarrow> ('k, 'v) dictEntry \<Rightarrow> ('k, 'v) freed list" where
  "frees T e = (if keyDestructor T then [Key (fst e)] else []) @ (if valDestructor T then [Val (snd e)] else [])"

lemma clear_while_gives:
  "length he \<le> used ht \<Longrightarrow> used ht < 2 ^ 64 \<Longrightarrow>
   clear_while he ht = ht\<lparr>freed := freed ht @ concat (map (frees (dtype ht)) he), used := used ht - length he\<rparr>"
proof (induction he arbitrary: ht)
  case Nil
  then show ?case by simp
next
  case (Cons e he)
  have "size_t (int (used ht) - 1) = used ht - 1" using Cons.prems by (intro size_t_pred) auto
  then have "clear_while (e # he) ht = clear_while he (ht\<lparr>freed := freed ht @ frees (dtype ht) e, used := used ht - 1\<rparr>)"
    by (simp add: Let_def dictFreeEntryVal_def dictFreeEntryKey_def frees_def)
  also have "\<dots> = ht\<lparr>freed := freed ht @ concat (map (frees (dtype ht)) (e # he)), used := used ht - length (e # he)\<rparr>"
    using Cons by (subst Cons.IH) auto
  finally show ?case .
qed

lemma clear_for_gives:
  "used ht = length (concat t) \<Longrightarrow> used ht < 2 ^ 64 \<Longrightarrow>
   clear_for t ht = ht\<lparr>freed := freed ht @ concat (map (frees (dtype ht)) (concat t)), used := 0\<rparr>"
proof (induction t arbitrary: ht)
  case Nil
  then show ?case by (cases ht) simp
next
  case (Cons he t)
  show ?case
  proof (cases "used ht = 0")
    case True
    then have n: "concat (he # t) = []" using Cons.prems by simp
    have e: "concat (map (frees (dtype ht)) (concat (he # t))) = []" unfolding n by simp
    moreover have "ht\<lparr>freed := freed ht, used := 0\<rparr> = ht" using True by (cases ht) simp
    ultimately show ?thesis using True unfolding e by simp
  next
    case False
    then show ?thesis using Cons.prems by (simp add: clear_while_gives Cons.IH)
  qed
qed

text \<open>\<open>n\<close> calls of \<^verbatim>\<open>dictNext\<close>: what they return and the iterator they leave.\<close>

fun nexts :: "nat \<Rightarrow> ('k, 'v) dict \<Rightarrow> ('k, 'v) dictIterator
    \<Rightarrow> (('k, 'v) dictEntry option list \<times> ('k, 'v) dictIterator) option" where
  "nexts 0 ht iter = Some ([], iter)"
| "nexts (Suc n) ht iter = dictNext ht iter \<bind> (\<lambda>(e, iter).
     map_option (\<lambda>(es, iter). (e # es, iter)) (nexts n ht iter))"

text \<open>The entries that an iterator has still to return.\<close>

definition left :: "('k, 'v) dict \<Rightarrow> ('k, 'v) dictIterator \<Rightarrow> ('k, 'v) dictEntry list" where
  "left ht iter = (if entry iter = [] then [] else nextEntry iter) @ concat (drop (nat (index iter + 1)) (table ht))"

lemma dictNext_gives:
  assumes l: "length (table ht) = htsize ht" and b: "htsize ht < 2 ^ 31" and i: "- 1 \<le> index iter"
  shows "\<exists>iter'. - 1 \<le> index iter' \<and> dictNext ht iter =
    Some (case left ht iter of [] \<Rightarrow> None | e # _ \<Rightarrow> Some e, iter') \<and> (left ht iter \<noteq> [] \<longrightarrow> left ht iter' = tl (left ht iter))"
proof -
  have nx: "\<exists>iter'. - 1 \<le> index iter' \<and> dictNext ht iter =
    Some (case left ht iter of [] \<Rightarrow> None | e # _ \<Rightarrow> Some e, iter') \<and> (left ht iter \<noteq> [] \<longrightarrow> left ht iter' = tl (left ht iter))"
    if "entry iter = []" "- 1 \<le> index iter" for iter
    using that
  proof (induction "htsize ht - nat (index iter + 1)" arbitrary: iter)
    case 0
    then have "left ht iter = []" using l by (simp add: left_def)
    moreover have "dictNext ht iter = Some (None, iter\<lparr>index := index iter + 1\<rparr>)"
      using 0 b by (subst dictNext.simps) (simp add: Let_def le_nat_iff)
    ultimately show ?case using 0 by (intro exI[of _ "iter\<lparr>index := index iter + 1\<rparr>"]) simp
  next
    case (Suc d)
    let ?i = "nat (index iter + 1)" and ?it = "iter\<lparr>index := index iter + 1, entry := table ht ! nat (index iter + 1)\<rparr>"
    have lt: "?i < length (table ht)" using Suc(2) l by linarith
    have r: "rd (table ht) ?i = Some (table ht ! ?i)" using lt by simp
    have ng: "\<not> index iter + 1 \<ge> int32 (int (htsize ht))" using Suc(2,4) b by simp
    have step: "dictNext ht iter = (case table ht ! ?i of [] \<Rightarrow> dictNext ht ?it
        | e # he \<Rightarrow> Some (Some e, ?it\<lparr>nextEntry := he\<rparr>))"
      using r ng Suc(3) by (simp add: dictNext.simps[of ht iter] Let_def)
    have ni: "nat (index iter + 1 + 1) = Suc ?i" using Suc(4) by simp
    have lf: "left ht iter = table ht ! ?i @ concat (drop (Suc ?i) (table ht))"
      using Suc(3) concat_drop[OF lt] by (simp add: left_def)
    show ?case
    proof (cases "table ht ! ?i")
      case Nil
      have "left ht ?it = left ht iter" using lf Nil ni by (simp add: left_def)
      then show ?thesis using Suc(1)[of ?it] Suc(2,4) step Nil ni by simp
    next
      case (Cons e he)
      have "left ht (?it\<lparr>nextEntry := he\<rparr>) = tl (left ht iter)" using lf Cons ni by (simp add: left_def)
      then show ?thesis using step Cons lf Suc(4) by (intro exI[of _ "?it\<lparr>nextEntry := he\<rparr>"]) simp
    qed
  qed
  show ?thesis
  proof (cases "entry iter = []")
    case True
    then show ?thesis using nx i by blast
  next
    case False
    let ?it = "iter\<lparr>entry := nextEntry iter\<rparr>"
    have step: "dictNext ht iter = (case nextEntry iter of [] \<Rightarrow> dictNext ht ?it
        | e # he \<Rightarrow> Some (Some e, ?it\<lparr>nextEntry := he\<rparr>))"
      using False by (simp add: dictNext.simps[of ht iter] Let_def)
    show ?thesis
    proof (cases "nextEntry iter")
      case Nil
      have "left ht ?it = left ht iter" using False Nil by (simp add: left_def)
      then show ?thesis using nx[of ?it] i step Nil by simp
    next
      case (Cons e he)
      have "left ht (?it\<lparr>nextEntry := he\<rparr>) = tl (left ht iter)" using False Cons by (simp add: left_def)
      then show ?thesis using step Cons i False by (intro exI[of _ "?it\<lparr>nextEntry := he\<rparr>"]) (simp add: left_def)
    qed
  qed
qed

lemma nexts_gives:
  assumes "length (table ht) = htsize ht" and "htsize ht < 2 ^ 31" and "- 1 \<le> index iter"
  shows "\<exists>iter'. nexts (length (left ht iter)) ht iter = Some (map Some (left ht iter), iter')
    \<and> (\<exists>i2. dictNext ht iter' = Some (None, i2))"
  using assms(3)
proof (induction "left ht iter" arbitrary: iter)
  case Nil
  then show ?case using dictNext_gives[OF assms(1,2) Nil(2)] Nil(1)[symmetric] by auto
next
  case (Cons e es)
  obtain it where it: "- 1 \<le> index it" "dictNext ht iter = Some (Some e, it)" "left ht it = es"
    using dictNext_gives[OF assms(1,2) Cons(3)] Cons(2)[symmetric] by auto
  then show ?case using Cons(1)[of it] Cons(2)[symmetric] by auto
qed

subsection \<open>The hash\<close>

lemma hash_step:
  "u32 (int (u32 (int h)) * 2 ^ 5 + int (u32 (int h)) + int c) = u32 (int (33 * h + c))"
proof -
  have "(x mod m * 33 + y) mod m = (x * 33 + y) mod m" for x y m :: int
    by (metis mod_add_left_eq mod_mult_left_eq)
  then have "((x mod m) * 32 + x mod m + y) mod m = (33 * x + y) mod m" for x y m :: int
    by (simp add: algebra_simps)
  then show ?thesis by (simp add: u32_def)
qed

lemma hash_while_mod:
  "hash_while (u32 (int h)) buf = foldl (\<lambda>h c. 33 * h + code c) h buf mod 2 ^ 32"
proof (induction buf arbitrary: h)
  case Nil
  then show ?case by (simp add: u32_def nat_mod_distrib)
next
  case (Cons c buf)
  then show ?case by (simp del: of_nat_add of_nat_mult add: hash_step[simplified])
qed


subsection \<open>The callback tables of \<^verbatim>\<open>async.c\<close>\<close>

interpretation cb: key_type callbackDict
proof unfold_locales
  fix a b :: string
  show "dictCompareHashKeys (callbackDict :: (string, 'b) dictType) a b \<longleftrightarrow> a = b"
    by (auto simp: dictCompareHashKeys_def callbackDict_def callbackKeyCompare_def)
  show "dup_key (callbackDict :: (string, 'b) dictType) a = a"
    by (simp add: dup_key_def callbackDict_def)
qed

lemma callbackDict_fields [simp]:
  "dup_val callbackDict v = v" "keyDestructor callbackDict" "valDestructor callbackDict"
  by (simp_all add: dup_val_def callbackDict_def callbackValDup_def)

definition fresh_dict :: "(string, 'v) dict" where
  "fresh_dict = dictCreate \<lparr>table = [], dtype = callbackDict, htsize = 0, sizemask = 0, used = 0, freed = []\<rparr> callbackDict"

lemma fresh_dict_ok [simp]:
  "dict_ok fresh_dict" "entries fresh_dict = []" "dtype fresh_dict = callbackDict" "htsize fresh_dict = 0"
  "used fresh_dict = 0" "freed fresh_dict = []"
  by (simp_all add: fresh_dict_def dictCreate_def dictInit_def dictReset_def dict_ok_def entries_def placed_def)

text \<open>A table of four buckets with one entry.\<close>

definition one_dict :: "(string, nat) dict" where
  "one_dict = \<lparr>table = [[], [], [(''a'', 1)], []], dtype = callbackDict, htsize = 4, sizemask = 3, used = 1, freed = []\<rparr>"

lemma bucket_one: "bucket one_dict ''a'' = 2"
proof -
  have "dictHashKey (callbackDict :: (string, nat) dictType) ''a'' = 177670"
    by (simp add: dictHashKey_def callbackDict_def callbackHash_def dictGenHashFunction_def u32_def code_def)
  then show ?thesis using and_mask[of 177670 2] by (simp add: bucket_def one_dict_def)
qed

lemma one_dict_ok: "dict_ok one_dict"
proof -
  have "placed (bucket one_dict) (table one_dict)"
    using bucket_one by (simp add: placed_def one_dict_def numeral_eq_Suc less_Suc_eq)
  moreover have "\<exists>k. 2 \<le> k \<and> k < 63 \<and> htsize one_dict = 2 ^ k" by (rule exI[of _ 2]) (simp add: one_dict_def)
  ultimately show ?thesis by (simp add: dict_ok_def) (simp add: one_dict_def entries_def)
qed

lemma one_dict_simps [simp]:
  "dtype one_dict = callbackDict" "entries one_dict = [(''a'', 1)]" "htsize one_dict = 4"
  "used one_dict = 1" "freed one_dict = []"
  by (simp_all add: one_dict_def entries_def)

text \<open>
  C13. Adding to a callback table. On a table with the invariant, of at most \<open>2 ^ 30\<close>
  buckets, and with memory available, \<^verbatim>\<open>dictAdd\<close> never leaves its arrays; it returns
  \<^verbatim>\<open>DICT_ERR\<close> exactly when the key is there, and leaves the map alone then; otherwise the map gets the
  key with its value. The invariant holds afterwards, also when the table was doubled, and
  no destructor runs.
\<close>

theorem dictAdd_correct:
  assumes "dict_ok ht" and "dtype ht = callbackDict" and "htsize ht \<le> 2 ^ 30" and "\<And>n. mem n"
  shows "\<exists>r ht'. dictAdd mem ht k v = Some (r, ht') \<and> dict_ok ht' \<and> dtype ht' = callbackDict
    \<and> freed ht' = freed ht
    \<and> (r = DICT_ERR \<longleftrightarrow> k \<in> dom (map_of (entries ht)))
    \<and> map_of (entries ht') = (if r = DICT_ERR then map_of (entries ht) else (map_of (entries ht))(k \<mapsto> v))
    \<and> used ht' = card (dom (map_of (entries ht')))"
proof -
  obtain ht' where h: "dictAdd mem ht k v = Some (if map_of (entries ht) k = None then DICT_OK else DICT_ERR, ht')"
    "dict_ok ht'" "dtype ht' = callbackDict" "freed ht' = freed ht"
    "map_of (entries ht') = (if map_of (entries ht) k = None then (map_of (entries ht))(k \<mapsto> v) else map_of (entries ht))"
    by (rule cb.dictAdd_gives[OF assms(1,2,3), of mem k v]) (use assms(4) in auto)
  have "used ht' = card (dom (map_of (entries ht')))"
    using dict_okD(3,4)[OF h(2)] by (metis dom_map_of_conv_image_fst distinct_card length_map set_map)
  then show ?thesis using h by (auto simp: dom_def)
qed

theorem dictAdd_correct_witness:
  "\<exists>ht'. dictAdd (\<lambda>_. True) one_dict ''b'' 2 = Some (DICT_OK, ht')
    \<and> map_of (entries ht') = [''a'' \<mapsto> 1, ''b'' \<mapsto> 2]"
  using dictAdd_correct[of one_dict "\<lambda>_. True" "''b''" 2] one_dict_ok
  by (auto split: if_splits) (metis status.exhaust)

text \<open>
  Replacing in a callback table: \<^verbatim>\<open>dictReplace\<close> maps the key to the new value, returns
  1 for a new key and 0 otherwise, and destroys exactly the value it replaced.
\<close>

theorem dictReplace_correct:
  assumes "dict_ok ht" and "dtype ht = callbackDict" and "htsize ht \<le> 2 ^ 30" and "\<And>n. mem n"
  shows "\<exists>r ht'. dictReplace mem ht k v = Some (r, ht') \<and> dict_ok ht' \<and> dtype ht' = callbackDict
    \<and> map_of (entries ht') = (map_of (entries ht))(k \<mapsto> v)
    \<and> (case map_of (entries ht) k of
         None \<Rightarrow> r = 1 \<and> freed ht' = freed ht
       | Some old \<Rightarrow> r = 0 \<and> freed ht' = freed ht @ [Val old])"
proof -
  obtain ht' where h: "dictReplace mem ht k v = Some (if map_of (entries ht) k = None then 1 else 0, ht')"
    "dict_ok ht'" "dtype ht' = callbackDict" "map_of (entries ht') = (map_of (entries ht))(k \<mapsto> v)"
    "freed ht' = freed ht @ (case map_of (entries ht) k of None \<Rightarrow> [] | Some old \<Rightarrow> [Val old])"
    by (rule cb.dictReplace_gives[OF assms(1,2,3), of mem k v]) (use assms(4) in \<open>auto split: option.splits\<close>)
  then show ?thesis by (auto split: option.splits)
qed

theorem dictReplace_correct_witness:
  "\<exists>ht'. dictReplace (\<lambda>_. True) one_dict ''a'' 5 = Some (0, ht') \<and> map_of (entries ht') = [''a'' \<mapsto> 5]
    \<and> freed ht' = [Val 1]"
  using dictReplace_correct[of one_dict "\<lambda>_. True" "''a''" 5] one_dict_ok by auto

text \<open>
  C39. Deleting from a callback table: \<^verbatim>\<open>dictDelete\<close> removes the key and nothing else; it
  returns \<^verbatim>\<open>DICT_ERR\<close> exactly when the key is absent, and otherwise destroys the key and
  then its value. The table never shrinks.
\<close>

theorem dictDelete_correct:
  assumes "dict_ok ht" and "dtype ht = callbackDict"
  shows "\<exists>r ht'. dictDelete ht k = Some (r, ht') \<and> dict_ok ht' \<and> dtype ht' = callbackDict
    \<and> map_of (entries ht') = (map_of (entries ht))(k := None) \<and> htsize ht' = htsize ht
    \<and> (case map_of (entries ht) k of
         None \<Rightarrow> r = DICT_ERR \<and> freed ht' = freed ht
       | Some v \<Rightarrow> r = DICT_OK \<and> freed ht' = freed ht @ [Key k, Val v])"
proof -
  obtain ht' where h: "dictDelete ht k = Some (if map_of (entries ht) k = None then DICT_ERR else DICT_OK, ht')"
    "dict_ok ht'" "dtype ht' = callbackDict" "map_of (entries ht') = (map_of (entries ht))(k := None)"
    "freed ht' = freed ht @ (case map_of (entries ht) k of None \<Rightarrow> [] | Some v \<Rightarrow> [Key k, Val v])"
    "htsize ht' = htsize ht"
    by (rule cb.dictDelete_gives[OF assms, of k]) (auto split: option.splits)
  then show ?thesis by (auto split: option.splits)
qed

theorem dictDelete_correct_witness:
  "\<exists>ht'. dictDelete one_dict ''a'' = Some (DICT_OK, ht') \<and> map_of (entries ht') = Map.empty
    \<and> freed ht' = [Key ''a'', Val 1]"
  using dictDelete_correct[of one_dict "''a''"] one_dict_ok by auto

text \<open>
  Looking up in a callback table: \<^verbatim>\<open>dictFind\<close> stays inside the table and returns the
  entry of the key in the abstract map, the null pointer when there is none.
\<close>

theorem dictFind_correct:
  assumes "dict_ok ht" and "dtype ht = callbackDict"
  shows "dictFind ht k = Some (map_option (Pair k) (map_of (entries ht) k))"
  by (rule cb.dictFind_gives[OF assms])

theorem dictFind_correct_witness:
  "dictFind one_dict ''a'' = Some (Some (''a'', 1)) \<and> dictFind one_dict ''e'' = Some None"
  using dictFind_correct[of one_dict "''a''"] dictFind_correct[of one_dict "''e''"] one_dict_ok by simp

text \<open>
  Iterating: from a new iterator, as many calls of \<^verbatim>\<open>dictNext\<close> as there are entries return
  every entry exactly once, the next call returns the null pointer, and no call leaves the
  table (of fewer than \<open>2 ^ 31\<close> buckets) or fails to return.
\<close>

theorem dictNext_visits_all:
  assumes "dict_ok ht" and "htsize ht < 2 ^ 31"
  shows "\<exists>iter iter'. nexts (used ht) ht dictGetIterator = Some (map Some (entries ht), iter)
    \<and> dictNext ht iter = Some (None, iter')"
proof -
  have "left ht dictGetIterator = entries ht" by (simp add: left_def dictGetIterator_def entries_def)
  moreover have "- 1 \<le> index dictGetIterator" by (simp add: dictGetIterator_def)
  ultimately show ?thesis
    using nexts_gives[OF dict_okD(1)[OF assms(1)] assms(2), of dictGetIterator] dict_okD(4)[OF assms(1)] by auto
qed

theorem dictNext_visits_all_witness:
  "\<exists>iter iter'. nexts 1 one_dict dictGetIterator = Some ([Some (''a'', 1)], iter)
    \<and> dictNext one_dict iter = Some (None, iter')"
  using dictNext_visits_all[of one_dict] one_dict_ok by simp

text \<open>
  Releasing: \<^verbatim>\<open>dictRelease\<close> calls the destructors once for the key and once for the value of every
  entry, in the order of the table, although its loop stops when the count reaches 0.
\<close>

theorem dictRelease_frees_all:
  assumes "dict_ok ht"
  shows "dictRelease ht = freed ht @ concat (map (frees (dtype ht)) (entries ht))
    \<and> (\<exists>ht'. dictClear ht = (DICT_OK, ht') \<and> dict_ok ht' \<and> entries ht' = [] \<and> dtype ht' = dtype ht)"
proof -
  note D = dict_okD[OF assms]
  have c: "clear_for (take (htsize ht) (table ht)) ht
      = ht\<lparr>freed := freed ht @ concat (map (frees (dtype ht)) (entries ht)), used := 0\<rparr>"
    using clear_for_gives[of ht "table ht"] D(1,4,5,6) by (simp add: entries_def)
  show ?thesis
    unfolding dictRelease_def dictClear_def c
    by (auto simp: dictReset_def dict_ok_def entries_def placed_def)
qed

theorem dictRelease_frees_all_witness: "dictRelease one_dict = [Key ''a'', Val 1]"
  using dictRelease_frees_all[of one_dict] one_dict_ok by (simp add: frees_def)

text \<open>
  The hash is Bernstein's: in unbounded arithmetic, multiply by 33 and add the next byte
  starting from 5381, and take the result modulo \<open>2 ^ 32\<close>.
\<close>

theorem dictGenHashFunction_bernstein:
  "dictGenHashFunction buf = foldl (\<lambda>h c. 33 * h + code c) 5381 buf mod 2 ^ 32"
  using hash_while_mod[of 5381 buf] by (simp add: dictGenHashFunction_def)

end
