(* ===== verification/Async.thy ===== *)
theory Async
  imports Context Dict_Laws
begin

text \<open>
  \<^verbatim>\<open>9_using_hiredis_api/hiredis/async.c\<close>: the asynchronous context over \<^verbatim>\<open>hiredis.c\<close> and \<^verbatim>\<open>dict.c\<close>. A list of callbacks
  is the list of its nodes from \<^verbatim>\<open>head\<close> to \<^verbatim>\<open>tail\<close>. A function pointer is a number; what the client has behind it
  is a \<open>handlers\<close>, an argument of the operations that call it: it may change the context, so it can call the library
  again, and the state \<open>env\<close> of the client. \<open>dead\<close> is what \<^verbatim>\<open>redisFree\<close> left of a context that is freed: every use of
  the context is \<open>None\<close> from then on. \<open>mem n\<close> says whether an allocation of \<open>n\<close> bytes succeeds.
\<close>

subsection \<open>Contexts\<close>

record redisCallback =
  cfn :: "nat option"
  pending_subs :: int
  privdata :: nat

text \<open>The functions of the event library.\<close>

datatype ev_hook = AddRead | DelRead | AddWrite | DelWrite | Cleanup

record 'e redisAsyncContext =
  ctx :: redisContext
  aerr :: int
  has_errstr :: bool
  hooks :: "ev_hook \<Rightarrow> bool"
  hook_calls :: "ev_hook list"
  onDisconnect :: "nat option"
  onConnect :: "nat option"
  replies :: "redisCallback list"
  invalid :: "redisCallback list"
  channels :: "(string, redisCallback) dict option"
  patterns :: "(string, redisCallback) dict option"
  sock :: socket
  env :: 'e
  dead :: "(bool \<times> heap) option"

record 'e handlers =
  on_reply :: "nat \<Rightarrow> nat \<Rightarrow> nat \<Rightarrow> 'e redisAsyncContext \<Rightarrow> 'e redisAsyncContext option"
  on_status :: "nat \<Rightarrow> result \<Rightarrow> 'e redisAsyncContext \<Rightarrow> 'e redisAsyncContext option"

text \<open>The bits of \<^verbatim>\<open>c->flags\<close>.\<close>

abbreviation (input) "CONNECTED \<equiv> 1 :: nat"
abbreviation (input) "DISCONNECTING \<equiv> 2 :: nat"
abbreviation (input) "FREEING \<equiv> 3 :: nat"
abbreviation (input) "IN_CALLBACK \<equiv> 4 :: nat"
abbreviation (input) "SUBSCRIBED \<equiv> 5 :: nat"
abbreviation (input) "MONITORING \<equiv> 6 :: nat"

definition has :: "'e redisAsyncContext \<Rightarrow> nat \<Rightarrow> bool" where
  "has ac n = bit (redisContext.flags (ctx ac)) n"

definition set_flag :: "nat \<Rightarrow> 'e redisAsyncContext \<Rightarrow> 'e redisAsyncContext" where
  "set_flag n ac = ac\<lparr>ctx := (ctx ac)\<lparr>flags := set_bit n (redisContext.flags (ctx ac))\<rparr>\<rparr>"

definition clear_flag :: "nat \<Rightarrow> 'e redisAsyncContext \<Rightarrow> 'e redisAsyncContext" where
  "clear_flag n ac = ac\<lparr>ctx := (ctx ac)\<lparr>flags := unset_bit n (redisContext.flags (ctx ac))\<rparr>\<rparr>"

definition ev_call :: "ev_hook \<Rightarrow> 'e redisAsyncContext \<Rightarrow> 'e redisAsyncContext" where
  "ev_call h ac = (if hooks ac h then ac\<lparr>hook_calls := hook_calls ac @ [h]\<rparr> else ac)"

text \<open>A context that the client's code gave back is used again.\<close>

definition alive :: "'e redisAsyncContext \<Rightarrow> 'e redisAsyncContext option" where
  "alive ac = (if dead ac = None then Some ac else None)"

text \<open>\<^verbatim>\<open>redisAsyncInitialize\<close>, with the blocks that \<^verbatim>\<open>dictCreate\<close> gets; the context does not move.\<close>

definition redisAsyncInitialize :: "(nat \<Rightarrow> bool) \<Rightarrow> (string, redisCallback) dict \<Rightarrow> (string, redisCallback) dict \<Rightarrow> socket \<Rightarrow> 'e
    \<Rightarrow> redisContext \<Rightarrow> 'e redisAsyncContext option" where
  "redisAsyncInitialize mem b1 b2 io e c =
     (if \<not> mem 352 then None
      else Some (clear_flag CONNECTED \<lparr>ctx = c, aerr = 0, has_errstr = False, hooks = (\<lambda>_. False), hook_calls = [], onDisconnect = None,
        onConnect = None, replies = [], invalid = [], channels = Some (dictCreate b1 callbackDict),
        patterns = Some (dictCreate b2 callbackDict), sock = io, env = e, dead = None\<rparr>))"

definition redisAsyncCopyError :: "'e redisAsyncContext \<Rightarrow> 'e redisAsyncContext" where
  "redisAsyncCopyError ac = ac\<lparr>aerr := cerr (ctx ac), has_errstr := True\<rparr>"

definition redisAsyncSetConnectCallback :: "'e redisAsyncContext \<Rightarrow> nat option \<Rightarrow> result \<times> 'e redisAsyncContext" where
  "redisAsyncSetConnectCallback ac f =
     (if onConnect ac = None then (REDIS_OK, ev_call AddWrite (ac\<lparr>onConnect := f\<rparr>)) else (REDIS_ERR, ac))"

definition redisAsyncSetDisconnectCallback :: "'e redisAsyncContext \<Rightarrow> nat option \<Rightarrow> result \<times> 'e redisAsyncContext" where
  "redisAsyncSetDisconnectCallback ac f =
     (if onDisconnect ac = None then (REDIS_OK, ac\<lparr>onDisconnect := f\<rparr>) else (REDIS_ERR, ac))"

subsection \<open>Callbacks\<close>

definition redisPushCallback :: "(nat \<Rightarrow> bool) \<Rightarrow> redisCallback list \<Rightarrow> redisCallback \<Rightarrow> int \<times> redisCallback list" where
  "redisPushCallback mem cbs source = (if \<not> mem 32 then (REDIS_ERR_OOM, cbs) else (0, cbs @ [source]))"

definition redisShiftCallback :: "redisCallback list \<Rightarrow> (redisCallback \<times> redisCallback list) option" where
  "redisShiftCallback cbs = (case cbs of [] \<Rightarrow> None | cb # cbs \<Rightarrow> Some (cb, cbs))"

definition redisRunCallback :: "'e handlers \<Rightarrow> redisCallback \<Rightarrow> nat \<Rightarrow> 'e redisAsyncContext \<Rightarrow> 'e redisAsyncContext option" where
  "redisRunCallback cl cb rep ac =
     (case cfn cb of
        None \<Rightarrow> Some ac
      | Some f \<Rightarrow> on_reply cl f rep (privdata cb) (set_flag IN_CALLBACK ac) \<bind> alive \<bind> (\<lambda>ac. Some (clear_flag IN_CALLBACK ac)))"

subsection \<open>Freeing and disconnecting\<close>

partial_function (option) replies_while :: "'e handlers \<Rightarrow> 'e redisAsyncContext \<Rightarrow> 'e redisAsyncContext option" where
  "replies_while cl ac =
     (case redisShiftCallback (replies ac) of
        None \<Rightarrow> Some ac
      | Some (cb, cbs) \<Rightarrow> redisRunCallback cl cb 0 (ac\<lparr>replies := cbs\<rparr>) \<bind> (\<lambda>ac. replies_while cl ac))"

partial_function (option) invalid_while :: "'e handlers \<Rightarrow> 'e redisAsyncContext \<Rightarrow> 'e redisAsyncContext option" where
  "invalid_while cl ac =
     (case redisShiftCallback (invalid ac) of
        None \<Rightarrow> Some ac
      | Some (cb, cbs) \<Rightarrow> redisRunCallback cl cb 0 (ac\<lparr>invalid := cbs\<rparr>) \<bind> (\<lambda>ac. invalid_while cl ac))"

text \<open>The loop over a table; the iterator keeps the pointer to the table it was made for.\<close>

partial_function (option) subs_while ::
  "'e handlers \<Rightarrow> ('e redisAsyncContext \<Rightarrow> (string, redisCallback) dict option) \<Rightarrow> (string, redisCallback) dictIterator
     \<Rightarrow> 'e redisAsyncContext \<Rightarrow> 'e redisAsyncContext option" where
  "subs_while cl tbl it ac =
     tbl ac \<bind> (\<lambda>d. dictNext d it \<bind> (\<lambda>(de, it). case de of
       None \<Rightarrow> Some ac
     | Some e \<Rightarrow> redisRunCallback cl (snd e) 0 ac \<bind> (\<lambda>ac. subs_while cl tbl it ac)))"

definition run_disconnect :: "'e handlers \<Rightarrow> 'e redisAsyncContext \<Rightarrow> 'e redisAsyncContext option" where
  "run_disconnect cl ac =
     (case onDisconnect ac of
        None \<Rightarrow> Some ac
      | Some f \<Rightarrow>
          if \<not> has ac CONNECTED then Some ac
          else on_status cl f (if has ac FREEING then REDIS_OK else if aerr ac = 0 then REDIS_OK else REDIS_ERR) ac)"

text \<open>\<^verbatim>\<open>__redisAsyncFree\<close>\<close>

definition asyncFree :: "'e handlers \<Rightarrow> 'e redisAsyncContext \<Rightarrow> 'e redisAsyncContext option" where
  "asyncFree cl ac =
     replies_while cl ac \<bind> invalid_while cl \<bind> subs_while cl channels dictGetIterator
       \<bind> (\<lambda>ac. channels ac \<bind> (\<lambda>d. Some (ac\<lparr>channels := None\<rparr>)))
       \<bind> subs_while cl patterns dictGetIterator
       \<bind> (\<lambda>ac. patterns ac \<bind> (\<lambda>d. Some (ac\<lparr>patterns := None\<rparr>)))
       \<bind> (\<lambda>ac. run_disconnect cl (ev_call Cleanup ac)) \<bind> alive
       \<bind> (\<lambda>ac. redisFree (ctx ac) \<bind> (\<lambda>left. Some (ac\<lparr>dead := Some left\<rparr>)))"

definition redisAsyncFree :: "'e handlers \<Rightarrow> 'e redisAsyncContext \<Rightarrow> 'e redisAsyncContext option" where
  "redisAsyncFree cl ac =
     alive ac \<bind> (\<lambda>ac. let ac = set_flag FREEING ac in if \<not> has ac IN_CALLBACK then asyncFree cl ac else Some ac)"

text \<open>\<^verbatim>\<open>__redisAsyncDisconnect\<close>\<close>

definition asyncDisconnect :: "'e handlers \<Rightarrow> 'e redisAsyncContext \<Rightarrow> 'e redisAsyncContext option" where
  "asyncDisconnect cl ac =
     (let ac = redisAsyncCopyError ac
      in (if aerr ac = 0 then (if redisShiftCallback (replies ac) = None then Some ac else None)
          else Some (set_flag DISCONNECTING ac)) \<bind> asyncFree cl)"

definition redisAsyncDisconnect :: "'e handlers \<Rightarrow> 'e redisAsyncContext \<Rightarrow> 'e redisAsyncContext option" where
  "redisAsyncDisconnect cl ac =
     alive ac \<bind> (\<lambda>ac. let ac = set_flag DISCONNECTING ac
       in if \<not> has ac IN_CALLBACK \<and> replies ac = [] then asyncDisconnect cl ac else Some ac)"

subsection \<open>Replies\<close>

text \<open>\<^verbatim>\<open>strcasecmp(s, t) == 0\<close> and \<^verbatim>\<open>strncasecmp(s, t, strlen(t)) == 0\<close> for a literal \<open>t\<close>, on the memory from \<open>s\<close> on.\<close>

fun strcase_eq :: "string \<Rightarrow> string \<Rightarrow> bool option" where
  "strcase_eq [] t = None"
| "strcase_eq (c # s) [] = Some (c = NUL)"
| "strcase_eq (c # s) (d # t) = (if tolower c \<noteq> tolower d then Some False else strcase_eq s t)"

fun strncase_eq :: "string \<Rightarrow> string \<Rightarrow> bool option" where
  "strncase_eq s [] = Some True"
| "strncase_eq [] (d # t) = None"
| "strncase_eq (c # s) (d # t) = (if tolower c \<noteq> tolower d then Some False else strncase_eq s t)"

text \<open>Writing through the value pointer of the entry that \<open>dictFind\<close> found.\<close>

definition put_entry :: "(string, redisCallback) dict \<Rightarrow> string \<Rightarrow> redisCallback \<Rightarrow> (string, redisCallback) dict option" where
  "put_entry ht k v =
     (let h = and (dictHashKey (dtype ht) k) (sizemask ht)
      in rd (table ht) h \<bind> (\<lambda>he. wr (table ht) h (set_val (dtype ht) k v he) \<bind> (\<lambda>tbl. Some (ht\<lparr>table := tbl\<rparr>))))"

definition sub_table :: "bool \<Rightarrow> 'e redisAsyncContext \<Rightarrow> (string, redisCallback) dict option" where
  "sub_table pvariant ac = (if pvariant then patterns ac else channels ac)"

definition set_sub_table :: "bool \<Rightarrow> (string, redisCallback) dict \<Rightarrow> 'e redisAsyncContext \<Rightarrow> 'e redisAsyncContext" where
  "set_sub_table pvariant d ac = (if pvariant then ac\<lparr>patterns := Some d\<rparr> else ac\<lparr>channels := Some d\<rparr>)"

definition element_at :: "heap \<Rightarrow> nat list \<Rightarrow> nat \<Rightarrow> int \<Rightarrow> redisReply option" where
  "element_at h es i ty = rd es i \<bind> deref h \<bind> (\<lambda>e. if rtype e = ty then Some e else None)"

text \<open>An \<^verbatim>\<open>sds\<close> made of \<open>n\<close> bytes, as a key of a table.\<close>

definition sds_key :: "allocator \<Rightarrow> string \<Rightarrow> nat \<Rightarrow> string option" where
  "sds_key mal s n = sdsnewlen mal (Some s) n \<bind> (\<lambda>k. k \<bind> (\<lambda>k. Some (str k)))"

text \<open>The branch of a callback that was found; \<open>stype\<close> starts behind the \<open>p\<close> of a pattern message.\<close>

definition update_sub :: "'e redisAsyncContext \<Rightarrow> nat list \<Rightarrow> bool \<Rightarrow> string \<Rightarrow> string \<Rightarrow> (string, redisCallback) dict \<Rightarrow> redisCallback
    \<Rightarrow> ('e redisAsyncContext \<times> redisCallback) option" where
  "update_sub ac es pvariant stype sname callbacks cb =
     strcase_eq stype ''subscribe'' \<bind> (\<lambda>sub.
       let cb = (if sub then cb\<lparr>pending_subs := pending_subs cb - 1\<rparr> else cb)
       in put_entry callbacks sname cb \<bind> (\<lambda>callbacks. strcase_eq stype ''unsubscribe'' \<bind> (\<lambda>unsub.
         if \<not> unsub then Some (set_sub_table pvariant callbacks ac, cb)
         else (if pending_subs cb = 0 then dictDelete callbacks sname \<bind> (\<lambda>(_, d). Some d) else Some callbacks) \<bind> (\<lambda>callbacks.
           let ac = set_sub_table pvariant callbacks ac
           in element_at (objs (reader (ctx ac))) es 2 REDIS_REPLY_INTEGER \<bind> (\<lambda>e2. channels ac \<bind> (\<lambda>ch. patterns ac \<bind> (\<lambda>pa.
             Some (if integer e2 = 0 \<and> used ch = 0 \<and> used pa = 0 then clear_flag SUBSCRIBED ac else ac, cb))))))))"

text \<open>\<^verbatim>\<open>__redisGetSubscribeCallback\<close>; the callback given is what \<^verbatim>\<open>*dstcb\<close> holds before.\<close>

definition getSubscribeCallback :: "allocator \<Rightarrow> 'e redisAsyncContext \<Rightarrow> nat \<Rightarrow> redisCallback \<Rightarrow> ('e redisAsyncContext \<times> redisCallback) option" where
  "getSubscribeCallback mal ac rep dstcb =
     (let h = objs (reader (ctx ac)) in deref h rep \<bind> (\<lambda>r.
        if rtype r = REDIS_REPLY_ARRAY
        then if relements r < 2 then None
          else element r \<bind> (\<lambda>es. element_at h es 0 REDIS_REPLY_STRING \<bind> (\<lambda>e0. rstr e0 \<bind> (\<lambda>stype. rd stype 0 \<bind> (\<lambda>s0.
            let pvariant = (tolower s0 = CHR ''p''); stype = (if pvariant then drop 1 stype else stype)
            in element_at h es 1 REDIS_REPLY_STRING \<bind> (\<lambda>e1. rstr e1 \<bind> (\<lambda>s1. sds_key mal s1 (rlength e1) \<bind> (\<lambda>sname.
              sub_table pvariant ac \<bind> (\<lambda>callbacks. dictFind callbacks sname \<bind> (\<lambda>de. case de of
                None \<Rightarrow> Some (ac, dstcb)
              | Some (_, cb) \<Rightarrow> update_sub ac es pvariant stype sname callbacks cb)))))))))
        else Some (case redisShiftCallback (invalid ac) of None \<Rightarrow> (ac, dstcb) | Some (cb, cbs) \<Rightarrow> (ac\<lparr>invalid := cbs\<rparr>, cb))))"

text \<open>\<^verbatim>\<open>c->reader->fn->freeObject(reply)\<close>\<close>

definition free_reply :: "nat \<Rightarrow> 'e redisAsyncContext \<Rightarrow> 'e redisAsyncContext option" where
  "free_reply rep ac =
     freeObject (fn (reader (ctx ac))) \<bind> (\<lambda>f. f rep (objs (reader (ctx ac))) \<bind> (\<lambda>h.
       Some (ac\<lparr>ctx := (ctx ac)\<lparr>reader := (reader (ctx ac))\<lparr>objs := h\<rparr>\<rparr>\<rparr>)))"

text \<open>Errors of the server before any command: the text of the reply becomes the error of the connection.\<close>

definition reply_error :: "nat \<Rightarrow> 'e redisAsyncContext \<Rightarrow> 'e redisAsyncContext option" where
  "reply_error rep ac =
     deref (objs (reader (ctx ac))) rep \<bind> (\<lambda>r. rstr r \<bind> (\<lambda>s. strlen s \<bind> (\<lambda>n.
       free_reply rep (ac\<lparr>ctx := (ctx ac)\<lparr>cerr := REDIS_ERR_OTHER, cerrstr := take 127 (take n s)\<rparr>\<rparr>))))"

partial_function (option) process_while ::
  "allocator \<Rightarrow> (nat \<Rightarrow> bool) \<Rightarrow> 'e handlers \<Rightarrow> redisCallback \<Rightarrow> 'e redisAsyncContext \<Rightarrow> 'e redisAsyncContext option" where
  "process_while mal mem cl cb ac =
     redisGetReply mal (ctx ac) (sock ac) \<bind> (\<lambda>(status, rep, c, io).
       let ac = ac\<lparr>ctx := c, sock := io\<rparr>
       in if status \<noteq> REDIS_OK then asyncDisconnect cl ac
       else if rep = 0
       then (if has ac DISCONNECTING then obuf (ctx ac) \<bind> (\<lambda>s. Some (sdslen s = 0 \<and> replies ac = [])) else Some False) \<bind> (\<lambda>leave.
         if leave then asyncDisconnect cl ac
         else Some (if has ac MONITORING then ac\<lparr>replies := snd (redisPushCallback mem (replies ac) cb)\<rparr> else ac))
       else
         (case redisShiftCallback (replies ac) of
            Some (cb, cbs) \<Rightarrow> Some (Inr (ac\<lparr>replies := cbs\<rparr>, cb))
          | None \<Rightarrow> deref (objs (reader (ctx ac))) rep \<bind> (\<lambda>r.
              if rtype r = REDIS_REPLY_ERROR then reply_error rep ac \<bind> asyncDisconnect cl \<bind> (\<lambda>ac. Some (Inl ac))
              else if \<not> (has ac SUBSCRIBED \<or> has ac MONITORING) then None
              else if has ac SUBSCRIBED then getSubscribeCallback mal ac rep cb \<bind> (\<lambda>(ac, cb). Some (Inr (ac, cb)))
              else Some (Inr (ac, cb)))) \<bind> (\<lambda>next. case next of
            Inl ac \<Rightarrow> Some ac
          | Inr (ac, cb) \<Rightarrow>
              if cfn cb \<noteq> None
              then redisRunCallback cl cb rep ac \<bind> free_reply rep \<bind> (\<lambda>ac.
                if has ac FREEING then asyncFree cl ac else process_while mal mem cl cb ac)
              else free_reply rep ac \<bind> (\<lambda>ac. process_while mal mem cl cb ac)))"

definition redisProcessCallbacks :: "allocator \<Rightarrow> (nat \<Rightarrow> bool) \<Rightarrow> 'e handlers \<Rightarrow> 'e redisAsyncContext \<Rightarrow> 'e redisAsyncContext option" where
  "redisProcessCallbacks mal mem cl ac =
     alive ac \<bind> process_while mal mem cl \<lparr>cfn = None, pending_subs = 0, privdata = 0\<rparr>"

subsection \<open>Events\<close>

text \<open>What \<^verbatim>\<open>getsockopt\<close> says of the socket: it fails, or gives an error, 0 for none; both with the text of the error.\<close>

datatype so_error = So_fails int string | So_error int string

text \<open>\<^verbatim>\<open>redisCheckSocketError\<close> of \<^verbatim>\<open>net.c\<close>: the result, \<^verbatim>\<open>errno\<close> and the context.\<close>

definition redisCheckSocketError :: "so_error \<Rightarrow> redisContext \<Rightarrow> result \<times> int \<times> redisContext" where
  "redisCheckSocketError so c =
     (case so of
        So_fails e t \<Rightarrow> (REDIS_ERR, e, redisSetError c REDIS_ERR_IO (take 127 (''getsockopt(SO_ERROR): '' @ t)))
      | So_error e t \<Rightarrow> if e \<noteq> 0 then (REDIS_ERR, e, redisSetError c REDIS_ERR_IO (take 127 t)) else (REDIS_OK, 0, c))"

abbreviation (input) "EINPROGRESS \<equiv> 115 :: int"

definition run_connect :: "'e handlers \<Rightarrow> result \<Rightarrow> 'e redisAsyncContext \<Rightarrow> 'e redisAsyncContext option" where
  "run_connect cl st ac = (case onConnect ac of None \<Rightarrow> Some ac | Some f \<Rightarrow> on_status cl f st ac)"

text \<open>\<^verbatim>\<open>__redisAsyncHandleConnect\<close>\<close>

definition asyncHandleConnect :: "'e handlers \<Rightarrow> so_error \<Rightarrow> 'e redisAsyncContext \<Rightarrow> (result \<times> 'e redisAsyncContext) option" where
  "asyncHandleConnect cl so ac =
     (case redisCheckSocketError so (ctx ac) of (st, errno, c) \<Rightarrow>
        let ac = ac\<lparr>ctx := c\<rparr>
        in if st = REDIS_ERR
        then if errno = EINPROGRESS then Some (REDIS_OK, ac)
          else run_connect cl REDIS_ERR ac \<bind> alive \<bind> asyncDisconnect cl \<bind> (\<lambda>ac. Some (REDIS_ERR, ac))
        else run_connect cl REDIS_OK (set_flag CONNECTED ac) \<bind> (\<lambda>ac. Some (REDIS_OK, ac)))"

text \<open>Whether the handler goes on.\<close>

definition connect_first :: "'e handlers \<Rightarrow> so_error \<Rightarrow> 'e redisAsyncContext \<Rightarrow> (bool \<times> 'e redisAsyncContext) option" where
  "connect_first cl so ac =
     (if has ac CONNECTED then Some (True, ac)
      else asyncHandleConnect cl so ac \<bind> (\<lambda>(st, ac).
        if st \<noteq> REDIS_OK then Some (False, ac) else alive ac \<bind> (\<lambda>ac. Some (has ac CONNECTED, ac))))"

definition redisAsyncHandleRead :: "allocator \<Rightarrow> (nat \<Rightarrow> bool) \<Rightarrow> 'e handlers \<Rightarrow> so_error \<Rightarrow> 'e redisAsyncContext \<Rightarrow> 'e redisAsyncContext option" where
  "redisAsyncHandleRead mal mem cl so ac =
     alive ac \<bind> connect_first cl so \<bind> (\<lambda>(go, ac).
       if \<not> go then Some ac
       else redisBufferRead mal (ctx ac) (sock ac) \<bind> (\<lambda>(st, c, io).
         let ac = ac\<lparr>ctx := c, sock := io\<rparr>
         in if st = REDIS_ERR then asyncDisconnect cl ac
         else redisProcessCallbacks mal mem cl (ev_call AddRead ac)))"

definition redisAsyncHandleWrite :: "allocator \<Rightarrow> 'e handlers \<Rightarrow> so_error \<Rightarrow> 'e redisAsyncContext \<Rightarrow> 'e redisAsyncContext option" where
  "redisAsyncHandleWrite mal cl so ac =
     alive ac \<bind> connect_first cl so \<bind> (\<lambda>(go, ac).
       if \<not> go then Some ac
       else redisBufferWrite mal (ctx ac) (sock ac) \<bind> (\<lambda>(st, wdone, c, io).
         let ac = ac\<lparr>ctx := c, sock := io\<rparr>
         in if st = REDIS_ERR then asyncDisconnect cl ac
         else Some (ev_call AddRead (ev_call (if \<not> wdone then AddWrite else DelWrite) ac))))"

subsection \<open>Commands\<close>

text \<open>\<^verbatim>\<open>strchr\<close> from index \<open>p\<close> of a memory on: the index found, or the null pointer.\<close>

fun find_char :: "char \<Rightarrow> string \<Rightarrow> nat option option" where
  "find_char c [] = None"
| "find_char c (x # xs) = (if x = c then Some (Some 0) else if x = NUL then Some None else map_option (map_option Suc) (find_char c xs))"

definition strchr_at :: "string \<Rightarrow> nat \<Rightarrow> char \<Rightarrow> nat option option" where
  "strchr_at m p c = map_option (map_option ((+) p)) (find_char c (drop p m))"

fun digits_value :: "string \<Rightarrow> int \<Rightarrow> int option" where
  "digits_value [] v = None"
| "digits_value (c # s) v = (if isdigit c then digits_value s (10 * v + (int (code c) - 48)) else Some v)"

text \<open>\<^verbatim>\<open>strtol(m + p, NULL, 10)\<close>\<close>

definition strtol :: "string \<Rightarrow> nat \<Rightarrow> int option" where
  "strtol m p =
     skip_while isspace m p \<bind> (\<lambda>p. rd m p \<bind> (\<lambda>c.
       let p = (if c = CHR ''-'' \<or> c = CHR ''+'' then p + 1 else p)
       in digits_value (drop p m) 0 \<bind> (\<lambda>v. Some (max (- (2 ^ 63)) (min (2 ^ 63 - 1) (if c = CHR ''-'' then - v else v))))))"

text \<open>The start of the next argument, its length and where the one after it starts, or the null pointer.\<close>

definition nextArgument :: "string \<Rightarrow> nat \<Rightarrow> (nat \<times> nat \<times> nat) option option" where
  "nextArgument m p =
     rd m p \<bind> (\<lambda>c. (if c \<noteq> CHR ''$'' then strchr_at m p (CHR ''$'') else Some (Some p)) \<bind> (\<lambda>q. case q of
       None \<Rightarrow> Some None
     | Some p \<Rightarrow> strtol m (p + 1) \<bind> (\<lambda>v. let len = size_t (int32 v)
         in strchr_at m p (CHR 0x0d) \<bind> (\<lambda>q. q \<bind> (\<lambda>p.
           if p + 2 + len + 2 \<le> length m then Some (Some (p + 2, len, p + 2 + len + 2)) else None)))))"

partial_function (option) subscribe_while ::
  "allocator \<Rightarrow> (nat \<Rightarrow> bool) \<Rightarrow> string \<Rightarrow> bool \<Rightarrow> nat \<Rightarrow> redisCallback \<Rightarrow> 'e redisAsyncContext \<Rightarrow> 'e redisAsyncContext option" where
  "subscribe_while mal mem m pvariant p cb ac =
     nextArgument m p \<bind> (\<lambda>r. case r of
       None \<Rightarrow> Some ac
     | Some (astr, alen, p) \<Rightarrow>
         sds_key mal (drop astr m) alen \<bind> (\<lambda>sname. sub_table pvariant ac \<bind> (\<lambda>cbdict. dictFind cbdict sname \<bind> (\<lambda>de.
           let cb = (case de of None \<Rightarrow> cb | Some (_, existcb) \<Rightarrow> cb\<lparr>pending_subs := pending_subs existcb + 1\<rparr>)
           in dictReplace mem cbdict sname cb \<bind> (\<lambda>(_, cbdict).
             subscribe_while mal mem m pvariant p cb (set_sub_table pvariant cbdict ac))))))"

text \<open>\<^verbatim>\<open>__redisAsyncCommand\<close>; \<open>m\<close> is the memory of the command, \<open>n\<close> its length.\<close>

definition register :: "allocator \<Rightarrow> (nat \<Rightarrow> bool) \<Rightarrow> redisCallback \<Rightarrow> string \<Rightarrow> 'e redisAsyncContext \<Rightarrow> (result \<times> 'e redisAsyncContext) option" where
  "register mal mem cb m ac =
     nextArgument m 0 \<bind> (\<lambda>r. r \<bind> (\<lambda>(cs, clen, p). rd m p \<bind> (\<lambda>c. rd m cs \<bind> (\<lambda>c0.
       let hasnext = (c = CHR ''$''); pvariant = (tolower c0 = CHR ''p''); name = drop (if pvariant then cs + 1 else cs) m
       in (if hasnext then strncase_eq name (''subscribe'' @ CRLF) else Some False) \<bind> (\<lambda>sub.
         if sub then subscribe_while mal mem m pvariant p cb (set_flag SUBSCRIBED ac) \<bind> (\<lambda>ac. Some (REDIS_OK, ac))
         else strncase_eq name (''unsubscribe'' @ CRLF) \<bind> (\<lambda>unsub.
           if unsub then Some (if \<not> has ac SUBSCRIBED then REDIS_ERR else REDIS_OK, ac)
           else strncase_eq name (''monitor'' @ CRLF) \<bind> (\<lambda>monitor. Some (REDIS_OK,
             if monitor then (set_flag MONITORING ac)\<lparr>replies := snd (redisPushCallback mem (replies ac) cb)\<rparr>
             else if has ac SUBSCRIBED then ac\<lparr>invalid := snd (redisPushCallback mem (invalid ac) cb)\<rparr>
             else ac\<lparr>replies := snd (redisPushCallback mem (replies ac) cb)\<rparr>))))))))"

definition asyncCommand :: "allocator \<Rightarrow> (nat \<Rightarrow> bool) \<Rightarrow> 'e redisAsyncContext \<Rightarrow> nat option \<Rightarrow> nat \<Rightarrow> string \<Rightarrow> nat
    \<Rightarrow> (result \<times> 'e redisAsyncContext) option" where
  "asyncCommand mal mem ac f pd m n =
     alive ac \<bind> (\<lambda>ac. if has ac DISCONNECTING \<or> has ac FREEING then Some (REDIS_ERR, ac)
       else register mal mem \<lparr>cfn = f, pending_subs = 1, privdata = pd\<rparr> m ac \<bind> (\<lambda>(st, ac).
         if st = REDIS_ERR then Some (REDIS_ERR, ac)
         else appendCommand mal (ctx ac) m n \<bind> (\<lambda>(_, c). Some (REDIS_OK, ev_call AddWrite (ac\<lparr>ctx := c\<rparr>)))))"

definition redisvAsyncCommand :: "allocator \<Rightarrow> (nat \<Rightarrow> bool) \<Rightarrow> (string \<Rightarrow> va list \<Rightarrow> string option) \<Rightarrow> 'e redisAsyncContext \<Rightarrow> nat option \<Rightarrow> nat
    \<Rightarrow> string \<Rightarrow> va list \<Rightarrow> (result \<times> 'e redisAsyncContext) option" where
  "redisvAsyncCommand mal mem pf ac f pd fmt vs =
     redisvFormatCommand mal pf fmt vs \<bind> (\<lambda>(n, cmd).
       if n < 0 then Some (REDIS_ERR, ac) else cmd \<bind> (\<lambda>cmd. asyncCommand mal mem ac f pd cmd (nat n)))"

definition redisAsyncCommandArgv :: "allocator \<Rightarrow> (nat \<Rightarrow> bool) \<Rightarrow> 'e redisAsyncContext \<Rightarrow> nat option \<Rightarrow> nat \<Rightarrow> nat \<Rightarrow> string list
    \<Rightarrow> nat list option \<Rightarrow> (result \<times> 'e redisAsyncContext) option" where
  "redisAsyncCommandArgv mal mem ac f pd argc argv argvlen =
     redisFormatSdsCommandArgv mal argc argv argvlen \<bind> (\<lambda>(n, cmd).
       if n < 0 then Some (REDIS_ERR, ac) else cmd \<bind> (\<lambda>cmd. asyncCommand mal mem ac f pd (buf cmd) (nat n)))"

definition redisAsyncFormattedCommand :: "allocator \<Rightarrow> (nat \<Rightarrow> bool) \<Rightarrow> 'e redisAsyncContext \<Rightarrow> nat option \<Rightarrow> nat \<Rightarrow> string \<Rightarrow> nat
    \<Rightarrow> (result \<times> 'e redisAsyncContext) option" where
  "redisAsyncFormattedCommand mal mem ac f pd cmd n = asyncCommand mal mem ac f pd cmd n"

lemmas async_loops [code] = replies_while.simps invalid_while.simps subs_while.simps process_while.simps subscribe_while.simps

end
