(* ===== verification/Async_Laws.thy ===== *)
theory Async_Laws
  imports Async
begin

text \<open>
  The calls of callbacks and the life of an asynchronous context, for clients whose callbacks read the reply
  and change only their own state.
\<close>

subsection \<open>Flags\<close>

lemma bit_set_bit [simp]: "bit (set_bit n (f :: nat)) m \<longleftrightarrow> m = n \<or> bit f m"
  by (auto simp: bit_simps)

lemma bit_unset_bit [simp]: "bit (unset_bit n (f :: nat)) m \<longleftrightarrow> m \<noteq> n \<and> bit f m"
  by (auto simp: bit_simps)

lemma unset_set_bit: "\<not> bit (f :: nat) n \<Longrightarrow> unset_bit n (set_bit n f) = f"
  by (rule bit_eqI) auto

lemma has_flag [simp]:
  "has (set_flag n ac) m \<longleftrightarrow> m = n \<or> has ac m" "has (clear_flag n ac) m \<longleftrightarrow> m \<noteq> n \<and> has ac m"
  by (simp_all add: has_def set_flag_def clear_flag_def)

lemma flag_fields [simp]:
  "replies (set_flag n ac) = replies ac" "invalid (set_flag n ac) = invalid ac" "channels (set_flag n ac) = channels ac"
  "patterns (set_flag n ac) = patterns ac" "env (set_flag n ac) = env ac" "dead (set_flag n ac) = dead ac" "sock (set_flag n ac) = sock ac"
  "aerr (set_flag n ac) = aerr ac" "onDisconnect (set_flag n ac) = onDisconnect ac" "onConnect (set_flag n ac) = onConnect ac"
  "reader (ctx (set_flag n ac)) = reader (ctx ac)" "obuf (ctx (set_flag n ac)) = obuf (ctx ac)" "cerr (ctx (set_flag n ac)) = cerr (ctx ac)"
  by (simp_all add: set_flag_def)

lemma clear_set_flag: "\<not> has ac n \<Longrightarrow> clear_flag n (set_flag n ac\<lparr>env := e\<rparr>) = ac\<lparr>env := e\<rparr>"
  by (simp add: has_def set_flag_def clear_flag_def unset_set_bit)

lemma has_updates [simp]:
  "has (ac\<lparr>replies := x1\<rparr>) n = has ac n" "has (ac\<lparr>invalid := x2\<rparr>) n = has ac n" "has (ac\<lparr>channels := x3\<rparr>) n = has ac n"
  "has (ac\<lparr>patterns := x3\<rparr>) n = has ac n" "has (ac\<lparr>env := x4\<rparr>) n = has ac n" "has (ac\<lparr>sock := x5\<rparr>) n = has ac n"
  "has (ac\<lparr>hook_calls := x6\<rparr>) n = has ac n" "has (ac\<lparr>dead := x7\<rparr>) n = has ac n" "has (ev_call h ac) n = has ac n"
  "has (ac\<lparr>aerr := x8\<rparr>) n = has ac n" "has (ac\<lparr>has_errstr := x9\<rparr>) n = has ac n"
  by (simp_all add: has_def ev_call_def)

lemma ev_call_fields [simp]:
  "ctx (ev_call h ac) = ctx ac" "replies (ev_call h ac) = replies ac" "invalid (ev_call h ac) = invalid ac" "channels (ev_call h ac) = channels ac"
  "patterns (ev_call h ac) = patterns ac" "env (ev_call h ac) = env ac" "dead (ev_call h ac) = dead ac" "sock (ev_call h ac) = sock ac"
  "aerr (ev_call h ac) = aerr ac" "onDisconnect (ev_call h ac) = onDisconnect ac" "hooks (ev_call h ac) = hooks ac"
  "hook_calls (ev_call h ac) = (if hooks ac h then hook_calls ac @ [h] else hook_calls ac)"
  by (simp_all add: ev_call_def)

subsection \<open>Clients that observe\<close>

text \<open>The callbacks of the client see the reply, \<^term>\<open>None\<close> for the null pointer, and change the state of the client.\<close>

definition observes :: "'e handlers \<Rightarrow> (nat \<Rightarrow> nat \<Rightarrow> reply_tree option \<Rightarrow> 'e \<Rightarrow> 'e) \<Rightarrow> (nat \<Rightarrow> result \<Rightarrow> 'e \<Rightarrow> 'e) \<Rightarrow> bool" where
  "observes cl F G \<longleftrightarrow>
     (\<forall>f rep pd ac. on_reply cl f rep pd ac = Some (ac\<lparr>env := F f pd (tree_at 9 (objs (reader (ctx ac))) rep) (env ac)\<rparr>))
   \<and> (\<forall>f st ac. on_status cl f st ac = Some (ac\<lparr>env := G f st (env ac)\<rparr>))"

definition called :: "(nat \<Rightarrow> nat \<Rightarrow> reply_tree option \<Rightarrow> 'e \<Rightarrow> 'e) \<Rightarrow> reply_tree option \<Rightarrow> redisCallback \<Rightarrow> 'e \<Rightarrow> 'e" where
  "called F t cb e = (case cfn cb of None \<Rightarrow> e | Some f \<Rightarrow> F f (privdata cb) t e)"

lemma run_observes:
  assumes "observes cl F G" and "dead ac = None" and "\<not> has ac IN_CALLBACK"
  shows "redisRunCallback cl cb rep ac = Some (ac\<lparr>env := called F (tree_at 9 (objs (reader (ctx ac))) rep) cb (env ac)\<rparr>)"
proof (cases "cfn cb")
  case (Some f)
  then show ?thesis using assms clear_set_flag[OF assms(3)] unfolding redisRunCallback_def observes_def
    by (simp add: alive_def called_def)
qed (simp add: redisRunCallback_def called_def)

lemma tree_null [simp]: "tree_at n h 0 = None"
  by (cases n) (simp_all add: deref_def)

subsection \<open>Freeing\<close>

lemma replies_while_observes:
  assumes "observes cl F G" and "dead ac = None" and "\<not> has ac IN_CALLBACK"
  shows "replies_while cl ac = Some (ac\<lparr>replies := [], env := fold (called F None) (replies ac) (env ac)\<rparr>)"
  using assms(2,3)
proof (induction "replies ac" arbitrary: ac)
  case Nil
  then show ?case by (subst replies_while.simps) (simp add: redisShiftCallback_def)
next
  case (Cons cb cbs)
  have r: "redisRunCallback cl cb 0 (ac\<lparr>replies := cbs\<rparr>) = Some (ac\<lparr>replies := cbs, env := called F None cb (env ac)\<rparr>)"
    using run_observes[OF assms(1), of "ac\<lparr>replies := cbs\<rparr>" cb 0] Cons.prems by simp
  from Cons.hyps(1)[of "ac\<lparr>replies := cbs, env := called F None cb (env ac)\<rparr>"] show ?case
    using Cons.prems Cons.hyps(2)[symmetric] r by (subst replies_while.simps) (simp add: redisShiftCallback_def)
qed

lemma invalid_while_observes:
  assumes "observes cl F G" and "dead ac = None" and "\<not> has ac IN_CALLBACK"
  shows "invalid_while cl ac = Some (ac\<lparr>invalid := [], env := fold (called F None) (invalid ac) (env ac)\<rparr>)"
  using assms(2,3)
proof (induction "invalid ac" arbitrary: ac)
  case Nil
  then show ?case by (subst invalid_while.simps) (simp add: redisShiftCallback_def)
next
  case (Cons cb cbs)
  have r: "redisRunCallback cl cb 0 (ac\<lparr>invalid := cbs\<rparr>) = Some (ac\<lparr>invalid := cbs, env := called F None cb (env ac)\<rparr>)"
    using run_observes[OF assms(1), of "ac\<lparr>invalid := cbs\<rparr>" cb 0] Cons.prems by simp
  from Cons.hyps(1)[of "ac\<lparr>invalid := cbs, env := called F None cb (env ac)\<rparr>"] show ?case
    using Cons.prems Cons.hyps(2)[symmetric] r by (subst invalid_while.simps) (simp add: redisShiftCallback_def)
qed

lemma subs_while_observes:
  assumes obs: "observes cl F G" and d: "length (table d) = htsize d" "htsize d < 2 ^ 31"
    and tbl: "\<And>ac e. tbl (ac\<lparr>env := e\<rparr>) = tbl ac"
  shows "tbl ac = Some d \<Longrightarrow> dead ac = None \<Longrightarrow> \<not> has ac IN_CALLBACK \<Longrightarrow> - 1 \<le> index it \<Longrightarrow> left d it = es \<Longrightarrow>
    subs_while cl tbl it ac = Some (ac\<lparr>env := fold (called F None) (map snd es) (env ac)\<rparr>)"
proof (induction es arbitrary: it ac)
  case Nil
  obtain it' where "dictNext d it = Some (None, it')" using dictNext_gives[OF d Nil(4)] Nil(5) by auto
  then show ?case using Nil(1) by (subst subs_while.simps) simp
next
  case (Cons e es)
  obtain it' where it': "- 1 \<le> index it'" "dictNext d it = Some (Some e, it')" "left d it' = es"
    using dictNext_gives[OF d Cons.prems(4)] Cons.prems(5) by auto
  have r: "redisRunCallback cl (snd e) 0 ac = Some (ac\<lparr>env := called F None (snd e) (env ac)\<rparr>)"
    using run_observes[OF obs Cons.prems(2,3), of "snd e" 0] by simp
  have "subs_while cl tbl it' (ac\<lparr>env := called F None (snd e) (env ac)\<rparr>)
      = Some ((ac\<lparr>env := called F None (snd e) (env ac)\<rparr>)\<lparr>env := fold (called F None) (map snd es) (env (ac\<lparr>env := called F None (snd e) (env ac)\<rparr>))\<rparr>)"
    using Cons.prems it' tbl by (intro Cons.IH) simp_all
  then show ?case using Cons.prems(1) it' r by (subst subs_while.simps) simp
qed

text \<open>A context in use: no callback is running, and both tables are well formed.\<close>

definition in_use :: "'e redisAsyncContext \<Rightarrow> (string, redisCallback) dict \<Rightarrow> (string, redisCallback) dict \<Rightarrow> bool" where
  "in_use ac ch pa \<longleftrightarrow> dead ac = None \<and> \<not> has ac IN_CALLBACK \<and> channels ac = Some ch \<and> patterns ac = Some pa
     \<and> dict_ok ch \<and> dict_ok pa \<and> htsize ch < 2 ^ 31 \<and> htsize pa < 2 ^ 31"

text \<open>What \<open>asyncFree\<close> makes of the state of the client.\<close>

definition farewell :: "(nat \<Rightarrow> nat \<Rightarrow> reply_tree option \<Rightarrow> 'e \<Rightarrow> 'e) \<Rightarrow> (nat \<Rightarrow> result \<Rightarrow> 'e \<Rightarrow> 'e) \<Rightarrow> 'e redisAsyncContext
    \<Rightarrow> (string, redisCallback) dict \<Rightarrow> (string, redisCallback) dict \<Rightarrow> 'e" where
  "farewell F G ac ch pa =
     (let e = fold (called F None) (replies ac @ invalid ac @ map snd (entries ch) @ map snd (entries pa)) (env ac)
      in case onDisconnect ac of
           Some f \<Rightarrow> if has ac CONNECTED then G f (if has ac FREEING \<or> aerr ac = 0 then REDIS_OK else REDIS_ERR) e else e
         | None \<Rightarrow> e)"

lemma asyncFree_gives:
  assumes obs: "observes cl F G" and u: "in_use ac ch pa" and f: "redisFree (ctx ac) = Some res"
  shows "asyncFree cl ac = Some (ev_call Cleanup (ac\<lparr>replies := [], invalid := [], channels := None, patterns := None,
    env := farewell F G ac ch pa, dead := Some res\<rparr>))"
proof -
  note U = u[unfolded in_use_def]
  have ch: "length (table ch) = htsize ch" "htsize ch < 2 ^ 31" and pa: "length (table pa) = htsize pa" "htsize pa < 2 ^ 31"
    using U dict_okD(1) by auto
  have i: "- 1 \<le> index dictGetIterator" "left d dictGetIterator = entries d" for d :: "(string, redisCallback) dict"
    by (simp_all add: dictGetIterator_def left_def entries_def)
  define ac1 where "ac1 = ac\<lparr>replies := [], invalid := [], env := fold (called F None) (replies ac @ invalid ac) (env ac)\<rparr>"
  have 1: "replies_while cl ac \<bind> invalid_while cl = Some ac1"
    using replies_while_observes[OF obs, of ac] invalid_while_observes[OF obs, of "ac\<lparr>replies := [], env := fold (called F None) (replies ac) (env ac)\<rparr>"] U
    by (simp add: ac1_def)
  define ac2 where "ac2 = ac1\<lparr>env := fold (called F None) (map snd (entries ch)) (env ac1)\<rparr>"
  have 2: "subs_while cl channels dictGetIterator ac1 = Some ac2" unfolding ac2_def
    by (rule subs_while_observes[OF obs ch]) (use U i in \<open>simp_all add: ac1_def\<close>)
  define ac3 where "ac3 = ac2\<lparr>channels := None, env := fold (called F None) (map snd (entries pa)) (env ac2)\<rparr>"
  have "subs_while cl patterns dictGetIterator (ac2\<lparr>channels := None\<rparr>) = Some ((ac2\<lparr>channels := None\<rparr>)\<lparr>env := fold (called F None) (map snd (entries pa)) (env (ac2\<lparr>channels := None\<rparr>))\<rparr>)"
    by (rule subs_while_observes[OF obs pa]) (use U i in \<open>simp_all add: ac1_def ac2_def\<close>)
  then have 3: "subs_while cl patterns dictGetIterator (ac2\<lparr>channels := None\<rparr>) = Some ac3" by (simp add: ac3_def)
  have c: "channels ac2 = Some ch" "patterns ac3 = Some pa" using U by (simp_all add: ac1_def ac2_def ac3_def)
  have "run_disconnect cl (ev_call Cleanup (ac3\<lparr>patterns := None\<rparr>))
      = Some (ev_call Cleanup (ac\<lparr>replies := [], invalid := [], channels := None, patterns := None, env := farewell F G ac ch pa\<rparr>))"
    using obs by (auto simp: run_disconnect_def observes_def farewell_def Let_def ev_call_def ac1_def ac2_def ac3_def split: option.splits)
  then show ?thesis using 1 2 3 c U f by (simp add: asyncFree_def alive_def ev_call_def)
qed

end
