(* ===== verification/Async_Replies.thy ===== *)
theory Async_Replies
  imports Async_Laws
begin

text \<open>
  Replies on an asynchronous connection: which object \<open>redisGetReply\<close> makes of the next reply in the reader, and which
  callback gets it.
\<close>

subsection \<open>The reader\<close>

text \<open>A reader between two replies.\<close>

definition fresh :: "(nat \<Rightarrow> bool) \<Rightarrow> heap redisReader \<Rightarrow> heap \<Rightarrow> bool" where
  "fresh mem c H \<longleftrightarrow> ready mem (start c) 0 \<and> parent (rstack (start c) ! 0) = None \<and> objs c = H"

text \<open>From the state \<open>c\<close> on, the input \<open>z\<close> completes the reply \<open>rp\<close>, whose objects come behind those of \<open>H\<close>.\<close>

definition completes :: "(nat \<Rightarrow> bool) \<Rightarrow> heap redisReader \<Rightarrow> string \<Rightarrow> heap \<Rightarrow> reply_tree \<Rightarrow> bool" where
  "completes mem c z H rp \<longleftrightarrow> (\<exists>d. arun z (start c) = Some ([], d) \<and> ridx d = - 1 \<and> rerr d = 0 \<and> fn d = defaultFunctions mem
     \<and> length (rstack d) = 9 \<and> reply d = length H + 1 \<and> objs d = H @ map Some (layout (length H + 1) rp))"

lemma arun_next:
  assumes mem: "\<forall>n. mem n" and f: "fits 0 rp" and c: "ready mem (start c) 0" "parent (rstack (start c) ! 0) = None"
  obtains d where "arun (encode rp @ x) (start c) = Some (x, d)" "ridx d = - 1" "rerr d = 0" "fn d = defaultFunctions mem" "length (rstack d) = 9"
    "reply d = length (objs c) + 1" "objs d = objs c @ map Some (layout (length (objs c) + 1) rp)"
proof -
  have l: "linkable (rstack (start c)) 0 (objs c) (objs c)" using c by (simp add: linkable_def ready_def)
  obtain d where d: "made (start c) 0 (length (objs c) + 1) (objs c @ map Some (layout (length (objs c) + 1) rp)) d"
    "arun (encode rp @ x) (start c) = moveToNextTask d \<bind> arun x"
    using parses_fits[OF mem f] c(1) l start_fields(4)[of c] unfolding parses_def by metis
  have "moveToNextTask d = Some (d\<lparr>ridx := - 1\<rparr>)" using d(1) by (simp add: made_def moveToNextTask.simps)
  then have "arun (encode rp @ x) (start c) = Some (x, d\<lparr>ridx := - 1\<rparr>)" using d(2) by (simp add: arun.simps)
  then show thesis using d(1) c(1) by (intro that) (auto simp: made_def ready_def)
qed

lemma fresh_completes:
  assumes "\<forall>n. mem n" "fits 0 rp" "fresh mem c H"
  shows "completes mem c (encode rp) H rp"
proof -
  have c: "ready mem (start c) 0" "parent (rstack (start c) ! 0) = None" "objs c = H" using assms(3) by (simp_all add: fresh_def)
  show ?thesis using arun_next[OF assms(1,2) c(1,2), of "[]"] c(3) unfolding completes_def by (metis append_Nil2)
qed

lemma start_ready:
  assumes "ridx c = - 1" "length (rstack c) = 9" "rerr c = 0" "fn c = defaultFunctions mem"
  shows "ready mem (start c) 0 \<and> parent (rstack (start c) ! 0) = None"
  using assms by (simp add: start_def ready_def root_task_def)

lemma at_objs: "at r N x c \<Longrightarrow> at (r\<lparr>objs := h\<rparr>) N x (c\<lparr>objs := h\<rparr>)"
  unfolding at_def with_buf_def by (elim conjE exE, intro conjI exI) simp_all

lemma fresh_fn: "fresh mem c H \<Longrightarrow> fn c = defaultFunctions mem \<and> rstack c \<noteq> []"
  by (auto simp: fresh_def ready_def start_def split: if_splits)

text \<open>
  What a connection still has to get: \<open>x\<close> is in the buffer of the reader, \<open>y\<close> still with the server, and both together
  are the rest of the replies \<open>rps\<close>, of which the first may have been begun.
\<close>

definition expects :: "(nat \<Rightarrow> bool) \<Rightarrow> heap redisReader \<Rightarrow> nat \<Rightarrow> string \<Rightarrow> reply_tree list \<Rightarrow> heap \<Rightarrow> bool" where
  "expects mem r N y rps H \<longleftrightarrow> (\<exists>c x. at r N x c \<and> fn c = defaultFunctions mem \<and> rstack c \<noteq> [] \<and>
     (case rps of [] \<Rightarrow> x = [] \<and> y = [] \<and> fresh mem c H
      | rp # rps \<Rightarrow> \<exists>z. z \<noteq> [] \<and> completes mem c z H rp \<and> x @ y = z @ concat (map encode rps)))"

lemma expects_fresh:
  assumes "at r N x c" "fresh mem c H" "\<forall>n. mem n" "\<forall>rp\<in>set rps. fits 0 rp" "x @ y = concat (map encode rps)"
  shows "expects mem r N y rps H"
proof (cases rps)
  case Nil
  then show ?thesis using assms(1,2,5) fresh_fn[OF assms(2)] unfolding expects_def by auto
next
  case (Cons rp rps')
  then show ?thesis using assms fresh_fn[OF assms(2)] fresh_completes[OF assms(3) _ assms(2), of rp] encode_nonempty[of rp]
    unfolding expects_def by (intro exI[of _ c] exI[of _ x]) auto
qed

lemma at_len: "at r N x c \<Longrightarrow> x \<noteq> [] \<Longrightarrow> rlen r \<noteq> 0"
proof -
  assume a: "at r N x c" "x \<noteq> []"
  then obtain s p where s: "r = with_buf (Some s) p (sdslen s) c" "holds s p x" "rerr c = 0" by (auto simp: at_def)
  have "length x = length (drop p (str s))" "length (str s) = sdslen s"
    using s(2) length_str[of s] by (simp_all add: holds_def sdslen_def)
  moreover have "0 < length x" using a(2) by simp
  ultimately show "rlen r \<noteq> 0" using s(1,3) by (simp add: with_buf_def)
qed

text \<open>Asking for a reply: the next one, when the buffer has all of it, and otherwise the null pointer.\<close>

lemma GetReply_all:
  assumes a: "at r N (z @ x) c" "fn c = defaultFunctions mem" "rstack c \<noteq> []" and z: "z \<noteq> []" and c: "completes mem c z H rp"
  obtains r' c' where "redisReaderGetReply r = Some (REDIS_OK, length H + 1, r')" "objs r' = H @ map Some (layout (length H + 1) rp)"
    "fn r' = defaultFunctions mem" "\<And>h. at (r'\<lparr>objs := h\<rparr>) N x (c'\<lparr>objs := h\<rparr>)" "\<And>h. fresh mem (c'\<lparr>objs := h\<rparr>) h"
proof -
  obtain d where d: "arun z (start c) = Some ([], d)" "ridx d = - 1" "rerr d = 0" "fn d = defaultFunctions mem" "length (rstack d) = 9"
    "reply d = length H + 1" "objs d = H @ map Some (layout (length H + 1) rp)"
    using c unfolding completes_def by blast
  have "rerr (start c) = 0" using a(1) by (auto simp: at_def)
  from arun_more[OF this, of z x] have "arun (z @ x) (start c) = arun x d" using d(1,3) by simp
  then have run: "arun (z @ x) (start c) = Some (x, d)" using d(2) by (simp add: arun.simps[of x])
  have "rlen r \<noteq> 0" using at_len[OF a(1)] z by simp
  then obtain r' where r': "redisReaderGetReply r = Some (REDIS_OK, length H + 1, r')" "at r' N x (d\<lparr>reply := 0\<rparr>)"
    using df.GetReply_at[OF a(1,2) _ a(3) run d(3)] d(2,6) by auto
  show thesis
  proof (rule that[OF r'(1)])
    show "at (r'\<lparr>objs := h\<rparr>) N x ((d\<lparr>reply := 0\<rparr>)\<lparr>objs := h\<rparr>)" for h by (rule at_objs[OF r'(2)])
    show "fresh mem ((d\<lparr>reply := 0\<rparr>)\<lparr>objs := h\<rparr>) h" for h
      using start_ready[of "(d\<lparr>reply := 0\<rparr>)\<lparr>objs := h\<rparr>" mem] d unfolding fresh_def by simp
  qed (use r'(2) d in \<open>auto simp: at_def with_buf_def\<close>)
qed

lemma GetReply_part:
  assumes a: "at r N x c" "fn c = defaultFunctions mem" "rstack c \<noteq> []" and y: "y \<noteq> []" and c: "completes mem c (x @ y) H rp"
  obtains r' z c' where "redisReaderGetReply r = Some (REDIS_OK, 0, r')" "at r' N z c'" "fn c' = defaultFunctions mem" "rstack c' \<noteq> []"
    "completes mem c' (z @ y) H rp"
proof (cases "rlen r = 0")
  case True
  have "rerr r = 0" using a(1) by (auto simp: at_def with_buf_def)
  then show thesis using that[of r x c] True a c by (simp add: redisReaderGetReply_def)
next
  case False
  obtain d where d: "arun (x @ y) (start c) = Some ([], d)" "ridx d = - 1" "rerr d = 0" "fn d = defaultFunctions mem" "length (rstack d) = 9"
    "reply d = length H + 1" "objs d = H @ map Some (layout (length H + 1) rp)"
    using c unfolding completes_def by blast
  have c0: "rerr (start c) = 0" using a(1) by (auto simp: at_def)
  note M = arun_more[OF c0, of x y]
  obtain z c' where zc: "arun x (start c) = Some (z, c')" using M d(1) by (cases "arun x (start c)") auto
  have c': "rerr c' = 0" "fn c' = defaultFunctions mem" "arun (z @ y) c' = Some ([], d)" "length (rstack c') = length (rstack (start c))"
    using M zc d(1,3) a(2) y by (auto split: if_splits)
  have n: "\<not> ridx c' < 0"
  proof
    assume "ridx c' < 0"
    then show False using c'(3) y by (simp add: arun.simps[of "z @ y"])
  qed
  then have i: "ridx c' \<noteq> - 1" by linarith
  obtain r' where r': "redisReaderGetReply r = Some (REDIS_OK, 0, r')" "at r' N z c'"
    using df.GetReply_at[OF a(1,2) False a(3) zc c'(1)] i by auto
  have "completes mem c' (z @ y) H rp" unfolding completes_def start_idle[OF i] using c'(3) d by blast
  moreover have "rstack c' \<noteq> []" using c'(4) a(3) by (auto simp: start_def split: if_splits)
  ultimately show thesis using that[OF r' c'(2)] by blast
qed

lemma GetReply_empty:
  assumes a: "at r N [] c" and f: "fresh mem c H"
  obtains r' c' where "redisReaderGetReply r = Some (REDIS_OK, 0, r')" "at r' N [] c'" "fresh mem c' H"
proof (cases "rlen r = 0")
  case True
  have "rerr r = 0" using a by (auto simp: at_def with_buf_def)
  then show thesis using that[of r c] True assms by (simp add: redisReaderGetReply_def)
next
  case False
  have r: "ready mem (start c) 0" using f by (simp add: fresh_def)
  have d: "arun [] (start c) = Some ([], start c)" "rerr (start c) = 0" "ridx (start c) \<noteq> - 1"
    using r ready_cur[OF r] by (auto simp: arun.simps[of "[]"] aitem_def ready_def)
  obtain r' where r': "redisReaderGetReply r = Some (REDIS_OK, 0, r')" "at r' N [] (start c)"
    using df.GetReply_at[OF a _ False _ d(1,2)] fresh_fn[OF f] d(3) by auto
  have "start (start c) = start c" by (rule start_idle[OF d(3)])
  then have "fresh mem (start c) H" using f by (simp add: fresh_def)
  then show thesis using that[OF r'] by blast
qed

subsection \<open>The loop over the replies\<close>

text \<open>A connection that waits for replies and is not about to close.\<close>

definition listening :: "'e redisAsyncContext \<Rightarrow> bool" where
  "listening ac \<longleftrightarrow> \<not> blocking (ctx ac) \<and> dead ac = None
     \<and> \<not> has ac IN_CALLBACK \<and> \<not> has ac FREEING \<and> \<not> has ac DISCONNECTING \<and> \<not> has ac MONITORING"

text \<open>The context after a reply was taken from the reader, its callback called and the reply freed.\<close>

definition after_answer :: "'e redisAsyncContext \<Rightarrow> heap redisReader \<Rightarrow> redisCallback list \<Rightarrow> 'e \<Rightarrow> 'e redisAsyncContext" where
  "after_answer ac r cbs e = ac\<lparr>ctx := (ctx ac)\<lparr>reader := r\<rparr>, replies := cbs, env := e\<rparr>"

lemma after_answer_fields [simp]:
  "replies (after_answer ac r cbs e) = cbs" "env (after_answer ac r cbs e) = e" "reader (ctx (after_answer ac r cbs e)) = r" "dead (after_answer ac r cbs e) = dead ac"
  "channels (after_answer ac r cbs e) = channels ac" "patterns (after_answer ac r cbs e) = patterns ac" "invalid (after_answer ac r cbs e) = invalid ac"
  "sock (after_answer ac r cbs e) = sock ac" "has (after_answer ac r cbs e) n = has ac n" "blocking (ctx (after_answer ac r cbs e)) = blocking (ctx ac)"
  by (simp_all add: after_answer_def has_def blocking_def)

lemma after_answer_after_answer [simp]: "after_answer (after_answer ac r cbs e) r' cbs' e' = after_answer ac r' cbs' e'"
  by (simp add: after_answer_def)

lemma listening_after_answer [simp]: "listening (after_answer ac r cbs e) = listening ac"
  by (simp add: listening_def)

text \<open>One reply that is complete in the buffer.\<close>

lemma process_reply:
  assumes obs: "observes cl F G" and f: "fits 0 rp" and l: "listening ac" and q: "replies ac = cb # cbs"
    and r': "redisReaderGetReply (reader (ctx ac)) = Some (REDIS_OK, length H + 1, r')" "objs r' = H @ map Some (layout (length H + 1) rp)"
      "fn r' = defaultFunctions mem"
  shows "process_while mal mem' cl cb0 ac
    = process_while mal mem' cl cb (after_answer ac (r'\<lparr>objs := H @ replicate (cells rp) None\<rparr>) cbs (called F (Some rp) cb (env ac)))"
proof -
  let ?h = "H @ replicate (cells rp) None"
  note L = l[unfolded listening_def]
  have g: "redisGetReply mal (ctx ac) (sock ac) = Some (REDIS_OK, length H + 1, (ctx ac)\<lparr>reader := r'\<rparr>, sock ac)"
    using r'(1) by (simp add: redisGetReply_def redisGetReplyFromReader_def)
  define ac1 where "ac1 = ac\<lparr>ctx := (ctx ac)\<lparr>reader := r'\<rparr>, replies := cbs\<rparr>"
  have t: "tree_at 9 (objs r') (length H + 1) = Some rp"
    using tree_at_layout(1)[of "length H + 1" H rp 9 "[]"] fits_depth[OF f] r'(2) by simp
  have fr: "free_reply (length H + 1) (ac1\<lparr>env := e\<rparr>) = Some (after_answer ac (r'\<lparr>objs := ?h\<rparr>) cbs e)" for e
    using r'(2,3) freeReplyObject_layout[of H rp] by (simp add: free_reply_def ac1_def after_answer_def defaultFunctions_def)
  have u: "dead ac1 = None" "\<not> has ac1 IN_CALLBACK" "\<not> has ac FREEING" using L by (simp_all add: ac1_def has_def)
  have run: "redisRunCallback cl cb (length H + 1) ac1 = Some (ac1\<lparr>env := called F (Some rp) cb (env ac)\<rparr>)"
    using run_observes[OF obs u(1,2), of cb "length H + 1"] t by (simp add: ac1_def)
  show ?thesis
  proof (cases "cfn cb")
    case None
    then have "called F (Some rp) cb (env ac) = env ac1" by (simp add: called_def ac1_def)
    then show ?thesis using g q None fr[of "env ac1"] by (subst process_while.simps) (simp add: redisShiftCallback_def ac1_def)
  next
    case (Some fp)
    then show ?thesis using g q run fr u(3) by (subst process_while.simps) (simp add: redisShiftCallback_def ac1_def)
  qed
qed

lemma process_no_reply:
  assumes l: "listening ac" and r: "redisReaderGetReply (reader (ctx ac)) = Some (REDIS_OK, 0, r)"
  shows "process_while mal mem' cl cb0 ac = Some (after_answer ac r (replies ac) (env ac))"
proof -
  have "redisGetReply mal (ctx ac) (sock ac) = Some (REDIS_OK, 0, (ctx ac)\<lparr>reader := r\<rparr>, sock ac)"
    using r l by (simp add: redisGetReply_def redisGetReplyFromReader_def listening_def blocking_def)
  moreover have "\<not> has (ac\<lparr>ctx := (ctx ac)\<lparr>reader := r\<rparr>\<rparr>) DISCONNECTING" "\<not> has (ac\<lparr>ctx := (ctx ac)\<lparr>reader := r\<rparr>\<rparr>) MONITORING"
    using l by (simp_all add: listening_def has_def)
  ultimately show ?thesis by (subst process_while.simps) (simp add: after_answer_def)
qed

text \<open>The calls for the first replies of \<open>rps\<close>, in the order in which the callbacks were queued.\<close>

definition served :: "(nat \<Rightarrow> nat \<Rightarrow> reply_tree option \<Rightarrow> 'e \<Rightarrow> 'e) \<Rightarrow> redisCallback list \<Rightarrow> reply_tree list \<Rightarrow> 'e \<Rightarrow> 'e" where
  "served F cbs rps = fold (\<lambda>(cb, rp). called F (Some rp) cb) (zip cbs rps)"

lemma served_simps [simp]: "served F [] rps e = e" "served F cbs [] e = e"
  "served F (cb # cbs) (rp # rps) e = served F cbs rps (called F (Some rp) cb e)"
  by (simp_all add: served_def)

lemma zip_take_second: "zip xs (take k ys) = zip (take k xs) (take k ys)"
proof (induction k arbitrary: xs ys)
  case (Suc k)
  then show ?case by (cases xs; cases ys) auto
qed simp

lemma process_replies:
  assumes obs: "observes cl F G" and mem: "\<forall>n. mem n"
  shows "\<forall>rp\<in>set rps. fits 0 rp \<Longrightarrow> listening ac \<Longrightarrow> expects mem (reader (ctx ac)) N y rps H \<Longrightarrow> length rps \<le> length (replies ac) \<Longrightarrow>
    \<exists>k r H'. process_while mal mem' cl cb0 ac = Some (after_answer ac r (drop k (replies ac)) (served F (replies ac) (take k rps) (env ac)))
      \<and> expects mem r N y (drop k rps) H' \<and> k \<le> length rps \<and> (y = [] \<longrightarrow> k = length rps)"
proof (induction rps arbitrary: ac H cb0)
  case Nil
  then obtain c where "at (reader (ctx ac)) N [] c" "fresh mem c H" "y = []" by (auto simp: expects_def)
  then obtain r c' where r: "redisReaderGetReply (reader (ctx ac)) = Some (REDIS_OK, 0, r)" "at r N [] c'" "fresh mem c' H"
    using GetReply_empty by metis
  have "expects mem r N y [] H" using expects_fresh[OF r(2,3) mem, of "[]" y] \<open>y = []\<close> by simp
  then show ?case using process_no_reply[OF Nil.prems(2) r(1)] by (intro exI[of _ 0] exI[of _ r] exI[of _ H]) simp
next
  case (Cons rp rps)
  obtain c x z where c: "at (reader (ctx ac)) N x c" "fn c = defaultFunctions mem" "rstack c \<noteq> []" "z \<noteq> []" "completes mem c z H rp"
    "x @ y = z @ concat (map encode rps)"
    using Cons.prems(3) by (auto simp: expects_def)
  obtain cb cbs where cbs: "replies ac = cb # cbs" using Cons.prems(4) by (cases "replies ac") auto
  obtain us where "x = z @ us \<and> us @ y = concat (map encode rps) \<or> x @ us = z \<and> y = us @ concat (map encode rps)"
    using c(6) unfolding append_eq_append_conv2 by auto
  then consider (all) "x = z @ us" "us @ y = concat (map encode rps)" | (part) "us \<noteq> []" "x @ us = z" "y = us @ concat (map encode rps)"
    by (cases "us = []") auto
  then show ?case
  proof cases
    case all
    obtain r' c' where r': "redisReaderGetReply (reader (ctx ac)) = Some (REDIS_OK, length H + 1, r')" "objs r' = H @ map Some (layout (length H + 1) rp)"
      "fn r' = defaultFunctions mem" "\<And>h. at (r'\<lparr>objs := h\<rparr>) N us (c'\<lparr>objs := h\<rparr>)" "\<And>h. fresh mem (c'\<lparr>objs := h\<rparr>) h"
      using GetReply_all[OF c(1)[unfolded all] c(2-5)] by metis
    let ?r = "r'\<lparr>objs := H @ replicate (cells rp) None\<rparr>" let ?e = "called F (Some rp) cb (env ac)"
    have step: "process_while mal mem' cl cb0 ac = process_while mal mem' cl cb (after_answer ac ?r cbs ?e)"
      using process_reply[OF obs _ Cons.prems(2) cbs r'(1-3)] Cons.prems(1) by simp
    have "expects mem ?r N y rps (H @ replicate (cells rp) None)" using expects_fresh[OF r'(4,5) mem _ all(2)] Cons.prems(1) by simp
    from Cons.IH[of "after_answer ac ?r cbs ?e" "H @ replicate (cells rp) None" cb] this Cons.prems cbs
    obtain k r H' where k: "process_while mal mem' cl cb0 ac = Some (after_answer ac r (drop k cbs) (served F cbs (take k rps) ?e))"
      "expects mem r N y (drop k rps) H'" "k \<le> length rps" "y = [] \<longrightarrow> k = length rps" unfolding step by auto
    then show ?thesis using cbs by (intro exI[of _ "Suc k"] exI[of _ r] exI[of _ H']) simp
  next
    case part
    obtain r' z' c' where r': "redisReaderGetReply (reader (ctx ac)) = Some (REDIS_OK, 0, r')" "at r' N z' c'" "fn c' = defaultFunctions mem" "rstack c' \<noteq> []"
      "completes mem c' (z' @ us) H rp"
      using GetReply_part[OF c(1-3) part(1) c(5)[folded part(2)]] by metis
    have "expects mem r' N y (rp # rps) H" unfolding expects_def using r'(2-5) part(1,3)
      by (intro exI[of _ c'] exI[of _ z']) auto
    then show ?thesis using process_no_reply[OF Cons.prems(2) r'(1)] part(1,3) by (intro exI[of _ 0] exI[of _ r'] exI[of _ H]) simp
  qed
qed

subsection \<open>Read events\<close>

fun handle_reads :: "allocator \<Rightarrow> (nat \<Rightarrow> bool) \<Rightarrow> 'e handlers \<Rightarrow> so_error \<Rightarrow> nat \<Rightarrow> 'e redisAsyncContext \<Rightarrow> 'e redisAsyncContext option" where
  "handle_reads mal mem cl so 0 ac = Some ac"
| "handle_reads mal mem cl so (Suc n) ac = redisAsyncHandleRead mal mem cl so ac \<bind> handle_reads mal mem cl so n"

lemma expects_feed:
  assumes "expects mem r N (t @ y) rps H" "t \<noteq> []" "N + length t < 2 ^ 31 - 2" "never_null mal"
  obtains r' where "redisReaderFeed mal r (Some t) (length t) = Some (REDIS_OK, r')" "expects mem r' (N + length t) y rps H"
proof -
  obtain c x where c: "at r N x c" "fn c = defaultFunctions mem" "rstack c \<noteq> []"
    "case rps of [] \<Rightarrow> x = [] \<and> t @ y = [] \<and> fresh mem c H | rp # rps \<Rightarrow> \<exists>z. z \<noteq> [] \<and> completes mem c z H rp \<and> x @ t @ y = z @ concat (map encode rps)"
    using assms(1) unfolding expects_def by blast
  obtain r' where r': "redisReaderFeed mal r (Some t) (length t) = Some (REDIS_OK, r')" "at r' (N + length t) (x @ t) c"
    using Feed_at[OF c(1) assms(2-4)] by blast
  have "expects mem r' (N + length t) y rps H" unfolding expects_def using r'(2) c assms(2)
    by (intro exI[of _ c] exI[of _ "x @ t"]) (auto split: list.splits)
  then show thesis using that r'(1) by blast
qed

lemma handle_read:
  assumes l: "listening ac" "has ac CONNECTED" "cerr (ctx ac) = 0" and io: "reads (sock ac) = R_bytes t # rs" and t: "t \<noteq> []" "length t \<le> 16384"
    and x: "expects mem (reader (ctx ac)) N (t @ y) rps H" and N: "N + length t < 2 ^ 31 - 2" and mal: "never_null mal"
  obtains r where "redisAsyncHandleRead mal mem' cl so ac = process_while mal mem' cl \<lparr>cfn = None, pending_subs = 0, privdata = 0\<rparr>
      (ev_call AddRead (ac\<lparr>ctx := (ctx ac)\<lparr>reader := r\<rparr>, sock := (sock ac)\<lparr>reads := rs\<rparr>\<rparr>))"
    "expects mem r (N + length t) y rps H"
proof -
  obtain r where r: "redisReaderFeed mal (reader (ctx ac)) (Some t) (length t) = Some (REDIS_OK, r)" "expects mem r (N + length t) y rps H"
    using expects_feed[OF x t(1) N mal] .
  obtain a u where tau: "t = a # u" using t(1) by (cases t) auto
  have "redisBufferRead mal (ctx ac) (sock ac) = Some (REDIS_OK, (ctx ac)\<lparr>reader := r\<rparr>, (sock ac)\<lparr>reads := rs\<rparr>)"
    using r(1) io t(2) tau l(3) by (simp add: redisBufferRead_def sys_read.simps)
  moreover have "dead ac = None" using l(1) by (simp add: listening_def)
  ultimately have "redisAsyncHandleRead mal mem' cl so ac = process_while mal mem' cl \<lparr>cfn = None, pending_subs = 0, privdata = 0\<rparr>
      (ev_call AddRead (ac\<lparr>ctx := (ctx ac)\<lparr>reader := r\<rparr>, sock := (sock ac)\<lparr>reads := rs\<rparr>\<rparr>))"
    using l(2) by (simp add: redisAsyncHandleRead_def alive_def connect_first_def redisProcessCallbacks_def)
  then show thesis using that r(2) by blast
qed

lemma handle_reads_all:
  assumes obs: "observes cl F G" and mem: "\<forall>n. mem n" and mal: "never_null mal"
  shows "listening ac \<Longrightarrow> has ac CONNECTED \<Longrightarrow> cerr (ctx ac) = 0 \<Longrightarrow> reads (sock ac) = map R_bytes ts @ rs \<Longrightarrow>
    \<forall>t\<in>set ts. t \<noteq> [] \<and> length t \<le> 16384 \<Longrightarrow> \<forall>rp\<in>set rps. fits 0 rp \<Longrightarrow> expects mem (reader (ctx ac)) N (concat ts) rps H \<Longrightarrow>
    N + length (concat ts) < 2 ^ 31 - 2 \<Longrightarrow> length rps \<le> length (replies ac) \<Longrightarrow> ts \<noteq> [] \<Longrightarrow>
    \<exists>ac'. handle_reads mal mem' cl so (length ts) ac = Some ac' \<and> replies ac' = drop (length rps) (replies ac)
      \<and> env ac' = served F (replies ac) rps (env ac) \<and> reads (sock ac') = rs \<and> listening ac' \<and> has ac' CONNECTED \<and> cerr (ctx ac') = 0"
proof (induction ts arbitrary: ac rps N H)
  case (Cons t ts)
  obtain r where r: "redisAsyncHandleRead mal mem' cl so ac = process_while mal mem' cl \<lparr>cfn = None, pending_subs = 0, privdata = 0\<rparr>
      (ev_call AddRead (ac\<lparr>ctx := (ctx ac)\<lparr>reader := r\<rparr>, sock := (sock ac)\<lparr>reads := map R_bytes ts @ rs\<rparr>\<rparr>))"
    "expects mem r (N + length t) (concat ts) rps H"
    using handle_read[OF Cons.prems(1-3), of t "map R_bytes ts @ rs" mem N "concat ts" rps H mal mem' cl so] Cons.prems mal by auto
  define ac1 where "ac1 = ev_call AddRead (ac\<lparr>ctx := (ctx ac)\<lparr>reader := r\<rparr>, sock := (sock ac)\<lparr>reads := map R_bytes ts @ rs\<rparr>\<rparr>)"
  have f: "listening ac1" "has ac1 CONNECTED" "cerr (ctx ac1) = 0" "reads (sock ac1) = map R_bytes ts @ rs" "replies ac1 = replies ac" "env ac1 = env ac"
    "reader (ctx ac1) = r"
    using Cons.prems(1-3) by (simp_all add: ac1_def listening_def has_def blocking_def)
  obtain k r2 H2 where k: "redisAsyncHandleRead mal mem' cl so ac = Some (after_answer ac1 r2 (drop k (replies ac)) (served F (replies ac) (take k rps) (env ac)))"
    "expects mem r2 (N + length t) (concat ts) (drop k rps) H2" "k \<le> length rps" "concat ts = [] \<longrightarrow> k = length rps"
    using process_replies[OF obs mem Cons.prems(6) f(1), of "N + length t" "concat ts" H mal mem'] r f Cons.prems(9) ac1_def by metis
  let ?ac = "after_answer ac1 r2 (drop k (replies ac)) (served F (replies ac) (take k rps) (env ac))"
  have e: "cerr (ctx ?ac) = 0" using f(3) by (simp add: after_answer_def)
  have sv: "served F (drop k (replies ac)) (drop k rps) (served F (replies ac) (take k rps) (env ac)) = served F (replies ac) rps (env ac)"
  proof -
    have "zip (replies ac) rps = zip (take k (replies ac)) (take k rps) @ zip (drop k (replies ac)) (drop k rps)"
      using k(3) Cons.prems(9) zip_append[of "take k (replies ac)" "take k rps" "drop k (replies ac)" "drop k rps"] by simp
    moreover have "zip (replies ac) (take k rps) = zip (take k (replies ac)) (take k rps)" by (rule zip_take_second)
    ultimately show ?thesis by (simp add: served_def)
  qed
  show ?case
  proof (cases "ts = []")
    case True
    then show ?thesis using k f e sv by auto
  next
    case False
    have "\<exists>ac'. handle_reads mal mem' cl so (length ts) ?ac = Some ac' \<and> replies ac' = drop (length (drop k rps)) (replies ?ac)
      \<and> env ac' = served F (replies ?ac) (drop k rps) (env ?ac) \<and> reads (sock ac') = rs \<and> listening ac' \<and> has ac' CONNECTED \<and> cerr (ctx ac') = 0"
      by (rule Cons.IH) (use f e k(2,3) False Cons.prems(5,6,8,9) in \<open>auto dest: in_set_dropD\<close>)
    then show ?thesis using k(1,3) sv by simp
  qed
qed simp

end
