(* ===== verification/Async_Commands.thy ===== *)
theory Async_Commands
  imports Async_Replies
begin

text \<open>
  Commands on an asynchronous connection: \<open>nextArgument\<close> walks over the protocol text that the formatting functions write, and
  the callback is registered for the kind of command found there.
\<close>

subsection \<open>The arguments of a command\<close>

definition bulk_text :: "string \<Rightarrow> string" where
  "bulk_text s = ''$'' @ dec (length s) @ CRLF @ s @ CRLF"

lemma dec_isdigit: "c \<in> set (dec n) \<Longrightarrow> isdigit c"
  using dec_digits[of c n] by (simp add: isdigit_def)

lemma dec_free [simp]: "CHR ''$'' \<notin> set (dec n)" "NUL \<notin> set (dec n)" "CHR 0x0d \<notin> set (dec n)"
  using dec_isdigit[of _ n] by (fastforce simp: isdigit_def code_def)+

lemma digits_value_foldl:
  "\<forall>c\<in>set ds. isdigit c \<Longrightarrow> digits_value (ds @ z) v = digits_value z (foldl (\<lambda>v c. 10 * v + (int (code c) - 48)) v ds)"
  by (induction ds arbitrary: v) auto

lemma foldl_dec: "foldl (\<lambda>v c. 10 * v + (int (code c) - 48)) 0 (dec n) = int n"
proof (induction n rule: dec.induct)
  case (1 n)
  have c: "code (char_of (48 + d)) = 48 + d" if "d < 10" for d :: nat using that by (simp add: code_def)
  show ?case
  proof (cases "n < 10")
    case True
    then show ?thesis using c[of n] by (simp add: dec.simps[of n])
  next
    case False
    have "10 * int (n div 10) + int (n mod 10) = int n" by (metis mult_div_mod_eq of_nat_add of_nat_mult of_nat_numeral)
    then show ?thesis using False 1 c[of "n mod 10"] by (simp add: dec.simps[of n])
  qed
qed

lemma find_char_at: "c \<notin> set u \<Longrightarrow> NUL \<notin> set u \<Longrightarrow> find_char c (u @ c # v) = Some (Some (length u))"
  by (induction u) auto

lemma find_char_none: "c \<notin> set u \<Longrightarrow> NUL \<notin> set u \<Longrightarrow> c \<noteq> NUL \<Longrightarrow> find_char c (u @ NUL # v) = Some None"
  by (induction u) auto

lemma strtol_dec:
  assumes "int n < 2 ^ 63"
  shows "strtol (pre @ dec n @ CRLF @ post) (length pre) = Some (int n)"
proof -
  let ?m = "pre @ dec n @ CRLF @ post"
  obtain d ds where d: "dec n = d # ds" using dec_not_Nil[of n] by (cases "dec n") auto
  have di: "isdigit d" using dec_isdigit[of d n] d by simp
  have r: "?m ! length pre = d" "length pre < length ?m" using d by (simp_all add: nth_append)
  have "\<not> isspace d" "d \<noteq> CHR ''-''" "d \<noteq> CHR ''+''" using di by (auto simp: isspace_def isdigit_def code_def)
  moreover from this have "skip_while isspace ?m (length pre) = Some (length pre)" using r by (subst skip_while.simps) simp
  moreover have "digits_value (drop (length pre) ?m) 0 = Some (int n)"
    using digits_value_foldl[of "dec n" "CRLF @ post" 0] dec_isdigit[of _ n] foldl_dec[of n] by (simp add: CRLF_def isdigit_def code_def)
  ultimately show ?thesis using r assms by (simp add: strtol_def)
qed

lemma nextArgument_bulk:
  assumes "length s < 2 ^ 31"
  shows "nextArgument (pre @ bulk_text s @ post) (length pre)
    = Some (Some (length pre + length (dec (length s)) + 3, length s, length pre + length (bulk_text s)))"
proof -
  let ?m = "pre @ bulk_text s @ post" let ?d = "dec (length s)"
  have c: "rd ?m (length pre) = Some (CHR ''$'')" by (simp add: bulk_text_def nth_append)
  have "strtol ((pre @ ''$'') @ ?d @ CRLF @ s @ CRLF @ post) (length (pre @ ''$'')) = Some (int (length s))"
    by (rule strtol_dec) (use assms in simp)
  then have v: "strtol ?m (length pre + 1) = Some (int (length s))" by (simp add: bulk_text_def)
  have "CHR 0x0d \<notin> set (''$'' @ ?d)" "NUL \<notin> set (''$'' @ ?d)" by simp_all
  from find_char_at[OF this, of "CHR 0x0a # s @ CRLF @ post"]
  have q: "strchr_at ?m (length pre) (CHR 0x0d) = Some (Some (length pre + (length ?d + 1)))" by (simp add: strchr_at_def bulk_text_def CRLF_def)
  have "size_t (int32 (int (length s))) = length s" using assms by simp
  then show ?thesis using c v q by (simp add: nextArgument_def bulk_text_def Let_def)
qed

lemma nextArgument_via:
  "rd m p = Some c \<Longrightarrow> c \<noteq> CHR ''$'' \<Longrightarrow> strchr_at m p (CHR ''$'') = Some (Some q) \<Longrightarrow> rd m q = Some (CHR ''$'') \<Longrightarrow> nextArgument m p = nextArgument m q"
  by (simp add: nextArgument_def)

lemma nextArgument_skip:
  assumes "CHR ''$'' \<notin> set u" "NUL \<notin> set u" "u \<noteq> []"
  shows "nextArgument (u @ bulk_text s @ post) 0 = nextArgument (u @ bulk_text s @ post) (length u)"
proof (rule nextArgument_via)
  show "strchr_at (u @ bulk_text s @ post) 0 (CHR ''$'') = Some (Some (length u))"
    using find_char_at[OF assms(1,2), of "dec (length s) @ CRLF @ s @ CRLF @ post"] by (simp add: strchr_at_def bulk_text_def)
  obtain a v where u: "u = a # v" using assms(3) by (cases u) auto
  show "rd (u @ bulk_text s @ post) 0 = Some (hd u)" by (simp add: u)
  show "hd u \<noteq> CHR ''$''" using assms(1) by (auto simp: u)
  show "rd (u @ bulk_text s @ post) (length u) = Some (CHR ''$'')" by (simp add: bulk_text_def nth_append)
qed

lemma nextArgument_end: "nextArgument (pre @ NUL # g) (length pre) = Some None"
  by (simp add: nextArgument_def strchr_at_def)

lemma encode_bulks: "encode (Multi (map Bulk xs)) = (''*'' @ dec (length xs) @ CRLF) @ concat (map bulk_text xs)"
  by (simp add: bulk_text_def comp_def encode.simps(5) cong: map_cong)

lemma nextArgument_command:
  assumes "length s < 2 ^ 31"
  shows "nextArgument (encode (Multi (map Bulk (s # ss))) @ post) 0
    = Some (Some (2 * 3 + length (dec (Suc (length ss))) + length (dec (length s)), length s, 3 + length (dec (Suc (length ss))) + length (bulk_text s)))"
proof -
  let ?u = "''*'' @ dec (Suc (length ss)) @ CRLF"
  have u: "CHR ''$'' \<notin> set ?u" "NUL \<notin> set ?u" by (simp_all add: CRLF_def)
  have e: "encode (Multi (map Bulk (s # ss))) @ post = ?u @ bulk_text s @ (concat (map bulk_text ss) @ post)" unfolding encode_bulks by simp
  show ?thesis unfolding e using nextArgument_skip[OF u] nextArgument_bulk[OF assms, of ?u] by simp
qed

subsection \<open>The kind of a command\<close>

lemma code_of_char_of: "n < 256 \<Longrightarrow> code (char_of n) = n"
  by (simp add: code_def)

lemma tolower_CR [simp]: "tolower (CHR 0x0d) = CHR 0x0d" "tolower c = CHR 0x0d \<longleftrightarrow> c = CHR 0x0d"
  "CHR 0x0d = tolower c \<longleftrightarrow> c = CHR 0x0d"
proof -
  show "tolower (CHR 0x0d) = CHR 0x0d" by (simp add: tolower_def code_def)
  have n: "code (CHR 0x0d) = 13" by (simp add: code_def)
  show "tolower c = CHR 0x0d \<longleftrightarrow> c = CHR 0x0d"
  proof (cases "65 \<le> code c \<and> code c \<le> 90")
    case True
    then have "code (tolower c) = code c + 32" by (simp add: tolower_def code_of_char_of)
    then show ?thesis using True n by auto
  next
    case False
    then have "tolower c = c" by (auto simp: tolower_def)
    then show ?thesis by simp
  qed
  then show "CHR 0x0d = tolower c \<longleftrightarrow> c = CHR 0x0d" by (metis (full_types))
qed

lemma strncase_eq_line:
  assumes "CHR 0x0d \<notin> set t"
  shows "CHR 0x0d \<notin> set w \<Longrightarrow> strncase_eq (w @ CRLF @ z) (t @ CRLF) = Some (map tolower w = map tolower t)"
  using assms
proof (induction t arbitrary: w)
  case Nil
  then show ?case by (cases w) (auto simp: CRLF_def)
next
  case (Cons c t)
  then show ?case by (cases w) (auto simp: CRLF_def)
qed

text \<open>The name of a command as the code compares it: without a leading \<open>p\<close>.\<close>

definition pattern_name :: "string \<Rightarrow> bool" where
  "pattern_name w \<longleftrightarrow> w \<noteq> [] \<and> tolower (hd w) = CHR ''p''"

definition verb :: "string \<Rightarrow> string" where
  "verb w = map tolower (if pattern_name w then tl w else w)"

lemma register_command:
  assumes w: "CHR 0x0d \<notin> set w" "length w < 2 ^ 31"
  shows "register mal mem cb (encode (Multi (map Bulk (w # ws))) @ NUL # g) ac =
    (if ws \<noteq> [] \<and> verb w = ''subscribe''
     then subscribe_while mal mem (encode (Multi (map Bulk (w # ws))) @ NUL # g) (pattern_name w)
            (3 + length (dec (Suc (length ws))) + length (bulk_text w)) cb (set_flag SUBSCRIBED ac) \<bind> (\<lambda>ac. Some (REDIS_OK, ac))
     else if verb w = ''unsubscribe'' then Some (if has ac SUBSCRIBED then REDIS_OK else REDIS_ERR, ac)
     else Some (REDIS_OK,
       if verb w = ''monitor'' then (set_flag MONITORING ac)\<lparr>replies := snd (redisPushCallback mem (replies ac) cb)\<rparr>
       else if has ac SUBSCRIBED then ac\<lparr>invalid := snd (redisPushCallback mem (invalid ac) cb)\<rparr>
       else ac\<lparr>replies := snd (redisPushCallback mem (replies ac) cb)\<rparr>))"
proof -
  define u where "u = ''*'' @ dec (Suc (length ws)) @ CRLF"
  define z where "z = concat (map bulk_text ws) @ NUL # g"
  define m where "m = encode (Multi (map Bulk (w # ws))) @ NUL # g"
  have m: "m = (u @ ''$'' @ dec (length w) @ CRLF) @ (w @ CRLF) @ z" "m = (u @ bulk_text w) @ z"
    unfolding m_def encode_bulks by (simp_all add: u_def z_def bulk_text_def)
  define cs where "cs = 2 * 3 + length (dec (Suc (length ws))) + length (dec (length w))"
  define p where "p = 3 + length (dec (Suc (length ws))) + length (bulk_text w)"
  have lp: "p = length (u @ bulk_text w)" and lc: "cs = length (u @ ''$'' @ dec (length w) @ CRLF)" by (simp_all add: p_def cs_def u_def)
  have n: "nextArgument m 0 = Some (Some (cs, length w, p))" unfolding m_def cs_def p_def by (rule nextArgument_command[OF w(2)])
  have rp: "rd m p = Some (if ws = [] then NUL else CHR ''$'')" unfolding lp m(2) by (cases ws) (simp_all add: z_def nth_append bulk_text_def)
  have "drop (length a) (a @ b) = b" for a b :: string by simp
  then have "drop cs m = (w @ CRLF) @ z" unfolding lc m(1) .
  then have dc: "drop cs m = w @ CRLF @ z" by simp
  have rc: "rd m cs = Some (hd (w @ CRLF))" unfolding lc m(1) by (cases w) (simp_all add: nth_append CRLF_def)
  have pv: "tolower (hd (w @ CRLF)) = CHR ''p'' \<longleftrightarrow> pattern_name w" by (cases w) (simp_all add: pattern_name_def CRLF_def)
  define v where "v = (if pattern_name w then tl w else w)"
  have nm: "drop (if pattern_name w then cs + 1 else cs) m = v @ CRLF @ z"
    using dc by (cases w) (auto simp: v_def pattern_name_def drop_Suc tl_drop[symmetric])
  have v: "CHR 0x0d \<notin> set v" using w(1) by (cases w) (auto simp: v_def)
  have eq: "strncase_eq (v @ CRLF @ z) (t @ CRLF) = Some (verb w = map tolower t)" if "CHR 0x0d \<notin> set t" for t
    using strncase_eq_line[OF that v, of z] by (simp add: verb_def v_def)
  have t: "map tolower ''subscribe'' = ''subscribe''" "map tolower ''unsubscribe'' = ''unsubscribe''" "map tolower ''monitor'' = ''monitor''"
    by (simp_all add: tolower_def code_def)
  have e: "strncase_eq (v @ CRLF @ z) (''subscribe'' @ CRLF) = Some (verb w = ''subscribe'')"
    "strncase_eq (v @ CRLF @ z) (''unsubscribe'' @ CRLF) = Some (verb w = ''unsubscribe'')"
    "strncase_eq (v @ CRLF @ z) (''monitor'' @ CRLF) = Some (verb w = ''monitor'')"
    by (subst eq, simp, simp only: t)+
  show ?thesis unfolding m_def[symmetric] p_def[symmetric] register_def n Option.bind.simps prod.case rp rc pv Let_def nm e by auto
qed

text \<open>A command that is neither a subscription nor \<^verbatim>\<open>MONITOR\<close>.\<close>

definition ordinary :: "string \<Rightarrow> bool" where
  "ordinary w \<longleftrightarrow> CHR 0x0d \<notin> set w \<and> verb w \<notin> {''subscribe'', ''unsubscribe'', ''monitor''}"

lemma asyncCommand_ordinary:
  assumes mem: "\<forall>n. mem n" and mal: "never_null mal" and w: "ordinary w" "length (encode (Multi (map Bulk (w # ws)))) < 2 ^ 31"
    and ac: "dead ac = None" "\<not> has ac DISCONNECTING" "\<not> has ac FREEING" "\<not> has ac SUBSCRIBED"
    and ob: "obuf (ctx ac) = Some e" "sds_ok e" "sdslen e < 2 ^ 61"
  obtains s where "asyncCommand mal mem ac f pd (encode (Multi (map Bulk (w # ws))) @ NUL # g) (length (encode (Multi (map Bulk (w # ws)))))
      = Some (REDIS_OK, ev_call AddWrite (ac\<lparr>replies := replies ac @ [\<lparr>cfn = f, pending_subs = 1, privdata = pd\<rparr>], ctx := (ctx ac)\<lparr>obuf := Some s\<rparr>\<rparr>))"
    "sds_ok s" "str s = str e @ encode (Multi (map Bulk (w # ws)))"
proof -
  define t where "t = encode (Multi (map Bulk (w # ws)))"
  have lw: "length w < 2 ^ 31" using w(2) unfolding encode_bulks by (simp add: bulk_text_def)
  have r: "register mal mem cb (t @ NUL # g) ac = Some (REDIS_OK, ac\<lparr>replies := replies ac @ [cb]\<rparr>)" for cb
    using register_command[OF _ lw, of mal mem cb ws g ac] w(1) ac(4) mem by (simp add: t_def ordinary_def redisPushCallback_def del: encode.simps)
  obtain s where s: "appendCommand mal (ctx ac) (t @ NUL # g) (length t) = Some (REDIS_OK, (ctx ac)\<lparr>obuf := Some s\<rparr>)" "sds_ok s" "str s = str e @ take (length t) (t @ NUL # g)"
    using appendCommand_gives[OF mal ob(1,2), of "length t" "t @ NUL # g"] w(2) ob(3) t_def by auto
  show thesis
  proof (rule that[of s])
    show "asyncCommand mal mem ac f pd (encode (Multi (map Bulk (w # ws))) @ NUL # g) (length (encode (Multi (map Bulk (w # ws)))))
      = Some (REDIS_OK, ev_call AddWrite (ac\<lparr>replies := replies ac @ [\<lparr>cfn = f, pending_subs = 1, privdata = pd\<rparr>], ctx := (ctx ac)\<lparr>obuf := Some s\<rparr>\<rparr>))"
      using r s(1) ac unfolding t_def[symmetric] by (simp add: asyncCommand_def alive_def)
    show "sds_ok s" "str s = str e @ encode (Multi (map Bulk (w # ws)))" using s(2,3) by (simp_all add: t_def)
  qed
qed

end
