(* ===== verification/Async_Subs.thy ===== *)
theory Async_Subs
  imports Async_Commands
begin

text \<open>
  Subscriptions: what \<^verbatim>\<open>SUBSCRIBE\<close> registers and what a pub/sub reply makes of the tables of callbacks, on the level of the maps
  that the tables refine.
\<close>

subsection \<open>Writing to an entry\<close>

context key_type
begin

lemma set_val_gives:
  assumes ok: "dict_ok ht" and T: "dtype ht = T" and k: "map_of (entries ht) k = Some old"
  shows "bucket ht k < length (table ht)"
    "dict_ok (ht\<lparr>table := (table ht)[bucket ht k := set_val T k v (table ht ! bucket ht k)]\<rparr>)"
    "map_of (entries (ht\<lparr>table := (table ht)[bucket ht k := set_val T k v (table ht ! bucket ht k)]\<rparr>)) = (map_of (entries ht))(k \<mapsto> v)"
proof -
  let ?h = "bucket ht k"
  note D = dict_okD[OF ok]
  have nz: "htsize ht \<noteq> 0" using ok k by (auto simp: dict_ok_def entries_def split: if_splits)
  show l: "?h < length (table ht)" using D(1,7) nz by simp
  let ?c = "set_val T k v (table ht ! ?h)" and ?t = "(table ht)[?h := set_val T k v (table ht ! ?h)]"
  have mo: "map_of (table ht ! ?h) k = Some old" using placed_map_of[OF D(2) l] k by (simp add: entries_def)
  note m = set_val_keys[OF mo, of v]
  have c: "\<forall>e\<in>set ?c. bucket ht (fst e) = ?h"
  proof
    fix e assume "e \<in> set ?c"
    then have "e \<in> set (table ht ! ?h) \<or> e = (k, v)" using arg_cong[OF m, of "\<lambda>M. e \<in># M"] by auto
    then show "bucket ht (fst e) = ?h" using in_chain[OF ok l, of e] by auto
  qed
  have t: "add_mset (k, old) (mset (concat ?t)) = add_mset (k, v) (mset (entries ht))" "placed (bucket ht) ?t"
    using put_chain(1)[OF ok l c, of "[(k, old)]" "[(k, v)]"] put_chain(2)[OF ok l c, of "[(k, old)]" "[(k, v)]"] m by simp_all
  obtain r where r: "mset (entries ht) = add_mset (k, old) (mset r)"
    using map_of_SomeD[OF k] by (metis ex_mset insert_DiffM set_mset_mset)
  note R = removed[OF D(3) r]
  have t': "mset (concat ?t) = mset ((k, v) # r)" using t(1) r by (simp add: add_mset_commute)
  have d: "distinct (map fst ((k, v) # r))" using R(1,2) by (auto simp: dom_map_of_conv_image_fst)
  have len: "length ((k, v) # r) = used ht" using r mset_eq_length[of "entries ht" "(k, old) # r"] D(4) by simp
  have z: "length ?t = htsize ht" "length ((k, v) # r) \<le> htsize ht" using D(1,5) len by auto
  note p = dict_ok_put[OF ok nz z(1) t(2) t' d z(2), of "freed ht", unfolded len]
  have e: "ht\<lparr>table := ?t, used := used ht, freed := freed ht\<rparr> = ht\<lparr>table := ?t\<rparr>" by simp
  show "dict_ok (ht\<lparr>table := ?t\<rparr>)" using p(1) unfolding e .
  have "map_of (entries (ht\<lparr>table := ?t\<rparr>)) = map_of ((k, v) # r)" using p(2) unfolding e .
  then show "map_of (entries (ht\<lparr>table := ?t\<rparr>)) = (map_of (entries ht))(k \<mapsto> v)" using R(3) by simp
qed

end

text \<open>A table of callbacks and the map that it refines.\<close>

definition sub_map :: "(string, redisCallback) dict \<Rightarrow> (string \<rightharpoonup> redisCallback) \<Rightarrow> bool" where
  "sub_map d M \<longleftrightarrow> dict_ok d \<and> dtype d = callbackDict \<and> map_of (entries d) = M"

lemma put_entry_gives:
  assumes "sub_map d M" and "M k = Some old"
  obtains d' where "put_entry d k v = Some d'" "sub_map d' (M(k \<mapsto> v))" "htsize d' = htsize d" "used d' = used d"
proof -
  have d: "dict_ok d" "dtype d = callbackDict" "map_of (entries d) k = Some old" using assms by (auto simp: sub_map_def)
  note s = cb.set_val_gives(1)[OF d] cb.set_val_gives(2,3)[OF d, of v]
  let ?d = "d\<lparr>table := (table d)[bucket d k := set_val callbackDict k v (table d ! bucket d k)]\<rparr>"
  have "put_entry d k v = Some ?d" using s(1) d(2) by (simp add: put_entry_def bucket_def Let_def)
  moreover have "sub_map ?d (M(k \<mapsto> v))" using s(2,3) d(2) assms(1) by (simp add: sub_map_def)
  ultimately show thesis using that by simp
qed

subsection \<open>Subscribing\<close>

text \<open>The size of a table after \<open>dictReplace\<close>.\<close>

lemma dictExpandIfNeeded_size:
  assumes ok: "dict_ok ht" and b: "htsize ht \<le> 2 ^ 30" and mem: "\<And>n. mem n" and r: "dictExpandIfNeeded mem ht = Some (st, ht')"
  shows "htsize ht' \<le> max (htsize ht) (max 4 (2 * used ht))"
proof (cases "htsize ht = 0")
  case True
  obtain h where "dictExpand mem ht 4 = Some (DICT_OK, h)" "htsize h \<le> 2 ^ 2"
    by (rule dictExpand_gives[of ht 4 2 mem]) (use ok dict_okD(5)[OF ok] True mem in auto)
  then show ?thesis using r True by (simp add: dictExpandIfNeeded_def DICT_HT_INITIAL_SIZE_def)
next
  case False
  then obtain k where k: "2 \<le> k" "k < 63" "htsize ht = 2 ^ k" using ok by (auto simp: dict_ok_def)
  have "k \<le> 30" using b k(3) by (metis one_less_numeral_iff power_le_imp_le_exp semiring_norm(76))
  show ?thesis
  proof (cases "used ht = htsize ht")
    case True
    have "size_t (2 * int (htsize ht)) = 2 * htsize ht" using b by (simp add: nat_mult_distrib)
    moreover obtain h where "dictExpand mem ht (2 * htsize ht) = Some (DICT_OK, h)" "htsize h \<le> 2 ^ Suc k"
      by (rule dictExpand_gives[of ht "2 * htsize ht" "Suc k" mem]) (use ok True False k \<open>k \<le> 30\<close> mem in auto)
    ultimately show ?thesis using r False True k(3) by (simp add: dictExpandIfNeeded_def)
  next
    case room: False
    then show ?thesis using r False by (simp add: dictExpandIfNeeded_def)
  qed
qed

lemma dictReplace_size:
  assumes ok: "dict_ok ht" and b: "htsize ht \<le> 2 ^ 30" and mem: "\<And>n. mem n" and r: "dictReplace mem ht k v = Some (i, ht')"
  shows "htsize ht' \<le> max (htsize ht) (max 4 (2 * used ht))"
proof -
  obtain st h where h: "dictExpandIfNeeded mem ht = Some (st, h)" using r by (cases "dictExpandIfNeeded mem ht") (auto simp: dictReplace_def dictAdd_def dictKeyIndex_def)
  have "htsize ht' = htsize h" using r h
    by (auto simp: dictReplace_def dictAdd_def dictKeyIndex_def dictFreeEntryVal_def Let_def split: if_splits bind_splits)
  then show ?thesis using dictExpandIfNeeded_size[OF ok b mem h] by simp
qed

lemma replace_sub:
  assumes s: "sub_map d M" and b: "htsize d \<le> 2 ^ 29" "used d + Suc n \<le> 2 ^ 28" and mem: "\<forall>n. mem n"
  obtains i d' where "dictReplace mem d k v = Some (i, d')" "sub_map d' (M(k \<mapsto> v))" "htsize d' \<le> 2 ^ 29" "used d' + n \<le> 2 ^ 28"
proof -
  have d: "dict_ok d" "dtype d = callbackDict" "htsize d \<le> 2 ^ 30" "map_of (entries d) = M" using s b(1) by (auto simp: sub_map_def)
  obtain d' where d': "dictReplace mem d k v = Some (if M k = None then 1 else 0, d')" "dict_ok d'" "dtype d' = callbackDict"
    "map_of (entries d') = M(k \<mapsto> v)"
    by (rule cb.dictReplace_gives[OF d(1-3), of mem k v]) (use mem d(4) in auto)
  have card: "used e = card (dom (map_of (entries e)))" if "dict_ok e" for e :: "(string, redisCallback) dict"
    using dict_okD(3,4)[OF that] by (metis dom_map_of_conv_image_fst distinct_card length_map set_map)
  have "used d' \<le> Suc (used d)" using card[OF d(1)] card[OF d'(2)] d(4) d'(4) by (simp add: card_insert_if finite_dom_map_of[of "entries d", unfolded d(4)])
  moreover have "htsize d' \<le> 2 ^ 29" using dictReplace_size[OF d(1,3) _ d'(1)] mem b by auto
  ultimately show thesis using that[OF d'(1)] d' b by (simp add: sub_map_def)
qed

lemma sds_key_gives:
  assumes "never_null mal" "n < 2 ^ 31" "n \<le> length s"
  shows "sds_key mal s n = Some (take n s)"
  using sdsnewlen_gives[of n "Some s" mal] never_null_gives[OF assms(1)] assms(2,3) by (auto simp: sds_key_def small_def)

text \<open>
  What the code registers: the copy of the callback for one channel is taken over for the channels after it, the count of the
  subscriptions included.
\<close>

fun subscribed :: "(string \<rightharpoonup> redisCallback) \<Rightarrow> redisCallback \<Rightarrow> string list \<Rightarrow> (string \<rightharpoonup> redisCallback)" where
  "subscribed M cb [] = M"
| "subscribed M cb (k # ks) =
     (let cb = (case M k of None \<Rightarrow> cb | Some e \<Rightarrow> cb\<lparr>pending_subs := pending_subs e + 1\<rparr>) in subscribed (M(k \<mapsto> cb)) cb ks)"

lemma sub_table_set [simp]: "sub_table pv (set_sub_table pv d ac) = Some d" "set_sub_table pv d' (set_sub_table pv d ac) = set_sub_table pv d' ac"
  by (simp_all add: sub_table_def set_sub_table_def)

lemma subscribe_while_gives:
  assumes mem: "\<forall>n. mem n" and mal: "never_null mal"
  shows "sub_table pv ac = Some d \<Longrightarrow> sub_map d M \<Longrightarrow> htsize d \<le> 2 ^ 29 \<Longrightarrow> used d + length ks \<le> 2 ^ 28 \<Longrightarrow> \<forall>k\<in>set ks. length k < 2 ^ 31 \<Longrightarrow>
    m = u @ concat (map bulk_text ks) @ NUL # g \<Longrightarrow>
    \<exists>d'. subscribe_while mal mem m pv (length u) cb ac = Some (set_sub_table pv d' ac) \<and> sub_map d' (subscribed M cb ks) \<and> htsize d' \<le> 2 ^ 29"
proof (induction ks arbitrary: ac d M u cb)
  case Nil
  have "set_sub_table pv d ac = ac" using Nil.prems(1) by (cases pv) (simp_all add: sub_table_def set_sub_table_def)
  moreover have "subscribe_while mal mem m pv (length u) cb ac = Some ac"
    using Nil.prems(6) nextArgument_end[of u g] by (subst subscribe_while.simps) simp
  ultimately show ?case using Nil.prems(2,3) by (intro exI[of _ d]) simp
next
  case (Cons k ks)
  let ?c = "case M k of None \<Rightarrow> cb | Some e \<Rightarrow> cb\<lparr>pending_subs := pending_subs e + 1\<rparr>"
  let ?q = "length u + length (dec (length k)) + 3"
  have m: "m = u @ bulk_text k @ concat (map bulk_text ks) @ NUL # g" "m = (u @ bulk_text k) @ concat (map bulk_text ks) @ NUL # g"
    using Cons.prems(6) by simp_all
  have n: "nextArgument m (length u) = Some (Some (?q, length k, length (u @ bulk_text k)))"
    using nextArgument_bulk[of k u "concat (map bulk_text ks) @ NUL # g"] Cons.prems(5) unfolding m(1) by simp
  have "m = (u @ ''$'' @ dec (length k) @ CRLF) @ k @ CRLF @ concat (map bulk_text ks) @ NUL # g" unfolding m(1) by (simp add: bulk_text_def)
  moreover have "?q = length (u @ ''$'' @ dec (length k) @ CRLF)" by simp
  moreover have "drop (length a) (a @ b) = b" for a b :: string by simp
  ultimately have "drop ?q m = k @ CRLF @ concat (map bulk_text ks) @ NUL # g" by metis
  then have sk: "sds_key mal (drop ?q m) (length k) = Some k" using sds_key_gives[OF mal, of "length k" "drop ?q m"] Cons.prems(5) by simp
  have fd: "dictFind d k = Some (map_option (Pair k) (M k))" using cb.dictFind_gives[of d k] Cons.prems(2) by (auto simp: sub_map_def)
  obtain i d' where d': "dictReplace mem d k ?c = Some (i, d')" "sub_map d' (M(k \<mapsto> ?c))" "htsize d' \<le> 2 ^ 29" "used d' + length ks \<le> 2 ^ 28"
    using replace_sub[OF Cons.prems(2,3) _ mem, of "length ks" k ?c] Cons.prems(4) by auto
  have step: "subscribe_while mal mem m pv (length u) cb ac = subscribe_while mal mem m pv (length (u @ bulk_text k)) ?c (set_sub_table pv d' ac)"
    using n sk fd d'(1) Cons.prems(1) by (subst subscribe_while.simps) (cases "M k"; simp)
  have "\<exists>d''. subscribe_while mal mem m pv (length (u @ bulk_text k)) ?c (set_sub_table pv d' ac) = Some (set_sub_table pv d'' (set_sub_table pv d' ac))
      \<and> sub_map d'' (subscribed (M(k \<mapsto> ?c)) ?c ks) \<and> htsize d'' \<le> 2 ^ 29"
    by (rule Cons.IH[OF _ d'(2,3)]) (use Cons.prems(5) m(2) d'(4) in simp_all)
  then show ?case unfolding step by (simp only: subscribed.simps Let_def sub_table_set)
qed

subsection \<open>Replies to subscriptions\<close>

lemma tolower_NUL [simp]: "tolower NUL = NUL" "tolower c = NUL \<longleftrightarrow> c = NUL" "NUL = tolower c \<longleftrightarrow> c = NUL"
proof -
  show "tolower NUL = NUL" by (simp add: tolower_def code_def)
  have "code NUL = 0" by (simp add: code_def)
  moreover have "code (tolower c) = (if 65 \<le> code c \<and> code c \<le> 90 then code c + 32 else code c)" by (simp add: tolower_def code_of_char_of)
  ultimately show "tolower c = NUL \<longleftrightarrow> c = NUL" by (metis char_of_code le_zero_eq add_is_0 zero_neq_numeral)
  then show "NUL = tolower c \<longleftrightarrow> c = NUL" by (metis (full_types))
qed

lemma strcase_eq_cstr: "NUL \<notin> set w \<Longrightarrow> NUL \<notin> set t \<Longrightarrow> strcase_eq (cstr w) t = Some (map tolower w = map tolower t)"
proof (induction t arbitrary: w)
  case Nil
  then show ?case by (cases w) (auto simp: cstr_def)
next
  case (Cons c t)
  then show ?case by (cases w) (auto simp: cstr_def)
qed

text \<open>A reply of the pub/sub protocol: its kind, the channel or pattern, and a message or a number of subscriptions.\<close>

abbreviation pub_reply :: "string \<Rightarrow> string \<Rightarrow> reply_tree \<Rightarrow> reply_tree" where
  "pub_reply kind ch x \<equiv> Multi [Bulk kind, Bulk ch, x]"

lemma pub_cells:
  assumes h: "h = H @ map Some (layout (length H + 1) (pub_reply kind ch x))"
  shows "deref h (length H + 1) = Some (array_cell 3 [length H + 2, length H + 3, length H + 4])"
    "element_at h [length H + 2, length H + 3, length H + 4] 0 REDIS_REPLY_STRING = Some (text_cell REDIS_REPLY_STRING kind)"
    "element_at h [length H + 2, length H + 3, length H + 4] 1 REDIS_REPLY_STRING = Some (text_cell REDIS_REPLY_STRING ch)"
    "x = Integer n \<Longrightarrow> element_at h [length H + 2, length H + 3, length H + 4] 2 REDIS_REPLY_INTEGER
      = Some \<lparr>rtype = REDIS_REPLY_INTEGER, integer = n, rlength = 0, rstr = None, relements = 0, element = None\<rparr>"
  unfolding h by (simp_all add: element_at_def deref_def rd_def nth_append text_cell_def array_cell_def numeral_eq_Suc)

text \<open>The tables after a reply for a channel whose callback is \<open>cb\<close>, and the callback that gets the reply.\<close>

definition confirmed :: "string \<Rightarrow> redisCallback \<Rightarrow> redisCallback" where
  "confirmed kind cb = (if verb kind = ''subscribe'' then cb\<lparr>pending_subs := pending_subs cb - 1\<rparr> else cb)"

definition after_reply :: "string \<Rightarrow> string \<Rightarrow> redisCallback \<Rightarrow> (string \<rightharpoonup> redisCallback) \<Rightarrow> (string \<rightharpoonup> redisCallback)" where
  "after_reply kind ch cb M =
     (if verb kind = ''unsubscribe'' \<and> pending_subs cb = 0 then M(ch := None) else M(ch \<mapsto> confirmed kind cb))"

lemma used_0: "sub_map d M \<Longrightarrow> used d = 0 \<longleftrightarrow> M = Map.empty"
  using dict_okD(4)[of d] by (auto simp: sub_map_def)

lemma update_sub_gives:
  assumes k: "NUL \<notin> set kind" and t: "sub_table pv ac = Some d" "sub_map d M" "M ch = Some cb" "sub_table (\<not> pv) ac = Some o'" "sub_map o' M'"
    and e: "verb kind = ''unsubscribe'' \<Longrightarrow> \<exists>e. element_at (objs (reader (ctx ac))) es 2 REDIS_REPLY_INTEGER = Some e \<and> integer e = n"
    and pv: "pv \<longleftrightarrow> pattern_name kind"
  obtains d' where "update_sub ac es pv (if pv then drop 1 (cstr kind) else cstr kind) ch d cb
      = Some ((if verb kind = ''unsubscribe'' \<and> n = 0 \<and> after_reply kind ch cb M = Map.empty \<and> M' = Map.empty then clear_flag SUBSCRIBED else (\<lambda>ac. ac))
          (set_sub_table pv d' ac), confirmed kind cb)"
    "sub_map d' (after_reply kind ch cb M)" "htsize d' = htsize d"
proof -
  define w where "w = (if pv then tl kind else kind)"
  have st: "(if pv then drop 1 (cstr kind) else cstr kind) = cstr w" using pv by (cases kind) (auto simp: w_def cstr_def pattern_name_def)
  have nw: "NUL \<notin> set w" using k by (cases kind) (auto simp: w_def)
  have vw: "map tolower w = verb kind" by (simp add: verb_def w_def pv)
  have c: "strcase_eq (cstr w) ''subscribe'' = Some (verb kind = ''subscribe'')" "strcase_eq (cstr w) ''unsubscribe'' = Some (verb kind = ''unsubscribe'')"
    using strcase_eq_cstr[OF nw, of "''subscribe''"] strcase_eq_cstr[OF nw, of "''unsubscribe''"] vw by (simp_all add: tolower_def code_def)
  obtain d1 where d1: "put_entry d ch (confirmed kind cb) = Some d1" "sub_map d1 (M(ch \<mapsto> confirmed kind cb))" "htsize d1 = htsize d"
    using put_entry_gives[OF t(2,3)] by metis
  have o: "sub_table (\<not> pv) (set_sub_table pv x ac) = Some o'" for x using t(4) by (cases pv) (simp_all add: sub_table_def set_sub_table_def)
  have h: "objs (reader (ctx (set_sub_table pv x ac))) = objs (reader (ctx ac))" for x by (simp add: set_sub_table_def)
  show thesis
  proof (cases "verb kind = ''unsubscribe''")
    case False
    then show thesis using that[of d1] d1 c unfolding st by (simp add: update_sub_def confirmed_def after_reply_def Let_def)
  next
    case True
    then have cf: "confirmed kind cb = cb" by (simp add: confirmed_def)
    obtain d2 where d2: "(if pending_subs cb = 0 then dictDelete d1 ch \<bind> (\<lambda>(_, d). Some d) else Some d1) = Some d2"
      "sub_map d2 (after_reply kind ch cb M)" "htsize d2 = htsize d"
    proof (cases "pending_subs cb = 0")
      case True
      have d: "dict_ok d1" "dtype d1 = callbackDict" "map_of (entries d1) = M(ch \<mapsto> cb)" using d1(2) cf by (auto simp: sub_map_def)
      obtain r d2 where "dictDelete d1 ch = Some (r, d2)" "dict_ok d2" "dtype d2 = callbackDict" "map_of (entries d2) = (map_of (entries d1))(ch := None)" "htsize d2 = htsize d1"
        using cb.dictDelete_gives[OF d(1,2), of ch] by metis
      then show thesis using that[of d2] True \<open>verb kind = _\<close> d(3) d1(3) by (simp add: sub_map_def after_reply_def)
    next
      case False
      then show thesis using that[of d1] d1 by (simp add: after_reply_def)
    qed
    obtain e where e: "element_at (objs (reader (ctx ac))) es 2 REDIS_REPLY_INTEGER = Some e" "integer e = n" using e[OF True] by blast
    have z: "\<exists>x y. channels (set_sub_table pv d2 ac) = Some x \<and> patterns (set_sub_table pv d2 ac) = Some y
        \<and> (used x = 0 \<and> used y = 0 \<longleftrightarrow> after_reply kind ch cb M = Map.empty \<and> M' = Map.empty)"
      using t(4) used_0[OF d2(2)] used_0[OF t(5)] by (cases pv) (auto simp: sub_table_def set_sub_table_def)
    then obtain x y where xy: "channels (set_sub_table pv d2 ac) = Some x" "patterns (set_sub_table pv d2 ac) = Some y"
      "used x = 0 \<and> used y = 0 \<longleftrightarrow> after_reply kind ch cb M = Map.empty \<and> M' = Map.empty" by blast
    have "update_sub ac es pv (cstr w) ch d cb = Some (if n = 0 \<and> used x = 0 \<and> used y = 0 then clear_flag SUBSCRIBED (set_sub_table pv d2 ac) else set_sub_table pv d2 ac, cb)"
      using c True d1(1) cf d2(1) e xy(1,2) h by (simp add: update_sub_def Let_def del: bind_split)
    then show thesis using that[of d2] d2(2,3) True cf xy(3) unfolding st by auto
  qed
qed

lemma getSubscribeCallback_gives:
  assumes mal: "never_null mal" and h: "objs (reader (ctx ac)) = H @ map Some (layout (length H + 1) (pub_reply kind ch x))"
    and k: "NUL \<notin> set kind" "length ch < 2 ^ 31" and pv: "pv \<longleftrightarrow> pattern_name kind"
    and t: "sub_table pv ac = Some d" "sub_map d M" "M ch = Some cb" "sub_table (\<not> pv) ac = Some o'" "sub_map o' M'"
    and x: "verb kind = ''unsubscribe'' \<Longrightarrow> x = Integer n"
  obtains d' where "getSubscribeCallback mal ac (length H + 1) cb0
      = Some ((if verb kind = ''unsubscribe'' \<and> n = 0 \<and> after_reply kind ch cb M = Map.empty \<and> M' = Map.empty then clear_flag SUBSCRIBED else (\<lambda>ac. ac))
          (set_sub_table pv d' ac), confirmed kind cb)"
    "sub_map d' (after_reply kind ch cb M)" "htsize d' = htsize d"
proof -
  note c = pub_cells[OF h]
  let ?es = "[length H + 2, length H + 3, length H + 4]"
  obtain d' where d': "update_sub ac ?es pv (if pv then drop 1 (cstr kind) else cstr kind) ch d cb
      = Some ((if verb kind = ''unsubscribe'' \<and> n = 0 \<and> after_reply kind ch cb M = Map.empty \<and> M' = Map.empty then clear_flag SUBSCRIBED else (\<lambda>ac. ac))
          (set_sub_table pv d' ac), confirmed kind cb)" "sub_map d' (after_reply kind ch cb M)" "htsize d' = htsize d"
    using update_sub_gives[OF k(1) t _ pv, of ?es n] c(4) x by auto
  have sk: "sds_key mal (cstr ch) (length ch) = Some ch" using sds_key_gives[OF mal k(2), of "cstr ch"] by (simp add: cstr_def)
  have pc: "tolower (cstr kind ! 0) = CHR ''p'' \<longleftrightarrow> pv" unfolding pv by (cases kind) (simp_all add: pattern_name_def cstr_def)
  have fd: "dictFind d ch = Some (Some (ch, cb))" using cb.dictFind_gives[of d ch] t(2,3) by (auto simp: sub_map_def)
  have "getSubscribeCallback mal ac (length H + 1) cb0 = update_sub ac ?es pv (if pv then drop 1 (cstr kind) else cstr kind) ch d cb"
    using c(1-3) sk pc fd t(1) by (simp add: getSubscribeCallback_def Let_def text_cell_def array_cell_def)
  then show thesis using that d' by simp
qed

end
