(* ===== verification/Async_Props.thy ===== *)
theory Async_Props
  imports Async_Subs
begin

text \<open>
  What an asynchronous connection promises: replies reach the callbacks in the order of the commands, subscriptions reach the
  callbacks of their channels, and freeing the context calls every callback that waits. And where it does not keep it.
\<close>

subsection \<open>Connections to start from\<close>

text \<open>A context over a reader, with empty tables, that is connected and not blocking.\<close>

definition open_context :: "heap redisReader \<Rightarrow> sdshdr \<Rightarrow> socket \<Rightarrow> 'e \<Rightarrow> 'e redisAsyncContext" where
  "open_context r ob io e = \<lparr>ctx = \<lparr>cerr = 0, cerrstr = [], fd = 5, flags = 2, obuf = Some ob, reader = r\<rparr>, aerr = 0, has_errstr = False,
     hooks = (\<lambda>_. True), hook_calls = [], onDisconnect = Some 9, onConnect = None, replies = [], invalid = [],
     channels = Some fresh_dict, patterns = Some fresh_dict, sock = io, env = e, dead = None\<rparr>"

lemma open_context_fields [simp]:
  "reader (ctx (open_context r ob io e)) = r" "obuf (ctx (open_context r ob io e)) = Some ob" "cerr (ctx (open_context r ob io e)) = 0"
  "replies (open_context r ob io e) = []" "invalid (open_context r ob io e) = []" "channels (open_context r ob io e) = Some fresh_dict"
  "patterns (open_context r ob io e) = Some fresh_dict" "sock (open_context r ob io e) = io" "env (open_context r ob io e) = e"
  "dead (open_context r ob io e) = None" "onDisconnect (open_context r ob io e) = Some 9"
  by (simp_all add: open_context_def)

lemma open_context_has [simp]: "has (open_context r ob io e) n \<longleftrightarrow> n = 1" "\<not> blocking (ctx (open_context r ob io e))"
proof -
  have "bit (2 :: nat) n \<longleftrightarrow> n = 1" using bit_exp_iff[of 1 n, where 'a = nat] by auto
  then show "has (open_context r ob io e) n \<longleftrightarrow> n = 1" by (simp add: has_def open_context_def)
  show "\<not> blocking (ctx (open_context r ob io e))" by (simp add: blocking_def open_context_def bit_0)
qed

lemma fresh_sub_map [simp]: "sub_map fresh_dict Map.empty"
  by (simp add: sub_map_def)

text \<open>A client that writes down its calls.\<close>

definition logging :: "(nat \<times> nat \<times> reply_tree option) list handlers" where
  "logging = \<lparr>on_reply = (\<lambda>f rep pd ac. Some (ac\<lparr>env := env ac @ [(f, pd, tree_at 9 (objs (reader (ctx ac))) rep)]\<rparr>)),
     on_status = (\<lambda>f st ac. Some (ac\<lparr>env := env ac @ [(f, if st = REDIS_OK then 0 else 1, None)]\<rparr>))\<rparr>"

lemma logging_observes: "observes logging (\<lambda>f pd t e. e @ [(f, pd, t)]) (\<lambda>f st e. e @ [(f, if st = REDIS_OK then 0 else 1, None)])"
  by (simp add: observes_def logging_def)

lemma start_reader:
  obtains r e where "redisReaderCreate (\<lambda>_. True) zero_mal [] = Some (Some r)" "at r 0 [] r" "fresh (\<lambda>_. True) r []" "sds_ok e" "str e = []" "redisReaderFree r = Some []"
proof -
  obtain r where r: "redisReaderCreate (\<lambda>_. True) zero_mal [] = Some (Some r)" "at r 0 [] r" "fn r = defaultFunctions (\<lambda>_. True)"
    "length (rstack r) = 9" "ridx r = - 1" "objs r = []" "rerr r = 0"
    using Create_at[of "\<lambda>_. True" zero_mal "[]"] never_null_zero by auto
  obtain e where "sdsempty zero_mal = Some (Some e)" "sds_ok e" "str e = []" using sdsempty_gives[of zero_mal] never_null_gives[OF never_null_zero] by auto
  moreover have "fresh (\<lambda>_. True) r []" using start_ready[OF r(5,4,7,3)] r(6) by (simp add: fresh_def)
  moreover have "reply r = 0" using r(1) by (auto simp: redisReaderCreate_def redisReaderCreateWithFunctions_def split: if_splits bind_splits option.splits)
  then have "redisReaderFree r = Some []" using r(3,6) by (simp add: redisReaderFree_def defaultFunctions_def)
  ultimately show thesis using that r(1,2) by blast
qed

subsection \<open>Replies in order\<close>

text \<open>C6. The server answers the commands that wait with the replies \<open>rps\<close>, which arrive in any pieces \<open>ts\<close>: the read events call the
  callback of the first command with the first reply and so on, each once and in order, and leave the callbacks of the commands
  that are not after_answer yet.\<close>

theorem async_replies_in_order:
  assumes "observes cl F G" and "\<forall>n. mem n" and "never_null mal" and "listening ac" and "has ac CONNECTED" and "cerr (ctx ac) = 0"
    and "at (reader (ctx ac)) N [] c" and "fresh mem c H" and "\<forall>rp\<in>set rps. fits 0 rp" and "length rps \<le> length (replies ac)"
    and "reads (sock ac) = map R_bytes ts @ rs" and "concat ts = concat (map encode rps)" and "\<forall>t\<in>set ts. t \<noteq> [] \<and> length t \<le> 16384"
    and "ts \<noteq> []" and "N + length (concat ts) < 2 ^ 31 - 2"
  shows "\<exists>ac'. handle_reads mal mem' cl so (length ts) ac = Some ac' \<and> replies ac' = drop (length rps) (replies ac)
    \<and> env ac' = served F (replies ac) rps (env ac) \<and> reads (sock ac') = rs \<and> listening ac' \<and> has ac' CONNECTED \<and> cerr (ctx ac') = 0"
proof -
  have "expects mem (reader (ctx ac)) N (concat ts) rps H" by (rule expects_fresh[OF assms(7,8,2,9)]) (use assms(12) in simp)
  then show ?thesis using handle_reads_all[OF assms(1-6,11,13,9) _ assms(15,10,14)] by blast
qed

lemma async_replies_in_order_witness:
  "\<exists>r e. redisReaderCreate (\<lambda>_. True) zero_mal [] = Some (Some r) \<and>
    (\<exists>ac'. handle_reads zero_mal (\<lambda>_. True) logging (So_error 0 []) 2
      ((open_context r e \<lparr>reads = [R_bytes (''+OK'' @ CRLF @ '':''), R_bytes (''7'' @ CRLF)], writes = [], written = []\<rparr> [])
        \<lparr>replies := [\<lparr>cfn = Some 1, pending_subs = 1, privdata = 10\<rparr>, \<lparr>cfn = Some 2, pending_subs = 1, privdata = 20\<rparr>, \<lparr>cfn = Some 3, pending_subs = 1, privdata = 30\<rparr>]\<rparr>)
      = Some ac' \<and> env ac' = [(1, 10, Some (Status ''OK'')), (2, 20, Some (Integer 7))] \<and> map cfn (replies ac') = [Some 3])"
proof -
  obtain r e where r: "redisReaderCreate (\<lambda>_. True) zero_mal [] = Some (Some r)" "at r 0 [] r" "fresh (\<lambda>_. True) r []" "sds_ok e" "str e = []"
    using start_reader by metis
  let ?ts = "[''+OK'' @ CRLF @ '':'', ''7'' @ CRLF]"
  let ?ac = "(open_context r e \<lparr>reads = map R_bytes ?ts @ [], writes = [], written = []\<rparr> ([] :: (nat \<times> nat \<times> reply_tree option) list))
        \<lparr>replies := [\<lparr>cfn = Some 1, pending_subs = 1, privdata = 10\<rparr>, \<lparr>cfn = Some 2, pending_subs = 1, privdata = 20\<rparr>, \<lparr>cfn = Some 3, pending_subs = 1, privdata = 30\<rparr>]\<rparr>"
  have l: "listening ?ac" "has ?ac CONNECTED" by (simp_all add: listening_def)
  have e: "concat ?ts = concat (map encode [Status ''OK'', Integer 7])" by (simp add: CRLF_def decimal_def dec.simps char_of_def bit_0)
  have "\<exists>ac'. handle_reads zero_mal (\<lambda>_. True) logging (So_error 0 []) (length ?ts) ?ac = Some ac' \<and> replies ac' = drop (length [Status ''OK'', Integer 7]) (replies ?ac)
    \<and> env ac' = served (\<lambda>f pd t e. e @ [(f, pd, t)]) (replies ?ac) [Status ''OK'', Integer 7] (env ?ac) \<and> reads (sock ac') = [] \<and> listening ac' \<and> has ac' CONNECTED \<and> cerr (ctx ac') = 0"
    by (rule async_replies_in_order[OF logging_observes _ never_null_zero l _ _ r(3) _ _ _ e, where N = 0]) (use r in \<open>simp_all add: CRLF_def\<close>)
  then show ?thesis using r(1) by (intro exI[of _ r] exI[of _ e]) (auto simp: called_def numeral_2_eq_2 numeral_3_eq_3)
qed

subsection \<open>Commands\<close>

text \<open>The memory of the \<^verbatim>\<open>sds\<close> that is formatted.\<close>

lemma sds_command:
  assumes "argv_holds argv argvlen xs" and "never_null mal" and "length (encode (Multi (map Bulk xs))) < 2 ^ 31"
  obtains cmd g where "redisFormatSdsCommandArgv mal (length xs) argv argvlen = Some (int (length (encode (Multi (map Bulk xs)))), Some cmd)"
    "buf cmd = encode (Multi (map Bulk xs)) @ NUL # g"
proof -
  define t where "t = encode (Multi (map Bulk xs))"
  obtain cmd where cmd: "redisFormatSdsCommandArgv mal (length xs) argv argvlen = Some (int (length t), Some cmd)" "sds_ok cmd" "str cmd = t"
    using redisFormatSds_spec[OF assms] unfolding t_def by auto
  have l: "sdslen cmd = length t" using length_str[OF cmd(2)] cmd(3) by (simp add: sdslen_def)
  have "length t < length (buf cmd)" "buf cmd ! length t = NUL" "take (length t) (buf cmd) = t"
    using cmd(2,3) l by (auto simp: sds_ok_def str_def sdslen_def)
  then have "buf cmd = t @ NUL # drop (Suc (length t)) (buf cmd)" by (metis append_take_drop_id Cons_nth_drop_Suc)
  then show thesis using that cmd(1) unfolding t_def by blast
qed

text \<open>C7. Issuing an ordinary command on a connection in use queues its callback behind the others and appends exactly the protocol text of
  the command to the output; a connection that is closing refuses it and stays as it is.\<close>

theorem async_command_queued:
  assumes "\<forall>n. mem n" and "never_null mal" and "argv_holds argv argvlen (w # ws)" and "ordinary w"
    and "length (encode (Multi (map Bulk (w # ws)))) < 2 ^ 31 - 1" and "dead ac = None" and "\<not> has ac SUBSCRIBED"
    and "obuf (ctx ac) = Some e" and "sds_ok e" and "sdslen e < 2 ^ 61"
  shows "\<exists>s. redisAsyncCommandArgv mal mem ac f pd (length (w # ws)) argv argvlen =
      (if has ac DISCONNECTING \<or> has ac FREEING then Some (REDIS_ERR, ac)
       else Some (REDIS_OK, ev_call AddWrite (ac\<lparr>replies := replies ac @ [\<lparr>cfn = f, pending_subs = 1, privdata = pd\<rparr>], ctx := (ctx ac)\<lparr>obuf := Some s\<rparr>\<rparr>)))
    \<and> sds_ok s \<and> str s = str e @ encode (Multi (map Bulk (w # ws)))"
proof -
  define t where "t = encode (Multi (map Bulk (w # ws)))"
  obtain cmd g where cmd: "redisFormatSdsCommandArgv mal (length (w # ws)) argv argvlen = Some (int (length t), Some cmd)" and g: "buf cmd = t @ NUL # g"
    using sds_command[OF assms(3,2)] assms(5) unfolding t_def by auto
  have a: "redisAsyncCommandArgv mal mem ac f pd (length (w # ws)) argv argvlen = asyncCommand mal mem ac f pd (t @ NUL # g) (length t)"
    using cmd g by (simp add: redisAsyncCommandArgv_def)
  show ?thesis
  proof (cases "has ac DISCONNECTING \<or> has ac FREEING")
    case True
    obtain s where s: "sds_ok s" "str s = str e @ take (length t) t"
      using appendCommand_gives[OF assms(2,8,9), of "length t" t] assms(5,10) unfolding t_def by auto
    have "asyncCommand mal mem ac f pd (t @ NUL # g) (length t) = Some (REDIS_ERR, ac)" using True assms(6) by (auto simp: asyncCommand_def alive_def)
    then show ?thesis using True s a unfolding t_def[symmetric] by auto
  next
    case False
    obtain s where "asyncCommand mal mem ac f pd (t @ NUL # g) (length t)
        = Some (REDIS_OK, ev_call AddWrite (ac\<lparr>replies := replies ac @ [\<lparr>cfn = f, pending_subs = 1, privdata = pd\<rparr>], ctx := (ctx ac)\<lparr>obuf := Some s\<rparr>\<rparr>))"
      "sds_ok s" "str s = str e @ t"
      using asyncCommand_ordinary[OF assms(1,2,4) _ assms(6) _ _ assms(7,8,9,10), where ws = ws and f = f and pd = pd and g = g] False assms(5) unfolding t_def by auto
    then show ?thesis using False a unfolding t_def[symmetric] by auto
  qed
qed

lemma async_command_queued_witness:
  "\<exists>r e s. redisReaderCreate (\<lambda>_. True) zero_mal [] = Some (Some r) \<and>
    redisAsyncCommandArgv zero_mal (\<lambda>_. True) (open_context r e \<lparr>reads = [], writes = [], written = []\<rparr> (0 :: nat)) (Some 1) 10 2 [''GET'', ''key''] (Some [3, 1])
     = Some (REDIS_OK, ev_call AddWrite ((open_context r e \<lparr>reads = [], writes = [], written = []\<rparr> 0)
         \<lparr>replies := [\<lparr>cfn = Some 1, pending_subs = 1, privdata = 10\<rparr>], ctx := (ctx (open_context r e \<lparr>reads = [], writes = [], written = []\<rparr> (0 :: nat)))\<lparr>obuf := Some s\<rparr>\<rparr>))
    \<and> str s = encode (Multi (map Bulk [''GET'', ''k'']))"
proof -
  obtain r e where r: "redisReaderCreate (\<lambda>_. True) zero_mal [] = Some (Some r)" "sds_ok e" "str e = []" using start_reader by metis
  have e: "sdslen e < 2 ^ 61" using length_str[OF r(2)] r(3) by (simp add: sdslen_def)
  have o: "ordinary ''GET''" by (simp add: ordinary_def verb_def pattern_name_def tolower_def code_def)
  let ?ac = "open_context r e \<lparr>reads = [], writes = [], written = []\<rparr> (0 :: nat)"
  obtain s where "redisAsyncCommandArgv zero_mal (\<lambda>_. True) ?ac (Some 1) 10 (length [''GET'', ''k'']) [''GET'', ''key''] (Some [3, 1]) =
      (if has ?ac DISCONNECTING \<or> has ?ac FREEING then Some (REDIS_ERR, ?ac)
       else Some (REDIS_OK, ev_call AddWrite (?ac\<lparr>replies := replies ?ac @ [\<lparr>cfn = Some 1, pending_subs = 1, privdata = 10\<rparr>], ctx := (ctx ?ac)\<lparr>obuf := Some s\<rparr>\<rparr>)))"
    "str s = str e @ encode (Multi (map Bulk [''GET'', ''k'']))"
    using async_command_queued[OF _ never_null_zero get_k o _ _ _ _ r(2) e, of "\<lambda>_. True" ?ac "Some 1" 10] get_k_length by auto
  then show ?thesis using r(1,3) by (intro exI[of _ r] exI[of _ e] exI[of _ s]) (simp add: numeral_2_eq_2 del: encode.simps)
qed

subsection \<open>Freeing\<close>

lemma async_frees:
  assumes "observes cl F G" and "in_use ac ch pa" and "redisFree (ctx ac) = Some res"
  shows "\<exists>ac'. redisAsyncFree cl ac = Some ac' \<and> replies ac' = [] \<and> invalid ac' = [] \<and> channels ac' = None \<and> patterns ac' = None \<and> dead ac' = Some res
    \<and> env ac' = (let e = fold (called F None) (replies ac @ invalid ac @ map snd (entries ch) @ map snd (entries pa)) (env ac)
        in case onDisconnect ac of Some f \<Rightarrow> if has ac CONNECTED then G f REDIS_OK e else e | None \<Rightarrow> e)"
proof -
  let ?ac = "set_flag FREEING ac"
  have "in_use ?ac ch pa" using assms(2) by (simp add: in_use_def)
  moreover have "redisFree (ctx ?ac) = Some res" using assms(3) by (simp add: redisFree_def set_flag_def)
  ultimately have "asyncFree cl ?ac = Some (ev_call Cleanup (?ac\<lparr>replies := [], invalid := [], channels := None, patterns := None,
      env := farewell F G ?ac ch pa, dead := Some res\<rparr>))" by (rule asyncFree_gives[OF assms(1)])
  moreover have "redisAsyncFree cl ac = asyncFree cl ?ac" using assms(2) by (simp add: redisAsyncFree_def alive_def in_use_def)
  ultimately show ?thesis by (auto simp: farewell_def Let_def split: option.splits)
qed

text \<open>C10. \<open>redisAsyncFree\<close> outside of a callback calls, each once and with the null pointer, the callbacks of the commands that wait, in their
  order, then those of the commands that were invalid while subscribed, of the channels and of the patterns; then the disconnect callback,
  if the connection was made, with \<^verbatim>\<open>REDIS_OK\<close>; no callback is left and the context is freed.\<close>

theorem async_free_calls_all:
  assumes "observes cl F G" and "in_use ac ch pa" and "redisFree (ctx ac) = Some res"
  shows "\<exists>ac'. redisAsyncFree cl ac = Some ac' \<and> replies ac' = [] \<and> invalid ac' = [] \<and> channels ac' = None \<and> patterns ac' = None \<and> dead ac' = Some res
    \<and> env ac' = (let e = fold (called F None) (replies ac @ invalid ac @ map snd (entries ch) @ map snd (entries pa)) (env ac)
        in case onDisconnect ac of Some f \<Rightarrow> if has ac CONNECTED then G f REDIS_OK e else e | None \<Rightarrow> e)"
  by (rule async_frees[OF assms])

lemma async_free_calls_all_witness:
  "\<exists>r e. redisReaderCreate (\<lambda>_. True) zero_mal [] = Some (Some r) \<and>
    (\<exists>ac'. redisAsyncFree logging ((open_context r e \<lparr>reads = [], writes = [], written = []\<rparr> [])
        \<lparr>replies := [\<lparr>cfn = Some 1, pending_subs = 1, privdata = 10\<rparr>, \<lparr>cfn = Some 2, pending_subs = 1, privdata = 20\<rparr>]\<rparr>) = Some ac'
      \<and> env ac' = [(1, 10, None), (2, 20, None), (9, 0, None)] \<and> dead ac' = Some (True, []))"
proof -
  obtain r and e :: sdshdr where r: "redisReaderCreate (\<lambda>_. True) zero_mal [] = Some (Some r)" "redisReaderFree r = Some []" using start_reader by metis
  let ?ac = "(open_context r e \<lparr>reads = [], writes = [], written = []\<rparr> ([] :: (nat \<times> nat \<times> reply_tree option) list))
        \<lparr>replies := [\<lparr>cfn = Some 1, pending_subs = 1, privdata = 10\<rparr>, \<lparr>cfn = Some 2, pending_subs = 1, privdata = 20\<rparr>]\<rparr>"
  have u: "in_use ?ac fresh_dict fresh_dict" by (simp add: in_use_def)
  have f: "redisFree (ctx ?ac) = Some (True, [])" using r(2) by (simp add: redisFree_def open_context_def)
  show ?thesis using async_free_calls_all[OF logging_observes u f] r(1)
    by (intro exI[of _ r] exI[of _ e]) (auto simp: called_def)
qed

subsection \<open>Subscriptions\<close>

text \<open>The text of the command, and where its arguments start.\<close>

lemma subscribe_command:
  assumes mem: "\<forall>n. mem n" and mal: "never_null mal" and w: "CHR 0x0d \<notin> set w" "verb w = ''subscribe''" "ks \<noteq> []"
    and len: "length (encode (Multi (map Bulk (w # ks)))) < 2 ^ 31"
    and t: "sub_table (pattern_name w) ac = Some d" "sub_map d M" "htsize d \<le> 2 ^ 29" "used d + length ks \<le> 2 ^ 28"
  obtains d' where "register mal mem cb (encode (Multi (map Bulk (w # ks))) @ NUL # g) ac = Some (REDIS_OK, set_sub_table (pattern_name w) d' (set_flag SUBSCRIBED ac))"
    "sub_map d' (subscribed M cb ks)" "htsize d' \<le> 2 ^ 29"
proof -
  define u where "u = (''*'' @ dec (Suc (length ks)) @ CRLF) @ bulk_text w"
  have m: "encode (Multi (map Bulk (w # ks))) @ NUL # g = u @ concat (map bulk_text ks) @ NUL # g" unfolding encode_bulks by (simp add: u_def)
  have "length w < 2 ^ 31" using len unfolding encode_bulks by (simp add: bulk_text_def)
  moreover have "length k < 2 ^ 31" if "k \<in> set ks" for k
  proof -
    have "length (bulk_text k) \<le> length (concat (map bulk_text ks))" using that by (induction ks) auto
    then show ?thesis using len unfolding encode_bulks by (simp add: bulk_text_def)
  qed
  moreover have st: "sub_table (pattern_name w) (set_flag SUBSCRIBED ac) = Some d" using t(1) by (cases "pattern_name w") (simp_all add: sub_table_def)
  ultimately obtain d' where d': "subscribe_while mal mem (u @ concat (map bulk_text ks) @ NUL # g) (pattern_name w) (length u) cb (set_flag SUBSCRIBED ac)
      = Some (set_sub_table (pattern_name w) d' (set_flag SUBSCRIBED ac))" "sub_map d' (subscribed M cb ks)" "htsize d' \<le> 2 ^ 29"
    using subscribe_while_gives[OF mem mal st t(2-4) _ refl, of u g cb] by blast
  have "3 + length (dec (Suc (length ks))) + length (bulk_text w) = length u" by (simp add: u_def)
  then have "register mal mem cb (encode (Multi (map Bulk (w # ks))) @ NUL # g) ac = Some (REDIS_OK, set_sub_table (pattern_name w) d' (set_flag SUBSCRIBED ac))"
    using register_command[OF w(1) \<open>length w < 2 ^ 31\<close>, of mal mem cb ks g ac] w(2,3) d'(1) unfolding m by simp
  then show thesis using that d'(2,3) by blast
qed

text \<open>C8. \<^verbatim>\<open>SUBSCRIBE\<close> (or \<^verbatim>\<open>PSUBSCRIBE\<close>, in any case) of the channels \<open>ks\<close> maps each of them to the callback, in the table of channels (or of
  patterns), however it has to grow, queues nothing, marks the connection as subscribed and appends the command. The count of pending
  subscriptions of a channel that was there goes up by one; \<open>subscribed\<close> says that the code takes this count over for the channels
  behind it in the same command, also for new ones.\<close>

theorem async_subscribe_registers:
  assumes "\<forall>n. mem n" and "never_null mal" and "argv_holds argv argvlen (w # ks)" and "CHR 0x0d \<notin> set w" and "verb w = ''subscribe''" and "ks \<noteq> []"
    and "length (encode (Multi (map Bulk (w # ks)))) < 2 ^ 31 - 1" and "dead ac = None" and "\<not> has ac DISCONNECTING" and "\<not> has ac FREEING"
    and "sub_table (pattern_name w) ac = Some d" and "sub_map d M" and "htsize d \<le> 2 ^ 29" and "used d + length ks \<le> 2 ^ 28"
    and "obuf (ctx ac) = Some e" and "sds_ok e" and "sdslen e < 2 ^ 61"
  shows "\<exists>ac' d' s. redisAsyncCommandArgv mal mem ac f pd (length (w # ks)) argv argvlen = Some (REDIS_OK, ac')
    \<and> sub_table (pattern_name w) ac' = Some d' \<and> sub_map d' (subscribed M \<lparr>cfn = f, pending_subs = 1, privdata = pd\<rparr> ks)
    \<and> has ac' SUBSCRIBED \<and> replies ac' = replies ac \<and> obuf (ctx ac') = Some s \<and> str s = str e @ encode (Multi (map Bulk (w # ks)))"
proof -
  define t where "t = encode (Multi (map Bulk (w # ks)))"
  obtain cmd g where cmd: "redisFormatSdsCommandArgv mal (length (w # ks)) argv argvlen = Some (int (length t), Some cmd)" "buf cmd = t @ NUL # g"
    using sds_command[OF assms(3,2)] assms(7) unfolding t_def by auto
  let ?cb = "\<lparr>cfn = f, pending_subs = 1, privdata = pd\<rparr>"
  obtain d' where d': "register mal mem ?cb (t @ NUL # g) ac = Some (REDIS_OK, set_sub_table (pattern_name w) d' (set_flag SUBSCRIBED ac))"
    "sub_map d' (subscribed M ?cb ks)"
    using subscribe_command[OF assms(1,2,4-6) _ assms(11-14), of ?cb g] assms(7) unfolding t_def by auto
  let ?ac = "set_sub_table (pattern_name w) d' (set_flag SUBSCRIBED ac)"
  have o: "obuf (ctx ?ac) = Some e" using assms(15) by (simp add: set_sub_table_def)
  obtain s where s: "appendCommand mal (ctx ?ac) (t @ NUL # g) (length t) = Some (REDIS_OK, (ctx ?ac)\<lparr>obuf := Some s\<rparr>)" "str s = str e @ t"
    using appendCommand_gives[OF assms(2) o assms(16), of "length t" "t @ NUL # g"] assms(7,17) unfolding t_def by auto
  have "redisAsyncCommandArgv mal mem ac f pd (length (w # ks)) argv argvlen = Some (REDIS_OK, ev_call AddWrite (?ac\<lparr>ctx := (ctx ?ac)\<lparr>obuf := Some s\<rparr>\<rparr>))"
    using cmd d'(1) s(1) assms(8-10) by (simp add: redisAsyncCommandArgv_def asyncCommand_def alive_def)
  moreover have "has (ev_call AddWrite (?ac\<lparr>ctx := (ctx ?ac)\<lparr>obuf := Some s\<rparr>\<rparr>)) SUBSCRIBED" by (simp add: has_def set_sub_table_def set_flag_def)
  ultimately show ?thesis using d'(2) s(2) unfolding t_def[symmetric] by (auto simp: sub_table_def set_sub_table_def)
qed

lemma subscribe_argv: "argv_holds [''SUBSCRIBE'', ''a'', ''b''] (Some [9, 1, 1]) [''SUBSCRIBE'', ''a'', ''b'']"
  by (auto simp: argv_holds_def arg_len_def less_Suc_eq)

lemma async_subscribe_registers_witness:
  "\<exists>i d r e ac' d'. dictReplace (\<lambda>_. True) fresh_dict ''a'' \<lparr>cfn = Some 7, pending_subs = 1, privdata = 70\<rparr> = Some (i, d)
    \<and> redisReaderCreate (\<lambda>_. True) zero_mal [] = Some (Some r)
    \<and> redisAsyncCommandArgv zero_mal (\<lambda>_. True) ((open_context r e \<lparr>reads = [], writes = [], written = []\<rparr> (0 :: nat))\<lparr>channels := Some d\<rparr>)
        (Some 8) 80 3 [''SUBSCRIBE'', ''a'', ''b''] (Some [9, 1, 1]) = Some (REDIS_OK, ac')
    \<and> channels ac' = Some d' \<and> map_of (entries d') = [''a'' \<mapsto> \<lparr>cfn = Some 8, pending_subs = 2, privdata = 80\<rparr>, ''b'' \<mapsto> \<lparr>cfn = Some 8, pending_subs = 2, privdata = 80\<rparr>]"
proof -
  obtain r e where r: "redisReaderCreate (\<lambda>_. True) zero_mal [] = Some (Some r)" "sds_ok e" "str e = []" using start_reader by metis
  have e: "sdslen e < 2 ^ 61" using length_str[OF r(2)] r(3) by (simp add: sdslen_def)
  let ?k = "\<lparr>cfn = Some 7, pending_subs = 1, privdata = 70\<rparr>"
  obtain i d where d: "dictReplace (\<lambda>_. True) fresh_dict ''a'' ?k = Some (i, d)" "sub_map d (Map.empty(''a'' \<mapsto> ?k))" "htsize d \<le> 2 ^ 29" "used d + 2 \<le> 2 ^ 28"
    using replace_sub[OF fresh_sub_map, of 2 "\<lambda>_. True" "''a''" ?k] by auto
  let ?ac = "(open_context r e \<lparr>reads = [], writes = [], written = []\<rparr> (0 :: nat))\<lparr>channels := Some d\<rparr>"
  have w: "verb ''SUBSCRIBE'' = ''subscribe''" "\<not> pattern_name ''SUBSCRIBE''" by code_simp+
  have l: "length (encode (Multi (map Bulk [''SUBSCRIBE'', ''a'', ''b'']))) < 2 ^ 31 - 1" unfolding encode_words by (simp add: encode.simps dec.simps)
  have t: "sub_table (pattern_name ''SUBSCRIBE'') ?ac = Some d" using w(2) by (simp add: sub_table_def)
  obtain ac' d' where ac': "redisAsyncCommandArgv zero_mal (\<lambda>_. True) ?ac (Some 8) 80 (length [''SUBSCRIBE'', ''a'', ''b'']) [''SUBSCRIBE'', ''a'', ''b''] (Some [9, 1, 1]) = Some (REDIS_OK, ac')"
    "sub_table (pattern_name ''SUBSCRIBE'') ac' = Some d'" "sub_map d' (subscribed (Map.empty(''a'' \<mapsto> ?k)) \<lparr>cfn = Some 8, pending_subs = 1, privdata = 80\<rparr> [''a'', ''b''])"
    using async_subscribe_registers[OF _ never_null_zero subscribe_argv _ w(1) _ l _ _ _ t d(2,3) _ _ r(2) e, of "\<lambda>_. True" "Some 8" 80] d(4) by auto
  have "subscribed (Map.empty(''a'' \<mapsto> ?k)) \<lparr>cfn = Some 8, pending_subs = 1, privdata = 80\<rparr> [''a'', ''b'']
      = [''a'' \<mapsto> \<lparr>cfn = Some 8, pending_subs = 2, privdata = 80\<rparr>, ''b'' \<mapsto> \<lparr>cfn = Some 8, pending_subs = 2, privdata = 80\<rparr>]"
    by (simp add: Let_def)
  then show ?thesis using r(1) d(1) ac' w(2) by (auto simp: sub_map_def sub_table_def numeral_3_eq_3)
qed

subsection \<open>Replies to subscriptions\<close>

text \<open>A reply when no command waits, for a given outcome of the search for its callback.\<close>

lemma process_sub:
  assumes obs: "observes cl F G" and f: "fits 0 (Multi rps)" and l: "listening ac" and q: "replies ac = []" and s: "has ac SUBSCRIBED"
    and r': "redisReaderGetReply (reader (ctx ac)) = Some (REDIS_OK, length H + 1, r')" "objs r' = H @ map Some (layout (length H + 1) (Multi rps))"
      "fn r' = defaultFunctions mem"
    and g: "getSubscribeCallback mal (ac\<lparr>ctx := (ctx ac)\<lparr>reader := r'\<rparr>\<rparr>) (length H + 1) cb0 = Some (ac1, cb)"
    and a: "reader (ctx ac1) = r'" "listening ac1"
  shows "process_while mal mem' cl cb0 ac
    = process_while mal mem' cl cb (after_answer ac1 (r'\<lparr>objs := H @ replicate (cells (Multi rps)) None\<rparr>) (replies ac1) (called F (Some (Multi rps)) cb (env ac1)))"
proof -
  let ?h = "H @ replicate (cells (Multi rps)) None"
  have gr: "redisGetReply mal (ctx ac) (sock ac) = Some (REDIS_OK, length H + 1, (ctx ac)\<lparr>reader := r'\<rparr>, sock ac)"
    using r'(1) by (simp add: redisGetReply_def redisGetReplyFromReader_def)
  have d: "\<exists>c. deref (objs r') (length H + 1) = Some c \<and> rtype c \<noteq> REDIS_REPLY_ERROR" unfolding r'(2) by (simp add: deref_def array_cell_def)
  have t: "tree_at 9 (objs r') (length H + 1) = Some (Multi rps)"
    using tree_at_layout(1)[of "length H + 1" H "Multi rps" 9 "[]"] fits_depth[OF f] r'(2) by simp
  have fr: "free_reply (length H + 1) (ac1\<lparr>env := e\<rparr>) = Some (after_answer ac1 (r'\<lparr>objs := ?h\<rparr>) (replies ac1) e)" for e
    using r'(2,3) a(1) freeReplyObject_layout[of H "Multi rps"] by (simp add: free_reply_def after_answer_def defaultFunctions_def del: layout.simps cells.simps)
  have u: "dead ac1 = None" "\<not> has ac1 IN_CALLBACK" "\<not> has ac1 FREEING" using a(2) by (simp_all add: listening_def)
  have run: "redisRunCallback cl cb (length H + 1) ac1 = Some (ac1\<lparr>env := called F (Some (Multi rps)) cb (env ac1)\<rparr>)"
    using run_observes[OF obs u(1,2), of cb "length H + 1"] t a(1) by simp
  have h: "has (ac\<lparr>ctx := (ctx ac)\<lparr>reader := r'\<rparr>\<rparr>) n = has ac n" for n by (simp add: has_def)
  note step = gr q d g fr run u(3) s h
  show ?thesis
  proof (cases "cfn cb")
    case None
    then have "called F (Some (Multi rps)) cb (env ac1) = env ac1" by (simp add: called_def)
    then show ?thesis using step None fr[of "env ac1"] d by (subst process_while.simps) (auto simp: redisShiftCallback_def)
  next
    case (Some fp)
    then show ?thesis using step d by (subst process_while.simps) (auto simp: redisShiftCallback_def)
  qed
qed

lemma reader_update [simp]:
  "reader (ctx (ac\<lparr>ctx := (ctx ac)\<lparr>reader := r\<rparr>\<rparr>)) = r" "listening (ac\<lparr>ctx := (ctx ac)\<lparr>reader := r\<rparr>\<rparr>) = listening ac"
  "has (ac\<lparr>ctx := (ctx ac)\<lparr>reader := r\<rparr>\<rparr>) n = has ac n" "sub_table pv (ac\<lparr>ctx := (ctx ac)\<lparr>reader := r\<rparr>\<rparr>) = sub_table pv ac"
  by (simp_all add: listening_def has_def blocking_def sub_table_def)

lemma sub_table_after_answer [simp]: "sub_table pv (after_answer ac r cbs e) = sub_table pv ac"
  by (simp add: sub_table_def)

lemma set_sub_table_simps [simp]:
  "reader (ctx (set_sub_table pv d ac)) = reader (ctx ac)" "listening (set_sub_table pv d ac) = listening ac" "has (set_sub_table pv d ac) n = has ac n"
  "replies (set_sub_table pv d ac) = replies ac" "env (set_sub_table pv d ac) = env ac"
  by (simp_all add: set_sub_table_def listening_def has_def)

lemma clear_subscribed [simp]:
  "reader (ctx (clear_flag SUBSCRIBED ac)) = reader (ctx ac)" "listening (clear_flag SUBSCRIBED ac) = listening ac" "replies (clear_flag SUBSCRIBED ac) = replies ac"
  "env (clear_flag SUBSCRIBED ac) = env ac" "sub_table pv (clear_flag SUBSCRIBED ac) = sub_table pv ac"
  by (auto simp: listening_def clear_flag_def has_def blocking_def sub_table_def)

text \<open>The next reply in the buffer is for a channel with a callback.\<close>

lemma process_known:
  assumes obs: "observes cl F G" and mem: "\<forall>n. mem n" and mal: "never_null mal" and l: "listening ac" "has ac SUBSCRIBED" "replies ac = []"
    and r: "at (reader (ctx ac)) N (encode (pub_reply kind ch x) @ z) c" "fresh mem c H" and f: "fits 0 (pub_reply kind ch x)" and k: "NUL \<notin> set kind"
    and t: "sub_table (pattern_name kind) ac = Some d" "sub_map d M" "M ch = Some cb" "sub_table (\<not> pattern_name kind) ac = Some o'" "sub_map o' M'"
    and x: "verb kind = ''unsubscribe'' \<Longrightarrow> x = Integer n"
  obtains ac' c' H' d' where "process_while mal mem' cl prev ac = process_while mal mem' cl (confirmed kind cb) ac'"
    "at (reader (ctx ac')) N z c'" "fresh mem c' H'" "listening ac'" "replies ac' = []" "env ac' = called F (Some (pub_reply kind ch x)) (confirmed kind cb) (env ac)"
    "sub_table (pattern_name kind) ac' = Some d'" "sub_map d' (after_reply kind ch cb M)"
    "has ac' SUBSCRIBED \<longleftrightarrow> \<not> (verb kind = ''unsubscribe'' \<and> n = 0 \<and> after_reply kind ch cb M = Map.empty \<and> M' = Map.empty)"
proof -
  let ?rp = "pub_reply kind ch x" and ?pv = "pattern_name kind"
  note fn = fresh_fn[OF r(2)]
  obtain r' c' where r': "redisReaderGetReply (reader (ctx ac)) = Some (REDIS_OK, length H + 1, r')" "objs r' = H @ map Some (layout (length H + 1) ?rp)"
    "fn r' = defaultFunctions mem" "\<And>h. at (r'\<lparr>objs := h\<rparr>) N z (c'\<lparr>objs := h\<rparr>)" "\<And>h. fresh mem (c'\<lparr>objs := h\<rparr>) h"
    using GetReply_all[OF r(1) _ _ encode_nonempty fresh_completes[OF mem f r(2)]] fn by metis
  let ?a = "ac\<lparr>ctx := (ctx ac)\<lparr>reader := r'\<rparr>\<rparr>"
  define clr where "clr \<longleftrightarrow> verb kind = ''unsubscribe'' \<and> n = 0 \<and> after_reply kind ch cb M = Map.empty \<and> M' = Map.empty"
  have lc: "length ch < 2 ^ 31" using f by simp
  obtain d' where d': "getSubscribeCallback mal ?a (length H + 1) prev = Some ((if clr then clear_flag SUBSCRIBED else (\<lambda>ac. ac)) (set_sub_table ?pv d' ?a), confirmed kind cb)"
    "sub_map d' (after_reply kind ch cb M)"
    using getSubscribeCallback_gives[OF mal _ k lc refl, of ?a H x d M cb o' M' n prev] r'(2) t x unfolding clr_def by auto
  define a1 where "a1 = (if clr then clear_flag SUBSCRIBED else (\<lambda>ac. ac)) (set_sub_table ?pv d' ?a)"
  have a1: "reader (ctx a1) = r'" "listening a1" "replies a1 = []" "env a1 = env ac" "sub_table ?pv a1 = Some d'" "has a1 SUBSCRIBED \<longleftrightarrow> \<not> clr"
    using l by (simp_all add: a1_def)
  let ?h = "H @ replicate (cells ?rp) None"
  let ?ac = "after_answer a1 (r'\<lparr>objs := ?h\<rparr>) [] (called F (Some ?rp) (confirmed kind cb) (env ac))"
  have "process_while mal mem' cl prev ac = process_while mal mem' cl (confirmed kind cb) ?ac"
    using process_sub[OF obs f l(1,3,2) r'(1-3) _ a1(1,2)] d'(1) a1(3,4) unfolding a1_def[symmetric] by simp
  then show thesis by (rule that[of ?ac "c'\<lparr>objs := ?h\<rparr>" ?h d']) (use r'(4,5) a1 d'(2) clr_def in simp_all)
qed

text \<open>The next reply is for a channel without one: the callback that was called last is called.\<close>

lemma getSubscribeCallback_unknown:
  assumes mal: "never_null mal" and h: "objs (reader (ctx ac)) = H @ map Some (layout (length H + 1) (pub_reply kind ch x))" and ch: "length ch < 2 ^ 31"
    and t: "sub_table (pattern_name kind) ac = Some d" "sub_map d M" "M ch = None"
  shows "getSubscribeCallback mal ac (length H + 1) prev = Some (ac, prev)"
proof -
  note c = pub_cells[OF h]
  have sk: "sds_key mal (cstr ch) (length ch) = Some ch" using sds_key_gives[OF mal ch, of "cstr ch"] by (simp add: cstr_def)
  have pc: "tolower (cstr kind ! 0) = CHR ''p'' \<longleftrightarrow> pattern_name kind" by (cases kind) (simp_all add: pattern_name_def cstr_def)
  have fd: "dictFind d ch = Some None" using cb.dictFind_gives[of d ch] t(2,3) by (auto simp: sub_map_def)
  show ?thesis using c(1-3) sk pc fd t(1) by (simp add: getSubscribeCallback_def Let_def text_cell_def array_cell_def)
qed

lemma process_unknown:
  assumes obs: "observes cl F G" and mem: "\<forall>n. mem n" and mal: "never_null mal" and l: "listening ac" "has ac SUBSCRIBED" "replies ac = []"
    and r: "at (reader (ctx ac)) N (encode (pub_reply kind ch x) @ z) c" "fresh mem c H" and f: "fits 0 (pub_reply kind ch x)"
    and t: "sub_table (pattern_name kind) ac = Some d" "sub_map d M" "M ch = None"
  obtains ac' c' H' where "process_while mal mem' cl prev ac = process_while mal mem' cl prev ac'"
    "at (reader (ctx ac')) N z c'" "fresh mem c' H'" "listening ac'" "replies ac' = []" "env ac' = called F (Some (pub_reply kind ch x)) prev (env ac)"
proof -
  let ?rp = "pub_reply kind ch x"
  note fn = fresh_fn[OF r(2)]
  obtain r' c' where r': "redisReaderGetReply (reader (ctx ac)) = Some (REDIS_OK, length H + 1, r')" "objs r' = H @ map Some (layout (length H + 1) ?rp)"
    "fn r' = defaultFunctions mem" "\<And>h. at (r'\<lparr>objs := h\<rparr>) N z (c'\<lparr>objs := h\<rparr>)" "\<And>h. fresh mem (c'\<lparr>objs := h\<rparr>) h"
    using GetReply_all[OF r(1) _ _ encode_nonempty fresh_completes[OF mem f r(2)]] fn by metis
  let ?a = "ac\<lparr>ctx := (ctx ac)\<lparr>reader := r'\<rparr>\<rparr>"
  have g: "getSubscribeCallback mal ?a (length H + 1) prev = Some (?a, prev)"
    using getSubscribeCallback_unknown[OF mal, of ?a H kind ch x d M prev] r'(2) f t by simp
  let ?h = "H @ replicate (cells ?rp) None"
  let ?ac = "after_answer ?a (r'\<lparr>objs := ?h\<rparr>) [] (called F (Some ?rp) prev (env ac))"
  have "process_while mal mem' cl prev ac = process_while mal mem' cl prev ?ac"
    using process_sub[OF obs f l(1,3,2) r'(1-3) g] l by simp
  then show thesis by (rule that[of ?ac "c'\<lparr>objs := ?h\<rparr>" ?h]) (use r'(4,5) l in simp_all)
qed

lemma process_done:
  assumes "listening ac" "at (reader (ctx ac)) N [] c" "fresh mem c H"
  obtains r where "process_while mal mem' cl prev ac = Some (after_answer ac r (replies ac) (env ac))"
  using GetReply_empty[OF assms(2,3)] process_no_reply[OF assms(1)] by metis

lemma bulk_length: "length (encode (Bulk s)) \<le> 2 * length s + 6"
proof -
  have "length (dec n) \<le> Suc n" for n by (induction n rule: dec.induct) (subst dec.simps, force)
  from this[of "length s"] show ?thesis by (simp add: encode.simps CRLF_def)
qed

lemma pub_length: "length (encode (pub_reply kind ch x)) \<le> 2 * length kind + 2 * length ch + length (encode x) + 17"
  using bulk_length[of kind] bulk_length[of ch] by (simp add: CRLF_def dec.simps)

text \<open>A subscribed connection to start from, with the text \<open>t\<close> read and \<open>cb\<close> registered for the channel \<open>a\<close>.\<close>

definition subscribed_context :: "heap redisReader \<Rightarrow> sdshdr \<Rightarrow> (string, redisCallback) dict \<Rightarrow> 'e \<Rightarrow> 'e redisAsyncContext" where
  "subscribed_context r ob d e = set_flag SUBSCRIBED ((open_context r ob \<lparr>reads = [], writes = [], written = []\<rparr> e)\<lparr>channels := Some d\<rparr>)"

lemma subscribed_context_fields [simp]:
  "reader (ctx (subscribed_context r ob d e)) = r" "replies (subscribed_context r ob d e) = []" "channels (subscribed_context r ob d e) = Some d"
  "patterns (subscribed_context r ob d e) = Some fresh_dict" "env (subscribed_context r ob d e) = e" "dead (subscribed_context r ob d e) = None"
  "has (subscribed_context r ob d e) SUBSCRIBED" "listening (subscribed_context r ob d e)"
  by (auto simp: subscribed_context_def listening_def set_flag_def has_def blocking_def open_context_def bit_or_iff bit_exp_iff bit_0)

lemma start_subscribed:
  assumes "t \<noteq> []" "length t < 1000"
  obtains r e c i d where "redisReaderCreate (\<lambda>_. True) zero_mal [] = Some (Some c)" "redisReaderFeed zero_mal c (Some t) (length t) = Some (REDIS_OK, r)"
    "at r (length t) t c" "fresh (\<lambda>_. True) c []" "sdsempty zero_mal = Some (Some e)"
    "dictReplace (\<lambda>_. True) fresh_dict ''a'' cb = Some (i, d)" "sub_map d [''a'' \<mapsto> cb]"
proof -
  obtain c where c: "redisReaderCreate (\<lambda>_. True) zero_mal [] = Some (Some c)" "at c 0 [] c" "fresh (\<lambda>_. True) c []" using start_reader by metis
  moreover obtain r where "redisReaderFeed zero_mal c (Some t) (length t) = Some (REDIS_OK, r)" "at r (length t) t c"
    using Feed_at[OF c(2) assms(1) _ never_null_zero] assms(2) by auto
  moreover obtain e where "sdsempty zero_mal = Some (Some e)" using sdsempty_gives[of zero_mal] never_null_gives[OF never_null_zero] by auto
  moreover obtain i d where "dictReplace (\<lambda>_. True) fresh_dict ''a'' cb = Some (i, d)" "sub_map d [''a'' \<mapsto> cb]"
    by (rule replace_sub[OF fresh_sub_map, of 2 "\<lambda>_. True" "''a''" cb]) auto
  ultimately show thesis using that by blast
qed

text \<open>C9. A pub/sub reply for a channel (or pattern) with a callback, when no command waits: the callback gets the reply, once. A confirmed
  subscription lowers its count, a confirmed unsubscription removes the callback when the count is zero, and the connection stops being
  subscribed exactly when the server counts no subscription any more and both tables are empty.\<close>

theorem async_pubsub_delivered:
  assumes "observes cl F G" and "\<forall>n. mem n" and "never_null mal" and "listening ac" and "has ac SUBSCRIBED" and "replies ac = []"
    and "at (reader (ctx ac)) N (encode (pub_reply kind ch x)) c" and "fresh mem c H" and "fits 0 (pub_reply kind ch x)" and "NUL \<notin> set kind"
    and "sub_table (pattern_name kind) ac = Some d" and "sub_map d M" and "M ch = Some cb" and "sub_table (\<not> pattern_name kind) ac = Some o'" and "sub_map o' M'"
    and "verb kind = ''unsubscribe'' \<Longrightarrow> x = Integer n"
  shows "\<exists>ac' d'. redisProcessCallbacks mal mem' cl ac = Some ac' \<and> env ac' = called F (Some (pub_reply kind ch x)) cb (env ac)
    \<and> sub_table (pattern_name kind) ac' = Some d' \<and> sub_map d' (after_reply kind ch cb M)
    \<and> (has ac' SUBSCRIBED \<longleftrightarrow> \<not> (verb kind = ''unsubscribe'' \<and> n = 0 \<and> after_reply kind ch cb M = Map.empty \<and> M' = Map.empty))"
proof -
  have "at (reader (ctx ac)) N (encode (pub_reply kind ch x) @ []) c" using assms(7) by simp
  from process_known[OF assms(1-6) this assms(8-15), where n = n and mem' = mem' and prev = "\<lparr>cfn = None, pending_subs = 0, privdata = 0\<rparr>"] assms(16)
  obtain a c' H' d' where a: "process_while mal mem' cl \<lparr>cfn = None, pending_subs = 0, privdata = 0\<rparr> ac = process_while mal mem' cl (confirmed kind cb) a"
    "at (reader (ctx a)) N [] c'" "fresh mem c' H'" "listening a" "env a = called F (Some (pub_reply kind ch x)) (confirmed kind cb) (env ac)"
    "sub_table (pattern_name kind) a = Some d'" "sub_map d' (after_reply kind ch cb M)"
    "has a SUBSCRIBED \<longleftrightarrow> \<not> (verb kind = ''unsubscribe'' \<and> n = 0 \<and> after_reply kind ch cb M = Map.empty \<and> M' = Map.empty)"
    by metis
  obtain r where "process_while mal mem' cl (confirmed kind cb) a = Some (after_answer a r (replies a) (env a))" using process_done[OF a(4,2,3)] .
  moreover have "called F t (confirmed kind cb) = called F t cb" for t by (rule ext) (simp add: called_def confirmed_def split: option.split)
  moreover have "dead ac = None" using assms(4) by (simp add: listening_def)
  ultimately show ?thesis using a by (simp add: redisProcessCallbacks_def alive_def)
qed

lemma async_pubsub_delivered_witness:
  "\<exists>i d c r e ac'. dictReplace (\<lambda>_. True) fresh_dict ''a'' \<lparr>cfn = Some 7, pending_subs = 0, privdata = 70\<rparr> = Some (i, d)
    \<and> redisReaderCreate (\<lambda>_. True) zero_mal [] = Some (Some c)
    \<and> (let t = encode (pub_reply ''unsubscribe'' ''a'' (Integer 0)) in redisReaderFeed zero_mal c (Some t) (length t) = Some (REDIS_OK, r))
    \<and> redisProcessCallbacks zero_mal (\<lambda>_. True) logging (subscribed_context r e d []) = Some ac'
    \<and> env ac' = [(7, 70, Some (pub_reply ''unsubscribe'' ''a'' (Integer 0)))] \<and> \<not> has ac' SUBSCRIBED"
proof -
  let ?cb = "\<lparr>cfn = Some 7, pending_subs = 0, privdata = 70\<rparr>" and ?rp = "pub_reply ''unsubscribe'' ''a'' (Integer 0)"
  have n: "encode ?rp \<noteq> []" "length (encode ?rp) < 1000"
    using pub_length[of "''unsubscribe''" "''a''" "Integer 0"] by (simp_all add: decimal_def dec.simps CRLF_def del: encode.simps(4))
  obtain r e c i d where s: "redisReaderCreate (\<lambda>_. True) zero_mal [] = Some (Some c)" "redisReaderFeed zero_mal c (Some (encode ?rp)) (length (encode ?rp)) = Some (REDIS_OK, r)"
    "at r (length (encode ?rp)) (encode ?rp) c" "fresh (\<lambda>_. True) c []" "sdsempty zero_mal = Some (Some e)"
    "dictReplace (\<lambda>_. True) fresh_dict ''a'' ?cb = Some (i, d)" "sub_map d [''a'' \<mapsto> ?cb]"
    by (rule start_subscribed[OF n])
  let ?ac = "subscribed_context r e d ([] :: (nat \<times> nat \<times> reply_tree option) list)"
  have w: "verb ''unsubscribe'' = ''unsubscribe''" "\<not> pattern_name ''unsubscribe''" "NUL \<notin> set ''unsubscribe''" by code_simp+
  have at: "at (reader (ctx ?ac)) (length (encode ?rp)) (encode ?rp) c" using s(3) by simp
  have t: "sub_table (pattern_name ''unsubscribe'') ?ac = Some d" "sub_table (\<not> pattern_name ''unsubscribe'') ?ac = Some fresh_dict" using w(2) by (simp_all add: sub_table_def)
  have f: "fits 0 ?rp" by simp
  have q: "verb ''unsubscribe'' = ''unsubscribe'' \<Longrightarrow> Integer 0 = Integer 0" by simp
  have l: "listening ?ac" "has ?ac SUBSCRIBED" "replies ?ac = []" by simp_all
  have mm: "\<forall>n :: nat. (\<lambda>_. True) n" by simp
  have m: "[''a'' \<mapsto> ?cb] ''a'' = Some ?cb" by simp
  obtain ac' where "redisProcessCallbacks zero_mal (\<lambda>_. True) logging ?ac = Some ac'" "env ac' = called (\<lambda>f pd t e. e @ [(f, pd, t)]) (Some ?rp) ?cb (env ?ac)"
    "has ac' SUBSCRIBED \<longleftrightarrow> \<not> (verb ''unsubscribe'' = ''unsubscribe'' \<and> (0 :: int) = 0 \<and> after_reply ''unsubscribe'' ''a'' ?cb [''a'' \<mapsto> ?cb] = Map.empty \<and> (Map.empty :: string \<rightharpoonup> redisCallback) = Map.empty)"
    using async_pubsub_delivered[OF logging_observes mm never_null_zero l at s(4) f w(3) t(1) s(7) m t(2) fresh_sub_map q, where mem' = "\<lambda>_. True"] by blast
  moreover have "after_reply ''unsubscribe'' ''a'' ?cb [''a'' \<mapsto> ?cb] = Map.empty" using w(1) by (simp add: after_reply_def)
  ultimately show ?thesis using s(1,2,6) w(1) unfolding Let_def by (auto simp: called_def simp del: encode.simps)
qed

text \<open>C11. A reply for a channel without a callback that arrives in the same read as one with a callback is given to the callback of the other
  channel: \<^verbatim>\<open>__redisGetSubscribeCallback\<close> leaves the callback of the last round in place.\<close>

theorem async_stale_callback:
  assumes "observes cl F G" and "\<forall>n. mem n" and "never_null mal" and "listening ac" and "has ac SUBSCRIBED" and "replies ac = []"
    and "at (reader (ctx ac)) N (encode (pub_reply ''message'' ch x) @ encode (pub_reply ''message'' ch' y)) c" and "fresh mem c H"
    and "fits 0 (pub_reply ''message'' ch x)" and "fits 0 (pub_reply ''message'' ch' y)"
    and "channels ac = Some d" and "sub_map d M" and "M ch = Some cb" and "M ch' = None" and "patterns ac = Some o'" and "sub_map o' M'"
  shows "\<exists>ac'. redisProcessCallbacks mal mem' cl ac = Some ac'
    \<and> env ac' = called F (Some (pub_reply ''message'' ch' y)) cb (called F (Some (pub_reply ''message'' ch x)) cb (env ac))"
proof -
  have v: "verb ''message'' = ''message''" "\<not> pattern_name ''message''" "NUL \<notin> set ''message''" by code_simp+
  have cf: "confirmed ''message'' cb = cb" "after_reply ''message'' ch cb M = M" using v(1) assms(13) by (auto simp: confirmed_def after_reply_def)
  have t: "sub_table (pattern_name ''message'') ac = Some d" "sub_table (\<not> pattern_name ''message'') ac = Some o'" using v(2) assms(11,15) by (simp_all add: sub_table_def)
  have u: "x = Integer 0" if "verb ''message'' = ''unsubscribe''" using that v(1) by simp
  note k = process_known[OF assms(1-9) v(3) t(1) assms(12,13) t(2) assms(16) u, where mem' = mem' and prev = "\<lparr>cfn = None, pending_subs = 0, privdata = 0\<rparr>", unfolded cf]
  obtain a c1 H1 d1 where a: "process_while mal mem' cl \<lparr>cfn = None, pending_subs = 0, privdata = 0\<rparr> ac = process_while mal mem' cl cb a"
    "at (reader (ctx a)) N (encode (pub_reply ''message'' ch' y)) c1" "fresh mem c1 H1" "listening a" "replies a = []"
    "env a = called F (Some (pub_reply ''message'' ch x)) cb (env ac)" "sub_table (pattern_name ''message'') a = Some d1" "sub_map d1 M"
    and "has a SUBSCRIBED \<longleftrightarrow> \<not> (verb ''message'' = ''unsubscribe'' \<and> (0 :: int) = 0 \<and> M = Map.empty \<and> M' = Map.empty)"
    by (rule k)
  then have a9: "has a SUBSCRIBED" using v(1) by simp
  have "at (reader (ctx a)) N (encode (pub_reply ''message'' ch' y) @ []) c1" using a(2) by simp
  from process_unknown[OF assms(1-3) a(4) a9 a(5) this a(3) assms(10) a(7,8) assms(14), where mem' = mem' and prev = cb]
  obtain b c2 H2 where b: "process_while mal mem' cl cb a = process_while mal mem' cl cb b" "at (reader (ctx b)) N [] c2" "fresh mem c2 H2" "listening b"
    "env b = called F (Some (pub_reply ''message'' ch' y)) cb (env a)" by metis
  obtain r where "process_while mal mem' cl cb b = Some (after_answer b r (replies b) (env b))" using process_done[OF b(4,2,3)] .
  moreover have "dead ac = None" using assms(4) by (simp add: listening_def)
  ultimately show ?thesis using a b by (simp add: redisProcessCallbacks_def alive_def)
qed

lemma async_stale_callback_witness:
  "\<exists>i d c r e ac'. dictReplace (\<lambda>_. True) fresh_dict ''a'' \<lparr>cfn = Some 7, pending_subs = 0, privdata = 70\<rparr> = Some (i, d)
    \<and> redisReaderCreate (\<lambda>_. True) zero_mal [] = Some (Some c)
    \<and> (let t = encode (pub_reply ''message'' ''a'' (Bulk ''1'')) @ encode (pub_reply ''message'' ''b'' (Bulk ''2'')) in redisReaderFeed zero_mal c (Some t) (length t) = Some (REDIS_OK, r))
    \<and> redisProcessCallbacks zero_mal (\<lambda>_. True) logging (subscribed_context r e d []) = Some ac'
    \<and> env ac' = [(7, 70, Some (pub_reply ''message'' ''a'' (Bulk ''1''))), (7, 70, Some (pub_reply ''message'' ''b'' (Bulk ''2'')))]"
proof -
  let ?cb = "\<lparr>cfn = Some 7, pending_subs = 0, privdata = 70\<rparr>" and ?p = "pub_reply ''message'' ''a'' (Bulk ''1'')" and ?q = "pub_reply ''message'' ''b'' (Bulk ''2'')"
  have n: "encode ?p @ encode ?q \<noteq> []" "length (encode ?p @ encode ?q) < 1000"
    using pub_length[of "''message''" "''a''" "Bulk ''1''"] pub_length[of "''message''" "''b''" "Bulk ''2''"] bulk_length[of "''1''"] bulk_length[of "''2''"] by simp_all
  obtain r e c i d where s: "redisReaderCreate (\<lambda>_. True) zero_mal [] = Some (Some c)"
    "redisReaderFeed zero_mal c (Some (encode ?p @ encode ?q)) (length (encode ?p @ encode ?q)) = Some (REDIS_OK, r)"
    "at r (length (encode ?p @ encode ?q)) (encode ?p @ encode ?q) c" "fresh (\<lambda>_. True) c []" "sdsempty zero_mal = Some (Some e)"
    "dictReplace (\<lambda>_. True) fresh_dict ''a'' ?cb = Some (i, d)" "sub_map d [''a'' \<mapsto> ?cb]"
    by (rule start_subscribed[OF n])
  let ?ac = "subscribed_context r e d ([] :: (nat \<times> nat \<times> reply_tree option) list)"
  have at: "at (reader (ctx ?ac)) (length (encode ?p @ encode ?q)) (encode ?p @ encode ?q) c" using s(3) by simp
  have f: "fits 0 ?p" "fits 0 ?q" by simp_all
  have l: "listening ?ac" "has ?ac SUBSCRIBED" "replies ?ac = []" "channels ?ac = Some d" "patterns ?ac = Some fresh_dict" by simp_all
  have mm: "\<forall>n :: nat. (\<lambda>_. True) n" by simp
  have m: "[''a'' \<mapsto> ?cb] ''a'' = Some ?cb" "[''a'' \<mapsto> ?cb] ''b'' = None" by simp_all
  obtain ac' where "redisProcessCallbacks zero_mal (\<lambda>_. True) logging ?ac = Some ac'"
    "env ac' = called (\<lambda>f pd t e. e @ [(f, pd, t)]) (Some ?q) ?cb (called (\<lambda>f pd t e. e @ [(f, pd, t)]) (Some ?p) ?cb (env ?ac))"
    using async_stale_callback[OF logging_observes mm never_null_zero l(1-3) at s(4) f l(4) s(7) m l(5) fresh_sub_map, where mem' = "\<lambda>_. True"] by blast
  then show ?thesis using s(1,2,6) unfolding Let_def by (auto simp: called_def simp del: encode.simps)
qed

subsection \<open>The connect callback\<close>

text \<open>C12. A connect callback that frees the context, as a callback of a reply may: \<^verbatim>\<open>__redisAsyncHandleConnect\<close> runs
  it without marking the context as in a callback, so the context is freed at once, and the event handler that called it goes on to read
  the flags of the freed context.\<close>

theorem async_connect_callback_frees:
  assumes "observes cl' F G" and "\<forall>b. on_status cl f REDIS_OK b = redisAsyncFree cl' b" and "onConnect ac = Some f" and "\<not> has ac CONNECTED"
    and "in_use ac ch pa" and "redisFree (ctx ac) = Some res"
  shows "redisAsyncHandleRead mal mem cl (So_error 0 msg) ac = None \<and> redisAsyncHandleWrite mal cl (So_error 0 msg) ac = None"
proof -
  let ?ac = "set_flag CONNECTED ac"
  have u: "in_use ?ac ch pa" using assms(5) by (simp add: in_use_def)
  have f: "redisFree (ctx ?ac) = Some res" using assms(6) by (simp add: redisFree_def set_flag_def)
  obtain b where "redisAsyncFree cl' ?ac = Some b" "dead b = Some res" using async_frees[OF assms(1) u f] by blast
  then have "connect_first cl (So_error 0 msg) ac = None" using assms(2-4)
    by (simp add: connect_first_def asyncHandleConnect_def redisCheckSocketError_def run_connect_def set_flag_def alive_def)
  then show ?thesis by (simp add: redisAsyncHandleRead_def redisAsyncHandleWrite_def alive_def split: option.splits)
qed

lemma async_connect_callback_frees_witness:
  "\<exists>r e. redisReaderCreate (\<lambda>_. True) zero_mal [] = Some (Some r) \<and>
    (let ac = clear_flag CONNECTED (open_context r e \<lparr>reads = [R_bytes ''+''], writes = [], written = []\<rparr> [])\<lparr>onConnect := Some 4\<rparr>;
       cl = logging\<lparr>on_status := (\<lambda>f st. redisAsyncFree logging)\<rparr>
     in redisAsyncHandleRead zero_mal (\<lambda>_. True) cl (So_error 0 []) ac = None \<and> redisAsyncHandleWrite zero_mal cl (So_error 0 []) ac = None)"
proof -
  obtain r and e :: sdshdr where r: "redisReaderCreate (\<lambda>_. True) zero_mal [] = Some (Some r)" "redisReaderFree r = Some []" using start_reader by metis
  let ?ac = "clear_flag CONNECTED (open_context r e \<lparr>reads = [R_bytes ''+''], writes = [], written = []\<rparr> ([] :: (nat \<times> nat \<times> reply_tree option) list))\<lparr>onConnect := Some 4\<rparr>"
  let ?cl = "logging\<lparr>on_status := (\<lambda>f st. redisAsyncFree logging)\<rparr>"
  have n: "\<not> has ?ac CONNECTED" "\<not> has ?ac IN_CALLBACK" by (simp_all add: has_def clear_flag_def open_context_def bit_unset_bit_iff)
  have u: "in_use ?ac fresh_dict fresh_dict" using n(2) by (simp add: in_use_def clear_flag_def)
  have f: "redisFree (ctx ?ac) = Some (True, [])" using r(2) by (simp add: redisFree_def open_context_def clear_flag_def)
  have s: "\<forall>b. on_status ?cl 4 REDIS_OK b = redisAsyncFree logging b" by simp
  have c: "onConnect ?ac = Some 4" by simp
  show ?thesis using async_connect_callback_frees[OF logging_observes s c n(1) u f, of zero_mal "\<lambda>_. True" "[]"] r(1) unfolding Let_def
    by (intro exI[of _ r] exI[of _ e]) simp
qed

end
