(* ===== verification/Linked.thy ===== *)
theory Linked
  imports Prelude
begin

text \<open>
  \<^verbatim>\<open>0_kmp_and_linkedlist/linkedTest.cpp\<close>: singly linked lists. The nodes live in a memory, a map from addresses; the address
  0 is the null pointer. A node that is deleted leaves the map, so following a pointer to it is \<open>None\<close>, like following the
  null pointer. \<open>al m\<close> is the address that \<^verbatim>\<open>new\<close> returns in the memory \<open>m\<close>. The
  counters of nodes are unbounded: the code's are \<^verbatim>\<open>int\<close>, so the model is that of fewer than 2 ^ 31 nodes.
\<close>

subsection \<open>The code\<close>

datatype MODE = SIMPLE_LIST | LOOP_LIST | CROSS_LIST

record LinkNode =
  node_val :: int
  node_next :: nat

type_synonym nodes = "nat \<rightharpoonup> LinkNode"

record myLink =
  head :: nat
  head2 :: nat
  nodeNum :: int
  list_mode :: MODE

definition node :: "nodes \<Rightarrow> nat \<Rightarrow> LinkNode option" where
  "node m p = (if p = 0 then None else m p)"

definition new_node :: "(nodes \<Rightarrow> nat) \<Rightarrow> int \<Rightarrow> nodes \<Rightarrow> nat \<times> nodes" where
  "new_node al v m = (let q = al m in (q, m(q \<mapsto> \<lparr>node_val = v, node_next = 0\<rparr>)))"

text \<open>\<^verbatim>\<open>p->next = q\<close>\<close>

definition set_next :: "nat \<Rightarrow> nat \<Rightarrow> nodes \<Rightarrow> nodes option" where
  "set_next p q m = node m p \<bind> (\<lambda>c. Some (m(p \<mapsto> c\<lparr>node_next := q\<rparr>)))"

text \<open>The loop of the three builders, from \<open>i\<close> up to \<open>n\<close>: the last node and the memory.\<close>

function build_for :: "(nodes \<Rightarrow> nat) \<Rightarrow> int \<Rightarrow> int \<Rightarrow> nat \<Rightarrow> nodes \<Rightarrow> (nat \<times> nodes) option" where
  "build_for al i n p m =
     (if i < n
      then case new_node al (i * 2) m of (q, m) \<Rightarrow> set_next p q m \<bind> build_for al (i + 1) n q
      else Some (p, m))"
  by auto
termination by (relation "measure (\<lambda>(al, i, n, p, m). nat (n - i))") auto

declare build_for.simps [simp del]

definition nth_next :: "nodes \<Rightarrow> nat \<Rightarrow> nat \<Rightarrow> nat option" where
  "nth_next m n p = ((\<lambda>q. q \<bind> node m \<bind> (\<lambda>c. Some (node_next c))) ^^ n) (Some p)"

definition buildSimpleList :: "(nodes \<Rightarrow> nat) \<Rightarrow> myLink \<Rightarrow> nodes \<Rightarrow> nodes option" where
  "buildSimpleList al l m = build_for al 1 (nodeNum l) (head l) m \<bind> (\<lambda>(p, m). Some m)"

definition buildLoopList :: "(nodes \<Rightarrow> nat) \<Rightarrow> myLink \<Rightarrow> nodes \<Rightarrow> nodes option" where
  "buildLoopList al l m =
     build_for al 1 (nodeNum l) (head l) m \<bind> (\<lambda>(p, m). nth_next m 3 (head l) \<bind> (\<lambda>q. set_next p q m))"

definition buildCrossList :: "(nodes \<Rightarrow> nat) \<Rightarrow> myLink \<Rightarrow> nodes \<Rightarrow> (myLink \<times> nodes) option" where
  "buildCrossList al l m =
     buildSimpleList al l m \<bind> (\<lambda>m. case new_node al 0 m of (h2, m) \<Rightarrow>
       build_for al 1 8 h2 m \<bind> (\<lambda>(p, m). nth_next m 4 (head l) \<bind> (\<lambda>q. set_next p q m \<bind> (\<lambda>m.
         Some (l\<lparr>head2 := h2\<rparr>, m)))))"

text \<open>The constructor.\<close>

definition new_myLink :: "(nodes \<Rightarrow> nat) \<Rightarrow> MODE \<Rightarrow> nodes \<Rightarrow> (myLink \<times> nodes) option" where
  "new_myLink al md m =
     (case new_node al 0 m of (h, m) \<Rightarrow>
        let l = \<lparr>head = h, head2 = 0, nodeNum = 10, list_mode = md\<rparr>
        in case md of
          LOOP_LIST \<Rightarrow> buildLoopList al l m \<bind> (\<lambda>m. Some (l, m))
        | CROSS_LIST \<Rightarrow> buildCrossList al l m
        | SIMPLE_LIST \<Rightarrow> buildSimpleList al l m \<bind> (\<lambda>m. Some (l, m)))"

text \<open>The lines of \<^verbatim>\<open>showList\<close>: the number of a node and its value.\<close>

partial_function (option) show_while :: "nodes \<Rightarrow> int \<Rightarrow> nat \<Rightarrow> (int \<times> int) list option" where
  "show_while m i p =
     (if p = 0 then Some []
      else node m p \<bind> (\<lambda>c. show_while m (i + 1) (node_next c) \<bind> (\<lambda>xs. Some ((i, node_val c) # xs))))"

definition showList :: "nodes \<Rightarrow> myLink \<Rightarrow> (int \<times> int) list option" where
  "showList m l = show_while m 0 (head l)"

text \<open>The two loops of \<^verbatim>\<open>clearList\<close>; the first clears the pointer of the node before it is deleted.\<close>

partial_function (option) clear_nodes :: "bool \<Rightarrow> nat \<Rightarrow> nodes \<Rightarrow> nodes option" where
  "clear_nodes reset p m =
     (if p = 0 then Some m
      else node m p \<bind> (\<lambda>c. (if reset then set_next p 0 m else Some m) \<bind> (\<lambda>m.
        clear_nodes reset (node_next c) (m(p := None)))))"

definition clearList :: "myLink \<Rightarrow> nodes \<Rightarrow> (myLink \<times> nodes) option" where
  "clearList l m = clear_nodes True (head l) m \<bind> clear_nodes False (head2 l) \<bind> (\<lambda>m. Some (l\<lparr>head := 0, head2 := 0\<rparr>, m))"

text \<open>The tortoise (\<open>slow\<close>) and the hare (\<open>fast\<close>).\<close>

partial_function (option) looped_while :: "nodes \<Rightarrow> nat \<Rightarrow> nat \<Rightarrow> bool option" where
  "looped_while m slow fast =
     (if slow \<noteq> 0 \<and> fast \<noteq> 0
      then if slow = fast then Some True
        else node m slow \<bind> (\<lambda>s. node m fast \<bind> (\<lambda>f.
          (if node_next f \<noteq> 0 then node m (node_next f) \<bind> (\<lambda>g. Some (node_next g)) else Some (node_next f)) \<bind> (\<lambda>fast.
            looped_while m (node_next s) fast)))
      else Some False)"

definition isListLooped :: "nodes \<Rightarrow> nat \<Rightarrow> bool option" where
  "isListLooped m h = (if h = 0 then Some False else node m h \<bind> (\<lambda>c. looped_while m h (node_next c)))"

partial_function (option) count_while :: "nodes \<Rightarrow> nat \<Rightarrow> int \<Rightarrow> int option" where
  "count_while m h cnt = (if h = 0 then Some cnt else node m h \<bind> (\<lambda>c. count_while m (node_next c) (cnt + 1)))"

definition countListNodeNum :: "nodes \<Rightarrow> nat \<Rightarrow> int option" where
  "countListNodeNum m h = count_while m h 0"

function nth_while :: "nodes \<Rightarrow> nat \<Rightarrow> int \<Rightarrow> int \<Rightarrow> nat option" where
  "nth_while m h i n = (if h \<noteq> 0 \<and> i < n then node m h \<bind> (\<lambda>c. nth_while m (node_next c) (i + 1) n) else Some h)"
  by auto
termination by (relation "measure (\<lambda>(m, h, i, n). nat (n - i))") auto

declare nth_while.simps [simp del]

definition getNthNode :: "nodes \<Rightarrow> nat \<Rightarrow> int \<Rightarrow> nat option" where
  "getNthNode m h n = nth_while m h 0 n"

partial_function (option) crossed_while :: "nodes \<Rightarrow> nat \<Rightarrow> nat \<Rightarrow> nat option" where
  "crossed_while m h1 h2 =
     (if h1 \<noteq> 0 \<and> h2 \<noteq> 0
      then if h1 = h2 then Some h1
        else node m h1 \<bind> (\<lambda>c1. node m h2 \<bind> (\<lambda>c2. crossed_while m (node_next c1) (node_next c2)))
      else Some 0)"

definition isListCrossed :: "nodes \<Rightarrow> nat \<Rightarrow> nat \<Rightarrow> nat option" where
  "isListCrossed m h1 h2 =
     countListNodeNum m h1 \<bind> (\<lambda>n1. countListNodeNum m h2 \<bind> (\<lambda>n2.
       if n1 > n2 then getNthNode m h1 (n1 - n2) \<bind> (\<lambda>h1. crossed_while m h1 h2)
       else getNthNode m h2 (n2 - n1) \<bind> (\<lambda>h2. crossed_while m h1 h2)))"

partial_function (option) rfind_while :: "nodes \<Rightarrow> nat \<Rightarrow> nat \<Rightarrow> nat option" where
  "rfind_while m tail h =
     node m tail \<bind> (\<lambda>t. if node_next t \<noteq> 0 then node m h \<bind> (\<lambda>c. rfind_while m (node_next t) (node_next c)) else Some h)"

definition rfindNodeNo :: "nodes \<Rightarrow> nat \<Rightarrow> int \<Rightarrow> nat option" where
  "rfindNodeNo m h k =
     (if k \<le> 0 then Some 0
      else getNthNode m h (k - 1) \<bind> (\<lambda>tail. if tail = 0 then Some 0 else rfind_while m tail h))"

partial_function (option) reverse_loop :: "nat \<Rightarrow> nat \<Rightarrow> nodes \<Rightarrow> (nat \<times> nodes) option" where
  "reverse_loop prv current m =
     (if current = 0 then Some (prv, m)
      else node m current \<bind> (\<lambda>c. set_next current prv m \<bind> (\<lambda>m. reverse_loop current (node_next c) m)))"

definition reverseList :: "nat \<Rightarrow> nodes \<Rightarrow> (nat \<times> nodes) option" where
  "reverseList h m = reverse_loop 0 h m"

end
