(* ===== verification/Linked_Laws.thy ===== *)
theory Linked_Laws
  imports Linked
begin

text \<open>
  Lists in the memory as lists of addresses, and every operation of \<^verbatim>\<open>linkedTest.cpp\<close> on them; the orbit of a
  pointer, which decides whether the tortoise and the hare meet; the memories that the builders leave.
\<close>

subsection \<open>Lists in a memory\<close>

text \<open>\<open>chain m p xs q\<close>: the nodes \<open>xs\<close> follow each other from \<open>p\<close> on, the last one points to \<open>q\<close>.\<close>

fun chain :: "nodes \<Rightarrow> nat \<Rightarrow> nat list \<Rightarrow> nat \<Rightarrow> bool" where
  "chain m p [] q \<longleftrightarrow> p = q"
| "chain m p (x # xs) q \<longleftrightarrow> p = x \<and> (\<exists>c. node m x = Some c \<and> chain m (node_next c) xs q)"

abbreviation (input) linked :: "nodes \<Rightarrow> nat \<Rightarrow> nat list \<Rightarrow> bool" where
  "linked m p xs \<equiv> chain m p xs 0"

lemma node_pos [dest]: "node m p = Some c \<Longrightarrow> p \<noteq> 0"
  by (auto simp: node_def split: if_splits)

lemma node_0 [simp]: "node m 0 = None"
  by (simp add: node_def)

lemma node_upd: "node (m(q := x)) p = (if p = q \<and> p \<noteq> 0 then x else node m p)"
  by (simp add: node_def)

lemma chain_append: "chain m p (xs @ ys) q \<longleftrightarrow> (\<exists>r. chain m p xs r \<and> chain m r ys q)"
  by (induction xs arbitrary: p) auto

lemma chain_null [simp]: "chain m 0 xs q \<longleftrightarrow> xs = [] \<and> q = 0"
  by (cases xs) auto

lemma chain_frame: "(\<And>x. x \<in> set xs \<Longrightarrow> node m' x = node m x) \<Longrightarrow> chain m' p xs q \<longleftrightarrow> chain m p xs q"
  by (induction xs arbitrary: p) auto

lemma chain_upd [simp]: "x \<notin> set xs \<Longrightarrow> chain (m(x := v)) p xs q \<longleftrightarrow> chain m p xs q"
  by (rule chain_frame) (auto simp: node_upd)

lemma chain_restrict: "set xs \<inter> A = {} \<Longrightarrow> chain (m |` (- A)) p xs q \<longleftrightarrow> chain m p xs q"
  by (rule chain_frame) (auto simp: node_def restrict_map_def)

lemma chain_nodes: "chain m p xs q \<Longrightarrow> x \<in> set xs \<Longrightarrow> \<exists>c. node m x = Some c"
  by (induction xs arbitrary: p) auto

lemma linked_unique: "linked m p xs \<Longrightarrow> linked m p ys \<Longrightarrow> xs = ys"
proof (induction xs arbitrary: p ys)
  case (Cons x xs)
  then show ?case by (cases ys) auto
qed auto

text \<open>From a node of a list on, the list is the same whatever it was entered by; so no node is met twice.\<close>

lemma linked_split: "linked m p (as @ x # zs) \<Longrightarrow> linked m x (x # zs)"
  by (auto simp: chain_append)

lemma linked_distinct: "linked m p xs \<Longrightarrow> distinct xs"
proof (induction xs arbitrary: p)
  case (Cons x xs)
  have "x \<notin> set xs"
  proof
    assume "x \<in> set xs"
    then obtain as bs where s: "xs = as @ x # bs" by (meson split_list)
    have "linked m x (x # bs)" using Cons.prems linked_split[of m p "x # as" x bs] s by simp
    then have "x # xs = x # bs" using Cons.prems linked_unique by auto
    then have "length xs = length bs" by simp
    then show False using s by simp
  qed
  then show ?case using Cons by auto
qed simp


lemmas list_loops = show_while.simps clear_nodes.simps looped_while.simps count_while.simps nth_while.simps crossed_while.simps
  rfind_while.simps reverse_loop.simps

subsection \<open>The operations on lists that end\<close>

lemma show_while_linked: "linked m p xs \<Longrightarrow> show_while m i p = Some (zip (map (\<lambda>k. i + int k) [0..<length xs]) (map (node_val \<circ> the \<circ> node m) xs))"
proof (induction xs arbitrary: i p)
  case (Cons x xs)
  then obtain c where c: "p = x" "node m x = Some c" "linked m (node_next c) xs" by auto
  have "map (\<lambda>k. i + int k) [0..<length (x # xs)] = i # map (\<lambda>k. (i + 1) + int k) [0..<length xs]"
    by (simp add: map_upt_Suc del: upt_Suc)
  then show ?case using c Cons.IH[OF c(3), of "i + 1"] by (subst show_while.simps) (auto simp: comp_def simp del: upt_Suc)
qed (simp add: show_while.simps)

lemma count_while_linked: "linked m p xs \<Longrightarrow> count_while m p n = Some (n + int (length xs))"
  by (induction xs arbitrary: p n) (auto simp: count_while.simps)

lemma countListNodeNum_linked: "linked m p xs \<Longrightarrow> countListNodeNum m p = Some (int (length xs))"
  by (simp add: countListNodeNum_def count_while_linked)

lemma nth_while_linked: "linked m p xs \<Longrightarrow> \<exists>q. nth_while m p i n = Some q \<and> linked m q (drop (nat (n - i)) xs)"
proof (induction xs arbitrary: p i)
  case (Cons x xs)
  then obtain c where c: "p = x" "node m x = Some c" "linked m (node_next c) xs" by auto
  show ?case
  proof (cases "i < n")
    case True
    then have "nat (n - i) = Suc (nat (n - (i + 1)))" by simp
    then show ?thesis using True c Cons.IH[OF c(3), of "i + 1"] by (subst nth_while.simps) auto
  qed (use Cons.prems in \<open>simp add: nth_while.simps\<close>)
qed (simp add: nth_while.simps)

lemma getNthNode_linked:
  assumes "linked m p xs"
  obtains q where "getNthNode m p n = Some q" "linked m q (drop (nat n) xs)"
  using nth_while_linked[OF assms, of 0 n] by (auto simp: getNthNode_def)

lemma linked_first: "linked m p xs \<Longrightarrow> p = (case xs of [] \<Rightarrow> 0 | x # _ \<Rightarrow> x)"
  by (cases xs) auto


lemma linked_nth: "linked m p xs \<Longrightarrow> i < length xs \<Longrightarrow> linked m (xs ! i) (drop i xs)"
  using linked_split[of m p "take i xs" "xs ! i" "drop (Suc i) xs"] by (simp add: id_take_nth_drop[symmetric] Cons_nth_drop_Suc)

text \<open>Two lists that share a node share it at the same distance from their ends.\<close>

lemma shared_distance:
  assumes "linked m p xs" "linked m q ys" "i < length xs" "j < length ys" "xs ! i = ys ! j"
  shows "length xs - i = length ys - j"
proof -
  have "drop i xs = drop j ys" using linked_nth[OF assms(1,3)] linked_nth[OF assms(2,4)] assms(5) linked_unique by metis
  then show ?thesis by (metis length_drop)
qed

lemma crossed_while_linked:
  assumes "linked m p xs" "linked m q ys" "length xs = length ys"
  shows "crossed_while m p q = Some (case find (\<lambda>x. x \<in> set ys) xs of None \<Rightarrow> 0 | Some z \<Rightarrow> z)"
  using assms
proof (induction xs arbitrary: p q ys)
  case Nil
  then show ?case by (simp add: crossed_while.simps)
next
  case (Cons x xs)
  then obtain y ys' where ys: "ys = y # ys'" by (cases ys) auto
  show ?case
  proof (cases "x = y")
    case True
    then show ?thesis using Cons.prems ys by (subst crossed_while.simps) auto
  next
    case False
    have "x \<notin> set ys'"
    proof
      assume "x \<in> set ys'"
      then obtain j where j: "j < length ys'" "x = ys' ! j" by (auto simp: in_set_conv_nth)
      then show False using shared_distance[OF Cons.prems(1,2), of 0 "Suc j"] Cons.prems(3) ys by simp
    qed
    moreover have "y \<notin> set xs"
    proof
      assume "y \<in> set xs"
      then obtain j where j: "j < length xs" "y = xs ! j" by (auto simp: in_set_conv_nth)
      then show False using shared_distance[OF Cons.prems(1,2), of "Suc j" 0] Cons.prems(3) ys by simp
    qed
    ultimately have "find (\<lambda>u. u \<in> set ys) (x # xs) = find (\<lambda>u. u \<in> set ys') xs" using ys False by (auto intro: find_cong)
    moreover obtain c d where "node m x = Some c" "linked m (node_next c) xs" "node m y = Some d" "linked m (node_next d) ys'" "p = x" "q = y"
      using Cons.prems ys by auto
    ultimately show ?thesis using Cons.IH[of "node_next c" "node_next d" ys'] Cons.prems(3) ys False by (subst crossed_while.simps) auto
  qed
qed

text \<open>The nodes that the longer list has in front are not in the other list.\<close>

lemma front_not_shared:
  assumes "linked m p xs" "linked m q ys" "x \<in> set (take (length xs - length ys) xs)"
  shows "x \<notin> set ys"
proof
  assume "x \<in> set ys"
  then obtain j where j: "j < length ys" "x = ys ! j" by (auto simp: in_set_conv_nth)
  obtain i where i: "i < length xs - length ys" "x = xs ! i" using assms(3) by (auto simp: in_set_conv_nth)
  then have "i < length xs" by simp
  then show False using shared_distance[OF assms(1,2), of i j] i j by simp
qed

lemma find_append: "find P (xs @ ys) = (case find P xs of None \<Rightarrow> find P ys | Some z \<Rightarrow> Some z)"
  by (induction xs) auto

lemma isListCrossed_linked:
  assumes "linked m p xs" "linked m q ys"
  shows "isListCrossed m p q = Some (case find (\<lambda>x. x \<in> set ys) xs of None \<Rightarrow> 0 | Some z \<Rightarrow> z)"
proof -
  let ?d = "length xs - length ys" and ?e = "length ys - length xs"
  show ?thesis
  proof (cases "length ys < length xs")
    case True
    have n: "nat (int (length xs) - int (length ys)) = ?d" by simp
    obtain p' where p': "getNthNode m p (int (length xs) - int (length ys)) = Some p'" "linked m p' (drop ?d xs)"
      using getNthNode_linked[OF assms(1), of "int (length xs) - int (length ys)"] unfolding n by blast
    have "find (\<lambda>x. x \<in> set ys) (take ?d xs) = None" using front_not_shared[OF assms] by (auto simp: find_None_iff)
    then have "find (\<lambda>x. x \<in> set ys) xs = find (\<lambda>x. x \<in> set ys) (drop ?d xs)"
      using find_append[of "\<lambda>x. x \<in> set ys" "take ?d xs" "drop ?d xs"] by simp
    then show ?thesis using True p' crossed_while_linked[OF p'(2) assms(2)] assms
      by (simp add: isListCrossed_def countListNodeNum_linked)
  next
    case False
    have n: "nat (int (length ys) - int (length xs)) = ?e" by simp
    obtain q' where q': "getNthNode m q (int (length ys) - int (length xs)) = Some q'" "linked m q' (drop ?e ys)"
      using getNthNode_linked[OF assms(2), of "int (length ys) - int (length xs)"] unfolding n by blast
    have "x \<in> set ys \<longleftrightarrow> x \<in> set (drop ?e ys)" if "x \<in> set xs" for x
      using front_not_shared[OF assms(2,1), of x] that by (metis UnE append_take_drop_id in_set_dropD set_append)
    then have "find (\<lambda>x. x \<in> set ys) xs = find (\<lambda>x. x \<in> set (drop ?e ys)) xs" by (intro find_cong) auto
    then show ?thesis using False q' crossed_while_linked[OF assms(1) q'(2)] assms
      by (simp add: isListCrossed_def countListNodeNum_linked)
  qed
qed

lemma rfind_while_linked:
  "linked m tail (t # ts) \<Longrightarrow> linked m h xs \<Longrightarrow> length ts < length xs \<Longrightarrow> rfind_while m tail h = Some (xs ! length ts)"
proof (induction ts arbitrary: tail t h xs)
  case Nil
  then show ?case by (cases xs) (auto simp: rfind_while.simps)
next
  case (Cons u ts)
  then obtain x xs' c where x: "xs = x # xs'" "h = x" "node m x = Some c" "linked m (node_next c) xs'" by (cases xs) auto
  obtain d where "node m tail = Some d" "linked m (node_next d) (u # ts)" using Cons.prems(1) by auto
  then show ?case using Cons.IH[of "node_next d" u "node_next c" xs'] x Cons.prems(3) by (subst rfind_while.simps) auto
qed

lemma rfindNodeNo_linked:
  assumes "linked m h xs"
  shows "rfindNodeNo m h k = Some (if 0 < k \<and> k \<le> int (length xs) then xs ! (length xs - nat k) else 0)"
proof (cases "0 < k")
  case True
  obtain q where q: "getNthNode m h (k - 1) = Some q" "linked m q (drop (nat (k - 1)) xs)" using getNthNode_linked[OF assms] .
  show ?thesis
  proof (cases "k \<le> int (length xs)")
    case False
    then show ?thesis using True q by (simp add: rfindNodeNo_def)
  next
    case le: True
    then obtain t ts where t: "drop (nat (k - 1)) xs = t # ts" using True by (cases "drop (nat (k - 1)) xs") auto
    moreover have "length ts = length xs - nat k" using arg_cong[OF t, of length] True le by simp
    ultimately show ?thesis using True le q rfind_while_linked[of m q t ts h xs] assms by (auto simp: rfindNodeNo_def)
  qed
qed (simp add: rfindNodeNo_def)


lemma set_next_node: "node m p = Some c \<Longrightarrow> set_next p q m = Some (m(p \<mapsto> c\<lparr>node_next := q\<rparr>))"
  by (simp add: set_next_def)

text \<open>Reversing keeps the values and everything that is not a node of the list.\<close>

lemma reverse_loop_linked:
  assumes "linked m p xs" "linked m r ys" "distinct xs" "set xs \<inter> set ys = {}"
  shows "\<exists>q m'. reverse_loop r p m = Some (q, m') \<and> linked m' q (rev xs @ ys)
    \<and> (\<forall>x. x \<notin> set xs \<longrightarrow> m' x = m x) \<and> (\<forall>x. map_option node_val (m' x) = map_option node_val (m x))"
  using assms
proof (induction xs arbitrary: p r ys m)
  case Nil
  then show ?case by (simp add: reverse_loop.simps)
next
  case (Cons x xs)
  obtain c where c: "p = x" "node m x = Some c" "linked m (node_next c) xs" using Cons.prems(1) by auto
  let ?m = "m(x \<mapsto> c\<lparr>node_next := r\<rparr>)"
  have x: "x \<noteq> 0" "m x = Some c" using c(2) by (auto simp: node_def split: if_splits)
  have "linked ?m (node_next c) xs" "linked ?m r ys"
    using c(3) Cons.prems(2-4) by simp_all
  then have l: "linked ?m (node_next c) xs" "linked ?m x (x # ys)" "distinct xs" "set xs \<inter> set (x # ys) = {}"
    using x(1) Cons.prems(3,4) by (simp_all add: node_upd)
  obtain q m' where "reverse_loop x (node_next c) ?m = Some (q, m')" "linked m' q (rev xs @ x # ys)"
    "\<forall>u. u \<notin> set xs \<longrightarrow> m' u = ?m u" "\<forall>u. map_option node_val (m' u) = map_option node_val (?m u)"
    using Cons.IH[OF l] by blast
  then show ?case using c x set_next_node[OF c(2), of r] by (subst reverse_loop.simps) auto
qed

text \<open>Deleting the nodes of a path: afterwards only the rest of the memory is there.\<close>

lemma clear_nodes_chain:
  "chain m p xs q \<Longrightarrow> distinct xs \<Longrightarrow> clear_nodes reset p m = clear_nodes reset q (m |` (- set xs))"
proof (induction xs arbitrary: p m)
  case (Cons x xs)
  obtain c where c: "p = x" "node m x = Some c" "chain m (node_next c) xs q" using Cons.prems(1) by auto
  let ?m = "m(x := None)"
  have "chain ?m (node_next c) xs q" using c(3) Cons.prems(2) by simp
  then have "clear_nodes reset (node_next c) ?m = clear_nodes reset q (?m |` (- set xs))" by (rule Cons.IH) (use Cons.prems(2) in simp)
  moreover have "?m |` (- set xs) = m |` (- set (x # xs))" by (auto simp: restrict_map_def fun_eq_iff)
  moreover have "clear_nodes reset p m = clear_nodes reset (node_next c) ?m"
    using c set_next_node[OF c(2), of 0] by (subst clear_nodes.simps) auto
  ultimately show ?case by simp
qed (simp add: restrict_map_def)

lemma clear_nodes_linked: "linked m p xs \<Longrightarrow> clear_nodes reset p m = Some (m |` (- set xs))"
  using clear_nodes_chain[of m p xs 0 reset] linked_distinct[of m p xs] by (simp add: clear_nodes.simps)

text \<open>A path that comes back to a node of its own, or leads to a node that was deleted before, is followed into freed memory.\<close>

lemma clear_nodes_freed: "q \<noteq> 0 \<Longrightarrow> m q = None \<Longrightarrow> clear_nodes reset q m = None"
  by (simp add: clear_nodes.simps[of reset q m] node_def)

lemma clear_nodes_loop: "chain m p xs q \<Longrightarrow> distinct xs \<Longrightarrow> q \<in> set xs \<Longrightarrow> clear_nodes reset p m = None"
  using clear_nodes_chain[of m p xs q reset] clear_nodes_freed[of q "m |` (- set xs)" reset] chain_nodes[of m p xs q q] by auto

subsection \<open>The tortoise and the hare\<close>

definition nx :: "nodes \<Rightarrow> nat \<Rightarrow> nat" where
  "nx m p = (case node m p of None \<Rightarrow> 0 | Some c \<Rightarrow> node_next c)"

text \<open>The node \<open>n\<close> steps behind \<open>h\<close>, the null pointer behind the end.\<close>

definition follow :: "nodes \<Rightarrow> nat \<Rightarrow> nat \<Rightarrow> nat" where
  "follow m h n = (nx m ^^ n) h"

text \<open>No pointer dangles: every pointer from a node is null or leads to a node.\<close>

definition no_dangling :: "nodes \<Rightarrow> nat \<Rightarrow> bool" where
  "no_dangling m h \<longleftrightarrow> (\<forall>p\<in>insert h (node_next ` ran m). p = 0 \<or> p \<in> dom m)"

lemma follow_Suc [simp]: "follow m h (Suc n) = nx m (follow m h n)"
  by (simp add: follow_def)

lemma follow_0 [simp]: "follow m h 0 = h"
  by (simp add: follow_def)

lemma nx_0 [simp]: "nx m 0 = 0"
  by (simp add: nx_def)

lemma follow_add: "follow m h (a + b) = follow m (follow m h a) b"
  by (simp add: follow_def funpow_add add.commute[of a b])

lemma follow_end: "follow m h n = 0 \<Longrightarrow> n \<le> k \<Longrightarrow> follow m h k = 0"
  by (induction k) (auto simp: le_Suc_eq)

lemma node_follow: "no_dangling m h \<Longrightarrow> follow m h n \<noteq> 0 \<Longrightarrow> \<exists>c. node m (follow m h n) = Some c \<and> node_next c = follow m h (Suc n)"
proof -
  assume d: "no_dangling m h"
  have "follow m h n = 0 \<or> follow m h n \<in> dom m"
  proof (induction n)
    case 0
    show ?case using d by (simp add: no_dangling_def)
  next
    case (Suc n)
    have "node_next c = 0 \<or> node_next c \<in> dom m" if "m p = Some c" for p c using d that ranI[of m p c] unfolding no_dangling_def by blast
    then show ?case by (auto simp: nx_def node_def split: option.split)
  qed
  then show "follow m h n \<noteq> 0 \<Longrightarrow> ?thesis" by (auto simp: nx_def node_def)
qed

lemma looped_step:
  assumes "no_dangling m h"
  shows "looped_while m (follow m h k) (follow m h (2 * k + 1)) =
    (if follow m h k \<noteq> 0 \<and> follow m h (2 * k + 1) \<noteq> 0
     then if follow m h k = follow m h (2 * k + 1) then Some True else looped_while m (follow m h (Suc k)) (follow m h (2 * Suc k + 1))
     else Some False)"
proof (cases "follow m h k \<noteq> 0 \<and> follow m h (2 * k + 1) \<noteq> 0 \<and> follow m h k \<noteq> follow m h (2 * k + 1)")
  case True
  obtain s where s: "node m (follow m h k) = Some s" "node_next s = follow m h (Suc k)" using node_follow[OF assms] True by blast
  obtain f where f: "node m (follow m h (2 * k + 1)) = Some f" "node_next f = follow m h (2 * k + 2)" using node_follow[OF assms, of "2 * k + 1"] True by auto
  have "(if node_next f \<noteq> 0 then node m (node_next f) \<bind> (\<lambda>g. Some (node_next g)) else Some (node_next f)) = Some (follow m h (2 * Suc k + 1))"
  proof (cases "node_next f = 0")
    case False
    then obtain g where "node m (follow m h (2 * k + 2)) = Some g" "node_next g = follow m h (Suc (2 * k + 2))"
      using node_follow[OF assms, of "2 * k + 2"] f(2) by auto
    then show ?thesis using False f(2) by simp
  next
    case True
    have "follow m h (2 * Suc k + 1) = nx m (follow m h (2 * k + 2))" by simp
    then show ?thesis using True f(2) by (simp del: follow_Suc)
  qed
  then show ?thesis using True s f(1) by (subst looped_while.simps) (simp del: follow_Suc)
qed (subst looped_while.simps, auto)

lemma looped_meets:
  assumes "no_dangling m h" "\<forall>n. follow m h n \<noteq> 0" "follow m h (j + d) = follow m h (2 * (j + d) + 1)"
  shows "looped_while m (follow m h j) (follow m h (2 * j + 1)) = Some True"
  using assms(3)
proof (induction d arbitrary: j)
  case 0
  then show ?case using looped_step[OF assms(1), of j] assms(2) by (simp del: follow_Suc)
next
  case (Suc d)
  then have "looped_while m (follow m h (Suc j)) (follow m h (2 * Suc j + 1)) = Some True" using Suc.IH[of "Suc j"] by (simp del: follow_Suc)
  then show ?case using looped_step[OF assms(1), of j] assms(2) by (simp del: follow_Suc)
qed

lemma looped_ends:
  assumes "no_dangling m h" "follow m h (j + d) = 0"
  shows "looped_while m (follow m h j) (follow m h (2 * j + 1)) = Some False"
  using assms(2)
proof (induction d arbitrary: j)
  case 0
  then show ?case using looped_step[OF assms(1), of j] by simp
next
  case (Suc d)
  have "follow m h j \<noteq> follow m h (2 * j + 1)" if "follow m h j \<noteq> 0"
  proof
    assume e: "follow m h j = follow m h (2 * j + 1)"
    have "follow m h (j + i * (j + 1)) = follow m h j" for i
    proof (induction i)
      case (Suc i)
      have "follow m h (j + Suc i * (j + 1)) = follow m (follow m h (j + i * (j + 1))) (j + 1)" by (simp add: follow_add[symmetric] algebra_simps)
      also have "\<dots> = follow m h (j + (j + 1))" using Suc follow_add[of m h j "j + 1"] by simp
      also have "\<dots> = follow m h j" using e by (simp add: mult_2)
      finally show ?case .
    qed simp
    from this[of "Suc d"] show False using follow_end[OF Suc.prems, of "j + Suc d * (j + 1)"] that by simp
  qed
  moreover have "looped_while m (follow m h (Suc j)) (follow m h (2 * Suc j + 1)) = Some False" using Suc.IH[of "Suc j"] Suc.prems by (simp del: follow_Suc)
  ultimately show ?case using looped_step[OF assms(1), of j] by (auto simp del: follow_Suc)
qed

lemma follow_repeats:
  assumes "finite (dom m)" "no_dangling m h" "\<forall>n. follow m h n \<noteq> 0"
  obtains k where "follow m h k = follow m h (2 * k + 1)"
proof -
  have "range (follow m h) \<subseteq> dom m" using node_follow[OF assms(2)] assms(3) by (fastforce simp: node_def split: if_splits)
  then have "\<not> inj (follow m h)" using assms(1) finite_imageD[of "follow m h" UNIV] by (auto dest: finite_subset)
  then obtain a b where ab: "follow m h a = follow m h b" "a < b" by (metis injI linorder_neqE_nat)
  define c where "c = b - a"
  have c: "0 < c" "follow m h (a + c) = follow m h a" using ab by (simp_all add: c_def)
  have p: "follow m h (a + e + i * c) = follow m h (a + e)" for e i
  proof (induction i)
    case (Suc i)
    have "follow m h (a + e + Suc i * c) = follow m h ((a + c) + (e + i * c))" by (simp add: algebra_simps)
    also have "\<dots> = follow m (follow m h a) (e + i * c)" using c(2) by (simp only: follow_add[of m h "a + c"])
    also have "\<dots> = follow m h (a + e + i * c)" by (simp add: follow_add[symmetric] add.assoc)
    finally show ?case using Suc by simp
  qed simp
  define k where "k = Suc a * c - 1"
  have "Suc a * c \<ge> Suc a" using c(1) mult_le_mono2[of 1 c "Suc a"] by simp
  then have "k = a + (k - a)" "2 * k + 1 = a + (k - a) + Suc a * c" by (simp_all add: k_def)
  then have "follow m h k = follow m h (2 * k + 1)" using p[of "k - a" "Suc a"] by metis
  then show thesis using that by blast
qed

lemma isListLooped_decides:
  assumes "finite (dom m)" "no_dangling m h"
  shows "isListLooped m h = Some (\<forall>n. follow m h n \<noteq> 0)"
proof (cases "h = 0")
  case True
  then have "follow m h 0 = 0" by simp
  then show ?thesis using True by (auto simp: isListLooped_def simp del: follow_0)
next
  case False
  then obtain c where c: "node m h = Some c" "node_next c = follow m h 1" using node_follow[OF assms(2), of 0] by auto
  have w: "isListLooped m h = looped_while m (follow m h 0) (follow m h (2 * 0 + 1))" using c False by (simp add: isListLooped_def)
  show ?thesis
  proof (cases "\<forall>n. follow m h n \<noteq> 0")
    case True
    obtain k where "follow m h k = follow m h (2 * k + 1)" using follow_repeats[OF assms True] .
    then have "isListLooped m h = Some True" unfolding w using looped_meets[OF assms(2) True, of 0 k] by (simp del: follow_Suc)
    then show ?thesis using True by simp
  next
    case ends: False
    then obtain n where "follow m h n = 0" by blast
    then have "isListLooped m h = Some False" unfolding w using looped_ends[OF assms(2), of 0 n] by (simp del: follow_Suc)
    then show ?thesis using ends by simp
  qed
qed


subsection \<open>Building\<close>

definition good_new :: "(nodes \<Rightarrow> nat) \<Rightarrow> bool" where
  "good_new al \<longleftrightarrow> (\<forall>m. finite (dom m) \<longrightarrow> al m \<noteq> 0 \<and> al m \<notin> dom m)"

abbreviation vals :: "nodes \<Rightarrow> nat list \<Rightarrow> int list" where
  "vals m xs \<equiv> map (\<lambda>x. node_val (the (m x))) xs"

text \<open>\<open>grown m m' xs\<close>: \<open>m'\<close> is \<open>m\<close> with the new nodes \<open>xs\<close>.\<close>

definition grown :: "nodes \<Rightarrow> nodes \<Rightarrow> nat list \<Rightarrow> bool" where
  "grown m m' xs \<longleftrightarrow> distinct xs \<and> set xs \<inter> dom m = {} \<and> finite (dom m') \<and> (\<forall>x. x \<notin> set xs \<longrightarrow> m' x = m x)"

lemma grown_restrict: "grown m m' xs \<Longrightarrow> m' |` (- set xs) = m"
  by (rule ext) (auto simp: grown_def restrict_map_def domIff disjoint_iff)

lemma new_node_gives:
  assumes "good_new al" "finite (dom m)"
  obtains q m' where "new_node al v m = (q, m')" "q \<noteq> 0" "node m' q = Some \<lparr>node_val = v, node_next = 0\<rparr>" "grown m m' [q]" "dom m' = insert q (dom m)"
  using assms that[of "al m"] by (auto simp: new_node_def Let_def good_new_def node_def grown_def)

lemma build_for_gives:
  assumes "good_new al" "finite (dom m)" "node m p = Some c" "node_next c = 0"
  shows "\<exists>xs m'. build_for al i n p m = Some (last (p # xs), m') \<and> linked m' p (p # xs) \<and> length xs = nat (n - i) \<and> p \<notin> set xs
    \<and> grown (m(p := None)) m' (p # xs) \<and> set xs \<inter> dom m = {} \<and> vals m' (p # xs) = node_val c # map (\<lambda>j. (i + int j) * 2) [0..<length xs]"
  using assms(2-4)
proof (induction "nat (n - i)" arbitrary: i p m c)
  case 0
  then have "build_for al i n p m = Some (p, m)" by (simp add: build_for.simps)
  then show ?case using 0 by (intro exI[of _ "[]"]) (auto simp: grown_def node_def split: if_splits)
next
  case (Suc k)
  obtain q m1 where q: "new_node al (i * 2) m = (q, m1)" "q \<noteq> 0" "node m1 q = Some \<lparr>node_val = i * 2, node_next = 0\<rparr>" "grown m m1 [q]" "dom m1 = insert q (dom m)"
    using new_node_gives[OF assms(1) Suc.prems(1)] .
  have p: "p \<noteq> 0" "m p = Some c" "p \<noteq> q" using Suc.prems(2) q(4) by (auto simp: grown_def node_def split: if_splits)
  have p1: "node m1 p = Some c" using p q(4) by (simp add: grown_def node_def)
  let ?m = "m1(p \<mapsto> c\<lparr>node_next := q\<rparr>)"
  have s: "set_next p q m1 = Some ?m" using p1 by (rule set_next_node)
  have f: "finite (dom ?m)" using q(4) by (simp add: grown_def)
  have nq: "node ?m q = Some \<lparr>node_val = i * 2, node_next = 0\<rparr>" using q(3) p(3) by (simp add: node_upd)
  have k: "k = nat (n - (i + 1))" using Suc.hyps(2) by simp
  obtain xs m' where x: "build_for al (i + 1) n q ?m = Some (last (q # xs), m')" "linked m' q (q # xs)" "length xs = nat (n - (i + 1))" "q \<notin> set xs"
    "grown (?m(q := None)) m' (q # xs)" "set xs \<inter> dom ?m = {}" "vals m' (q # xs) = i * 2 # map (\<lambda>j. (i + 1 + int j) * 2) [0..<length xs]"
    using Suc.hyps(1)[OF k f nq] by auto
  have m': "m' p = Some (c\<lparr>node_next := q\<rparr>)" using x(5,6) p by (auto simp: grown_def)
  have "build_for al i n p m = Some (last (p # q # xs), m')" using q(1) s x(1) Suc.hyps(2) by (subst build_for.simps) (cases "i < n", simp_all)
  moreover have "linked m' p (p # q # xs)" using m' x(2) p by (auto simp: node_def)
  moreover have "length (q # xs) = nat (n - i)" using x(3) Suc.hyps(2) by simp
  moreover have "grown (m(p := None)) m' (p # q # xs)" "p \<notin> set (q # xs)" "set (q # xs) \<inter> dom m = {}"
    using x(4-6) q(4,5) p by (auto simp: grown_def)
  moreover have "vals m' (p # q # xs) = node_val c # map (\<lambda>j. (i + int j) * 2) [0..<length (q # xs)]"
    using x(7) m' by (simp add: map_upt_Suc add.assoc del: upt_Suc)
  ultimately show ?case by (intro exI[of _ "q # xs"] exI[of _ m'] conjI)
qed

text \<open>A node that is in the memory is the head of a list that grows behind it.\<close>

lemma build_list:
  assumes "good_new al" "finite (dom m)"
  obtains h m1 xs m' where "new_node al 0 m = (h, m1)" "build_for al 1 n h m1 = Some (last xs, m')" "linked m' h xs" "length xs = Suc (nat (n - 1))"
    "grown m m' xs" "vals m' xs = map (\<lambda>j. int j * 2) [0..<length xs]"
proof -
  obtain h m1 where h: "new_node al 0 m = (h, m1)" "h \<noteq> 0" "node m1 h = Some \<lparr>node_val = 0, node_next = 0\<rparr>" "grown m m1 [h]" "dom m1 = insert h (dom m)"
    using new_node_gives[OF assms] .
  have f: "finite (dom m1)" using h(4) by (simp add: grown_def)
  obtain xs m' where x: "build_for al 1 n h m1 = Some (last (h # xs), m')" "linked m' h (h # xs)" "length xs = nat (n - 1)" "h \<notin> set xs"
    "grown (m1(h := None)) m' (h # xs)" "set xs \<inter> dom m1 = {}" "vals m' (h # xs) = 0 # map (\<lambda>j. (1 + int j) * 2) [0..<length xs]"
    using build_for_gives[OF assms(1) f h(3), of 1 n] by auto
  have "grown m m' (h # xs)" using x(4-6) h(4,5) by (auto simp: grown_def)
  moreover have "vals m' (h # xs) = map (\<lambda>j. int j * 2) [0..<length (h # xs)]"
    using x(7) by (simp add: map_upt_Suc del: upt_Suc)
  ultimately show thesis using that[of h m1 "h # xs" m'] h(1) x(1-3) by simp
qed

lemma nth_next_chain: "chain m p xs q \<Longrightarrow> n < length xs \<Longrightarrow> nth_next m n p = Some (xs ! n)"
proof (induction n)
  case 0
  then show ?case by (cases xs) (auto simp: nth_next_def)
next
  case (Suc n)
  then have "chain m p (take n xs @ xs ! n # drop (Suc n) xs) q" by (simp add: id_take_nth_drop[symmetric])
  then obtain c where c: "node m (xs ! n) = Some c" "chain m (node_next c) (drop (Suc n) xs) q" by (auto simp: chain_append)
  then have "node_next c = xs ! Suc n" using Suc.prems(2) by (simp add: Cons_nth_drop_Suc[symmetric])
  then show ?case using Suc c(1) by (simp add: nth_next_def)
qed

lemma relink:
  assumes "chain m p xs q" "distinct xs" "xs \<noteq> []"
  obtains m' where "set_next (last xs) r m = Some m'" "chain m' p xs r" "\<forall>x. x \<noteq> last xs \<longrightarrow> m' x = m x"
proof -
  obtain us x where xs: "xs = us @ [x]" using assms(3) by (cases xs rule: rev_cases) auto
  obtain c where c: "chain m p us x" "node m x = Some c" using assms(1) xs by (auto simp: chain_append)
  then have "chain (m(x \<mapsto> c\<lparr>node_next := r\<rparr>)) p xs r" using assms(2) xs node_pos[OF c(2)] by (auto simp: chain_append node_upd)
  then show thesis using that set_next_node[OF c(2)] xs by simp
qed

end
