(* ===== verification/Linked_Props.thy ===== *)
theory Linked_Props
  imports Linked_Laws
begin

text \<open>
  What \<^verbatim>\<open>linkedTest.cpp\<close> promises: loops and crossings are found, nodes are counted from the end, lists are reversed in place.
  And what goes wrong: a list with a loop or a crossing is destroyed by following freed nodes.
\<close>

text \<open>The lists that the constructor builds.\<close>

lemma ten: "nat (10 - 1) = 9" "nat (8 - 1) = 7"
  by simp_all

lemma new_simple:
  assumes "good_new al" "finite (dom m)"
  obtains xs m' where "new_myLink al SIMPLE_LIST m = Some (\<lparr>head = hd xs, head2 = 0, nodeNum = 10, list_mode = SIMPLE_LIST\<rparr>, m')"
    "linked m' (hd xs) xs" "length xs = 10" "grown m m' xs" "vals m' xs = [0, 2, 4, 6, 8, 10, 12, 14, 16, 18]"
proof -
  obtain h m1 xs m' where b: "new_node al 0 m = (h, m1)" "build_for al 1 10 h m1 = Some (last xs, m')" "linked m' h xs" "length xs = Suc (nat (10 - 1))"
    "grown m m' xs" "vals m' xs = map (\<lambda>j. int j * 2) [0..<length xs]" using build_list[OF assms, of 10] .
  have h: "h = hd xs" using b(3,4) by (cases xs) auto
  show thesis using that[of xs m'] b(1-5) b(6) unfolding h by (simp add: new_myLink_def buildSimpleList_def upt_rec)
qed

lemma new_loop:
  assumes "good_new al" "finite (dom m)"
  obtains xs m' where "new_myLink al LOOP_LIST m = Some (\<lparr>head = hd xs, head2 = 0, nodeNum = 10, list_mode = LOOP_LIST\<rparr>, m')"
    "chain m' (hd xs) xs (xs ! 3)" "length xs = 10" "distinct xs"
proof -
  obtain h m1 xs m2 where b: "new_node al 0 m = (h, m1)" "build_for al 1 10 h m1 = Some (last xs, m2)" "linked m2 h xs" "length xs = Suc (nat (10 - 1))"
    "grown m m2 xs" using build_list[OF assms, of 10] .
  have h: "h = hd xs" and d: "distinct xs" using b(3,4) linked_distinct[OF b(3)] by (cases xs; auto)+
  have n: "nth_next m2 3 h = Some (xs ! 3)" using nth_next_chain[OF b(3), of 3] b(4) by simp
  have "xs \<noteq> []" using b(4) by auto
  obtain m' where "set_next (last xs) (xs ! 3) m2 = Some m'" "chain m' h xs (xs ! 3)" using relink[OF b(3) d \<open>xs \<noteq> []\<close>] .
  then show thesis using that[of xs m'] b(1,2,4) n d unfolding h by (simp add: new_myLink_def buildLoopList_def)
qed

lemma new_cross:
  assumes "good_new al" "finite (dom m)"
  obtains xs ys m' where "new_myLink al CROSS_LIST m = Some (\<lparr>head = hd xs, head2 = hd ys, nodeNum = 10, list_mode = CROSS_LIST\<rparr>, m')"
    "linked m' (hd xs) xs" "chain m' (hd ys) ys (xs ! 4)" "length xs = 10" "length ys = 8" "distinct (xs @ ys)"
proof -
  obtain h m1 xs m2 where b: "new_node al 0 m = (h, m1)" "build_for al 1 10 h m1 = Some (last xs, m2)" "linked m2 h xs" "length xs = Suc (nat (10 - 1))"
    "grown m m2 xs" using build_list[OF assms, of 10] .
  have h: "h = hd xs" and d: "distinct xs" using b(3,4) linked_distinct[OF b(3)] by (cases xs; auto)+
  have "finite (dom m2)" using b(5) by (simp add: grown_def)
  then obtain h2 m3 ys m4 where e: "new_node al 0 m2 = (h2, m3)" "build_for al 1 8 h2 m3 = Some (last ys, m4)" "linked m4 h2 ys" "length ys = Suc (nat (8 - 1))"
    "grown m2 m4 ys" using build_list[OF assms(1), of m2 8] by metis
  have h2: "h2 = hd ys" and d2: "distinct ys" "ys \<noteq> []" using e(3,4) linked_distinct[OF e(3)] by (cases ys; auto)+
  have "set xs \<subseteq> dom m2" using chain_nodes[OF b(3)] by (fastforce simp: node_def split: if_splits)
  then have x: "set xs \<inter> set ys = {}" "\<And>u. u \<in> set xs \<Longrightarrow> m4 u = m2 u" using e(5) by (auto simp: grown_def)
  have l4: "linked m4 h xs" using b(3) x(2) chain_frame[of xs m4 m2 h 0] by (simp add: node_def)
  have n: "nth_next m4 4 h = Some (xs ! 4)" using nth_next_chain[OF l4, of 4] b(4) by simp
  obtain m' where m': "set_next (last ys) (xs ! 4) m4 = Some m'" "chain m' h2 ys (xs ! 4)" "\<forall>u. u \<noteq> last ys \<longrightarrow> m' u = m4 u"
    using relink[OF e(3) d2, where r = "xs ! 4"] .
  have "last ys \<notin> set xs" using x(1) d2(2) last_in_set by blast
  then have "linked m' h xs" using l4 m'(3) chain_frame[of xs m' m4 h 0] by (metis node_def)
  then show thesis using that[of xs ys m'] b(1,2,4) e(1,2,4) n m'(1,2) d d2(1) x(1) unfolding h h2
    by (simp add: new_myLink_def buildCrossList_def buildSimpleList_def)
qed

text \<open>C18. \<^verbatim>\<open>isListLooped\<close> returns, on every finite memory without dangling pointers, and says whether the pointers from \<open>h\<close> on never end.\<close>

theorem isListLooped_correct:
  assumes "finite (dom m)" and "no_dangling m h"
  shows "isListLooped m h = Some (\<forall>n. follow m h n \<noteq> 0)"
  using assms by (rule isListLooped_decides)

lemma isListLooped_correct_witness:
  "isListLooped [1 \<mapsto> \<lparr>node_val = 5, node_next = 2\<rparr>, 2 \<mapsto> \<lparr>node_val = 6, node_next = 1\<rparr>] 1 = Some True
    \<and> isListLooped [1 \<mapsto> \<lparr>node_val = 5, node_next = 2\<rparr>, 2 \<mapsto> \<lparr>node_val = 6, node_next = 0\<rparr>] 1 = Some False"
proof -
  let ?m = "[1 \<mapsto> \<lparr>node_val = 5, node_next = 2\<rparr>, 2 \<mapsto> \<lparr>node_val = 6, node_next = 1\<rparr>]"
  let ?k = "[1 \<mapsto> \<lparr>node_val = 5, node_next = 2\<rparr>, 2 \<mapsto> \<lparr>node_val = 6, node_next = 0\<rparr>]"
  have "follow ?m 1 n \<noteq> 0" for n
  proof -
    have "follow ?m 1 n \<in> {1, 2}" by (induction n) (auto simp: nx_def node_def)
    then show ?thesis by auto
  qed
  then have m: "(\<forall>n. follow ?m 1 n \<noteq> 0) = True" by blast
  have "follow ?k 1 (Suc (Suc 0)) = 0" by (simp add: nx_def node_def)
  then have k: "(\<forall>n. follow ?k 1 n \<noteq> 0) = False" by blast
  have "no_dangling ?m 1" "no_dangling ?k 1" by (auto simp: no_dangling_def ran_def split: if_splits)
  then show ?thesis using isListLooped_correct[of ?m 1] isListLooped_correct[of ?k 1] unfolding m k by simp
qed

text \<open>C19. \<^verbatim>\<open>isListCrossed\<close> of two lists that end returns the first node of the first list that is in the second one, or the null pointer
  when they share none.\<close>

theorem isListCrossed_correct:
  assumes "linked m p xs" and "linked m q ys"
  shows "isListCrossed m p q = Some (case find (\<lambda>x. x \<in> set ys) xs of None \<Rightarrow> 0 | Some z \<Rightarrow> z)"
  using assms by (rule isListCrossed_linked)

lemma isListCrossed_correct_witness:
  "isListCrossed [1 \<mapsto> \<lparr>node_val = 5, node_next = 2\<rparr>, 2 \<mapsto> \<lparr>node_val = 6, node_next = 0\<rparr>, 3 \<mapsto> \<lparr>node_val = 7, node_next = 2\<rparr>] 1 3 = Some 2"
  by (subst isListCrossed_correct[of _ _ "[1, 2]" _ "[3, 2]"]) (auto simp: node_def)

text \<open>\<^verbatim>\<open>rfindNodeNo\<close> returns the \<open>k\<close>-th node from the end, or the null pointer when there is none.\<close>

theorem rfindNodeNo_correct:
  assumes "linked m h xs"
  shows "rfindNodeNo m h k = Some (if 0 < k \<and> k \<le> int (length xs) then xs ! (length xs - nat k) else 0)"
  using assms by (rule rfindNodeNo_linked)

lemma rfindNodeNo_correct_witness:
  "rfindNodeNo [1 \<mapsto> \<lparr>node_val = 5, node_next = 2\<rparr>, 2 \<mapsto> \<lparr>node_val = 6, node_next = 3\<rparr>, 3 \<mapsto> \<lparr>node_val = 7, node_next = 0\<rparr>] 1 2 = Some 2"
  by (subst rfindNodeNo_correct[of _ _ "[1, 2, 3]"]) (auto simp: node_def numeral_2_eq_2)

text \<open>C20. \<^verbatim>\<open>reverseList\<close> returns the list of the same nodes in reverse; values and all other nodes are as before.\<close>

theorem reverseList_correct:
  assumes "linked m h xs"
  shows "\<exists>q m'. reverseList h m = Some (q, m') \<and> linked m' q (rev xs) \<and> (\<forall>x. x \<notin> set xs \<longrightarrow> m' x = m x)
    \<and> (\<forall>x. map_option node_val (m' x) = map_option node_val (m x))"
  using reverse_loop_linked[OF assms, of 0 "[]"] linked_distinct[OF assms] by (simp add: reverseList_def)

lemma reverseList_correct_witness:
  "\<exists>q m'. reverseList 1 [1 \<mapsto> \<lparr>node_val = 5, node_next = 2\<rparr>, 2 \<mapsto> \<lparr>node_val = 6, node_next = 0\<rparr>] = Some (q, m') \<and> linked m' q [2, 1]"
  using reverseList_correct[of "[1 \<mapsto> \<lparr>node_val = 5, node_next = 2\<rparr>, 2 \<mapsto> \<lparr>node_val = 6, node_next = 0\<rparr>]" 1 "[1, 2]"] by (auto simp: node_def)

text \<open>C21. Building a list and destroying it at once, as \<^verbatim>\<open>main\<close> does: a simple list leaves the memory as it was; a list with a loop and two
  lists that cross are destroyed by following a node that was deleted before.\<close>

theorem destructor_double_free:
  assumes "good_new al" and "finite (dom m)"
  shows "new_myLink al md m \<bind> (\<lambda>(l, m). clearList l m)
    = (if md = SIMPLE_LIST then Some (\<lparr>head = 0, head2 = 0, nodeNum = 10, list_mode = SIMPLE_LIST\<rparr>, m) else None)"
proof (cases md)
  case SIMPLE_LIST
  obtain xs m' where s: "new_myLink al SIMPLE_LIST m = Some (\<lparr>head = hd xs, head2 = 0, nodeNum = 10, list_mode = SIMPLE_LIST\<rparr>, m')"
    "linked m' (hd xs) xs" "grown m m' xs" using new_simple[OF assms] by metis
  then show ?thesis using SIMPLE_LIST clear_nodes_linked[OF s(2)] clear_nodes_linked[of m 0 "[]" False] grown_restrict[OF s(3)]
    by (simp add: clearList_def restrict_map_def)
next
  case LOOP_LIST
  obtain xs m' where s: "new_myLink al LOOP_LIST m = Some (\<lparr>head = hd xs, head2 = 0, nodeNum = 10, list_mode = LOOP_LIST\<rparr>, m')"
    "chain m' (hd xs) xs (xs ! 3)" "length xs = 10" "distinct xs" using new_loop[OF assms] .
  then show ?thesis using LOOP_LIST clear_nodes_loop[OF s(2,4)] by (simp add: clearList_def)
next
  case CROSS_LIST
  obtain xs ys m' where s: "new_myLink al CROSS_LIST m = Some (\<lparr>head = hd xs, head2 = hd ys, nodeNum = 10, list_mode = CROSS_LIST\<rparr>, m')"
    "linked m' (hd xs) xs" "chain m' (hd ys) ys (xs ! 4)" "length xs = 10" "distinct (xs @ ys)" using new_cross[OF assms] by metis
  let ?m = "m' |` (- set xs)"
  have "chain ?m (hd ys) ys (xs ! 4)" using s(3,5) chain_restrict[of ys "set xs" m'] by auto
  then have "clear_nodes False (hd ys) ?m = clear_nodes False (xs ! 4) (?m |` (- set ys))" using s(5) by (intro clear_nodes_chain) auto
  also have "\<dots> = None" using chain_nodes[OF s(2), of "xs ! 4"] s(4) by (intro clear_nodes_freed) (auto simp: restrict_map_def)
  finally show ?thesis using CROSS_LIST s(1) clear_nodes_linked[OF s(2)] by (simp add: clearList_def)
qed

text \<open>An allocator that never gives out an address in use.\<close>

definition next_address :: "nodes \<Rightarrow> nat" where
  "next_address m = Suc (Max (insert 0 (dom m)))"

lemma next_address_good: "good_new next_address"
proof -
  have "k \<notin> dom m" if "finite (dom m)" "k = next_address m" for m k
  proof
    assume "k \<in> dom m"
    then have "k \<le> Max (insert 0 (dom m))" using that(1) by (intro Max_ge) auto
    then show False using that(2) by (simp add: next_address_def)
  qed
  then show ?thesis by (simp add: good_new_def) (simp add: next_address_def)
qed

lemma destructor_double_free_witness:
  "(new_myLink next_address SIMPLE_LIST Map.empty \<bind> (\<lambda>(l, m). clearList l m)) = Some (\<lparr>head = 0, head2 = 0, nodeNum = 10, list_mode = SIMPLE_LIST\<rparr>, Map.empty)
    \<and> (new_myLink next_address LOOP_LIST Map.empty \<bind> (\<lambda>(l, m). clearList l m)) = None
    \<and> (new_myLink next_address CROSS_LIST Map.empty \<bind> (\<lambda>(l, m). clearList l m)) = None"
  using destructor_double_free[OF next_address_good, of Map.empty] by simp

end
