(* ===== verification/Memleak.thy ===== *)
theory Memleak
  imports Prelude
begin

text \<open>
  \<^verbatim>\<open>12_memleak_detector/memleak_detector.c\<close>: a file for every allocated block, which the release of the block removes. The state is the
  files (by path), the allocated blocks (by address) and the lines printed. \<open>pt p\<close> is the text that \<^verbatim>\<open>%p\<close> prints of \<open>p\<close>; what
  \<^verbatim>\<open>malloc\<close> returns and whether \<^verbatim>\<open>open\<close> succeeds are arguments. \<open>None\<close> is undefined behaviour: reading outside of an array,
  releasing what is not allocated.
\<close>

subsection \<open>The code\<close>

record leak_state =
  files :: "string \<rightharpoonup> string"
  heap_blocks :: "nat set"
  printed :: "string list"

text \<open>\<^verbatim>\<open>snprintf\<close> of at most 63 bytes, with the final NUL.\<close>

definition mem_path :: "(nat \<Rightarrow> string) \<Rightarrow> nat \<Rightarrow> string" where
  "mem_path pt p = take 62 (''mem/'' @ pt p @ ''.mem'')"

definition record_text :: "nat \<Rightarrow> string \<Rightarrow> nat \<Rightarrow> string" where
  "record_text bytes src line = ''['' @ src @ '', line '' @ dec line @ ''] size='' @ dec bytes @ [CHR 0x0a]"

text \<open>\<^verbatim>\<open>write(fd, buf, len)\<close> at the start of a file that is not truncated.\<close>

definition overwrite :: "string \<Rightarrow> string option \<Rightarrow> string" where
  "overwrite s old = s @ drop (length s) (case old of None \<Rightarrow> [] | Some t \<Rightarrow> t)"

definition leak_malloc :: "(nat \<Rightarrow> string) \<Rightarrow> nat \<Rightarrow> bool \<Rightarrow> nat \<Rightarrow> string \<Rightarrow> nat \<Rightarrow> leak_state \<Rightarrow> (nat \<times> leak_state) option" where
  "leak_malloc pt p opens bytes src line st =
     (if p = 0 then Some (0, st)
      else let st = st\<lparr>heap_blocks := insert p (heap_blocks st)\<rparr>; filename = mem_path pt p;
             text = record_text bytes src line; len = length text;
             buf = take 254 text @ replicate (256 - length (take 254 text)) NUL
        in if \<not> opens then Some (p, st\<lparr>printed := printed st @ [''open '' @ filename @ '' failed in __malloc.'']\<rparr>)
        else if 256 < len then None
        else Some (p, st\<lparr>files := (files st)(filename \<mapsto> overwrite (take len buf) (files st filename))\<rparr>))"

definition leak_free :: "(nat \<Rightarrow> string) \<Rightarrow> nat \<Rightarrow> string \<Rightarrow> nat \<Rightarrow> leak_state \<Rightarrow> leak_state option" where
  "leak_free pt p src line st =
     (let filename = mem_path pt p;
          st = (if files st filename = None
            then st\<lparr>printed := printed st @ [''['' @ src @ '', line '' @ dec line @ ''] '' @ pt p @ '' double free!'']\<rparr>
            else st\<lparr>files := (files st)(filename := None)\<rparr>)
      in if p = 0 then Some st
      else if p \<in> heap_blocks st then Some (st\<lparr>heap_blocks := heap_blocks st - {p}\<rparr>) else None)"

subsection \<open>Sessions\<close>

text \<open>What a program does: it allocates (and \<^verbatim>\<open>malloc\<close> returns \<open>p\<close>), or releases.\<close>

datatype leak_call = Malloc nat nat string nat | Free nat string nat

fun leak_run :: "(nat \<Rightarrow> string) \<Rightarrow> leak_call list \<Rightarrow> leak_state \<Rightarrow> leak_state option" where
  "leak_run pt [] st = Some st"
| "leak_run pt (Malloc p bytes src line # cs) st = leak_malloc pt p True bytes src line st \<bind> (\<lambda>(_, st). leak_run pt cs st)"
| "leak_run pt (Free p src line # cs) st = leak_free pt p src line st \<bind> leak_run pt cs"

text \<open>The blocks that are never released, with the place where they were allocated, as a map; \<open>sane\<close> says that the program releases only
  what it holds, that \<^verbatim>\<open>malloc\<close> returns fresh addresses, and that the names of the source files are short.\<close>

fun leaks :: "leak_call list \<Rightarrow> (nat \<rightharpoonup> string) \<Rightarrow> (nat \<rightharpoonup> string)" where
  "leaks [] L = L"
| "leaks (Malloc p bytes src line # cs) L = leaks cs (if p = 0 then L else L(p \<mapsto> record_text bytes src line))"
| "leaks (Free p src line # cs) L = leaks cs (L(p := None))"

fun sane :: "leak_call list \<Rightarrow> nat set \<Rightarrow> bool" where
  "sane [] B \<longleftrightarrow> True"
| "sane (Malloc p bytes src line # cs) B \<longleftrightarrow> p \<notin> B \<and> p < 2 ^ 64 \<and> length (record_text bytes src line) \<le> 254 \<and> sane cs (if p = 0 then B else insert p B)"
| "sane (Free p src line # cs) B \<longleftrightarrow> p \<in> B \<and> sane cs (B - {p})"

text \<open>The texts of two pointers differ and fit.\<close>

definition pointer_text :: "(nat \<Rightarrow> string) \<Rightarrow> bool" where
  "pointer_text pt \<longleftrightarrow> inj_on pt {..<2 ^ 64} \<and> (\<forall>p<2 ^ 64. length (pt p) \<le> 54)"

lemma mem_path_whole: "pointer_text pt \<Longrightarrow> p < 2 ^ 64 \<Longrightarrow> mem_path pt p = ''mem/'' @ pt p @ ''.mem''"
  unfolding mem_path_def by (rule take_all) (simp add: pointer_text_def)

lemma mem_path_inj: "pointer_text pt \<Longrightarrow> inj_on (mem_path pt) {..<2 ^ 64}"
  by (rule inj_onI) (simp add: mem_path_whole, simp add: pointer_text_def inj_on_def)

text \<open>The files are exactly the records of the blocks in \<open>L\<close>.\<close>

definition shows_leaks :: "(nat \<Rightarrow> string) \<Rightarrow> (nat \<rightharpoonup> string) \<Rightarrow> leak_state \<Rightarrow> bool" where
  "shows_leaks pt L st \<longleftrightarrow> heap_blocks st = dom L \<and> dom L \<subseteq> {0<..<2 ^ 64} \<and> dom (files st) = mem_path pt ` dom L \<and> (\<forall>p\<in>dom L. files st (mem_path pt p) = L p)"

lemma shows_other:
  assumes "pointer_text pt" "shows_leaks pt L st" "p < 2 ^ 64" "L p = None"
  shows "files st (mem_path pt p) = None" "\<forall>q\<in>dom L. mem_path pt q \<noteq> mem_path pt p"
proof -
  show o: "\<forall>q\<in>dom L. mem_path pt q \<noteq> mem_path pt p"
  proof
    fix q assume q: "q \<in> dom L"
    then have "q < 2 ^ 64" "q \<noteq> p" using assms(2,4) by (auto simp: shows_leaks_def)
    then show "mem_path pt q \<noteq> mem_path pt p" using inj_onD[OF mem_path_inj[OF assms(1)], of q p] assms(3) by auto
  qed
  then have "mem_path pt p \<notin> dom (files st)" using assms(2) by (auto simp: shows_leaks_def)
  then show "files st (mem_path pt p) = None" by blast
qed

lemma leak_malloc_shows:
  assumes "pointer_text pt" "shows_leaks pt L st" "L p = None" "p < 2 ^ 64" "length (record_text bytes src line) \<le> 254"
  shows "\<exists>st'. leak_malloc pt p True bytes src line st = Some (p, st') \<and> printed st' = printed st
    \<and> shows_leaks pt (if p = 0 then L else L(p \<mapsto> record_text bytes src line)) st'"
proof (cases "p = 0")
  case False
  note o = shows_other[OF assms(1,2,4,3)]
  have t: "take 254 t = t" if "length t \<le> 254" for t :: string using that by simp
  show ?thesis using False assms(2,4,5) o t[OF assms(5)] by (auto simp: leak_malloc_def Let_def overwrite_def shows_leaks_def)
qed (use assms(2) in \<open>simp add: leak_malloc_def\<close>)

lemma leak_free_shows:
  assumes "pointer_text pt" "shows_leaks pt L st" "p \<in> dom L"
  shows "\<exists>st'. leak_free pt p src line st = Some st' \<and> printed st' = printed st \<and> shows_leaks pt (L(p := None)) st'"
proof -
  have p: "p \<noteq> 0" "p < 2 ^ 64" "files st (mem_path pt p) \<noteq> None" "p \<in> heap_blocks st" using assms(2,3) by (auto simp: shows_leaks_def)
  have q: "mem_path pt q = mem_path pt p \<longleftrightarrow> q = p" if "q \<in> dom L" for q
    using inj_onD[OF mem_path_inj[OF assms(1)], of q p] that p(2) assms(2) by (auto simp: shows_leaks_def)
  have d: "mem_path pt ` dom L - {mem_path pt p} = mem_path pt ` (dom L - {p})" using q assms(3) by auto
  show ?thesis using p assms(2) q d by (auto simp: leak_free_def Let_def shows_leaks_def)
qed

text \<open>C22. At the end of a program that uses memory correctly but may forget to release it, the files in \<^verbatim>\<open>mem/\<close> are exactly the blocks that
  were not released, each with the source line of its allocation, and nothing was printed.\<close>

theorem leak_report_correct:
  assumes "pointer_text pt" and "shows_leaks pt L st" and "sane cs (dom L)"
  shows "\<exists>st'. leak_run pt cs st = Some st' \<and> shows_leaks pt (leaks cs L) st' \<and> printed st' = printed st"
  using assms(2,3)
proof (induction cs arbitrary: L st)
  case (Cons c cs)
  show ?case
  proof (cases c)
    case (Malloc p bytes src line)
    let ?L = "if p = 0 then L else L(p \<mapsto> record_text bytes src line)"
    obtain st1 where s: "leak_malloc pt p True bytes src line st = Some (p, st1)" "printed st1 = printed st" "shows_leaks pt ?L st1"
      using leak_malloc_shows[OF assms(1) Cons.prems(1), of p bytes src line] Cons.prems(2) Malloc by auto
    have "sane cs (dom ?L)" using Cons.prems(2) Malloc by (simp split: if_splits)
    then show ?thesis using Cons.IH[OF s(3)] s(1,2) Malloc by auto
  next
    case (Free p src line)
    obtain st1 where s: "leak_free pt p src line st = Some st1" "printed st1 = printed st" "shows_leaks pt (L(p := None)) st1"
      using leak_free_shows[OF assms(1) Cons.prems(1), of p src line] Cons.prems(2) Free by auto
    have "sane cs (dom (L(p := None)))" using Cons.prems(2) Free by simp
    from Cons.IH[OF s(3) this] show ?thesis by (simp only: Free leak_run.simps leaks.simps s(1,2) bind.simps)
  qed
qed simp

lemma dec_value: "foldl (\<lambda>v c. 10 * v + (of_char c - 48)) 0 (dec n) = n"
proof (induction n rule: dec.induct)
  case (1 n)
  have "of_char (char_of (48 + n mod 10) :: char) = 48 + n mod 10" "n < 10 \<Longrightarrow> of_char (char_of (48 + n) :: char) = 48 + n"
    by (simp_all add: take_bit_eq_mod)
  then show ?case using 1 by (subst dec.simps) auto
qed

lemma dec_pointer_text: "pointer_text dec"
proof -
  have "length (dec p) \<le> 54" if "p < 2 ^ 64" for p using that by (intro length_dec) simp_all
  moreover have "inj_on dec {..<2 ^ 64}" by (metis dec_value inj_onI)
  ultimately show ?thesis by (simp add: pointer_text_def)
qed

lemma leak_report_correct_witness:
  "\<exists>st'. leak_run dec [Malloc 4096 10 ''a.c'' 3, Malloc 8192 20 ''a.c'' 4, Free 4096 ''a.c'' 6] \<lparr>files = Map.empty, heap_blocks = {}, printed = []\<rparr> = Some st'
    \<and> dom (files st') = {mem_path dec 8192} \<and> files st' (mem_path dec 8192) = Some (record_text 20 ''a.c'' 4) \<and> printed st' = []"
proof -
  let ?cs = "[Malloc 4096 10 ''a.c'' 3, Malloc 8192 20 ''a.c'' 4, Free 4096 ''a.c'' 6]" and ?st = "\<lparr>files = Map.empty, heap_blocks = {}, printed = []\<rparr>"
  have s: "shows_leaks dec Map.empty ?st" by (simp add: shows_leaks_def)
  have c: "sane ?cs (dom Map.empty)" by (simp add: record_text_def dec.simps)
  show ?thesis using leak_report_correct[OF dec_pointer_text s c] by (auto simp: shows_leaks_def)
qed

text \<open>\<^verbatim>\<open>free(NULL)\<close>, which is allowed, is reported as a double free.\<close>

lemma free_null_reported:
  assumes "shows_leaks pt L st" and "pointer_text pt"
  shows "\<exists>msg. leak_free pt 0 src line st = Some (st\<lparr>printed := printed st @ [msg @ '' double free!'']\<rparr>)"
proof -
  have "L 0 = None" using assms(1) by (auto simp: shows_leaks_def)
  then have "files st (mem_path pt 0) = None" using shows_other(1)[OF assms(2,1), of 0] by simp
  then show ?thesis by (auto simp: leak_free_def Let_def intro: exI[of _ "''['' @ src @ '', line '' @ dec line @ ''] '' @ pt 0"])
qed

text \<open>The length that \<^verbatim>\<open>snprintf\<close> returns is that of the whole text: for a long file name \<^verbatim>\<open>write\<close> reads behind the buffer.\<close>

lemma long_file_name_overread: "p \<noteq> 0 \<Longrightarrow> 240 < length src \<Longrightarrow> leak_malloc pt p True bytes src line st = None"
  by (simp add: leak_malloc_def Let_def record_text_def)

end
