(* ===== verification/Thread_Pool.thy ===== *)
theory Thread_Pool
  imports Prelude "HOL-Library.Multiset"
begin

text \<open>
  \<^verbatim>\<open>7_thread_pool/ThreadPool.cpp\<close>: a pool of threads that take tasks from a queue. Everything that the threads share is guarded by
  \<^verbatim>\<open>m_mutex\<close>, so a step of the model is what a thread does from the moment it gets the mutex to the moment it releases it, by
  unlocking or by waiting for a condition. A \<^verbatim>\<open>Thread\<close> is a number; \<open>pc\<close> says where a thread is: blocked in \<^verbatim>\<open>m_cond.wait\<close>, woken (or
  just created) and about to test the predicate of the wait, or running a task without the mutex. \<open>accepted\<close>, \<open>started\<close> and
  \<open>finished\<close> record what happened and have no influence.
\<close>

subsection \<open>The code\<close>

record Task =
  m_callback :: nat
  m_args :: nat
  m_name :: string

datatype pc = Ready | Asleep | Running Task

text \<open>Where the destructor of the pool is, which waits for \<^verbatim>\<open>m_cond\<close> too.\<close>

datatype destructor = Not_called | Dtor_asleep | Dtor_ready | Dtor_done

record thread_pool =
  m_task_list :: "Task list"
  m_thd_list :: "nat list"
  m_max_thd_num :: int
  m_busy_thd_num :: int
  m_needToTerminate :: "nat \<Rightarrow> bool"
  pc_of :: "nat \<Rightarrow> pc"
  spawned :: nat
  dtor :: destructor
  user_waits :: bool
  accepted :: "Task list"
  started :: "Task list"
  finished :: "Task list"

definition m_min_thd_num :: int where
  "m_min_thd_num = 4"

definition new_pool :: "int \<Rightarrow> thread_pool" where
  "new_pool n = \<lparr>m_task_list = [], m_thd_list = [], m_max_thd_num = n, m_busy_thd_num = 0, m_needToTerminate = (\<lambda>_. False), pc_of = (\<lambda>_. Asleep),
     spawned = 0, dtor = Not_called, user_waits = False, accepted = [], started = [], finished = []\<rparr>"

definition createAThread :: "thread_pool \<Rightarrow> thread_pool" where
  "createAThread p =
     (let t = spawned p
      in p\<lparr>m_thd_list := m_thd_list p @ [t], m_needToTerminate := (m_needToTerminate p)(t := False), pc_of := (pc_of p)(t := Ready), spawned := t + 1\<rparr>)"

fun create_for :: "nat \<Rightarrow> thread_pool \<Rightarrow> thread_pool" where
  "create_for 0 p = p"
| "create_for (Suc n) p = create_for n (createAThread p)"

definition init_pool :: "thread_pool \<Rightarrow> thread_pool" where
  "init_pool p = create_for (nat m_min_thd_num) p"

definition setToTerminate :: "nat list \<Rightarrow> thread_pool \<Rightarrow> thread_pool" where
  "setToTerminate ts p = p\<lparr>m_needToTerminate := (\<lambda>t. t \<in> set ts \<or> m_needToTerminate p t)\<rparr>"

definition terminateSomeThread :: "thread_pool \<Rightarrow> int \<times> thread_pool" where
  "terminateSomeThread p =
     (if m_task_list p = [] \<and> m_busy_thd_num p = 0
      then let need = max (int (length (m_thd_list p)) div 2) m_min_thd_num;
             terminateNum = int (length (m_thd_list p)) - need
        in (terminateNum, setToTerminate (take (nat terminateNum) (m_thd_list p)) p)
      else (0, p))"

definition activeSomeThread :: "thread_pool \<Rightarrow> int \<times> thread_pool" where
  "activeSomeThread p =
     (if int (length (m_thd_list p)) \<le> m_busy_thd_num p \<and> length (m_thd_list p) div 2 \<le> length (m_task_list p)
      then let need = min (int (length (m_thd_list p)) * 2) (m_max_thd_num p) - int (length (m_thd_list p))
        in (need, create_for (nat need) p)
      else (0, p))"

text \<open>The threads that are blocked, \<^verbatim>\<open>m_cond.notify_one()\<close>, which wakes some \<open>w\<close> of them, and \<^verbatim>\<open>m_cond.notify_all()\<close>.\<close>

definition sleepers :: "thread_pool \<Rightarrow> nat list" where
  "sleepers p = filter (\<lambda>t. pc_of p t = Asleep) (m_thd_list p)"

definition notify_one :: "nat \<Rightarrow> thread_pool \<Rightarrow> thread_pool option" where
  "notify_one w p =
     (if sleepers p = [] then Some p else if w \<in> set (sleepers p) then Some (p\<lparr>pc_of := (pc_of p)(w := Ready)\<rparr>) else None)"

definition notify_all :: "thread_pool \<Rightarrow> thread_pool" where
  "notify_all p = p\<lparr>pc_of := (\<lambda>t. if t \<in> set (sleepers p) then Ready else pc_of p t), dtor := (if dtor p = Dtor_asleep then Dtor_ready else dtor p)\<rparr>"

definition acceptATask :: "Task \<Rightarrow> nat \<Rightarrow> thread_pool \<Rightarrow> thread_pool option" where
  "acceptATask task w p = notify_one w (p\<lparr>m_task_list := m_task_list p @ [task], accepted := accepted p @ [task]\<rparr>)"

text \<open>\<^verbatim>\<open>thread_function\<close> from the predicate of the wait on, until the mutex is released.\<close>

definition thread_check :: "nat \<Rightarrow> thread_pool \<Rightarrow> thread_pool" where
  "thread_check t p =
     (if m_task_list p = [] \<and> \<not> m_needToTerminate p t then p\<lparr>pc_of := (pc_of p)(t := Asleep)\<rparr>
      else if m_needToTerminate p t
      then let p = p\<lparr>m_thd_list := removeAll t (m_thd_list p)\<rparr> in if m_thd_list p = [] then notify_all p else p
      else let task = hd (m_task_list p);
             p = p\<lparr>m_task_list := tl (m_task_list p), m_busy_thd_num := m_busy_thd_num p + 1, started := started p @ [task]\<rparr>
        in (snd (activeSomeThread p))\<lparr>pc_of := (pc_of (snd (activeSomeThread p)))(t := Running task)\<rparr>)"

text \<open>After the task has run: the mutex is held from here to the next wait.\<close>

definition thread_finish :: "nat \<Rightarrow> Task \<Rightarrow> thread_pool \<Rightarrow> thread_pool" where
  "thread_finish t task p =
     (let p = p\<lparr>m_busy_thd_num := m_busy_thd_num p - 1, pc_of := (pc_of p)(t := Ready), finished := finished p @ [task]\<rparr>;
          p = snd (terminateSomeThread p)
      in thread_check t (if m_task_list p = [] then p\<lparr>user_waits := False\<rparr> else p))"

text \<open>The destructor, up to its wait, and from the predicate of the wait on.\<close>

definition destroy_check :: "thread_pool \<Rightarrow> thread_pool" where
  "destroy_check p = (if m_thd_list p = [] then p\<lparr>m_task_list := [], dtor := Dtor_done\<rparr> else p\<lparr>dtor := Dtor_asleep\<rparr>)"

definition destroy :: "thread_pool \<Rightarrow> thread_pool" where
  "destroy p = destroy_check (notify_all (setToTerminate (m_thd_list p) p))"

definition waitForAllRuningTaskDone :: "thread_pool \<Rightarrow> thread_pool" where
  "waitForAllRuningTaskDone p = p\<lparr>user_waits := True\<rparr>"

subsection \<open>Runs\<close>

text \<open>What may happen next; \<open>Spurious\<close> is the wake-up without a notification that \<^verbatim>\<open>wait\<close> allows. The pool is not used any more once its
  destructor runs.\<close>

datatype pool_event = Accept Task nat | Check nat | Finish nat | Spurious nat | Wait_tasks | Destroy | Destroy_check

fun pool_exec :: "pool_event \<Rightarrow> thread_pool \<Rightarrow> thread_pool option" where
  "pool_exec (Accept task w) p = (if dtor p = Not_called then acceptATask task w p else None)"
| "pool_exec (Check t) p = (if t \<in> set (m_thd_list p) \<and> pc_of p t = Ready then Some (thread_check t p) else None)"
| "pool_exec (Finish t) p =
     (if t \<in> set (m_thd_list p) then case pc_of p t of Running task \<Rightarrow> Some (thread_finish t task p) | _ \<Rightarrow> None else None)"
| "pool_exec (Spurious t) p = (if t \<in> set (sleepers p) then Some (p\<lparr>pc_of := (pc_of p)(t := Ready)\<rparr>) else None)"
| "pool_exec Wait_tasks p = (if dtor p = Not_called then Some (waitForAllRuningTaskDone p) else None)"
| "pool_exec Destroy p = (if dtor p = Not_called then Some (destroy p) else None)"
| "pool_exec Destroy_check p = (if dtor p = Dtor_ready then Some (destroy_check p) else None)"

inductive pool_step :: "thread_pool \<Rightarrow> thread_pool \<Rightarrow> bool" where
  exec: "pool_exec e p = Some q \<Longrightarrow> pool_step p q"

inductive pool_reachable :: "int \<Rightarrow> thread_pool \<Rightarrow> bool" for n where
  start: "pool_reachable n (init_pool (new_pool n))"
| step: "pool_reachable n p \<Longrightarrow> pool_step p q \<Longrightarrow> pool_reachable n q"

fun pool_run :: "pool_event list \<Rightarrow> thread_pool \<Rightarrow> thread_pool option" where
  "pool_run [] p = Some p"
| "pool_run (e # es) p = pool_exec e p \<bind> pool_run es"

inductive_cases pool_stepE: "pool_step p q"

end
