(* ===== verification/Thread_Pool_Laws.thy ===== *)
theory Thread_Pool_Laws
  imports Thread_Pool
begin

text \<open>
  The invariants of the thread pool, kept by every step: the accounts of the tasks, and the bookkeeping of the threads, of which
  those that have to terminate are always the first ones of the list.
\<close>

subsection \<open>Operations in closed form\<close>

lemma create_for_gives:
  "create_for n p = p\<lparr>m_thd_list := m_thd_list p @ [spawned p..<spawned p + n],
     m_needToTerminate := (\<lambda>t. if spawned p \<le> t \<and> t < spawned p + n then False else m_needToTerminate p t),
     pc_of := (\<lambda>t. if spawned p \<le> t \<and> t < spawned p + n then Ready else pc_of p t), spawned := spawned p + n\<rparr>"
proof (induction n arbitrary: p)
  case (Suc n)
  have "[spawned p..<spawned p + Suc n] = spawned p # [Suc (spawned p)..<Suc (spawned p + n)]" by (simp add: upt_conv_Cons)
  then show ?case by (auto simp: Suc createAThread_def Let_def fun_eq_iff)
next
  case 0
  show ?case by (simp cong: conj_cong)
qed

text \<open>The tasks that are being run.\<close>

definition task_at :: "pc \<Rightarrow> Task multiset" where
  "task_at s = (case s of Running k \<Rightarrow> {#k#} | _ \<Rightarrow> {#})"

lemma task_at_simps [simp]: "task_at Ready = {#}" "task_at Asleep = {#}" "task_at (Running k) = {#k#}"
  by (simp_all add: task_at_def)

definition tasks_at :: "(nat \<Rightarrow> pc) \<Rightarrow> nat list \<Rightarrow> Task multiset" where
  "tasks_at f ts = (\<Sum>t\<leftarrow>ts. task_at (f t))"

lemma tasks_at_simps [simp]:
  "tasks_at f [] = {#}" "tasks_at f (t # ts) = task_at (f t) + tasks_at f ts" "tasks_at f (ts @ us) = tasks_at f ts + tasks_at f us"
  by (simp_all add: tasks_at_def)

lemma tasks_at_cong: "(\<And>t. t \<in> set ts \<Longrightarrow> task_at (f t) = task_at (g t)) \<Longrightarrow> tasks_at f ts = tasks_at g ts"
  by (induction ts) auto

lemma tasks_at_upd: "distinct ts \<Longrightarrow> t \<in> set ts \<Longrightarrow> tasks_at (f(t := s)) ts + task_at (f t) = tasks_at f ts + task_at s"
proof (induction ts)
  case (Cons u ts)
  show ?case
  proof (cases "u = t")
    case True
    then have "tasks_at (f(t := s)) ts = tasks_at f ts" using Cons.prems(1) by (intro tasks_at_cong) auto
    then show ?thesis using True by (simp add: fun_upd_same del: fun_upd_apply)
  next
    case False
    then show ?thesis using Cons by (simp add: add_ac fun_upd_other del: fun_upd_apply)
  qed
qed simp

lemma tasks_at_none: "(\<And>t. t \<in> set ts \<Longrightarrow> task_at (f t) = {#}) \<Longrightarrow> tasks_at f ts = {#}"
  by (induction ts) auto

lemma tasks_at_removeAll: "distinct ts \<Longrightarrow> task_at (f t) = {#} \<Longrightarrow> tasks_at f (removeAll t ts) = tasks_at f ts"
  by (induction ts) (auto simp: tasks_at_def)

definition running :: "thread_pool \<Rightarrow> Task multiset" where
  "running p = tasks_at (pc_of p) (m_thd_list p)"

subsection \<open>The accounts of the tasks\<close>

definition tasks_ok :: "thread_pool \<Rightarrow> bool" where
  "tasks_ok p \<longleftrightarrow> distinct (m_thd_list p) \<and> (\<forall>t\<in>set (m_thd_list p). t < spawned p)
     \<and> m_busy_thd_num p = int (size (running p)) \<and> mset (started p) = mset (finished p) + running p
     \<and> (dtor p \<noteq> Dtor_done \<longrightarrow> started p @ m_task_list p = accepted p)"

lemma tasks_ok_create:
  assumes "tasks_ok p"
  shows "tasks_ok (create_for n p)"
proof -
  have "tasks_at (\<lambda>t. if spawned p \<le> t \<and> t < spawned p + n then Ready else pc_of p t) (m_thd_list p) = running p"
    using assms unfolding running_def by (intro tasks_at_cong) (auto simp: tasks_ok_def)
  moreover have "tasks_at (\<lambda>t. if spawned p \<le> t \<and> t < spawned p + n then Ready else pc_of p t) [spawned p..<spawned p + n] = {#}"
    by (rule tasks_at_none) simp
  ultimately show ?thesis using assms by (force simp: create_for_gives tasks_ok_def running_def)
qed

lemma tasks_ok_same:
  assumes "tasks_ok p" "m_thd_list q = m_thd_list p" "spawned q = spawned p" "m_busy_thd_num q = m_busy_thd_num p" "started q = started p"
    "finished q = finished p" "dtor q = Dtor_done \<longleftrightarrow> dtor p = Dtor_done" "m_task_list q = m_task_list p" "accepted q = accepted p"
    "\<And>t. t \<in> set (m_thd_list p) \<Longrightarrow> task_at (pc_of q t) = task_at (pc_of p t)"
  shows "tasks_ok q"
proof -
  have "running q = running p" unfolding running_def assms(2) using assms(10) by (rule tasks_at_cong)
  then show ?thesis using assms(1-9) by (simp add: tasks_ok_def)
qed

lemma sleepers_asleep [simp]: "t \<in> set (sleepers p) \<longleftrightarrow> t \<in> set (m_thd_list p) \<and> pc_of p t = Asleep"
  by (simp add: sleepers_def)

lemma notify_all_fields [simp]:
  "m_thd_list (notify_all p) = m_thd_list p" "m_task_list (notify_all p) = m_task_list p" "m_needToTerminate (notify_all p) = m_needToTerminate p"
  "m_max_thd_num (notify_all p) = m_max_thd_num p" "spawned (notify_all p) = spawned p" "m_busy_thd_num (notify_all p) = m_busy_thd_num p"
  "started (notify_all p) = started p" "finished (notify_all p) = finished p" "accepted (notify_all p) = accepted p"
  "dtor (notify_all p) = (if dtor p = Dtor_asleep then Dtor_ready else dtor p)"
  by (simp_all add: notify_all_def)

lemma setToTerminate_fields [simp]:
  "m_thd_list (setToTerminate ts p) = m_thd_list p" "m_task_list (setToTerminate ts p) = m_task_list p" "pc_of (setToTerminate ts p) = pc_of p"
  "m_max_thd_num (setToTerminate ts p) = m_max_thd_num p" "spawned (setToTerminate ts p) = spawned p" "m_busy_thd_num (setToTerminate ts p) = m_busy_thd_num p"
  "started (setToTerminate ts p) = started p" "finished (setToTerminate ts p) = finished p" "accepted (setToTerminate ts p) = accepted p"
  "dtor (setToTerminate ts p) = dtor p"
  by (simp_all add: setToTerminate_def)

lemma tasks_ok_notify_all: "tasks_ok p \<Longrightarrow> tasks_ok (notify_all p)"
  by (rule tasks_ok_same[of p]) (auto simp: notify_all_def)

lemma active_fields [simp]:
  "m_task_list (snd (activeSomeThread p)) = m_task_list p" "started (snd (activeSomeThread p)) = started p" "accepted (snd (activeSomeThread p)) = accepted p"
  "finished (snd (activeSomeThread p)) = finished p" "m_busy_thd_num (snd (activeSomeThread p)) = m_busy_thd_num p" "dtor (snd (activeSomeThread p)) = dtor p"
  "m_max_thd_num (snd (activeSomeThread p)) = m_max_thd_num p"
  by (simp_all add: activeSomeThread_def Let_def create_for_gives)

lemma terminate_fields [simp]:
  "m_task_list (snd (terminateSomeThread p)) = m_task_list p" "started (snd (terminateSomeThread p)) = started p" "accepted (snd (terminateSomeThread p)) = accepted p"
  "finished (snd (terminateSomeThread p)) = finished p" "m_busy_thd_num (snd (terminateSomeThread p)) = m_busy_thd_num p" "dtor (snd (terminateSomeThread p)) = dtor p"
  "m_max_thd_num (snd (terminateSomeThread p)) = m_max_thd_num p" "m_thd_list (snd (terminateSomeThread p)) = m_thd_list p"
  "pc_of (snd (terminateSomeThread p)) = pc_of p" "spawned (snd (terminateSomeThread p)) = spawned p"
  by (simp_all add: terminateSomeThread_def Let_def setToTerminate_def)

lemma active_keeps:
  assumes "t \<in> set (m_thd_list p)" "tasks_ok p"
  shows "t \<in> set (m_thd_list (snd (activeSomeThread p)))" "pc_of (snd (activeSomeThread p)) t = pc_of p t"
    "m_needToTerminate (snd (activeSomeThread p)) t = m_needToTerminate p t" "tasks_ok (snd (activeSomeThread p))"
proof -
  have "t < spawned p" using assms by (simp add: tasks_ok_def)
  then show "t \<in> set (m_thd_list (snd (activeSomeThread p)))" "pc_of (snd (activeSomeThread p)) t = pc_of p t"
    "m_needToTerminate (snd (activeSomeThread p)) t = m_needToTerminate p t"
    using assms by (auto simp: activeSomeThread_def Let_def create_for_gives)
  show "tasks_ok (snd (activeSomeThread p))" using tasks_ok_create[OF assms(2)] assms(2) by (simp add: activeSomeThread_def Let_def)
qed

text \<open>Giving a task to a thread that runs none.\<close>

abbreviation with_task :: "nat \<Rightarrow> Task \<Rightarrow> Task list \<Rightarrow> thread_pool \<Rightarrow> thread_pool" where
  "with_task t task ts p \<equiv> p\<lparr>m_task_list := ts, m_busy_thd_num := m_busy_thd_num p + 1, started := started p @ [task], pc_of := (pc_of p)(t := Running task)\<rparr>"

lemma take_task:
  assumes "tasks_ok p" "t \<in> set (m_thd_list p)" "m_task_list p = task # ts" "\<not> m_needToTerminate p t"
  shows "thread_check t p = snd (activeSomeThread (with_task t task ts p))"
proof -
  let ?r = "p\<lparr>m_task_list := ts, m_busy_thd_num := m_busy_thd_num p + 1, started := started p @ [task]\<rparr>"
  have c: "(create_for n ?r)\<lparr>pc_of := (pc_of (create_for n ?r))(t := Running task)\<rparr> = create_for n (with_task t task ts p)" for n
    using assms(1,2) by (auto simp: create_for_gives tasks_ok_def fun_eq_iff)
  have "(snd (activeSomeThread ?r))\<lparr>pc_of := (pc_of (snd (activeSomeThread ?r)))(t := Running task)\<rparr> = snd (activeSomeThread (with_task t task ts p))"
    unfolding activeSomeThread_def Let_def using c by auto
  then show ?thesis using assms(3,4) by (simp add: thread_check_def Let_def)
qed

lemma tasks_ok_with_task:
  assumes "tasks_ok p" "t \<in> set (m_thd_list p)" "pc_of p t = Ready" "m_task_list p = task # ts"
  shows "tasks_ok (with_task t task ts p)"
proof -
  have "running (with_task t task ts p) = running p + {#task#}"
    using tasks_at_upd[of "m_thd_list p" t "pc_of p" "Running task"] assms by (simp add: running_def tasks_ok_def)
  then show ?thesis using assms(1,4) by (auto simp: tasks_ok_def)
qed

lemma tasks_ok_check:
  assumes "tasks_ok p" "t \<in> set (m_thd_list p)" "pc_of p t = Ready"
  shows "tasks_ok (thread_check t p)"
proof (cases "m_needToTerminate p t")
  case True
  let ?q = "p\<lparr>m_thd_list := removeAll t (m_thd_list p)\<rparr>"
  have "running ?q = running p" using assms by (simp add: running_def tasks_at_removeAll tasks_ok_def)
  then have q: "tasks_ok ?q" using assms(1) unfolding tasks_ok_def by (simp add: distinct_removeAll)
  have "thread_check t p = ?q \<or> thread_check t p = notify_all ?q" using True unfolding thread_check_def Let_def by auto
  then show ?thesis using q tasks_ok_notify_all[OF q] by metis
next
  case False
  show ?thesis
  proof (cases "m_task_list p")
    case Nil
    have "tasks_ok (p\<lparr>pc_of := (pc_of p)(t := Asleep)\<rparr>)" by (rule tasks_ok_same[OF assms(1)]) (use assms(3) in simp_all)
    then show ?thesis using Nil False by (simp add: thread_check_def)
  next
    case (Cons task ts)
    have "tasks_ok (snd (activeSomeThread (with_task t task ts p)))"
      by (rule active_keeps(4)[of t]) (use assms(2) tasks_ok_with_task[OF assms Cons] in simp_all)
    then show ?thesis using take_task[OF assms(1,2) Cons False] by simp
  qed
qed

text \<open>After a task: the thread before it tests the predicate of the wait again.\<close>

abbreviation released :: "nat \<Rightarrow> Task \<Rightarrow> thread_pool \<Rightarrow> thread_pool" where
  "released t task p \<equiv> p\<lparr>m_busy_thd_num := m_busy_thd_num p - 1, pc_of := (pc_of p)(t := Ready), finished := finished p @ [task]\<rparr>"

definition after_task :: "nat \<Rightarrow> Task \<Rightarrow> thread_pool \<Rightarrow> thread_pool" where
  "after_task t task p = (let q = snd (terminateSomeThread (released t task p)) in if m_task_list p = [] then q\<lparr>user_waits := False\<rparr> else q)"

lemma finish_check: "thread_finish t task p = thread_check t (after_task t task p)"
  by (simp add: thread_finish_def after_task_def Let_def)

lemma after_task_fields [simp]:
  "m_thd_list (after_task t task p) = m_thd_list p" "pc_of (after_task t task p) = (pc_of p)(t := Ready)" "m_task_list (after_task t task p) = m_task_list p"
  "dtor (after_task t task p) = dtor p"
  by (simp_all add: after_task_def Let_def)

lemma tasks_ok_after:
  assumes "tasks_ok p" "t \<in> set (m_thd_list p)" "pc_of p t = Running task"
  shows "tasks_ok (after_task t task p)"
proof -
  have r: "running (released t task p) + {#task#} = running p"
    using tasks_at_upd[of "m_thd_list p" t "pc_of p" Ready] assms by (simp add: running_def tasks_ok_def)
  have "tasks_ok (released t task p)" using assms(1) by (auto simp: tasks_ok_def simp flip: r)
  then have "tasks_ok (snd (terminateSomeThread (released t task p)))" by (rule tasks_ok_same) simp_all
  then show ?thesis by (rule tasks_ok_same) (simp_all add: after_task_def Let_def)
qed

lemma tasks_ok_finish:
  assumes "tasks_ok p" "t \<in> set (m_thd_list p)" "pc_of p t = Running task"
  shows "tasks_ok (thread_finish t task p)"
  unfolding finish_check by (rule tasks_ok_check[OF tasks_ok_after[OF assms]]) (simp_all add: assms(2))

lemma tasks_ok_exec:
  assumes "tasks_ok p" "pool_exec e p = Some q"
  shows "tasks_ok q"
  using assms(2)
proof (cases e)
  case (Accept task w)
  let ?r = "p\<lparr>m_task_list := m_task_list p @ [task], accepted := accepted p @ [task]\<rparr>"
  have r: "tasks_ok ?r" using assms(1) by (auto simp: tasks_ok_def running_def)
  show ?thesis using assms(2) r tasks_ok_same[OF r, of q] unfolding Accept
    by (auto simp: acceptATask_def notify_one_def split: if_splits)
next
  case (Check t)
  then show ?thesis using assms tasks_ok_check[of p t] by (auto split: if_splits)
next
  case (Finish t)
  then show ?thesis using assms tasks_ok_finish[of p t] by (auto split: if_splits pc.splits)
next
  case (Spurious t)
  then show ?thesis using assms(2) by (auto split: if_splits intro: tasks_ok_same[OF assms(1)])
next
  case Wait_tasks
  then show ?thesis using assms tasks_ok_same[of p q] by (auto simp: waitForAllRuningTaskDone_def split: if_splits)
next
  case Destroy
  have "tasks_ok (notify_all (setToTerminate (m_thd_list p) p))"
    by (intro tasks_ok_notify_all tasks_ok_same[OF assms(1)]) (simp_all add: setToTerminate_def)
  then show ?thesis using assms(2) Destroy by (auto simp: destroy_def destroy_check_def tasks_ok_def running_def split: if_splits)
next
  case Destroy_check
  then show ?thesis using assms(1,2) by (auto simp: destroy_check_def tasks_ok_def running_def split: if_splits)
qed


subsection \<open>The threads\<close>

definition first_doomed :: "thread_pool \<Rightarrow> nat \<Rightarrow> bool" where
  "first_doomed p k \<longleftrightarrow> k + 4 \<le> length (m_thd_list p) \<and> (\<forall>t\<in>set (m_thd_list p). m_needToTerminate p t \<longleftrightarrow> t \<in> set (take k (m_thd_list p)))"

definition threads_ok :: "int \<Rightarrow> thread_pool \<Rightarrow> bool" where
  "threads_ok n p \<longleftrightarrow> m_max_thd_num p = n \<and> int (length (m_thd_list p)) \<le> max n 4
     \<and> (dtor p = Not_called \<longrightarrow> (\<exists>k. first_doomed p k))
     \<and> (dtor p \<noteq> Not_called \<longrightarrow> (\<forall>t\<in>set (m_thd_list p). m_needToTerminate p t \<and> pc_of p t \<noteq> Asleep))
     \<and> (dtor p = Dtor_asleep \<longrightarrow> m_thd_list p \<noteq> []) \<and> (dtor p = Dtor_done \<longrightarrow> m_thd_list p = [])"

lemma take_removeAll:
  assumes "distinct xs" "t \<in> set (take k xs)"
  shows "take (k - 1) (removeAll t xs) = removeAll t (take k xs)" "Suc (length (removeAll t xs)) = length xs" "0 < k"
proof -
  obtain as bs where s: "take k xs = as @ t # bs" using assms(2) by (meson split_list)
  define cs where "cs = drop k xs"
  have x: "xs = as @ t # bs @ cs" using s append_take_drop_id[of k xs] by (simp add: cs_def)
  have d: "t \<notin> set as" "t \<notin> set bs" "t \<notin> set cs" using assms(1) unfolding x by auto
  have l: "length (as @ t # bs) = min k (length xs)" using s by (metis length_take min.commute)
  then show "0 < k" by auto
  show "Suc (length (removeAll t xs)) = length xs" using d by (simp add: x)
  have "take (k - 1) (as @ bs @ cs) = as @ bs"
  proof (cases "k \<le> length xs")
    case True
    then have "k - 1 = length (as @ bs)" using l by simp
    then show ?thesis by simp
  next
    case False
    then have "cs = []" by (simp add: cs_def)
    then show ?thesis using False by (simp add: x)
  qed
  then show "take (k - 1) (removeAll t xs) = removeAll t (take k xs)" using d s by (simp add: x)
qed

lemma active_threads:
  assumes "tasks_ok p" "threads_ok n p" "dtor p = Not_called"
  shows "threads_ok n (snd (activeSomeThread p))"
proof (cases "int (length (m_thd_list p)) \<le> m_busy_thd_num p \<and> length (m_thd_list p) div 2 \<le> length (m_task_list p)")
  case True
  define j where "j = nat (min (int (length (m_thd_list p)) * 2) n - int (length (m_thd_list p)))"
  have a: "snd (activeSomeThread p) = create_for j p" using True assms(2) by (simp add: activeSomeThread_def Let_def j_def threads_ok_def)
  obtain k where k: "first_doomed p k" using assms(2,3) by (auto simp: threads_ok_def)
  have "\<forall>t\<in>set (m_thd_list p). t < spawned p" using assms(1) by (simp add: tasks_ok_def)
  then have "first_doomed (create_for j p) k" using k by (fastforce simp: create_for_gives first_doomed_def dest: in_set_takeD)
  moreover have "int (length (m_thd_list p) + j) \<le> max n 4" using assms(2) by (auto simp: j_def threads_ok_def)
  moreover have "m_max_thd_num (create_for j p) = n" "dtor (create_for j p) = Not_called" "length (m_thd_list (create_for j p)) = length (m_thd_list p) + j"
    using assms(2,3) by (simp_all add: create_for_gives threads_ok_def)
  ultimately show ?thesis unfolding a threads_ok_def by auto
qed (use assms in \<open>auto simp: activeSomeThread_def\<close>)

lemma terminate_threads:
  assumes "threads_ok n p"
  shows "threads_ok n (snd (terminateSomeThread p))"
proof (cases "m_task_list p = [] \<and> m_busy_thd_num p = 0")
  case True
  define j where "j = nat (int (length (m_thd_list p)) - max (int (length (m_thd_list p)) div 2) 4)"
  have a: "snd (terminateSomeThread p) = setToTerminate (take j (m_thd_list p)) p" using True by (simp add: terminateSomeThread_def Let_def j_def m_min_thd_num_def)
  have "first_doomed (setToTerminate (take j (m_thd_list p)) p) (max k j)" if k: "first_doomed p k" for k
  proof -
    have "set (take (max k j) (m_thd_list p)) = set (take k (m_thd_list p)) \<union> set (take j (m_thd_list p))"
      using set_take_subset_set_take[of k j "m_thd_list p"] set_take_subset_set_take[of j k "m_thd_list p"] by (auto simp: max_def)
    moreover have "max k j + 4 \<le> length (m_thd_list p)" using k by (auto simp: first_doomed_def j_def)
    ultimately show ?thesis using k by (auto simp: first_doomed_def setToTerminate_def)
  qed
  then show ?thesis using a assms by (auto simp: threads_ok_def) (auto simp: setToTerminate_def)
qed (use assms in \<open>auto simp: terminateSomeThread_def\<close>)

lemma leave_threads:
  assumes "tasks_ok p" "threads_ok n p" "t \<in> set (m_thd_list p)" "m_needToTerminate p t"
  shows "threads_ok n (thread_check t p)"
proof -
  let ?q = "p\<lparr>m_thd_list := removeAll t (m_thd_list p)\<rparr>"
  have d: "distinct (m_thd_list p)" using assms(1) by (simp add: tasks_ok_def)
  have len: "length (removeAll t (m_thd_list p)) < length (m_thd_list p)" using assms(3) by (rule length_removeAll_less)
  have k: "first_doomed ?q (k - 1)" if k: "first_doomed p k" for k
  proof -
    have "t \<in> set (take k (m_thd_list p))" using assms(3,4) k by (simp add: first_doomed_def)
    from take_removeAll[OF d this] show ?thesis using k by (auto simp: first_doomed_def)
  qed
  have c: "thread_check t p = (if removeAll t (m_thd_list p) = [] then notify_all ?q else ?q)" using assms(4) unfolding thread_check_def Let_def by auto
  show ?thesis
  proof (cases "removeAll t (m_thd_list p) = []")
    case True
    then have "dtor p \<noteq> Not_called" using k assms(2) by (auto simp: threads_ok_def first_doomed_def)
    then show ?thesis using True c assms(2,3) by (auto simp: threads_ok_def)
  next
    case False
    then show ?thesis using c k assms(2,3) len by (auto simp: threads_ok_def)
  qed
qed

lemma threads_ok_same:
  assumes "threads_ok n p" "m_thd_list q = m_thd_list p" "m_max_thd_num q = m_max_thd_num p" "m_needToTerminate q = m_needToTerminate p" "dtor q = dtor p"
    "dtor p \<noteq> Not_called \<Longrightarrow> \<forall>t\<in>set (m_thd_list p). pc_of q t \<noteq> Asleep"
  shows "threads_ok n q"
  using assms by (auto simp: threads_ok_def first_doomed_def)

lemma threads_ok_check:
  assumes "tasks_ok p" "threads_ok n p" "t \<in> set (m_thd_list p)" "pc_of p t = Ready"
  shows "threads_ok n (thread_check t p)"
proof (cases "m_needToTerminate p t")
  case True
  then show ?thesis using leave_threads[OF assms(1-3)] by blast
next
  case False
  then have nc: "dtor p = Not_called" using assms(2,3) by (auto simp: threads_ok_def)
  show ?thesis
  proof (cases "m_task_list p")
    case Nil
    have "threads_ok n (p\<lparr>pc_of := (pc_of p)(t := Asleep)\<rparr>)" by (rule threads_ok_same[OF assms(2)]) (simp_all add: nc)
    then show ?thesis using Nil False by (simp add: thread_check_def)
  next
    case (Cons task ts)
    have "threads_ok n (with_task t task ts p)" by (rule threads_ok_same[OF assms(2)]) (simp_all add: nc)
    then have "threads_ok n (snd (activeSomeThread (with_task t task ts p)))"
      using tasks_ok_with_task[OF assms(1,3,4) Cons] nc by (intro active_threads) simp_all
    then show ?thesis using take_task[OF assms(1,3) Cons False] by simp
  qed
qed

lemma threads_ok_after:
  assumes "tasks_ok p" "threads_ok n p" "t \<in> set (m_thd_list p)" "pc_of p t = Running task"
  shows "threads_ok n (after_task t task p)"
proof -
  have "threads_ok n (released t task p)" by (rule threads_ok_same[OF assms(2)]) (use assms(2) in \<open>auto simp: threads_ok_def\<close>)
  then have "threads_ok n (snd (terminateSomeThread (released t task p)))" by (rule terminate_threads)
  then show ?thesis by (auto simp: after_task_def Let_def threads_ok_def first_doomed_def)
qed

lemma threads_ok_finish:
  assumes "tasks_ok p" "threads_ok n p" "t \<in> set (m_thd_list p)" "pc_of p t = Running task"
  shows "threads_ok n (thread_finish t task p)"
  unfolding finish_check by (rule threads_ok_check[OF tasks_ok_after[OF assms(1,3,4)] threads_ok_after[OF assms]]) (simp_all add: assms(3))

lemma threads_ok_exec:
  assumes "tasks_ok p" "threads_ok n p" "pool_exec e p = Some q"
  shows "threads_ok n q"
proof (cases e)
  case (Accept task w)
  then show ?thesis using assms(3) by (auto simp: acceptATask_def notify_one_def split: if_splits intro: threads_ok_same[OF assms(2)])
next
  case (Check t)
  then show ?thesis using assms threads_ok_check[of p n t] by (auto split: if_splits)
next
  case (Finish t)
  then show ?thesis using assms threads_ok_finish[of p n t] by (auto split: if_splits pc.splits)
next
  case (Spurious t)
  then have q: "q = p\<lparr>pc_of := (pc_of p)(t := Ready)\<rparr>" using assms(3) by (auto split: if_splits)
  show ?thesis unfolding q by (rule threads_ok_same[OF assms(2)]) (use assms(2) in \<open>auto simp: threads_ok_def\<close>)
next
  case Wait_tasks
  then show ?thesis using assms(3) by (auto simp: waitForAllRuningTaskDone_def split: if_splits intro: threads_ok_same[OF assms(2)])
next
  case Destroy
  then show ?thesis using assms(2,3)
    by (auto simp: destroy_def destroy_check_def threads_ok_def split: if_splits) (auto simp: notify_all_def setToTerminate_def split: if_splits)
next
  case Destroy_check
  then show ?thesis using assms(2,3) by (auto simp: destroy_check_def threads_ok_def split: if_splits)
qed


subsection \<open>Runs\<close>

lemma start_ok: "tasks_ok (init_pool (new_pool n))" "threads_ok n (init_pool (new_pool n))"
proof -
  have "tasks_ok (new_pool n)" by (simp add: tasks_ok_def new_pool_def running_def)
  then show "tasks_ok (init_pool (new_pool n))" unfolding init_pool_def by (rule tasks_ok_create)
  have "first_doomed (init_pool (new_pool n)) 0" by (simp add: first_doomed_def init_pool_def create_for_gives new_pool_def m_min_thd_num_def)
  moreover have "m_max_thd_num (init_pool (new_pool n)) = n" "length (m_thd_list (init_pool (new_pool n))) = 4" "dtor (init_pool (new_pool n)) = Not_called"
    by (simp_all add: init_pool_def create_for_gives new_pool_def m_min_thd_num_def)
  ultimately show "threads_ok n (init_pool (new_pool n))" unfolding threads_ok_def by auto
qed

lemma reachable_ok: "pool_reachable n p \<Longrightarrow> tasks_ok p \<and> threads_ok n p"
proof (induction rule: pool_reachable.induct)
  case start
  show ?case using start_ok by simp
next
  case (step p q)
  then show ?case using tasks_ok_exec threads_ok_exec by (metis pool_stepE)
qed

lemma run_reachable: "pool_reachable n p \<Longrightarrow> pool_run es p = Some q \<Longrightarrow> pool_reachable n q"
  by (induction es arbitrary: p) (auto split: bind_splits dest: pool_reachable.step[OF _ pool_step.exec])

text \<open>With at most four threads none of them ever has to terminate before the pool is destroyed.\<close>

lemma small_pool: "threads_ok n p \<Longrightarrow> n \<le> 4 \<Longrightarrow> dtor p = Not_called \<Longrightarrow> t \<in> set (m_thd_list p) \<Longrightarrow> \<not> m_needToTerminate p t"
proof -
  assume a: "threads_ok n p" "n \<le> 4" "dtor p = Not_called" "t \<in> set (m_thd_list p)"
  then obtain k where k: "first_doomed p k" by (auto simp: threads_ok_def)
  then have "k = 0" using a(1,2) by (auto simp: threads_ok_def first_doomed_def)
  then show ?thesis using k a(4) by (simp add: first_doomed_def)
qed

definition awake :: "thread_pool \<Rightarrow> bool" where
  "awake p \<longleftrightarrow> (dtor p = Not_called \<and> m_task_list p \<noteq> [] \<longrightarrow> (\<exists>t\<in>set (m_thd_list p). pc_of p t \<noteq> Asleep))"

lemma awake_check:
  assumes "tasks_ok p" "threads_ok n p" "n \<le> 4" "t \<in> set (m_thd_list p)"
  shows "awake (thread_check t p)"
proof (cases "m_task_list p")
  case Nil
  then show ?thesis by (simp add: awake_def thread_check_def Let_def)
next
  case (Cons task ts)
  show ?thesis
  proof (cases "m_needToTerminate p t")
    case True
    then have "dtor p \<noteq> Not_called" using small_pool[OF assms(2,3) _ assms(4)] by blast
    then show ?thesis using True by (simp add: awake_def thread_check_def Let_def)
  next
    case False
    have "t < spawned p" using assms(1,4) by (simp add: tasks_ok_def)
    then have "t \<in> set (m_thd_list (thread_check t p)) \<and> pc_of (thread_check t p) t = Running task"
      using take_task[OF assms(1,4) Cons False] assms(4) by (auto simp: activeSomeThread_def Let_def create_for_gives)
    then show ?thesis unfolding awake_def by (metis pc.distinct(5))
  qed
qed

lemma awake_exec:
  assumes "tasks_ok p" "threads_ok n p" "n \<le> 4" "awake p" "pool_exec e p = Some q"
  shows "awake q"
proof (cases e)
  case (Accept task w)
  have "dtor p = Not_called" using assms(5) Accept by (simp split: if_splits)
  then have "m_thd_list p \<noteq> []" using assms(2) by (auto simp: threads_ok_def first_doomed_def)
  then obtain t where "t \<in> set (m_thd_list p)" by (cases "m_thd_list p") auto
  then have "sleepers p = [] \<Longrightarrow> \<exists>t\<in>set (m_thd_list p). pc_of p t \<noteq> Asleep" by (auto simp: sleepers_def filter_empty_conv)
  moreover have "sleepers (p\<lparr>m_task_list := x, accepted := y\<rparr>) = sleepers p" for x y by (simp add: sleepers_def)
  ultimately show ?thesis using assms(5) unfolding Accept by (auto simp: acceptATask_def notify_one_def awake_def split: if_splits)
next
  case (Check t)
  then show ?thesis using assms(5) awake_check[OF assms(1-3), of t] by (auto split: if_splits)
next
  case (Finish t)
  then obtain task where t: "t \<in> set (m_thd_list p)" "pc_of p t = Running task" "q = thread_finish t task p"
    using assms(5) by (auto split: if_splits pc.splits)
  have "threads_ok n (after_task t task p)" using assms(1,2) t(1,2) by (intro threads_ok_after)
  then show ?thesis unfolding t(3) finish_check using tasks_ok_after[OF assms(1) t(1,2)] assms(3) t(1) by (intro awake_check) simp_all
next
  case (Spurious t)
  then show ?thesis using assms(5) by (auto simp: awake_def split: if_splits)
next
  case Wait_tasks
  then show ?thesis using assms(4,5) by (auto simp: awake_def waitForAllRuningTaskDone_def split: if_splits)
next
  case Destroy
  then show ?thesis using assms(5) by (auto simp: awake_def destroy_def destroy_check_def split: if_splits)
next
  case Destroy_check
  then show ?thesis using assms(5) by (auto simp: awake_def destroy_check_def split: if_splits)
qed

lemma reachable_awake: "pool_reachable n p \<Longrightarrow> n \<le> 4 \<Longrightarrow> awake p"
proof (induction rule: pool_reachable.induct)
  case start
  show ?case by (simp add: awake_def init_pool_def create_for_gives new_pool_def)
next
  case (step p q)
  then show ?case using reachable_ok[OF step.hyps(1)] awake_exec by (metis pool_stepE)
qed

end
