(* ===== verification/Thread_Pool_Props.thy ===== *)
theory Thread_Pool_Props
  imports Thread_Pool_Laws
begin

text \<open>What the thread pool promises in every interleaving of its threads, and a task that it forgets.\<close>

definition a_task :: "nat \<Rightarrow> Task" where
  "a_task n = \<lparr>m_callback = n, m_args = 0, m_name = ''work''\<rparr>"

text \<open>A run that grows the pool to eight threads, lets them finish six tasks, and marks the first four threads for termination.\<close>

definition busy_run :: "pool_event list" where
  "busy_run = map (\<lambda>n. Accept (a_task n) 0) [1..<7] @ map Check [0..<8] @ map Finish [0..<6]"

lemma run_from_start: "pool_run es (init_pool (new_pool n)) = Some p \<Longrightarrow> pool_reachable n p"
  by (rule run_reachable[OF pool_reachable.start])

lemma busy_run_gives:
  obtains p where "pool_run busy_run (init_pool (new_pool 20)) = Some p" "started p = map a_task [1..<7]" "finished p = map a_task [1..<7]"
    "accepted p = started p" "dtor p = Not_called"
proof -
  have "case pool_run busy_run (init_pool (new_pool 20)) of None \<Rightarrow> False
    | Some p \<Rightarrow> started p = map a_task [1..<7] \<and> finished p = map a_task [1..<7] \<and> accepted p = started p \<and> dtor p = Not_called" by code_simp
  then show thesis using that by (auto split: option.splits)
qed

text \<open>C38. In every interleaving: tasks are started in the order in which they were accepted, none is lost and none is started twice; a task
  that was started is finished or being run; and the number of busy threads is the number of tasks that are being run.\<close>

theorem pool_tasks_once:
  assumes "pool_reachable n p"
  shows "m_busy_thd_num p = int (size (running p)) \<and> mset (started p) = mset (finished p) + running p
    \<and> (dtor p \<noteq> Dtor_done \<longrightarrow> started p @ m_task_list p = accepted p)"
  using reachable_ok[OF assms] by (simp add: tasks_ok_def)

lemma pool_tasks_once_witness:
  "\<exists>p. pool_run busy_run (init_pool (new_pool 20)) = Some p \<and> m_busy_thd_num p = 0 \<and> m_task_list p = [] \<and> length (started p) = 6"
proof -
  obtain p where p: "pool_run busy_run (init_pool (new_pool 20)) = Some p" "started p = map a_task [1..<7]" "finished p = map a_task [1..<7]" "accepted p = started p"
    "dtor p = Not_called" by (rule busy_run_gives)
  then show ?thesis using pool_tasks_once[OF run_from_start[OF p(1)]] by (intro exI[of _ p]) auto
qed

text \<open>In every interleaving there are at most \<open>m_max_thd_num\<close> threads (or the four that \<^verbatim>\<open>init\<close> creates), and until the pool is destroyed at least
  \<open>m_min_thd_num\<close> of them do not have to terminate.\<close>

theorem pool_thread_numbers:
  assumes "pool_reachable n p"
  shows "int (length (m_thd_list p)) \<le> max n m_min_thd_num
    \<and> (dtor p = Not_called \<longrightarrow> m_min_thd_num \<le> int (length (filter (\<lambda>t. \<not> m_needToTerminate p t) (m_thd_list p))))"
proof -
  have ok: "tasks_ok p" "threads_ok n p" using reachable_ok[OF assms] by auto
  have "4 \<le> length (filter (\<lambda>t. \<not> m_needToTerminate p t) (m_thd_list p))" if k: "first_doomed p k" for k
  proof -
    have "set (take k (m_thd_list p)) \<inter> set (drop k (m_thd_list p)) = {}" using ok(1) by (intro set_take_disj_set_drop_if_distinct) (simp_all add: tasks_ok_def)
    then have "filter (\<lambda>t. \<not> m_needToTerminate p t) (drop k (m_thd_list p)) = drop k (m_thd_list p)"
      using k by (auto simp: first_doomed_def filter_id_conv dest: in_set_dropD)
    moreover have "length (filter (\<lambda>t. \<not> m_needToTerminate p t) (drop k (m_thd_list p))) \<le> length (filter (\<lambda>t. \<not> m_needToTerminate p t) (m_thd_list p))"
      by (metis append_take_drop_id filter_append le_add2 length_append)
    ultimately show ?thesis using k by (auto simp: first_doomed_def)
  qed
  then show ?thesis using ok(2) by (auto simp: threads_ok_def m_min_thd_num_def)
qed

lemma pool_thread_numbers_witness:
  "\<exists>p. pool_run busy_run (init_pool (new_pool 20)) = Some p \<and> length (m_thd_list p) \<le> 20 \<and> 4 \<le> length (filter (\<lambda>t. \<not> m_needToTerminate p t) (m_thd_list p))"
proof -
  obtain p where p: "pool_run busy_run (init_pool (new_pool 20)) = Some p" "dtor p = Not_called" by (rule busy_run_gives)
  then show ?thesis using pool_thread_numbers[OF run_from_start[OF p(1)]] by (intro exI[of _ p]) (auto simp: m_min_thd_num_def)
qed

text \<open>The destructor of the pool does not wait for ever: once it was called, and no thread of the pool can do a step any more, it has
  ended and there is no thread left.\<close>

theorem pool_shuts_down:
  assumes "pool_reachable n p" and "dtor p \<noteq> Not_called"
    and "\<forall>t. pool_exec (Check t) p = None \<and> pool_exec (Finish t) p = None" and "pool_exec Destroy_check p = None"
  shows "dtor p = Dtor_done \<and> m_thd_list p = []"
proof -
  have ok: "threads_ok n p" using reachable_ok[OF assms(1)] by auto
  have e: "m_thd_list p = []"
  proof (rule ccontr)
    assume "m_thd_list p \<noteq> []"
    then obtain t where t: "t \<in> set (m_thd_list p)" by (cases "m_thd_list p") auto
    then have "pc_of p t \<noteq> Asleep" using ok assms(2) by (simp add: threads_ok_def)
    moreover have "pool_exec (Check t) p = None" "pool_exec (Finish t) p = None" using assms(3) by blast+
    ultimately show False using t by (cases "pc_of p t") simp_all
  qed
  have "dtor p \<noteq> Dtor_ready" using assms(4) by (auto split: if_splits)
  moreover have "dtor p \<noteq> Dtor_asleep" using ok e by (auto simp: threads_ok_def)
  ultimately show ?thesis using e assms(2) by (cases "dtor p") auto
qed

definition shutdown_run :: "pool_event list" where
  "shutdown_run = [Accept (a_task 1) 0, Check 0, Check 1, Check 2, Destroy, Check 1, Finish 0, Check 2, Check 3, Destroy_check]"

lemma pool_shuts_down_witness: "\<exists>p. pool_run shutdown_run (init_pool (new_pool 4)) = Some p \<and> dtor p = Dtor_done \<and> m_thd_list p = []"
proof -
  have "case pool_run shutdown_run (init_pool (new_pool 4)) of None \<Rightarrow> False | Some p \<Rightarrow> m_thd_list p = [] \<and> dtor p \<noteq> Not_called \<and> dtor p \<noteq> Dtor_ready" by code_simp
  then obtain p where p: "pool_run shutdown_run (init_pool (new_pool 4)) = Some p" "m_thd_list p = []" "dtor p \<noteq> Not_called" "dtor p \<noteq> Dtor_ready"
    by (auto split: option.splits)
  show ?thesis using pool_shuts_down[OF run_from_start[OF p(1)]] p by auto
qed

text \<open>In a pool of at most four threads a task in the queue is never forgotten: some thread is not blocked, and it will look for it.\<close>

theorem pool_no_task_forgotten:
  assumes "pool_reachable n p" and "n \<le> 4" and "dtor p = Not_called" and "m_task_list p \<noteq> []"
  shows "\<exists>t. pool_exec (Check t) p \<noteq> None \<or> pool_exec (Finish t) p \<noteq> None"
proof -
  obtain t where t: "t \<in> set (m_thd_list p)" "pc_of p t \<noteq> Asleep" using reachable_awake[OF assms(1,2)] assms(3,4) by (auto simp: awake_def)
  then show ?thesis by (intro exI[of _ t]) (cases "pc_of p t", simp_all)
qed

lemma pool_no_task_forgotten_witness:
  "\<exists>p t. pool_run [Accept (a_task 1) 0, Check 0, Accept (a_task 2) 1] (init_pool (new_pool 4)) = Some p \<and> (pool_exec (Check t) p \<noteq> None \<or> pool_exec (Finish t) p \<noteq> None)"
proof -
  have "case pool_run [Accept (a_task 1) 0, Check 0, Accept (a_task 2) 1] (init_pool (new_pool 4)) of None \<Rightarrow> False | Some p \<Rightarrow> m_task_list p \<noteq> [] \<and> dtor p = Not_called" by code_simp
  then obtain p where p: "pool_run [Accept (a_task 1) 0, Check 0, Accept (a_task 2) 1] (init_pool (new_pool 4)) = Some p" "m_task_list p \<noteq> []" "dtor p = Not_called"
    by (auto split: option.splits)
  show ?thesis using pool_no_task_forgotten[OF run_from_start[OF p(1)] _ p(3,2)] p(1) by auto
qed

text \<open>In a larger pool it can be: the notification of \<^verbatim>\<open>acceptATask\<close> may wake a thread that has to terminate, which leaves without passing it
  on. The task stays in the queue while all threads that are left, none of which has anything else to do, are blocked.\<close>

theorem pool_forgets_task:
  "\<exists>es p. pool_run es (init_pool (new_pool 20)) = Some p \<and> dtor p = Not_called \<and> m_task_list p = [a_task 7]
     \<and> (\<exists>t\<in>set (m_thd_list p). \<not> m_needToTerminate p t) \<and> (\<forall>t\<in>set (m_thd_list p). pc_of p t = Asleep)"
proof -
  have "case pool_run (busy_run @ [Accept (a_task 7) 0, Check 0]) (init_pool (new_pool 20)) of None \<Rightarrow> False
    | Some p \<Rightarrow> dtor p = Not_called \<and> m_task_list p = [a_task 7] \<and> (\<exists>t\<in>set (m_thd_list p). \<not> m_needToTerminate p t) \<and> (\<forall>t\<in>set (m_thd_list p). pc_of p t = Asleep)"
    by code_simp
  then show ?thesis by (auto split: option.splits)
qed

text \<open>\<^verbatim>\<open>waitForAllRuningTaskDone\<close> waits without a predicate: when the tasks are done before it is called, nobody wakes it.\<close>

definition idle_run :: "pool_event list" where
  "idle_run = [Accept (a_task 1) 0] @ map Check [0..<4] @ [Finish 0, Wait_tasks]"

lemma wait_for_nothing:
  "\<exists>p. pool_run idle_run (init_pool (new_pool 4)) = Some p \<and> user_waits p \<and> m_task_list p = [] \<and> (\<forall>t\<in>set (m_thd_list p). pc_of p t = Asleep)"
proof -
  have "case pool_run idle_run (init_pool (new_pool 4)) of None \<Rightarrow> False
    | Some p \<Rightarrow> user_waits p \<and> m_task_list p = [] \<and> (\<forall>t\<in>set (m_thd_list p). pc_of p t = Asleep)" by code_simp
  then show ?thesis by (auto split: option.splits)
qed

end
