(* ===== verification/Spec2Isabelle.thy ===== *)
theory Spec2Isabelle
  imports Btree_Props MemPool_Props Deadlock_Run Net_Reply Dns_Client Kmp Rbtree_App Sds_Args Sds_Edit Sds_Format Async_Props Linked_Props Memleak Thread_Pool_Props
begin

text \<open>
  \<^bold>\<open>What the repository is.\<close> A collection of C programs, each in a directory of its own under \<^verbatim>\<open>src/\<close>: data
  structures, a memory pool, a deadlock detector, a small network stack, DNS clients and a redis client on
  top of the hiredis library. They share no code but hiredis, whose files build on each other:
  \<^verbatim>\<open>sds.c\<close> (strings) and \<^verbatim>\<open>dict.c\<close> at the bottom, \<^verbatim>\<open>read.c\<close> (the reader of replies) over \<^verbatim>\<open>sds.c\<close>, \<^verbatim>\<open>hiredis.c\<close>
  (reply objects, command formatting, the connection context) over both, \<^verbatim>\<open>async.c\<close> over all.

  \<^bold>\<open>How C is modelled.\<close> \<^theory_text>\<open>Prelude\<close> has the vocabulary. An array is a list, and an access outside of it is
  \<open>None\<close>, which also stands for following a null or dangling pointer, a failed \<^verbatim>\<open>assert\<close> and a loop that does
  not end (\<^theory_text>\<open>partial_function (option)\<close>); a theorem that a function returns \<open>Some\<close> therefore says that it
  ends and stays inside of its memory. Nodes that the code shares and mutates live in an explicit memory
  (a map from addresses, or one function per field). \<^verbatim>\<open>size_t\<close>, \<^verbatim>\<open>unsigned\<close> and the 16-bit fields of packets wrap as in C
  (\<open>size_t\<close>, \<open>u32\<close>, \<open>int32\<close>, \<^verbatim>\<open>word\<close>). Library and system calls (\<^verbatim>\<open>malloc\<close>, \<^verbatim>\<open>posix_memalign\<close>, \<^verbatim>\<open>read\<close>, \<^verbatim>\<open>write\<close>, \<^verbatim>\<open>recvfrom\<close>,
  netmap) are arguments of the model; where a theorem needs memory, "the allocator does not run out" is a
  hypothesis that its witness discharges on a concrete allocator. Where fuel would be needed there is
  none: loops are structural, have a measure, or are \<^theory_text>\<open>partial_function\<close>s proved to return.

  \<^bold>\<open>The theories, by component.\<close>

  \<^item> \<^verbatim>\<open>0_kmp_and_linkedlist/kmp.c\<close>: \<^theory_text>\<open>Kmp\<close>. The failure table and the search; the table has the longest
    borders, the search returns the first occurrence, the table of 20 entries overflows.
  \<^item> \<^verbatim>\<open>0_kmp_and_linkedlist/linkedTest.cpp\<close>: \<^theory_text>\<open>Linked\<close> (the code on a memory of nodes), \<^theory_text>\<open>Linked_Laws\<close> (lists in a memory, the
    orbit of a pointer), \<^theory_text>\<open>Linked_Props\<close>.
  \<^item> \<^verbatim>\<open>1_rbtree/rbtree.c\<close>: \<^theory_text>\<open>Rbtree\<close> (one function per field of a node, the code), \<^theory_text>\<open>Rbtree_Shape\<close> (which tree a
    memory holds, contexts, frames), \<^theory_text>\<open>Rbtree_Insert\<close> and \<^theory_text>\<open>Rbtree_Delete\<close> (the rebalancing on every branch).
    \<^verbatim>\<open>rbt_appDemo.c\<close>: \<^theory_text>\<open>Rbtree_App\<close>, with the interface of an index as the locales \<^verbatim>\<open>lookup_index\<close> and \<^verbatim>\<open>node_index\<close>.
  \<^item> \<^verbatim>\<open>2_btree/btree.c\<close>: \<^theory_text>\<open>Btree\<close> (the code on a memory of nodes), \<^theory_text>\<open>Btree_Arrays\<close> (its loops over arrays),
    \<^theory_text>\<open>Btree_Tree\<close> (which tree a memory holds, splitting), \<^theory_text>\<open>Btree_Insert\<close>, \<^theory_text>\<open>Btree_Repair\<close> and \<^theory_text>\<open>Btree_Merge\<close> (borrowing and
    merging), \<^theory_text>\<open>Btree_Fill\<close> (the child that is entered), \<^theory_text>\<open>Btree_Delete\<close>, \<^theory_text>\<open>Btree_Props\<close>.
  \<^item> \<^verbatim>\<open>5_userspace_stack/udp_icmp_arp_stack.c\<close>: \<^theory_text>\<open>Net_Stack\<close> (packets as bytes with named fields, the replies),
    \<^theory_text>\<open>Net_Laws\<close> (the checksum against RFC 1071), \<^theory_text>\<open>Net_Reply\<close> (the frames that answer pings and ARP requests).
  \<^item> \<^verbatim>\<open>7_thread_pool/ThreadPool.cpp\<close>: \<^theory_text>\<open>Thread_Pool\<close> (what a thread does between taking and releasing the mutex, as a step
    relation), \<^theory_text>\<open>Thread_Pool_Laws\<close> (the accounts of the tasks and of the threads, kept by every step), \<^theory_text>\<open>Thread_Pool_Props\<close> (what
    every interleaving keeps, and the task that a pool of more than four threads can forget).
  \<^item> \<^verbatim>\<open>8_mem_pool/MemPool.c\<close>: \<^theory_text>\<open>MemPool\<close> (the code), \<^theory_text>\<open>MemPool_Laws\<close> and \<^theory_text>\<open>MemPool_Pool\<close> (the invariant, allocation),
    \<^theory_text>\<open>MemPool_Free\<close> (freeing, clearing a block), \<^theory_text>\<open>MemPool_Life\<close> (creation, reset, end), \<^theory_text>\<open>MemPool_Client\<close> (the pool as an
    instance of the locale \<^verbatim>\<open>piece_store\<close>), \<^theory_text>\<open>MemPool_Props\<close>.
  \<^item> \<^verbatim>\<open>9_using_hiredis_api/hiredis/sds.c\<close>: \<^theory_text>\<open>Sds\<close> (headers, growth), \<^theory_text>\<open>Sds_Text\<close> (appending, numbers; the locale
    \<^verbatim>\<open>byte_buffer\<close>), \<^theory_text>\<open>Sds_Edit\<close> (trim, range, split, join), \<^theory_text>\<open>Sds_Args\<close> (quoting and unquoting), \<^theory_text>\<open>Sds_Format\<close>.
  \<^item> \<^verbatim>\<open>9_using_hiredis_api/hiredis/dict.c\<close> and the dictionary types of \<^verbatim>\<open>async.c\<close>: \<^theory_text>\<open>Dict\<close>, and \<^theory_text>\<open>Dict_Laws\<close>, which
    refines a map (locale \<^verbatim>\<open>key_type\<close>, interpreted on the type of the callback tables).
  \<^item> \<^verbatim>\<open>9_using_hiredis_api/hiredis/read.c\<close>: \<^theory_text>\<open>Read\<close> (the reader), \<^theory_text>\<open>Read_Text\<close> (lines and numbers), \<^theory_text>\<open>Read_Spec\<close> (an
    abstract parser of the input that is left, which the reader refines), \<^theory_text>\<open>Read_Session\<close> (input in chunks).
  \<^item> \<^verbatim>\<open>9_using_hiredis_api/hiredis/hiredis.c\<close>: \<^theory_text>\<open>Reply\<close> and \<^theory_text>\<open>Reply_Laws\<close> (reply objects in a heap, the protocol
    text of a reply and back), \<^theory_text>\<open>Command\<close>, \<^theory_text>\<open>Command_Laws\<close> and \<^theory_text>\<open>Command_Format\<close> (the formatting of commands),
    \<^theory_text>\<open>Context\<close> (the synchronous connection). The first property, below, runs through all of them.
  \<^item> \<^verbatim>\<open>9_using_hiredis_api/hiredis/async.c\<close>: \<^theory_text>\<open>Async\<close> (the code; what the client and the event library have behind a function
    pointer is an argument, and a use of a freed context is \<open>None\<close>), \<^theory_text>\<open>Async_Laws\<close> (callbacks, freeing), \<^theory_text>\<open>Async_Replies\<close> (read
    events against the reader), \<^theory_text>\<open>Async_Commands\<close> (the words of a command), \<^theory_text>\<open>Async_Subs\<close> (the tables of subscriptions, which rest
    on the interpretation of \<^verbatim>\<open>key_type\<close>), \<^theory_text>\<open>Async_Props\<close>.
  \<^item> \<^verbatim>\<open>10_async_request_pool_by_epoll/\<close>: \<^theory_text>\<open>Dns\<close> (query, names, responses), \<^theory_text>\<open>Dns_Laws\<close> and \<^theory_text>\<open>Dns_Response\<close> (against
    the format of RFC 1035), \<^theory_text>\<open>Dns_Client\<close> (the synchronous client, and rounds of the asynchronous one).
  \<^item> \<^verbatim>\<open>11_deadlock_detector/deadlock_detector.c\<close>: \<^theory_text>\<open>Deadlock\<close> (the graph, the hooks, a round of the detector),
    \<^theory_text>\<open>Deadlock_Graph\<close> (the hooks as updates of two maps), \<^theory_text>\<open>Deadlock_Cycle\<close> (a round finds a cycle exactly when
    there is one), \<^theory_text>\<open>Deadlock_Run\<close> (all interleavings of threads with the hooks as an inductive step relation).
  \<^item> \<^verbatim>\<open>12_memleak_detector/memleak_detector.c\<close>: \<^theory_text>\<open>Memleak\<close>. The files are a map from paths to their text.

  \<^bold>\<open>What is shown.\<close> For every component its invariant and that each operation keeps it, the result of each
  operation on every branch, and where the code goes wrong: each of those theorems exhibits the input.
  Correctness theorems state the exact conditions under which the code is right, so their hypotheses
  (no red brother in a deletion, sizes that leave room for a header, keys of leaves) mark the faults.

  \<^bold>\<open>Not modelled.\<close> \<^verbatim>\<open>main\<close> functions, demos and tests; printing that has no result; opening sockets, epoll and
  netmap descriptors, threads and timers, whose effect is outside of the program (\<^verbatim>\<open>net.c\<close>, \<^verbatim>\<open>4_high_concurrency_reacor_test\<close>,
  \<^verbatim>\<open>13_using_libevent\<close>, the creation of threads in \<^verbatim>\<open>10_*\<close> and \<^verbatim>\<open>11_*\<close>); the C++ parts (\<^verbatim>\<open>3_cpp11_feature\<close>, \<^verbatim>\<open>6_connections_pool_for_mysql\<close>,
  \<^verbatim>\<open>RedisConn.cpp\<close>), which rest on the standard library and on MySQL. Of \<^verbatim>\<open>hiredis.c\<close> the functions that connect and
  configure a socket only call \<^verbatim>\<open>net.c\<close>. Of \<^verbatim>\<open>async.c\<close> the same holds for the functions that connect; of
  \<^verbatim>\<open>net.c\<close> only the test for a socket error is modelled.
\<close>

text \<open>
  C1. A blocking command, from the arguments to the reply object: the bytes that reach the server are
  the protocol text of the command, however often \<^verbatim>\<open>write\<close> takes only a part of it, and the reply of
  the server, in whatever pieces \<^verbatim>\<open>read\<close> returns it, comes back as the object that it encodes.
\<close>

theorem redisCommandArgv_roundtrip:
  assumes "\<forall>n. mem n" and "never_null mal" and "fits 0 rp" and "length (encode rp) < 2 ^ 31 - 2"
    and "argv_holds argv argvlen xs" and "length (encode (Multi (map Bulk xs))) < 2 ^ 31 - 1"
    and "\<forall>k\<in>set ks. 0 < k" and "sum_list ks = length (encode (Multi (map Bulk xs)))"
    and "concat ts = encode rp" and "\<forall>t\<in>set ts. t \<noteq> [] \<and> length t \<le> 16384"
  shows "\<exists>c c' ob. redisConnectFd mem mal h d = Some (Some c)
    \<and> redisCommandArgv mal c (length xs) argv argvlen \<lparr>reads = map R_bytes ts, writes = map W_bytes ks, written = []\<rparr>
        = Some (ob, c', \<lparr>reads = [], writes = [], written = encode (Multi (map Bulk xs))\<rparr>)
    \<and> cerr c' = 0 \<and> tree_at 9 (objs (reader c')) ob = Some rp"
proof -
  define n where "n = length (encode (Multi (map Bulk xs)))"
  have ts: "\<forall>t\<in>set ts. t \<noteq> []" "ts \<noteq> []" using assms(9,10) encode_nonempty[of rp] by auto
  obtain r r' where r: "redisReaderCreate mem mal h = Some (Some r)"
    "session mal r ts = Some (replicate (length ts - 1) 0 @ [length h + 1], r')"
    "objs r' = h @ map Some (layout (length h + 1) rp)" "rerr r' = 0"
    using session_encode[OF assms(1-4,9) ts(1)] by blast
  obtain c e where c: "redisConnectFd mem mal h d = Some (Some c)" "blocking c" "cerr c = 0" "reader c = r"
    "obuf c = Some e" "sds_ok e" "str e = []" "fd c = d"
    using redisConnectFd_gives[OF r(1) assms(1,2)] .
  obtain cmd where cmd: "redisFormatSdsCommandArgv mal (length xs) argv argvlen = Some (int n, Some cmd)" "sds_ok cmd"
    "str cmd = encode (Multi (map Bulk xs))"
    using redisFormatSds_spec[OF assms(5,2)] assms(6) n_def by auto
  have lc: "sdslen cmd = n" using length_str[OF cmd(2)] cmd(3) by (simp add: sdslen_def n_def)
  have le: "sdslen e = 0" using length_str[OF c(6)] c(7) by (simp add: sdslen_def)
  have buf: "take n (buf cmd) = encode (Multi (map Bulk xs))" "n \<le> length (buf cmd)"
    using cmd(2,3) lc by (auto simp: str_def sdslen_def sds_ok_def)
  have n: "n < 2 ^ 31 - 1" "0 < n" using assms(6) encode_nonempty[of "Multi (map Bulk xs)"] by (auto simp: n_def simp del: encode.simps)
  obtain s where s: "appendCommand mal c (buf cmd) n = Some (REDIS_OK, c\<lparr>obuf := Some s\<rparr>)" "sds_ok s"
    "str s = encode (Multi (map Bulk xs))"
    using appendCommand_gives[OF assms(2) c(5,6), of n "buf cmd"] n le buf c(7) by auto
  have ls: "sdslen s = n" using length_str[OF s(2)] s(3) by (simp add: sdslen_def n_def)
  obtain e' where "redisGetReply mal (c\<lparr>obuf := Some s\<rparr>) \<lparr>reads = map R_bytes ts @ [], writes = map W_bytes ks @ [], written = []\<rparr>
    = Some (REDIS_OK, length h + 1, (c\<lparr>obuf := Some s\<rparr>)\<lparr>obuf := Some e', reader := r'\<rparr>, \<lparr>reads = [], writes = [], written = [] @ str s\<rparr>)"
    using redisGetReply_spec[OF assms(2), of "c\<lparr>obuf := Some s\<rparr>" s ts "length h + 1" r' ks "[]" "[]" "[]"]
      Create_fields[OF r(1)] c s(2) ls n r ts(2) assms(7,8,10) n_def encode_nonempty[of "Multi (map Bulk xs)"] s(3)
    by (auto simp: blocking_def simp del: encode.simps)
  moreover have "redisAppendCommandArgv mal c (length xs) argv argvlen = Some (REDIS_OK, c\<lparr>obuf := Some s\<rparr>)"
    using cmd(1) s(1) n by (simp add: redisAppendCommandArgv_def)
  moreover have "tree_at 9 (objs r') (length h + 1) = Some rp"
    using tree_at_layout(1)[of "length h + 1" h rp 9 "[]"] fits_depth[OF assms(3)] r(3) by simp
  ultimately show ?thesis
    using c(1-3) s(3) by (auto simp: redisCommandArgv_def blockForReply_def blocking_def simp del: encode.simps)
qed

lemma redisCommandArgv_roundtrip_witness:
  "\<exists>c c' ob. redisConnectFd (\<lambda>_. True) zero_mal [] 3 = Some (Some c)
    \<and> redisCommandArgv zero_mal c (length [''GET'', ''k'']) [''GET'', ''key''] (Some [3, 1])
        \<lparr>reads = map R_bytes [''$'', ''2'' @ CRLF @ ''o'', ''k'' @ CRLF], writes = map W_bytes [4, 16], written = []\<rparr>
        = Some (ob, c', \<lparr>reads = [], writes = [], written = encode (Multi (map Bulk [''GET'', ''k'']))\<rparr>)
    \<and> cerr c' = 0 \<and> tree_at 9 (objs (reader c')) ob = Some (Bulk ''ok'')"
proof -
  have e: "encode (Bulk ''ok'') = concat [''$'', ''2'' @ CRLF @ ''o'', ''k'' @ CRLF]"
    by (simp add: encode.simps CRLF_def dec.simps char_of_def bit_0)
  show ?thesis
    by (rule redisCommandArgv_roundtrip[OF _ never_null_zero _ _ get_k _ _ _ e[symmetric]])
      (use get_k_length e in \<open>auto simp: CRLF_def simp del: encode.simps(6)\<close>)
qed
end
